(* ===== verification/Prelude.thy ===== *)
theory Prelude
  imports Main "HOL-Library.Word" "HOL-Library.Multiset"
begin

unbundle bit_operations_syntax

text \<open>
  The vocabulary every other theory shares.

  \<^item> \<open>outcome\<close> is what a fallible Rust function can do: return \<open>Ok\<close>, return \<open>Err\<close>, or reach a
    panic (an \<open>unwrap\<close> or \<open>expect\<close> on nothing, a failed \<open>assert!\<close>). Every panic of a modelled
    function is the value \<open>Panic\<close>, so that a theorem can say it is never reached.
  \<^item> \<open>checked_add\<close> is Rust's \<open>checked_add\<close> on a machine word; \<open>checked_add64\<close> is the same
    operation on an address or a counter that a theory keeps as a \<open>nat\<close> below \<open>2 ^ 64\<close>.
  \<^item> \<open>position\<close> and \<open>flatten\<close> are \<open>Iterator::position\<close> and \<open>Iterator::flatten\<close> over a fixed
    array of \<open>Option\<close> slots, the shape of every kernel table.
\<close>

section \<open>Types\<close>

type_synonym u8 = "8 word"
type_synonym u16 = "16 word"
type_synonym u32 = "32 word"
type_synonym u64 = "64 word"
type_synonym bytes = "8 word list"
type_synonym 'a slots = "'a option list"

datatype ('e, 'a) outcome = Ok 'a | Err 'e | Panic

text \<open>Offsets stay numerals: \<open>4 + 2\<close> is \<open>6\<close>, not a tower of \<open>Suc\<close>.\<close>

declare add_2_eq_Suc [simp del] add_2_eq_Suc' [simp del]

section \<open>Definitions\<close>

named_theorems op_defs \<open>definitions of the modelled operations, for unfolding\<close>

primrec and_then :: "('e, 'a) outcome \<Rightarrow> ('a \<Rightarrow> ('e, 'b) outcome) \<Rightarrow> ('e, 'b) outcome" where
  "and_then (Ok x) f = f x"
| "and_then (Err e) f = Err e"
| "and_then Panic f = Panic"

text \<open>Rust's \<open>?\<close> in a method with \<open>&mut self\<close>: an error returns early with the state as it is.\<close>

primrec or_return :: "('e, 'a) outcome \<Rightarrow> 's \<Rightarrow> ('a \<Rightarrow> ('e, 'b) outcome \<times> 's) \<Rightarrow> ('e, 'b) outcome \<times> 's" where
  "or_return (Ok x) s f = f x"
| "or_return (Err e) s f = (Err e, s)"
| "or_return Panic s f = (Panic, s)"

primrec map_err :: "('e \<Rightarrow> 'f) \<Rightarrow> ('e, 'a) outcome \<Rightarrow> ('f, 'a) outcome" where
  "map_err h (Ok x) = Ok x"
| "map_err h (Err e) = Err (h e)"
| "map_err h Panic = Panic"

primrec ok_or :: "'e \<Rightarrow> 'a option \<Rightarrow> ('e, 'a) outcome" where
  "ok_or e None = Err e"
| "ok_or e (Some x) = Ok x"

primrec expect :: "'a option \<Rightarrow> ('e, 'a) outcome" where
  "expect None = Panic"
| "expect (Some x) = Ok x"

primrec is_ok :: "('e, 'a) outcome \<Rightarrow> bool" where
  "is_ok (Ok x) = True"
| "is_ok (Err e) = False"
| "is_ok Panic = False"

definition u64_limit :: nat where
  "u64_limit = 18446744073709551616"

definition checked_add64 :: "nat \<Rightarrow> nat \<Rightarrow> nat option" where
  "checked_add64 a b = (if a + b < u64_limit then Some (a + b) else None)"

definition saturating_add64 :: "nat \<Rightarrow> nat \<Rightarrow> nat" where
  "saturating_add64 a b = min (a + b) (u64_limit - 1)"

definition checked_add :: "'a::len word \<Rightarrow> 'a word \<Rightarrow> 'a word option" where
  "checked_add a b = (if unat a + unat b < 2 ^ LENGTH('a) then Some (a + b) else None)"

definition div_ceil :: "nat \<Rightarrow> nat \<Rightarrow> nat" where
  "div_ceil a b = (if a mod b = 0 then a div b else a div b + 1)"

primrec position :: "('a \<Rightarrow> bool) \<Rightarrow> 'a list \<Rightarrow> nat option" where
  "position P [] = None"
| "position P (x # xs) = (if P x then Some 0 else map_option Suc (position P xs))"

text \<open>\<open>Iterator::min_by_key\<close>: the first of the elements with the least key.\<close>

primrec min_by_key :: "('a \<Rightarrow> 'k::linorder) \<Rightarrow> 'a list \<Rightarrow> 'a option" where
  "min_by_key f [] = None"
| "min_by_key f (x # xs) = (case min_by_key f xs of None \<Rightarrow> Some x | Some y \<Rightarrow> if f y < f x then Some y else Some x)"

primrec flatten :: "'a option list \<Rightarrow> 'a list" where
  "flatten [] = []"
| "flatten (x # xs) = (case x of None \<Rightarrow> flatten xs | Some y \<Rightarrow> y # flatten xs)"

section \<open>Outcomes\<close>

lemma and_then_Ok_iff: "and_then m f = Ok y \<longleftrightarrow> (\<exists>x. m = Ok x \<and> f x = Ok y)"
  by (cases m) auto

lemma and_then_Err_iff: "and_then m f = Err e \<longleftrightarrow> m = Err e \<or> (\<exists>x. m = Ok x \<and> f x = Err e)"
  by (cases m) auto

lemma and_then_Panic_iff: "and_then m f = Panic \<longleftrightarrow> m = Panic \<or> (\<exists>x. m = Ok x \<and> f x = Panic)"
  by (cases m) auto

lemma ok_or_Ok_iff [simp]: "ok_or e m = Ok x \<longleftrightarrow> m = Some x"
  by (cases m) auto

lemma ok_or_Err_iff [simp]: "ok_or e m = Err e' \<longleftrightarrow> m = None \<and> e' = e"
  by (cases m) auto

lemma ok_or_not_Panic [simp]: "ok_or e m \<noteq> Panic"
  by (cases m) auto

lemma map_err_Ok_iff [simp]: "map_err h m = Ok x \<longleftrightarrow> m = Ok x"
  by (cases m) auto

lemma map_err_Panic_iff [simp]: "map_err h m = Panic \<longleftrightarrow> m = Panic"
  by (cases m) auto

lemma expect_Ok_iff [simp]: "expect m = Ok x \<longleftrightarrow> m = Some x"
  by (cases m) auto

lemma expect_Panic_iff [simp]: "expect m = Panic \<longleftrightarrow> m = None"
  by (cases m) auto

lemma is_ok_iff: "is_ok m \<longleftrightarrow> (\<exists>x. m = Ok x)"
  by (cases m) auto

lemmas outcome_iffs = and_then_Ok_iff and_then_Err_iff and_then_Panic_iff

section \<open>Machine arithmetic\<close>

lemma checked_add64_Some [simp]:
  "checked_add64 a b = Some c \<longleftrightarrow> c = a + b \<and> a + b < u64_limit"
  by (auto simp: checked_add64_def)

lemma checked_add64_None [simp]: "checked_add64 a b = None \<longleftrightarrow> u64_limit \<le> a + b"
  by (auto simp: checked_add64_def)

lemma checked_add_Some_unat: "checked_add a b = Some c \<Longrightarrow> unat c = unat a + unat b"
  by (auto simp: checked_add_def unat_word_ariths split: if_splits)

lemma checked_add_1_less:
  assumes "checked_add (a :: 'a :: len word) 1 = Some s"
  shows "a < s"
  using checked_add_Some_unat [OF assms] by (simp add: word_less_nat_alt)

lemma checked_add_Some_iff:
  fixes a b c :: "'a::len word"
  shows "checked_add a b = Some c \<longleftrightarrow> c = a + b \<and> unat a + unat b < 2 ^ LENGTH('a)"
  by (auto simp: checked_add_def)

text \<open>
  Rust masks an address with \<open>!(PAGE_SIZE - 1)\<close> to round it down. On the \<open>nat\<close> representation
  this is \<open>div\<close> followed by \<open>*\<close>; the lemma is the link between the two.
\<close>

lemma align_down_word:
  fixes w :: u64
  shows "unat (w AND NOT (mask 12)) = unat w div 4096 * 4096"
proof -
  have "w AND NOT (mask 12) = push_bit 12 (drop_bit 12 w)"
    by (rule bit_eqI) (auto simp: bit_simps)
  moreover have "unat (push_bit 12 (drop_bit 12 w)) = unat w div 4096 * 4096"
  proof -
    have less: "unat w div 4096 * 4096 < 2 ^ 64"
      by (rule le_less_trans [OF div_times_less_eq_dividend]) (use unsigned_less [of w, where 'a = nat] in simp)
    have "unat (push_bit 12 (drop_bit 12 w)) = take_bit 64 (push_bit 12 (drop_bit 12 (unat w)))"
      using unsigned_less [of w, where 'a = nat]
      by (simp add: unsigned_push_bit_eq unsigned_drop_bit_eq take_bit_nat_eq_self)
    also have "\<dots> = unat w div 4096 * 4096"
      using less by (simp add: push_bit_eq_mult drop_bit_eq_div take_bit_nat_eq_self)
    finally show ?thesis .
  qed
  ultimately show ?thesis by simp
qed

lemma div_ceil_le_iff: "0 < b \<Longrightarrow> div_ceil a b \<le> n \<longleftrightarrow> a \<le> n * b"
proof -
  assume b: "0 < b"
  have "a = a div b * b + a mod b" by simp
  show ?thesis
  proof (cases "a mod b = 0")
    case True
    then have "a = a div b * b" by (metis add.right_neutral div_mult_mod_eq)
    then have "a \<le> n * b \<longleftrightarrow> a div b \<le> n" using b by (metis mult_le_cancel2 nat_mult_le_cancel_disj)
    then show ?thesis using True by (simp add: div_ceil_def)
  next
    case False
    have "a \<le> n * b \<longleftrightarrow> a div b < n"
    proof
      assume "a \<le> n * b"
      moreover have "a \<noteq> n * b" using False by auto
      ultimately show "a div b < n" using b by (simp add: less_mult_imp_div_less)
    next
      assume "a div b < n"
      then show "a \<le> n * b" using b by (metis div_less_iff_less_mult less_or_eq_imp_le)
    qed
    then show ?thesis using False by (auto simp: div_ceil_def)
  qed
qed

section \<open>First match and least key\<close>

lemma find_SomeD: "find P xs = Some x \<Longrightarrow> P x \<and> x \<in> set xs"
  by (induction xs) (auto split: if_splits)

lemma find_upt_Some: "find P [0..<n] = Some i \<longleftrightarrow> i < n \<and> P i \<and> (\<forall>j<i. \<not> P j)"
  by (auto simp: find_Some_iff)

lemma find_upt_None: "find P [0..<n] = None \<longleftrightarrow> (\<forall>i<n. \<not> P i)"
  by (auto simp: find_None_iff)

lemma find_NoneD: "find P xs = None \<Longrightarrow> x \<in> set xs \<Longrightarrow> \<not> P x"
  by (auto simp: find_None_iff)


lemma min_by_key_None [simp]: "min_by_key f xs = None \<longleftrightarrow> xs = []"
  by (cases xs) (auto split: option.splits)

lemma min_by_key_Some: "min_by_key f xs = Some x \<Longrightarrow> x \<in> set xs \<and> (\<forall>y\<in>set xs. f x \<le> f y)"
proof (induction xs arbitrary: x)
  case (Cons a xs)
  then show ?case by (cases "min_by_key f xs") (auto split: if_splits intro: order_trans less_imp_le)
qed simp

section \<open>First matching index\<close>

lemma position_Some_iff:
  "position P xs = Some i \<longleftrightarrow> i < length xs \<and> P (xs ! i) \<and> (\<forall>j<i. \<not> P (xs ! j))"
proof (induction xs arbitrary: i)
  case Nil
  then show ?case by simp
next
  case (Cons x xs)
  show ?case
  proof (cases i)
    case 0
    then show ?thesis by auto
  next
    case (Suc k)
    have "position P xs = Some k \<longleftrightarrow> k < length xs \<and> P (xs ! k) \<and> (\<forall>j<k. \<not> P (xs ! j))"
      by (rule Cons.IH)
    with Suc show ?thesis by (simp add: All_less_Suc2)
  qed
qed

lemma position_None_iff: "position P xs = None \<longleftrightarrow> (\<forall>x\<in>set xs. \<not> P x)"
  by (induction xs) auto

lemma positionD:
  assumes "position P xs = Some i"
  shows position_less: "i < length xs" and position_holds: "P (xs ! i)"
  using assms by (auto simp: position_Some_iff)

lemma position_unique:
  assumes "i < length xs" and "P (xs ! i)" and "\<And>j. j < length xs \<Longrightarrow> P (xs ! j) \<Longrightarrow> j = i"
  shows "position P xs = Some i"
  unfolding position_Some_iff using assms by (metis less_imp_neq order.strict_trans)

lemma position_ex: "i < length xs \<Longrightarrow> P (xs ! i) \<Longrightarrow> \<exists>j. position P xs = Some j"
  by (cases "position P xs") (auto simp: position_None_iff)

section \<open>Slot arrays\<close>

lemma set_flatten: "set (flatten xs) = {y. Some y \<in> set xs}"
  by (induction xs) (auto split: option.splits)

lemma in_flatten_iff: "y \<in> set (flatten xs) \<longleftrightarrow> (\<exists>i<length xs. xs ! i = Some y)"
  by (auto simp: set_flatten in_set_conv_nth)

lemma flatten_append [simp]: "flatten (xs @ ys) = flatten xs @ flatten ys"
  by (induction xs) (auto split: option.splits)

lemma flatten_replicate_None [simp]: "flatten (replicate n None) = []"
  by (induction n) auto

lemma length_flatten_le: "length (flatten xs) \<le> length xs"
  by (induction xs) (auto split: option.splits)

lemma flatten_split:
  assumes "i < length xs"
  shows "flatten (xs[i := v]) = flatten (take i xs) @ flatten [v] @ flatten (drop (Suc i) xs)"
  using assms by (simp add: upd_conv_take_nth_drop del: flatten.simps) (simp split: option.splits)

lemma mset_flatten_fill:
  assumes "i < length xs" and "xs ! i = None"
  shows "mset (flatten (xs[i := Some v])) = add_mset v (mset (flatten xs))"
  using flatten_split [OF assms(1), of "Some v"]
    flatten_split [OF assms(1), of "xs ! i", unfolded list_update_id] assms(2)
  by simp

lemma mset_flatten_clear:
  assumes "i < length xs" and "xs ! i = Some v"
  shows "mset (flatten xs) = add_mset v (mset (flatten (xs[i := None])))"
  using flatten_split [OF assms(1), of None]
    flatten_split [OF assms(1), of "xs ! i", unfolded list_update_id] assms(2)
  by simp

lemma mset_flatten_replace:
  assumes "i < length xs" and "xs ! i = Some v"
  shows "mset (flatten (xs[i := Some w])) = add_mset w (mset (flatten (xs[i := None])))"
  using flatten_split [OF assms(1), of None] flatten_split [OF assms(1), of "Some w"] by simp

lemma length_flatten_fill:
  "i < length xs \<Longrightarrow> xs ! i = None \<Longrightarrow> length (flatten (xs[i := Some v])) = Suc (length (flatten xs))"
  by (metis mset_flatten_fill size_mset size_add_mset)

lemma length_flatten_clear:
  "i < length xs \<Longrightarrow> xs ! i = Some v \<Longrightarrow> Suc (length (flatten (xs[i := None]))) = length (flatten xs)"
  by (metis mset_flatten_clear size_mset size_add_mset)

lemma length_filter_flatten: "length (filter P (flatten xs)) = size (filter_mset P (mset (flatten xs)))"
  by (simp flip: mset_filter)

lemma length_filter_fill:
  "i < length xs \<Longrightarrow> xs ! i = None \<Longrightarrow>
   length (filter P (flatten (xs[i := Some v]))) = length (filter P (flatten xs)) + (if P v then 1 else 0)"
  by (simp add: length_filter_flatten mset_flatten_fill)

lemma length_filter_clear:
  "i < length xs \<Longrightarrow> xs ! i = Some v \<Longrightarrow>
   length (filter P (flatten xs)) = length (filter P (flatten (xs[i := None]))) + (if P v then 1 else 0)"
  by (simp add: length_filter_flatten mset_flatten_clear)

lemma length_filter_replace:
  "i < length xs \<Longrightarrow> xs ! i = Some v \<Longrightarrow>
   length (filter P (flatten (xs[i := Some w]))) =
     length (filter P (flatten (xs[i := None]))) + (if P w then 1 else 0)"
  by (simp add: length_filter_flatten mset_flatten_replace)

lemma nth_update_within: "j < length xs \<Longrightarrow> xs[i := v] ! j = (if i = j then v else xs ! j)"
  by auto

lemma in_flatten_update:
  assumes "i < length xs"
  shows "y \<in> set (flatten (xs[i := v])) \<longleftrightarrow> v = Some y \<or> (\<exists>j<length xs. j \<noteq> i \<and> xs ! j = Some y)"
  using assms by (auto simp: in_flatten_iff nth_update_within split: if_splits)

text \<open>Distinct keys of the occupied slots, as a property of pairs of indices.\<close>

definition slot_keys_distinct :: "('a \<Rightarrow> 'k) \<Rightarrow> 'a slots \<Rightarrow> bool" where
  "slot_keys_distinct f xs \<longleftrightarrow>
     (\<forall>i<length xs. \<forall>j<length xs. \<forall>a b. xs ! i = Some a \<longrightarrow> xs ! j = Some b \<longrightarrow> f a = f b \<longrightarrow> i = j)"

lemma slot_keys_distinctD:
  "slot_keys_distinct f xs \<Longrightarrow> i < length xs \<Longrightarrow> j < length xs \<Longrightarrow> xs ! i = Some a \<Longrightarrow>
   xs ! j = Some b \<Longrightarrow> f a = f b \<Longrightarrow> i = j"
  by (auto simp: slot_keys_distinct_def)

lemma slot_keys_distinct_clear:
  "slot_keys_distinct f xs \<Longrightarrow> slot_keys_distinct f (xs[i := None])"
  unfolding slot_keys_distinct_def by (simp add: nth_update_within)

lemma slot_keys_distinct_set:
  assumes "slot_keys_distinct f xs"
    and "\<And>j b. j < length xs \<Longrightarrow> j \<noteq> i \<Longrightarrow> xs ! j = Some b \<Longrightarrow> f b \<noteq> f v"
  shows "slot_keys_distinct f (xs[i := Some v])"
  unfolding slot_keys_distinct_def
proof (intro allI impI)
  fix j k a b
  assume "j < length (xs[i := Some v])" "k < length (xs[i := Some v])"
    and "xs[i := Some v] ! j = Some a" "xs[i := Some v] ! k = Some b" "f a = f b"
  then show "j = k"
    using assms(2) [of j a] assms(2) [of k b] slot_keys_distinctD [OF assms(1), of j k a b]
    by (auto simp: nth_update_within split: if_splits)
qed

lemma slot_keys_distinct_map:
  assumes "slot_keys_distinct f xs" and "\<And>x y. g (Some x) = Some y \<Longrightarrow> f y = f x" and "g None = None"
  shows "slot_keys_distinct f (map g xs)"
  unfolding slot_keys_distinct_def
proof (intro allI impI)
  fix i j a b
  assume *: "i < length (map g xs)" "j < length (map g xs)" "map g xs ! i = Some a" "map g xs ! j = Some b" "f a = f b"
  obtain x y where "xs ! i = Some x" "xs ! j = Some y" using * assms(3) by (cases "xs ! i"; cases "xs ! j") auto
  then show "i = j" using * assms(2) slot_keys_distinctD [OF assms(1), of i j x y] by force
qed

lemma set_flatten_fill:
  "i < length xs \<Longrightarrow> xs ! i = None \<Longrightarrow> set (flatten (xs[i := Some v])) = insert v (set (flatten xs))"
  by (metis mset_flatten_fill set_mset_add_mset_insert set_mset_mset)

lemma set_flatten_clear:
  assumes "slot_keys_distinct f xs" and "i < length xs" and "xs ! i = Some v"
  shows "set (flatten (xs[i := None])) = {y \<in> set (flatten xs). f y \<noteq> f v}"
proof (rule set_eqI)
  fix y
  have "y \<in> set (flatten (xs[i := None])) \<longleftrightarrow> (\<exists>j<length xs. j \<noteq> i \<and> xs ! j = Some y)"
    using in_flatten_update [OF assms(2), of y None] by simp
  also have "\<dots> \<longleftrightarrow> (\<exists>j<length xs. xs ! j = Some y \<and> f y \<noteq> f v)"
    using slot_keys_distinctD [OF assms(1) _ assms(2) _ assms(3)] assms(3)
    by (metis option.inject)
  finally show "y \<in> set (flatten (xs[i := None])) \<longleftrightarrow> y \<in> {y \<in> set (flatten xs). f y \<noteq> f v}"
    by (auto simp: in_flatten_iff)
qed

lemma set_flatten_replace:
  assumes "slot_keys_distinct f xs" and "i < length xs" and "xs ! i = Some v"
  shows "set (flatten (xs[i := Some w])) = insert w {y \<in> set (flatten xs). f y \<noteq> f v}"
  using set_flatten_fill [of i "xs[i := None]" w] set_flatten_clear [OF assms] assms(2) by simp

text \<open>For evaluating small concrete tables only.\<close>

lemma replicate_numeral: "replicate (numeral k) x = x # replicate (pred_numeral k) x"
  by (simp add: numeral_eq_Suc)

lemma slot_keys_distinct_empty [simp]: "slot_keys_distinct f (replicate n None)"
  by (simp add: slot_keys_distinct_def)

end
