(* ===== verification/Bitmap.thy ===== *)
theory Bitmap
  imports Prelude
begin

unbundle bit_operations_syntax

text \<open>
  Bitmaps of 64-bit words, as the frame allocator, the heap window and the volume's free-space map use
  them. The word operations are the ones the code spells out at each use (\<open>words[i / 64] & (1 << (i % 64))\<close>
  and so on); locale \<open>bit_store\<close> is the interface the allocators rely on, a set of numbers below a
  bound, and the interpretation \<open>bm\<close> shows that the word operations provide it. \<open>find_run\<close> is the search
  for the lowest run of free positions that two allocators share.
\<close>

section \<open>Word operations\<close>

type_synonym bitmap = "u64 list"

definition bit_get :: "bitmap \<Rightarrow> nat \<Rightarrow> bool" where
  "bit_get ws i \<longleftrightarrow> ws ! (i div 64) AND push_bit (i mod 64) 1 \<noteq> 0"

definition bit_set :: "bitmap \<Rightarrow> nat \<Rightarrow> bitmap" where
  "bit_set ws i = ws[i div 64 := ws ! (i div 64) OR push_bit (i mod 64) 1]"

definition bit_clear :: "bitmap \<Rightarrow> nat \<Rightarrow> bitmap" where
  "bit_clear ws i = ws[i div 64 := ws ! (i div 64) AND NOT (push_bit (i mod 64) 1)]"

definition bit_set_range :: "bitmap \<Rightarrow> nat \<Rightarrow> nat \<Rightarrow> bitmap" where
  "bit_set_range ws a b = fold (\<lambda>i ws. bit_set ws i) [a..<b] ws"

definition bit_clear_range :: "bitmap \<Rightarrow> nat \<Rightarrow> nat \<Rightarrow> bitmap" where
  "bit_clear_range ws a b = fold (\<lambda>i ws. bit_clear ws i) [a..<b] ws"

definition marked :: "bitmap \<Rightarrow> nat set" where
  "marked ws = {i. i < 64 * length ws \<and> bit (ws ! (i div 64)) (i mod 64)}"

lemma bit_get_iff: "bit_get ws i \<longleftrightarrow> bit (ws ! (i div 64)) (i mod 64)"
  by (simp only: bit_get_def bit_iff_and_push_bit_not_eq_0)

lemma in_marked_iff: "i \<in> marked ws \<longleftrightarrow> i < 64 * length ws \<and> bit_get ws i"
  by (simp add: marked_def bit_get_iff)

lemma finite_marked [simp]: "finite (marked ws)"
  by (rule finite_subset [of _ "{..<64 * length ws}"]) (auto simp: marked_def)

lemma marked_zero [simp]: "marked (replicate n 0) = {}"
  by (auto simp: marked_def)

lemma same_bit: "(j div 64 = i div 64 \<and> j mod 64 = i mod 64) \<longleftrightarrow> j = (i :: nat)"
  by (metis div_mod_decomp)

lemma length_bit_ops [simp]: "length (bit_set ws i) = length ws" "length (bit_clear ws i) = length ws"
  by (simp_all add: bit_set_def bit_clear_def)

lemma bit_ops_Nil [simp]: "bit_set ws i = [] \<longleftrightarrow> ws = []" "bit_clear ws i = [] \<longleftrightarrow> ws = []"
  by (simp_all add: bit_set_def bit_clear_def)

lemma marked_bit_set:
  assumes "i < 64 * length ws"
  shows "marked (bit_set ws i) = insert i (marked ws)"
proof (rule set_eqI)
  fix j
  have i: "i div 64 < length ws" using assms by (simp add: div_less_iff_less_mult mult.commute)
  show "j \<in> marked (bit_set ws i) \<longleftrightarrow> j \<in> insert i (marked ws)"
  proof (cases "j div 64 = i div 64")
    case True
    then have "bit (bit_set ws i ! (j div 64)) (j mod 64) \<longleftrightarrow> bit (ws ! (j div 64)) (j mod 64) \<or> j mod 64 = i mod 64"
      using i by (auto simp: bit_set_def bit_simps)
    then show ?thesis using True same_bit [of j i] assms by (auto simp: marked_def)
  next
    case False
    then show ?thesis by (auto simp: marked_def bit_set_def)
  qed
qed

lemma marked_bit_clear:
  assumes "i < 64 * length ws"
  shows "marked (bit_clear ws i) = marked ws - {i}"
proof (rule set_eqI)
  fix j
  have i: "i div 64 < length ws" using assms by (simp add: div_less_iff_less_mult mult.commute)
  show "j \<in> marked (bit_clear ws i) \<longleftrightarrow> j \<in> marked ws - {i}"
  proof (cases "j div 64 = i div 64")
    case True
    then have "bit (bit_clear ws i ! (j div 64)) (j mod 64) \<longleftrightarrow> bit (ws ! (j div 64)) (j mod 64) \<and> j mod 64 \<noteq> i mod 64"
      using i by (auto simp: bit_clear_def bit_simps)
    then show ?thesis using True same_bit [of j i] assms by (auto simp: marked_def)
  next
    case False
    then show ?thesis by (auto simp: marked_def bit_clear_def)
  qed
qed

section \<open>The interface\<close>

locale bit_store =
  fixes get :: "'s \<Rightarrow> nat \<Rightarrow> bool" and mark :: "'s \<Rightarrow> nat \<Rightarrow> 's" and clear :: "'s \<Rightarrow> nat \<Rightarrow> 's"
    and limit :: "'s \<Rightarrow> nat" and members :: "'s \<Rightarrow> nat set"
  assumes members_get: "i < limit s \<Longrightarrow> get s i \<longleftrightarrow> i \<in> members s"
    and members_mark: "i < limit s \<Longrightarrow> members (mark s i) = insert i (members s)"
    and members_clear: "i < limit s \<Longrightarrow> members (clear s i) = members s - {i}"
    and limit_mark: "limit (mark s i) = limit s" and limit_clear: "limit (clear s i) = limit s"
    and members_below: "i \<in> members s \<Longrightarrow> i < limit s"
begin

lemma limit_mark_range: "limit (fold (\<lambda>i s. mark s i) xs s) = limit s"
  by (induction xs arbitrary: s) (auto simp: limit_mark)

lemma limit_clear_range: "limit (fold (\<lambda>i s. clear s i) xs s) = limit s"
  by (induction xs arbitrary: s) (auto simp: limit_clear)

lemma members_mark_range:
  "(\<And>i. i \<in> set xs \<Longrightarrow> i < limit s) \<Longrightarrow> members (fold (\<lambda>i s. mark s i) xs s) = members s \<union> set xs"
  by (induction xs arbitrary: s) (auto simp: members_mark limit_mark)

lemma members_clear_range:
  "(\<And>i. i \<in> set xs \<Longrightarrow> i < limit s) \<Longrightarrow> members (fold (\<lambda>i s. clear s i) xs s) = members s - set xs"
  by (induction xs arbitrary: s) (auto simp: members_clear limit_clear)

end

interpretation bm: bit_store bit_get bit_set bit_clear "\<lambda>ws. 64 * length ws" marked
  by unfold_locales (simp_all add: in_marked_iff marked_bit_set marked_bit_clear)

lemma length_range_ops [simp]:
  "length (bit_set_range ws a b) = length ws" "length (bit_clear_range ws a b) = length ws"
  using bm.limit_mark_range [of "[a..<b]" ws] bm.limit_clear_range [of "[a..<b]" ws]
  by (simp_all add: bit_set_range_def bit_clear_range_def)

lemma marked_set_range: "b \<le> 64 * length ws \<Longrightarrow> marked (bit_set_range ws a b) = marked ws \<union> {a..<b}"
  using bm.members_mark_range [of "[a..<b]" ws] by (simp add: bit_set_range_def)

lemma marked_clear_range: "b \<le> 64 * length ws \<Longrightarrow> marked (bit_clear_range ws a b) = marked ws - {a..<b}"
  using bm.members_clear_range [of "[a..<b]" ws] by (simp add: bit_clear_range_def)

section \<open>The lowest free run\<close>

fun find_run :: "(nat \<Rightarrow> bool) \<Rightarrow> nat \<Rightarrow> nat list \<Rightarrow> nat \<Rightarrow> nat option" where
  "find_run free wanted [] run = None"
| "find_run free wanted (i # is) run =
     (if free i
      then (if run + 1 = wanted then Some (i + 1 - wanted) else find_run free wanted is (run + 1))
      else find_run free wanted is 0)"

definition run_free :: "(nat \<Rightarrow> bool) \<Rightarrow> nat \<Rightarrow> nat \<Rightarrow> bool" where
  "run_free free a n \<longleftrightarrow> (\<forall>i. a \<le> i \<longrightarrow> i < a + n \<longrightarrow> free i)"

lemma find_run_from:
  assumes "run < n" and "run \<le> k" and "k \<le> lim" and "run_free free (k - run) run"
    and "\<And>b. b < k - run \<Longrightarrow> \<not> run_free free b n"
  shows "case find_run free n [k..<lim] run of
      None \<Rightarrow> \<forall>b. b + n \<le> lim \<longrightarrow> \<not> run_free free b n
    | Some a \<Rightarrow> a + n \<le> lim \<and> run_free free a n \<and> (\<forall>b<a. \<not> run_free free b n)"
  using assms
proof (induction "lim - k" arbitrary: k run)
  case 0
  then have "b < k - run" if "b + n \<le> lim" for b using that by linarith
  then show ?case using 0 by auto
next
  case (Suc d)
  then have k: "k < lim" by linarith
  then have upt: "[k..<lim] = k # [Suc k..<lim]" by (simp add: upt_conv_Cons)
  show ?case
  proof (cases "free k")
    case True
    have more: "run_free free (k - run) (Suc run)"
      unfolding run_free_def
    proof (intro allI impI)
      fix i assume "k - run \<le> i" "i < k - run + Suc run"
      then show "free i" using Suc.prems(2,4) True by (cases "i = k") (auto simp: run_free_def)
    qed
    show ?thesis
    proof (cases "run + 1 = n")
      case hit: True
      then have "k + 1 - n = k - run" by simp
      then show ?thesis using upt True hit more Suc.prems k by auto
    next
      case False
      have "case find_run free n [Suc k..<lim] (Suc run) of
          None \<Rightarrow> \<forall>b. b + n \<le> lim \<longrightarrow> \<not> run_free free b n
        | Some a \<Rightarrow> a + n \<le> lim \<and> run_free free a n \<and> (\<forall>b<a. \<not> run_free free b n)"
        by (rule Suc.hyps(1)) (use Suc False k more in auto)
      then show ?thesis using upt True False by simp
    qed
  next
    case False
    have "\<not> run_free free b n" if "b < Suc k" for b
    proof (cases "b < k - run")
      case False
      then have "b \<le> k" "k < b + n" using that Suc.prems(1,2) by linarith+
      then show ?thesis using \<open>\<not> free k\<close> by (auto simp: run_free_def)
    qed (use Suc.prems(5) in blast)
    then have "case find_run free n [Suc k..<lim] 0 of
        None \<Rightarrow> \<forall>b. b + n \<le> lim \<longrightarrow> \<not> run_free free b n
      | Some a \<Rightarrow> a + n \<le> lim \<and> run_free free a n \<and> (\<forall>b<a. \<not> run_free free b n)"
      by (intro Suc.hyps(1)) (use Suc k in \<open>auto simp: run_free_def\<close>)
    then show ?thesis using upt False by simp
  qed
qed

lemma find_run_Some:
  "0 < n \<Longrightarrow> find_run free n [0..<lim] 0 = Some a \<Longrightarrow>
   a + n \<le> lim \<and> run_free free a n \<and> (\<forall>b<a. \<not> run_free free b n)"
  using find_run_from [of 0 n 0 lim free] by (simp add: run_free_def)

lemma find_run_None: "0 < n \<Longrightarrow> find_run free n [0..<lim] 0 = None \<Longrightarrow> b + n \<le> lim \<Longrightarrow> \<not> run_free free b n"
  using find_run_from [of 0 n 0 lim free] by (simp add: run_free_def)

end
