(* ===== verification/Boot.thy ===== *)
theory Boot
  imports Prelude
begin

text \<open>
  Boot-time inputs of \<open>kernel/src/boot\<close>: memory regions, the validation of the firmware's memory map and
  the selection of the boot mode. Addresses and lengths are natural numbers below \<open>u64_limit\<close>.
\<close>

section \<open>Regions\<close>

record memory_region =
  reg_start :: nat
  reg_end :: nat

datatype region_error = RegEmpty | RegAddressOverflow

definition region_new :: "nat \<Rightarrow> nat \<Rightarrow> (region_error, memory_region) outcome" where
  "region_new start len =
     (if len = 0 then Err RegEmpty
      else case checked_add64 start len of
        Some e \<Rightarrow> Ok \<lparr>reg_start = start, reg_end = e\<rparr>
      | None \<Rightarrow> Err RegAddressOverflow)"

definition region_contains :: "memory_region \<Rightarrow> nat \<Rightarrow> bool" where
  "region_contains r a \<longleftrightarrow> reg_start r \<le> a \<and> a < reg_end r"

definition region_overlaps :: "memory_region \<Rightarrow> memory_region \<Rightarrow> bool" where
  "region_overlaps r s \<longleftrightarrow> reg_start r < reg_end s \<and> reg_start s < reg_end r"

section \<open>The memory map\<close>

record map_summary =
  sum_entries :: nat
  sum_usable_bytes :: nat

datatype map_error = MapInvalidRange | MapUnordered | MapTooManyEntries | MapNoUsableMemory

type_synonym map_entry = "nat \<times> nat \<times> bool"

fun map_loop :: "map_entry list \<Rightarrow> map_summary \<Rightarrow> nat \<Rightarrow> (map_error, map_summary) outcome" where
  "map_loop [] s previous_end = Ok s"
| "map_loop ((base, len, usable) # es) s previous_end =
     (if sum_entries s = 4096 then Err MapTooManyEntries
      else and_then (map_err (\<lambda>e. MapInvalidRange) (region_new base len)) (\<lambda>region.
        if base < previous_end then Err MapUnordered
        else let s = s\<lparr>sum_entries := sum_entries s + 1\<rparr> in
          if usable
          then and_then (ok_or MapInvalidRange (checked_add64 (sum_usable_bytes s) len)) (\<lambda>total.
                 map_loop es (s\<lparr>sum_usable_bytes := total\<rparr>) (reg_end region))
          else map_loop es s (reg_end region)))"

definition validate_map :: "map_entry list \<Rightarrow> (map_error, map_summary) outcome" where
  "validate_map es =
     and_then (map_loop es \<lparr>sum_entries = 0, sum_usable_bytes = 0\<rparr> 0) (\<lambda>s.
       if sum_usable_bytes s = 0 then Err MapNoUsableMemory else Ok s)"

section \<open>Boot modes\<close>

datatype boot_mode = BmOk | BmTerminal | BmTerminalInit | BmTerminalV7 | BmPanic | BmHang | BmException
  | BmGeneralProtection | BmDoubleFault | BmTimerStall | BmMemoryReadOnly | BmMemoryNx | BmMemoryUnmapped
  | BmMemoryTextAlias | BmMemoryGuard | BmBlockPersist | BmBlockReadOnly | BmBlockError | BmBlockTimeout
  | BmBlockMissing | BmBlockUser | BmBlockUserFaults

definition boot_modes :: "(string \<times> boot_mode) list" where
  "boot_modes =
     [(''mode=terminal'', BmTerminal),
      (''mode=terminal-init'', BmTerminalInit), (''mode=terminal-test'', BmTerminalInit),
      (''mode=recovery-test'', BmTerminalInit),
      (''mode=terminal-v7'', BmTerminalV7),
      (''mode=ok'', BmOk),
      (''mode=panic'', BmPanic),
      (''mode=hang'', BmHang),
      (''mode=exception'', BmException),
      (''mode=gp'', BmGeneralProtection),
      (''mode=doublefault'', BmDoubleFault),
      (''mode=timer-stall'', BmTimerStall),
      (''mode=memory-ro'', BmMemoryReadOnly),
      (''mode=memory-nx'', BmMemoryNx),
      (''mode=memory-unmapped'', BmMemoryUnmapped),
      (''mode=memory-text-alias'', BmMemoryTextAlias),
      (''mode=memory-guard'', BmMemoryGuard),
      (''mode=block-persist'', BmBlockPersist),
      (''mode=block-readonly'', BmBlockReadOnly),
      (''mode=block-error'', BmBlockError),
      (''mode=block-timeout'', BmBlockTimeout),
      (''mode=block-missing'', BmBlockMissing),
      (''mode=block-user'', BmBlockUser),
      (''mode=block-user-faults'', BmBlockUserFaults)]"

definition boot_mode_parse :: "string \<Rightarrow> boot_mode option" where
  "boot_mode_parse input = map_of boot_modes input"

section \<open>Well-formed maps\<close>

text \<open>
  The specification of a map: nonempty regions inside the address space, each starting at or after
  the end of the one before. Ordered regions are disjoint, so their lengths add up to less than the
  size of the address space and the sum in the loop cannot overflow.
\<close>

primrec ordered_from :: "nat \<Rightarrow> map_entry list \<Rightarrow> bool" where
  "ordered_from p [] = True"
| "ordered_from p (e # es) = (case e of (base, len, usable) \<Rightarrow>
     p \<le> base \<and> 0 < len \<and> base + len < u64_limit \<and> ordered_from (base + len) es)"

definition usable_bytes :: "map_entry list \<Rightarrow> nat" where
  "usable_bytes es = sum_list (map (\<lambda>(base, len, usable). if usable then len else 0) es)"

lemma usable_bytes_simps [simp]:
  "usable_bytes [] = 0"
  "usable_bytes ((base, len, usable) # es) = (if usable then len else 0) + usable_bytes es"
  by (simp_all add: usable_bytes_def)

lemma usable_bytes_le: "ordered_from p es \<Longrightarrow> p < u64_limit \<Longrightarrow> p + usable_bytes es < u64_limit"
proof (induction es arbitrary: p)
  case (Cons e es)
  obtain base len usable where e: "e = (base, len, usable)" by (cases e)
  with Cons.prems have "p \<le> base" "base + len < u64_limit" "ordered_from (base + len) es" by auto
  then have "base + len + usable_bytes es < u64_limit" using Cons.IH by blast
  then show ?case using \<open>p \<le> base\<close> e by auto
qed simp

lemma map_loop_iff:
  assumes "sum_usable_bytes s \<le> p" and "p < u64_limit" and "sum_entries s \<le> 4096"
  shows "map_loop es s p = Ok s' \<longleftrightarrow> ordered_from p es \<and> sum_entries s + length es \<le> 4096 \<and>
    s' = s\<lparr>sum_entries := sum_entries s + length es, sum_usable_bytes := sum_usable_bytes s + usable_bytes es\<rparr>"
  using assms
proof (induction es arbitrary: s p)
  case Nil
  then show ?case by (cases s) auto
next
  case (Cons e es)
  obtain base len usable where e: "e = (base, len, usable)" by (cases e)
  show ?case
  proof (cases "sum_entries s < 4096 \<and> p \<le> base \<and> 0 < len \<and> base + len < u64_limit")
    case False
    then show ?thesis
      using Cons.prems(3) by (auto simp: e region_new_def Let_def and_then_Ok_iff split: option.splits if_splits)
  next
    case True
    let ?s = "s\<lparr>sum_entries := sum_entries s + 1, sum_usable_bytes := sum_usable_bytes s + (if usable then len else 0)\<rparr>"
    have small: "sum_usable_bytes s + len < u64_limit" using True Cons.prems(1) by linarith
    have step: "map_loop (e # es) s p = map_loop es ?s (base + len)"
      using True small by (cases usable) (auto simp: e region_new_def Let_def checked_add64_def)
    have "(map_loop es ?s (base + len) = Ok s') \<longleftrightarrow>
      ordered_from (base + len) es \<and> sum_entries ?s + length es \<le> 4096 \<and>
      s' = ?s\<lparr>sum_entries := sum_entries ?s + length es, sum_usable_bytes := sum_usable_bytes ?s + usable_bytes es\<rparr>"
      using True Cons.prems(1) by (intro Cons.IH) auto
    then show ?thesis unfolding step using True by (auto simp: e)
  qed
qed

lemma validate_map_iff:
  "validate_map es = Ok s \<longleftrightarrow> ordered_from 0 es \<and> length es \<le> 4096 \<and> 0 < usable_bytes es \<and>
     s = \<lparr>sum_entries = length es, sum_usable_bytes = usable_bytes es\<rparr>"
  using map_loop_iff [of "\<lparr>sum_entries = 0, sum_usable_bytes = 0\<rparr>" 0 es]
  by (auto simp: validate_map_def and_then_Ok_iff u64_limit_def)

lemma ordered_from_disjoint:
  assumes "ordered_from p es" and "i < j" and "j < length es"
  shows "fst (es ! i) + fst (snd (es ! i)) \<le> fst (es ! j)"
  using assms
proof (induction es arbitrary: p i j)
  case (Cons e es)
  obtain base len usable where e: "e = (base, len, usable)" by (cases e)
  have low: "q \<le> fst (xs ! k)" if "ordered_from q xs" "k < length xs" for q k and xs :: "map_entry list"
    using that
  proof (induction xs arbitrary: q k)
    case (Cons x xs)
    then show ?case by (cases k) (fastforce split: prod.splits)+
  qed simp
  show ?case
  proof (cases i)
    case 0
    then obtain k where "j = Suc k" "k < length es" using Cons.prems by (cases j) auto
    then show ?thesis using low [of "base + len" es k] Cons.prems(1) 0 by (simp add: e)
  next
    case (Suc i')
    then obtain k where "j = Suc k" using Cons.prems(2) by (cases j) auto
    then show ?thesis using Cons.IH [of "base + len" i' k] Cons.prems Suc by (simp add: e)
  qed
qed simp

lemma ordered_from_entry:
  "ordered_from p es \<Longrightarrow> (base, len, usable) \<in> set es \<Longrightarrow> p \<le> base \<and> 0 < len \<and> base + len < u64_limit"
  by (induction es arbitrary: p) (fastforce split: prod.splits)+

section \<open>Properties\<close>

text \<open>The memory map is accepted exactly when it has at most 4096 entries, every entry is nonempty
  and stays inside the address space, entries come in ascending order without overlap, and some memory
  is usable; the summary then holds the number of entries and the exact number of usable bytes. In
  particular the sum of usable bytes never overflows on an ordered map.\<close>

theorem validate_map_exact:
  "validate_map es = Ok s \<longleftrightarrow> ordered_from 0 es \<and> length es \<le> 4096 \<and> 0 < usable_bytes es \<and>
     s = \<lparr>sum_entries = length es, sum_usable_bytes = usable_bytes es\<rparr>"
  by (rule validate_map_iff)

text \<open>No two regions of an accepted map overlap.\<close>

theorem accepted_regions_disjoint:
  assumes "validate_map es = Ok s" and "i < length es" and "j < length es" and "i \<noteq> j"
    and "region_new (fst (es ! i)) (fst (snd (es ! i))) = Ok r"
    and "region_new (fst (es ! j)) (fst (snd (es ! j))) = Ok q"
  shows "\<not> region_overlaps r q"
proof -
  have "ordered_from 0 es" using assms(1) validate_map_iff by blast
  then have "reg_end r \<le> reg_start q \<or> reg_end q \<le> reg_start r"
    using ordered_from_disjoint [of 0 es i j] ordered_from_disjoint [of 0 es j i] assms(2-6)
    by (cases "i < j") (auto simp: region_new_def split: if_splits option.splits)
  then show ?thesis by (auto simp: region_overlaps_def)
qed

theorem accepted_regions_disjoint_witness:
  "validate_map [(0, 4096, True), (4096, 8192, False)] = Ok \<lparr>sum_entries = 2, sum_usable_bytes = 4096\<rparr> \<and>
   \<not> region_overlaps \<lparr>reg_start = 0, reg_end = 4096\<rparr> \<lparr>reg_start = 4096, reg_end = 12288\<rparr>"
proof -
  have v: "validate_map [(0, 4096, True), (4096, 8192, False)] = Ok \<lparr>sum_entries = 2, sum_usable_bytes = 4096\<rparr>"
    by (simp add: validate_map_def region_new_def checked_add64_def u64_limit_def Let_def)
  show ?thesis
    using v accepted_regions_disjoint [OF v, of 0 1 "\<lparr>reg_start = 0, reg_end = 4096\<rparr>" "\<lparr>reg_start = 4096, reg_end = 12288\<rparr>"]
    by (simp add: region_new_def checked_add64_def u64_limit_def)
qed

end
