(* ===== verification/Frames.thy ===== *)
theory Frames
  imports Bitmap Boot
begin

unbundle bit_operations_syntax

text \<open>
  Physical memory of \<open>kernel/src/memory\<close>: pages, permissions and the frame allocator, whose two bitmaps
  say which frames exist and which are handed out. Addresses and counters are natural numbers; the
  bitmaps are lists of 64-bit words. \<open>frames_inv\<close> ties the counters to the bitmaps.
\<close>

section \<open>Pages\<close>

abbreviation (input) page_size :: nat where "page_size \<equiv> 4096"

definition canonical :: "u64 \<Rightarrow> bool" where
  "canonical a \<longleftrightarrow> a \<le> 0x00007fffffffffff \<or> a \<ge> 0xffff800000000000"

datatype virtual_page = VirtualPage nat

definition virtual_page_new :: "nat \<Rightarrow> virtual_page option" where
  "virtual_page_new a = (if a \<ge> page_size \<and> a < 2 ^ 47 \<and> a mod page_size = 0 then Some (VirtualPage a) else None)"

primrec virtual_page_address :: "virtual_page \<Rightarrow> nat" where
  "virtual_page_address (VirtualPage a) = a"

record page_permissions =
  perm_writable :: bool
  perm_executable :: bool
  perm_user :: bool

definition perm_read_only :: page_permissions where
  "perm_read_only = \<lparr>perm_writable = False, perm_executable = False, perm_user = False\<rparr>"
definition perm_read_write :: page_permissions where
  "perm_read_write = \<lparr>perm_writable = True, perm_executable = False, perm_user = False\<rparr>"
definition perm_code :: page_permissions where
  "perm_code = \<lparr>perm_writable = False, perm_executable = True, perm_user = False\<rparr>"

definition perm_valid :: "page_permissions \<Rightarrow> bool" where
  "perm_valid p \<longleftrightarrow> \<not> (perm_writable p \<and> perm_executable p)"

section \<open>The frame allocator\<close>

datatype frame_error = FrInvalidMap | FrInvalidStorage | FrAddressLimit | FrInvalidRange | FrNotManaged
  | FrNotAllocated | FrInUse | FrExhausted

record frames =
  fr_managed :: bitmap
  fr_allocated :: bitmap
  fr_free :: nat
  fr_total :: nat
  fr_cursor :: nat

definition frames_new :: "bitmap \<Rightarrow> bitmap \<Rightarrow> (frame_error, frames) outcome" where
  "frames_new managed allocated =
     (if managed = [] \<or> length managed \<noteq> length allocated then Err FrInvalidStorage
      else Ok \<lparr>fr_managed = replicate (length managed) 0, fr_allocated = replicate (length allocated) 0,
               fr_free = 0, fr_total = 0, fr_cursor = 0\<rparr>)"

definition address_limit :: "frames \<Rightarrow> nat" where
  "address_limit f = length (fr_managed f) * 64 * page_size"

definition import_frame :: "nat \<Rightarrow> frames \<Rightarrow> frames" where
  "import_frame i f =
     f\<lparr>fr_managed := bit_set (fr_managed f) i, fr_free := fr_free f + 1, fr_total := fr_total f + 1\<rparr>"

definition import_entry :: "map_entry \<Rightarrow> frames \<Rightarrow> frames" where
  "import_entry e f = (case e of (start, len, usable) \<Rightarrow>
     if \<not> usable then f
     else fold import_frame [div_ceil start page_size..<(start + len) div page_size] f)"

definition frames_import :: "frames \<Rightarrow> map_entry list \<Rightarrow> (frame_error, unit) outcome \<times> frames" where
  "frames_import f es =
     (if fr_total f \<noteq> 0 then (Err FrInUse, f)
      else or_return (map_err (\<lambda>e. FrInvalidMap) (validate_map es)) f (\<lambda>s.
        if \<exists>(start, len, usable)\<in>set es. usable \<and>
             (case checked_add64 start len of None \<Rightarrow> True | Some e \<Rightarrow> e > address_limit f)
        then (Err FrAddressLimit, f)
        else (Ok (), fold import_entry es f)))"

definition reserve_frame :: "nat \<Rightarrow> frames \<Rightarrow> frames" where
  "reserve_frame i f =
     (if bit_get (fr_managed f) i
      then f\<lparr>fr_managed := bit_clear (fr_managed f) i, fr_free := fr_free f - 1, fr_total := fr_total f - 1\<rparr>
      else f)"

definition frames_reserve :: "frames \<Rightarrow> nat \<Rightarrow> nat \<Rightarrow> (frame_error, unit) outcome \<times> frames" where
  "frames_reserve f start len =
     (case checked_add64 start len of
        None \<Rightarrow> (Err FrInvalidRange, f)
      | Some e \<Rightarrow>
          if len = 0 then (Err FrInvalidRange, f)
          else let a = start div page_size;
                   b = min (div_ceil e page_size) (length (fr_managed f) * 64)
               in if \<exists>i\<in>set [a..<b]. bit_get (fr_allocated f) i then (Err FrInUse, f)
                  else (Ok (), fold reserve_frame [a..<b] f))"

definition trailing_zeros :: "u64 \<Rightarrow> nat" where
  "trailing_zeros w = (case find (bit w) [0..<64] of None \<Rightarrow> 64 | Some n \<Rightarrow> n)"

definition frames_allocate :: "frames \<Rightarrow> (frame_error, nat) outcome \<times> frames" where
  "frames_allocate f =
     (if fr_free f = 0 then (Err FrExhausted, f)
      else case find (\<lambda>i. fr_managed f ! i AND NOT (fr_allocated f ! i) \<noteq> 0)
               (map (\<lambda>offset. (fr_cursor f + offset) mod length (fr_managed f)) [0..<length (fr_managed f)]) of
        None \<Rightarrow> (Err FrExhausted, f)
      | Some i \<Rightarrow>
          let n = trailing_zeros (fr_managed f ! i AND NOT (fr_allocated f ! i)) in
          (Ok ((i * 64 + n) * page_size),
           f\<lparr>fr_allocated := (fr_allocated f)[i := fr_allocated f ! i OR push_bit n 1],
             fr_cursor := i, fr_free := fr_free f - 1\<rparr>))"

definition frames_locate :: "frames \<Rightarrow> nat \<Rightarrow> (frame_error, nat) outcome" where
  "frames_locate f a =
     (if a mod page_size \<noteq> 0 then Err FrInvalidRange
      else let frame = a div page_size in
        if frame \<ge> length (fr_managed f) * 64 then Err FrAddressLimit else Ok frame)"

definition frames_release :: "frames \<Rightarrow> nat \<Rightarrow> (frame_error, unit) outcome \<times> frames" where
  "frames_release f a =
     or_return (frames_locate f a) f (\<lambda>i.
       if \<not> bit_get (fr_managed f) i then (Err FrNotManaged, f)
       else if \<not> bit_get (fr_allocated f) i then (Err FrNotAllocated, f)
       else (Ok (), f\<lparr>fr_allocated := bit_clear (fr_allocated f) i, fr_free := fr_free f + 1,
                      fr_cursor := i div 64\<rparr>))"

definition allocate_contiguous_bounded :: "frames \<Rightarrow> nat \<Rightarrow> nat \<Rightarrow> (frame_error, nat) outcome \<times> frames" where
  "allocate_contiguous_bounded f n maximum =
     (if n = 0 \<or> n > maximum \<or> maximum > 128 then (Err FrInvalidRange, f)
      else case find_run (\<lambda>i. (fr_managed f ! (i div 64) AND NOT (fr_allocated f ! (i div 64))) AND push_bit (i mod 64) 1 \<noteq> 0)
               n [0..<length (fr_managed f) * 64] 0 of
        None \<Rightarrow> (Err FrExhausted, f)
      | Some a \<Rightarrow> (Ok (a * page_size),
          f\<lparr>fr_allocated := bit_set_range (fr_allocated f) a (a + n), fr_free := fr_free f - n\<rparr>))"

definition allocate_contiguous :: "frames \<Rightarrow> nat \<Rightarrow> (frame_error, nat) outcome \<times> frames" where
  "allocate_contiguous f n = allocate_contiguous_bounded f n 4"

definition is_allocated :: "frames \<Rightarrow> nat \<Rightarrow> bool" where
  "is_allocated f a = (case frames_locate f a of Ok i \<Rightarrow> bit_get (fr_allocated f) i | _ \<Rightarrow> False)"

section \<open>The invariant\<close>

definition available :: "frames \<Rightarrow> nat set" where
  "available f = marked (fr_managed f) - marked (fr_allocated f)"

definition frames_inv :: "frames \<Rightarrow> bool" where
  "frames_inv f \<longleftrightarrow> fr_managed f \<noteq> [] \<and> length (fr_allocated f) = length (fr_managed f) \<and>
     marked (fr_allocated f) \<subseteq> marked (fr_managed f) \<and> fr_free f = card (available f) \<and>
     fr_total f = card (marked (fr_managed f)) \<and> fr_cursor f < length (fr_managed f)"

lemma frames_invD:
  assumes "frames_inv f"
  shows "fr_managed f \<noteq> []" and "length (fr_allocated f) = length (fr_managed f)"
    and "marked (fr_allocated f) \<subseteq> marked (fr_managed f)" and "fr_free f = card (available f)"
    and "fr_total f = card (marked (fr_managed f))" and "fr_cursor f < length (fr_managed f)"
  using assms by (simp_all add: frames_inv_def)

lemma finite_available [simp]: "finite (available f)"
  by (simp add: available_def)

lemma available_below: "i \<in> available f \<Longrightarrow> i < 64 * length (fr_managed f)"
  by (simp add: available_def in_marked_iff)

lemma frames_new_inv: "frames_new m a = Ok f \<Longrightarrow> frames_inv f \<and> marked (fr_managed f) = {}"
  by (auto simp: frames_new_def frames_inv_def available_def split: if_splits)

lemma marked_frame: "i < length ws \<Longrightarrow> n < 64 \<Longrightarrow> i * 64 + n \<in> marked ws \<longleftrightarrow> bit (ws ! i) n"
  by (auto simp: marked_def)

lemma available_frame:
  "frames_inv f \<Longrightarrow> i < length (fr_managed f) \<Longrightarrow> n < 64 \<Longrightarrow>
   i * 64 + n \<in> available f \<longleftrightarrow> bit (fr_managed f ! i AND NOT (fr_allocated f ! i)) n"
  using frames_invD(2) [of f] by (auto simp: available_def marked_frame bit_simps)

lemma word_nonzero_bit: "(w :: u64) \<noteq> 0 \<longleftrightarrow> (\<exists>n<64. bit w n)"
  using bit_eq_iff [of w 0] by (auto dest: bit_imp_le_length)

lemma trailing_zeros_bit: "w \<noteq> 0 \<Longrightarrow> trailing_zeros w < 64 \<and> bit w (trailing_zeros w)"
proof -
  assume "w \<noteq> 0"
  then obtain n where "n < 64" "bit w n" using word_nonzero_bit by blast
  then obtain i where i: "find (bit w) [0..<64] = Some i"
    by (cases "find (bit w) [0..<64]") (auto simp: find_None_iff)
  then have "i < 64" "bit w i" by (auto simp: find_Some_iff)
  then show ?thesis by (simp add: trailing_zeros_def i)
qed

lemma cursor_covers:
  assumes "c < n" and "i < n"
  shows "i \<in> set (map (\<lambda>offset. (c + offset) mod n) [0..<n])"
proof -
  have "(c + (i + n - c) mod n) mod n = (c + (i + n - c)) mod n" by (simp add: mod_add_right_eq)
  also have "\<dots> = i" using assms by simp
  finally have "i = (c + (i + n - c) mod n) mod n" by simp
  moreover have "(i + n - c) mod n \<in> set [0..<n]" using assms by simp
  ultimately show ?thesis by (auto simp: image_iff)
qed

section \<open>Single frames\<close>

lemma frames_allocate_cases:
  assumes inv: "frames_inv f" and a: "frames_allocate f = (res, f')"
  obtains (exhausted) "res = Err FrExhausted" "f' = f" "available f = {}"
  | (allocated) i where "i \<in> available f" "res = Ok (i * page_size)" "available f' = available f - {i}"
      "marked (fr_allocated f') = insert i (marked (fr_allocated f))" "fr_managed f' = fr_managed f"
      "frames_inv f'"
proof (cases "fr_free f = 0")
  case True
  then show ?thesis using a exhausted frames_invD(4) [OF inv] by (auto simp: frames_allocate_def)
next
  case some: False
  let ?P = "\<lambda>i. fr_managed f ! i AND NOT (fr_allocated f ! i) \<noteq> 0"
  let ?is = "map (\<lambda>offset. (fr_cursor f + offset) mod length (fr_managed f)) [0..<length (fr_managed f)]"
  have ne: "0 < length (fr_managed f)" using frames_invD(1) [OF inv] by simp
  show ?thesis
  proof (cases "find ?P ?is")
    case None
    have "False" if "j \<in> available f" for j
    proof -
      have j: "j div 64 < length (fr_managed f)" using available_below [OF that] by (simp add: div_less_iff_less_mult mult.commute)
      have "(j div 64) * 64 + j mod 64 \<in> available f" using that by simp
      then have "bit (fr_managed f ! (j div 64) AND NOT (fr_allocated f ! (j div 64))) (j mod 64)"
        using available_frame [OF inv j, of "j mod 64"] by simp
      then have "?P (j div 64)"
        unfolding word_nonzero_bit [of "fr_managed f ! (j div 64) AND NOT (fr_allocated f ! (j div 64))"]
        by (intro exI [of _ "j mod 64"]) simp
      moreover have "j div 64 \<in> set ?is" using cursor_covers [OF frames_invD(6) [OF inv] j] .
      ultimately show False using find_NoneD [OF None] by blast
    qed
    then have "available f = {}" by blast
    then show ?thesis using some frames_invD(4) [OF inv] by simp
  next
    case (Some i)
    then have P: "?P i" and mem: "i \<in> set ?is" using find_SomeD [OF Some] by blast+
    then have i: "i < length (fr_managed f)" using ne by auto
    let ?n = "trailing_zeros (fr_managed f ! i AND NOT (fr_allocated f ! i))"
    let ?k = "i * 64 + ?n"
    have n: "?n < 64" "bit (fr_managed f ! i AND NOT (fr_allocated f ! i)) ?n" using trailing_zeros_bit [OF P] by auto
    then have k: "?k \<in> available f" using available_frame [OF inv i n(1)] by simp
    have res: "res = Ok (?k * page_size)" and f': "f' = f\<lparr>fr_allocated := bit_set (fr_allocated f) ?k, fr_cursor := i, fr_free := fr_free f - 1\<rparr>"
      using a some Some n(1) by (auto simp: frames_allocate_def Let_def bit_set_def)
    have m: "marked (bit_set (fr_allocated f) ?k) = insert ?k (marked (fr_allocated f))"
      using available_below [OF k] frames_invD(2) [OF inv] by (intro marked_bit_set) simp
    have av: "available f' = available f - {?k}" by (auto simp: available_def f' m)
    have "frames_inv f'"
      unfolding frames_inv_def av
      using frames_invD [OF inv] i k m card_Diff_singleton [OF k] by (auto simp: f' available_def)
    then show ?thesis using allocated [OF k res av] f' m by simp
  qed
qed

lemma frames_release_cases:
  assumes inv: "frames_inv f" and r: "frames_release f a = (res, f')"
  obtains (refused) e where "res = Err e" "f' = f" "\<nexists>i. i \<in> marked (fr_allocated f) \<and> a = i * page_size"
  | (released) i where "a = i * page_size" "i \<in> marked (fr_allocated f)" "res = Ok ()"
      "available f' = insert i (available f)" "marked (fr_allocated f') = marked (fr_allocated f) - {i}"
      "fr_managed f' = fr_managed f" "frames_inv f'"
proof (cases "\<exists>i. i \<in> marked (fr_allocated f) \<and> a = i * page_size")
  case False
  have "(\<exists>e. res = Err e) \<and> f' = f"
  proof (cases "frames_locate f a")
    case (Ok i)
    then have "a = i * page_size" "i < length (fr_managed f) * 64"
      by (auto simp: frames_locate_def Let_def split: if_splits)
    then have "\<not> bit_get (fr_allocated f) i"
      using False frames_invD(2) [OF inv] by (auto simp: in_marked_iff mult.commute)
    then show ?thesis using r Ok by (auto simp: frames_release_def split: if_splits)
  next
    case (Err e)
    then show ?thesis using r by (auto simp: frames_release_def)
  next
    case Panic
    then show ?thesis by (auto simp: frames_locate_def Let_def split: if_splits)
  qed
  then show ?thesis using False refused by blast
next
  case True
  then obtain i where i: "i \<in> marked (fr_allocated f)" "a = i * page_size" by blast
  have im: "i \<in> marked (fr_managed f)" using i frames_invD(3) [OF inv] by blast
  have lim: "i < 64 * length (fr_managed f)" using im by (simp add: in_marked_iff)
  have f': "res = Ok ()" "f' = f\<lparr>fr_allocated := bit_clear (fr_allocated f) i, fr_free := fr_free f + 1, fr_cursor := i div 64\<rparr>"
    using r i im lim by (auto simp: frames_release_def frames_locate_def Let_def in_marked_iff)
  have m: "marked (bit_clear (fr_allocated f) i) = marked (fr_allocated f) - {i}"
    using lim frames_invD(2) [OF inv] by (intro marked_bit_clear) simp
  have av: "available f' = insert i (available f)" using im by (auto simp: available_def f' m)
  have "i \<notin> available f" using i by (simp add: available_def)
  then have "frames_inv f'"
    unfolding frames_inv_def av using frames_invD [OF inv] m lim
    by (auto simp: f' div_less_iff_less_mult mult.commute)
  then show ?thesis using released [OF i(2,1) f'(1) av] f'(2) m by simp
qed

section \<open>Contiguous frames\<close>

lemma available_search:
  assumes inv: "frames_inv f" and i: "i < length (fr_managed f) * 64"
  shows "(fr_managed f ! (i div 64) AND NOT (fr_allocated f ! (i div 64))) AND push_bit (i mod 64) 1 \<noteq> 0 \<longleftrightarrow> i \<in> available f"
proof -
  have j: "i div 64 < length (fr_managed f)" using i by (simp add: div_less_iff_less_mult mult.commute)
  have "(i div 64) * 64 + i mod 64 \<in> available f \<longleftrightarrow>
      bit (fr_managed f ! (i div 64) AND NOT (fr_allocated f ! (i div 64))) (i mod 64)"
    by (rule available_frame [OF inv j]) simp
  then show ?thesis by (simp only: bit_iff_and_push_bit_not_eq_0 div_mult_mod_eq)
qed

lemma contiguous_cases:
  assumes inv: "frames_inv f" and c: "allocate_contiguous_bounded f n maximum = (res, f')"
  obtains (invalid) "res = Err FrInvalidRange" "f' = f" "n = 0 \<or> n > maximum \<or> maximum > 128"
  | (exhausted) "res = Err FrExhausted" "f' = f" "0 < n" "\<And>b. \<not> {b..<b + n} \<subseteq> available f"
  | (allocated) a where "res = Ok (a * page_size)" "{a..<a + n} \<subseteq> available f" "0 < n" "n \<le> maximum"
      "\<And>b. b < a \<Longrightarrow> \<not> {b..<b + n} \<subseteq> available f"
      "marked (fr_allocated f') = marked (fr_allocated f) \<union> {a..<a + n}" "fr_managed f' = fr_managed f"
      "available f' = available f - {a..<a + n}" "frames_inv f'"
proof (cases "n = 0 \<or> n > maximum \<or> maximum > 128")
  case True
  then show ?thesis using c invalid by (auto simp: allocate_contiguous_bounded_def)
next
  case ok: False
  then have n0: "0 < n" by simp
  let ?N = "length (fr_managed f) * 64"
  let ?free = "\<lambda>i. (fr_managed f ! (i div 64) AND NOT (fr_allocated f ! (i div 64))) AND push_bit (i mod 64) 1 \<noteq> 0"
  have run: "run_free ?free b n \<longleftrightarrow> {b..<b + n} \<subseteq> available f" if "b + n \<le> ?N" for b
    using available_search [OF inv] that by (auto simp: run_free_def subset_eq)
  have beyond: "\<not> {b..<b + n} \<subseteq> available f" if "\<not> b + n \<le> ?N" for b
  proof
    assume s: "{b..<b + n} \<subseteq> available f"
    have "b + n - 1 \<in> {b..<b + n}" using n0 by auto
    then have "b + n - 1 < ?N" using s available_below [of "b + n - 1" f] by (auto simp: mult.commute)
    then show False using that n0 by linarith
  qed
  show ?thesis
  proof (cases "find_run ?free n [0..<?N] 0")
    case None
    have "\<not> {b..<b + n} \<subseteq> available f" for b
      using find_run_None [OF n0 None, of b] run [of b] beyond [of b] by blast
    moreover have "res = Err FrExhausted" "f' = f" using c ok None by (auto simp: allocate_contiguous_bounded_def)
    ultimately show ?thesis using exhausted n0 by blast
  next
    case (Some a)
    note fr = find_run_Some [OF n0 Some]
    have sub: "{a..<a + n} \<subseteq> available f" using run [of a] fr by blast
    have low: "\<not> {b..<b + n} \<subseteq> available f" if "b < a" for b using run [of b] fr that by simp
    have res: "res = Ok (a * page_size)"
      and f': "f' = f\<lparr>fr_allocated := bit_set_range (fr_allocated f) a (a + n), fr_free := fr_free f - n\<rparr>"
      using c ok Some by (auto simp: allocate_contiguous_bounded_def)
    have m: "marked (fr_allocated f') = marked (fr_allocated f) \<union> {a..<a + n}"
      using fr frames_invD(2) [OF inv] by (simp add: f' marked_set_range)
    have av: "available f' = available f - {a..<a + n}" by (auto simp: available_def m) (simp_all add: f')
    have card: "card (available f') = card (available f) - n"
      using card_Diff_subset [OF _ sub] by (simp add: av)
    have "frames_inv f'"
      unfolding frames_inv_def card using frames_invD [OF inv] m sub by (auto simp: f' available_def)
    then show ?thesis using allocated [OF res sub n0 _ low m _ av] ok f' by simp
  qed
qed

section \<open>Reserving and importing\<close>

lemma reserve_frame_step:
  assumes inv: "frames_inv f" and i: "i < length (fr_managed f) * 64" "i \<notin> marked (fr_allocated f)"
  shows "frames_inv (reserve_frame i f) \<and> marked (fr_managed (reserve_frame i f)) = marked (fr_managed f) - {i} \<and>
    fr_allocated (reserve_frame i f) = fr_allocated f \<and> length (fr_managed (reserve_frame i f)) = length (fr_managed f)"
proof (cases "bit_get (fr_managed f) i")
  case False
  then have "i \<notin> marked (fr_managed f)" by (simp add: in_marked_iff)
  then show ?thesis using inv False by (simp add: reserve_frame_def)
next
  case True
  have im: "i \<in> marked (fr_managed f)" using True i by (simp add: in_marked_iff mult.commute)
  have m: "marked (bit_clear (fr_managed f) i) = marked (fr_managed f) - {i}"
    using i by (intro marked_bit_clear) (simp add: mult.commute)
  have av: "available (reserve_frame i f) = available f - {i}"
    using True by (auto simp: available_def reserve_frame_def m)
  have ia: "i \<in> available f" using im i(2) by (simp add: available_def)
  have "frames_inv (reserve_frame i f)"
    unfolding frames_inv_def av card_Diff_singleton [OF ia]
    using frames_invD [OF inv] True m im i(2) by (auto simp: reserve_frame_def)
  then show ?thesis using True m by (simp add: reserve_frame_def)
qed

lemma reserve_frames:
  assumes "frames_inv f" and "\<And>i. i \<in> set xs \<Longrightarrow> i < length (fr_managed f) * 64 \<and> i \<notin> marked (fr_allocated f)"
  shows "frames_inv (fold reserve_frame xs f) \<and>
    marked (fr_managed (fold reserve_frame xs f)) = marked (fr_managed f) - set xs \<and>
    fr_allocated (fold reserve_frame xs f) = fr_allocated f"
  using assms
proof (induction xs arbitrary: f)
  case (Cons i xs)
  note st = reserve_frame_step [OF Cons.prems(1), of i]
  have "frames_inv (fold reserve_frame xs (reserve_frame i f)) \<and>
    marked (fr_managed (fold reserve_frame xs (reserve_frame i f))) = marked (fr_managed (reserve_frame i f)) - set xs \<and>
    fr_allocated (fold reserve_frame xs (reserve_frame i f)) = fr_allocated (reserve_frame i f)"
    by (rule Cons.IH) (use st Cons.prems in auto)
  then show ?case using st Cons.prems by auto
qed simp

lemma page_range: "set [div_ceil s page_size..<(s + l) div page_size] = {i. s \<le> i * page_size \<and> (i + 1) * page_size \<le> s + l}"
proof (rule set_eqI)
  fix i
  have "i < (s + l) div page_size \<longleftrightarrow> (i + 1) * page_size \<le> s + l"
    by (metis Suc_eq_plus1 Suc_le_eq less_eq_div_iff_mult_less_eq zero_less_numeral)
  then show "i \<in> set [div_ceil s page_size..<(s + l) div page_size] \<longleftrightarrow>
      i \<in> {i. s \<le> i * page_size \<and> (i + 1) * page_size \<le> s + l}"
    by (simp add: div_ceil_le_iff)
qed

lemma import_frames:
  assumes "frames_inv f" and "marked (fr_allocated f) = {}" and "distinct xs"
    and "\<And>i. i \<in> set xs \<Longrightarrow> i < length (fr_managed f) * 64 \<and> i \<notin> marked (fr_managed f)"
  shows "frames_inv (fold import_frame xs f) \<and>
    marked (fr_managed (fold import_frame xs f)) = marked (fr_managed f) \<union> set xs \<and>
    fr_allocated (fold import_frame xs f) = fr_allocated f \<and>
    length (fr_managed (fold import_frame xs f)) = length (fr_managed f)"
  using assms
proof (induction xs arbitrary: f)
  case (Cons i xs)
  have m: "marked (fr_managed (import_frame i f)) = insert i (marked (fr_managed f))"
    using Cons.prems(4) [of i] marked_bit_set [of i "fr_managed f"] by (simp add: import_frame_def mult.commute)
  have av: "available (import_frame i f) = insert i (available f)" "i \<notin> available f"
    using m Cons.prems(2,4) by (auto simp: available_def import_frame_def)
  have inv: "frames_inv (import_frame i f)"
    unfolding frames_inv_def av(1) m using frames_invD [OF Cons.prems(1)] av(2) Cons.prems(4) [of i] Cons.prems(2)
    by (auto simp: import_frame_def)
  have "frames_inv (fold import_frame xs (import_frame i f)) \<and>
    marked (fr_managed (fold import_frame xs (import_frame i f))) = marked (fr_managed (import_frame i f)) \<union> set xs \<and>
    fr_allocated (fold import_frame xs (import_frame i f)) = fr_allocated (import_frame i f) \<and>
    length (fr_managed (fold import_frame xs (import_frame i f))) = length (fr_managed (import_frame i f))"
  proof (rule Cons.IH)
    show "frames_inv (import_frame i f)" by (rule inv)
    show "marked (fr_allocated (import_frame i f)) = {}" using Cons.prems(2) by (simp add: import_frame_def)
    show "distinct xs" using Cons.prems(3) by simp
    fix j assume j: "j \<in> set xs"
    then have "j \<noteq> i" "j < length (fr_managed f) * 64" "j \<notin> marked (fr_managed f)"
      using Cons.prems(3) Cons.prems(4) [of j] by auto
    then show "j < length (fr_managed (import_frame i f)) * 64 \<and> j \<notin> marked (fr_managed (import_frame i f))"
      using m by (simp add: import_frame_def)
  qed
  moreover have "fr_allocated (import_frame i f) = fr_allocated f" "length (fr_managed (import_frame i f)) = length (fr_managed f)"
    by (simp_all add: import_frame_def)
  ultimately show ?case using m by simp
qed simp

definition usable_frames :: "map_entry list \<Rightarrow> nat set" where
  "usable_frames es = {i. \<exists>s l. (s, l, True) \<in> set es \<and> s \<le> i * page_size \<and> (i + 1) * page_size \<le> s + l}"

lemma import_entries:
  assumes "ordered_from p es" and "frames_inv f" and "marked (fr_allocated f) = {}"
    and "\<And>i. i \<in> marked (fr_managed f) \<Longrightarrow> (i + 1) * page_size \<le> p"
    and "\<And>s l. (s, l, True) \<in> set es \<Longrightarrow> s + l \<le> address_limit f"
  shows "frames_inv (fold import_entry es f) \<and>
    marked (fr_managed (fold import_entry es f)) = marked (fr_managed f) \<union> usable_frames es \<and>
    fr_allocated (fold import_entry es f) = fr_allocated f"
  using assms
proof (induction es arbitrary: p f)
  case Nil
  then show ?case by (simp add: usable_frames_def)
next
  case (Cons e es)
  obtain s l u where e: "e = (s, l, u)" by (cases e)
  have ord: "p \<le> s" "0 < l" "ordered_from (s + l) es" using Cons.prems(1) by (auto simp: e)
  let ?xs = "if u then [div_ceil s page_size..<(s + l) div page_size] else []"
  let ?f = "import_entry e f"
  have step: "?f = fold import_frame ?xs f" by (simp add: import_entry_def e)
  have xs: "set ?xs = {i. u \<and> s \<le> i * page_size \<and> (i + 1) * page_size \<le> s + l}" using page_range [of s l] by auto
  have f: "frames_inv ?f \<and> marked (fr_managed ?f) = marked (fr_managed f) \<union> set ?xs \<and>
      fr_allocated ?f = fr_allocated f \<and> length (fr_managed ?f) = length (fr_managed f)"
    unfolding step
  proof (rule import_frames [OF Cons.prems(2,3)])
    show "distinct ?xs" by simp
    fix i assume "i \<in> set ?xs"
    then have i: "u" "s \<le> i * page_size" "(i + 1) * page_size \<le> s + l" using xs by auto
    then have "(i + 1) * page_size \<le> address_limit f" using Cons.prems(5) [of s l] by (simp add: e)
    then have "i < length (fr_managed f) * 64" by (simp add: address_limit_def)
    moreover have "i \<notin> marked (fr_managed f)" using Cons.prems(4) [of i] i(2) ord(1) by fastforce
    ultimately show "i < length (fr_managed f) * 64 \<and> i \<notin> marked (fr_managed f)" by blast
  qed
  have "frames_inv (fold import_entry es ?f) \<and>
    marked (fr_managed (fold import_entry es ?f)) = marked (fr_managed ?f) \<union> usable_frames es \<and>
    fr_allocated (fold import_entry es ?f) = fr_allocated ?f"
  proof (rule Cons.IH [OF ord(3)])
    show "frames_inv ?f" "marked (fr_allocated ?f) = {}" using f Cons.prems(3) by auto
    show "(i + 1) * page_size \<le> s + l" if "i \<in> marked (fr_managed ?f)" for i
    proof -
      have "i \<in> marked (fr_managed f) \<or> i \<in> set ?xs" using that f by blast
      then show ?thesis
      proof
        assume "i \<in> marked (fr_managed f)"
        then show ?thesis using Cons.prems(4) [of i] ord(1) by linarith
      next
        assume "i \<in> set ?xs"
        then show ?thesis using xs by blast
      qed
    qed
    show "s' + l' \<le> address_limit ?f" if "(s', l', True) \<in> set es" for s' l'
      using that Cons.prems(5) [of s' l'] f by (simp add: address_limit_def)
  qed
  moreover have "set ?xs \<union> usable_frames es = usable_frames (e # es)"
    unfolding xs by (auto simp: usable_frames_def e)
  then have "marked (fr_managed ?f) \<union> usable_frames es = marked (fr_managed f) \<union> usable_frames (e # es)"
    using f by (metis Un_assoc)
  ultimately show ?case using f by simp
qed

lemma frames_import_inv:
  assumes inv: "frames_inv f" and im: "frames_import f es = (res, f')"
  shows "frames_inv f' \<and> (res = Ok () \<longrightarrow> marked (fr_managed f') = usable_frames es \<and> marked (fr_allocated f') = {}) \<and>
    (res \<noteq> Ok () \<longrightarrow> f' = f)"
proof (cases "res = Ok ()")
  case False
  have "f' = f"
    using im False by (cases "validate_map es") (auto simp: frames_import_def split: if_splits)
  then show ?thesis using inv False by simp
next
  case True
  obtain sm where sm: "validate_map es = Ok sm" and zero: "fr_total f = 0"
    and fit: "\<not> (\<exists>(s, l, u)\<in>set es. u \<and> (case checked_add64 s l of None \<Rightarrow> True | Some e \<Rightarrow> e > address_limit f))"
    and f': "f' = fold import_entry es f"
    using im True by (cases "validate_map es") (auto simp: frames_import_def split: if_splits)
  have none: "marked (fr_managed f) = {}" "marked (fr_allocated f) = {}"
    using zero frames_invD(3,5) [OF inv] by auto
  have "s + l \<le> address_limit f" if "(s, l, True) \<in> set es" for s l
    using fit that by (force split: option.splits)
  then have "frames_inv (fold import_entry es f) \<and>
    marked (fr_managed (fold import_entry es f)) = marked (fr_managed f) \<union> usable_frames es \<and>
    fr_allocated (fold import_entry es f) = fr_allocated f"
    using sm none validate_map_iff by (intro import_entries [OF _ inv]) auto
  then show ?thesis using f' none True by simp
qed

lemma frames_reserve_inv:
  assumes inv: "frames_inv f" and r: "frames_reserve f start len = (res, f')"
  shows "frames_inv f'"
proof (cases "res = Ok ()")
  case False
  have "f' = f" using r False by (auto simp: frames_reserve_def Let_def split: option.splits if_splits)
  then show ?thesis using inv by simp
next
  case True
  let ?xs = "[start div page_size..<min (div_ceil (start + len) page_size) (length (fr_managed f) * 64)]"
  have free: "\<not> (\<exists>i\<in>set ?xs. bit_get (fr_allocated f) i)" and f': "f' = fold reserve_frame ?xs f"
    using r True by (auto simp: frames_reserve_def Let_def split: option.splits if_splits)
  have "i < length (fr_managed f) * 64 \<and> i \<notin> marked (fr_allocated f)" if "i \<in> set ?xs" for i
    using that free by (auto simp: in_marked_iff)
  then show ?thesis using reserve_frames [OF inv, of ?xs] f' by blast
qed

section \<open>Runs of the allocator\<close>

inductive frames_step :: "frames \<Rightarrow> frames \<Rightarrow> bool" where
  fstep_import: "frames_import f es = (r, f') \<Longrightarrow> frames_step f f'"
| fstep_reserve: "frames_reserve f start len = (r, f') \<Longrightarrow> frames_step f f'"
| fstep_allocate: "frames_allocate f = (ra, f') \<Longrightarrow> frames_step f f'"
| fstep_contiguous: "allocate_contiguous_bounded f n maximum = (ra, f') \<Longrightarrow> frames_step f f'"
| fstep_release: "frames_release f a = (r, f') \<Longrightarrow> frames_step f f'"

lemma step_frames_inv: "frames_step f f' \<Longrightarrow> frames_inv f \<Longrightarrow> frames_inv f'"
proof (induction rule: frames_step.induct)
  case (fstep_import f es r f')
  then show ?case using frames_import_inv by blast
next
  case (fstep_reserve f start len r f')
  then show ?case using frames_reserve_inv by blast
next
  case (fstep_allocate f ra f')
  show ?case by (rule frames_allocate_cases [OF fstep_allocate(2,1)]) (use fstep_allocate(2) in simp_all)
next
  case (fstep_contiguous f n maximum ra f')
  show ?case by (rule contiguous_cases [OF fstep_contiguous(2,1)]) (use fstep_contiguous(2) in simp_all)
next
  case (fstep_release f a r f')
  show ?case by (rule frames_release_cases [OF fstep_release(2,1)]) (use fstep_release(2) in simp_all)
qed

lemma run_frames_inv: "frames_step\<^sup>*\<^sup>* f f' \<Longrightarrow> frames_inv f \<Longrightarrow> frames_inv f'"
  by (induction rule: rtranclp_induct) (auto intro: step_frames_inv)

lemma is_allocated_iff: "frames_inv f \<Longrightarrow> is_allocated f a \<longleftrightarrow> (\<exists>i\<in>marked (fr_allocated f). a = i * page_size)"
  using frames_invD(2) [of f]
  by (force simp: is_allocated_def frames_locate_def Let_def in_marked_iff mult.commute split: if_splits)

section \<open>Properties\<close>

text \<open>C32 Whatever sequence of imports, reservations, allocations and releases runs on a new allocator, the
  frames handed out are among the frames it manages, and its counters equal the sizes of those sets.\<close>

theorem frames_accounting:
  assumes "frames_new m a = Ok f" and "frames_step\<^sup>*\<^sup>* f g"
  shows "marked (fr_allocated g) \<subseteq> marked (fr_managed g) \<and>
    fr_free g = card (marked (fr_managed g) - marked (fr_allocated g)) \<and> fr_total g = card (marked (fr_managed g))"
  using frames_invD [OF run_frames_inv [OF assms(2)]] frames_new_inv [OF assms(1)] by (simp add: available_def)

theorem frames_accounting_witness:
  "\<exists>f g. frames_new [7, 7] [9, 9] = Ok f \<and> frames_step\<^sup>*\<^sup>* f g \<and> fr_total g = card (marked (fr_managed g))"
proof -
  define f where "f = \<lparr>fr_managed = [0, 0], fr_allocated = [0, 0], fr_free = 0, fr_total = 0, fr_cursor = 0\<rparr>"
  have n: "frames_new [7, 7] [9, 9] = Ok f" by (simp add: frames_new_def f_def)
  have run: "frames_step\<^sup>*\<^sup>* f (snd (frames_import f [(4096, 8192, True)]))"
    by (rule r_into_rtranclp [of frames_step, OF fstep_import [OF prod.collapse [symmetric]]])
  show ?thesis using n run frames_accounting [OF n run] by blast
qed

text \<open>C29 Allocation is exclusive and complete: it fails exactly when no frame is free; otherwise the
  returned page was managed and not handed out, is handed out afterwards, and no other page changes.\<close>

theorem allocate_exclusive:
  assumes "frames_inv f" and "frames_allocate f = (res, f')"
  shows "if fr_free f = 0 then res = Err FrExhausted \<and> f' = f
    else \<exists>i. res = Ok (i * page_size) \<and> i \<in> marked (fr_managed f) \<and> \<not> is_allocated f (i * page_size) \<and>
      (\<forall>b. is_allocated f' b \<longleftrightarrow> b = i * page_size \<or> is_allocated f b) \<and> fr_free f' = fr_free f - 1"
  using assms
proof (cases rule: frames_allocate_cases)
  case exhausted
  then show ?thesis using frames_invD(4) [OF assms(1)] by simp
next
  case (allocated i)
  have ne: "fr_free f \<noteq> 0" using allocated(1) frames_invD(4) [OF assms(1)] by auto
  have "fr_free f' = fr_free f - 1"
    using frames_invD(4) [OF allocated(6)] frames_invD(4) [OF assms(1)] allocated(1,3) by (simp add: card_Diff_singleton)
  moreover have "\<forall>b. is_allocated f' b \<longleftrightarrow> b = i * page_size \<or> is_allocated f b"
    using is_allocated_iff [OF allocated(6)] is_allocated_iff [OF assms(1)] allocated(4) by auto
  moreover have "\<not> is_allocated f (i * page_size)" "i \<in> marked (fr_managed f)"
    using is_allocated_iff [OF assms(1)] allocated(1) by (auto simp: available_def)
  ultimately show ?thesis using ne allocated(2) by (simp only: if_False) blast
qed

definition demo_frames :: frames where
  "demo_frames = \<lparr>fr_managed = [12], fr_allocated = [0], fr_free = 2, fr_total = 2, fr_cursor = 0\<rparr>"

lemma demo_marked: "marked [12] = {2, 3}" "marked [0] = {}"
proof -
  have twelve: "bit (12 :: u64) i \<longleftrightarrow> i = 2 \<or> i = 3" for i
  proof (cases "i < 4")
    case True
    then have "i \<in> {0, 1, 2, 3}" by auto
    then show ?thesis by (auto simp: bit_numeral_rec)
  next
    case False
    have "(12 :: u64) = take_bit 4 12" by (simp add: take_bit_eq_mod)
    then have "\<not> bit (12 :: u64) i" using False by (metis bit_take_bit_iff)
    then show ?thesis using False by auto
  qed
  have m: "i \<in> marked [12] \<longleftrightarrow> i < 64 \<and> bit (12 :: u64) i" for i by (cases "i < 64") (simp_all add: marked_def)
  show "marked [12] = {2, 3}"
  proof (rule set_eqI)
    fix i
    show "i \<in> marked [12] \<longleftrightarrow> i \<in> {2, 3}" unfolding m twelve by (cases "i = 2"; cases "i = 3") simp_all
  qed
  show "marked [0] = {}" by (simp add: marked_def)
qed

lemma demo_frames_inv: "frames_inv demo_frames"
  by (simp add: frames_inv_def demo_frames_def demo_marked available_def)

theorem allocate_exclusive_witness:
  "\<exists>i f'. frames_allocate demo_frames = (Ok (i * page_size), f') \<and> is_allocated f' (i * page_size) \<and> fr_free f' = 1"
proof -
  obtain res f' where a: "frames_allocate demo_frames = (res, f')" by fastforce
  have two: "fr_free demo_frames = 2" by (simp add: demo_frames_def)
  have "\<exists>i. res = Ok (i * page_size) \<and> is_allocated f' (i * page_size) \<and> fr_free f' = 1"
    using allocate_exclusive [OF demo_frames_inv a] unfolding two by auto
  then show ?thesis using a by blast
qed

text \<open>C30 A contiguous allocation is all or nothing: it returns the lowest run of the requested length that
  is completely free, marks exactly that run, and answers \<open>Exhausted\<close> only if no such run exists.\<close>

theorem contiguous_lowest_or_nothing:
  assumes "frames_inv f" and "0 < n" and "n \<le> maximum" and "maximum \<le> 128"
    and "allocate_contiguous_bounded f n maximum = (res, f')"
  shows "if \<exists>b. {b..<b + n} \<subseteq> available f
    then \<exists>a. res = Ok (a * page_size) \<and> {a..<a + n} \<subseteq> available f \<and> (\<forall>b<a. \<not> {b..<b + n} \<subseteq> available f) \<and>
      marked (fr_allocated f') = marked (fr_allocated f) \<union> {a..<a + n} \<and> fr_managed f' = fr_managed f
    else res = Err FrExhausted \<and> f' = f"
  using assms(1,5)
proof (cases rule: contiguous_cases)
  case invalid
  then show ?thesis using assms(2-4) by auto
next
  case exhausted
  then show ?thesis by auto
next
  case (allocated a)
  then show ?thesis by auto
qed

theorem contiguous_lowest_or_nothing_witness:
  "\<exists>f'. allocate_contiguous_bounded demo_frames 2 4 = (Ok 8192, f') \<and> marked (fr_allocated f') = {2, 3}"
proof -
  obtain res f' where c: "allocate_contiguous_bounded demo_frames 2 4 = (res, f')" by fastforce
  have av: "available demo_frames = {2, 3}" by (simp add: available_def demo_frames_def demo_marked)
  have only: "{b..<b + 2} \<subseteq> {2, 3 :: nat} \<longleftrightarrow> b = 2" for b
  proof
    assume "{b..<b + 2} \<subseteq> {2, 3}"
    moreover have "b \<in> {b..<b + 2}" "b + 1 \<in> {b..<b + 2}" by auto
    ultimately have "b \<in> {2, 3}" "b + 1 \<in> {2, 3}" by blast+
    then show "b = 2" by auto
  qed auto
  have al: "marked (fr_allocated demo_frames) = {}" by (simp add: demo_frames_def demo_marked)
  have "if \<exists>b. {b..<b + 2} \<subseteq> available demo_frames
    then \<exists>a. res = Ok (a * page_size) \<and> {a..<a + 2} \<subseteq> available demo_frames \<and> (\<forall>b<a. \<not> {b..<b + 2} \<subseteq> available demo_frames) \<and>
      marked (fr_allocated f') = marked (fr_allocated demo_frames) \<union> {a..<a + 2} \<and> fr_managed f' = fr_managed demo_frames
    else res = Err FrExhausted \<and> f' = demo_frames"
    by (rule contiguous_lowest_or_nothing [OF demo_frames_inv _ _ _ c]) simp_all
  then have "res = Ok 8192 \<and> marked (fr_allocated f') = {2..<4}"
    unfolding av only al by auto
  moreover have "{2..<4} = {2, 3 :: nat}" by auto
  ultimately show ?thesis using c by auto
qed

text \<open>C31 Importing a memory map makes exactly the whole pages inside usable regions available, each once,
  and none that touches other memory; a refused map changes nothing.\<close>

theorem import_manages_usable_pages:
  assumes "frames_new m a = Ok f" and "frames_import f es = (res, f')"
  shows "if res = Ok () then (\<forall>i. i \<in> marked (fr_managed f') \<longleftrightarrow>
        (\<exists>s l. (s, l, True) \<in> set es \<and> s \<le> i * page_size \<and> (i + 1) * page_size \<le> s + l)) \<and>
      fr_free f' = card (marked (fr_managed f')) \<and> fr_total f' = fr_free f'
    else f' = f"
proof -
  have f: "frames_inv f" using frames_new_inv [OF assms(1)] by blast
  note im = frames_import_inv [OF f assms(2)]
  then show ?thesis
    using frames_invD(4,5) [of f'] by (auto simp: available_def usable_frames_def)
qed

theorem import_manages_usable_pages_witness:
  "\<exists>f f'. frames_new [0] [0] = Ok f \<and> frames_import f [(1000, 20000, True)] = (Ok (), f') \<and>
     1 \<in> marked (fr_managed f') \<and> 0 \<notin> marked (fr_managed f')"
proof -
  define f where "f = \<lparr>fr_managed = [0], fr_allocated = [0], fr_free = 0, fr_total = 0, fr_cursor = 0\<rparr>"
  have n: "frames_new [0] [0] = Ok f" by (simp add: frames_new_def f_def)
  have ok: "fst (frames_import f [(1000, 20000, True)]) = Ok ()"
    by (simp add: frames_import_def f_def validate_map_def region_new_def checked_add64_def u64_limit_def
        address_limit_def Let_def)
  then have i: "frames_import f [(1000, 20000, True)] = (Ok (), snd (frames_import f [(1000, 20000, True)]))"
    by (metis prod.collapse)
  have "1 \<in> marked (fr_managed (snd (frames_import f [(1000, 20000, True)])))"
    "0 \<notin> marked (fr_managed (snd (frames_import f [(1000, 20000, True)])))"
    using import_manages_usable_pages [OF n i] by auto
  then show ?thesis using n i by blast
qed

end
