(* ===== verification/Paging.thy ===== *)
theory Paging
  imports Frames
begin

unbundle bit_operations_syntax

text \<open>
  The page tables of \<open>kernel/src/arch/x86_64/memory\<close> (\<open>physical.rs\<close>, \<open>tables.rs\<close>, \<open>space.rs\<close>). The
  physical memory is the frame allocator and the 512 words of every page frame, read and written
  through the direct map; a table is named by the address of its frame. \<open>cpu::root()\<close>, the root
  table the processor uses, is the argument \<open>active\<close> where the code tests it; the translation
  buffer of the processor has no state here. The assertions of \<open>pointer\<close>, \<open>read\<close> and \<open>write\<close> are
  the outcome \<open>Panic\<close>.
\<close>

section \<open>Definitions\<close>

datatype mem_error = MemFrames frame_error | MemInvalidAddress | MemAlreadyMapped | MemNotMapped
  | MemWritableExecutable | MemCorruptTable | MemActiveSpace | MemUnsupportedCpu | MemAlreadyInitialized

record physical =
  ph_frames :: frames
  ph_words :: "nat \<Rightarrow> nat \<Rightarrow> u64"

definition pte_address :: u64 where "pte_address = 0x000ffffffffff000"
definition pte_present :: u64 where "pte_present = 1"
definition pte_write :: u64 where "pte_write = 2"
definition pte_user :: u64 where "pte_user = 4"
definition pte_huge :: u64 where "pte_huge = push_bit 7 1"
definition pte_nx :: u64 where "pte_nx = push_bit 63 1"

definition pt_index :: "nat \<Rightarrow> nat \<Rightarrow> nat" where
  "pt_index a level = a div 2 ^ (12 + (level - 1) * 9) mod 512"

definition pt_flags :: "page_permissions \<Rightarrow> u64" where
  "pt_flags pm = pte_present OR (if perm_writable pm then pte_write else 0) OR
     (if perm_user pm then pte_user else 0) OR (if perm_executable pm then 0 else pte_nx)"

subsection \<open>Physical memory\<close>

definition ph_pointer :: "physical \<Rightarrow> nat \<Rightarrow> bool" where
  "ph_pointer p a \<longleftrightarrow> a < address_limit (ph_frames p) \<and> a mod page_size = 0"

definition ph_allocate_zeroed :: "physical \<Rightarrow> (mem_error, nat) outcome \<times> physical" where
  "ph_allocate_zeroed p =
     (case frames_allocate (ph_frames p) of
        (Ok frame, f) \<Rightarrow>
          let p = p\<lparr>ph_frames := f\<rparr> in
          if ph_pointer p frame then (Ok frame, p\<lparr>ph_words := (ph_words p)(frame := (\<lambda>_. 0))\<rparr>) else (Panic, p)
      | (Err e, f) \<Rightarrow> (Err (MemFrames e), p\<lparr>ph_frames := f\<rparr>)
      | (Panic, f) \<Rightarrow> (Panic, p\<lparr>ph_frames := f\<rparr>))"

definition ph_read :: "physical \<Rightarrow> nat \<Rightarrow> nat \<Rightarrow> (mem_error, u64) outcome" where
  "ph_read p table i = (if i < 512 \<and> ph_pointer p table then Ok (ph_words p table i) else Panic)"

definition ph_write :: "physical \<Rightarrow> nat \<Rightarrow> nat \<Rightarrow> u64 \<Rightarrow> (mem_error, unit) outcome \<times> physical" where
  "ph_write p table i v =
     (if i < 512 \<and> is_allocated (ph_frames p) table \<and> ph_pointer p table
      then (Ok (), p\<lparr>ph_words := (ph_words p)(table := (ph_words p table)(i := v))\<rparr>) else (Panic, p))"

definition ph_release :: "physical \<Rightarrow> nat \<Rightarrow> (mem_error, unit) outcome \<times> physical" where
  "ph_release p frame =
     (case frames_release (ph_frames p) frame of (r, f) \<Rightarrow> (map_err MemFrames r, p\<lparr>ph_frames := f\<rparr>))"

definition ph_empty :: "physical \<Rightarrow> nat \<Rightarrow> (mem_error, bool) outcome" where
  "ph_empty p table =
     (if ph_pointer p table then Ok (\<forall>i\<in>set [0..<512]. ph_words p table i = 0) else Panic)"

subsection \<open>Lookup\<close>

record pt_mapping =
  mp_physical :: nat
  mp_writable :: bool
  mp_executable :: bool
  mp_user :: bool

definition entry_present :: "u64 \<Rightarrow> bool" where "entry_present e \<longleftrightarrow> e AND pte_present \<noteq> 0"
definition entry_huge :: "u64 \<Rightarrow> bool" where "entry_huge e \<longleftrightarrow> e AND pte_huge \<noteq> 0"
definition entry_frame :: "u64 \<Rightarrow> nat" where "entry_frame e = unat (e AND pte_address)"

primrec lookup_loop :: "physical \<Rightarrow> nat \<Rightarrow> nat \<Rightarrow> bool \<Rightarrow> bool \<Rightarrow> bool \<Rightarrow> nat \<Rightarrow> (mem_error, pt_mapping option) outcome" where
  "lookup_loop p a table w u x 0 = Ok None"
| "lookup_loop p a table w u x (Suc l) =
     and_then (ph_read p table (pt_index a (Suc l))) (\<lambda>e.
     if \<not> entry_present e then Ok None
     else let w = (w \<and> e AND pte_write \<noteq> 0); u = (u \<and> e AND pte_user \<noteq> 0); x = (x \<and> e AND pte_nx = 0) in
       if Suc l = 1 \<or> entry_huge e
       then if Suc l = 4 then Ok None
            else let size = 2 ^ (12 + l * 9) in
              Ok (Some \<lparr>mp_physical = entry_frame e div size * size + a mod size,
                        mp_writable = w, mp_executable = x, mp_user = u\<rparr>)
       else lookup_loop p a (entry_frame e) w u x l)"

definition pt_lookup :: "physical \<Rightarrow> nat \<Rightarrow> nat \<Rightarrow> (mem_error, pt_mapping option) outcome" where
  "pt_lookup p root a =
     (if root = 0 \<or> \<not> canonical (of_nat a) then Ok None else lookup_loop p a root True True True 4)"

subsection \<open>Address spaces\<close>

record address_space =
  as_root :: nat
  as_kernel :: bool

definition as_is_active :: "nat \<Rightarrow> address_space \<Rightarrow> bool" where
  "as_is_active active s \<longleftrightarrow> as_root s = active"

primrec copy_upper :: "nat \<Rightarrow> nat \<Rightarrow> nat list \<Rightarrow> physical \<Rightarrow> (mem_error, unit) outcome \<times> physical" where
  "copy_upper root src [] p = (Ok (), p)"
| "copy_upper root src (i # is) p =
     or_return (ph_read p src i) p (\<lambda>e.
     case ph_write p root i e of (r, p) \<Rightarrow> or_return r p (\<lambda>_. copy_upper root src is p))"

definition as_child :: "address_space \<Rightarrow> physical \<Rightarrow> (mem_error, address_space) outcome \<times> physical" where
  "as_child s p =
     (if \<not> as_kernel s then (Err MemInvalidAddress, p)
      else case ph_allocate_zeroed p of (r, p) \<Rightarrow> or_return r p (\<lambda>root.
        case copy_upper root (as_root s) [256..<512] p of (r, p) \<Rightarrow> or_return r p (\<lambda>_.
          (Ok \<lparr>as_root = root, as_kernel = False\<rparr>, p))))"

type_synonym table_slot = "nat \<times> nat \<times> nat"

text \<open>
  The loop of \<open>map_zeroed\<close> over the levels 4, 3 and 2: the table of level 1 it reaches, and the tables it
  has created on the way, the newest last.
\<close>

primrec map_walk ::
  "nat \<Rightarrow> nat list \<Rightarrow> nat \<Rightarrow> table_slot list \<Rightarrow> physical \<Rightarrow> (mem_error, nat) outcome \<times> table_slot list \<times> physical" where
  "map_walk a [] table created p = (Ok table, created, p)"
| "map_walk a (level # levels) table created p =
     (let slot = pt_index a level in
      case ph_read p table slot of
        Ok e \<Rightarrow>
          if \<not> entry_present e
          then (case ph_allocate_zeroed p of
              (Ok child, p) \<Rightarrow>
                (case ph_write p table slot (of_nat child OR pte_present OR pte_write OR pte_user) of
                   (Ok _, p) \<Rightarrow> map_walk a levels child (created @ [(table, slot, child)]) p
                 | (Err e, p) \<Rightarrow> (Err e, created, p)
                 | (Panic, p) \<Rightarrow> (Panic, created, p))
            | (Err e, p) \<Rightarrow> (Err e, created, p)
            | (Panic, p) \<Rightarrow> (Panic, created, p))
          else if entry_huge e then (Err MemCorruptTable, created, p)
          else map_walk a levels (entry_frame e) created p
      | Err e \<Rightarrow> (Err e, created, p)
      | Panic \<Rightarrow> (Panic, created, p))"

primrec map_rollback :: "table_slot list \<Rightarrow> physical \<Rightarrow> (mem_error, unit) outcome \<times> physical" where
  "map_rollback [] p = (Ok (), p)"
| "map_rollback (c # cs) p = (case c of (parent, slot, child) \<Rightarrow>
     case ph_write p parent slot 0 of (r, p) \<Rightarrow> or_return r p (\<lambda>_.
     case ph_release p child of (r, p) \<Rightarrow> or_return r p (\<lambda>_. map_rollback cs p)))"

definition as_map_zeroed ::
  "address_space \<Rightarrow> virtual_page \<Rightarrow> page_permissions \<Rightarrow> physical \<Rightarrow> (mem_error, unit) outcome \<times> physical" where
  "as_map_zeroed s page pm p =
     (if as_root s = 0 then (Err MemInvalidAddress, p)
      else if \<not> perm_valid pm then (Err MemWritableExecutable, p)
      else let a = virtual_page_address page in
        or_return (pt_lookup p (as_root s) a) p (\<lambda>found.
        if found \<noteq> None then (Err MemAlreadyMapped, p)
        else case ph_allocate_zeroed p of (r, p) \<Rightarrow> or_return r p (\<lambda>frame.
          case map_walk a [4, 3, 2] (as_root s) [] p of (walk, created, p) \<Rightarrow>
          (case (case walk of
                   Ok table \<Rightarrow> ph_write p table (pt_index a 1) (of_nat frame OR pt_flags pm)
                 | Err e \<Rightarrow> (Err e, p)
                 | Panic \<Rightarrow> (Panic, p)) of
             (Ok _, p) \<Rightarrow> (Ok (), p)
           | (Panic, p) \<Rightarrow> (Panic, p)
           | (Err e, p) \<Rightarrow>
               (case map_rollback (rev created) p of (r, p) \<Rightarrow> or_return r p (\<lambda>_.
                case ph_release p frame of (r, p) \<Rightarrow> or_return r p (\<lambda>_. (Err e, p))))))))"

text \<open>The descent of \<open>unmap\<close>: the tables on the way with their parents, and the table of level 1.\<close>

primrec unmap_walk :: "physical \<Rightarrow> nat \<Rightarrow> nat list \<Rightarrow> nat \<Rightarrow> (mem_error, nat \<times> table_slot list) outcome" where
  "unmap_walk p a [] table = Ok (table, [])"
| "unmap_walk p a (level # levels) table =
     (let slot = pt_index a level in
      and_then (ph_read p table slot) (\<lambda>e.
      if \<not> entry_present e then Err MemNotMapped
      else if entry_huge e then Err MemCorruptTable
      else and_then (unmap_walk p a levels (entry_frame e)) (\<lambda>(t, path).
        Ok (t, (table, slot, entry_frame e) # path))))"

primrec free_empty :: "table_slot list \<Rightarrow> physical \<Rightarrow> (mem_error, unit) outcome \<times> physical" where
  "free_empty [] p = (Ok (), p)"
| "free_empty (c # cs) p = (case c of (parent, slot, child) \<Rightarrow>
     or_return (ph_empty p child) p (\<lambda>vacant.
     if \<not> vacant then (Ok (), p)
     else case ph_write p parent slot 0 of (r, p) \<Rightarrow> or_return r p (\<lambda>_.
       case ph_release p child of (r, p) \<Rightarrow> or_return r p (\<lambda>_. free_empty cs p))))"

definition as_unmap :: "address_space \<Rightarrow> virtual_page \<Rightarrow> physical \<Rightarrow> (mem_error, unit) outcome \<times> physical" where
  "as_unmap s page p =
     (if as_root s = 0 then (Err MemInvalidAddress, p)
      else let a = virtual_page_address page in
        or_return (unmap_walk p a [4, 3, 2] (as_root s)) p (\<lambda>(table, path).
        let slot = pt_index a 1 in
        or_return (ph_read p table slot) p (\<lambda>e.
        if \<not> entry_present e then (Err MemNotMapped, p)
        else case ph_write p table slot 0 of (r, p) \<Rightarrow> or_return r p (\<lambda>_.
          case ph_release p (entry_frame e) of (r, p) \<Rightarrow> or_return r p (\<lambda>_.
          free_empty (rev path) p)))))"

text \<open>
  \<open>release_tree\<close>: the loop over the slots of a table of \<open>level\<close>, and then the table itself. The loop
  over the slots of the root in \<open>destroy\<close> is the same walk one level up, without the release.
\<close>

fun release_slots :: "nat \<Rightarrow> nat \<Rightarrow> nat list \<Rightarrow> physical \<Rightarrow> (mem_error, unit) outcome \<times> physical" where
  "release_slots table level [] p = (Ok (), p)"
| "release_slots table 0 (i # is) p = (Ok (), p)"
| "release_slots table (Suc l) (i # is) p =
     or_return (ph_read p table i) p (\<lambda>e.
     case (if \<not> entry_present e then (Ok (), p)
           else if l = 0 then ph_release p (entry_frame e)
           else if l < 3 \<and> entry_huge e then (Err MemCorruptTable, p)
           else (case release_slots (entry_frame e) l [0..<512] p of (r, p) \<Rightarrow> or_return r p (\<lambda>_.
                   ph_release p (entry_frame e)))) of
       (r, p) \<Rightarrow> or_return r p (\<lambda>_. release_slots table (Suc l) is p))"

definition as_destroy :: "nat \<Rightarrow> address_space \<Rightarrow> physical \<Rightarrow> (mem_error, unit) outcome \<times> address_space \<times> physical" where
  "as_destroy active s p =
     (if as_kernel s \<or> as_root s = active then (Err MemActiveSpace, s, p)
      else if as_root s = 0 then (Err MemInvalidAddress, s, p)
      else case release_slots (as_root s) 4 [0..<256] p of
        (Ok _, p) \<Rightarrow>
          (case ph_release p (as_root s) of
             (Ok _, p) \<Rightarrow> (Ok (), s\<lparr>as_root := 0\<rparr>, p)
           | (Err e, p) \<Rightarrow> (Err e, s, p)
           | (Panic, p) \<Rightarrow> (Panic, s, p))
      | (Err e, p) \<Rightarrow> (Err e, s, p)
      | (Panic, p) \<Rightarrow> (Panic, s, p))"

end
