(* ===== verification/Bytes.thy ===== *)
theory Bytes
  imports Prelude
begin

unbundle bit_operations_syntax

text \<open>
  Fixed little-endian records. \<open>to_le\<close> and \<open>from_le\<close> are \<open>to_le_bytes\<close> and \<open>from_le_bytes\<close>,
  \<open>field_at\<close> is \<open>&bytes[o..o + n]\<close> and \<open>put\<close> is \<open>bytes[o..].copy_from_slice(v)\<close>. The ABI decoders
  check the exact record length before they read, so every \<open>field_at\<close> of a decoder lies inside the
  record. The locales state what a codec promises its callers; each wire record of the ABI is an
  interpretation.
\<close>

section \<open>Definitions\<close>

definition to_le :: "nat \<Rightarrow> 'a::len word \<Rightarrow> bytes" where
  "to_le n w = map (\<lambda>i. ucast (drop_bit (8 * i) w)) [0..<n]"

primrec from_le :: "bytes \<Rightarrow> 'a::len word" where
  "from_le [] = 0"
| "from_le (b # bs) = ucast b OR push_bit 8 (from_le bs)"

definition field_at :: "'a list \<Rightarrow> nat \<Rightarrow> nat \<Rightarrow> 'a list" where
  "field_at bs p n = take n (drop p bs)"

definition put :: "'a list \<Rightarrow> nat \<Rightarrow> 'a list \<Rightarrow> 'a list" where
  "put bs p v = take p bs @ v @ drop (p + length v) bs"

definition any_nonzero :: "bytes \<Rightarrow> bool" where
  "any_nonzero bs = list_ex (\<lambda>b. b \<noteq> 0) bs"

definition u16_at :: "bytes \<Rightarrow> nat \<Rightarrow> u16" where
  "u16_at bs p = from_le (field_at bs p 2)"

definition u32_at :: "bytes \<Rightarrow> nat \<Rightarrow> u32" where
  "u32_at bs p = from_le (field_at bs p 4)"

definition u64_at :: "bytes \<Rightarrow> nat \<Rightarrow> u64" where
  "u64_at bs p = from_le (field_at bs p 8)"

primrec layout :: "nat \<Rightarrow> nat list \<Rightarrow> 'a list \<Rightarrow> 'a list list" where
  "layout p [] xs = []"
| "layout p (n # ns) xs = field_at xs p n # layout (p + n) ns xs"

section \<open>Little-endian integers\<close>

lemma length_to_le [simp]: "length (to_le n w) = n"
  by (simp add: to_le_def)

lemma bit_to_le_nth: "k < n \<Longrightarrow> bit (to_le n w ! k) j \<longleftrightarrow> j < 8 \<and> bit w (8 * k + j)"
  by (simp add: to_le_def bit_simps)

lemma bit_from_le:
  "bit (from_le bs :: 'a::len word) i \<longleftrightarrow>
     i < LENGTH('a) \<and> i div 8 < length bs \<and> bit (bs ! (i div 8)) (i mod 8)"
proof (induction bs arbitrary: i)
  case Nil
  then show ?case by simp
next
  case (Cons b bs)
  show ?case
  proof (cases "i < 8")
    case True
    then show ?thesis by (auto simp: bit_simps dest: bit_imp_le_length)
  next
    case False
    then obtain j where i: "i = j + 8" by (metis add.commute le_Suc_ex linorder_not_less)
    have "\<not> bit b i" using False bit_imp_le_length [of b i] by auto
    then have "bit (from_le (b # bs) :: 'a word) i \<longleftrightarrow> i < LENGTH('a) \<and> bit (from_le bs :: 'a word) j"
      using i by (auto simp: bit_simps)
    also have "\<dots> \<longleftrightarrow> i < LENGTH('a) \<and> j div 8 < length bs \<and> bit (bs ! (j div 8)) (j mod 8)"
      using i by (auto simp: Cons.IH)
    finally show ?thesis using i by (simp add: div_add_self2)
  qed
qed

lemma from_le_to_le:
  fixes w :: "'a::len word"
  assumes "LENGTH('a) \<le> 8 * n"
  shows "from_le (to_le n w) = w"
proof (rule bit_word_eqI)
  fix i assume i: "i < LENGTH('a)"
  then have "i div 8 < n" using assms by (simp add: less_mult_imp_div_less)
  with i show "bit (from_le (to_le n w) :: 'a word) i \<longleftrightarrow> bit w i"
    by (simp add: bit_from_le bit_to_le_nth)
qed

lemma to_le_from_le:
  assumes "8 * length bs \<le> LENGTH('a::len)" and "n = length bs"
  shows "to_le n (from_le bs :: 'a word) = bs"
proof (rule nth_equalityI)
  show "length (to_le n (from_le bs :: 'a word)) = length bs" using assms by simp
next
  fix k assume "k < length (to_le n (from_le bs :: 'a word))"
  then have k: "k < length bs" using assms by simp
  show "to_le n (from_le bs :: 'a word) ! k = bs ! k"
  proof (rule bit_word_eqI)
    fix j assume "j < LENGTH(8)"
    then have j: "j < 8" by simp
    moreover have "8 * k + j < LENGTH('a)" using k j assms by linarith
    ultimately show "bit (to_le n (from_le bs :: 'a word) ! k) j \<longleftrightarrow> bit (bs ! k) j"
      using k assms by (simp add: bit_to_le_nth bit_from_le)
  qed
qed

lemma from_le_to_le_sizes [simp]:
  "from_le (to_le 2 (a :: u16)) = a" "from_le (to_le 4 (b :: u32)) = b"
  "from_le (to_le 8 (c :: u64)) = c"
  by (simp_all add: from_le_to_le)

lemma to_le_0: "to_le n 0 = replicate n 0"
  by (rule nth_equalityI) (auto simp: to_le_def)

lemma from_le_replicate_0 [simp]: "from_le (replicate n 0) = 0"
  by (induction n) auto

section \<open>Slices\<close>

lemma length_field_at [simp]: "length (field_at bs p n) = min n (length bs - p)"
  by (simp add: field_at_def)

lemma length_put [simp]: "p + length v \<le> length bs \<Longrightarrow> length (put bs p v) = length bs"
  by (simp add: put_def)

lemma slice_put_same [simp]: "p + length v \<le> length bs \<Longrightarrow> n = length v \<Longrightarrow> field_at (put bs p v) p n = v"
  by (simp add: field_at_def put_def)

lemma slice_put_before [simp]: "a + n \<le> p \<Longrightarrow> p \<le> length bs \<Longrightarrow> field_at (put bs p v) a n = field_at bs a n"
  by (simp add: field_at_def put_def drop_take)

lemma slice_put_after [simp]:
  "p + length v \<le> a \<Longrightarrow> p + length v \<le> length bs \<Longrightarrow> field_at (put bs p v) a n = field_at bs a n"
  by (simp add: field_at_def put_def)

lemma slice_replicate [simp]: "field_at (replicate m x) a n = replicate (min n (m - a)) x"
  by (simp add: field_at_def)

lemma slice_list_update [simp]: "i < a \<Longrightarrow> field_at (bs[i := x]) a n = field_at bs a n"
  by (simp add: field_at_def)

lemma drop_as_slice: "drop a bs = field_at bs a (length bs - a)"
  by (simp add: field_at_def)

lemma take_as_slice: "take n bs = field_at bs 0 n"
  by (simp add: field_at_def)

lemma take_drop_as_slice: "take n (drop a bs) = field_at bs a n"
  by (simp add: field_at_def)

lemma slice_all [simp]: "length bs \<le> n \<Longrightarrow> field_at bs 0 n = bs"
  by (simp add: field_at_def)

lemma put_take [simp]: "n \<le> p \<Longrightarrow> p \<le> length bs \<Longrightarrow> take n (put bs p v) = take n bs"
  by (simp add: put_def)

lemma not_any_nonzero: "\<not> any_nonzero bs \<longleftrightarrow> bs = replicate (length bs) 0"
  by (induction bs) (auto simp: any_nonzero_def)

lemma any_nonzero_replicate [simp]: "\<not> any_nonzero (replicate n 0)"
  by (simp add: not_any_nonzero)

lemma field_at_four: "4 \<le> length bs \<Longrightarrow> field_at bs 0 4 = [bs ! 0, bs ! 1, bs ! 2, bs ! 3]"
  by (rule nth_equalityI) (auto simp: field_at_def less_Suc_eq numeral_eq_Suc nth_Cons')

lemma nth_put [simp]: "p \<le> length bs \<Longrightarrow> i < p \<Longrightarrow> put bs p v ! i = bs ! i"
  by (simp add: put_def nth_append)

lemma nth_put_after [simp]:
  "p + length v \<le> i \<Longrightarrow> p + length v \<le> length bs \<Longrightarrow> put bs p v ! i = bs ! i"
  by (auto simp: put_def nth_append)

lemma slice_list_update_before [simp]: "a + n \<le> i \<Longrightarrow> field_at (bs[i := x]) a n = field_at bs a n"
  by (simp add: field_at_def drop_update_swap)

lemma put_put_same [simp]: "length v = length w \<Longrightarrow> p + length v \<le> length bs \<Longrightarrow> put (put bs p v) p w = put bs p w"
  by (simp add: put_def)

lemma put_same: "field_at bs p n = v \<Longrightarrow> p + n \<le> length bs \<Longrightarrow> put bs p v = bs"
  by (auto simp: put_def field_at_def) (metis append_take_drop_id drop_drop add.commute)

lemma zeros_within:
  assumes "\<not> any_nonzero (field_at bs a n)" and "a \<le> b" and "b + m \<le> a + n" and "a + n \<le> length bs"
  shows "field_at bs b m = replicate m 0"
proof -
  have "field_at bs a n = replicate n 0" using assms(1,4) not_any_nonzero [of "field_at bs a n"] by simp
  moreover have "field_at bs b m = field_at (field_at bs a n) (b - a) m"
    using assms(2,3) by (simp add: field_at_def drop_take min_def)
  ultimately show ?thesis using assms(2,3) by simp
qed

lemma concat_layout: "concat (layout p ns xs) = take (sum_list ns) (drop p xs)"
  by (induction ns arbitrary: p) (auto simp: field_at_def take_add drop_drop add.commute)

text \<open>Two records are equal when they agree field by field along a layout that covers them.\<close>

lemma eq_by_fields:
  "n = sum_list ns \<Longrightarrow> n = length ys \<Longrightarrow> layout 0 ns xs = layout 0 ns ys \<Longrightarrow> take n xs = ys"
  using concat_layout [of 0 ns xs] concat_layout [of 0 ns ys] by simp

lemmas field_reads = u16_at_def u32_at_def u64_at_def

lemma field_of_read:
  "p + 2 \<le> length bs \<Longrightarrow> field_at bs p 2 = to_le 2 (u16_at bs p)"
  "p + 4 \<le> length bs \<Longrightarrow> field_at bs p 4 = to_le 4 (u32_at bs p)"
  "p + 8 \<le> length bs \<Longrightarrow> field_at bs p 8 = to_le 8 (u64_at bs p)"
  by (simp_all add: field_reads to_le_from_le)

section \<open>What a codec promises\<close>

locale codec =
  fixes encode :: "'a \<Rightarrow> bytes"
    and decode :: "bytes \<Rightarrow> ('e, 'a) outcome"
    and valid :: "'a \<Rightarrow> bool"
  assumes decode_encode: "valid x \<Longrightarrow> decode (encode x) = Ok x"
begin

lemma encode_injective: "valid x \<Longrightarrow> valid y \<Longrightarrow> encode x = encode y \<Longrightarrow> x = y"
  by (metis decode_encode outcome.inject(1))

end

locale canonical_codec = codec encode decode valid
  for encode :: "'a \<Rightarrow> bytes" and decode :: "bytes \<Rightarrow> ('e, 'a) outcome" and valid :: "'a \<Rightarrow> bool" +
  assumes decode_valid: "decode bs = Ok x \<Longrightarrow> valid x"
    and encode_decode: "decode bs = Ok x \<Longrightarrow> encode x = bs"
begin

lemma decode_injective: "decode bs = Ok x \<Longrightarrow> decode cs = Ok x \<Longrightarrow> bs = cs"
  using encode_decode by metis

lemma decode_iff: "decode bs = Ok x \<longleftrightarrow> valid x \<and> bs = encode x"
  using decode_encode decode_valid encode_decode by metis

end

end
