(* ===== verification/User_Memory.thy ===== *)
theory User_Memory
  imports Paging Bytes
begin

unbundle bit_operations_syntax

text \<open>
  What the kernel does to the memory of a process: \<open>kernel/src/arch/x86_64/memory/user.rs\<close> (the pages it
  maps and unmaps) and \<open>copy.rs\<close> (the bytes it reads and writes), over the byte accesses of \<open>physical.rs\<close>.
  A frame is 512 little-endian words, so byte \<open>k\<close> of a frame is a byte of word \<open>k div 8\<close>. \<open>active\<close> is the
  root the processor uses, the answer of \<open>cpu::root()\<close>; \<open>usize\<close> arithmetic on offsets inside a page cannot
  overflow and stays on \<open>nat\<close>.
\<close>

section \<open>Bytes of a frame\<close>

definition word_byte :: "u64 \<Rightarrow> nat \<Rightarrow> u8" where
  "word_byte w j = ucast (drop_bit (8 * j) w)"

definition set_word_byte :: "u64 \<Rightarrow> nat \<Rightarrow> u8 \<Rightarrow> u64" where
  "set_word_byte w j b = (w AND NOT (push_bit (8 * j) 0xff)) OR push_bit (8 * j) (ucast b)"

definition frame_byte :: "(nat \<Rightarrow> u64) \<Rightarrow> nat \<Rightarrow> u8" where
  "frame_byte ws k = word_byte (ws (k div 8)) (k mod 8)"

primrec put_bytes :: "(nat \<Rightarrow> u64) \<Rightarrow> nat \<Rightarrow> bytes \<Rightarrow> nat \<Rightarrow> u64" where
  "put_bytes ws k [] = ws"
| "put_bytes ws k (b # bs) = put_bytes (ws(k div 8 := set_word_byte (ws (k div 8)) (k mod 8) b)) (Suc k) bs"

definition initialize_bytes :: "physical \<Rightarrow> nat \<Rightarrow> nat \<Rightarrow> bytes \<Rightarrow> (mem_error, unit) outcome \<times> physical" where
  "initialize_bytes p frame off data =
     (if is_allocated (ph_frames p) frame \<and> off + length data \<le> page_size \<and> ph_pointer p frame
      then (Ok (), p\<lparr>ph_words := (ph_words p)(frame := put_bytes (ph_words p frame) off data)\<rparr>) else (Panic, p))"

definition read_bytes :: "physical \<Rightarrow> nat \<Rightarrow> nat \<Rightarrow> nat \<Rightarrow> (mem_error, bytes) outcome" where
  "read_bytes p frame off n =
     (if is_allocated (ph_frames p) frame \<and> off + n \<le> page_size \<and> ph_pointer p frame
      then Ok (map (frame_byte (ph_words p frame)) [off..<off + n]) else Panic)"

section \<open>Pages of a process\<close>

definition page_of :: "nat \<Rightarrow> nat \<Rightarrow> (mem_error, virtual_page) outcome" where
  "page_of base index =
     and_then (ok_or MemInvalidAddress
       (if index * page_size < u64_limit then checked_add64 base (index * page_size) else None)) (\<lambda>address.
     ok_or MemInvalidAddress (virtual_page_new address))"

definition create_user :: "address_space \<Rightarrow> physical \<Rightarrow> (mem_error, address_space) outcome \<times> physical" where
  "create_user k p = as_child k p"

definition load_page ::
  "nat \<Rightarrow> address_space \<Rightarrow> nat \<Rightarrow> page_permissions \<Rightarrow> nat \<Rightarrow> bytes \<Rightarrow> physical \<Rightarrow> (mem_error, unit) outcome \<times> physical" where
  "load_page active s address pm off data p =
     (if \<not> perm_user pm \<or> off + length data > page_size \<or> as_is_active active s then (Err MemInvalidAddress, p)
      else or_return (ok_or MemInvalidAddress (virtual_page_new address)) p (\<lambda>page.
        case as_map_zeroed s page pm p of (r, p) \<Rightarrow> or_return r p (\<lambda>_.
        or_return (and_then (pt_lookup p (as_root s) address) (ok_or MemNotMapped)) p (\<lambda>mapping.
          initialize_bytes p (mp_physical mapping) off data))))"

primrec map_pages ::
  "address_space \<Rightarrow> nat \<Rightarrow> page_permissions \<Rightarrow> nat \<Rightarrow> nat \<Rightarrow> physical \<Rightarrow> (mem_error, unit) outcome \<times> nat \<times> physical" where
  "map_pages s base pm 0 mapped p = (Ok (), mapped, p)"
| "map_pages s base pm (Suc n) mapped p =
     (case page_of base mapped of
        Ok page \<Rightarrow>
          (case as_map_zeroed s page pm p of
             (Ok _, p) \<Rightarrow> map_pages s base pm n (Suc mapped) p
           | (Err e, p) \<Rightarrow> (Err e, mapped, p)
           | (Panic, p) \<Rightarrow> (Panic, mapped, p))
      | Err e \<Rightarrow> (Err e, mapped, p)
      | Panic \<Rightarrow> (Panic, mapped, p))"

primrec unmap_pages :: "address_space \<Rightarrow> nat \<Rightarrow> nat list \<Rightarrow> physical \<Rightarrow> (mem_error, unit) outcome \<times> physical" where
  "unmap_pages s base [] p = (Ok (), p)"
| "unmap_pages s base (index # is) p =
     or_return (page_of base index) p (\<lambda>page.
     case as_unmap s page p of (r, p) \<Rightarrow> or_return r p (\<lambda>_. unmap_pages s base is p))"

definition unmap_user_pages ::
  "nat \<Rightarrow> address_space \<Rightarrow> nat \<Rightarrow> nat \<Rightarrow> physical \<Rightarrow> (mem_error, unit) outcome \<times> physical" where
  "unmap_user_pages active s base pages p =
     (if as_is_active active s then (Err MemInvalidAddress, p) else unmap_pages s base [0..<pages] p)"

definition map_user_pages ::
  "nat \<Rightarrow> address_space \<Rightarrow> nat \<Rightarrow> nat \<Rightarrow> bool \<Rightarrow> physical \<Rightarrow> (mem_error, unit) outcome \<times> physical" where
  "map_user_pages active s base pages writable p =
     (if as_is_active active s then (Err MemInvalidAddress, p)
      else let pm = \<lparr>perm_writable = writable, perm_executable = False, perm_user = True\<rparr> in
        (case map_pages s base pm pages 0 p of
           (Ok _, mapped, p) \<Rightarrow> (Ok (), p)
         | (Panic, mapped, p) \<Rightarrow> (Panic, p)
         | (Err e, mapped, p) \<Rightarrow>
             if 0 < mapped
             then (case unmap_user_pages active s base mapped p of (Ok _, p) \<Rightarrow> (Err e, p) | (_, p) \<Rightarrow> (Panic, p))
             else (Err e, p)))"

definition destroy_user :: "nat \<Rightarrow> address_space \<Rightarrow> physical \<Rightarrow> (mem_error, unit) outcome \<times> address_space \<times> physical" where
  "destroy_user active s p = as_destroy active s p"

section \<open>Bytes of a process\<close>

definition buffer_page_ok :: "physical \<Rightarrow> address_space \<Rightarrow> bool \<Rightarrow> nat \<Rightarrow> (mem_error, unit) outcome" where
  "buffer_page_ok p s writing page =
     and_then (and_then (pt_lookup p (as_root s) page) (ok_or MemInvalidAddress)) (\<lambda>m.
     if \<not> mp_user m \<or> writing \<and> \<not> mp_writable m \<or>
        \<not> is_allocated (ph_frames p) (mp_physical m - mp_physical m mod page_size)
     then Err MemInvalidAddress else Ok ())"

primrec check_pages :: "physical \<Rightarrow> address_space \<Rightarrow> bool \<Rightarrow> nat list \<Rightarrow> (mem_error, unit) outcome" where
  "check_pages p s writing [] = Ok ()"
| "check_pages p s writing (page # pages) =
     and_then (buffer_page_ok p s writing page) (\<lambda>_. check_pages p s writing pages)"

text \<open>The pages of \<open>(address & !(PAGE_SIZE - 1)..end).step_by(PAGE_SIZE)\<close>.\<close>

definition buffer_pages :: "nat \<Rightarrow> nat \<Rightarrow> nat list" where
  "buffer_pages address stop =
     (let first = address - address mod page_size in
      map (\<lambda>i. first + i * page_size) [0..<div_ceil (stop - first) page_size])"

definition validate_buffer ::
  "nat \<Rightarrow> physical \<Rightarrow> address_space \<Rightarrow> nat \<Rightarrow> nat \<Rightarrow> bool \<Rightarrow> (mem_error, unit) outcome" where
  "validate_buffer active p s address len writing =
     and_then (ok_or MemInvalidAddress (checked_add64 address len)) (\<lambda>stop.
     if len = 0 \<or> len > 4096 \<or> address < page_size \<or> stop > 2 ^ 47 \<or> as_is_active active s then Err MemInvalidAddress
     else check_pages p s writing (buffer_pages address stop))"

text \<open>The copy loops: \<open>address\<close> and \<open>n\<close> are what is left to copy.\<close>

function copy_in :: "physical \<Rightarrow> address_space \<Rightarrow> nat \<Rightarrow> nat \<Rightarrow> (mem_error, bytes) outcome" where
  "copy_in p s address n =
     (if n = 0 then Ok []
      else and_then (and_then (pt_lookup p (as_root s) address) expect) (\<lambda>m.
        let off = mp_physical m mod page_size; c = min (page_size - off) n in
        and_then (read_bytes p (mp_physical m - off) off c) (\<lambda>bs.
        and_then (copy_in p s (address + c) (n - c)) (\<lambda>rest. Ok (bs @ rest)))))"
  by pat_completeness auto
termination
  by (relation "measure (\<lambda>(p, s, address, n). n)") auto

declare copy_in.simps [simp del]

function copy_out :: "address_space \<Rightarrow> nat \<Rightarrow> bytes \<Rightarrow> physical \<Rightarrow> (mem_error, unit) outcome \<times> physical" where
  "copy_out s address data p =
     (if data = [] then (Ok (), p)
      else or_return (and_then (pt_lookup p (as_root s) address) expect) p (\<lambda>m.
        let off = mp_physical m mod page_size; c = min (page_size - off) (length data) in
        case initialize_bytes p (mp_physical m - off) off (take c data) of (r, p) \<Rightarrow> or_return r p (\<lambda>_.
        copy_out s (address + c) (drop c data) p)))"
  by pat_completeness auto
termination
  by (relation "measure (\<lambda>(s, address, data, p). length data)") auto

declare copy_out.simps [simp del]

definition copy_from_user :: "nat \<Rightarrow> physical \<Rightarrow> address_space \<Rightarrow> nat \<Rightarrow> nat \<Rightarrow> (mem_error, bytes) outcome" where
  "copy_from_user active p s address n =
     and_then (validate_buffer active p s address n False) (\<lambda>_. copy_in p s address n)"

definition copy_to_user ::
  "nat \<Rightarrow> address_space \<Rightarrow> nat \<Rightarrow> bytes \<Rightarrow> physical \<Rightarrow> (mem_error, unit) outcome \<times> physical" where
  "copy_to_user active s address data p =
     or_return (validate_buffer active p s address (length data) True) p (\<lambda>_. copy_out s address data p)"

end
