(* ===== verification/Page_Tree.thy ===== *)
theory Page_Tree
  imports Paging
begin

unbundle bit_operations_syntax

text \<open>
  What the words of the page tables mean: a tree. \<open>node_at W root path\<close> is the frame reached from
  the root by following the slots of \<open>path\<close>; a path of four slots ends at the frame of a page, a
  shorter one at a table. \<open>space_inv\<close> is the invariant of an address space: every frame of its tree
  is allocated and reached by one path only, and its tables are well formed. Creating a table or
  mapping a page adds one path to the tree (\<open>graft\<close>), removing one takes it away (\<open>prune\<close>).
\<close>

section \<open>Entries\<close>

lemma single_bit: "k < 64 \<Longrightarrow> bit (push_bit k 1 :: u64) n \<longleftrightarrow> n = k"
  by (auto simp: push_bit_of_1 bit_exp_iff)

lemma shifted_mask_bit: "k + m \<le> 64 \<Longrightarrow> bit (push_bit k (mask m) :: u64) n \<longleftrightarrow> k \<le> n \<and> n < k + m"
  by (auto simp: bit_push_bit_iff bit_mask_iff)

lemma bit_pte_address: "bit pte_address n \<longleftrightarrow> 12 \<le> n \<and> n < 52"
proof -
  have "pte_address = push_bit 12 (mask 40)" by (simp add: pte_address_def mask_eq_exp_minus_1 push_bit_eq_mult)
  then show ?thesis using shifted_mask_bit [of 12 40 n] by simp
qed

lemma pte_bits:
  "bit pte_present n \<longleftrightarrow> n = 0" "bit pte_write n \<longleftrightarrow> n = 1" "bit pte_user n \<longleftrightarrow> n = 2"
  "bit pte_huge n \<longleftrightarrow> n = 7" "bit pte_nx n \<longleftrightarrow> n = 63"
proof -
  have p: "pte_present = push_bit 0 1" "pte_write = push_bit 1 1" "pte_user = push_bit 2 1"
    by (simp_all add: pte_present_def pte_write_def pte_user_def push_bit_eq_mult)
  show "bit pte_present n \<longleftrightarrow> n = 0" "bit pte_write n \<longleftrightarrow> n = 1" "bit pte_user n \<longleftrightarrow> n = 2"
    "bit pte_huge n \<longleftrightarrow> n = 7" "bit pte_nx n \<longleftrightarrow> n = 63"
    unfolding p pte_huge_def pte_nx_def by (rule single_bit, simp)+
qed

lemma and_single: "(e :: u64) AND w \<noteq> 0 \<longleftrightarrow> bit e k" if "\<And>n. bit w n \<longleftrightarrow> n = k"
proof
  assume "e AND w \<noteq> 0"
  then obtain n where "bit (e AND w) n" using bit_eqI [of "e AND w" 0] by auto
  then have "bit e n" "bit w n" by (simp_all add: bit_and_iff)
  then show "bit e k" using that [of n] by simp
next
  assume "bit e k"
  then have "bit (e AND w) k" using that by (simp add: bit_and_iff)
  then show "e AND w \<noteq> 0" by (metis bit_0_eq bot_apply bot_bool_def)
qed

lemma entry_bits:
  "entry_present e \<longleftrightarrow> bit e 0" "entry_huge e \<longleftrightarrow> bit e 7"
  "e AND pte_write \<noteq> 0 \<longleftrightarrow> bit e 1" "e AND pte_user \<noteq> 0 \<longleftrightarrow> bit e 2" "e AND pte_nx = 0 \<longleftrightarrow> \<not> bit e 63"
  using and_single [of pte_present 0 e] and_single [of pte_huge 7 e] and_single [of pte_write 1 e]
    and_single [of pte_user 2 e] and_single [of pte_nx 63 e]
  by (simp_all only: entry_present_def entry_huge_def pte_bits) auto

definition frame_address :: "nat \<Rightarrow> bool" where
  "frame_address f \<longleftrightarrow> f < 2 ^ 52 \<and> 4096 dvd f"

lemma bit_frame: "frame_address f \<Longrightarrow> bit f n \<Longrightarrow> 12 \<le> n \<and> n < 52"
proof -
  assume f: "frame_address f" and b: "bit f n"
  obtain k where k: "f = push_bit 12 k" using f by (auto simp: frame_address_def push_bit_eq_mult dvd_def mult.commute)
  have "f = take_bit 52 f" using f by (simp add: frame_address_def take_bit_nat_eq_self)
  then have "n < 52" using b by (metis bit_take_bit_iff)
  moreover have "12 \<le> n" using b unfolding k by (simp add: bit_push_bit_iff)
  ultimately show "12 \<le> n \<and> n < 52" by simp
qed

lemma entry_frame_of:
  assumes f: "frame_address f" and w: "\<And>n. bit w n \<Longrightarrow> n < 12 \<or> 52 \<le> n"
  shows "entry_frame (of_nat f OR w) = f"
proof -
  have "(of_nat f OR w) AND pte_address = (of_nat f :: u64)"
  proof (rule bit_word_eqI)
    fix n
    show "bit ((of_nat f OR w) AND pte_address) n \<longleftrightarrow> bit (of_nat f :: u64) n"
      using bit_frame [OF f, of n] w [of n] by (auto simp: bit_simps bit_pte_address)
  qed
  then show ?thesis using f by (simp add: entry_frame_def frame_address_def unat_of_nat)
qed

lemma low_bits_of_frame: "frame_address f \<Longrightarrow> n < 12 \<or> 52 \<le> n \<Longrightarrow> bit (of_nat f OR w :: u64) n \<longleftrightarrow> bit w n"
  using bit_frame [of f n] by (auto simp: bit_simps)

definition table_entry :: "nat \<Rightarrow> u64" where
  "table_entry f = of_nat f OR pte_present OR pte_write OR pte_user"

definition leaf_entry :: "nat \<Rightarrow> page_permissions \<Rightarrow> u64" where
  "leaf_entry f pm = of_nat f OR pt_flags pm"

lemma pt_flags_bit:
  "bit (pt_flags pm) n \<longleftrightarrow> n = 0 \<or> n = 1 \<and> perm_writable pm \<or> n = 2 \<and> perm_user pm \<or> n = 63 \<and> \<not> perm_executable pm"
  by (auto simp: pt_flags_def bit_or_iff pte_bits)

lemma table_entry_simps:
  assumes "frame_address f"
  shows "entry_present (table_entry f)" "\<not> entry_huge (table_entry f)" "entry_frame (table_entry f) = f"
    "bit (table_entry f) 1" "bit (table_entry f) 2" "\<not> bit (table_entry f) 63"
proof -
  let ?w = "pte_present OR pte_write OR pte_user"
  have e: "table_entry f = of_nat f OR ?w" by (simp add: table_entry_def or.assoc)
  show "entry_frame (table_entry f) = f" unfolding e by (rule entry_frame_of [OF assms]) (auto simp: bit_or_iff pte_bits)
  show "entry_present (table_entry f)" "\<not> entry_huge (table_entry f)" "bit (table_entry f) 1" "bit (table_entry f) 2"
    "\<not> bit (table_entry f) 63"
    unfolding entry_bits e
    using low_bits_of_frame [OF assms, of 0 ?w] low_bits_of_frame [OF assms, of 1 ?w] low_bits_of_frame [OF assms, of 2 ?w]
      low_bits_of_frame [OF assms, of 7 ?w] low_bits_of_frame [OF assms, of 63 ?w]
    by (simp_all add: bit_or_iff pte_bits)
qed

lemma leaf_entry_simps:
  assumes "frame_address f"
  shows "entry_present (leaf_entry f pm)" "entry_frame (leaf_entry f pm) = f"
    "bit (leaf_entry f pm) 1 \<longleftrightarrow> perm_writable pm" "bit (leaf_entry f pm) 2 \<longleftrightarrow> perm_user pm"
    "bit (leaf_entry f pm) 63 \<longleftrightarrow> \<not> perm_executable pm"
proof -
  show "entry_frame (leaf_entry f pm) = f"
    unfolding leaf_entry_def by (rule entry_frame_of [OF assms]) (auto simp: pt_flags_bit)
  show "entry_present (leaf_entry f pm)" "bit (leaf_entry f pm) 1 \<longleftrightarrow> perm_writable pm"
    "bit (leaf_entry f pm) 2 \<longleftrightarrow> perm_user pm" "bit (leaf_entry f pm) 63 \<longleftrightarrow> \<not> perm_executable pm"
    unfolding entry_bits leaf_entry_def
    using low_bits_of_frame [OF assms, of 0 "pt_flags pm"] low_bits_of_frame [OF assms, of 1 "pt_flags pm"]
      low_bits_of_frame [OF assms, of 2 "pt_flags pm"] low_bits_of_frame [OF assms, of 63 "pt_flags pm"]
    by (simp_all add: pt_flags_bit)
qed

section \<open>Paths\<close>

definition child_of :: "(nat \<Rightarrow> nat \<Rightarrow> u64) \<Rightarrow> nat \<Rightarrow> nat \<Rightarrow> nat option" where
  "child_of W t s = (if entry_present (W t s) then Some (entry_frame (W t s)) else None)"

primrec node_at :: "(nat \<Rightarrow> nat \<Rightarrow> u64) \<Rightarrow> nat \<Rightarrow> nat list \<Rightarrow> nat option" where
  "node_at W t [] = Some t"
| "node_at W t (s # \<pi>) = (case child_of W t s of None \<Rightarrow> None | Some c \<Rightarrow> node_at W c \<pi>)"

definition valid_path :: "nat list \<Rightarrow> bool" where
  "valid_path \<pi> \<longleftrightarrow> length \<pi> \<le> 4 \<and> (\<pi> \<noteq> [] \<longrightarrow> hd \<pi> < 256) \<and> (\<forall>s\<in>set \<pi>. s < 512)"

lemma node_at_append: "node_at W t (\<pi> @ \<rho>) = (case node_at W t \<pi> of None \<Rightarrow> None | Some c \<Rightarrow> node_at W c \<rho>)"
  by (induction \<pi> arbitrary: t) (auto split: option.splits)

lemma node_at_snoc: "node_at W t (\<pi> @ [s]) = (case node_at W t \<pi> of None \<Rightarrow> None | Some c \<Rightarrow> child_of W c s)"
  by (simp add: node_at_append split: option.splits)

lemma node_at_prefix: "node_at W t (\<pi> @ \<rho>) = Some f \<Longrightarrow> \<exists>c. node_at W t \<pi> = Some c"
  by (simp add: node_at_append split: option.splits)

lemma valid_path_prefix: "valid_path (\<pi> @ \<rho>) \<Longrightarrow> valid_path \<pi>"
  by (cases \<pi>) (auto simp: valid_path_def)

lemma valid_path_Nil [simp]: "valid_path []"
  by (simp add: valid_path_def)

lemma valid_path_snoc:
  "valid_path (\<pi> @ [s]) \<longleftrightarrow> valid_path \<pi> \<and> length \<pi> \<le> 3 \<and> s < 512 \<and> (\<pi> = [] \<longrightarrow> s < 256)"
  by (cases \<pi>) (auto simp: valid_path_def)

text \<open>Two families of words have the same node on a path when they agree on the entries it goes through.\<close>

lemma node_at_same:
  assumes "\<And>\<rho> s \<tau> c. \<pi> = \<rho> @ s # \<tau> \<Longrightarrow> node_at W t \<rho> = Some c \<Longrightarrow> W' c s = W c s"
  shows "node_at W' t \<pi> = node_at W t \<pi>"
  using assms
proof (induction \<pi> rule: rev_induct)
  case (snoc s \<pi>)
  have ih: "node_at W' t \<pi> = node_at W t \<pi>"
  proof (rule snoc.IH)
    fix \<rho> s' \<tau> c
    assume "\<pi> = \<rho> @ s' # \<tau>" and "node_at W t \<rho> = Some c"
    then show "W' c s' = W c s'" using snoc.prems [of \<rho> s' "\<tau> @ [s]" c] by simp
  qed
  show ?case
  proof (cases "node_at W t \<pi>")
    case None
    then show ?thesis using ih by (simp add: node_at_snoc)
  next
    case (Some c)
    then have "W' c s = W c s" using snoc.prems [of \<pi> s "[]" c] by simp
    then show ?thesis using ih Some by (simp add: node_at_snoc child_of_def)
  qed
qed simp

section \<open>The tree of an address space\<close>

definition alloc_set :: "physical \<Rightarrow> nat set" where
  "alloc_set p = {a. is_allocated (ph_frames p) a}"

definition tree :: "physical \<Rightarrow> nat \<Rightarrow> nat list \<Rightarrow> nat option" where
  "tree p r \<pi> = (if valid_path \<pi> then node_at (ph_words p) r \<pi> else None)"

definition entry_ok :: "nat \<Rightarrow> u64 \<Rightarrow> bool" where
  "entry_ok d e \<longleftrightarrow> (\<not> entry_present e \<longrightarrow> e = 0) \<and>
     (entry_present e \<longrightarrow> d < 3 \<longrightarrow> \<not> entry_huge e \<and> bit e 1 \<and> bit e 2 \<and> \<not> bit e 63)"

definition phys_ok :: "physical \<Rightarrow> bool" where
  "phys_ok p \<longleftrightarrow> frames_inv (ph_frames p) \<and> address_limit (ph_frames p) \<le> 2 ^ 52 \<and> 0 \<notin> marked (fr_managed (ph_frames p))"

definition space_inv :: "physical \<Rightarrow> nat \<Rightarrow> bool" where
  "space_inv p r \<longleftrightarrow> phys_ok p \<and> r \<noteq> 0 \<and>
     (\<forall>\<pi> f. tree p r \<pi> = Some f \<longrightarrow> f \<in> alloc_set p) \<and>
     (\<forall>\<pi> \<rho> f. tree p r \<pi> = Some f \<longrightarrow> tree p r \<rho> = Some f \<longrightarrow> \<pi> = \<rho>) \<and>
     (\<forall>\<pi> t s. tree p r \<pi> = Some t \<longrightarrow> valid_path (\<pi> @ [s]) \<longrightarrow> entry_ok (length \<pi>) (ph_words p t s))"

lemma space_invD:
  assumes "space_inv p r"
  shows "phys_ok p" and "r \<noteq> 0" and "\<And>\<pi> f. tree p r \<pi> = Some f \<Longrightarrow> f \<in> alloc_set p"
    and "\<And>\<pi> \<rho> f. tree p r \<pi> = Some f \<Longrightarrow> tree p r \<rho> = Some f \<Longrightarrow> \<pi> = \<rho>"
    and "\<And>\<pi> t s. tree p r \<pi> = Some t \<Longrightarrow> valid_path (\<pi> @ [s]) \<Longrightarrow> entry_ok (length \<pi>) (ph_words p t s)"
  using assms unfolding space_inv_def by blast+

lemma tree_root [simp]: "tree p r [] = Some r"
  by (simp add: tree_def)

lemma tree_valid: "tree p r \<pi> = Some f \<Longrightarrow> valid_path \<pi>"
  by (simp add: tree_def split: if_splits)

lemma tree_snoc:
  "tree p r (\<pi> @ [s]) =
     (if valid_path (\<pi> @ [s]) then case tree p r \<pi> of None \<Rightarrow> None | Some t \<Rightarrow> child_of (ph_words p) t s else None)"
  using valid_path_prefix [of \<pi> "[s]"] by (auto simp: tree_def node_at_snoc)

lemma tree_prefix: "tree p r (\<pi> @ \<rho>) = Some f \<Longrightarrow> \<exists>c. tree p r \<pi> = Some c"
  using valid_path_prefix [of \<pi> \<rho>] node_at_prefix [of "ph_words p" r \<pi> \<rho> f] by (auto simp: tree_def split: if_splits)

lemma tree_beyond: "tree p r \<pi> = None \<Longrightarrow> tree p r (\<pi> @ \<rho>) = None"
  using tree_prefix [of p r \<pi> \<rho>] by (cases "tree p r (\<pi> @ \<rho>)") auto

lemma alloc_set_frame:
  assumes "phys_ok p" and "f \<in> alloc_set p"
  shows "frame_address f" and "ph_pointer p f"
proof -
  have inv: "frames_inv (ph_frames p)" using assms(1) by (simp add: phys_ok_def)
  obtain i where i: "i \<in> marked (fr_allocated (ph_frames p))" "f = i * page_size"
    using assms(2) is_allocated_iff [OF inv] by (auto simp: alloc_set_def)
  have "i < length (fr_managed (ph_frames p)) * 64"
    using i(1) frames_invD(3) [OF inv] by (auto simp: in_marked_iff mult.commute)
  then have "f < address_limit (ph_frames p)" unfolding i(2) by (simp add: address_limit_def)
  then show "frame_address f" and "ph_pointer p f"
    using assms(1) i(2) by (auto simp: frame_address_def ph_pointer_def phys_ok_def)
qed

text \<open>Memories that agree on every allocated frame hold the same trees.\<close>

definition same_memory :: "physical \<Rightarrow> physical \<Rightarrow> bool" where
  "same_memory p q \<longleftrightarrow> phys_ok q \<and> alloc_set q = alloc_set p \<and> (\<forall>f\<in>alloc_set p. ph_words q f = ph_words p f)"

lemma tree_words_same:
  assumes "space_inv p r" and "\<And>\<pi> f. length \<pi> \<le> 3 \<Longrightarrow> tree p r \<pi> = Some f \<Longrightarrow> ph_words q f = ph_words p f"
  shows "tree q r = tree p r"
proof
  fix \<pi>
  show "tree q r \<pi> = tree p r \<pi>"
  proof (cases "valid_path \<pi>")
    case True
    have "node_at (ph_words q) r \<pi> = node_at (ph_words p) r \<pi>"
    proof (rule node_at_same)
      fix \<rho> s \<tau> c
      assume "\<pi> = \<rho> @ s # \<tau>" and "node_at (ph_words p) r \<rho> = Some c"
      then have "tree p r \<rho> = Some c" "length \<rho> \<le> 3"
        using True valid_path_prefix [of \<rho> "s # \<tau>"] by (auto simp: tree_def valid_path_def)
      then show "ph_words q c s = ph_words p c s" using assms(2) by simp
    qed
    then show ?thesis by (simp add: tree_def)
  qed (simp add: tree_def)
qed

lemma space_inv_words_same:
  assumes "space_inv p r" and "\<And>\<pi> f. length \<pi> \<le> 3 \<Longrightarrow> tree p r \<pi> = Some f \<Longrightarrow> ph_words q f = ph_words p f"
    and "phys_ok q" and "\<And>\<pi> f. tree p r \<pi> = Some f \<Longrightarrow> f \<in> alloc_set q"
  shows "space_inv q r"
proof -
  have t: "tree q r = tree p r" by (rule tree_words_same [OF assms(1,2)])
  note inv = space_invD [OF assms(1)]
  have "entry_ok (length \<pi>) (ph_words q f s)" if "tree p r \<pi> = Some f" "valid_path (\<pi> @ [s])" for \<pi> f s
  proof -
    have "length \<pi> \<le> 3" using that(2) by (simp add: valid_path_snoc)
    then show ?thesis using assms(2) [OF _ that(1)] inv(5) [OF that] by simp
  qed
  then show ?thesis unfolding space_inv_def t using assms(3,4) inv(2,4) by blast
qed

lemma same_memory_tree:
  assumes "same_memory p q" and "space_inv p r"
  shows "tree q r = tree p r" and "space_inv q r"
proof -
  have w: "ph_words q f = ph_words p f" if "length \<pi> \<le> 3" "tree p r \<pi> = Some f" for \<pi> f
    using assms(1) space_invD(3) [OF assms(2) that(2)] by (simp add: same_memory_def)
  show "tree q r = tree p r" by (rule tree_words_same [OF assms(2) w])
  show "space_inv q r"
    by (rule space_inv_words_same [OF assms(2) w]) (use assms space_invD(3) in \<open>auto simp: same_memory_def\<close>)
qed

lemma same_memory_refl: "phys_ok p \<Longrightarrow> same_memory p p"
  by (simp add: same_memory_def)

lemma same_memory_trans: "same_memory p q \<Longrightarrow> same_memory q u \<Longrightarrow> same_memory p u"
  by (simp add: same_memory_def)

section \<open>Grafting and pruning\<close>

definition write_entry :: "nat \<Rightarrow> nat \<Rightarrow> u64 \<Rightarrow> physical \<Rightarrow> physical" where
  "write_entry t s e p = p\<lparr>ph_words := (ph_words p)(t := (ph_words p t)(s := e))\<rparr>"

lemma write_entry_simps [simp]:
  "ph_frames (write_entry t s e p) = ph_frames p" "alloc_set (write_entry t s e p) = alloc_set p"
  "phys_ok (write_entry t s e p) = phys_ok p"
  "ph_words (write_entry t s e p) = (ph_words p)(t := (ph_words p t)(s := e))"
  by (simp_all add: write_entry_def alloc_set_def phys_ok_def)

text \<open>A write at the entry \<open>s\<close> of the table at \<open>\<pi>\<close> changes no node on a path that does not go through it.\<close>

lemma tree_write_other:
  assumes inv: "space_inv p r" and t: "tree p r \<pi> = Some t" and v: "valid_path (\<pi> @ [s])"
    and \<rho>: "\<And>\<tau>. \<rho> \<noteq> \<pi> @ s # \<tau>"
  shows "tree (write_entry t s e p) r \<rho> = tree p r \<rho>"
proof (cases "valid_path \<rho>")
  case True
  have "node_at (ph_words (write_entry t s e p)) r \<rho> = node_at (ph_words p) r \<rho>"
  proof (rule node_at_same)
    fix \<sigma> i \<tau> c
    assume \<sigma>: "\<rho> = \<sigma> @ i # \<tau>" "node_at (ph_words p) r \<sigma> = Some c"
    then have c: "tree p r \<sigma> = Some c" using True valid_path_prefix [of \<sigma> "i # \<tau>"] by (simp add: tree_def)
    have "\<not> (c = t \<and> i = s)"
    proof
      assume "c = t \<and> i = s"
      then show False using space_invD(4) [OF inv c, of \<pi>] t \<sigma>(1) \<rho> [of \<tau>] by simp
    qed
    then show "ph_words (write_entry t s e p) c i = ph_words p c i" by auto
  qed
  then show ?thesis by (simp add: tree_def)
qed (simp add: tree_def)

lemma tree_write_here:
  assumes inv: "space_inv p r" and t: "tree p r \<pi> = Some t" and v: "valid_path (\<pi> @ [s])"
  shows "tree (write_entry t s e p) r (\<pi> @ [s]) = (if entry_present e then Some (entry_frame e) else None)"
proof -
  have "tree (write_entry t s e p) r \<pi> = Some t"
    using tree_write_other [OF inv t v, of \<pi> e] t by simp
  then show ?thesis using v by (simp add: tree_snoc child_of_def)
qed

lemma graft:
  assumes inv: "space_inv p r" and t: "tree p r \<pi> = Some t" and v: "valid_path (\<pi> @ [s])"
    and none: "tree p r (\<pi> @ [s]) = None" and f: "f \<in> alloc_set p" "\<And>\<rho>. tree p r \<rho> \<noteq> Some f"
    and zero: "length \<pi> < 3 \<Longrightarrow> ph_words p f = (\<lambda>_. 0)"
    and e: "entry_present e" "entry_frame e = f" "entry_ok (length \<pi>) e"
  shows "tree (write_entry t s e p) r = (tree p r)(\<pi> @ [s] \<mapsto> f)" and "space_inv (write_entry t s e p) r"
proof -
  let ?q = "write_entry t s e p"
  have ft: "f \<noteq> t" using f(2) t by blast
  have beyond: "tree ?q r (\<pi> @ s # i # \<tau>) = None" for i \<tau>
  proof -
    have "tree ?q r ((\<pi> @ [s]) @ [i]) = None"
    proof (cases "valid_path ((\<pi> @ [s]) @ [i])")
      case True
      then have "length \<pi> < 3" by (simp add: valid_path_def)
      then have "ph_words ?q f i = 0" using zero ft by simp
      then have "child_of (ph_words ?q) f i = None" by (simp add: child_of_def entry_bits)
      then show ?thesis using tree_write_here [OF inv t v, of e] e(1,2) tree_snoc [of ?q r "\<pi> @ [s]" i] by simp
    qed (simp add: tree_def)
    then show ?thesis using tree_beyond [of ?q r "(\<pi> @ [s]) @ [i]" \<tau>] by simp
  qed
  show tree: "tree ?q r = (tree p r)(\<pi> @ [s] \<mapsto> f)"
  proof
    fix \<rho>
    consider "\<rho> = \<pi> @ [s]" | i \<tau> where "\<rho> = \<pi> @ s # i # \<tau>" | "\<And>\<tau>. \<rho> \<noteq> \<pi> @ s # \<tau>"
      by (metis list.exhaust)
    then show "tree ?q r \<rho> = ((tree p r)(\<pi> @ [s] \<mapsto> f)) \<rho>"
    proof cases
      case 1
      then show ?thesis using tree_write_here [OF inv t v, of e] e by simp
    next
      case (2 i \<tau>)
      have "tree p r \<rho> = None" unfolding 2 using tree_beyond [OF none, of "i # \<tau>"] by simp
      then show ?thesis using beyond [of i \<tau>] 2 by simp
    next
      case 3
      then show ?thesis using tree_write_other [OF inv t v 3] 3 [of "[]"] by simp
    qed
  qed
  note sp = space_invD [OF inv]
  have "entry_ok (length \<rho>) (ph_words ?q c i)" if c: "tree ?q r \<rho> = Some c" and vi: "valid_path (\<rho> @ [i])" for \<rho> c i
  proof (cases "c = f")
    case True
    then have "\<rho> = \<pi> @ [s]" using c f(2) unfolding tree by (auto split: if_splits)
    then have "length \<pi> < 3" using vi by (simp add: valid_path_def)
    then show ?thesis using zero True ft by (simp add: entry_ok_def entry_bits)
  next
    case False
    then have p: "tree p r \<rho> = Some c" using c unfolding tree by (auto split: if_splits)
    show ?thesis
    proof (cases "c = t \<and> i = s")
      case True
      then have "\<rho> = \<pi>" using sp(4) [OF p] t by simp
      then show ?thesis using True e(3) by simp
    next
      case False
      then show ?thesis using sp(5) [OF p vi] by auto
    qed
  qed
  moreover have "\<rho> = \<sigma>" if "tree ?q r \<rho> = Some c" "tree ?q r \<sigma> = Some c" for \<rho> \<sigma> c
    using that sp(4) [of \<rho> c \<sigma>] f(2) unfolding tree by (auto split: if_splits)
  moreover have "c \<in> alloc_set ?q" if "tree ?q r \<rho> = Some c" for \<rho> c
    using that sp(3) [of \<rho> c] f(1) unfolding tree by (auto split: if_splits)
  ultimately show "space_inv ?q r" unfolding space_inv_def using sp(1,2) by auto
qed

lemma prune:
  assumes inv: "space_inv p r" and t: "tree p r \<pi> = Some t" and v: "valid_path (\<pi> @ [s])"
    and leaf: "\<And>i \<tau>. tree p r (\<pi> @ s # i # \<tau>) = None"
  shows "tree (write_entry t s 0 p) r = (tree p r)(\<pi> @ [s] := None)" and "space_inv (write_entry t s 0 p) r"
proof -
  let ?q = "write_entry t s 0 p"
  have gone: "tree ?q r (\<pi> @ [s]) = None" using tree_write_here [OF inv t v, of 0] by (simp add: entry_bits)
  show tree: "tree ?q r = (tree p r)(\<pi> @ [s] := None)"
  proof
    fix \<rho>
    consider "\<rho> = \<pi> @ [s]" | i \<tau> where "\<rho> = \<pi> @ s # i # \<tau>" | "\<And>\<tau>. \<rho> \<noteq> \<pi> @ s # \<tau>"
      by (metis list.exhaust)
    then show "tree ?q r \<rho> = ((tree p r)(\<pi> @ [s] := None)) \<rho>"
    proof cases
      case 1
      then show ?thesis using gone by simp
    next
      case (2 i \<tau>)
      then show ?thesis using leaf tree_beyond [OF gone, of "i # \<tau>"] by simp
    next
      case 3
      then show ?thesis using tree_write_other [OF inv t v 3] 3 [of "[]"] by simp
    qed
  qed
  note sp = space_invD [OF inv]
  have sub: "tree p r \<rho> = Some c" if "tree ?q r \<rho> = Some c" for \<rho> c using that unfolding tree by (auto split: if_splits)
  have "entry_ok (length \<rho>) (ph_words ?q c i)" if c: "tree ?q r \<rho> = Some c" and vi: "valid_path (\<rho> @ [i])" for \<rho> c i
  proof (cases "c = t \<and> i = s")
    case True
    then show ?thesis by (simp add: entry_ok_def entry_bits)
  next
    case False
    then show ?thesis using sp(5) [OF sub [OF c] vi] by auto
  qed
  moreover have "\<rho> = \<sigma>" if "tree ?q r \<rho> = Some c" "tree ?q r \<sigma> = Some c" for \<rho> \<sigma> c
    using sp(4) sub that by blast
  moreover have "c \<in> alloc_set ?q" if "tree ?q r \<rho> = Some c" for \<rho> c using sp(3) [OF sub [OF that]] by simp
  ultimately show "space_inv ?q r" unfolding space_inv_def using sp(1,2) by auto
qed

end
