(* ===== verification/Page_Ops.thy ===== *)
theory Page_Ops
  imports Page_Tree
begin

unbundle bit_operations_syntax

text \<open>
  The operations of \<open>space.rs\<close> on the tree of an address space. \<open>within R p q\<close> says that from \<open>p\<close> to
  \<open>q\<close> no allocated frame outside \<open>R\<close> has been changed or released: it is what isolates the other
  address spaces.
\<close>

section \<open>Frames come and go\<close>

definition within :: "nat set \<Rightarrow> physical \<Rightarrow> physical \<Rightarrow> bool" where
  "within R p q \<longleftrightarrow> phys_ok q \<and> (\<forall>f\<in>alloc_set p - R. f \<in> alloc_set q \<and> ph_words q f = ph_words p f)"

lemma within_refl: "phys_ok p \<Longrightarrow> within R p p"
  by (simp add: within_def)

lemma within_trans:
  assumes "within R p q" and "within S q u" and "S \<inter> alloc_set p \<subseteq> R"
  shows "within R p u"
proof -
  have "f \<in> alloc_set u \<and> ph_words u f = ph_words p f" if "f \<in> alloc_set p" "f \<notin> R" for f
  proof -
    have "f \<in> alloc_set q" "ph_words q f = ph_words p f" using assms(1) that by (auto simp: within_def)
    moreover have "f \<notin> S" using assms(3) that by blast
    ultimately show ?thesis using assms(2) by (auto simp: within_def)
  qed
  then show ?thesis using assms(2) by (simp add: within_def)
qed

lemma same_memory_within: "same_memory p q \<Longrightarrow> within {} p q"
  by (simp add: within_def same_memory_def)

text \<open>Another address space, whose frames are not in \<open>R\<close>, is what it was.\<close>

lemma within_space:
  assumes "within R p q" and "space_inv p r" and "\<And>\<pi> f. tree p r \<pi> = Some f \<Longrightarrow> f \<notin> R"
  shows "tree q r = tree p r" and "space_inv q r" and "\<And>\<pi> f. tree p r \<pi> = Some f \<Longrightarrow> ph_words q f = ph_words p f"
proof -
  have w: "f \<in> alloc_set q \<and> ph_words q f = ph_words p f" if "tree p r \<pi> = Some f" for \<pi> f
    using assms(1,3) space_invD(3) [OF assms(2) that] that unfolding within_def by blast
  then show "ph_words q f = ph_words p f" if "tree p r \<pi> = Some f" for \<pi> f using that by blast
  show "tree q r = tree p r" using w by (intro tree_words_same [OF assms(2)]) blast
  show "space_inv q r" using w assms(1) by (intro space_inv_words_same [OF assms(2)]) (auto simp: within_def)
qed

lemma phys_okD: "phys_ok p \<Longrightarrow> frames_inv (ph_frames p)" "phys_ok p \<Longrightarrow> address_limit (ph_frames p) \<le> 2 ^ 52"
  by (simp_all add: phys_ok_def)

definition free_frames :: "physical \<Rightarrow> nat" where
  "free_frames p = fr_free (ph_frames p)"

lemma free_frames_write [simp]: "free_frames (write_entry t s e p) = free_frames p"
  by (simp add: free_frames_def)

lemma allocate_cases:
  assumes "phys_ok p"
  obtains (none) "ph_allocate_zeroed p = (Err (MemFrames FrExhausted), p)" "free_frames p = 0"
  | (some) f q where "ph_allocate_zeroed p = (Ok f, q)" "f \<notin> alloc_set p" "alloc_set q = insert f (alloc_set p)"
      "ph_words q = (ph_words p)(f := (\<lambda>_. 0))" "phys_ok q" "frame_address f" "free_frames p = Suc (free_frames q)"
proof -
  obtain res fr where a: "frames_allocate (ph_frames p) = (res, fr)" by fastforce
  from phys_okD(1) [OF assms] a show ?thesis
  proof (cases rule: frames_allocate_cases)
    case exhausted
    then have "free_frames p = 0" using frames_invD(4) [OF phys_okD(1) [OF assms]] by (simp add: free_frames_def)
    then show ?thesis using none a exhausted by (simp add: ph_allocate_zeroed_def)
  next
    case (allocated i)
    let ?f = "i * page_size"
    let ?q = "p\<lparr>ph_frames := fr\<rparr>"
    have inv: "is_allocated fr b \<longleftrightarrow> b = ?f \<or> is_allocated (ph_frames p) b" for b
      using is_allocated_iff [OF allocated(6)] is_allocated_iff [OF phys_okD(1) [OF assms]] allocated(4) by auto
    have ok: "phys_ok ?q" using allocated(5,6) assms by (simp add: phys_ok_def address_limit_def)
    have alloc: "alloc_set ?q = insert ?f (alloc_set p)" using inv by (auto simp: alloc_set_def)
    have "?f \<notin> alloc_set p"
      using is_allocated_iff [OF phys_okD(1) [OF assms]] allocated(1) by (auto simp: alloc_set_def available_def)
    moreover have fr: "frame_address ?f" "ph_pointer ?q ?f" using alloc_set_frame [OF ok] alloc by auto
    moreover have "ph_allocate_zeroed p = (Ok ?f, ?q\<lparr>ph_words := (ph_words p)(?f := (\<lambda>_. 0))\<rparr>)"
      using a allocated(2) fr(2) by (simp add: ph_allocate_zeroed_def Let_def)
    moreover have "free_frames p = Suc (free_frames (?q\<lparr>ph_words := (ph_words p)(?f := (\<lambda>_. 0))\<rparr>))"
    proof -
      have "card (available (ph_frames p)) = Suc (card (available fr))"
        unfolding allocated(3) using card.remove [OF finite_available allocated(1)] by simp
      then show ?thesis using frames_invD(4) [OF allocated(6)] frames_invD(4) [OF phys_okD(1) [OF assms]] by (simp add: free_frames_def)
    qed
    ultimately show ?thesis using some ok alloc by (simp add: alloc_set_def phys_ok_def)
  qed
qed

lemma release_value:
  assumes "phys_ok p" and "f \<in> alloc_set p"
  obtains q where "ph_release p f = (Ok (), q)" "alloc_set q = alloc_set p - {f}" "ph_words q = ph_words p" "phys_ok q"
proof -
  obtain res fr where a: "frames_release (ph_frames p) f = (res, fr)" by fastforce
  note inv = phys_okD(1) [OF assms(1)]
  from inv a show ?thesis
  proof (cases rule: frames_release_cases)
    case (refused e)
    then show ?thesis using assms(2) is_allocated_iff [OF inv] by (auto simp: alloc_set_def)
  next
    case (released i)
    have "is_allocated fr b \<longleftrightarrow> is_allocated (ph_frames p) b \<and> b \<noteq> f" for b
      using is_allocated_iff [OF released(7)] is_allocated_iff [OF inv] released(1,5) by auto
    then have "alloc_set (p\<lparr>ph_frames := fr\<rparr>) = alloc_set p - {f}" by (auto simp: alloc_set_def)
    moreover have "phys_ok (p\<lparr>ph_frames := fr\<rparr>)" using released(6,7) assms(1) by (simp add: phys_ok_def address_limit_def)
    ultimately show ?thesis using that [of "p\<lparr>ph_frames := fr\<rparr>"] a released(3) by (simp add: ph_release_def)
  qed
qed

lemma ph_write_value:
  assumes "phys_ok p" and "t \<in> alloc_set p" and "s < 512"
  shows "ph_write p t s e = (Ok (), write_entry t s e p)"
  using assms alloc_set_frame(2) [OF assms(1,2)] by (simp add: ph_write_def write_entry_def alloc_set_def)

lemma ph_read_value: "phys_ok p \<Longrightarrow> t \<in> alloc_set p \<Longrightarrow> s < 512 \<Longrightarrow> ph_read p t s = Ok (ph_words p t s)"
  using alloc_set_frame(2) [of p t] by (simp add: ph_read_def)

text \<open>A new frame is in no tree, and zeroing it changes none.\<close>

lemma allocated_space:
  assumes "space_inv p r" and "f \<notin> alloc_set p" and "alloc_set q = insert f (alloc_set p)"
    and "ph_words q = (ph_words p)(f := (\<lambda>_. 0))" and "phys_ok q"
  shows "tree q r = tree p r" and "space_inv q r" and "tree q r \<rho> \<noteq> Some f" and "within {} p q"
proof -
  show w: "within {} p q" using assms by (auto simp: within_def)
  show t: "tree q r = tree p r" and "space_inv q r" using within_space [OF w assms(1)] by simp_all
  show "tree q r \<rho> \<noteq> Some f" unfolding t using space_invD(3) [OF assms(1), of \<rho> f] assms(2) by blast
qed

lemma released_space:
  assumes "space_inv p r" and "\<And>\<rho>. tree p r \<rho> \<noteq> Some f" and "alloc_set q = alloc_set p - {f}"
    and "ph_words q = ph_words p" and "phys_ok q"
  shows "tree q r = tree p r" and "space_inv q r"
proof -
  have w: "within {f} p q" using assms by (auto simp: within_def)
  show "tree q r = tree p r" and "space_inv q r" using within_space [OF w assms(1)] assms(2) by auto
qed

lemma table_entry_ok: "frame_address f \<Longrightarrow> entry_ok d (table_entry f)"
  using table_entry_simps [of f] by (simp add: entry_ok_def)

lemma tree_range_write: "within {t} p (write_entry t s e p)" if "phys_ok p"
  using that by (auto simp: within_def)

section \<open>Pages\<close>

definition page_path :: "nat \<Rightarrow> nat list" where
  "page_path a = map (pt_index a) [4, 3, 2, 1]"

definition page_address :: "nat \<Rightarrow> bool" where
  "page_address a \<longleftrightarrow> a < 2 ^ 47 \<and> 4096 dvd a"

lemma pt_index_less: "pt_index a l < 512"
  by (simp add: pt_index_def)

lemma page_path_valid: "page_address a \<Longrightarrow> valid_path (page_path a)"
proof -
  assume a: "page_address a"
  have "a div 2 ^ 39 < 256" using a by (simp add: page_address_def less_mult_imp_div_less)
  then have "pt_index a 4 < 256" by (simp add: pt_index_def)
  then show ?thesis by (simp add: valid_path_def page_path_def pt_index_less)
qed

lemma page_path_inj:
  assumes "page_address a" and "page_address b" and "page_path a = page_path b"
  shows "a = b"
proof -
  have eq: "pt_index a l = pt_index b l" if "l \<in> {1, 2, 3, 4}" for l using assms(3) that by (auto simp: page_path_def)
  have digits: "x = (((pt_index x 4 * 512 + pt_index x 3) * 512 + pt_index x 2) * 512 + pt_index x 1) * 4096"
    if px: "page_address x" for x :: nat
  proof -
    obtain k where x: "x = 4096 * k" using px by (auto simp: page_address_def dvd_def)
    then have k: "x = 4096 * k" "k < 2 ^ 35" using px by (simp_all add: page_address_def)
    have d: "x div 2 ^ 39 = k div 512 div 512 div 512" "x div 2 ^ 30 = k div 512 div 512" "x div 2 ^ 21 = k div 512"
      "x div 2 ^ 12 = k" unfolding k by (simp_all add: div_mult2_eq [symmetric])
    have "k div 512 div 512 div 512 < 512" using k(2) by (simp add: div_mult2_eq [symmetric] less_mult_imp_div_less)
    then have "k div 512 div 512 div 512 mod 512 = k div 512 div 512 div 512" by simp
    then have i: "pt_index x 4 = k div 512 div 512 div 512" "pt_index x 3 = k div 512 div 512 mod 512"
      "pt_index x 2 = k div 512 mod 512" "pt_index x 1 = k mod 512" using d by (simp_all add: pt_index_def)
    show ?thesis unfolding i using k(1) div_mult_mod_eq [of k 512] div_mult_mod_eq [of "k div 512" 512]
      div_mult_mod_eq [of "k div 512 div 512" 512] by simp
  qed
  have "a = (((pt_index b 4 * 512 + pt_index b 3) * 512 + pt_index b 2) * 512 + pt_index b 1) * 4096"
    using digits [OF assms(1)] eq by simp
  also have "\<dots> = b" by (rule digits [OF assms(2), symmetric])
  finally show ?thesis .
qed

text \<open>The entry of a mapped page.\<close>

definition page_view :: "physical \<Rightarrow> nat \<Rightarrow> nat \<Rightarrow> u64 option" where
  "page_view p r a =
     (case tree p r (page_path a) of
        None \<Rightarrow> None
      | Some f \<Rightarrow> map_option (\<lambda>t. ph_words p t (pt_index a 1)) (tree p r (butlast (page_path a))))"

lemma page_path_split: "page_path a = butlast (page_path a) @ [pt_index a 1]"
  by (simp add: page_path_def)

lemma page_view_None: "page_view p r a = None \<longleftrightarrow> tree p r (page_path a) = None"
proof (cases "tree p r (page_path a)")
  case (Some f)
  then obtain t where "tree p r (butlast (page_path a)) = Some t"
    using tree_prefix [of p r "butlast (page_path a)" "[pt_index a 1]" f] page_path_split [of a] by auto
  then show ?thesis using Some by (simp add: page_view_def)
qed (simp add: page_view_def)

lemma page_view_Some:
  assumes "page_view p r a = Some e"
  obtains t where "tree p r (butlast (page_path a)) = Some t" "ph_words p t (pt_index a 1) = e"
    "tree p r (page_path a) = Some (entry_frame e)" "entry_present e"
proof -
  obtain f t where t: "tree p r (page_path a) = Some f" "tree p r (butlast (page_path a)) = Some t" "ph_words p t (pt_index a 1) = e"
    using assms by (auto simp: page_view_def split: option.splits)
  have "tree p r (butlast (page_path a) @ [pt_index a 1]) = Some f" using t(1) page_path_split [of a] by simp
  then have "child_of (ph_words p) t (pt_index a 1) = Some f" using t(2) by (simp add: tree_snoc split: if_splits)
  then show ?thesis using that t by (simp add: child_of_def split: if_splits)
qed

text \<open>No table but the root is empty: \<open>unmap\<close> releases the tables that become so.\<close>

definition tight :: "physical \<Rightarrow> nat \<Rightarrow> bool" where
  "tight p r \<longleftrightarrow> (\<forall>\<pi>. tree p r \<pi> \<noteq> None \<longrightarrow> \<pi> \<noteq> [] \<longrightarrow> length \<pi> \<le> 3 \<longrightarrow> (\<exists>s. tree p r (\<pi> @ [s]) \<noteq> None))"

lemma tightD: "tight p r \<Longrightarrow> tree p r \<pi> \<noteq> None \<Longrightarrow> \<pi> \<noteq> [] \<Longrightarrow> length \<pi> \<le> 3 \<Longrightarrow> \<exists>s. tree p r (\<pi> @ [s]) \<noteq> None"
  unfolding tight_def by blast

text \<open>So every table is on the way to a page.\<close>

lemma tight_page:
  assumes "tight p r" and "tree p r \<pi> \<noteq> None" and "\<pi> \<noteq> []" and "length \<pi> + n = 4"
  shows "\<exists>\<rho>. length \<rho> = n \<and> tree p r (\<pi> @ \<rho>) \<noteq> None"
  using assms(2-)
proof (induction n arbitrary: \<pi>)
  case (Suc n)
  then obtain s where s: "tree p r (\<pi> @ [s]) \<noteq> None" using tightD [OF assms(1)] by fastforce
  obtain \<rho> where "length \<rho> = n" "tree p r ((\<pi> @ [s]) @ \<rho>) \<noteq> None" using Suc.IH [OF s] Suc.prems(3) by auto
  then show ?case by (intro exI [of _ "s # \<rho>"]) simp
qed simp

lemma tree_length: "tree p r \<pi> \<noteq> None \<Longrightarrow> length \<pi> \<le> 4"
  by (auto simp: tree_def valid_path_def split: if_splits)

text \<open>Two tight trees that map the same pages and agree where both are defined are the same.\<close>

lemma tight_tree_eq:
  assumes "tight p r" and "tight q r" and same: "\<And>\<rho>. length \<rho> = 4 \<Longrightarrow> tree q r \<rho> = tree p r \<rho>"
    and both: "\<And>\<rho> f g. tree p r \<rho> = Some f \<Longrightarrow> tree q r \<rho> = Some g \<Longrightarrow> f = g"
  shows "tree q r = tree p r"
proof
  fix \<pi>
  have sub: "tree v r \<pi> \<noteq> None" if tu: "tight u r" "tree u r \<pi> \<noteq> None" and s: "\<And>\<rho>. length \<rho> = 4 \<Longrightarrow> tree v r \<rho> = tree u r \<rho>" for u v
  proof (cases "\<pi> = []")
    case False
    obtain n where n: "length \<pi> + n = 4" using tree_length [OF tu(2)] le_Suc_ex by metis
    obtain \<rho> where "length \<rho> = n" "tree u r (\<pi> @ \<rho>) \<noteq> None" using tight_page [OF tu False n] by blast
    then have "tree v r (\<pi> @ \<rho>) \<noteq> None" using s [of "\<pi> @ \<rho>"] n by simp
    then show ?thesis using tree_beyond [of v r \<pi> \<rho>] by fastforce
  qed simp
  show "tree q r \<pi> = tree p r \<pi>"
  proof (cases "tree p r \<pi>")
    case None
    then show ?thesis using sub [OF assms(2), of p] same by fastforce
  next
    case (Some f)
    then obtain g where "tree q r \<pi> = Some g" using sub [OF assms(1), of q] same by fastforce
    then show ?thesis using both [OF Some] Some by simp
  qed
qed

end
