(* ===== verification/Page_Map.thy ===== *)
theory Page_Map
  imports Page_Ops
begin

unbundle bit_operations_syntax

text \<open>
  \<open>map_zeroed\<close>: the walk that creates the missing tables of a page, and the rollback that takes them
  away again. \<open>grown X p r q\<close> is what the walk does to the tree of an address space: it adds tables on
  frames that were free at paths in \<open>X\<close>, and no page.
\<close>

section \<open>Growing a tree\<close>

definition grown :: "nat list set \<Rightarrow> physical \<Rightarrow> nat \<Rightarrow> physical \<Rightarrow> bool" where
  "grown X p r q \<longleftrightarrow> space_inv q r \<and> within (ran (tree p r)) p q \<and> tree p r \<subseteq>\<^sub>m tree q r \<and>
     (\<forall>\<rho> f. tree q r \<rho> = Some f \<longrightarrow> tree p r \<rho> \<noteq> Some f \<longrightarrow> f \<notin> alloc_set p \<and> length \<rho> \<le> 3 \<and> \<rho> \<in> X) \<and>
     (\<forall>\<rho> f. tree p r \<rho> = Some f \<longrightarrow> 3 \<le> length \<rho> \<longrightarrow> ph_words q f = ph_words p f) \<and>
     alloc_set q = alloc_set p \<union> ran (tree q r)"

lemma grownD:
  assumes "grown X p r q"
  shows "space_inv q r" and "within (ran (tree p r)) p q"
    and "\<And>\<rho> f. tree p r \<rho> = Some f \<Longrightarrow> tree q r \<rho> = Some f"
    and "\<And>\<rho> f. tree q r \<rho> = Some f \<Longrightarrow> tree p r \<rho> = Some f \<or> f \<notin> alloc_set p \<and> length \<rho> \<le> 3 \<and> \<rho> \<in> X"
    and "\<And>\<rho> f. tree p r \<rho> = Some f \<Longrightarrow> 3 \<le> length \<rho> \<Longrightarrow> ph_words q f = ph_words p f"
    and "alloc_set q = alloc_set p \<union> ran (tree q r)"
proof -
  show "space_inv q r" "within (ran (tree p r)) p q" "alloc_set q = alloc_set p \<union> ran (tree q r)" using assms by (simp_all add: grown_def)
  show "tree q r \<rho> = Some f" if "tree p r \<rho> = Some f" for \<rho> f
    using assms that unfolding grown_def map_le_def by (metis domI)
  show "tree p r \<rho> = Some f \<or> f \<notin> alloc_set p \<and> length \<rho> \<le> 3 \<and> \<rho> \<in> X" if "tree q r \<rho> = Some f" for \<rho> f
    using assms that unfolding grown_def by blast
  show "ph_words q f = ph_words p f" if "tree p r \<rho> = Some f" "3 \<le> length \<rho>" for \<rho> f
    using assms that unfolding grown_def by blast
qed

lemma grown_refl: "space_inv p r \<Longrightarrow> grown X p r p"
  using space_invD(1,3) [of p r] by (auto simp: grown_def within_refl ran_def)

lemma grown_alloc:
  assumes "grown X p r q"
  shows "alloc_set p \<subseteq> alloc_set q"
  using grownD(6) [OF assms] by blast

lemma grown_trans:
  assumes pq: "grown X p r q" and qu: "grown X q r u"
  shows "grown X p r u"
proof -
  have sub: "ran (tree q r) \<inter> alloc_set p \<subseteq> ran (tree p r)"
  proof
    fix f
    assume "f \<in> ran (tree q r) \<inter> alloc_set p"
    then obtain \<rho> where "tree q r \<rho> = Some f" "f \<in> alloc_set p" by (auto simp: ran_def)
    then show "f \<in> ran (tree p r)" using grownD(4) [OF pq] by (blast intro: ranI)
  qed
  have w: "within (ran (tree p r)) p u" by (rule within_trans [OF grownD(2) [OF pq] grownD(2) [OF qu] sub])
  have le: "tree p r \<subseteq>\<^sub>m tree u r" using pq qu unfolding grown_def by (meson map_le_trans)
  have new: "f \<notin> alloc_set p \<and> length \<rho> \<le> 3 \<and> \<rho> \<in> X" if "tree u r \<rho> = Some f" "tree p r \<rho> \<noteq> Some f" for \<rho> f
    using grownD(4) [OF qu that(1)] grownD(4) [OF pq, of \<rho> f] grown_alloc [OF pq] that(2) by blast
  have words: "ph_words u f = ph_words p f" if "tree p r \<rho> = Some f" "3 \<le> length \<rho>" for \<rho> f
    using grownD(5) [OF pq that] grownD(5) [OF qu grownD(3) [OF pq that(1)] that(2)] by simp
  have "ran (tree q r) \<subseteq> ran (tree u r)" using grownD(3) [OF qu] by (auto simp: ran_def)
  then have "alloc_set u = alloc_set p \<union> ran (tree u r)" using grownD(6) [OF pq] grownD(6) [OF qu] by blast
  then show ?thesis unfolding grown_def using grownD(1) [OF qu] w le new words by blast
qed

text \<open>The pages of an address space are the same after its tree has grown.\<close>

lemma grown_page_view:
  assumes g: "grown X p r q"
  shows "page_view q r a = page_view p r a"
proof -
  have same: "tree q r (page_path a) = tree p r (page_path a)"
  proof (cases "tree q r (page_path a)")
    case None
    then show ?thesis using grownD(3) [OF g, of "page_path a"] by (cases "tree p r (page_path a)") auto
  next
    case (Some f)
    then show ?thesis using grownD(4) [OF g Some] by (simp add: page_path_def)
  qed
  show ?thesis
  proof (cases "tree p r (page_path a)")
    case None
    then show ?thesis using same by (simp add: page_view_def)
  next
    case (Some f)
    then obtain t where t: "tree p r (butlast (page_path a)) = Some t"
      using tree_prefix [of p r "butlast (page_path a)" "[pt_index a 1]" f] page_path_split [of a] by auto
    have "ph_words q t = ph_words p t" using grownD(5) [OF g t] by (simp add: page_path_def)
    then show ?thesis using same Some t grownD(3) [OF g t] by (simp add: page_view_def)
  qed
qed

section \<open>One table\<close>

lemma create_table:
  assumes inv: "space_inv p r" and t: "tree p r \<pi> = Some t" and v: "valid_path (\<pi> @ [s])" and len: "length \<pi> < 3"
    and absent: "\<not> entry_present (ph_words p t s)"
    and c: "c \<notin> alloc_set p" "alloc_set q = insert c (alloc_set p)" "ph_words q = (ph_words p)(c := (\<lambda>_. 0))"
      "phys_ok q" "frame_address c"
    and X: "\<pi> @ [s] \<in> X"
  shows "grown X p r (write_entry t s (table_entry c) q)" and "tree (write_entry t s (table_entry c) q) r (\<pi> @ [s]) = Some c"
proof -
  let ?u = "write_entry t s (table_entry c) q"
  note q = allocated_space [OF inv c(1-4)]
  note e = table_entry_simps [OF c(5)]
  have tq: "tree q r \<pi> = Some t" using q(1) t by simp
  have none: "tree q r (\<pi> @ [s]) = None" using q(1) t v absent by (simp add: tree_snoc child_of_def)
  have g: "tree ?u r = (tree q r)(\<pi> @ [s] \<mapsto> c)" "space_inv ?u r"
    using graft [OF q(2) tq v none _ q(3) _ e(1,3) table_entry_ok [OF c(5)]] c(2,3) by simp_all
  show "tree ?u r (\<pi> @ [s]) = Some c" using g(1) by simp
  have "within (ran (tree p r)) p ?u"
    using q(4) t by (auto simp: within_def ran_def)
  moreover have "tree p r \<subseteq>\<^sub>m tree ?u r" using g(1) q(1) none by (auto simp: map_le_def)
  moreover have "ph_words ?u f = ph_words p f" if f: "tree p r \<rho> = Some f" "3 \<le> length \<rho>" for \<rho> f
  proof -
    have "f \<noteq> c" using space_invD(3) [OF inv f(1)] c(1) by blast
    moreover have "f \<noteq> t" using space_invD(4) [OF inv f(1), of \<pi>] t f(2) len by auto
    ultimately show ?thesis using c(3) by simp
  qed
  moreover have "f \<notin> alloc_set p \<and> length \<rho> \<le> 3 \<and> \<rho> \<in> X" if "tree ?u r \<rho> = Some f" "tree p r \<rho> \<noteq> Some f" for \<rho> f
    using that g(1) q(1) c(1) len X by (auto split: if_splits)
  moreover have "ran (tree ?u r) = insert c (ran (tree p r))" unfolding g(1) q(1) using none q(1) by simp
  moreover have "ran (tree p r) \<subseteq> alloc_set p" using space_invD(3) [OF inv] by (auto simp: ran_def)
  moreover have "alloc_set ?u = insert c (alloc_set p)" using c(2) by simp
  ultimately show "grown X p r ?u" unfolding grown_def using g(2) by blast
qed

lemma undo_table:
  assumes inv: "space_inv p r" and t: "tree p r \<pi> = Some t" and v: "valid_path (\<pi> @ [s])"
    and absent: "\<not> entry_present (ph_words p t s)"
    and c: "c \<notin> alloc_set p" "alloc_set q = insert c (alloc_set p)" "ph_words q = (ph_words p)(c := (\<lambda>_. 0))"
    and same: "same_memory (write_entry t s e q) u"
  obtains u' where "map_rollback [(t, s, c)] u = (Ok (), u')" "same_memory p u'"
proof -
  have ta: "t \<in> alloc_set p" using space_invD(3) [OF inv t] .
  have s: "s < 512" using v by (simp add: valid_path_snoc)
  have u: "phys_ok u" "alloc_set u = insert c (alloc_set p)" "\<And>f. f \<in> insert c (alloc_set p) \<Longrightarrow> ph_words u f = ph_words (write_entry t s e q) f"
    using same c(2) by (auto simp: same_memory_def)
  let ?w = "write_entry t s 0 u"
  have wr: "ph_write u t s 0 = (Ok (), ?w)" using ph_write_value [OF u(1) _ s] u(2) ta by simp
  obtain u' where rel: "ph_release ?w c = (Ok (), u')" "alloc_set u' = alloc_set ?w - {c}" "ph_words u' = ph_words ?w" "phys_ok u'"
    using release_value [of ?w c] u(1,2) by (metis insertI1 write_entry_simps(2,3))
  have zero: "ph_words p t s = 0"
    using space_invD(5) [OF inv t v] absent by (simp add: entry_ok_def)
  have "ph_words u' f = ph_words p f" if f: "f \<in> alloc_set p" for f
  proof -
    have "f \<noteq> c" using f c(1) by blast
    then show ?thesis using rel(3) u(3) [of f] f c(3) zero by (auto simp: fun_eq_iff)
  qed
  then have "same_memory p u'" using rel(2,4) u(2) c(1) by (auto simp: same_memory_def)
  then show ?thesis using that wr rel(1) by simp
qed

lemma map_rollback_append:
  "map_rollback (xs @ ys) p = (case map_rollback xs p of (r, q) \<Rightarrow> or_return r q (\<lambda>_. map_rollback ys q))"
proof (induction xs arbitrary: p)
  case (Cons x xs)
  obtain parent slot child where x: "x = (parent, slot, child)" using prod_cases3 by blast
  obtain r q where w: "ph_write p parent slot 0 = (r, q)" by fastforce
  obtain r' q' where rel: "ph_release q child = (r', q')" by fastforce
  show ?case using Cons.IH [of q'] x w rel by (cases r; cases r') simp_all
qed simp

section \<open>The walk\<close>

text \<open>Rolling back \<open>new\<close> from a memory like \<open>q\<close> gives back \<open>p\<close>.\<close>

definition undoes :: "table_slot list \<Rightarrow> physical \<Rightarrow> physical \<Rightarrow> bool" where
  "undoes new p q \<longleftrightarrow> (\<forall>u. same_memory q u \<longrightarrow> (\<exists>u'. map_rollback (rev new) u = (Ok (), u') \<and> same_memory p u'))"

lemma undoesD:
  assumes "undoes new p q" and "same_memory q u"
  obtains u' where "map_rollback (rev new) u = (Ok (), u')" "same_memory p u'"
  using assms by (auto simp: undoes_def)

lemma undoes_Nil: "undoes [] p p"
  by (simp add: undoes_def)

lemma undoes_Cons:
  assumes "undoes [x] p q" and "undoes new q u"
  shows "undoes (x # new) p u"
  unfolding undoes_def
proof (intro allI impI)
  fix w
  assume "same_memory u w"
  then obtain w' where w': "map_rollback (rev new) w = (Ok (), w')" "same_memory q w'" by (rule undoesD [OF assms(2)])
  obtain v where "map_rollback (rev [x]) w' = (Ok (), v)" "same_memory p v" by (rule undoesD [OF assms(1) w'(2)])
  then show "\<exists>v. map_rollback (rev (x # new)) w = (Ok (), v) \<and> same_memory p v"
    using w'(1) by (simp add: map_rollback_append)
qed

lemma map_walk_cases:
  assumes "space_inv p r" and "tree p r \<pi> = Some t" and "valid_path (\<pi> @ map (pt_index a) levels)"
    and "length \<pi> + length levels \<le> 3" and "map_walk a levels t created p = (res, created', q)"
  shows "\<exists>new. created' = created @ new \<and> grown {\<rho>. \<exists>\<tau>. \<pi> @ map (pt_index a) levels = \<rho> @ \<tau>} p r q \<and> undoes new p q \<and>
    (res = Err (MemFrames FrExhausted) \<and> free_frames p < length levels \<or>
     (\<exists>t'. res = Ok t' \<and> tree q r (\<pi> @ map (pt_index a) levels) = Some t' \<and> free_frames p \<le> free_frames q + length levels))"
  using assms
proof (induction levels arbitrary: \<pi> t created p)
  case Nil
  then show ?case using grown_refl undoes_Nil by auto
next
  case (Cons l levels)
  let ?s = "pt_index a l"
  have v: "valid_path (\<pi> @ [?s])" using Cons.prems(3) valid_path_prefix [of "\<pi> @ [?s]" "map (pt_index a) levels"] by simp
  have rest: "valid_path ((\<pi> @ [?s]) @ map (pt_index a) levels)" "length (\<pi> @ [?s]) + length levels \<le> 3" "length \<pi> < 3"
    using Cons.prems(3,4) by simp_all
  note inv = Cons.prems(1) and t = Cons.prems(2)
  have ta: "t \<in> alloc_set p" and ok: "phys_ok p" using space_invD(1,3) [OF inv] t by auto
  have read: "ph_read p t ?s = Ok (ph_words p t ?s)" by (rule ph_read_value [OF ok ta pt_index_less])
  show ?case
  proof (cases "entry_present (ph_words p t ?s)")
    case True
    then have huge: "\<not> entry_huge (ph_words p t ?s)" using space_invD(5) [OF inv t v] rest(3) by (simp add: entry_ok_def)
    let ?c = "entry_frame (ph_words p t ?s)"
    have c: "tree p r (\<pi> @ [?s]) = Some ?c" using t v True by (simp add: tree_snoc child_of_def)
    have "map_walk a levels ?c created p = (res, created', q)"
      using Cons.prems(5) read True huge by (simp add: Let_def)
    then show ?thesis using Cons.IH [OF inv c rest(1,2)] by fastforce
  next
    case False
    from ok show ?thesis
    proof (cases rule: allocate_cases)
      case none
      then have "res = Err (MemFrames FrExhausted)" "created' = created" "q = p"
        using Cons.prems(5) read False by (simp_all add: Let_def)
      then show ?thesis using grown_refl [OF inv] undoes_Nil none(2) by simp
    next
      case (some c u)
      let ?w = "write_entry t ?s (table_entry c) u"
      have wr: "ph_write u t ?s (of_nat c OR pte_present OR pte_write OR pte_user) = (Ok (), ?w)"
        using ph_write_value [OF some(5) _ pt_index_less] ta some(3) by (simp add: table_entry_def)
      let ?X = "{\<rho>. \<exists>\<tau>. \<pi> @ map (pt_index a) (l # levels) = \<rho> @ \<tau>}"
      have X: "\<pi> @ [?s] \<in> ?X" by simp
      note made = create_table [OF inv t v rest(3) False some(2-6) X]
      have undo: "undoes [(t, ?s, c)] p ?w"
        unfolding undoes_def using undo_table [OF inv t v False some(2-4), of "table_entry c"] by fastforce
      have walk: "map_walk a levels c (created @ [(t, ?s, c)]) ?w = (res, created', q)"
        using Cons.prems(5) read False some(1) wr by (simp add: Let_def)
      have all: "(\<pi> @ [?s]) @ map (pt_index a) levels = \<pi> @ map (pt_index a) (l # levels)" by simp
      obtain new where new: "created' = (created @ [(t, ?s, c)]) @ new" "grown ?X ?w r q" "undoes new ?w q"
        "res = Err (MemFrames FrExhausted) \<and> free_frames ?w < length levels \<or>
         (\<exists>t'. res = Ok t' \<and> tree q r ((\<pi> @ [?s]) @ map (pt_index a) levels) = Some t' \<and> free_frames ?w \<le> free_frames q + length levels)"
        using Cons.IH [OF grownD(1) [OF made(1)] made(2) rest(1,2) walk] unfolding all by blast
      have "grown ?X p r q" by (rule grown_trans [OF made(1) new(2)])
      moreover have "undoes ((t, ?s, c) # new) p q" by (rule undoes_Cons [OF undo new(3)])
      moreover have "free_frames p = Suc (free_frames ?w)" using some(7) by simp
      ultimately show ?thesis using new(1,4) by (intro exI [of _ "(t, ?s, c) # new"]) auto
    qed
  qed
qed

end
