(* ===== verification/Page_Space.thy ===== *)
theory Page_Space
  imports Page_Map
begin

unbundle bit_operations_syntax

text \<open>
  \<open>lookup\<close> and \<open>map_zeroed\<close> of an address space, said of its pages: \<open>page_view\<close> is what the space maps,
  and \<open>map_zeroed\<close> is one insertion into it or nothing at all.
\<close>

section \<open>Lookup\<close>

definition lower_half :: "nat \<Rightarrow> bool" where
  "lower_half a \<longleftrightarrow> a < 2 ^ 47"

lemma lower_half_canonical: "lower_half a \<Longrightarrow> canonical (of_nat a)"
  by (simp add: lower_half_def canonical_def word_le_nat_alt unat_of_nat)

lemma lower_half_path: "lower_half a \<Longrightarrow> valid_path (page_path a)"
proof -
  assume a: "lower_half a"
  have "a div 2 ^ 39 < 256" using a by (simp add: lower_half_def less_mult_imp_div_less)
  then have "pt_index a 4 < 256" by (simp add: pt_index_def)
  then show ?thesis by (simp add: valid_path_def page_path_def pt_index_less)
qed

definition mapping_of :: "nat \<Rightarrow> u64 \<Rightarrow> pt_mapping" where
  "mapping_of a e = \<lparr>mp_physical = entry_frame e div 4096 * 4096 + a mod 4096, mp_writable = bit e 1,
     mp_executable = (\<not> bit e 63), mp_user = bit e 2\<rparr>"

lemma lookup_step:
  assumes inv: "space_inv p r" and t: "tree p r \<pi> = Some t" and v: "valid_path (\<pi> @ [pt_index a k])"
    and k: "k = Suc l" "0 < l" "length \<pi> < 3"
  shows "lookup_loop p a t True True True k =
    (case tree p r (\<pi> @ [pt_index a k]) of None \<Rightarrow> Ok None | Some c \<Rightarrow> lookup_loop p a c True True True l)"
  using v unfolding k(1)
proof -
  assume v: "valid_path (\<pi> @ [pt_index a (Suc l)])"
  let ?e = "ph_words p t (pt_index a (Suc l))"
  have read: "ph_read p t (pt_index a (Suc l)) = Ok ?e"
    by (rule ph_read_value [OF space_invD(1) [OF inv] space_invD(3) [OF inv t] pt_index_less])
  have c: "tree p r (\<pi> @ [pt_index a (Suc l)]) = (if entry_present ?e then Some (entry_frame ?e) else None)"
    using t v by (simp add: tree_snoc child_of_def)
  have "entry_present ?e \<Longrightarrow> \<not> entry_huge ?e \<and> bit ?e 1 \<and> bit ?e 2 \<and> \<not> bit ?e 63"
    using space_invD(5) [OF inv t v] k(3) by (simp add: entry_ok_def)
  then show "lookup_loop p a t True True True (Suc l) =
    (case tree p r (\<pi> @ [pt_index a (Suc l)]) of None \<Rightarrow> Ok None | Some c \<Rightarrow> lookup_loop p a c True True True l)"
    unfolding c using read k(2) by (simp add: Let_def entry_bits)
qed

lemma lookup_leaf:
  assumes inv: "space_inv p r" and t: "tree p r \<pi> = Some t"
  shows "lookup_loop p a t True True True (Suc 0) =
    (let e = ph_words p t (pt_index a (Suc 0)) in Ok (if entry_present e then Some (mapping_of a e) else None))"
proof -
  have "ph_read p t (pt_index a (Suc 0)) = Ok (ph_words p t (pt_index a (Suc 0)))"
    by (rule ph_read_value [OF space_invD(1) [OF inv] space_invD(3) [OF inv t] pt_index_less])
  then show ?thesis by (simp add: Let_def entry_bits mapping_of_def)
qed

lemma page_path_prefixes:
  assumes "lower_half a"
  shows "valid_path ([] @ [pt_index a 4])" "valid_path ([pt_index a 4] @ [pt_index a 3])"
    "valid_path ([pt_index a 4, pt_index a 3] @ [pt_index a 2])"
    "valid_path ([pt_index a 4, pt_index a 3, pt_index a 2] @ [pt_index a 1])"
  using lower_half_path [OF assms] by (auto simp: page_path_def valid_path_def)

lemma pt_lookup_view:
  assumes inv: "space_inv p r" and a: "lower_half a"
  shows "pt_lookup p r a = Ok (map_option (mapping_of a) (page_view p r a))"
proof -
  let ?i4 = "pt_index a 4" and ?i3 = "pt_index a 3" and ?i2 = "pt_index a 2" and ?i1 = "pt_index a 1"
  note v = page_path_prefixes [OF a]
  have n: "(4::nat) = Suc 3" "(3::nat) = Suc 2" "(2::nat) = Suc (Suc 0)" by simp_all
  have four: "pt_lookup p r a = lookup_loop p a r True True True 4"
    using lower_half_canonical [OF a] space_invD(2) [OF inv] by (simp add: pt_lookup_def)
  have path: "page_path a = ((([] @ [?i4]) @ [?i3]) @ [?i2]) @ [?i1]" "butlast (page_path a) = [?i4, ?i3, ?i2]"
    by (simp_all add: page_path_def)
  have gone: "page_view p r a = None" if "tree p r \<rho> = None" "page_path a = \<rho> @ \<sigma>" for \<rho> \<sigma>
    using tree_beyond [OF that(1), of \<sigma>] that(2) by (simp add: page_view_def)
  have "lookup_loop p a r True True True 4 = (case tree p r [?i4] of None \<Rightarrow> Ok None
      | Some c \<Rightarrow> lookup_loop p a c True True True 3)"
    by (rule lookup_step [OF inv tree_root v(1) n(1), unfolded append.simps]) simp_all
  moreover have "lookup_loop p a c True True True 3 = (case tree p r [?i4, ?i3] of None \<Rightarrow> Ok None
      | Some c \<Rightarrow> lookup_loop p a c True True True 2)" if "tree p r [?i4] = Some c" for c
    by (rule lookup_step [OF inv that v(2) n(2), unfolded append.simps]) simp_all
  moreover have "lookup_loop p a c True True True 2 = (case tree p r [?i4, ?i3, ?i2] of None \<Rightarrow> Ok None
      | Some c \<Rightarrow> lookup_loop p a c True True True (Suc 0))" if "tree p r [?i4, ?i3] = Some c" for c
    by (rule lookup_step [OF inv that v(3) n(3), unfolded append.simps]) simp_all
  moreover have "lookup_loop p a c True True True (Suc 0) = Ok (map_option (mapping_of a) (page_view p r a))"
    if c: "tree p r [?i4, ?i3, ?i2] = Some c" for c
  proof -
    have "tree p r (page_path a) = child_of (ph_words p) c ?i1"
      using tree_snoc [of p r "[?i4, ?i3, ?i2]" ?i1] c v(4) by (simp add: page_path_def)
    then show ?thesis using lookup_leaf [OF inv c, of a] c path(2)
      by (simp add: page_view_def child_of_def Let_def)
  qed
  ultimately show ?thesis unfolding four
    using gone [of "[?i4]" "[?i3, ?i2, ?i1]"] gone [of "[?i4, ?i3]" "[?i2, ?i1]"] gone [of "[?i4, ?i3, ?i2]" "[?i1]"] path(1)
    by (simp del: lookup_loop.simps split: option.split)
qed

section \<open>Mapping a page\<close>

lemma page_view_write:
  assumes inv: "space_inv p r" and a: "page_address a" and t: "tree p r (butlast (page_path a)) = Some t"
    and none: "page_view p r a = None" and f: "f \<in> alloc_set p" "\<And>\<rho>. tree p r \<rho> \<noteq> Some f"
  shows "space_inv (write_entry t (pt_index a 1) (leaf_entry f pm) p) r"
    and "tree (write_entry t (pt_index a 1) (leaf_entry f pm) p) r = (tree p r)(page_path a \<mapsto> f)"
    and "\<And>b. page_address b \<Longrightarrow> page_view (write_entry t (pt_index a 1) (leaf_entry f pm) p) r b =
      (if b = a then Some (leaf_entry f pm) else page_view p r b)"
proof -
  let ?q = "write_entry t (pt_index a 1) (leaf_entry f pm) p"
  have fa: "frame_address f" by (rule alloc_set_frame(1) [OF space_invD(1) [OF inv] f(1)])
  note e = leaf_entry_simps [OF fa]
  have path: "butlast (page_path a) @ [pt_index a 1] = page_path a" by (simp add: page_path_def)
  have v: "valid_path (butlast (page_path a) @ [pt_index a 1])" unfolding path by (rule page_path_valid [OF a])
  have ok: "entry_ok (length (butlast (page_path a))) (leaf_entry f pm)" using e(1) by (simp add: entry_ok_def page_path_def)
  have no: "tree p r (butlast (page_path a) @ [pt_index a 1]) = None" unfolding path using none page_view_None by simp
  have "\<not> length (butlast (page_path a)) < 3" by (simp add: page_path_def)
  then show inv': "space_inv ?q r" and tree: "tree ?q r = (tree p r)(page_path a \<mapsto> f)"
    using graft [OF inv t v no f _ e(1,2) ok] unfolding path by simp_all
  show "page_view ?q r b = (if b = a then Some (leaf_entry f pm) else page_view p r b)" if b: "page_address b" for b
  proof (cases "b = a")
    case True
    have "tree ?q r (butlast (page_path a)) = Some t" using tree t by (simp add: page_path_def)
    then show ?thesis using True tree by (simp add: page_view_def)
  next
    case False
    then have ne: "page_path b \<noteq> page_path a" using page_path_inj [OF b a] by blast
    have "butlast (page_path b) \<noteq> page_path a" by (simp add: page_path_def)
    then have same: "tree ?q r (page_path b) = tree p r (page_path b)"
      "tree ?q r (butlast (page_path b)) = tree p r (butlast (page_path b))" using tree ne by simp_all
    have "ph_words ?q c (pt_index b 1) = ph_words p c (pt_index b 1)" if c: "tree p r (butlast (page_path b)) = Some c" for c
    proof (cases "c = t")
      case True
      then have "butlast (page_path b) = butlast (page_path a)" using space_invD(4) [OF inv c] t by simp
      then have "pt_index b 1 \<noteq> pt_index a 1" using ne page_path_split by metis
      then show ?thesis by simp
    qed simp
    then have "map_option (\<lambda>t. ph_words ?q t (pt_index b 1)) (tree p r (butlast (page_path b))) =
        map_option (\<lambda>t. ph_words p t (pt_index b 1)) (tree p r (butlast (page_path b)))"
      by (cases "tree p r (butlast (page_path b))") simp_all
    then show ?thesis unfolding page_view_def same using False by (cases "tree p r (page_path b)") simp_all
  qed
qed

lemma page_view_same:
  assumes "tree q r = tree p r" and "\<And>\<pi> f. tree p r \<pi> = Some f \<Longrightarrow> ph_words q f = ph_words p f"
  shows "page_view q r a = page_view p r a"
proof -
  have "map_option (\<lambda>t. ph_words q t (pt_index a 1)) (tree p r (butlast (page_path a))) =
      map_option (\<lambda>t. ph_words p t (pt_index a 1)) (tree p r (butlast (page_path a)))"
    using assms(2) by (cases "tree p r (butlast (page_path a))") simp_all
  then show ?thesis unfolding page_view_def assms(1) by (cases "tree p r (page_path a)") simp_all
qed

lemma same_memory_view:
  assumes "same_memory p q" and "space_inv p r"
  shows "page_view q r a = page_view p r a"
  using same_memory_tree(1) [OF assms] assms(1) space_invD(3) [OF assms(2)]
  by (intro page_view_same) (auto simp: same_memory_def)

text \<open>\<open>inserted p r a f pm q\<close>: from \<open>p\<close> to \<open>q\<close> the space \<open>r\<close> has the new page \<open>a\<close> on the frame \<open>f\<close>, and all it had.\<close>

definition inserted :: "physical \<Rightarrow> nat \<Rightarrow> nat \<Rightarrow> nat \<Rightarrow> page_permissions \<Rightarrow> physical \<Rightarrow> bool" where
  "inserted p r a f pm q \<longleftrightarrow> space_inv q r \<and> within (ran (tree p r)) p q \<and>
     f \<notin> alloc_set p \<and> ph_words q f = (\<lambda>_. 0) \<and> alloc_set q = alloc_set p \<union> ran (tree q r) \<and>
     ran (tree q r) \<inter> alloc_set p = ran (tree p r) \<and> tree p r \<subseteq>\<^sub>m tree q r \<and> (tight p r \<longrightarrow> tight q r) \<and>
     (\<forall>\<rho>. length \<rho> = 4 \<longrightarrow> tree q r \<rho> = (if \<rho> = page_path a then Some f else tree p r \<rho>)) \<and>
     (\<forall>b. page_address b \<longrightarrow> page_view q r b = (if b = a then Some (leaf_entry f pm) else page_view p r b)) \<and>
     (\<forall>b e. page_view p r b = Some e \<longrightarrow> ph_words q (entry_frame e) = ph_words p (entry_frame e))"

lemma insertedD:
  assumes "inserted p r a f pm q"
  shows "space_inv q r" and "within (ran (tree p r)) p q" and "f \<notin> alloc_set p" and "ph_words q f = (\<lambda>_. 0)"
    and "alloc_set q = alloc_set p \<union> ran (tree q r)" and "ran (tree q r) \<inter> alloc_set p = ran (tree p r)"
    and "tree p r \<subseteq>\<^sub>m tree q r" and "tight p r \<Longrightarrow> tight q r"
    and "\<And>\<rho>. length \<rho> = 4 \<Longrightarrow> tree q r \<rho> = (if \<rho> = page_path a then Some f else tree p r \<rho>)"
    and "\<And>b. page_address b \<Longrightarrow> page_view q r b = (if b = a then Some (leaf_entry f pm) else page_view p r b)"
    and "\<And>b e. page_view p r b = Some e \<Longrightarrow> ph_words q (entry_frame e) = ph_words p (entry_frame e)"
  using assms unfolding inserted_def by blast+

text \<open>The tables above a new page are not empty, and the others have what they had.\<close>

lemma grown_tight:
  assumes "tight p r" and "tree p r \<subseteq>\<^sub>m tree q r" and "tree q r (page_path a) \<noteq> None"
    and new: "\<And>\<rho>. tree q r \<rho> \<noteq> None \<Longrightarrow> tree p r \<rho> = None \<Longrightarrow> \<exists>\<tau>. page_path a = \<rho> @ \<tau>"
  shows "tight q r"
  unfolding tight_def
proof (intro allI impI)
  fix \<pi>
  assume \<pi>: "tree q r \<pi> \<noteq> None" "\<pi> \<noteq> []" "length \<pi> \<le> 3"
  show "\<exists>s. tree q r (\<pi> @ [s]) \<noteq> None"
  proof (cases "tree p r \<pi> = None")
    case True
    then obtain \<tau> where \<tau>: "page_path a = \<pi> @ \<tau>" using new \<pi>(1) by blast
    then obtain s \<sigma> where s: "\<tau> = s # \<sigma>" using \<pi>(3) by (cases \<tau>) (auto simp: page_path_def)
    obtain f where "tree q r ((\<pi> @ [s]) @ \<sigma>) = Some f" using assms(3) \<tau> s by auto
    then show ?thesis using tree_prefix by blast
  next
    case False
    then obtain s where "tree p r (\<pi> @ [s]) \<noteq> None" using tightD [OF assms(1) _ \<pi>(2,3)] by blast
    then show ?thesis using assms(2) unfolding map_le_def by (metis domIff)
  qed
qed

lemma walk_then_write:
  assumes inv: "space_inv p r" and a: "page_address a" and none: "page_view p r a = None"
    and c: "f \<notin> alloc_set p" "alloc_set q = insert f (alloc_set p)" "ph_words q = (ph_words p)(f := (\<lambda>_. 0))" "phys_ok q"
    and g: "grown {\<rho>. \<exists>\<tau>. butlast (page_path a) = \<rho> @ \<tau>} q r u" and t: "tree u r (butlast (page_path a)) = Some t"
  shows "inserted p r a f pm (write_entry t (pt_index a 1) (leaf_entry f pm) u)"
proof -
  let ?w = "write_entry t (pt_index a 1) (leaf_entry f pm) u"
  note q = allocated_space [OF inv c]
  have wq: "ph_words q x = ph_words p x" if "tree p r \<rho> = Some x" for \<rho> x
    using space_invD(3) [OF inv that] c(1,3) by auto
  have vq: "page_view q r b = page_view p r b" for b by (rule page_view_same [OF q(1) wq])
  have vu: "page_view u r b = page_view p r b" for b using grown_page_view [OF g] vq by simp
  have f: "f \<in> alloc_set u" "tree u r \<rho> \<noteq> Some f" for \<rho>
    using grown_alloc [OF g] c(2) grownD(4) [OF g, of \<rho> f] q(3) [of \<rho>] by blast+
  have noneu: "page_view u r a = None" using vu none by simp
  note wr = page_view_write [OF grownD(1) [OF g] a t noneu f, where pm = pm]
  have ft: "f \<noteq> t" using f(2) t by blast
  have wf: "ph_words u f = (\<lambda>_. 0)" 
  proof -
    have "f \<notin> ran (tree q r)" using q(3) by (auto simp: ran_def)
    then show ?thesis using grownD(2) [OF g] c(2,3) by (auto simp: within_def)
  qed
  have ran: "ran (tree u r) \<inter> alloc_set p = ran (tree p r)"
  proof
    show "ran (tree u r) \<inter> alloc_set p \<subseteq> ran (tree p r)" using grownD(4) [OF g] c(2) q(1) by (auto simp: ran_def)
    show "ran (tree p r) \<subseteq> ran (tree u r) \<inter> alloc_set p"
      using grownD(3) [OF g] q(1) space_invD(3) [OF inv] by (auto simp: ran_def)
  qed
  have rw: "ran (tree ?w r) = insert f (ran (tree u r))"
    unfolding wr(2) using noneu page_view_None [of u r a] by simp
  then have ranw: "ran (tree ?w r) \<inter> alloc_set p = ran (tree p r)" using ran c(1) by auto
  have tr: "t \<in> alloc_set p \<Longrightarrow> t \<in> ran (tree p r)" using ran t by (auto simp: ran_def)
  have wu: "within (ran (tree p r)) p u"
    by (rule within_trans [OF _ grownD(2) [OF g]]) (use q(1,4) in \<open>auto simp: within_def\<close>)
  then have win: "within (ran (tree p r)) p ?w" using tr by (auto simp: within_def)
  have pages: "ph_words ?w (entry_frame e) = ph_words p (entry_frame e)" if e: "page_view p r b = Some e" for b e
  proof -
    obtain c' where pt: "tree p r (page_path b) = Some (entry_frame e)" using e by (rule page_view_Some) blast
    have qt: "tree q r (page_path b) = Some (entry_frame e)" using pt q(1) by simp
    have "entry_frame e \<noteq> t"
    proof
      assume "entry_frame e = t"
      then have "page_path b = butlast (page_path a)"
        using space_invD(4) [OF grownD(1) [OF g] grownD(3) [OF g qt], of "butlast (page_path a)"] t by simp
      then show False by (simp add: page_path_def)
    qed
    moreover have "ph_words u (entry_frame e) = ph_words q (entry_frame e)"
      using grownD(5) [OF g qt] by (simp add: page_path_def)
    ultimately show ?thesis using wq [OF pt] by simp
  qed
  have al: "alloc_set ?w = alloc_set p \<union> ran (tree ?w r)" using grownD(6) [OF g] c(2) rw by simp
  have le: "tree p r \<subseteq>\<^sub>m tree ?w r"
    unfolding wr(2) map_le_def using grownD(3) [OF g] q(1) noneu page_view_None [of u r a] by (auto simp: dom_def)
  have four: "tree ?w r \<rho> = (if \<rho> = page_path a then Some f else tree p r \<rho>)" if "length \<rho> = 4" for \<rho>
    unfolding wr(2) using grownD(3,4) [OF g, of \<rho>] q(1) that by (cases "tree p r \<rho>"; cases "tree u r \<rho>") auto
  have tight: "tight ?w r" if "tight p r"
  proof (rule grown_tight [OF that le, of a])
    show "tree ?w r (page_path a) \<noteq> None" unfolding wr(2) by simp
    show "\<exists>\<tau>. page_path a = \<rho> @ \<tau>" if \<rho>: "tree ?w r \<rho> \<noteq> None" "tree p r \<rho> = None" for \<rho>
    proof (cases "\<rho> = page_path a")
      case False
      then obtain x where "tree u r \<rho> = Some x" using \<rho>(1) unfolding wr(2) by auto
      then obtain \<tau> where "butlast (page_path a) = \<rho> @ \<tau>" using grownD(4) [OF g] q(1) \<rho>(2) by fastforce
      then show ?thesis using page_path_split [of a] by (metis append_assoc)
    qed simp
  qed
  have view: "page_view ?w r b = (if b = a then Some (leaf_entry f pm) else page_view p r b)" if "page_address b" for b
    using wr(3) [OF that] vu by simp
  have "ph_words ?w f = (\<lambda>_. 0)" using wf ft by simp
  then show ?thesis
    unfolding inserted_def using wr(1) win c(1) al ranw le tight four view pages by blast
qed

lemma map_zeroed_cases:
  assumes inv: "space_inv p (as_root s)" and a: "page_address (virtual_page_address page)" and pm: "perm_valid pm"
  obtains (mapped) e where "page_view p (as_root s) (virtual_page_address page) = Some e" "as_map_zeroed s page pm p = (Err MemAlreadyMapped, p)"
  | (exhausted) q where "page_view p (as_root s) (virtual_page_address page) = None"
      "as_map_zeroed s page pm p = (Err (MemFrames FrExhausted), q)" "same_memory p q" "free_frames p < 4"
  | (inserted) f q where "page_view p (as_root s) (virtual_page_address page) = None"
      "as_map_zeroed s page pm p = (Ok (), q)" "inserted p (as_root s) (virtual_page_address page) f pm q"
      "free_frames p \<le> free_frames q + 4"
proof -
  let ?r = "as_root s" and ?a = "virtual_page_address page"
  have ok: "phys_ok p" and r: "?r \<noteq> 0" using space_invD(1,2) [OF inv] by auto
  have low: "lower_half ?a" using a by (simp add: page_address_def lower_half_def)
  note look = pt_lookup_view [OF inv low]
  show ?thesis
  proof (cases "page_view p ?r ?a")
    case (Some e)
    then show ?thesis using mapped [of e] look r pm by (simp add: as_map_zeroed_def)
  next
    case none: None
    from ok show ?thesis
    proof (cases rule: allocate_cases)
      case none': none
      then show ?thesis using exhausted [of p] none none'(2) look r pm same_memory_refl [OF ok] by (simp add: as_map_zeroed_def)
    next
      case (some f q)
      obtain walk created u where w: "map_walk ?a [4, 3, 2] ?r [] q = (walk, created, u)" using prod_cases3 by blast
      note q = allocated_space [OF inv some(2-5)]
      have path: "map (pt_index ?a) [4, 3, 2] = butlast (page_path ?a)" by (simp add: page_path_def)
      have vp: "valid_path ([] @ map (pt_index ?a) [4, 3, 2])"
        using valid_path_prefix [of "butlast (page_path ?a)" "[pt_index ?a 1]"] page_path_valid [OF a] page_path_split [of ?a] path
        by simp
      from map_walk_cases [OF q(2) tree_root vp _ w]
      have g: "grown {\<rho>. \<exists>\<tau>. butlast (page_path ?a) = \<rho> @ \<tau>} q ?r u" "undoes created q u"
        "walk = Err (MemFrames FrExhausted) \<and> free_frames q < 3 \<or>
         (\<exists>t. walk = Ok t \<and> tree u ?r (butlast (page_path ?a)) = Some t \<and> free_frames q \<le> free_frames u + 3)"
        using path by auto
      from g(3) show ?thesis
      proof
        assume "walk = Err (MemFrames FrExhausted) \<and> free_frames q < 3"
        then have e: "walk = Err (MemFrames FrExhausted)" and few: "free_frames p < 4" using some(7) by simp_all
        have "phys_ok u" using space_invD(1) [OF grownD(1) [OF g(1)]] .
        then obtain v where v: "map_rollback (rev created) u = (Ok (), v)" "same_memory q v"
          using undoesD [OF g(2) same_memory_refl] by blast
        have "f \<in> alloc_set v" "phys_ok v" using v(2) some(3) by (auto simp: same_memory_def)
        then obtain w where rel: "ph_release v f = (Ok (), w)" "alloc_set w = alloc_set v - {f}" "ph_words w = ph_words v" "phys_ok w"
          using release_value by blast
        have "same_memory p w" using rel v(2) some(2-4) by (auto simp: same_memory_def)
        moreover have "as_map_zeroed s page pm p = (Err (MemFrames FrExhausted), w)"
          using none look r pm some(1) w e v(1) rel(1) by (simp add: as_map_zeroed_def)
        ultimately show ?thesis using exhausted none few by blast
      next
        assume "\<exists>t. walk = Ok t \<and> tree u ?r (butlast (page_path ?a)) = Some t \<and> free_frames q \<le> free_frames u + 3"
        then obtain t where t: "walk = Ok t" "tree u ?r (butlast (page_path ?a)) = Some t" "free_frames q \<le> free_frames u + 3" by blast
        let ?w = "write_entry t (pt_index ?a 1) (leaf_entry f pm) u"
        have "ph_write u t (pt_index ?a 1) (of_nat f OR pt_flags pm) = (Ok (), ?w)"
          using ph_write_value [OF _ _ pt_index_less] space_invD(1,3) [OF grownD(1) [OF g(1)]] t(2)
          by (simp add: leaf_entry_def)
        then have "as_map_zeroed s page pm p = (Ok (), ?w)"
          using none look r pm some(1) w t(1) by (simp add: as_map_zeroed_def)
        moreover have "free_frames p \<le> free_frames ?w + 4" using some(7) t(3) by simp
        ultimately show ?thesis using inserted none walk_then_write [OF inv a none some(2-5) g(1) t(2)] by blast
      qed
    qed
  qed
qed

end
