(* ===== verification/Page_Unmap.thy ===== *)
theory Page_Unmap
  imports Page_Space
begin

unbundle bit_operations_syntax

text \<open>
  \<open>unmap\<close>: the descent to the entry of a page, and the release of the tables that have become empty.
  \<open>shrunk p r q\<close> is what the release does to the tree of an address space: it takes tables away and gives
  their frames back, and touches no page.
\<close>

section \<open>Shrinking a tree\<close>

definition shrunk :: "physical \<Rightarrow> nat \<Rightarrow> physical \<Rightarrow> bool" where
  "shrunk p r q \<longleftrightarrow> space_inv q r \<and> within (ran (tree p r)) p q \<and> tree q r \<subseteq>\<^sub>m tree p r \<and>
     (\<forall>\<rho>. length \<rho> = 4 \<longrightarrow> tree q r \<rho> = tree p r \<rho>) \<and>
     (\<forall>\<rho> f. tree q r \<rho> = Some f \<longrightarrow> 3 \<le> length \<rho> \<longrightarrow> ph_words q f = ph_words p f) \<and>
     alloc_set q = alloc_set p - (ran (tree p r) - ran (tree q r))"

lemma shrunkD:
  assumes "shrunk p r q"
  shows "space_inv q r" and "within (ran (tree p r)) p q"
    and "\<And>\<rho> f. tree q r \<rho> = Some f \<Longrightarrow> tree p r \<rho> = Some f" and "\<And>\<rho>. length \<rho> = 4 \<Longrightarrow> tree q r \<rho> = tree p r \<rho>"
    and "\<And>\<rho> f. tree q r \<rho> = Some f \<Longrightarrow> 3 \<le> length \<rho> \<Longrightarrow> ph_words q f = ph_words p f"
    and "alloc_set q = alloc_set p - (ran (tree p r) - ran (tree q r))"
proof -
  show "space_inv q r" "within (ran (tree p r)) p q" "alloc_set q = alloc_set p - (ran (tree p r) - ran (tree q r))"
    using assms by (simp_all add: shrunk_def)
  show "tree p r \<rho> = Some f" if "tree q r \<rho> = Some f" for \<rho> f
    using assms that unfolding shrunk_def map_le_def by (metis domI)
  show "tree q r \<rho> = tree p r \<rho>" if "length \<rho> = 4" for \<rho> using assms that unfolding shrunk_def by blast
  show "ph_words q f = ph_words p f" if "tree q r \<rho> = Some f" "3 \<le> length \<rho>" for \<rho> f
    using assms that unfolding shrunk_def by blast
qed

lemma shrunk_refl: "space_inv p r \<Longrightarrow> shrunk p r p"
  using space_invD(1) [of p r] by (auto simp: shrunk_def within_refl)

lemma shrunk_ran: "shrunk p r q \<Longrightarrow> ran (tree q r) \<subseteq> ran (tree p r)"
  using shrunkD(3) [of p r q] by (auto simp: ran_def)

lemma shrunk_trans:
  assumes pq: "shrunk p r q" and qu: "shrunk q r u"
  shows "shrunk p r u"
proof -
  note sub = shrunk_ran [OF pq] shrunk_ran [OF qu]
  have "within (ran (tree p r)) p u" by (rule within_trans [OF shrunkD(2) [OF pq] shrunkD(2) [OF qu]]) (use sub in blast)
  moreover have "tree u r \<subseteq>\<^sub>m tree p r" using pq qu unfolding shrunk_def by (meson map_le_trans)
  moreover have "tree u r \<rho> = tree p r \<rho>" if "length \<rho> = 4" for \<rho> using shrunkD(4) [OF pq that] shrunkD(4) [OF qu that] by simp
  moreover have "ph_words u f = ph_words p f" if "tree u r \<rho> = Some f" "3 \<le> length \<rho>" for \<rho> f
    using shrunkD(5) [OF qu that] shrunkD(5) [OF pq shrunkD(3) [OF qu that(1)] that(2)] by simp
  moreover have "alloc_set u = alloc_set p - (ran (tree p r) - ran (tree u r))"
    using shrunkD(6) [OF pq] shrunkD(6) [OF qu] sub by blast
  ultimately show ?thesis unfolding shrunk_def using shrunkD(1) [OF qu] by blast
qed

lemma shrunk_page_view:
  assumes g: "shrunk p r q"
  shows "page_view q r a = page_view p r a"
proof -
  have same: "tree q r (page_path a) = tree p r (page_path a)" by (rule shrunkD(4) [OF g]) (simp add: page_path_def)
  show ?thesis
  proof (cases "tree q r (page_path a)")
    case None
    then show ?thesis using same by (simp add: page_view_def)
  next
    case (Some f)
    then obtain t where t: "tree q r (butlast (page_path a)) = Some t"
      using tree_prefix [of q r "butlast (page_path a)" "[pt_index a 1]" f] page_path_split [of a] by auto
    have "ph_words q t = ph_words p t" using shrunkD(5) [OF g t] by (simp add: page_path_def)
    moreover have "tree p r (page_path a) = Some f" using Some same by simp
    ultimately show ?thesis using Some t shrunkD(3) [OF g t] by (simp add: page_view_def)
  qed
qed

section \<open>Empty tables\<close>

lemma ran_without:
  assumes "T x = Some c" and "\<And>y. T y = Some c \<Longrightarrow> y = x"
  shows "ran (T(x := None)) = ran T - {c}"
proof
  show "ran (T(x := None)) \<subseteq> ran T - {c}" using assms(2) by (auto simp: ran_def split: if_splits)
  show "ran T - {c} \<subseteq> ran (T(x := None))"
  proof
    fix f
    assume "f \<in> ran T - {c}"
    then obtain y where "T y = Some f" "f \<noteq> c" by (auto simp: ran_def)
    then have "(T(x := None)) y = Some f" using assms(1) by auto
    then show "f \<in> ran (T(x := None))" by (rule ranI)
  qed
qed

text \<open>A table all of whose entries are absent is taken off its parent and released.\<close>

lemma drop_table:
  assumes inv: "space_inv p r" and t: "tree p r \<pi> = Some t" and c: "tree p r (\<pi> @ [s]) = Some c" and len: "length \<pi> < 3"
    and vacant: "\<And>i. i < 512 \<Longrightarrow> ph_words p c i = 0"
  obtains q where "ph_write p t s 0 = (Ok (), write_entry t s 0 p)" "ph_release (write_entry t s 0 p) c = (Ok (), q)"
    "tree q r = (tree p r)(\<pi> @ [s] := None)" "shrunk p r q"
proof -
  let ?w = "write_entry t s 0 p"
  have v: "valid_path (\<pi> @ [s])" by (rule tree_valid [OF c])
  have leaf: "tree p r (\<pi> @ s # i # \<tau>) = None" for i \<tau>
  proof -
    have "tree p r ((\<pi> @ [s]) @ [i]) = None"
      using c vacant [of i] tree_snoc [of p r "\<pi> @ [s]" i] valid_path_snoc [of "\<pi> @ [s]" i]
      by (simp add: child_of_def entry_bits split: if_splits)
    then show ?thesis using tree_beyond [of p r "(\<pi> @ [s]) @ [i]" \<tau>] by simp
  qed
  note w = prune [OF inv t v leaf]
  have "c \<in> alloc_set ?w" using space_invD(3) [OF inv c] by simp
  then obtain q where q: "ph_release ?w c = (Ok (), q)" "alloc_set q = alloc_set ?w - {c}" "ph_words q = ph_words ?w" "phys_ok q"
    using release_value [OF space_invD(1) [OF w(2)]] by blast
  have cw: "tree ?w r \<rho> \<noteq> Some c" for \<rho> using w(1) space_invD(4) [OF inv c, of \<rho>] by (auto split: if_splits)
  note rel = released_space [OF w(2) cw q(2-4)]
  have tree: "tree q r = (tree p r)(\<pi> @ [s] := None)" using rel(1) w(1) by simp
  have ta: "t \<in> alloc_set p" using space_invD(3) [OF inv t] .
  have ran: "ran (tree q r) = ran (tree p r) - {c}"
    unfolding tree by (rule ran_without [where T = "tree p r", OF c space_invD(4) [OF inv _ c]])
  have "within (ran (tree p r)) p q" using q(2-4) t c by (auto simp: within_def ran_def)
  moreover have "ph_words q f = ph_words p f" if f: "tree q r \<rho> = Some f" "3 \<le> length \<rho>" for \<rho> f
  proof -
    have "tree p r \<rho> = Some f" using f(1) tree by (simp split: if_splits)
    then have "f \<noteq> t" using space_invD(4) [OF inv, of \<rho> f \<pi>] t f(2) len by auto
    then show ?thesis using q(3) by simp
  qed
  moreover have "alloc_set q = alloc_set p - (ran (tree p r) - ran (tree q r))"
    unfolding ran using q(2) c by (auto simp: ran_def)
  moreover have "tree q r \<subseteq>\<^sub>m tree p r" unfolding tree by (auto simp: map_le_def)
  moreover have "tree q r \<rho> = tree p r \<rho>" if "length \<rho> = 4" for \<rho> using that len unfolding tree by auto
  ultimately have "shrunk p r q" unfolding shrunk_def using rel(2) by blast
  moreover have "ph_write p t s 0 = (Ok (), ?w)"
    using ph_write_value [OF space_invD(1) [OF inv] ta] v by (simp add: valid_path_snoc)
  ultimately show ?thesis using that q(1) tree by blast
qed

text \<open>The tables on the way to a path, the deepest first, as \<open>unmap\<close> collects them.\<close>

primrec up_chain :: "(nat list \<Rightarrow> nat option) \<Rightarrow> nat list \<Rightarrow> table_slot list" where
  "up_chain T [] = []"
| "up_chain T (s # \<sigma>) = (the (T (rev \<sigma>)), s, the (T (rev \<sigma> @ [s]))) # up_chain T \<sigma>"

lemma up_chain_same: "(\<And>\<rho>. length \<rho> \<le> length \<sigma> \<Longrightarrow> T' \<rho> = T \<rho>) \<Longrightarrow> up_chain T' \<sigma> = up_chain T \<sigma>"
  by (induction \<sigma>) simp_all

definition tight_but :: "physical \<Rightarrow> nat \<Rightarrow> nat list \<Rightarrow> bool" where
  "tight_but p r \<sigma> \<longleftrightarrow> (\<forall>\<pi>. tree p r \<pi> \<noteq> None \<longrightarrow> \<pi> \<noteq> [] \<longrightarrow> length \<pi> \<le> 3 \<longrightarrow> (\<nexists>\<tau>. \<sigma> = \<pi> @ \<tau>) \<longrightarrow>
     (\<exists>s. tree p r (\<pi> @ [s]) \<noteq> None))"

lemma tight_but_Nil: "tight_but p r [] = tight p r"
  by (simp add: tight_but_def tight_def)

lemma tight_but_less:
  assumes "tight_but p r (\<sigma> @ [s])" and t: "tree q r = (tree p r)(\<sigma> @ [s] := None)"
  shows "tight_but q r \<sigma>"
  unfolding tight_but_def
proof (intro allI impI)
  fix \<pi>
  assume \<pi>: "tree q r \<pi> \<noteq> None" "\<pi> \<noteq> []" "length \<pi> \<le> 3" "\<nexists>\<tau>. \<sigma> = \<pi> @ \<tau>"
  have ne: "\<pi> \<noteq> \<sigma> @ [s]" "\<pi> \<noteq> \<sigma>" using \<pi>(1,4) t by auto
  then have "\<nexists>\<tau>. \<sigma> @ [s] = \<pi> @ \<tau>" using \<pi>(4) by (metis append_butlast_last_id append_is_Nil_conv butlast_append butlast_snoc append_Nil2)
  moreover have "tree p r \<pi> \<noteq> None" using \<pi>(1) t by (auto split: if_splits)
  ultimately obtain i where "tree p r (\<pi> @ [i]) \<noteq> None" using assms(1) \<pi>(2,3) unfolding tight_but_def by blast
  then show "\<exists>s. tree q r (\<pi> @ [s]) \<noteq> None" using ne(2) t by (intro exI [of _ i]) simp
qed

lemma tight_but_full:
  assumes "tight_but p r \<sigma>" and "tree p r (\<sigma> @ [i]) \<noteq> None"
  shows "tight p r"
  unfolding tight_def
proof (intro allI impI)
  fix \<pi>
  assume \<pi>: "tree p r \<pi> \<noteq> None" "\<pi> \<noteq> []" "length \<pi> \<le> 3"
  show "\<exists>s. tree p r (\<pi> @ [s]) \<noteq> None"
  proof (cases "\<exists>\<tau>. \<sigma> = \<pi> @ \<tau>")
    case True
    then obtain \<tau> s \<rho> where "\<sigma> = \<pi> @ \<tau>" "\<tau> @ [i] = s # \<rho>" by (metis append_is_Nil_conv list.exhaust list.distinct(1))
    then have "\<sigma> @ [i] = (\<pi> @ [s]) @ \<rho>" by simp
    then show ?thesis using assms(2) tree_beyond [of p r "\<pi> @ [s]" \<rho>] by fastforce
  next
    case False
    then show ?thesis using assms(1) \<pi> unfolding tight_but_def by blast
  qed
qed

lemma free_empty_value:
  assumes "space_inv p r" and "tree p r (rev \<sigma>) \<noteq> None" and "length \<sigma> \<le> 3"
  shows "\<exists>q. free_empty (up_chain (tree p r) \<sigma>) p = (Ok (), q) \<and> shrunk p r q \<and> (tight_but p r (rev \<sigma>) \<longrightarrow> tight q r)"
  using assms
proof (induction \<sigma> arbitrary: p)
  case Nil
  then show ?case using shrunk_refl by (simp add: tight_but_Nil)
next
  case (Cons s \<sigma>)
  note inv = Cons.prems(1)
  obtain c where c: "tree p r (rev \<sigma> @ [s]) = Some c" using Cons.prems(2) by auto
  obtain t where t: "tree p r (rev \<sigma>) = Some t" using tree_prefix [OF c] by blast
  have len: "length (rev \<sigma>) < 3" using Cons.prems(3) by simp
  have "ph_pointer p c" using alloc_set_frame(2) [OF space_invD(1) [OF inv] space_invD(3) [OF inv c]] .
  then have e: "ph_empty p c = Ok (\<forall>i\<in>set [0..<512]. ph_words p c i = 0)" by (simp add: ph_empty_def)
  show ?case
  proof (cases "\<forall>i\<in>set [0..<512]. ph_words p c i = 0")
    case False
    then obtain i where i: "i < 512" "ph_words p c i \<noteq> 0" by auto
    have v: "valid_path ((rev \<sigma> @ [s]) @ [i])"
      unfolding valid_path_snoc [of "rev \<sigma> @ [s]" i] using tree_valid [OF c] i(1) Cons.prems(3) by simp
    have "entry_present (ph_words p c i)" using space_invD(5) [OF inv c v] i(2) by (auto simp: entry_ok_def)
    then have "tree p r ((rev \<sigma> @ [s]) @ [i]) \<noteq> None" using v c tree_snoc [of p r "rev \<sigma> @ [s]" i] by (simp add: child_of_def)
    then have "tight_but p r (rev \<sigma> @ [s]) \<longrightarrow> tight p r" using tight_but_full by blast
    then show ?thesis using e t c False shrunk_refl [OF inv] by simp
  next
    case True
    then have vacant: "ph_words p c i = 0" if "i < 512" for i using that by simp
    obtain q where q: "ph_write p t s 0 = (Ok (), write_entry t s 0 p)" "ph_release (write_entry t s 0 p) c = (Ok (), q)"
      "tree q r = (tree p r)(rev \<sigma> @ [s] := None)" "shrunk p r q"
      by (rule drop_table [OF inv t c len vacant])
    have up: "up_chain (tree q r) \<sigma> = up_chain (tree p r) \<sigma>" by (rule up_chain_same) (use q(3) in auto)
    have "tree q r (rev \<sigma>) \<noteq> None" "length \<sigma> \<le> 3" using q(3) t Cons.prems(3) by simp_all
    then obtain u where u: "free_empty (up_chain (tree q r) \<sigma>) q = (Ok (), u)" "shrunk q r u" "tight_but q r (rev \<sigma>) \<longrightarrow> tight u r"
      using Cons.IH [OF shrunkD(1) [OF q(4)]] by blast
    have "tight_but p r (rev \<sigma> @ [s]) \<longrightarrow> tight u r" using tight_but_less [OF _ q(3)] u(3) by blast
    then show ?thesis using e True t c q(1,2) up u(1) shrunk_trans [OF q(4) u(2)] by auto
  qed
qed

section \<open>The descent\<close>

lemma unmap_walk_value:
  assumes "space_inv p r" and "tree p r (rev \<sigma>) = Some t" and "valid_path (rev \<sigma> @ map (pt_index a) levels)"
    and "length \<sigma> + length levels \<le> 3"
  shows "case tree p r (rev \<sigma> @ map (pt_index a) levels) of
      None \<Rightarrow> unmap_walk p a levels t = Err MemNotMapped
    | Some t' \<Rightarrow> \<exists>path. unmap_walk p a levels t = Ok (t', path) \<and>
        rev path @ up_chain (tree p r) \<sigma> = up_chain (tree p r) (rev (map (pt_index a) levels) @ \<sigma>)"
  using assms
proof (induction levels arbitrary: \<sigma> t)
  case (Cons l levels)
  let ?s = "pt_index a l" and ?e = "ph_words p t (pt_index a l)"
  note inv = Cons.prems(1) and t = Cons.prems(2)
  have v: "valid_path (rev \<sigma> @ [?s])" using Cons.prems(3) valid_path_prefix [of "rev \<sigma> @ [?s]" "map (pt_index a) levels"] by simp
  have read: "ph_read p t ?s = Ok ?e"
    by (rule ph_read_value [OF space_invD(1) [OF inv] space_invD(3) [OF inv t] pt_index_less])
  show ?case
  proof (cases "entry_present ?e")
    case False
    then have "tree p r (rev \<sigma> @ [?s]) = None" using t v by (simp add: tree_snoc child_of_def)
    then have "tree p r (rev \<sigma> @ map (pt_index a) (l # levels)) = None"
      using tree_beyond [of p r "rev \<sigma> @ [?s]" "map (pt_index a) levels"] by simp
    then show ?thesis using read False by (simp add: Let_def)
  next
    case True
    have huge: "\<not> entry_huge ?e"
      using space_invD(5) [OF inv t v] True Cons.prems(4) by (simp add: entry_ok_def)
    have c: "tree p r (rev (?s # \<sigma>)) = Some (entry_frame ?e)" using t v True by (simp add: tree_snoc child_of_def)
    have "valid_path (rev (?s # \<sigma>) @ map (pt_index a) levels)" "length (?s # \<sigma>) + length levels \<le> 3"
      using Cons.prems(3,4) by simp_all
    note ih = Cons.IH [OF inv c this]
    show ?thesis
    proof (cases "tree p r (rev \<sigma> @ map (pt_index a) (l # levels))")
      case None
      then show ?thesis using ih read True huge by (simp add: Let_def)
    next
      case (Some t')
      then obtain path where "unmap_walk p a levels (entry_frame ?e) = Ok (t', path)"
        "rev path @ up_chain (tree p r) (?s # \<sigma>) = up_chain (tree p r) (rev (map (pt_index a) levels) @ ?s # \<sigma>)"
        using ih by auto
      then show ?thesis using Some read True huge t c by (simp add: Let_def)
    qed
  qed
qed simp

section \<open>Unmapping a page\<close>

text \<open>\<open>removed p r a f q\<close>: from \<open>p\<close> to \<open>q\<close> the space \<open>r\<close> has lost the page \<open>a\<close>, whose frame \<open>f\<close> is free again, and nothing else.\<close>

definition removed :: "physical \<Rightarrow> nat \<Rightarrow> nat \<Rightarrow> nat \<Rightarrow> physical \<Rightarrow> bool" where
  "removed p r a f q \<longleftrightarrow> space_inv q r \<and> within (ran (tree p r)) p q \<and> f \<in> alloc_set p \<and> f \<notin> alloc_set q \<and>
     alloc_set q = alloc_set p - (ran (tree p r) - ran (tree q r)) \<and> tree q r \<subseteq>\<^sub>m tree p r \<and>
     (\<forall>\<rho>. length \<rho> = 4 \<longrightarrow> tree q r \<rho> = (if \<rho> = page_path a then None else tree p r \<rho>)) \<and>
     (\<forall>b. page_address b \<longrightarrow> page_view q r b = (if b = a then None else page_view p r b)) \<and>
     (\<forall>b e. page_address b \<longrightarrow> b \<noteq> a \<longrightarrow> page_view p r b = Some e \<longrightarrow> ph_words q (entry_frame e) = ph_words p (entry_frame e))"

lemma removedD:
  assumes "removed p r a f q"
  shows "space_inv q r" and "within (ran (tree p r)) p q" and "f \<in> alloc_set p" and "f \<notin> alloc_set q"
    and "alloc_set q = alloc_set p - (ran (tree p r) - ran (tree q r))" and "tree q r \<subseteq>\<^sub>m tree p r"
    and "\<And>\<rho>. length \<rho> = 4 \<Longrightarrow> tree q r \<rho> = (if \<rho> = page_path a then None else tree p r \<rho>)"
    and "\<And>b. page_address b \<Longrightarrow> page_view q r b = (if b = a then None else page_view p r b)"
    and "\<And>b e. page_address b \<Longrightarrow> b \<noteq> a \<Longrightarrow> page_view p r b = Some e \<Longrightarrow> ph_words q (entry_frame e) = ph_words p (entry_frame e)"
  using assms unfolding removed_def by blast+

lemma map_le_ran: "f \<subseteq>\<^sub>m g \<Longrightarrow> ran f \<subseteq> ran g"
  by (force simp: map_le_def ran_def dom_def)

lemma drop_page:
  assumes inv: "space_inv p r" and a: "page_address a" and e: "page_view p r a = Some e"
    and t: "tree p r (butlast (page_path a)) = Some t"
  obtains q where "ph_release (write_entry t (pt_index a 1) 0 p) (entry_frame e) = (Ok (), q)"
    "tree q r = (tree p r)(page_path a := None)" "removed p r a (entry_frame e) q"
proof -
  let ?w = "write_entry t (pt_index a 1) 0 p" and ?f = "entry_frame e"
  have path: "butlast (page_path a) @ [pt_index a 1] = page_path a" by (simp add: page_path_def)
  have v: "valid_path (butlast (page_path a) @ [pt_index a 1])" unfolding path by (rule page_path_valid [OF a])
  have c: "tree p r (page_path a) = Some ?f" using e by (rule page_view_Some) blast
  have leaf: "tree p r (butlast (page_path a) @ pt_index a 1 # i # \<tau>) = None" for i \<tau>
    by (simp add: tree_def valid_path_def page_path_def)
  note w = prune [OF inv t v leaf, unfolded path]
  have fa: "?f \<in> alloc_set p" using space_invD(3) [OF inv c] .
  then obtain q where q: "ph_release ?w ?f = (Ok (), q)" "alloc_set q = alloc_set ?w - {?f}" "ph_words q = ph_words ?w" "phys_ok q"
    using release_value [OF space_invD(1) [OF w(2)]] by (metis write_entry_simps(2))
  have cw: "tree ?w r \<rho> \<noteq> Some ?f" for \<rho> using w(1) space_invD(4) [OF inv c, of \<rho>] by (auto split: if_splits)
  note rel = released_space [OF w(2) cw q(2-4)]
  have tree: "tree q r = (tree p r)(page_path a := None)" using rel(1) w(1) by simp
  have ran: "ran (tree q r) = ran (tree p r) - {?f}"
    unfolding tree by (rule ran_without [where T = "tree p r", OF c space_invD(4) [OF inv _ c]])
  have win: "within (ran (tree p r)) p q" using q(2-4) t c by (auto simp: within_def ran_def)
  have view: "page_view q r b = (if b = a then None else page_view p r b)" if b: "page_address b" for b
  proof (cases "b = a")
    case False
    then have ne: "page_path b \<noteq> page_path a" using page_path_inj [OF b a] by blast
    have "butlast (page_path b) \<noteq> page_path a" by (simp add: page_path_def)
    then have same: "tree q r (page_path b) = tree p r (page_path b)"
      "tree q r (butlast (page_path b)) = tree p r (butlast (page_path b))" using tree ne by simp_all
    have "ph_words q c' (pt_index b 1) = ph_words p c' (pt_index b 1)" if c': "tree p r (butlast (page_path b)) = Some c'" for c'
    proof (cases "c' = t")
      case True
      then have "butlast (page_path b) = butlast (page_path a)" using space_invD(4) [OF inv c'] t by simp
      then have "pt_index b 1 \<noteq> pt_index a 1" using ne page_path_split by metis
      then show ?thesis using q(3) by simp
    qed (use q(3) in simp)
    then have "map_option (\<lambda>t. ph_words q t (pt_index b 1)) (tree p r (butlast (page_path b))) =
        map_option (\<lambda>t. ph_words p t (pt_index b 1)) (tree p r (butlast (page_path b)))"
      by (cases "tree p r (butlast (page_path b))") simp_all
    then show ?thesis unfolding page_view_def same using False by (cases "tree p r (page_path b)") simp_all
  qed (simp add: page_view_None tree)
  have "ph_words q (entry_frame e') = ph_words p (entry_frame e')" if e': "page_view p r b = Some e'" for b e'
  proof -
    have pt: "tree p r (page_path b) = Some (entry_frame e')" using e' by (rule page_view_Some) blast
    have "entry_frame e' \<noteq> t"
    proof
      assume "entry_frame e' = t"
      then have "page_path b = butlast (page_path a)" using space_invD(4) [OF inv pt] t by simp
      then show False by (simp add: page_path_def)
    qed
    then show ?thesis using q(3) by simp
  qed
  then have words: "\<forall>b e'. page_view p r b = Some e' \<longrightarrow> ph_words q (entry_frame e') = ph_words p (entry_frame e')" by blast
  have "?f \<in> ran (tree p r)" using c by (rule ranI)
  then have al: "alloc_set q = alloc_set p - (ran (tree p r) - ran (tree q r))" "?f \<notin> alloc_set q" using q(2) ran by auto
  have le: "tree q r \<subseteq>\<^sub>m tree p r" unfolding tree by (auto simp: map_le_def)
  have "removed p r a ?f q"
    unfolding removed_def using rel(2) win fa al le view words by (auto simp: tree)
  then show ?thesis using that q(1) tree by blast
qed

lemma removed_shrunk:
  assumes pq: "removed p r a f q" and qu: "shrunk q r u"
  shows "removed p r a f u"
proof -
  note r = removedD(2-5,7-) [OF pq] and le = removedD(6) [OF pq]
  have rq: "ran (tree q r) \<subseteq> ran (tree p r)" by (rule map_le_ran [OF le])
  note sub = shrunk_ran [OF qu] and al = shrunkD(6) [OF qu]
  have w: "within (ran (tree p r)) p u" by (rule within_trans [OF r(1) shrunkD(2) [OF qu]]) (use rq in blast)
  have a: "alloc_set u = alloc_set p - (ran (tree p r) - ran (tree u r))" "f \<notin> alloc_set u" using r(3,4) rq sub al by blast+
  have m: "tree u r \<subseteq>\<^sub>m tree p r" using le qu unfolding shrunk_def by (meson map_le_trans)
  have four: "tree u r \<rho> = (if \<rho> = page_path a then None else tree p r \<rho>)" if "length \<rho> = 4" for \<rho>
    using shrunkD(4) [OF qu that] r(5) [OF that] by simp
  have view: "page_view u r b = (if b = a then None else page_view p r b)" if "page_address b" for b
    using shrunk_page_view [OF qu] r(6) [OF that] by simp
  have words: "ph_words u (entry_frame e) = ph_words p (entry_frame e)"
    if b: "page_address b" "b \<noteq> a" "page_view p r b = Some e" for b e
  proof -
    have "page_view u r b = Some e" using view b by simp
    then have "tree u r (page_path b) = Some (entry_frame e)" by (rule page_view_Some) blast
    then have "ph_words u (entry_frame e) = ph_words q (entry_frame e)"
      using shrunkD(5) [OF qu] by (simp add: page_path_def)
    then show ?thesis using r(7) [OF b] by simp
  qed
  show ?thesis unfolding removed_def using shrunkD(1) [OF qu] w r(2) a m four view words by blast
qed

lemma unmap_cases:
  assumes inv: "space_inv p (as_root s)" and a: "page_address (virtual_page_address page)"
  obtains (absent) "page_view p (as_root s) (virtual_page_address page) = None" "as_unmap s page p = (Err MemNotMapped, p)"
  | (removed) e q where "page_view p (as_root s) (virtual_page_address page) = Some e" "as_unmap s page p = (Ok (), q)"
      "removed p (as_root s) (virtual_page_address page) (entry_frame e) q" "tight p (as_root s) \<longrightarrow> tight q (as_root s)"
proof -
  let ?r = "as_root s" and ?a = "virtual_page_address page"
  let ?up = "butlast (page_path ?a)" and ?i = "pt_index ?a 1"
  have r: "?r \<noteq> 0" by (rule space_invD(2) [OF inv])
  have path: "map (pt_index ?a) [4, 3, 2] = ?up" "?up @ [?i] = page_path ?a" by (simp_all add: page_path_def)
  have vp: "valid_path ?up" using valid_path_prefix [of ?up "[?i]"] page_path_valid [OF a] path(2) by simp
  have walk: "case tree p ?r ?up of None \<Rightarrow> unmap_walk p ?a [4, 3, 2] ?r = Err MemNotMapped
      | Some t \<Rightarrow> \<exists>w. unmap_walk p ?a [4, 3, 2] ?r = Ok (t, w) \<and> rev w = up_chain (tree p ?r) (rev ?up)"
    using unmap_walk_value [OF inv, of "[]" ?r ?a "[4, 3, 2]"] vp unfolding path(1) by (simp split: option.splits)
  show ?thesis
  proof (cases "tree p ?r ?up")
    case None
    then have "tree p ?r (page_path ?a) = None" using tree_beyond [OF None, of "[?i]"] path(2) by simp
    then show ?thesis using absent walk None r by (simp add: page_view_None as_unmap_def)
  next
    case (Some t)
    then obtain w where w: "unmap_walk p ?a [4, 3, 2] ?r = Ok (t, w)" "rev w = up_chain (tree p ?r) (rev ?up)"
      using walk by auto
    have ta: "t \<in> alloc_set p" and ok: "phys_ok p" using space_invD(1,3) [OF inv] Some by auto
    have read: "ph_read p t ?i = Ok (ph_words p t ?i)" by (rule ph_read_value [OF ok ta pt_index_less])
    have leaf: "tree p ?r (page_path ?a) = child_of (ph_words p) t ?i"
      using tree_snoc [of p ?r ?up ?i] Some page_path_valid [OF a] unfolding path(2) by simp
    show ?thesis
    proof (cases "entry_present (ph_words p t ?i)")
      case False
      then show ?thesis using absent leaf w(1) read r by (simp add: page_view_None child_of_def as_unmap_def Let_def)
    next
      case True
      let ?e = "ph_words p t ?i"
      have e: "page_view p ?r ?a = Some ?e" using leaf True Some by (simp add: page_view_def child_of_def)
      obtain q where q: "ph_release (write_entry t ?i 0 p) (entry_frame ?e) = (Ok (), q)"
        "tree q ?r = (tree p ?r)(page_path ?a := None)" "removed p ?r ?a (entry_frame ?e) q"
        by (rule drop_page [OF inv a e Some])
      have wr: "ph_write p t ?i 0 = (Ok (), write_entry t ?i 0 p)" by (rule ph_write_value [OF ok ta pt_index_less])
      have up: "up_chain (tree q ?r) (rev ?up) = up_chain (tree p ?r) (rev ?up)"
        by (rule up_chain_same) (use q(2) in \<open>auto simp: page_path_def\<close>)
      have "tree q ?r (rev (rev ?up)) \<noteq> None" "length (rev ?up) \<le> 3" using q(2) Some by (simp_all add: page_path_def)
      then obtain u where u: "free_empty (up_chain (tree q ?r) (rev ?up)) q = (Ok (), u)" "shrunk q ?r u"
          "tight_but q ?r ?up \<longrightarrow> tight u ?r"
        using free_empty_value [of q ?r "rev ?up"] removedD(1) [OF q(3)] by auto
      have "tight_but p ?r (?up @ [?i])" if "tight p ?r" using that unfolding tight_but_def tight_def by blast
      then have tight: "tight p ?r \<longrightarrow> tight u ?r" using tight_but_less [of p ?r ?up ?i q] q(2) u(3) unfolding path(2) by blast
      have "as_unmap s page p = (Ok (), u)"
        using r w read True wr q(1) u(1) up by (simp add: as_unmap_def Let_def)
      then show ?thesis using removed [OF e] removed_shrunk [OF q(3) u(2)] tight by blast
    qed
  qed
qed

end
