(* ===== verification/Page_Destroy.thy ===== *)
theory Page_Destroy
  imports Page_Unmap
begin

unbundle bit_operations_syntax

text \<open>
  The ends of an address space: \<open>child\<close> makes an empty one under the upper half of the kernel, \<open>destroy\<close> gives
  back every frame of one, and those only.
\<close>

section \<open>Creation\<close>

lemma alloc_set_nonzero:
  assumes "phys_ok p" and "f \<in> alloc_set p"
  shows "f \<noteq> 0"
proof -
  have inv: "frames_inv (ph_frames p)" using assms(1) by (simp add: phys_ok_def)
  obtain i where i: "i \<in> marked (fr_allocated (ph_frames p))" "f = i * page_size"
    using assms(2) is_allocated_iff [OF inv] by (auto simp: alloc_set_def)
  then have "i \<in> marked (fr_managed (ph_frames p))" using frames_invD(3) [OF inv] by blast
  then have "i \<noteq> 0" using assms(1) unfolding phys_ok_def by metis
  then show ?thesis using i(2) by simp
qed

text \<open>An address space has its root only as long as the lower half of the root is absent.\<close>

definition bare :: "physical \<Rightarrow> nat \<Rightarrow> bool" where
  "bare p c \<longleftrightarrow> phys_ok p \<and> c \<in> alloc_set p \<and> (\<forall>i<256. ph_words p c i = 0)"

lemma bare_space:
  assumes "bare p c"
  shows "tree p c = [[] \<mapsto> c]" and "space_inv p c" and "page_view p c a = None"
proof -
  have zero: "ph_words p c i = 0" if "i < 256" for i using assms that by (simp add: bare_def)
  have none: "tree p c (s # \<pi>) = None" for s \<pi>
  proof -
    have "tree p c ([] @ [s]) = None"
      using zero [of s] tree_snoc [of p c "[]" s] by (simp add: child_of_def entry_bits valid_path_def split: if_splits)
    then show ?thesis using tree_beyond [of p c "[s]" \<pi>] by simp
  qed
  show t: "tree p c = [[] \<mapsto> c]"
  proof
    fix \<pi>
    show "tree p c \<pi> = [[] \<mapsto> c] \<pi>" using none by (cases \<pi>) simp_all
  qed
  have "c \<noteq> 0" using assms alloc_set_nonzero [of p c] by (simp add: bare_def)
  then show "space_inv p c"
    unfolding space_inv_def t using assms zero by (auto simp: bare_def entry_ok_def entry_bits valid_path_def split: if_splits)
  show "page_view p c a = None" by (simp add: page_view_None t page_path_def)
qed

lemma copy_upper_value:
  assumes "phys_ok p" and "c \<in> alloc_set p" and "k \<in> alloc_set p" and "c \<noteq> k" and "\<forall>i\<in>set is. i < 512"
  shows "\<exists>q. copy_upper c k is p = (Ok (), q) \<and> ph_frames q = ph_frames p \<and>
    ph_words q = (ph_words p)(c := (\<lambda>i. if i \<in> set is then ph_words p k i else ph_words p c i))"
  using assms
proof (induction "is" arbitrary: p)
  case Nil
  then show ?case by simp
next
  case (Cons i "is")
  let ?w = "write_entry c i (ph_words p k i) p"
  have "ph_read p k i = Ok (ph_words p k i)" "ph_write p c i (ph_words p k i) = (Ok (), ?w)"
    using Cons.prems by (simp_all add: ph_read_value ph_write_value)
  moreover obtain q where "copy_upper c k is ?w = (Ok (), q)" "ph_frames q = ph_frames ?w"
    "ph_words q = (ph_words ?w)(c := (\<lambda>i. if i \<in> set is then ph_words ?w k i else ph_words ?w c i))"
  proof -
    have "phys_ok ?w" "c \<in> alloc_set ?w" "k \<in> alloc_set ?w" "\<forall>i\<in>set is. i < 512" using Cons.prems by simp_all
    then show ?thesis using that Cons.IH [of ?w] Cons.prems(4) by blast
  qed
  ultimately show ?case using Cons.prems(4) by (auto simp: fun_eq_iff)
qed

text \<open>\<open>born p k c q\<close>: the frame \<open>c\<close> has become the root of an empty space whose upper half is that of \<open>k\<close>.\<close>

definition born :: "physical \<Rightarrow> nat \<Rightarrow> nat \<Rightarrow> physical \<Rightarrow> bool" where
  "born p k c q \<longleftrightarrow> c \<notin> alloc_set p \<and> alloc_set q = insert c (alloc_set p) \<and> bare q c \<and>
     (\<forall>i. 256 \<le> i \<longrightarrow> i < 512 \<longrightarrow> ph_words q c i = ph_words p k i) \<and> (\<forall>f. f \<noteq> c \<longrightarrow> ph_words q f = ph_words p f)"

lemma child_cases:
  assumes ok: "phys_ok p" and k: "as_kernel s" "as_root s \<in> alloc_set p"
  obtains (exhausted) "as_child s p = (Err (MemFrames FrExhausted), p)" "free_frames p = 0"
  | (born) c q where "as_child s p = (Ok \<lparr>as_root = c, as_kernel = False\<rparr>, q)" "born p (as_root s) c q"
      "free_frames p = Suc (free_frames q)"
proof -
  from ok show ?thesis
  proof (cases rule: allocate_cases)
    case none
    then show ?thesis using exhausted k(1) by (simp add: as_child_def)
  next
    case (some c u)
    have ck: "c \<noteq> as_root s" using some(2) k(2) by blast
    have upper: "i \<in> set [256..<512] \<longleftrightarrow> 256 \<le> i \<and> i < 512" for i :: nat by (simp only: set_upt atLeastLessThan_iff)
    have "c \<in> alloc_set u" "as_root s \<in> alloc_set u" using some(3) k(2) by simp_all
    moreover have "\<forall>i\<in>set [256..<512]. i < (512::nat)" using upper by blast
    ultimately obtain q where q: "copy_upper c (as_root s) [256..<512] u = (Ok (), q)" "ph_frames q = ph_frames u"
      "ph_words q = (ph_words u)(c := (\<lambda>i. if i \<in> set [256..<512] then ph_words u (as_root s) i else ph_words u c i))"
      using copy_upper_value [OF some(5) _ _ ck] by blast
    have "phys_ok q" "alloc_set q = insert c (alloc_set p)"
      using q(2) some(3,5) by (simp_all add: phys_ok_def alloc_set_def)
    then have "born p (as_root s) c q"
      unfolding born_def bare_def using some(2,4) ck q(3) [unfolded upper] by auto
    moreover have "free_frames p = Suc (free_frames q)" using some(7) q(2) by (simp add: free_frames_def)
    ultimately show ?thesis using born k(1) some(1) q(1) by (simp add: as_child_def)
  qed
qed

section \<open>Destruction\<close>

definition below :: "physical \<Rightarrow> nat \<Rightarrow> nat list \<Rightarrow> nat list \<Rightarrow> nat set" where
  "below p r \<pi> is = {f. \<exists>s\<in>set is. \<exists>\<tau>. tree p r (\<pi> @ s # \<tau>) = Some f}"

lemma below_Nil [simp]: "below p r \<pi> [] = {}"
  by (simp add: below_def)

lemma below_Cons: "below p r \<pi> (i # is) = below p r \<pi> [i] \<union> below p r \<pi> is"
  by (auto simp: below_def)

lemma below_absent: "tree p r (\<pi> @ [i]) = None \<Longrightarrow> below p r \<pi> [i] = {}"
  using tree_beyond [of p r "\<pi> @ [i]"] by (auto simp: below_def)

lemma below_present:
  assumes "tree p r (\<pi> @ [i]) = Some c"
  shows "below p r \<pi> [i] = insert c (below p r (\<pi> @ [i]) [0..<512])"
proof
  show "below p r \<pi> [i] \<subseteq> insert c (below p r (\<pi> @ [i]) [0..<512])"
  proof
    fix f
    assume "f \<in> below p r \<pi> [i]"
    then obtain \<tau> where t: "tree p r (\<pi> @ i # \<tau>) = Some f" by (auto simp: below_def)
    show "f \<in> insert c (below p r (\<pi> @ [i]) [0..<512])"
    proof (cases \<tau>)
      case Nil
      then show ?thesis using t assms by simp
    next
      case (Cons s \<sigma>)
      have "s < 512" using tree_valid [OF t] Cons by (simp add: valid_path_def)
      then show ?thesis using t Cons by (auto simp: below_def)
    qed
  qed
  show "insert c (below p r (\<pi> @ [i]) [0..<512]) \<subseteq> below p r \<pi> [i]"
    using assms by (auto simp: below_def)
qed

lemma below_disjoint:
  assumes "space_inv p r" and "i \<notin> set is"
  shows "below p r \<pi> [i] \<inter> below p r \<pi> is = {}"
proof -
  have False if f: "f \<in> below p r \<pi> [i]" "f \<in> below p r \<pi> is" for f
  proof -
    obtain \<tau> s \<sigma> where "tree p r (\<pi> @ i # \<tau>) = Some f" "s \<in> set is" "tree p r (\<pi> @ s # \<sigma>) = Some f"
      using f by (auto simp: below_def)
    then show False using space_invD(4) [OF assms(1), of "\<pi> @ i # \<tau>" f "\<pi> @ s # \<sigma>"] assms(2) by auto
  qed
  then show ?thesis by blast
qed

lemma below_not_self:
  assumes "space_inv p r" and "tree p r \<pi> = Some t"
  shows "t \<notin> below p r \<pi> is"
proof
  assume "t \<in> below p r \<pi> is"
  then obtain s \<tau> where "tree p r (\<pi> @ s # \<tau>) = Some t" by (auto simp: below_def)
  then show False using space_invD(4) [OF assms(1) assms(2)] by auto
qed

text \<open>\<open>freed A p q\<close>: from \<open>p\<close> to \<open>q\<close> the frames \<open>A\<close> have been released and no word has been written.\<close>

definition freed :: "nat set \<Rightarrow> physical \<Rightarrow> physical \<Rightarrow> bool" where
  "freed A p q \<longleftrightarrow> phys_ok q \<and> ph_words q = ph_words p \<and> alloc_set q = alloc_set p - A"

lemma freed_trans: "freed A p q \<Longrightarrow> freed B q u \<Longrightarrow> freed (A \<union> B) p u"
  by (auto simp: freed_def)

lemma release_freed:
  assumes "phys_ok p" and "f \<in> alloc_set p"
  obtains q where "ph_release p f = (Ok (), q)" "freed {f} p q"
  using release_value [OF assms] by (metis freed_def)

lemma release_slots_value:
  assumes inv: "space_inv p r" and "tree p r \<pi> = Some t" and "length \<pi> + l = 4" and "distinct is"
    and "\<And>s. s \<in> set is \<Longrightarrow> valid_path (\<pi> @ [s])" and "phys_ok q" and "ph_words q = ph_words p"
    and "insert t (below p r \<pi> is) \<subseteq> alloc_set q"
  shows "\<exists>q'. release_slots t l is q = (Ok (), q') \<and> freed (below p r \<pi> is) q q'"
  using assms(2-)
proof (induction l arbitrary: \<pi> t "is" q)
  case 0
  then have "\<not> valid_path (\<pi> @ [s])" for s by (simp add: valid_path_snoc)
  then have "is = []" using 0(4) by (cases "is") auto
  then show ?case using 0(5) by (simp add: freed_def)
next
  case (Suc l)
  note t = Suc.prems(1)
  have len: "length \<pi> + l = 3" using Suc.prems(2) by simp
  show ?case using Suc.prems(3-)
  proof (induction "is" arbitrary: q)
    case Nil
    then show ?case by (simp add: freed_def)
  next
    case (Cons i "is")
    let ?e = "ph_words p t i"
    have v: "valid_path (\<pi> @ [i])" using Cons.prems(2) by simp
    have i: "i < 512" using v by (simp add: valid_path_snoc)
    have split: "below p r \<pi> (i # is) = below p r \<pi> [i] \<union> below p r \<pi> is" by (rule below_Cons)
    have dj: "below p r \<pi> [i] \<inter> below p r \<pi> is = {}" by (rule below_disjoint [OF inv]) (use Cons.prems(1) in simp)
    have self: "t \<notin> below p r \<pi> [i]" by (rule below_not_self [OF inv t])
    have read: "ph_read q t i = Ok ?e" using ph_read_value [OF Cons.prems(3) _ i] Cons.prems(4,5) by simp
    let ?act = "if \<not> entry_present ?e then (Ok (), q)
           else if l = 0 then ph_release q (entry_frame ?e)
           else if l < 3 \<and> entry_huge ?e then (Err MemCorruptTable, q)
           else (case release_slots (entry_frame ?e) l [0..<512] q of (r, p) \<Rightarrow> or_return r p (\<lambda>_.
                   ph_release p (entry_frame ?e)))"
    have "\<exists>u. ?act = (Ok (), u) \<and> freed (below p r \<pi> [i]) q u"
    proof (cases "entry_present ?e")
      case False
      then have "tree p r (\<pi> @ [i]) = None" using t v by (simp add: tree_snoc child_of_def)
      then show ?thesis using False Cons.prems(3) below_absent by (simp add: freed_def)
    next
      case True
      let ?c = "entry_frame ?e"
      have c: "tree p r (\<pi> @ [i]) = Some ?c" using t v True by (simp add: tree_snoc child_of_def)
      note b = below_present [OF c]
      have sub: "insert ?c (below p r (\<pi> @ [i]) [0..<512]) \<subseteq> alloc_set q" using Cons.prems(5) b split by blast
      have vs: "valid_path ((\<pi> @ [i]) @ [s])" if "s \<in> set [0..<512]" "l \<noteq> 0" for s
        unfolding valid_path_snoc [of "\<pi> @ [i]" s] using v that len by simp
      show ?thesis
      proof (cases "l = 0")
        case l: True
        have "below p r (\<pi> @ [i]) [0..<512] = {}"
          using len l tree_valid [of p r] by (fastforce simp: below_def valid_path_def)
        moreover obtain u where "ph_release q ?c = (Ok (), u)" "freed {?c} q u"
          by (rule release_freed [OF Cons.prems(3)]) (use sub in auto)
        ultimately show ?thesis using l True b by simp
      next
        case l: False
        have "length \<pi> < 3" using len l by simp
        then have huge: "\<not> entry_huge ?e" using space_invD(5) [OF inv t v] True by (simp add: entry_ok_def)
        have "length (\<pi> @ [i]) + l = 4" using len by simp
        then obtain u where u: "release_slots ?c l [0..<512] q = (Ok (), u)" "freed (below p r (\<pi> @ [i]) [0..<512]) q u"
          using Suc.IH [OF c _ _ vs Cons.prems(3,4) sub] l by auto
        have "?c \<in> alloc_set u" "phys_ok u"
          using u(2) sub below_not_self [OF inv c] by (auto simp: freed_def)
        then obtain w where w: "ph_release u ?c = (Ok (), w)" "freed {?c} u w" using release_freed by blast
        have "freed (below p r \<pi> [i]) q w" unfolding b using freed_trans [OF u(2) w(2)] by (simp add: Un_commute)
        then show ?thesis using True l huge u(1) w(1) by simp
      qed
    qed
    then obtain u where u: "?act = (Ok (), u)" "freed (below p r \<pi> [i]) q u" by blast
    have n: "phys_ok u" "ph_words u = ph_words p" "insert t (below p r \<pi> is) \<subseteq> alloc_set u"
      using u(2) Cons.prems(4,5) split dj self by (auto simp: freed_def)
    have "distinct is" "\<And>s. s \<in> set is \<Longrightarrow> valid_path (\<pi> @ [s])" using Cons.prems(1,2) by simp_all
    then obtain w where w: "release_slots t (Suc l) is u = (Ok (), w)" "freed (below p r \<pi> is) u w"
      using Cons.IH [OF _ _ n] by blast
    have "release_slots t (Suc l) (i # is) q = (Ok (), w)"
      unfolding release_slots.simps read or_return.simps u(1) using w(1) by simp
    then show ?case using freed_trans [OF u(2) w(2)] split by auto
  qed
qed

lemma below_root: "insert r (below p r [] [0..<256]) = ran (tree p r)"
proof
  show "insert r (below p r [] [0..<256]) \<subseteq> ran (tree p r)" by (auto simp: below_def ran_def intro: exI [of _ "[]"])
  show "ran (tree p r) \<subseteq> insert r (below p r [] [0..<256])"
  proof
    fix f
    assume "f \<in> ran (tree p r)"
    then obtain \<pi> where \<pi>: "tree p r \<pi> = Some f" by (auto simp: ran_def)
    show "f \<in> insert r (below p r [] [0..<256])"
    proof (cases \<pi>)
      case Nil
      then show ?thesis using \<pi> by simp
    next
      case (Cons s \<tau>)
      then have "s < 256" using tree_valid [OF \<pi>] by (simp add: valid_path_def)
      then show ?thesis using \<pi> Cons by (auto simp: below_def)
    qed
  qed
qed

lemma destroy_value:
  assumes inv: "space_inv p (as_root s)" and s: "\<not> as_kernel s" "as_root s \<noteq> active"
  obtains q where "as_destroy active s p = (Ok (), s\<lparr>as_root := 0\<rparr>, q)" "freed (ran (tree p (as_root s))) p q"
proof -
  let ?r = "as_root s"
  have sub: "insert ?r (below p ?r [] [0..<256]) \<subseteq> alloc_set p"
    unfolding below_root using space_invD(3) [OF inv] by (auto simp: ran_def)
  have "valid_path ([] @ [i])" if "i \<in> set [0..<256]" for i using that by (simp add: valid_path_def)
  then obtain u where u: "release_slots ?r 4 [0..<256] p = (Ok (), u)" "freed (below p ?r [] [0..<256]) p u"
    using release_slots_value [OF inv tree_root, of 4 "[0..<256]" p] space_invD(1) [OF inv] sub by auto
  have "phys_ok u" "?r \<in> alloc_set u"
    using u(2) sub below_not_self [OF inv tree_root, of "[0..<256]"] by (auto simp: freed_def)
  then obtain q where q: "ph_release u ?r = (Ok (), q)" "freed {?r} u q" using release_freed by blast
  have "freed (ran (tree p ?r)) p q"
    using freed_trans [OF u(2) q(2)] below_root [of ?r p] by (simp add: Un_commute)
  then show ?thesis using that s space_invD(2) [OF inv] u(1) q(1) by (simp add: as_destroy_def)
qed

end
