(* ===== verification/User_Pages.thy ===== *)
theory User_Pages
  imports User_Memory Page_Destroy
begin

unbundle bit_operations_syntax

text \<open>
  Runs of pages. \<open>mapped_set\<close> and \<open>unmapped_set\<close> say what mapping and unmapping a set of pages does to an
  address space; unmapping what has just been mapped gives the same space (\<open>same_space\<close>), which is what
  \<open>map_user_pages\<close> promises when it fails.
\<close>

section \<open>Sets of pages\<close>

definition mapped_set :: "physical \<Rightarrow> nat \<Rightarrow> nat set \<Rightarrow> page_permissions \<Rightarrow> physical \<Rightarrow> bool" where
  "mapped_set p r S pm q \<longleftrightarrow> space_inv q r \<and> within (ran (tree p r)) p q \<and>
     alloc_set q = alloc_set p \<union> ran (tree q r) \<and> ran (tree q r) \<inter> alloc_set p = ran (tree p r) \<and>
     tree p r \<subseteq>\<^sub>m tree q r \<and> tight q r \<and>
     (\<forall>\<rho>. length \<rho> = 4 \<longrightarrow> \<rho> \<notin> page_path ` S \<longrightarrow> tree q r \<rho> = tree p r \<rho>) \<and>
     (\<forall>b\<in>S. page_address b \<and> page_view p r b = None \<and>
        (\<exists>f. f \<notin> alloc_set p \<and> page_view q r b = Some (leaf_entry f pm) \<and> ph_words q f = (\<lambda>_. 0) \<and> frame_address f)) \<and>
     (\<forall>b. page_address b \<longrightarrow> b \<notin> S \<longrightarrow> page_view q r b = page_view p r b) \<and>
     (\<forall>b e. page_address b \<longrightarrow> page_view p r b = Some e \<longrightarrow> ph_words q (entry_frame e) = ph_words p (entry_frame e))"

lemma mapped_setD:
  assumes "mapped_set p r S pm q"
  shows "space_inv q r" and "within (ran (tree p r)) p q" and "alloc_set q = alloc_set p \<union> ran (tree q r)"
    and "ran (tree q r) \<inter> alloc_set p = ran (tree p r)" and "tree p r \<subseteq>\<^sub>m tree q r" and "tight q r"
    and "\<And>\<rho>. length \<rho> = 4 \<Longrightarrow> \<rho> \<notin> page_path ` S \<Longrightarrow> tree q r \<rho> = tree p r \<rho>"
    and "\<And>b. b \<in> S \<Longrightarrow> page_address b \<and> page_view p r b = None"
    and "\<And>b. b \<in> S \<Longrightarrow> \<exists>f. f \<notin> alloc_set p \<and> page_view q r b = Some (leaf_entry f pm) \<and> ph_words q f = (\<lambda>_. 0) \<and> frame_address f"
    and "\<And>b. page_address b \<Longrightarrow> b \<notin> S \<Longrightarrow> page_view q r b = page_view p r b"
    and "\<And>b e. page_address b \<Longrightarrow> page_view p r b = Some e \<Longrightarrow> ph_words q (entry_frame e) = ph_words p (entry_frame e)"
  using assms unfolding mapped_set_def by blast+

lemma mapped_set_empty: "space_inv p r \<Longrightarrow> tight p r \<Longrightarrow> mapped_set p r {} pm p"
  using space_invD(1,3) [of p r] by (auto simp: mapped_set_def within_refl ran_def)

lemma mapped_set_insert:
  assumes m: "mapped_set p r S pm q" and i: "inserted q r a f pm u" and a: "page_address a" "page_view q r a = None"
    and pv: "space_inv p r"
  shows "mapped_set p r (insert a S) pm u"
proof -
  note M = mapped_setD [OF m] and I = insertedD [OF i]
  have sub: "ran (tree q r) \<inter> alloc_set p \<subseteq> ran (tree p r)" using M(4) by blast
  have w: "within (ran (tree p r)) p u" by (rule within_trans [OF M(2) I(2) sub])
  have al: "alloc_set u = alloc_set p \<union> ran (tree u r)" using I(5,6) M(3) by blast
  have ran: "ran (tree u r) \<inter> alloc_set p = ran (tree p r)" using I(6) M(3,4) by blast
  have le: "tree p r \<subseteq>\<^sub>m tree u r" using M(5) I(7) by (meson map_le_trans)
  have four: "tree u r \<rho> = tree p r \<rho>" if "length \<rho> = 4" "\<rho> \<notin> page_path ` insert a S" for \<rho>
    using I(9) [OF that(1)] M(7) [OF that(1)] that(2) by auto
  have aS: "a \<notin> S" using M(9) [of a] a(2) by auto
  have fp: "f \<notin> alloc_set p" using I(3) M(3) by blast
  have fa: "frame_address f"
  proof -
    have "page_view u r a = Some (leaf_entry f pm)" using I(10) [OF a(1)] by simp
    then have "f \<in> alloc_set u" using I(9) [of "page_path a"] space_invD(3) [OF I(1), of "page_path a" f] by (simp add: page_path_def)
    then show ?thesis using alloc_set_frame(1) [OF space_invD(1) [OF I(1)]] by blast
  qed
  have new: "page_address b \<and> page_view p r b = None \<and>
      (\<exists>f. f \<notin> alloc_set p \<and> page_view u r b = Some (leaf_entry f pm) \<and> ph_words u f = (\<lambda>_. 0) \<and> frame_address f)"
    if b: "b \<in> insert a S" for b
  proof (cases "b = a")
    case True
    then show ?thesis using a I(4) I(10) [OF a(1)] M(10) [OF a(1) aS] fp fa by auto
  next
    case False
    then have bS: "b \<in> S" using b by simp
    obtain g where g: "g \<notin> alloc_set p" "page_view q r b = Some (leaf_entry g pm)" "ph_words q g = (\<lambda>_. 0)" "frame_address g"
      using M(9) [OF bS] by blast
    have "ph_words u g = ph_words q g" using I(11) [OF g(2)] leaf_entry_simps(2) [OF g(4)] by simp
    then show ?thesis using M(8) [OF bS] g I(10) [of b] False by auto
  qed
  have view: "page_view u r b = page_view p r b" if "page_address b" "b \<notin> insert a S" for b
    using I(10) [OF that(1)] M(10) [OF that(1)] that(2) by simp
  have words: "ph_words u (entry_frame e) = ph_words p (entry_frame e)" if b: "page_address b" "page_view p r b = Some e" for b e
  proof -
    have "b \<notin> S" using M(8) [of b] b(2) by auto
    then have "page_view q r b = Some e" using M(10) [OF b(1)] b(2) by simp
    then show ?thesis using I(11) M(11) [OF b] by simp
  qed
  have tight: "tight u r" using I(8) M(6) by blast
  show ?thesis unfolding mapped_set_def
  proof (intro conjI)
    show "\<forall>b\<in>insert a S. page_address b \<and> page_view p r b = None \<and>
      (\<exists>f. f \<notin> alloc_set p \<and> page_view u r b = Some (leaf_entry f pm) \<and> ph_words u f = (\<lambda>_. 0) \<and> frame_address f)"
      using new by (rule ballI)
  qed (use I(1) w al ran le tight four view words in blast)+
qed

definition unmapped_set :: "physical \<Rightarrow> nat \<Rightarrow> nat set \<Rightarrow> physical \<Rightarrow> bool" where
  "unmapped_set p r S q \<longleftrightarrow> space_inv q r \<and> within (ran (tree p r)) p q \<and>
     alloc_set q = alloc_set p - (ran (tree p r) - ran (tree q r)) \<and> tree q r \<subseteq>\<^sub>m tree p r \<and> tight q r \<and>
     (\<forall>\<rho>. length \<rho> = 4 \<longrightarrow> tree q r \<rho> = (if \<rho> \<in> page_path ` S then None else tree p r \<rho>)) \<and>
     (\<forall>b. page_address b \<longrightarrow> page_view q r b = (if b \<in> S then None else page_view p r b)) \<and>
     (\<forall>b e. page_address b \<longrightarrow> b \<notin> S \<longrightarrow> page_view p r b = Some e \<longrightarrow> ph_words q (entry_frame e) = ph_words p (entry_frame e))"

lemma unmapped_setD:
  assumes "unmapped_set p r S q"
  shows "space_inv q r" and "within (ran (tree p r)) p q" and "alloc_set q = alloc_set p - (ran (tree p r) - ran (tree q r))"
    and "tree q r \<subseteq>\<^sub>m tree p r" and "tight q r"
    and "\<And>\<rho>. length \<rho> = 4 \<Longrightarrow> tree q r \<rho> = (if \<rho> \<in> page_path ` S then None else tree p r \<rho>)"
    and "\<And>b. page_address b \<Longrightarrow> page_view q r b = (if b \<in> S then None else page_view p r b)"
    and "\<And>b e. page_address b \<Longrightarrow> b \<notin> S \<Longrightarrow> page_view p r b = Some e \<Longrightarrow> ph_words q (entry_frame e) = ph_words p (entry_frame e)"
  using assms unfolding unmapped_set_def by blast+

lemma unmapped_set_empty: "space_inv p r \<Longrightarrow> tight p r \<Longrightarrow> unmapped_set p r {} p"
  using space_invD(1) [of p r] by (auto simp: unmapped_set_def within_refl)

lemma unmapped_set_insert:
  assumes m: "unmapped_set p r S q" and i: "removed q r a f u" and t: "tight q r \<longrightarrow> tight u r"
  shows "unmapped_set p r (insert a S) u"
proof -
  note M = unmapped_setD [OF m] and I = removedD [OF i]
  note rq = map_le_ran [OF M(4)] and ru = map_le_ran [OF I(6)]
  have w: "within (ran (tree p r)) p u" by (rule within_trans [OF M(2) I(2)]) (use rq in blast)
  have al: "alloc_set u = alloc_set p - (ran (tree p r) - ran (tree u r))" using M(3) I(5) rq ru by blast
  have le: "tree u r \<subseteq>\<^sub>m tree p r" using M(4) I(6) by (meson map_le_trans)
  have four: "tree u r \<rho> = (if \<rho> \<in> page_path ` insert a S then None else tree p r \<rho>)" if "length \<rho> = 4" for \<rho>
    using I(7) [OF that] M(6) [OF that] by auto
  have view: "page_view u r b = (if b \<in> insert a S then None else page_view p r b)" if "page_address b" for b
    using I(8) [OF that] M(7) [OF that] by auto
  have words: "ph_words u (entry_frame e) = ph_words p (entry_frame e)"
    if b: "page_address b" "b \<notin> insert a S" "page_view p r b = Some e" for b e
  proof -
    have "page_view q r b = Some e" using M(7) [OF b(1)] b(2,3) by simp
    then show ?thesis using I(9) [OF b(1)] M(8) [OF b(1)] b(2,3) by simp
  qed
  show ?thesis unfolding unmapped_set_def using I(1) t M(5) w al le four view words by blast
qed

definition same_space :: "physical \<Rightarrow> nat \<Rightarrow> physical \<Rightarrow> bool" where
  "same_space p r q \<longleftrightarrow> space_inv q r \<and> within (ran (tree p r)) p q \<and> tree q r = tree p r \<and> alloc_set q = alloc_set p \<and>
     (\<forall>b. page_address b \<longrightarrow> page_view q r b = page_view p r b) \<and>
     (\<forall>b e. page_address b \<longrightarrow> page_view p r b = Some e \<longrightarrow> ph_words q (entry_frame e) = ph_words p (entry_frame e))"

lemma same_memory_space:
  assumes "same_memory p q" and inv: "space_inv p r"
  shows "same_space p r q"
proof -
  have w: "ph_words q f = ph_words p f" "f \<in> alloc_set q" if "tree p r \<pi> = Some f" for \<pi> f
    using assms(1) space_invD(3) [OF inv that] by (auto simp: same_memory_def)
  have "ph_words q (entry_frame e) = ph_words p (entry_frame e)" if "page_view p r b = Some e" for b e
  proof -
    have "tree p r (page_path b) = Some (entry_frame e)" using that by (rule page_view_Some) blast
    then show ?thesis by (rule w)
  qed
  moreover have "within (ran (tree p r)) p q" using assms(1) by (auto simp: same_memory_def within_def)
  ultimately show ?thesis
    unfolding same_space_def using same_memory_tree [OF assms] same_memory_view [OF assms] assms(1) by (simp add: same_memory_def)
qed

text \<open>Unmapping what has been mapped gives the space back.\<close>

lemma mapped_then_unmapped:
  assumes inv: "space_inv p r" and tight: "tight p r" and m: "mapped_set p r S pm q" and u: "unmapped_set q r S u"
  shows "same_space p r u"
proof -
  note M = mapped_setD [OF m] and U = unmapped_setD [OF u]
  have none: "tree p r \<rho> = None" if "\<rho> \<in> page_path ` S" for \<rho> using that M(8) page_view_None by auto
  have four: "tree u r \<rho> = tree p r \<rho>" if "length \<rho> = 4" for \<rho> using U(6) [OF that] M(7) [OF that] none [of \<rho>] by auto
  have both: "f = g" if "tree p r \<rho> = Some f" "tree u r \<rho> = Some g" for \<rho> f g
    using that M(5) U(4) unfolding map_le_def by (metis domI option.inject)
  have tree: "tree u r = tree p r" by (rule tight_tree_eq [OF tight U(5) four both])
  have sub: "ran (tree q r) \<inter> alloc_set p \<subseteq> ran (tree p r)" using M(4) by blast
  have w: "within (ran (tree p r)) p u" by (rule within_trans [OF M(2) U(2) sub])
  have al: "alloc_set u = alloc_set p" using U(3) M(3,4) unfolding tree by blast
  have view: "page_view u r b = page_view p r b" if "page_address b" for b
    using U(7) [OF that] M(8) [of b] M(10) [OF that] by auto
  have words: "ph_words u (entry_frame e) = ph_words p (entry_frame e)" if b: "page_address b" "page_view p r b = Some e" for b e
  proof -
    have n: "b \<notin> S" using M(8) [of b] b(2) by auto
    then have "page_view q r b = Some e" using M(10) [OF b(1)] b(2) by simp
    then show ?thesis using U(8) [OF b(1) n] M(11) [OF b] by simp
  qed
  show ?thesis unfolding same_space_def using U(1) w tree al view words by blast
qed

lemma mapped_set_same_memory:
  assumes m: "mapped_set p r S pm q" and s: "same_memory q u"
  shows "mapped_set p r S pm u"
proof -
  note M = mapped_setD [OF m]
  note T = same_memory_tree [OF s M(1)] and V = same_memory_view [OF s M(1)]
  have al: "alloc_set u = alloc_set q" and ok: "phys_ok u" using s by (simp_all add: same_memory_def)
  have words: "ph_words u f = ph_words q f" if "f \<in> alloc_set q" for f using s that by (simp add: same_memory_def)
  have w: "within (ran (tree p r)) p u" using M(2) al ok words by (auto simp: within_def)
  have tight: "tight u r" using M(6) unfolding tight_def T(1) .
  have page: "ph_words u (entry_frame e) = ph_words q (entry_frame e)" if "page_view q r b = Some e" for b e
  proof -
    have "tree q r (page_path b) = Some (entry_frame e)" using that by (rule page_view_Some) blast
    then show ?thesis using words space_invD(3) [OF M(1)] by blast
  qed
  have new: "\<exists>f. f \<notin> alloc_set p \<and> page_view u r b = Some (leaf_entry f pm) \<and> ph_words u f = (\<lambda>_. 0) \<and> frame_address f"
    if b: "b \<in> S" for b
  proof -
    obtain f where f: "f \<notin> alloc_set p" "page_view q r b = Some (leaf_entry f pm)" "ph_words q f = (\<lambda>_. 0)" "frame_address f"
      using M(9) [OF b] by blast
    then have "ph_words u f = (\<lambda>_. 0)" using page [OF f(2)] leaf_entry_simps(2) [OF f(4)] by simp
    then show ?thesis using f V by auto
  qed
  have old: "ph_words u (entry_frame e) = ph_words p (entry_frame e)" if b: "page_address b" "page_view p r b = Some e" for b e
  proof -
    have "b \<notin> S" using M(8) [of b] b(2) by auto
    then have "page_view q r b = Some e" using M(10) [OF b(1)] b(2) by simp
    then show ?thesis using page M(11) [OF b] by simp
  qed
  show ?thesis unfolding mapped_set_def T(1) al V
  proof (intro conjI)
    show "\<forall>b\<in>S. page_address b \<and> page_view p r b = None \<and>
        (\<exists>f. f \<notin> alloc_set p \<and> page_view q r b = Some (leaf_entry f pm) \<and> ph_words u f = (\<lambda>_. 0) \<and> frame_address f)"
      using new M(8) unfolding V by blast
  qed (use T(2) w M(3,4,5,7,10) tight old in blast)+
qed

section \<open>Runs\<close>

definition run_page :: "nat \<Rightarrow> nat \<Rightarrow> nat" where
  "run_page base i = base + i * page_size"

lemma run_page_inj: "run_page base i = run_page base j \<longleftrightarrow> i = j"
  by (simp add: run_page_def)

lemma page_of_cases:
  obtains (page) page where "page_of base i = Ok page" "virtual_page_address page = run_page base i" "page_address (run_page base i)"
  | (refused) "page_of base i = Err MemInvalidAddress"
  by (cases "base + i * page_size < u64_limit \<and> i * page_size < u64_limit \<and> run_page base i \<ge> page_size \<and>
        run_page base i < 2 ^ 47 \<and> run_page base i mod page_size = 0")
    (auto simp: page_of_def checked_add64_def virtual_page_new_def run_page_def page_address_def dvd_eq_mod_eq_0)

definition run_set :: "nat \<Rightarrow> nat \<Rightarrow> nat set" where
  "run_set base n = run_page base ` {..<n}"

lemma run_set_0 [simp]: "run_set base 0 = {}"
  by (simp add: run_set_def)

lemma run_set_Suc: "run_set base (Suc n) = insert (run_page base n) (run_set base n)"
  by (simp add: run_set_def lessThan_Suc)

lemma run_page_new: "run_page base n \<notin> run_set base n"
  by (auto simp: run_set_def run_page_inj)

text \<open>Why a run of pages could not be mapped.\<close>

definition refused_by :: "physical \<Rightarrow> nat \<Rightarrow> nat \<Rightarrow> nat \<Rightarrow> mem_error \<Rightarrow> bool" where
  "refused_by p r base n e \<longleftrightarrow> e = MemFrames FrExhausted \<and> free_frames p < 4 * n \<or>
     (\<exists>i<n. page_of base i = Err MemInvalidAddress \<and> e = MemInvalidAddress \<or>
        page_view p r (run_page base i) \<noteq> None \<and> e = MemAlreadyMapped)"

lemma map_pages_value:
  assumes inv: "space_inv p (as_root s)" and pm: "perm_valid pm"
    and "mapped_set p (as_root s) (run_set base k) pm q" and "\<forall>i<k. page_of base i \<noteq> Err MemInvalidAddress"
    and "free_frames p \<le> free_frames q + 4 * k" and "map_pages s base pm n k q = (res, j, u)"
  shows "mapped_set p (as_root s) (run_set base j) pm u \<and> (\<forall>i<j. page_of base i \<noteq> Err MemInvalidAddress) \<and>
    (res = Ok () \<and> j = k + n \<or> (\<exists>e. res = Err e \<and> refused_by p (as_root s) base (k + n) e))"
  using assms(3-)
proof (induction n arbitrary: k q)
  case 0
  then show ?case by simp
next
  case (Suc n)
  let ?r = "as_root s"
  note M = mapped_setD [OF Suc.prems(1)]
  show ?case
  proof (cases rule: page_of_cases [of base k])
    case refused
    then have "res = Err MemInvalidAddress" "j = k" "u = q" using Suc.prems(4) by simp_all
    moreover have "refused_by p ?r base (k + Suc n) MemInvalidAddress"
      unfolding refused_by_def using refused by (intro disjI2 exI [of _ k]) simp
    ultimately show ?thesis using Suc.prems(1,2) by simp
  next
    case (page page)
    have a: "page_address (virtual_page_address page)" using page by simp
    from M(1) a pm show ?thesis
    proof (cases rule: map_zeroed_cases)
      case (mapped e)
      then have r: "res = Err MemAlreadyMapped" "j = k" "u = q" using Suc.prems(4) page(1) by simp_all
      have "page_view p ?r (run_page base k) \<noteq> None"
        using mapped(1) page(2,3) M(10) [of "run_page base k"] run_page_new [of base k] by simp
      then have "refused_by p ?r base (k + Suc n) MemAlreadyMapped"
        unfolding refused_by_def by (intro disjI2 exI [of _ k]) simp
      then show ?thesis using r Suc.prems(1,2) by simp
    next
      case (exhausted v)
      then have r: "res = Err (MemFrames FrExhausted)" "j = k" "u = v" using Suc.prems(4) page(1) by simp_all
      then show ?thesis using mapped_set_same_memory [OF Suc.prems(1) exhausted(3)] Suc.prems(2,3) exhausted(4) by (simp add: refused_by_def)
    next
      case (inserted f v)
      have "mapped_set p ?r (run_set base (Suc k)) pm v"
        unfolding run_set_Suc using mapped_set_insert [OF Suc.prems(1) inserted(3) _ _ inv] a inserted(1) page(2) by simp
      moreover have "\<forall>i<Suc k. page_of base i \<noteq> Err MemInvalidAddress" using Suc.prems(2) page(1) by (simp add: less_Suc_eq)
      moreover have "map_pages s base pm n (Suc k) v = (res, j, u)" using Suc.prems(4) page(1) inserted(2) by simp
      moreover have "free_frames p \<le> free_frames v + 4 * Suc k" using Suc.prems(3) inserted(4) by simp
      ultimately show ?thesis using Suc.IH [of "Suc k" v] by simp
    qed
  qed
qed

lemma unmap_pages_value:
  assumes "unmapped_set p (as_root s) S q" and "distinct is" and "run_page base ` set is \<inter> S = {}"
    and "unmap_pages s base is q = (res, u)"
  shows "\<exists>T. T \<subseteq> run_page base ` set is \<and> unmapped_set p (as_root s) (S \<union> T) u \<and>
    (res = Ok () \<and> T = run_page base ` set is \<or>
     (\<exists>e. res = Err e) \<and> (\<exists>i\<in>set is. page_of base i = Err MemInvalidAddress \<or> page_view p (as_root s) (run_page base i) = None))"
  using assms
proof (induction "is" arbitrary: S q)
  case Nil
  then show ?case by simp
next
  case (Cons i "is")
  let ?r = "as_root s"
  note U = unmapped_setD [OF Cons.prems(1)]
  show ?case
  proof (cases rule: page_of_cases [of base i])
    case refused
    then have "res = Err MemInvalidAddress" "u = q" using Cons.prems(4) by simp_all
    then show ?thesis using Cons.prems(1) refused by (intro exI [of _ "{}"]) simp
  next
    case (page page)
    have a: "page_address (virtual_page_address page)" using page by simp
    have iS: "run_page base i \<notin> S" using Cons.prems(3) by auto
    from U(1) a show ?thesis
    proof (cases rule: unmap_cases)
      case absent
      then have r: "res = Err MemNotMapped" "u = q" using Cons.prems(4) page(1) by simp_all
      have "page_view p ?r (run_page base i) = None" using absent(1) page(2,3) U(7) iS by simp
      then show ?thesis using r Cons.prems(1) by (intro exI [of _ "{}"]) simp
    next
      case (removed e v)
      have v: "unmapped_set p ?r (insert (run_page base i) S) v"
        using unmapped_set_insert [OF Cons.prems(1) removed(3,4)] page(2) by simp
      have dj: "run_page base ` set is \<inter> insert (run_page base i) S = {}"
        using Cons.prems(2,3) by (auto simp: run_page_inj)
      have "unmap_pages s base is v = (res, u)" using Cons.prems(4) page(1) removed(2) by simp
      then obtain T where T: "T \<subseteq> run_page base ` set is" "unmapped_set p ?r (insert (run_page base i) S \<union> T) u"
        "res = Ok () \<and> T = run_page base ` set is \<or>
         (\<exists>e. res = Err e) \<and> (\<exists>i\<in>set is. page_of base i = Err MemInvalidAddress \<or> page_view p ?r (run_page base i) = None)"
        using Cons.IH [OF v _ dj] Cons.prems(2) by auto
      have "S \<union> insert (run_page base i) T = insert (run_page base i) S \<union> T" by blast
      then show ?thesis using T by (intro exI [of _ "insert (run_page base i) T"]) auto
    qed
  qed
qed

section \<open>The two operations\<close>

lemma unmap_user_pages_cases:
  assumes inv: "space_inv p (as_root s)" and tight: "tight p (as_root s)" and u: "unmap_user_pages active s base n p = (res, u)"
  obtains (unmapped) "res = Ok ()" "\<not> as_is_active active s" "unmapped_set p (as_root s) (run_set base n) u"
  | (refused) e T where "res = Err e" "T \<subseteq> run_set base n" "unmapped_set p (as_root s) T u"
      "as_is_active active s \<or> (\<exists>i<n. page_of base i = Err MemInvalidAddress \<or> page_view p (as_root s) (run_page base i) = None)"
proof (cases "as_is_active active s")
  case True
  then show ?thesis using u refused [of MemInvalidAddress "{}"] unmapped_set_empty [OF inv tight] by (simp add: unmap_user_pages_def)
next
  case False
  have run: "run_page base ` set [0..<n] = run_set base n" by (simp add: run_set_def lessThan_atLeast0)
  obtain T where T: "T \<subseteq> run_set base n" "unmapped_set p (as_root s) T u"
    "res = Ok () \<and> T = run_set base n \<or>
     (\<exists>e. res = Err e) \<and> (\<exists>i\<in>set [0..<n]. page_of base i = Err MemInvalidAddress \<or> page_view p (as_root s) (run_page base i) = None)"
    using unmap_pages_value [OF unmapped_set_empty [OF inv tight], of "[0..<n]" base res u] u False
    unfolding run by (auto simp: unmap_user_pages_def)
  from T(3) show ?thesis
  proof
    assume "res = Ok () \<and> T = run_set base n"
    then show ?thesis using unmapped False T(2) by simp
  next
    assume "(\<exists>e. res = Err e) \<and> (\<exists>i\<in>set [0..<n]. page_of base i = Err MemInvalidAddress \<or> page_view p (as_root s) (run_page base i) = None)"
    then obtain e i where "res = Err e" "i < n" "page_of base i = Err MemInvalidAddress \<or> page_view p (as_root s) (run_page base i) = None"
      by auto
    then show ?thesis using refused [OF _ T(1,2)] by blast
  qed
qed

abbreviation heap_permissions :: "bool \<Rightarrow> page_permissions" where
  "heap_permissions w \<equiv> \<lparr>perm_writable = w, perm_executable = False, perm_user = True\<rparr>"

lemma map_user_pages_cases:
  assumes inv: "space_inv p (as_root s)" and tight: "tight p (as_root s)" and u: "map_user_pages active s base n w p = (res, u)"
  obtains (mapped) "res = Ok ()" "\<not> as_is_active active s" "mapped_set p (as_root s) (run_set base n) (heap_permissions w) u"
  | (refused) e where "res = Err e" "same_space p (as_root s) u" "as_is_active active s \<or> refused_by p (as_root s) base n e"
proof (cases "as_is_active active s")
  case True
  then show ?thesis using u refused [of MemInvalidAddress] same_memory_space [OF same_memory_refl inv] space_invD(1) [OF inv]
    by (simp add: map_user_pages_def)
next
  case False
  let ?r = "as_root s"
  obtain res' j q where m: "map_pages s base (heap_permissions w) n 0 p = (res', j, q)" using prod_cases3 by blast
  have start: "mapped_set p ?r (run_set base 0) (heap_permissions w) p" using mapped_set_empty [OF inv tight] by simp
  have q: "mapped_set p ?r (run_set base j) (heap_permissions w) q"
    "res' = Ok () \<and> j = n \<or> (\<exists>e. res' = Err e \<and> refused_by p ?r base n e)" "\<forall>i<j. page_of base i \<noteq> Err MemInvalidAddress"
    using map_pages_value [OF inv _ start _ _ m] by (simp_all add: perm_valid_def)
  from q(2) show ?thesis
  proof
    assume "res' = Ok () \<and> j = n"
    then show ?thesis using mapped u False m q(1) by (simp add: map_user_pages_def Let_def)
  next
    assume "\<exists>e. res' = Err e \<and> refused_by p ?r base n e"
    then obtain e where e: "res' = Err e" "refused_by p ?r base n e" by blast
    obtain res2 v where un: "unmap_user_pages active s base j q = (res2, v)" by fastforce
    have there: "page_view q ?r (run_page base i) \<noteq> None" if "i < j" for i
      using mapped_setD(9) [OF q(1), of "run_page base i"] that by (auto simp: run_set_def)
    have "same_space p ?r v \<and> res2 = Ok ()"
    proof (rule unmap_user_pages_cases [OF mapped_setD(1,6) [OF q(1)] un])
      assume "res2 = Ok ()" "unmapped_set q ?r (run_set base j) v"
      then show ?thesis using mapped_then_unmapped [OF inv tight q(1)] by simp
    next
      fix e' T
      assume "as_is_active active s \<or> (\<exists>i<j. page_of base i = Err MemInvalidAddress \<or> page_view q ?r (run_page base i) = None)"
      then show ?thesis using False q(3) there by blast
    qed
    moreover have "same_space p ?r q" if "j = 0"
      using that mapped_then_unmapped [OF inv tight q(1)] unmapped_set_empty [OF mapped_setD(1,6) [OF q(1)]] by simp
    ultimately show ?thesis using refused [OF _ _ disjI2 [OF e(2)]] u False m e(1) un
      by (cases "0 < j") (simp_all add: map_user_pages_def Let_def)
  qed
qed

end
