(* ===== verification/User_Copy.thy ===== *)
theory User_Copy
  imports User_Pages
begin

unbundle bit_operations_syntax

text \<open>
  The bytes the kernel copies in and out of a process. \<open>user_byte\<close> is the byte a process has at an address; the
  copies read and write exactly that, on ranges every byte of which the process itself may access, and refuse
  every other range without touching memory.
\<close>

section \<open>Bytes of a word\<close>

lemma ff_mask: "(0xff :: u64) = mask 8"
  by (simp add: mask_eq_exp_minus_1)

lemma bit_set_word_byte:
  assumes "j < 8" and "n < 64"
  shows "bit (set_word_byte w j b) n \<longleftrightarrow> (if 8 * j \<le> n \<and> n < 8 * j + 8 then bit b (n - 8 * j) else bit w n)"
proof -
  have m: "bit (push_bit (8 * j) (0xff :: u64)) n \<longleftrightarrow> 8 * j \<le> n \<and> n < 8 * j + 8"
    unfolding ff_mask using shifted_mask_bit [of "8 * j" 8 n] assms(1) by simp
  have "bit b (n - 8 * j) \<Longrightarrow> n - 8 * j < 8" using bit_imp_le_length [of b "n - 8 * j"] by simp
  then show ?thesis
    unfolding set_word_byte_def using assms m by (auto simp: bit_or_iff bit_and_iff bit_not_iff bit_push_bit_iff bit_ucast_iff)
qed

lemma bit_word_byte: "j < 8 \<Longrightarrow> bit (word_byte w j) k \<longleftrightarrow> k < 8 \<and> bit w (8 * j + k)"
  by (auto simp: word_byte_def bit_ucast_iff bit_drop_bit_eq)

lemma word_byte_set:
  assumes "i < 8" and "j < 8"
  shows "word_byte (set_word_byte w j b) i = (if i = j then b else word_byte w i)"
proof (rule bit_word_eqI)
  fix k
  assume "k < LENGTH(8)"
  then have k: "k < 8" by simp
  have "8 * i + k < 64" using assms(1) k by linarith
  moreover have "8 * j \<le> 8 * i + k \<and> 8 * i + k < 8 * j + 8 \<longleftrightarrow> i = j" using k by linarith
  ultimately show "bit (word_byte (set_word_byte w j b) i) k = bit (if i = j then b else word_byte w i) k"
    using k assms by (simp add: bit_word_byte bit_set_word_byte)
qed

lemma frame_byte_set:
  "frame_byte (ws(k div 8 := set_word_byte (ws (k div 8)) (k mod 8) b)) i = (if i = k then b else frame_byte ws i)"
proof (cases "i div 8 = k div 8")
  case True
  then have "i mod 8 = k mod 8 \<longleftrightarrow> i = k" by (metis div_mult_mod_eq)
  then show ?thesis using True by (simp add: frame_byte_def word_byte_set)
qed (auto simp: frame_byte_def)

lemma frame_byte_put: "frame_byte (put_bytes ws k bs) i = (if k \<le> i \<and> i < k + length bs then bs ! (i - k) else frame_byte ws i)"
proof (induction bs arbitrary: ws k)
  case (Cons b bs)
  have "(b # bs) ! (i - k) = bs ! (i - Suc k)" if "k < i" using that by (simp add: nth_Cons')
  then show ?case
    by (simp only: put_bytes.simps Cons.IH frame_byte_set) (auto simp: less_Suc_eq le_less)
qed auto

section \<open>Pages and offsets\<close>

definition page_base :: "nat \<Rightarrow> nat" where
  "page_base a = a - a mod page_size"

lemma page_base_split: "a = page_base a + a mod page_size"
  by (simp add: page_base_def)

lemma page_base_dvd: "4096 dvd page_base a"
  by (simp add: page_base_def dvd_minus_mod)

lemma page_path_same: "a div page_size = b div page_size \<Longrightarrow> page_path a = page_path b"
proof -
  assume ab: "a div page_size = b div page_size"
  have "a div 2 ^ (12 + k) = b div 2 ^ (12 + k)" for k
    using ab by (simp add: power_add div_mult2_eq)
  then have "pt_index a l = pt_index b l" for l by (simp only: pt_index_def)
  then show ?thesis by (simp only: page_path_def list.map)
qed

lemma page_base_div: "page_base a div page_size = a div page_size"
  by (metis page_base_def minus_mod_eq_div_mult nonzero_mult_div_cancel_right zero_neq_numeral)

lemma page_view_same_page: "a div page_size = b div page_size \<Longrightarrow> page_view p r a = page_view p r b"
proof -
  assume "a div page_size = b div page_size"
  then have "page_path a = page_path b" by (rule page_path_same)
  moreover have "pt_index x 1 = last (page_path x)" for x by (simp add: page_path_def)
  ultimately show ?thesis unfolding page_view_def by metis
qed

lemma page_view_base: "page_view p r (page_base a) = page_view p r a"
  by (rule page_view_same_page [OF page_base_div])

lemma page_base_address: "lower_half a \<Longrightarrow> page_address (page_base a)"
  using page_base_dvd [of a] page_base_split [of a] by (simp add: page_address_def lower_half_def)

lemma page_view_other:
  assumes "lower_half a" and "lower_half b" and "a div page_size \<noteq> b div page_size"
  shows "page_path a \<noteq> page_path b"
proof
  assume "page_path a = page_path b"
  then have "page_path (page_base a) = page_path (page_base b)"
    using page_path_same [OF page_base_div] by metis
  then have "page_base a = page_base b" using page_path_inj page_base_address assms(1,2) by blast
  then show False using assms(3) page_base_div by metis
qed

section \<open>The memory of a process\<close>

definition user_byte :: "physical \<Rightarrow> nat \<Rightarrow> nat \<Rightarrow> u8 option" where
  "user_byte p r a = map_option (\<lambda>e. frame_byte (ph_words p (entry_frame e)) (a mod page_size)) (page_view p r a)"

definition accessible :: "physical \<Rightarrow> nat \<Rightarrow> bool \<Rightarrow> nat \<Rightarrow> bool" where
  "accessible p r writing a \<longleftrightarrow> (case page_view p r a of None \<Rightarrow> False | Some e \<Rightarrow> bit e 2 \<and> (writing \<longrightarrow> bit e 1))"

lemma page_frame:
  assumes inv: "space_inv p r" and e: "page_view p r a = Some e"
  shows "tree p r (page_path a) = Some (entry_frame e)" and "entry_frame e \<in> alloc_set p"
    and "mp_physical (mapping_of a e) = entry_frame e + a mod page_size"
    and "entry_frame e mod page_size = 0" and "entry_frame e \<in> ran (tree p r)"
proof -
  show t: "tree p r (page_path a) = Some (entry_frame e)" using e by (rule page_view_Some) blast
  show f: "entry_frame e \<in> alloc_set p" by (rule space_invD(3) [OF inv t])
  show m: "entry_frame e mod page_size = 0"
    using alloc_set_frame(1) [OF space_invD(1) [OF inv] f] by (simp add: frame_address_def dvd_eq_mod_eq_0)
  then show "mp_physical (mapping_of a e) = entry_frame e + a mod page_size"
    using div_mult_mod_eq [of "entry_frame e" page_size] by (simp add: mapping_of_def)
  show "entry_frame e \<in> ran (tree p r)" using t by (rule ranI)
qed

lemma buffer_page_value:
  assumes inv: "space_inv p (as_root s)" and a: "lower_half a" "a mod page_size = 0"
  shows "buffer_page_ok p s writing a = (if accessible p (as_root s) writing a then Ok () else Err MemInvalidAddress)"
proof (cases "page_view p (as_root s) a")
  case None
  then show ?thesis using pt_lookup_view [OF inv a(1)] by (simp add: buffer_page_ok_def accessible_def)
next
  case (Some e)
  note f = page_frame [OF inv Some]
  have "mp_physical (mapping_of a e) - mp_physical (mapping_of a e) mod page_size = entry_frame e" using f(3,4) a(2) by simp
  moreover have "is_allocated (ph_frames p) (entry_frame e)" using f(2) by (simp add: alloc_set_def)
  ultimately show ?thesis
    using Some pt_lookup_view [OF inv a(1)] by (simp add: buffer_page_ok_def accessible_def) (simp add: mapping_of_def)
qed

lemma check_pages_value:
  assumes "space_inv p (as_root s)" and "\<forall>a\<in>set pages. lower_half a \<and> a mod page_size = 0"
  shows "check_pages p s writing pages =
    (if \<forall>a\<in>set pages. accessible p (as_root s) writing a then Ok () else Err MemInvalidAddress)"
  using assms(2) by (induction pages) (auto simp: buffer_page_value [OF assms(1)])

lemma accessible_base: "accessible p r writing (page_base a) = accessible p r writing a"
  by (simp add: accessible_def page_view_base)

lemma below_div_ceil: "i < div_ceil x page_size \<longleftrightarrow> i * page_size < x"
proof (cases "x mod page_size = 0")
  case True
  then have "div_ceil x page_size = x div page_size" by (simp add: div_ceil_def)
  then show ?thesis using True div_mult_mod_eq [of x page_size] by (intro iffI; linarith)
next
  case False
  then have "div_ceil x page_size = x div page_size + 1" by (simp add: div_ceil_def)
  then show ?thesis
    using False div_mult_mod_eq [of x page_size] mod_less_divisor [of page_size x] by (intro iffI; linarith)
qed

text \<open>The pages that are checked are those of the range.\<close>

lemma set_buffer_pages:
  assumes "a < stop"
  shows "set (buffer_pages a stop) = page_base ` {a..<stop}"
proof -
  let ?first = "page_base a" and ?n = "div_ceil (stop - page_base a) page_size"
  have le: "?first \<le> a" by (simp add: page_base_def)
  have in_run: "i < ?n \<longleftrightarrow> ?first + i * page_size < stop" for i
    unfolding below_div_ceil using assms le by linarith
  have set: "set (buffer_pages a stop) = (\<lambda>i. ?first + i * page_size) ` {i. ?first + i * page_size < stop}"
    using in_run by (auto simp: buffer_pages_def Let_def page_base_def)
  show ?thesis
  proof
    show "set (buffer_pages a stop) \<subseteq> page_base ` {a..<stop}"
    proof
      fix x
      assume "x \<in> set (buffer_pages a stop)"
      then obtain i where i: "x = ?first + i * page_size" "x < stop" unfolding set by auto
      show "x \<in> page_base ` {a..<stop}"
      proof (cases "i = 0")
        case True
        then show ?thesis using i(1) assms by auto
      next
        case False
        have "x mod page_size = 0" using page_base_dvd [of a] i(1) by (simp add: dvd_eq_mod_eq_0 mod_add_eq [symmetric])
        then have "page_base x = x" by (simp add: page_base_def)
        moreover have "a \<le> x"
        proof -
          have "a < ?first + page_size" using page_base_split [of a] mod_less_divisor [of page_size a] by linarith
          then show ?thesis using i(1) False by (cases i) simp_all
        qed
        ultimately show ?thesis using i(2) by (metis atLeastLessThan_iff image_eqI)
      qed
    qed
    show "page_base ` {a..<stop} \<subseteq> set (buffer_pages a stop)"
    proof
      fix x
      assume "x \<in> page_base ` {a..<stop}"
      then obtain b where b: "x = page_base b" "a \<le> b" "b < stop" by auto
      obtain k l where k: "page_base a = page_size * k" "page_base b = page_size * l" using page_base_dvd [of a] page_base_dvd [of b] by (auto simp: dvd_def)
      have "k \<le> l" using b(2) page_base_div [of a] page_base_div [of b] div_le_mono [OF b(2), of page_size] k by simp
      then have "x = ?first + (l - k) * page_size" using b(1) k by (simp add: algebra_simps)
      moreover have "x < stop" using b(1,3) by (simp add: page_base_def)
      ultimately show "x \<in> set (buffer_pages a stop)" unfolding set by auto
    qed
  qed
qed

definition buffer_ok :: "nat \<Rightarrow> physical \<Rightarrow> address_space \<Rightarrow> bool \<Rightarrow> nat \<Rightarrow> nat \<Rightarrow> bool" where
  "buffer_ok active p s writing a n \<longleftrightarrow> 0 < n \<and> n \<le> 4096 \<and> page_size \<le> a \<and> a + n \<le> 2 ^ 47 \<and> as_root s \<noteq> active \<and>
     (\<forall>b\<in>{a..<a + n}. accessible p (as_root s) writing b)"

lemma validate_buffer_value:
  assumes inv: "space_inv p (as_root s)"
  shows "validate_buffer active p s a n writing = (if buffer_ok active p s writing a n then Ok () else Err MemInvalidAddress)"
proof (cases "a + n \<le> 2 ^ 47 \<and> 0 < n")
  case True
  have pages: "set (buffer_pages a (a + n)) = page_base ` {a..<a + n}" using set_buffer_pages [of a "a + n"] True by simp
  have "lower_half x \<and> x mod page_size = 0" if "x \<in> set (buffer_pages a (a + n))" for x
  proof -
    have "x \<in> page_base ` {a..<a + n}" using that pages by simp
    then obtain b where b: "x = page_base b" "b < a + n" by auto
    then show ?thesis using page_base_address [of b] True page_base_dvd [of b]
      by (simp add: lower_half_def page_address_def dvd_eq_mod_eq_0)
  qed
  then have "check_pages p s writing (buffer_pages a (a + n)) =
      (if \<forall>b\<in>{a..<a + n}. accessible p (as_root s) writing b then Ok () else Err MemInvalidAddress)"
    using check_pages_value [OF inv] pages by (simp add: accessible_base)
  moreover have "a + n < u64_limit" using True by (simp add: u64_limit_def)
  ultimately show ?thesis using True by (auto simp: validate_buffer_def buffer_ok_def as_is_active_def checked_add64_def)
next
  case False
  then show ?thesis by (auto simp: validate_buffer_def buffer_ok_def checked_add64_def)
qed

section \<open>Copying\<close>

lemma chunk_page:
  assumes "a \<le> b" and "b < a + c" and "c \<le> page_size - a mod page_size"
  shows "b div page_size = a div page_size" and "b mod page_size = a mod page_size + (b - a)"
proof -
  obtain d where d: "b = a + d" "d < page_size - a mod page_size" using assms le_Suc_ex by (metis add_less_cancel_left order_less_le_trans)
  have m: "b mod page_size = a mod page_size + d"
    using d mod_add_left_eq [of a page_size d] mod_less [of "a mod page_size + d" page_size] by simp
  then have "b div page_size * page_size = a div page_size * page_size"
    using d(1) div_mult_mod_eq [of a page_size] div_mult_mod_eq [of b page_size] by linarith
  then show "b div page_size = a div page_size" "b mod page_size = a mod page_size + (b - a)" using m d(1) by simp_all
qed

lemma copy_in_value:
  assumes "space_inv p (as_root s)" and "a + n \<le> 2 ^ 47" and "\<forall>b\<in>{a..<a + n}. page_view p (as_root s) b \<noteq> None"
  shows "copy_in p s a n = Ok (map (\<lambda>b. the (user_byte p (as_root s) b)) [a..<a + n])"
  using assms
proof (induction n arbitrary: a rule: less_induct)
  case (less n)
  let ?r = "as_root s"
  show ?case
  proof (cases "n = 0")
    case True
    then show ?thesis by (subst copy_in.simps) simp
  next
    case False
    have low: "lower_half a" using less.prems(2) False by (simp add: lower_half_def)
    obtain e where e: "page_view p ?r a = Some e" using less.prems(3) False by fastforce
    note f = page_frame [OF less.prems(1) e]
    define c where "c = min (page_size - a mod page_size) n"
    have off: "mp_physical (mapping_of a e) mod page_size = a mod page_size" using f(3,4) by (simp add: mod_add_eq [symmetric])
    have frame: "mp_physical (mapping_of a e) - a mod page_size = entry_frame e" using f(3) by simp
    have c: "0 < c" "c \<le> n" "c \<le> page_size - a mod page_size" using False by (auto simp: c_def)
    have rd: "read_bytes p (entry_frame e) (a mod page_size) c =
        Ok (map (frame_byte (ph_words p (entry_frame e))) [a mod page_size..<a mod page_size + c])"
      using f(2) alloc_set_frame(2) [OF space_invD(1) [OF less.prems(1)] f(2)] c(3)
      by (simp add: read_bytes_def alloc_set_def)
    have chunk: "map (frame_byte (ph_words p (entry_frame e))) [a mod page_size..<a mod page_size + c] =
        map (\<lambda>b. the (user_byte p ?r b)) [a..<a + c]"
    proof (rule nth_equalityI)
      fix i
      assume "i < length (map (frame_byte (ph_words p (entry_frame e))) [a mod page_size..<a mod page_size + c])"
      then have i: "i < c" by simp
      note pg = chunk_page [OF _ _ c(3), of "a + i"]
      have "page_view p ?r (a + i) = Some e" using page_view_same_page [of "a + i" a] pg(1) i e by simp
      then show "map (frame_byte (ph_words p (entry_frame e))) [a mod page_size..<a mod page_size + c] ! i =
          map (\<lambda>b. the (user_byte p ?r b)) [a..<a + c] ! i"
        using i pg(2) by (simp add: user_byte_def)
    qed simp
    have rest: "copy_in p s (a + c) (n - c) = Ok (map (\<lambda>b. the (user_byte p ?r b)) [a + c..<a + c + (n - c)])"
      by (rule less.IH) (use c less.prems in auto)
    have "copy_in p s a n = Ok (map (\<lambda>b. the (user_byte p ?r b)) [a..<a + c] @ map (\<lambda>b. the (user_byte p ?r b)) [a + c..<a + n])"
      using False pt_lookup_view [OF less.prems(1) low] e off frame rd chunk rest c(2)
      by (subst copy_in.simps) (simp add: c_def [symmetric])
    moreover have "[a..<a + n] = [a..<a + c] @ [a + c..<a + n]"
      using upt_add_eq_append [of a "a + c" "n - c"] c(2) by simp
    ultimately show ?thesis by simp
  qed
qed

text \<open>\<open>bytes_stored p r a bs q\<close>: from \<open>p\<close> to \<open>q\<close> the process of the space \<open>r\<close> has the bytes \<open>bs\<close> at \<open>a\<close>, and nothing else has changed.\<close>

definition bytes_stored :: "physical \<Rightarrow> nat \<Rightarrow> nat \<Rightarrow> bytes \<Rightarrow> physical \<Rightarrow> bool" where
  "bytes_stored p r a bs q \<longleftrightarrow> space_inv q r \<and> ph_frames q = ph_frames p \<and> within (ran (tree p r)) p q \<and> tree q r = tree p r \<and>
     page_view q r = page_view p r \<and>
     (\<forall>b. lower_half b \<longrightarrow> user_byte q r b = (if a \<le> b \<and> b < a + length bs then Some (bs ! (b - a)) else user_byte p r b))"

lemma bytes_storedD:
  assumes "bytes_stored p r a bs q"
  shows "space_inv q r" and "ph_frames q = ph_frames p" and "within (ran (tree p r)) p q" and "tree q r = tree p r"
    and "page_view q r = page_view p r"
    and "\<And>b. lower_half b \<Longrightarrow> user_byte q r b = (if a \<le> b \<and> b < a + length bs then Some (bs ! (b - a)) else user_byte p r b)"
  using assms by (simp_all add: bytes_stored_def)

lemma bytes_stored_Nil: "space_inv p r \<Longrightarrow> bytes_stored p r a [] p"
  using space_invD(1) [of p r] by (auto simp: bytes_stored_def within_refl)

lemma bytes_stored_append:
  assumes "bytes_stored p r a bs q" and "bytes_stored q r (a + length bs) cs u"
  shows "bytes_stored p r a (bs @ cs) u"
proof -
  note P = bytes_storedD [OF assms(1)] and Q = bytes_storedD [OF assms(2)]
  have "within (ran (tree p r)) p u" by (rule within_trans [OF P(3) Q(3)]) (use P(4) in auto)
  moreover have "user_byte u r b =
      (if a \<le> b \<and> b < a + length (bs @ cs) then Some ((bs @ cs) ! (b - a)) else user_byte p r b)" if "lower_half b" for b
    using P(6) [OF that] Q(6) [OF that] by (auto simp: nth_append)
  ultimately show ?thesis unfolding bytes_stored_def using Q P by auto
qed

lemma put_page:
  assumes inv: "space_inv p r" and low: "lower_half a" and e: "page_view p r a = Some e" and len: "a mod page_size + length bs \<le> page_size"
  shows "bytes_stored p r a bs (p\<lparr>ph_words := (ph_words p)(entry_frame e := put_bytes (ph_words p (entry_frame e)) (a mod page_size) bs)\<rparr>)"
    (is "bytes_stored p r a bs ?q")
proof -
  let ?f = "entry_frame e"
  note f = page_frame [OF inv e]
  have table: "c \<noteq> ?f" if "tree p r \<pi> = Some c" "length \<pi> \<le> 3" for \<pi> c
    using space_invD(4) [OF inv f(1), of \<pi>] that by (auto simp: page_path_def)
  have words: "ph_words ?q c = ph_words p c" if "length \<pi> \<le> 3" "tree p r \<pi> = Some c" for \<pi> c
    using table [OF that(2,1)] by simp
  have fr: "alloc_set ?q = alloc_set p" "phys_ok ?q" using space_invD(1) [OF inv] by (simp_all add: alloc_set_def phys_ok_def)
  have tree: "tree ?q r = tree p r" by (rule tree_words_same [OF inv words])
  have space: "space_inv ?q r"
    by (rule space_inv_words_same [OF inv words fr(2)]) (use space_invD(3) [OF inv] fr(1) in auto)
  have view: "page_view ?q r = page_view p r"
  proof
    fix b
    have "map_option (\<lambda>t. ph_words ?q t (pt_index b 1)) (tree p r (butlast (page_path b))) =
        map_option (\<lambda>t. ph_words p t (pt_index b 1)) (tree p r (butlast (page_path b)))"
      using words [of "butlast (page_path b)"] by (cases "tree p r (butlast (page_path b))") (simp_all add: page_path_def)
    then show "page_view ?q r b = page_view p r b"
      unfolding page_view_def tree by (cases "tree p r (page_path b)") simp_all
  qed
  have "user_byte ?q r b = (if a \<le> b \<and> b < a + length bs then Some (bs ! (b - a)) else user_byte p r b)" if b: "lower_half b" for b
  proof (cases "b div page_size = a div page_size")
    case True
    then have be: "page_view p r b = Some e" using page_view_same_page e by metis
    have d: "b = a div page_size * page_size + b mod page_size" "a = a div page_size * page_size + a mod page_size"
      using div_mult_mod_eq [of b page_size] div_mult_mod_eq [of a page_size] True by simp_all
    have "a mod page_size \<le> b mod page_size \<longleftrightarrow> a \<le> b" "b mod page_size - a mod page_size = b - a"
      "b mod page_size < a mod page_size + length bs \<longleftrightarrow> b < a + length bs" using d by linarith+
    then show ?thesis using be view by (simp add: user_byte_def frame_byte_put)
  next
    case False
    have "length bs \<le> page_size - a mod page_size" using len by linarith
    then have "\<not> (a \<le> b \<and> b < a + length bs)" using False chunk_page(1) [of a b "length bs"] by auto
    moreover have "entry_frame e' \<noteq> ?f" if "page_view p r b = Some e'" for e'
      using space_invD(4) [OF inv page_frame(1) [OF inv that], of "page_path a"] f(1) page_view_other [OF b low False] by auto
    then have "user_byte ?q r b = user_byte p r b" unfolding user_byte_def view by (cases "page_view p r b") simp_all
    ultimately show ?thesis by auto
  qed
  moreover have "within (ran (tree p r)) p ?q" using fr f(5) by (auto simp: within_def)
  ultimately show ?thesis unfolding bytes_stored_def using space tree view by simp
qed

lemma copy_out_value:
  assumes "space_inv p (as_root s)" and "a + length data \<le> 2 ^ 47" and "\<forall>b\<in>{a..<a + length data}. page_view p (as_root s) b \<noteq> None"
  shows "\<exists>q. copy_out s a data p = (Ok (), q) \<and> bytes_stored p (as_root s) a data q"
  using assms
proof (induction data arbitrary: a p rule: length_induct)
  case (1 data)
  let ?r = "as_root s"
  note prems = 1(2-)
  show ?case
  proof (cases "data = []")
    case True
    then show ?thesis using bytes_stored_Nil [OF prems(1)] by (subst copy_out.simps) simp
  next
    case False
    then have n: "0 < length data" by simp
    have low: "lower_half a" unfolding lower_half_def using prems(2) n by linarith
    have "page_view p ?r a \<noteq> None" using prems(3) n by simp
    then obtain e where e: "page_view p ?r a = Some e" by blast
    note f = page_frame [OF prems(1) e]
    define c where "c = min (page_size - a mod page_size) (length data)"
    have off: "mp_physical (mapping_of a e) mod page_size = a mod page_size" using f(3,4) by (simp add: mod_add_eq [symmetric])
    have frame: "mp_physical (mapping_of a e) - a mod page_size = entry_frame e" using f(3) by simp
    have c: "0 < c" "c \<le> length data" "a mod page_size + c \<le> page_size" using n by (auto simp: c_def)
    have lc: "length (take c data) = c" using c(2) by simp
    let ?q = "p\<lparr>ph_words := (ph_words p)(entry_frame e := put_bytes (ph_words p (entry_frame e)) (a mod page_size) (take c data))\<rparr>"
    have wr: "initialize_bytes p (entry_frame e) (a mod page_size) (take c data) = (Ok (), ?q)"
      using f(2) alloc_set_frame(2) [OF space_invD(1) [OF prems(1)] f(2)] c(3) lc
      by (simp add: initialize_bytes_def alloc_set_def)
    have q: "bytes_stored p ?r a (take c data) ?q" by (rule put_page [OF prems(1) low e]) (use c(3) lc in simp)
    note Q = bytes_storedD [OF q]
    have "length (drop c data) < length data" "a + c + length (drop c data) \<le> 2 ^ 47"
      "\<forall>b\<in>{a + c..<a + c + length (drop c data)}. page_view ?q ?r b \<noteq> None"
      using c prems(2,3) Q(5) by auto
    then obtain u where u: "copy_out s (a + c) (drop c data) ?q = (Ok (), u)" "bytes_stored ?q ?r (a + c) (drop c data) u"
      using 1(1) Q(1) by blast
    have "bytes_stored p ?r a (take c data @ drop c data) u" by (rule bytes_stored_append [OF q]) (use u(2) lc in simp)
    moreover have "copy_out s a data p = (Ok (), u)"
      using False pt_lookup_view [OF prems(1) low] e off frame wr u(1)
      by (subst copy_out.simps) (simp add: c_def [symmetric])
    ultimately show ?thesis by simp
  qed
qed

end
