(* ===== verification/Space_System.thy ===== *)
theory Space_System
  imports User_Copy
begin

unbundle bit_operations_syntax

text \<open>
  All address spaces together. \<open>spaces_inv p k R\<close>: the roots \<open>R\<close> are address spaces whose frames are disjoint,
  and the root \<open>k\<close> of the kernel is in none of them. An operation on one space is a \<open>local_step\<close>; it leaves every
  other space as it is, page by page and byte by byte.
\<close>

section \<open>One space among others\<close>

definition spaces_inv :: "physical \<Rightarrow> nat \<Rightarrow> nat set \<Rightarrow> bool" where
  "spaces_inv p k R \<longleftrightarrow> phys_ok p \<and> k \<in> alloc_set p \<and> (\<forall>r\<in>R. space_inv p r \<and> tight p r \<and> k \<notin> ran (tree p r)) \<and>
     (\<forall>r\<in>R. \<forall>r'\<in>R. r \<noteq> r' \<longrightarrow> ran (tree p r) \<inter> ran (tree p r') = {})"

lemma spaces_invD:
  assumes "spaces_inv p k R"
  shows "phys_ok p" and "k \<in> alloc_set p" and "\<And>r. r \<in> R \<Longrightarrow> space_inv p r" and "\<And>r. r \<in> R \<Longrightarrow> tight p r"
    and "\<And>r. r \<in> R \<Longrightarrow> k \<notin> ran (tree p r)"
    and "\<And>r r'. r \<in> R \<Longrightarrow> r' \<in> R \<Longrightarrow> r \<noteq> r' \<Longrightarrow> ran (tree p r) \<inter> ran (tree p r') = {}"
  using assms unfolding spaces_inv_def by blast+

lemma space_ran_alloc: "space_inv p r \<Longrightarrow> ran (tree p r) \<subseteq> alloc_set p"
  using space_invD(3) [of p r] by (auto simp: ran_def)

lemma tree_ran: "tree p r \<pi> = Some f \<Longrightarrow> f \<in> ran (tree p r)"
  by (auto simp: ran_def)

text \<open>\<open>same_view p r q\<close>: the process of the space \<open>r\<close> cannot tell \<open>p\<close> from \<open>q\<close>.\<close>

definition same_view :: "physical \<Rightarrow> nat \<Rightarrow> physical \<Rightarrow> bool" where
  "same_view p r q \<longleftrightarrow> tree q r = tree p r \<and> page_view q r = page_view p r \<and> user_byte q r = user_byte p r"

lemma same_view_refl: "same_view p r p"
  by (simp add: same_view_def)

lemma same_view_trans: "same_view p r q \<Longrightarrow> same_view q r u \<Longrightarrow> same_view p r u"
  by (simp add: same_view_def)

text \<open>Words that no step changes show the same pages and bytes.\<close>

lemma words_view:
  assumes inv: "space_inv p r" and w: "\<And>f. f \<in> ran (tree p r) \<Longrightarrow> ph_words q f = ph_words p f"
  shows "same_view p r q"
proof -
  have ws: "ph_words q f = ph_words p f" if "tree p r \<pi> = Some f" for \<pi> f using w tree_ran that by metis
  have t: "tree q r = tree p r" by (rule tree_words_same [OF inv ws])
  have v: "page_view q r = page_view p r" by (rule ext) (rule page_view_same [OF t], rule ws)
  have "user_byte q r a = user_byte p r a" for a
  proof (cases "page_view p r a")
    case None
    then show ?thesis using v by (simp add: user_byte_def)
  next
    case (Some e)
    then show ?thesis using v w [OF page_frame(5) [OF inv Some]] by (simp add: user_byte_def)
  qed
  then show ?thesis using t v by (auto simp: same_view_def)
qed

lemma tight_same_tree: "tree q r = tree p r \<Longrightarrow> tight q r = tight p r"
  by (simp add: tight_def)

definition local_step :: "physical \<Rightarrow> nat \<Rightarrow> physical \<Rightarrow> bool" where
  "local_step p r q \<longleftrightarrow> space_inv q r \<and> tight q r \<and> within (ran (tree p r)) p q \<and>
     alloc_set q - ran (tree q r) = alloc_set p - ran (tree p r)"

lemma local_stepD:
  assumes "local_step p r q"
  shows "space_inv q r" and "tight q r" and "within (ran (tree p r)) p q" and "ran (tree q r) \<inter> alloc_set p \<subseteq> ran (tree p r)"
    and "alloc_set q - ran (tree q r) = alloc_set p - ran (tree p r)"
  using assms by (auto simp: local_step_def)

lemma local_step_refl: "space_inv p r \<Longrightarrow> tight p r \<Longrightarrow> local_step p r p"
  using space_invD(1) [of p r] by (simp add: local_step_def within_refl)

lemma local_step_trans:
  assumes pq: "local_step p r q" and qu: "local_step q r u"
  shows "local_step p r u"
proof -
  have "within (ran (tree p r)) p u"
    by (rule within_trans [OF local_stepD(3) [OF pq] local_stepD(3) [OF qu] local_stepD(4) [OF pq]])
  then show ?thesis using local_stepD(1,2,5) [OF qu] local_stepD(5) [OF pq] by (simp add: local_step_def)
qed

text \<open>The operations on one space are local.\<close>

lemma mapped_local:
  assumes "mapped_set p r S pm q"
  shows "local_step p r q"
  using mapped_setD(1-4,6) [OF assms] map_le_ran [OF mapped_setD(5) [OF assms]] by (auto simp: local_step_def)

lemma inserted_local:
  assumes "inserted p r a f pm q" and "tight p r"
  shows "local_step p r q"
  using insertedD(1,2,5,6,8) [OF assms(1)] map_le_ran [OF insertedD(7) [OF assms(1)]] assms(2) by (auto simp: local_step_def)

lemma unmapped_local:
  assumes "unmapped_set p r S q"
  shows "local_step p r q"
  using unmapped_setD(1-3,5) [OF assms] map_le_ran [OF unmapped_setD(4) [OF assms]] by (auto simp: local_step_def)

lemma same_space_local: "same_space p r q \<Longrightarrow> tight p r \<Longrightarrow> local_step p r q"
  using tight_same_tree [of q r p] by (auto simp: same_space_def local_step_def)

lemma bytes_stored_local: "bytes_stored p r a bs q \<Longrightarrow> tight p r \<Longrightarrow> local_step p r q"
  using tight_same_tree [of q r p] by (auto simp: bytes_stored_def local_step_def alloc_set_def)

text \<open>The frames that belong to no space.\<close>

definition residue :: "physical \<Rightarrow> nat set \<Rightarrow> nat set" where
  "residue p R = alloc_set p - (\<Union>r\<in>R. ran (tree p r))"

lemma local_step_others:
  assumes inv: "spaces_inv p k R" and r: "r \<in> R" and step: "local_step p r q"
  shows "spaces_inv q k R" and "\<And>r'. r' \<in> R \<Longrightarrow> r' \<noteq> r \<Longrightarrow> same_view p r' q" and "ph_words q k = ph_words p k"
    and "residue q R = residue p R"
proof -
  note S = spaces_invD [OF inv] and L = local_stepD [OF step]
  have keep: "f \<in> alloc_set q \<and> ph_words q f = ph_words p f" if "f \<in> alloc_set p" "f \<notin> ran (tree p r)" for f
    using L(3) that by (auto simp: within_def)
  have away: "f \<notin> ran (tree p r)" if "r' \<in> R" "r' \<noteq> r" "f \<in> ran (tree p r')" for r' f using S(6) [OF that(1) r that(2)] that(3) by blast
  have other: "space_inv q r'" "same_view p r' q" if r': "r' \<in> R" "r' \<noteq> r" for r'
  proof -
    have no: "f \<notin> ran (tree p r)" if "tree p r' \<pi> = Some f" for \<pi> f using away [OF r'] tree_ran [OF that] by blast
    show "space_inv q r'" by (rule within_space(2) [OF L(3) S(3) [OF r'(1)] no])
    show "same_view p r' q"
      using keep away [OF r'] space_ran_alloc [OF S(3) [OF r'(1)]] by (intro words_view [OF S(3) [OF r'(1)]]) blast
  qed
  then show "\<And>r'. r' \<in> R \<Longrightarrow> r' \<noteq> r \<Longrightarrow> same_view p r' q" by blast
  show kw: "ph_words q k = ph_words p k" using keep S(2) S(5) [OF r] by blast
  have tr: "tree q r' = tree p r'" if "r' \<in> R" "r' \<noteq> r" for r' using other(2) [OF that] by (simp add: same_view_def)
  have each: "space_inv q r' \<and> tight q r' \<and> k \<notin> ran (tree q r')" if r': "r' \<in> R" for r'
  proof (cases "r' = r")
    case True
    then show ?thesis using L S(2) S(5) [OF r] by blast
  next
    case False
    then show ?thesis using other(1) [OF r'] tr [OF r'] tight_same_tree S(4,5) [OF r'] by metis
  qed
  have new: "ran (tree q r) \<inter> ran (tree q r') = {}" if r': "r' \<in> R" "r' \<noteq> r" for r'
  proof -
    have "ran (tree p r') \<subseteq> alloc_set p" by (rule space_ran_alloc [OF S(3) [OF r'(1)]])
    then show ?thesis using L(4) S(6) [OF r'(1) r r'(2)] unfolding tr [OF r'] by blast
  qed
  have "ran (tree q r1) \<inter> ran (tree q r2) = {}" if "r1 \<in> R" "r2 \<in> R" "r1 \<noteq> r2" for r1 r2
  proof -
    consider "r1 = r" | "r2 = r" | "r1 \<noteq> r" "r2 \<noteq> r" by blast
    then show ?thesis
    proof cases
      case 1
      then show ?thesis using new [of r2] that by blast
    next
      case 2
      then show ?thesis using new [of r1] that by blast
    next
      case 3
      then show ?thesis using S(6) [OF that] tr that by simp
    qed
  qed
  moreover have "phys_ok q" "k \<in> alloc_set q" using L(3) keep S(2) S(5) [OF r] by (auto simp: within_def)
  ultimately show "spaces_inv q k R" unfolding spaces_inv_def using each by blast
  have split: "(\<Union>r'\<in>R. ran (tree w r')) = ran (tree w r) \<union> (\<Union>r'\<in>R - {r}. ran (tree w r'))" for w using r by blast
  have "(\<Union>r'\<in>R - {r}. ran (tree q r')) = (\<Union>r'\<in>R - {r}. ran (tree p r'))" using tr by auto
  then show "residue q R = residue p R" unfolding residue_def split using L(5) by blast
qed

section \<open>Spaces come and go\<close>

lemma born_others:
  assumes inv: "spaces_inv p k R" and b: "born p k c q"
  shows "spaces_inv q k (insert c R)" and "c \<notin> R" and "\<And>r. r \<in> R \<Longrightarrow> same_view p r q" and "ph_words q k = ph_words p k"
    and "residue q (insert c R) = residue p R"
proof -
  note S = spaces_invD [OF inv]
  have B: "c \<notin> alloc_set p" "alloc_set q = insert c (alloc_set p)" "bare q c" "\<And>f. f \<noteq> c \<Longrightarrow> ph_words q f = ph_words p f"
    using b unfolding born_def by blast+
  note sub = space_ran_alloc [OF S(3)]
  show "c \<notin> R"
  proof
    assume "c \<in> R"
    then have "c \<in> alloc_set p" using space_invD(3) [OF S(3) tree_root] by blast
    then show False using B(1) by blast
  qed
  have ok: "phys_ok q" using B(3) by (simp add: bare_def)
  show "ph_words q k = ph_words p k" using B(1,4) S(2) by metis
  show view: "same_view p r q" if r: "r \<in> R" for r
  proof (rule words_view [OF S(3) [OF r]])
    fix f
    assume "f \<in> ran (tree p r)"
    then have "f \<noteq> c" using sub [OF r] B(1) by blast
    then show "ph_words q f = ph_words p f" by (rule B(4))
  qed
  have tr: "tree q r = tree p r" if "r \<in> R" for r using view [OF that] by (simp add: same_view_def)
  have sp: "space_inv q r" if r: "r \<in> R" for r
  proof (rule space_inv_words_same [OF S(3) [OF r] _ ok])
    show "ph_words q f = ph_words p f" if "tree p r \<pi> = Some f" for \<pi> f
      using B(1,4) space_invD(3) [OF S(3) [OF r] that] by metis
    show "f \<in> alloc_set q" if "tree p r \<pi> = Some f" for \<pi> f
      using B(2) space_invD(3) [OF S(3) [OF r] that] by blast
  qed
  have c: "ran (tree q c) = {c}" "tight q c" using bare_space(1) [OF B(3)] by (auto simp: tight_def)
  have fresh: "c \<notin> ran (tree q r)" if "r \<in> R" for r using sub [OF that] B(1) tr [OF that] by auto
  have "k \<noteq> c" using B(1) S(2) by blast
  have each: "space_inv q r \<and> tight q r \<and> k \<notin> ran (tree q r)" if r: "r \<in> insert c R" for r
  proof (cases "r = c")
    case True
    then show ?thesis using c bare_space(2) [OF B(3)] \<open>k \<noteq> c\<close> by simp
  next
    case False
    then have "r \<in> R" using r by simp
    then show ?thesis using sp tr tight_same_tree S(4,5) by metis
  qed
  have "ran (tree q r1) \<inter> ran (tree q r2) = {}" if "r1 \<in> insert c R" "r2 \<in> insert c R" "r1 \<noteq> r2" for r1 r2
    using that S(6) [of r1 r2] tr c(1) fresh by auto
  then show "spaces_inv q k (insert c R)" unfolding spaces_inv_def using ok B(2) S(2) each by blast
  have "(\<Union>r\<in>R. ran (tree q r)) = (\<Union>r\<in>R. ran (tree p r))" using tr by auto
  then show "residue q (insert c R) = residue p R" unfolding residue_def using c(1) B(1,2) by auto
qed

lemma freed_others:
  assumes inv: "spaces_inv p k R" and r: "r \<in> R" and f: "freed (ran (tree p r)) p q"
  shows "spaces_inv q k (R - {r})" and "\<And>r'. r' \<in> R \<Longrightarrow> r' \<noteq> r \<Longrightarrow> same_view p r' q" and "ph_words q k = ph_words p k"
    and "residue q (R - {r}) = residue p R"
proof -
  note S = spaces_invD [OF inv]
  have F: "phys_ok q" "ph_words q = ph_words p" "alloc_set q = alloc_set p - ran (tree p r)" using f by (simp_all add: freed_def)
  then show "ph_words q k = ph_words p k" by simp
  show view: "same_view p r' q" if "r' \<in> R" "r' \<noteq> r" for r' by (rule words_view [OF S(3) [OF that(1)]]) (simp add: F(2))
  have tr: "tree q r' = tree p r'" if "r' \<in> R" "r' \<noteq> r" for r' using view [OF that] by (simp add: same_view_def)
  have each: "space_inv q r' \<and> tight q r' \<and> k \<notin> ran (tree q r')" if r': "r' \<in> R" "r' \<noteq> r" for r'
  proof -
    have "space_inv q r'"
    proof (rule space_inv_words_same [OF S(3) [OF r'(1)] _ F(1)])
      show "f \<in> alloc_set q" if "tree p r' \<pi> = Some f" for \<pi> f
        using F(3) space_invD(3) [OF S(3) [OF r'(1)] that] S(6) [OF r'(1) r r'(2)] tree_ran [OF that] by blast
    qed (simp add: F(2))
    then show ?thesis using tr [OF r'] tight_same_tree S(4,5) [OF r'(1)] by metis
  qed
  have "ran (tree q r1) \<inter> ran (tree q r2) = {}" if "r1 \<in> R - {r}" "r2 \<in> R - {r}" "r1 \<noteq> r2" for r1 r2
    using that S(6) [of r1 r2] tr by simp
  moreover have "k \<in> alloc_set q" using F(3) S(2) S(5) [OF r] by simp
  ultimately show "spaces_inv q k (R - {r})" unfolding spaces_inv_def using F(1) each by blast
  have "(\<Union>r'\<in>R - {r}. ran (tree q r')) = (\<Union>r'\<in>R - {r}. ran (tree p r'))" using tr by auto
  moreover have "(\<Union>r'\<in>R. ran (tree p r')) = ran (tree p r) \<union> (\<Union>r'\<in>R - {r}. ran (tree p r'))" using r by blast
  ultimately show "residue q (R - {r}) = residue p R" unfolding residue_def F(3) by auto
qed

end
