(* ===== verification/Space_Safety.thy ===== *)
theory Space_Safety
  imports Space_System
begin

unbundle bit_operations_syntax

text \<open>
  The memory operations of the kernel over all address spaces, and what they guarantee: they never panic, a
  process sees only what the kernel does in its own space, and destroying a space returns exactly its frames.
\<close>

section \<open>Loading a page\<close>

lemma inserted_bytes:
  assumes inv: "space_inv p r" and i: "inserted p r a f pm q" and a: "page_address a" and b: "lower_half b"
  shows "user_byte q r b = (if page_base b = a then Some 0 else user_byte p r b)"
proof -
  note I = insertedD [OF i]
  have v: "page_view q r b = (if page_base b = a then Some (leaf_entry f pm) else page_view p r b)"
    using I(10) [OF page_base_address [OF b]] by (simp add: page_view_base)
  show ?thesis
  proof (cases "page_base b = a")
    case True
    have pf: "tree q r (page_path a) = Some f" using I(9) [of "page_path a"] by (simp add: page_path_def)
    have "f \<in> alloc_set q" by (rule space_invD(3) [OF I(1) pf])
    then have fa: "frame_address f" using alloc_set_frame(1) [OF space_invD(1) [OF I(1)]] by blast
    have "frame_byte (\<lambda>_. 0) n = 0" for n by (simp add: frame_byte_def word_byte_def)
    then show ?thesis using True v I(4) leaf_entry_simps(2) [OF fa] by (simp add: user_byte_def)
  next
    case False
    show ?thesis
    proof (cases "page_view p r b")
      case None
      then show ?thesis using False v by (simp add: user_byte_def)
    next
      case (Some e)
      then show ?thesis using False v I(11) [OF Some] by (simp add: user_byte_def)
    qed
  qed
qed

text \<open>\<open>loaded_page p r a pm off data q\<close>: the new page \<open>a\<close> holds \<open>data\<close> at \<open>off\<close> and zeros around it.\<close>

definition loaded_page :: "physical \<Rightarrow> nat \<Rightarrow> nat \<Rightarrow> page_permissions \<Rightarrow> nat \<Rightarrow> bytes \<Rightarrow> physical \<Rightarrow> bool" where
  "loaded_page p r a pm off data q \<longleftrightarrow> local_step p r q \<and> page_address a \<and> page_size \<le> a \<and> page_view p r a = None \<and>
     (\<exists>f. frame_address f \<and>
        (\<forall>b. page_address b \<longrightarrow> page_view q r b = (if b = a then Some (leaf_entry f pm) else page_view p r b))) \<and>
     (\<forall>b. lower_half b \<longrightarrow> user_byte q r b =
        (if page_base b = a
         then Some (if off \<le> b - a \<and> b - a < off + length data then data ! (b - a - off) else 0) else user_byte p r b))"

lemma virtual_page_newD:
  "virtual_page_new a = Some page \<Longrightarrow> page = VirtualPage a \<and> page_address a \<and> page_size \<le> a"
  by (auto simp: virtual_page_new_def page_address_def dvd_eq_mod_eq_0 split: if_splits)

lemma page_base_of_page: "page_address a \<Longrightarrow> n < page_size \<Longrightarrow> page_base (a + n) = a"
  by (auto simp: page_address_def page_base_def dvd_def)

lemma fill_page:
  assumes inv: "space_inv p r" and tight: "tight p r" and i: "inserted p r a f pm q" and a: "page_address a" "page_size \<le> a"
    and none: "page_view p r a = None" and len: "off + length data \<le> page_size"
  obtains u where "initialize_bytes q f off data = (Ok (), u)" "loaded_page p r a pm off data u"
proof -
  note I = insertedD [OF i]
  have low: "lower_half a" using a(1) by (simp add: page_address_def lower_half_def)
  have pf: "tree q r (page_path a) = Some f" using I(9) [of "page_path a"] by (simp add: page_path_def)
  have f: "f \<in> alloc_set q" by (rule space_invD(3) [OF I(1) pf])
  have fa: "frame_address f" "ph_pointer q f" using alloc_set_frame [OF space_invD(1) [OF I(1)] f] by auto
  let ?u = "q\<lparr>ph_words := (ph_words q)(f := put_bytes (ph_words q f) off data)\<rparr>"
  have run: "initialize_bytes q f off data = (Ok (), ?u)"
    using f fa(2) len by (simp add: initialize_bytes_def alloc_set_def)
  have st: "bytes_stored q r (a + off) data ?u"
  proof (cases "data = []")
    case True
    then show ?thesis using bytes_stored_Nil [OF I(1)] by simp
  next
    case False
    then have off: "off < page_size" using len by (cases data) auto
    have "page_view q r (a + off) = Some (leaf_entry f pm)"
      using page_view_base [of q r "a + off"] page_base_of_page [OF a(1) off] I(10) [OF a(1)] by simp
    moreover have "lower_half (a + off)"
      using a(1) off by (auto simp: lower_half_def page_address_def dvd_def)
    moreover have "(a + off) mod page_size = off" using a(1) off by (auto simp: page_address_def dvd_def)
    ultimately show ?thesis using put_page [OF I(1), of "a + off" "leaf_entry f pm" data] len leaf_entry_simps(2) [OF fa(1)] by simp
  qed
  note S = bytes_storedD [OF st]
  have loc: "local_step p r ?u"
    by (rule local_step_trans [OF inserted_local [OF i tight] bytes_stored_local [OF st I(8) [OF tight]]])
  have bytes: "user_byte ?u r b = (if page_base b = a
      then Some (if off \<le> b - a \<and> b - a < off + length data then data ! (b - a - off) else 0) else user_byte p r b)"
    if b: "lower_half b" for b
  proof -
    have in_page: "page_base b = a" if "a + off \<le> b" "b < a + off + length data"
      using page_base_of_page [OF a(1), of "b - a"] that len by simp
    have "a \<le> b" if "page_base b = a" using page_base_split [of b] that by simp
    then show ?thesis
      using S(6) [OF b] inserted_bytes [OF inv i a(1) b] in_page by (auto simp: diff_diff_eq le_diff_conv2 add.commute less_diff_conv2)
  qed
  have "loaded_page p r a pm off data ?u"
    unfolding loaded_page_def S(5) using loc a none fa(1) I(10) bytes by blast
  then show ?thesis using that run by blast
qed

text \<open>The requests for which only the lack of frames is an error.\<close>

definition loadable :: "nat \<Rightarrow> page_permissions \<Rightarrow> nat \<Rightarrow> bytes \<Rightarrow> bool" where
  "loadable a pm off data \<longleftrightarrow>
     perm_user pm \<and> perm_valid pm \<and> off + length data \<le> page_size \<and> page_address a \<and> page_size \<le> a"

lemma load_page_cases:
  assumes inv: "space_inv p (as_root s)" and tight: "tight p (as_root s)" and l: "load_page active s a pm off data p = (res, q)"
  obtains (loaded) "res = Ok ()" "perm_user pm" "perm_valid pm" "loaded_page p (as_root s) a pm off data q"
      "free_frames p \<le> free_frames q + 4"
  | (refused) e where "res = Err e" "same_space p (as_root s) q"
      "e = MemFrames FrExhausted \<and> free_frames p < 4 \<or> \<not> loadable a pm off data \<or> as_root s = active \<or> page_view p (as_root s) a \<noteq> None"
proof -
  let ?r = "as_root s"
  have ok: "phys_ok p" using space_invD(1) [OF inv] .
  have same: "same_space p ?r p" by (rule same_memory_space [OF same_memory_refl [OF ok] inv])
  show ?thesis
  proof (cases "\<not> perm_user pm \<or> off + length data > page_size \<or> as_is_active active s \<or> virtual_page_new a = None")
    case True
    then have "res = Err MemInvalidAddress" "q = p" using l by (auto simp: load_page_def split: if_splits)
    moreover have "\<not> loadable a pm off data \<or> as_root s = active"
      using True by (auto simp: loadable_def as_is_active_def virtual_page_new_def page_address_def dvd_eq_mod_eq_0 split: if_splits)
    ultimately show ?thesis using refused same by blast
  next
    case False
    then obtain page where page: "virtual_page_new a = Some page" by blast
    note P = virtual_page_newD [OF page]
    have va: "virtual_page_address page = a" "page_address (virtual_page_address page)" using P by simp_all
    have low: "lower_half a" using P by (simp add: page_address_def lower_half_def)
    note step = l [unfolded load_page_def]
    show ?thesis
    proof (cases "perm_valid pm")
      case bad: False
      then have "res = Err MemWritableExecutable" "q = p"
        using step False page space_invD(2) [OF inv] by (auto simp: as_map_zeroed_def)
      moreover have "\<not> loadable a pm off data" using bad by (simp add: loadable_def)
      ultimately show ?thesis using refused same by blast
    next
      case pm: True
      from inv va(2) pm show ?thesis
      proof (cases rule: map_zeroed_cases)
        case (mapped e)
        then have "res = Err MemAlreadyMapped" "q = p" using step False page by auto
        then show ?thesis using refused same mapped(1) va(1) by auto
      next
        case (exhausted u)
        then have "res = Err (MemFrames FrExhausted)" "q = u" using step False page by auto
        then show ?thesis using refused same_memory_space [OF exhausted(3) inv] exhausted(4) by blast
      next
        case (inserted f u)
        note ins = inserted(3) [unfolded va(1)] and I = insertedD [OF inserted(3) [unfolded va(1)]]
        have len: "off + length data \<le> page_size" using False by simp
        obtain w where w: "initialize_bytes u f off data = (Ok (), w)" "loaded_page p ?r a pm off data w"
          using fill_page [OF inv tight ins _ _ inserted(1) [unfolded va(1)] len] P by blast
        have pf: "tree u ?r (page_path a) = Some f" using I(9) [of "page_path a"] by (simp add: page_path_def)
        have e: "page_view u ?r a = Some (leaf_entry f pm)" using I(10) P by simp
        have fa: "frame_address f" using alloc_set_frame(1) [OF space_invD(1) [OF I(1)] space_invD(3) [OF I(1) pf]] .
        have "mp_physical (mapping_of a (leaf_entry f pm)) = f"
          using page_frame(3) [OF I(1) e] leaf_entry_simps(2) [OF fa] P by (auto simp: page_address_def dvd_eq_mod_eq_0)
        then have r: "res = Ok ()" "q = w"
          using step False page inserted(2) pt_lookup_view [OF I(1) low] e w(1) by auto
        have "free_frames w = free_frames u" using w(1) by (auto simp: initialize_bytes_def free_frames_def split: if_splits)
        then show ?thesis using loaded r False pm w(2) inserted(4) by auto
      qed
    qed
  qed
qed

section \<open>Sequences of operations\<close>

datatype space_op = SpCreate | SpLoad nat nat page_permissions nat bytes | SpMap nat nat nat bool | SpUnmap nat nat nat
  | SpWrite nat nat bytes | SpDestroy nat

primrec op_target :: "space_op \<Rightarrow> nat option" where
  "op_target SpCreate = None"
| "op_target (SpLoad r a pm off data) = Some r"
| "op_target (SpMap r base n w) = Some r"
| "op_target (SpUnmap r base n) = Some r"
| "op_target (SpWrite r a data) = Some r"
| "op_target (SpDestroy r) = Some r"

abbreviation user_space :: "nat \<Rightarrow> address_space" where
  "user_space r \<equiv> \<lparr>as_root = r, as_kernel = False\<rparr>"

text \<open>
  One call on the spaces \<open>R\<close> that exist: whether it panicked, the memory, and the spaces that exist then. A call on a
  space that does not exist cannot be written in the source and does nothing here.
\<close>

definition space_op_run :: "nat \<Rightarrow> nat \<Rightarrow> space_op \<Rightarrow> physical \<Rightarrow> nat list \<Rightarrow> bool \<times> physical \<times> nat list" where
  "space_op_run active k x p R =
     (case x of
        SpCreate \<Rightarrow>
          (case create_user \<lparr>as_root = k, as_kernel = True\<rparr> p of
             (Ok s, q) \<Rightarrow> (False, q, as_root s # R) | (Err e, q) \<Rightarrow> (False, q, R) | (Panic, q) \<Rightarrow> (True, q, R))
      | SpLoad r a pm off data \<Rightarrow>
          if r \<in> set R then case load_page active (user_space r) a pm off data p of (res, q) \<Rightarrow> (res = Panic, q, R) else (False, p, R)
      | SpMap r base n w \<Rightarrow>
          if r \<in> set R then case map_user_pages active (user_space r) base n w p of (res, q) \<Rightarrow> (res = Panic, q, R) else (False, p, R)
      | SpUnmap r base n \<Rightarrow>
          if r \<in> set R then case unmap_user_pages active (user_space r) base n p of (res, q) \<Rightarrow> (res = Panic, q, R) else (False, p, R)
      | SpWrite r a data \<Rightarrow>
          if r \<in> set R then case copy_to_user active (user_space r) a data p of (res, q) \<Rightarrow> (res = Panic, q, R) else (False, p, R)
      | SpDestroy r \<Rightarrow>
          if r \<in> set R
          then case destroy_user active (user_space r) p of (res, s, q) \<Rightarrow> (res = Panic, q, if res = Ok () then remove1 r R else R)
          else (False, p, R))"

primrec space_ops_run :: "nat \<Rightarrow> nat \<Rightarrow> space_op list \<Rightarrow> physical \<Rightarrow> nat list \<Rightarrow> bool \<times> physical \<times> nat list" where
  "space_ops_run active k [] p R = (False, p, R)"
| "space_ops_run active k (x # xs) p R =
     (case space_op_run active k x p R of (bad, q, R') \<Rightarrow> if bad then (True, q, R') else space_ops_run active k xs q R')"

text \<open>The copies, on every branch.\<close>

lemma accessible_mapped: "buffer_ok active p s w a n \<Longrightarrow> \<forall>b\<in>{a..<a + n}. page_view p (as_root s) b \<noteq> None"
  by (auto simp: buffer_ok_def accessible_def split: option.splits)

lemma copy_to_user_cases:
  assumes inv: "space_inv p (as_root s)"
  obtains (copied) q where "buffer_ok active p s True a (length data)" "copy_to_user active s a data p = (Ok (), q)"
      "bytes_stored p (as_root s) a data q"
  | (refused) "\<not> buffer_ok active p s True a (length data)" "copy_to_user active s a data p = (Err MemInvalidAddress, p)"
proof (cases "buffer_ok active p s True a (length data)")
  case True
  then have "a + length data \<le> 2 ^ 47" by (simp add: buffer_ok_def)
  then obtain q where "copy_out s a data p = (Ok (), q)" "bytes_stored p (as_root s) a data q"
    using copy_out_value [OF inv _ accessible_mapped [OF True]] by blast
  then show ?thesis using copied True validate_buffer_value [OF inv] by (simp add: copy_to_user_def)
next
  case False
  then show ?thesis using refused validate_buffer_value [OF inv] by (simp add: copy_to_user_def)
qed

lemma copy_from_user_value:
  assumes inv: "space_inv p (as_root s)"
  shows "copy_from_user active p s a n =
    (if buffer_ok active p s False a n then Ok (map (\<lambda>b. the (user_byte p (as_root s) b)) [a..<a + n]) else Err MemInvalidAddress)"
proof (cases "buffer_ok active p s False a n")
  case True
  then have "a + n \<le> 2 ^ 47" by (simp add: buffer_ok_def)
  then show ?thesis
    using True copy_in_value [OF inv _ accessible_mapped [OF True]] validate_buffer_value [OF inv] by (simp add: copy_from_user_def)
next
  case False
  then show ?thesis using validate_buffer_value [OF inv] by (simp add: copy_from_user_def)
qed

definition spaces_step :: "nat \<Rightarrow> space_op \<Rightarrow> physical \<Rightarrow> nat list \<Rightarrow> physical \<Rightarrow> nat list \<Rightarrow> bool" where
  "spaces_step k x p R q R' \<longleftrightarrow> spaces_inv q k (set R') \<and> distinct R' \<and> residue q (set R') = residue p (set R) \<and>
     ph_words q k = ph_words p k \<and>
     (\<forall>r\<in>set R. op_target x \<noteq> Some r \<longrightarrow> r \<in> set R' \<and> same_view p r q)"

lemma local_spaces_step:
  assumes inv: "spaces_inv p k (set R)" and d: "distinct R" and r: "r \<in> set R" and step: "local_step p r q" and x: "op_target x = Some r"
  shows "spaces_step k x p R q R"
  unfolding spaces_step_def using local_step_others [OF inv r step] d x by blast

lemma idle_spaces_step:
  assumes "spaces_inv p k (set R)" and "distinct R"
  shows "spaces_step k x p R p R"
  unfolding spaces_step_def using assms same_view_refl by blast

lemma space_op_safe:
  assumes inv: "spaces_inv p k (set R)" and d: "distinct R" and run: "space_op_run active k x p R = (bad, q, R')"
  shows "\<not> bad \<and> spaces_step k x p R q R'"
proof (cases "op_target x")
  case None
  then have x: "x = SpCreate" by (cases x) simp_all
  note S = spaces_invD [OF inv]
  let ?k = "\<lparr>as_root = k, as_kernel = True\<rparr>"
  have "as_kernel ?k" "as_root ?k \<in> alloc_set p" using S(2) by simp_all
  with S(1) show ?thesis
  proof (cases rule: child_cases)
    case exhausted
    then show ?thesis using run x idle_spaces_step [OF inv d] by (simp add: space_op_run_def create_user_def)
  next
    case (born c u)
    then have e: "\<not> bad" "q = u" "R' = c # R" using run x by (simp_all add: space_op_run_def create_user_def)
    note B = born_others [OF inv born(2) [simplified]]
    show ?thesis unfolding spaces_step_def using e B d x by auto
  qed
next
  case (Some r)
  show ?thesis
  proof (cases "r \<in> set R")
    case False
    then have "\<not> bad \<and> q = p \<and> R' = R" using run Some by (cases x) (auto simp: space_op_run_def)
    then show ?thesis using idle_spaces_step [OF inv d] by simp
  next
    case True
    have sp: "space_inv p (as_root (user_space r))" and tight: "tight p (as_root (user_space r))"
      using spaces_invD(3,4) [OF inv True] by simp_all
    have loc: "\<not> bad \<and> spaces_step k x p R q R'" if "local_step p r u" "\<not> bad \<and> q = u \<and> R' = R" for u
      using local_spaces_step [OF inv d True that(1) Some] that(2) by simp
    show ?thesis
    proof (cases x)
      case SpCreate
      then show ?thesis using Some by simp
    next
      case (SpLoad r' a pm off data)
      obtain res u where l: "load_page active (user_space r) a pm off data p = (res, u)" by fastforce
      have "local_step p r u \<and> res \<noteq> Panic"
        using sp tight l by (cases rule: load_page_cases) (use tight in \<open>auto simp: loaded_page_def same_space_local\<close>)
      then show ?thesis using loc [of u] run Some SpLoad l True by (simp add: space_op_run_def)
    next
      case (SpMap r' base n w)
      obtain res u where l: "map_user_pages active (user_space r) base n w p = (res, u)" by fastforce
      have "local_step p r u \<and> res \<noteq> Panic"
        using sp tight l by (cases rule: map_user_pages_cases) (use tight in \<open>auto simp: same_space_local mapped_local\<close>)
      then show ?thesis using loc [of u] run Some SpMap l True by (simp add: space_op_run_def)
    next
      case (SpUnmap r' base n)
      obtain res u where l: "unmap_user_pages active (user_space r) base n p = (res, u)" by fastforce
      have "local_step p r u \<and> res \<noteq> Panic"
        using sp tight l by (cases rule: unmap_user_pages_cases) (auto dest: unmapped_local)
      then show ?thesis using loc [of u] run Some SpUnmap l True by (simp add: space_op_run_def)
    next
      case (SpWrite r' a data)
      obtain res u where l: "copy_to_user active (user_space r) a data p = (res, u)" by fastforce
      have "local_step p r u \<and> res \<noteq> Panic"
        using sp by (cases rule: copy_to_user_cases [where active = active and a = a and data = data])
          (use l tight local_step_refl [OF sp tight] in \<open>auto dest: bytes_stored_local\<close>)
      then show ?thesis using loc [of u] run Some SpWrite l True by (simp add: space_op_run_def)
    next
      case (SpDestroy r')
      show ?thesis
      proof (cases "r = active")
        case True
        then have "destroy_user active (user_space r) p = (Err MemActiveSpace, user_space r, p)"
          by (simp add: destroy_user_def as_destroy_def)
        then have "\<not> bad \<and> q = p \<and> R' = R" using run Some SpDestroy \<open>r \<in> set R\<close> by (auto simp: space_op_run_def)
        then show ?thesis using idle_spaces_step [OF inv d] by simp
      next
        case False
        obtain u where u: "as_destroy active (user_space r) p = (Ok (), (user_space r)\<lparr>as_root := 0\<rparr>, u)" "freed (ran (tree p r)) p u"
          using destroy_value [OF sp, of active] False by auto
        then have e: "\<not> bad" "q = u" "R' = remove1 r R"
          using run Some SpDestroy \<open>r \<in> set R\<close> by (simp_all add: space_op_run_def destroy_user_def)
        note F = freed_others [OF inv \<open>r \<in> set R\<close> u(2)]
        show ?thesis unfolding spaces_step_def using e F d Some by (auto simp: set_remove1_eq)
      qed
    qed
  qed
qed

lemma space_ops_safe:
  assumes "spaces_inv p k (set R)" and "distinct R" and "space_ops_run active k xs p R = (bad, q, R')"
  shows "\<not> bad \<and> spaces_inv q k (set R') \<and> distinct R' \<and> residue q (set R') = residue p (set R) \<and> ph_words q k = ph_words p k \<and>
    (\<forall>r\<in>set R. (\<forall>x\<in>set xs. op_target x \<noteq> Some r) \<longrightarrow> r \<in> set R' \<and> same_view p r q)"
  using assms
proof (induction xs arbitrary: p R)
  case Nil
  then show ?case using same_view_refl by auto
next
  case (Cons x xs)
  obtain bad1 u R1 where one: "space_op_run active k x p R = (bad1, u, R1)" using prod_cases3 by blast
  note step = space_op_safe [OF Cons.prems(1,2) one, unfolded spaces_step_def]
  have rest: "space_ops_run active k xs u R1 = (bad, q, R')" using Cons.prems(3) one step by simp
  note ih = Cons.IH [OF _ _ rest]
  show ?case
  proof (intro conjI ballI impI)
    fix r
    assume r: "r \<in> set R" "\<forall>y\<in>set (x # xs). op_target y \<noteq> Some r"
    then have "r \<in> set R1" "same_view p r u" using step by auto
    moreover have "r \<in> set R'" "same_view u r q" using ih step r(2) \<open>r \<in> set R1\<close> by auto
    ultimately show "r \<in> set R'" "same_view p r q" using same_view_trans by auto
  qed (use ih step in auto)
qed

section \<open>A concrete memory\<close>

text \<open>Seven managed frames; the first is the root of the kernel, the second the root of an empty space.\<close>

definition demo_physical :: physical where
  "demo_physical =
     \<lparr>ph_frames = \<lparr>fr_managed = [254], fr_allocated = [6], fr_free = 5, fr_total = 7, fr_cursor = 0\<rparr>, ph_words = (\<lambda>_ _. 0)\<rparr>"

lemma marked_run:
  assumes "k + m \<le> 64" and "w = push_bit k (mask m)"
  shows "marked [w] = {k..<k + m}"
proof (rule set_eqI)
  fix i
  have "i \<in> marked [w] \<longleftrightarrow> i < 64 \<and> bit w i" by (cases "i < 64") (simp_all add: marked_def)
  then show "i \<in> marked [w] \<longleftrightarrow> i \<in> {k..<k + m}" using shifted_mask_bit [OF assms(1), of i] assms by auto
qed

lemma demo_physical_marked: "marked [254] = {1..<8}" "marked [6] = {1..<3}"
proof -
  have w: "(254 :: u64) = push_bit 1 (mask 7)" "(6 :: u64) = push_bit 1 (mask 2)"
    by (simp_all add: mask_eq_exp_minus_1 push_bit_eq_mult)
  show "marked [254] = {1..<8}" "marked [6] = {1..<3}"
    using marked_run [OF _ w(1)] marked_run [OF _ w(2)] by simp_all
qed

lemma demo_physical_ok: "phys_ok demo_physical" "alloc_set demo_physical = {4096, 8192}"
proof -
  have av: "available (ph_frames demo_physical) = {3..<8}"
    by (auto simp: available_def demo_physical_def demo_physical_marked)
  have inv: "frames_inv (ph_frames demo_physical)"
    using av by (auto simp: frames_inv_def demo_physical_def demo_physical_marked)
  then show "phys_ok demo_physical"
    by (simp add: phys_ok_def address_limit_def demo_physical_def demo_physical_marked)
  have "marked (fr_allocated (ph_frames demo_physical)) = {1, 2}" by (auto simp: demo_physical_def demo_physical_marked)
  then show "alloc_set demo_physical = {4096, 8192}"
    using is_allocated_iff [OF inv] by (auto simp: alloc_set_def)
qed

lemma demo_spaces: "spaces_inv demo_physical 4096 {8192}" "bare demo_physical 8192" "free_frames demo_physical = 5"
proof -
  show b: "bare demo_physical 8192" using demo_physical_ok by (simp add: bare_def) (simp add: demo_physical_def)
  show "spaces_inv demo_physical 4096 {8192}"
    using demo_physical_ok bare_space(1,2) [OF b] by (auto simp: spaces_inv_def tight_def)
  show "free_frames demo_physical = 5" by (simp add: free_frames_def demo_physical_def)
qed

section \<open>Properties\<close>

text \<open>C17 Isolation of address spaces. Whatever sequence of creations, loads, mappings, unmappings, writes and
  destructions the kernel performs, no assertion or \<open>expect\<close> of the page-table code fails, the spaces that exist
  stay well formed and share no frame, and a space that none of the calls names keeps every mapping, permission and
  byte. The frames outside all spaces are the same at the end, so no frame leaks and none is returned twice.\<close>

theorem address_spaces_isolated:
  assumes "spaces_inv p k (set R)" and "distinct R" and "space_ops_run active k xs p R = (bad, q, R')"
  shows "\<not> bad \<and> spaces_inv q k (set R') \<and>
    (\<forall>r\<in>set R. (\<forall>x\<in>set xs. op_target x \<noteq> Some r) \<longrightarrow> r \<in> set R' \<and> same_view p r q) \<and>
    residue q (set R') = residue p (set R)"
  using space_ops_safe [OF assms] by blast

theorem address_spaces_isolated_witness:
  "\<exists>q R'. space_ops_run 4096 4096 [SpCreate, SpDestroy 12288, SpCreate] demo_physical [8192] = (False, q, R') \<and>
    8192 \<in> set R' \<and> same_view demo_physical 8192 q"
proof -
  obtain bad q R' where run: "space_ops_run 4096 4096 [SpCreate, SpDestroy 12288, SpCreate] demo_physical [8192] = (bad, q, R')"
    using prod_cases3 by blast
  have "spaces_inv demo_physical 4096 (set [8192])" "distinct [8192 :: nat]" using demo_spaces(1) by simp_all
  from address_spaces_isolated [OF this run] show ?thesis using run by auto
qed

text \<open>C18 Mapping a run of heap pages is all or nothing. On success exactly the pages of the run are new, each on
  its own zeroed frame that was free before, readable by the process, writable as asked and never executable, and no
  other page or byte has changed; it succeeds when the range is in user memory, unmapped, and four frames per page
  are free. On failure the space and the frame allocator are as they were.\<close>

theorem map_user_pages_all_or_nothing:
  assumes inv: "space_inv p (as_root s)" and tight: "tight p (as_root s)" and run: "map_user_pages active s base n w p = (res, q)"
  shows "(res = Ok () \<and>
      (\<forall>b\<in>run_set base n. page_view p (as_root s) b = None \<and>
         (\<exists>f. f \<notin> alloc_set p \<and> ph_words q f = (\<lambda>_. 0) \<and>
            pt_lookup q (as_root s) b = Ok (Some \<lparr>mp_physical = f, mp_writable = w, mp_executable = False, mp_user = True\<rparr>))) \<and>
      (\<forall>b. page_address b \<longrightarrow> b \<notin> run_set base n \<longrightarrow> page_view q (as_root s) b = page_view p (as_root s) b)) \<or>
    ((\<exists>e. res = Err e) \<and> tree q (as_root s) = tree p (as_root s) \<and> alloc_set q = alloc_set p \<and>
      (\<forall>b. page_address b \<longrightarrow> page_view q (as_root s) b = page_view p (as_root s) b) \<and>
      (as_root s = active \<or> free_frames p < 4 * n \<or>
       (\<exists>i<n. page_of base i = Err MemInvalidAddress \<or> page_view p (as_root s) (run_page base i) \<noteq> None)))"
  using inv tight run
proof (cases rule: map_user_pages_cases)
  case mapped
  note M = mapped_setD [OF mapped(3)]
  have "\<exists>f. f \<notin> alloc_set p \<and> ph_words q f = (\<lambda>_. 0) \<and>
      pt_lookup q (as_root s) b = Ok (Some \<lparr>mp_physical = f, mp_writable = w, mp_executable = False, mp_user = True\<rparr>)"
    if b: "b \<in> run_set base n" for b
  proof -
    have pa: "page_address b" using M(8) [OF b] by blast
    have low: "lower_half b" using pa by (simp add: page_address_def lower_half_def)
    obtain f where f: "f \<notin> alloc_set p" "page_view q (as_root s) b = Some (leaf_entry f (heap_permissions w))"
      "ph_words q f = (\<lambda>_. 0)" "frame_address f" using M(9) [OF b] by blast
    note e = leaf_entry_simps [OF f(4), of "heap_permissions w"]
    have "mapping_of b (leaf_entry f (heap_permissions w)) =
        \<lparr>mp_physical = f, mp_writable = w, mp_executable = False, mp_user = True\<rparr>"
      using e page_frame(3) [OF M(1) f(2)] pa by (auto simp: mapping_of_def page_address_def dvd_eq_mod_eq_0)
    then show ?thesis using f pt_lookup_view [OF M(1) low] by auto
  qed
  then show ?thesis using mapped(1) M(8,10) by blast
next
  case (refused e)
  have "as_root s = active \<or> free_frames p < 4 * n \<or>
      (\<exists>i<n. page_of base i = Err MemInvalidAddress \<or> page_view p (as_root s) (run_page base i) \<noteq> None)"
    using refused(3) by (auto simp: refused_by_def as_is_active_def)
  then show ?thesis using refused(1,2) by (simp add: same_space_def)
qed

theorem map_user_pages_all_or_nothing_witness:
  "\<exists>q f. map_user_pages 4096 (user_space 8192) 0x10000000 1 True demo_physical = (Ok (), q) \<and>
    pt_lookup q 8192 0x10000000 = Ok (Some \<lparr>mp_physical = f, mp_writable = True, mp_executable = False, mp_user = True\<rparr>)"
proof -
  obtain res q where run: "map_user_pages 4096 (user_space 8192) 0x10000000 1 True demo_physical = (res, q)" by fastforce
  have sp: "space_inv demo_physical (as_root (user_space 8192))" "tight demo_physical (as_root (user_space 8192))"
    using bare_space(1,2) [OF demo_spaces(2)] by (simp_all add: tight_def)
  have "page_of 0x10000000 0 \<noteq> Err MemInvalidAddress"
    by (simp add: page_of_def checked_add64_def virtual_page_new_def u64_limit_def)
  moreover have "page_view demo_physical 8192 a = None" for a by (rule bare_space(3) [OF demo_spaces(2)])
  moreover have "run_set 0x10000000 1 = {0x10000000}" by (simp add: run_set_def run_page_def lessThan_Suc)
  ultimately show ?thesis
    using map_user_pages_all_or_nothing [OF sp run] run demo_spaces(3) by auto
qed

text \<open>C19 Copies between kernel and process. A range is accepted exactly when it is short, in user memory and every
  byte of it is on a page the process itself may read (or write); any other range is refused with nothing touched.
  A copy in returns the bytes of the process; a copy out writes exactly these bytes, and a copy in afterwards reads
  them back. No copy panics.\<close>

theorem user_copies_exact:
  assumes inv: "space_inv p (as_root s)"
  shows "copy_from_user active p s a n =
      (if buffer_ok active p s False a n then Ok (map (\<lambda>b. the (user_byte p (as_root s) b)) [a..<a + n]) else Err MemInvalidAddress) \<and>
    (case copy_to_user active s a data p of (res, q) \<Rightarrow>
      if buffer_ok active p s True a (length data)
      then res = Ok () \<and> page_view q (as_root s) = page_view p (as_root s) \<and>
        (\<forall>b. lower_half b \<longrightarrow> user_byte q (as_root s) b =
           (if a \<le> b \<and> b < a + length data then Some (data ! (b - a)) else user_byte p (as_root s) b)) \<and>
        copy_from_user active q s a (length data) = Ok data
      else res = Err MemInvalidAddress \<and> q = p)"
proof
  show "copy_from_user active p s a n =
      (if buffer_ok active p s False a n then Ok (map (\<lambda>b. the (user_byte p (as_root s) b)) [a..<a + n]) else Err MemInvalidAddress)"
    by (rule copy_from_user_value [OF inv])
  from inv show "case copy_to_user active s a data p of (res, q) \<Rightarrow>
      if buffer_ok active p s True a (length data)
      then res = Ok () \<and> page_view q (as_root s) = page_view p (as_root s) \<and>
        (\<forall>b. lower_half b \<longrightarrow> user_byte q (as_root s) b =
           (if a \<le> b \<and> b < a + length data then Some (data ! (b - a)) else user_byte p (as_root s) b)) \<and>
        copy_from_user active q s a (length data) = Ok data
      else res = Err MemInvalidAddress \<and> q = p"
  proof (cases rule: copy_to_user_cases [where active = active and a = a and data = data])
    case (copied q)
    note S = bytes_storedD [OF copied(3)]
    have "buffer_ok active q s False a (length data)"
      using copied(1) S(5) by (auto simp: buffer_ok_def accessible_def split: option.splits)
    moreover have "map (\<lambda>b. the (user_byte q (as_root s) b)) [a..<a + length data] = data"
    proof (rule nth_equalityI)
      fix i
      assume i: "i < length (map (\<lambda>b. the (user_byte q (as_root s) b)) [a..<a + length data])"
      have "lower_half (a + i)" using i copied(1) by (auto simp: buffer_ok_def lower_half_def)
      then show "map (\<lambda>b. the (user_byte q (as_root s) b)) [a..<a + length data] ! i = data ! i" using S(6) i by simp
    qed simp
    ultimately show ?thesis using copied(1,2) S(5,6) copy_from_user_value [OF S(1)] by auto
  qed auto
qed

lemma demo_mapped:
  obtains q where "mapped_set demo_physical 8192 {0x10000000} (heap_permissions True) q"
proof -
  obtain res q where run: "map_user_pages 4096 (user_space 8192) 0x10000000 1 True demo_physical = (res, q)" by fastforce
  have sp: "space_inv demo_physical (as_root (user_space 8192))" "tight demo_physical (as_root (user_space 8192))"
    using bare_space(1,2) [OF demo_spaces(2)] by (simp_all add: tight_def)
  have page: "page_of 0x10000000 0 \<noteq> Err MemInvalidAddress"
    by (simp add: page_of_def checked_add64_def virtual_page_new_def u64_limit_def)
  have none: "page_view demo_physical 8192 a = None" for a by (rule bare_space(3) [OF demo_spaces(2)])
  have one: "run_set 0x10000000 1 = {0x10000000}" by (simp add: run_set_def run_page_def lessThan_Suc)
  from sp run show ?thesis
  proof (cases rule: map_user_pages_cases)
    case mapped
    then show ?thesis using that one by simp
  next
    case (refused e)
    then show ?thesis using page none demo_spaces(3) by (auto simp: refused_by_def as_is_active_def)
  qed
qed

theorem user_copies_exact_witness:
  "\<exists>p q. copy_to_user 4096 (user_space 8192) 0x10000000 [1, 2, 3] p = (Ok (), q) \<and>
    copy_from_user 4096 q (user_space 8192) 0x10000000 3 = Ok [1, 2, 3]"
proof -
  obtain p where m: "mapped_set demo_physical 8192 {0x10000000} (heap_permissions True) p" by (rule demo_mapped)
  note M = mapped_setD [OF m]
  have sp: "space_inv p (as_root (user_space 8192))" using M(1) by simp
  obtain f where f: "page_view p 8192 0x10000000 = Some (leaf_entry f (heap_permissions True))" "frame_address f"
    using M(9) [OF singletonI] by auto
  have view: "page_view p 8192 b = Some (leaf_entry f (heap_permissions True))" if "b \<in> {0x10000000..<0x10000000 + 3}" for b
  proof -
    have "b div page_size = 0x10000000 div page_size" using that by auto
    then show ?thesis using page_view_same_page f(1) by metis
  qed
  have ok: "buffer_ok 4096 p (user_space 8192) True 0x10000000 (length [1 :: u8, 2, 3])"
    using view leaf_entry_simps(3,4) [OF f(2), of "heap_permissions True"] by (simp add: buffer_ok_def accessible_def)
  obtain res q where c: "copy_to_user 4096 (user_space 8192) 0x10000000 [1, 2, 3] p = (res, q)" by fastforce
  have "res = Ok () \<and> copy_from_user 4096 q (user_space 8192) 0x10000000 (length [1 :: u8, 2, 3]) = Ok [1, 2, 3]"
    using user_copies_exact [where active = 4096 and a = "0x10000000" and n = 0 and data = "[1, 2, 3]", OF sp] ok c by simp
  moreover have "length [1 :: u8, 2, 3] = 3" by simp
  ultimately show ?thesis using c by metis
qed

end
