(* ===== verification/Heap_Window.thy ===== *)
theory Heap_Window
  imports Bitmap
begin

unbundle bit_operations_syntax

text \<open>
  The per-process heap window of \<open>kernel/src/process/heap.rs\<close>: a bitmap of the 128 pages of the window
  and a counter of the pages owned, at most 64. Addresses and page numbers are natural numbers with the
  checked addition of the code.
\<close>

section \<open>The window\<close>

definition window_base :: nat where "window_base = 0x10000000"
definition window_pages :: nat where "window_pages = 128"
definition process_pages :: nat where "process_pages = 64"
definition window_end :: nat where "window_end = window_base + window_pages * 4096"

datatype heap_error = HpSize | HpAddress | HpInvalid | HpFull

record heap_region =
  hp_pages :: bitmap
  hp_used :: nat

definition heap_new :: heap_region where
  "heap_new = \<lparr>hp_pages = replicate (div_ceil window_pages 64) 0, hp_used = 0\<rparr>"

definition index_of :: "nat \<Rightarrow> nat \<Rightarrow> (heap_error, nat) outcome" where
  "index_of a n =
     (if a mod 4096 \<noteq> 0 \<or> a < window_base then Err HpAddress
      else let i = (a - window_base) div 4096 in
        if (case checked_add64 i n of None \<Rightarrow> True | Some e \<Rightarrow> e > window_pages) then Err HpAddress else Ok i)"

definition heap_taken :: "heap_region \<Rightarrow> nat \<Rightarrow> bool" where
  "heap_taken h i = bit_get (hp_pages h) i"

definition heap_mark :: "bool \<Rightarrow> nat \<Rightarrow> heap_region \<Rightarrow> heap_region" where
  "heap_mark owned i h =
     h\<lparr>hp_pages := (if owned then bit_set (hp_pages h) i else bit_clear (hp_pages h) i)\<rparr>"

definition heap_free :: "heap_region \<Rightarrow> nat \<Rightarrow> nat \<Rightarrow> bool" where
  "heap_free h i n \<longleftrightarrow> (\<forall>page\<in>set [i..<i + n]. \<not> heap_taken h page)"

definition lowest_fit :: "heap_region \<Rightarrow> nat \<Rightarrow> nat option" where
  "lowest_fit h n =
     (if n \<le> window_pages then find (\<lambda>i. heap_free h i n) [0..<window_pages - n + 1] else None)"

definition heap_owns :: "heap_region \<Rightarrow> nat \<Rightarrow> nat \<Rightarrow> bool" where
  "heap_owns h a n \<longleftrightarrow> n \<noteq> 0 \<and>
     (case index_of a n of Ok i \<Rightarrow> \<forall>page\<in>set [i..<i + n]. heap_taken h page | _ \<Rightarrow> False)"

definition heap_reserve :: "heap_region \<Rightarrow> nat option \<Rightarrow> nat \<Rightarrow> (heap_error, nat) outcome \<times> heap_region" where
  "heap_reserve h address n =
     (if n = 0 \<or> n > process_pages then (Err HpSize, h)
      else or_return (case address of Some a \<Rightarrow> and_then (index_of a n) (\<lambda>i. Ok (Some i)) | None \<Rightarrow> Ok None) h (\<lambda>requested.
        if hp_used h + n > process_pages then (Err HpFull, h)
        else or_return (case requested of
              Some i \<Rightarrow> if \<not> heap_free h i n then Err HpAddress else Ok i
            | None \<Rightarrow> ok_or HpAddress (lowest_fit h n)) h (\<lambda>i.
          let h' = fold (heap_mark True) [i..<i + n] h
          in (Ok (window_base + i * 4096), h'\<lparr>hp_used := hp_used h' + n\<rparr>))))"

definition heap_release :: "heap_region \<Rightarrow> nat \<Rightarrow> nat \<Rightarrow> (heap_error, unit) outcome \<times> heap_region" where
  "heap_release h a n =
     (if n = 0 then (Err HpSize, h)
      else or_return (index_of a n) h (\<lambda>i.
        if \<not> heap_owns h a n then (Err HpInvalid, h)
        else let h' = fold (heap_mark False) [i..<i + n] h
             in (Ok (), h'\<lparr>hp_used := hp_used h' - n\<rparr>)))"

section \<open>The invariant\<close>

definition owned :: "heap_region \<Rightarrow> nat set" where
  "owned h = marked (hp_pages h)"

definition heap_inv :: "heap_region \<Rightarrow> bool" where
  "heap_inv h \<longleftrightarrow> length (hp_pages h) = 2 \<and> hp_used h = card (owned h) \<and> hp_used h \<le> process_pages"

lemma heap_invD:
  assumes "heap_inv h"
  shows "length (hp_pages h) = 2" and "hp_used h = card (owned h)" and "hp_used h \<le> process_pages"
  using assms by (simp_all add: heap_inv_def)

lemma heap_new_inv: "heap_inv heap_new" "owned heap_new = {}"
  by (simp_all add: heap_inv_def heap_new_def owned_def window_pages_def div_ceil_def)

lemma finite_owned [simp]: "finite (owned h)"
  by (simp add: owned_def)

lemma fold_mark:
  "fold (heap_mark True) xs h = h\<lparr>hp_pages := fold (\<lambda>i ws. bit_set ws i) xs (hp_pages h)\<rparr>"
  "fold (heap_mark False) xs h = h\<lparr>hp_pages := fold (\<lambda>i ws. bit_clear ws i) xs (hp_pages h)\<rparr>"
  by (induction xs arbitrary: h) (auto simp: heap_mark_def)

lemma taken_owned: "heap_inv h \<Longrightarrow> i < window_pages \<Longrightarrow> heap_taken h i \<longleftrightarrow> i \<in> owned h"
  using heap_invD(1) [of h] by (simp add: heap_taken_def owned_def in_marked_iff window_pages_def)

lemma heap_free_owned:
  "heap_inv h \<Longrightarrow> i + n \<le> window_pages \<Longrightarrow> heap_free h i n \<longleftrightarrow> {i..<i + n} \<inter> owned h = {}"
  using taken_owned [of h] by (auto simp: heap_free_def)

lemma index_of_Ok: "index_of a n = Ok i \<longleftrightarrow> a = window_base + i * 4096 \<and> i + n \<le> window_pages"
proof -
  have base: "4096 dvd window_base" by (simp add: window_base_def)
  have lim: "window_pages < u64_limit" by (simp add: window_pages_def u64_limit_def)
  have shape: "a mod 4096 = 0 \<and> window_base \<le> a \<and> i = (a - window_base) div 4096 \<longleftrightarrow> a = window_base + i * 4096"
  proof
    assume l: "a mod 4096 = 0 \<and> window_base \<le> a \<and> i = (a - window_base) div 4096"
    then have "4096 dvd a - window_base" using base by (intro dvd_diff_nat) (auto simp: dvd_eq_mod_eq_0)
    then show "a = window_base + i * 4096" using l by simp
  next
    assume "a = window_base + i * 4096"
    then show "a mod 4096 = 0 \<and> window_base \<le> a \<and> i = (a - window_base) div 4096" using base by (simp add: dvd_eq_mod_eq_0)
  qed
  have "index_of a n = Ok i \<longleftrightarrow> a mod 4096 = 0 \<and> window_base \<le> a \<and> i = (a - window_base) div 4096 \<and> i + n \<le> window_pages"
    using lim by (auto simp: index_of_def Let_def checked_add64_def not_less split: if_splits)
  then show ?thesis by (simp only: shape [symmetric] conj_assoc)
qed

lemma index_of_error: "index_of a n \<noteq> Panic" "index_of a n = Err e \<Longrightarrow> e = HpAddress"
  by (auto simp: index_of_def Let_def split: if_splits)

lemma lowest_fit_Some:
  "heap_inv h \<Longrightarrow> lowest_fit h n = Some i \<Longrightarrow>
   i + n \<le> window_pages \<and> heap_free h i n \<and> (\<forall>j<i. \<not> heap_free h j n)"
  unfolding lowest_fit_def find_upt_Some by (auto simp: find_upt_Some simp del: upt_Suc split: if_splits)

lemma lowest_fit_None: "n \<le> window_pages \<Longrightarrow> lowest_fit h n = None \<Longrightarrow> i + n \<le> window_pages \<Longrightarrow> \<not> heap_free h i n"
  by (auto simp: lowest_fit_def find_upt_None simp del: upt_Suc)

definition taking :: "heap_region \<Rightarrow> nat \<Rightarrow> nat \<Rightarrow> heap_region" where
  "taking h i n = h\<lparr>hp_pages := bit_set_range (hp_pages h) i (i + n), hp_used := hp_used h + n\<rparr>"

lemma taking_inv:
  assumes inv: "heap_inv h" and "i + n \<le> window_pages" and "{i..<i + n} \<inter> owned h = {}" and "hp_used h + n \<le> process_pages"
  shows "heap_inv (taking h i n) \<and> owned (taking h i n) = owned h \<union> {i..<i + n}"
proof -
  have own: "owned (taking h i n) = owned h \<union> {i..<i + n}"
    using assms(2) heap_invD(1) [OF inv] by (simp add: owned_def taking_def marked_set_range window_pages_def)
  then have "card (owned (taking h i n)) = card (owned h) + n"
    using assms(3) by (simp add: card_Un_disjoint Int_commute)
  then show ?thesis using own heap_invD [OF inv] assms(4) by (simp add: heap_inv_def taking_def)
qed

lemma heap_reserve_cases:
  assumes inv: "heap_inv h" and r: "heap_reserve h address n = (res, h')"
  obtains (size) "res = Err HpSize" "h' = h" "n = 0 \<or> n > process_pages"
  | (shape) a where "address = Some a" "\<nexists>i. index_of a n = Ok i" "res = Err HpAddress" "h' = h"
  | (full) "res = Err HpFull" "h' = h" "hp_used h + n > process_pages"
  | (occupied) a i where "address = Some a" "index_of a n = Ok i" "{i..<i + n} \<inter> owned h \<noteq> {}" "res = Err HpAddress" "h' = h"
  | (fragmented) "address = None" "res = Err HpAddress" "h' = h" "hp_used h + n \<le> process_pages"
      "\<And>i. i + n \<le> window_pages \<Longrightarrow> {i..<i + n} \<inter> owned h \<noteq> {}"
  | (reserved) i where "res = Ok (window_base + i * 4096)" "h' = taking h i n" "i + n \<le> window_pages" "0 < n"
      "{i..<i + n} \<inter> owned h = {}" "hp_used h + n \<le> process_pages"
      "address = Some (window_base + i * 4096) \<or> address = None \<and> (\<forall>j<i. {j..<j + n} \<inter> owned h \<noteq> {})"
proof -
  have np: "process_pages \<le> window_pages" by (simp add: process_pages_def window_pages_def)
  show ?thesis
  proof (cases "n = 0 \<or> n > process_pages")
    case True
    then show ?thesis using r size by (auto simp: heap_reserve_def)
  next
    case n: False
    show ?thesis
    proof (cases address)
      case (Some a)
      show ?thesis
      proof (cases "index_of a n")
        case (Ok i)
        have ai: "a = window_base + i * 4096" "i + n \<le> window_pages" using Ok index_of_Ok by auto
        show ?thesis
        proof (cases "hp_used h + n > process_pages")
          case True
          then show ?thesis using r n Some Ok full by (auto simp: heap_reserve_def)
        next
          case room: False
          show ?thesis
          proof (cases "heap_free h i n")
            case True
            have "res = Ok (window_base + i * 4096)" "h' = taking h i n"
              using r n Some Ok room True by (auto simp: heap_reserve_def Let_def fold_mark taking_def bit_set_range_def)
            then show ?thesis
              by (rule reserved) (use n room ai Some True heap_free_owned [OF inv ai(2)] in auto)
          next
            case False
            have "res = Err HpAddress" "h' = h" using r n Some Ok room False by (auto simp: heap_reserve_def)
            then show ?thesis using occupied [OF Some Ok] False heap_free_owned [OF inv ai(2)] by blast
          qed
        qed
      next
        case (Err e)
        then have "res = Err HpAddress" "h' = h" using r n Some index_of_error(2) [OF Err] by (auto simp: heap_reserve_def)
        then show ?thesis using shape [OF Some] Err by auto
      next
        case Panic
        then show ?thesis using index_of_error(1) by blast
      qed
    next
      case None
      show ?thesis
      proof (cases "hp_used h + n > process_pages")
        case True
        then show ?thesis using r n None full by (auto simp: heap_reserve_def)
      next
        case room: False
        show ?thesis
        proof (cases "lowest_fit h n")
          case (Some i)
          note lf = lowest_fit_Some [OF inv Some]
          have "res = Ok (window_base + i * 4096)" "h' = taking h i n"
            using r n None Some room by (auto simp: heap_reserve_def Let_def fold_mark taking_def bit_set_range_def)
          moreover have "{j..<j + n} \<inter> owned h \<noteq> {}" if "j < i" for j
            using lf that heap_free_owned [OF inv, of j n] by simp
          ultimately show ?thesis
            by (intro reserved [of i]) (use n room None lf heap_free_owned [OF inv] in auto)
        next
          case no: None
          have "res = Err HpAddress" "h' = h" using r n None no room by (auto simp: heap_reserve_def)
          moreover have "{i..<i + n} \<inter> owned h \<noteq> {}" if "i + n \<le> window_pages" for i
            using lowest_fit_None [OF _ no that] heap_free_owned [OF inv that] n np by simp
          ultimately show ?thesis using fragmented [OF None] room by simp
        qed
      qed
    qed
  qed
qed

lemma heap_release_cases:
  assumes inv: "heap_inv h" and r: "heap_release h a n = (res, h')"
  obtains (refused) e where "res = Err e" "h' = h" "\<nexists>i. a = window_base + i * 4096 \<and> 0 < n \<and> {i..<i + n} \<subseteq> owned h"
  | (released) i where "a = window_base + i * 4096" "0 < n" "{i..<i + n} \<subseteq> owned h" "res = Ok ()"
      "owned h' = owned h - {i..<i + n}" "hp_used h' = hp_used h - n" "heap_inv h'"
proof -
  have below: "j < window_pages" if "j \<in> owned h" for j
    using that heap_invD(1) [OF inv] by (simp add: owned_def in_marked_iff window_pages_def)
  have inside: "i + n \<le> window_pages" if "0 < n" "{i..<i + n} \<subseteq> owned h" for i
  proof -
    have "i + n - 1 \<in> owned h" using that by (auto simp: subset_eq)
    then show ?thesis using below [of "i + n - 1"] that(1) by linarith
  qed
  have owns: "heap_owns h a n \<longleftrightarrow> (\<exists>i. a = window_base + i * 4096 \<and> 0 < n \<and> {i..<i + n} \<subseteq> owned h)"
  proof (cases "index_of a n")
    case (Ok i)
    then have ai: "a = window_base + i * 4096" "i + n \<le> window_pages" using index_of_Ok by auto
    then have "heap_owns h a n \<longleftrightarrow> 0 < n \<and> (\<forall>j\<in>set [i..<i + n]. heap_taken h j)" using Ok by (simp add: heap_owns_def)
    also have "\<dots> \<longleftrightarrow> 0 < n \<and> {i..<i + n} \<subseteq> owned h" using taken_owned [OF inv] ai(2) by auto
    finally show ?thesis using ai(1) by auto
  next
    case (Err e)
    then have "\<nexists>i. a = window_base + i * 4096 \<and> i + n \<le> window_pages" using index_of_Ok [of a n] by auto
    then show ?thesis using Err inside by (auto simp: heap_owns_def)
  qed (use index_of_error(1) in blast)
  show ?thesis
  proof (cases "heap_owns h a n")
    case False
    have "(\<exists>e. res = Err e) \<and> h' = h"
      using r False index_of_error(1) [of a n] by (cases "index_of a n") (auto simp: heap_release_def split: if_splits)
    then show ?thesis using False owns refused by blast
  next
    case True
    then obtain i where i: "a = window_base + i * 4096" "0 < n" "{i..<i + n} \<subseteq> owned h" using owns by blast
    have ix: "index_of a n = Ok i" using i inside [OF i(2,3)] index_of_Ok by blast
    have res: "res = Ok ()" and h': "h' = h\<lparr>hp_pages := bit_clear_range (hp_pages h) i (i + n), hp_used := hp_used h - n\<rparr>"
      using r True ix i(2) by (auto simp: heap_release_def Let_def fold_mark bit_clear_range_def)
    have own: "owned h' = owned h - {i..<i + n}"
      using inside [OF i(2,3)] heap_invD(1) [OF inv] by (simp add: owned_def h' marked_clear_range window_pages_def)
    have "card (owned h') = card (owned h) - n" unfolding own using card_Diff_subset [OF _ i(3)] by simp
    then have "heap_inv h'" using heap_invD [OF inv] by (simp add: heap_inv_def h')
    then show ?thesis using released [OF i res own] h' by simp
  qed
qed

inductive heap_step :: "heap_region \<Rightarrow> heap_region \<Rightarrow> bool" where
  hstep_reserve: "heap_reserve h address n = (r, h') \<Longrightarrow> heap_step h h'"
| hstep_release: "heap_release h a n = (u, h') \<Longrightarrow> heap_step h h'"

lemma step_heap_inv: "heap_step h h' \<Longrightarrow> heap_inv h \<Longrightarrow> heap_inv h'"
proof (induction rule: heap_step.induct)
  case (hstep_reserve h address n r h')
  show ?case
    by (rule heap_reserve_cases [OF hstep_reserve(2,1)]) (use hstep_reserve(2) taking_inv in auto)
next
  case (hstep_release h a n u h')
  show ?case by (rule heap_release_cases [OF hstep_release(2,1)]) (use hstep_release(2) in auto)
qed

lemma run_heap_inv: "heap_step\<^sup>*\<^sup>* h h' \<Longrightarrow> heap_inv h \<Longrightarrow> heap_inv h'"
  by (induction rule: rtranclp_induct) (auto intro: step_heap_inv)

section \<open>Properties\<close>

text \<open>A reservation in the heap window is exact: a granted run lies inside the window, was completely
  free, is the requested one or else the lowest that fits, and only its pages become owned, never more
  than 64 in all; a refused reservation changes nothing, and without an explicit address \<open>Address\<close> means
  that no free run of that length exists although the budget would allow it.\<close>

theorem heap_reserve_exact:
  assumes "heap_step\<^sup>*\<^sup>* heap_new h" and "heap_reserve h address n = (res, h')"
  shows "case res of
      Ok a \<Rightarrow> \<exists>i. a = window_base + i * 4096 \<and> a + n * 4096 \<le> window_end \<and> {i..<i + n} \<inter> owned h = {} \<and>
        owned h' = owned h \<union> {i..<i + n} \<and> card (owned h') \<le> process_pages \<and>
        (address = Some a \<or> address = None \<and> (\<forall>j<i. {j..<j + n} \<inter> owned h \<noteq> {}))
    | Err e \<Rightarrow> h' = h \<and> (e = HpSize \<longleftrightarrow> n = 0 \<or> n > process_pages) \<and>
        (e = HpFull \<longrightarrow> card (owned h) + n > process_pages) \<and>
        (e = HpAddress \<and> address = None \<longrightarrow> card (owned h) + n \<le> process_pages \<and>
           (\<forall>i. i + n \<le> window_pages \<longrightarrow> {i..<i + n} \<inter> owned h \<noteq> {}))
    | Panic \<Rightarrow> False"
proof -
  have inv: "heap_inv h" using run_heap_inv [OF assms(1)] heap_new_inv(1) by blast
  have sz: "res \<noteq> Err HpSize" if "\<not> (n = 0 \<or> n > process_pages)"
    by (rule heap_reserve_cases [OF inv assms(2)]) (use that in auto)
  have sz': "res = Err HpSize" if "n = 0 \<or> n > process_pages"
    using assms(2) that by (auto simp: heap_reserve_def)
  have size_iff: "res = Err HpSize \<longleftrightarrow> n = 0 \<or> n > process_pages" using sz sz' by blast
  from inv assms(2) show ?thesis
  proof (cases rule: heap_reserve_cases)
    case (reserved i)
    have t: "heap_inv h'" "owned h' = owned h \<union> {i..<i + n}"
      using taking_inv [OF inv reserved(3,5,6)] reserved(2) by auto
    have "card (owned h') \<le> process_pages" using heap_invD(2,3) [OF t(1)] by simp
    moreover have "window_base + i * 4096 + n * 4096 \<le> window_end"
      using mult_le_mono1 [OF reserved(3), of 4096] by (simp add: window_end_def distrib_right)
    ultimately show ?thesis using reserved t by auto
  qed (use size_iff heap_invD(2) [OF inv] in auto)
qed

definition demo_heap :: heap_region where
  "demo_heap = snd (heap_reserve heap_new None 3)"

lemma demo_heap_run: "heap_step\<^sup>*\<^sup>* heap_new demo_heap"
  unfolding demo_heap_def by (rule r_into_rtranclp [of heap_step, OF hstep_reserve [OF prod.collapse [symmetric]]])

theorem heap_reserve_exact_witness:
  "fst (heap_reserve demo_heap None 65) = Err HpSize \<and> snd (heap_reserve demo_heap None 65) = demo_heap"
proof -
  have "fst (heap_reserve demo_heap None 65) = Err HpSize" by (simp add: heap_reserve_def process_pages_def)
  then show ?thesis using heap_reserve_exact [OF demo_heap_run prod.collapse [symmetric], of 65 None] by simp
qed

text \<open>Release undoes exactly one owned run: after a successful reservation the same run can be released,
  which restores the set of owned pages and the counter; releasing it a second time is refused and
  changes nothing.\<close>

theorem heap_release_undoes_reserve:
  assumes "heap_inv h" and "heap_reserve h address n = (Ok a, h1)"
  shows "\<exists>h2 e. heap_release h1 a n = (Ok (), h2) \<and> owned h2 = owned h \<and> hp_used h2 = hp_used h \<and>
    heap_release h2 a n = (Err e, h2)"
proof -
  obtain i where i: "a = window_base + i * 4096" "h1 = taking h i n" "i + n \<le> window_pages" "0 < n"
    "{i..<i + n} \<inter> owned h = {}" "hp_used h + n \<le> process_pages"
    by (rule heap_reserve_cases [OF assms]) auto
  have h1: "heap_inv h1" "owned h1 = owned h \<union> {i..<i + n}" "hp_used h1 = hp_used h + n"
    using taking_inv [OF assms(1) i(3,5,6)] i(2) by (auto simp: taking_def)
  obtain r h2 where r: "heap_release h1 a n = (r, h2)" by fastforce
  have same: "j = i" if "a = window_base + j * 4096" for j using that i(1) by simp
  have h2: "r = Ok () \<and> owned h2 = owned h1 - {i..<i + n} \<and> hp_used h2 = hp_used h1 - n \<and> heap_inv h2"
  proof (rule heap_release_cases [OF h1(1) r])
    assume "\<nexists>j. a = window_base + j * 4096 \<and> 0 < n \<and> {j..<j + n} \<subseteq> owned h1"
    then show ?thesis using i(1,4) h1(2) by blast
  next
    fix j
    assume "a = window_base + j * 4096" "r = Ok ()" "owned h2 = owned h1 - {j..<j + n}" "hp_used h2 = hp_used h1 - n" "heap_inv h2"
    then show ?thesis using same [of j] by blast
  qed
  then have own: "owned h2 = owned h" using h1(2) i(5) by auto
  obtain r' h3 where r': "heap_release h2 a n = (r', h3)" by fastforce
  have "i \<in> {i..<i + n}" using i(4) by simp
  then have no: "\<not> {i..<i + n} \<subseteq> owned h" using i(5) by blast
  have inv2: "heap_inv h2" using h2 by blast
  have "(\<exists>e. r' = Err e) \<and> h3 = h2"
    by (rule heap_release_cases [OF inv2 r']) (use no own same in blast)+
  then show ?thesis using r r' h2 h1(3) own by auto
qed

theorem heap_release_undoes_reserve_witness:
  "\<exists>h2. heap_release demo_heap window_base 3 = (Ok (), h2) \<and> owned h2 = {} \<and> hp_used h2 = 0"
proof -
  have "lowest_fit heap_new 3 = Some 0"
    unfolding lowest_fit_def
    by (simp add: window_pages_def find_upt_Some heap_free_def heap_taken_def heap_new_def bit_get_iff div_ceil_def
        replicate_numeral upt_rec)
  then have "fst (heap_reserve heap_new None 3) = Ok window_base"
    by (simp add: heap_reserve_def process_pages_def Let_def heap_new_def)
  then have "heap_reserve heap_new None 3 = (Ok window_base, demo_heap)" by (metis demo_heap_def prod.collapse)
  from heap_release_undoes_reserve [OF heap_new_inv(1) this] show ?thesis
    using heap_new_inv(2) by (auto simp: heap_new_def)
qed

end
