(* ===== verification/Elf.thy ===== *)
theory Elf
  imports Bytes Heap_Window
begin

unbundle bit_operations_syntax

text \<open>
  The ELF loader's parser, \<open>kernel/src/process/elf.rs\<close>. The parser reads program headers from untrusted
  bytes; \<open>image_ok\<close> is what the loader relies on when it maps an image. Header fields are read as 64-bit
  words and carried as natural numbers; the code's checked additions are written out.
\<close>

section \<open>The parser\<close>

definition max_segments :: nat where "max_segments = 8"
definition max_bytes :: nat where "max_bytes = 1024 * 1024"
definition max_pages :: nat where "max_pages = 256"
definition stack_top :: nat where "stack_top = 0x80000000"
definition stack_pages :: nat where "stack_pages = 16"
definition stack_guard :: nat where "stack_guard = stack_top - (stack_pages + 1) * 4096"

datatype elf_error = ElfHeader | ElfBounds | ElfUnsupported | ElfSegment | ElfOverlap | ElfBudget | ElfEntry

record segment =
  seg_address :: nat
  seg_memory_size :: nat
  seg_offset :: nat
  seg_file_size :: nat
  seg_writable :: bool
  seg_executable :: bool

definition start_page :: "segment \<Rightarrow> nat" where
  "start_page s = seg_address s div 4096 * 4096"

definition end_page :: "segment \<Rightarrow> nat" where
  "end_page s = (seg_address s + seg_memory_size s + 4096 - 1) div 4096 * 4096"

record elf_image =
  img_bytes :: bytes
  img_entry :: nat
  img_segments :: "segment list"

definition number :: "bytes \<Rightarrow> nat \<Rightarrow> nat \<Rightarrow> (elf_error, nat) outcome" where
  "number bs at_byte sz =
     and_then (ok_or ElfBounds (checked_add64 at_byte sz)) (\<lambda>e.
       if e > length bs then Err ElfBounds else Ok (unat (from_le (field_at bs at_byte sz) :: u64)))"

definition number_is :: "bytes \<Rightarrow> nat \<Rightarrow> nat \<Rightarrow> nat \<Rightarrow> (elf_error, bool) outcome \<Rightarrow> (elf_error, bool) outcome" where
  "number_is bs at_byte sz v rest =
     and_then (number bs at_byte sz) (\<lambda>n. if n \<noteq> v then Ok False else rest)"

definition elf_magic :: bytes where
  "elf_magic = [0x7f, 0x45, 0x4c, 0x46, 2, 1, 1, 0, 0]"

definition header_ok :: "bytes \<Rightarrow> (elf_error, bool) outcome" where
  "header_ok bs =
     (if length bs < 64 \<or> length bs > max_bytes \<or> take 9 bs \<noteq> elf_magic \<or> any_nonzero (field_at bs 9 7) then Ok False
      else number_is bs 16 2 2 (number_is bs 18 2 62 (number_is bs 20 4 1 (number_is bs 48 4 0
             (number_is bs 52 2 64 (number_is bs 54 2 56 (Ok True)))))))"

definition power_of_two :: "nat \<Rightarrow> bool" where
  "power_of_two n \<longleftrightarrow> (\<exists>k\<in>set [0..<64]. n = 2 ^ k)"

definition segment_shape_bad :: "nat \<Rightarrow> nat \<Rightarrow> nat \<Rightarrow> nat \<Rightarrow> nat \<Rightarrow> nat \<Rightarrow> nat \<Rightarrow> bool" where
  "segment_shape_bad flags memory_size file_size address seg_end file_offset alignment \<longleftrightarrow>
     \<not> (4 \<le> flags \<and> flags \<le> 6) \<or> memory_size = 0 \<or> file_size > memory_size \<or> address < 4096 \<or>
     seg_end > stack_guard \<or> file_offset mod 4096 \<noteq> address mod 4096 \<or>
     (alignment > 1 \<and> (\<not> power_of_two alignment \<or> address mod alignment \<noteq> file_offset mod alignment))"

definition read_segment :: "bytes \<Rightarrow> nat \<Rightarrow> (elf_error, segment) outcome" where
  "read_segment bs at_byte =
     and_then (number bs (at_byte + 4) 4) (\<lambda>flags.
     and_then (number bs (at_byte + 8) 8) (\<lambda>file_offset.
     and_then (number bs (at_byte + 16) 8) (\<lambda>address.
     and_then (number bs (at_byte + 32) 8) (\<lambda>file_size.
     and_then (number bs (at_byte + 40) 8) (\<lambda>memory_size.
     and_then (number bs (at_byte + 48) 8) (\<lambda>alignment.
     and_then (ok_or ElfBounds (checked_add64 address memory_size)) (\<lambda>seg_end.
       if segment_shape_bad flags memory_size file_size address seg_end file_offset alignment then Err ElfSegment
       else if (case checked_add64 file_offset file_size of None \<Rightarrow> True | Some e \<Rightarrow> e > length bs) then Err ElfBounds
       else Ok \<lparr>seg_address = address, seg_memory_size = memory_size, seg_offset = file_offset,
                seg_file_size = file_size, seg_writable = ((flags div 2) mod 2 = 1),
                seg_executable = (flags mod 2 = 1)\<rparr>)))))))"

fun segment_loop :: "bytes \<Rightarrow> nat \<Rightarrow> nat list \<Rightarrow> segment list \<Rightarrow> nat \<Rightarrow> nat \<Rightarrow> (elf_error, segment list) outcome" where
  "segment_loop bs offset [] segs pages previous_end = Ok segs"
| "segment_loop bs offset (index # rest) segs pages previous_end =
     (let at_byte = offset + index * 56 in
      and_then (number bs at_byte 4) (\<lambda>kind.
        if kind = 0 then segment_loop bs offset rest segs pages previous_end
        else if kind \<noteq> 1 then Err ElfUnsupported
        else and_then (read_segment bs at_byte) (\<lambda>s.
          if start_page s < window_end \<and> end_page s > window_base then Err ElfSegment
          else if start_page s < previous_end then Err ElfOverlap
          else let pages = pages + (end_page s - start_page s) div 4096 in
            if pages > max_pages \<or> length segs = max_segments then Err ElfBudget
            else segment_loop bs offset rest (segs @ [s]) pages (end_page s))))"

definition elf_parse :: "bytes \<Rightarrow> (elf_error, elf_image) outcome" where
  "elf_parse bs =
     and_then (header_ok bs) (\<lambda>good.
     if \<not> good then Err ElfHeader
     else and_then (number bs 32 8) (\<lambda>offset.
     and_then (number bs 56 2) (\<lambda>n.
     if \<not> (1 \<le> n \<and> n \<le> 16) then Err ElfBudget
     else if offset < 64 \<or> (case checked_add64 offset (n * 56) of None \<Rightarrow> True | Some e \<Rightarrow> e > length bs) then Err ElfBounds
     else and_then (number bs 24 8) (\<lambda>entry.
     and_then (segment_loop bs offset [0..<n] [] stack_pages 4096) (\<lambda>segs.
       if \<not> (\<exists>s\<in>set segs. seg_executable s \<and> seg_address s \<le> entry \<and> entry < seg_address s + seg_file_size s)
       then Err ElfEntry
       else Ok \<lparr>img_bytes = bs, img_entry = entry, img_segments = segs\<rparr>)))))"

definition segment_data :: "elf_image \<Rightarrow> segment \<Rightarrow> bytes option" where
  "segment_data img s =
     (if seg_offset s + seg_file_size s \<le> length (img_bytes img)
      then Some (field_at (img_bytes img) (seg_offset s) (seg_file_size s)) else None)"

section \<open>What the loader relies on\<close>

definition segment_ok :: "bytes \<Rightarrow> segment \<Rightarrow> bool" where
  "segment_ok bs s \<longleftrightarrow>
     \<not> (seg_writable s \<and> seg_executable s) \<and> 0 < seg_memory_size s \<and> seg_file_size s \<le> seg_memory_size s \<and>
     4096 \<le> seg_address s \<and> seg_address s + seg_memory_size s \<le> stack_guard \<and>
     seg_offset s mod 4096 = seg_address s mod 4096 \<and> seg_offset s + seg_file_size s \<le> length bs \<and>
     (end_page s \<le> window_base \<or> window_end \<le> start_page s)"

definition page_count :: "segment list \<Rightarrow> nat" where
  "page_count segs = sum_list (map (\<lambda>s. (end_page s - start_page s) div 4096) segs)"

definition segments_ok :: "bytes \<Rightarrow> segment list \<Rightarrow> bool" where
  "segments_ok bs segs \<longleftrightarrow> (\<forall>s\<in>set segs. segment_ok bs s) \<and>
     sorted_wrt (\<lambda>s t. end_page s \<le> start_page t) segs \<and> length segs \<le> max_segments \<and>
     stack_pages + page_count segs \<le> max_pages"

lemma number_not_Panic [simp]: "number bs a n \<noteq> Panic"
  by (simp add: number_def and_then_Panic_iff)

lemma elf_parse_not_Panic: "elf_parse bs \<noteq> Panic"
proof -
  have "segment_loop bs offset is segs pages e \<noteq> Panic" for offset "is" segs pages e
    by (induction bs offset "is" segs pages e rule: segment_loop.induct)
      (simp_all add: Let_def and_then_Panic_iff read_segment_def)
  then show ?thesis by (simp add: elf_parse_def header_ok_def number_is_def and_then_Panic_iff)
qed

lemma number_Ok_less: "number bs a n = Ok v \<Longrightarrow> v < u64_limit"
  by (auto simp: number_def and_then_Ok_iff u64_limit_def unsigned_less [where 'a = nat and 'b = 64, simplified]
      split: if_splits)

lemma read_segment_Ok:
  assumes "read_segment bs a = Ok s" and "end_page s \<le> window_base \<or> window_end \<le> start_page s"
  shows "segment_ok bs s"
proof -
  obtain flags fo ad fs ms al e where v: "number bs (a + 4) 4 = Ok flags" "number bs (a + 8) 8 = Ok fo"
    "checked_add64 ad ms = Some e" "\<not> segment_shape_bad flags ms fs ad e fo al"
    "\<not> (case checked_add64 fo fs of None \<Rightarrow> True | Some e \<Rightarrow> e > length bs)"
    "s = \<lparr>seg_address = ad, seg_memory_size = ms, seg_offset = fo, seg_file_size = fs,
          seg_writable = ((flags div 2) mod 2 = 1), seg_executable = (flags mod 2 = 1)\<rparr>"
    using assms(1) by (auto simp: read_segment_def and_then_Ok_iff split: if_splits)
  have "flags = 4 \<or> flags = 5 \<or> flags = 6" using v(4) by (auto simp: segment_shape_bad_def)
  then have "\<not> (seg_writable s \<and> seg_executable s)" using v(6) by auto
  then show ?thesis
    using v(3-6) assms(2) by (auto simp: segment_ok_def segment_shape_bad_def split: option.splits)
qed

lemma segment_loop_Ok:
  assumes "segment_loop bs offset idx segs pages prev = Ok out"
    and "segments_ok bs segs" and "pages = stack_pages + page_count segs" and "\<forall>s\<in>set segs. end_page s \<le> prev"
  shows "segments_ok bs out"
  using assms
proof (induction idx arbitrary: segs pages prev)
  case Nil
  then show ?case by simp
next
  case (Cons i idx)
  obtain kind where k: "number bs (offset + i * 56) 4 = Ok kind" and "kind = 0 \<or> kind = 1"
    using Cons.prems(1) by (auto simp: Let_def and_then_Ok_iff split: if_splits)
  then consider "kind = 0" | "kind = 1" by blast
  then show ?case
  proof cases
    case 1
    then show ?thesis using Cons.prems k by (intro Cons.IH [of segs pages prev]) (simp_all add: Let_def)
  next
    case 2
    obtain s where s: "read_segment bs (offset + i * 56) = Ok s"
      and win: "\<not> (start_page s < window_end \<and> end_page s > window_base)"
      and prev: "\<not> start_page s < prev" and room: "\<not> (pages + (end_page s - start_page s) div 4096 > max_pages \<or> length segs = max_segments)"
      and go: "segment_loop bs offset idx (segs @ [s]) (pages + (end_page s - start_page s) div 4096) (end_page s) = Ok out"
      using Cons.prems(1) k 2 by (auto simp: Let_def and_then_Ok_iff split: if_splits)
    have ok: "segment_ok bs s" using read_segment_Ok [OF s] win by (simp add: not_less) blast
    have low: "end_page t \<le> start_page s" if "t \<in> set segs" for t using Cons.prems(4) that prev by fastforce
    have "segments_ok bs (segs @ [s])"
      using Cons.prems(2,3) ok low room by (auto simp: segments_ok_def sorted_wrt_append page_count_def)
    moreover have "end_page t \<le> end_page s" if "t \<in> set (segs @ [s])" for t
    proof (cases "t = s")
      case False
      then have "end_page t \<le> start_page s" using low that by auto
      also have "\<dots> \<le> end_page s"
        unfolding start_page_def end_page_def by (intro mult_le_mono1 div_le_mono) (use ok in \<open>simp add: segment_ok_def\<close>)
      finally show ?thesis .
    qed simp
    ultimately show ?thesis
      using Cons.prems(3) by (intro Cons.IH [OF go]) (simp_all add: page_count_def)
  qed
qed

lemma elf_parse_Ok:
  assumes "elf_parse bs = Ok img"
  shows "img_bytes img = bs" and "segments_ok bs (img_segments img)"
    and "\<exists>s\<in>set (img_segments img). seg_executable s \<and> seg_address s \<le> img_entry img \<and>
           img_entry img < seg_address s + seg_file_size s"
proof -
  obtain offset n entry segs where
    loop: "segment_loop bs offset [0..<n] [] stack_pages 4096 = Ok segs"
    and entry: "\<exists>s\<in>set segs. seg_executable s \<and> seg_address s \<le> entry \<and> entry < seg_address s + seg_file_size s"
    and img: "img = \<lparr>img_bytes = bs, img_entry = entry, img_segments = segs\<rparr>"
    using assms by (auto simp: elf_parse_def and_then_Ok_iff split: if_splits) blast
  have "segments_ok bs segs"
    by (rule segment_loop_Ok [OF loop]) (simp_all add: segments_ok_def page_count_def stack_pages_def max_pages_def)
  then show "img_bytes img = bs" "segments_ok bs (img_segments img)"
    "\<exists>s\<in>set (img_segments img). seg_executable s \<and> seg_address s \<le> img_entry img \<and>
           img_entry img < seg_address s + seg_file_size s"
    using entry img by auto
qed

section \<open>Properties\<close>

text \<open>C28 An accepted image is safe to load: no segment is both writable and executable, each lies above
  the null page and below the stack guard, outside the heap window, with its file bytes inside the
  image; segments come in ascending order on disjoint pages, at most eight of them, and together with
  the stack they need at most 256 pages. The entry point is a file-backed byte of an executable
  segment.\<close>

theorem accepted_image_is_safe:
  assumes "elf_parse bs = Ok img"
  shows "(\<forall>s\<in>set (img_segments img). segment_ok bs s \<and> segment_data img s \<noteq> None) \<and>
    sorted_wrt (\<lambda>s t. end_page s \<le> start_page t) (img_segments img) \<and> length (img_segments img) \<le> 8 \<and>
    16 + page_count (img_segments img) \<le> 256 \<and>
    (\<exists>s\<in>set (img_segments img). seg_executable s \<and> \<not> seg_writable s \<and> seg_address s \<le> img_entry img \<and>
       img_entry img < seg_address s + seg_file_size s)"
  using elf_parse_Ok [OF assms]
  by (fastforce simp: segments_ok_def segment_ok_def segment_data_def max_segments_def stack_pages_def max_pages_def)

text \<open>A one-segment image: one executable page at \<open>0x400000\<close>, entry at its first byte.\<close>

definition demo_elf :: bytes where
  "demo_elf =
     [0x7f, 0x45, 0x4c, 0x46, 2, 1, 1, 0, 0, 0, 0, 0, 0, 0, 0, 0,
      2, 0, 62, 0, 1, 0, 0, 0, 0x78, 0, 0x40, 0, 0, 0, 0, 0,
      64, 0, 0, 0, 0, 0, 0, 0, 0, 0, 0, 0, 0, 0, 0, 0,
      0, 0, 0, 0, 64, 0, 56, 0, 1, 0, 0, 0, 0, 0, 0, 0,
      1, 0, 0, 0, 5, 0, 0, 0, 0x78, 0, 0, 0, 0, 0, 0, 0,
      0x78, 0, 0x40, 0, 0, 0, 0, 0, 0, 0, 0, 0, 0, 0, 0, 0,
      1, 0, 0, 0, 0, 0, 0, 0, 1, 0, 0, 0, 0, 0, 0, 0,
      0, 0, 0, 0, 0, 0, 0, 0, 0xc3]"

definition demo_segment :: segment where
  "demo_segment = \<lparr>seg_address = 0x400078, seg_memory_size = 1, seg_offset = 120, seg_file_size = 1,
     seg_writable = False, seg_executable = True\<rparr>"

lemma demo_elf_numbers:
  "number demo_elf 16 2 = Ok 2" "number demo_elf 18 2 = Ok 62" "number demo_elf 20 4 = Ok 1"
  "number demo_elf 48 4 = Ok 0" "number demo_elf 52 2 = Ok 64" "number demo_elf 54 2 = Ok 56"
  "number demo_elf 32 8 = Ok 64" "number demo_elf 56 2 = Ok 1" "number demo_elf 24 8 = Ok 0x400078"
  "number demo_elf 64 4 = Ok 1" "number demo_elf 68 4 = Ok 5" "number demo_elf 72 8 = Ok 120"
  "number demo_elf 80 8 = Ok 0x400078" "number demo_elf 96 8 = Ok 1" "number demo_elf 104 8 = Ok 1"
  "number demo_elf 112 8 = Ok 0"
  by (simp_all add: number_def demo_elf_def checked_add64_def u64_limit_def field_at_def)

lemma demo_elf_parse: "elf_parse demo_elf = Ok \<lparr>img_bytes = demo_elf, img_entry = 0x400078, img_segments = [demo_segment]\<rparr>"
proof -
  have len: "length demo_elf = 121" by (simp add: demo_elf_def)
  have hdr: "header_ok demo_elf = Ok True"
    by (simp add: header_ok_def number_is_def demo_elf_numbers len max_bytes_def)
      (simp add: demo_elf_def elf_magic_def field_at_def any_nonzero_def)
  have seg: "read_segment demo_elf 64 = Ok demo_segment"
    by (simp add: read_segment_def demo_elf_numbers checked_add64_def u64_limit_def segment_shape_bad_def
        stack_guard_def stack_top_def stack_pages_def len demo_segment_def)
  have pages: "start_page demo_segment = 0x400000" "end_page demo_segment = 0x401000"
    by (simp_all add: start_page_def end_page_def demo_segment_def)
  have loop: "segment_loop demo_elf 64 [0..<1] [] stack_pages 4096 = Ok [demo_segment]"
    by (simp add: demo_elf_numbers seg pages window_base_def window_end_def window_pages_def stack_pages_def
        max_pages_def max_segments_def Let_def)
  have "elf_parse demo_elf = Ok \<lparr>img_bytes = demo_elf, img_entry = 0x400078, img_segments = [demo_segment]\<rparr>"
    unfolding elf_parse_def hdr
    using loop by (simp add: demo_elf_numbers checked_add64_def u64_limit_def len) (simp add: demo_segment_def)
  then show ?thesis .
qed

theorem accepted_image_is_safe_witness:
  "elf_parse demo_elf = Ok \<lparr>img_bytes = demo_elf, img_entry = 0x400078, img_segments = [demo_segment]\<rparr> \<and>
   segment_ok demo_elf demo_segment"
  using accepted_image_is_safe [OF demo_elf_parse] demo_elf_parse by simp

end
