(* ===== verification/Lifecycle.thy ===== *)
theory Lifecycle
  imports Prelude
begin

text \<open>
  The process table of \<open>kernel/src/process/lifecycle.rs\<close>: sixteen slots scheduled round robin. The state
  machine is the step relation \<open>life_step\<close>; its invariant is that process identities are distinct and
  were all issued, and that at most one process is running. Starvation freedom is stated over runs.
\<close>

section \<open>The table\<close>

abbreviation (input) capacity :: nat where "capacity \<equiv> 16"

type_synonym pid = u64

datatype exit_status = ExitCode u64 | ExitFault u64 u64 u64 | ExitKilled

datatype proc_state = Dormant | Ready | Running | Blocked | Exited exit_status

datatype life_error = LfFull | LfUnknown | LfRunning | LfNotExited | LfAlreadyExited | LfNotRunning
  | LfNotBlocked | LfExhausted

record proc_record =
  pr_pid :: pid
  pr_state :: proc_state

record proc_table =
  pt_slots :: "proc_record slots"
  pt_next :: u64
  pt_cursor :: nat

definition life_new :: proc_table where
  "life_new = \<lparr>pt_slots = replicate capacity None, pt_next = 1, pt_cursor = capacity - 1\<rparr>"

definition life_create :: "proc_table \<Rightarrow> (life_error, nat \<times> pid) outcome \<times> proc_table" where
  "life_create t =
     or_return (ok_or LfFull (position (\<lambda>s. s = None) (pt_slots t))) t (\<lambda>slot.
     or_return (ok_or LfExhausted (checked_add (pt_next t) 1)) t (\<lambda>n.
       (Ok (slot, pt_next t),
        t\<lparr>pt_next := n, pt_slots := (pt_slots t)[slot := Some \<lparr>pr_pid = pt_next t, pr_state = Ready\<rparr>]\<rparr>)))"

definition has_pid :: "pid \<Rightarrow> proc_record option \<Rightarrow> bool" where
  "has_pid p s = (case s of None \<Rightarrow> False | Some r \<Rightarrow> pr_pid r = p)"

definition life_slot :: "proc_table \<Rightarrow> pid \<Rightarrow> (life_error, nat) outcome" where
  "life_slot t p = ok_or LfUnknown (position (has_pid p) (pt_slots t))"

definition life_state :: "proc_table \<Rightarrow> pid \<Rightarrow> (life_error, proc_state) outcome" where
  "life_state t p =
     and_then (life_slot t p) (\<lambda>i. and_then (expect (pt_slots t ! i)) (\<lambda>r. Ok (pr_state r)))"

definition set_state :: "proc_table \<Rightarrow> nat \<Rightarrow> proc_state \<Rightarrow> proc_table" where
  "set_state t i st = t\<lparr>pt_slots := (pt_slots t)[i := map_option (pr_state_update (\<lambda>_. st)) (pt_slots t ! i)]\<rparr>"

definition life_hold :: "proc_table \<Rightarrow> pid \<Rightarrow> (life_error, unit) outcome \<times> proc_table" where
  "life_hold t p =
     or_return (life_slot t p) t (\<lambda>i. or_return (expect (pt_slots t ! i)) t (\<lambda>r.
       if pr_state r \<noteq> Ready then (Err LfNotRunning, t) else (Ok (), set_state t i Dormant)))"

definition life_start :: "proc_table \<Rightarrow> pid \<Rightarrow> (life_error, unit) outcome \<times> proc_table" where
  "life_start t p =
     or_return (life_slot t p) t (\<lambda>i. or_return (expect (pt_slots t ! i)) t (\<lambda>r.
       if pr_state r \<noteq> Dormant then (Err LfNotRunning, t) else (Ok (), set_state t i Ready)))"

definition slot_ready :: "proc_record option \<Rightarrow> bool" where
  "slot_ready s = (case s of None \<Rightarrow> False | Some r \<Rightarrow> pr_state r = Ready)"

definition life_schedule :: "proc_table \<Rightarrow> (life_error, (nat \<times> pid) option) outcome \<times> proc_table" where
  "life_schedule t =
     (if \<exists>r\<in>set (flatten (pt_slots t)). pr_state r = Running then (Err LfRunning, t)
      else case find (\<lambda>i. slot_ready (pt_slots t ! i)) (map (\<lambda>d. (pt_cursor t + d) mod capacity) [1..<capacity + 1]) of
        None \<Rightarrow> (Ok None, t)
      | Some i \<Rightarrow> (case pt_slots t ! i of
          None \<Rightarrow> (Panic, t)
        | Some r \<Rightarrow> (Ok (Some (i, pr_pid r)), (set_state t i Running)\<lparr>pt_cursor := i\<rparr>)))"

definition life_suspend :: "proc_table \<Rightarrow> pid \<Rightarrow> (life_error, unit) outcome \<times> proc_table" where
  "life_suspend t p =
     or_return (life_slot t p) t (\<lambda>i. or_return (expect (pt_slots t ! i)) t (\<lambda>r.
       if pr_state r \<noteq> Running then (Err LfNotRunning, t) else (Ok (), set_state t i Ready)))"

definition is_exited :: "proc_state \<Rightarrow> bool" where
  "is_exited st = (case st of Exited e \<Rightarrow> True | _ \<Rightarrow> False)"

definition life_finish :: "proc_table \<Rightarrow> pid \<Rightarrow> exit_status \<Rightarrow> (life_error, unit) outcome \<times> proc_table" where
  "life_finish t p e =
     or_return (life_slot t p) t (\<lambda>i. or_return (expect (pt_slots t ! i)) t (\<lambda>r.
       if is_exited (pr_state r) then (Err LfAlreadyExited, t) else (Ok (), set_state t i (Exited e))))"

definition life_block :: "proc_table \<Rightarrow> pid \<Rightarrow> (life_error, unit) outcome \<times> proc_table" where
  "life_block t p =
     or_return (life_slot t p) t (\<lambda>i. or_return (expect (pt_slots t ! i)) t (\<lambda>r.
       if pr_state r \<noteq> Running then (Err LfNotRunning, t) else (Ok (), set_state t i Blocked)))"

definition life_wake :: "proc_table \<Rightarrow> pid \<Rightarrow> (life_error, unit) outcome \<times> proc_table" where
  "life_wake t p =
     or_return (life_slot t p) t (\<lambda>i. or_return (expect (pt_slots t ! i)) t (\<lambda>r.
       if pr_state r \<noteq> Blocked then (Err LfNotBlocked, t) else (Ok (), set_state t i Ready)))"

definition life_pid_at :: "proc_table \<Rightarrow> nat \<Rightarrow> pid option" where
  "life_pid_at t i = (if i < length (pt_slots t) then map_option pr_pid (pt_slots t ! i) else None)"

definition life_reap :: "proc_table \<Rightarrow> pid \<Rightarrow> (life_error, exit_status) outcome \<times> proc_table" where
  "life_reap t p =
     or_return (life_slot t p) t (\<lambda>i. or_return (expect (pt_slots t ! i)) t (\<lambda>r.
       case pr_state r of
         Exited e \<Rightarrow> (Ok e, t\<lparr>pt_slots := (pt_slots t)[i := None]\<rparr>)
       | _ \<Rightarrow> (Err LfNotExited, t)))"

section \<open>The state machine\<close>

datatype life_event = EvCreate | EvHold pid | EvStart pid | EvSchedule | EvSuspend pid | EvFinish pid exit_status
  | EvBlock pid | EvWake pid | EvReap pid

text \<open>One call of the table; the flag tells whether it panicked.\<close>

definition forget :: "('e, 'a) outcome \<times> 's \<Rightarrow> bool \<times> 's" where
  "forget x = (fst x = Panic, snd x)"

primrec life_event_run :: "life_event \<Rightarrow> proc_table \<Rightarrow> bool \<times> proc_table" where
  "life_event_run EvCreate t = forget (life_create t)"
| "life_event_run (EvHold p) t = forget (life_hold t p)"
| "life_event_run (EvStart p) t = forget (life_start t p)"
| "life_event_run EvSchedule t = forget (life_schedule t)"
| "life_event_run (EvSuspend p) t = forget (life_suspend t p)"
| "life_event_run (EvFinish p e) t = forget (life_finish t p e)"
| "life_event_run (EvBlock p) t = forget (life_block t p)"
| "life_event_run (EvWake p) t = forget (life_wake t p)"
| "life_event_run (EvReap p) t = forget (life_reap t p)"

inductive life_step :: "proc_table \<Rightarrow> proc_table \<Rightarrow> bool" where
  life_event: "life_event_run e t = (bad, t') \<Longrightarrow> life_step t t'"

section \<open>The invariant\<close>

definition life_inv :: "proc_table \<Rightarrow> bool" where
  "life_inv t \<longleftrightarrow> length (pt_slots t) = capacity \<and> pt_cursor t < capacity \<and> 0 < pt_next t \<and>
     slot_keys_distinct pr_pid (pt_slots t) \<and>
     (\<forall>r\<in>set (flatten (pt_slots t)). 0 < pr_pid r \<and> pr_pid r < pt_next t) \<and>
     (\<forall>r\<in>set (flatten (pt_slots t)). \<forall>s\<in>set (flatten (pt_slots t)).
        pr_state r = Running \<longrightarrow> pr_state s = Running \<longrightarrow> r = s)"

lemma life_invD:
  assumes "life_inv t"
  shows "length (pt_slots t) = capacity" and "pt_cursor t < capacity" and "0 < pt_next t"
    and "slot_keys_distinct pr_pid (pt_slots t)"
    and "\<And>r. r \<in> set (flatten (pt_slots t)) \<Longrightarrow> 0 < pr_pid r \<and> pr_pid r < pt_next t"
    and "\<And>r s. r \<in> set (flatten (pt_slots t)) \<Longrightarrow> s \<in> set (flatten (pt_slots t)) \<Longrightarrow>
           pr_state r = Running \<Longrightarrow> pr_state s = Running \<Longrightarrow> r = s"
  using assms unfolding life_inv_def by blast+

lemma life_new_inv: "life_inv life_new"
  by (simp add: life_inv_def life_new_def)

lemma has_pid_simps [simp]: "\<not> has_pid p None" "has_pid p (Some r) \<longleftrightarrow> pr_pid r = p"
  by (simp_all add: has_pid_def)

lemma life_slot_Ok: "life_slot t p = Ok i \<Longrightarrow> i < length (pt_slots t) \<and> (\<exists>r. pt_slots t ! i = Some r \<and> pr_pid r = p)"
proof -
  assume "life_slot t p = Ok i"
  then have pos: "position (has_pid p) (pt_slots t) = Some i"
    by (cases "position (has_pid p) (pt_slots t)") (auto simp: life_slot_def)
  then show ?thesis using position_less [OF pos] position_holds [OF pos] by (cases "pt_slots t ! i") auto
qed

lemma life_slot_not_Panic [simp]: "life_slot t p \<noteq> Panic"
  by (simp add: life_slot_def)

text \<open>Every operation on one process either changes nothing or moves that process to another state.\<close>

lemma state_op_cases:
  assumes "or_return (life_slot t p) t (\<lambda>i. or_return (expect (pt_slots t ! i)) t (\<lambda>r.
      if bad (pr_state r) then (Err e, t) else (Ok (), set_state t i st))) = (res, t')"
  obtains (refused) e' where "res = Err e'" "t' = t"
  | (moved) i r where "i < length (pt_slots t)" "pt_slots t ! i = Some r" "pr_pid r = p" "\<not> bad (pr_state r)"
      "res = Ok ()" "t' = set_state t i st"
proof (cases "life_slot t p")
  case (Ok i)
  obtain r where r: "i < length (pt_slots t)" "pt_slots t ! i = Some r" "pr_pid r = p" using life_slot_Ok [OF Ok] by blast
  show ?thesis
  proof (cases "bad (pr_state r)")
    case True
    then have "res = Err e" "t' = t" using assms Ok r by auto
    then show ?thesis by (rule refused)
  next
    case False
    then have "res = Ok ()" "t' = set_state t i st" using assms Ok r by auto
    then show ?thesis by (rule moved [OF r False])
  qed
next
  case (Err e')
  then have "res = Err e'" "t' = t" using assms by auto
  then show ?thesis by (rule refused)
next
  case Panic
  then show ?thesis by simp
qed

lemma set_state_simps [simp]:
  "pt_cursor (set_state t i st) = pt_cursor t" "pt_next (set_state t i st) = pt_next t"
  "length (pt_slots (set_state t i st)) = length (pt_slots t)"
  by (simp_all add: set_state_def)

lemma set_state_inv:
  assumes inv: "life_inv t" and i: "i < length (pt_slots t)" "pt_slots t ! i = Some r"
    and run: "st = Running \<Longrightarrow> \<forall>s\<in>set (flatten (pt_slots t)). pr_state s \<noteq> Running"
  shows "life_inv (set_state t i st)"
proof -
  note keys = life_invD(4) [OF inv]
  let ?r = "r\<lparr>pr_state := st\<rparr>"
  have slots: "pt_slots (set_state t i st) = (pt_slots t)[i := Some ?r]" using i(2) by (simp add: set_state_def)
  have R': "set (flatten (pt_slots (set_state t i st))) = insert ?r {y \<in> set (flatten (pt_slots t)). pr_pid y \<noteq> pr_pid r}"
    unfolding slots using set_flatten_replace [OF keys i, of ?r] by simp
  have rin: "r \<in> set (flatten (pt_slots t))" using i by (auto simp: in_flatten_iff)
  have keys': "slot_keys_distinct pr_pid (pt_slots (set_state t i st))"
    unfolding slots using slot_keys_distinct_set [OF keys, of i ?r] slot_keys_distinctD [OF keys _ i(1) _ i(2)] by fastforce
  have pids: "0 < pr_pid x \<and> pr_pid x < pt_next t" if "x \<in> set (flatten (pt_slots (set_state t i st)))" for x
    using that life_invD(5) [OF inv] rin unfolding R' by auto
  have one: "x = y" if "x \<in> set (flatten (pt_slots (set_state t i st)))" "y \<in> set (flatten (pt_slots (set_state t i st)))"
    "pr_state x = Running" "pr_state y = Running" for x y
    using that life_invD(6) [OF inv, of x y] run unfolding R' by auto
  show ?thesis
    unfolding life_inv_def using keys' pids one life_invD(1-3) [OF inv] by simp
qed

lemmas state_ops = life_hold_def life_start_def life_suspend_def life_finish_def life_block_def life_wake_def

lemma state_op_inv:
  assumes inv: "life_inv t" and "st \<noteq> Running"
    and "or_return (life_slot t p) t (\<lambda>i. or_return (expect (pt_slots t ! i)) t (\<lambda>r.
      if bad (pr_state r) then (Err e, t) else (Ok (), set_state t i st))) = (res, t')"
  shows "life_inv t' \<and> res \<noteq> Panic \<and> pt_cursor t' = pt_cursor t"
  by (rule state_op_cases [OF assms(3)]) (use inv set_state_inv [OF inv] assms(2) in auto)

lemma life_create_inv:
  assumes inv: "life_inv t" and c: "life_create t = (res, t')"
  shows "life_inv t' \<and> res \<noteq> Panic \<and> pt_cursor t' = pt_cursor t"
proof (cases "\<exists>x. res = Ok x")
  case False
  then have "(\<exists>e. res = Err e) \<and> t' = t"
    using c by (cases "position (\<lambda>s. s = None) (pt_slots t)"; cases "checked_add (pt_next t) 1") (auto simp: life_create_def)
  then show ?thesis using inv by auto
next
  case True
  then obtain slot n where pos: "position (\<lambda>s. s = None) (pt_slots t) = Some slot" and n: "checked_add (pt_next t) 1 = Some n"
    and res: "res = Ok (slot, pt_next t)"
    and t': "t' = t\<lparr>pt_next := n, pt_slots := (pt_slots t)[slot := Some \<lparr>pr_pid = pt_next t, pr_state = Ready\<rparr>]\<rparr>"
    using c by (cases "position (\<lambda>s. s = None) (pt_slots t)"; cases "checked_add (pt_next t) 1") (auto simp: life_create_def)
  let ?r = "\<lparr>pr_pid = pt_next t, pr_state = Ready\<rparr>"
  note keys = life_invD(4) [OF inv]
  have less: "pt_next t < n" "0 < n" using checked_add_Some_unat [OF n] by (auto simp: word_less_nat_alt)
  have R': "set (flatten (pt_slots t')) = insert ?r (set (flatten (pt_slots t)))"
    using set_flatten_fill [OF position_less [OF pos] position_holds [OF pos]] t' by simp
  have "pr_pid b \<noteq> pt_next t" if "j < length (pt_slots t)" "pt_slots t ! j = Some b" for j b
  proof -
    have "b \<in> set (flatten (pt_slots t))" using that by (auto simp: in_flatten_iff)
    then show ?thesis using life_invD(5) [OF inv, of b] by auto
  qed
  then have keys': "slot_keys_distinct pr_pid (pt_slots t')"
    using slot_keys_distinct_set [OF keys, of slot ?r] t' by simp
  have pids: "0 < pr_pid x \<and> pr_pid x < n" if "x \<in> set (flatten (pt_slots t'))" for x
  proof (cases "x = ?r")
    case True
    then show ?thesis using less life_invD(3) [OF inv] by simp
  next
    case False
    then have "x \<in> set (flatten (pt_slots t))" using that R' by blast
    then show ?thesis using life_invD(5) [OF inv, of x] less(1) by (meson less_trans)
  qed
  have one: "x = y" if "x \<in> set (flatten (pt_slots t'))" "y \<in> set (flatten (pt_slots t'))"
    "pr_state x = Running" "pr_state y = Running" for x y
    using that life_invD(6) [OF inv, of x y] unfolding R' by auto
  have "life_inv t'"
    unfolding life_inv_def using keys' pids one less life_invD(1,2) [OF inv] t' by simp
  then show ?thesis using res t' by simp
qed

lemma life_reap_cases:
  assumes "life_reap t p = (res, t')"
  obtains (refused) e where "res = Err e" "t' = t"
  | (reaped) i r e where "i < length (pt_slots t)" "pt_slots t ! i = Some r" "pr_pid r = p" "pr_state r = Exited e"
      "res = Ok e" "t' = t\<lparr>pt_slots := (pt_slots t)[i := None]\<rparr>"
proof (cases "life_slot t p")
  case (Ok i)
  obtain r where r: "i < length (pt_slots t)" "pt_slots t ! i = Some r" "pr_pid r = p" using life_slot_Ok [OF Ok] by blast
  then show ?thesis
    using assms Ok refused reaped [OF r] by (cases "pr_state r") (auto simp: life_reap_def)
next
  case (Err e')
  then show ?thesis using assms refused by (auto simp: life_reap_def)
next
  case Panic
  then show ?thesis by simp
qed

lemma life_reap_inv:
  assumes inv: "life_inv t" and r: "life_reap t p = (res, t')"
  shows "life_inv t' \<and> res \<noteq> Panic \<and> pt_cursor t' = pt_cursor t"
proof (rule life_reap_cases [OF r])
  fix i r e
  assume i: "i < length (pt_slots t)" "pt_slots t ! i = Some r" "res = Ok e"
    and t': "t' = t\<lparr>pt_slots := (pt_slots t)[i := None]\<rparr>"
  note keys = life_invD(4) [OF inv]
  have R': "set (flatten (pt_slots t')) = {y \<in> set (flatten (pt_slots t)). pr_pid y \<noteq> pr_pid r}"
    using set_flatten_clear [OF keys i(1,2)] t' by simp
  have pids: "0 < pr_pid x \<and> pr_pid x < pt_next t" if "x \<in> set (flatten (pt_slots t'))" for x
    using that life_invD(5) [OF inv] unfolding R' by auto
  have one: "x = y" if "x \<in> set (flatten (pt_slots t'))" "y \<in> set (flatten (pt_slots t'))"
    "pr_state x = Running" "pr_state y = Running" for x y
    using that life_invD(6) [OF inv, of x y] unfolding R' by auto
  have "life_inv t'"
    unfolding life_inv_def using slot_keys_distinct_clear [OF keys] pids one life_invD(1-3) [OF inv] t' by simp
  then show ?thesis using i(3) t' by simp
qed (use inv in auto)

section \<open>Scheduling\<close>

text \<open>How many slots after the cursor a slot comes up.\<close>

definition turn :: "nat \<Rightarrow> nat \<Rightarrow> nat" where
  "turn c s = (if c < s then s - c else s + capacity - c)"

lemma turn_slot: "c < 16 \<Longrightarrow> s < 16 \<Longrightarrow> 1 \<le> turn c s \<and> turn c s \<le> 16 \<and> (c + turn c s) mod 16 = s"
  by (auto simp: turn_def)

lemma turn_advance:
  assumes "c < 16" and "s < 16" and "d < turn c s"
  shows "turn ((c + d) mod 16) s = turn c s - d"
proof -
  have lim: "c + d < 32" using turn_slot [OF assms(1,2)] assms by linarith
  show ?thesis
  proof (cases "c + d < 16")
    case True
    then show ?thesis using assms by (auto simp: turn_def split: if_splits)
  next
    case False
    then have "(c + d) mod 16 = c + d - 16" using lim by (simp add: le_mod_geq)
    then show ?thesis using assms False by (auto simp: turn_def split: if_splits)
  qed
qed

lemma find_turn:
  assumes "find P (map (\<lambda>d. (c + d) mod 16) [1..<17]) = Some i"
  obtains d where "1 \<le> d" "d \<le> 16" "i = (c + d) mod 16" "P i" "\<And>d'. 1 \<le> d' \<Longrightarrow> d' < d \<Longrightarrow> \<not> P ((c + d') mod 16)"
proof -
  obtain k where k: "k < 16" "P ((c + Suc k) mod 16)" "i = (c + Suc k) mod 16" "\<And>j. j < k \<Longrightarrow> \<not> P ((c + Suc j) mod 16)"
    using assms by (auto simp: find_Some_iff simp del: upt_Suc)
  have "\<not> P ((c + d') mod 16)" if "1 \<le> d'" "d' < Suc k" for d'
    using k(4) [of "d' - 1"] that by simp
  then show ?thesis using that [of "Suc k"] k by simp
qed

lemma life_schedule_cases:
  assumes inv: "life_inv t" and s: "life_schedule t = (res, t')"
  obtains (busy) "res = Err LfRunning" "t' = t" "\<exists>r\<in>set (flatten (pt_slots t)). pr_state r = Running"
  | (idle) "res = Ok None" "t' = t" "\<And>i. i < capacity \<Longrightarrow> \<not> slot_ready (pt_slots t ! i)"
      "\<forall>r\<in>set (flatten (pt_slots t)). pr_state r \<noteq> Running"
  | (dispatched) i r where "i < capacity" "pt_slots t ! i = Some r" "pr_state r = Ready" "res = Ok (Some (i, pr_pid r))"
      "t' = (set_state t i Running)\<lparr>pt_cursor := i\<rparr>" "\<forall>r\<in>set (flatten (pt_slots t)). pr_state r \<noteq> Running"
      "\<And>j. j < capacity \<Longrightarrow> slot_ready (pt_slots t ! j) \<Longrightarrow> turn (pt_cursor t) i \<le> turn (pt_cursor t) j"
      "i = (pt_cursor t + turn (pt_cursor t) i) mod capacity"
proof (cases "\<exists>r\<in>set (flatten (pt_slots t)). pr_state r = Running")
  case True
  then show ?thesis using s busy by (auto simp: life_schedule_def)
next
  case none: False
  let ?c = "pt_cursor t"
  have c: "?c < 16" using life_invD(2) [OF inv] .
  show ?thesis
  proof (cases "find (\<lambda>i. slot_ready (pt_slots t ! i)) (map (\<lambda>d. (?c + d) mod 16) [1..<17])")
    case None
    have "\<not> slot_ready (pt_slots t ! i)" if "i < 16" for i
    proof -
      note ts = turn_slot [OF c that]
      have "turn ?c i \<in> set [1..<17]" using ts by (simp del: upt_Suc)
      from imageI [OF this, of "\<lambda>d. (?c + d) mod 16"]
      have "i \<in> set (map (\<lambda>d. (?c + d) mod 16) [1..<17])" using ts by (simp only: set_map)
      then show ?thesis using find_NoneD [OF None] by blast
    qed
    moreover have "res = Ok None" "t' = t" using s none None by (auto simp: life_schedule_def)
    ultimately show ?thesis using idle none by blast
  next
    case (Some i)
    then obtain d where d: "1 \<le> d" "d \<le> 16" "i = (?c + d) mod 16" "slot_ready (pt_slots t ! i)"
      "\<And>d'. 1 \<le> d' \<Longrightarrow> d' < d \<Longrightarrow> \<not> slot_ready (pt_slots t ! ((?c + d') mod 16))" using find_turn [OF Some] by metis
    have i: "i < 16" using d(3) by simp
    have td: "turn ?c i = d"
    proof (rule antisym)
      show "d \<le> turn ?c i" using d(5) [of "turn ?c i"] turn_slot [OF c i] d(4) by (metis linorder_not_less)
      show "turn ?c i \<le> d" using c d(1-3) by (auto simp: turn_def mod_if split: if_splits)
    qed
    have least: "turn ?c i \<le> turn ?c j" if "j < 16" "slot_ready (pt_slots t ! j)" for j
      using d(5) [of "turn ?c j"] turn_slot [OF c that(1)] that(2) td by (metis linorder_not_less)
    obtain r where r: "pt_slots t ! i = Some r" "pr_state r = Ready"
      using d(4) by (cases "pt_slots t ! i") (auto simp: slot_ready_def)
    have "res = Ok (Some (i, pr_pid r))" "t' = (set_state t i Running)\<lparr>pt_cursor := i\<rparr>"
      using s none Some r by (auto simp: life_schedule_def simp del: upt_Suc)
    then show ?thesis using dispatched [OF i r _ _ _ least] none td d(3) by blast
  qed
qed

lemma life_schedule_inv:
  assumes inv: "life_inv t" and s: "life_schedule t = (res, t')"
  shows "life_inv t' \<and> res \<noteq> Panic"
proof (rule life_schedule_cases [OF inv s])
  fix i r
  assume i: "i < capacity" "pt_slots t ! i = Some r" "res = Ok (Some (i, pr_pid r))"
    and t': "t' = (set_state t i Running)\<lparr>pt_cursor := i\<rparr>" and none: "\<forall>r\<in>set (flatten (pt_slots t)). pr_state r \<noteq> Running"
  have "life_inv (set_state t i Running)" using set_state_inv [OF inv _ i(2)] i(1) life_invD(1) [OF inv] none by simp
  then show ?thesis using i t' by (simp add: life_inv_def)
qed (use inv in auto)

section \<open>Runs\<close>

lemma forgetD: "forget x = (bad, s) \<Longrightarrow> x = (fst x, s) \<and> bad = (fst x = Panic)"
  by (cases x) (simp add: forget_def)

lemma state_op_event:
  assumes inv: "life_inv t" and "st \<noteq> Running"
    and "forget (or_return (life_slot t p) t (\<lambda>i. or_return (expect (pt_slots t ! i)) t (\<lambda>r.
      if bad_state (pr_state r) then (Err e, t) else (Ok (), set_state t i st)))) = (bad, t')"
  shows "life_inv t' \<and> \<not> bad \<and> pt_cursor t' = pt_cursor t"
  using state_op_inv [OF assms(1,2) conjunct1 [OF forgetD [OF assms(3)]]] forgetD [OF assms(3)] by blast

lemma life_event_inv:
  assumes inv: "life_inv t" and e: "life_event_run e t = (bad, t')"
  shows "life_inv t' \<and> \<not> bad \<and> (e = EvSchedule \<or> pt_cursor t' = pt_cursor t)"
proof (cases e)
  case EvCreate
  then have f: "forget (life_create t) = (bad, t')" using e by simp
  show ?thesis using life_create_inv [OF inv conjunct1 [OF forgetD [OF f]]] forgetD [OF f] by blast
next
  case EvSchedule
  then have f: "forget (life_schedule t) = (bad, t')" using e by simp
  show ?thesis using life_schedule_inv [OF inv conjunct1 [OF forgetD [OF f]]] forgetD [OF f] EvSchedule by blast
next
  case (EvReap p)
  then have f: "forget (life_reap t p) = (bad, t')" using e by simp
  show ?thesis using life_reap_inv [OF inv conjunct1 [OF forgetD [OF f]]] forgetD [OF f] by blast
next
  case (EvHold p)
  then show ?thesis using state_op_event [OF inv, of Dormant p "\<lambda>x. x \<noteq> Ready" LfNotRunning bad t'] e by (simp add: life_hold_def)
next
  case (EvStart p)
  then show ?thesis using state_op_event [OF inv, of Ready p "\<lambda>x. x \<noteq> Dormant" LfNotRunning bad t'] e by (simp add: life_start_def)
next
  case (EvSuspend p)
  then show ?thesis using state_op_event [OF inv, of Ready p "\<lambda>x. x \<noteq> Running" LfNotRunning bad t'] e by (simp add: life_suspend_def)
next
  case (EvFinish p x)
  then show ?thesis using state_op_event [OF inv, of "Exited x" p is_exited LfAlreadyExited bad t'] e by (simp add: life_finish_def)
next
  case (EvBlock p)
  then show ?thesis using state_op_event [OF inv, of Blocked p "\<lambda>x. x \<noteq> Running" LfNotRunning bad t'] e by (simp add: life_block_def)
next
  case (EvWake p)
  then show ?thesis using state_op_event [OF inv, of Ready p "\<lambda>x. x \<noteq> Blocked" LfNotBlocked bad t'] e by (simp add: life_wake_def)
qed

lemma run_life_inv: "life_step\<^sup>*\<^sup>* t t' \<Longrightarrow> life_inv t \<Longrightarrow> life_inv t'"
proof (induction rule: rtranclp_induct)
  case (step u v)
  then show ?case using life_event_inv [of u] by (auto elim!: life_step.cases)
qed simp

text \<open>A process waits in a slot; a run during which it stays ready, with the number of dispatches in it.\<close>

definition waits_at :: "proc_table \<Rightarrow> nat \<Rightarrow> pid \<Rightarrow> bool" where
  "waits_at t s p \<longleftrightarrow> s < capacity \<and> pt_slots t ! s = Some \<lparr>pr_pid = p, pr_state = Ready\<rparr>"

definition dispatches :: "life_event \<Rightarrow> proc_table \<Rightarrow> bool" where
  "dispatches e t \<longleftrightarrow> e = EvSchedule \<and> (\<exists>x. fst (life_schedule t) = Ok (Some x))"

inductive waiting_run :: "nat \<Rightarrow> pid \<Rightarrow> proc_table \<Rightarrow> nat \<Rightarrow> proc_table \<Rightarrow> bool" for s p t where
  wait_start: "waits_at t s p \<Longrightarrow> waiting_run s p t 0 t"
| wait_event: "waiting_run s p t n u \<Longrightarrow> life_event_run e u = (bad, v) \<Longrightarrow> waits_at v s p \<Longrightarrow>
    waiting_run s p t (if dispatches e u then Suc n else n) v"

lemma waiting_run_inv: "waiting_run s p t n u \<Longrightarrow> life_inv t \<Longrightarrow> life_inv u \<and> waits_at u s p"
proof (induction rule: waiting_run.induct)
  case (wait_event n u e bad v)
  then show ?case using life_event_inv [of u e bad v] by blast
qed simp

lemma dispatch_turn:
  assumes inv: "life_inv u" and w: "waits_at u s p" and e: "life_event_run EvSchedule u = (bad, v)"
    and w': "waits_at v s p" and d: "dispatches EvSchedule u"
  shows "turn (pt_cursor v) s < turn (pt_cursor u) s"
proof -
  have sch: "life_schedule u = (fst (life_schedule u), v)" using e forgetD [of "life_schedule u"] by simp
  have s: "s < 16" "slot_ready (pt_slots u ! s)" using w by (auto simp: waits_at_def slot_ready_def)
  note c = life_invD(2) [OF inv]
  show ?thesis
  proof (rule life_schedule_cases [OF inv sch])
    fix i r
    assume i: "i < capacity" "pt_slots u ! i = Some r" and v: "v = (set_state u i Running)\<lparr>pt_cursor := i\<rparr>"
      and least: "\<And>j. j < capacity \<Longrightarrow> slot_ready (pt_slots u ! j) \<Longrightarrow> turn (pt_cursor u) i \<le> turn (pt_cursor u) j"
      and i': "i = (pt_cursor u + turn (pt_cursor u) i) mod capacity"
    have "pt_slots v ! i = Some (r\<lparr>pr_state := Running\<rparr>)"
      using v i life_invD(1) [OF inv] by (simp add: set_state_def)
    then have "i \<noteq> s" using w' by (cases r) (auto simp: waits_at_def)
    then have "turn (pt_cursor u) i \<noteq> turn (pt_cursor u) s" using turn_slot [OF c s(1)] i' by metis
    then have less: "turn (pt_cursor u) i < turn (pt_cursor u) s" using least [OF s] by simp
    have "turn i s = turn (pt_cursor u) s - turn (pt_cursor u) i"
      using turn_advance [OF c s(1) less] i' by simp
    then show ?thesis using less turn_slot [OF c i(1)] v by simp
  qed (use d in \<open>auto simp: dispatches_def\<close>)
qed

lemma waiting_run_turn:
  "waiting_run s p t n u \<Longrightarrow> life_inv t \<Longrightarrow> n + turn (pt_cursor u) s \<le> turn (pt_cursor t) s"
proof (induction rule: waiting_run.induct)
  case (wait_event n u e bad v)
  have u: "life_inv u" "waits_at u s p" using waiting_run_inv [OF wait_event(1,5)] by auto
  show ?case
  proof (cases "dispatches e u")
    case True
    then have e: "e = EvSchedule" by (simp add: dispatches_def)
    then show ?thesis using dispatch_turn [OF u, of bad v] wait_event True by simp
  next
    case False
    have "pt_cursor v = pt_cursor u"
    proof (cases "e = EvSchedule")
      case sch: True
      have "life_schedule u = (fst (life_schedule u), v)" using wait_event(2) sch forgetD [of "life_schedule u"] by simp
      then show ?thesis
        by (rule life_schedule_cases [OF u(1)]) (use False sch in \<open>auto simp: dispatches_def\<close>)
    next
      case other: False
      then show ?thesis using life_event_inv [OF u(1) wait_event(2)] by blast
    qed
    then show ?thesis using wait_event False by simp
  qed
qed simp

section \<open>Properties\<close>

text \<open>Identities of a later table: those of the earlier one, or issued since.\<close>

definition issued_since :: "proc_table \<Rightarrow> proc_table \<Rightarrow> bool" where
  "issued_since t t' \<longleftrightarrow> pt_next t \<le> pt_next t' \<and>
     (\<forall>r\<in>set (flatten (pt_slots t')). pr_pid r < pt_next t \<longrightarrow> (\<exists>q\<in>set (flatten (pt_slots t)). pr_pid q = pr_pid r))"

lemma issued_since_refl [simp]: "issued_since t t"
  by (auto simp: issued_since_def)

lemma issued_since_trans:
  assumes "issued_since t t1" and "issued_since t1 t2"
  shows "issued_since t t2"
  unfolding issued_since_def
proof (intro conjI ballI impI)
  show "pt_next t \<le> pt_next t2" using assms order_trans unfolding issued_since_def by blast
  fix r assume r: "r \<in> set (flatten (pt_slots t2))" "pr_pid r < pt_next t"
  moreover have "pr_pid r < pt_next t1" using r(2) assms(1) by (auto simp: issued_since_def)
  ultimately obtain q where q: "q \<in> set (flatten (pt_slots t1))" "pr_pid q = pr_pid r"
    using assms(2) unfolding issued_since_def by blast
  then show "\<exists>q\<in>set (flatten (pt_slots t)). pr_pid q = pr_pid r"
    using assms(1) r(2) unfolding issued_since_def by metis
qed

lemma issued_since_set_state: "issued_since t (set_state t i st)"
proof (cases "i < length (pt_slots t)")
  case True
  have len: "length (pt_slots (set_state t i st)) = length (pt_slots t)" by (simp add: set_state_def)
  have "\<exists>q\<in>set (flatten (pt_slots t)). pr_pid q = pr_pid r" if r: "r \<in> set (flatten (pt_slots (set_state t i st)))" for r
  proof -
    obtain k where k: "k < length (pt_slots t)" "pt_slots (set_state t i st) ! k = Some r"
      using r unfolding in_flatten_iff len by blast
    then obtain q where "pt_slots t ! k = Some q" "pr_pid q = pr_pid r"
      using True by (cases "k = i") (auto simp: set_state_def)
    then have "q \<in> set (flatten (pt_slots t))" using k(1) unfolding in_flatten_iff by blast
    then show ?thesis using \<open>pr_pid q = pr_pid r\<close> by blast
  qed
  then show ?thesis by (auto simp: issued_since_def set_state_def)
next
  case False
  then have "pt_slots (set_state t i st) = pt_slots t" "pt_next (set_state t i st) = pt_next t"
    by (simp_all add: set_state_def not_less list_update_beyond)
  then show ?thesis using issued_since_refl [of t] unfolding issued_since_def by simp
qed

lemma issued_since_cursor [simp]: "issued_since t (t'\<lparr>pt_cursor := i\<rparr>) = issued_since t t'"
  by (simp add: issued_since_def)

lemma life_create_issues: "issued_since t (snd (life_create t))"
proof (cases "position (\<lambda>s. s = None) (pt_slots t)")
  case pos: (Some slot)
  show ?thesis
  proof (cases "checked_add (pt_next t) 1")
    case (Some n)
    have "pt_next t \<le> n" using checked_add_1_less [OF Some] by simp
    then show ?thesis
      using Some pos set_flatten_fill [OF position_less [OF pos] position_holds [OF pos]]
      by (auto simp: life_create_def issued_since_def)
  qed (use pos in \<open>simp add: life_create_def\<close>)
qed (simp add: life_create_def)

lemma life_reap_issues: "issued_since t (snd (life_reap t p))"
proof (rule life_reap_cases [OF prod.collapse [symmetric]])
  fix i assume e: "snd (life_reap t p) = t\<lparr>pt_slots := (pt_slots t)[i := None]\<rparr>"
  have "set (flatten ((pt_slots t)[i := None])) \<subseteq> set (flatten (pt_slots t))"
    using set_update_subset_insert [of "pt_slots t" i None] by (auto simp: set_flatten)
  then show ?thesis unfolding e by (auto simp: issued_since_def)
qed simp

lemma life_event_issues:
  assumes "life_event_run e t = (bad, t')"
  shows "issued_since t t'"
proof -
  have inner: "issued_since t (snd (or_return (expect (pt_slots t ! i)) t (\<lambda>r.
      if C r then (Err x, t) else (Ok y, set_state t i st))))" for i C x y st
    using issued_since_set_state by (cases "pt_slots t ! i") auto
  have keep: "issued_since t (snd (or_return (life_slot t p) t (\<lambda>i. or_return (expect (pt_slots t ! i)) t (\<lambda>r.
      if C r then (Err x, t) else (Ok y, set_state t i st)))))" for p C x y st
    using inner by (cases "life_slot t p") auto
  have "issued_since t (snd (life_schedule t))"
    using issued_since_set_state by (auto simp: life_schedule_def split: option.splits)
  then have "issued_since t (snd (life_event_run e t))"
    using keep life_create_issues life_reap_issues
    by (cases e) (simp_all add: forget_def life_hold_def life_start_def life_suspend_def life_finish_def life_block_def life_wake_def)
  then show ?thesis using assms by simp
qed

lemma run_issues: "life_step\<^sup>*\<^sup>* t t' \<Longrightarrow> issued_since t t'"
  by (induction rule: rtranclp_induct) (auto elim!: life_step.cases intro: issued_since_trans life_event_issues)

text \<open>C26 In every reachable process table no call panics, at most one process is running, and process
  identities are pairwise distinct and smaller than the next identity to be issued. No identity is reissued: in every
  table reached later, an identity that had been issued before belongs to a process that was already in the
  table, so the identity of a reaped process never names another one.\<close>

theorem lifecycle_safe:
  assumes "life_step\<^sup>*\<^sup>* life_new t" and "life_event_run e t = (panicked, t')" and "life_step\<^sup>*\<^sup>* t' u"
  shows "\<not> panicked \<and> card {r \<in> set (flatten (pt_slots t')). pr_state r = Running} \<le> 1 \<and>
    slot_keys_distinct pr_pid (pt_slots t') \<and> (\<forall>r\<in>set (flatten (pt_slots t')). pr_pid r < pt_next t') \<and>
    pt_next t' \<le> pt_next u \<and> (\<forall>r\<in>set (flatten (pt_slots u)). pr_pid r < pt_next t' \<longrightarrow>
      (\<exists>q\<in>set (flatten (pt_slots t')). pr_pid q = pr_pid r))"
proof -
  have inv: "life_inv t" using run_life_inv [OF assms(1)] life_new_inv by blast
  have inv': "life_inv t'" and "\<not> panicked" using life_event_inv [OF inv assms(2)] by auto
  moreover have "card {r \<in> set (flatten (pt_slots t')). pr_state r = Running} \<le> 1"
    using life_invD(6) [OF inv'] by (simp add: card_le_Suc0_iff_eq)
  ultimately show ?thesis using life_invD(4,5) [OF inv'] run_issues [OF assms(3)] unfolding issued_since_def by blast
qed

theorem lifecycle_safe_witness:
  "\<exists>t t' u. life_step\<^sup>*\<^sup>* life_new t \<and> life_event_run EvSchedule t = (False, t') \<and> life_step\<^sup>*\<^sup>* t' u \<and>
     card {r \<in> set (flatten (pt_slots t')). pr_state r = Running} \<le> 1 \<and> pt_next t' \<le> pt_next u"
proof -
  define t where "t = snd (life_event_run EvCreate life_new)"
  have run: "life_step\<^sup>*\<^sup>* life_new t"
    unfolding t_def by (rule r_into_rtranclp [of life_step, OF life_event [OF prod.collapse [symmetric]]])
  obtain bad t' where e: "life_event_run EvSchedule t = (bad, t')" by (metis prod.collapse)
  have later: "life_step\<^sup>*\<^sup>* t' (snd (life_event_run EvCreate t'))"
    by (rule r_into_rtranclp [of life_step, OF life_event [OF prod.collapse [symmetric]]])
  note safe = lifecycle_safe [OF run e later]
  then have "life_event_run EvSchedule t = (False, t')" using e by simp
  then show ?thesis using run safe later by blast
qed

text \<open>C27 Scheduling is fair: while a process stays ready, at most fifteen other dispatches can happen,
  whatever else is created, blocked, woken, finished or reaped meanwhile.\<close>

theorem ready_process_waits_at_most_15_dispatches:
  assumes "life_inv t" and "waiting_run s p t n u"
  shows "n \<le> 15"
proof -
  have "n + turn (pt_cursor u) s \<le> turn (pt_cursor t) s" by (rule waiting_run_turn [OF assms(2,1)])
  moreover have u: "life_inv u" "s < capacity" "life_inv t"
    using waiting_run_inv [OF assms(2,1)] assms(1) by (auto simp: waits_at_def)
  then have "1 \<le> turn (pt_cursor u) s" "turn (pt_cursor t) s \<le> 16"
    using turn_slot [OF life_invD(2) [OF u(1)] u(2)] turn_slot [OF life_invD(2) [OF u(3)] u(2)] by auto
  ultimately show ?thesis by linarith
qed

definition demo_procs :: proc_table where
  "demo_procs = snd (life_create (snd (life_create life_new)))"

lemma demo_procs_slots:
  "pt_slots demo_procs = Some \<lparr>pr_pid = 1, pr_state = Ready\<rparr> # Some \<lparr>pr_pid = 2, pr_state = Ready\<rparr> # replicate 14 None"
  "pt_cursor demo_procs = 15"
  by (simp_all add: demo_procs_def life_create_def life_new_def checked_add_def replicate_numeral)

theorem ready_process_waits_at_most_15_dispatches_witness:
  "\<exists>u. waiting_run 1 2 demo_procs 1 u \<and> (1 :: nat) \<le> 15"
proof -
  have inv: "life_inv demo_procs"
    unfolding demo_procs_def
    by (rule conjunct1 [OF life_create_inv [OF conjunct1 [OF life_create_inv [OF life_new_inv prod.collapse [symmetric]]]
          prod.collapse [symmetric]]])
  have start: "waiting_run 1 2 demo_procs 0 demo_procs"
    by (rule wait_start) (simp add: waits_at_def demo_procs_slots)
  have find0: "find (\<lambda>i. slot_ready (pt_slots demo_procs ! i)) (map (\<lambda>d. (pt_cursor demo_procs + d) mod capacity) [1..<capacity + 1]) = Some 0"
    using upt_conv_Cons [of 1 17] by (simp add: demo_procs_slots slot_ready_def)
  have sched: "life_schedule demo_procs = (Ok (Some (0, 1)), (set_state demo_procs 0 Running)\<lparr>pt_cursor := 0\<rparr>)"
    unfolding life_schedule_def find0 by (simp add: demo_procs_slots)
  have d: "dispatches EvSchedule demo_procs" by (simp add: dispatches_def sched)
  let ?v = "(set_state demo_procs 0 Running)\<lparr>pt_cursor := 0\<rparr>"
  have "life_event_run EvSchedule demo_procs = (False, ?v)" by (simp add: forget_def sched)
  moreover have "waits_at ?v 1 2" by (simp add: waits_at_def set_state_def demo_procs_slots)
  ultimately have w: "waiting_run 1 2 demo_procs 1 ?v"
    using wait_event [OF start, of EvSchedule False ?v] d by simp
  show ?thesis using w ready_process_waits_at_most_15_dispatches [OF inv w] by blast
qed

end
