(* ===== verification/Loader.thy ===== *)
theory Loader
  imports Space_Safety Elf Lifecycle
begin

unbundle bit_operations_syntax

text \<open>
  The loader of \<open>kernel/src/process/runtime/loader.rs\<close>: it parses an image, creates an address space, loads the
  pages of every segment and of the stack, and takes everything back when a page cannot be loaded. The kernel runs on
  its own root, so the active root is the root of \<open>kernel\<close>. What is proved is that a loaded process sees exactly the
  bytes of its image, under the permissions of its segments, and nothing else.
\<close>

section \<open>Definitions\<close>

definition stack_permissions :: page_permissions where
  "stack_permissions = \<lparr>perm_writable = True, perm_executable = False, perm_user = True\<rparr>"

definition segment_permissions :: "segment \<Rightarrow> page_permissions" where
  "segment_permissions s = \<lparr>perm_writable = seg_writable s, perm_executable = seg_executable s, perm_user = True\<rparr>"

text \<open>The pages of \<open>(first..stop).step_by(PAGE_SIZE)\<close> for page-aligned bounds.\<close>

definition pages_between :: "nat \<Rightarrow> nat \<Rightarrow> nat list" where
  "pages_between first stop = map (\<lambda>i. first + i * page_size) [0..<(stop - first) div page_size]"

definition page_data :: "elf_image \<Rightarrow> segment \<Rightarrow> nat \<Rightarrow> (mem_error, nat \<times> bytes) outcome" where
  "page_data img s page =
     (let start = max page (seg_address s); stop = min (page + page_size) (seg_address s + seg_file_size s) in
      if start < stop
      then and_then (expect (segment_data img s)) (\<lambda>d.
        Ok (start - page, field_at d (start - seg_address s) (stop - start)))
      else Ok (0, []))"

primrec load_segment ::
  "nat \<Rightarrow> address_space \<Rightarrow> elf_image \<Rightarrow> segment \<Rightarrow> nat list \<Rightarrow> physical \<Rightarrow> (mem_error, unit) outcome \<times> physical" where
  "load_segment active sp img s [] p = (Ok (), p)"
| "load_segment active sp img s (page # pages) p =
     or_return (page_data img s page) p (\<lambda>(off, data).
     case load_page active sp page (segment_permissions s) off data p of (r, p) \<Rightarrow> or_return r p (\<lambda>_.
     load_segment active sp img s pages p))"

primrec load_segments ::
  "nat \<Rightarrow> address_space \<Rightarrow> elf_image \<Rightarrow> segment list \<Rightarrow> physical \<Rightarrow> (mem_error, unit) outcome \<times> physical" where
  "load_segments active sp img [] p = (Ok (), p)"
| "load_segments active sp img (s # segs) p =
     (case load_segment active sp img s (pages_between (start_page s) (end_page s)) p of (r, p) \<Rightarrow> or_return r p (\<lambda>_.
      load_segments active sp img segs p))"

primrec load_stack :: "nat \<Rightarrow> address_space \<Rightarrow> nat list \<Rightarrow> physical \<Rightarrow> (mem_error, unit) outcome \<times> physical" where
  "load_stack active sp [] p = (Ok (), p)"
| "load_stack active sp (page # pages) p =
     (case load_page active sp page stack_permissions 0 [] p of (r, p) \<Rightarrow> or_return r p (\<lambda>_.
      load_stack active sp pages p))"

definition load_image :: "nat \<Rightarrow> address_space \<Rightarrow> elf_image \<Rightarrow> physical \<Rightarrow> (mem_error, unit) outcome \<times> physical" where
  "load_image active sp img p =
     (case load_segments active sp img (img_segments img) p of (r, p) \<Rightarrow> or_return r p (\<lambda>_.
      load_stack active sp (pages_between (stack_top - stack_pages * page_size) stack_top) p))"

datatype process_error = PeElf elf_error | PeMemory mem_error | PeProcess life_error

record loaded_process =
  ld_space :: address_space
  ld_entry :: nat

definition loader_load :: "address_space \<Rightarrow> bytes \<Rightarrow> physical \<Rightarrow> (process_error, loaded_process) outcome \<times> physical" where
  "loader_load k bs p =
     or_return (map_err PeElf (elf_parse bs)) p (\<lambda>img.
     case create_user k p of (r, p) \<Rightarrow> or_return (map_err PeMemory r) p (\<lambda>sp.
     case load_image (as_root k) sp img p of
       (Ok _, p) \<Rightarrow> (Ok \<lparr>ld_space = sp, ld_entry = img_entry img\<rparr>, p)
     | (Panic, p) \<Rightarrow> (Panic, p)
     | (Err e, p) \<Rightarrow>
         (case destroy_user (as_root k) sp p of (Ok _, sp, p) \<Rightarrow> (Err (PeMemory e), p) | (_, sp, p) \<Rightarrow> (Panic, p))))"

section \<open>Pages placed so far\<close>

type_synonym page_spec = "page_permissions \<times> nat \<times> bytes"

definition spec_byte :: "page_spec \<Rightarrow> nat \<Rightarrow> u8" where
  "spec_byte sp n = (case sp of (pm, off, data) \<Rightarrow> if off \<le> n \<and> n < off + length data then data ! (n - off) else 0)"

definition placed :: "physical \<Rightarrow> nat \<Rightarrow> (nat \<rightharpoonup> page_spec) \<Rightarrow> physical \<Rightarrow> bool" where
  "placed p r C q \<longleftrightarrow> local_step p r q \<and>
     (\<forall>b. page_address b \<longrightarrow> (case C b of None \<Rightarrow> page_view q r b = page_view p r b
        | Some sp \<Rightarrow> \<exists>f. frame_address f \<and> page_view q r b = Some (leaf_entry f (fst sp)))) \<and>
     (\<forall>b. lower_half b \<longrightarrow> user_byte q r b =
        (case C (page_base b) of None \<Rightarrow> user_byte p r b | Some sp \<Rightarrow> Some (spec_byte sp (b - page_base b))))"

lemma placedD:
  assumes "placed p r C q"
  shows "local_step p r q"
    and "\<And>b. page_address b \<Longrightarrow> (case C b of None \<Rightarrow> page_view q r b = page_view p r b
      | Some sp \<Rightarrow> \<exists>f. frame_address f \<and> page_view q r b = Some (leaf_entry f (fst sp)))"
    and "\<And>b. lower_half b \<Longrightarrow> user_byte q r b =
      (case C (page_base b) of None \<Rightarrow> user_byte p r b | Some sp \<Rightarrow> Some (spec_byte sp (b - page_base b)))"
  using assms unfolding placed_def by blast+

lemma placed_empty: "space_inv p r \<Longrightarrow> tight p r \<Longrightarrow> placed p r Map.empty p"
  by (simp add: placed_def local_step_refl)

lemma placed_page:
  assumes P: "placed p r C q" and L: "loaded_page q r a pm off data u" and a: "page_view p r a = None"
  shows "placed p r (C(a \<mapsto> (pm, off, data))) u" and "C a = None"
proof -
  have l: "local_step q r u" "page_address a" "page_view q r a = None"
    "\<exists>f. frame_address f \<and> (\<forall>b. page_address b \<longrightarrow> page_view u r b = (if b = a then Some (leaf_entry f pm) else page_view q r b))"
    "\<And>b. lower_half b \<Longrightarrow> user_byte u r b = (if page_base b = a
       then Some (if off \<le> b - a \<and> b - a < off + length data then data ! (b - a - off) else 0) else user_byte q r b)"
    using L unfolding loaded_page_def by blast+
  obtain f where f: "frame_address f" "\<And>b. page_address b \<Longrightarrow> page_view u r b = (if b = a then Some (leaf_entry f pm) else page_view q r b)"
    using l(4) by blast
  note pq = placedD [OF P]
  show "C a = None" using pq(2) [OF l(2)] l(3) by (auto split: option.splits)
  have "local_step p r u" by (rule local_step_trans [OF pq(1) l(1)])
  moreover have "case (C(a \<mapsto> (pm, off, data))) b of None \<Rightarrow> page_view u r b = page_view p r b
      | Some sp \<Rightarrow> \<exists>f. frame_address f \<and> page_view u r b = Some (leaf_entry f (fst sp))" if "page_address b" for b
    using pq(2) [OF that] f that by (auto split: option.splits)
  moreover have "user_byte u r b =
      (case (C(a \<mapsto> (pm, off, data))) (page_base b) of None \<Rightarrow> user_byte p r b | Some sp \<Rightarrow> Some (spec_byte sp (b - page_base b)))"
    if "lower_half b" for b
    using pq(3) [OF that] l(5) [OF that] by (auto simp: spec_byte_def)
  ultimately show "placed p r (C(a \<mapsto> (pm, off, data))) u" unfolding placed_def by blast
qed

lemma placed_same:
  assumes P: "placed p r C q" and S: "same_space q r u"
  shows "local_step p r u"
proof -
  have pq: "local_step p r q" using P by (simp add: placed_def)
  show ?thesis by (rule local_step_trans [OF pq same_space_local [OF S local_stepD(2) [OF pq]]])
qed

text \<open>
  The loader loads a list of pages, each with its permissions and contents. Nothing is mapped before it starts, so
  only the lack of frames can stop it, and then the space is still well formed.
\<close>

definition fresh_space :: "physical \<Rightarrow> nat \<Rightarrow> bool" where
  "fresh_space p r \<longleftrightarrow> (\<forall>a. page_view p r a = None)"

primrec load_pages ::
  "nat \<Rightarrow> address_space \<Rightarrow> (nat \<times> page_spec) list \<Rightarrow> physical \<Rightarrow> (mem_error, unit) outcome \<times> physical" where
  "load_pages active sp [] p = (Ok (), p)"
| "load_pages active sp (x # xs) p =
     (case x of (a, pm, off, data) \<Rightarrow>
      case load_page active sp a pm off data p of (r, p) \<Rightarrow> or_return r p (\<lambda>_. load_pages active sp xs p))"

definition can_load :: "nat \<times> page_spec \<Rightarrow> bool" where
  "can_load x = (case x of (a, pm, off, data) \<Rightarrow> loadable a pm off data)"

lemma load_pages_append:
  "load_pages active sp (xs @ ys) p = (case load_pages active sp xs p of (r, p) \<Rightarrow> or_return r p (\<lambda>_. load_pages active sp ys p))"
proof (induction xs arbitrary: p)
  case (Cons x xs)
  obtain a pm off data where x: "x = (a, pm, off, data)" by (metis prod_cases4)
  obtain r q where "load_page active sp a pm off data p = (r, q)" by fastforce
  then show ?case using Cons by (cases r) (simp_all add: x)
qed simp

lemma load_pages_placed:
  assumes "placed p (as_root sp) C q" and fresh: "fresh_space p (as_root sp)" and act: "as_root sp \<noteq> active"
    and "\<forall>x\<in>set xs. can_load x" and "distinct (map fst xs)" and "\<forall>x\<in>set xs. C (fst x) = None"
    and "free_frames p \<le> free_frames q + 4 * k" and "load_pages active sp xs q = (res, u)"
  shows "res = Ok () \<and> placed p (as_root sp) (C ++ map_of xs) u \<or>
    res = Err (MemFrames FrExhausted) \<and> local_step p (as_root sp) u \<and> free_frames p < 4 * (k + length xs)"
  using assms(1,4-)
proof (induction xs arbitrary: C q k)
  case Nil
  then show ?case by simp
next
  case (Cons x xs)
  obtain a pm off data where x: "x = (a, pm, off, data)" by (metis prod_cases4)
  obtain res1 v where l: "load_page active sp a pm off data q = (res1, v)" by fastforce
  have loc: "local_step p (as_root sp) q" using Cons.prems(1) by (simp add: placed_def)
  have ca: "C a = None" "loadable a pm off data" using Cons.prems(2,4) by (simp_all add: x can_load_def)
  have none: "page_view p (as_root sp) a = None" using fresh by (simp add: fresh_space_def)
  from local_stepD(1,2) [OF loc] l show ?case
  proof (cases rule: load_page_cases)
    case loaded
    note P = placed_page [OF Cons.prems(1) loaded(4) none]
    have m: "C ++ map_of (x # xs) = C(a \<mapsto> (pm, off, data)) ++ map_of xs"
      using Cons.prems(3) by (simp add: x map_add_upd_left dom_map_of_conv_image_fst)
    have "\<forall>y\<in>set xs. (C(a \<mapsto> (pm, off, data))) (fst y) = None" using Cons.prems(3,4) by (auto simp: x image_def)
    moreover have "free_frames p \<le> free_frames v + 4 * Suc k" using Cons.prems(5) loaded(5) by simp
    moreover have "load_pages active sp xs v = (res, u)" using Cons.prems(6) l loaded(1) by (simp add: x)
    ultimately have "res = Ok () \<and> placed p (as_root sp) (C(a \<mapsto> (pm, off, data)) ++ map_of xs) u \<or>
      res = Err (MemFrames FrExhausted) \<and> local_step p (as_root sp) u \<and> free_frames p < 4 * (Suc k + length xs)"
      by (intro Cons.IH [OF P(1)]) (use Cons.prems(2,3) in simp_all)
    then show ?thesis unfolding m by simp
  next
    case (refused e)
    have "page_view q (as_root sp) a = None"
      using placedD(2) [OF Cons.prems(1), of a] ca none by (simp add: loadable_def)
    then have "e = MemFrames FrExhausted" "free_frames q < 4" using refused(3) ca(2) act by auto
    then show ?thesis using refused(1) Cons.prems(5,6) l placed_same [OF Cons.prems(1) refused(2)] by (simp add: x)
  qed
qed

definition segment_spec :: "elf_image \<Rightarrow> segment \<Rightarrow> nat \<Rightarrow> page_spec" where
  "segment_spec img s page =
     (segment_permissions s, case page_data img s page of Ok (off, data) \<Rightarrow> (off, data) | _ \<Rightarrow> (0, []))"

abbreviation segment_pages :: "segment \<Rightarrow> nat list" where
  "segment_pages s \<equiv> pages_between (start_page s) (end_page s)"

abbreviation the_stack :: "nat list" where
  "the_stack \<equiv> pages_between (stack_top - stack_pages * page_size) stack_top"

definition segments_list :: "elf_image \<Rightarrow> segment list \<Rightarrow> (nat \<times> page_spec) list" where
  "segments_list img segs = concat (map (\<lambda>s. map (\<lambda>a. (a, segment_spec img s a)) (segment_pages s)) segs)"

definition stack_list :: "nat list \<Rightarrow> (nat \<times> page_spec) list" where
  "stack_list pages = map (\<lambda>a. (a, stack_permissions, 0, [])) pages"

definition image_list :: "elf_image \<Rightarrow> (nat \<times> page_spec) list" where
  "image_list img = segments_list img (img_segments img) @ stack_list the_stack"

lemma page_data_Ok: "segment_ok (img_bytes img) s \<Longrightarrow> \<exists>off data. page_data img s a = Ok (off, data) \<and> off + length data \<le> page_size"
  by (auto simp: page_data_def Let_def segment_data_def segment_ok_def)

lemma load_segment_list:
  assumes "segment_ok (img_bytes img) s"
  shows "load_segment active sp img s pages p = load_pages active sp (map (\<lambda>a. (a, segment_spec img s a)) pages) p"
proof (induction pages arbitrary: p)
  case (Cons a pages)
  obtain off data where d: "page_data img s a = Ok (off, data)" using page_data_Ok [OF assms] by blast
  show ?case by (simp add: d segment_spec_def Cons)
qed simp

lemma load_image_list:
  assumes "\<forall>s\<in>set (img_segments img). segment_ok (img_bytes img) s"
  shows "load_image active sp img p = load_pages active sp (image_list img) p"
proof -
  have segs: "load_segments active sp img segs p = load_pages active sp (segments_list img segs) p"
    if "\<forall>s\<in>set segs. segment_ok (img_bytes img) s" for segs p
    using that by (induction segs arbitrary: p) (simp_all add: segments_list_def load_segment_list load_pages_append)
  have stack: "load_stack active sp pages p = load_pages active sp (stack_list pages) p" for pages p
    by (induction pages arbitrary: p) (simp_all add: stack_list_def)
  show ?thesis by (simp add: load_image_def image_list_def load_pages_append segs [OF assms] stack)
qed

section \<open>The image of a process\<close>

definition in_segment :: "nat \<Rightarrow> segment \<Rightarrow> bool" where
  "in_segment b s \<longleftrightarrow> start_page s \<le> b \<and> b < end_page s"

definition in_stack :: "nat \<Rightarrow> bool" where
  "in_stack b \<longleftrightarrow> stack_top - stack_pages * page_size \<le> b \<and> b < stack_top"

text \<open>What the process should see at \<open>b\<close>: the bytes of the file, zeros around them, an empty stack.\<close>

definition image_byte :: "elf_image \<Rightarrow> nat \<Rightarrow> u8 option" where
  "image_byte img b =
     (case find (in_segment b) (img_segments img) of
        Some s \<Rightarrow> Some (if seg_address s \<le> b \<and> b < seg_address s + seg_file_size s
                        then img_bytes img ! (seg_offset s + (b - seg_address s)) else 0)
      | None \<Rightarrow> if in_stack b then Some 0 else None)"

definition image_permissions :: "elf_image \<Rightarrow> nat \<Rightarrow> page_permissions option" where
  "image_permissions img b =
     (case find (in_segment b) (img_segments img) of
        Some s \<Rightarrow> Some (segment_permissions s)
      | None \<Rightarrow> if in_stack b then Some stack_permissions else None)"

lemma set_pages_between:
  assumes "page_size dvd first" and "page_size dvd stop" and "page_size dvd a"
  shows "a \<in> set (pages_between first stop) \<longleftrightarrow> first \<le> a \<and> a < stop"
proof -
  obtain i j k where d: "first = page_size * i" "stop = page_size * j" "a = page_size * k" using assms by (auto simp: dvd_def)
  have "(stop - first) div page_size = j - i" unfolding d by (simp add: diff_mult_distrib2 [symmetric])
  then have "a \<in> set (pages_between first stop) \<longleftrightarrow> (\<exists>n<j - i. page_size * k = page_size * i + n * page_size)"
    unfolding d by (auto simp: pages_between_def)
  also have "\<dots> \<longleftrightarrow> i \<le> k \<and> k < j"
  proof
    assume "\<exists>n<j - i. page_size * k = page_size * i + n * page_size"
    then obtain n where "n < j - i" "page_size * k = page_size * (i + n)" by (auto simp: algebra_simps)
    then show "i \<le> k \<and> k < j" by auto
  next
    assume "i \<le> k \<and> k < j"
    then show "\<exists>n<j - i. page_size * k = page_size * i + n * page_size"
      by (intro exI [of _ "k - i"]) (auto simp: algebra_simps)
  qed
  finally show ?thesis unfolding d by auto
qed

lemma segment_pages_dvd: "page_size dvd start_page s" "page_size dvd end_page s"
  by (simp_all add: start_page_def end_page_def)

lemma in_segment_base: "in_segment (page_base b) s \<longleftrightarrow> in_segment b s"
proof -
  obtain i j k where d: "start_page s = page_size * i" "end_page s = page_size * j" "page_base b = page_size * k"
    using segment_pages_dvd [of s] page_base_dvd [of b] by (auto simp: dvd_def)
  have "b < page_size * (k + 1)" "page_size * k \<le> b"
    using page_base_split [of b] mod_less_divisor [of page_size b] d(3) by (simp_all add: algebra_simps)
  then show ?thesis unfolding in_segment_def d by auto
qed

lemma in_stack_base: "in_stack (page_base b) \<longleftrightarrow> in_stack b"
proof -
  obtain k where d: "page_base b = page_size * k" using page_base_dvd [of b] by (auto simp: dvd_def)
  have "b < page_size * (k + 1)" "page_size * k \<le> b"
    using page_base_split [of b] mod_less_divisor [of page_size b] d by (simp_all add: algebra_simps)
  then show ?thesis unfolding in_stack_def d by (auto simp: stack_top_def stack_pages_def)
qed

lemma one_segment:
  assumes "segments_ok bs segs" and "s \<in> set segs" and "t \<in> set segs" and "in_segment b s" and "in_segment b t"
  shows "s = t"
proof -
  obtain i j where ij: "i < length segs" "j < length segs" "s = segs ! i" "t = segs ! j"
    using assms(2,3) by (auto simp: in_set_conv_nth)
  have "end_page (segs ! m) \<le> start_page (segs ! n)" if "m < n" "n < length segs" for m n
    using assms(1) that by (auto simp: segments_ok_def sorted_wrt_iff_nth_less)
  then have "\<not> i < j" "\<not> j < i" using ij assms(4,5) by (force simp: in_segment_def)+
  then show ?thesis using ij by (cases i j rule: linorder_cases) auto
qed

lemma segment_not_stack: "segment_ok bs s \<Longrightarrow> in_segment b s \<Longrightarrow> \<not> in_stack b"
  by (auto simp: segment_ok_def in_segment_def in_stack_def end_page_def stack_guard_def stack_top_def stack_pages_def)

definition image_spec :: "elf_image \<Rightarrow> nat \<Rightarrow> page_spec option" where
  "image_spec img a =
     (case find (in_segment a) (img_segments img) of
        Some s \<Rightarrow> Some (segment_spec img s a)
      | None \<Rightarrow> if in_stack a then Some (stack_permissions, 0, []) else None)"

lemma list_keys: "map fst (segments_list img segs) = concat (map segment_pages segs)" "map fst (stack_list pages) = pages"
  by (simp_all add: segments_list_def stack_list_def map_concat comp_def)

lemma pages_between_bounds:
  assumes "a \<in> set (pages_between first stop)" and "page_size dvd first"
  shows "first \<le> a" and "a < stop" and "page_size dvd a"
proof -
  obtain i where i: "a = first + i * page_size" "i < (stop - first) div page_size" using assms(1) by (auto simp: pages_between_def)
  then show "first \<le> a" "page_size dvd a" using assms(2) by simp_all
  have "Suc i * page_size \<le> (stop - first) div page_size * page_size" using i(2) by (intro mult_right_mono) simp_all
  also have "\<dots> \<le> stop - first" by (rule div_times_less_eq_dividend)
  finally show "a < stop" using i(1) by simp
qed

lemma distinct_pages_between: "distinct (pages_between first stop)"
  by (simp add: pages_between_def distinct_map inj_on_def)

lemma distinct_segment_pages: "sorted_wrt (\<lambda>s t. end_page s \<le> start_page t) segs \<Longrightarrow> distinct (concat (map segment_pages segs))"
proof (induction segs)
  case (Cons s segs)
  have "a \<notin> set (concat (map segment_pages segs))" if "a \<in> set (segment_pages s)" for a
    using pages_between_bounds(2) [OF that segment_pages_dvd(1)] pages_between_bounds(1) [OF _ segment_pages_dvd(1)] Cons.prems
    by (fastforce simp: linorder_not_less [symmetric])
  then show ?case using Cons distinct_pages_between by auto
qed simp

lemma in_segment_pages: "a \<in> set (segment_pages s) \<longleftrightarrow> in_segment a s \<and> page_size dvd a"
  using set_pages_between [OF segment_pages_dvd, of a s s] pages_between_bounds(3) [OF _ segment_pages_dvd(1), of a s "end_page s"]
  unfolding in_segment_def by blast

lemma in_stack_pages: "a \<in> set the_stack \<longleftrightarrow> in_stack a \<and> page_size dvd a"
proof -
  have "page_size dvd stack_top - stack_pages * page_size" "page_size dvd stack_top" by (simp_all add: stack_top_def stack_pages_def)
  then show ?thesis unfolding in_stack_def using set_pages_between [of "stack_top - stack_pages * page_size" stack_top a]
      pages_between_bounds(3) [of a "stack_top - stack_pages * page_size" stack_top] by blast
qed

lemma image_list_distinct:
  assumes "segments_ok (img_bytes img) (img_segments img)"
  shows "distinct (map fst (image_list img))"
proof -
  have "a \<notin> set the_stack" if "a \<in> set (segment_pages s)" "s \<in> set (img_segments img)" for a s
    using that segment_not_stack assms by (auto simp: in_segment_pages in_stack_pages segments_ok_def)
  then show ?thesis using distinct_segment_pages assms
    by (auto simp: image_list_def list_keys distinct_pages_between segments_ok_def)
qed

lemma image_list_spec:
  assumes ok: "segments_ok (img_bytes img) (img_segments img)" and a: "page_size dvd a"
  shows "map_of (image_list img) a = image_spec img a"
proof -
  have mem: "(a, y) \<in> set (image_list img) \<longleftrightarrow>
      (\<exists>s\<in>set (img_segments img). in_segment a s \<and> y = segment_spec img s a) \<or> in_stack a \<and> y = (stack_permissions, 0, [])" for y
  proof -
    have "(a, y) \<in> set (segments_list img (img_segments img)) \<longleftrightarrow>
        (\<exists>s\<in>set (img_segments img). a \<in> set (segment_pages s) \<and> y = segment_spec img s a)"
      by (auto simp: segments_list_def)
    moreover have "(a, y) \<in> set (stack_list the_stack) \<longleftrightarrow> a \<in> set the_stack \<and> y = (stack_permissions, 0, [])"
      by (auto simp: stack_list_def)
    ultimately show ?thesis using a by (simp add: image_list_def in_segment_pages in_stack_pages)
  qed
  have "(a, y) \<in> set (image_list img) \<longleftrightarrow> image_spec img a = Some y" for y
  proof (cases "find (in_segment a) (img_segments img)")
    case None
    then have "\<not> (\<exists>s\<in>set (img_segments img). in_segment a s)" by (auto simp: find_None_iff)
    then show ?thesis unfolding mem using None by (auto simp: image_spec_def)
  next
    case (Some s)
    then have s: "s \<in> set (img_segments img)" "in_segment a s" by (auto simp: find_Some_iff)
    have "\<not> in_stack a" using segment_not_stack [OF _ s(2)] ok s(1) by (auto simp: segments_ok_def)
    moreover have "(\<exists>t\<in>set (img_segments img). in_segment a t \<and> y = segment_spec img t a) \<longleftrightarrow> y = segment_spec img s a"
      using s one_segment [OF ok _ s(1) _ s(2)] by blast
    ultimately show ?thesis unfolding mem using Some by (auto simp: image_spec_def)
  qed
  then show ?thesis using map_of_eq_Some_iff [OF image_list_distinct [OF ok]] by (metis option.exhaust)
qed

lemma image_list_loads:
  assumes "segments_ok (img_bytes img) (img_segments img)" and "x \<in> set (image_list img)"
  shows "can_load x"
proof -
  have st: "can_load (a, stack_permissions, 0, [])" if "in_stack a" "page_size dvd a" for a
    using that by (simp add: can_load_def loadable_def stack_permissions_def perm_valid_def page_address_def in_stack_def
        stack_top_def stack_pages_def)
  have sg: "can_load (a, segment_spec img s a)" if s: "segment_ok (img_bytes img) s" "in_segment a s" "page_size dvd a" for a s
  proof -
    obtain off data where "page_data img s a = Ok (off, data)" "off + length data \<le> page_size" using page_data_Ok [OF s(1)] by blast
    moreover have "a < 2 ^ 47"
    proof -
      have "end_page s \<le> (2147414016 + 4095) div 4096 * 4096"
        unfolding end_page_def using s(1)
        by (intro mult_right_mono div_le_mono) (simp_all add: segment_ok_def stack_guard_def stack_top_def stack_pages_def)
      then show ?thesis using s(2) by (simp add: in_segment_def)
    qed
    moreover have "page_size \<le> a" using s by (auto simp: segment_ok_def in_segment_def start_page_def)
    ultimately show ?thesis using s(1,3)
      by (simp add: segment_spec_def can_load_def loadable_def segment_permissions_def perm_valid_def page_address_def segment_ok_def)
  qed
  show ?thesis using assms st sg
    by (auto simp: image_list_def segments_list_def stack_list_def in_segment_pages in_stack_pages segments_ok_def)
qed

lemma image_list_length: "length (image_list img) = stack_pages + page_count (img_segments img)"
  by (simp add: image_list_def segments_list_def stack_list_def length_concat comp_def pages_between_def page_count_def
      stack_top_def stack_pages_def)

text \<open>The bytes of one page of a segment.\<close>

lemma field_at_nth: "n < len \<Longrightarrow> off + len \<le> length bs \<Longrightarrow> field_at bs off len ! n = bs ! (off + n)"
  by (simp add: field_at_def)

lemma segment_spec_byte:
  assumes ok: "segment_ok (img_bytes img) s" and b: "in_segment b s"
  shows "spec_byte (segment_spec img s (page_base b)) (b - page_base b) =
    (if seg_address s \<le> b \<and> b < seg_address s + seg_file_size s then img_bytes img ! (seg_offset s + (b - seg_address s)) else 0)"
proof -
  let ?a = "page_base b"
  let ?start = "max ?a (seg_address s)" and ?stop = "min (?a + page_size) (seg_address s + seg_file_size s)"
  have ab: "?a \<le> b" "b < ?a + page_size" using page_base_split [of b] mod_less_divisor [of page_size b] by linarith+
  have fits: "seg_offset s + seg_file_size s \<le> length (img_bytes img)" using ok by (simp add: segment_ok_def)
  have iff: "?start \<le> b \<and> b < ?stop \<longleftrightarrow> seg_address s \<le> b \<and> b < seg_address s + seg_file_size s" using ab by auto
  show ?thesis
  proof (cases "?start < ?stop")
    case False
    then have "page_data img s ?a = Ok (0, [])" by (simp only: page_data_def Let_def if_False)
    then show ?thesis using False iff by (auto simp: segment_spec_def spec_byte_def)
  next
    case True
    let ?d = "field_at (field_at (img_bytes img) (seg_offset s) (seg_file_size s)) (?start - seg_address s) (?stop - ?start)"
    have d: "page_data img s ?a = Ok (?start - ?a, ?d)"
      using True fits by (simp add: page_data_def Let_def segment_data_def)
    have len: "length ?d = ?stop - ?start" using True fits by simp
    have sp: "spec_byte (segment_spec img s ?a) n =
        (if ?start - ?a \<le> n \<and> n < ?start - ?a + (?stop - ?start) then ?d ! (n - (?start - ?a)) else 0)" for n
      by (simp only: segment_spec_def d spec_byte_def outcome.case prod.case len)
    show ?thesis
    proof (cases "?start \<le> b \<and> b < ?stop")
      case in_file: True
      have n: "b - ?a - (?start - ?a) = b - ?start" "b - ?start < ?stop - ?start" using in_file by linarith+
      have m: "?start - seg_address s + (b - ?start) = b - seg_address s" "b - seg_address s < seg_file_size s" using in_file by linarith+
      have "?d ! (b - ?start) = field_at (img_bytes img) (seg_offset s) (seg_file_size s) ! (?start - seg_address s + (b - ?start))"
        by (rule field_at_nth) (use n(2) True fits in simp_all)
      also have "\<dots> = img_bytes img ! (seg_offset s + (b - seg_address s))"
        unfolding m(1) by (rule field_at_nth) (use m(2) fits in simp_all)
      finally have "?d ! (b - ?start) = img_bytes img ! (seg_offset s + (b - seg_address s))" .
      moreover have "?start - ?a \<le> b - ?a" "b - ?a < ?start - ?a + (?stop - ?start)" using in_file by linarith+
      ultimately show ?thesis unfolding sp n(1) using in_file iff by (metis (no_types, lifting))
    next
      case False
      have "\<not> (?start - ?a \<le> b - ?a \<and> b - ?a < ?start - ?a + (?stop - ?start))" using False ab True by linarith
      then show ?thesis unfolding sp using False iff by (metis (no_types, lifting))
    qed
  qed
qed

section \<open>Loading a process\<close>

text \<open>The permissions and bytes that a page list placed in a fresh space shows.\<close>

lemma image_spec_base: "image_byte img b = map_option (\<lambda>x. spec_byte x (b - page_base b)) (image_spec img (page_base b))"
  "image_permissions img b = map_option fst (image_spec img (page_base b))"
  if ok: "segments_ok (img_bytes img) (img_segments img)"
proof -
  have base: "find (in_segment (page_base b)) segs = find (in_segment b) segs" for segs
    by (rule arg_cong2 [where f = find]) (simp_all add: fun_eq_iff in_segment_base)
  have "spec_byte (stack_permissions, 0, []) n = 0" for n by (simp add: spec_byte_def)
  moreover have "segment_ok (img_bytes img) s \<and> in_segment b s" if "find (in_segment b) (img_segments img) = Some s" for s
    using that ok by (auto simp: find_Some_iff segments_ok_def)
  ultimately show "image_byte img b = map_option (\<lambda>x. spec_byte x (b - page_base b)) (image_spec img (page_base b))"
    using segment_spec_byte by (simp add: image_byte_def image_spec_def base in_stack_base split: option.split)
  show "image_permissions img b = map_option fst (image_spec img (page_base b))"
    by (simp add: image_permissions_def image_spec_def base in_stack_base segment_spec_def split: option.split)
qed

lemma placed_image:
  assumes ok: "segments_ok (img_bytes img) (img_segments img)" and P: "placed p r (map_of (image_list img)) q"
    and fresh: "fresh_space p r" and b: "lower_half b"
  shows "user_byte q r b = image_byte img b"
    and "case image_permissions img b of None \<Rightarrow> pt_lookup q r b = Ok None
      | Some pm \<Rightarrow> \<exists>f. pt_lookup q r b = Ok (Some \<lparr>mp_physical = f + b mod page_size, mp_writable = perm_writable pm,
          mp_executable = perm_executable pm, mp_user = perm_user pm\<rparr>)"
proof -
  note D = placedD [OF P]
  have none: "page_view p r a = None" for a using fresh by (simp add: fresh_space_def)
  have spec: "map_of (image_list img) (page_base b) = image_spec img (page_base b)" by (rule image_list_spec [OF ok page_base_dvd])
  have "user_byte p r b = None" by (simp add: user_byte_def none)
  then show "user_byte q r b = image_byte img b"
    using D(3) [OF b] by (simp add: spec image_spec_base(1) [OF ok] split: option.splits)
  have inv: "space_inv q r" by (rule local_stepD(1) [OF D(1)])
  have v: "page_view q r b = page_view q r (page_base b)" by (simp add: page_view_base)
  show "case image_permissions img b of None \<Rightarrow> pt_lookup q r b = Ok None
      | Some pm \<Rightarrow> \<exists>f. pt_lookup q r b = Ok (Some \<lparr>mp_physical = f + b mod page_size, mp_writable = perm_writable pm,
          mp_executable = perm_executable pm, mp_user = perm_user pm\<rparr>)"
  proof (cases "image_spec img (page_base b)")
    case None
    then have "page_view q r b = None" using D(2) [OF page_base_address [OF b]] none v by (simp add: spec)
    then show ?thesis using None pt_lookup_view [OF inv b] by (simp add: image_spec_base(2) [OF ok])
  next
    case (Some x)
    then obtain f where f: "frame_address f" "page_view q r b = Some (leaf_entry f (fst x))"
      using D(2) [OF page_base_address [OF b]] v by (auto simp: spec)
    have "mapping_of b (leaf_entry f (fst x)) = \<lparr>mp_physical = f + b mod page_size, mp_writable = perm_writable (fst x),
        mp_executable = perm_executable (fst x), mp_user = perm_user (fst x)\<rparr>"
      using page_frame(3) [OF inv f(2)] leaf_entry_simps [OF f(1), of "fst x"] by (simp add: mapping_of_def)
    then show ?thesis using Some f(2) pt_lookup_view [OF inv b] by (auto simp: image_spec_base(2) [OF ok])
  qed
qed

text \<open>What a process should find at the root \<open>r\<close>.\<close>

definition shows_image :: "physical \<Rightarrow> nat \<Rightarrow> elf_image \<Rightarrow> bool" where
  "shows_image q r img \<longleftrightarrow> (\<forall>b<2 ^ 47. user_byte q r b = image_byte img b \<and>
     (case image_permissions img b of None \<Rightarrow> pt_lookup q r b = Ok None
      | Some pm \<Rightarrow> \<exists>f. pt_lookup q r b =
          Ok (Some \<lparr>mp_physical = f + b mod 4096, mp_writable = perm_writable pm,
            mp_executable = perm_executable pm, mp_user = perm_user pm\<rparr>)))"

definition frames_needed :: "elf_image \<Rightarrow> nat" where
  "frames_needed img = 1 + 4 * (stack_pages + page_count (img_segments img))"

lemma loader_load_cases:
  assumes inv: "spaces_inv p k R" and run: "loader_load \<lparr>as_root = k, as_kernel = True\<rparr> bs p = (res, q)"
  obtains (rejected) e where "elf_parse bs = Err e" "res = Err (PeElf e)" "q = p"
  | (exhausted) img where "elf_parse bs = Ok img" "res = Err (PeMemory (MemFrames FrExhausted))" "free_frames p < frames_needed img"
      "alloc_set q = alloc_set p" "spaces_inv q k R" "\<forall>r\<in>R. same_view p r q" "within {} p q"
  | (loaded) img c u where "elf_parse bs = Ok img" "res = Ok \<lparr>ld_space = user_space c, ld_entry = img_entry img\<rparr>"
      "c \<notin> R" "fresh_space u c" "placed u c (map_of (image_list img)) q" "spaces_inv q k (insert c R)" "\<forall>r\<in>R. same_view p r q"
      "within {} p q" "alloc_set q = alloc_set p \<union> ran (tree q c)" "ran (tree q c) \<inter> alloc_set p = {}"
proof -
  note S = spaces_invD [OF inv]
  let ?k = "\<lparr>as_root = k, as_kernel = True\<rparr>"
  show ?thesis
  proof (cases "elf_parse bs")
    case (Err e)
    then show ?thesis using run rejected by (simp add: loader_load_def)
  next
    case Panic
    then show ?thesis using elf_parse_not_Panic by simp
  next
    case img: (Ok img)
    have segs: "segments_ok (img_bytes img) (img_segments img)" using elf_parse_Ok [OF img] by simp
    have "as_kernel ?k" "as_root ?k \<in> alloc_set p" using S(2) by simp_all
    with S(1) show ?thesis
    proof (cases rule: child_cases)
      case full: exhausted
      then have "res = Err (PeMemory (MemFrames FrExhausted))" "q = p"
        using run img by (simp_all add: loader_load_def create_user_def)
      then show ?thesis using exhausted [OF img] full(2) inv same_view_refl within_refl [OF S(1)] by (simp add: frames_needed_def)
    next
      case (born c u)
      note B = born_others [OF inv born(2) [simplified]]
      have b: "bare u c" "alloc_set u = insert c (alloc_set p)" "c \<notin> alloc_set p" using born(2) by (auto simp: born_def)
      have ck: "c \<noteq> k" using b(3) S(2) by blast
      have fresh: "fresh_space u c" using bare_space(3) [OF b(1)] by (simp add: fresh_space_def)
      have P: "placed u (as_root (user_space c)) Map.empty u"
        using placed_empty [OF spaces_invD(3,4) [OF B(1)], of c] by simp
      obtain r v where l: "load_image k (user_space c) img u = (r, v)" by fastforce
      have pages: "load_pages k (user_space c) (image_list img) u = (r, v)"
        using l load_image_list [of img] segs by (simp add: segments_ok_def)
      have step: "within {} p v" "alloc_set v - ran (tree v c) = alloc_set p" if "local_step u c v"
      proof -
        have tree_u: "ran (tree u c) = {c}" using bare_space(1) [OF b(1)] by simp
        have "\<forall>f\<in>alloc_set p. ph_words u f = ph_words p f" using born(2) b(3) by (auto simp: born_def)
        then show "within {} p v" using local_stepD(3) [OF that] b(2,3) unfolding tree_u within_def by auto
        show "alloc_set v - ran (tree v c) = alloc_set p" using local_stepD(5) [OF that] b(2,3) unfolding tree_u by auto
      qed
      have "r = Ok () \<and> placed u c (Map.empty ++ map_of (image_list img)) v \<or>
          r = Err (MemFrames FrExhausted) \<and> local_step u c v \<and> free_frames u < 4 * (0 + length (image_list img))"
        using load_pages_placed [OF P _ _ _ image_list_distinct [OF segs] _ _ pages, of 0] fresh ck image_list_loads [OF segs] by simp
      then consider (all) "r = Ok ()" "placed u c (map_of (image_list img)) v"
        | (some) "r = Err (MemFrames FrExhausted)" "local_step u c v" "free_frames u < 4 * length (image_list img)"
        by auto
      then show ?thesis
      proof cases
        case all
        note L = local_step_others [OF B(1) insertI1 placedD(1) [OF all(2)]]
        have "res = Ok \<lparr>ld_space = user_space c, ld_entry = img_entry img\<rparr>" "q = v"
          using run img born(1) l all(1) by (simp_all add: loader_load_def create_user_def)
        moreover have "\<forall>r\<in>R. same_view p r v" using B(2,3) L(2) same_view_trans by (metis insertI2)
        moreover note T = step [OF placedD(1) [OF all(2)]]
        moreover have "alloc_set v = alloc_set p \<union> ran (tree v c)" "ran (tree v c) \<inter> alloc_set p = {}"
          using T(2) space_ran_alloc [OF local_stepD(1) [OF placedD(1) [OF all(2)]]] by auto
        ultimately show ?thesis using loaded [OF img _ B(2) fresh] all(2) L(1) by simp
      next
        case some
        note L = local_step_others [OF B(1) insertI1 some(2)]
        have "space_inv v (as_root (user_space c))" "\<not> as_kernel (user_space c)" "as_root (user_space c) \<noteq> k"
          using local_stepD(1) [OF some(2)] ck by simp_all
        then obtain w where w: "as_destroy k (user_space c) v = (Ok (), (user_space c)\<lparr>as_root := 0\<rparr>, w)" "freed (ran (tree v c)) v w"
          by (rule destroy_value) simp
        note F = freed_others [OF L(1) insertI1 w(2)]
        have "res = Err (PeMemory (MemFrames FrExhausted))" "q = w"
          using run img born(1) l some(1) w(1) by (simp_all add: loader_load_def create_user_def destroy_user_def)
        moreover have "alloc_set w = alloc_set p"
        proof -
          have "alloc_set w = alloc_set v - ran (tree v c)" using w(2) by (simp add: freed_def)
          also have "\<dots> = insert c (alloc_set p) - {c}"
            unfolding local_stepD(5) [OF some(2)] using bare_space(1) [OF b(1)] b(2) by simp
          finally show ?thesis using b(3) by simp
        qed
        moreover have "spaces_inv w k R" using F(1) B(2) by simp
        moreover have "\<forall>r\<in>R. same_view p r w" using B(2,3) L(2) F(2) same_view_trans by (metis insertI2)
        moreover have "free_frames p < frames_needed img" using some(3) born(3) by (simp add: frames_needed_def image_list_length)
        moreover have "within {} p w"
          using step(1) [OF some(2)] w(2) \<open>alloc_set w = alloc_set p\<close> by (auto simp: within_def freed_def)
        ultimately show ?thesis using exhausted [OF img] by blast
      qed
    qed
  qed
qed

section \<open>A larger memory\<close>

text \<open>Frames 1 to 127 are managed; the first is the root of the kernel.\<close>

definition roomy_physical :: physical where
  "roomy_physical =
     \<lparr>ph_frames = \<lparr>fr_managed = [-2, -1], fr_allocated = [2, 0], fr_free = 126, fr_total = 127, fr_cursor = 0\<rparr>, ph_words = (\<lambda>_ _. 0)\<rparr>"

lemma marked_two: "marked [v, w] = marked [v] \<union> (\<lambda>i. i + 64) ` marked [w]"
proof (rule set_eqI)
  fix i
  show "i \<in> marked [v, w] \<longleftrightarrow> i \<in> marked [v] \<union> (\<lambda>i. i + 64) ` marked [w]"
  proof (cases "i < 64")
    case True
    then show ?thesis by (auto simp: marked_def)
  next
    case False
    then obtain j where j: "i = j + 64" by (metis le_add_diff_inverse2 linorder_not_less)
    then show ?thesis by (cases "j < 64") (auto simp: marked_def image_iff)
  qed
qed

lemma roomy_marked: "marked [-2, -1] = {1..<128}" "marked [2, 0] = {1}"
proof -
  have w: "(2 :: u64) = push_bit 1 (mask 1)" "(-2 :: u64) = push_bit 1 (mask 63)" "(-1 :: u64) = push_bit 0 (mask 64)"
    by (simp_all add: mask_eq_exp_minus_1 push_bit_eq_mult)
  have one: "marked [2] = {1}" "marked [-2] = {1..<64}" "marked [-1] = {0..<64}" "marked [0] = {}"
    using marked_run [OF _ w(1)] marked_run [OF _ w(2)] marked_run [OF _ w(3)] by (simp_all add: marked_def)
  have "(\<lambda>i. i + 64) ` {0..<64} = {64..<128 :: nat}" by (simp add: image_add_atLeastLessThan')
  then show "marked [-2, -1] = {1..<128}" by (auto simp: marked_two one)
  show "marked [2, 0] = {1}" by (auto simp: marked_two one)
qed

lemma roomy_spaces: "spaces_inv roomy_physical 4096 {}" "free_frames roomy_physical = 126"
proof -
  have av: "available (ph_frames roomy_physical) = {2..<128}"
    by (auto simp: available_def roomy_physical_def roomy_marked)
  have inv: "frames_inv (ph_frames roomy_physical)"
    using av by (auto simp: frames_inv_def roomy_physical_def roomy_marked)
  then have "phys_ok roomy_physical"
    by (simp add: phys_ok_def address_limit_def roomy_physical_def roomy_marked)
  moreover have "1 \<in> marked (fr_allocated (ph_frames roomy_physical))" by (simp add: roomy_physical_def roomy_marked)
  then have "4096 \<in> alloc_set roomy_physical" using is_allocated_iff [OF inv] by (force simp: alloc_set_def)
  ultimately show "spaces_inv roomy_physical 4096 {}" by (simp add: spaces_inv_def)
  show "free_frames roomy_physical = 126" by (simp add: free_frames_def roomy_physical_def)
qed

section \<open>The property\<close>

text \<open>C20 Loading a process. When the loader returns a process, the file is an acceptable image, the process starts at
  its entry point, and every address of its half of the address space shows exactly what the image prescribes: the bytes
  of the file, zeros in the rest of the pages of its segments and on its stack, each page under the permissions of its segment,
  and no mapping anywhere else. When it fails, the image was unacceptable or memory too small for it, and every frame
  is back. In either case no other space has changed and nothing panics.\<close>

theorem loaded_image_exact:
  assumes inv: "spaces_inv p k R" and run: "loader_load \<lparr>as_root = k, as_kernel = True\<rparr> bs p = (res, q)"
  shows "(\<forall>r\<in>R. same_view p r q) \<and>
    (case res of
       Ok ld \<Rightarrow> \<exists>img. elf_parse bs = Ok img \<and> ld_entry ld = img_entry img \<and>
         as_root (ld_space ld) \<notin> R \<and> spaces_inv q k (insert (as_root (ld_space ld)) R) \<and>
         shows_image q (as_root (ld_space ld)) img
     | Err e \<Rightarrow> alloc_set q = alloc_set p \<and> spaces_inv q k R \<and>
         (case elf_parse bs of
            Ok img \<Rightarrow> e = PeMemory (MemFrames FrExhausted) \<and> free_frames p < frames_needed img
          | Err x \<Rightarrow> e = PeElf x
          | Panic \<Rightarrow> False)
     | Panic \<Rightarrow> False)"
  using inv run
proof (cases rule: loader_load_cases)
  case (rejected e)
  then show ?thesis using inv same_view_refl by simp
next
  case (exhausted img)
  then show ?thesis by simp
next
  case (loaded img c u)
  have "segments_ok (img_bytes img) (img_segments img)" using elf_parse_Ok [OF loaded(1)] by simp
  note P = placed_image [OF this loaded(5,4), unfolded lower_half_def]
  have "shows_image q c img" unfolding shows_image_def using P by blast
  then show ?thesis using loaded(1-3,6,7) by simp
qed

theorem loaded_image_exact_witness:
  "\<exists>ld q. loader_load \<lparr>as_root = 4096, as_kernel = True\<rparr> demo_elf roomy_physical = (Ok ld, q) \<and> ld_entry ld = 0x400078 \<and>
    user_byte q (as_root (ld_space ld)) 0x400078 = Some 0xc3 \<and> user_byte q (as_root (ld_space ld)) 0x7FFFFFFF = Some 0 \<and>
    user_byte q (as_root (ld_space ld)) 0x401000 = None"
proof -
  let ?img = "\<lparr>img_bytes = demo_elf, img_entry = 0x400078, img_segments = [demo_segment]\<rparr>"
  obtain res q where run: "loader_load \<lparr>as_root = 4096, as_kernel = True\<rparr> demo_elf roomy_physical = (res, q)" by fastforce
  note L = loaded_image_exact [OF roomy_spaces(1) run]
  have parse: "elf_parse demo_elf = Ok ?img" by (rule demo_elf_parse)
  have seg: "start_page demo_segment = 0x400000" "end_page demo_segment = 0x401000"
    by (simp_all add: start_page_def end_page_def demo_segment_def)
  have "frames_needed ?img \<le> 126" by (simp add: frames_needed_def page_count_def seg stack_pages_def)
  then obtain ld where ld: "res = Ok ld" "ld_entry ld = 0x400078"
    "\<And>b. b < 2 ^ 47 \<Longrightarrow> user_byte q (as_root (ld_space ld)) b = image_byte ?img b"
    using L parse roomy_spaces(2) by (cases res) (auto simp: shows_image_def)
  have "image_byte ?img 0x400078 = Some 0xc3"
    by (simp add: image_byte_def in_segment_def seg) (simp add: demo_segment_def demo_elf_def)
  moreover have "image_byte ?img 0x7FFFFFFF = Some 0" "image_byte ?img 0x401000 = None"
    by (simp_all add: image_byte_def in_segment_def seg in_stack_def stack_top_def stack_pages_def)
  ultimately show ?thesis using run ld by simp
qed

end
