(* ===== verification/Handles.thy ===== *)
theory Handles
  imports Prelude
begin

unbundle bit_operations_syntax

text \<open>
  The owner-bound token table of \<open>kernel/src/handles/table.rs\<close>, shared by the IPC and the block
  broker. A table is a fixed array of optional entries; the const generics \<open>CAPACITY\<close> and
  \<open>PER_OWNER\<close> are the length of the array and the field \<open>per_owner\<close>, which no operation writes.
  The lemmas show that the table refines a finite map from (owner, token) to (object, rights)
  whose tokens are never issued twice; the locale \<open>handle_table\<close> is that contract, and the
  brokers are verified against it. \<open>drain\<close> is the loop of both brokers' \<open>close_owner\<close>.
\<close>

section \<open>State and operations\<close>

datatype handle_error = HdlHandle | HdlDenied | HdlQuota

record 'a entry =
  entry_id :: u64
  entry_owner :: u64
  entry_object :: 'a
  entry_rights :: u8

record 'a table =
  entries :: "'a entry slots"
  next_id :: u64
  domain :: u64
  allowed :: u8
  transfer_right :: u8
  per_owner :: nat

definition new_table :: "nat \<Rightarrow> nat \<Rightarrow> u8 \<Rightarrow> u8 \<Rightarrow> u8 \<Rightarrow> 'a table" where
  "new_table capacity quota tag rights transfer =
     \<lparr>entries = replicate capacity None, next_id = 1, domain = push_bit 56 (ucast tag),
      allowed = rights, transfer_right = transfer, per_owner = quota\<rparr>"

definition room :: "'a table \<Rightarrow> u64 \<Rightarrow> bool" where
  "room t owner \<longleftrightarrow>
     length (filter (\<lambda>e. entry_owner e = owner) (flatten (entries t))) < per_owner t"

definition entry_matches :: "u64 \<Rightarrow> u64 \<Rightarrow> 'a entry option \<Rightarrow> bool" where
  "entry_matches owner h s \<longleftrightarrow>
     (case s of None \<Rightarrow> False | Some e \<Rightarrow> entry_id e = h \<and> entry_owner e = owner)"

definition index :: "'a table \<Rightarrow> u64 \<Rightarrow> u64 \<Rightarrow> (handle_error, nat) outcome" where
  "index t owner h = ok_or HdlHandle (position (entry_matches owner h) (entries t))"

text \<open>\<open>self.next.checked_add(1).filter(|next| *next < (1 << 56))\<close>\<close>

definition advance :: "u64 \<Rightarrow> u64 option" where
  "advance n = (case checked_add n 1 of None \<Rightarrow> None
                | Some n' \<Rightarrow> if n' < push_bit 56 1 then Some n' else None)"

definition grant :: "'a table \<Rightarrow> u64 \<Rightarrow> 'a \<Rightarrow> u8 \<Rightarrow> (handle_error, u64) outcome \<times> 'a table" where
  "grant t owner obj rights =
     (if rights = 0 \<or> rights AND NOT (allowed t) \<noteq> 0 then (Err HdlDenied, t)
      else if \<not> room t owner then (Err HdlQuota, t)
      else case position (\<lambda>s. s = None) (entries t) of
        None \<Rightarrow> (Err HdlQuota, t)
      | Some slot \<Rightarrow>
          (case advance (next_id t) of
             None \<Rightarrow> (Err HdlQuota, t)
           | Some n \<Rightarrow>
               let h = domain t OR next_id t in
               (Ok h, t\<lparr>next_id := n,
                        entries := (entries t)[slot := Some \<lparr>entry_id = h, entry_owner = owner,
                                      entry_object = obj, entry_rights = rights\<rparr>]\<rparr>)))"

definition resolve :: "'a table \<Rightarrow> u64 \<Rightarrow> u64 \<Rightarrow> u8 \<Rightarrow> (handle_error, 'a) outcome" where
  "resolve t owner h right =
     and_then (index t owner h) (\<lambda>slot.
       case entries t ! slot of None \<Rightarrow> Panic
       | Some e \<Rightarrow> if entry_rights e AND right \<noteq> right then Err HdlDenied else Ok (entry_object e))"

definition remove :: "'a table \<Rightarrow> u64 \<Rightarrow> u64 \<Rightarrow> (handle_error, 'a) outcome \<times> 'a table" where
  "remove t owner h =
     (case index t owner h of
        Ok slot \<Rightarrow>
          (case entries t ! slot of
             None \<Rightarrow> (Panic, t)
           | Some e \<Rightarrow> (Ok (entry_object e), t\<lparr>entries := (entries t)[slot := None]\<rparr>))
      | Err e \<Rightarrow> (Err e, t)
      | Panic \<Rightarrow> (Panic, t))"

definition transfer ::
  "'a table \<Rightarrow> u64 \<Rightarrow> u64 \<Rightarrow> u64 \<Rightarrow> u8 \<Rightarrow> (handle_error, u64) outcome \<times> 'a table" where
  "transfer t owner h target rights =
     (case index t owner h of
        Ok slot \<Rightarrow>
          (case entries t ! slot of
             None \<Rightarrow> (Panic, t)
           | Some old \<Rightarrow>
               if transfer_right t = 0 \<or> entry_rights old AND transfer_right t = 0 \<or> rights = 0 \<or>
                  rights AND NOT (entry_rights old) \<noteq> 0
               then (Err HdlDenied, t)
               else if target \<noteq> owner \<and> \<not> room t target then (Err HdlQuota, t)
               else case advance (next_id t) of
                 None \<Rightarrow> (Err HdlQuota, t)
               | Some n \<Rightarrow>
                   (Ok (domain t OR (n - 1)),
                    t\<lparr>entries := (entries t)[slot := Some (old\<lparr>entry_id := domain t OR next_id t,
                        entry_owner := target, entry_rights := rights\<rparr>)],
                      next_id := n\<rparr>))
      | Err e \<Rightarrow> (Err e, t)
      | Panic \<Rightarrow> (Panic, t))"

definition first :: "'a table \<Rightarrow> u64 \<Rightarrow> u64 option" where
  "first t owner = map_option entry_id (find (\<lambda>e. entry_owner e = owner) (flatten (entries t)))"

definition table_count :: "'a table \<Rightarrow> nat" where
  "table_count t = length (flatten (entries t))"

definition owner_count :: "'a table \<Rightarrow> u64 \<Rightarrow> nat" where
  "owner_count t owner = length (filter (\<lambda>e. entry_owner e = owner) (flatten (entries t)))"

definition max_owner_count :: "'a table \<Rightarrow> nat" where
  "max_owner_count t =
     fold max (map (\<lambda>e. owner_count t (entry_owner e)) (flatten (entries t))) 0"

text \<open>
  \<open>while let Some(handle) = self.handles.first(owner) { self.close(owner, handle).expect(..) }\<close>,
  over the broker's own \<open>first\<close> and \<open>close\<close>. \<open>None\<close> is running out of fuel.
\<close>

fun drain :: "nat \<Rightarrow> ('s \<Rightarrow> 'h option) \<Rightarrow> ('s \<Rightarrow> 'h \<Rightarrow> ('e, unit) outcome \<times> 's) \<Rightarrow> 's \<Rightarrow>
    (('e, unit) outcome \<times> 's) option" where
  "drain 0 next_handle close_one s = None"
| "drain (Suc n) next_handle close_one s =
     (case next_handle s of
        None \<Rightarrow> Some (Ok (), s)
      | Some h \<Rightarrow> (case close_one s h of
          (Ok u, s') \<Rightarrow> drain n next_handle close_one s'
        | (Err e, s') \<Rightarrow> Some (Panic, s')
        | (Panic, s') \<Rightarrow> Some (Panic, s')))"

section \<open>Abstract view and invariant\<close>

definition view :: "'a table \<Rightarrow> (u64 \<times> u64) \<rightharpoonup> ('a \<times> u8)" where
  "view t = (\<lambda>(owner, h). case position (entry_matches owner h) (entries t) of None \<Rightarrow> None
     | Some i \<Rightarrow> map_option (\<lambda>e. (entry_object e, entry_rights e)) (entries t ! i))"

text \<open>The token numbers below \<open>next_id\<close> have been issued; \<open>domain\<close> keeps its low 56 bits clear.\<close>

definition issued :: "'a table \<Rightarrow> u64 set" where
  "issued t = {domain t OR n |n. 1 \<le> n \<and> n < next_id t}"

definition table_inv :: "'a table \<Rightarrow> bool" where
  "table_inv t \<longleftrightarrow>
     slot_keys_distinct entry_id (entries t) \<and>
     (\<forall>e\<in>set (flatten (entries t)). entry_id e \<in> issued t \<and> entry_rights e \<noteq> 0 \<and>
        entry_rights e AND NOT (allowed t) = 0) \<and>
     take_bit 56 (domain t) = 0 \<and> 1 \<le> next_id t \<and> next_id t < push_bit 56 1 \<and>
     (\<forall>owner. owner_count t owner \<le> per_owner t)"

section \<open>Token numbers\<close>

lemma take_bit_small: "n < push_bit 56 (1 :: u64) \<Longrightarrow> take_bit 56 n = n"
  by (rule unsigned_word_eqI [where 'a = nat])
    (simp add: unsigned_take_bit_eq take_bit_nat_eq_self word_less_nat_alt)

lemma token_injective:
  assumes "take_bit 56 d = 0" and "m < push_bit 56 (1 :: u64)" and "n < push_bit 56 1"
    and "d OR m = d OR n"
  shows "m = n"
proof -
  have "take_bit 56 (d OR m) = m" "take_bit 56 (d OR n) = n"
    using assms(1-3) by (simp_all add: take_bit_small)
  with assms(4) show ?thesis by simp
qed

lemma advance_Some:
  assumes "advance n = Some n'"
  shows "n' = n + 1" and "n < n'" and "n' < push_bit 56 1" and "1 \<le> n'"
proof -
  from assms have ok: "checked_add n 1 = Some n'" and "n' < push_bit 56 1"
    by (auto simp: advance_def split: option.splits if_splits)
  then show "n' = n + 1" and "n' < push_bit 56 1" by (simp_all add: checked_add_Some_iff)
  from checked_add_Some_unat [OF ok] show "n < n'" and "1 \<le> n'"
    by (simp_all add: word_less_nat_alt word_le_nat_alt)
qed

lemma advance_unat: "advance n = Some n' \<Longrightarrow> unat n' = Suc (unat n)"
  using checked_add_Some_unat [of n 1 n'] by (auto simp: advance_def split: option.splits if_splits)

lemma fresh_not_issued:
  assumes "table_inv t"
  shows "domain t OR next_id t \<notin> issued t"
proof
  assume "domain t OR next_id t \<in> issued t"
  then obtain n where "domain t OR next_id t = domain t OR n" and n: "n < next_id t"
    by (auto simp: issued_def)
  moreover have d: "take_bit 56 (domain t) = 0" and lim: "next_id t < push_bit 56 1"
    using assms by (simp_all add: table_inv_def)
  ultimately have "next_id t = n"
    using token_injective [OF d lim order.strict_trans [OF n lim]] by blast
  with n show False by simp
qed

section \<open>The table as a map\<close>

lemma entry_matches_simps [simp]:
  "\<not> entry_matches owner h None"
  "entry_matches owner h (Some e) \<longleftrightarrow> entry_id e = h \<and> entry_owner e = owner"
  by (simp_all add: entry_matches_def)

lemma position_entry:
  assumes "slot_keys_distinct entry_id xs" and "i < length xs" and "xs ! i = Some e"
  shows "position (entry_matches (entry_owner e) (entry_id e)) xs = Some i"
proof (rule position_unique)
  show "i < length xs" and "entry_matches (entry_owner e) (entry_id e) (xs ! i)" using assms by simp_all
next
  fix j assume "j < length xs" and "entry_matches (entry_owner e) (entry_id e) (xs ! j)"
  then show "j = i"
    using slot_keys_distinctD [OF assms(1) _ assms(2) _ assms(3), of j] by (cases "xs ! j") auto
qed

lemma index_Ok_iff:
  assumes "slot_keys_distinct entry_id (entries t)"
  shows "index t owner h = Ok i \<longleftrightarrow>
     i < length (entries t) \<and> (\<exists>e. entries t ! i = Some e \<and> entry_id e = h \<and> entry_owner e = owner)"
    (is "?l \<longleftrightarrow> ?r")
proof
  assume ?l
  then have "position (entry_matches owner h) (entries t) = Some i" by (simp add: index_def)
  from positionD [OF this] show ?r by (cases "entries t ! i") auto
next
  assume ?r
  then show ?l using position_entry [OF assms] by (auto simp: index_def)
qed

lemma view_Some_iff:
  assumes "slot_keys_distinct entry_id (entries t)"
  shows "view t (owner, h) = Some (x, r) \<longleftrightarrow>
    (\<exists>e\<in>set (flatten (entries t)). entry_id e = h \<and> entry_owner e = owner \<and> entry_object e = x \<and>
       entry_rights e = r)" (is "?l \<longleftrightarrow> ?r")
proof
  assume ?l
  then obtain i e where "position (entry_matches owner h) (entries t) = Some i" "entries t ! i = Some e"
    and "x = entry_object e" "r = entry_rights e"
    by (auto simp: view_def split: option.splits)
  with positionD [of "entry_matches owner h" "entries t" i] show ?r by (force simp: in_flatten_iff)
next
  assume ?r
  then show ?l using position_entry [OF assms] by (auto simp: view_def in_flatten_iff)
qed

lemma view_eqI:
  assumes "slot_keys_distinct entry_id (entries t)"
    and "\<And>owner h x r. m (owner, h) = Some (x, r) \<longleftrightarrow>
      (\<exists>e\<in>set (flatten (entries t)). entry_id e = h \<and> entry_owner e = owner \<and> entry_object e = x \<and>
         entry_rights e = r)"
  shows "view t = m"
proof
  fix k :: "u64 \<times> u64"
  obtain owner h where k: "k = (owner, h)" by (cases k)
  have "view t (owner, h) = Some y \<longleftrightarrow> m (owner, h) = Some y" for y
    using view_Some_iff [OF assms(1)] assms(2) by (cases y) simp
  then show "view t k = m k" unfolding k by (metis not_Some_eq)
qed

lemma inv_keys: "table_inv t \<Longrightarrow> slot_keys_distinct entry_id (entries t)"
  by (simp add: table_inv_def)

lemma resolve_view:
  assumes "slot_keys_distinct entry_id (entries t)"
  shows "resolve t owner h right =
    (case view t (owner, h) of None \<Rightarrow> Err HdlHandle
     | Some (x, r) \<Rightarrow> if r AND right \<noteq> right then Err HdlDenied else Ok x)"
  using positionD [of "entry_matches owner h" "entries t"]
  by (auto simp: resolve_def index_def view_def split: option.splits)

lemma new_table_inv [simp]: "table_inv (new_table capacity quota tag rights tr)"
proof -
  have "take_bit 56 (push_bit 56 (ucast tag :: u64)) = 0"
    by (rule bit_eqI) (auto simp: bit_simps)
  then show ?thesis by (simp add: table_inv_def new_table_def owner_count_def)
qed

lemma view_new_table [simp]: "view (new_table capacity quota tag rights tr) = Map.empty"
  by (rule view_eqI) (simp_all add: new_table_def)

section \<open>Every operation keeps the invariant and acts on the map\<close>

lemma grant_cases:
  assumes "grant t owner x rights = (res, t')"
  obtains (denied) "res = Err HdlDenied" "t' = t" "rights = 0 \<or> rights AND NOT (allowed t) \<noteq> 0"
  | (quota) "res = Err HdlQuota" "t' = t"
  | (granted) slot n where "res = Ok (domain t OR next_id t)" "rights \<noteq> 0"
      "rights AND NOT (allowed t) = 0" "room t owner" "slot < length (entries t)"
      "entries t ! slot = None" "advance (next_id t) = Some n"
      "t' = t\<lparr>next_id := n, entries := (entries t)[slot := Some \<lparr>entry_id = domain t OR next_id t,
              entry_owner = owner, entry_object = x, entry_rights = rights\<rparr>]\<rparr>"
proof (cases "rights = 0 \<or> rights AND NOT (allowed t) \<noteq> 0")
  case True
  with assms show ?thesis by (intro denied) (auto simp: grant_def)
next
  case False
  show ?thesis
  proof (cases "room t owner \<and> position (\<lambda>s. s = None) (entries t) \<noteq> None \<and> advance (next_id t) \<noteq> None")
    case True
    then obtain slot n where "position (\<lambda>s. s = None) (entries t) = Some slot" "advance (next_id t) = Some n"
      by auto
    with False True assms positionD [of "\<lambda>s. s = None" "entries t" slot] show ?thesis
      by (intro granted [of slot n]) (auto simp: grant_def Let_def)
  next
    case no: False
    with False assms show ?thesis
      by (intro quota) (auto simp: grant_def split: option.splits if_splits)
  qed
qed

lemma issued_advance:
  assumes "advance (next_id t) = Some n" and "1 \<le> next_id t"
    and "domain t' = domain t" and "next_id t' = n"
  shows "issued t' = insert (domain t OR next_id t) (issued t)"
proof -
  have "m < n \<longleftrightarrow> m < next_id t \<or> m = next_id t" for m
    using advance_unat [OF assms(1)] by (auto simp: word_less_nat_alt word_unat_eq_iff)
  then show ?thesis using assms(2-4) by (auto simp: issued_def)
qed

lemma inv_entry:
  "table_inv t \<Longrightarrow> i < length (entries t) \<Longrightarrow> entries t ! i = Some e \<Longrightarrow>
   entry_id e \<in> issued t \<and> entry_rights e \<noteq> 0 \<and> entry_rights e AND NOT (allowed t) = 0"
  by (auto simp: table_inv_def in_flatten_iff)

lemma grant_inv:
  assumes inv: "table_inv t" and g: "grant t owner x rights = (res, t')"
  shows "table_inv t'"
  using g
proof (cases rule: grant_cases)
  case (granted slot n)
  let ?e = "\<lparr>entry_id = domain t OR next_id t, entry_owner = owner, entry_object = x, entry_rights = rights\<rparr>"
  have keys: "slot_keys_distinct entry_id ((entries t)[slot := Some ?e])"
    using inv_keys [OF inv] inv_entry [OF inv] fresh_not_issued [OF inv]
    by (intro slot_keys_distinct_set) force+
  have iss: "issued t' = insert (domain t OR next_id t) (issued t)"
    using granted inv by (intro issued_advance [of t n]) (auto simp: table_inv_def)
  have ents: "entry_id e \<in> issued t' \<and> entry_rights e \<noteq> 0 \<and> entry_rights e AND NOT (allowed t) = 0"
    if "e \<in> set (flatten ((entries t)[slot := Some ?e]))" for e
    using that inv granted(2,3,5,6) iss by (auto simp: set_flatten_fill table_inv_def)
  have "owner_count t' o' \<le> per_owner t" for o'
    using inv granted(4-6,8)
    by (auto simp: owner_count_def length_filter_fill table_inv_def room_def)
  then show ?thesis
    using keys ents inv granted(8) advance_Some [OF granted(7)]
    by (simp add: table_inv_def)
qed (use inv in auto)

lemma grant_fresh:
  assumes inv: "table_inv t" and g: "grant t owner x rights = (Ok h, t')"
  shows "h \<notin> issued t \<and> issued t' = insert h (issued t)"
  using g
proof (cases rule: grant_cases)
  case (granted slot n)
  then show ?thesis
    using fresh_not_issued [OF inv] inv issued_advance [of t n t'] by (auto simp: table_inv_def)
qed auto

lemma grant_view:
  assumes inv: "table_inv t" and g: "grant t owner x rights = (Ok h, t')"
  shows "view t' = (view t)((owner, h) \<mapsto> (x, rights))"
  using g
proof (cases rule: grant_cases)
  case (granted slot n)
  have fresh: "entry_id e \<noteq> h" if "e \<in> set (flatten (entries t))" for e
    using that inv fresh_not_issued [OF inv] granted(1) by (auto simp: table_inv_def)
  show ?thesis
  proof (rule view_eqI)
    show "slot_keys_distinct entry_id (entries t')" by (rule inv_keys [OF grant_inv [OF inv g]])
    fix o' h' y r
    show "((view t)((owner, h) \<mapsto> (x, rights))) (o', h') = Some (y, r) \<longleftrightarrow>
      (\<exists>e\<in>set (flatten (entries t')). entry_id e = h' \<and> entry_owner e = o' \<and> entry_object e = y \<and>
         entry_rights e = r)"
      using granted fresh by (auto simp: view_Some_iff [OF inv_keys [OF inv]] set_flatten_fill)
  qed
qed auto

lemma remove_cases:
  assumes "slot_keys_distinct entry_id (entries t)" and "remove t owner h = (res, t')"
  obtains (none) "res = Err HdlHandle" "t' = t" "view t (owner, h) = None"
  | (removed) i e where "res = Ok (entry_object e)" "i < length (entries t)" "entries t ! i = Some e"
      "entry_id e = h" "entry_owner e = owner" "t' = t\<lparr>entries := (entries t)[i := None]\<rparr>"
      "view t (owner, h) = Some (entry_object e, entry_rights e)"
proof (cases "position (entry_matches owner h) (entries t)")
  case None
  with assms(2) none show ?thesis by (auto simp: remove_def index_def view_def)
next
  case (Some i)
  with positionD [OF Some] obtain e where "entries t ! i = Some e" "i < length (entries t)"
    "entry_id e = h" "entry_owner e = owner" by (cases "entries t ! i") auto
  with Some assms(2) removed [of e i] show ?thesis by (auto simp: remove_def index_def view_def)
qed

lemma remove_inv:
  assumes inv: "table_inv t" and r: "remove t owner h = (res, t')"
  shows "table_inv t'"
  using inv_keys [OF inv] r
proof (cases rule: remove_cases)
  case (removed i e)
  have "owner_count t' o' \<le> per_owner t" for o'
    using inv removed(6) length_filter_clear [OF removed(2,3)]
    by (auto simp: owner_count_def table_inv_def) (metis add_leD1)
  moreover have "issued t' = issued t" using removed by (simp add: issued_def)
  ultimately show ?thesis
    using inv removed slot_keys_distinct_clear [OF inv_keys [OF inv]]
      set_flatten_clear [OF inv_keys [OF inv] removed(2,3)]
    by (simp add: table_inv_def)
qed (use inv in auto)

lemma remove_view:
  assumes inv: "table_inv t" and r: "remove t owner h = (Ok x, t')"
  shows "\<exists>rights. view t (owner, h) = Some (x, rights)" and "view t' = (view t)((owner, h) := None)"
    and "issued t' = issued t"
proof -
  from inv_keys [OF inv] r show "\<exists>rights. view t (owner, h) = Some (x, rights)"
    by (cases rule: remove_cases) auto
  from inv_keys [OF inv] r show "issued t' = issued t"
    by (cases rule: remove_cases) (auto simp: issued_def)
  from inv_keys [OF inv] r show "view t' = (view t)((owner, h) := None)"
  proof (cases rule: remove_cases)
    case (removed i e)
    have same: "f = e" if "f \<in> set (flatten (entries t))" "entry_id f = h" for f
      using that removed slot_keys_distinctD [OF inv_keys [OF inv], of _ i f e]
      by (auto simp: in_flatten_iff)
    show ?thesis
    proof (rule view_eqI)
      show "slot_keys_distinct entry_id (entries t')" by (rule inv_keys [OF remove_inv [OF inv r]])
      fix o' h' y rt
      show "((view t)((owner, h) := None)) (o', h') = Some (y, rt) \<longleftrightarrow>
        (\<exists>e\<in>set (flatten (entries t')). entry_id e = h' \<and> entry_owner e = o' \<and> entry_object e = y \<and>
           entry_rights e = rt)"
        using removed(4-6) same set_flatten_clear [OF inv_keys [OF inv] removed(2,3)]
        by (auto simp: view_Some_iff [OF inv_keys [OF inv]])
    qed
  qed auto
qed

lemma remove_error:
  assumes "table_inv t" and "remove t owner h = (res, t')" and "\<forall>x. res \<noteq> Ok x"
  shows "res = Err HdlHandle \<and> t' = t \<and> view t (owner, h) = None"
  using inv_keys [OF assms(1)] assms(2) by (cases rule: remove_cases) (use assms(3) in auto)

lemma transfer_cases:
  assumes "slot_keys_distinct entry_id (entries t)" and "transfer t owner h target rights = (res, t')"
  obtains (failed) e where "res = Err e" "t' = t"
  | (moved) i old n where "res = Ok (domain t OR next_id t)" "i < length (entries t)"
      "entries t ! i = Some old" "entry_id old = h" "entry_owner old = owner"
      "transfer_right t \<noteq> 0" "entry_rights old AND transfer_right t \<noteq> 0" "rights \<noteq> 0"
      "rights AND NOT (entry_rights old) = 0" "target = owner \<or> room t target"
      "advance (next_id t) = Some n"
      "t' = t\<lparr>entries := (entries t)[i := Some (old\<lparr>entry_id := domain t OR next_id t,
                 entry_owner := target, entry_rights := rights\<rparr>)], next_id := n\<rparr>"
      "view t (owner, h) = Some (entry_object old, entry_rights old)"
proof (cases "position (entry_matches owner h) (entries t)")
  case None
  with assms(2) failed show ?thesis by (auto simp: transfer_def index_def)
next
  case (Some i)
  with positionD [OF Some] obtain old where old: "entries t ! i = Some old" "i < length (entries t)"
    "entry_id old = h" "entry_owner old = owner" by (cases "entries t ! i") auto
  have v: "view t (owner, h) = Some (entry_object old, entry_rights old)"
    using Some old by (simp add: view_def)
  let ?denied = "transfer_right t = 0 \<or> entry_rights old AND transfer_right t = 0 \<or> rights = 0 \<or>
    rights AND NOT (entry_rights old) \<noteq> 0"
  let ?quota = "target \<noteq> owner \<and> \<not> room t target"
  show ?thesis
  proof (cases "?denied \<or> ?quota \<or> advance (next_id t) = None")
    case True
    then show ?thesis
      using Some old assms(2) failed [of HdlDenied] failed [of HdlQuota]
      by (auto simp: transfer_def index_def split: if_splits)
  next
    case False
    then obtain n where n: "advance (next_id t) = Some n" by auto
    with False Some old(1) assms(2) advance_Some(1) [OF n]
    have "res = Ok (domain t OR next_id t)"
      "t' = t\<lparr>entries := (entries t)[i := Some (old\<lparr>entry_id := domain t OR next_id t,
                 entry_owner := target, entry_rights := rights\<rparr>)], next_id := n\<rparr>"
      by (auto simp: transfer_def index_def split: if_splits)
    with False n old v show ?thesis by (intro moved [of i old n]) simp_all
  qed
qed

lemma transfer_inv:
  assumes inv: "table_inv t" and r: "transfer t owner h target rights = (res, t')"
  shows "table_inv t'"
  using inv_keys [OF inv] r
proof (cases rule: transfer_cases)
  case (moved i old n)
  let ?e = "old\<lparr>entry_id := domain t OR next_id t, entry_owner := target, entry_rights := rights\<rparr>"
  have keys: "slot_keys_distinct entry_id ((entries t)[i := Some ?e])"
    using inv_keys [OF inv] inv_entry [OF inv] fresh_not_issued [OF inv]
    by (intro slot_keys_distinct_set) force+
  have iss: "issued t' = insert (domain t OR next_id t) (issued t)"
    using moved inv by (intro issued_advance [of t n]) (auto simp: table_inv_def)
  have sub: "rights AND NOT (allowed t) = 0"
  proof (rule bit_eqI)
    fix k
    have "\<not> bit (entry_rights old AND NOT (allowed t)) k" "\<not> bit (rights AND NOT (entry_rights old)) k"
      using inv_entry [OF inv moved(2,3)] moved(9) by simp_all
    then show "bit (rights AND NOT (allowed t)) k \<longleftrightarrow> bit (0 :: u8) k"
      by (auto simp: bit_simps)
  qed
  have ents: "entry_id e \<in> issued t' \<and> entry_rights e \<noteq> 0 \<and> entry_rights e AND NOT (allowed t) = 0"
    if "e \<in> set (flatten ((entries t)[i := Some ?e]))" for e
    using that inv moved(8) iss sub set_flatten_replace [OF inv_keys [OF inv] moved(2,3), of ?e]
    by (auto simp: table_inv_def)
  have "owner_count t' o' \<le> per_owner t" for o'
  proof -
    have "owner_count t o' \<le> per_owner t" using inv by (simp add: table_inv_def)
    then show ?thesis
      using moved(5,10,12) length_filter_clear [OF moved(2,3), of "\<lambda>e. entry_owner e = o'"]
        length_filter_replace [OF moved(2,3), of "\<lambda>e. entry_owner e = o'" ?e]
      by (auto simp: owner_count_def room_def split: if_splits)
  qed
  then show ?thesis
    using keys ents inv moved(12) advance_Some [OF moved(11)] by (simp add: table_inv_def)
qed (use inv in auto)

lemma transfer_view:
  fixes t :: "'a table"
  assumes inv: "table_inv t" and r: "transfer t owner h target rights = (Ok h', t')"
  shows "\<exists>x old. view t (owner, h) = Some (x, old) \<and> rights AND NOT old = 0 \<and> old AND transfer_right t \<noteq> 0 \<and>
      view t' = ((view t)((owner, h) := None))((target, h') \<mapsto> (x, rights)) \<and>
      h' \<notin> issued t \<and> issued t' = insert h' (issued t)"
  using inv_keys [OF inv] r
proof (cases rule: transfer_cases)
  case (moved i old n)
  have fresh: "entry_id e \<noteq> h'" if "e \<in> set (flatten (entries t))" for e
    using that inv fresh_not_issued [OF inv] moved(1) by (auto simp: table_inv_def)
  have same: "f = old" if "f \<in> set (flatten (entries t))" "entry_id f = h" for f
    using that moved(2-4) slot_keys_distinctD [OF inv_keys [OF inv], of _ i f old]
    by (auto simp: in_flatten_iff)
  have iss: "issued t' = insert h' (issued t)"
    using moved inv issued_advance [of t n t'] by (auto simp: table_inv_def)
  have old_in: "old \<in> set (flatten (entries t))" using moved(2,3) by (auto simp: in_flatten_iff)
  let ?e = "old\<lparr>entry_id := h', entry_owner := target, entry_rights := rights\<rparr>"
  have ents: "set (flatten (entries t')) = insert ?e {y \<in> set (flatten (entries t)). entry_id y \<noteq> h}"
    using moved(1,4,12) set_flatten_replace [OF inv_keys [OF inv] moved(2,3)] by simp
  have "view t' = ((view t)((owner, h) := None))((target, h') \<mapsto> (entry_object old, rights))"
  proof (rule view_eqI)
    show "slot_keys_distinct entry_id (entries t')" by (rule inv_keys [OF transfer_inv [OF inv r]])
    fix o' g rt and y :: 'a
    let ?m = "((view t)((owner, h) := None))((target, h') \<mapsto> (entry_object old, rights))"
    let ?P = "\<lambda>e :: 'a entry. entry_id e = g \<and> entry_owner e = o' \<and> entry_object e = y \<and> entry_rights e = rt"
    have split: "(\<exists>e\<in>set (flatten (entries t')). ?P e) \<longleftrightarrow>
        ?P ?e \<or> (\<exists>e\<in>set (flatten (entries t)). entry_id e \<noteq> h \<and> ?P e)"
      unfolding ents by blast
    consider "(o', g) = (target, h')" | "(o', g) = (owner, h)" "g \<noteq> h'" | "g = h'" "o' \<noteq> target"
      | "g \<noteq> h'" "(o', g) \<noteq> (owner, h)" by auto
    then show "?m (o', g) = Some (y, rt) \<longleftrightarrow> (\<exists>e\<in>set (flatten (entries t')). ?P e)"
    proof cases
      case 1
      then show ?thesis unfolding split using fresh by auto
    next
      case 2
      then show ?thesis unfolding split by auto
    next
      case 3
      moreover have "view t (o', g) = None"
        using 3 fresh view_Some_iff [OF inv_keys [OF inv], of o' g] by (cases "view t (o', g)") auto
      ultimately show ?thesis unfolding split using fresh by auto
    next
      case 4
      then have "?m (o', g) = Some (y, rt) \<longleftrightarrow> view t (o', g) = Some (y, rt)" by auto
      also have "\<dots> \<longleftrightarrow> (\<exists>e\<in>set (flatten (entries t)). ?P e)"
        by (rule view_Some_iff [OF inv_keys [OF inv]])
      finally show ?thesis unfolding split using 4 same moved(5) by auto
    qed
  qed
  then show ?thesis using moved fresh_not_issued [OF inv] iss by auto
qed auto

lemma transfer_error:
  assumes "table_inv t" and "transfer t owner h target rights = (res, t')" and "\<forall>x. res \<noteq> Ok x"
  shows "(\<exists>e. res = Err e) \<and> t' = t"
  using inv_keys [OF assms(1)] assms(2) by (cases rule: transfer_cases) (use assms(3) in auto)

lemma grant_error:
  assumes "grant t owner x rights = (res, t')" and "\<forall>h. res \<noteq> Ok h"
  shows "(\<exists>e. res = Err e) \<and> t' = t"
  using assms(1) by (cases rule: grant_cases) (use assms(2) in auto)

lemma first_Some:
  assumes "table_inv t" and "first t owner = Some h"
  shows "\<exists>x r. view t (owner, h) = Some (x, r)"
proof -
  from assms(2) obtain e where "find (\<lambda>e. entry_owner e = owner) (flatten (entries t)) = Some e" "entry_id e = h"
    by (auto simp: first_def)
  then have "e \<in> set (flatten (entries t))" "entry_owner e = owner" by (auto simp: find_Some_iff)
  with \<open>entry_id e = h\<close> show ?thesis
    using view_Some_iff [OF inv_keys [OF assms(1)], of owner h] by blast
qed

lemma first_None: "table_inv t \<Longrightarrow> first t owner = None \<Longrightarrow> view t (owner, h) = None"
  using view_Some_iff [OF inv_keys, of t owner h]
  by (cases "view t (owner, h)") (auto simp: first_def find_None_iff)

lemma remove_count:
  assumes "table_inv t" and "remove t owner h = (Ok x, t')"
  shows "Suc (table_count t') = table_count t"
  using inv_keys [OF assms(1)] assms(2)
  by (cases rule: remove_cases) (auto simp: table_count_def length_flatten_clear)

section \<open>The contract the brokers rely on\<close>

text \<open>
  What a client of the table may use: a view as a finite map, the set of tokens issued so far, and
  the effect of each operation on both. The brokers' proofs use these laws only.
\<close>

locale handle_table =
  fixes grant_op :: "'t \<Rightarrow> 'o \<Rightarrow> 'x \<Rightarrow> 'r \<Rightarrow> ('e, 'h) outcome \<times> 't"
    and remove_op :: "'t \<Rightarrow> 'o \<Rightarrow> 'h \<Rightarrow> ('e, 'x) outcome \<times> 't"
    and held :: "'t \<Rightarrow> ('o \<times> 'h) \<rightharpoonup> ('x \<times> 'r)"
    and used :: "'t \<Rightarrow> 'h set"
    and ok :: "'t \<Rightarrow> bool"
  assumes grant_ok: "ok t \<Longrightarrow> grant_op t p x r = (res, t') \<Longrightarrow> ok t'"
    and grant_held: "ok t \<Longrightarrow> grant_op t p x r = (Ok h, t') \<Longrightarrow>
      held t' = (held t)((p, h) \<mapsto> (x, r)) \<and> h \<notin> used t \<and> used t' = insert h (used t)"
    and grant_refused: "ok t \<Longrightarrow> grant_op t p x r = (res, t') \<Longrightarrow> \<forall>h. res \<noteq> Ok h \<Longrightarrow>
      (\<exists>e. res = Err e) \<and> t' = t"
    and remove_ok: "ok t \<Longrightarrow> remove_op t p h = (out, t') \<Longrightarrow> ok t'"
    and remove_held: "ok t \<Longrightarrow> held t (p, h) = Some (x, r) \<Longrightarrow>
      \<exists>t'. remove_op t p h = (Ok x, t') \<and> held t' = (held t)((p, h) := None) \<and> used t' = used t"
    and held_used: "ok t \<Longrightarrow> held t (p, h) = Some y \<Longrightarrow> h \<in> used t"
    and held_owner: "ok t \<Longrightarrow> held t (p, h) = Some y \<Longrightarrow> held t (q, h) = Some z \<Longrightarrow> p = q"
begin

text \<open>A refused pair of grants that is rolled back leaves the client's view as it was.\<close>

lemma grant_then_remove:
  assumes "ok t" and "grant_op t p x r = (Ok h, t')"
  shows "\<exists>t''. remove_op t' p h = (Ok x, t'') \<and> held t'' = held t"
proof -
  have t': "ok t'" "held t' = (held t)((p, h) \<mapsto> (x, r))" "h \<notin> used t"
    using grant_ok [OF assms] grant_held [OF assms] by auto
  then have "held t (p, h) = None" using held_used [OF assms(1)] by (metis not_Some_eq)
  then show ?thesis using remove_held [OF t'(1), of p h x r] t'(2) by (auto simp: fun_upd_idem)
qed

lemma grant_keeps_others:
  assumes "ok t" and "grant_op t p x r = (Ok h, t')" and "held t (q, g) = Some y"
  shows "held t' (q, g) = Some y"
proof -
  have "g \<noteq> h" using held_used [OF assms(1,3)] grant_held [OF assms(1,2)] by auto
  then show ?thesis using grant_held [OF assms(1,2)] assms(3) by simp
qed

end

lemma view_remove:
  assumes "table_inv t" and "view t (owner, h) = Some (x, r)"
  shows "\<exists>t'. remove t owner h = (Ok x, t') \<and> view t' = (view t)((owner, h) := None) \<and> issued t' = issued t"
proof -
  obtain res t' where rm: "remove t owner h = (res, t')" by fastforce
  then obtain y where "res = Ok y" using assms remove_error [OF assms(1) rm] by fastforce
  then show ?thesis using rm remove_view [OF assms(1)] assms(2) by fastforce
qed

lemma view_issued: "table_inv t \<Longrightarrow> view t (owner, h) = Some y \<Longrightarrow> h \<in> issued t"
  using view_Some_iff [OF inv_keys, of t owner h "fst y" "snd y"] by (auto simp: table_inv_def)

lemma view_owner:
  assumes "table_inv t" and "view t (p, h) = Some y" and "view t (q, h) = Some z"
  shows "p = q"
proof -
  obtain e f where "e \<in> set (flatten (entries t))" "f \<in> set (flatten (entries t))"
    "entry_id e = h" "entry_id f = h" "entry_owner e = p" "entry_owner f = q"
    using assms view_Some_iff [OF inv_keys [OF assms(1)], of p h "fst y" "snd y"]
      view_Some_iff [OF inv_keys [OF assms(1)], of q h "fst z" "snd z"] by auto
  then show ?thesis
    using slot_keys_distinctD [OF inv_keys [OF assms(1)]] by (metis in_flatten_iff option.inject)
qed

interpretation ht: handle_table grant remove view issued table_inv
proof (unfold_locales, goal_cases)
  case (1 t p x r res t')
  then show ?case by (rule grant_inv)
next
  case (2 t p x r h t')
  then show ?case using grant_view [OF 2] grant_fresh [OF 2] by simp
next
  case (3 t p x r res t')
  then show ?case using grant_error [OF 3(2,3)] by simp
next
  case (4 t p h out t')
  then show ?case by (rule remove_inv)
next
  case (5 t p h x r)
  then show ?case by (rule view_remove)
next
  case (6 t p h y)
  then show ?case by (rule view_issued)
next
  case (7 t p h y q z)
  then show ?case by (rule view_owner)
qed

section \<open>Draining an owner\<close>

locale owner_drain =
  fixes next_handle :: "'s \<Rightarrow> 'h option"
    and close_one :: "'s \<Rightarrow> 'h \<Rightarrow> ('e, unit) outcome \<times> 's"
    and size_of :: "'s \<Rightarrow> nat"
    and ok :: "'s \<Rightarrow> bool"
  assumes close_step: "ok s \<Longrightarrow> next_handle s = Some h \<Longrightarrow>
      \<exists>s'. close_one s h = (Ok (), s') \<and> ok s' \<and> size_of s' < size_of s"
begin

lemma drain_total:
  "ok s \<Longrightarrow> size_of s < n \<Longrightarrow>
   \<exists>s'. drain n next_handle close_one s = Some (Ok (), s') \<and> ok s' \<and> next_handle s' = None"
proof (induction n arbitrary: s)
  case 0
  then show ?case by simp
next
  case (Suc n)
  show ?case
  proof (cases "next_handle s")
    case None
    with Suc.prems show ?thesis by simp
  next
    case (Some h)
    with close_step [OF Suc.prems(1)] obtain s' where
      s': "close_one s h = (Ok (), s')" "ok s'" "size_of s' < size_of s" by blast
    with Suc.prems(2) Suc.IH [of s'] Some show ?thesis by auto
  qed
qed

lemma drain_preserves:
  assumes kept: "\<And>s h s'. ok s \<Longrightarrow> P s \<Longrightarrow> next_handle s = Some h \<Longrightarrow> close_one s h = (Ok (), s') \<Longrightarrow> P s'"
  shows "ok s \<Longrightarrow> P s \<Longrightarrow> drain n next_handle close_one s = Some (Ok (), s') \<Longrightarrow> P s'"
proof (induction n arbitrary: s)
  case 0
  then show ?case by simp
next
  case (Suc n)
  show ?case
  proof (cases "next_handle s")
    case None
    with Suc.prems show ?thesis by simp
  next
    case (Some h)
    with close_step [OF Suc.prems(1)] obtain t where
      t: "close_one s h = (Ok (), t)" "ok t" by blast
    with Suc.prems Some have "drain n next_handle close_one t = Some (Ok (), s')" by simp
    moreover have "P t" using kept [OF Suc.prems(1,2) Some t(1)] .
    ultimately show ?thesis using Suc.IH t(2) by blast
  qed
qed

end

section \<open>Runs of the table\<close>

inductive table_step :: "'a table \<Rightarrow> 'a table \<Rightarrow> bool" where
  step_grant: "grant t owner x rights = (res, t') \<Longrightarrow> table_step t t'"
| step_remove: "remove t owner h = (res, t') \<Longrightarrow> table_step t t'"
| step_transfer: "transfer t owner h target rights = (res, t') \<Longrightarrow> table_step t t'"

inductive_cases table_stepE: "table_step t t'"

lemma step_table_inv: "table_step t t' \<Longrightarrow> table_inv t \<Longrightarrow> table_inv t'"
  by (induction rule: table_step.induct) (auto intro: grant_inv remove_inv transfer_inv)

lemma run_table_inv: "table_step\<^sup>*\<^sup>* t t' \<Longrightarrow> table_inv t \<Longrightarrow> table_inv t'"
  by (induction rule: rtranclp_induct) (auto intro: step_table_inv)

lemma step_shape:
  "table_step t t' \<Longrightarrow> length (entries t') = length (entries t) \<and> per_owner t' = per_owner t \<and>
   allowed t' = allowed t"
  by (induction rule: table_step.induct)
    (auto simp: grant_def remove_def transfer_def Let_def split: if_splits option.splits outcome.splits)

lemma run_shape:
  "table_step\<^sup>*\<^sup>* t t' \<Longrightarrow> length (entries t') = length (entries t) \<and> per_owner t' = per_owner t \<and>
   allowed t' = allowed t"
  by (induction rule: rtranclp_induct) (auto dest: step_shape)

text \<open>A token that was issued and is held by nobody is dead, and stays dead.\<close>

definition dead :: "'a table \<Rightarrow> u64 \<Rightarrow> bool" where
  "dead t h \<longleftrightarrow> h \<in> issued t \<and> (\<forall>owner. view t (owner, h) = None)"

lemma step_dead:
  assumes "table_step t t'" and "table_inv t" and "dead t h"
  shows "dead t' h"
  using assms
proof (induction rule: table_step.induct)
  case (step_grant t owner x rights res t')
  then show ?case
    using grant_view [of t owner x rights] grant_fresh [of t owner x rights] grant_error [of t owner x rights res t']
    by (cases res) (auto simp: dead_def)
next
  case (step_remove t owner g res t')
  show ?case
  proof (cases "\<exists>x. res = Ok x")
    case True
    then obtain x where "remove t owner g = (Ok x, t')" using step_remove(1) by auto
    from remove_view(2,3) [OF step_remove(2) this] show ?thesis
      using step_remove(3) by (auto simp: dead_def)
  next
    case False
    then show ?thesis using remove_error [OF step_remove(2,1)] step_remove(3) by auto
  qed
next
  case (step_transfer t owner g target rights res t')
  show ?case
  proof (cases "\<exists>h'. res = Ok h'")
    case True
    then obtain h' where "transfer t owner g target rights = (Ok h', t')" using step_transfer(1) by auto
    from transfer_view [OF step_transfer(2) this] show ?thesis
      using step_transfer(3) by (auto simp: dead_def)
  next
    case False
    then show ?thesis using transfer_error [OF step_transfer(2,1)] step_transfer(3) by auto
  qed
qed

lemma run_dead: "table_step\<^sup>*\<^sup>* t t' \<Longrightarrow> table_inv t \<Longrightarrow> dead t h \<Longrightarrow> dead t' h"
proof (induction rule: rtranclp_induct)
  case (step u v)
  then show ?case using step_dead [of u v h] run_table_inv [of t u] by blast
qed

lemma dead_resolve: "table_inv t \<Longrightarrow> dead t h \<Longrightarrow> resolve t owner h right = Err HdlHandle"
  by (simp add: resolve_view inv_keys dead_def)

lemma fold_max_le: "fold max xs m \<le> n \<longleftrightarrow> m \<le> n \<and> (\<forall>x\<in>set xs. x \<le> (n :: nat))"
  by (induction xs arbitrary: m) auto

section \<open>Properties\<close>

text \<open>C11 Every table reachable from an empty one by any sequence of grants, removals and transfers has
  pairwise distinct tokens, each entry holds a nonempty subset of the rights the table allows, no owner
  holds more than \<open>PER_OWNER\<close> entries and the table never exceeds \<open>CAPACITY\<close>.\<close>

theorem table_reachable_invariant:
  assumes "table_step\<^sup>*\<^sup>* (new_table capacity quota tag rights tr) t"
  shows "slot_keys_distinct entry_id (entries t) \<and>
    (\<forall>e\<in>set (flatten (entries t)). entry_rights e \<noteq> 0 \<and> entry_rights e AND NOT rights = 0) \<and>
    max_owner_count t \<le> quota \<and> table_count t \<le> capacity"
proof -
  have inv: "table_inv t" by (rule run_table_inv [OF assms]) simp
  have shape: "length (entries t) = capacity" "per_owner t = quota" "allowed t = rights"
    using run_shape [OF assms] by (simp_all add: new_table_def)
  have "table_count t \<le> capacity" using length_flatten_le [of "entries t"] shape by (simp add: table_count_def)
  moreover have "max_owner_count t \<le> quota"
    using inv shape by (simp add: max_owner_count_def fold_max_le table_inv_def)
  ultimately show ?thesis using inv shape by (auto simp: table_inv_def)
qed

definition demo_table :: "nat table" where
  "demo_table = snd (grant (new_table 2 1 1 7 4) 10 42 7)"

lemma demo_table_inv: "table_inv demo_table"
  unfolding demo_table_def by (rule grant_inv [OF new_table_inv prod.collapse [symmetric]])

lemma demo_table_eval:
  "demo_table = \<lparr>entries = [Some \<lparr>entry_id = 72057594037927937, entry_owner = 10, entry_object = 42,
     entry_rights = 7\<rparr>, None], next_id = 2, domain = 72057594037927936, allowed = 7,
     transfer_right = 4, per_owner = 1\<rparr>"
  by (simp add: demo_table_def grant_def new_table_def room_def advance_def checked_add_def Let_def
      replicate_numeral)

theorem table_reachable_invariant_witness:
  "table_step\<^sup>*\<^sup>* (new_table 2 1 1 7 4) demo_table \<and> table_count demo_table = 1 \<and>
   max_owner_count demo_table \<le> 1 \<and> table_count demo_table \<le> 2"
proof -
  have run: "table_step\<^sup>*\<^sup>* (new_table 2 1 1 7 4) demo_table"
    unfolding demo_table_def by (rule r_into_rtranclp [of table_step, OF step_grant [OF prod.collapse [symmetric]]])
  moreover have "table_count demo_table = 1" by (simp add: demo_table_eval table_count_def)
  ultimately show ?thesis using table_reachable_invariant [OF run] by simp
qed

text \<open>C10 Revocation is permanent: once a token has been removed, no sequence of later grants, removals
  and transfers makes it resolve again, for any owner and any requested right.\<close>

theorem removed_token_never_resolves:
  assumes "table_inv t" and "remove t owner h = (Ok x, t1)" and "table_step\<^sup>*\<^sup>* t1 t2"
  shows "resolve t2 p h right = Err HdlHandle"
proof -
  obtain r where v: "view t (owner, h) = Some (x, r)" using remove_view(1) [OF assms(1,2)] by blast
  have "view t1 (q, h) = None" for q
    using remove_view(2) [OF assms(1,2)] view_owner [OF assms(1) v, of q]
    by (cases "view t (q, h)") auto
  then have "dead t1 h"
    using view_issued [OF assms(1) v] remove_view(3) [OF assms(1,2)] by (simp add: dead_def)
  then have "dead t2 h" using run_dead [OF assms(3)] remove_inv [OF assms(1,2)] by blast
  then show ?thesis using dead_resolve run_table_inv [OF assms(3) remove_inv [OF assms(1,2)]] by blast
qed

theorem removed_token_never_resolves_witness:
  "resolve (snd (grant (snd (remove demo_table 10 72057594037927937)) 10 43 7)) 10 72057594037927937 1
     = Err HdlHandle"
proof -
  let ?h = "72057594037927937 :: u64"
  have "fst (remove demo_table 10 ?h) = Ok 42"
    by (simp add: demo_table_eval remove_def index_def)
  then have "remove demo_table 10 ?h = (Ok 42, snd (remove demo_table 10 ?h))" by (metis prod.collapse)
  moreover have "table_step\<^sup>*\<^sup>* (snd (remove demo_table 10 ?h)) (snd (grant (snd (remove demo_table 10 ?h)) 10 43 7))"
    by (rule r_into_rtranclp [of table_step, OF step_grant [OF prod.collapse [symmetric]]])
  ultimately show ?thesis by (rule removed_token_never_resolves [OF demo_table_inv])
qed

text \<open>C12 A transfer moves authority and never widens it: the new token resolves for the target to the
  same object under exactly the requested rights, these are a subset of the rights the old entry had,
  and the old token no longer resolves for its previous owner.\<close>

theorem transfer_attenuates:
  assumes "table_inv t" and "transfer t owner h target rights = (Ok h', t')"
  shows "\<exists>x old. view t (owner, h) = Some (x, old) \<and> rights AND NOT old = 0 \<and>
    (\<forall>right. resolve t' target h' right = (if rights AND right \<noteq> right then Err HdlDenied else Ok x)) \<and>
    (\<forall>right. resolve t' owner h right = Err HdlHandle)"
proof -
  obtain x old where v: "view t (owner, h) = Some (x, old)" and sub: "rights AND NOT old = 0"
    and v': "view t' = ((view t)((owner, h) := None))((target, h') \<mapsto> (x, rights))" and "h' \<notin> issued t"
    using transfer_view [OF assms] by blast
  then have "h' \<noteq> h" using view_issued [OF assms(1) v] by auto
  then show ?thesis
    using v sub v' resolve_view [OF inv_keys [OF transfer_inv [OF assms]]] by auto
qed

theorem transfer_attenuates_witness:
  "resolve (snd (transfer demo_table 10 72057594037927937 11 3)) 10 72057594037927937 0 = Err HdlHandle"
proof -
  let ?h = "72057594037927937 :: u64"
  have "fst (transfer demo_table 10 ?h 11 3) = Ok 72057594037927938"
    by (simp add: demo_table_eval transfer_def index_def room_def advance_def checked_add_def)
  then have "transfer demo_table 10 ?h 11 3 = (Ok 72057594037927938, snd (transfer demo_table 10 ?h 11 3))"
    by (metis prod.collapse)
  from transfer_attenuates [OF demo_table_inv this] show ?thesis by blast
qed

end
