(* ===== verification/Ipc_Message.thy ===== *)
theory Ipc_Message
  imports Bytes
begin

unbundle bit_operations_syntax

text \<open>
  The IPC message of \<open>kernel/src/ipc/message.rs\<close> and the constants and error codes of
  \<open>crates/abi/src/ipc.rs\<close>. A user process hands the kernel 24 header bytes and at most 64 payload
  bytes; \<open>message_decode\<close> validates them and stamps the sender's identity, and the receiver obtains
  the first \<open>message_length\<close> bytes of \<open>message_encode\<close>.
\<close>

section \<open>Constants and errors\<close>

datatype ipc_error = IpcHandle | IpcDenied | IpcAddress | IpcSize | IpcVersion | IpcMessage
  | IpcWouldBlock | IpcClosed | IpcCancelled | IpcQuota

definition ipc_code :: "ipc_error \<Rightarrow> u64" where
  "ipc_code e = - 1 - (case e of IpcHandle \<Rightarrow> 2 | IpcDenied \<Rightarrow> 3 | IpcAddress \<Rightarrow> 4 | IpcSize \<Rightarrow> 5
     | IpcVersion \<Rightarrow> 6 | IpcMessage \<Rightarrow> 7 | IpcWouldBlock \<Rightarrow> 8 | IpcClosed \<Rightarrow> 9 | IpcCancelled \<Rightarrow> 10
     | IpcQuota \<Rightarrow> 11)"

abbreviation ipc_header :: nat where "ipc_header \<equiv> 24"
abbreviation ipc_payload :: nat where "ipc_payload \<equiv> 64"
abbreviation ipc_max_message :: nat where "ipc_max_message \<equiv> 88"

definition ipc_read :: u8 where "ipc_read = 1"
definition ipc_write :: u8 where "ipc_write = 2"
definition ipc_transfer :: u8 where "ipc_transfer = 4"
definition ipc_all :: u8 where "ipc_all = ipc_read OR ipc_write OR ipc_transfer"

section \<open>Messages\<close>

record message =
  correlation :: u64
  sender :: u64
  payload :: bytes
  msg_len :: nat

definition message_decode :: "bytes \<Rightarrow> u64 \<Rightarrow> (ipc_error, message) outcome" where
  "message_decode bs src =
     (if \<not> (ipc_header \<le> length bs \<and> length bs \<le> ipc_max_message) then Err IpcSize
      else if u16_at bs 0 \<noteq> 1 then Err IpcVersion
      else if u16_at bs 2 \<noteq> 1 \<or> any_nonzero (field_at bs 16 8) then Err IpcMessage
      else let len = unat (u32_at bs 4) in
        if len > ipc_payload \<or> length bs \<noteq> ipc_header + len then Err IpcSize
        else Ok \<lparr>correlation = u64_at bs 8, sender = src,
                 payload = put (replicate ipc_payload 0) 0 (drop ipc_header bs), msg_len = len\<rparr>)"

definition message_length :: "message \<Rightarrow> nat" where
  "message_length m = ipc_header + msg_len m"

definition message_encode :: "message \<Rightarrow> bytes" where
  "message_encode m =
     (let b = replicate ipc_max_message 0;
          b = put b 0 (to_le 2 (1 :: u16));
          b = put b 2 (to_le 2 (1 :: u16));
          b = put b 4 (to_le 4 (of_nat (msg_len m) :: u32));
          b = put b 8 (to_le 8 (correlation m));
          b = put b 16 (to_le 8 (sender m))
      in put b ipc_header (take (msg_len m) (payload m)))"

definition message_wf :: "message \<Rightarrow> bool" where
  "message_wf m \<longleftrightarrow> msg_len m \<le> ipc_payload \<and> length (payload m) = ipc_payload \<and>
     \<not> any_nonzero (drop (msg_len m) (payload m))"

section \<open>Lemmas\<close>

lemma ipc_code_injective: "ipc_code e = ipc_code f \<longleftrightarrow> e = f"
  by (cases e; cases f) (simp_all add: ipc_code_def)

lemma message_decode_Ok:
  assumes "message_decode bs src = Ok m"
  shows "ipc_header \<le> length bs" "length bs = message_length m" "msg_len m \<le> ipc_payload"
    "u16_at bs 0 = 1" "u16_at bs 2 = 1" "\<not> any_nonzero (field_at bs 16 8)"
    "unat (u32_at bs 4) = msg_len m" "correlation m = u64_at bs 8" "sender m = src"
    "payload m = put (replicate ipc_payload 0) 0 (drop ipc_header bs)"
  using assms by (auto simp: message_decode_def message_length_def Let_def split: if_splits)

lemma message_decode_wf: "message_decode bs src = Ok m \<Longrightarrow> message_wf m"
  using message_decode_Ok [of bs src m]
  by (auto simp: message_wf_def message_length_def put_def)

lemma length_message_encode [simp]: "message_wf m \<Longrightarrow> length (message_encode m) = ipc_max_message"
  by (simp add: message_encode_def message_wf_def Let_def)

lemma message_encode_fields:
  assumes "message_wf m"
  shows "field_at (message_encode m) 0 2 = to_le 2 (1 :: u16)"
    "field_at (message_encode m) 2 2 = to_le 2 (1 :: u16)"
    "field_at (message_encode m) 4 4 = to_le 4 (of_nat (msg_len m) :: u32)"
    "field_at (message_encode m) 8 8 = to_le 8 (correlation m)"
    "field_at (message_encode m) 16 8 = to_le 8 (sender m)"
    "field_at (message_encode m) 24 (msg_len m) = take (msg_len m) (payload m)"
  using assms by (simp_all add: message_encode_def message_wf_def Let_def)

section \<open>Properties\<close>

text \<open>C16 What a receiver sees is what the sender wrote, with the kernel's identity of the sender in
  place of the eight reserved bytes: the delivered record is the sent record except for bytes 16..24,
  which hold the owner the kernel resolved, so a process can neither forge its identity nor have its
  bytes altered.\<close>

theorem message_delivery_roundtrip:
  assumes "message_decode bs src = Ok m"
  shows "take (message_length m) (message_encode m) = put bs 16 (to_le 8 src)"
proof (rule eq_by_fields [where ns = "[2, 2, 4, 8, 8, msg_len m]"])
  note d = message_decode_Ok [OF assms] and wf = message_decode_wf [OF assms]
  have len: "length bs = 24 + msg_len m" using d(2) by (simp add: message_length_def)
  show "message_length m = sum_list [2, 2, 4, 8, 8, msg_len m]" by (simp add: message_length_def)
  show "message_length m = length (put bs 16 (to_le 8 src))"
    using len by (simp add: message_length_def)
  have reads: "field_at bs 0 2 = to_le 2 (1 :: u16)" "field_at bs 2 2 = to_le 2 (1 :: u16)"
    "field_at bs 4 4 = to_le 4 (of_nat (msg_len m) :: u32)" "field_at bs 8 8 = to_le 8 (correlation m)"
    using d(4,5,8) len field_of_read [of 0 bs] field_of_read [of 2 bs] field_of_read [of 4 bs]
      field_of_read [of 8 bs] by (simp_all flip: d(7))
  moreover have "take (msg_len m) (payload m) = field_at bs 24 (msg_len m)"
    using d(10) len by (simp add: put_def field_at_def)
  ultimately show "layout 0 [2, 2, 4, 8, 8, msg_len m] (message_encode m) =
      layout 0 [2, 2, 4, 8, 8, msg_len m] (put bs 16 (to_le 8 src))"
    using d(9) len by (simp add: message_encode_fields [OF wf])
qed

definition hello_bytes :: bytes where
  "hello_bytes = [1, 0, 1, 0, 2, 0, 0, 0, 9, 0, 0, 0, 0, 0, 0, 0, 0, 0, 0, 0, 0, 0, 0, 0, 72, 105]"

definition hello_message :: message where
  "hello_message = \<lparr>correlation = 9, sender = 77, payload = [72, 105] @ replicate 62 0, msg_len = 2\<rparr>"

lemma hello_decode: "message_decode hello_bytes 77 = Ok hello_message"
  by (simp add: message_decode_def hello_bytes_def hello_message_def field_at_def field_reads
      any_nonzero_def put_def)

theorem message_delivery_roundtrip_witness:
  "take (message_length hello_message) (message_encode hello_message) =
     [1, 0, 1, 0, 2, 0, 0, 0, 9, 0, 0, 0, 0, 0, 0, 0, 77, 0, 0, 0, 0, 0, 0, 0, 72, 105]"
proof -
  have "put hello_bytes 16 (to_le 8 (77 :: u64)) =
     [1, 0, 1, 0, 2, 0, 0, 0, 9, 0, 0, 0, 0, 0, 0, 0, 77, 0, 0, 0, 0, 0, 0, 0, 72, 105]"
    by (simp add: hello_bytes_def put_def to_le_def upt_rec)
  then show ?thesis using message_delivery_roundtrip [OF hello_decode] by simp
qed

end
