(* ===== verification/Ipc.thy ===== *)
theory Ipc
  imports Handles Ipc_Message
begin

unbundle bit_operations_syntax

text \<open>
  Channels and the broker of \<open>kernel/src/ipc/channel.rs\<close> and \<open>kernel/src/ipc/broker.rs\<close>. A channel
  has two sides, each with a two-slot ring of incoming messages; the broker owns the channels and
  the handle table that names their endpoints. The ring is verified as a bounded FIFO
  (locale \<open>bounded_fifo\<close>), the broker against the contract of the handle table. The invariant
  \<open>broker_inv\<close> ties the two halves together: the open sides of the live channels are exactly the
  endpoints that some handle names, each named once. From it follows that no \<open>expect\<close>,
  \<open>unwrap\<close> or \<open>assert!\<close> of the broker can fail.
\<close>

section \<open>Rings\<close>

record queue =
  q_messages :: "message slots"
  q_head :: nat
  q_len :: nat

definition queue_new :: queue where
  "queue_new = \<lparr>q_messages = [None, None], q_head = 0, q_len = 0\<rparr>"

definition queue_push :: "queue \<Rightarrow> message \<Rightarrow> (ipc_error, unit) outcome \<times> queue" where
  "queue_push q m =
     (if q_len q = 2 then (Err IpcWouldBlock, q)
      else (Ok (), q\<lparr>q_messages := (q_messages q)[(q_head q + q_len q) mod 2 := Some m],
                     q_len := q_len q + 1\<rparr>))"

definition queue_peek :: "queue \<Rightarrow> message option" where
  "queue_peek q = q_messages q ! q_head q"

definition queue_pop :: "queue \<Rightarrow> (ipc_error, unit) outcome \<times> queue" where
  "queue_pop q =
     (if q_len q > 0
      then (Ok (), q\<lparr>q_messages := (q_messages q)[q_head q := None], q_head := (q_head q + 1) mod 2,
                     q_len := q_len q - 1\<rparr>)
      else (Panic, q))"

section \<open>Channels\<close>

record channel =
  chan_id :: u64
  chan_open :: "bool list"
  chan_queues :: "queue list"

definition channel_new :: "u64 \<Rightarrow> channel" where
  "channel_new n = \<lparr>chan_id = n, chan_open = [True, True], chan_queues = [queue_new, queue_new]\<rparr>"

definition channel_send :: "channel \<Rightarrow> nat \<Rightarrow> message \<Rightarrow> (ipc_error, unit) outcome \<times> channel" where
  "channel_send c side m =
     (if \<not> chan_open c ! (1 - side) then (Err IpcClosed, c)
      else case queue_push (chan_queues c ! (1 - side)) m of
        (r, q) \<Rightarrow> (r, c\<lparr>chan_queues := (chan_queues c)[1 - side := q]\<rparr>))"

definition channel_peek :: "channel \<Rightarrow> nat \<Rightarrow> (ipc_error, message) outcome" where
  "channel_peek c side =
     ok_or (if chan_open c ! (1 - side) then IpcWouldBlock else IpcClosed)
       (queue_peek (chan_queues c ! side))"

definition channel_pop :: "channel \<Rightarrow> nat \<Rightarrow> (ipc_error, unit) outcome \<times> channel" where
  "channel_pop c side =
     (case queue_pop (chan_queues c ! side) of
        (r, q) \<Rightarrow> (r, c\<lparr>chan_queues := (chan_queues c)[side := q]\<rparr>))"

definition channel_close :: "channel \<Rightarrow> nat \<Rightarrow> bool \<times> channel" where
  "channel_close c side =
     (let c' = c\<lparr>chan_open := (chan_open c)[side := False],
                 chan_queues := (chan_queues c)[side := queue_new]\<rparr>
      in (\<not> chan_open c' ! 0 \<and> \<not> chan_open c' ! 1, c'))"

section \<open>The broker\<close>

record endpoint =
  ep_channel :: u64
  ep_side :: nat

record broker =
  channels :: "channel slots"
  handles :: "endpoint table"
  next_channel :: u64

primrec ipc_of_handle :: "handle_error \<Rightarrow> ipc_error" where
  "ipc_of_handle HdlHandle = IpcHandle"
| "ipc_of_handle HdlDenied = IpcDenied"
| "ipc_of_handle HdlQuota = IpcQuota"

definition broker_new :: broker where
  "broker_new = \<lparr>channels = replicate 24 None, handles = new_table 64 24 0 ipc_all ipc_transfer,
                 next_channel = 1\<rparr>"

definition broker_slot :: "broker \<Rightarrow> endpoint \<Rightarrow> (ipc_error, nat) outcome" where
  "broker_slot b ep = expect (position
     (\<lambda>c. case c of None \<Rightarrow> False | Some c \<Rightarrow> chan_id c = ep_channel ep) (channels b))"

definition broker_connect :: "broker \<Rightarrow> u64 \<Rightarrow> u64 \<Rightarrow> (ipc_error, u64 \<times> u64) outcome \<times> broker" where
  "broker_connect b p q =
     or_return (ok_or IpcQuota (position (\<lambda>c. c = None) (channels b))) b (\<lambda>slot.
     or_return (ok_or IpcQuota (checked_add (next_channel b) 1)) b (\<lambda>next.
     case grant (handles b) p \<lparr>ep_channel = next_channel b, ep_side = 0\<rparr> ipc_all of (r1, t1) \<Rightarrow>
     or_return (map_err ipc_of_handle r1) (b\<lparr>handles := t1\<rparr>) (\<lambda>h1.
     case grant t1 q \<lparr>ep_channel = next_channel b, ep_side = 1\<rparr> ipc_all of (r2, t2) \<Rightarrow>
     (case r2 of
        Ok h2 \<Rightarrow> (Ok (h1, h2), b\<lparr>handles := t2,
                    channels := (channels b)[slot := Some (channel_new (next_channel b))],
                    next_channel := next\<rparr>)
      | Err e \<Rightarrow> (case remove t2 p h1 of (r3, t3) \<Rightarrow>
          or_return (map_err ipc_of_handle r3) (b\<lparr>handles := t3\<rparr>)
            (\<lambda>x. (Err (ipc_of_handle e), b\<lparr>handles := t3\<rparr>)))
      | Panic \<Rightarrow> (Panic, b\<lparr>handles := t2\<rparr>)))))"

definition broker_check :: "broker \<Rightarrow> u64 \<Rightarrow> u64 \<Rightarrow> u8 \<Rightarrow> (ipc_error, unit) outcome" where
  "broker_check b owner h right =
     map_err ipc_of_handle (and_then (resolve (handles b) owner h right) (\<lambda>x. Ok ()))"

definition broker_send :: "broker \<Rightarrow> u64 \<Rightarrow> u64 \<Rightarrow> bytes \<Rightarrow> (ipc_error, unit) outcome \<times> broker" where
  "broker_send b owner h bs =
     or_return (map_err ipc_of_handle (resolve (handles b) owner h ipc_write)) b (\<lambda>ep.
     or_return (message_decode bs owner) b (\<lambda>m.
     or_return (broker_slot b ep) b (\<lambda>slot.
     case channels b ! slot of
       None \<Rightarrow> (Panic, b)
     | Some c \<Rightarrow> (case channel_send c (ep_side ep) m of
         (r, c') \<Rightarrow> (r, b\<lparr>channels := (channels b)[slot := Some c']\<rparr>)))))"

definition broker_peek :: "broker \<Rightarrow> u64 \<Rightarrow> u64 \<Rightarrow> (ipc_error, message) outcome" where
  "broker_peek b owner h =
     and_then (map_err ipc_of_handle (resolve (handles b) owner h ipc_read)) (\<lambda>ep.
     and_then (broker_slot b ep) (\<lambda>slot.
     case channels b ! slot of
       None \<Rightarrow> Panic
     | Some c \<Rightarrow> channel_peek c (ep_side ep)))"

definition broker_consume :: "broker \<Rightarrow> u64 \<Rightarrow> u64 \<Rightarrow> (ipc_error, unit) outcome \<times> broker" where
  "broker_consume b owner h =
     or_return (map_err ipc_of_handle (resolve (handles b) owner h ipc_read)) b (\<lambda>ep.
     or_return (broker_slot b ep) b (\<lambda>slot.
     case channels b ! slot of
       None \<Rightarrow> (Panic, b)
     | Some c \<Rightarrow>
         or_return (channel_peek c (ep_side ep)) b (\<lambda>m.
         case channel_pop c (ep_side ep) of
           (r, c') \<Rightarrow> (r, b\<lparr>channels := (channels b)[slot := Some c']\<rparr>))))"

definition broker_close :: "broker \<Rightarrow> u64 \<Rightarrow> u64 \<Rightarrow> (ipc_error, unit) outcome \<times> broker" where
  "broker_close b owner h =
     (case remove (handles b) owner h of (r, t) \<Rightarrow>
        let b = b\<lparr>handles := t\<rparr> in
        or_return (map_err ipc_of_handle r) b (\<lambda>ep.
        or_return (broker_slot b ep) b (\<lambda>slot.
        case channels b ! slot of
          None \<Rightarrow> (Panic, b)
        | Some c \<Rightarrow> (case channel_close c (ep_side ep) of
            (gone, c') \<Rightarrow> (Ok (), b\<lparr>channels := (channels b)[slot := if gone then None else Some c']\<rparr>)))))"

definition broker_close_owner :: "broker \<Rightarrow> u64 \<Rightarrow> ((ipc_error, unit) outcome \<times> broker) option" where
  "broker_close_owner b owner =
     drain (Suc (table_count (handles b))) (\<lambda>b. first (handles b) owner) (\<lambda>b h. broker_close b owner h) b"

definition broker_transfer ::
  "broker \<Rightarrow> u64 \<Rightarrow> u64 \<Rightarrow> u64 \<Rightarrow> u8 \<Rightarrow> (ipc_error, u64) outcome \<times> broker" where
  "broker_transfer b owner h target rights =
     (case transfer (handles b) owner h target rights of
        (r, t) \<Rightarrow> (map_err ipc_of_handle r, b\<lparr>handles := t\<rparr>))"

definition broker_counts :: "broker \<Rightarrow> nat \<times> nat" where
  "broker_counts b = (length (flatten (channels b)), table_count (handles b))"

definition broker_max_owner_handles :: "broker \<Rightarrow> nat" where
  "broker_max_owner_handles b = max_owner_count (handles b)"

section \<open>The ring is a bounded FIFO\<close>

definition queue_inv :: "queue \<Rightarrow> bool" where
  "queue_inv q \<longleftrightarrow> length (q_messages q) = 2 \<and> q_head q < 2 \<and> q_len q \<le> 2 \<and>
     (\<forall>i<2. (q_messages q ! ((q_head q + i) mod 2) \<noteq> None) = (i < q_len q))"

definition queue_list :: "queue \<Rightarrow> message list" where
  "queue_list q = map (\<lambda>i. the (q_messages q ! ((q_head q + i) mod 2))) [0..<q_len q]"

lemma all_less_2: "(\<forall>i<2. P i) \<longleftrightarrow> P 0 \<and> P (Suc 0)"
  by (auto simp: less_2_cases_iff)

lemma queue_shape:
  assumes "queue_inv q"
  obtains (zero) x where "q = \<lparr>q_messages = [None, None], q_head = x, q_len = 0\<rparr>" "x < 2"
  | (one0) a where "q = \<lparr>q_messages = [Some a, None], q_head = 0, q_len = 1\<rparr>"
  | (one1) a where "q = \<lparr>q_messages = [None, Some a], q_head = 1, q_len = 1\<rparr>"
  | (two0) a b where "q = \<lparr>q_messages = [Some a, Some b], q_head = 0, q_len = 2\<rparr>"
  | (two1) a b where "q = \<lparr>q_messages = [Some b, Some a], q_head = 1, q_len = 2\<rparr>"
proof -
  obtain ms h l where q: "q = \<lparr>q_messages = ms, q_head = h, q_len = l\<rparr>" by (cases q)
  with assms obtain x y where ms: "ms = [x, y]"
    by (auto simp: queue_inv_def length_Suc_conv numeral_2_eq_2)
  have "h = 0 \<or> h = 1" and "l = 0 \<or> l = 1 \<or> l = 2" using assms q by (auto simp: queue_inv_def)
  then show ?thesis
    using assms q ms zero one0 one1 two0 two1
    by (auto simp: queue_inv_def all_less_2)
qed

locale bounded_fifo =
  fixes empty_q :: 'q and push :: "'q \<Rightarrow> 'm \<Rightarrow> ('e, unit) outcome \<times> 'q" and front :: "'q \<Rightarrow> 'm option"
    and pop :: "'q \<Rightarrow> ('e, unit) outcome \<times> 'q" and contents :: "'q \<Rightarrow> 'm list" and ok :: "'q \<Rightarrow> bool"
    and cap :: nat and full :: 'e
  assumes ok_empty: "ok empty_q" and contents_empty: "contents empty_q = []"
    and bounded: "ok q \<Longrightarrow> length (contents q) \<le> cap"
    and push_room: "ok q \<Longrightarrow> length (contents q) < cap \<Longrightarrow>
      \<exists>q'. push q m = (Ok (), q') \<and> ok q' \<and> contents q' = contents q @ [m]"
    and push_full: "ok q \<Longrightarrow> length (contents q) = cap \<Longrightarrow> push q m = (Err full, q)"
    and front_hd: "ok q \<Longrightarrow> front q = (case contents q of [] \<Rightarrow> None | m # ms \<Rightarrow> Some m)"
    and pop_tl: "ok q \<Longrightarrow> contents q \<noteq> [] \<Longrightarrow>
      \<exists>q'. pop q = (Ok (), q') \<and> ok q' \<and> contents q' = tl (contents q)"
begin

lemma push_cases:
  assumes "ok q"
  obtains (accepted) q' where "push q m = (Ok (), q')" "ok q'" "contents q' = contents q @ [m]"
    "length (contents q) < cap"
  | (refused) "push q m = (Err full, q)" "length (contents q) = cap"
  using bounded [OF assms] push_room [OF assms, of m] push_full [OF assms, of m]
  by (cases "length (contents q) < cap") auto

lemma push_keeps:
  assumes "ok q" and "push q m = (r, q')"
  shows "ok q' \<and> r \<noteq> Panic"
  by (rule push_cases [OF assms(1), of m]) (use assms in auto)

lemma front_pop:
  "ok q \<Longrightarrow> front q = Some m \<Longrightarrow> \<exists>q'. pop q = (Ok (), q') \<and> ok q' \<and> contents q = m # contents q'"
  using front_hd [of q] pop_tl [of q] by (auto split: list.splits)

end

interpretation fifo: bounded_fifo queue_new queue_push queue_peek queue_pop queue_list queue_inv 2 IpcWouldBlock
proof (unfold_locales, goal_cases)
  case 1
  show ?case by (simp add: queue_inv_def queue_new_def all_less_2)
next
  case 2
  show ?case by (simp add: queue_list_def queue_new_def)
next
  case (3 q)
  then show ?case by (simp add: queue_list_def queue_inv_def)
next
  case (4 q m)
  from 4(1) show ?case
    by (cases rule: queue_shape)
      (use 4(2) in \<open>auto simp: queue_push_def queue_list_def queue_inv_def all_less_2 less_2_cases_iff upt_rec\<close>)
next
  case (5 q m)
  from 5(1) show ?case
    by (cases rule: queue_shape) (use 5(2) in \<open>auto simp: queue_push_def queue_list_def\<close>)
next
  case (6 q)
  from 6 show ?case
    by (cases rule: queue_shape) (auto simp: queue_peek_def queue_list_def less_2_cases_iff upt_rec)
next
  case (7 q)
  from 7(1) show ?case
    by (cases rule: queue_shape)
      (use 7(2) in \<open>auto simp: queue_pop_def queue_list_def queue_inv_def all_less_2 upt_rec\<close>)
qed

section \<open>Channels keep their shape\<close>

definition channel_inv :: "channel \<Rightarrow> bool" where
  "channel_inv c \<longleftrightarrow> length (chan_open c) = 2 \<and> length (chan_queues c) = 2 \<and>
     (\<forall>q\<in>set (chan_queues c). queue_inv q) \<and> (chan_open c ! 0 \<or> chan_open c ! 1)"

lemma channel_queue_inv: "channel_inv c \<Longrightarrow> side < 2 \<Longrightarrow> queue_inv (chan_queues c ! side)"
  by (simp add: channel_inv_def)

lemma channel_inv_queue_update:
  "channel_inv c \<Longrightarrow> queue_inv q \<Longrightarrow> channel_inv (c\<lparr>chan_queues := (chan_queues c)[side := q]\<rparr>)"
  using set_update_subset_insert [of "chan_queues c" side q] by (auto simp: channel_inv_def)

lemma channel_new_inv [simp]: "channel_inv (channel_new n)"
  by (simp add: channel_inv_def channel_new_def fifo.ok_empty)

lemma channel_new_simps [simp]: "chan_id (channel_new n) = n" "side < 2 \<Longrightarrow> chan_open (channel_new n) ! side"
  by (auto simp: channel_new_def less_2_cases_iff)

lemma channel_send_spec:
  assumes "channel_inv c" and "side < 2" and "channel_send c side m = (r, c')"
  shows "channel_inv c' \<and> r \<noteq> Panic \<and> chan_id c' = chan_id c \<and> chan_open c' = chan_open c"
proof -
  have q: "queue_inv (chan_queues c ! (1 - side))" using assms by (intro channel_queue_inv) auto
  show ?thesis
    using assms fifo.push_keeps [OF q] channel_inv_queue_update [OF assms(1)]
    by (auto simp: channel_send_def split: if_splits prod.splits)
qed

lemma channel_send_delivers:
  assumes "channel_inv c" and "side < 2" and "chan_open c ! (1 - side)"
    and "length (queue_list (chan_queues c ! (1 - side))) < 2"
  obtains c' where "channel_send c side m = (Ok (), c')" "chan_id c' = chan_id c"
    "queue_list (chan_queues c' ! (1 - side)) = queue_list (chan_queues c ! (1 - side)) @ [m]"
    "chan_queues c' ! side = chan_queues c ! side"
proof -
  have q: "queue_inv (chan_queues c ! (1 - side))" using assms by (intro channel_queue_inv) auto
  obtain q' where "queue_push (chan_queues c ! (1 - side)) m = (Ok (), q')"
    "queue_list q' = queue_list (chan_queues c ! (1 - side)) @ [m]"
    using fifo.push_room [OF q assms(4)] by blast
  moreover have "1 - side \<noteq> side" "1 - side < length (chan_queues c)"
    using assms(1,2) by (simp_all add: channel_inv_def) arith
  ultimately show ?thesis using assms(3) that by (auto simp: channel_send_def)
qed

lemma channel_peek_spec:
  assumes "channel_inv c" and "side < 2"
  shows "channel_peek c side = (case queue_list (chan_queues c ! side) of
     [] \<Rightarrow> Err (if chan_open c ! (1 - side) then IpcWouldBlock else IpcClosed) | m # ms \<Rightarrow> Ok m)"
  using fifo.front_hd [OF channel_queue_inv [OF assms]]
  by (auto simp: channel_peek_def split: list.splits)

lemma channel_pop_spec:
  assumes "channel_inv c" and "side < 2" and "channel_peek c side = Ok m"
  obtains c' where "channel_pop c side = (Ok (), c')" "channel_inv c'" "chan_id c' = chan_id c"
    "chan_open c' = chan_open c" "queue_list (chan_queues c ! side) = m # queue_list (chan_queues c' ! side)"
    "chan_queues c' ! (1 - side) = chan_queues c ! (1 - side)"
proof -
  note q = channel_queue_inv [OF assms(1,2)]
  have "queue_peek (chan_queues c ! side) = Some m" using assms(3) by (simp add: channel_peek_def)
  then obtain q' where q': "queue_pop (chan_queues c ! side) = (Ok (), q')" "queue_inv q'"
    "queue_list (chan_queues c ! side) = m # queue_list q'"
    using fifo.front_pop [OF q] by blast
  moreover have "side \<noteq> 1 - side" "side < length (chan_queues c)"
    using assms(1,2) by (simp_all add: channel_inv_def) arith
  ultimately show ?thesis
    using channel_inv_queue_update [OF assms(1) q'(2)] that by (auto simp: channel_pop_def)
qed

lemma channel_close_spec:
  assumes "channel_inv c" and "side < 2" and "channel_close c side = (gone, c')"
  shows "chan_id c' = chan_id c" and "gone \<longleftrightarrow> \<not> chan_open c ! (1 - side)"
    and "\<not> gone \<Longrightarrow> channel_inv c'" and "\<not> chan_open c' ! side"
    and "chan_open c' ! (1 - side) = chan_open c ! (1 - side)"
proof -
  have len: "length (chan_open c) = 2" "length (chan_queues c) = 2" using assms(1) by (auto simp: channel_inv_def)
  have side: "side = 0 \<or> side = 1" using assms(2) by auto
  show "chan_id c' = chan_id c" using assms(3) by (auto simp: channel_close_def Let_def)
  show "gone \<longleftrightarrow> \<not> chan_open c ! (1 - side)" "\<not> chan_open c' ! side"
    "chan_open c' ! (1 - side) = chan_open c ! (1 - side)"
    using assms(3) len side by (auto simp: channel_close_def Let_def)
  have "\<forall>q\<in>set (chan_queues c'). queue_inv q"
    using assms(1,3) set_update_subset_insert [of "chan_queues c" side queue_new] fifo.ok_empty
    by (auto simp: channel_close_def channel_inv_def Let_def)
  then show "channel_inv c'" if "\<not> gone"
    using that assms(3) len by (auto simp: channel_close_def channel_inv_def Let_def)
qed

section \<open>The broker's invariant\<close>

definition open_side :: "broker \<Rightarrow> u64 \<Rightarrow> nat \<Rightarrow> bool" where
  "open_side b ch side \<longleftrightarrow> (\<exists>c\<in>set (flatten (channels b)). chan_id c = ch \<and> chan_open c ! side)"

definition names :: "broker \<Rightarrow> u64 \<Rightarrow> nat \<Rightarrow> bool" where
  "names b ch side \<longleftrightarrow> (\<exists>p h r. view (handles b) (p, h) = Some (\<lparr>ep_channel = ch, ep_side = side\<rparr>, r))"

definition broker_inv :: "broker \<Rightarrow> bool" where
  "broker_inv b \<longleftrightarrow>
     table_inv (handles b) \<and> slot_keys_distinct chan_id (channels b) \<and>
     (\<forall>c\<in>set (flatten (channels b)). channel_inv c \<and> chan_id c < next_channel b) \<and>
     (\<forall>p h ep r. view (handles b) (p, h) = Some (ep, r) \<longrightarrow> ep_side ep < 2) \<and>
     (\<forall>ch side. side < 2 \<longrightarrow> open_side b ch side = names b ch side) \<and>
     (\<forall>p h q g ep r r'. view (handles b) (p, h) = Some (ep, r) \<longrightarrow> view (handles b) (q, g) = Some (ep, r') \<longrightarrow>
        h = g)"

lemma broker_invD:
  assumes "broker_inv b"
  shows "table_inv (handles b)" and "slot_keys_distinct chan_id (channels b)"
    and "\<And>c. c \<in> set (flatten (channels b)) \<Longrightarrow> channel_inv c \<and> chan_id c < next_channel b"
    and "\<And>p h ep r. view (handles b) (p, h) = Some (ep, r) \<Longrightarrow> ep_side ep < 2"
    and "\<And>ch side. side < 2 \<Longrightarrow> open_side b ch side = names b ch side"
    and "\<And>p h q g ep r r'. view (handles b) (p, h) = Some (ep, r) \<Longrightarrow>
           view (handles b) (q, g) = Some (ep, r') \<Longrightarrow> h = g"
  using assms unfolding broker_inv_def by blast+

lemma broker_new_inv [simp]: "broker_inv broker_new"
  by (simp add: broker_inv_def broker_new_def open_side_def names_def)

definition chan_is :: "u64 \<Rightarrow> channel option \<Rightarrow> bool" where
  "chan_is n c \<longleftrightarrow> (case c of None \<Rightarrow> False | Some c \<Rightarrow> chan_id c = n)"

lemma chan_is_simps [simp]: "\<not> chan_is n None" "chan_is n (Some c) \<longleftrightarrow> chan_id c = n"
  by (simp_all add: chan_is_def)

lemma broker_slot_alt: "broker_slot b ep = expect (position (chan_is (ep_channel ep)) (channels b))"
  by (simp add: broker_slot_def chan_is_def [abs_def])

lemma channel_position:
  assumes "slot_keys_distinct chan_id xs" and "i < length xs" and "xs ! i = Some c"
  shows "position (chan_is (chan_id c)) xs = Some i"
proof (rule position_unique)
  show "i < length xs" and "chan_is (chan_id c) (xs ! i)" using assms by simp_all
next
  fix j assume j: "j < length xs" "chan_is (chan_id c) (xs ! j)"
  then obtain d where "xs ! j = Some d" "chan_id d = chan_id c" by (cases "xs ! j") auto
  then show "j = i" using slot_keys_distinctD [OF assms(1) j(1) assms(2) _ assms(3)] by blast
qed

text \<open>Where a handle resolves, the broker finds its channel: none of the lookups can panic.\<close>

lemma endpoint_channel:
  assumes inv: "broker_inv b" and v: "view (handles b) (owner, h) = Some (ep, r)"
  obtains i c where "i < length (channels b)" "channels b ! i = Some c" "chan_id c = ep_channel ep"
    "chan_open c ! ep_side ep" "ep_side ep < 2" "channel_inv c"
    "broker_slot b ep = Ok i"
proof -
  have side: "ep_side ep < 2" using broker_invD(4) [OF inv v] .
  have "names b (ep_channel ep) (ep_side ep)" unfolding names_def
    using v by (metis endpoint.surjective old.unit.exhaust)
  then have "open_side b (ep_channel ep) (ep_side ep)" using broker_invD(5) [OF inv side] by simp
  then obtain c i where c: "i < length (channels b)" "channels b ! i = Some c" "chan_id c = ep_channel ep"
    "chan_open c ! ep_side ep" by (auto simp: open_side_def in_flatten_iff)
  then have "channel_inv c" using broker_invD(3) [OF inv, of c] by (auto simp: in_flatten_iff)
  moreover have "broker_slot b ep = Ok i"
    using c(3) channel_position [OF broker_invD(2) [OF inv] c(1,2)] by (simp add: broker_slot_alt)
  ultimately show ?thesis using that c side by blast
qed

lemma resolve_Ok:
  "broker_inv b \<Longrightarrow> resolve (handles b) owner h right = Ok ep \<Longrightarrow>
   \<exists>r. view (handles b) (owner, h) = Some (ep, r) \<and> r AND right = right"
  using resolve_view [OF inv_keys [OF broker_invD(1)], of b owner h right]
  by (auto split: option.splits prod.splits if_splits)

lemma resolve_not_Panic: "broker_inv b \<Longrightarrow> resolve (handles b) owner h right \<noteq> Panic"
  using resolve_view [OF inv_keys [OF broker_invD(1)], of b owner h right]
  by (auto split: option.splits prod.splits if_splits)

text \<open>Replacing a channel by one with the same identity and the same open sides keeps the invariant.\<close>

lemma broker_inv_channel_update:
  assumes inv: "broker_inv b" and c: "i < length (channels b)" "channels b ! i = Some c"
    and c': "channel_inv c'" "chan_id c' = chan_id c" "chan_open c' = chan_open c"
  shows "broker_inv (b\<lparr>channels := (channels b)[i := Some c']\<rparr>)" (is "broker_inv ?b")
proof -
  have keys: "slot_keys_distinct chan_id (channels b)" using inv by (simp add: broker_inv_def)
  have keys': "slot_keys_distinct chan_id (channels ?b)"
    using slot_keys_distinct_set [OF keys, of i c'] slot_keys_distinctD [OF keys _ c(1) _ c(2)] c'(2)
    by (metis broker.select_convs(1) broker.surjective broker.update_convs(1))
  have set': "set (flatten (channels ?b)) = insert c' {y \<in> set (flatten (channels b)). chan_id y \<noteq> chan_id c}"
    using set_flatten_replace [OF keys c] by simp
  have cin: "c \<in> set (flatten (channels b))" using c by (auto simp: in_flatten_iff)
  have same: "y = c" if "y \<in> set (flatten (channels b))" "chan_id y = chan_id c" for y
    using that slot_keys_distinctD [OF keys _ c(1) _ c(2)] c(2) by (metis in_flatten_iff option.inject)
  have "open_side ?b = open_side b"
    unfolding open_side_def set' using c' cin same by (intro ext) auto
  moreover have "names ?b = names b" by (simp add: names_def fun_eq_iff)
  ultimately show ?thesis
    using broker_invD [OF inv] keys' set' c' cin unfolding broker_inv_def by simp
qed

lemma broker_inv_handles_only:
  "broker_inv b \<Longrightarrow> table_inv t \<Longrightarrow> view t = view (handles b) \<Longrightarrow> broker_inv (b\<lparr>handles := t\<rparr>)"
  unfolding broker_inv_def open_side_def names_def by simp

section \<open>Sending and receiving\<close>

lemma broker_send_cases:
  assumes inv: "broker_inv b" and s: "broker_send b owner h bs = (r, b')"
  obtains (refused) e where "r = Err e" "b' = b"
  | (sent) ep rt m i c c' where "view (handles b) (owner, h) = Some (ep, rt)" "rt AND ipc_write = ipc_write"
      "message_decode bs owner = Ok m" "i < length (channels b)" "channels b ! i = Some c"
      "chan_id c = ep_channel ep" "ep_side ep < 2" "channel_inv c" "channel_send c (ep_side ep) m = (r, c')"
      "b' = b\<lparr>channels := (channels b)[i := Some c']\<rparr>"
proof (cases "resolve (handles b) owner h ipc_write")
  case (Ok ep)
  obtain rt where v: "view (handles b) (owner, h) = Some (ep, rt)" "rt AND ipc_write = ipc_write"
    using resolve_Ok [OF inv Ok] by blast
  show ?thesis
  proof (cases "message_decode bs owner")
    case m: (Ok m)
    obtain i c where c: "i < length (channels b)" "channels b ! i = Some c" "chan_id c = ep_channel ep"
      "ep_side ep < 2" "channel_inv c" "broker_slot b ep = Ok i"
      using endpoint_channel [OF inv v(1)] by metis
    then show ?thesis
      using s Ok m v sent [OF v m c(1-5)] by (auto simp: broker_send_def split: prod.splits)
  next
    case (Err e)
    with s Ok refused show ?thesis by (auto simp: broker_send_def)
  next
    case Panic
    then show ?thesis by (auto simp: message_decode_def Let_def split: if_splits)
  qed
next
  case (Err e)
  with s refused show ?thesis by (auto simp: broker_send_def)
next
  case Panic
  with resolve_not_Panic [OF inv] show ?thesis by blast
qed

lemma broker_send_inv:
  assumes inv: "broker_inv b" and s: "broker_send b owner h bs = (r, b')"
  shows "broker_inv b' \<and> r \<noteq> Panic"
  using inv s
proof (cases rule: broker_send_cases)
  case (sent ep rt m i c c')
  then show ?thesis
    using broker_inv_channel_update [OF inv sent(4,5)] channel_send_spec [OF sent(8,7,9)] by simp
qed (use inv in auto)

lemma broker_peek_spec:
  assumes inv: "broker_inv b"
  shows "broker_peek b owner h \<noteq> Panic"
    and "broker_peek b owner h = Ok m \<Longrightarrow> \<exists>ep rt i c. view (handles b) (owner, h) = Some (ep, rt) \<and>
      rt AND ipc_read = ipc_read \<and> i < length (channels b) \<and> channels b ! i = Some c \<and>
      chan_id c = ep_channel ep \<and> ep_side ep < 2 \<and> channel_inv c \<and> broker_slot b ep = Ok i \<and>
      channel_peek c (ep_side ep) = Ok m"
proof -
  have main: "broker_peek b owner h \<noteq> Panic \<and> (broker_peek b owner h = Ok m \<longrightarrow>
     (\<exists>ep rt i c. view (handles b) (owner, h) = Some (ep, rt) \<and>
      rt AND ipc_read = ipc_read \<and> i < length (channels b) \<and> channels b ! i = Some c \<and>
      chan_id c = ep_channel ep \<and> ep_side ep < 2 \<and> channel_inv c \<and> broker_slot b ep = Ok i \<and>
      channel_peek c (ep_side ep) = Ok m))"
  proof (cases "resolve (handles b) owner h ipc_read")
    case (Ok ep)
    obtain rt where v: "view (handles b) (owner, h) = Some (ep, rt)" "rt AND ipc_read = ipc_read"
      using resolve_Ok [OF inv Ok] by blast
    obtain i c where c: "i < length (channels b)" "channels b ! i = Some c" "chan_id c = ep_channel ep"
      "ep_side ep < 2" "channel_inv c" "broker_slot b ep = Ok i"
      using endpoint_channel [OF inv v(1)] by metis
    then have "broker_peek b owner h = channel_peek c (ep_side ep)" using Ok by (simp add: broker_peek_def)
    moreover have "channel_peek c (ep_side ep) \<noteq> Panic" by (simp add: channel_peek_def)
    ultimately show ?thesis using v c by auto
  qed (use resolve_not_Panic [OF inv] in \<open>auto simp: broker_peek_def\<close>)
  then show "broker_peek b owner h \<noteq> Panic" by blast
  show "broker_peek b owner h = Ok m \<Longrightarrow> \<exists>ep rt i c. view (handles b) (owner, h) = Some (ep, rt) \<and>
      rt AND ipc_read = ipc_read \<and> i < length (channels b) \<and> channels b ! i = Some c \<and>
      chan_id c = ep_channel ep \<and> ep_side ep < 2 \<and> channel_inv c \<and> broker_slot b ep = Ok i \<and>
      channel_peek c (ep_side ep) = Ok m"
    using main by blast
qed

lemma broker_consume_eq:
  assumes inv: "broker_inv b"
  shows "(\<exists>m. broker_peek b owner h = Ok m) \<or>
    (\<exists>e. broker_peek b owner h = Err e \<and> broker_consume b owner h = (Err e, b))"
proof (cases "resolve (handles b) owner h ipc_read")
  case (Ok ep)
  obtain rt where v: "view (handles b) (owner, h) = Some (ep, rt)"
    using resolve_Ok [OF inv Ok] by blast
  obtain i c where c: "channels b ! i = Some c" "broker_slot b ep = Ok i"
    using endpoint_channel [OF inv v] by metis
  then show ?thesis
    using Ok by (cases "channel_peek c (ep_side ep)")
      (auto simp: broker_peek_def broker_consume_def channel_peek_def)
qed (use resolve_not_Panic [OF inv] in \<open>auto simp: broker_peek_def broker_consume_def\<close>)

lemma broker_consume_Ok:
  assumes inv: "broker_inv b" and p: "broker_peek b owner h = Ok m"
  obtains ep rt i c c' where "view (handles b) (owner, h) = Some (ep, rt)" "i < length (channels b)"
    "channels b ! i = Some c" "chan_id c = ep_channel ep" "ep_side ep < 2" "channel_inv c"
    "broker_consume b owner h = (Ok (), b\<lparr>channels := (channels b)[i := Some c']\<rparr>)"
    "channel_inv c'" "chan_id c' = chan_id c" "chan_open c' = chan_open c"
    "queue_list (chan_queues c ! ep_side ep) = m # queue_list (chan_queues c' ! ep_side ep)"
    "chan_queues c' ! (1 - ep_side ep) = chan_queues c ! (1 - ep_side ep)"
proof -
  obtain ep rt i c where c: "view (handles b) (owner, h) = Some (ep, rt)" "rt AND ipc_read = ipc_read"
    "i < length (channels b)" "channels b ! i = Some c" "chan_id c = ep_channel ep" "ep_side ep < 2"
    "channel_inv c" "broker_slot b ep = Ok i" "channel_peek c (ep_side ep) = Ok m"
    using broker_peek_spec(2) [OF inv p] by blast
  obtain c' where c': "channel_pop c (ep_side ep) = (Ok (), c')" "channel_inv c'" "chan_id c' = chan_id c"
    "chan_open c' = chan_open c" "queue_list (chan_queues c ! ep_side ep) = m # queue_list (chan_queues c' ! ep_side ep)"
    "chan_queues c' ! (1 - ep_side ep) = chan_queues c ! (1 - ep_side ep)"
    using channel_pop_spec [OF c(7,6,9)] by metis
  have "resolve (handles b) owner h ipc_read = Ok ep"
    using c(1,2) resolve_view [OF inv_keys [OF broker_invD(1) [OF inv]]] by simp
  then have "broker_consume b owner h = (Ok (), b\<lparr>channels := (channels b)[i := Some c']\<rparr>)"
    using c c' by (simp add: broker_consume_def)
  then show ?thesis using that c c' by metis
qed

lemma broker_consume_inv:
  assumes inv: "broker_inv b" and s: "broker_consume b owner h = (r, b')"
  shows "broker_inv b' \<and> r \<noteq> Panic"
  using broker_consume_eq [OF inv, of owner h]
proof
  assume "\<exists>m. broker_peek b owner h = Ok m"
  then obtain m where "broker_peek b owner h = Ok m" by blast
  from broker_consume_Ok [OF inv this] show ?thesis
    using s broker_inv_channel_update [OF inv] by (metis outcome.distinct(3) prod.inject)
qed (use s inv in auto)

section \<open>Closing\<close>

lemma names_eq: "view (handles b') = view (handles b) \<Longrightarrow> names b' = names b"
  by (simp add: names_def fun_eq_iff)

lemma endpoint_collapse [simp]: "\<lparr>ep_channel = ep_channel ep, ep_side = ep_side ep\<rparr> = ep"
  by (cases ep) simp

lemma names_remove:
  assumes inv: "broker_inv b" and v: "view (handles b) (owner, h) = Some (ep, r)"
    and v': "view (handles b') = (view (handles b))((owner, h) := None)"
  shows "names b' ch side \<longleftrightarrow> names b ch side \<and> (ch, side) \<noteq> (ep_channel ep, ep_side ep)"
proof (cases "(ch, side) = (ep_channel ep, ep_side ep)")
  case True
  have "p = owner \<and> g = h" if "view (handles b) (p, g) = Some (ep, r')" for p g r'
  proof -
    have "g = h" using broker_invD(6) [OF inv that v] .
    then show ?thesis using view_owner [OF broker_invD(1) [OF inv] _ v, of p] that by blast
  qed
  then show ?thesis using True unfolding names_def v' by (auto split: if_splits)
next
  case False
  then have ne: "\<lparr>ep_channel = ch, ep_side = side\<rparr> \<noteq> ep" by auto
  have "view (handles b') k = Some (e, r') \<longleftrightarrow> view (handles b) k = Some (e, r')" if "e \<noteq> ep" for k e r'
    using that v v' by auto
  then have "names b' ch side \<longleftrightarrow> names b ch side" unfolding names_def using ne by simp
  then show ?thesis using False by simp
qed

lemma open_side_update:
  assumes keys: "slot_keys_distinct chan_id (channels b)" and c: "i < length (channels b)" "channels b ! i = Some c"
    and b': "channels b' = (channels b)[i := x]" and x: "x = None \<or> (\<exists>c'. x = Some c' \<and> chan_id c' = chan_id c)"
  shows "open_side b' ch side \<longleftrightarrow> (if ch = chan_id c then (case x of None \<Rightarrow> False | Some c' \<Rightarrow> chan_open c' ! side)
    else open_side b ch side)"
proof (cases x)
  case None
  then show ?thesis unfolding open_side_def b' using set_flatten_clear [OF keys c] by auto
next
  case (Some c')
  then show ?thesis unfolding open_side_def b' using set_flatten_replace [OF keys c, of c'] x by auto
qed

lemma open_side_self:
  assumes keys: "slot_keys_distinct chan_id (channels b)" and c: "i < length (channels b)" "channels b ! i = Some c"
  shows "open_side b (chan_id c) side \<longleftrightarrow> chan_open c ! side"
proof -
  have "c \<in> set (flatten (channels b))" using c by (auto simp: in_flatten_iff)
  moreover have "d = c" if "d \<in> set (flatten (channels b))" "chan_id d = chan_id c" for d
    using that slot_keys_distinctD [OF keys _ c(1) _ c(2)] c(2) by (metis in_flatten_iff option.inject)
  ultimately show ?thesis by (auto simp: open_side_def)
qed

lemma broker_close_Ok:
  assumes inv: "broker_inv b" and v: "view (handles b) (owner, h) = Some (ep, r)"
  obtains b' where "broker_close b owner h = (Ok (), b')" "broker_inv b'"
    "view (handles b') = (view (handles b))((owner, h) := None)"
    "Suc (table_count (handles b')) = table_count (handles b)" "next_channel b' = next_channel b"
proof -
  obtain t where t: "remove (handles b) owner h = (Ok ep, t)" "view t = (view (handles b))((owner, h) := None)"
    using view_remove [OF broker_invD(1) [OF inv] v] by blast
  obtain i c where c: "i < length (channels b)" "channels b ! i = Some c" "chan_id c = ep_channel ep"
    "chan_open c ! ep_side ep" "ep_side ep < 2" "channel_inv c"
    "broker_slot b ep = Ok i"
    by (rule endpoint_channel [OF inv v])
  then have slot: "broker_slot (b\<lparr>handles := t\<rparr>) ep = Ok i" by (simp add: broker_slot_alt)
  obtain gone c' where cc: "channel_close c (ep_side ep) = (gone, c')" by fastforce
  note cs = channel_close_spec [OF c(6,5) cc]
  let ?x = "if gone then None else Some c'"
  let ?b = "b\<lparr>handles := t, channels := (channels b)[i := ?x]\<rparr>"
  note keys = broker_invD(2) [OF inv]
  have close: "broker_close b owner h = (Ok (), ?b)"
    using t(1) slot c(2) cc by (simp add: broker_close_def Let_def)
  have os: "open_side ?b ch side \<longleftrightarrow> open_side b ch side \<and> (ch, side) \<noteq> (ep_channel ep, ep_side ep)"
    if "side < 2" for ch side
  proof -
    have "side = ep_side ep \<or> side = 1 - ep_side ep" using that c(5) by auto
    then show ?thesis
      using open_side_update [OF keys c(1,2), of ?b ?x ch side] open_side_self [OF keys c(1,2), of side] cs c(3-5)
      by (auto split: if_splits)
  qed
  have keys': "slot_keys_distinct chan_id (channels ?b)"
  proof (cases gone)
    case True
    then show ?thesis using slot_keys_distinct_clear [OF keys] by simp
  next
    case False
    then show ?thesis
      using slot_keys_distinct_set [OF keys, of i c'] slot_keys_distinctD [OF keys _ c(1) _ c(2)] cs(1) by fastforce
  qed
  have cin: "c \<in> set (flatten (channels b))" using c(1,2) by (auto simp: in_flatten_iff)
  have "channel_inv d \<and> chan_id d < next_channel b" if "d \<in> set (flatten (channels ?b))" for d
    using that broker_invD(3) [OF inv] set_flatten_clear [OF keys c(1,2)] set_flatten_replace [OF keys c(1,2), of c']
      cs(1,3) cin by (auto split: if_splits)
  moreover have "names ?b ch side \<longleftrightarrow> names b ch side \<and> (ch, side) \<noteq> (ep_channel ep, ep_side ep)" for ch side
    using names_remove [OF inv v, of ?b] t(2) by simp
  ultimately have "broker_inv ?b"
    unfolding broker_inv_def using os keys' broker_invD [OF inv] remove_inv [OF broker_invD(1) [OF inv] t(1)] t(2)
    by (auto split: if_splits)
  then show ?thesis
    using that [OF close] t(2) remove_count [OF broker_invD(1) [OF inv] t(1)] by simp
qed

lemma broker_close_error:
  assumes inv: "broker_inv b" and v: "view (handles b) (owner, h) = None"
  shows "broker_close b owner h = (Err IpcHandle, b)"
proof -
  obtain r t where rm: "remove (handles b) owner h = (r, t)" by fastforce
  moreover have "r \<noteq> Ok x" for x using remove_view(1) [OF broker_invD(1) [OF inv]] rm v by fastforce
  ultimately have "r = Err HdlHandle \<and> t = handles b"
    using remove_error [OF broker_invD(1) [OF inv] rm] by blast
  then show ?thesis using rm by (simp add: broker_close_def)
qed

lemma broker_close_inv:
  assumes inv: "broker_inv b" and cl: "broker_close b owner h = (r, b')"
  shows "broker_inv b' \<and> r \<noteq> Panic"
proof (cases "view (handles b) (owner, h)")
  case None
  with broker_close_error [OF inv None] cl inv show ?thesis by auto
next
  case (Some y)
  obtain ep rt where "view (handles b) (owner, h) = Some (ep, rt)" using Some by (cases y) auto
  from broker_close_Ok [OF inv this] cl show ?thesis by (metis outcome.distinct(3) prod.inject)
qed

interpretation ipc_drain: owner_drain "\<lambda>b. first (handles b) owner" "\<lambda>b h. broker_close b owner h"
    "\<lambda>b. table_count (handles b)" broker_inv for owner
proof unfold_locales
  fix b h
  assume inv: "broker_inv b" and "first (handles b) owner = Some h"
  then obtain ep r where "view (handles b) (owner, h) = Some (ep, r)"
    using first_Some [OF broker_invD(1) [OF inv]] by blast
  from broker_close_Ok [OF inv this]
  show "\<exists>b'. broker_close b owner h = (Ok (), b') \<and> broker_inv b' \<and>
      table_count (handles b') < table_count (handles b)"
    by (metis lessI)
qed

section \<open>Connecting and transferring\<close>

lemma names_insert:
  assumes "view (handles b') = (view (handles b))((p, h) \<mapsto> (ep, r))" and "view (handles b) (p, h) = None"
  shows "names b' ch side \<longleftrightarrow> names b ch side \<or> (ch, side) = (ep_channel ep, ep_side ep)"
proof -
  have "(\<exists>q g r'. view (handles b') (q, g) = Some (e, r')) \<longleftrightarrow>
      (\<exists>q g r'. view (handles b) (q, g) = Some (e, r')) \<or> e = ep" for e
  proof
    assume "\<exists>q g r'. view (handles b') (q, g) = Some (e, r')"
    then show "(\<exists>q g r'. view (handles b) (q, g) = Some (e, r')) \<or> e = ep"
      using assms(1) by (auto split: if_splits)
  next
    assume "(\<exists>q g r'. view (handles b) (q, g) = Some (e, r')) \<or> e = ep"
    then show "\<exists>q g r'. view (handles b') (q, g) = Some (e, r')"
    proof
      assume "\<exists>q g r'. view (handles b) (q, g) = Some (e, r')"
      then obtain q g r' where "view (handles b) (q, g) = Some (e, r')" by blast
      then have "view (handles b') (q, g) = Some (e, r')" using assms by auto
      then show ?thesis by blast
    qed (use assms(1) in auto)
  qed
  then show ?thesis unfolding names_def by (cases ep) auto
qed

lemma fresh_view_None: "table_inv t \<Longrightarrow> h \<notin> issued t \<Longrightarrow> view t (p, h) = None"
  using view_issued [of t p h] by (cases "view t (p, h)") auto

lemma broker_connect_cases:
  assumes inv: "broker_inv b" and c: "broker_connect b p q = (r, b')"
  obtains (refused) e t where "r = Err e" "b' = b\<lparr>handles := t\<rparr>" "table_inv t" "view t = view (handles b)"
  | (connected) slot h1 h2 t1 t2 where "r = Ok (h1, h2)" "slot < length (channels b)" "channels b ! slot = None"
      "checked_add (next_channel b) 1 = Some (next_channel b + 1)"
      "grant (handles b) p \<lparr>ep_channel = next_channel b, ep_side = 0\<rparr> ipc_all = (Ok h1, t1)"
      "grant t1 q \<lparr>ep_channel = next_channel b, ep_side = 1\<rparr> ipc_all = (Ok h2, t2)"
      "b' = b\<lparr>handles := t2, channels := (channels b)[slot := Some (channel_new (next_channel b))],
              next_channel := next_channel b + 1\<rparr>"
proof -
  note tinv = broker_invD(1) [OF inv]
  show ?thesis
  proof (cases "position (\<lambda>c. c = None) (channels b) = None \<or> checked_add (next_channel b) 1 = None")
    case True
    with c have "(\<exists>e. r = Err e) \<and> b' = b"
      by (cases "position (\<lambda>c. c = None) (channels b)") (auto simp: broker_connect_def)
    then show ?thesis using refused [of _ "handles b"] tinv by auto
  next
    case False
    then obtain slot nn where sl: "position (\<lambda>c. c = None) (channels b) = Some slot"
      and nx: "checked_add (next_channel b) 1 = Some nn" by auto
    obtain r1 t1 where g1: "grant (handles b) p \<lparr>ep_channel = next_channel b, ep_side = 0\<rparr> ipc_all = (r1, t1)"
      by fastforce
    show ?thesis
    proof (cases "\<exists>h1. r1 = Ok h1")
      case no: False
      then have "(\<exists>e. r1 = Err e) \<and> t1 = handles b" using grant_error [OF g1] by blast
      then show ?thesis using c sl nx g1 refused [of _ "handles b"] tinv by (auto simp: broker_connect_def)
    next
      case True
      then obtain h1 where h1: "grant (handles b) p \<lparr>ep_channel = next_channel b, ep_side = 0\<rparr> ipc_all = (Ok h1, t1)"
        using g1 by auto
      have inv1: "table_inv t1" by (rule grant_inv [OF tinv g1])
      obtain r2 t2 where g2: "grant t1 q \<lparr>ep_channel = next_channel b, ep_side = 1\<rparr> ipc_all = (r2, t2)"
        by fastforce
      show ?thesis
      proof (cases "\<exists>h2. r2 = Ok h2")
        case no: False
        then obtain e where e: "r2 = Err e" "t2 = t1" using grant_error [OF g2] by blast
        obtain x t3 where t3: "remove t1 p h1 = (Ok x, t3)" "view t3 = view (handles b)"
          using ht.grant_then_remove [OF tinv h1] by blast
        have "r = Err (ipc_of_handle e) \<and> b' = b\<lparr>handles := t3\<rparr>"
          using c sl nx h1 g2 e t3 by (simp add: broker_connect_def)
        then show ?thesis using refused [of _ t3] t3 remove_inv [OF inv1 t3(1)] by blast
      next
        case yes: True
        then obtain h2 where "r2 = Ok h2" by blast
        then show ?thesis
          using connected [of h1 h2 slot t1 t2] c sl nx h1 g2 positionD [OF sl] checked_add_Some_iff [of "next_channel b" 1 nn]
          by (simp add: broker_connect_def)
      qed
    qed
  qed
qed

lemma broker_connect_inv:
  assumes inv: "broker_inv b" and c: "broker_connect b p q = (r, b')"
  shows "broker_inv b' \<and> r \<noteq> Panic"
  using inv c
proof (cases rule: broker_connect_cases)
  case (refused e t)
  then show ?thesis using broker_inv_handles_only [OF inv refused(3,4)] by simp
next
  case (connected slot h1 h2 t1 t2)
  note tinv = broker_invD(1) [OF inv] and keys = broker_invD(2) [OF inv]
  let ?n = "next_channel b"
  let ?c = "channel_new ?n"
  have inv1: "table_inv t1" by (rule grant_inv [OF tinv connected(5)])
  have inv2: "table_inv t2" by (rule grant_inv [OF inv1 connected(6)])
  have v1: "view t1 = (view (handles b))((p, h1) \<mapsto> (\<lparr>ep_channel = ?n, ep_side = 0\<rparr>, ipc_all))"
    and f1: "h1 \<notin> issued (handles b)" "issued t1 = insert h1 (issued (handles b))"
    using grant_view [OF tinv connected(5)] grant_fresh [OF tinv connected(5)] by simp_all
  have v2: "view t2 = (view t1)((q, h2) \<mapsto> (\<lparr>ep_channel = ?n, ep_side = 1\<rparr>, ipc_all))"
    and f2: "h2 \<notin> issued t1"
    using grant_view [OF inv1 connected(6)] grant_fresh [OF inv1 connected(6)] by simp_all
  have old: "d \<noteq> ?c \<and> chan_id d \<noteq> ?n" if "d \<in> set (flatten (channels b))" for d
    using broker_invD(3) [OF inv that] by auto
  have less: "?n < ?n + 1" "\<And>m. m < ?n \<Longrightarrow> m < ?n + 1"
    using checked_add_Some_unat [OF connected(4)] by (auto simp: word_less_nat_alt)
  have keys': "slot_keys_distinct chan_id (channels b')"
    using slot_keys_distinct_set [OF keys, of slot ?c] old connected(7)
    by (force simp: in_flatten_iff)
  have chans: "set (flatten (channels b')) = insert ?c (set (flatten (channels b)))"
    using set_flatten_fill [OF connected(2,3)] connected(7) by simp
  have os: "open_side b' ch side \<longleftrightarrow> open_side b ch side \<or> ch = ?n" if "side < 2" for ch side
    using that unfolding open_side_def chans by auto
  have no_name: "ep_channel ep \<noteq> ?n" if "view (handles b) (u1, g) = Some (ep, rt)" for u1 g ep rt
    using endpoint_channel [OF inv that] broker_invD(3) [OF inv] by (metis in_flatten_iff less_irrefl)
  have nm: "names b' ch side \<longleftrightarrow> names b ch side \<or> ch = ?n" if "side < 2" for ch side
  proof -
    have "names b' ch side \<longleftrightarrow> names (b\<lparr>handles := t1\<rparr>) ch side \<or> (ch, side) = (?n, 1)"
      using names_insert [of b' "b\<lparr>handles := t1\<rparr>" q h2 "\<lparr>ep_channel = ?n, ep_side = 1\<rparr>" ipc_all ch side]
        v2 fresh_view_None [OF inv1 f2] connected(7) by simp
    moreover have "names (b\<lparr>handles := t1\<rparr>) ch side \<longleftrightarrow> names b ch side \<or> (ch, side) = (?n, 0)"
      using names_insert [of "b\<lparr>handles := t1\<rparr>" b p h1 "\<lparr>ep_channel = ?n, ep_side = 0\<rparr>" ipc_all ch side]
        v1 fresh_view_None [OF tinv f1(1)] by simp
    ultimately show ?thesis using that by (auto simp: less_2_cases_iff)
  qed
  have view': "view (handles b') (u1, g) = Some (ep, rt) \<longleftrightarrow>
      (u1, g, ep, rt) = (q, h2, \<lparr>ep_channel = ?n, ep_side = 1\<rparr>, ipc_all) \<or>
      (u1, g, ep, rt) = (p, h1, \<lparr>ep_channel = ?n, ep_side = 0\<rparr>, ipc_all) \<or>
      view (handles b) (u1, g) = Some (ep, rt)" for u1 g ep rt
    using v1 v2 connected(7) fresh_view_None [OF inv1 f2, of q] fresh_view_None [OF tinv f1(1), of p] f1 f2
    by auto
  have uniq: "g = g'" if "view (handles b') (u1, g) = Some (ep, rt)" "view (handles b') (u2, g') = Some (ep, rt')"
    for u1 g u2 g' ep rt rt'
    using that no_name broker_invD(6) [OF inv] unfolding view' by fastforce
  have "ep_side ep < 2" if "view (handles b') (u1, g) = Some (ep, rt)" for u1 g ep rt
    using that broker_invD(4) [OF inv] unfolding view' by auto
  moreover have "channel_inv d \<and> chan_id d < next_channel b'" if "d \<in> set (flatten (channels b'))" for d
    using that broker_invD(3) [OF inv] less connected(7) unfolding chans by auto
  ultimately have "broker_inv b'"
    unfolding broker_inv_def using keys' os nm uniq inv2 connected(7) broker_invD(5) [OF inv] by simp
  then show ?thesis using connected(1) by simp
qed

lemma broker_transfer_inv:
  assumes inv: "broker_inv b" and t: "broker_transfer b owner h target rights = (r, b')"
  shows "broker_inv b' \<and> r \<noteq> Panic"
proof -
  note tinv = broker_invD(1) [OF inv]
  obtain r0 t where tr: "transfer (handles b) owner h target rights = (r0, t)" by fastforce
  then have b': "b' = b\<lparr>handles := t\<rparr>" and r: "r = map_err ipc_of_handle r0"
    using t by (auto simp: broker_transfer_def)
  have tinv': "table_inv t" by (rule transfer_inv [OF tinv tr])
  show ?thesis
  proof (cases "\<exists>h'. r0 = Ok h'")
    case False
    then show ?thesis using transfer_error [OF tinv tr] inv b' r by auto
  next
    case True
    then obtain h' where "transfer (handles b) owner h target rights = (Ok h', t)" using tr by auto
    from transfer_view [OF tinv this] obtain ep old where v: "view (handles b) (owner, h) = Some (ep, old)"
      and v': "view t = ((view (handles b))((owner, h) := None))((target, h') \<mapsto> (ep, rights))"
      and fresh: "h' \<notin> issued (handles b)" by blast
    have new: "view (handles b) (u1, h') = None" for u1 using fresh_view_None [OF tinv fresh] .
    have nm: "names b' ch side \<longleftrightarrow> names b ch side" for ch side
    proof -
      show ?thesis
      proof (cases "\<lparr>ep_channel = ch, ep_side = side\<rparr> = ep")
        case True
        then show ?thesis unfolding names_def b' using v v' by auto
      next
        case False
        then have "view t k = Some (\<lparr>ep_channel = ch, ep_side = side\<rparr>, r') \<longleftrightarrow>
            view (handles b) k = Some (\<lparr>ep_channel = ch, ep_side = side\<rparr>, r')" for k r'
          using v v' new by (cases k) auto
        then show ?thesis unfolding names_def b' by simp
      qed
    qed
    have origin: "\<exists>u2 g2 r2. view (handles b) (u2, g2) = Some (e, r2) \<and> (g = g2 \<or> g = h' \<and> g2 = h)"
      if "view t (u1, g) = Some (e, r')" for u1 g e r'
      using that v v' by (auto split: if_splits)
    have uniq: "g = g'" if "view t (u1, g) = Some (e, r')" "view t (u2, g') = Some (e, r2)" for u1 g u2 g' e r' r2
    proof (cases "e = ep")
      case True
      then have "g = h'" "g' = h'"
        using that broker_invD(6) [OF inv _ v] view_owner [OF tinv _ v] v' by (auto split: if_splits)
      then show ?thesis by simp
    next
      case False
      then have "view (handles b) (u1, g) = Some (e, r')" "view (handles b) (u2, g') = Some (e, r2)"
        using that v' by (auto split: if_splits)
      then show ?thesis using broker_invD(6) [OF inv] by blast
    qed
    have "ep_side e < 2" if "view t (u1, g) = Some (e, r')" for u1 g e r'
      using origin [OF that] broker_invD(4) [OF inv] by blast
    moreover have "open_side b' = open_side b" by (simp add: b' open_side_def fun_eq_iff)
    ultimately have "broker_inv b'"
      unfolding broker_inv_def using uniq tinv' nm broker_invD(2,3,5) [OF inv] b' by simp
    then show ?thesis using True r by auto
  qed
qed

section \<open>The messages waiting at each endpoint\<close>

text \<open>The abstract state of the broker: which messages, oldest first, wait at each side of each channel.\<close>

definition inbox :: "broker \<Rightarrow> u64 \<times> nat \<Rightarrow> message list option" where
  "inbox b = (\<lambda>(ch, side). case find (\<lambda>c. chan_id c = ch) (flatten (channels b)) of
     None \<Rightarrow> None
   | Some c \<Rightarrow> if side < 2 then Some (queue_list (chan_queues c ! side)) else None)"

lemma find_channel:
  assumes keys: "slot_keys_distinct chan_id xs" and "c \<in> set (flatten xs)"
  shows "find (\<lambda>d. chan_id d = chan_id c) (flatten xs) = Some c"
proof (cases "find (\<lambda>d. chan_id d = chan_id c) (flatten xs)")
  case None
  then show ?thesis using assms(2) by (auto simp: find_None_iff)
next
  case (Some d)
  then have "d \<in> set (flatten xs)" "chan_id d = chan_id c" by (auto simp: find_Some_iff in_set_conv_nth)
  then have "d = c" using assms slot_keys_distinctD [OF keys] by (metis in_flatten_iff option.inject)
  then show ?thesis using Some by simp
qed

lemma inbox_at:
  "slot_keys_distinct chan_id (channels b) \<Longrightarrow> i < length (channels b) \<Longrightarrow> channels b ! i = Some c \<Longrightarrow>
   side < 2 \<Longrightarrow> inbox b (chan_id c, side) = Some (queue_list (chan_queues c ! side))"
  by (subgoal_tac "c \<in> set (flatten (channels b))") (simp add: inbox_def find_channel, auto simp: in_flatten_iff)

lemma find_other:
  assumes "i < length xs" and "xs ! i = Some c" and "chan_id c' = chan_id c" and "ch \<noteq> chan_id c"
  shows "find (\<lambda>d. chan_id d = ch) (flatten (xs[i := Some c'])) = find (\<lambda>d. chan_id d = ch) (flatten xs)"
  using assms
proof (induction xs arbitrary: i)
  case (Cons x xs)
  then show ?case by (cases i; cases x) (auto simp: flatten_def)
qed simp

lemma inbox_update:
  assumes inv: "broker_inv b" and c: "i < length (channels b)" "channels b ! i = Some c" and side: "side < 2"
    and c': "channel_inv c'" "chan_id c' = chan_id c" "chan_open c' = chan_open c"
    and other: "chan_queues c' ! (1 - side) = chan_queues c ! (1 - side)"
  shows "inbox (b\<lparr>channels := (channels b)[i := Some c']\<rparr>) =
    (inbox b)((chan_id c, side) \<mapsto> queue_list (chan_queues c' ! side))" (is "inbox ?b = _")
proof
  fix k :: "u64 \<times> nat"
  obtain ch s where k: "k = (ch, s)" by (cases k)
  have inv': "broker_inv ?b" by (rule broker_inv_channel_update [OF inv c c'])
  show "inbox ?b k = ((inbox b)((chan_id c, side) \<mapsto> queue_list (chan_queues c' ! side))) k"
  proof (cases "ch = chan_id c \<and> s < 2")
    case True
    then have "s = side \<or> s = 1 - side" using side by auto
    then show ?thesis
      using True k other c c' inbox_at [OF broker_invD(2) [OF inv'], of i c' s] inbox_at [OF broker_invD(2) [OF inv] c, of s]
      by auto
  next
    case False
    then show ?thesis
      using k side c c'(2) find_other [OF c c'(2), of ch] by (auto simp: inbox_def split: option.splits)
  qed
qed

lemma send_refines:
  assumes inv: "broker_inv b" and v: "view (handles b) (owner, h) = Some (\<lparr>ep_channel = ch, ep_side = side\<rparr>, rt)"
    and w: "rt AND ipc_write = ipc_write" and m: "message_decode bs owner = Ok m"
  obtains ms where "inbox b (ch, 1 - side) = Some ms"
    "\<not> open_side b ch (1 - side) \<Longrightarrow> broker_send b owner h bs = (Err IpcClosed, b)"
    "open_side b ch (1 - side) \<Longrightarrow> length ms = 2 \<Longrightarrow> broker_send b owner h bs = (Err IpcWouldBlock, b)"
    "open_side b ch (1 - side) \<Longrightarrow> length ms < 2 \<Longrightarrow> fst (broker_send b owner h bs) = Ok () \<and>
       inbox (snd (broker_send b owner h bs)) = (inbox b)((ch, 1 - side) \<mapsto> ms @ [m])"
    "length ms \<le> 2" "handles (snd (broker_send b owner h bs)) = handles b"
    "next_channel (snd (broker_send b owner h bs)) = next_channel b"
    "map (map_option (chan_queues_update (\<lambda>_. []))) (channels (snd (broker_send b owner h bs))) =
       map (map_option (chan_queues_update (\<lambda>_. []))) (channels b)"
proof -
  obtain i c where c: "i < length (channels b)" "channels b ! i = Some c" "chan_id c = ch" "side < 2"
    "channel_inv c" "broker_slot b \<lparr>ep_channel = ch, ep_side = side\<rparr> = Ok i"
    using endpoint_channel [OF inv v] by (metis endpoint.select_convs)
  have res: "resolve (handles b) owner h ipc_write = Ok \<lparr>ep_channel = ch, ep_side = side\<rparr>"
    using v w resolve_view [OF inv_keys [OF broker_invD(1) [OF inv]]] by simp
  let ?ms = "queue_list (chan_queues c ! (1 - side))"
  note keys = broker_invD(2) [OF inv]
  have q: "queue_inv (chan_queues c ! (1 - side))" using c by (intro channel_queue_inv) auto
  obtain r c' where s: "channel_send c side m = (r, c')" by fastforce
  have send: "broker_send b owner h bs = (r, b\<lparr>channels := (channels b)[i := Some c']\<rparr>)"
    using res m c s by (simp add: broker_send_def)
  have os: "open_side b ch (1 - side) \<longleftrightarrow> chan_open c ! (1 - side)"
    using open_side_self [OF keys c(1,2), of "1 - side"] c(3) by simp
  have same: "b\<lparr>channels := (channels b)[i := Some c]\<rparr> = b" using c(1,2) by (simp add: list_update_same_conv)
  have ib: "inbox b (ch, 1 - side) = Some ?ms" using inbox_at [OF keys c(1,2), of "1 - side"] c(3) by simp
  have closed: "r = Err IpcClosed \<and> c' = c" if "\<not> chan_open c ! (1 - side)"
    using s that by (simp add: channel_send_def)
  have full: "r = Err IpcWouldBlock \<and> c' = c" if "chan_open c ! (1 - side)" "length ?ms = 2"
    using s that fifo.push_full [OF q] by (auto simp: channel_send_def)
  have delivered: "r = Ok () \<and> inbox (b\<lparr>channels := (channels b)[i := Some c']\<rparr>) = (inbox b)((ch, 1 - side) \<mapsto> ?ms @ [m])"
    if room: "chan_open c ! (1 - side)" "length ?ms < 2"
  proof -
    obtain d where d: "channel_send c side m = (Ok (), d)" "chan_id d = chan_id c"
      "queue_list (chan_queues d ! (1 - side)) = ?ms @ [m]" "chan_queues d ! side = chan_queues c ! side"
      using channel_send_delivers [OF c(5,4) room] by metis
    have "1 - (1 - side) = side" using c(4) by arith
    then show ?thesis
      using d s c(3) inbox_update [OF inv c(1,2), of "1 - side" d] channel_send_spec [OF c(5,4) d(1)] by simp
  qed
  have "c'\<lparr>chan_queues := []\<rparr> = c\<lparr>chan_queues := []\<rparr>" using s by (auto simp: channel_send_def split: if_splits prod.splits)
  then have frame: "map (map_option (chan_queues_update (\<lambda>_. []))) ((channels b)[i := Some c']) =
      map (map_option (chan_queues_update (\<lambda>_. []))) (channels b)"
    using c(1,2) by (simp add: map_update list_update_same_conv)
  show ?thesis
    by (rule that [OF ib])
      (use closed full delivered fifo.bounded [OF q] same os frame in \<open>simp_all add: send del: One_nat_def\<close>)
qed

lemma receive_refines:
  assumes inv: "broker_inv b" and v: "view (handles b) (owner, h) = Some (\<lparr>ep_channel = ch, ep_side = side\<rparr>, rt)"
    and rd: "rt AND ipc_read = ipc_read"
  obtains (idle) "inbox b (ch, side) = Some []"
      "broker_peek b owner h = Err (if open_side b ch (1 - side) then IpcWouldBlock else IpcClosed)"
      "broker_consume b owner h = (Err (if open_side b ch (1 - side) then IpcWouldBlock else IpcClosed), b)"
  | (message) m ms b' where "inbox b (ch, side) = Some (m # ms)" "broker_peek b owner h = Ok m"
      "broker_consume b owner h = (Ok (), b')" "inbox b' = (inbox b)((ch, side) \<mapsto> ms)" "handles b' = handles b"
proof -
  obtain i c where c: "i < length (channels b)" "channels b ! i = Some c" "chan_id c = ch" "side < 2"
    "channel_inv c" "broker_slot b \<lparr>ep_channel = ch, ep_side = side\<rparr> = Ok i"
    using endpoint_channel [OF inv v] by (metis endpoint.select_convs)
  have res: "resolve (handles b) owner h ipc_read = Ok \<lparr>ep_channel = ch, ep_side = side\<rparr>"
    using v rd resolve_view [OF inv_keys [OF broker_invD(1) [OF inv]]] by simp
  note keys = broker_invD(2) [OF inv]
  have os: "open_side b ch (1 - side) \<longleftrightarrow> chan_open c ! (1 - side)"
    using open_side_self [OF keys c(1,2), of "1 - side"] c(3) by simp
  have ib: "inbox b (ch, side) = Some (queue_list (chan_queues c ! side))"
    using inbox_at [OF keys c(1,2,4)] c(3) by simp
  have peek: "broker_peek b owner h = channel_peek c side" using res c by (simp add: broker_peek_def)
  show ?thesis
  proof (cases "queue_list (chan_queues c ! side)")
    case Nil
    then have pk: "broker_peek b owner h = Err (if open_side b ch (1 - side) then IpcWouldBlock else IpcClosed)"
      using peek os channel_peek_spec [OF c(5,4)] by simp
    then have cs: "broker_consume b owner h = (Err (if open_side b ch (1 - side) then IpcWouldBlock else IpcClosed), b)"
      using broker_consume_eq [OF inv, of owner h] by auto
    show ?thesis by (rule idle [OF _ pk cs]) (use Nil ib in simp)
  next
    case (Cons m ms)
    then have pk: "channel_peek c side = Ok m" using channel_peek_spec [OF c(5,4)] by simp
    obtain c' where c': "channel_pop c side = (Ok (), c')" "channel_inv c'" "chan_id c' = chan_id c"
      "chan_open c' = chan_open c" "queue_list (chan_queues c ! side) = m # queue_list (chan_queues c' ! side)"
      "chan_queues c' ! (1 - side) = chan_queues c ! (1 - side)"
      using channel_pop_spec [OF c(5,4) pk] by metis
    have "broker_consume b owner h = (Ok (), b\<lparr>channels := (channels b)[i := Some c']\<rparr>)"
      using res c pk c'(1) by (simp add: broker_consume_def)
    then show ?thesis
      using message [of m ms] Cons ib peek pk c' c(3) inbox_update [OF inv c(1,2,4) c'(2,3,4,6)] by simp
  qed
qed

section \<open>Runs of the broker\<close>

inductive broker_step :: "broker \<Rightarrow> broker \<Rightarrow> bool" where
  step_connect: "broker_connect b p q = (r, b') \<Longrightarrow> broker_step b b'"
| step_send: "broker_send b p h bs = (r, b') \<Longrightarrow> broker_step b b'"
| step_consume: "broker_consume b p h = (r, b') \<Longrightarrow> broker_step b b'"
| step_close: "broker_close b p h = (r, b') \<Longrightarrow> broker_step b b'"
| step_close_owner: "broker_close_owner b p = Some (r, b') \<Longrightarrow> broker_step b b'"
| step_move: "broker_transfer b p h q rights = (r, b') \<Longrightarrow> broker_step b b'"

lemma close_owner_total:
  assumes inv: "broker_inv b"
  obtains b' where "broker_close_owner b p = Some (Ok (), b')" "broker_inv b'"
    "\<And>h. view (handles b') (p, h) = None"
    "\<And>q h. q \<noteq> p \<Longrightarrow> view (handles b') (q, h) = view (handles b) (q, h)"
proof -
  obtain b' where b': "broker_close_owner b p = Some (Ok (), b')" "broker_inv b'" "first (handles b') p = None"
    using ipc_drain.drain_total [OF inv, of "Suc (table_count (handles b))" p] unfolding broker_close_owner_def by blast
  let ?P = "\<lambda>s. \<forall>q h. q \<noteq> p \<longrightarrow> view (handles s) (q, h) = view (handles b) (q, h)"
  have "?P b'"
  proof (rule ipc_drain.drain_preserves [where P = ?P and s = b and n = "Suc (table_count (handles b))" and owner = p])
    fix s h s'
    assume s: "broker_inv s" "?P s" "first (handles s) p = Some h" "broker_close s p h = (Ok (), s')"
    obtain ep r where v: "view (handles s) (p, h) = Some (ep, r)"
      using first_Some [OF broker_invD(1) [OF s(1)] s(3)] by blast
    obtain t where "broker_close s p h = (Ok (), t)" "view (handles t) = (view (handles s))((p, h) := None)"
      using broker_close_Ok [OF s(1) v] by metis
    then show "?P s'" using s(2,4) by auto
  qed (use inv b'(1) in \<open>simp_all add: broker_close_owner_def\<close>)
  then show ?thesis using that b' first_None [OF broker_invD(1) [OF b'(2)] b'(3)] by blast
qed

lemma step_broker_inv: "broker_step b b' \<Longrightarrow> broker_inv b \<Longrightarrow> broker_inv b'"
proof (induction rule: broker_step.induct)
  case (step_close_owner b p r b')
  obtain b2 where "broker_close_owner b p = Some (Ok (), b2)" "broker_inv b2"
    using close_owner_total [OF step_close_owner(2)] by metis
  with step_close_owner(1) show ?case by simp
qed (auto dest: broker_connect_inv broker_send_inv broker_consume_inv broker_close_inv broker_transfer_inv)

lemma run_broker_inv: "broker_step\<^sup>*\<^sup>* b b' \<Longrightarrow> broker_inv b \<Longrightarrow> broker_inv b'"
  by (induction rule: rtranclp_induct) (auto intro: step_broker_inv)

section \<open>Properties\<close>

text \<open>C9 In every state the broker can reach from \<open>Broker::new\<close>, no operation panics: the lookups of
  \<open>slot\<close>, the \<open>unwrap\<close> of a channel, the assertion in \<open>Queue::pop\<close> and the \<open>expect\<close> of \<open>close_owner\<close>
  all succeed, and \<open>close_owner\<close> returns.\<close>

theorem broker_never_panics:
  assumes "broker_step\<^sup>*\<^sup>* broker_new b"
  shows "fst (broker_connect b p q) \<noteq> Panic \<and> fst (broker_send b p h bs) \<noteq> Panic \<and>
    broker_peek b p h \<noteq> Panic \<and> fst (broker_consume b p h) \<noteq> Panic \<and> fst (broker_close b p h) \<noteq> Panic \<and>
    fst (broker_transfer b p h q rights) \<noteq> Panic \<and> (\<exists>b'. broker_close_owner b p = Some (Ok (), b'))"
proof -
  have inv: "broker_inv b" by (rule run_broker_inv [OF assms]) simp
  obtain b' where "broker_close_owner b p = Some (Ok (), b')" using close_owner_total [OF inv] by metis
  then show ?thesis
    using broker_connect_inv [OF inv prod.collapse [symmetric]] broker_send_inv [OF inv prod.collapse [symmetric]]
      broker_peek_spec(1) [OF inv] broker_consume_inv [OF inv prod.collapse [symmetric]]
      broker_close_inv [OF inv prod.collapse [symmetric]] broker_transfer_inv [OF inv prod.collapse [symmetric]]
    by blast
qed

definition demo_broker :: broker where
  "demo_broker = snd (broker_connect broker_new 77 6)"

lemma demo_broker_run: "broker_step\<^sup>*\<^sup>* broker_new demo_broker"
  unfolding demo_broker_def
  by (rule r_into_rtranclp [of broker_step, OF step_connect [OF prod.collapse [symmetric]]])

lemma demo_broker_inv: "broker_inv demo_broker"
  by (rule run_broker_inv [OF demo_broker_run]) simp

lemma demo_replicates: "replicate 64 x = x # x # replicate 62 x" "replicate 24 x = x # replicate 23 x"
  by (simp_all add: replicate_numeral)

lemma demo_broker_views:
  "view (handles demo_broker) (77, 1) = Some (\<lparr>ep_channel = 1, ep_side = 0\<rparr>, ipc_all) \<and>
   view (handles demo_broker) (6, 2) = Some (\<lparr>ep_channel = 1, ep_side = 1\<rparr>, ipc_all)"
  by (simp add: demo_broker_def broker_connect_def broker_new_def new_table_def checked_add_def grant_def
      room_def advance_def view_def entry_matches_def demo_replicates ipc_all_def ipc_read_def ipc_write_def
      ipc_transfer_def Let_def)

lemma demo_broker_channels: "flatten (channels demo_broker) = [channel_new 1]"
  by (simp add: demo_broker_def broker_connect_def broker_new_def new_table_def checked_add_def grant_def
      room_def advance_def demo_replicates ipc_all_def ipc_read_def ipc_write_def ipc_transfer_def Let_def)

lemma ipc_all_rights: "ipc_all AND ipc_write = ipc_write" "ipc_all AND ipc_read = ipc_read"
  by (simp_all add: ipc_all_def ipc_read_def ipc_write_def ipc_transfer_def)

lemma demo_broker_inbox: "inbox demo_broker (1, 1) = Some []" "open_side demo_broker 1 1"
  by (simp_all add: inbox_def demo_broker_channels open_side_def) (simp add: channel_new_def queue_list_def queue_new_def)

theorem broker_never_panics_witness:
  "broker_step\<^sup>*\<^sup>* broker_new demo_broker \<and> broker_peek demo_broker 77 1 \<noteq> Panic"
  using demo_broker_run broker_never_panics [OF demo_broker_run, of 77 0 1] by blast

text \<open>C8 No endpoint leaks and none dangles: in every reachable state a side of a live channel is open
  exactly when some process holds a handle for it, and then exactly one handle names it.\<close>

theorem open_sides_are_named_once:
  assumes "broker_step\<^sup>*\<^sup>* broker_new b" and "side < 2"
  shows "open_side b ch side \<longleftrightarrow>
    (\<exists>!k. \<exists>r. view (handles b) k = Some (\<lparr>ep_channel = ch, ep_side = side\<rparr>, r))"
proof -
  have inv: "broker_inv b" by (rule run_broker_inv [OF assms(1)]) simp
  have "k = k'" if v: "view (handles b) k = Some (ep, r)" "view (handles b) k' = Some (ep, r')" for k k' ep r r'
  proof -
    obtain p h q g where k: "k = (p, h)" "k' = (q, g)" by (cases k, cases k')
    then have "h = g" using v broker_invD(6) [OF inv] by blast
    then show ?thesis using v k view_owner [OF broker_invD(1) [OF inv], of p h _ q] by blast
  qed
  moreover have "open_side b ch side \<longleftrightarrow> (\<exists>k r. view (handles b) k = Some (\<lparr>ep_channel = ch, ep_side = side\<rparr>, r))"
    using broker_invD(5) [OF inv assms(2), of ch] by (auto simp: names_def)
  ultimately show ?thesis by blast
qed

theorem open_sides_are_named_once_witness:
  "open_side demo_broker 1 1 \<and>
   (\<exists>!k. \<exists>r. view (handles demo_broker) k = Some (\<lparr>ep_channel = 1, ep_side = 1\<rparr>, r))"
  using open_sides_are_named_once [OF demo_broker_run, of 1 1] demo_broker_inbox(2) by simp

text \<open>C13 A send is a bounded FIFO append at the peer: with the right to write and a well-formed message it
  is refused with \<open>Closed\<close> when the peer is closed and with \<open>WouldBlock\<close> when two messages wait there, and the
  broker is unchanged; otherwise it appends the message to the peer's inbox. No other inbox, no handle, no open flag,
  no other field of any channel and no counter changes.\<close>

theorem send_appends_to_peer:
  assumes "broker_inv b" and "view (handles b) (owner, h) = Some (\<lparr>ep_channel = ch, ep_side = side\<rparr>, rt)"
    and "rt AND ipc_write = ipc_write" and "message_decode bs owner = Ok m"
    and "broker_send b owner h bs = (r, b')"
  shows "\<exists>ms. inbox b (ch, 1 - side) = Some ms \<and> length ms \<le> 2 \<and>
    (if \<not> open_side b ch (1 - side) then r = Err IpcClosed \<and> b' = b
     else if length ms = 2 then r = Err IpcWouldBlock \<and> b' = b
     else r = Ok () \<and> inbox b' = (inbox b)((ch, 1 - side) \<mapsto> ms @ [m]) \<and>
       handles b' = handles b \<and> next_channel b' = next_channel b \<and>
       map (map_option (chan_queues_update (\<lambda>_. []))) (channels b') = map (map_option (chan_queues_update (\<lambda>_. []))) (channels b))"
proof -
  have rb: "fst (broker_send b owner h bs) = r" "snd (broker_send b owner h bs) = b'" using assms(5) by simp_all
  show ?thesis by (rule send_refines [OF assms(1-4)]) (auto simp: rb assms(5))
qed

theorem send_appends_to_peer_witness:
  "fst (broker_send demo_broker 77 1 hello_bytes) = Ok () \<and>
   inbox (snd (broker_send demo_broker 77 1 hello_bytes)) (1, 1) = Some [hello_message]"
  using send_appends_to_peer [OF demo_broker_inv conjunct1 [OF demo_broker_views] ipc_all_rights(1) hello_decode
      prod.collapse [symmetric]] demo_broker_inbox by auto

text \<open>C14 Receiving is FIFO: with the right to read, \<open>peek\<close> returns the oldest waiting message and
  \<open>consume\<close> removes exactly that one; with nothing waiting both answer \<open>WouldBlock\<close> while the peer is
  open and \<open>Closed\<close> afterwards, and change nothing.\<close>

theorem receive_takes_oldest:
  assumes "broker_inv b" and "view (handles b) (owner, h) = Some (\<lparr>ep_channel = ch, ep_side = side\<rparr>, rt)"
    and "rt AND ipc_read = ipc_read" and "inbox b (ch, side) = Some ms"
    and "broker_consume b owner h = (r, b')"
  shows "case ms of
      [] \<Rightarrow> broker_peek b owner h = Err (if open_side b ch (1 - side) then IpcWouldBlock else IpcClosed) \<and>
        r = Err (if open_side b ch (1 - side) then IpcWouldBlock else IpcClosed) \<and> b' = b
    | m # rest \<Rightarrow> broker_peek b owner h = Ok m \<and> r = Ok () \<and> inbox b' = (inbox b)((ch, side) \<mapsto> rest) \<and>
        handles b' = handles b"
  by (rule receive_refines [OF assms(1-3)]) (use assms(4,5) in simp_all)

theorem receive_takes_oldest_witness:
  "broker_peek demo_broker 6 2 = Err IpcWouldBlock \<and> fst (broker_consume demo_broker 6 2) = Err IpcWouldBlock"
proof -
  have "open_side demo_broker 1 0" by (simp add: open_side_def demo_broker_channels)
  then show ?thesis
    using receive_takes_oldest [OF demo_broker_inv conjunct2 [OF demo_broker_views] ipc_all_rights(2)
        demo_broker_inbox(1) prod.collapse [symmetric]] by simp
qed

text \<open>C15 Closing everything a process owns always finishes with success, leaves the process without
  any handle and takes no handle from any other process.\<close>

theorem close_owner_revokes_all:
  assumes "broker_inv b"
  shows "\<exists>b'. broker_close_owner b p = Some (Ok (), b') \<and> broker_inv b' \<and>
    (\<forall>h right. resolve (handles b') p h right = Err HdlHandle) \<and>
    (\<forall>q h. q \<noteq> p \<longrightarrow> view (handles b') (q, h) = view (handles b) (q, h))"
proof -
  obtain b' where "broker_close_owner b p = Some (Ok (), b')" "broker_inv b'"
    "\<And>h. view (handles b') (p, h) = None" "\<And>q h. q \<noteq> p \<Longrightarrow> view (handles b') (q, h) = view (handles b) (q, h)"
    using close_owner_total [OF assms] by metis
  then show ?thesis using resolve_view [OF inv_keys [OF broker_invD(1)]] by auto
qed

theorem close_owner_revokes_all_witness:
  "\<exists>b'. broker_close_owner demo_broker 77 = Some (Ok (), b') \<and> resolve (handles b') 77 1 0 = Err HdlHandle \<and>
     view (handles b') (6, 2) \<noteq> None"
  using close_owner_revokes_all [OF demo_broker_inv, of 77] demo_broker_views by fastforce

end
