(* ===== verification/Block_Abi.thy ===== *)
theory Block_Abi
  imports Bytes
begin

unbundle bit_operations_syntax

text \<open>
  The wire records of the block interface, \<open>crates/abi/src/block\<close>: operations, requests, geometry,
  completions and the error codes that share the return register with request identities. Every
  record is a \<open>canonical_codec\<close>: what is encoded decodes to itself, and a byte string that decodes
  is the only encoding of its value, so no reserved byte is ignored.
\<close>

section \<open>Constants\<close>

abbreviation (input) blk_version :: u16 where "blk_version \<equiv> 1"
definition blk_read :: u8 where "blk_read = 1"
definition blk_write :: u8 where "blk_write = 2"
definition blk_flush :: u8 where "blk_flush = 4"
definition blk_all :: u8 where "blk_all = blk_read OR blk_write OR blk_flush"
abbreviation (input) sector_bytes :: nat where "sector_bytes \<equiv> 512"
abbreviation (input) request_bytes :: nat where "request_bytes \<equiv> 32"
abbreviation (input) geometry_bytes :: nat where "geometry_bytes \<equiv> 32"
abbreviation (input) result_bytes :: nat where "result_bytes \<equiv> 32 + sector_bytes"
definition max_id :: u64 where "max_id = push_bit 56 1 - 1"

lemma max_id_eq: "max_id = 72057594037927935"
  by (simp add: max_id_def)

section \<open>Errors in the return register\<close>

datatype block_error = BeHandle | BeDenied | BeAddress | BeSize | BeVersion | BeRequest | BeBusy | BeQuota
  | BeRange | BeReadOnly | BeUnavailable | BeNoRequest | BeWouldBlock | BeProtocol

primrec block_error_tag :: "block_error \<Rightarrow> u64" where
  "block_error_tag BeHandle = 0"
| "block_error_tag BeDenied = 1"
| "block_error_tag BeAddress = 2"
| "block_error_tag BeSize = 3"
| "block_error_tag BeVersion = 4"
| "block_error_tag BeRequest = 5"
| "block_error_tag BeBusy = 6"
| "block_error_tag BeQuota = 7"
| "block_error_tag BeRange = 8"
| "block_error_tag BeReadOnly = 9"
| "block_error_tag BeUnavailable = 10"
| "block_error_tag BeNoRequest = 11"
| "block_error_tag BeWouldBlock = 12"
| "block_error_tag BeProtocol = 13"

definition block_code :: "block_error \<Rightarrow> u64" where
  "block_code e = - 1 - 32 - block_error_tag e"

definition block_errors :: "block_error list" where
  "block_errors = [BeHandle, BeDenied, BeAddress, BeSize, BeVersion, BeRequest, BeBusy, BeQuota, BeRange,
     BeReadOnly, BeUnavailable, BeNoRequest, BeWouldBlock, BeProtocol]"

definition block_error_decode :: "u64 \<Rightarrow> (block_error, u64) outcome" where
  "block_error_decode v =
     (case find (\<lambda>e. v = block_code e) block_errors of
        Some e \<Rightarrow> Err e
      | None \<Rightarrow> if v > max_id then Err BeProtocol else Ok v)"

section \<open>Operations and requests\<close>

datatype operation = OpRead | OpWrite | OpFlush

primrec op_tag :: "operation \<Rightarrow> u16" where
  "op_tag OpRead = 1"
| "op_tag OpWrite = 2"
| "op_tag OpFlush = 3"

definition op_parse :: "u16 \<Rightarrow> (block_error, operation) outcome" where
  "op_parse v = (if v = 1 then Ok OpRead else if v = 2 then Ok OpWrite else if v = 3 then Ok OpFlush
     else Err BeRequest)"

primrec op_right :: "operation \<Rightarrow> u8" where
  "op_right OpRead = blk_read"
| "op_right OpWrite = blk_write"
| "op_right OpFlush = blk_flush"

record request =
  rq_operation :: operation
  rq_sector :: u64
  rq_address :: u64
  rq_length :: u32

definition request_check :: "request \<Rightarrow> (block_error, request) outcome" where
  "request_check r =
     (case rq_operation r of
        OpFlush \<Rightarrow> if rq_sector r \<noteq> 0 \<or> rq_address r \<noteq> 0 \<or> rq_length r \<noteq> 0 then Err BeRequest else Ok r
      | OpRead \<Rightarrow> if rq_length r \<noteq> 512 then Err BeSize else if rq_address r \<noteq> 0 then Err BeRequest else Ok r
      | OpWrite \<Rightarrow> if rq_length r \<noteq> 512 then Err BeSize else Ok r)"

definition request_decode :: "bytes \<Rightarrow> (block_error, request) outcome" where
  "request_decode bs =
     (if length bs \<noteq> request_bytes then Err BeSize
      else if u16_at bs 0 \<noteq> blk_version then Err BeVersion
      else if u32_at bs 4 \<noteq> 0 \<or> u32_at bs 28 \<noteq> 0 then Err BeRequest
      else and_then (op_parse (u16_at bs 2)) (\<lambda>op.
        request_check \<lparr>rq_operation = op, rq_sector = u64_at bs 8, rq_address = u64_at bs 16,
                       rq_length = u32_at bs 24\<rparr>))"

definition request_encode :: "request \<Rightarrow> bytes" where
  "request_encode r =
     (let b = replicate request_bytes 0;
          b = put b 0 (to_le 2 blk_version);
          b = put b 2 (to_le 2 (op_tag (rq_operation r)));
          b = put b 8 (to_le 8 (rq_sector r));
          b = put b 16 (to_le 8 (rq_address r))
      in put b 24 (to_le 4 (rq_length r)))"

section \<open>Geometry\<close>

record geometry =
  geo_sectors :: u64
  geo_rights :: u8
  geo_read_only :: bool

definition geometry_encode :: "geometry \<Rightarrow> bytes" where
  "geometry_encode g =
     (let b = replicate geometry_bytes 0;
          b = put b 0 (to_le 2 blk_version);
          b = put b 2 (to_le 2 (of_nat geometry_bytes :: u16));
          b = put b 4 (to_le 4 (ucast (geo_rights g) :: u32));
          b = put b 8 (to_le 8 (geo_sectors g));
          b = put b 16 (to_le 4 (of_nat sector_bytes :: u32));
          b = put b 20 (to_le 4 (of_nat sector_bytes :: u32))
      in put b 24 (to_le 4 (if geo_read_only g then 1 else 0 :: u32)))"

definition geometry_decode :: "bytes \<Rightarrow> (block_error, geometry) outcome" where
  "geometry_decode bs =
     (if length bs \<noteq> geometry_bytes then Err BeSize
      else if u16_at bs 0 \<noteq> blk_version then Err BeVersion
      else let rights = u32_at bs 4 in
        if u16_at bs 2 \<noteq> of_nat geometry_bytes \<or> rights = 0 \<or> rights AND NOT (ucast blk_all) \<noteq> 0 \<or>
           u64_at bs 8 = 0 \<or> u32_at bs 16 \<noteq> of_nat sector_bytes \<or> u32_at bs 20 \<noteq> of_nat sector_bytes \<or>
           u32_at bs 24 > 1 \<or> u32_at bs 28 \<noteq> 0
        then Err BeProtocol
        else Ok \<lparr>geo_sectors = u64_at bs 8, geo_rights = ucast rights, geo_read_only = (u32_at bs 24 \<noteq> 0)\<rparr>)"

section \<open>Completions\<close>

datatype status = StSuccess | StCancelled | StIo | StTimeout | StProtocol | StUnavailable

primrec status_tag :: "status \<Rightarrow> u32" where
  "status_tag StSuccess = 0"
| "status_tag StCancelled = 1"
| "status_tag StIo = 2"
| "status_tag StTimeout = 3"
| "status_tag StProtocol = 4"
| "status_tag StUnavailable = 5"

datatype effect = EffNone | EffCompleted | EffUnknown

primrec effect_tag :: "effect \<Rightarrow> u32" where
  "effect_tag EffNone = 0"
| "effect_tag EffCompleted = 1"
| "effect_tag EffUnknown = 2"

record completion =
  cp_id :: u64
  cp_operation :: operation
  cp_status :: status
  cp_effect :: effect
  cp_data :: bytes

definition completion_length :: "completion \<Rightarrow> nat" where
  "completion_length c = (if cp_status c = StSuccess \<and> cp_operation c = OpRead then sector_bytes else 0)"

definition completion_encode :: "completion \<Rightarrow> bytes" where
  "completion_encode c =
     (let b = replicate result_bytes 0;
          b = put b 0 (to_le 2 blk_version);
          b = put b 2 (to_le 2 (op_tag (cp_operation c)));
          b = put b 4 (to_le 4 (status_tag (cp_status c)));
          b = put b 8 (to_le 8 (cp_id c));
          b = put b 16 (to_le 4 (of_nat (completion_length c) :: u32));
          b = put b 20 (to_le 4 (effect_tag (cp_effect c)))
      in put b 32 (take (completion_length c) (cp_data c)))"

definition status_parse :: "u32 \<Rightarrow> (block_error, status) outcome" where
  "status_parse v = (if v = 0 then Ok StSuccess else if v = 1 then Ok StCancelled else if v = 2 then Ok StIo
     else if v = 3 then Ok StTimeout else if v = 4 then Ok StProtocol else if v = 5 then Ok StUnavailable
     else Err BeProtocol)"

definition effect_parse :: "u32 \<Rightarrow> (block_error, effect) outcome" where
  "effect_parse v = (if v = 0 then Ok EffNone else if v = 1 then Ok EffCompleted else if v = 2 then Ok EffUnknown
     else Err BeProtocol)"

definition valid_effect :: "operation \<Rightarrow> status \<Rightarrow> effect \<Rightarrow> bool" where
  "valid_effect op st ef =
     (if op = OpRead \<or> st = StCancelled \<or> st = StUnavailable then ef = EffNone
      else if st = StSuccess then ef = EffCompleted
      else ef = EffUnknown)"

definition completion_decode :: "bytes \<Rightarrow> (block_error, completion) outcome" where
  "completion_decode bs =
     (if length bs \<noteq> result_bytes then Err BeSize
      else if u16_at bs 0 \<noteq> blk_version then Err BeVersion
      else and_then (op_parse (u16_at bs 2)) (\<lambda>op.
        and_then (status_parse (u32_at bs 4)) (\<lambda>st.
        and_then (effect_parse (u32_at bs 20)) (\<lambda>ef.
          let n = u64_at bs 8;
              expected = (if st = StSuccess \<and> op = OpRead then sector_bytes else 0)
          in if n = 0 \<or> n > max_id \<or> unat (u32_at bs 16) \<noteq> expected \<or> u64_at bs 24 \<noteq> 0 \<or>
                any_nonzero (drop (32 + expected) bs) \<or> \<not> valid_effect op st ef
             then Err BeProtocol
             else Ok \<lparr>cp_id = n, cp_operation = op, cp_status = st, cp_effect = ef,
                      cp_data = put (replicate sector_bytes 0) 0 (field_at bs 32 expected)\<rparr>))))"

section \<open>Tags\<close>

lemma op_parse_Ok [simp]: "op_parse v = Ok op \<longleftrightarrow> v = op_tag op"
  by (cases op) (auto simp: op_parse_def)

lemma status_parse_Ok [simp]: "status_parse v = Ok st \<longleftrightarrow> v = status_tag st"
  by (cases st) (auto simp: status_parse_def)

lemma effect_parse_Ok [simp]: "effect_parse v = Ok ef \<longleftrightarrow> v = effect_tag ef"
  by (cases ef) (auto simp: effect_parse_def)

lemma parse_tag [simp]: "op_parse (op_tag op) = Ok op" "status_parse (status_tag st) = Ok st"
  "effect_parse (effect_tag ef) = Ok ef"
  by simp_all

lemma block_code_injective: "block_code e = block_code f \<longleftrightarrow> e = f"
  by (cases e; cases f) (simp_all add: block_code_def)

lemma block_errors_all: "e \<in> set block_errors"
  by (cases e) (simp_all add: block_errors_def)

lemma block_code_above: "block_code e > max_id"
  by (cases e) (simp_all add: block_code_def max_id_eq)

section \<open>Requests round trip\<close>

definition request_valid :: "request \<Rightarrow> bool" where
  "request_valid r \<longleftrightarrow> request_check r = Ok r"

lemma request_encode_fields:
  "length (request_encode r) = 32"
  "field_at (request_encode r) 0 2 = to_le 2 blk_version"
  "field_at (request_encode r) 2 2 = to_le 2 (op_tag (rq_operation r))"
  "field_at (request_encode r) 4 4 = to_le 4 (0 :: u32)"
  "field_at (request_encode r) 8 8 = to_le 8 (rq_sector r)"
  "field_at (request_encode r) 16 8 = to_le 8 (rq_address r)"
  "field_at (request_encode r) 24 4 = to_le 4 (rq_length r)"
  "field_at (request_encode r) 28 4 = to_le 4 (0 :: u32)"
  by (simp_all add: request_encode_def Let_def to_le_0)

lemma request_check_Ok: "request_check r = Ok s \<Longrightarrow> s = r"
  by (auto simp: request_check_def split: operation.splits if_splits)

lemma request_decode_Ok:
  assumes "request_decode bs = Ok r"
  shows "length bs = 32" "u16_at bs 0 = 1" "u16_at bs 2 = op_tag (rq_operation r)" "u32_at bs 4 = 0"
    "u64_at bs 8 = rq_sector r" "u64_at bs 16 = rq_address r" "u32_at bs 24 = rq_length r" "u32_at bs 28 = 0"
    "request_valid r"
  using assms request_check_Ok
  by (fastforce simp: request_decode_def request_valid_def and_then_Ok_iff split: if_splits)+

interpretation request_codec: canonical_codec request_encode request_decode request_valid
proof (unfold_locales, goal_cases)
  case (1 r)
  then show ?case
    by (cases r) (simp add: request_decode_def request_encode_fields field_reads request_valid_def)
next
  case (2 bs r)
  then show ?case by (rule request_decode_Ok)
next
  case (3 bs r)
  note d = request_decode_Ok [OF 3]
  have "take 32 (request_encode r) = bs"
    by (rule eq_by_fields [where ns = "[2, 2, 4, 8, 8, 4, 4]"])
      (use d in \<open>simp_all add: request_encode_fields field_of_read\<close>)
  then show ?case by (simp add: request_encode_fields(1))
qed

section \<open>Geometry round trips\<close>

definition geometry_valid :: "geometry \<Rightarrow> bool" where
  "geometry_valid g \<longleftrightarrow> geo_sectors g \<noteq> 0 \<and> geo_rights g \<noteq> 0 \<and> geo_rights g AND NOT blk_all = 0"

lemma blk_all_eq: "blk_all = mask 3"
  by (simp add: blk_all_def blk_read_def blk_write_def blk_flush_def mask_eq_exp_minus_1)

lemma rights_wide:
  fixes w :: u32 and r :: u8
  shows "ucast (ucast r :: u32) = r" and "ucast r = (0 :: u32) \<longleftrightarrow> r = 0"
    and "(ucast r :: u32) AND NOT (ucast blk_all) = 0 \<longleftrightarrow> r AND NOT blk_all = 0"
    and "w AND NOT (ucast blk_all) = 0 \<Longrightarrow> ucast (ucast w :: u8) = w"
proof -
  have narrow: "ucast (ucast x :: u32) = x" for x :: u8 by (rule bit_word_eqI) (simp add: bit_simps)
  have zero: "ucast x = (0 :: u32) \<longleftrightarrow> x = 0" for x :: u8 using narrow [of x] by auto
  show "ucast (ucast r :: u32) = r" and "ucast r = (0 :: u32) \<longleftrightarrow> r = 0" by (rule narrow, rule zero)
  have "(ucast r :: u32) AND NOT (ucast blk_all) = ucast (r AND NOT blk_all)"
    by (rule bit_word_eqI) (auto simp: bit_simps blk_all_eq dest: bit_imp_le_length)
  then show "(ucast r :: u32) AND NOT (ucast blk_all) = 0 \<longleftrightarrow> r AND NOT blk_all = 0"
    by (simp add: zero)
  assume w: "w AND NOT (ucast blk_all) = 0"
  have "n < 8" if "bit w n" for n
  proof -
    have "\<not> bit (w AND NOT (ucast blk_all)) n" using w by simp
    then show ?thesis using that by (auto simp: bit_simps blk_all_eq dest: bit_imp_le_length)
  qed
  then show "ucast (ucast w :: u8) = w" by (intro bit_word_eqI) (auto simp: bit_simps)
qed

lemma geometry_encode_fields:
  "length (geometry_encode g) = 32"
  "field_at (geometry_encode g) 0 2 = to_le 2 blk_version"
  "field_at (geometry_encode g) 2 2 = to_le 2 (32 :: u16)"
  "field_at (geometry_encode g) 4 4 = to_le 4 (ucast (geo_rights g) :: u32)"
  "field_at (geometry_encode g) 8 8 = to_le 8 (geo_sectors g)"
  "field_at (geometry_encode g) 16 4 = to_le 4 (512 :: u32)"
  "field_at (geometry_encode g) 20 4 = to_le 4 (512 :: u32)"
  "field_at (geometry_encode g) 24 4 = to_le 4 (if geo_read_only g then 1 else 0 :: u32)"
  "field_at (geometry_encode g) 28 4 = to_le 4 (0 :: u32)"
  by (simp_all add: geometry_encode_def Let_def to_le_0)

lemma geometry_decode_Ok:
  assumes "geometry_decode bs = Ok g"
  shows "length bs = 32" "u16_at bs 0 = 1" "u16_at bs 2 = 32" "u32_at bs 4 = ucast (geo_rights g)"
    "u64_at bs 8 = geo_sectors g" "u32_at bs 16 = 512" "u32_at bs 20 = 512"
    "u32_at bs 24 = (if geo_read_only g then 1 else 0)" "u32_at bs 28 = 0" "geometry_valid g"
proof -
  have le1: "w = 0 \<or> w = 1" if "\<not> w > 1" for w :: u32
    using that by (auto simp: word_less_nat_alt word_unat_eq_iff)
  have wide: "u32_at bs 4 AND NOT (ucast blk_all) = 0" "u32_at bs 4 \<noteq> 0" "geo_rights g = ucast (u32_at bs 4)"
    "geo_sectors g = u64_at bs 8" "u64_at bs 8 \<noteq> 0"
    using assms by (auto simp: geometry_decode_def Let_def split: if_splits)
  then show r: "u32_at bs 4 = ucast (geo_rights g)" using rights_wide(4) by simp
  show "geometry_valid g"
    using wide(1,2,4,5) unfolding r rights_wide(2,3) by (simp add: geometry_valid_def)
  show "length bs = 32" "u16_at bs 0 = 1" "u16_at bs 2 = 32" "u64_at bs 8 = geo_sectors g"
    "u32_at bs 16 = 512" "u32_at bs 20 = 512" "u32_at bs 28 = 0"
    "u32_at bs 24 = (if geo_read_only g then 1 else 0)"
    using assms le1 [of "u32_at bs 24"] by (auto simp: geometry_decode_def Let_def split: if_splits)
qed

interpretation geometry_codec: canonical_codec geometry_encode geometry_decode geometry_valid
proof (unfold_locales, goal_cases)
  case (1 g)
  then show ?case
    by (cases g) (auto simp: geometry_decode_def geometry_encode_fields field_reads geometry_valid_def rights_wide Let_def)
next
  case (2 bs g)
  then show ?case by (rule geometry_decode_Ok)
next
  case (3 bs g)
  note d = geometry_decode_Ok [OF 3]
  have "take 32 (geometry_encode g) = bs"
    by (rule eq_by_fields [where ns = "[2, 2, 4, 8, 4, 4, 4, 4]"])
      (use d in \<open>simp_all add: geometry_encode_fields field_of_read\<close>)
  then show ?case by (simp add: geometry_encode_fields(1))
qed

section \<open>Completions round trip\<close>

definition completion_valid :: "completion \<Rightarrow> bool" where
  "completion_valid c \<longleftrightarrow> cp_id c \<noteq> 0 \<and> cp_id c \<le> max_id \<and> length (cp_data c) = sector_bytes \<and>
     valid_effect (cp_operation c) (cp_status c) (cp_effect c) \<and>
     (completion_length c = 0 \<longrightarrow> \<not> any_nonzero (cp_data c))"

lemma completion_length_le: "completion_length c \<le> 512" "completion_length c = 0 \<or> completion_length c = 512"
  by (simp_all add: completion_length_def)

lemma completion_encode_fields:
  assumes "length (cp_data c) = sector_bytes"
  shows "length (completion_encode c) = 544"
  "field_at (completion_encode c) 0 2 = to_le 2 blk_version"
  "field_at (completion_encode c) 2 2 = to_le 2 (op_tag (cp_operation c))"
  "field_at (completion_encode c) 4 4 = to_le 4 (status_tag (cp_status c))"
  "field_at (completion_encode c) 8 8 = to_le 8 (cp_id c)"
  "field_at (completion_encode c) 16 4 = to_le 4 (of_nat (completion_length c) :: u32)"
  "field_at (completion_encode c) 20 4 = to_le 4 (effect_tag (cp_effect c))"
  "field_at (completion_encode c) 24 8 = to_le 8 (0 :: u64)"
  "field_at (completion_encode c) 32 (completion_length c) = take (completion_length c) (cp_data c)"
  "drop (32 + completion_length c) (completion_encode c) = replicate (512 - completion_length c) 0"
  using assms completion_length_le [of c]
  by (simp_all add: completion_encode_def Let_def to_le_0 drop_as_slice)

lemma completion_decode_Ok:
  assumes "completion_decode bs = Ok c"
  shows "length bs = 544" "u16_at bs 0 = 1" "u16_at bs 2 = op_tag (cp_operation c)"
    "u32_at bs 4 = status_tag (cp_status c)" "u64_at bs 8 = cp_id c" "unat (u32_at bs 16) = completion_length c"
    "u32_at bs 20 = effect_tag (cp_effect c)" "u64_at bs 24 = 0" "\<not> any_nonzero (drop (32 + completion_length c) bs)"
    "cp_data c = put (replicate sector_bytes 0) 0 (field_at bs 32 (completion_length c))"
    "cp_id c \<noteq> 0" "cp_id c \<le> max_id" "valid_effect (cp_operation c) (cp_status c) (cp_effect c)"
  using assms
  by (auto simp: completion_decode_def completion_length_def and_then_Ok_iff Let_def split: if_splits)

lemma completion_decode_valid:
  assumes "completion_decode bs = Ok c"
  shows "completion_valid c"
proof -
  note d = completion_decode_Ok [OF assms]
  have "length (cp_data c) = sector_bytes" using d(1,10) completion_length_le [of c] by simp
  moreover have "\<not> any_nonzero (cp_data c)" if "completion_length c = 0"
    using d(10) that by (simp add: put_def field_at_def)
  ultimately show ?thesis using d by (simp add: completion_valid_def)
qed

interpretation completion_codec: canonical_codec completion_encode completion_decode completion_valid
proof (unfold_locales, goal_cases)
  case (1 c)
  then have v: "length (cp_data c) = 512" by (simp add: completion_valid_def)
  note f = completion_encode_fields [OF v]
  have expected: "(if cp_status c = StSuccess \<and> cp_operation c = OpRead then sector_bytes else 0) = completion_length c"
    by (simp add: completion_length_def)
  have back_data: "put (replicate sector_bytes 0) 0 (take (completion_length c) (cp_data c)) = cp_data c"
    using 1 v completion_length_le(2) [of c] not_any_nonzero [of "cp_data c"]
    by (auto simp: put_def completion_valid_def)
  show ?case
    using 1 completion_length_le [of c]
    by (simp add: completion_decode_def f field_reads Let_def completion_valid_def expected back_data
        unsigned_of_nat take_bit_nat_eq_self not_less)
next
  case (2 bs c)
  then show ?case by (rule completion_decode_valid)
next
  case (3 bs c)
  note d = completion_decode_Ok [OF 3] and v = completion_decode_valid [OF 3]
  then have len: "length (cp_data c) = 512" by (simp add: completion_valid_def)
  let ?n = "completion_length c"
  have tail: "field_at bs (32 + ?n) (512 - ?n) = replicate (512 - ?n) 0"
    using d(1,9) not_any_nonzero [of "drop (32 + ?n) bs"] by (simp add: drop_as_slice)
  have data: "take ?n (cp_data c) = field_at bs 32 ?n"
    using d(1,10) completion_length_le [of c] by (simp add: put_def)
  note f = completion_encode_fields [OF len]
  have tail': "field_at (completion_encode c) (32 + ?n) (512 - ?n) = replicate (512 - ?n) 0"
    using f(1,10) by (simp add: drop_as_slice)
  have n: "of_nat ?n = u32_at bs 16" by (simp flip: d(6))
  have "take 544 (completion_encode c) = bs"
    by (rule eq_by_fields [where ns = "[2, 2, 4, 8, 4, 4, 8, ?n, 512 - ?n]"])
      (use d(1-5,7,8) completion_length_le(1) [of c] in \<open>simp_all add: f(2-9) tail tail' data n field_of_read\<close>)
  then show ?case by (simp add: completion_encode_fields(1) [OF len])
qed

section \<open>Properties\<close>

text \<open>A completion record decodes exactly when it is the encoding of a valid completion: nonzero
  identity of at most 56 bits, an effect that fits the operation and status, and data only for a
  successful read. The decoder accepts no other byte string, reserved bytes included.\<close>

theorem completion_decode_exact:
  "completion_decode bs = Ok c \<longleftrightarrow> completion_valid c \<and> bs = completion_encode c"
  by (rule completion_codec.decode_iff)

text \<open>A request record decodes exactly when it is the encoding of the request and its unused fields are zero: a flush
  has no sector, address and length, a read no address and a read or a write the length of a sector.\<close>

theorem request_decode_exact:
  "request_decode bs = Ok r \<longleftrightarrow> bs = request_encode r \<and>
     (case rq_operation r of
        OpFlush \<Rightarrow> rq_sector r = 0 \<and> rq_address r = 0 \<and> rq_length r = 0
      | OpRead \<Rightarrow> rq_length r = 512 \<and> rq_address r = 0
      | OpWrite \<Rightarrow> rq_length r = 512)"
  using request_codec.decode_iff [of bs r]
  by (cases "rq_operation r") (auto simp: request_valid_def request_check_def split: if_splits)

text \<open>A geometry record decodes exactly when it is the encoding of a device with at least one sector
  and a nonempty set of known rights.\<close>

theorem geometry_decode_exact:
  "geometry_decode bs = Ok g \<longleftrightarrow>
     geo_sectors g \<noteq> 0 \<and> geo_rights g \<noteq> 0 \<and> geo_rights g AND NOT blk_all = 0 \<and> bs = geometry_encode g"
  using geometry_codec.decode_iff [of bs g] by (auto simp: geometry_valid_def)

text \<open>The return register separates results from errors: every value up to \<open>MAX_ID\<close> is returned as
  it is, every error code is recognised as its own error, and every other value is \<open>Protocol\<close>.\<close>

theorem return_register_total:
  "(block_error_decode v = Ok w \<longleftrightarrow> v = w \<and> v \<le> max_id) \<and>
   (block_error_decode v = Err e \<longleftrightarrow>
      v = block_code e \<or> e = BeProtocol \<and> v > max_id \<and> v \<notin> range block_code)"
proof (cases "\<exists>f. v = block_code f")
  case True
  then obtain f where v: "v = block_code f" by blast
  then have "find (\<lambda>e. v = block_code e) block_errors = Some f"
    using block_errors_all [of f] by (cases "find (\<lambda>e. v = block_code e) block_errors")
      (auto simp: find_None_iff find_Some_iff block_code_injective)
  then show ?thesis
    using v block_code_above [of f] by (auto simp: block_error_decode_def block_code_injective)
next
  case False
  then have "find (\<lambda>e. v = block_code e) block_errors = None" by (auto simp: find_None_iff)
  then show ?thesis using False by (auto simp: block_error_decode_def)
qed

end
