(* ===== verification/Block_Queue.thy ===== *)
theory Block_Queue
  imports Handles Block_Abi
begin

unbundle bit_operations_syntax

text \<open>
  The block broker of \<open>kernel/src/block/access\<close>: admission against granted sector ranges, a queue of
  two requests with at most one on the device, completion ownership, cancellation and revocation.
  The invariant \<open>block_inv\<close> says that every request on record belongs to a live handle or is an
  abandoned transfer still on the device, that no process has two requests, that the device has at
  most one, and that every stored completion is one the ABI can encode.
\<close>

section \<open>Grants\<close>

record sector_grant =
  gr_first :: u64
  gr_sectors :: u64
  gr_rights :: u8

definition grant_validate :: "sector_grant \<Rightarrow> u64 \<Rightarrow> (block_error, unit) outcome" where
  "grant_validate g capacity =
     (if gr_sectors g = 0 \<or>
         (case checked_add (gr_first g) (gr_sectors g) of None \<Rightarrow> True | Some e \<Rightarrow> e > capacity)
      then Err BeRange
      else if gr_rights g AND blk_flush \<noteq> 0 \<and> (gr_first g \<noteq> 0 \<or> gr_sectors g \<noteq> capacity) then Err BeDenied
      else Ok ())"

definition grant_sector :: "sector_grant \<Rightarrow> u64 \<Rightarrow> (block_error, u64) outcome" where
  "grant_sector g relative =
     (if relative \<ge> gr_sectors g then Err BeRange else ok_or BeRange (checked_add (gr_first g) relative))"

section \<open>The broker\<close>

datatype phase = Queued | Active | Complete

record request_record =
  rec_owner :: u64
  rec_handle :: u64
  rec_sector :: u64
  req_phase :: phase
  rec_abandoned :: bool
  rec_result :: completion

record pending =
  pn_owner :: u64
  pn_id :: u64
  pn_operation :: operation
  pn_sector :: u64
  pn_data :: bytes

record block_broker =
  grants :: "sector_grant table"
  records :: "request_record slots"
  next_request :: u64

record device_geometry =
  dev_sectors :: u64
  dev_read_only :: bool

primrec block_of_handle :: "handle_error \<Rightarrow> block_error" where
  "block_of_handle HdlHandle = BeHandle"
| "block_of_handle HdlDenied = BeDenied"
| "block_of_handle HdlQuota = BeQuota"

definition block_new :: block_broker where
  "block_new = \<lparr>grants = new_table 4 1 1 blk_all 0, records = [None, None], next_request = 1\<rparr>"

definition block_grant ::
  "block_broker \<Rightarrow> u64 \<Rightarrow> sector_grant \<Rightarrow> u64 \<Rightarrow> (block_error, u64) outcome \<times> block_broker" where
  "block_grant b owner g capacity =
     or_return (grant_validate g capacity) b (\<lambda>u.
       case grant (grants b) owner g (gr_rights g) of
         (r, t) \<Rightarrow> (map_err block_of_handle r, b\<lparr>grants := t\<rparr>))"

definition block_geometry ::
  "block_broker \<Rightarrow> u64 \<Rightarrow> u64 \<Rightarrow> device_geometry \<Rightarrow> (block_error, geometry) outcome" where
  "block_geometry b owner h physical =
     and_then (map_err block_of_handle (resolve (grants b) owner h 0)) (\<lambda>g.
       Ok \<lparr>geo_sectors = gr_sectors g, geo_rights = gr_rights g, geo_read_only = dev_read_only physical\<rparr>)"

definition block_check ::
  "block_broker \<Rightarrow> u64 \<Rightarrow> u64 \<Rightarrow> operation \<Rightarrow> u64 \<Rightarrow> device_geometry \<Rightarrow> (block_error, u64) outcome" where
  "block_check b owner h op relative physical =
     and_then (map_err block_of_handle (resolve (grants b) owner h (op_right op))) (\<lambda>g.
     and_then (if op = OpFlush then Ok 0 else grant_sector g relative) (\<lambda>sector.
       if op \<noteq> OpRead \<and> dev_read_only physical then Err BeReadOnly else Ok sector))"

definition next_id_after :: "u64 \<Rightarrow> u64 option" where
  "next_id_after n = (case checked_add n 1 of None \<Rightarrow> None | Some m \<Rightarrow> if m \<le> max_id then Some m else None)"

definition block_admit ::
  "block_broker \<Rightarrow> u64 \<Rightarrow> u64 \<Rightarrow> operation \<Rightarrow> u64 \<Rightarrow> bytes \<Rightarrow> device_geometry \<Rightarrow>
   (block_error, u64) outcome \<times> block_broker" where
  "block_admit b owner h op relative data physical =
     or_return (block_check b owner h op relative physical) b (\<lambda>sector.
     if \<exists>r\<in>set (flatten (records b)). rec_owner r = owner then (Err BeBusy, b)
     else
     or_return (ok_or BeBusy (position (\<lambda>s. s = None) (records b))) b (\<lambda>slot.
     or_return (ok_or BeQuota (next_id_after (next_request b))) b (\<lambda>n.
       (Ok (next_request b),
        b\<lparr>next_request := n,
          records := (records b)[slot := Some \<lparr>rec_owner = owner, rec_handle = h, rec_sector = sector,
            req_phase = Queued, rec_abandoned = False,
            rec_result = \<lparr>cp_id = next_request b, cp_operation = op, cp_status = StSuccess,
                          cp_effect = EffNone, cp_data = data\<rparr>\<rparr>]\<rparr>))))"

definition rec_id :: "request_record \<Rightarrow> u64" where
  "rec_id r = cp_id (rec_result r)"

definition slot_has :: "(request_record \<Rightarrow> bool) \<Rightarrow> request_record option \<Rightarrow> bool" where
  "slot_has P s = (case s of None \<Rightarrow> False | Some r \<Rightarrow> P r)"

definition slot_id :: "request_record slots \<Rightarrow> nat \<Rightarrow> u64" where
  "slot_id rs i = (case rs ! i of None \<Rightarrow> 0 | Some r \<Rightarrow> rec_id r)"

definition block_start :: "block_broker \<Rightarrow> pending option \<times> block_broker" where
  "block_start b =
     (if \<exists>r\<in>set (flatten (records b)). req_phase r = Active then (None, b)
      else case min_by_key (slot_id (records b))
          (filter (\<lambda>i. slot_has (\<lambda>r. req_phase r = Queued) (records b ! i)) [0..<length (records b)]) of
        None \<Rightarrow> (None, b)
      | Some i \<Rightarrow> (case records b ! i of
            None \<Rightarrow> (None, b)
          | Some r \<Rightarrow>
              (Some \<lparr>pn_owner = rec_owner r, pn_id = rec_id r, pn_operation = cp_operation (rec_result r),
                     pn_sector = rec_sector r, pn_data = cp_data (rec_result r)\<rparr>,
               b\<lparr>records := (records b)[i := Some (r\<lparr>req_phase := Active\<rparr>)]\<rparr>)))"

definition finish_effect :: "operation \<Rightarrow> status \<Rightarrow> effect" where
  "finish_effect op st =
     (if op = OpRead \<or> st = StUnavailable then EffNone
      else if st = StSuccess then EffCompleted else EffUnknown)"

definition block_finish ::
  "block_broker \<Rightarrow> u64 \<Rightarrow> status \<Rightarrow> bytes \<Rightarrow> (block_error, unit) outcome \<times> block_broker" where
  "block_finish b n st data =
     (case position (slot_has (\<lambda>r. rec_id r = n \<and> req_phase r = Active)) (records b) of
        None \<Rightarrow> (Panic, b)
      | Some slot \<Rightarrow> (case records b ! slot of
          None \<Rightarrow> (Panic, b)
        | Some r \<Rightarrow>
            if rec_abandoned r then (Ok (), b\<lparr>records := (records b)[slot := None]\<rparr>)
            else
              let op = cp_operation (rec_result r);
                  res = (rec_result r)\<lparr>cp_status := st, cp_effect := finish_effect op st,
                     cp_data := (if op = OpRead \<and> st = StSuccess then data else replicate sector_bytes 0)\<rparr>
              in (Ok (), b\<lparr>records := (records b)[slot := Some (r\<lparr>req_phase := Complete, rec_result := res\<rparr>)]\<rparr>)))"

definition block_slot :: "block_broker \<Rightarrow> u64 \<Rightarrow> u64 \<Rightarrow> (block_error, nat) outcome" where
  "block_slot b owner h =
     and_then (map_err block_of_handle (resolve (grants b) owner h 0)) (\<lambda>g.
       ok_or BeNoRequest (position (slot_has (\<lambda>r. rec_owner r = owner \<and> rec_handle r = h)) (records b)))"

definition block_peek :: "block_broker \<Rightarrow> u64 \<Rightarrow> u64 \<Rightarrow> (block_error, completion) outcome" where
  "block_peek b owner h =
     and_then (block_slot b owner h) (\<lambda>slot.
     and_then (expect (records b ! slot)) (\<lambda>r.
       if req_phase r \<noteq> Complete then Err BeWouldBlock else Ok (rec_result r)))"

definition block_wait :: "block_broker \<Rightarrow> u64 \<Rightarrow> u64 \<Rightarrow> u64 \<Rightarrow> (block_error, unit) outcome" where
  "block_wait b owner h n =
     and_then (block_slot b owner h) (\<lambda>slot.
     and_then (expect (records b ! slot)) (\<lambda>r.
       if rec_id r \<noteq> n then Err BeNoRequest
       else and_then (block_peek b owner h) (\<lambda>x. Ok ())))"

definition block_consume :: "block_broker \<Rightarrow> u64 \<Rightarrow> u64 \<Rightarrow> (block_error, unit) outcome \<times> block_broker" where
  "block_consume b owner h =
     or_return (block_peek b owner h) b (\<lambda>x.
     or_return (block_slot b owner h) b (\<lambda>slot.
       (Ok (), b\<lparr>records := (records b)[slot := None]\<rparr>)))"

definition block_cancel :: "block_broker \<Rightarrow> u64 \<Rightarrow> u64 \<Rightarrow> u64 \<Rightarrow> (block_error, u64) outcome \<times> block_broker" where
  "block_cancel b owner h n =
     or_return (block_slot b owner h) b (\<lambda>slot.
     or_return (expect (records b ! slot)) b (\<lambda>r.
       if rec_id r \<noteq> n then (Err BeNoRequest, b)
       else if req_phase r \<noteq> Queued then (Ok 1, b)
       else (Ok 0, b\<lparr>records := (records b)[slot := Some (r\<lparr>req_phase := Complete,
               rec_result := (rec_result r)\<lparr>cp_status := StCancelled, cp_data := replicate sector_bytes 0\<rparr>\<rparr>)]\<rparr>)))"

definition release_slot :: "u64 \<Rightarrow> request_record option \<Rightarrow> request_record option" where
  "release_slot h s =
     (case s of
        None \<Rightarrow> None
      | Some r \<Rightarrow>
          if rec_handle r = h
          then (if req_phase r = Active then Some (r\<lparr>rec_abandoned := True\<rparr>) else None)
          else Some r)"

definition block_close :: "block_broker \<Rightarrow> u64 \<Rightarrow> u64 \<Rightarrow> (block_error, unit) outcome \<times> block_broker" where
  "block_close b owner h =
     (case remove (grants b) owner h of (res, t) \<Rightarrow>
        or_return (map_err block_of_handle res) (b\<lparr>grants := t\<rparr>) (\<lambda>g.
          (Ok (), b\<lparr>grants := t, records := map (release_slot h) (records b)\<rparr>)))"

definition block_close_owner :: "block_broker \<Rightarrow> u64 \<Rightarrow> ((block_error, unit) outcome \<times> block_broker) option" where
  "block_close_owner b owner =
     drain (Suc (table_count (grants b))) (\<lambda>b. first (grants b) owner) (\<lambda>b h. block_close b owner h) b"

definition block_counts :: "block_broker \<Rightarrow> nat \<times> nat" where
  "block_counts b = (table_count (grants b), length (flatten (records b)))"

definition block_active :: "block_broker \<Rightarrow> u64 option" where
  "block_active b = map_option rec_id (find (\<lambda>r. req_phase r = Active) (flatten (records b)))"

section \<open>The invariant\<close>

definition in_grant :: "sector_grant \<Rightarrow> u64 \<Rightarrow> bool" where
  "in_grant g s \<longleftrightarrow> gr_first g \<le> s \<and> unat s < unat (gr_first g) + unat (gr_sectors g)"

definition record_ok :: "u64 \<Rightarrow> sector_grant table \<Rightarrow> u64 \<Rightarrow> request_record \<Rightarrow> bool" where
  "record_ok cap t n r \<longleftrightarrow>
     0 < rec_id r \<and> rec_id r < n \<and> length (cp_data (rec_result r)) = sector_bytes \<and>
     (cp_operation (rec_result r) \<noteq> OpFlush \<longrightarrow> rec_sector r < cap) \<and>
     (if req_phase r = Complete then completion_valid (rec_result r)
      else cp_status (rec_result r) = StSuccess \<and> cp_effect (rec_result r) = EffNone) \<and>
     (if rec_abandoned r then req_phase r = Active \<and> dead t (rec_handle r)
      else \<exists>g. view t (rec_owner r, rec_handle r) = Some (g, gr_rights g) \<and>
             (cp_operation (rec_result r) \<noteq> OpFlush \<longrightarrow> in_grant g (rec_sector r)))"

definition block_inv :: "u64 \<Rightarrow> block_broker \<Rightarrow> bool" where
  "block_inv cap b \<longleftrightarrow>
     table_inv (grants b) \<and> length (records b) = 2 \<and> 0 < next_request b \<and> next_request b \<le> max_id \<and>
     slot_keys_distinct rec_owner (records b) \<and>
     (\<forall>p h g r. view (grants b) (p, h) = Some (g, r) \<longrightarrow> r = gr_rights g \<and> grant_validate g cap = Ok ()) \<and>
     (\<forall>r\<in>set (flatten (records b)). record_ok cap (grants b) (next_request b) r) \<and>
     inj_on rec_id (set (flatten (records b))) \<and>
     (\<forall>r\<in>set (flatten (records b)). \<forall>s\<in>set (flatten (records b)).
        req_phase r = Active \<longrightarrow> req_phase s = Active \<longrightarrow> r = s)"

lemma block_invD:
  assumes "block_inv cap b"
  shows "table_inv (grants b)" and "length (records b) = 2" and "0 < next_request b" and "next_request b \<le> max_id"
    and "slot_keys_distinct rec_owner (records b)"
    and "\<And>p h g r. view (grants b) (p, h) = Some (g, r) \<Longrightarrow> r = gr_rights g \<and> grant_validate g cap = Ok ()"
    and "\<And>r. r \<in> set (flatten (records b)) \<Longrightarrow> record_ok cap (grants b) (next_request b) r"
    and "inj_on rec_id (set (flatten (records b)))"
    and "\<And>r s. r \<in> set (flatten (records b)) \<Longrightarrow> s \<in> set (flatten (records b)) \<Longrightarrow>
           req_phase r = Active \<Longrightarrow> req_phase s = Active \<Longrightarrow> r = s"
  using assms unfolding block_inv_def by blast+

lemma block_new_inv [simp]: "block_inv cap block_new"
  using slot_keys_distinct_empty [of rec_owner 2]
  by (simp add: block_inv_def block_new_def max_id_eq replicate_numeral)

lemma slot_has_simps [simp]: "\<not> slot_has P None" "slot_has P (Some r) = P r"
  by (simp_all add: slot_has_def)

lemma slot_has_Some: "slot_has P s \<Longrightarrow> \<exists>r. s = Some r \<and> P r"
  by (cases s) auto

text \<open>Replacing and dropping one record.\<close>

lemma block_inv_replace:
  assumes inv: "block_inv cap b" and i: "i < length (records b)" "records b ! i = Some r"
    and r': "rec_owner r' = rec_owner r" "rec_id r' = rec_id r" "record_ok cap (grants b) (next_request b) r'"
    and act: "req_phase r' = Active \<Longrightarrow> \<forall>s\<in>set (flatten (records b)). req_phase s = Active \<longrightarrow> s = r"
  shows "block_inv cap (b\<lparr>records := (records b)[i := Some r']\<rparr>)" (is "block_inv cap ?b")
proof -
  note keys = block_invD(5) [OF inv]
  have R': "set (flatten (records ?b)) = insert r' {y \<in> set (flatten (records b)). rec_owner y \<noteq> rec_owner r}"
    using set_flatten_replace [OF keys i, of r'] by simp
  have rin: "r \<in> set (flatten (records b))" using i by (auto simp: in_flatten_iff)
  have keys': "slot_keys_distinct rec_owner (records ?b)"
    using slot_keys_distinct_set [OF keys, of i r'] slot_keys_distinctD [OF keys _ i(1) _ i(2)] r'(1) by fastforce
  have "inj_on rec_id (set (flatten (records ?b)))"
    unfolding R' using block_invD(8) [OF inv] rin r'(2) by (auto simp: inj_on_def)
  moreover have "x = y" if "x \<in> set (flatten (records ?b))" "y \<in> set (flatten (records ?b))"
    "req_phase x = Active" "req_phase y = Active" for x y
    using that block_invD(9) [OF inv, of x y] act unfolding R' by auto
  moreover have "record_ok cap (grants b) (next_request b) x" if "x \<in> set (flatten (records ?b))" for x
    using that block_invD(7) [OF inv] r'(3) unfolding R' by auto
  ultimately show ?thesis
    unfolding block_inv_def using keys' block_invD(1-4,6) [OF inv] by simp
qed

lemma block_inv_drop:
  assumes inv: "block_inv cap b" and i: "i < length (records b)" "records b ! i = Some r"
  shows "block_inv cap (b\<lparr>records := (records b)[i := None]\<rparr>)" (is "block_inv cap ?b")
proof -
  note keys = block_invD(5) [OF inv]
  have R': "set (flatten (records ?b)) = {y \<in> set (flatten (records b)). rec_owner y \<noteq> rec_owner r}"
    using set_flatten_clear [OF keys i] by simp
  have "inj_on rec_id (set (flatten (records ?b)))"
    unfolding R' using block_invD(8) [OF inv] by (rule inj_on_subset) auto
  moreover have "x = y" if "x \<in> set (flatten (records ?b))" "y \<in> set (flatten (records ?b))"
    "req_phase x = Active" "req_phase y = Active" for x y
    using that block_invD(9) [OF inv, of x y] unfolding R' by auto
  moreover have "record_ok cap (grants b) (next_request b) x" if "x \<in> set (flatten (records ?b))" for x
    using that block_invD(7) [OF inv] unfolding R' by auto
  ultimately show ?thesis
    unfolding block_inv_def using slot_keys_distinct_clear [OF keys] block_invD(1-4,6) [OF inv] by simp
qed

section \<open>Lookups\<close>

lemma grant_lookup:
  assumes inv: "block_inv cap b"
  shows "resolve (grants b) owner h right =
    (case view (grants b) (owner, h) of None \<Rightarrow> Err HdlHandle
     | Some (g, r) \<Rightarrow> if gr_rights g AND right \<noteq> right then Err HdlDenied else Ok g)"
  using resolve_view [OF inv_keys [OF block_invD(1) [OF inv]], of owner h right] block_invD(6) [OF inv, of owner h]
  by (auto split: option.splits)

lemma block_slot_Ok:
  assumes inv: "block_inv cap b"
  shows "block_slot b owner h = Ok i \<longleftrightarrow> view (grants b) (owner, h) \<noteq> None \<and>
     position (slot_has (\<lambda>r. rec_owner r = owner \<and> rec_handle r = h)) (records b) = Some i"
  using grant_lookup [OF inv, of owner h 0]
  by (cases "position (slot_has (\<lambda>r. rec_owner r = owner \<and> rec_handle r = h)) (records b)")
    (auto simp: block_slot_def split: option.splits prod.splits)

text \<open>The request a handle refers to, if it has one; it is never an abandoned one.\<close>

lemma block_slot_record:
  assumes inv: "block_inv cap b" and s: "block_slot b owner h = Ok i"
  obtains r where "i < length (records b)" "records b ! i = Some r" "rec_owner r = owner" "rec_handle r = h"
    "\<not> rec_abandoned r" "record_ok cap (grants b) (next_request b) r"
proof -
  have v: "view (grants b) (owner, h) \<noteq> None"
    and p: "position (slot_has (\<lambda>r. rec_owner r = owner \<and> rec_handle r = h)) (records b) = Some i"
    using s block_slot_Ok [OF inv] by blast+
  obtain r where r: "records b ! i = Some r" "rec_owner r = owner" "rec_handle r = h"
    using slot_has_Some [OF position_holds [OF p]] by blast
  have ok: "record_ok cap (grants b) (next_request b) r"
    using block_invD(7) [OF inv, of r] position_less [OF p] r(1) by (auto simp: in_flatten_iff)
  then have "\<not> rec_abandoned r" using v r(2,3) by (auto simp: record_ok_def dead_def split: if_splits)
  then show ?thesis using that position_less [OF p] r ok by blast
qed

lemma block_slot_not_Panic: "block_inv cap b \<Longrightarrow> block_slot b owner h \<noteq> Panic"
  using grant_lookup [of cap b owner h 0] by (auto simp: block_slot_def split: option.splits)

lemma block_peek_Ok:
  assumes inv: "block_inv cap b" and p: "block_peek b owner h = Ok c"
  obtains i r where "block_slot b owner h = Ok i" "i < length (records b)" "records b ! i = Some r"
    "rec_owner r = owner" "rec_handle r = h" "req_phase r = Complete" "rec_result r = c" "completion_valid c"
proof -
  obtain i where s: "block_slot b owner h = Ok i" using p by (auto simp: block_peek_def and_then_Ok_iff)
  from inv s obtain r where r: "i < length (records b)" "records b ! i = Some r" "rec_owner r = owner" "rec_handle r = h"
    "record_ok cap (grants b) (next_request b) r" by (rule block_slot_record)
  then have "req_phase r = Complete" "rec_result r = c" using p s by (auto simp: block_peek_def split: if_splits)
  moreover from this have "completion_valid c" using r(5) by (simp add: record_ok_def)
  ultimately show ?thesis using that s r by blast
qed

lemma block_peek_not_Panic:
  assumes inv: "block_inv cap b"
  shows "block_peek b owner h \<noteq> Panic"
proof (cases "block_slot b owner h")
  case (Ok i)
  from inv Ok obtain r where "records b ! i = Some r" by (rule block_slot_record)
  then show ?thesis using Ok by (simp add: block_peek_def)
qed (use block_slot_not_Panic [OF inv] in \<open>auto simp: block_peek_def\<close>)

section \<open>Operations keep the invariant\<close>

lemma record_ok_grants:
  assumes "record_ok cap t n r" and "\<And>h. dead t h \<Longrightarrow> dead t' h"
    and "\<And>k v. view t k = Some v \<Longrightarrow> view t' k = Some v" and "n \<le> n'"
  shows "record_ok cap t' n' r"
  using assms unfolding record_ok_def by (auto split: if_splits)

lemma block_grant_inv:
  assumes inv: "block_inv cap b" and g: "block_grant b owner g cap = (res, b')"
  shows "block_inv cap b' \<and> res \<noteq> Panic"
proof (cases "grant_validate g cap")
  case Panic
  then show ?thesis by (auto simp: grant_validate_def split: if_splits)
next
  case (Err e)
  then show ?thesis using g inv by (auto simp: block_grant_def)
next
  case (Ok u)
  obtain r t where gr: "grant (grants b) owner g (gr_rights g) = (r, t)" by fastforce
  note tinv = block_invD(1) [OF inv]
  have b': "b' = b\<lparr>grants := t\<rparr>" "res = map_err block_of_handle r"
    using g gr Ok by (auto simp: block_grant_def)
  show ?thesis
  proof (cases "\<exists>h. r = Ok h")
    case False
    then show ?thesis using grant_error [OF gr] b' inv by auto
  next
    case True
    then obtain h where h: "grant (grants b) owner g (gr_rights g) = (Ok h, t)" using gr by blast
    have v: "view t = (view (grants b))((owner, h) \<mapsto> (g, gr_rights g))" using grant_view [OF tinv h] .
    have dd: "dead t x" if "dead (grants b) x" for x using step_dead [OF step_grant [OF gr] tinv that] .
    have keep: "view t k = Some y" if "view (grants b) k = Some y" for k y
      using ht.grant_keeps_others [OF tinv h, of "fst k" "snd k" y] that by simp
    have "record_ok cap t (next_request b) x" if "x \<in> set (flatten (records b))" for x
      using record_ok_grants [OF block_invD(7) [OF inv that] dd keep] by blast
    moreover have "r' = gr_rights g' \<and> grant_validate g' cap = Ok ()" if "view t (p, k) = Some (g', r')" for p k g' r'
      using that Ok block_invD(6) [OF inv, of p k g' r'] v by (auto split: if_splits)
    ultimately have "block_inv cap b'"
      unfolding block_inv_def b'(1) using grant_inv [OF tinv gr] block_invD(2-5,8,9) [OF inv] by simp
    then show ?thesis using b' True by auto
  qed
qed

lemma validate_bounds:
  assumes "grant_validate g cap = Ok ()"
  shows "unat (gr_first g) + unat (gr_sectors g) \<le> unat cap" and "gr_sectors g \<noteq> 0"
    and "unat (gr_first g) + unat (gr_sectors g) < 2 ^ 64"
proof -
  have ne: "gr_sectors g \<noteq> 0" and "\<exists>e. checked_add (gr_first g) (gr_sectors g) = Some e \<and> e \<le> cap"
    using assms by (auto simp: grant_validate_def not_less split: if_splits option.splits)
  then obtain e where e: "checked_add (gr_first g) (gr_sectors g) = Some e" "e \<le> cap" by blast
  show "gr_sectors g \<noteq> 0" by (rule ne)
  show "unat (gr_first g) + unat (gr_sectors g) \<le> unat cap"
    using checked_add_Some_unat [OF e(1)] e(2) by (simp add: word_le_nat_alt)
  show "unat (gr_first g) + unat (gr_sectors g) < 2 ^ 64" using e(1) by (simp add: checked_add_Some_iff)
qed

lemma grant_sector_in:
  assumes "grant_validate g cap = Ok ()" and "grant_sector g rel = Ok s"
  shows "in_grant g s \<and> s < cap \<and> unat s = unat (gr_first g) + unat rel"
proof -
  have rel: "rel < gr_sectors g" "checked_add (gr_first g) rel = Some s"
    using assms(2) by (auto simp: grant_sector_def not_le split: if_splits option.splits)
  then have "unat s = unat (gr_first g) + unat rel" "unat rel < unat (gr_sectors g)"
    using checked_add_Some_unat by (auto simp: word_less_nat_alt)
  then show ?thesis
    using validate_bounds(1) [OF assms(1)] by (simp add: in_grant_def word_less_nat_alt word_le_nat_alt)
qed

lemma block_check_Ok:
  assumes inv: "block_inv cap b" and c: "block_check b owner h op rel dev = Ok s"
  obtains g where "view (grants b) (owner, h) = Some (g, gr_rights g)" "gr_rights g AND op_right op = op_right op"
    "op = OpFlush \<Longrightarrow> s = 0" "op \<noteq> OpFlush \<Longrightarrow> grant_sector g rel = Ok s" "op = OpRead \<or> \<not> dev_read_only dev"
    "grant_validate g cap = Ok ()"
proof -
  obtain g where r: "resolve (grants b) owner h (op_right op) = Ok g"
    using c by (cases "resolve (grants b) owner h (op_right op)") (auto simp: block_check_def)
  then have s: "(if op = OpFlush then Ok 0 else grant_sector g rel) = Ok s" "op = OpRead \<or> \<not> dev_read_only dev"
    using c by (auto simp: block_check_def and_then_Ok_iff split: if_splits)
  obtain rt where v: "view (grants b) (owner, h) = Some (g, rt)" "gr_rights g AND op_right op = op_right op"
    using r grant_lookup [OF inv, of owner h "op_right op"] by (auto split: option.splits if_splits)
  then have "rt = gr_rights g" "grant_validate g cap = Ok ()" using block_invD(6) [OF inv v(1)] by auto
  then show ?thesis by (intro that [of g]) (use v s in \<open>auto split: if_splits\<close>)
qed

lemma block_check_not_Panic: "block_inv cap b \<Longrightarrow> block_check b owner h op rel dev \<noteq> Panic"
  using grant_lookup [of cap b owner h "op_right op"]
  by (auto simp: block_check_def grant_sector_def and_then_Panic_iff split: option.splits if_splits)

lemma next_id_after_Some:
  "next_id_after n = Some m \<Longrightarrow> unat m = Suc (unat n) \<and> m \<le> max_id"
  using checked_add_Some_unat [of n 1] by (auto simp: next_id_after_def split: option.splits if_splits)

lemma block_admit_cases:
  assumes inv: "block_inv cap b" and a: "block_admit b owner h op rel data dev = (res, b')"
  obtains (refused) e where "res = Err e" "b' = b"
  | (admitted) s i n where "res = Ok (next_request b)" "block_check b owner h op rel dev = Ok s"
      "\<forall>r\<in>set (flatten (records b)). rec_owner r \<noteq> owner" "i < length (records b)" "records b ! i = None"
      "next_id_after (next_request b) = Some n"
      "b' = b\<lparr>next_request := n, records := (records b)[i := Some \<lparr>rec_owner = owner, rec_handle = h, rec_sector = s,
            req_phase = Queued, rec_abandoned = False,
            rec_result = \<lparr>cp_id = next_request b, cp_operation = op, cp_status = StSuccess,
                          cp_effect = EffNone, cp_data = data\<rparr>\<rparr>]\<rparr>"
proof (cases "block_check b owner h op rel dev")
  case (Ok s)
  show ?thesis
  proof (cases "\<exists>r\<in>set (flatten (records b)). rec_owner r = owner")
    case True
    then show ?thesis using a Ok refused by (auto simp: block_admit_def)
  next
    case free: False
    show ?thesis
    proof (cases "position (\<lambda>s. s = None) (records b)")
      case None
      then show ?thesis using a Ok free refused by (auto simp: block_admit_def)
    next
      case (Some i)
      note slot = Some
      show ?thesis
      proof (cases "next_id_after (next_request b)")
        case None
        then show ?thesis using a Ok free refused slot by (auto simp: block_admit_def)
      next
        case (Some n)
        show ?thesis
          by (rule admitted [OF _ Ok _ position_less [OF slot] position_holds [OF slot] Some])
            (use a Ok free slot Some in \<open>auto simp: block_admit_def\<close>)
      qed
    qed
  qed
next
  case (Err e)
  then have "res = Err e" "b' = b" using a by (simp_all add: block_admit_def)
  then show ?thesis by (rule refused)
next
  case Panic
  then show ?thesis using block_check_not_Panic [OF inv] by blast
qed

lemma block_admit_inv:
  assumes inv: "block_inv cap b" and len: "length data = sector_bytes"
    and a: "block_admit b owner h op rel data dev = (res, b')"
  shows "block_inv cap b' \<and> res \<noteq> Panic"
  using inv a
proof (cases rule: block_admit_cases)
  case (refused e)
  then show ?thesis using inv by simp
next
  case (admitted s i n)
  let ?r = "\<lparr>rec_owner = owner, rec_handle = h, rec_sector = s, req_phase = Queued, rec_abandoned = False,
    rec_result = \<lparr>cp_id = next_request b, cp_operation = op, cp_status = StSuccess, cp_effect = EffNone, cp_data = data\<rparr>\<rparr>"
  note keys = block_invD(5) [OF inv]
  have n: "next_request b < n" "n \<le> max_id" "0 < n"
    using next_id_after_Some [OF admitted(6)] by (auto simp: word_less_nat_alt)
  have R': "set (flatten (records b')) = insert ?r (set (flatten (records b)))"
    using set_flatten_fill [OF admitted(4,5)] admitted(7) by simp
  from inv admitted(2) obtain g where g: "view (grants b) (owner, h) = Some (g, gr_rights g)"
    "op \<noteq> OpFlush \<longrightarrow> grant_sector g rel = Ok s" "grant_validate g cap = Ok ()"
    by (rule block_check_Ok) blast
  have "record_ok cap (grants b) n ?r"
    using g grant_sector_in [OF g(3)] block_invD(3) [OF inv] n(1) len
    by (auto simp: record_ok_def rec_id_def)
  moreover have "record_ok cap (grants b) n x" if "x \<in> set (flatten (records b))" for x
    using record_ok_grants [OF block_invD(7) [OF inv that], of "grants b" n] n(1) by simp
  ultimately have ok: "record_ok cap (grants b) n x" if "x \<in> set (flatten (records b'))" for x
    using that R' by auto
  have ids: "rec_id x < next_request b" if "x \<in> set (flatten (records b))" for x
    using block_invD(7) [OF inv that] by (simp add: record_ok_def)
  have inj: "inj_on rec_id (set (flatten (records b')))"
  proof -
    have "next_request b \<notin> rec_id ` set (flatten (records b))"
    proof
      assume "next_request b \<in> rec_id ` set (flatten (records b))"
      then obtain x where "x \<in> set (flatten (records b))" "next_request b = rec_id x" by blast
      then show False using ids [of x] by simp
    qed
    moreover have "rec_id ?r = next_request b" by (simp add: rec_id_def)
    ultimately have "rec_id ?r \<notin> rec_id ` (set (flatten (records b)) - {?r})" by (simp add: image_iff)
    then show ?thesis using block_invD(8) [OF inv] by (simp add: R')
  qed
  have keys': "slot_keys_distinct rec_owner (records b')"
    using slot_keys_distinct_set [OF keys, of i ?r] admitted(3,7) by (force simp: in_flatten_iff)
  have act: "x = y" if "x \<in> set (flatten (records b'))" "y \<in> set (flatten (records b'))"
    "req_phase x = Active" "req_phase y = Active" for x y
    using that block_invD(9) [OF inv, of x y] unfolding R' by auto
  have "block_inv cap b'"
    unfolding block_inv_def using ok inj keys' act n block_invD(1,2,6) [OF inv] admitted(7) by simp
  then show ?thesis using admitted(1) by simp
qed

lemma block_start_cases:
  assumes "block_start b = (res, b')"
  obtains (idle) "res = None" "b' = b"
      "(\<exists>r\<in>set (flatten (records b)). req_phase r = Active) \<or> (\<forall>r\<in>set (flatten (records b)). req_phase r \<noteq> Queued)"
  | (started) i r where "\<forall>r\<in>set (flatten (records b)). req_phase r \<noteq> Active" "i < length (records b)"
      "records b ! i = Some r" "req_phase r = Queued"
      "\<forall>s\<in>set (flatten (records b)). req_phase s = Queued \<longrightarrow> rec_id r \<le> rec_id s"
      "res = Some \<lparr>pn_owner = rec_owner r, pn_id = rec_id r, pn_operation = cp_operation (rec_result r),
                     pn_sector = rec_sector r, pn_data = cp_data (rec_result r)\<rparr>"
      "b' = b\<lparr>records := (records b)[i := Some (r\<lparr>req_phase := Active\<rparr>)]\<rparr>"
proof (cases "\<exists>r\<in>set (flatten (records b)). req_phase r = Active")
  case True
  then show ?thesis using assms idle by (auto simp: block_start_def)
next
  case none: False
  let ?q = "filter (\<lambda>i. slot_has (\<lambda>r. req_phase r = Queued) (records b ! i)) [0..<length (records b)]"
  show ?thesis
  proof (cases "min_by_key (slot_id (records b)) ?q")
    case None
    then have "\<not> slot_has (\<lambda>r. req_phase r = Queued) (records b ! i)" if "i < length (records b)" for i
      using that by (simp add: filter_empty_conv)
    then have noq: "req_phase r \<noteq> Queued" if "i < length (records b)" "records b ! i = Some r" for i r
      using that(2) slot_has_simps(2) [of "\<lambda>r. req_phase r = Queued" r] that(1) by metis
    have "req_phase r \<noteq> Queued" if "r \<in> set (flatten (records b))" for r
      using that noq unfolding in_flatten_iff by blast
    moreover have "res = None" "b' = b" using assms none None by (auto simp: block_start_def)
    ultimately show ?thesis using idle by blast
  next
    case (Some i)
    note m = min_by_key_Some [OF Some]
    then have i: "i < length (records b)" and "slot_has (\<lambda>r. req_phase r = Queued) (records b ! i)" by auto
    then obtain r where r: "records b ! i = Some r" "req_phase r = Queued" using slot_has_Some by blast
    have "rec_id r \<le> rec_id s" if sq: "s \<in> set (flatten (records b))" "req_phase s = Queued" for s
    proof -
      obtain j where "j < length (records b)" "records b ! j = Some s" using sq(1) by (auto simp: in_flatten_iff)
      then have "j \<in> set ?q" "slot_id (records b) j = rec_id s" using sq(2) by (auto simp: slot_id_def)
      then show ?thesis using m r(1) by (auto simp: slot_id_def)
    qed
    then show ?thesis using started [OF _ i r] assms none Some r by (auto simp: block_start_def)
  qed
qed

lemma block_start_inv:
  assumes inv: "block_inv cap b" and s: "block_start b = (res, b')"
  shows "block_inv cap b'"
  using s
proof (cases rule: block_start_cases)
  case (started i r)
  have ok: "record_ok cap (grants b) (next_request b) r"
    using block_invD(7) [OF inv, of r] started(2,3) by (auto simp: in_flatten_iff)
  then have "record_ok cap (grants b) (next_request b) (r\<lparr>req_phase := Active\<rparr>)"
    using started(4) by (auto simp: record_ok_def rec_id_def split: if_splits)
  then show ?thesis
    using block_inv_replace [OF inv started(2,3), of "r\<lparr>req_phase := Active\<rparr>"] started(1,7) by (simp add: rec_id_def)
qed (use inv in simp)

lemma finish_position:
  assumes inv: "block_inv cap b" and i: "i < length (records b)" "records b ! i = Some r" "req_phase r = Active"
  shows "position (slot_has (\<lambda>x. rec_id x = rec_id r \<and> req_phase x = Active)) (records b) = Some i"
proof (rule position_unique)
  show "i < length (records b)" "slot_has (\<lambda>x. rec_id x = rec_id r \<and> req_phase x = Active) (records b ! i)"
    using i by simp_all
next
  fix j assume j: "j < length (records b)" "slot_has (\<lambda>x. rec_id x = rec_id r \<and> req_phase x = Active) (records b ! j)"
  then obtain s where s: "records b ! j = Some s" "req_phase s = Active" using slot_has_Some by blast
  then have "s = r" using block_invD(9) [OF inv, of s r] i j(1) by (auto simp: in_flatten_iff)
  then show "j = i" using slot_keys_distinctD [OF block_invD(5) [OF inv] j(1) i(1) s(1) i(2)] by simp
qed

definition finished :: "request_record \<Rightarrow> status \<Rightarrow> bytes \<Rightarrow> request_record" where
  "finished r st data = r\<lparr>req_phase := Complete, rec_result := (rec_result r)\<lparr>cp_status := st,
     cp_effect := finish_effect (cp_operation (rec_result r)) st,
     cp_data := (if cp_operation (rec_result r) = OpRead \<and> st = StSuccess then data else replicate sector_bytes 0)\<rparr>\<rparr>"

lemma finished_simps [simp]:
  "rec_owner (finished r st data) = rec_owner r" "rec_handle (finished r st data) = rec_handle r"
  "rec_sector (finished r st data) = rec_sector r" "rec_abandoned (finished r st data) = rec_abandoned r"
  "req_phase (finished r st data) = Complete" "rec_id (finished r st data) = rec_id r"
  "cp_operation (rec_result (finished r st data)) = cp_operation (rec_result r)"
  by (simp_all add: finished_def rec_id_def)

lemma block_finish_eq:
  assumes "block_inv cap b" and "i < length (records b)" "records b ! i = Some r" "req_phase r = Active"
  shows "block_finish b (rec_id r) st data =
    (Ok (), b\<lparr>records := (records b)[i := if rec_abandoned r then None else Some (finished r st data)]\<rparr>)"
  using finish_position [OF assms] assms(3) by (simp add: block_finish_def finished_def Let_def)

lemma finished_valid:
  assumes "record_ok cap t n r" and "n \<le> max_id" and "length data = sector_bytes"
    and "st = StCancelled \<Longrightarrow> cp_operation (rec_result r) = OpRead"
  shows "completion_valid (rec_result (finished r st data))"
proof -
  have "rec_id r \<noteq> 0" "rec_id r \<le> max_id" using assms(1,2) by (auto simp: record_ok_def)
  moreover have "valid_effect op st (finish_effect op st)" if "st = StCancelled \<longrightarrow> op = OpRead" for op
    using that by (cases st) (auto simp: valid_effect_def finish_effect_def)
  ultimately show ?thesis
    using assms(3,4) by (auto simp: completion_valid_def finished_def rec_id_def completion_length_def)
qed

lemma block_finish_inv:
  assumes inv: "block_inv cap b" and len: "length data = sector_bytes"
    and a: "block_active b = Some n" and st: "st \<noteq> StCancelled" and f: "block_finish b n st data = (res, b')"
  shows "block_inv cap b' \<and> res = Ok ()"
proof -
  obtain r where r: "r \<in> set (flatten (records b))" "req_phase r = Active" "rec_id r = n"
    using a by (auto simp: block_active_def find_Some_iff in_set_conv_nth)
  then obtain i where i: "i < length (records b)" "records b ! i = Some r" by (auto simp: in_flatten_iff)
  have eq: "block_finish b n st data =
    (Ok (), b\<lparr>records := (records b)[i := if rec_abandoned r then None else Some (finished r st data)]\<rparr>)"
    using block_finish_eq [OF inv i r(2)] r(3) by simp
  note ok = block_invD(7) [OF inv r(1)]
  show ?thesis
  proof (cases "rec_abandoned r")
    case True
    then show ?thesis using eq f block_inv_drop [OF inv i] by simp
  next
    case False
    have "record_ok cap (grants b) (next_request b) (finished r st data)"
    proof -
      have v: "completion_valid (rec_result (finished r st data))"
        using finished_valid [OF ok block_invD(4) [OF inv] len] st by blast
      then have "length (cp_data (rec_result (finished r st data))) = sector_bytes" by (simp add: completion_valid_def)
      then show ?thesis using v ok False by (simp add: record_ok_def)
    qed
    then show ?thesis
      using eq f False block_inv_replace [OF inv i, of "finished r st data"] by simp
  qed
qed

lemma block_consume_inv:
  assumes inv: "block_inv cap b" and c: "block_consume b owner h = (res, b')"
  shows "block_inv cap b' \<and> res \<noteq> Panic"
proof (cases "block_peek b owner h")
  case (Ok x)
  from inv Ok obtain i r where i: "block_slot b owner h = Ok i" "i < length (records b)" "records b ! i = Some r"
    by (rule block_peek_Ok)
  then show ?thesis using c Ok block_inv_drop [OF inv i(2,3)] by (auto simp: block_consume_def)
qed (use c inv block_peek_not_Panic [OF inv] in \<open>auto simp: block_consume_def\<close>)

lemma block_cancel_inv:
  assumes inv: "block_inv cap b" and c: "block_cancel b owner h n = (res, b')"
  shows "block_inv cap b' \<and> res \<noteq> Panic"
proof (cases "block_slot b owner h")
  case (Ok i)
  from inv Ok obtain r where r: "i < length (records b)" "records b ! i = Some r" "\<not> rec_abandoned r"
    "record_ok cap (grants b) (next_request b) r" by (rule block_slot_record)
  let ?r = "r\<lparr>req_phase := Complete, rec_result := (rec_result r)\<lparr>cp_status := StCancelled, cp_data := replicate sector_bytes 0\<rparr>\<rparr>"
  have "record_ok cap (grants b) (next_request b) ?r" if "req_phase r = Queued"
  proof -
    have "rec_id r \<noteq> 0" "rec_id r \<le> max_id" using r(4) block_invD(4) [OF inv] by (auto simp: record_ok_def)
    then show ?thesis
      using r(3,4) that by (auto simp: record_ok_def rec_id_def completion_valid_def valid_effect_def)
  qed
  then show ?thesis
    using c Ok r inv block_inv_replace [OF inv r(1,2), of ?r] by (auto simp: block_cancel_def rec_id_def split: if_splits)
qed (use c inv block_slot_not_Panic [OF inv] in \<open>auto simp: block_cancel_def\<close>)

section \<open>Revocation\<close>

lemma in_released:
  "x \<in> set (flatten (map (release_slot h) rs)) \<longleftrightarrow>
   (\<exists>r\<in>set (flatten rs). (rec_handle r \<noteq> h \<and> x = r) \<or>
      (rec_handle r = h \<and> req_phase r = Active \<and> x = r\<lparr>rec_abandoned := True\<rparr>))"
proof (induction rs)
  case (Cons s rs)
  then show ?case by (cases s) (auto simp: release_slot_def)
qed simp

lemma release_owner: "release_slot h (Some r) = Some r' \<Longrightarrow> rec_owner r' = rec_owner r" "release_slot h None = None"
  by (auto simp: release_slot_def split: if_splits)

lemma block_close_Ok:
  assumes inv: "block_inv cap b" and v: "view (grants b) (owner, h) = Some (g, rt)"
  obtains b' where "block_close b owner h = (Ok (), b')" "block_inv cap b'"
    "view (grants b') = (view (grants b))((owner, h) := None)"
    "Suc (table_count (grants b')) = table_count (grants b)"
    "records b' = map (release_slot h) (records b)" "dead (grants b') h"
proof -
  note tinv = block_invD(1) [OF inv]
  obtain t where t: "remove (grants b) owner h = (Ok g, t)" "view t = (view (grants b))((owner, h) := None)"
    using view_remove [OF tinv v] by blast
  let ?b = "b\<lparr>grants := t, records := map (release_slot h) (records b)\<rparr>"
  have close: "block_close b owner h = (Ok (), ?b)" using t(1) by (simp add: block_close_def)
  have tinv': "table_inv t" by (rule remove_inv [OF tinv t(1)])
  have dd: "dead t x" if "dead (grants b) x" for x using step_dead [OF step_remove [OF t(1)] tinv that] .
  have hdead: "dead t h"
  proof -
    have "view t (q, h) = None" for q using t(2) view_owner [OF tinv v, of q] by (cases "view (grants b) (q, h)") auto
    then show ?thesis using view_issued [OF tinv v] remove_view(3) [OF tinv t(1)] by (simp add: dead_def)
  qed
  have ok: "record_ok cap t (next_request b) x" if x: "x \<in> set (flatten (records ?b))" for x
  proof -
    obtain r where r: "r \<in> set (flatten (records b))"
      and c: "(rec_handle r \<noteq> h \<and> x = r) \<or> (rec_handle r = h \<and> req_phase r = Active \<and> x = r\<lparr>rec_abandoned := True\<rparr>)"
      using x by (auto simp: in_released)
    note okr = block_invD(7) [OF inv r]
    show ?thesis
    proof (cases "rec_handle r = h")
      case True
      then show ?thesis using okr c hdead by (simp add: record_ok_def rec_id_def)
    next
      case False
      then have "view t (rec_owner r, rec_handle r) = view (grants b) (rec_owner r, rec_handle r)" "x = r"
        using t(2) c by auto
      then show ?thesis using okr dd by (cases "rec_abandoned r") (simp_all add: record_ok_def)
    qed
  qed
  have sub: "\<exists>r\<in>set (flatten (records b)). rec_id r = rec_id x \<and> rec_handle r = rec_handle x \<and>
      (rec_handle x = h \<longrightarrow> x = r\<lparr>rec_abandoned := True\<rparr>) \<and> (rec_handle x \<noteq> h \<longrightarrow> x = r) \<and> req_phase r = req_phase x"
    if x: "x \<in> set (flatten (records ?b))" for x
    using x by (auto simp: in_released rec_id_def)
  have inj: "inj_on rec_id (set (flatten (records ?b)))"
  proof (rule inj_onI)
    fix x y assume xy: "x \<in> set (flatten (records ?b))" "y \<in> set (flatten (records ?b))" "rec_id x = rec_id y"
    then show "x = y"
      using sub [OF xy(1)] sub [OF xy(2)] block_invD(8) [OF inv] by (metis inj_on_eq_iff)
  qed
  have act: "x = y" if xy: "x \<in> set (flatten (records ?b))" "y \<in> set (flatten (records ?b))"
    "req_phase x = Active" "req_phase y = Active" for x y
    using sub [OF xy(1)] sub [OF xy(2)] block_invD(9) [OF inv] xy(3,4) by metis
  have keys': "slot_keys_distinct rec_owner (records ?b)"
    using slot_keys_distinct_map [OF block_invD(5) [OF inv], of "release_slot h", OF release_owner] by simp
  have "r' = gr_rights g' \<and> grant_validate g' cap = Ok ()" if "view t (p, k) = Some (g', r')" for p k g' r'
    using that block_invD(6) [OF inv, of p k g' r'] t(2) by (auto split: if_splits)
  then have "block_inv cap ?b"
    unfolding block_inv_def using tinv' ok inj act keys' block_invD(2-4) [OF inv] by simp
  then show ?thesis
    using that [OF close] t(2) remove_count [OF tinv t(1)] hdead by simp
qed

lemma block_close_error:
  assumes inv: "block_inv cap b" and v: "view (grants b) (owner, h) = None"
  shows "block_close b owner h = (Err BeHandle, b)"
proof -
  obtain r t where rm: "remove (grants b) owner h = (r, t)" by fastforce
  moreover have "r \<noteq> Ok x" for x using remove_view(1) [OF block_invD(1) [OF inv]] rm v by fastforce
  ultimately have "r = Err HdlHandle \<and> t = grants b"
    using remove_error [OF block_invD(1) [OF inv] rm] by blast
  then show ?thesis using rm by (simp add: block_close_def)
qed

lemma block_close_inv:
  assumes inv: "block_inv cap b" and cl: "block_close b owner h = (r, b')"
  shows "block_inv cap b' \<and> r \<noteq> Panic"
proof (cases "view (grants b) (owner, h)")
  case None
  with block_close_error [OF inv None] cl inv show ?thesis by auto
next
  case (Some y)
  obtain g rt where "view (grants b) (owner, h) = Some (g, rt)" using Some by (cases y) auto
  from block_close_Ok [OF inv this] cl show ?thesis by (metis outcome.distinct(3) prod.inject)
qed

interpretation block_drain: owner_drain "\<lambda>b. first (grants b) owner" "\<lambda>b h. block_close b owner h"
    "\<lambda>b. table_count (grants b)" "block_inv cap" for owner cap
proof unfold_locales
  fix b h
  assume inv: "block_inv cap b" and "first (grants b) owner = Some h"
  then obtain g r where "view (grants b) (owner, h) = Some (g, r)"
    using first_Some [OF block_invD(1) [OF inv]] by blast
  from block_close_Ok [OF inv this]
  show "\<exists>b'. block_close b owner h = (Ok (), b') \<and> block_inv cap b' \<and>
      table_count (grants b') < table_count (grants b)"
    by (metis lessI)
qed

lemma block_close_owner_total:
  assumes inv: "block_inv cap b"
  obtains b' where "block_close_owner b p = Some (Ok (), b')" "block_inv cap b'" "\<And>h. view (grants b') (p, h) = None"
    "block_active b' = block_active b"
proof -
  obtain b' where b': "block_close_owner b p = Some (Ok (), b')" "block_inv cap b'" "first (grants b') p = None"
    using block_drain.drain_total [OF inv, of "Suc (table_count (grants b))" p] unfolding block_close_owner_def by blast
  have act: "block_active s' = block_active s" if "records s' = map (release_slot h) (records s)" for s s' h
  proof -
    have "map_option rec_id (find (\<lambda>r. req_phase r = Active) (flatten (map (release_slot h) rs))) =
        map_option rec_id (find (\<lambda>r. req_phase r = Active) (flatten rs))" for rs
    proof (induction rs)
      case (Cons s rs)
      then show ?case by (cases s) (auto simp: release_slot_def rec_id_def)
    qed simp
    then show ?thesis using that by (simp add: block_active_def)
  qed
  have "block_active b' = block_active b"
  proof (rule block_drain.drain_preserves [where P = "\<lambda>s. block_active s = block_active b" and s = b
        and n = "Suc (table_count (grants b))" and owner = p and cap = cap])
    fix s h s'
    assume s: "block_inv cap s" "block_active s = block_active b" "first (grants s) p = Some h" "block_close s p h = (Ok (), s')"
    obtain g r where v: "view (grants s) (p, h) = Some (g, r)"
      using first_Some [OF block_invD(1) [OF s(1)] s(3)] by blast
    obtain t where "block_close s p h = (Ok (), t)" "records t = map (release_slot h) (records s)"
      using block_close_Ok [OF s(1) v] by metis
    then show "block_active s' = block_active b" using act [of s' h s] s(2,4) by simp
  qed (use inv b'(1) in \<open>simp_all add: block_close_owner_def\<close>)
  then show ?thesis using that b' first_None [OF block_invD(1) [OF b'(2)] b'(3)] by blast
qed

section \<open>Runs of the broker\<close>

text \<open>
  The steps of the block service over a device of \<open>cap\<close> sectors. The dispatcher (\<open>Service::tick\<close> in
  \<open>kernel/src/process/runtime/block/service.rs\<close>) finishes only the active request, and maps a device
  result to \<open>Success\<close>, \<open>Timeout\<close>, \<open>Protocol\<close>, \<open>Io\<close> or \<open>Unavailable\<close>, never to \<open>Cancelled\<close>.
\<close>

inductive block_step :: "u64 \<Rightarrow> block_broker \<Rightarrow> block_broker \<Rightarrow> bool" for cap where
  bstep_grant: "block_grant b p g cap = (r, b') \<Longrightarrow> block_step cap b b'"
| bstep_admit: "block_admit b p h op rel data dev = (r, b') \<Longrightarrow> length data = sector_bytes \<Longrightarrow> block_step cap b b'"
| bstep_start: "block_start b = (x, b') \<Longrightarrow> block_step cap b b'"
| bstep_finish: "block_finish b n st data = (r, b') \<Longrightarrow> block_active b = Some n \<Longrightarrow> st \<noteq> StCancelled \<Longrightarrow>
    length data = sector_bytes \<Longrightarrow> block_step cap b b'"
| bstep_consume: "block_consume b p h = (r, b') \<Longrightarrow> block_step cap b b'"
| bstep_cancel: "block_cancel b p h n = (r, b') \<Longrightarrow> block_step cap b b'"
| bstep_close: "block_close b p h = (r, b') \<Longrightarrow> block_step cap b b'"
| bstep_close_owner: "block_close_owner b p = Some (r, b') \<Longrightarrow> block_step cap b b'"

lemma step_block_inv: "block_step cap b b' \<Longrightarrow> block_inv cap b \<Longrightarrow> block_inv cap b'"
proof (induction rule: block_step.induct)
  case (bstep_finish b n st data r b')
  then show ?case using block_finish_inv by blast
next
  case (bstep_close_owner b p r b')
  obtain b2 where "block_close_owner b p = Some (Ok (), b2)" "block_inv cap b2"
    using block_close_owner_total [OF bstep_close_owner(2)] by metis
  with bstep_close_owner(1) show ?case by simp
qed (auto dest: block_grant_inv block_admit_inv block_start_inv block_consume_inv block_cancel_inv block_close_inv)

lemma run_block_inv: "(block_step cap)\<^sup>*\<^sup>* b b' \<Longrightarrow> block_inv cap b \<Longrightarrow> block_inv cap b'"
  by (induction rule: rtranclp_induct) (auto intro: step_block_inv)

lemma block_active_iff:
  "block_inv cap b \<Longrightarrow> block_active b = Some n \<longleftrightarrow> (\<exists>r\<in>set (flatten (records b)). req_phase r = Active \<and> rec_id r = n)"
proof -
  assume inv: "block_inv cap b"
  show ?thesis
  proof (cases "find (\<lambda>r. req_phase r = Active) (flatten (records b))")
    case None
    moreover from this have "req_phase r \<noteq> Active" if "r \<in> set (flatten (records b))" for r
      using that by (auto simp: find_None_iff)
    ultimately show ?thesis by (auto simp: block_active_def)
  next
    case (Some r)
    then have r: "r \<in> set (flatten (records b))" "req_phase r = Active" by (auto simp: find_Some_iff in_set_conv_nth)
    have "(\<exists>s\<in>set (flatten (records b)). req_phase s = Active \<and> rec_id s = n) \<longleftrightarrow> rec_id r = n"
      using r block_invD(9) [OF inv r(1) _ r(2)] by blast
    then show ?thesis using Some by (simp add: block_active_def)
  qed
qed

section \<open>Properties\<close>

lemma block_wait_not_Panic:
  assumes inv: "block_inv cap b"
  shows "block_wait b p h n \<noteq> Panic"
proof (cases "block_slot b p h")
  case (Ok i)
  from inv Ok obtain r where "records b ! i = Some r" by (rule block_slot_record)
  then show ?thesis using Ok block_peek_not_Panic [OF inv, of p h] by (auto simp: block_wait_def and_then_Panic_iff)
qed (use block_slot_not_Panic [OF inv] in \<open>auto simp: block_wait_def\<close>)

lemma block_geometry_not_Panic: "block_inv cap b \<Longrightarrow> block_geometry b p h dev \<noteq> Panic"
  using grant_lookup [of cap b p h 0] by (auto simp: block_geometry_def and_then_Panic_iff split: option.splits)

text \<open>C33 In every state of the block broker that its calls can reach, over a device of \<open>cap\<close> sectors, no call
  panics: granting, the geometry query, admission of a sector's data, waiting, peeking, cancelling, consuming and
  closing answer, closing an owner returns, and finishing the active request, the only one the dispatcher finishes,
  succeeds with every status a device can report, all but \<open>Cancelled\<close>. The device has at most one request, and every completion a process
  can observe is a record the ABI decodes to the same value: its effect agrees with its operation and status, and
  data is present exactly for a successful read.\<close>

theorem block_results_decode:
  assumes "(block_step cap)\<^sup>*\<^sup>* block_new b" and "length data = sector_bytes"
  shows "(\<forall>c. block_peek b p h = Ok c \<longrightarrow> completion_decode (completion_encode c) = Ok c) \<and>
    fst (block_grant b p g cap) \<noteq> Panic \<and> block_geometry b p h dev \<noteq> Panic \<and>
    fst (block_admit b p h op rel data dev) \<noteq> Panic \<and> block_wait b p h n \<noteq> Panic \<and>
    block_peek b p h \<noteq> Panic \<and> fst (block_cancel b p h n) \<noteq> Panic \<and> fst (block_consume b p h) \<noteq> Panic \<and>
    fst (block_close b p h) \<noteq> Panic \<and> (\<exists>b'. block_close_owner b p = Some (Ok (), b')) \<and>
    (block_active b = Some k \<longrightarrow> st \<noteq> StCancelled \<longrightarrow> fst (block_finish b k st data) = Ok ()) \<and>
    card {r \<in> set (flatten (records b)). req_phase r = Active} \<le> 1"
proof (intro conjI allI impI)
  have inv: "block_inv cap b" by (rule run_block_inv [OF assms(1)]) simp
  show "completion_decode (completion_encode c) = Ok c" if "block_peek b p h = Ok c" for c
    using block_peek_Ok [OF inv that] completion_codec.decode_encode by metis
  show "fst (block_grant b p g cap) \<noteq> Panic" using block_grant_inv [OF inv prod.collapse [symmetric]] by blast
  show "block_geometry b p h dev \<noteq> Panic" by (rule block_geometry_not_Panic [OF inv])
  show "fst (block_admit b p h op rel data dev) \<noteq> Panic" using block_admit_inv [OF inv assms(2) prod.collapse [symmetric]] by blast
  show "block_wait b p h n \<noteq> Panic" by (rule block_wait_not_Panic [OF inv])
  show "block_peek b p h \<noteq> Panic" by (rule block_peek_not_Panic [OF inv])
  show "fst (block_cancel b p h n) \<noteq> Panic" using block_cancel_inv [OF inv prod.collapse [symmetric]] by blast
  show "fst (block_consume b p h) \<noteq> Panic" using block_consume_inv [OF inv prod.collapse [symmetric]] by blast
  show "fst (block_close b p h) \<noteq> Panic" using block_close_inv [OF inv prod.collapse [symmetric]] by blast
  show "\<exists>b'. block_close_owner b p = Some (Ok (), b')" by (rule block_close_owner_total [OF inv]) blast
  show "fst (block_finish b k st data) = Ok ()" if "block_active b = Some k" "st \<noteq> StCancelled"
    using block_finish_inv [OF inv assms(2) that prod.collapse [symmetric]] by blast
  show "card {r \<in> set (flatten (records b)). req_phase r = Active} \<le> 1"
    using block_invD(9) [OF inv] by (simp add: card_le_Suc0_iff_eq)
qed

definition demo_data :: bytes where
  "demo_data = replicate sector_bytes 7"

definition demo_granted :: block_broker where
  "demo_granted = snd (block_grant block_new 9 \<lparr>gr_first = 10, gr_sectors = 5, gr_rights = 3\<rparr> 100)"

definition demo_queued :: block_broker where
  "demo_queued = snd (block_admit demo_granted 9 72057594037927937 OpWrite 2 demo_data
     \<lparr>dev_sectors = 100, dev_read_only = False\<rparr>)"

definition demo_active :: block_broker where
  "demo_active = snd (block_start demo_queued)"

lemma demo_queued_eval:
  "demo_queued = \<lparr>grants = \<lparr>entries = [Some \<lparr>entry_id = 72057594037927937, entry_owner = 9,
       entry_object = \<lparr>gr_first = 10, gr_sectors = 5, gr_rights = 3\<rparr>, entry_rights = 3\<rparr>, None, None, None],
       next_id = 2, domain = 72057594037927936, allowed = 7, transfer_right = 0, per_owner = 1\<rparr>,
     records = [Some \<lparr>rec_owner = 9, rec_handle = 72057594037927937, rec_sector = 12, req_phase = Queued,
       rec_abandoned = False, rec_result = \<lparr>cp_id = 1, cp_operation = OpWrite, cp_status = StSuccess,
         cp_effect = EffNone, cp_data = demo_data\<rparr>\<rparr>, None],
     next_request = 2\<rparr>"
  by (simp add: demo_queued_def demo_granted_def block_admit_def block_grant_def grant_validate_def block_new_def
      new_table_def checked_add_def blk_flush_def blk_all_def blk_read_def blk_write_def grant_def room_def advance_def
      replicate_numeral block_check_def resolve_def index_def grant_sector_def next_id_after_def max_id_eq Let_def)

lemma demo_queued_run: "(block_step 100)\<^sup>*\<^sup>* block_new demo_queued"
proof -
  have "block_step 100 block_new demo_granted"
    unfolding demo_granted_def by (rule bstep_grant [OF prod.collapse [symmetric]])
  moreover have "block_step 100 demo_granted demo_queued"
    unfolding demo_queued_def by (rule bstep_admit [OF prod.collapse [symmetric]]) (simp add: demo_data_def)
  ultimately show ?thesis by simp
qed

lemma demo_active_run: "(block_step 100)\<^sup>*\<^sup>* block_new demo_active"
proof -
  have "block_step 100 demo_queued demo_active"
    unfolding demo_active_def by (rule bstep_start [OF prod.collapse [symmetric]])
  then show ?thesis using demo_queued_run by simp
qed

lemma demo_active_records:
  "records demo_active = [Some \<lparr>rec_owner = 9, rec_handle = 72057594037927937, rec_sector = 12, req_phase = Active,
       rec_abandoned = False, rec_result = \<lparr>cp_id = 1, cp_operation = OpWrite, cp_status = StSuccess,
         cp_effect = EffNone, cp_data = demo_data\<rparr>\<rparr>, None]"
  by (simp add: demo_active_def demo_queued_eval block_start_def upt_rec)

theorem block_results_decode_witness:
  "(block_step 100)\<^sup>*\<^sup>* block_new demo_active \<and> fst (block_cancel demo_active 9 72057594037927937 1) \<noteq> Panic \<and>
   block_active demo_active = Some 1 \<and> fst (block_finish demo_active 1 StIo demo_data) = Ok () \<and>
   card {r \<in> set (flatten (records demo_active)). req_phase r = Active} \<le> 1"
proof -
  have "block_active demo_active = Some 1" by (simp add: block_active_def demo_active_records rec_id_def)
  moreover have "length demo_data = sector_bytes" by (simp add: demo_data_def)
  ultimately show ?thesis using demo_active_run block_results_decode [OF demo_active_run, of demo_data] by auto
qed

text \<open>C34 What reaches the device: in a reachable state \<open>start\<close> hands out a request only when none is
  active; it is the oldest one queued, its sector lies on the device and inside the range granted to the
  handle it was submitted through.\<close>

theorem start_is_oldest_and_confined:
  assumes "(block_step cap)\<^sup>*\<^sup>* block_new b" and "block_start b = (Some p, b')"
  shows "block_active b = None \<and> block_active b' = Some (pn_id p) \<and>
    (\<forall>s\<in>set (flatten (records b)). req_phase s = Queued \<longrightarrow> pn_id p \<le> rec_id s) \<and>
    (pn_operation p \<noteq> OpFlush \<longrightarrow> pn_sector p < cap \<and>
       (\<exists>h g. view (grants b) (pn_owner p, h) = Some (g, gr_rights g) \<and> in_grant g (pn_sector p)))"
proof -
  have inv: "block_inv cap b" by (rule run_block_inv [OF assms(1)]) simp
  from assms(2) show ?thesis
  proof (cases rule: block_start_cases)
    case (started i r)
    then have r: "r \<in> set (flatten (records b))" by (auto simp: in_flatten_iff)
    have inv': "block_inv cap b'" by (rule block_start_inv [OF inv assms(2)])
    have "r\<lparr>req_phase := Active\<rparr> \<in> set (flatten (records b'))"
      using started(2,7) by (auto simp: in_flatten_iff)
    then have act': "block_active b' = Some (rec_id r)"
      using block_active_iff [OF inv'] by (force simp: rec_id_def)
    have act: "block_active b = None"
      using started(1) block_active_iff [OF inv] by (metis not_Some_eq)
    have "\<not> rec_abandoned r" using block_invD(7) [OF inv r] started(4) by (auto simp: record_ok_def split: if_splits)
    then have "cp_operation (rec_result r) \<noteq> OpFlush \<longrightarrow> rec_sector r < cap \<and>
       (\<exists>h g. view (grants b) (rec_owner r, h) = Some (g, gr_rights g) \<and> in_grant g (rec_sector r))"
      using block_invD(7) [OF inv r] by (auto simp: record_ok_def)
    then show ?thesis using started(5,6) act act' by simp
  qed (use assms(2) in simp)
qed

theorem start_is_oldest_and_confined_witness:
  "\<exists>p. fst (block_start demo_queued) = Some p \<and> pn_sector p = 12 \<and> pn_sector p < 100 \<and>
     block_active demo_active = Some (pn_id p)"
proof -
  define p where "p = \<lparr>pn_owner = 9, pn_id = 1, pn_operation = OpWrite, pn_sector = 12, pn_data = demo_data\<rparr>"
  have f: "fst (block_start demo_queued) = Some p"
    by (simp add: p_def demo_queued_eval block_start_def upt_rec rec_id_def)
  then have "block_start demo_queued = (Some p, demo_active)" by (metis demo_active_def prod.collapse)
  from start_is_oldest_and_confined [OF demo_queued_run this] show ?thesis using f by (auto simp: p_def)
qed

text \<open>C35 Completion reaches its owner: finishing the active request never panics; if its handle is still
  held, the owner then reads exactly this identity, status and data, with \<open>Unknown\<close> effect for a write or
  flush that failed on the device; if the handle was closed, the slot is free again.\<close>

theorem finish_reports_to_owner:
  assumes "block_inv cap b" and "r \<in> set (flatten (records b))" and "req_phase r = Active"
    and "st \<noteq> StCancelled" and "length data = sector_bytes" and "block_finish b (rec_id r) st data = (res, b')"
  shows "res = Ok () \<and> block_active b' = None \<and>
    (if rec_abandoned r then \<forall>s\<in>set (flatten (records b')). rec_owner s \<noteq> rec_owner r
     else block_peek b' (rec_owner r) (rec_handle r) =
       Ok \<lparr>cp_id = rec_id r, cp_operation = cp_operation (rec_result r), cp_status = st,
           cp_effect = finish_effect (cp_operation (rec_result r)) st,
           cp_data = (if cp_operation (rec_result r) = OpRead \<and> st = StSuccess then data
                      else replicate sector_bytes 0)\<rparr>)"
proof -
  note inv = assms(1)
  obtain i where i: "i < length (records b)" "records b ! i = Some r" using assms(2) by (auto simp: in_flatten_iff)
  let ?x = "if rec_abandoned r then None else Some (finished r st data)"
  have res: "res = Ok ()" and b': "b' = b\<lparr>records := (records b)[i := ?x]\<rparr>"
    using block_finish_eq [OF inv i assms(3)] assms(6) by auto
  note keys = block_invD(5) [OF inv]
  have inv': "block_inv cap b'"
    using block_finish_inv [OF inv assms(5) _ assms(4,6)] block_active_iff [OF inv] assms(2,3) by blast
  have others: "s \<in> set (flatten (records b)) \<and> rec_owner s \<noteq> rec_owner r \<or> (\<not> rec_abandoned r \<and> s = finished r st data)"
    if "s \<in> set (flatten (records b'))" for s
    using that b' set_flatten_clear [OF keys i] set_flatten_replace [OF keys i, of "finished r st data"]
    by (auto split: if_splits)
  have "req_phase s \<noteq> Active" if "s \<in> set (flatten (records b'))" for s
    using others [OF that] block_invD(9) [OF inv assms(2), of s] assms(3) by auto
  then have act: "block_active b' = None" using block_active_iff [OF inv'] by (metis not_Some_eq)
  have peek: "block_peek b' (rec_owner r) (rec_handle r) = Ok (rec_result (finished r st data))" if na: "\<not> rec_abandoned r"
  proof -
    have v: "view (grants b') (rec_owner r, rec_handle r) \<noteq> None"
      using block_invD(7) [OF inv assms(2)] na b' by (auto simp: record_ok_def)
    have at_i: "i < length (records b')" "records b' ! i = Some (finished r st data)" using i na b' by auto
    have "position (slot_has (\<lambda>s. rec_owner s = rec_owner r \<and> rec_handle s = rec_handle r)) (records b') = Some i"
    proof (rule position_unique [OF at_i(1)])
      fix j assume j: "j < length (records b')"
        "slot_has (\<lambda>s. rec_owner s = rec_owner r \<and> rec_handle s = rec_handle r) (records b' ! j)"
      then obtain s where "records b' ! j = Some s" "rec_owner s = rec_owner r" using slot_has_Some by blast
      then show "j = i" using slot_keys_distinctD [OF block_invD(5) [OF inv'] j(1) at_i(1) _ at_i(2)] by simp
    qed (simp add: at_i)
    then have "block_slot b' (rec_owner r) (rec_handle r) = Ok i" using v block_slot_Ok [OF inv'] by blast
    then show ?thesis using at_i by (simp add: block_peek_def)
  qed
  show ?thesis using res act others peek by (auto simp: finished_def rec_id_def)
qed

theorem finish_reports_to_owner_witness:
  "\<exists>c. block_peek (snd (block_finish demo_active 1 StTimeout demo_data)) 9 72057594037927937 = Ok c \<and>
     cp_status c = StTimeout \<and> cp_effect c = EffUnknown"
proof -
  let ?r = "\<lparr>rec_owner = 9, rec_handle = 72057594037927937, rec_sector = 12, req_phase = Active,
       rec_abandoned = False, rec_result = \<lparr>cp_id = 1, cp_operation = OpWrite, cp_status = StSuccess,
         cp_effect = EffNone, cp_data = demo_data\<rparr>\<rparr> :: request_record"
  have inv: "block_inv 100 demo_active" by (rule run_block_inv [OF demo_active_run]) simp
  have r: "?r \<in> set (flatten (records demo_active))" by (simp add: demo_active_records)
  have len: "length demo_data = sector_bytes" by (simp add: demo_data_def)
  have n: "rec_id ?r = 1" by (simp add: rec_id_def)
  show ?thesis
    using finish_reports_to_owner [OF inv r _ _ len prod.collapse [symmetric], of StTimeout] unfolding n
    by (simp add: finish_effect_def)
qed

text \<open>Closing everything a process owns finishes with success and leaves it no handle; of its requests
  only one already on the device can remain, marked abandoned, and the device's active request is
  unchanged.\<close>

theorem block_close_owner_revokes:
  assumes "block_inv cap b"
  shows "\<exists>b'. block_close_owner b p = Some (Ok (), b') \<and> block_inv cap b' \<and>
    (\<forall>h right. resolve (grants b') p h right = Err HdlHandle) \<and> block_active b' = block_active b \<and>
    (\<forall>r\<in>set (flatten (records b')). rec_owner r = p \<longrightarrow> rec_abandoned r \<and> req_phase r = Active)"
proof -
  obtain b' where b': "block_close_owner b p = Some (Ok (), b')" "block_inv cap b'"
    "\<And>h. view (grants b') (p, h) = None" "block_active b' = block_active b"
    using block_close_owner_total [OF assms] by metis
  have "rec_abandoned r \<and> req_phase r = Active" if "r \<in> set (flatten (records b'))" "rec_owner r = p" for r
    using block_invD(7) [OF b'(2) that(1)] b'(3) that(2) by (auto simp: record_ok_def split: if_splits)
  then show ?thesis using b' grant_lookup [OF b'(2)] by auto
qed

theorem block_close_owner_revokes_witness:
  "\<exists>b'. block_close_owner demo_active 9 = Some (Ok (), b') \<and>
     resolve (grants b') 9 72057594037927937 0 = Err HdlHandle \<and> block_active b' = Some 1"
proof -
  have "block_inv 100 demo_active" by (rule run_block_inv [OF demo_active_run]) simp
  moreover have "block_active demo_active = Some 1"
    by (simp add: block_active_def demo_active_records rec_id_def)
  ultimately show ?thesis using block_close_owner_revokes [of 100 demo_active 9] by auto
qed

end
