(* ===== verification/Block_Device.thy ===== *)
theory Block_Device
  imports Block_Queue
begin

text \<open>
  The device side of \<open>kernel/src/block\<close>: bounds of a transfer, the memory layout of a virtio queue and
  the check of its completion, the polling budget of a request and the diagnostic hold. Ticks and poll
  counters are natural numbers below \<open>u64_limit\<close> with their saturation written out.
\<close>

section \<open>Transfers\<close>

datatype device_error = DevMissing | DevUnsupported | DevBusy | DevMemory | DevSize | DevRange | DevReadOnly
  | DevIo | DevTimeout | DevProtocol | DevReset

definition geometry_validate :: "device_geometry \<Rightarrow> u64 \<Rightarrow> nat \<Rightarrow> bool \<Rightarrow> (device_error, unit) outcome" where
  "geometry_validate g sector len is_write =
     (if len \<noteq> sector_bytes then Err DevSize
      else if (case checked_add sector (of_nat (len div sector_bytes)) of None \<Rightarrow> True | Some e \<Rightarrow> e > dev_sectors g)
      then Err DevRange
      else if is_write \<and> dev_read_only g then Err DevReadOnly
      else Ok ())"

section \<open>Queue layout\<close>

record queue_layout =
  lay_size :: nat
  lay_available :: nat
  lay_used :: nat
  lay_pages :: nat

definition is_power_of_two :: "nat \<Rightarrow> bool" where
  "is_power_of_two n \<longleftrightarrow> (\<exists>k\<in>set [0..<64]. n = 2 ^ k)"

definition layout_new :: "nat \<Rightarrow> (device_error, queue_layout) outcome" where
  "layout_new sz =
     (if \<not> (4 \<le> sz \<and> sz \<le> 256) \<or> \<not> is_power_of_two sz then Err DevUnsupported
      else let available = sz * 16;
               used = div_ceil (available + 6 + sz * 2) 4096 * 4096;
               pages = div_ceil (used + 6 + sz * 8) 4096
           in Ok \<lparr>lay_size = sz, lay_available = available, lay_used = used, lay_pages = pages\<rparr>)"

definition layout_completed :: "u16 \<Rightarrow> u16 \<Rightarrow> u32 \<Rightarrow> u8 \<Rightarrow> (device_error, unit) outcome" where
  "layout_completed expected observed ident status =
     (if observed \<noteq> expected + 1 \<or> ident \<noteq> 0 then Err DevProtocol
      else if status = 0 then Ok ()
      else if status = 1 then Err DevIo
      else if status = 2 then Err DevUnsupported
      else Err DevProtocol)"

section \<open>Polling budget\<close>

definition request_ticks :: nat where "request_ticks = 500"
definition stalled_limit :: nat where "stalled_limit = 5000000"

record budget =
  bud_started :: nat
  bud_observed :: nat
  bud_polls :: nat
  bud_stalled :: nat

definition budget_new :: "nat \<Rightarrow> budget" where
  "budget_new now = \<lparr>bud_started = now, bud_observed = now, bud_polls = 0, bud_stalled = 0\<rparr>"

definition expired_pending :: "budget \<Rightarrow> nat \<Rightarrow> bool \<times> budget" where
  "expired_pending b now =
     (let b = b\<lparr>bud_polls := saturating_add64 (bud_polls b) 1\<rparr>;
          b = (if now = bud_observed b then b\<lparr>bud_stalled := saturating_add64 (bud_stalled b) 1\<rparr>
               else b\<lparr>bud_observed := now, bud_stalled := 0\<rparr>)
      in (now - bud_started b \<ge> request_ticks \<or> bud_stalled b \<ge> stalled_limit, b))"

section \<open>Diagnostic hold\<close>

record hold =
  hold_armed :: "(nat \<times> nat \<times> nat) option"
  hold_held :: "(nat \<times> nat \<times> nat) option"

definition hold_default :: hold where
  "hold_default = \<lparr>hold_armed = None, hold_held = None\<rparr>"

definition hold_arm :: "hold \<Rightarrow> nat \<Rightarrow> nat \<Rightarrow> nat \<Rightarrow> bool \<times> hold" where
  "hold_arm h owner skip ticks =
     (if owner = 0 \<or> skip > 16 \<or> \<not> (1 \<le> ticks \<and> ticks \<le> 500) \<or> hold_held h \<noteq> None then (False, h)
      else (True, h\<lparr>hold_armed := Some (owner, skip, ticks)\<rparr>))"

definition hold_submitted :: "hold \<Rightarrow> nat \<Rightarrow> nat \<Rightarrow> bool \<Rightarrow> nat \<Rightarrow> bool \<times> hold" where
  "hold_submitted h owner ident mutation now =
     (case hold_armed h of
        None \<Rightarrow> (False, h)
      | Some (target, skip, ticks) \<Rightarrow>
          if target \<noteq> owner \<or> \<not> mutation then (False, h)
          else if skip \<noteq> 0 then (False, h\<lparr>hold_armed := Some (target, skip - 1, ticks)\<rparr>)
          else (True, h\<lparr>hold_armed := None, hold_held := Some (owner, ident, saturating_add64 now ticks)\<rparr>))"

definition hold_withheld :: "hold \<Rightarrow> nat \<Rightarrow> nat \<Rightarrow> bool \<times> hold" where
  "hold_withheld h ident now =
     (case hold_held h of
        None \<Rightarrow> (False, h)
      | Some (owner, active, deadline) \<Rightarrow>
          if ident \<noteq> active then (False, h)
          else if now < deadline then (True, h)
          else (False, h\<lparr>hold_held := None\<rparr>))"

definition hold_status :: "hold \<Rightarrow> nat list" where
  "hold_status h =
     (case hold_held h of
        Some (owner, ident, until_tick) \<Rightarrow> [1, owner, ident, until_tick, 0, 0, 0, 0]
      | None \<Rightarrow> (case hold_armed h of
          Some (owner, skip, ticks) \<Rightarrow> [0, owner, 0, 0, 1, skip, ticks, 0]
        | None \<Rightarrow> replicate 8 0))"

section \<open>Lemmas\<close>

text \<open>The budget after the observations \<open>t 0, \<dots>, t (n - 1)\<close> of a clock.\<close>

primrec observe :: "budget \<Rightarrow> (nat \<Rightarrow> nat) \<Rightarrow> nat \<Rightarrow> budget" where
  "observe b t 0 = b"
| "observe b t (Suc n) = snd (expired_pending (observe b t n) (t n))"

definition budget_left :: "budget \<Rightarrow> nat" where
  "budget_left b = (request_ticks - (bud_observed b - bud_started b)) * stalled_limit + (stalled_limit - bud_stalled b)"

lemma saturating_le: "saturating_add64 a b \<le> a + b" and saturating_small: "a + b < u64_limit \<Longrightarrow> saturating_add64 a b = a + b"
  by (auto simp: saturating_add64_def)

lemma expired_pending_sel:
  "bud_started (snd (expired_pending b now)) = bud_started b"
  "bud_observed (snd (expired_pending b now)) = now"
  "bud_stalled (snd (expired_pending b now)) = (if now = bud_observed b then saturating_add64 (bud_stalled b) 1 else 0)"
  "fst (expired_pending b now) \<longleftrightarrow> now - bud_started b \<ge> request_ticks \<or>
     (if now = bud_observed b then saturating_add64 (bud_stalled b) 1 else 0) \<ge> stalled_limit"
  by (simp_all add: expired_pending_def Let_def)

lemma expired_pending_step:
  assumes "\<not> fst (expired_pending b now)" and "bud_observed b \<le> now" and "bud_started b \<le> bud_observed b"
    and "bud_stalled b < stalled_limit"
  shows "budget_left (snd (expired_pending b now)) < budget_left b \<and> bud_observed (snd (expired_pending b now)) = now \<and>
    bud_started (snd (expired_pending b now)) = bud_started b \<and> bud_stalled (snd (expired_pending b now)) < stalled_limit"
proof (cases "now = bud_observed b")
  case True
  have "saturating_add64 (bud_stalled b) 1 = bud_stalled b + 1"
    using assms(4) by (intro saturating_small) (simp add: stalled_limit_def u64_limit_def)
  then show ?thesis
    using True assms by (auto simp add: expired_pending_sel budget_left_def intro!: diff_less_mono2)
next
  case False
  let ?e = "bud_observed b - bud_started b"
  have e: "now - bud_started b < request_ticks" "Suc ?e \<le> now - bud_started b"
    using False assms by (auto simp: expired_pending_sel)
  then have "(request_ticks - (now - bud_started b)) * stalled_limit \<le> (request_ticks - Suc ?e) * stalled_limit"
    by (intro mult_right_mono) auto
  moreover have "(request_ticks - ?e) * stalled_limit = (request_ticks - Suc ?e) * stalled_limit + stalled_limit"
  proof -
    have "request_ticks - ?e = Suc (request_ticks - Suc ?e)" using e by arith
    then show ?thesis by simp
  qed
  ultimately show ?thesis
    using False assms by (simp add: expired_pending_sel budget_left_def stalled_limit_def)
qed

lemma observe_state:
  "bud_started (observe (budget_new s) t n) = s \<and>
   bud_observed (observe (budget_new s) t n) = (if n = 0 then s else t (n - 1)) \<and>
   bud_stalled (observe (budget_new s) t n) \<le> n \<and>
   (\<forall>i. n \<le> i + bud_stalled (observe (budget_new s) t n) \<longrightarrow> i < n \<longrightarrow> t i = bud_observed (observe (budget_new s) t n))"
proof (induction n)
  case 0
  then show ?case by (simp add: budget_new_def)
next
  case (Suc n)
  let ?b = "observe (budget_new s) t n"
  show ?case
  proof (cases "t n = bud_observed ?b")
    case True
    let ?k = "saturating_add64 (bud_stalled ?b) 1"
    have k: "?k \<le> Suc (bud_stalled ?b)" using saturating_le [of "bud_stalled ?b" 1] by simp
    have "t i = t n" if "Suc n \<le> i + ?k" "i < Suc n" for i
    proof (cases "i = n")
      case False
      then have "i < n" "n \<le> i + bud_stalled ?b" using that k by simp_all
      then show ?thesis using Suc True by metis
    qed simp
    moreover have "?k \<le> Suc n" using k Suc by simp
    ultimately show ?thesis using Suc True by (simp add: expired_pending_sel)
  next
    case False
    then show ?thesis using Suc by (simp add: expired_pending_sel)
  qed
qed

lemma budget_runs_out:
  assumes mono: "\<And>i. t i \<le> t (Suc i)" and start: "s \<le> t 0"
    and "\<And>i. i < n \<Longrightarrow> \<not> fst (expired_pending (observe (budget_new s) t i) (t i))"
  shows "budget_left (observe (budget_new s) t n) + n \<le> budget_left (budget_new s) \<and>
    bud_stalled (observe (budget_new s) t n) < stalled_limit"
  using assms(3)
proof (induction n)
  case 0
  then show ?case by (simp add: budget_new_def stalled_limit_def)
next
  case (Suc n)
  let ?b = "observe (budget_new s) t n"
  have le: "t 0 \<le> t k" for k
  proof (induction k)
    case (Suc k)
    then show ?case using mono [of k] by simp
  qed simp
  have obs: "bud_observed ?b = (if n = 0 then s else t (n - 1))" "bud_started ?b = s"
    using observe_state [of s t n] by blast+
  have "bud_observed ?b \<le> t n" unfolding obs using mono [of "n - 1"] start by (cases n) simp_all
  moreover have "bud_started ?b \<le> bud_observed ?b" unfolding obs using start le [of "n - 1"] by simp
  moreover have "\<not> fst (expired_pending ?b (t n))" by (rule Suc.prems) simp
  moreover have ih: "budget_left ?b + n \<le> budget_left (budget_new s) \<and> bud_stalled ?b < stalled_limit"
    by (rule Suc.IH) (use Suc.prems in simp)
  ultimately have "budget_left (snd (expired_pending ?b (t n))) < budget_left ?b"
    "bud_stalled (snd (expired_pending ?b (t n))) < stalled_limit"
    using expired_pending_step [of ?b "t n"] by blast+
  then show ?case using ih by simp
qed

section \<open>Properties\<close>

text \<open>C36 Waiting for the device always ends: whatever the nondecreasing clock does, even if it never
  advances, one of the first \<open>501 * 5,000,000\<close> polls reports that the request has expired.\<close>

theorem polling_terminates:
  assumes "\<And>i. t i \<le> t (Suc i)" and "s \<le> t 0"
  shows "\<exists>n \<le> (request_ticks + 1) * stalled_limit. fst (expired_pending (observe (budget_new s) t n) (t n))"
proof (rule ccontr)
  let ?N = "(request_ticks + 1) * stalled_limit"
  assume "\<not> ?thesis"
  then have "\<not> fst (expired_pending (observe (budget_new s) t i) (t i))" if "i < Suc ?N" for i
    using that by auto
  from budget_runs_out [OF assms this]
  have "Suc ?N \<le> budget_left (budget_new s)" by (meson add_leE)
  then show False by (simp add: budget_left_def budget_new_def)
qed

theorem polling_terminates_witness:
  "\<exists>n \<le> (request_ticks + 1) * stalled_limit. fst (expired_pending (observe (budget_new 7) (\<lambda>i. 7) n) 7)"
  using polling_terminates [of "\<lambda>i. 7" 7] by simp

text \<open>The budget is never cut short by fast polling: a request expires before 500 ticks have elapsed
  only if the clock stood still during the last 5,000,000 polls.\<close>

theorem early_expiry_needs_stalled_clock:
  assumes "fst (expired_pending (observe (budget_new s) t n) (t n))" and "t n - s < request_ticks"
  shows "stalled_limit \<le> n + 1 \<and> (\<forall>i\<le>n. n < i + stalled_limit \<longrightarrow> t i = t n)"
proof -
  let ?b = "observe (budget_new s) t n"
  note st = observe_state [of s t n]
  have e: "request_ticks \<le> t n - s \<or> (if t n = bud_observed ?b then saturating_add64 (bud_stalled ?b) 1 else 0) \<ge> stalled_limit"
    using assms(1) st by (simp add: expired_pending_sel)
  have same: "t n = bud_observed ?b"
    using e assms(2) by (cases "t n = bud_observed ?b") (auto simp: stalled_limit_def)
  then have "stalled_limit \<le> saturating_add64 (bud_stalled ?b) 1" using e assms(2) by auto
  then have lim: "stalled_limit \<le> bud_stalled ?b + 1" using saturating_le [of "bud_stalled ?b" 1] by simp
  have "t i = t n" if i: "i \<le> n" "n < i + stalled_limit" for i
  proof (cases "i = n")
    case False
    then have "i < n" "n \<le> i + bud_stalled ?b" using i lim by simp_all
    moreover have "\<forall>i. n \<le> i + bud_stalled ?b \<longrightarrow> i < n \<longrightarrow> t i = bud_observed ?b" using st by blast
    ultimately have "t i = bud_observed ?b" by blast
    then show ?thesis by (rule trans [OF _ same [symmetric]])
  qed simp
  moreover have "bud_stalled ?b \<le> n" using st by blast
  then have "stalled_limit \<le> n + 1" using lim by linarith
  ultimately show ?thesis by blast
qed

lemma observe_constant:
  "n < u64_limit \<Longrightarrow> bud_stalled (observe (budget_new s) (\<lambda>i. s) n) = n"
proof (induction n)
  case 0
  then show ?case by (simp add: budget_new_def)
next
  case (Suc n)
  let ?b = "observe (budget_new s) (\<lambda>i. s) n"
  have "bud_observed ?b = s" using observe_state [of s "\<lambda>i. s" n] by (simp split: if_splits)
  then show ?case using Suc by (simp add: expired_pending_sel saturating_small)
qed

theorem early_expiry_needs_stalled_clock_witness:
  "fst (expired_pending (observe (budget_new 7) (\<lambda>i. 7) 4999999) 7) \<and> stalled_limit \<le> 4999999 + 1"
proof -
  let ?b = "observe (budget_new 7) (\<lambda>i. 7) 4999999"
  have "bud_observed ?b = 7" using observe_state [of 7 "\<lambda>i. 7" 4999999] by (simp split: if_splits)
  moreover have "bud_stalled ?b = 4999999" by (rule observe_constant) (simp add: u64_limit_def)
  moreover have "saturating_add64 4999999 1 = 5000000" by (simp add: saturating_add64_def u64_limit_def)
  ultimately have e: "fst (expired_pending ?b 7)"
    unfolding expired_pending_sel by (simp add: stalled_limit_def)
  have "(7 :: nat) - 7 < request_ticks" by (simp add: request_ticks_def)
  from early_expiry_needs_stalled_clock [of 7 "\<lambda>i. 7" 4999999, OF e this] e show ?thesis by blast
qed

text \<open>C37 The parts of a virtio queue do not overlap and fit: the descriptor table and the available ring
  end before the used ring, which starts on a page boundary, and the used ring ends within the allocated
  pages, of which there are at most three.\<close>

theorem layout_parts_fit:
  assumes "layout_new n = Ok l"
  shows "lay_available l = 16 * lay_size l \<and> lay_available l + 6 + 2 * lay_size l \<le> lay_used l \<and>
    lay_used l mod 4096 = 0 \<and> lay_used l + 6 + 8 * lay_size l \<le> 4096 * lay_pages l \<and> lay_pages l \<le> 3"
proof -
  have n: "n \<le> 256" and l: "l = \<lparr>lay_size = n, lay_available = n * 16,
     lay_used = div_ceil (n * 16 + 6 + n * 2) 4096 * 4096,
     lay_pages = div_ceil (div_ceil (n * 16 + 6 + n * 2) 4096 * 4096 + 6 + n * 8) 4096\<rparr>"
    using assms by (auto simp: layout_new_def Let_def split: if_splits)
  have up: "a \<le> div_ceil a 4096 * 4096" for a using div_ceil_le_iff [of 4096 a "div_ceil a 4096"] by simp
  have "div_ceil (n * 16 + 6 + n * 2) 4096 \<le> 2" using n by (simp add: div_ceil_le_iff)
  then have "div_ceil (n * 16 + 6 + n * 2) 4096 * 4096 + 6 + n * 8 \<le> 3 * 4096" using n by linarith
  then have "div_ceil (div_ceil (n * 16 + 6 + n * 2) 4096 * 4096 + 6 + n * 8) 4096 \<le> 3"
    by (subst div_ceil_le_iff) simp_all
  then show ?thesis
    using up [of "n * 16 + 6 + n * 2"] up [of "div_ceil (n * 16 + 6 + n * 2) 4096 * 4096 + 6 + n * 8"]
    by (simp add: l)
qed

theorem layout_parts_fit_witness:
  "layout_new 256 = Ok \<lparr>lay_size = 256, lay_available = 4096, lay_used = 8192, lay_pages = 3\<rparr> \<and>
   (4096 :: nat) + 6 + 2 * 256 \<le> 8192"
proof -
  have "is_power_of_two 256" unfolding is_power_of_two_def by (rule bexI [of _ 8]) auto
  then have "layout_new 256 = Ok \<lparr>lay_size = 256, lay_available = 4096, lay_used = 8192, lay_pages = 3\<rparr>"
    by (simp add: layout_new_def div_ceil_def Let_def)
  from layout_parts_fit [OF this] this show ?thesis by simp
qed

end
