(* ===== verification/Runtime_Abi.thy ===== *)
theory Runtime_Abi
  imports Block_Abi Ipc_Message
begin

unbundle bit_operations_syntax

text \<open>
  What the kernel and a process agree on beyond IPC and block records: the call numbers of \<open>abi/src/process.rs\<close> and
  \<open>abi/src/memory.rs\<close>, the errors and control words of \<open>abi/src/runtime.rs\<close>, the application manifest of
  \<open>abi/src/application.rs\<close>, and the register frame of \<open>arch/x86_64/interrupts/frame.rs\<close>.
\<close>

section \<open>Process calls\<close>

definition proc_version :: u64 where "proc_version = 0x00010000"
definition not_supported :: u64 where "not_supported = - 1"
definition quota_code :: u64 where "quota_code = - 1 - 1"

definition flags_valid :: "u64 \<Rightarrow> bool" where
  "flags_valid flags \<longleftrightarrow> flags AND NOT 1 = 0"

definition selector_valid :: "u64 \<Rightarrow> bool" where
  "selector_valid selector \<longleftrightarrow> selector \<le> 3"

section \<open>Native runtime errors\<close>

datatype rt_error = RtDenied | RtAddress | RtSize | RtInvalid | RtBusy | RtNotFound | RtFull | RtWouldBlock
  | RtClosed | RtProtocol

primrec rt_error_tag :: "rt_error \<Rightarrow> u64" where
  "rt_error_tag RtDenied = 0"
| "rt_error_tag RtAddress = 1"
| "rt_error_tag RtSize = 2"
| "rt_error_tag RtInvalid = 3"
| "rt_error_tag RtBusy = 4"
| "rt_error_tag RtNotFound = 5"
| "rt_error_tag RtFull = 6"
| "rt_error_tag RtWouldBlock = 7"
| "rt_error_tag RtClosed = 8"
| "rt_error_tag RtProtocol = 9"

definition rt_code :: "rt_error \<Rightarrow> u64" where
  "rt_code e = - 1 - 64 - rt_error_tag e"

definition rt_errors :: "rt_error list" where
  "rt_errors = [RtDenied, RtAddress, RtSize, RtInvalid, RtBusy, RtNotFound, RtFull, RtWouldBlock, RtClosed, RtProtocol]"

definition rt_error_decode :: "u64 \<Rightarrow> (rt_error, u64) outcome" where
  "rt_error_decode v =
     (case find (\<lambda>e. v = rt_code e) rt_errors of
        Some e \<Rightarrow> Err e
      | None \<Rightarrow> if v > - 1 - 4096 then Err RtProtocol else Ok v)"

section \<open>Control words\<close>

definition control_words :: "u64 \<Rightarrow> nat option" where
  "control_words n =
     (if n \<in> {0, 10, 9, 11, 15} then Some 1
      else if n = 14 then Some 4
      else if n \<in> {1, 5, 6, 7, 8, 18, 19} then Some 2
      else if n \<in> {3, 12} then Some 3
      else if n = 16 then Some 4
      else if n \<in> {2, 4, 13, 17} then Some 5
      else None)"

definition validate_control :: "u64 list \<Rightarrow> (rt_error, unit) outcome" where
  "validate_control w =
     (case control_words (w ! 0) of
        None \<Rightarrow> Err RtInvalid
      | Some n \<Rightarrow> if \<exists>v\<in>set (drop n w). v \<noteq> 0 then Err RtInvalid else Ok ())"

definition words_encode :: "u64 list \<Rightarrow> bytes" where
  "words_encode ws = concat (map (to_le 8) ws)"

definition words_decode :: "bytes \<Rightarrow> (rt_error, u64 list) outcome" where
  "words_decode bs = (if length bs \<noteq> 64 then Err RtSize else Ok (map (\<lambda>i. u64_at bs (8 * i)) [0..<8]))"

section \<open>The application manifest\<close>

datatype manifest_error = MfLength | MfMagic | MfVersion | MfAbi | MfIpc | MfIdentity | MfExecutable | MfCapabilities

record manifest =
  mf_identity :: bytes
  mf_executable :: bytes
  mf_version :: "u16 list"
  mf_requests :: u64
  mf_sha256 :: bytes

definition app_known :: u64 where "app_known = 1 OR 2 OR 4 OR 8 OR 16"

definition app_magic :: bytes where "app_magic = [0x52, 0x55, 0x53, 0x54, 0x41, 0x50, 0x50, 0]"

definition is_ascii_lowercase :: "u8 \<Rightarrow> bool" where "is_ascii_lowercase b \<longleftrightarrow> 97 \<le> b \<and> b \<le> 122"

definition is_ascii_digit :: "u8 \<Rightarrow> bool" where "is_ascii_digit b \<longleftrightarrow> 48 \<le> b \<and> b \<le> 57"

text \<open>The bytes of an accepted name are ASCII, so the conversion to a string slice succeeds.\<close>

definition manifest_name :: "bytes \<Rightarrow> bytes option" where
  "manifest_name bs =
     (case position (\<lambda>b. b = 0) bs of
        None \<Rightarrow> None
      | Some e \<Rightarrow>
          let v = take e bs in
          if v = [] \<or> \<not> is_ascii_lowercase (v ! 0) \<or>
             \<not> list_all (\<lambda>b. is_ascii_lowercase b \<or> is_ascii_digit b \<or> b \<in> set [46, 95, 45]) v \<or> any_nonzero (drop e bs)
          then None else Some v)"

definition ends_with_elf :: "bytes \<Rightarrow> bool" where
  "ends_with_elf v \<longleftrightarrow> 4 \<le> length v \<and> drop (length v - 4) v = [0x2e, 0x65, 0x6c, 0x66]"

definition manifest_parse :: "bytes \<Rightarrow> (manifest_error, manifest) outcome" where
  "manifest_parse bs =
     (if length bs \<noteq> 128 then Err MfLength
      else if take 8 bs \<noteq> app_magic then Err MfMagic
      else if u16_at bs 8 \<noteq> 2 \<or> unat (u16_at bs 10) \<noteq> 128 then Err MfVersion
      else if ucast (u32_at bs 12) \<noteq> proc_version then Err MfAbi
      else if u16_at bs 16 \<noteq> 1 then Err MfIpc
      else and_then (ok_or MfIdentity (manifest_name (field_at bs 32 32))) (\<lambda>identity.
      and_then (ok_or MfExecutable (case manifest_name (field_at bs 64 32) of
          None \<Rightarrow> None | Some s \<Rightarrow> if ends_with_elf s then Some s else None)) (\<lambda>executable.
      if u64_at bs 24 AND NOT app_known \<noteq> 0 then Err MfCapabilities
      else Ok \<lparr>mf_identity = identity, mf_executable = executable,
               mf_version = [u16_at bs 18, u16_at bs 20, u16_at bs 22], mf_requests = u64_at bs 24,
               mf_sha256 = field_at bs 96 32\<rparr>)))"

definition manifest_admitted :: "manifest \<Rightarrow> u64 \<Rightarrow> bool" where
  "manifest_admitted m available_bits \<longleftrightarrow> mf_requests m AND NOT available_bits = 0"

section \<open>The register frame\<close>

record frame =
  fm_registers :: "u64 list"
  fm_vector :: u64
  fm_error :: u64
  fm_rip :: u64
  fm_cs :: u64
  fm_flags :: u64
  fm_rsp :: u64
  fm_ss :: u64

definition frame_set_arguments :: "u64 list \<Rightarrow> frame \<Rightarrow> frame" where
  "frame_set_arguments args f = f\<lparr>fm_registers := (fm_registers f)[8 := args ! 0, 9 := args ! 1, 11 := args ! 2]\<rparr>"

definition frame_user :: "u64 \<Rightarrow> u64 \<Rightarrow> u64 list \<Rightarrow> frame" where
  "frame_user entry stack args =
     frame_set_arguments args
       \<lparr>fm_registers = replicate 15 0, fm_vector = 0, fm_error = 0, fm_rip = entry, fm_cs = 0x2b, fm_flags = 0x202,
        fm_rsp = stack, fm_ss = 0x33\<rparr>"

definition frame_result :: "u64 \<Rightarrow> frame \<Rightarrow> frame" where
  "frame_result v f = f\<lparr>fm_registers := (fm_registers f)[14 := v]\<rparr>"

definition frame_call :: "frame \<Rightarrow> u64 \<times> u64" where
  "frame_call f = (fm_registers f ! 14, fm_registers f ! 8)"

definition frame_arguments :: "frame \<Rightarrow> u64 list" where
  "frame_arguments f = [fm_registers f ! 8, fm_registers f ! 9, fm_registers f ! 11]"

definition frame_valid_user :: "frame \<Rightarrow> bool" where
  "frame_valid_user f \<longleftrightarrow> fm_cs f = 0x2b \<and> fm_ss f = 0x33 \<and>
     4096 \<le> fm_rip f \<and> fm_rip f < push_bit 47 1 \<and> 4096 \<le> fm_rsp f \<and> fm_rsp f < push_bit 47 1"

definition frame_sanitize :: "frame \<Rightarrow> frame" where
  "frame_sanitize f = f\<lparr>fm_flags := (fm_flags f AND 0xcd5) OR 0x202\<rparr>"

section \<open>Lemmas\<close>

lemma frame_valid_simps [simp]:
  "frame_valid_user (frame_result v f) \<longleftrightarrow> frame_valid_user f"
  "frame_valid_user (frame_set_arguments args f) \<longleftrightarrow> frame_valid_user f"
  "frame_valid_user (frame_sanitize f) \<longleftrightarrow> frame_valid_user f"
  by (simp_all add: frame_valid_user_def frame_result_def frame_set_arguments_def frame_sanitize_def)

lemma frame_vector_simps [simp]:
  "fm_vector (frame_result v f) = fm_vector f" "fm_vector (frame_set_arguments args f) = fm_vector f"
  "fm_vector (frame_user entry stack args) = 0"
  by (simp_all add: frame_result_def frame_set_arguments_def frame_user_def)

text \<open>Only status flags and the direction flag survive, interrupts are on, and the privilege bits are clear.\<close>

lemma sanitized_flags:
  "bit (fm_flags (frame_sanitize f)) 9" "\<not> bit (fm_flags (frame_sanitize f)) 12" "\<not> bit (fm_flags (frame_sanitize f)) 13"
  "\<not> bit (fm_flags (frame_sanitize f)) 14" "\<not> bit (fm_flags (frame_sanitize f)) 8"
  "n \<ge> 12 \<Longrightarrow> \<not> bit (fm_flags (frame_sanitize f)) n"
proof -
  have c: "(0xcd5 :: u64) = mask 12 AND 0xcd5" "(0x202 :: u64) = mask 12 AND 0x202"
    by (simp_all add: mask_eq_exp_minus_1)
  show "n \<ge> 12 \<Longrightarrow> \<not> bit (fm_flags (frame_sanitize f)) n" for n
    unfolding frame_sanitize_def by (subst c(1), subst c(2)) (simp add: bit_simps)
  then show "\<not> bit (fm_flags (frame_sanitize f)) 12" "\<not> bit (fm_flags (frame_sanitize f)) 13"
    "\<not> bit (fm_flags (frame_sanitize f)) 14" by simp_all
  show "bit (fm_flags (frame_sanitize f)) 9" "\<not> bit (fm_flags (frame_sanitize f)) 8"
    by (simp_all add: frame_sanitize_def bit_simps)
qed

end
