(* ===== verification/Process_Calls.thy ===== *)
theory Process_Calls
  imports Loader Ipc Block_Queue Block_Device Runtime_Abi
begin

unbundle bit_operations_syntax

text \<open>
  The record of a process (\<open>kernel/src/process/runtime/record.rs\<close>) and the calls it can make
  (\<open>runtime/syscall\<close>): IPC, block requests, heap pages. A call takes the record, the broker it works on and the
  physical memory; its result is an \<open>action\<close> for the scheduler. The calls to a broker that return an error become the
  value of the return register, so \<open>Panic\<close> is the only other outcome.
\<close>

section \<open>Processes\<close>

datatype wait_on = WaitIpc u64 | WaitConsole | WaitAny "u64 list" nat u64 | WaitBlock u64 u64

record process =
  ps_parent :: u64
  ps_program :: u64
  ps_space :: address_space
  ps_heap :: heap_region
  ps_frame :: frame
  ps_preemptions :: u64
  ps_reports :: u64
  ps_last_report :: u64
  ps_pending :: "wait_on option"
  ps_calls :: u64

datatype action = Resume | Return u64 | Exit u64 | Block wait_on

text \<open>\<open>result.unwrap_or_else(Error::code)\<close>.\<close>

primrec returned :: "('e \<Rightarrow> u64) \<Rightarrow> ('e, u64) outcome \<Rightarrow> (process_error, action) outcome" where
  "returned code (Ok v) = Ok (Return v)"
| "returned code (Err e) = Ok (Return (code e))"
| "returned code Panic = Panic"

section \<open>IPC calls\<close>

definition ipc_transact ::
  "nat \<Rightarrow> u64 \<Rightarrow> process \<Rightarrow> u64 \<Rightarrow> broker \<times> physical \<Rightarrow> (ipc_error, u64) outcome \<times> broker \<times> physical" where
  "ipc_transact active num s owner = (\<lambda>(b, p).
     let handle = frame_arguments (ps_frame s) ! 0; address = unat (frame_arguments (ps_frame s) ! 1);
         len = unat (frame_arguments (ps_frame s) ! 2) in
     if num = 7 then
       (case broker_close b owner handle of (r, b) \<Rightarrow> or_return r (b, p) (\<lambda>_. (Ok 0, b, p)))
     else or_return (broker_check b owner handle (if num = 4 then ipc_write else ipc_read)) (b, p) (\<lambda>_.
     if \<not> (ipc_header \<le> len \<and> len \<le> ipc_max_message) then (Err IpcSize, b, p)
     else if num = 4 then
       or_return (map_err (\<lambda>_. IpcAddress) (copy_from_user active p (ps_space s) address len)) (b, p) (\<lambda>bs.
       case broker_send b owner handle bs of (r, b) \<Rightarrow> or_return r (b, p) (\<lambda>_. (Ok 0, b, p)))
     else
       or_return (broker_peek b owner handle) (b, p) (\<lambda>m.
       if len < message_length m then (Err IpcSize, b, p)
       else case copy_to_user active (ps_space s) address (take (message_length m) (message_encode m)) p of (r, p) \<Rightarrow>
         or_return (map_err (\<lambda>_. IpcAddress) r) (b, p) (\<lambda>_.
         case broker_consume b owner handle of (r, b) \<Rightarrow>
           or_return r (b, p) (\<lambda>_. (Ok (of_nat (message_length m)), b, p))))))"

definition ipc_dispatch ::
  "nat \<Rightarrow> u64 \<Rightarrow> process \<Rightarrow> u64 \<Rightarrow> broker \<times> physical \<Rightarrow> (process_error, action) outcome \<times> broker \<times> physical" where
  "ipc_dispatch active num s owner bp =
     (let handle = frame_arguments (ps_frame s) ! 0 in
      if num = 8 then (Ok (Return 1), bp)
      else if num = 6 then
        (case broker_peek (fst bp) owner handle of
           Ok _ \<Rightarrow> Ok (Return 0)
         | Err e \<Rightarrow> Ok (if e = IpcWouldBlock then Block (WaitIpc handle) else Return (ipc_code e))
         | Panic \<Rightarrow> Panic, bp)
      else case ipc_transact active num s owner bp of (r, bp) \<Rightarrow> (returned ipc_code r, bp))"

section \<open>Block calls\<close>

text \<open>The device itself is its answers; the service knows whether it has one and what its geometry was.\<close>

record block_service =
  sv_broker :: block_broker
  sv_observation :: hold
  sv_device :: bool
  sv_geometry :: device_geometry
  sv_hold_next :: bool
  sv_reject_next :: bool

definition service_geometry :: "block_service \<Rightarrow> (block_error, device_geometry) outcome" where
  "service_geometry v = (if \<not> sv_device v then Err BeUnavailable else Ok (sv_geometry v))"

definition block_transact ::
  "nat \<Rightarrow> u64 \<Rightarrow> process \<Rightarrow> u64 \<Rightarrow> block_service \<times> physical \<Rightarrow> (block_error, u64) outcome \<times> block_service \<times> physical" where
  "block_transact active num s owner = (\<lambda>(v, p).
     let handle = frame_arguments (ps_frame s) ! 0; address = frame_arguments (ps_frame s) ! 1;
         len = frame_arguments (ps_frame s) ! 2 in
     if num = 14 then
       if address \<noteq> 0 \<or> len \<noteq> 0 then (Err BeRequest, v, p)
       else case block_close (sv_broker v) owner handle of (r, b) \<Rightarrow>
         or_return r (v\<lparr>sv_broker := b\<rparr>, p) (\<lambda>_. (Ok 0, v\<lparr>sv_broker := b\<rparr>, p))
     else if num = 13 then
       if len \<noteq> 0 then (Err BeRequest, v, p)
       else case block_cancel (sv_broker v) owner handle address of (r, b) \<Rightarrow> (r, v\<lparr>sv_broker := b\<rparr>, p)
     else if num = 11 then
       or_return (block_peek (sv_broker v) owner handle) (v, p) (\<lambda>c.
       if len \<noteq> of_nat result_bytes then (Err BeSize, v, p)
       else case copy_to_user active (ps_space s) (unat address) (completion_encode c) p of (r, p) \<Rightarrow>
         or_return (map_err (\<lambda>_. BeAddress) r) (v, p) (\<lambda>_.
         case block_consume (sv_broker v) owner handle of (r, b) \<Rightarrow>
           or_return r (v\<lparr>sv_broker := b\<rparr>, p) (\<lambda>_. (Ok (of_nat result_bytes), v\<lparr>sv_broker := b\<rparr>, p))))
     else if num = 9 then
       or_return (and_then (service_geometry v) (block_geometry (sv_broker v) owner handle)) (v, p) (\<lambda>g.
       if len \<noteq> of_nat geometry_bytes then (Err BeSize, v, p)
       else case copy_to_user active (ps_space s) (unat address) (geometry_encode g) p of (r, p) \<Rightarrow>
         or_return (map_err (\<lambda>_. BeAddress) r) (v, p) (\<lambda>_. (Ok (of_nat geometry_bytes), v, p)))
     else if num = 10 then
       or_return (service_geometry v) (v, p) (\<lambda>geometry.
       or_return (block_geometry (sv_broker v) owner handle geometry) (v, p) (\<lambda>_.
       if len \<noteq> of_nat request_bytes then (Err BeSize, v, p)
       else or_return (map_err (\<lambda>_. BeAddress) (copy_from_user active p (ps_space s) (unat address) request_bytes)) (v, p) (\<lambda>bs.
       or_return (request_decode bs) (v, p) (\<lambda>q.
       or_return (block_check (sv_broker v) owner handle (rq_operation q) (rq_sector q) geometry) (v, p) (\<lambda>_.
       or_return (if rq_operation q = OpWrite
           then map_err (\<lambda>_. BeAddress) (copy_from_user active p (ps_space s) (unat (rq_address q)) sector_bytes)
           else Ok (replicate sector_bytes 0)) (v, p) (\<lambda>data.
       case block_admit (sv_broker v) owner handle (rq_operation q) (rq_sector q) data geometry of (r, b) \<Rightarrow>
         (r, v\<lparr>sv_broker := b\<rparr>, p)))))))
     else (Err BeRequest, v, p))"

definition block_dispatch ::
  "nat \<Rightarrow> u64 \<Rightarrow> process \<Rightarrow> u64 \<Rightarrow> block_service \<times> physical \<Rightarrow> (process_error, action) outcome \<times> block_service \<times> physical" where
  "block_dispatch active num s owner vp =
     (let handle = frame_arguments (ps_frame s) ! 0; address = frame_arguments (ps_frame s) ! 1;
          len = frame_arguments (ps_frame s) ! 2 in
      if num = 9 \<and> frame_arguments (ps_frame s) = [0, 0, 0] then (Ok (Return 1), vp)
      else if num = 12 then
        (if len \<noteq> 0 then Ok (Return (block_code BeRequest))
         else case block_wait (sv_broker (fst vp)) owner handle address of
           Ok _ \<Rightarrow> Ok (Return 0)
         | Err e \<Rightarrow> Ok (if e = BeWouldBlock then Block (WaitBlock handle address) else Return (block_code e))
         | Panic \<Rightarrow> Panic, vp)
      else case block_transact active num s owner vp of (r, vp) \<Rightarrow> (returned block_code r, vp))"

section \<open>Heap calls\<close>

primrec heap_classify :: "heap_error \<Rightarrow> rt_error" where
  "heap_classify HpSize = RtSize"
| "heap_classify HpAddress = RtAddress"
| "heap_classify HpInvalid = RtInvalid"
| "heap_classify HpFull = RtFull"

definition heap_map ::
  "nat \<Rightarrow> u64 \<Rightarrow> u64 \<Rightarrow> u64 \<Rightarrow> process \<times> physical \<Rightarrow> (rt_error, u64) outcome \<times> process \<times> physical" where
  "heap_map active address pages flags = (\<lambda>(s, p).
     if \<not> flags_valid flags then (Err RtInvalid, s, p)
     else case heap_reserve (ps_heap s) (if address \<noteq> 0 then Some (unat address) else None) (unat pages) of (r, h) \<Rightarrow>
       or_return (map_err heap_classify r) (s\<lparr>ps_heap := h\<rparr>, p) (\<lambda>base.
       case map_user_pages active (ps_space s) base (unat pages) (flags AND 1 \<noteq> 0) p of
         (Ok _, p) \<Rightarrow> (Ok (of_nat base), s\<lparr>ps_heap := h\<rparr>, p)
       | (Panic, p) \<Rightarrow> (Panic, s\<lparr>ps_heap := h\<rparr>, p)
       | (Err _, p) \<Rightarrow>
           (case heap_release h base (unat pages) of
              (Ok _, h) \<Rightarrow> (Err RtFull, s\<lparr>ps_heap := h\<rparr>, p) | (_, h) \<Rightarrow> (Panic, s\<lparr>ps_heap := h\<rparr>, p))))"

definition heap_unmap ::
  "nat \<Rightarrow> u64 \<Rightarrow> u64 \<Rightarrow> u64 \<Rightarrow> process \<times> physical \<Rightarrow> (rt_error, u64) outcome \<times> process \<times> physical" where
  "heap_unmap active address pages reserved = (\<lambda>(s, p).
     if reserved \<noteq> 0 then (Err RtInvalid, s, p)
     else case heap_release (ps_heap s) (unat address) (unat pages) of (r, h) \<Rightarrow>
       or_return (map_err heap_classify r) (s\<lparr>ps_heap := h\<rparr>, p) (\<lambda>_.
       case unmap_user_pages active (ps_space s) (unat address) (unat pages) p of
         (Ok _, p) \<Rightarrow> (Ok 0, s\<lparr>ps_heap := h\<rparr>, p) | (_, p) \<Rightarrow> (Panic, s\<lparr>ps_heap := h\<rparr>, p)))"

definition heap_query :: "process \<Rightarrow> u64 \<Rightarrow> (rt_error, u64) outcome" where
  "heap_query s selector =
     (if selector = 0 then Ok (of_nat (hp_used (ps_heap s)))
      else if selector = 1 then Ok (of_nat process_pages)
      else if selector = 2 then Ok (of_nat window_base)
      else if selector = 3 then Ok (of_nat window_pages)
      else Err RtInvalid)"

definition heap_dispatch ::
  "nat \<Rightarrow> u64 \<Rightarrow> process \<times> physical \<Rightarrow> (process_error, action) outcome \<times> process \<times> physical" where
  "heap_dispatch active num = (\<lambda>(s, p).
     let a = frame_arguments (ps_frame s) in
     case (if num = 21 then heap_map active (a ! 0) (a ! 1) (a ! 2) (s, p)
           else if num = 22 then heap_unmap active (a ! 0) (a ! 1) (a ! 2) (s, p)
           else if num = 23 then (heap_query s (a ! 0), s, p)
           else (Err RtInvalid, s, p)) of
       (r, s, p) \<Rightarrow> (returned rt_code r, s, p))"

section \<open>The dispatcher\<close>

definition saturating_succ :: "u64 \<Rightarrow> u64" where
  "saturating_succ n = (if n = - 1 then n else n + 1)"

record call_state =
  cs_process :: process
  cs_broker :: broker
  cs_service :: block_service
  cs_memory :: physical

definition syscall_dispatch :: "nat \<Rightarrow> u64 \<Rightarrow> call_state \<Rightarrow> (process_error, action) outcome \<times> call_state" where
  "syscall_dispatch active owner c =
     (let s = (cs_process c)\<lparr>ps_calls := saturating_succ (ps_calls (cs_process c))\<rparr>;
          c = c\<lparr>cs_process := s\<rparr> in
      case frame_call (ps_frame s) of (num, argument) \<Rightarrow>
        if num = 0 then (Ok (Return proc_version), c)
        else if num = 3 then (Ok (Return owner), c)
        else if num = 1 then (Ok (Exit argument), c)
        else if num = 2 then
          if ps_reports s < 8 then
            (Ok (Return 0), c\<lparr>cs_process := s\<lparr>ps_reports := ps_reports s + 1, ps_last_report := argument\<rparr>\<rparr>)
          else (Ok (Return quota_code), c)
        else if 4 \<le> num \<and> num \<le> 8 then
          (case ipc_dispatch active num s owner (cs_broker c, cs_memory c) of
             (r, b, p) \<Rightarrow> (r, c\<lparr>cs_broker := b, cs_memory := p\<rparr>))
        else if 9 \<le> num \<and> num \<le> 14 then
          (case block_dispatch active num s owner (cs_service c, cs_memory c) of
             (r, v, p) \<Rightarrow> (r, c\<lparr>cs_service := v, cs_memory := p\<rparr>))
        else if 21 \<le> num \<and> num \<le> 23 then
          (case heap_dispatch active num (s, cs_memory c) of
             (r, s, p) \<Rightarrow> (r, c\<lparr>cs_process := s, cs_memory := p\<rparr>))
        else (Ok (Return not_supported), c))"

end
