(* ===== verification/Kernel_Buffer.thy ===== *)
theory Kernel_Buffer
  imports Space_Safety
begin

unbundle bit_operations_syntax

text \<open>
  Kernel-owned bytes on a contiguous run of frames, \<open>kernel/src/arch/x86_64/memory/buffer.rs\<close>: allocation of a
  zeroed run, writes at an offset, the slice of the bytes, and release after erasing them. The frames of a buffer
  are outside every address space.
\<close>

section \<open>Definitions\<close>

record kernel_buffer =
  kb_physical :: nat
  kb_pages :: nat
  kb_length :: nat

definition run_frames :: "nat \<Rightarrow> nat \<Rightarrow> nat list" where
  "run_frames a n = map (\<lambda>i. a + i * page_size) [0..<n]"

definition zero_frames :: "nat list \<Rightarrow> physical \<Rightarrow> physical" where
  "zero_frames fs p = p\<lparr>ph_words := (\<lambda>f. if f \<in> set fs then (\<lambda>_. 0) else ph_words p f)\<rparr>"

definition allocate_kernel_buffer :: "nat \<Rightarrow> physical \<Rightarrow> (mem_error, kernel_buffer) outcome \<times> physical" where
  "allocate_kernel_buffer len p =
     (let pages = div_ceil len page_size in
      if pages = 0 \<or> pages > 128 then (Err MemInvalidAddress, p)
      else case allocate_contiguous_bounded (ph_frames p) pages 128 of (r, f) \<Rightarrow>
        or_return (map_err MemFrames r) (p\<lparr>ph_frames := f\<rparr>) (\<lambda>a.
          (Ok \<lparr>kb_physical = a, kb_pages = pages, kb_length = len\<rparr>, zero_frames (run_frames a pages) (p\<lparr>ph_frames := f\<rparr>))))"

primrec release_all :: "nat list \<Rightarrow> physical \<Rightarrow> (mem_error, unit) outcome \<times> physical" where
  "release_all [] p = (Ok (), p)"
| "release_all (f # fs) p =
     (case ph_release p f of (Ok _, p) \<Rightarrow> release_all fs p | (_, p) \<Rightarrow> (Panic, p))"

definition release_kernel_buffer :: "kernel_buffer \<Rightarrow> physical \<Rightarrow> (mem_error, unit) outcome \<times> physical" where
  "release_kernel_buffer k p =
     (let fs = run_frames (kb_physical k) (kb_pages k) in release_all fs (zero_frames fs p))"

text \<open>The byte at an offset from the base of the run.\<close>

definition run_byte :: "physical \<Rightarrow> nat \<Rightarrow> nat \<Rightarrow> u8" where
  "run_byte p a i = frame_byte (ph_words p (a + i div page_size * page_size)) (i mod page_size)"

primrec run_store :: "nat \<Rightarrow> nat \<Rightarrow> bytes \<Rightarrow> physical \<Rightarrow> physical" where
  "run_store a i [] p = p"
| "run_store a i (b # bs) p =
     (let f = a + i div page_size * page_size in
      run_store a (Suc i) bs (p\<lparr>ph_words := (ph_words p)(f := put_bytes (ph_words p f) (i mod page_size) [b])\<rparr>))"

definition buffer_write :: "kernel_buffer \<Rightarrow> nat \<Rightarrow> bytes \<Rightarrow> physical \<Rightarrow> (mem_error, unit) outcome \<times> physical" where
  "buffer_write k off bs p =
     (if bs = [] \<or> (case checked_add64 off (length bs) of None \<Rightarrow> True | Some e \<Rightarrow> e > kb_length k)
      then (Err MemInvalidAddress, p) else (Ok (), run_store (kb_physical k) off bs p))"

definition buffer_slice :: "kernel_buffer \<Rightarrow> physical \<Rightarrow> bytes" where
  "buffer_slice k p = map (run_byte p (kb_physical k)) [0..<kb_length k]"

section \<open>What the operations do\<close>

definition buffer_frames :: "kernel_buffer \<Rightarrow> nat set" where
  "buffer_frames k = set (run_frames (kb_physical k) (kb_pages k))"

lemma run_frames_distinct: "distinct (run_frames a n)"
  by (simp add: run_frames_def distinct_map inj_on_def)

lemma zero_frames_simps [simp]:
  "ph_frames (zero_frames fs p) = ph_frames p" "alloc_set (zero_frames fs p) = alloc_set p" "phys_ok (zero_frames fs p) = phys_ok p"
  "ph_words (zero_frames fs p) = (\<lambda>f. if f \<in> set fs then (\<lambda>_. 0) else ph_words p f)"
  by (simp_all add: zero_frames_def alloc_set_def phys_ok_def)

lemma allocate_buffer_cases:
  assumes ok: "phys_ok p" and run: "allocate_kernel_buffer len p = (res, q)"
  obtains (refused) e where "res = Err e" "q = p"
  | (made) b where "res = Ok b" "kb_length b = len" "kb_pages b = div_ceil len page_size" "phys_ok q"
      "buffer_frames b \<inter> alloc_set p = {}" "alloc_set q = alloc_set p \<union> buffer_frames b"
      "\<And>f. f \<notin> buffer_frames b \<Longrightarrow> ph_words q f = ph_words p f" "\<And>f. f \<in> buffer_frames b \<Longrightarrow> ph_words q f = (\<lambda>_. 0)"
proof -
  let ?n = "div_ceil len page_size"
  note inv = phys_okD(1) [OF ok]
  show ?thesis
  proof (cases "?n = 0 \<or> ?n > 128")
    case True
    then have "res = Err MemInvalidAddress" "q = p" using run by (simp_all add: allocate_kernel_buffer_def Let_def)
    then show ?thesis by (rule refused)
  next
    case small: False
    obtain r f where c: "allocate_contiguous_bounded (ph_frames p) ?n 128 = (r, f)" by fastforce
    from inv c show ?thesis
    proof (cases rule: contiguous_cases)
      case invalid
      then have "res = Err (MemFrames FrInvalidRange)" "q = p" using run small c by (auto simp: allocate_kernel_buffer_def Let_def)
      then show ?thesis by (rule refused)
    next
      case exhausted
      then have "res = Err (MemFrames FrExhausted)" "q = p" using run small c by (auto simp: allocate_kernel_buffer_def Let_def)
      then show ?thesis by (rule refused)
    next
      case (allocated a)
      let ?b = "\<lparr>kb_physical = a * page_size, kb_pages = ?n, kb_length = len\<rparr>"
      have fr: "buffer_frames ?b = (\<lambda>i. i * page_size) ` {a..<a + ?n}"
      proof -
        have "buffer_frames ?b = (\<lambda>i. (a + i) * page_size) ` {0..<?n}" by (auto simp: buffer_frames_def run_frames_def add_mult_distrib)
        also have "\<dots> = (\<lambda>i. i * page_size) ` ((\<lambda>i. a + i) ` {0..<?n})" by (simp only: image_image)
        also have "(\<lambda>i. a + i) ` {0..<?n} = {a..<a + ?n}" by (simp add: add.commute)
        finally show ?thesis .
      qed
      have res: "res = Ok ?b" "q = zero_frames (run_frames (a * page_size) ?n) (p\<lparr>ph_frames := f\<rparr>)"
        using run c small allocated(1) by (simp_all add: allocate_kernel_buffer_def Let_def)
      have "is_allocated f x \<longleftrightarrow> is_allocated (ph_frames p) x \<or> x \<in> buffer_frames ?b" for x
        unfolding is_allocated_iff [OF allocated(9)] is_allocated_iff [OF inv] fr allocated(6) by auto
      then have al: "alloc_set q = alloc_set p \<union> buffer_frames ?b" by (auto simp: res(2) alloc_set_def)
      have "x \<notin> alloc_set p" if "x \<in> buffer_frames ?b" for x
        using that allocated(2) is_allocated_iff [OF inv] unfolding fr by (auto simp: alloc_set_def available_def)
      moreover have "phys_ok q" using ok allocated(7,9) by (simp add: res(2) phys_ok_def address_limit_def)
      ultimately show ?thesis using made [of ?b] res al by (auto simp: buffer_frames_def)
    qed
  qed
qed

lemma release_all_value:
  assumes "phys_ok p" and "set fs \<subseteq> alloc_set p" and "distinct fs"
  shows "\<exists>q. release_all fs p = (Ok (), q) \<and> phys_ok q \<and> alloc_set q = alloc_set p - set fs \<and> ph_words q = ph_words p"
  using assms
proof (induction fs arbitrary: p)
  case (Cons f fs)
  obtain u where u: "ph_release p f = (Ok (), u)" "alloc_set u = alloc_set p - {f}" "ph_words u = ph_words p" "phys_ok u"
    using release_value [OF Cons.prems(1), of f] Cons.prems(2) by auto
  have "set fs \<subseteq> alloc_set u" using u(2) Cons.prems(2,3) by auto
  from Cons.IH [OF u(4) this] show ?case using u Cons.prems(3) by auto
qed simp

lemma release_buffer_value:
  assumes "phys_ok p" and "buffer_frames b \<subseteq> alloc_set p"
  obtains q where "release_kernel_buffer b p = (Ok (), q)" "phys_ok q" "alloc_set q = alloc_set p - buffer_frames b"
    "\<And>f. f \<notin> buffer_frames b \<Longrightarrow> ph_words q f = ph_words p f" "\<And>f. f \<in> buffer_frames b \<Longrightarrow> ph_words q f = (\<lambda>_. 0)"
  using release_all_value [of "zero_frames (run_frames (kb_physical b) (kb_pages b)) p" "run_frames (kb_physical b) (kb_pages b)"]
    assms run_frames_distinct by (auto simp: release_kernel_buffer_def Let_def buffer_frames_def)

text \<open>Writes stay inside the run and put each byte in its place.\<close>

lemma run_frame_in: "i < kb_length b \<Longrightarrow> kb_pages b = div_ceil (kb_length b) page_size \<Longrightarrow>
    kb_physical b + i div page_size * page_size \<in> buffer_frames b"
proof -
  assume i: "i < kb_length b" and n: "kb_pages b = div_ceil (kb_length b) page_size"
  have "i div page_size < div_ceil (kb_length b) page_size"
    using i by (auto simp: div_ceil_def less_Suc_eq_le div_le_mono div_less_iff_less_mult)
  then show ?thesis unfolding buffer_frames_def run_frames_def n by auto
qed

lemma run_frame_eq: "a + i div page_size * page_size = a + j div page_size * page_size \<longleftrightarrow> i div page_size = j div page_size"
  by simp

lemma run_store_spec:
  "ph_frames (run_store a i bs p) = ph_frames p \<and>
   (\<forall>j. run_byte (run_store a i bs p) a j = (if i \<le> j \<and> j < i + length bs then bs ! (j - i) else run_byte p a j)) \<and>
   (\<forall>f. (\<forall>j. i \<le> j \<longrightarrow> j < i + length bs \<longrightarrow> f \<noteq> a + j div page_size * page_size) \<longrightarrow> ph_words (run_store a i bs p) f = ph_words p f)"
proof (induction bs arbitrary: i p)
  case (Cons b bs)
  let ?f = "a + i div page_size * page_size"
  let ?q = "p\<lparr>ph_words := (ph_words p)(?f := put_bytes (ph_words p ?f) (i mod page_size) [b])\<rparr>"
  have one: "run_byte ?q a j = (if j = i then b else run_byte p a j)" for j
  proof (cases "j div page_size = i div page_size")
    case True
    then have "j mod page_size = i mod page_size \<longleftrightarrow> j = i" by (metis div_mult_mod_eq)
    moreover have "frame_byte (put_bytes ws (i mod page_size) [b]) m = (if m = i mod page_size then b else frame_byte ws m)" for ws m
      unfolding frame_byte_put by (auto simp: less_Suc_eq_le)
    ultimately show ?thesis using True by (simp add: run_byte_def del: put_bytes.simps)
  next
    case False
    then show ?thesis by (auto simp: run_byte_def)
  qed
  note ih = Cons.IH [of "Suc i" ?q]
  show ?case
  proof (intro conjI allI impI)
    show "ph_frames (run_store a i (b # bs) p) = ph_frames p" using ih by (simp add: Let_def)
    show "run_byte (run_store a i (b # bs) p) a j =
        (if i \<le> j \<and> j < i + length (b # bs) then (b # bs) ! (j - i) else run_byte p a j)" for j
    proof -
      have "run_byte (run_store a i (b # bs) p) a j = (if Suc i \<le> j \<and> j < Suc i + length bs then bs ! (j - Suc i) else run_byte ?q a j)"
        using ih by (simp add: Let_def)
      then show ?thesis unfolding one by (auto simp: nth_Cons' Suc_le_eq)
    qed
    show "ph_words (run_store a i (b # bs) p) f = ph_words p f"
      if "\<forall>j. i \<le> j \<longrightarrow> j < i + length (b # bs) \<longrightarrow> f \<noteq> a + j div page_size * page_size" for f
    proof -
      have "f \<noteq> ?f" using that by auto
      moreover have "ph_words (run_store a (Suc i) bs ?q) f = ph_words ?q f" using ih that by auto
      ultimately show ?thesis by (simp add: Let_def)
    qed
  qed
qed auto

lemma buffer_write_value:
  assumes n: "kb_pages b = div_ceil (kb_length b) page_size" and "kb_length b < u64_limit" and "bs \<noteq> []" and len: "off + length bs \<le> kb_length b"
  obtains q where "buffer_write b off bs p = (Ok (), q)" "ph_frames q = ph_frames p"
    "\<And>f. f \<notin> buffer_frames b \<Longrightarrow> ph_words q f = ph_words p f"
    "\<And>j. run_byte q (kb_physical b) j = (if off \<le> j \<and> j < off + length bs then bs ! (j - off) else run_byte p (kb_physical b) j)"
proof -
  let ?q = "run_store (kb_physical b) off bs p"
  note sp = run_store_spec [of "kb_physical b" off bs p]
  have "buffer_write b off bs p = (Ok (), ?q)" using assms by (simp add: buffer_write_def checked_add64_def)
  moreover have "ph_words ?q f = ph_words p f" if "f \<notin> buffer_frames b" for f
    using sp that run_frame_in [OF _ n] len by (metis (no_types, lifting) order.strict_trans2)
  ultimately show ?thesis using that sp by blast
qed

end
