(* ===== verification/Process_Manager.thy ===== *)
theory Process_Manager
  imports Process_Calls Kernel_Buffer
begin

unbundle bit_operations_syntax

text \<open>
  The manager of \<open>kernel/src/process/runtime\<close> in the native configuration (feature \<open>sdk-test\<close>): the process table with
  its records, both brokers, the block service, the staged image and the session, together with the physical memory
  they all work on, as one record \<open>kstate\<close>. One definition per function of \<open>manager.rs\<close>, \<open>waiters.rs\<close>,
  \<open>ipc_control.rs\<close>, \<open>block_control.rs\<close>, \<open>block/service.rs\<close>, \<open>application.rs\<close> and \<open>native/\<close>.

  What the kernel does not compute is an argument: the registers and bytes a program leaves behind when it traps, the
  readings of the clock and the serial line, the answers of the block device, the program files built into the kernel
  and the digest function. The driver of the device owns the frames \<open>ks_dma\<close>.
\<close>

section \<open>State and surroundings\<close>

record image_stage =
  st_owner :: u64
  st_generation :: u64
  st_length :: nat
  st_received :: nat
  st_available :: u64
  st_manifest :: bytes
  st_buffer :: kernel_buffer

record kstate =
  ks_supervisor :: u64
  ks_console :: u64
  ks_shutdown :: bool
  ks_generation :: u64
  ks_stage :: "image_stage option"
  ks_table :: proc_table
  ks_processes :: "process slots"
  ks_broker :: broker
  ks_block :: block_service
  ks_memory :: physical
  ks_root :: nat
  ks_dma :: "nat set"

record reading =
  rd_ticks :: u64
  rd_ready :: bool
  rd_serial :: bool
  rd_written :: bool
  rd_input :: bytes

record device_answers =
  da_poll :: "(device_error option \<times> bytes) option"
  da_start :: "device_error option"
  da_recover :: "bool \<times> device_geometry option"
  da_recover_again :: "bool \<times> device_geometry option"
  da_now :: u64
  da_later :: u64

record surroundings =
  en_before :: "nat \<Rightarrow> reading"
  en_during :: "nat \<Rightarrow> reading"
  en_after :: "nat \<Rightarrow> reading"
  en_call :: reading
  en_device :: device_answers
  en_driver :: "nat set \<Rightarrow> physical \<Rightarrow> nat set \<times> physical"
  en_user :: "nat \<Rightarrow> frame \<Rightarrow> physical \<Rightarrow> frame \<times> u64 \<times> physical"

record artefacts =
  ar_sha256 :: "bytes \<Rightarrow> bytes"
  ar_catalog :: "u64 \<Rightarrow> bytes \<times> bytes"

definition serial_ready :: "reading \<Rightarrow> bool" where
  "serial_ready rd \<longleftrightarrow> rd_serial rd \<and> rd_ready rd"

text \<open>\<open>expect\<close> on a result.\<close>

primrec must :: "('e, 'a) outcome \<Rightarrow> ('f, 'a) outcome" where
  "must (Ok x) = Ok x"
| "must (Err e) = Panic"
| "must Panic = Panic"

abbreviation kernel_space :: "kstate \<Rightarrow> address_space" where
  "kernel_space k \<equiv> \<lparr>as_root = ks_root k, as_kernel = True\<rparr>"

definition set_process :: "nat \<Rightarrow> process option \<Rightarrow> kstate \<Rightarrow> kstate" where
  "set_process slot s k = k\<lparr>ks_processes := (ks_processes k)[slot := s]\<rparr>"

definition kernel_new :: "nat \<Rightarrow> physical \<Rightarrow> kstate" where
  "kernel_new root p =
     \<lparr>ks_supervisor = 0, ks_console = 0, ks_shutdown = False, ks_generation = 0, ks_stage = None, ks_table = life_new,
      ks_processes = replicate capacity None, ks_broker = broker_new,
      ks_block = \<lparr>sv_broker = block_new, sv_observation = hold_default, sv_device = False,
        sv_geometry = \<lparr>dev_sectors = 0, dev_read_only = False\<rparr>, sv_hold_next = False, sv_reject_next = False\<rparr>,
      ks_memory = p, ks_root = root, ks_dma = {}\<rparr>"

section \<open>The block service\<close>

definition service_open ::
  "(device_error, device_geometry) outcome \<Rightarrow> block_service \<Rightarrow> (device_error, unit) outcome \<times> block_service" where
  "service_open answer v =
     (if sv_device v \<or> block_counts (sv_broker v) \<noteq> (0, 0) then (Err DevBusy, v)
      else or_return answer v (\<lambda>g. (Ok (), v\<lparr>sv_geometry := g, sv_device := True\<rparr>)))"

definition service_recover ::
  "bool \<times> device_geometry option \<Rightarrow> block_service \<Rightarrow> (process_error, unit) outcome \<times> block_service" where
  "service_recover answer v =
     (if \<not> sv_device v then (Panic, v)
      else (Ok (), v\<lparr>sv_device := (fst answer \<and> snd answer = Some (sv_geometry v))\<rparr>))"

definition poll_status :: "device_error option \<Rightarrow> status" where
  "poll_status r = (case r of None \<Rightarrow> StSuccess
     | Some e \<Rightarrow> if e = DevTimeout then StTimeout else if e = DevProtocol then StProtocol else StIo)"

text \<open>\<open>Ok False\<close> is the early return while a completion is withheld.\<close>

definition service_poll :: "device_answers \<Rightarrow> block_service \<Rightarrow> (process_error, bool) outcome \<times> block_service" where
  "service_poll a v =
     (case block_active (sv_broker v) of
        None \<Rightarrow> (Ok True, v)
      | Some n \<Rightarrow>
          (case hold_withheld (sv_observation v) (unat n) (unat (da_now a)) of (withheld, obs) \<Rightarrow>
           let v = v\<lparr>sv_observation := obs\<rparr> in
           if withheld then (Ok False, v)
           else if \<not> sv_device v then (Panic, v)
           else case da_poll a of
             None \<Rightarrow> (Ok True, v)
           | Some (res, data) \<Rightarrow>
               (case block_finish (sv_broker v) n (poll_status res) data of (r, b) \<Rightarrow>
                or_return (must r) (v\<lparr>sv_broker := b\<rparr>) (\<lambda>_.
                if res = Some DevTimeout \<or> res = Some DevProtocol
                then (case service_recover (da_recover a) (v\<lparr>sv_broker := b\<rparr>) of (r, v) \<Rightarrow> or_return r v (\<lambda>_. (Ok True, v)))
                else (Ok True, v\<lparr>sv_broker := b\<rparr>)))))"

definition service_start :: "device_answers \<Rightarrow> block_service \<Rightarrow> (process_error, unit) outcome \<times> block_service" where
  "service_start a v =
     (case block_start (sv_broker v) of
        (None, b) \<Rightarrow> (Ok (), v\<lparr>sv_broker := b\<rparr>)
      | (Some q, b) \<Rightarrow>
          let unavailable = block_finish b (pn_id q) StUnavailable (replicate sector_bytes 0) in
          if \<not> sv_device v then (must (fst unavailable), v\<lparr>sv_broker := snd unavailable\<rparr>)
          else
            let v = v\<lparr>sv_reject_next := False, sv_hold_next := False\<rparr> in
            (case da_start a of
               Some e \<Rightarrow>
                 or_return (must (fst unavailable)) (v\<lparr>sv_broker := snd unavailable\<rparr>) (\<lambda>_.
                 if e = DevProtocol then service_recover (da_recover_again a) (v\<lparr>sv_broker := snd unavailable\<rparr>)
                 else (Ok (), v\<lparr>sv_broker := snd unavailable\<rparr>))
             | None \<Rightarrow>
                 (case hold_submitted (sv_observation v) (unat (pn_owner q)) (unat (pn_id q)) (pn_operation q \<noteq> OpRead) (unat (da_later a)) of
                    (held, obs) \<Rightarrow> (Ok (), v\<lparr>sv_broker := b, sv_observation := obs\<rparr>))))"

definition service_tick :: "device_answers \<Rightarrow> block_service \<Rightarrow> (process_error, unit) outcome \<times> block_service" where
  "service_tick a v =
     (case service_poll a v of (r, v) \<Rightarrow> or_return r v (\<lambda>go. if go then service_start a v else (Ok (), v)))"

text \<open>The driver uses its own frames and the allocator while the service runs.\<close>

definition kernel_tick :: "surroundings \<Rightarrow> kstate \<Rightarrow> (process_error, unit) outcome \<times> kstate" where
  "kernel_tick e k =
     (case en_driver e (ks_dma k) (ks_memory k) of (d, p) \<Rightarrow>
      case service_tick (en_device e) (ks_block k) of (r, v) \<Rightarrow> (r, k\<lparr>ks_block := v, ks_memory := p, ks_dma := d\<rparr>))"

section \<open>Waiters\<close>

primrec wait_scan :: "broker \<Rightarrow> u64 \<Rightarrow> u64 list \<Rightarrow> bool \<Rightarrow> (process_error, u64 + bool) outcome" where
  "wait_scan b owner [] ready = Ok (Inr ready)"
| "wait_scan b owner (h # hs) ready =
     (case broker_peek b owner h of
        Ok _ \<Rightarrow> wait_scan b owner hs True
      | Err e \<Rightarrow> if e = IpcWouldBlock then wait_scan b owner hs ready
          else if e = IpcClosed then Ok (Inl (rt_code RtClosed)) else Ok (Inl (rt_code RtInvalid))
      | Panic \<Rightarrow> Panic)"

definition wait_readiness :: "broker \<Rightarrow> u64 \<Rightarrow> u64 list \<Rightarrow> u64 \<Rightarrow> u64 \<Rightarrow> (process_error, u64 option) outcome" where
  "wait_readiness b owner hs deadline now =
     and_then (wait_scan b owner hs False) (\<lambda>x.
       Ok (case x of Inl c \<Rightarrow> Some c | Inr ready \<Rightarrow> if ready \<or> now \<ge> deadline then Some 0 else None))"

text \<open>The value a blocked process wakes up with, if it does.\<close>

definition wake_value :: "reading \<Rightarrow> u64 \<Rightarrow> wait_on \<Rightarrow> kstate \<Rightarrow> (process_error, u64 option) outcome" where
  "wake_value rd pid w k =
     (case w of
        WaitConsole \<Rightarrow> Ok (if ks_console k \<noteq> pid then Some (rt_code RtDenied) else if serial_ready rd then Some 0 else None)
      | WaitAny hs n deadline \<Rightarrow> wait_readiness (ks_broker k) pid (take n hs) deadline (rd_ticks rd)
      | WaitIpc h \<Rightarrow> (case broker_peek (ks_broker k) pid h of
            Ok _ \<Rightarrow> Ok (Some 0) | Err e \<Rightarrow> Ok (if e = IpcWouldBlock then None else Some (ipc_code e)) | Panic \<Rightarrow> Panic)
      | WaitBlock h n \<Rightarrow> (case block_wait (sv_broker (ks_block k)) pid h n of
            Ok _ \<Rightarrow> Ok (Some 0) | Err e \<Rightarrow> Ok (if e = BeWouldBlock then None else Some (block_code e)) | Panic \<Rightarrow> Panic))"

definition refresh_slot :: "reading \<Rightarrow> nat \<Rightarrow> kstate \<Rightarrow> (process_error, unit) outcome \<times> kstate" where
  "refresh_slot rd slot k =
     (case life_pid_at (ks_table k) slot of
        None \<Rightarrow> (Ok (), k)
      | Some pid \<Rightarrow>
          or_return (must (life_state (ks_table k) pid)) k (\<lambda>st.
          if st \<noteq> Blocked then (Ok (), k)
          else or_return (expect (ks_processes k ! slot)) k (\<lambda>s.
          or_return (expect (ps_pending s)) k (\<lambda>w.
          or_return (wake_value rd pid w k) k (\<lambda>v. case v of
            None \<Rightarrow> (Ok (), k)
          | Some x \<Rightarrow>
              let k = set_process slot (Some (s\<lparr>ps_pending := None, ps_frame := frame_result x (ps_frame s)\<rparr>)) k in
              (case life_wake (ks_table k) pid of (r, t) \<Rightarrow> (must r, k\<lparr>ks_table := t\<rparr>)))))))"

primrec refresh_slots :: "(nat \<Rightarrow> reading) \<Rightarrow> nat list \<Rightarrow> kstate \<Rightarrow> (process_error, unit) outcome \<times> kstate" where
  "refresh_slots rd [] k = (Ok (), k)"
| "refresh_slots rd (slot # slots) k =
     (case refresh_slot (rd slot) slot k of (r, k) \<Rightarrow> or_return r k (\<lambda>_. refresh_slots rd slots k))"

definition refresh_waiters :: "(nat \<Rightarrow> reading) \<Rightarrow> kstate \<Rightarrow> (process_error, unit) outcome \<times> kstate" where
  "refresh_waiters rd k = refresh_slots rd [0..<capacity] k"

section \<open>The life of a process\<close>

definition mgr_state :: "kstate \<Rightarrow> pid \<Rightarrow> (process_error, proc_state) outcome" where
  "mgr_state k pid = map_err PeProcess (life_state (ks_table k) pid)"

definition mgr_process :: "kstate \<Rightarrow> pid \<Rightarrow> (process_error, process) outcome" where
  "mgr_process k pid =
     and_then (map_err PeProcess (life_slot (ks_table k) pid)) (\<lambda>slot. expect (ks_processes k ! slot))"

definition mgr_create :: "bytes \<Rightarrow> u64 list \<Rightarrow> kstate \<Rightarrow> (process_error, pid) outcome \<times> kstate" where
  "mgr_create bs args k =
     (case life_create (ks_table k) of (r, t) \<Rightarrow> let k = k\<lparr>ks_table := t\<rparr> in
      or_return (map_err PeProcess r) k (\<lambda>(slot, pid).
      case loader_load (kernel_space k) bs (ks_memory k) of
        (Ok ld, p) \<Rightarrow>
          (Ok pid, set_process slot (Some
             \<lparr>ps_parent = 0, ps_program = 0, ps_space = ld_space ld, ps_heap = heap_new,
              ps_frame = frame_user (of_nat (ld_entry ld)) (of_nat stack_top) args, ps_preemptions = 0, ps_reports = 0,
              ps_last_report = 0, ps_pending = None, ps_calls = 0\<rparr>) (k\<lparr>ks_memory := p\<rparr>))
      | (Panic, p) \<Rightarrow> (Panic, k\<lparr>ks_memory := p\<rparr>)
      | (Err e, p) \<Rightarrow>
          (case life_finish (ks_table k) pid ExitKilled of (r, t) \<Rightarrow>
           or_return (map_err PeProcess r) (k\<lparr>ks_memory := p, ks_table := t\<rparr>) (\<lambda>_.
           case life_reap t pid of (r, t) \<Rightarrow>
           or_return (map_err PeProcess r) (k\<lparr>ks_memory := p, ks_table := t\<rparr>) (\<lambda>_.
             (Err e, k\<lparr>ks_memory := p, ks_table := t\<rparr>))))))"

definition mgr_finish :: "(nat \<Rightarrow> reading) \<Rightarrow> pid \<Rightarrow> exit_status \<Rightarrow> kstate \<Rightarrow> (process_error, unit) outcome \<times> kstate" where
  "mgr_finish rd pid e k =
     (case life_finish (ks_table k) pid e of (r, t) \<Rightarrow> let k = k\<lparr>ks_table := t\<rparr> in
      or_return (map_err PeProcess r) k (\<lambda>_.
      let k = (if ks_console k = pid then k\<lparr>ks_console := 0\<rparr> else k) in
      or_return (map_err PeProcess (life_slot (ks_table k) pid)) k (\<lambda>slot.
      or_return (expect (ks_processes k ! slot)) k (\<lambda>s.
      let k = set_process slot (Some (s\<lparr>ps_pending := None\<rparr>)) k in
      case broker_close_owner (ks_broker k) pid of
        Some (Ok _, b) \<Rightarrow>
          (case block_close_owner (sv_broker (ks_block k)) pid of
             Some (Ok _, bb) \<Rightarrow> refresh_waiters rd (k\<lparr>ks_broker := b, ks_block := (ks_block k)\<lparr>sv_broker := bb\<rparr>\<rparr>)
           | _ \<Rightarrow> (Panic, k\<lparr>ks_broker := b\<rparr>))
      | _ \<Rightarrow> (Panic, k)))))"

definition mgr_kill :: "(nat \<Rightarrow> reading) \<Rightarrow> pid \<Rightarrow> kstate \<Rightarrow> (process_error, unit) outcome \<times> kstate" where
  "mgr_kill rd pid k = mgr_finish rd pid ExitKilled k"

definition mgr_wait :: "pid \<Rightarrow> kstate \<Rightarrow> (process_error, exit_status option) outcome \<times> kstate" where
  "mgr_wait pid k =
     or_return (map_err PeProcess (life_state (ks_table k) pid)) k (\<lambda>st.
     if \<not> is_exited st then (Ok None, k)
     else or_return (map_err PeProcess (life_slot (ks_table k) pid)) k (\<lambda>slot.
     or_return (expect (ks_processes k ! slot)) k (\<lambda>s.
     case destroy_user (ks_root k) (ps_space s) (ks_memory k) of (r, sp, p) \<Rightarrow>
     let k = set_process slot (Some (s\<lparr>ps_space := sp\<rparr>)) (k\<lparr>ks_memory := p\<rparr>) in
     or_return (map_err PeMemory r) k (\<lambda>_.
     let k = set_process slot None k in
     case life_reap (ks_table k) pid of (r, t) \<Rightarrow>
     or_return (map_err PeProcess r) (k\<lparr>ks_table := t\<rparr>) (\<lambda>x. (Ok (Some x), k\<lparr>ks_table := t\<rparr>))))))"

section \<open>Trusted launcher operations\<close>

definition mgr_live :: "kstate \<Rightarrow> pid \<Rightarrow> (ipc_error, nat) outcome" where
  "mgr_live k pid =
     (case life_state (ks_table k) pid of
        Ok st \<Rightarrow> if is_exited st then Err IpcHandle else map_err (\<lambda>_. IpcHandle) (life_slot (ks_table k) pid)
      | Err _ \<Rightarrow> Err IpcHandle
      | Panic \<Rightarrow> Panic)"

definition mgr_connect :: "pid \<Rightarrow> pid \<Rightarrow> kstate \<Rightarrow> (ipc_error, u64 \<times> u64) outcome \<times> kstate" where
  "mgr_connect a b k =
     or_return (mgr_live k a) k (\<lambda>_. or_return (mgr_live k b) k (\<lambda>_.
     case broker_connect (ks_broker k) a b of (r, br) \<Rightarrow> (r, k\<lparr>ks_broker := br\<rparr>)))"

definition mgr_transfer ::
  "(nat \<Rightarrow> reading) \<Rightarrow> pid \<Rightarrow> u64 \<Rightarrow> pid \<Rightarrow> u8 \<Rightarrow> kstate \<Rightarrow> (ipc_error, u64) outcome \<times> kstate" where
  "mgr_transfer rd owner h target rights k =
     or_return (mgr_live k owner) k (\<lambda>_. or_return (mgr_live k target) k (\<lambda>_.
     case broker_transfer (ks_broker k) owner h target rights of (r, br) \<Rightarrow> let k = k\<lparr>ks_broker := br\<rparr> in
     or_return r k (\<lambda>token.
     case refresh_waiters rd k of (r, k) \<Rightarrow> or_return (must r) k (\<lambda>_. (Ok token, k)))))"

definition mgr_bootstrap :: "pid \<Rightarrow> u64 list \<Rightarrow> kstate \<Rightarrow> (process_error, unit) outcome \<times> kstate" where
  "mgr_bootstrap pid args k =
     or_return (must (mgr_live k pid)) k (\<lambda>slot.
     or_return (expect (ks_processes k ! slot)) k (\<lambda>s.
     if fm_vector (ps_frame s) \<noteq> 0 then (Panic, k)
     else (Ok (), set_process slot (Some (s\<lparr>ps_frame := frame_set_arguments args (ps_frame s)\<rparr>)) k)))"

definition mgr_cancel_wait :: "pid \<Rightarrow> kstate \<Rightarrow> (ipc_error, unit) outcome \<times> kstate" where
  "mgr_cancel_wait pid k =
     or_return (mgr_live k pid) k (\<lambda>slot.
     or_return (must (life_state (ks_table k) pid)) k (\<lambda>st.
     if st \<noteq> Blocked then (Err IpcMessage, k)
     else or_return (expect (ks_processes k ! slot)) k (\<lambda>s.
     case ps_pending s of
       Some (WaitIpc h) \<Rightarrow>
         let k = set_process slot (Some (s\<lparr>ps_pending := None, ps_frame := frame_result (ipc_code IpcCancelled) (ps_frame s)\<rparr>)) k in
         (case life_wake (ks_table k) pid of (r, t) \<Rightarrow> (must r, k\<lparr>ks_table := t\<rparr>))
     | _ \<Rightarrow> (Err IpcMessage, k))))"

definition mgr_grant_block :: "pid \<Rightarrow> sector_grant \<Rightarrow> kstate \<Rightarrow> (block_error, u64) outcome \<times> kstate" where
  "mgr_grant_block pid g k =
     or_return (map_err (\<lambda>_. BeHandle) (mgr_live k pid)) k (\<lambda>_.
     or_return (service_geometry (ks_block k)) k (\<lambda>geometry.
     case block_grant (sv_broker (ks_block k)) pid g (dev_sectors geometry) of (r, b) \<Rightarrow>
       (r, k\<lparr>ks_block := (ks_block k)\<lparr>sv_broker := b\<rparr>\<rparr>)))"

section \<open>Admission of applications\<close>

datatype launch_error = LeManifest manifest_error | LeExecutable | LeArtifactDigest | LeDenied | LeProcess process_error

definition app_launch ::
  "artefacts \<Rightarrow> bytes \<Rightarrow> bytes \<Rightarrow> bytes \<Rightarrow> u64 \<Rightarrow> kstate \<Rightarrow> (launch_error, pid) outcome \<times> kstate" where
  "app_launch ar mf name elf avail k =
     or_return (map_err LeManifest (manifest_parse mf)) k (\<lambda>m.
     if mf_executable m \<noteq> name then (Err LeExecutable, k)
     else if length elf > max_bytes then (Err (LeProcess (PeElf ElfHeader)), k)
     else if ar_sha256 ar elf \<noteq> mf_sha256 m then (Err LeArtifactDigest, k)
     else if \<not> manifest_admitted m avail then (Err LeDenied, k)
     else or_return (map_err (\<lambda>e. LeProcess (PeElf e)) (elf_parse elf)) k (\<lambda>_.
     case mgr_create elf [0, 0, 0] k of (r, k) \<Rightarrow> (map_err LeProcess r, k)))"

text \<open>\<open>process.parent = ..; process.program = ..\<close> on the record in the slot of a process.\<close>

definition register_child :: "pid \<Rightarrow> u64 \<Rightarrow> u64 \<Rightarrow> kstate \<Rightarrow> ('e, unit) outcome \<times> kstate" where
  "register_child pid parent program k =
     or_return (must (life_slot (ks_table k) pid)) k (\<lambda>slot.
     or_return (expect (ks_processes k ! slot)) k (\<lambda>s.
       (Ok (), set_process slot (Some (s\<lparr>ps_parent := parent, ps_program := program\<rparr>)) k)))"

definition app_launch_dormant ::
  "artefacts \<Rightarrow> (nat \<Rightarrow> reading) \<Rightarrow> bytes \<Rightarrow> bytes \<Rightarrow> bytes \<Rightarrow> u64 \<Rightarrow> u64 \<Rightarrow> u64 \<Rightarrow> kstate \<Rightarrow>
   (launch_error, pid) outcome \<times> kstate" where
  "app_launch_dormant ar rd mf name elf avail parent program k =
     (case app_launch ar mf name elf avail k of (r, k) \<Rightarrow> or_return r k (\<lambda>pid.
      case life_hold (ks_table k) pid of (r, t) \<Rightarrow> let k = k\<lparr>ks_table := t\<rparr> in
      (case r of
         Panic \<Rightarrow> (Panic, k)
       | Err e \<Rightarrow>
           (case mgr_kill rd pid k of (r, k) \<Rightarrow> or_return (must r) k (\<lambda>_.
            case mgr_wait pid k of (r, k) \<Rightarrow> or_return (must r) k (\<lambda>_. (Err (LeProcess (PeProcess e)), k))))
       | Ok _ \<Rightarrow> (case register_child pid parent program k of (r, k) \<Rightarrow> or_return r k (\<lambda>_. (Ok pid, k))))))"

text \<open>The catalog names its executables; their manifests and bytes are built into the kernel.\<close>

definition catalog_name :: "u64 \<Rightarrow> bytes option" where
  "catalog_name program =
     (if program = 0 then Some (map of_char ''supervisor.elf'')
      else if program = 1 then Some (map of_char ''file-server.elf'')
      else if program = 2 then Some (map of_char ''shell.elf'')
      else if program = 3 then Some (map of_char ''utility.elf'')
      else if program = 4 then Some (map of_char ''tasks.elf'')
      else None)"

definition catalog_launch :: "artefacts \<Rightarrow> u64 \<Rightarrow> kstate \<Rightarrow> (rt_error, pid) outcome \<times> kstate" where
  "catalog_launch ar program k =
     (case catalog_name program of
        None \<Rightarrow> (Err RtInvalid, k)
      | Some name \<Rightarrow>
          (case ar_catalog ar program of (mf, elf) \<Rightarrow>
           case app_launch ar mf name elf app_known k of (r, k) \<Rightarrow> (map_err (\<lambda>_. RtFull) r, k)))"

end
