(* ===== verification/Native_Runtime.thy ===== *)
theory Native_Runtime
  imports Process_Manager
begin

unbundle bit_operations_syntax

text \<open>
  The native part of the manager (\<open>kernel/src/process/runtime/native\<close>): the staged image of the supervisor, waiting on
  several channels, the console, the control calls, and the scheduling step of \<open>manager.rs\<close> that dispatches a trap to
  them.
\<close>

section \<open>Staging an image\<close>

definition release_stage :: "image_stage \<Rightarrow> kstate \<Rightarrow> ('e, unit) outcome \<times> kstate" where
  "release_stage st k =
     (case release_kernel_buffer (st_buffer st) (ks_memory k) of (r, p) \<Rightarrow> (must r, k\<lparr>ks_memory := p\<rparr>))"

definition clear_image_stage :: "kstate \<Rightarrow> ('e, unit) outcome \<times> kstate" where
  "clear_image_stage k =
     (case ks_stage k of None \<Rightarrow> (Ok (), k) | Some st \<Rightarrow> release_stage st (k\<lparr>ks_stage := None\<rparr>))"

definition clear_then :: "'e \<Rightarrow> kstate \<Rightarrow> ('e, 'a) outcome \<times> kstate" where
  "clear_then e k = (case clear_image_stage k of (r, k) \<Rightarrow> or_return r k (\<lambda>_. (Err e, k)))"

definition preserve_stage_on_refusal :: "kstate \<Rightarrow> u64 list \<Rightarrow> bool" where
  "preserve_stage_on_refusal k w =
     (if w ! 0 = 16 then ks_stage k \<noteq> None
      else if w ! 0 \<in> {17, 18, 19} then (case ks_stage k of None \<Rightarrow> False | Some st \<Rightarrow> st_generation st \<noteq> w ! 1)
      else False)"

text \<open>\<open>self.process(caller).is_ok_and(|source| memory.copy_from_user(..).is_ok())\<close>.\<close>

definition copy_from_process :: "kstate \<Rightarrow> pid \<Rightarrow> u64 \<Rightarrow> nat \<Rightarrow> ('e, bytes option) outcome" where
  "copy_from_process k pid address len =
     (case mgr_process k pid of
        Panic \<Rightarrow> Panic
      | Err _ \<Rightarrow> Ok None
      | Ok s \<Rightarrow> (case copy_from_user (ks_root k) (ks_memory k) (ps_space s) (unat address) len of
          Ok bs \<Rightarrow> Ok (Some bs) | Err _ \<Rightarrow> Ok None | Panic \<Rightarrow> Panic))"

definition stage_begin :: "u64 \<Rightarrow> u64 list \<Rightarrow> kstate \<Rightarrow> (rt_error, u64 list) outcome \<times> kstate" where
  "stage_begin caller w k =
     (if ks_stage k \<noteq> None then (Err RtBusy, k)
      else let len = unat (w ! 1) in
      if \<not> (64 \<le> len \<and> len \<le> 512 * 1024) then (Err RtSize, k)
      else if w ! 3 AND NOT app_known \<noteq> 0 then (Err RtInvalid, k)
      else or_return (copy_from_process k caller (w ! 2) 128) k (\<lambda>copied.
      case copied of None \<Rightarrow> (Err RtAddress, k) | Some mf \<Rightarrow>
      or_return (map_err (\<lambda>_. RtProtocol) (manifest_parse mf)) k (\<lambda>m.
      if \<not> manifest_admitted m (w ! 3) then (Err RtDenied, k)
      else or_return (ok_or RtFull (case checked_add (ks_generation k) 1 of None \<Rightarrow> None | Some n \<Rightarrow> if n \<noteq> 0 then Some n else None)) k
        (\<lambda>generation.
      case allocate_kernel_buffer len (ks_memory k) of (r, p) \<Rightarrow>
      or_return (map_err (\<lambda>_. RtFull) r) (k\<lparr>ks_memory := p\<rparr>) (\<lambda>buffer.
        (Ok [generation, 4096, 0, 0, 0, 0, 0, 0],
         k\<lparr>ks_memory := p, ks_generation := generation,
           ks_stage := Some \<lparr>st_owner = caller, st_generation = generation, st_length = len, st_received = 0,
             st_available = w ! 3, st_manifest = mf, st_buffer = buffer\<rparr>\<rparr>))))))"

definition stage_copy :: "u64 \<Rightarrow> u64 list \<Rightarrow> kstate \<Rightarrow> (rt_error, u64 list) outcome \<times> kstate" where
  "stage_copy caller w k =
     (case ks_stage k of
        None \<Rightarrow> (Err RtBusy, k)
      | Some st \<Rightarrow>
          if st_owner st \<noteq> caller \<or> st_generation st \<noteq> w ! 1 then (Err RtInvalid, k)
          else let off = unat (w ! 2); len = unat (w ! 4) in
          if off \<noteq> st_received st then clear_then RtInvalid k
          else if len = 0 \<or> len > 4096 then clear_then RtSize k
          else if (case checked_add64 off len of None \<Rightarrow> True | Some e \<Rightarrow> e > st_length st) then clear_then RtSize k
          else or_return (copy_from_process k caller (w ! 3) len) k (\<lambda>copied.
          case copied of
            None \<Rightarrow> clear_then RtAddress k
          | Some chunk \<Rightarrow>
              (case buffer_write (st_buffer st) off chunk (ks_memory k) of
                 (Ok _, p) \<Rightarrow>
                   (Ok [of_nat (st_received st + len), 0, 0, 0, 0, 0, 0, 0],
                    k\<lparr>ks_memory := p, ks_stage := Some (st\<lparr>st_received := st_received st + len\<rparr>)\<rparr>)
               | (_, p) \<Rightarrow> clear_then RtProtocol (k\<lparr>ks_memory := p\<rparr>))))"

definition map_launch_error :: "launch_error \<Rightarrow> rt_error" where
  "map_launch_error e =
     (case e of LeManifest _ \<Rightarrow> RtProtocol | LeExecutable \<Rightarrow> RtProtocol | LeArtifactDigest \<Rightarrow> RtProtocol
      | LeDenied \<Rightarrow> RtDenied
      | LeProcess pe \<Rightarrow> (case pe of PeElf _ \<Rightarrow> RtProtocol | PeMemory _ \<Rightarrow> RtFull | PeProcess _ \<Rightarrow> RtFull))"

definition stage_launch ::
  "artefacts \<Rightarrow> (nat \<Rightarrow> reading) \<Rightarrow> u64 \<Rightarrow> image_stage \<Rightarrow> kstate \<Rightarrow> (rt_error, pid) outcome \<times> kstate" where
  "stage_launch ar rd caller st k =
     or_return (map_err (\<lambda>_. RtProtocol) (manifest_parse (st_manifest st))) k (\<lambda>m.
     if \<not> manifest_admitted m (st_available st) then (Err RtDenied, k)
     else case app_launch_dormant ar rd (st_manifest st) (mf_executable m) (buffer_slice (st_buffer st) (ks_memory k))
         (st_available st) caller 5 k of
       (r, k) \<Rightarrow> (map_err map_launch_error r, k))"

definition stage_commit ::
  "artefacts \<Rightarrow> (nat \<Rightarrow> reading) \<Rightarrow> u64 \<Rightarrow> u64 \<Rightarrow> kstate \<Rightarrow> (rt_error, u64 list) outcome \<times> kstate" where
  "stage_commit ar rd caller generation k =
     (case ks_stage k of
        None \<Rightarrow> (Err RtBusy, k)
      | Some st \<Rightarrow>
          if st_owner st \<noteq> caller \<or> st_generation st \<noteq> generation then (Err RtInvalid, k)
          else let k = k\<lparr>ks_stage := None\<rparr> in
          if st_received st \<noteq> st_length st
          then (case release_stage st k of (r, k) \<Rightarrow> or_return r k (\<lambda>_. (Err RtSize, k)))
          else case stage_launch ar rd caller st k of
            (Panic, k) \<Rightarrow> (Panic, k)
          | (res, k) \<Rightarrow>
              (case release_stage st k of (r, k) \<Rightarrow> or_return r k (\<lambda>_.
               or_return res k (\<lambda>pid. (Ok [pid, generation, 0, 0, 0, 0, 0, 0], k)))))"

definition stage_abort :: "u64 \<Rightarrow> u64 \<Rightarrow> kstate \<Rightarrow> (rt_error, u64 list) outcome \<times> kstate" where
  "stage_abort caller generation k =
     (case ks_stage k of
        None \<Rightarrow> (Err RtBusy, k)
      | Some st \<Rightarrow>
          if st_owner st \<noteq> caller \<or> st_generation st \<noteq> generation then (Err RtInvalid, k)
          else case clear_image_stage k of (r, k) \<Rightarrow> or_return r k (\<lambda>_. (Ok (replicate 8 0), k)))"

definition staging_operation ::
  "artefacts \<Rightarrow> (nat \<Rightarrow> reading) \<Rightarrow> u64 \<Rightarrow> u64 list \<Rightarrow> kstate \<Rightarrow> (rt_error, u64 list) outcome \<times> kstate" where
  "staging_operation ar rd caller w k =
     (if caller = 0 \<or> caller \<noteq> ks_supervisor k then (Err RtDenied, k)
      else if w ! 0 = 16 then stage_begin caller w k
      else if w ! 0 = 17 then stage_copy caller w k
      else if w ! 0 = 18 then stage_commit ar rd caller (w ! 1) k
      else if w ! 0 = 19 then stage_abort caller (w ! 1) k
      else (Err RtInvalid, k))"

section \<open>Waiting and the console\<close>

text \<open>\<open>deadline = ticks().saturating_add(timeout)\<close> on words.\<close>

definition wait_deadline :: "u64 \<Rightarrow> u64 \<Rightarrow> u64" where
  "wait_deadline now timeout = (case checked_add now timeout of Some d \<Rightarrow> d | None \<Rightarrow> - 1)"

definition wait_dispatch :: "nat \<Rightarrow> reading \<Rightarrow> process \<Rightarrow> broker \<Rightarrow> u64 \<Rightarrow> physical \<Rightarrow> (process_error, action) outcome" where
  "wait_dispatch active rd s b owner p =
     (let address = frame_arguments (ps_frame s) ! 0; n = unat (frame_arguments (ps_frame s) ! 1);
          timeout = frame_arguments (ps_frame s) ! 2 in
      if n = 0 \<or> n > 16 \<or> timeout > 1000 then Ok (Return (rt_code RtSize))
      else case copy_from_user active p (ps_space s) (unat address) (n * 8) of
        Panic \<Rightarrow> Panic
      | Err _ \<Rightarrow> Ok (Return (rt_code RtAddress))
      | Ok bs \<Rightarrow>
          let hs = map (\<lambda>i. u64_at (put (replicate 128 0) 0 bs) (8 * i)) [0..<16]; deadline = wait_deadline (rd_ticks rd) timeout in
          and_then (wait_readiness b owner (take n hs) deadline (rd_ticks rd)) (\<lambda>v.
            Ok (case v of Some x \<Rightarrow> Return x | None \<Rightarrow> Block (WaitAny hs n deadline))))"

definition console_call ::
  "nat \<Rightarrow> reading \<Rightarrow> u64 \<Rightarrow> process \<Rightarrow> u64 \<Rightarrow> u64 \<Rightarrow> physical \<Rightarrow> (rt_error, action) outcome \<times> physical" where
  "console_call active rd num s owner console p =
     (let address = unat (frame_arguments (ps_frame s) ! 0); len = unat (frame_arguments (ps_frame s) ! 1) in
      if owner \<noteq> console then (Err RtDenied, p)
      else if num = 18 then
        if frame_arguments (ps_frame s) \<noteq> [0, 0, 0] then (Err RtInvalid, p)
        else (Ok (if serial_ready rd then Return 0 else Block WaitConsole), p)
      else if frame_arguments (ps_frame s) ! 2 \<noteq> 0 then (Err RtInvalid, p)
      else if len = 0 \<or> len > (if num = 16 then 256 else 64) then (Err RtSize, p)
      else if num = 16 then
        or_return (map_err (\<lambda>_. RtAddress) (copy_from_user active p (ps_space s) address len)) p (\<lambda>bs.
        if \<not> rd_serial rd \<or> \<not> rd_written rd then (Err RtBusy, p) else (Ok (Return (of_nat len)), p))
      else
        or_return (map_err (\<lambda>_. RtAddress) (validate_buffer active p (ps_space s) address len True)) p (\<lambda>_.
        if \<not> rd_serial rd then (Err RtBusy, p)
        else let bs = take len (rd_input rd) in
        if bs = [] then (Err RtWouldBlock, p)
        else case copy_to_user active (ps_space s) address bs p of (r, p) \<Rightarrow>
          or_return (map_err (\<lambda>_. RtAddress) r) p (\<lambda>_. (Ok (Return (of_nat (length bs))), p))))"

definition console_dispatch ::
  "nat \<Rightarrow> reading \<Rightarrow> u64 \<Rightarrow> process \<Rightarrow> u64 \<Rightarrow> u64 \<Rightarrow> physical \<Rightarrow> (process_error, action) outcome \<times> physical" where
  "console_dispatch active rd num s owner console p =
     (case console_call active rd num s owner console p of
        (Ok a, p) \<Rightarrow> (Ok a, p) | (Err e, p) \<Rightarrow> (Ok (Return (rt_code e)), p) | (Panic, p) \<Rightarrow> (Panic, p))"

definition native_dispatch ::
  "nat \<Rightarrow> reading \<Rightarrow> u64 \<Rightarrow> process \<Rightarrow> broker \<Rightarrow> u64 \<Rightarrow> u64 \<Rightarrow> physical \<Rightarrow> (process_error, action) outcome \<times> physical" where
  "native_dispatch active rd num s b owner console p =
     (if num = 15 \<and> frame_arguments (ps_frame s) = [0, 0, 0] then (Ok (Return (rd_ticks rd)), p)
      else if num = 19 then (wait_dispatch active rd s b owner p, p)
      else if num \<in> {16, 17, 18} then console_dispatch active rd num s owner console p
      else (Ok (Return (rt_code RtInvalid)), p))"

section \<open>Control calls\<close>

definition mgr_owned :: "kstate \<Rightarrow> u64 \<Rightarrow> (rt_error, pid) outcome" where
  "mgr_owned k pid =
     and_then (map_err (\<lambda>_. RtNotFound) (mgr_process k pid)) (\<lambda>s.
       if pid \<noteq> ks_supervisor k \<and> ps_parent s \<noteq> ks_supervisor k then Err RtDenied else Ok pid)"

primrec exit_words :: "exit_status \<Rightarrow> u64 \<times> u64" where
  "exit_words (ExitCode c) = (1, c)"
| "exit_words (ExitFault v e a) = (2, v)"
| "exit_words ExitKilled = (3, 0)"

primrec state_word :: "proc_state \<Rightarrow> u64" where
  "state_word Dormant = 1"
| "state_word Ready = 2"
| "state_word Running = 3"
| "state_word Blocked = 4"
| "state_word (Exited e) = 5"

definition control_info :: "reading \<Rightarrow> kstate \<Rightarrow> u64 list" where
  "control_info rd k =
     [1, rd_ticks rd, of_nat (free_frames (ks_memory k)), 16, of_nat (length (flatten (ks_processes k))),
      of_nat (fst (broker_counts (ks_broker k))), of_nat (snd (block_counts (sv_broker (ks_block k)))),
      of_nat (sum_list (map (\<lambda>s. hp_used (ps_heap s)) (flatten (ks_processes k))))]"

definition control_spawn :: "artefacts \<Rightarrow> u64 \<Rightarrow> kstate \<Rightarrow> (rt_error, u64 list) outcome \<times> kstate" where
  "control_spawn ar program k =
     (if program \<notin> {1, 2, 3, 4} then (Err RtInvalid, k)
      else case catalog_launch ar program k of (r, k) \<Rightarrow> or_return r k (\<lambda>child.
      case life_hold (ks_table k) child of (r, t) \<Rightarrow> let k = k\<lparr>ks_table := t\<rparr> in
      or_return (map_err (\<lambda>_. RtBusy) r) k (\<lambda>_.
      case register_child child (ks_supervisor k) program k of (r, k) \<Rightarrow>
      or_return r k (\<lambda>_. (Ok [child, 0, 0, 0, 0, 0, 0, 0], k)))))"

definition control_start :: "u64 list \<Rightarrow> kstate \<Rightarrow> (rt_error, u64 list) outcome \<times> kstate" where
  "control_start w k =
     or_return (mgr_owned k (w ! 1)) k (\<lambda>child.
     or_return (map_err (\<lambda>_. RtNotFound) (mgr_state k child)) k (\<lambda>st.
     if st \<noteq> Dormant then (Err RtBusy, k)
     else case mgr_bootstrap child [w ! 2, w ! 3, w ! 4] k of (r, k) \<Rightarrow> or_return (must r) k (\<lambda>_.
     case life_start (ks_table k) child of (r, t) \<Rightarrow>
     or_return (map_err (\<lambda>_. RtBusy) r) (k\<lparr>ks_table := t\<rparr>) (\<lambda>_. (Ok (replicate 8 0), k\<lparr>ks_table := t\<rparr>)))))"

definition control_process :: "u64 \<Rightarrow> kstate \<Rightarrow> (rt_error, u64 list) outcome" where
  "control_process n k =
     (if n \<ge> 16 then Err RtInvalid
      else case life_pid_at (ks_table k) (unat n) of
        None \<Rightarrow> Ok (replicate 8 0)
      | Some pid \<Rightarrow>
          and_then (map_err (\<lambda>_. RtNotFound) (mgr_process k pid)) (\<lambda>s.
          and_then (map_err (\<lambda>_. RtNotFound) (mgr_state k pid)) (\<lambda>st.
            let x = (case st of Exited e \<Rightarrow> exit_words e | _ \<Rightarrow> (0, 0)) in
            Ok [pid, state_word st, fst x, snd x, ps_preemptions s, ps_parent s, ps_program s, 0])))"

definition control_end :: "(nat \<Rightarrow> reading) \<Rightarrow> bool \<Rightarrow> u64 \<Rightarrow> kstate \<Rightarrow> (rt_error, u64 list) outcome \<times> kstate" where
  "control_end rd killing n k =
     or_return (mgr_owned k n) k (\<lambda>p.
     if p = ks_supervisor k then (Err RtDenied, k)
     else if killing then
       (case mgr_kill rd p k of (r, k) \<Rightarrow> or_return (map_err (\<lambda>_. RtBusy) r) k (\<lambda>_. (Ok (replicate 8 0), k)))
     else
       (case mgr_wait p k of (r, k) \<Rightarrow> or_return (map_err (\<lambda>_. RtNotFound) r) k (\<lambda>x.
        or_return (ok_or RtBusy x) k (\<lambda>e. (Ok [fst (exit_words e), snd (exit_words e), 0, 0, 0, 0, 0, 0], k)))))"

definition try_u8 :: "u64 \<Rightarrow> (rt_error, u8) outcome" where
  "try_u8 v = (if v \<le> 255 then Ok (ucast v) else Err RtInvalid)"

definition control_move :: "(nat \<Rightarrow> reading) \<Rightarrow> u64 list \<Rightarrow> kstate \<Rightarrow> (rt_error, u64 list) outcome \<times> kstate" where
  "control_move rd w k =
     or_return (mgr_owned k (w ! 1)) k (\<lambda>owner. or_return (mgr_owned k (w ! 3)) k (\<lambda>target.
     or_return (try_u8 (w ! 4)) k (\<lambda>rights.
     case mgr_transfer rd owner (w ! 2) target rights k of (r, k) \<Rightarrow>
     or_return (map_err (\<lambda>_. RtDenied) r) k (\<lambda>token. (Ok [token, 0, 0, 0, 0, 0, 0, 0], k)))))"

definition control_close :: "(nat \<Rightarrow> reading) \<Rightarrow> u64 list \<Rightarrow> kstate \<Rightarrow> (rt_error, u64 list) outcome \<times> kstate" where
  "control_close rd w k =
     or_return (mgr_owned k (w ! 1)) k (\<lambda>p.
     case broker_close (ks_broker k) p (w ! 2) of (r, b) \<Rightarrow> let k = k\<lparr>ks_broker := b\<rparr> in
     or_return (map_err (\<lambda>_. RtInvalid) r) k (\<lambda>_.
     case refresh_waiters rd k of (r, k) \<Rightarrow> or_return (must r) k (\<lambda>_. (Ok (replicate 8 0), k))))"

definition control_console :: "(nat \<Rightarrow> reading) \<Rightarrow> u64 \<Rightarrow> kstate \<Rightarrow> (rt_error, u64 list) outcome \<times> kstate" where
  "control_console rd n k =
     or_return (if n \<noteq> 0 then and_then (mgr_owned k n) (\<lambda>p. map_err (\<lambda>_. RtNotFound) (mgr_live k p)) else Ok 0) k (\<lambda>_.
     case refresh_waiters rd (k\<lparr>ks_console := n\<rparr>) of (r, k) \<Rightarrow> or_return (must r) k (\<lambda>_. (Ok (replicate 8 0), k)))"

definition control_grant :: "u64 list \<Rightarrow> kstate \<Rightarrow> (rt_error, u64 list) outcome \<times> kstate" where
  "control_grant w k =
     or_return (mgr_owned k (w ! 1)) k (\<lambda>p. or_return (try_u8 (w ! 2)) k (\<lambda>rights.
     case mgr_grant_block p \<lparr>gr_first = w ! 3, gr_sectors = w ! 4, gr_rights = rights\<rparr> k of (r, k) \<Rightarrow>
     or_return (map_err (\<lambda>_. RtDenied) r) k (\<lambda>token. (Ok [token, 0, 0, 0, 0, 0, 0, 0], k))))"

definition control_connect :: "u64 list \<Rightarrow> kstate \<Rightarrow> (rt_error, u64 list) outcome \<times> kstate" where
  "control_connect w k =
     or_return (mgr_owned k (w ! 1)) k (\<lambda>a. or_return (mgr_owned k (w ! 2)) k (\<lambda>b.
     case mgr_connect a b k of (r, k) \<Rightarrow>
     or_return (map_err (\<lambda>_. RtFull) r) k (\<lambda>(x, y). (Ok [x, y, 0, 0, 0, 0, 0, 0], k))))"

definition control_hold :: "u64 list \<Rightarrow> kstate \<Rightarrow> (rt_error, u64 list) outcome \<times> kstate" where
  "control_hold w k =
     or_return (and_then (mgr_owned k (w ! 1)) (\<lambda>p. map_err (\<lambda>_. RtNotFound) (mgr_live k p))) k (\<lambda>_.
     case hold_arm (sv_observation (ks_block k)) (unat (w ! 1)) (unat (w ! 2)) (unat (w ! 3)) of (armed, obs) \<Rightarrow>
       if \<not> armed then (Err RtInvalid, k)
       else (Ok (replicate 8 0), k\<lparr>ks_block := (ks_block k)\<lparr>sv_observation := obs\<rparr>\<rparr>))"

definition control_operation ::
  "artefacts \<Rightarrow> reading \<Rightarrow> (nat \<Rightarrow> reading) \<Rightarrow> u64 list \<Rightarrow> kstate \<Rightarrow> (rt_error, u64 list) outcome \<times> kstate" where
  "control_operation ar now rd w k =
     or_return (validate_control w) k (\<lambda>_.
     if w ! 0 = 0 then (Ok (control_info now k), k)
     else if w ! 0 = 10 then
       (Ok [24, of_nat (fst (broker_counts (ks_broker k))), 64, of_nat (snd (broker_counts (ks_broker k))), 24,
            of_nat (broker_max_owner_handles (ks_broker k)), 0, 0], k)
     else if w ! 0 = 1 then control_spawn ar (w ! 1) k
     else if w ! 0 = 2 then control_start w k
     else if w ! 0 = 3 then control_connect w k
     else if w ! 0 = 4 then control_grant w k
     else if w ! 0 = 13 then control_move rd w k
     else if w ! 0 = 12 then control_close rd w k
     else if w ! 0 = 5 then control_console rd (w ! 1) k
     else if w ! 0 = 6 then (control_process (w ! 1) k, k)
     else if w ! 0 = 7 \<or> w ! 0 = 8 then control_end rd (w ! 0 = 7) (w ! 1) k
     else if w ! 0 = 9 then
       (case clear_image_stage k of (r, k) \<Rightarrow> or_return r k (\<lambda>_. (Ok (replicate 8 0), k\<lparr>ks_shutdown := True\<rparr>)))
     else if w ! 0 = 14 then control_hold w k
     else if w ! 0 = 15 then (Ok (map of_nat (hold_status (sv_observation (ks_block k)))), k)
     else if w ! 0 \<in> {16, 17, 18, 19} then staging_operation ar rd (ks_supervisor k) w k
     else if w ! 0 = 11 then
       or_return (map_err (\<lambda>_. RtNotFound) (service_geometry (ks_block k))) k (\<lambda>g.
         (Ok [dev_sectors g, of_bool (dev_read_only g), 0, 0, 0, 0, 0, 0], k))
     else (Err RtInvalid, k))"

text \<open>The request words are known once the record was copied in and decoded; a failed staging call clears the stage.\<close>

definition control_request :: "pid \<Rightarrow> kstate \<Rightarrow> (rt_error, u64 list) outcome" where
  "control_request pid k =
     (if pid \<noteq> ks_supervisor k \<or> pid = 0 then Err RtDenied
      else and_then (map_err (\<lambda>_. RtNotFound) (mgr_process k pid)) (\<lambda>s.
      let a = frame_arguments (ps_frame s) in
      if a ! 1 \<noteq> 64 \<or> a ! 2 \<noteq> 0 then Err RtSize
      else and_then (map_err (\<lambda>_. RtAddress) (validate_buffer (ks_root k) (ks_memory k) (ps_space s) (unat (a ! 0)) 64 True)) (\<lambda>_.
      and_then (map_err (\<lambda>_. RtAddress) (copy_from_user (ks_root k) (ks_memory k) (ps_space s) (unat (a ! 0)) 64)) words_decode)))"

definition control_reply :: "pid \<Rightarrow> u64 \<Rightarrow> u64 list \<Rightarrow> kstate \<Rightarrow> (rt_error, u64) outcome \<times> kstate" where
  "control_reply pid address out k =
     or_return (map_err (\<lambda>_. RtNotFound) (mgr_process k pid)) k (\<lambda>s.
     case copy_to_user (ks_root k) (ps_space s) (unat address) (words_encode out) (ks_memory k) of (r, p) \<Rightarrow>
     or_return (map_err (\<lambda>_. RtAddress) r) (k\<lparr>ks_memory := p\<rparr>) (\<lambda>_. (Ok 64, k\<lparr>ks_memory := p\<rparr>)))"

definition mgr_control ::
  "artefacts \<Rightarrow> reading \<Rightarrow> (nat \<Rightarrow> reading) \<Rightarrow> pid \<Rightarrow> u64 \<Rightarrow> kstate \<Rightarrow> (process_error, action) outcome \<times> kstate" where
  "mgr_control ar now rd pid address k =
     (case control_request pid k of
        Panic \<Rightarrow> (Panic, k)
      | Err e \<Rightarrow> (Ok (Return (rt_code e)), k)
      | Ok w \<Rightarrow>
          (case (case control_operation ar now rd w k of (r, k) \<Rightarrow> or_return r k (\<lambda>out. control_reply pid address out k)) of
             (Panic, k) \<Rightarrow> (Panic, k)
           | (Ok v, k) \<Rightarrow> (Ok (Return v), k)
           | (Err e, k) \<Rightarrow>
               if pid = ks_supervisor k \<and> w ! 0 \<in> {16, 17, 18, 19} \<and> \<not> preserve_stage_on_refusal k w
               then (case clear_image_stage k of (r, k) \<Rightarrow> or_return r k (\<lambda>_. (Ok (Return (rt_code e)), k)))
               else (Ok (Return (rt_code e)), k)))"

section \<open>The scheduling step\<close>

definition sum_action :: "('e, action) outcome \<Rightarrow> ('e, exit_status + action) outcome" where
  "sum_action r = and_then r (\<lambda>a. Ok (Inr a))"

text \<open>What the trap of the running process asks for: an exit by fault or an action.\<close>

definition trap_action ::
  "artefacts \<Rightarrow> surroundings \<Rightarrow> nat \<Rightarrow> pid \<Rightarrow> u64 \<Rightarrow> process \<Rightarrow> kstate \<Rightarrow> (process_error, exit_status + action) outcome \<times> kstate" where
  "trap_action ar e slot pid address s k =
     (let v = fm_vector (ps_frame s) in
      if 32 \<le> v \<and> v \<le> 47 then
        (Ok (Inr Resume), if v = 32 then set_process slot (Some (s\<lparr>ps_preemptions := ps_preemptions s + 1\<rparr>)) k else k)
      else if v = 128 then
        let num = fst (frame_call (ps_frame s)) in
        if num = 20 then
          (case mgr_control ar (en_call e) (en_during e) pid (frame_arguments (ps_frame s) ! 0) k of (r, k) \<Rightarrow> (sum_action r, k))
        else if 15 \<le> num \<and> num \<le> 19 then
          (case native_dispatch (ks_root k) (en_call e) num s (ks_broker k) pid (ks_console k) (ks_memory k) of
             (r, p) \<Rightarrow> (sum_action r, k\<lparr>ks_memory := p\<rparr>))
        else
          (case syscall_dispatch (ks_root k) pid
               \<lparr>cs_process = s, cs_broker = ks_broker k, cs_service = ks_block k, cs_memory = ks_memory k\<rparr> of
             (r, c) \<Rightarrow> (sum_action r, set_process slot (Some (cs_process c))
                (k\<lparr>ks_broker := cs_broker c, ks_block := cs_service c, ks_memory := cs_memory c\<rparr>)))
      else (Ok (Inl (ExitFault v (fm_error (ps_frame s)) (if v = 14 then address else 0))), k))"

definition step_exit :: "(nat \<Rightarrow> reading) \<Rightarrow> pid \<Rightarrow> exit_status \<Rightarrow> kstate \<Rightarrow> (process_error, unit) outcome \<times> kstate" where
  "step_exit rd pid x k =
     (case (if pid = ks_supervisor k then clear_image_stage k else (Ok (), k)) of (r, k) \<Rightarrow>
      or_return r k (\<lambda>_. mgr_finish rd pid x k))"

text \<open>After an action that keeps the process: a frame that could not be resumed ends it.\<close>

definition step_continue :: "surroundings \<Rightarrow> nat \<Rightarrow> pid \<Rightarrow> kstate \<Rightarrow> (process_error, unit) outcome \<times> kstate" where
  "step_continue e slot pid k =
     or_return (expect (ks_processes k ! slot)) k (\<lambda>s.
     case (if \<not> frame_valid_user (ps_frame s) then step_exit (en_during e) pid (ExitFault 13 0 0) k
           else or_return (map_err PeProcess (life_state (ks_table k) pid)) k (\<lambda>st.
             if st = Running then
               (case life_suspend (ks_table k) pid of (r, t) \<Rightarrow> (map_err PeProcess r, k\<lparr>ks_table := t\<rparr>))
             else (Ok (), k))) of
       (r, k) \<Rightarrow> or_return r k (\<lambda>_. refresh_waiters (en_after e) k))"

definition step_action ::
  "surroundings \<Rightarrow> nat \<Rightarrow> pid \<Rightarrow> exit_status + action \<Rightarrow> kstate \<Rightarrow> (process_error, unit) outcome \<times> kstate" where
  "step_action e slot pid x k =
     (case x of
        Inl f \<Rightarrow> step_exit (en_during e) pid f k
      | Inr a \<Rightarrow>
          or_return (expect (ks_processes k ! slot)) k (\<lambda>s.
          case a of
            Exit c \<Rightarrow> step_exit (en_during e) pid (ExitCode c) k
          | Return v \<Rightarrow> step_continue e slot pid (set_process slot (Some (s\<lparr>ps_frame := frame_result v (ps_frame s)\<rparr>)) k)
          | Block w \<Rightarrow>
              (case life_block (ks_table k) pid of (r, t) \<Rightarrow>
               let k = set_process slot (Some (s\<lparr>ps_pending := Some w\<rparr>)) (k\<lparr>ks_table := t\<rparr>) in
               or_return (map_err PeProcess r) k (\<lambda>_. step_continue e slot pid k))
          | Resume \<Rightarrow> step_continue e slot pid k))"

text \<open>\<open>run_user\<close> asserts a valid frame, clears the privileged flags, and returns what the program left behind.\<close>

definition run_process ::
  "artefacts \<Rightarrow> surroundings \<Rightarrow> nat \<Rightarrow> pid \<Rightarrow> kstate \<Rightarrow> (process_error, unit) outcome \<times> kstate" where
  "run_process ar e slot pid k =
     or_return (expect (ks_processes k ! slot)) k (\<lambda>s.
     if \<not> frame_valid_user (ps_frame s) then (Panic, k)
     else case en_user e (as_root (ps_space s)) (frame_sanitize (ps_frame s)) (ks_memory k) of (f, address, p) \<Rightarrow>
       let s = s\<lparr>ps_frame := f\<rparr>; k = set_process slot (Some s) (k\<lparr>ks_memory := p\<rparr>) in
       (case trap_action ar e slot pid address s k of (r, k) \<Rightarrow> or_return r k (\<lambda>x. step_action e slot pid x k)))"

definition kernel_step :: "artefacts \<Rightarrow> surroundings \<Rightarrow> kstate \<Rightarrow> (process_error, pid option) outcome \<times> kstate" where
  "kernel_step ar e k =
     (case kernel_tick e k of (r, k) \<Rightarrow> or_return r k (\<lambda>_.
      case refresh_waiters (en_before e) k of (r, k) \<Rightarrow> or_return r k (\<lambda>_.
      case life_schedule (ks_table k) of (r, t) \<Rightarrow> let k = k\<lparr>ks_table := t\<rparr> in
      or_return (map_err PeProcess r) k (\<lambda>chosen.
      case chosen of
        None \<Rightarrow> (Ok None, k)
      | Some (slot, pid) \<Rightarrow> (case run_process ar e slot pid k of (r, k) \<Rightarrow> or_return r k (\<lambda>_. (Ok (Some pid), k)))))))"

end
