(* ===== verification/Kernel_Memory.thy ===== *)
theory Kernel_Memory
  imports Native_Runtime
begin

unbundle bit_operations_syntax

text \<open>
  Who owns which frame while the kernel runs: the kernel root, the address spaces of the processes, the buffer of a
  staged image and the driver of the block device. The ownership \<open>mem_ok\<close> also says that the heap region in the
  record of a process counts exactly the pages mapped in its heap window. Every change of memory in the manager is
  one of a few kinds: local to one space, a new space, a space freed, or outside all spaces.
\<close>

section \<open>Ownership\<close>

type_synonym tenant = "address_space \<times> heap_region"

abbreviation t_root :: "tenant \<Rightarrow> nat" where "t_root x \<equiv> as_root (fst x)"

definition tenants :: "process slots \<Rightarrow> tenant slots" where
  "tenants ps = map (map_option (\<lambda>s. (ps_space s, ps_heap s))) ps"

definition roots :: "tenant slots \<Rightarrow> nat set" where
  "roots T = t_root ` set (flatten T)"

definition heap_match :: "physical \<Rightarrow> nat \<Rightarrow> heap_region \<Rightarrow> bool" where
  "heap_match p r h \<longleftrightarrow> (\<forall>i<window_pages. page_view p r (window_base + i * page_size) \<noteq> None \<longleftrightarrow> i \<in> owned h)"

definition mem_ok :: "physical \<Rightarrow> nat \<Rightarrow> tenant slots \<Rightarrow> nat set \<Rightarrow> nat set \<Rightarrow> bool" where
  "mem_ok p k T B D \<longleftrightarrow> spaces_inv p k (roots T) \<and> slot_keys_distinct t_root T \<and>
     (\<forall>x\<in>set (flatten T). \<not> as_kernel (fst x) \<and> heap_inv (snd x) \<and> heap_match p (t_root x) (snd x)) \<and>
     B \<subseteq> alloc_set p \<and> D \<subseteq> alloc_set p \<and> k \<notin> B \<and> k \<notin> D \<and> B \<inter> D = {} \<and>
     (\<forall>r\<in>roots T. ran (tree p r) \<inter> (B \<union> D) = {})"

definition leftover :: "physical \<Rightarrow> tenant slots \<Rightarrow> nat set \<Rightarrow> nat set \<Rightarrow> nat set" where
  "leftover p T B D = residue p (roots T) - B - D"

lemma mem_okD:
  assumes "mem_ok p k T B D"
  shows "spaces_inv p k (roots T)" and "slot_keys_distinct t_root T"
    and "\<And>x. x \<in> set (flatten T) \<Longrightarrow> \<not> as_kernel (fst x)" and "\<And>x. x \<in> set (flatten T) \<Longrightarrow> heap_inv (snd x)"
    and "\<And>x. x \<in> set (flatten T) \<Longrightarrow> heap_match p (t_root x) (snd x)"
    and "B \<subseteq> alloc_set p" and "D \<subseteq> alloc_set p" and "k \<notin> B" and "k \<notin> D" and "B \<inter> D = {}"
    and "\<And>r. r \<in> roots T \<Longrightarrow> ran (tree p r) \<inter> (B \<union> D) = {}"
  using assms unfolding mem_ok_def by blast+

lemma roots_in: "x \<in> set (flatten T) \<Longrightarrow> t_root x \<in> roots T"
  by (simp add: roots_def)

lemma mem_ok_tenant:
  assumes "mem_ok p k T B D" and "i < length T" and "T ! i = Some x"
  shows "x \<in> set (flatten T)" and "t_root x \<in> roots T" and "space_inv p (t_root x)" and "tight p (t_root x)"
    and "t_root x \<noteq> k" and "\<not> as_kernel (fst x)" and "heap_inv (snd x)" and "heap_match p (t_root x) (snd x)"
proof -
  show x: "x \<in> set (flatten T)" using assms(2,3) by (auto simp: in_flatten_iff)
  then show r: "t_root x \<in> roots T" by (simp add: roots_def)
  note S = spaces_invD [OF mem_okD(1) [OF assms(1)]]
  show "space_inv p (t_root x)" "tight p (t_root x)" using S(3,4) [OF r] .
  show "t_root x \<noteq> k" using S(5) [OF r] tree_ran [OF tree_root] by blast
  show "\<not> as_kernel (fst x)" "heap_inv (snd x)" "heap_match p (t_root x) (snd x)" using mem_okD(3-5) [OF assms(1) x] .
qed

lemma heap_match_view: "page_view q r = page_view p r \<Longrightarrow> heap_match q r h = heap_match p r h"
  by (simp add: heap_match_def)

lemma window_page: "i < window_pages \<Longrightarrow> page_address (window_base + i * page_size)"
  by (auto simp: page_address_def window_base_def window_pages_def intro: dvd_add)

lemma heap_match_pages:
  "(\<And>b. page_address b \<Longrightarrow> page_view q r b = page_view p r b) \<Longrightarrow> heap_match q r h = heap_match p r h"
  using window_page by (simp add: heap_match_def)

section \<open>Changes outside the spaces\<close>

lemma spaces_kept:
  assumes inv: "spaces_inv p k R" and ok: "phys_ok q"
    and kept: "\<And>f. f = k \<or> (\<exists>r\<in>R. f \<in> ran (tree p r)) \<Longrightarrow> f \<in> alloc_set q \<and> ph_words q f = ph_words p f"
  shows "spaces_inv q k R" and "\<And>r. r \<in> R \<Longrightarrow> same_view p r q"
proof -
  note S = spaces_invD [OF inv]
  show view: "same_view p r q" if "r \<in> R" for r using kept that by (intro words_view [OF S(3) [OF that]]) blast
  then have t: "tree q r = tree p r" if "r \<in> R" for r using that by (simp add: same_view_def)
  have "space_inv q r" if "r \<in> R" for r
    by (rule space_inv_words_same [OF S(3) [OF that] _ ok]) (use kept that tree_ran in blast)+
  then have "space_inv q r \<and> tight q r \<and> k \<notin> ran (tree q r)" if "r \<in> R" for r
    using that t [OF that] tight_same_tree [OF t [OF that]] S(4,5) [OF that] by simp
  moreover have "ran (tree q r) \<inter> ran (tree q r') = {}" if "r \<in> R" "r' \<in> R" "r \<noteq> r'" for r r'
    using S(6) [OF that] t that by simp
  ultimately show "spaces_inv q k R" unfolding spaces_inv_def using ok kept by blast
qed

lemma mem_kept:
  assumes inv: "mem_ok p k T B D" and ok: "phys_ok q"
    and kept: "\<And>f. f = k \<or> (\<exists>r\<in>roots T. f \<in> ran (tree p r)) \<Longrightarrow> f \<in> alloc_set q \<and> ph_words q f = ph_words p f"
    and B: "B' \<subseteq> alloc_set q" "D' \<subseteq> alloc_set q" "k \<notin> B'" "k \<notin> D'" "B' \<inter> D' = {}"
    and away: "\<And>r. r \<in> roots T \<Longrightarrow> ran (tree p r) \<inter> (B' \<union> D') = {}"
  shows "mem_ok q k T B' D'" and "\<And>r. r \<in> roots T \<Longrightarrow> same_view p r q"
proof -
  note K = spaces_kept [OF mem_okD(1) [OF inv] ok kept]
  show v: "same_view p r q" if "r \<in> roots T" for r using K(2) that by blast
  have t: "tree q r = tree p r" "page_view q r = page_view p r" if "r \<in> roots T" for r using v [OF that] by (simp_all add: same_view_def)
  have h: "heap_match q (t_root x) (snd x)" if "x \<in> set (flatten T)" for x
    using mem_okD(5) [OF inv that] heap_match_view [OF t(2) [OF roots_in [OF that]]] by simp
  have "ran (tree q r) \<inter> (B' \<union> D') = {}" if "r \<in> roots T" for r using away t(1) that by simp
  then show "mem_ok q k T B' D'" unfolding mem_ok_def using K(1) mem_okD(2-4) [OF inv] h B by blast
qed

lemma leftover_kept:
  assumes "\<And>r. r \<in> roots T \<Longrightarrow> same_view p r q" and "alloc_set q - B' - D' = alloc_set p - B - D"
  shows "leftover q T B' D' = leftover p T B D"
proof -
  have "(\<Union>r\<in>roots T. ran (tree q r)) = (\<Union>r\<in>roots T. ran (tree p r))" using assms(1) by (simp add: same_view_def)
  then show ?thesis unfolding leftover_def residue_def using assms(2) by blast
qed

section \<open>Changes inside one space\<close>

lemma flatten_tenant:
  assumes "slot_keys_distinct t_root T" and "i < length T" and "T ! i = Some x" and "t_root y = t_root x"
  shows "roots (T[i := Some y]) = roots T" and "set (flatten (T[i := Some y])) = insert y {z \<in> set (flatten T). t_root z \<noteq> t_root x}"
proof -
  show e: "set (flatten (T[i := Some y])) = insert y {z \<in> set (flatten T). t_root z \<noteq> t_root x}"
    by (rule set_flatten_replace [OF assms(1-3)])
  have "x \<in> set (flatten T)" using assms(2,3) by (auto simp: in_flatten_iff)
  then have "t_root ` set (flatten T) = insert (t_root x) (t_root ` {z \<in> set (flatten T). t_root z \<noteq> t_root x})" by blast
  then show "roots (T[i := Some y]) = roots T" unfolding roots_def e image_insert assms(4) ..
qed

lemma mem_local:
  assumes inv: "mem_ok p k T B D" and i: "i < length T" "T ! i = Some x"
    and step: "local_step p (t_root x) q" and h: "heap_inv h" "heap_match q (t_root x) h"
  shows "mem_ok q k (T[i := Some (fst x, h)]) B D" and "\<And>r. r \<in> roots T \<Longrightarrow> r \<noteq> t_root x \<Longrightarrow> same_view p r q"
    and "leftover q (T[i := Some (fst x, h)]) B D = leftover p T B D" and "\<forall>f\<in>B. ph_words q f = ph_words p f"
proof -
  note X = mem_ok_tenant [OF inv i] and M = mem_okD [OF inv]
  note L = local_step_others [OF M(1) X(2) step] and W = local_stepD [OF step]
  note F = flatten_tenant [OF M(2) i, of "(fst x, h)", simplified]
  have keep: "f \<in> alloc_set q \<and> ph_words q f = ph_words p f" if "f \<in> B \<union> D" for f
    using W(3) that M(6,7) M(11) [OF X(2)] by (auto simp: within_def)
  then show "\<forall>f\<in>B. ph_words q f = ph_words p f" by blast
  show "\<And>r. r \<in> roots T \<Longrightarrow> r \<noteq> t_root x \<Longrightarrow> same_view p r q" by (rule L(2))
  have own: "ran (tree q (t_root x)) \<inter> (B \<union> D) = {}" using W(4) M(6,7) M(11) [OF X(2)] by blast
  have away: "ran (tree q r) \<inter> (B \<union> D) = {}" if "r \<in> roots T" for r
    using own L(2) [OF that] M(11) [OF that] by (cases "r = t_root x") (simp_all add: same_view_def)
  have others: "heap_match q (t_root z) (snd z)" if "z \<in> set (flatten T)" "t_root z \<noteq> t_root x" for z
  proof -
    have "page_view q (t_root z) = page_view p (t_root z)" using L(2) [OF roots_in [OF that(1)] that(2)] by (simp add: same_view_def)
    from heap_match_view [OF this] show ?thesis using M(5) [OF that(1)] by simp
  qed
  have sd: "slot_keys_distinct t_root (T[i := Some (fst x, h)])"
  proof (rule slot_keys_distinct_set [OF M(2)])
    show "t_root b \<noteq> t_root (fst x, h)" if "j < length T" "j \<noteq> i" "T ! j = Some b" for j b
      using slot_keys_distinctD [OF M(2) that(1) i(1) that(3) i(2)] that(2) by auto
  qed
  have "\<not> as_kernel (fst z) \<and> heap_inv (snd z) \<and> heap_match q (t_root z) (snd z)" if "z \<in> set (flatten (T[i := Some (fst x, h)]))" for z
  proof (cases "z = (fst x, h)")
    case True
    then show ?thesis using X(6) h by simp
  next
    case False
    then have "z \<in> set (flatten T)" "t_root z \<noteq> t_root x" using that unfolding F(2) by simp_all
    then show ?thesis using others M(3,4) by simp
  qed
  then show "mem_ok q k (T[i := Some (fst x, h)]) B D"
    unfolding mem_ok_def F(1) using L(1) sd keep M(8-10) away by blast
  show "leftover q (T[i := Some (fst x, h)]) B D = leftover p T B D"
    unfolding leftover_def F(1) L(4) ..
qed

text \<open>A local step that keeps the heap window.\<close>

lemma mem_local_same:
  assumes inv: "mem_ok p k T B D" and i: "i < length T" "T ! i = Some x" and step: "local_step p (t_root x) q"
    and v: "\<And>b. page_address b \<Longrightarrow> page_view q (t_root x) b = page_view p (t_root x) b"
  shows "mem_ok q k T B D" and "\<And>r. r \<in> roots T \<Longrightarrow> r \<noteq> t_root x \<Longrightarrow> same_view p r q"
    and "leftover q T B D = leftover p T B D" and "\<forall>f\<in>B. ph_words q f = ph_words p f"
proof -
  note X = mem_ok_tenant [OF inv i]
  have "heap_match q (t_root x) (snd x)" using X(8) heap_match_pages [of q "t_root x" p] v by blast
  note L = mem_local [OF inv i step X(7) this]
  have "T[i := Some (fst x, snd x)] = T" using i by (metis list_update_id prod.collapse)
  then show "mem_ok q k T B D" "\<And>r. r \<in> roots T \<Longrightarrow> r \<noteq> t_root x \<Longrightarrow> same_view p r q"
    "leftover q T B D = leftover p T B D" "\<forall>f\<in>B. ph_words q f = ph_words p f" using L by simp_all
qed

section \<open>Spaces come and go\<close>

lemma mem_born:
  assumes inv: "mem_ok p k T B D" and i: "i < length T" "T ! i = None" and c: "c \<notin> roots T"
    and sp: "spaces_inv q k (insert c (roots T))" and view: "\<forall>r\<in>roots T. same_view p r q" and w: "within {} p q"
    and new: "alloc_set q = alloc_set p \<union> ran (tree q c)" "ran (tree q c) \<inter> alloc_set p = {}" and h: "heap_match q c heap_new"
  shows "mem_ok q k (T[i := Some (user_space c, heap_new)]) B D"
    and "leftover q (T[i := Some (user_space c, heap_new)]) B D = leftover p T B D" and "\<forall>f\<in>B. ph_words q f = ph_words p f"
proof -
  let ?T = "T[i := Some (user_space c, heap_new)]"
  note M = mem_okD [OF inv]
  have F: "set (flatten ?T) = insert (user_space c, heap_new) (set (flatten T))" by (rule set_flatten_fill [OF i])
  then have R: "roots ?T = insert c (roots T)" by (simp add: roots_def)
  have tr: "tree q r = tree p r" "page_view q r = page_view p r" if "r \<in> roots T" for r
    using view that by (simp_all add: same_view_def)
  have keep: "f \<in> alloc_set q" "ph_words q f = ph_words p f" if "f \<in> alloc_set p" for f using w that by (auto simp: within_def)
  then show "\<forall>f\<in>B. ph_words q f = ph_words p f" using M(6) by blast
  have away: "ran (tree q r) \<inter> (B \<union> D) = {}" if "r \<in> roots ?T" for r
  proof (cases "r = c")
    case True
    then show ?thesis using new(2) M(6,7) by blast
  next
    case False
    then show ?thesis using that tr(1) M(11) unfolding R by simp
  qed
  have sd: "slot_keys_distinct t_root ?T"
  proof (rule slot_keys_distinct_set [OF M(2)])
    show "t_root b \<noteq> t_root (user_space c, heap_new)" if "j < length T" "j \<noteq> i" "T ! j = Some b" for j b
    proof -
      have "b \<in> set (flatten T)" using that by (auto simp: in_flatten_iff)
      then show ?thesis using roots_in c by fastforce
    qed
  qed
  have "\<not> as_kernel (fst z) \<and> heap_inv (snd z) \<and> heap_match q (t_root z) (snd z)" if "z \<in> set (flatten ?T)" for z
  proof (cases "z = (user_space c, heap_new)")
    case True
    then show ?thesis using h heap_new_inv by simp
  next
    case False
    then have "z \<in> set (flatten T)" using that unfolding F by simp
    then show ?thesis using M(3-5) heap_match_view [OF tr(2) [OF roots_in]] by simp
  qed
  moreover have "B \<subseteq> alloc_set q" "D \<subseteq> alloc_set q" using M(6,7) keep(1) by blast+
  ultimately show "mem_ok q k ?T B D" unfolding mem_ok_def using sp sd M(8-10) away unfolding R by blast
  have "(\<Union>r\<in>roots T. ran (tree q r)) = (\<Union>r\<in>roots T. ran (tree p r))" using tr(1) by simp
  then show "leftover q ?T B D = leftover p T B D"
    unfolding leftover_def residue_def R using new by (simp add: Un_Diff) blast
qed

lemma mem_freed:
  assumes inv: "mem_ok p k T B D" and i: "i < length T" "T ! i = Some x" and f: "freed (ran (tree p (t_root x))) p q"
  shows "mem_ok q k (T[i := None]) B D" and "\<And>r. r \<in> roots T \<Longrightarrow> r \<noteq> t_root x \<Longrightarrow> same_view p r q"
    and "leftover q (T[i := None]) B D = leftover p T B D" and "\<forall>f\<in>B. ph_words q f = ph_words p f"
proof -
  note X = mem_ok_tenant [OF inv i] and M = mem_okD [OF inv]
  note F = freed_others [OF M(1) X(2) f]
  have fr: "ph_words q = ph_words p" "alloc_set q = alloc_set p - ran (tree p (t_root x))" using f by (simp_all add: freed_def)
  then show "\<forall>f\<in>B. ph_words q f = ph_words p f" by simp
  show v: "\<And>r. r \<in> roots T \<Longrightarrow> r \<noteq> t_root x \<Longrightarrow> same_view p r q" by (rule F(2))
  have e: "set (flatten (T[i := None])) = {z \<in> set (flatten T). t_root z \<noteq> t_root x}" by (rule set_flatten_clear [OF M(2) i])
  have R: "roots (T[i := None]) = roots T - {t_root x}" unfolding roots_def e by auto
  have tr: "tree q r = tree p r" "page_view q r = page_view p r" if "r \<in> roots T" "r \<noteq> t_root x" for r
    using v [OF that] by (simp_all add: same_view_def)
  have "heap_match q (t_root z) (snd z)" if "z \<in> set (flatten T)" "t_root z \<noteq> t_root x" for z
    using M(5) [OF that(1)] heap_match_view [OF tr(2) [OF roots_in [OF that(1)] that(2)]] by simp
  then have "\<not> as_kernel (fst z) \<and> heap_inv (snd z) \<and> heap_match q (t_root z) (snd z)" if "z \<in> set (flatten (T[i := None]))" for z
    using that M(3,4) unfolding e by blast
  moreover have "B \<subseteq> alloc_set q" "D \<subseteq> alloc_set q" using M(6,7) M(11) [OF X(2)] fr(2) by blast+
  moreover have "ran (tree q r) \<inter> (B \<union> D) = {}" if "r \<in> roots T - {t_root x}" for r using that tr(1) M(11) by simp
  ultimately show "mem_ok q k (T[i := None]) B D"
    unfolding mem_ok_def R using F(1) slot_keys_distinct_clear [OF M(2)] M(8-10) by blast
  show "leftover q (T[i := None]) B D = leftover p T B D" unfolding leftover_def R F(4) ..
qed

section \<open>What a program and a driver may do\<close>

text \<open>
  A program writes only to pages its own tables map as writable for it, whatever its registers hold when it traps.
  A driver works on its own frames and on frames it allocates.
\<close>

definition user_ok :: "(nat \<Rightarrow> frame \<Rightarrow> physical \<Rightarrow> frame \<times> u64 \<times> physical) \<Rightarrow> bool" where
  "user_ok u \<longleftrightarrow> (\<forall>r f p. space_inv p r \<longrightarrow>
     (case u r f p of (f', a, q) \<Rightarrow> length (fm_registers f') = 15 \<and> ph_frames q = ph_frames p \<and>
        (\<forall>g. ph_words q g \<noteq> ph_words p g \<longrightarrow>
           (\<exists>b e. lower_half b \<and> page_view p r b = Some e \<and> bit e 1 \<and> bit e 2 \<and> g = entry_frame e))))"

definition driver_ok :: "(nat set \<Rightarrow> physical \<Rightarrow> nat set \<times> physical) \<Rightarrow> bool" where
  "driver_ok d \<longleftrightarrow> (\<forall>D p. phys_ok p \<longrightarrow> D \<subseteq> alloc_set p \<longrightarrow>
     (case d D p of (D', q) \<Rightarrow> phys_ok q \<and> D' \<subseteq> alloc_set q \<and> alloc_set q - D' = alloc_set p - D \<and>
        (\<forall>f\<in>alloc_set p - D. ph_words q f = ph_words p f) \<and> fr_managed (ph_frames q) = fr_managed (ph_frames p)))"

lemma user_local:
  assumes u: "user_ok u" and inv: "space_inv p r" and tight: "tight p r" and run: "u r f p = (f', a, q)"
  shows "local_step p r q" and "page_view q r = page_view p r" and "length (fm_registers f') = 15" and "ph_frames q = ph_frames p"
proof -
  have "case u r f p of (f', a, q) \<Rightarrow> length (fm_registers f') = 15 \<and> ph_frames q = ph_frames p \<and>
        (\<forall>g. ph_words q g \<noteq> ph_words p g \<longrightarrow>
           (\<exists>b e. lower_half b \<and> page_view p r b = Some e \<and> bit e 1 \<and> bit e 2 \<and> g = entry_frame e))"
    by (rule u [unfolded user_ok_def, THEN spec, THEN spec, THEN spec, THEN mp, OF inv])
  then have U: "length (fm_registers f') = 15" "ph_frames q = ph_frames p"
    "\<And>g. ph_words q g \<noteq> ph_words p g \<Longrightarrow> \<exists>b e. page_view p r b = Some e \<and> g = entry_frame e"
    unfolding run prod.case by blast+
  show "length (fm_registers f') = 15" "ph_frames q = ph_frames p" by (rule U(1), rule U(2))
  have words: "ph_words q c = ph_words p c" if "length \<pi> \<le> 3" "tree p r \<pi> = Some c" for \<pi> c
  proof (rule ccontr)
    assume "ph_words q c \<noteq> ph_words p c"
    then obtain b e where e: "page_view p r b = Some e" "c = entry_frame e" using U(3) by blast
    have "\<pi> = page_path b" using space_invD(4) [OF inv that(2) [unfolded e(2)] page_frame(1) [OF inv e(1)]] .
    then show False using that(1) by (simp add: page_path_def)
  qed
  have fr: "alloc_set q = alloc_set p" "phys_ok q" using space_invD(1) [OF inv] U(2) by (simp_all add: alloc_set_def phys_ok_def)
  have tree: "tree q r = tree p r" by (rule tree_words_same [OF inv words])
  have space: "space_inv q r"
    by (rule space_inv_words_same [OF inv words fr(2)]) (use space_invD(3) [OF inv] fr(1) in auto)
  show "page_view q r = page_view p r"
  proof
    fix b
    have "map_option (\<lambda>t. ph_words q t (pt_index b 1)) (tree p r (butlast (page_path b))) =
        map_option (\<lambda>t. ph_words p t (pt_index b 1)) (tree p r (butlast (page_path b)))"
      using words [of "butlast (page_path b)"] by (cases "tree p r (butlast (page_path b))") (simp_all add: page_path_def)
    then show "page_view q r b = page_view p r b"
      unfolding page_view_def tree by (cases "tree p r (page_path b)") simp_all
  qed
  have "ph_words q g = ph_words p g" if "g \<notin> ran (tree p r)" for g
    using U(3) [of g] page_frame(5) [OF inv] that by blast
  then have "within (ran (tree p r)) p q" using fr by (auto simp: within_def)
  then show "local_step p r q" unfolding local_step_def using space tight_same_tree [OF tree] tight fr(1) tree by simp
qed

lemma mem_driver:
  assumes inv: "mem_ok p k T B D" and d: "driver_ok d" and run: "d D p = (D', q)"
  shows "mem_ok q k T B D'" and "\<And>r. r \<in> roots T \<Longrightarrow> same_view p r q" and "leftover q T B D' = leftover p T B D"
    and "\<forall>f\<in>B. ph_words q f = ph_words p f" and "fr_managed (ph_frames q) = fr_managed (ph_frames p)"
proof -
  note M = mem_okD [OF inv] and S = spaces_invD [OF mem_okD(1) [OF inv]]
  have Q: "phys_ok q" "D' \<subseteq> alloc_set q" "alloc_set q - D' = alloc_set p - D" "\<forall>f\<in>alloc_set p - D. ph_words q f = ph_words p f"
    "fr_managed (ph_frames q) = fr_managed (ph_frames p)"
  proof -
    have "case d D p of (D', q) \<Rightarrow> phys_ok q \<and> D' \<subseteq> alloc_set q \<and> alloc_set q - D' = alloc_set p - D \<and>
        (\<forall>f\<in>alloc_set p - D. ph_words q f = ph_words p f) \<and> fr_managed (ph_frames q) = fr_managed (ph_frames p)"
      by (rule d [unfolded driver_ok_def, THEN spec, THEN spec, THEN mp, THEN mp, OF S(1) M(7)])
    then show "phys_ok q" "D' \<subseteq> alloc_set q" "alloc_set q - D' = alloc_set p - D" "\<forall>f\<in>alloc_set p - D. ph_words q f = ph_words p f"
      "fr_managed (ph_frames q) = fr_managed (ph_frames p)"
      unfolding run prod.case by blast+
  qed
  show "fr_managed (ph_frames q) = fr_managed (ph_frames p)" by (rule Q(5))
  have safe: "f \<in> alloc_set q \<and> ph_words q f = ph_words p f \<and> f \<notin> D'" if "f \<in> alloc_set p" "f \<notin> D" for f
    using Q(3,4) that by blast
  have own: "f \<in> alloc_set p \<and> f \<notin> D \<and> f \<notin> B" if f: "f = k \<or> (\<exists>r\<in>roots T. f \<in> ran (tree p r))" for f
    using f
  proof
    assume "\<exists>r\<in>roots T. f \<in> ran (tree p r)"
    then obtain r where "r \<in> roots T" "f \<in> ran (tree p r)" by blast
    then show ?thesis using M(11) space_ran_alloc [OF S(3)] by blast
  qed (use M(8,9) S(2) in simp)
  have kept: "f \<in> alloc_set q \<and> ph_words q f = ph_words p f" if "f = k \<or> (\<exists>r\<in>roots T. f \<in> ran (tree p r))" for f
    using own [OF that] safe by blast
  have B: "B \<subseteq> alloc_set q" "B \<inter> D' = {}" "k \<notin> D'" using M(6,10) safe own [of k] by blast+
  have "ran (tree p r) \<inter> (B \<union> D') = {}" if "r \<in> roots T" for r using own safe that by blast
  note K = mem_kept [OF inv Q(1) kept B(1) Q(2) M(8) B(3,2) this]
  show "mem_ok q k T B D'" using K(1) by blast
  show v: "same_view p r q" if "r \<in> roots T" for r using K(2) [OF _ _ that] by blast
  have "alloc_set q - B - D' = alloc_set q - D' - B" "alloc_set p - B - D = alloc_set p - D - B" by blast+
  then have "alloc_set q - B - D' = alloc_set p - B - D" using Q(3) by simp
  then show "leftover q T B D' = leftover p T B D" by (rule leftover_kept [rotated]) (use v in blast)
  show "\<forall>f\<in>B. ph_words q f = ph_words p f" using M(6,10) safe by blast
qed

end
