(* ===== verification/Process_Heap.thy ===== *)
theory Process_Heap
  imports Kernel_Memory
begin

unbundle bit_operations_syntax

text \<open>
  The heap calls of a process (\<open>runtime/syscall/memory.rs\<close>). The heap region in the record and the page tables agree on
  which pages of the window exist, so the two \<open>expect\<close>s of the source cannot fail: a reservation that could not be
  mapped can be released, and a run the region owns can be unmapped.
\<close>

section \<open>Runs of the window\<close>

lemma window_run:
  assumes "i + n \<le> window_pages" and "j < window_pages"
  shows "window_base + j * page_size \<in> run_set (window_base + i * page_size) n \<longleftrightarrow> j \<in> {i..<i + n}"
proof
  assume "window_base + j * page_size \<in> run_set (window_base + i * page_size) n"
  then obtain m where m: "m < n" "window_base + j * page_size = window_base + i * page_size + m * page_size"
    by (auto simp: run_set_def run_page_def)
  then have "j * page_size = (i + m) * page_size" by (simp add: add_mult_distrib)
  then show "j \<in> {i..<i + n}" using m(1) by simp
next
  assume "j \<in> {i..<i + n}"
  then have "window_base + j * page_size = run_page (window_base + i * page_size) (j - i)" "j - i < n"
    by (auto simp: run_page_def diff_mult_distrib)
  then show "window_base + j * page_size \<in> run_set (window_base + i * page_size) n" by (auto simp: run_set_def)
qed

lemma window_page_of: "j < window_pages \<Longrightarrow> page_of (window_base + i * page_size) m \<noteq> Err MemInvalidAddress" if "j = i + m"
  using that by (auto simp: page_of_def checked_add64_def virtual_page_new_def window_base_def window_pages_def u64_limit_def split: if_splits)

lemma window_run_page: "run_page (window_base + i * page_size) m = window_base + (i + m) * page_size"
  by (simp add: run_page_def add_mult_distrib)

lemma heap_matchD: "heap_match p r h \<Longrightarrow> j < window_pages \<Longrightarrow> page_view p r (window_base + j * page_size) \<noteq> None \<longleftrightarrow> j \<in> owned h"
  by (simp add: heap_match_def)

text \<open>The match between the region and the tables after a run was mapped or unmapped.\<close>

lemma match_mapped:
  assumes m: "mapped_set p r (run_set (window_base + i * page_size) n) pm q" and i: "i + n \<le> window_pages"
    and h: "heap_match p r h" and own: "owned h' = owned h \<union> {i..<i + n}"
  shows "heap_match q r h'"
  unfolding heap_match_def
proof (intro allI impI)
  fix j
  assume j: "j < window_pages"
  let ?a = "window_base + j * page_size"
  note M = mapped_setD [OF m]
  show "page_view q r ?a \<noteq> None \<longleftrightarrow> j \<in> owned h'"
  proof (cases "j \<in> {i..<i + n}")
    case True
    then show ?thesis using M(9) [of ?a] window_run [OF i j] own by auto
  next
    case False
    then have "page_view q r ?a = page_view p r ?a" using M(10) [OF window_page [OF j]] window_run [OF i j] by blast
    then show ?thesis using heap_matchD [OF h j] own False by auto
  qed
qed

lemma match_unmapped:
  assumes m: "unmapped_set p r (run_set (window_base + i * page_size) n) q" and i: "i + n \<le> window_pages"
    and h: "heap_match p r h" and own: "owned h' = owned h - {i..<i + n}"
  shows "heap_match q r h'"
  using unmapped_setD(7) [OF m window_page] window_run [OF i] own h by (simp add: heap_match_def)

lemma same_space_match: "same_space p r q \<Longrightarrow> heap_match q r h = heap_match p r h"
  by (rule heap_match_pages) (simp add: same_space_def)

section \<open>The calls\<close>

definition heap_kept :: "nat \<Rightarrow> process \<Rightarrow> physical \<Rightarrow> process \<Rightarrow> physical \<Rightarrow> bool" where
  "heap_kept active s p s' q \<longleftrightarrow> (\<exists>h. s' = s\<lparr>ps_heap := h\<rparr> \<and> heap_inv h \<and> heap_match q (as_root (ps_space s)) h) \<and>
     local_step p (as_root (ps_space s)) q"

lemma heap_kept_same:
  assumes "space_inv p (as_root (ps_space s))" and "tight p (as_root (ps_space s))" and "heap_inv (ps_heap s)"
    and "heap_match p (as_root (ps_space s)) (ps_heap s)"
  shows "heap_kept active s p s p"
  unfolding heap_kept_def using assms local_step_refl by (intro conjI exI [of _ "ps_heap s"]) simp_all

lemma heap_map_kept:
  assumes inv: "space_inv p (as_root (ps_space s))" "tight p (as_root (ps_space s))" and act: "as_root (ps_space s) \<noteq> active"
    and h: "heap_inv (ps_heap s)" "heap_match p (as_root (ps_space s)) (ps_heap s)"
    and run: "heap_map active address pages flags (s, p) = (res, s', q)"
  shows "res \<noteq> Panic" and "heap_kept active s p s' q"
proof -
  let ?r = "as_root (ps_space s)"
  let ?want = "if address \<noteq> 0 then Some (unat address) else None"
  note same = heap_kept_same [OF inv h, of active]
  obtain r h1 where re: "heap_reserve (ps_heap s) ?want (unat pages) = (r, h1)" by fastforce
  have "res \<noteq> Panic \<and> heap_kept active s p s' q"
  proof (cases "flags_valid flags")
    case False
    then show ?thesis using run same by (auto simp: heap_map_def)
  next
    case True
    note step = run [unfolded heap_map_def prod.case re, simplified True]
    have refused: ?thesis if "r = Err e" "h1 = ps_heap s" for e using step that same by auto
    from h(1) re show ?thesis
    proof (cases rule: heap_reserve_cases)
      case (reserved i)
      note tk = taking_inv [OF h(1) reserved(3,5,6)]
      let ?base = "window_base + i * page_size"
      obtain m u where mp: "map_user_pages active (ps_space s) ?base (unat pages) (flags AND 1 \<noteq> 0) p = (m, u)" by fastforce
      from inv mp show ?thesis
      proof (cases rule: map_user_pages_cases)
        case mapped
        have "heap_match u ?r h1" by (rule match_mapped [OF mapped(3) reserved(3) h(2)]) (use tk reserved(2) in simp)
        then have "heap_kept active s p (s\<lparr>ps_heap := h1\<rparr>) u"
          unfolding heap_kept_def using tk reserved(2) mapped_local [OF mapped(3)] by auto
        then show ?thesis using step reserved(1) mp mapped(1) by auto
      next
        case (refused e)
        have own: "{i..<i + unat pages} \<subseteq> owned h1" "heap_inv h1" using tk reserved(2) by auto
        obtain r2 h2 where rl: "heap_release h1 ?base (unat pages) = (r2, h2)" by fastforce
        from own(2) rl show ?thesis
        proof (cases rule: heap_release_cases)
          case no: (refused e')
          then show ?thesis using own(1) reserved(4) by blast
        next
          case (released j)
          then have "owned h2 = owned (ps_heap s)" using tk reserved(2,5) by auto
          then have "heap_match u ?r h2" using h(2) same_space_match [OF refused(2)] by (simp add: heap_match_def)
          then have "heap_kept active s p (s\<lparr>ps_heap := h2\<rparr>) u"
            unfolding heap_kept_def using released(7) same_space_local [OF refused(2) inv(2)] by auto
          then show ?thesis using step reserved(1) mp refused(1) rl released(4) by auto
        qed
      qed
    qed (use refused in blast)+
  qed
  then show "res \<noteq> Panic" "heap_kept active s p s' q" by simp_all
qed

lemma heap_unmap_kept:
  assumes inv: "space_inv p (as_root (ps_space s))" "tight p (as_root (ps_space s))" and act: "as_root (ps_space s) \<noteq> active"
    and h: "heap_inv (ps_heap s)" "heap_match p (as_root (ps_space s)) (ps_heap s)"
    and run: "heap_unmap active address pages reserved_word (s, p) = (res, s', q)"
  shows "res \<noteq> Panic" and "heap_kept active s p s' q"
proof -
  let ?r = "as_root (ps_space s)"
  note same = heap_kept_same [OF inv h, of active]
  obtain r h1 where rl: "heap_release (ps_heap s) (unat address) (unat pages) = (r, h1)" by fastforce
  have "res \<noteq> Panic \<and> heap_kept active s p s' q"
  proof (cases "reserved_word = 0")
    case False
    then show ?thesis using run same by (auto simp: heap_unmap_def)
  next
    case True
    note step = run [unfolded heap_unmap_def prod.case rl, simplified True]
    from h(1) rl show ?thesis
    proof (cases rule: heap_release_cases)
      case (refused e)
      then show ?thesis using step same by auto
    next
      case (released i)
      have inside: "i + unat pages \<le> window_pages"
      proof -
        have "i + unat pages - 1 \<in> owned (ps_heap s)" using released(2,3) by (auto simp: subset_eq)
        then have "i + unat pages - 1 < window_pages"
          using heap_invD(1) [OF h(1)] by (simp add: owned_def in_marked_iff window_pages_def)
        then show ?thesis using released(2) by linarith
      qed
      obtain m u where um: "unmap_user_pages active (ps_space s) (unat address) (unat pages) p = (m, u)" by fastforce
      from inv um show ?thesis
      proof (cases rule: unmap_user_pages_cases)
        case unmapped
        have "heap_match u ?r h1"
          by (rule match_unmapped [OF unmapped(3) [unfolded released(1)] inside h(2) released(5)])
        then have "heap_kept active s p (s\<lparr>ps_heap := h1\<rparr>) u"
          unfolding heap_kept_def using released(7) unmapped_local [OF unmapped(3)] by auto
        then show ?thesis using step released(4) um unmapped(1) by auto
      next
        case (refused e T)
        have "page_of (unat address) m \<noteq> Err MemInvalidAddress \<and> page_view p ?r (run_page (unat address) m) \<noteq> None"
          if "m < unat pages" for m
        proof -
          have m: "i + m < window_pages" "i + m \<in> owned (ps_heap s)" using that inside released(3) by auto
          show ?thesis unfolding released(1) window_run_page
            using window_page_of [OF refl m(1)] heap_matchD [OF h(2) m(1)] m(2) by blast
        qed
        then show ?thesis using refused(4) act unfolding as_is_active_def by blast
      qed
    qed
  qed
  then show "res \<noteq> Panic" "heap_kept active s p s' q" by simp_all
qed

lemma returned_Ok: "r \<noteq> Panic \<Longrightarrow> \<exists>v. returned code r = Ok (Return v)"
  by (cases r) simp_all

lemma heap_dispatch_kept:
  assumes inv: "space_inv p (as_root (ps_space s))" "tight p (as_root (ps_space s))" and act: "as_root (ps_space s) \<noteq> active"
    and h: "heap_inv (ps_heap s)" "heap_match p (as_root (ps_space s)) (ps_heap s)"
    and run: "heap_dispatch active num (s, p) = (res, s', q)"
  shows "\<exists>v. res = Ok (Return v)" and "heap_kept active s p s' q"
proof -
  let ?a = "frame_arguments (ps_frame s)"
  obtain r t u where c: "(if num = 21 then heap_map active (?a ! 0) (?a ! 1) (?a ! 2) (s, p)
           else if num = 22 then heap_unmap active (?a ! 0) (?a ! 1) (?a ! 2) (s, p)
           else if num = 23 then (heap_query s (?a ! 0), s, p)
           else (Err RtInvalid, s, p)) = (r, t, u)" using prod_cases3 by blast
  have out: "res = returned rt_code r" "s' = t" "q = u" using run c by (simp_all add: heap_dispatch_def Let_def)
  have "r \<noteq> Panic \<and> heap_kept active s p t u"
  proof (cases "num = 21 \<or> num = 22")
    case True
    then show ?thesis using c heap_map_kept [OF inv act h] heap_unmap_kept [OF inv act h] by (auto split: if_splits)
  next
    case False
    then have "t = s" "u = p" "r \<noteq> Panic" using c by (auto simp: heap_query_def split: if_splits)
    then show ?thesis using heap_kept_same [OF inv h] by simp
  qed
  then show "\<exists>v. res = Ok (Return v)" "heap_kept active s p s' q" using returned_Ok out by auto
qed

end
