(* ===== verification/Outcome_Logic.thy ===== *)
theory Outcome_Logic
  imports Prelude
begin

text \<open>
  Rules for operations that return an outcome and a state. \<open>settled Q x\<close> says that \<open>x\<close> is not a panic and that its
  result and state satisfy \<open>Q\<close>. The rules follow the shape of the models: early returns, branches, matches. Applied as
  introduction rules they leave one goal per path through an operation, with the results of the calls on that path as
  premises.
\<close>

named_theorems settle

definition settled :: "(('e, 'a) outcome \<Rightarrow> 's \<Rightarrow> bool) \<Rightarrow> ('e, 'a) outcome \<times> 's \<Rightarrow> bool" where
  "settled Q x \<longleftrightarrow> fst x \<noteq> Panic \<and> Q (fst x) (snd x)"

lemma settledD: "settled Q x \<Longrightarrow> x = (r, s) \<Longrightarrow> r \<noteq> Panic \<and> Q r s"
  by (simp add: settled_def)

lemma settledE:
  assumes "settled Q x"
  obtains r s where "x = (r, s)" "r \<noteq> Panic" "Q r s"
  using assms by (cases x) (simp add: settled_def)

lemma settled_mono: "settled Q x \<Longrightarrow> (\<And>r s. Q r s \<Longrightarrow> Q' r s) \<Longrightarrow> settled Q' x"
  by (simp add: settled_def)

lemma settled_pair [settle]: "r \<noteq> Panic \<Longrightarrow> Q r s \<Longrightarrow> settled Q (r, s)"
  by (simp add: settled_def)

lemma settled_return [settle]:
  assumes "m \<noteq> Panic" and "\<And>e. m = Err e \<Longrightarrow> Q (Err e) s" and "\<And>a. m = Ok a \<Longrightarrow> settled Q (f a)"
  shows "settled Q (or_return m s f)"
  using assms by (cases m) (simp_all add: settled_def)

lemma settled_if [settle]: "(b \<Longrightarrow> settled Q x) \<Longrightarrow> (\<not> b \<Longrightarrow> settled Q y) \<Longrightarrow> settled Q (if b then x else y)"
  by simp

lemma settled_case [settle]: "(\<And>r s. m = (r, s) \<Longrightarrow> settled Q (f r s)) \<Longrightarrow> settled Q (case m of (r, s) \<Rightarrow> f r s)"
  by (cases m) simp

lemma settled_option [settle]:
  "(m = None \<Longrightarrow> settled Q x) \<Longrightarrow> (\<And>a. m = Some a \<Longrightarrow> settled Q (f a)) \<Longrightarrow> settled Q (case m of None \<Rightarrow> x | Some a \<Rightarrow> f a)"
  by (cases m) simp_all

lemma settled_outcome [settle]:
  "(\<And>a. m = Ok a \<Longrightarrow> settled Q (f a)) \<Longrightarrow> (\<And>e. m = Err e \<Longrightarrow> settled Q (g e)) \<Longrightarrow> (m = Panic \<Longrightarrow> settled Q x) \<Longrightarrow>
   settled Q (case m of Ok a \<Rightarrow> f a | Err e \<Rightarrow> g e | Panic \<Rightarrow> x)"
  by (cases m) simp_all

text \<open>A call whose contract is known, followed by the rest of the operation.\<close>

lemma settled_call:
  assumes "settled P m" and "\<And>r s. m = (r, s) \<Longrightarrow> r \<noteq> Panic \<Longrightarrow> P r s \<Longrightarrow> settled Q (f r s)"
  shows "settled Q (case m of (r, s) \<Rightarrow> f r s)"
  using assms by (cases m) (simp add: settled_def)

end
