(* ===== verification/Broker_Calls.thy ===== *)
theory Broker_Calls
  imports Process_Heap Outcome_Logic
begin

unbundle bit_operations_syntax

text \<open>
  What the calls of one process do to the brokers and to memory: they never panic, they keep the invariants of both
  brokers, they change no handle of another process and give the caller none, and they touch no memory but the
  caller's own.
\<close>

section \<open>Brokers after a call\<close>

definition view_kept :: "u64 \<Rightarrow> 'a table \<Rightarrow> 'a table \<Rightarrow> bool" where
  "view_kept owner t t' \<longleftrightarrow> (\<forall>q h. q \<noteq> owner \<longrightarrow> view t' (q, h) = view t (q, h)) \<and>
     (\<forall>h. view t' (owner, h) \<noteq> None \<longrightarrow> view t' (owner, h) = view t (owner, h))"

lemma view_kept_refl [simp]: "view_kept owner t t"
  by (simp add: view_kept_def)

lemma view_kept_eq: "view t' = view t \<Longrightarrow> view_kept owner t t'"
  by (simp add: view_kept_def)

lemma view_kept_close: "view t' = (view t)((owner, h) := None) \<Longrightarrow> view_kept owner t t'"
  by (auto simp: view_kept_def)

lemma view_kept_owner: "view_kept owner t t' \<Longrightarrow> view t' (q, h) \<noteq> None \<Longrightarrow> view t (q, h) \<noteq> None"
  by (cases "q = owner") (auto simp: view_kept_def)

definition ipc_kept :: "u64 \<Rightarrow> broker \<Rightarrow> broker \<Rightarrow> bool" where
  "ipc_kept owner b b' \<longleftrightarrow> broker_inv b' \<and> view_kept owner (handles b) (handles b')"

definition blk_kept :: "u64 \<Rightarrow> u64 \<Rightarrow> block_broker \<Rightarrow> block_broker \<Rightarrow> bool" where
  "blk_kept cap owner b b' \<longleftrightarrow> block_inv cap b' \<and> view_kept owner (grants b) (grants b') \<and>
     (block_active b' \<noteq> None \<longrightarrow> block_active b \<noteq> None)"

lemma ipc_kept_refl: "broker_inv b \<Longrightarrow> ipc_kept owner b b"
  by (simp add: ipc_kept_def)

lemma blk_kept_refl: "block_inv cap b \<Longrightarrow> blk_kept cap owner b b"
  by (simp add: blk_kept_def)

lemma send_kept:
  assumes inv: "broker_inv b" and s: "broker_send b owner h bs = (r, b')"
  shows "ipc_kept owner b b'" and "r \<noteq> Panic"
proof -
  have "handles b' = handles b" by (rule broker_send_cases [OF inv s]) simp_all
  then show "ipc_kept owner b b'" "r \<noteq> Panic" using broker_send_inv [OF inv s] by (simp_all add: ipc_kept_def)
qed

lemma consume_kept:
  assumes inv: "broker_inv b" and p: "broker_peek b owner h = Ok m" and s: "broker_consume b owner h = (r, b')"
  shows "ipc_kept owner b b'" and "r \<noteq> Panic"
proof -
  obtain i c' where "broker_consume b owner h = (Ok (), b\<lparr>channels := (channels b)[i := Some c']\<rparr>)"
    using broker_consume_Ok [OF inv p] by metis
  then have "handles b' = handles b" using s by auto
  then show "ipc_kept owner b b'" "r \<noteq> Panic" using broker_consume_inv [OF inv s] by (simp_all add: ipc_kept_def)
qed

lemma close_kept:
  assumes inv: "broker_inv b" and s: "broker_close b owner h = (r, b')"
  shows "ipc_kept owner b b'" and "r \<noteq> Panic"
proof -
  have "view_kept owner (handles b) (handles b')"
  proof (cases "view (handles b) (owner, h)")
    case None
    then show ?thesis using broker_close_error [OF inv None] s by simp
  next
    case (Some x)
    then obtain ep rt where "view (handles b) (owner, h) = Some (ep, rt)" by (cases x) simp
    from broker_close_Ok [OF inv this] obtain b'' where "broker_close b owner h = (Ok (), b'')"
      "view (handles b'') = (view (handles b))((owner, h) := None)" by metis
    then show ?thesis using s view_kept_close by simp
  qed
  then show "ipc_kept owner b b'" "r \<noteq> Panic" using broker_close_inv [OF inv s] by (simp_all add: ipc_kept_def)
qed

text \<open>No call of a process makes a request active.\<close>

lemma active_none: "block_active b = None \<longleftrightarrow> (\<forall>r\<in>set (flatten (records b)). req_phase r \<noteq> Active)"
  by (auto simp: block_active_def find_None_iff)

lemma active_update:
  assumes "i < length (records b)" and "\<And>r. v = Some r \<Longrightarrow> req_phase r \<noteq> Active"
  shows "block_active (b\<lparr>records := (records b)[i := v]\<rparr>) \<noteq> None \<longrightarrow> block_active b \<noteq> None"
proof -
  have "\<exists>x\<in>set (flatten (records b)). req_phase x = Active"
    if "y \<in> set (flatten ((records b)[i := v]))" "req_phase y = Active" for y
  proof -
    have "v \<noteq> Some y" using assms(2) [of y] that(2) by blast
    then have "y \<in> set (flatten (records b))" using that(1) in_flatten_update [OF assms(1), of y v] in_flatten_iff [of y "records b"] by blast
    then show ?thesis using that(2) by blast
  qed
  then show ?thesis unfolding active_none by auto
qed

lemma block_consume_kept:
  assumes inv: "block_inv cap b" and c: "block_consume b owner h = (res, b')"
  shows "blk_kept cap owner b b'" and "res \<noteq> Panic"
proof -
  have "view_kept owner (grants b) (grants b') \<and> (block_active b' \<noteq> None \<longrightarrow> block_active b \<noteq> None)"
  proof (cases "block_peek b owner h")
    case (Ok x)
    from inv Ok obtain i r where i: "block_slot b owner h = Ok i" "i < length (records b)" "records b ! i = Some r"
      by (rule block_peek_Ok)
    then have "b' = b\<lparr>records := (records b)[i := None]\<rparr>" using c Ok by (auto simp: block_consume_def)
    then show ?thesis using active_update [OF i(2), of None] by simp
  qed (use c in \<open>auto simp: block_consume_def\<close>)
  then show "blk_kept cap owner b b'" "res \<noteq> Panic" using block_consume_inv [OF inv c] by (simp_all add: blk_kept_def)
qed

lemma block_cancel_kept:
  assumes inv: "block_inv cap b" and c: "block_cancel b owner h n = (res, b')"
  shows "blk_kept cap owner b b'" and "res \<noteq> Panic"
proof -
  have "view_kept owner (grants b) (grants b') \<and> (block_active b' \<noteq> None \<longrightarrow> block_active b \<noteq> None)"
  proof (cases "block_slot b owner h")
    case (Ok i)
    from inv Ok obtain r where r: "i < length (records b)" "records b ! i = Some r" by (rule block_slot_record)
    let ?r = "r\<lparr>req_phase := Complete, rec_result := (rec_result r)\<lparr>cp_status := StCancelled, cp_data := replicate sector_bytes 0\<rparr>\<rparr>"
    have "b' = b \<or> b' = b\<lparr>records := (records b)[i := Some ?r]\<rparr>" using c Ok r(2) by (auto simp: block_cancel_def split: if_splits)
    then show ?thesis using active_update [OF r(1), of "Some ?r"] by auto
  qed (use c in \<open>auto simp: block_cancel_def\<close>)
  then show "blk_kept cap owner b b'" "res \<noteq> Panic" using block_cancel_inv [OF inv c] by (simp_all add: blk_kept_def)
qed

lemma released_active: "records b' = map (release_slot h) (records b) \<Longrightarrow> block_active b' \<noteq> None \<longrightarrow> block_active b \<noteq> None"
proof -
  assume r: "records b' = map (release_slot h) (records b)"
  have "\<exists>x\<in>set (flatten (records b)). req_phase x = Active" if "y \<in> set (flatten (records b'))" "req_phase y = Active" for y
  proof -
    have "\<exists>i<length (records b'). records b' ! i = Some y" using that(1) by (simp only: in_flatten_iff)
    then obtain i where "i < length (records b')" "records b' ! i = Some y" by blast
    then have i: "i < length (records b)" "release_slot h (records b ! i) = Some y" by (simp_all add: r)
    then obtain x where x: "records b ! i = Some x" by (cases "records b ! i") (auto simp: release_slot_def)
    then have "req_phase x = Active" using i(2) that(2) by (auto simp: release_slot_def split: if_splits)
    moreover have "x \<in> set (flatten (records b))" using i(1) x unfolding in_flatten_iff by blast
    ultimately show ?thesis by blast
  qed
  then show ?thesis unfolding active_none by blast
qed

lemma block_close_kept:
  assumes inv: "block_inv cap b" and s: "block_close b owner h = (r, b')"
  shows "blk_kept cap owner b b'" and "r \<noteq> Panic"
proof -
  have "view_kept owner (grants b) (grants b') \<and> (block_active b' \<noteq> None \<longrightarrow> block_active b \<noteq> None)"
  proof (cases "view (grants b) (owner, h)")
    case None
    then show ?thesis using block_close_error [OF inv None] s by simp
  next
    case (Some x)
    then obtain g rt where "view (grants b) (owner, h) = Some (g, rt)" by (cases x) simp
    from block_close_Ok [OF inv this] obtain b'' where "block_close b owner h = (Ok (), b'')"
      "view (grants b'') = (view (grants b))((owner, h) := None)" "records b'' = map (release_slot h) (records b)" by metis
    then show ?thesis using s view_kept_close released_active [of b' h b] by simp
  qed
  then show "blk_kept cap owner b b'" "r \<noteq> Panic" using block_close_inv [OF inv s] by (simp_all add: blk_kept_def)
qed

lemma block_admit_kept:
  assumes inv: "block_inv cap b" and len: "length data = sector_bytes" and a: "block_admit b owner h op rel data dev = (res, b')"
  shows "blk_kept cap owner b b'" and "res \<noteq> Panic"
proof -
  from inv a have "view_kept owner (grants b) (grants b') \<and> (block_active b' \<noteq> None \<longrightarrow> block_active b \<noteq> None)"
  proof (cases rule: block_admit_cases)
    case (admitted s i n)
    let ?v = "\<lparr>rec_owner = owner, rec_handle = h, rec_sector = s, req_phase = Queued, rec_abandoned = False,
      rec_result = \<lparr>cp_id = next_request b, cp_operation = op, cp_status = StSuccess, cp_effect = EffNone, cp_data = data\<rparr>\<rparr>"
    have "block_active (b\<lparr>records := (records b)[i := Some ?v]\<rparr>) \<noteq> None \<longrightarrow> block_active b \<noteq> None"
      by (rule active_update [OF admitted(4)]) auto
    then show ?thesis using admitted(7) by (simp add: block_active_def)
  qed simp
  then show "blk_kept cap owner b b'" "res \<noteq> Panic" using block_admit_inv [OF inv len a] by (simp_all add: blk_kept_def)
qed

section \<open>Copies of the caller\<close>

lemma from_user_not_Panic: "space_inv p (as_root sp) \<Longrightarrow> copy_from_user active p sp a n \<noteq> Panic"
  by (simp add: copy_from_user_value)

lemma from_user_length: "space_inv p (as_root sp) \<Longrightarrow> copy_from_user active p sp a n = Ok bs \<Longrightarrow> length bs = n"
  by (auto simp: copy_from_user_value split: if_splits)

lemma validate_not_Panic: "space_inv p (as_root sp) \<Longrightarrow> validate_buffer active p sp a n w \<noteq> Panic"
  by (simp add: validate_buffer_value)

text \<open>\<open>own_write p r q\<close>: at most bytes on existing pages of \<open>r\<close> have changed.\<close>

definition own_write :: "physical \<Rightarrow> nat \<Rightarrow> physical \<Rightarrow> bool" where
  "own_write p r q \<longleftrightarrow> local_step p r q \<and> page_view q r = page_view p r"

lemma own_write_refl: "space_inv p r \<Longrightarrow> tight p r \<Longrightarrow> own_write p r p"
  by (simp add: own_write_def local_step_refl)

lemma to_user_own:
  assumes "space_inv p (as_root sp)" and "tight p (as_root sp)" and "copy_to_user active sp a data p = (r, q)"
  shows "own_write p (as_root sp) q" and "r \<noteq> Panic"
proof -
  from assms(1) have "own_write p (as_root sp) q \<and> r \<noteq> Panic"
  proof (cases rule: copy_to_user_cases [where active = active and a = a and data = data])
    case (copied u)
    have "own_write p (as_root sp) u"
      using bytes_stored_local [OF copied(3) assms(2)] bytes_storedD(5) [OF copied(3)] by (simp add: own_write_def)
    then show ?thesis using copied(2) assms(3) by simp
  next
    case refused
    then show ?thesis using assms own_write_refl by simp
  qed
  then show "own_write p (as_root sp) q" "r \<noteq> Panic" by simp_all
qed

section \<open>The calls\<close>

lemma broker_check_not_Panic: "broker_inv b \<Longrightarrow> broker_check b owner h x \<noteq> Panic"
  using resolve_not_Panic by (auto simp: broker_check_def and_then_Panic_iff)

lemma ipc_transact_kept:
  assumes inv: "broker_inv b" and sp: "space_inv p (as_root (ps_space s))" "tight p (as_root (ps_space s))"
  shows "settled (\<lambda>r (b', q). ipc_kept owner b b' \<and> own_write p (as_root (ps_space s)) q) (ipc_transact active num s owner (b, p))"
proof -
  note keep = ipc_kept_refl [OF inv, of owner] own_write_refl [OF sp]
  note calls = close_kept [OF inv] send_kept [OF inv] consume_kept [OF inv] to_user_own [OF sp]
  note quiet = broker_check_not_Panic [OF inv] from_user_not_Panic [OF sp(1)] broker_peek_spec(1) [OF inv]
  show ?thesis unfolding ipc_transact_def Let_def prod.case
    by (intro settle) (use keep in \<open>auto dest: calls simp: quiet\<close>)
qed

lemma ipc_dispatch_kept:
  assumes inv: "broker_inv b" and sp: "space_inv p (as_root (ps_space s))" "tight p (as_root (ps_space s))"
    and run: "ipc_dispatch active num s owner (b, p) = (r, b', q)"
  shows "(\<exists>v. r = Ok (Return v)) \<or> (\<exists>h. r = Ok (Block (WaitIpc h)))" and "ipc_kept owner b b'" and "own_write p (as_root (ps_space s)) q"
proof -
  obtain r1 b1 u where t: "ipc_transact active num s owner (b, p) = (r1, b1, u)" using prod_cases3 by blast
  note T = settledD [OF ipc_transact_kept [OF inv sp] t]
  have "((\<exists>v. r = Ok (Return v)) \<or> (\<exists>h. r = Ok (Block (WaitIpc h)))) \<and> ipc_kept owner b b' \<and> own_write p (as_root (ps_space s)) q"
  proof (cases "num = 8 \<or> num = 6")
    case True
    then show ?thesis
      using run broker_peek_spec(1) [OF inv] ipc_kept_refl [OF inv] own_write_refl [OF sp]
      by (cases "broker_peek b owner (frame_arguments (ps_frame s) ! 0)") (auto simp: ipc_dispatch_def Let_def split: if_splits)
  next
    case False
    then have "r = returned ipc_code r1" "b' = b1" "q = u" using run t by (simp_all add: ipc_dispatch_def Let_def)
    then show ?thesis using T returned_Ok by blast
  qed
  then show "(\<exists>v. r = Ok (Return v)) \<or> (\<exists>h. r = Ok (Block (WaitIpc h)))" "ipc_kept owner b b'" "own_write p (as_root (ps_space s)) q"
    by blast+
qed

text \<open>The block calls change nothing of the service but its broker.\<close>

definition service_kept :: "u64 \<Rightarrow> block_service \<Rightarrow> block_service \<Rightarrow> bool" where
  "service_kept owner v v' \<longleftrightarrow> (\<exists>b. v' = v\<lparr>sv_broker := b\<rparr> \<and> blk_kept (dev_sectors (sv_geometry v)) owner (sv_broker v) b)"

lemma service_kept_refl: "block_inv (dev_sectors (sv_geometry v)) (sv_broker v) \<Longrightarrow> service_kept owner v v"
  unfolding service_kept_def using blk_kept_refl by (intro exI [of _ "sv_broker v"]) simp

lemma service_keptI: "blk_kept (dev_sectors (sv_geometry v)) owner (sv_broker v) b \<Longrightarrow> service_kept owner v (v\<lparr>sv_broker := b\<rparr>)"
  unfolding service_kept_def by blast

lemma request_decode_not_Panic: "request_decode bs \<noteq> Panic"
  by (auto simp: request_decode_def and_then_Panic_iff op_parse_def request_check_def split: if_splits operation.splits)

lemma service_geometry_not_Panic: "service_geometry v \<noteq> Panic"
  by (simp add: service_geometry_def)

lemma block_transact_kept:
  assumes inv: "block_inv (dev_sectors (sv_geometry v)) (sv_broker v)"
    and sp: "space_inv p (as_root (ps_space s))" "tight p (as_root (ps_space s))"
  shows "settled (\<lambda>r (v', q). service_kept owner v v' \<and> own_write p (as_root (ps_space s)) q) (block_transact active num s owner (v, p))"
proof -
  note keep = service_kept_refl [OF inv, of owner] own_write_refl [OF sp]
  have data: "length data = sector_bytes" if "(if c then map_err f (copy_from_user active p (ps_space s) a sector_bytes) else Ok (replicate sector_bytes 0)) = Ok data"
    for c f a data using that from_user_length [OF sp(1)] by (auto split: if_splits)
  have admit: "service_kept owner v (v\<lparr>sv_broker := b\<rparr>) \<and> r \<noteq> Panic"
    if "(if c then map_err f (copy_from_user active p (ps_space s) a sector_bytes) else Ok (replicate sector_bytes 0)) = Ok data"
      "block_admit (sv_broker v) owner h op rel data dev = (r, b)" for c f a data h op rel dev r b
    using block_admit_kept [OF inv data [OF that(1)] that(2)] service_keptI by blast
  note brokers = block_close_kept [OF inv] block_cancel_kept [OF inv] block_consume_kept [OF inv]
  note quiet = block_geometry_not_Panic [OF inv] block_check_not_Panic [OF inv] request_decode_not_Panic service_geometry_not_Panic
    from_user_not_Panic [OF sp(1)] block_peek_not_Panic [OF inv]
  show ?thesis unfolding block_transact_def Let_def prod.case
    by (intro settle) (use keep in \<open>auto intro: service_keptI dest: brokers admit to_user_own [OF sp] simp: quiet and_then_Panic_iff\<close>)
qed

lemma block_dispatch_kept:
  assumes inv: "block_inv (dev_sectors (sv_geometry v)) (sv_broker v)"
    and sp: "space_inv p (as_root (ps_space s))" "tight p (as_root (ps_space s))"
    and run: "block_dispatch active num s owner (v, p) = (r, v', q)"
  shows "\<exists>a. r = Ok a" and "service_kept owner v v'" and "own_write p (as_root (ps_space s)) q"
proof -
  let ?a = "frame_arguments (ps_frame s)"
  obtain r1 v1 u where t: "block_transact active num s owner (v, p) = (r1, v1, u)" using prod_cases3 by blast
  note T = settledD [OF block_transact_kept [OF inv sp] t]
  have "(\<exists>a. r = Ok a) \<and> service_kept owner v v' \<and> own_write p (as_root (ps_space s)) q"
  proof (cases "(num = 9 \<and> ?a = [0, 0, 0]) \<or> num = 12")
    case True
    then show ?thesis
      using run block_wait_not_Panic [OF inv, of owner "?a ! 0" "?a ! 1"] service_kept_refl [OF inv] own_write_refl [OF sp]
      by (cases "block_wait (sv_broker v) owner (?a ! 0) (?a ! 1)") (auto simp: block_dispatch_def Let_def split: if_splits)
  next
    case False
    then have "r = returned block_code r1" "v' = v1" "q = u" using run t by (auto simp: block_dispatch_def Let_def)
    then show ?thesis using T returned_Ok by blast
  qed
  then show "\<exists>a. r = Ok a" "service_kept owner v v'" "own_write p (as_root (ps_space s)) q" by blast+
qed

section \<open>The dispatcher\<close>

text \<open>
  A call settles with an action. The caller keeps its registers, its space and its pending wait; its heap region still
  describes its window; nobody else's handles or memory change.
\<close>

definition same_control :: "process \<Rightarrow> process \<Rightarrow> bool" where
  "same_control s s' \<longleftrightarrow> ps_parent s' = ps_parent s \<and> ps_program s' = ps_program s \<and> ps_space s' = ps_space s \<and>
     ps_frame s' = ps_frame s \<and> ps_pending s' = ps_pending s"

definition call_kept :: "u64 \<Rightarrow> call_state \<Rightarrow> call_state \<Rightarrow> bool" where
  "call_kept owner c c' \<longleftrightarrow> same_control (cs_process c) (cs_process c') \<and> ipc_kept owner (cs_broker c) (cs_broker c') \<and>
     service_kept owner (cs_service c) (cs_service c') \<and>
     local_step (cs_memory c) (as_root (ps_space (cs_process c))) (cs_memory c') \<and> heap_inv (ps_heap (cs_process c')) \<and>
     heap_match (cs_memory c') (as_root (ps_space (cs_process c))) (ps_heap (cs_process c'))"

lemma own_write_match: "own_write p r q \<Longrightarrow> heap_match q r h = heap_match p r h"
  by (rule heap_match_view) (simp add: own_write_def)

lemma heap_dispatch_call:
  assumes inv: "space_inv p (as_root (ps_space s))" "tight p (as_root (ps_space s))" and act: "as_root (ps_space s) \<noteq> active"
    and h: "heap_inv (ps_heap s)" "heap_match p (as_root (ps_space s)) (ps_heap s)"
    and run: "heap_dispatch active num (s, p) = (r, s', q)"
  shows "\<exists>a. r = Ok a" and "same_control s s'" and "local_step p (as_root (ps_space s)) q" and "heap_inv (ps_heap s')"
    and "heap_match q (as_root (ps_space s)) (ps_heap s')"
proof -
  note H = heap_dispatch_kept [OF inv act h run]
  obtain h' where "s' = s\<lparr>ps_heap := h'\<rparr>" "heap_inv h'" "heap_match q (as_root (ps_space s)) h'"
    using H(2) unfolding heap_kept_def by blast
  then show "\<exists>a. r = Ok a" "same_control s s'" "local_step p (as_root (ps_space s)) q" "heap_inv (ps_heap s')"
    "heap_match q (as_root (ps_space s)) (ps_heap s')"
    using H by (auto simp: same_control_def heap_kept_def)
qed

lemma syscall_kept:
  assumes br: "broker_inv (cs_broker c)" and bl: "block_inv (dev_sectors (sv_geometry (cs_service c))) (sv_broker (cs_service c))"
    and inv: "space_inv (cs_memory c) (as_root (ps_space (cs_process c)))" "tight (cs_memory c) (as_root (ps_space (cs_process c)))"
    and act: "as_root (ps_space (cs_process c)) \<noteq> active"
    and h: "heap_inv (ps_heap (cs_process c))" "heap_match (cs_memory c) (as_root (ps_space (cs_process c))) (ps_heap (cs_process c))"
  shows "settled (\<lambda>r c'. (\<exists>a. r = Ok a) \<and> call_kept owner c c') (syscall_dispatch active owner c)"
proof -
  let ?s = "(cs_process c)\<lparr>ps_calls := saturating_succ (ps_calls (cs_process c))\<rparr>"
  note keep = ipc_kept_refl [OF br, of owner] service_kept_refl [OF bl, of owner] local_step_refl [OF inv] h
  have same: "call_kept owner c (c\<lparr>cs_process := s\<rparr>)" if "same_control (cs_process c) s" "ps_heap s = ps_heap (cs_process c)" for s
    using that keep by (simp add: call_kept_def)
  have sp: "space_inv (cs_memory c) (as_root (ps_space ?s))" "tight (cs_memory c) (as_root (ps_space ?s))" using inv by simp_all
  have written: "local_step (cs_memory c) (as_root (ps_space (cs_process c))) q \<and>
      heap_match q (as_root (ps_space (cs_process c))) (ps_heap (cs_process c))"
    if "own_write (cs_memory c) (as_root (ps_space ?s)) q" for q
    using that own_write_match [OF that] h(2) by (simp add: own_write_def)
  have ipc: "(\<exists>a. r = Ok a) \<and> call_kept owner c (c\<lparr>cs_process := ?s, cs_broker := b, cs_memory := q\<rparr>)"
    if "ipc_dispatch active num ?s owner (cs_broker c, cs_memory c) = (r, b, q)" for num r b q
  proof -
    note I = ipc_dispatch_kept [OF br sp that]
    show ?thesis using I(1,2) written [OF I(3)] keep(2,4) by (auto simp: call_kept_def same_control_def)
  qed
  have blk: "(\<exists>a. r = Ok a) \<and> call_kept owner c (c\<lparr>cs_process := ?s, cs_service := v, cs_memory := q\<rparr>)"
    if "block_dispatch active num ?s owner (cs_service c, cs_memory c) = (r, v, q)" for num r v q
  proof -
    note I = block_dispatch_kept [OF bl sp that]
    show ?thesis using I(1,2) written [OF I(3)] keep(1,4) by (auto simp: call_kept_def same_control_def)
  qed
  have heap: "(\<exists>a. r = Ok a) \<and> call_kept owner c (c\<lparr>cs_process := s, cs_memory := q\<rparr>)"
    if "heap_dispatch active num (?s, cs_memory c) = (r, s, q)" for num r s q
  proof -
    note I = heap_dispatch_call [OF sp _ _ _ that]
    show ?thesis using I act h keep(1,2) by (auto simp: call_kept_def same_control_def)
  qed
  show ?thesis unfolding syscall_dispatch_def Let_def
    by (intro settle) (auto intro: same dest: ipc blk heap simp: same_control_def)
qed

end
