(* ===== verification/Kernel_Invariant.thy ===== *)
theory Kernel_Invariant
  imports Broker_Calls
begin

text \<open>
  The invariant of the running kernel and the relation between the states before and after an operation. The invariant
  ties the parts of the manager together: every slot of the process table has its record, every address space belongs
  to a record and every other frame to one owner, every handle and grant to a live process, and an active request to a
  device. The relation says what an operation on behalf of one process leaves alone: the memory of every other process,
  the frames that nobody owns, and the identities already issued.
\<close>

section \<open>The invariant\<close>

definition live :: "proc_table \<Rightarrow> pid \<Rightarrow> bool" where
  "live t q \<longleftrightarrow> (\<exists>r\<in>set (flatten (pt_slots t)). pr_pid r = q \<and> \<not> is_exited (pr_state r))"

definition held_by_live :: "proc_table \<Rightarrow> 'a table \<Rightarrow> bool" where
  "held_by_live t hs \<longleftrightarrow> (\<forall>q h. view hs (q, h) \<noteq> None \<longrightarrow> live t q)"

definition proc_ok :: "proc_record \<Rightarrow> process \<Rightarrow> bool" where
  "proc_ok r s \<longleftrightarrow> length (fm_registers (ps_frame s)) = 15 \<and>
     (pr_state r \<noteq> Running \<longrightarrow> \<not> is_exited (pr_state r) \<longrightarrow> frame_valid_user (ps_frame s)) \<and>
     (pr_state r = Blocked \<longleftrightarrow> ps_pending s \<noteq> None) \<and> (pr_state r = Dormant \<longrightarrow> fm_vector (ps_frame s) = 0)"

abbreviation slots_match :: "proc_table \<Rightarrow> process slots \<Rightarrow> bool" where
  "slots_match t ps \<equiv> list_all2 (rel_option proc_ok) (pt_slots t) ps"

definition service_ok :: "proc_table \<Rightarrow> block_service \<Rightarrow> bool" where
  "service_ok t v \<longleftrightarrow> block_inv (dev_sectors (sv_geometry v)) (sv_broker v) \<and> held_by_live t (grants (sv_broker v)) \<and>
     (block_active (sv_broker v) \<noteq> None \<longrightarrow> sv_device v)"

abbreviation kernel_mem :: "nat set \<Rightarrow> kstate \<Rightarrow> bool" where
  "kernel_mem B k \<equiv> mem_ok (ks_memory k) (ks_root k) (tenants (ks_processes k)) B (ks_dma k)"

text \<open>\<open>B\<close> are the frames of the kernel buffer in use.\<close>

definition kernel_ok :: "nat set \<Rightarrow> kstate \<Rightarrow> bool" where
  "kernel_ok B k \<longleftrightarrow> life_inv (ks_table k) \<and> slots_match (ks_table k) (ks_processes k) \<and> kernel_mem B k \<and>
     broker_inv (ks_broker k) \<and> held_by_live (ks_table k) (handles (ks_broker k)) \<and> service_ok (ks_table k) (ks_block k)"

definition stage_frames :: "image_stage option \<Rightarrow> nat set" where
  "stage_frames s = (case s of None \<Rightarrow> {} | Some x \<Rightarrow> buffer_frames (st_buffer x))"

definition stage_ok :: "image_stage option \<Rightarrow> bool" where
  "stage_ok s \<longleftrightarrow> (case s of None \<Rightarrow> True | Some x \<Rightarrow> kb_length (st_buffer x) = st_length x \<and> st_length x \<le> 512 * 1024 \<and>
     kb_pages (st_buffer x) = div_ceil (st_length x) page_size \<and> st_received x \<le> st_length x)"

definition kernel_inv :: "kstate \<Rightarrow> bool" where
  "kernel_inv k \<longleftrightarrow> kernel_ok (stage_frames (ks_stage k)) k \<and> stage_ok (ks_stage k)"

text \<open>Frames that are allocated and owned by nobody.\<close>

definition unowned :: "nat set \<Rightarrow> kstate \<Rightarrow> nat set" where
  "unowned B k = leftover (ks_memory k) (tenants (ks_processes k)) B (ks_dma k)"

lemma kernel_okD:
  assumes "kernel_ok B k"
  shows "life_inv (ks_table k)" and "slots_match (ks_table k) (ks_processes k)" and "kernel_mem B k"
    and "broker_inv (ks_broker k)" and "held_by_live (ks_table k) (handles (ks_broker k))" and "service_ok (ks_table k) (ks_block k)"
    and "length (ks_processes k) = capacity" and "length (pt_slots (ks_table k)) = capacity"
  using assms life_invD(1) list_all2_lengthD unfolding kernel_ok_def by fastforce+

lemma service_okD:
  assumes "service_ok t v"
  shows "block_inv (dev_sectors (sv_geometry v)) (sv_broker v)" and "held_by_live t (grants (sv_broker v))"
    and "block_active (sv_broker v) \<noteq> None \<Longrightarrow> sv_device v"
  using assms unfolding service_ok_def by blast+

lemma slot_process:
  assumes "kernel_ok B k" and "i < capacity" and "pt_slots (ks_table k) ! i = Some r"
  obtains s where "ks_processes k ! i = Some s" "proc_ok r s"
proof -
  have "rel_option proc_ok (pt_slots (ks_table k) ! i) (ks_processes k ! i)"
    using list_all2_nthD [OF kernel_okD(2) [OF assms(1)]] kernel_okD(8) [OF assms(1)] assms(2) by simp
  then show ?thesis using that assms(3) by (cases "ks_processes k ! i") auto
qed

lemma process_slot:
  assumes "kernel_ok B k" and "i < capacity" and "ks_processes k ! i = Some s"
  obtains r where "pt_slots (ks_table k) ! i = Some r" "proc_ok r s"
proof -
  have "rel_option proc_ok (pt_slots (ks_table k) ! i) (ks_processes k ! i)"
    using list_all2_nthD [OF kernel_okD(2) [OF assms(1)]] kernel_okD(8) [OF assms(1)] assms(2) by simp
  then show ?thesis using that assms(3) by (cases "pt_slots (ks_table k) ! i") auto
qed

lemma slot_tenant: "i < length ps \<Longrightarrow> ps ! i = Some s \<Longrightarrow> tenants ps ! i = Some (ps_space s, ps_heap s)"
  by (simp add: tenants_def)

lemma tenants_length [simp]: "length (tenants ps) = length ps"
  by (simp add: tenants_def)

lemma tenants_update: "tenants (ps[i := v]) = (tenants ps)[i := map_option (\<lambda>s. (ps_space s, ps_heap s)) v]"
  by (simp add: tenants_def map_update)

lemma tenants_same:
  "ps ! i = Some s \<Longrightarrow> ps_space s' = ps_space s \<Longrightarrow> ps_heap s' = ps_heap s \<Longrightarrow> tenants (ps[i := Some s']) = tenants ps"
  by (cases "i < length ps") (simp_all add: tenants_update slot_tenant [symmetric] list_update_beyond)

lemma process_memory:
  assumes "kernel_ok B k" and "i < capacity" and "ks_processes k ! i = Some s"
  shows "space_inv (ks_memory k) (as_root (ps_space s))" and "tight (ks_memory k) (as_root (ps_space s))"
    and "as_root (ps_space s) \<noteq> ks_root k" and "\<not> as_kernel (ps_space s)" and "heap_inv (ps_heap s)"
    and "heap_match (ks_memory k) (as_root (ps_space s)) (ps_heap s)" and "as_root (ps_space s) \<in> roots (tenants (ks_processes k))"
proof -
  have i: "i < length (tenants (ks_processes k))" "tenants (ks_processes k) ! i = Some (ps_space s, ps_heap s)"
    using slot_tenant [of i "ks_processes k" s] kernel_okD(7) [OF assms(1)] assms(2,3) by simp_all
  note T = mem_ok_tenant [OF kernel_okD(3) [OF assms(1)] i, simplified]
  show "space_inv (ks_memory k) (as_root (ps_space s))" "tight (ks_memory k) (as_root (ps_space s))"
    "as_root (ps_space s) \<noteq> ks_root k" "\<not> as_kernel (ps_space s)" "heap_inv (ps_heap s)"
    "heap_match (ks_memory k) (as_root (ps_space s)) (ps_heap s)" "as_root (ps_space s) \<in> roots (tenants (ks_processes k))"
    using T by blast+
qed

lemma root_unique:
  assumes "kernel_ok B k" and "i < capacity" "j < capacity" and "ks_processes k ! i = Some s" "ks_processes k ! j = Some s'"
    and "as_root (ps_space s) = as_root (ps_space s')"
  shows "i = j"
proof -
  have "slot_keys_distinct t_root (tenants (ks_processes k))" by (rule mem_okD(2) [OF kernel_okD(3) [OF assms(1)]])
  from slot_keys_distinctD [OF this, of i j "(ps_space s, ps_heap s)" "(ps_space s', ps_heap s')"]
  show ?thesis using assms kernel_okD(7) [OF assms(1)] slot_tenant by simp
qed

lemma pid_unique:
  assumes "life_inv t" and "i < capacity" "j < capacity" and "pt_slots t ! i = Some r" "pt_slots t ! j = Some r'"
    and "pr_pid r = pr_pid r'"
  shows "i = j"
  using slot_keys_distinctD [OF life_invD(4) [OF assms(1)]] life_invD(1) [OF assms(1)] assms by metis

lemma slot_of_pid:
  assumes "life_inv t" and "i < capacity" and "pt_slots t ! i = Some r"
  shows "life_slot t (pr_pid r) = Ok i" and "life_state t (pr_pid r) = Ok (pr_state r)" and "life_pid_at t i = Some (pr_pid r)"
proof -
  have "position (has_pid (pr_pid r)) (pt_slots t) = Some i"
  proof (rule position_unique)
    show "i < length (pt_slots t)" "has_pid (pr_pid r) (pt_slots t ! i)" using assms life_invD(1) [OF assms(1)] by simp_all
    fix j assume j: "j < length (pt_slots t)" "has_pid (pr_pid r) (pt_slots t ! j)"
    then obtain r' where "pt_slots t ! j = Some r'" "pr_pid r' = pr_pid r" by (cases "pt_slots t ! j") auto
    then show "j = i" using pid_unique [OF assms(1) _ assms(2) _ assms(3)] j(1) life_invD(1) [OF assms(1)] by simp
  qed
  then show "life_slot t (pr_pid r) = Ok i" "life_state t (pr_pid r) = Ok (pr_state r)" "life_pid_at t i = Some (pr_pid r)"
    using assms life_invD(1) [OF assms(1)] by (simp_all add: life_slot_def life_state_def life_pid_at_def)
qed

section \<open>The relation\<close>

text \<open>A slot that holds an old identity held it before.\<close>

definition pids_step :: "proc_table \<Rightarrow> proc_table \<Rightarrow> bool" where
  "pids_step t t' \<longleftrightarrow> pt_next t \<le> pt_next t' \<and>
     (\<forall>i r'. i < capacity \<longrightarrow> pt_slots t' ! i = Some r' \<longrightarrow> pr_pid r' < pt_next t \<longrightarrow>
        (\<exists>r. pt_slots t ! i = Some r \<and> pr_pid r = pr_pid r'))"

definition others_kept :: "pid \<Rightarrow> kstate \<Rightarrow> kstate \<Rightarrow> bool" where
  "others_kept x k k' \<longleftrightarrow> (\<forall>i r r' s s'. i < capacity \<longrightarrow> pt_slots (ks_table k) ! i = Some r \<longrightarrow> pt_slots (ks_table k') ! i = Some r' \<longrightarrow>
     pr_pid r' = pr_pid r \<longrightarrow> pr_pid r \<noteq> x \<longrightarrow> ks_processes k ! i = Some s \<longrightarrow> ks_processes k' ! i = Some s' \<longrightarrow>
     ps_space s' = ps_space s \<and> same_view (ks_memory k) (as_root (ps_space s)) (ks_memory k'))"

definition step_ok :: "pid \<Rightarrow> nat set \<Rightarrow> kstate \<Rightarrow> nat set \<Rightarrow> kstate \<Rightarrow> bool" where
  "step_ok x B k B' k' \<longleftrightarrow> kernel_ok B' k' \<and> ks_root k' = ks_root k \<and> ks_supervisor k' = ks_supervisor k \<and>
     unowned B' k' = unowned B k \<and> pids_step (ks_table k) (ks_table k') \<and> others_kept x k k'"

text \<open>The running process, if there is one, stays as it is.\<close>

definition calm :: "kstate \<Rightarrow> kstate \<Rightarrow> bool" where
  "calm k k' \<longleftrightarrow> (\<forall>i r. i < capacity \<longrightarrow> pr_state r = Running \<longrightarrow>
     (pt_slots (ks_table k') ! i = Some r \<longleftrightarrow> pt_slots (ks_table k) ! i = Some r) \<and>
     (pt_slots (ks_table k) ! i = Some r \<longrightarrow> ks_processes k' ! i = ks_processes k ! i))"

definition smooth :: "pid \<Rightarrow> nat set \<Rightarrow> kstate \<Rightarrow> kstate \<Rightarrow> bool" where
  "smooth x B k k' \<longleftrightarrow> step_ok x B k B k' \<and> calm k k' \<and> ks_stage k' = ks_stage k \<and>
     (\<forall>f\<in>B. ph_words (ks_memory k') f = ph_words (ks_memory k) f)"

lemma pids_step_refl [simp]: "pids_step t t"
  by (simp add: pids_step_def)

lemma pids_step_trans: "pids_step t u \<Longrightarrow> pids_step u v \<Longrightarrow> pids_step t v"
proof -
  assume p: "pids_step t u" "pids_step u v"
  have "\<exists>r. pt_slots t ! i = Some r \<and> pr_pid r = pr_pid r''"
    if i: "i < capacity" "pt_slots v ! i = Some r''" "pr_pid r'' < pt_next t" for i r''
  proof -
    have "pt_next t \<le> pt_next u" using p(1) unfolding pids_step_def by blast
    then have "pr_pid r'' < pt_next u" using i(3) by (rule order.strict_trans2 [rotated])
    then obtain r' where "pt_slots u ! i = Some r'" "pr_pid r' = pr_pid r''" using p(2) i unfolding pids_step_def by blast
    then show ?thesis using p(1) i unfolding pids_step_def by metis
  qed
  then show ?thesis using p unfolding pids_step_def by auto
qed

lemma step_okD:
  assumes "step_ok x B k B' k'"
  shows "kernel_ok B' k'" and "ks_root k' = ks_root k" and "ks_supervisor k' = ks_supervisor k" and "unowned B' k' = unowned B k"
    and "pids_step (ks_table k) (ks_table k')" and "others_kept x k k'"
  using assms unfolding step_ok_def by blast+

lemma others_keptD:
  assumes "others_kept x k k'" and "i < capacity" and "pt_slots (ks_table k) ! i = Some r" "pt_slots (ks_table k') ! i = Some r'"
    and "pr_pid r' = pr_pid r" and "pr_pid r \<noteq> x" and "ks_processes k ! i = Some s" "ks_processes k' ! i = Some s'"
  shows "ps_space s' = ps_space s" and "same_view (ks_memory k) (as_root (ps_space s)) (ks_memory k')"
  using assms unfolding others_kept_def by blast+

lemma others_kept_trans:
  assumes k: "kernel_ok B k" and ok: "kernel_ok B' k'" and p1: "pids_step (ks_table k) (ks_table k')" and p2: "pids_step (ks_table k') (ks_table k'')"
    and o1: "others_kept x k k'" and o2: "others_kept x k' k''"
  shows "others_kept x k k''"
  unfolding others_kept_def
proof (intro allI impI)
  fix i r r'' s s''
  assume i: "i < capacity" and r: "pt_slots (ks_table k) ! i = Some r" "pt_slots (ks_table k'') ! i = Some r''" "pr_pid r'' = pr_pid r"
    "pr_pid r \<noteq> x" and s: "ks_processes k ! i = Some s" "ks_processes k'' ! i = Some s''"
  have "r \<in> set (flatten (pt_slots (ks_table k)))" using r(1) i kernel_okD(8) [OF k] by (auto simp: in_flatten_iff)
  then have "pr_pid r < pt_next (ks_table k)" using life_invD(5) [OF kernel_okD(1) [OF k]] by blast
  then have "pr_pid r'' < pt_next (ks_table k')" using p1 r(3) unfolding pids_step_def by (metis order.strict_trans2)
  then obtain r' where r': "pt_slots (ks_table k') ! i = Some r'" "pr_pid r' = pr_pid r''" using p2 i r(2) unfolding pids_step_def by blast
  obtain s' where s': "ks_processes k' ! i = Some s'" using slot_process [OF ok i r'(1)] by blast
  have eq: "pr_pid r' = pr_pid r" "pr_pid r'' = pr_pid r'" "pr_pid r' \<noteq> x" using r'(2) r(3,4) by simp_all
  note O1 = others_keptD [OF o1 i r(1) r'(1) eq(1) r(4) s(1) s'] and O2 = others_keptD [OF o2 i r'(1) r(2) eq(2,3) s' s(2)]
  show "ps_space s'' = ps_space s \<and> same_view (ks_memory k) (as_root (ps_space s)) (ks_memory k'')"
    using O1 O2 same_view_trans by simp
qed

lemma others_kept_refl [simp]: "others_kept x k k"
  by (simp add: others_kept_def same_view_refl)

lemma step_ok_refl: "kernel_ok B k \<Longrightarrow> step_ok x B k B k"
  by (simp add: step_ok_def)

lemma step_ok_trans: "kernel_ok B k \<Longrightarrow> step_ok x B k B' k' \<Longrightarrow> step_ok x B' k' B'' k'' \<Longrightarrow> step_ok x B k B'' k''"
  unfolding step_ok_def using others_kept_trans [of B k B' k' k'' x] pids_step_trans by metis

lemma calm_refl [simp]: "calm k k"
  by (simp add: calm_def)

lemma calm_trans: "calm k k' \<Longrightarrow> calm k' k'' \<Longrightarrow> calm k k''"
  unfolding calm_def by simp

lemma calmD:
  assumes "calm k k'" and "i < capacity" and "pt_slots (ks_table k) ! i = Some r" and "pr_state r = Running"
  shows "pt_slots (ks_table k') ! i = Some r" and "ks_processes k' ! i = ks_processes k ! i"
  using assms unfolding calm_def by blast+

lemma smoothD:
  assumes "smooth x B k k'"
  shows "step_ok x B k B k'" and "calm k k'" and "ks_stage k' = ks_stage k" and "\<And>f. f \<in> B \<Longrightarrow> ph_words (ks_memory k') f = ph_words (ks_memory k) f"
    and "kernel_ok B k'" and "ks_root k' = ks_root k" and "ks_supervisor k' = ks_supervisor k"
  using assms unfolding smooth_def step_ok_def by blast+

lemma smooth_refl: "kernel_ok B k \<Longrightarrow> smooth x B k k"
  by (simp add: smooth_def step_ok_refl)

lemma smooth_trans: "kernel_ok B k \<Longrightarrow> smooth x B k k' \<Longrightarrow> smooth x B k' k'' \<Longrightarrow> smooth x B k k''"
  unfolding smooth_def using step_ok_trans calm_trans by (metis (no_types, lifting))

text \<open>Chaining: a contract stated from the state an operation starts in holds from any earlier state.\<close>

lemma settled_smooth:
  assumes "kernel_ok B k0" and "smooth x B k0 k" and "settled (\<lambda>r k'. smooth x B k k' \<and> P r k') m"
  shows "settled (\<lambda>r k'. smooth x B k0 k' \<and> P r k') m"
  using assms(3) by (rule settled_mono) (use smooth_trans [OF assms(1,2)] in blast)

section \<open>Changes of state\<close>

lemma live_set_state:
  assumes "life_inv t" and "i < capacity" and "pt_slots t ! i = Some r"
  shows "live (set_state t i st) q \<longleftrightarrow> (if q = pr_pid r then \<not> is_exited st else live t q)"
proof -
  have i: "i < length (pt_slots t)" using assms(2) life_invD(1) [OF assms(1)] by simp
  have "set (flatten (pt_slots (set_state t i st))) = insert (r\<lparr>pr_state := st\<rparr>) {y \<in> set (flatten (pt_slots t)). pr_pid y \<noteq> pr_pid r}"
    using set_flatten_replace [OF life_invD(4) [OF assms(1)] i assms(3)] assms(3) by (simp add: set_state_def)
  then show ?thesis by (auto simp: live_def)
qed

lemma live_slot: "life_inv t \<Longrightarrow> i < capacity \<Longrightarrow> pt_slots t ! i = Some r \<Longrightarrow> live t (pr_pid r) \<longleftrightarrow> \<not> is_exited (pr_state r)"
proof -
  assume t: "life_inv t" "i < capacity" "pt_slots t ! i = Some r"
  then have r: "r \<in> set (flatten (pt_slots t))" using life_invD(1) [OF t(1)] by (auto simp: in_flatten_iff)
  have "y = r" if y: "y \<in> set (flatten (pt_slots t))" "pr_pid y = pr_pid r" for y
  proof -
    obtain j where j: "j < capacity" "pt_slots t ! j = Some y" using y(1) life_invD(1) [OF t(1)] by (auto simp: in_flatten_iff)
    have "j = i" by (rule pid_unique [OF t(1) j(1) t(2) j(2) t(3) y(2)])
    then show ?thesis using j(2) t(3) by simp
  qed
  then show ?thesis using r unfolding live_def by blast
qed

lemma held_mono: "held_by_live t hs \<Longrightarrow> (\<And>q. live t q \<Longrightarrow> live t' q) \<Longrightarrow> held_by_live t' hs"
  unfolding held_by_live_def by blast

lemma held_view: "held_by_live t hs \<Longrightarrow> (\<And>q h. view hs' (q, h) \<noteq> None \<Longrightarrow> view hs (q, h) \<noteq> None) \<Longrightarrow> held_by_live t hs'"
  unfolding held_by_live_def by blast

lemma held_kept: "held_by_live t hs \<Longrightarrow> view_kept owner hs hs' \<Longrightarrow> held_by_live t hs'"
  using held_view view_kept_owner by metis

lemma set_state_same: "pt_slots t ! i = Some r \<Longrightarrow> set_state t i (pr_state r) = t"
  by (cases t; cases "i < length (pt_slots t)") (auto simp: set_state_def list_update_same_conv list_update_beyond)

lemma set_state_slots: "pt_slots t ! i = Some r \<Longrightarrow> pt_slots (set_state t i st) = (pt_slots t)[i := Some (r\<lparr>pr_state := st\<rparr>)]"
  by (simp add: set_state_def)

lemma pids_set_state: "pt_slots t ! i = Some r \<Longrightarrow> length (pt_slots t) = capacity \<Longrightarrow> pids_step t (set_state t i st)"
  unfolding pids_step_def by (auto simp: set_state_slots nth_update_within split: if_splits)

lemma others_same_memory:
  assumes "ks_memory k' = ks_memory k" and "\<And>i s s'. i < capacity \<Longrightarrow> ks_processes k ! i = Some s \<Longrightarrow> ks_processes k' ! i = Some s' \<Longrightarrow> ps_space s' = ps_space s"
  shows "others_kept x k k'"
  unfolding others_kept_def
proof (intro allI impI)
  fix i r r' s s'
  assume "i < capacity" "ks_processes k ! i = Some s" "ks_processes k' ! i = Some s'"
  from assms(2) [OF this] show "ps_space s' = ps_space s \<and> same_view (ks_memory k) (as_root (ps_space s)) (ks_memory k')"
    using assms(1) same_view_refl by simp
qed

text \<open>One slot moves to another state and its record keeps space and heap.\<close>

lemma slot_changed:
  assumes ok: "kernel_ok B k" and i: "i < capacity" "pt_slots (ks_table k) ! i = Some r" "ks_processes k ! i = Some s"
    and s': "ps_space s' = ps_space s" "ps_heap s' = ps_heap s" "proc_ok (r\<lparr>pr_state := st\<rparr>) s'"
    and st: "st \<noteq> Running \<or> st = pr_state r" "is_exited st \<Longrightarrow> is_exited (pr_state r)"
    and k': "ks_table k' = set_state (ks_table k) i st" "ks_processes k' = (ks_processes k)[i := Some s']"
    and rest: "ks_memory k' = ks_memory k" "ks_root k' = ks_root k" "ks_dma k' = ks_dma k" "ks_broker k' = ks_broker k"
      "ks_block k' = ks_block k" "ks_supervisor k' = ks_supervisor k" "ks_stage k' = ks_stage k"
  shows "step_ok x B k B k'" and "pr_state r \<noteq> Running \<Longrightarrow> smooth x B k k'"
proof -
  note K = kernel_okD [OF ok]
  have life: "life_inv (set_state (ks_table k) i st)"
  proof (cases "st = pr_state r")
    case True
    then show ?thesis using set_state_same [OF i(2)] K(1) by simp
  next
    case False
    then show ?thesis using set_state_inv [OF K(1) _ i(2), of st] K(8) i(1) st(1) by simp
  qed
  have keep: "live (ks_table k) q \<Longrightarrow> live (ks_table k') q" for q
    unfolding k'(1) live_set_state [OF K(1) i(1,2)] using live_slot [OF K(1) i(1,2)] st(2) by auto
  have T: "tenants (ks_processes k') = tenants (ks_processes k)" unfolding k'(2) by (rule tenants_same [OF i(3) s'(1,2)])
  have "slots_match (ks_table k') (ks_processes k')"
    unfolding k' set_state_slots [OF i(2)] using K(2) s'(3) by (intro list_all2_update_cong) simp_all
  moreover have "service_ok (ks_table k') (ks_block k)" using K(6) held_mono [OF _ keep] unfolding service_ok_def by blast
  ultimately have ok': "kernel_ok B k'"
    unfolding kernel_ok_def T rest using life K(3,4) held_mono [OF K(5) keep] k'(1) by simp
  have "others_kept x k k'"
    by (rule others_same_memory [OF rest(1)]) (use i s'(1) in \<open>auto simp: k'(2) nth_update_within K(7) split: if_splits\<close>)
  then show step: "step_ok x B k B k'"
    unfolding step_ok_def unowned_def T using ok' rest pids_set_state [OF i(2) K(8)] k'(1) by simp
  assume run: "pr_state r \<noteq> Running"
  have "calm k k'"
    unfolding calm_def k' set_state_slots [OF i(2)] using run st(1) i(2) K(7,8) by (auto simp: nth_update_within split: if_splits)
  then show "smooth x B k k'" unfolding smooth_def using step rest by simp
qed

text \<open>Only the brokers change.\<close>

lemma brokers_changed:
  assumes ok: "kernel_ok B k" and b: "broker_inv b" "held_by_live (ks_table k) (handles b)" and v: "service_ok (ks_table k) v"
    and k': "ks_broker k' = b" "ks_block k' = v" "ks_table k' = ks_table k" "ks_processes k' = ks_processes k"
      "ks_memory k' = ks_memory k" "ks_root k' = ks_root k" "ks_dma k' = ks_dma k" "ks_supervisor k' = ks_supervisor k" "ks_stage k' = ks_stage k"
  shows "smooth x B k k'"
proof -
  note K = kernel_okD [OF ok]
  have "kernel_ok B k'" unfolding kernel_ok_def k' using K b v by simp
  moreover have "others_kept x k k'" by (rule others_same_memory) (simp_all add: k')
  ultimately show ?thesis unfolding smooth_def step_ok_def unowned_def calm_def k' by simp
qed

lemma service_broker: "service_ok t v \<Longrightarrow> blk_kept (dev_sectors (sv_geometry v)) owner (sv_broker v) b \<Longrightarrow> service_ok t (v\<lparr>sv_broker := b\<rparr>)"
  unfolding service_ok_def blk_kept_def using held_kept by auto

lemma service_kept_ok: "service_ok t v \<Longrightarrow> service_kept owner v v' \<Longrightarrow> service_ok t v'"
  unfolding service_kept_def using service_broker by blast

end
