(* ===== verification/Manager_Safety.thy ===== *)
theory Manager_Safety
  imports Kernel_Invariant
begin

text \<open>
  The operations of the manager keep the invariant of the kernel and do not panic: waking the waiters, ending a
  process, collecting it, creating one, and the operations of the trusted launcher.
\<close>

section \<open>Waiters\<close>

lemma wait_scan_not_Panic: "broker_inv b \<Longrightarrow> wait_scan b owner hs ready \<noteq> Panic"
  by (induction hs arbitrary: ready) (use broker_peek_spec(1) in \<open>auto split: outcome.split\<close>)

lemma wake_value_not_Panic:
  assumes "kernel_ok B k"
  shows "wake_value rd pid w k \<noteq> Panic"
proof -
  note K = kernel_okD(4) [OF assms] service_okD(1) [OF kernel_okD(6) [OF assms]]
  show ?thesis
    using broker_peek_spec(1) [OF K(1)] wait_scan_not_Panic [OF K(1)] block_wait_not_Panic [OF K(2)]
    by (cases w) (auto simp: wake_value_def wait_readiness_def and_then_Panic_iff split: outcome.split)
qed

lemma wake_value_Err: "wake_value rd pid w k \<noteq> Err e"
proof -
  have scan: "wait_scan b owner hs ready \<noteq> Err e" for b owner hs ready
    by (induction hs arbitrary: ready) (auto split: outcome.split)
  show ?thesis by (cases w) (auto simp: wake_value_def wait_readiness_def and_then_Err_iff scan split: outcome.split)
qed

lemma proc_ok_result: "proc_ok (r\<lparr>pr_state := st\<rparr>) s \<Longrightarrow> proc_ok (r\<lparr>pr_state := st\<rparr>) (s\<lparr>ps_frame := frame_result v (ps_frame s)\<rparr>)"
  by (simp add: proc_ok_def frame_result_def frame_valid_user_def)

lemma woken_ok: "proc_ok r s \<Longrightarrow> pr_state r = Blocked \<Longrightarrow>
    proc_ok (r\<lparr>pr_state := Ready\<rparr>) (s\<lparr>ps_pending := None, ps_frame := frame_result v (ps_frame s)\<rparr>)"
  by (simp add: proc_ok_def frame_result_def frame_valid_user_def is_exited_def)

text \<open>A blocked process is made ready with a value in its return register.\<close>

lemma woken_smooth:
  assumes ok: "kernel_ok B k" and i: "i < capacity" "pt_slots (ks_table k) ! i = Some r" "ks_processes k ! i = Some s" "proc_ok r s"
    and b: "pr_state r = Blocked"
  shows "life_wake (ks_table k) (pr_pid r) = (Ok (), set_state (ks_table k) i Ready)"
    and "smooth x B k (k\<lparr>ks_processes := (ks_processes k)[i := Some (s\<lparr>ps_pending := None, ps_frame := frame_result v (ps_frame s)\<rparr>)],
           ks_table := set_state (ks_table k) i Ready\<rparr>)"
proof -
  show "life_wake (ks_table k) (pr_pid r) = (Ok (), set_state (ks_table k) i Ready)"
    using slot_of_pid(1) [OF kernel_okD(1) [OF ok] i(1,2)] i(2) b by (simp add: life_wake_def)
  show "smooth x B k (k\<lparr>ks_processes := (ks_processes k)[i := Some (s\<lparr>ps_pending := None, ps_frame := frame_result v (ps_frame s)\<rparr>)],
           ks_table := set_state (ks_table k) i Ready\<rparr>)"
    by (rule slot_changed(2) [OF ok i(1-3) _ _ woken_ok [OF i(4) b]]) (simp_all add: b is_exited_def)
qed

lemma refresh_slot_smooth:
  assumes ok: "kernel_ok B k" and i: "i < capacity"
  shows "settled (\<lambda>r k'. r = Ok () \<and> smooth x B k k') (refresh_slot rd i k)"
proof (cases "pt_slots (ks_table k) ! i")
  case None
  then show ?thesis using ok i by (simp add: refresh_slot_def life_pid_at_def settled_def smooth_refl)
next
  case (Some r)
  note P = slot_of_pid [OF kernel_okD(1) [OF ok] i Some]
  obtain s where s: "ks_processes k ! i = Some s" "proc_ok r s" using slot_process [OF ok i Some] by blast
  note W = woken_smooth [OF ok i Some s]
  show ?thesis
  proof (cases "pr_state r = Blocked")
    case False
    then show ?thesis using P ok by (simp add: refresh_slot_def settled_def smooth_refl)
  next
    case True
    then obtain w where w: "ps_pending s = Some w" using s(2) by (auto simp: proc_ok_def)
    show ?thesis
    proof (cases "wake_value rd (pr_pid r) w k")
      case (Ok v)
      then show ?thesis using P True s(1) w ok W [OF True]
        by (cases v) (simp_all add: refresh_slot_def settled_def smooth_refl set_process_def Let_def)
    qed (use wake_value_not_Panic [OF ok] wake_value_Err in simp_all)
  qed
qed

lemma refresh_slots_smooth:
  assumes "kernel_ok B k" and "\<forall>i\<in>set js. i < capacity"
  shows "settled (\<lambda>r k'. r = Ok () \<and> smooth x B k k') (refresh_slots rd js k)"
  using assms
proof (induction js arbitrary: k)
  case Nil
  then show ?case by (simp add: settled_def smooth_refl)
next
  case (Cons i js)
  obtain k1 where k1: "refresh_slot (rd i) i k = (Ok (), k1)" "smooth x B k k1"
    using settledE [OF refresh_slot_smooth [OF Cons.prems(1), of i x "rd i"]] Cons.prems(2) by auto
  from Cons.IH [OF smoothD(5) [OF k1(2)]] Cons.prems(2) obtain k2 where "refresh_slots rd js k1 = (Ok (), k2)" "smooth x B k1 k2"
    by (auto elim!: settledE)
  then show ?case using k1 smooth_trans [OF Cons.prems(1) k1(2)] by (simp add: settled_def)
qed

lemma refresh_waiters_smooth:
  assumes "kernel_ok B k"
  obtains k' where "refresh_waiters rd k = (Ok (), k')" "smooth x B k k'"
  using refresh_slots_smooth [OF assms, of "[0..<capacity]" x rd] by (auto simp: refresh_waiters_def elim!: settledE)

section \<open>Ending a process\<close>

lemma block_close_owner_shrinks:
  assumes inv: "block_inv cap b"
  obtains b' where "block_close_owner b p = Some (Ok (), b')" "block_inv cap b'" "\<And>h. view (grants b') (p, h) = None"
    "\<And>q h. view (grants b') (q, h) \<noteq> None \<Longrightarrow> view (grants b) (q, h) \<noteq> None" "block_active b' = block_active b"
proof -
  obtain b' where b': "block_close_owner b p = Some (Ok (), b')" "block_inv cap b'" "\<And>h. view (grants b') (p, h) = None"
    "block_active b' = block_active b" using block_close_owner_total [OF inv] by metis
  let ?P = "\<lambda>s. \<forall>q h. view (grants s) (q, h) \<noteq> None \<longrightarrow> view (grants b) (q, h) \<noteq> None"
  have "?P b'"
  proof (rule block_drain.drain_preserves [where P = ?P and s = b and n = "Suc (table_count (grants b))" and owner = p and cap = cap])
    fix s h s'
    assume s: "block_inv cap s" "?P s" "block_close s p h = (Ok (), s')"
    then have "view_kept p (grants s) (grants s')" using block_close_kept(1) [OF s(1,3)] by (simp add: blk_kept_def)
    then show "?P s'" using s(2) view_kept_owner by blast
  qed (use inv b'(1) in \<open>simp_all add: block_close_owner_def\<close>)
  then show ?thesis using that b' by blast
qed

text \<open>Everything but the process \<open>pid\<close> that was running stays as it is.\<close>

definition calm_but :: "pid \<Rightarrow> kstate \<Rightarrow> kstate \<Rightarrow> bool" where
  "calm_but pid k k' \<longleftrightarrow> (\<forall>i r. i < capacity \<longrightarrow> pr_state r = Running \<longrightarrow> pr_pid r \<noteq> pid \<longrightarrow>
     (pt_slots (ks_table k') ! i = Some r \<longleftrightarrow> pt_slots (ks_table k) ! i = Some r) \<and>
     (pt_slots (ks_table k) ! i = Some r \<longrightarrow> ks_processes k' ! i = ks_processes k ! i))"

definition idle_pid :: "pid \<Rightarrow> kstate \<Rightarrow> bool" where
  "idle_pid pid k \<longleftrightarrow> (\<forall>i r. i < capacity \<longrightarrow> pt_slots (ks_table k) ! i = Some r \<longrightarrow> pr_pid r = pid \<longrightarrow> pr_state r \<noteq> Running)"

definition stage_kept :: "nat set \<Rightarrow> kstate \<Rightarrow> kstate \<Rightarrow> bool" where
  "stage_kept B k k' \<longleftrightarrow> ks_stage k' = ks_stage k \<and> (\<forall>f\<in>B. ph_words (ks_memory k') f = ph_words (ks_memory k) f)"

lemma calm_but_refl [simp]: "calm_but pid k k"
  by (simp add: calm_but_def)

lemma calm_but_calm: "calm_but pid k k' \<Longrightarrow> calm k' k'' \<Longrightarrow> calm_but pid k k''"
  unfolding calm_but_def calm_def by simp

lemma calm_idle: "calm k k' \<Longrightarrow> idle_pid pid k \<Longrightarrow> idle_pid pid k'"
  unfolding calm_def idle_pid_def by blast

lemma calm_but_idle: "calm_but pid k k' \<Longrightarrow> idle_pid pid k \<Longrightarrow> idle_pid pid k' \<Longrightarrow> calm k k'"
  unfolding calm_but_def calm_def idle_pid_def by metis

lemma smooth_alt: "smooth x B k k' \<longleftrightarrow> step_ok x B k B k' \<and> calm k k' \<and> stage_kept B k k'"
  by (simp add: smooth_def stage_kept_def)

lemma stage_kept_trans: "stage_kept B k k' \<Longrightarrow> stage_kept B k' k'' \<Longrightarrow> stage_kept B k k''"
  by (simp add: stage_kept_def)

text \<open>A process exits: its wait is dropped and its handles and grants are revoked.\<close>

lemma ended_ok:
  assumes ok: "kernel_ok B k" and i: "i < capacity" "pt_slots (ks_table k) ! i = Some r" "ks_processes k ! i = Some s" "proc_ok r s"
    and b: "broker_inv b" "\<And>h. view (handles b) (pr_pid r, h) = None"
      "\<And>q h. view (handles b) (q, h) \<noteq> None \<Longrightarrow> view (handles (ks_broker k)) (q, h) \<noteq> None"
    and bb: "block_inv (dev_sectors (sv_geometry (ks_block k))) bb" "\<And>h. view (grants bb) (pr_pid r, h) = None"
      "\<And>q h. view (grants bb) (q, h) \<noteq> None \<Longrightarrow> view (grants (sv_broker (ks_block k))) (q, h) \<noteq> None"
      "block_active bb = block_active (sv_broker (ks_block k))"
    and k': "ks_table k' = set_state (ks_table k) i (Exited e)" "ks_processes k' = (ks_processes k)[i := Some (s\<lparr>ps_pending := None\<rparr>)]"
      "ks_broker k' = b" "ks_block k' = (ks_block k)\<lparr>sv_broker := bb\<rparr>"
    and rest: "ks_memory k' = ks_memory k" "ks_root k' = ks_root k" "ks_dma k' = ks_dma k" "ks_supervisor k' = ks_supervisor k" "ks_stage k' = ks_stage k"
  shows "step_ok x B k B k'" and "calm_but (pr_pid r) k k'" and "idle_pid (pr_pid r) k'" and "stage_kept B k k'"
proof -
  note K = kernel_okD [OF ok] and S = service_okD [OF kernel_okD(6) [OF ok]]
  have life: "life_inv (ks_table k')" unfolding k'(1) using set_state_inv [OF K(1) _ i(2), of "Exited e"] K(8) i(1) by simp
  have keep: "live (ks_table k') q" if "live (ks_table k) q" "q \<noteq> pr_pid r" for q
    unfolding k'(1) live_set_state [OF K(1) i(1,2)] using that by simp
  have hs: "held_by_live (ks_table k') (handles b)" using K(5) b(2,3) keep unfolding held_by_live_def by metis
  have gs: "held_by_live (ks_table k') (grants bb)" using S(2) bb(2,3) keep unfolding held_by_live_def by metis
  have T: "tenants (ks_processes k') = tenants (ks_processes k)" unfolding k'(2) by (rule tenants_same [OF i(3)]) simp_all
  have "proc_ok (r\<lparr>pr_state := Exited e\<rparr>) (s\<lparr>ps_pending := None\<rparr>)" using i(4) by (simp add: proc_ok_def is_exited_def)
  then have "slots_match (ks_table k') (ks_processes k')"
    unfolding k'(1,2) set_state_slots [OF i(2)] using K(2) by (intro list_all2_update_cong) simp_all
  then have ok': "kernel_ok B k'"
    unfolding kernel_ok_def service_ok_def T rest k'(3,4) using life K(3) b(1) hs gs bb(1,4) S(3) by simp
  have "others_kept x k k'"
    by (rule others_same_memory [OF rest(1)]) (use i in \<open>auto simp: k'(2) nth_update_within K(7) split: if_splits\<close>)
  then show "step_ok x B k B k'"
    unfolding step_ok_def unowned_def T using ok' rest pids_set_state [OF i(2) K(8)] k'(1) by simp
  show "calm_but (pr_pid r) k k'"
    unfolding calm_but_def k'(1,2) set_state_slots [OF i(2)] using i(2) K(7,8) by (auto simp: nth_update_within split: if_splits)
  show "stage_kept B k k'" by (simp add: stage_kept_def rest)
  have "pr_state r' \<noteq> Running" if "j < capacity" "pt_slots (ks_table k') ! j = Some r'" "pr_pid r' = pr_pid r" for j r'
  proof -
    have "pt_slots (ks_table k') ! i = Some (r\<lparr>pr_state := Exited e\<rparr>)" unfolding k'(1) set_state_slots [OF i(2)] using i(1) K(8) by simp
    then show ?thesis using pid_unique [OF life that(1) i(1) that(2)] that(2,3) by fastforce
  qed
  then show "idle_pid (pr_pid r) k'" unfolding idle_pid_def by blast
qed

lemma mgr_finish_ok:
  assumes ok: "kernel_ok B k"
  shows "settled (\<lambda>r k'. step_ok x B k B k' \<and> calm_but pid k k' \<and> stage_kept B k k' \<and> (r = Ok () \<longrightarrow> idle_pid pid k') \<and>
    ((\<exists>e. r = Err e) \<longrightarrow> k' = k \<and> \<not> live (ks_table k) pid)) (mgr_finish rd pid e k)"
proof (cases "live (ks_table k) pid")
  case False
  have "\<exists>e'. life_finish (ks_table k) pid e = (Err e', ks_table k)"
  proof (cases "life_slot (ks_table k) pid")
    case (Ok i)
    then obtain r where r: "i < capacity" "pt_slots (ks_table k) ! i = Some r" "pr_pid r = pid"
      using life_slot_Ok [OF Ok] kernel_okD(8) [OF ok] by auto
    then have "is_exited (pr_state r)" using live_slot [OF kernel_okD(1) [OF ok] r(1,2)] False by simp
    then show ?thesis using Ok r by (simp add: life_finish_def)
  qed (simp_all add: life_finish_def)
  then show ?thesis using step_ok_refl [OF ok] False by (auto simp: mgr_finish_def settled_def stage_kept_def)
next
  case True
  then obtain i r where i: "i < capacity" "pt_slots (ks_table k) ! i = Some r" "pr_pid r = pid" "\<not> is_exited (pr_state r)"
    using kernel_okD(8) [OF ok] by (auto simp: live_def in_flatten_iff)
  obtain s where s: "ks_processes k ! i = Some s" "proc_ok r s" using slot_process [OF ok i(1,2)] by blast
  let ?t = "set_state (ks_table k) i (Exited e)"
  have slot: "life_slot (ks_table k) pid = Ok i" using slot_of_pid(1) [OF kernel_okD(1) [OF ok] i(1,2)] i(3) by simp
  have t': "life_inv ?t" using set_state_inv [OF kernel_okD(1) [OF ok] _ i(2), of "Exited e"] kernel_okD(8) [OF ok] i(1) by simp
  have slot': "life_slot ?t pid = Ok i"
    using slot_of_pid(1) [OF t' i(1), of "r\<lparr>pr_state := Exited e\<rparr>"] i kernel_okD(8) [OF ok] by (simp add: set_state_slots)
  have fin: "life_finish (ks_table k) pid e = (Ok (), ?t)" using slot i by (simp add: life_finish_def)
  obtain b where b: "broker_close_owner (ks_broker k) pid = Some (Ok (), b)" "broker_inv b"
    "\<And>h. view (handles b) (pid, h) = None" "\<And>q h. q \<noteq> pid \<Longrightarrow> view (handles b) (q, h) = view (handles (ks_broker k)) (q, h)"
    using close_owner_total [OF kernel_okD(4) [OF ok]] by metis
  have bs: "view (handles b) (q, h) \<noteq> None \<Longrightarrow> view (handles (ks_broker k)) (q, h) \<noteq> None" for q h using b(3,4) by (cases "q = pid") auto
  obtain bb where bb: "block_close_owner (sv_broker (ks_block k)) pid = Some (Ok (), bb)"
    "block_inv (dev_sectors (sv_geometry (ks_block k))) bb" "\<And>h. view (grants bb) (pid, h) = None"
    "\<And>q h. view (grants bb) (q, h) \<noteq> None \<Longrightarrow> view (grants (sv_broker (ks_block k))) (q, h) \<noteq> None"
    "block_active bb = block_active (sv_broker (ks_block k))"
    using block_close_owner_shrinks [OF service_okD(1) [OF kernel_okD(6) [OF ok]]] by metis
  let ?c = "if ks_console k = pid then 0 else ks_console k"
  let ?k = "k\<lparr>ks_table := ?t, ks_console := ?c, ks_processes := (ks_processes k)[i := Some (s\<lparr>ps_pending := None\<rparr>)],
    ks_broker := b, ks_block := (ks_block k)\<lparr>sv_broker := bb\<rparr>\<rparr>"
  note E = ended_ok [OF ok i(1,2) s b(2) b(3) [folded i(3)] bs bb(2) bb(3) [folded i(3)] bb(4,5), of ?k e, simplified, unfolded i(3)]
  obtain k' where k': "refresh_waiters rd ?k = (Ok (), k')" "smooth x B ?k k'" using refresh_waiters_smooth [OF step_okD(1) [OF E(1)]] by metis
  have "mgr_finish rd pid e k = (Ok (), k')"
    using fin slot' s(1) b(1) bb(1) k'(1)
    by (cases "ks_console k = pid") (simp_all add: mgr_finish_def Let_def set_process_def)
  then show ?thesis
    using step_ok_trans [OF ok E(1) smoothD(1) [OF k'(2)]] calm_but_calm [OF E(2) smoothD(2) [OF k'(2)]]
      calm_idle [OF smoothD(2) [OF k'(2)] E(3)] stage_kept_trans [OF E(4)] k'(2) by (simp add: settled_def smooth_alt)
qed

end
