(* ===== verification/Process_Birth.thy ===== *)
theory Process_Birth
  imports Manager_Safety
begin

text \<open>
  Collecting an exited process and creating one. Collecting frees exactly the frames of its address space; creating
  leaves every other process alone, and a program that cannot be loaded leaves nothing behind.
\<close>

section \<open>Collecting a process\<close>

lemma live_clear:
  assumes "life_inv t" and "i < capacity" and "pt_slots t ! i = Some r" and "is_exited (pr_state r)"
  shows "live (t\<lparr>pt_slots := (pt_slots t)[i := None]\<rparr>) q \<longleftrightarrow> live t q"
proof -
  have "set (flatten ((pt_slots t)[i := None])) = {y \<in> set (flatten (pt_slots t)). pr_pid y \<noteq> pr_pid r}"
    using set_flatten_clear [OF life_invD(4) [OF assms(1)] _ assms(3)] assms(2) life_invD(1) [OF assms(1)] by simp
  moreover have "\<not> live t (pr_pid r)" using live_slot [OF assms(1-3)] assms(4) by simp
  ultimately show ?thesis by (auto simp: live_def)
qed

lemma collected_smooth:
  assumes ok: "kernel_ok B k" and i: "i < capacity" "pt_slots (ks_table k) ! i = Some r" "ks_processes k ! i = Some s"
    and ex: "is_exited (pr_state r)" and f: "freed (ran (tree (ks_memory k) (as_root (ps_space s)))) (ks_memory k) q"
    and t: "life_inv (ks_table k')"
    and k': "ks_table k' = (ks_table k)\<lparr>pt_slots := (pt_slots (ks_table k))[i := None]\<rparr>" "ks_processes k' = (ks_processes k)[i := None]"
      "ks_memory k' = q"
    and rest: "ks_root k' = ks_root k" "ks_dma k' = ks_dma k" "ks_supervisor k' = ks_supervisor k" "ks_stage k' = ks_stage k"
      "ks_broker k' = ks_broker k" "ks_block k' = ks_block k"
  shows "smooth x B k k'"
proof -
  note K = kernel_okD [OF ok]
  let ?T = "tenants (ks_processes k)"
  have ti: "i < length ?T" "?T ! i = Some (ps_space s, ps_heap s)" using slot_tenant [of i "ks_processes k" s] K(7) i(1,3) by simp_all
  note F = mem_freed [OF K(3) ti, simplified, OF f]
  have T: "tenants (ks_processes k') = ?T[i := None]" unfolding k'(2) tenants_update by simp
  have lv: "live (ks_table k) p \<Longrightarrow> live (ks_table k') p" for p unfolding k'(1) live_clear [OF K(1) i(1,2) ex] .
  have "slots_match (ks_table k') (ks_processes k')" unfolding k'(1,2) using K(2) by (simp add: list_all2_update_cong)
  moreover have "service_ok (ks_table k') (ks_block k)" using K(6) held_mono [OF _ lv] unfolding service_ok_def by blast
  ultimately have ok': "kernel_ok B k'" unfolding kernel_ok_def T rest k'(3) using F(1) t K(4) held_mono [OF K(5) lv] by blast
  have "others_kept x k k'"
    unfolding others_kept_def
  proof (intro allI impI)
    fix j r1 r2 s1 s2
    assume j: "j < capacity" "ks_processes k ! j = Some s1" "ks_processes k' ! j = Some s2"
    then have ne: "j \<noteq> i" "s2 = s1" using K(7) unfolding k'(2) by (auto simp: nth_update_within split: if_splits)
    then have "as_root (ps_space s1) \<noteq> as_root (ps_space s)" using root_unique [OF ok j(1) i(1) j(2) i(3)] by blast
    then show "ps_space s2 = ps_space s1 \<and> same_view (ks_memory k) (as_root (ps_space s1)) (ks_memory k')"
      using F(2) [OF process_memory(7) [OF ok j(1,2)]] ne(2) k'(3) by simp
  qed
  moreover have "pids_step (ks_table k) (ks_table k')" unfolding pids_step_def k'(1) using K(8) by (auto simp: nth_update_within split: if_splits)
  ultimately have "step_ok x B k B k'" unfolding step_ok_def unowned_def T k'(3) using ok' rest F(3) by simp
  moreover have "calm k k'"
    unfolding calm_def k'(1,2) using i(2) ex K(7,8) by (auto simp: nth_update_within is_exited_def split: if_splits)
  ultimately show ?thesis unfolding smooth_def using F(4) rest k'(3) by simp
qed

lemma mgr_wait_exited:
  assumes ok: "kernel_ok B k" and r: "i < capacity" "pt_slots (ks_table k) ! i = Some r" "pr_state r = Exited e"
  obtains k' where "mgr_wait (pr_pid r) k = (Ok (Some e), k')" "smooth x B k k'"
    "ks_table k' = (ks_table k)\<lparr>pt_slots := (pt_slots (ks_table k))[i := None]\<rparr>" "ks_block k' = ks_block k"
proof -
  note K = kernel_okD [OF ok]
  note P = slot_of_pid [OF K(1) r(1,2)]
  obtain s where s: "ks_processes k ! i = Some s" using slot_process [OF ok r(1,2)] by blast
  note M = process_memory [OF ok r(1) s]
  obtain q where q: "as_destroy (ks_root k) (ps_space s) (ks_memory k) = (Ok (), (ps_space s)\<lparr>as_root := 0\<rparr>, q)"
    "freed (ran (tree (ks_memory k) (as_root (ps_space s)))) (ks_memory k) q"
    using destroy_value [OF M(1,4,3)] by blast
  let ?t = "(ks_table k)\<lparr>pt_slots := (pt_slots (ks_table k))[i := None]\<rparr>"
  have reap: "life_reap (ks_table k) (pr_pid r) = (Ok e, ?t)" using P(1) r(2,3) by (simp add: life_reap_def)
  have t: "life_inv ?t" using life_reap_inv [OF K(1) reap] by blast
  let ?k = "k\<lparr>ks_memory := q, ks_processes := (ks_processes k)[i := None], ks_table := ?t\<rparr>"
  have "smooth x B k ?k" by (rule collected_smooth [OF ok r(1,2) s _ q(2)]) (simp_all add: t r(3) is_exited_def)
  moreover have "mgr_wait (pr_pid r) k = (Ok (Some e), ?k)"
    using P r(3) s q(1) reap by (simp add: mgr_wait_def is_exited_def destroy_user_def set_process_def Let_def)
  ultimately show ?thesis using that by simp
qed

lemma mgr_wait_smooth:
  assumes ok: "kernel_ok B k"
  shows "settled (\<lambda>r k'. smooth x B k k') (mgr_wait pid k)"
proof -
  note K = kernel_okD [OF ok]
  show ?thesis
  proof (cases "life_slot (ks_table k) pid")
    case Panic
    then show ?thesis by simp
  next
    case (Err e)
    then show ?thesis using smooth_refl [OF ok] by (simp add: mgr_wait_def life_state_def settled_def)
  next
    case (Ok i)
    then obtain r where r: "i < capacity" "pt_slots (ks_table k) ! i = Some r" "pr_pid r = pid"
      using life_slot_Ok [OF Ok] K(8) by auto
    show ?thesis
    proof (cases "is_exited (pr_state r)")
      case False
      then show ?thesis using slot_of_pid [OF K(1) r(1,2), unfolded r(3)] smooth_refl [OF ok] by (simp add: mgr_wait_def settled_def)
    next
      case True
      then obtain e where e: "pr_state r = Exited e" by (cases "pr_state r") (auto simp: is_exited_def)
      obtain k' where "mgr_wait (pr_pid r) k = (Ok (Some e), k')" "smooth x B k k'" by (rule mgr_wait_exited [OF ok r(1,2) e])
      then show ?thesis using r(3) by (simp add: settled_def)
    qed
  qed
qed

section \<open>Creating a process\<close>

lemma life_create_cases:
  assumes "life_inv t" and c: "life_create t = (res, t')"
  obtains (refused) e where "res = Err e" "t' = t"
  | (created) i n where "i < capacity" "pt_slots t ! i = None" "res = Ok (i, pt_next t)" "pt_next t < n" "life_inv t'"
      "t' = t\<lparr>pt_next := n, pt_slots := (pt_slots t)[i := Some \<lparr>pr_pid = pt_next t, pr_state = Ready\<rparr>]\<rparr>"
proof (cases "position (\<lambda>s. s = None) (pt_slots t)")
  case None
  then have "res = Err LfFull" "t' = t" using c by (auto simp: life_create_def)
  then show ?thesis by (rule refused)
next
  case pos: (Some i)
  show ?thesis
  proof (cases "checked_add (pt_next t) 1")
    case None
    then have "res = Err LfExhausted" "t' = t" using c pos by (auto simp: life_create_def)
    then show ?thesis by (rule refused)
  next
    case (Some n)
    have "pt_next t < n" using checked_add_Some_unat [OF Some] by (auto simp: word_less_nat_alt)
    moreover have "i < capacity" "pt_slots t ! i = None" using position_less [OF pos] position_holds [OF pos] life_invD(1) [OF assms(1)] by simp_all
    moreover have "life_inv t'" using life_create_inv [OF assms] by blast
    moreover have "res = Ok (i, pt_next t)" "t' = t\<lparr>pt_next := n, pt_slots := (pt_slots t)[i := Some \<lparr>pr_pid = pt_next t, pr_state = Ready\<rparr>]\<rparr>"
      using c pos Some by (auto simp: life_create_def)
    ultimately show ?thesis using created [of i n] by blast
  qed
qed

lemma live_born:
  assumes "life_inv t" and "i < capacity" and "pt_slots t ! i = None"
  shows "live (t\<lparr>pt_next := n, pt_slots := (pt_slots t)[i := Some r]\<rparr>) q \<longleftrightarrow> live t q \<or> q = pr_pid r \<and> \<not> is_exited (pr_state r)"
  using set_flatten_fill [OF _ assms(3), of r] assms(2) life_invD(1) [OF assms(1)] by (auto simp: live_def)

text \<open>The image leaves the heap window empty, and the first frame is one the processor can return to.\<close>

lemma image_outside_window:
  assumes "segments_ok bs (img_segments img)" and "j < window_pages"
  shows "image_spec img (window_base + j * page_size) = None"
proof -
  let ?a = "window_base + j * page_size"
  have a: "window_base \<le> ?a" "?a < window_end" using assms(2) by (simp_all add: window_end_def)
  have "\<not> in_segment ?a s" if "s \<in> set (img_segments img)" for s
    using assms(1) that a by (auto simp: segments_ok_def segment_ok_def in_segment_def)
  then have "find (in_segment ?a) (img_segments img) = None" by (simp add: find_None_iff)
  moreover have "\<not> in_stack ?a"
    using a(2) by (simp add: in_stack_def window_end_def window_base_def window_pages_def stack_top_def stack_pages_def)
  ultimately show ?thesis by (simp add: image_spec_def)
qed

lemma born_heap:
  assumes "elf_parse bs = Ok img" and "fresh_space u c" and "placed u c (map_of (image_list img)) q"
  shows "heap_match q c heap_new"
proof -
  have ok: "segments_ok (img_bytes img) (img_segments img)" using elf_parse_Ok [OF assms(1)] by simp
  have "page_view q c (window_base + j * page_size) = None" if "j < window_pages" for j
  proof -
    have w: "page_address (window_base + j * page_size)" by (rule window_page [OF that])
    then have "map_of (image_list img) (window_base + j * page_size) = None"
      using image_list_spec [OF ok, of "window_base + j * page_size"] image_outside_window [OF ok that] by (simp add: page_address_def)
    then show ?thesis using placedD(2) [OF assms(3) w] assms(2) by (simp add: fresh_space_def)
  qed
  then show ?thesis using heap_new_inv(2) by (simp add: heap_match_def)
qed

lemma born_frame:
  assumes "elf_parse bs = Ok img"
  shows "frame_valid_user (frame_user (of_nat (img_entry img)) (of_nat stack_top) args)"
    and "length (fm_registers (frame_user e st args)) = 15"
proof -
  note E = elf_parse_Ok [OF assms]
  obtain s where "s \<in> set (img_segments img)" "seg_address s \<le> img_entry img" "img_entry img < seg_address s + seg_file_size s"
    using E(3) by blast
  then have n: "4096 \<le> img_entry img" "img_entry img < 0x80000000"
    using E(2) by (auto simp: segments_ok_def segment_ok_def stack_guard_def stack_top_def stack_pages_def)
  then have "unat (of_nat (img_entry img) :: u64) = img_entry img" by (simp add: unat_of_nat take_bit_eq_mod)
  then show "frame_valid_user (frame_user (of_nat (img_entry img)) (of_nat stack_top) args)"
    using n by (simp add: frame_valid_user_def frame_user_def frame_set_arguments_def word_le_nat_alt word_less_nat_alt stack_top_def)
  show "length (fm_registers (frame_user e st args)) = 15" by (simp add: frame_user_def frame_set_arguments_def)
qed

lemma empty_slot:
  assumes "kernel_ok B k" and "i < capacity"
  shows "ks_processes k ! i = None \<longleftrightarrow> pt_slots (ks_table k) ! i = None"
  using list_all2_nthD [OF kernel_okD(2) [OF assms(1)], of i] kernel_okD(8) [OF assms(1)] assms(2)
  by (cases "ks_processes k ! i"; cases "pt_slots (ks_table k) ! i") auto

lemma held_slots: "pt_slots t' = pt_slots t \<Longrightarrow> held_by_live t' hs = held_by_live t hs"
  by (simp add: held_by_live_def live_def)

text \<open>A process that was just created: it is ready, has never run, and could be held.\<close>

definition newborn :: "pid \<Rightarrow> kstate \<Rightarrow> bool" where
  "newborn pid k \<longleftrightarrow> (\<exists>i s. i < capacity \<and> pt_slots (ks_table k) ! i = Some \<lparr>pr_pid = pid, pr_state = Ready\<rparr> \<and>
     ks_processes k ! i = Some s \<and> proc_ok \<lparr>pr_pid = pid, pr_state = Dormant\<rparr> s)"

lemma born_smooth:
  assumes ok: "kernel_ok B k" and i: "i < capacity" "pt_slots (ks_table k) ! i = None" and n: "pt_next (ks_table k) < n"
    and c: "c \<notin> roots (tenants (ks_processes k))" and sp: "spaces_inv q (ks_root k) (insert c (roots (tenants (ks_processes k))))"
    and view: "\<forall>r\<in>roots (tenants (ks_processes k)). same_view (ks_memory k) r q" and w: "within {} (ks_memory k) q"
    and new: "alloc_set q = alloc_set (ks_memory k) \<union> ran (tree q c)" "ran (tree q c) \<inter> alloc_set (ks_memory k) = {}" and h: "heap_match q c heap_new"
    and s: "ps_space s = user_space c" "ps_heap s = heap_new" "proc_ok \<lparr>pr_pid = pt_next (ks_table k), pr_state = Ready\<rparr> s"
    and t: "life_inv (ks_table k')"
    and k': "ks_table k' = (ks_table k)\<lparr>pt_next := n, pt_slots := (pt_slots (ks_table k))[i := Some \<lparr>pr_pid = pt_next (ks_table k), pr_state = Ready\<rparr>]\<rparr>"
      "ks_processes k' = (ks_processes k)[i := Some s]" "ks_memory k' = q"
    and rest: "ks_root k' = ks_root k" "ks_dma k' = ks_dma k" "ks_supervisor k' = ks_supervisor k" "ks_stage k' = ks_stage k"
      "ks_broker k' = ks_broker k" "ks_block k' = ks_block k"
  shows "smooth x B k k'"
proof -
  note K = kernel_okD [OF ok]
  let ?T = "tenants (ks_processes k)"
  have none: "ks_processes k ! i = None" using empty_slot [OF ok i(1)] i(2) by simp
  then have ti: "i < length ?T" "?T ! i = None" using K(7) i(1) by (simp_all add: tenants_def)
  note M = mem_born [OF K(3) ti c sp view w new h]
  have T: "tenants (ks_processes k') = ?T[i := Some (user_space c, heap_new)]" unfolding k'(2) tenants_update using s(1,2) by simp
  have lv: "live (ks_table k) p \<Longrightarrow> live (ks_table k') p" for p unfolding k'(1) live_born [OF K(1) i] by blast
  have "slots_match (ks_table k') (ks_processes k')" unfolding k'(1,2) using K(2) s(3) by (simp add: list_all2_update_cong)
  moreover have "service_ok (ks_table k') (ks_block k)" using K(6) held_mono [OF _ lv] unfolding service_ok_def by blast
  ultimately have ok': "kernel_ok B k'" unfolding kernel_ok_def T rest k'(3) using M(1) t K(4) held_mono [OF K(5) lv] by blast
  have "others_kept x k k'"
    unfolding others_kept_def
  proof (intro allI impI)
    fix j r1 r2 s1 s2
    assume j: "j < capacity" "ks_processes k ! j = Some s1" "ks_processes k' ! j = Some s2"
    then have "s2 = s1" using K(7) none unfolding k'(2) by (auto simp: nth_update_within split: if_splits)
    then show "ps_space s2 = ps_space s1 \<and> same_view (ks_memory k) (as_root (ps_space s1)) (ks_memory k')"
      using view process_memory(7) [OF ok j(1,2)] k'(3) by simp
  qed
  moreover have "pids_step (ks_table k) (ks_table k')"
    unfolding pids_step_def k'(1) using K(8) n by (auto simp: nth_update_within split: if_splits)
  ultimately have "step_ok x B k B k'" unfolding step_ok_def unowned_def T k'(3) using ok' rest M(2) by simp
  moreover have "calm k k'" unfolding calm_def k'(1,2) using i(2) none K(7,8) by (auto simp: nth_update_within split: if_splits)
  ultimately show ?thesis unfolding smooth_def using M(3) rest k'(3) by simp
qed

lemma barren_smooth:
  assumes ok: "kernel_ok B k" and n: "pt_next (ks_table k) < n"
    and sp: "spaces_inv q (ks_root k) (roots (tenants (ks_processes k)))"
    and view: "\<forall>r\<in>roots (tenants (ks_processes k)). same_view (ks_memory k) r q" and w: "within {} (ks_memory k) q"
    and al: "alloc_set q = alloc_set (ks_memory k)" and t: "life_inv (ks_table k')"
    and k': "ks_table k' = (ks_table k)\<lparr>pt_next := n\<rparr>" "ks_memory k' = q"
    and rest: "ks_processes k' = ks_processes k" "ks_root k' = ks_root k" "ks_dma k' = ks_dma k" "ks_supervisor k' = ks_supervisor k"
      "ks_stage k' = ks_stage k" "ks_broker k' = ks_broker k" "ks_block k' = ks_block k"
  shows "smooth x B k k'"
proof -
  note K = kernel_okD [OF ok] and M = mem_okD [OF kernel_okD(3) [OF ok]]
  have words: "ph_words q f = ph_words (ks_memory k) f" if "f \<in> alloc_set (ks_memory k)" for f using w that by (simp add: within_def)
  have "f \<in> alloc_set q \<and> ph_words q f = ph_words (ks_memory k) f"
    if "f = ks_root k \<or> (\<exists>r\<in>roots (tenants (ks_processes k)). f \<in> ran (tree (ks_memory k) r))" for f
    using that words al spaces_invD(2) [OF M(1)] space_ran_alloc [OF spaces_invD(3) [OF M(1)]] by auto
  then have "kernel_mem B k'" unfolding k'(2) rest
    using mem_kept(1) [OF K(3) spaces_invD(1) [OF sp], of B "ks_dma k"] M(6-11) al by auto
  then have ok': "kernel_ok B k'"
    unfolding kernel_ok_def rest(6,7) service_ok_def using t K(2,4-6) rest(1) k'(1)
    by (simp add: service_ok_def held_slots [of "(ks_table k)\<lparr>pt_next := n\<rparr>" "ks_table k"])
  have "others_kept x k k'"
    unfolding others_kept_def rest(1) k'(2) using view process_memory(7) [OF ok] by auto
  moreover have "pids_step (ks_table k) (ks_table k')" unfolding pids_step_def k'(1) using n by auto
  moreover have "unowned B k' = unowned B k" unfolding unowned_def rest k'(2) by (rule leftover_kept) (use view al in auto)
  ultimately have "step_ok x B k B k'" unfolding step_ok_def using ok' rest by simp
  moreover have "calm k k'" unfolding calm_def k'(1) rest(1) by simp
  moreover have "B \<subseteq> alloc_set (ks_memory k)" by (rule M(6))
  ultimately show ?thesis unfolding smooth_def using words rest k'(2) by auto
qed

text \<open>A reserved slot that could not be filled is given back; only its identity is used up.\<close>

lemma create_undone:
  assumes t: "life_inv t" and i: "i < capacity" "pt_slots t ! i = None"
    and t': "t' = t\<lparr>pt_next := n, pt_slots := (pt_slots t)[i := Some \<lparr>pr_pid = pt_next t, pr_state = Ready\<rparr>]\<rparr>" "life_inv t'"
  obtains u where "life_finish t' (pt_next t) ExitKilled = (Ok (), u)" "life_reap u (pt_next t) = (Ok ExitKilled, t\<lparr>pt_next := n\<rparr>)"
    "life_inv (t\<lparr>pt_next := n\<rparr>)"
proof -
  let ?r = "\<lparr>pr_pid = pt_next t, pr_state = Ready\<rparr>"
  let ?u = "set_state t' i (Exited ExitKilled)"
  have len: "length (pt_slots t) = capacity" by (rule life_invD(1) [OF t])
  have slot: "pt_slots t' ! i = Some ?r" using i(1) len by (simp add: t'(1))
  have fin: "life_finish t' (pt_next t) ExitKilled = (Ok (), ?u)"
    using slot_of_pid(1) [OF t'(2) i(1) slot] slot by (simp add: life_finish_def is_exited_def)
  have u: "life_inv ?u" using set_state_inv [OF t'(2) _ slot, of "Exited ExitKilled"] i(1) len t'(1) by simp
  have us: "pt_slots ?u ! i = Some (?r\<lparr>pr_state := Exited ExitKilled\<rparr>)" using set_state_slots [OF slot] i(1) len by (simp add: t'(1))
  have same: "(pt_slots t)[i := None] = pt_slots t" using i(2) by (metis list_update_id)
  have undone: "?u\<lparr>pt_slots := (pt_slots ?u)[i := None]\<rparr> = t\<lparr>pt_next := n\<rparr>"
    by (cases t) (use same in \<open>simp add: set_state_def t'(1)\<close>)
  have "life_reap ?u (pt_next t) = (Ok ExitKilled, t\<lparr>pt_next := n\<rparr>)"
    using slot_of_pid(1) [OF u i(1) us] us undone by (simp add: life_reap_def)
  then show ?thesis using that fin life_reap_inv [OF u] by blast
qed

lemma mgr_create_smooth:
  assumes ok: "kernel_ok B k"
  shows "settled (\<lambda>r k'. smooth x B k k' \<and> (\<forall>pid. r = Ok pid \<longrightarrow> newborn pid k')) (mgr_create bs args k)"
proof -
  note K = kernel_okD [OF ok] and M = mem_okD [OF kernel_okD(3) [OF ok]]
  let ?R = "roots (tenants (ks_processes k))" and ?pid = "pt_next (ks_table k)"
  obtain r t where c: "life_create (ks_table k) = (r, t)" by fastforce
  from K(1) c show ?thesis
  proof (cases rule: life_create_cases)
    case (refused e)
    then show ?thesis using c smooth_refl [OF ok] by (simp add: mgr_create_def settled_def)
  next
    case (created i n)
    obtain res q where l: "loader_load \<lparr>as_root = ks_root k, as_kernel = True\<rparr> bs (ks_memory k) = (res, q)" by fastforce
    obtain u where u: "life_finish t ?pid ExitKilled = (Ok (), u)" "life_reap u ?pid = (Ok ExitKilled, (ks_table k)\<lparr>pt_next := n\<rparr>)"
      "life_inv ((ks_table k)\<lparr>pt_next := n\<rparr>)" using create_undone [OF K(1) created(1,2,6,5)] by blast
    have failed: ?thesis if "res = Err e" "smooth x B k (k\<lparr>ks_memory := q, ks_table := (ks_table k)\<lparr>pt_next := n\<rparr>\<rparr>)" for e
      using c l created(3) u that by (simp add: mgr_create_def Let_def settled_def)
    from M(1) l show ?thesis
    proof (cases rule: loader_load_cases)
      case (rejected e)
      have "smooth x B k (k\<lparr>ks_memory := q, ks_table := (ks_table k)\<lparr>pt_next := n\<rparr>\<rparr>)"
        by (rule barren_smooth [OF ok created(4) M(1)]) (use u(3) rejected(3) in \<open>simp_all add: same_view_refl within_refl spaces_invD(1) [OF M(1)]\<close>)
      then show ?thesis using failed rejected(2) by blast
    next
      case (exhausted img)
      have "smooth x B k (k\<lparr>ks_memory := q, ks_table := (ks_table k)\<lparr>pt_next := n\<rparr>\<rparr>)"
        by (rule barren_smooth [OF ok created(4) exhausted(5,6,7,4)]) (use u(3) in simp_all)
      then show ?thesis using failed exhausted(2) by blast
    next
      case (loaded img a v)
      let ?s = "\<lparr>ps_parent = 0, ps_program = 0, ps_space = user_space a, ps_heap = heap_new,
        ps_frame = frame_user (of_nat (img_entry img)) (of_nat stack_top) args, ps_preemptions = 0, ps_reports = 0,
        ps_last_report = 0, ps_pending = None, ps_calls = 0\<rparr>"
      let ?k = "k\<lparr>ks_table := t, ks_memory := q, ks_processes := (ks_processes k)[i := Some ?s]\<rparr>"
      have s: "proc_ok \<lparr>pr_pid = ?pid, pr_state = st\<rparr> ?s" if "st \<in> {Ready, Dormant}" for st
        using that born_frame [OF loaded(1)] by (auto simp: proc_ok_def)
      have "smooth x B k ?k"
        by (rule born_smooth [OF ok created(1,2,4) loaded(3,6-10) born_heap [OF loaded(1,4,5)], of ?s])
          (use created s in simp_all)
      moreover have "newborn ?pid ?k"
        unfolding newborn_def using created(1) K(7,8) s by (intro exI [of _ i] exI [of _ ?s]) (simp add: created(6))
      moreover have "mgr_create bs args k = (Ok ?pid, ?k)"
        using c l created(3) loaded(2) by (simp add: mgr_create_def Let_def set_process_def)
      ultimately show ?thesis by (simp add: settled_def)
    qed
  qed
qed

end
