(* ===== verification/Launcher_Safety.thy ===== *)
theory Launcher_Safety
  imports Process_Birth
begin

text \<open>
  The operations of the trusted launcher: channels, transfers and grants go to live processes only, and an application
  is admitted, created, held and registered without a panic.
\<close>

section \<open>Processes by identity\<close>

lemma mgr_live_Ok:
  assumes ok: "kernel_ok B k" and l: "mgr_live k pid = Ok i"
  obtains r where "i < capacity" "pt_slots (ks_table k) ! i = Some r" "pr_pid r = pid" "\<not> is_exited (pr_state r)" "live (ks_table k) pid"
proof -
  note K = kernel_okD [OF ok]
  obtain st where st: "life_state (ks_table k) pid = Ok st" "\<not> is_exited st" and s: "life_slot (ks_table k) pid = Ok i"
    using l by (auto simp: mgr_live_def split: outcome.splits if_splits)
  obtain r where r: "i < capacity" "pt_slots (ks_table k) ! i = Some r" "pr_pid r = pid" using life_slot_Ok [OF s] K(8) by auto
  have "pr_state r = st" using slot_of_pid(2) [OF K(1) r(1,2)] st(1) r(3) by simp
  then show ?thesis using that r st(2) live_slot [OF K(1) r(1,2)] by simp
qed

lemma life_state_not_Panic: "life_state t pid \<noteq> Panic"
proof (cases "life_slot t pid")
  case (Ok i)
  then show ?thesis using life_slot_Ok [OF Ok] by (auto simp: life_state_def)
qed (simp_all add: life_state_def)

lemma mgr_live_not_Panic: "mgr_live k pid \<noteq> Panic"
  using life_state_not_Panic by (auto simp: mgr_live_def split: outcome.split)

lemma mgr_process_Ok:
  assumes ok: "kernel_ok B k" and p: "mgr_process k pid = Ok s"
  obtains i r where "i < capacity" "pt_slots (ks_table k) ! i = Some r" "pr_pid r = pid" "ks_processes k ! i = Some s" "proc_ok r s"
proof -
  obtain i where i: "life_slot (ks_table k) pid = Ok i" "ks_processes k ! i = Some s"
    using p by (auto simp: mgr_process_def and_then_Ok_iff)
  obtain r where r: "i < capacity" "pt_slots (ks_table k) ! i = Some r" "pr_pid r = pid"
    using life_slot_Ok [OF i(1)] kernel_okD(8) [OF ok] by auto
  obtain s' where "ks_processes k ! i = Some s'" "proc_ok r s'" using slot_process [OF ok r(1,2)] by blast
  then show ?thesis using that r i(2) by simp
qed

lemma mgr_process_at:
  assumes "kernel_ok B k" and "i < capacity" and "pt_slots (ks_table k) ! i = Some r" and "ks_processes k ! i = Some s"
  shows "mgr_process k (pr_pid r) = Ok s"
  using slot_of_pid(1) [OF kernel_okD(1) [OF assms(1)] assms(2,3)] assms(4) by (simp add: mgr_process_def)

lemma mgr_process_not_Panic:
  assumes ok: "kernel_ok B k"
  shows "mgr_process k pid \<noteq> Panic"
proof (cases "life_slot (ks_table k) pid")
  case (Ok i)
  obtain r where r: "i < capacity" "pt_slots (ks_table k) ! i = Some r" using life_slot_Ok [OF Ok] kernel_okD(8) [OF ok] by auto
  then show ?thesis using slot_process [OF ok r] Ok by (auto simp: mgr_process_def)
qed (simp_all add: mgr_process_def)

lemma must_iff [simp]: "must r = Panic \<longleftrightarrow> (\<forall>a. r \<noteq> Ok a)" "must r = Ok a \<longleftrightarrow> r = Ok a" "must r \<noteq> Err e"
  by (cases r; simp)+

lemma map_err_Err_iff [simp]: "map_err h r = Err e \<longleftrightarrow> (\<exists>e'. r = Err e' \<and> e = h e')"
  by (cases r) auto

text \<open>Waking the waiters in the middle of an operation.\<close>

lemma refresh_chain:
  assumes "kernel_ok B k" and "smooth x B k k1" and "refresh_waiters rd k1 = (r, k2)"
  shows "r = Ok () \<and> smooth x B k k2"
proof -
  obtain k3 where "refresh_waiters rd k1 = (Ok (), k3)" "smooth x B k1 k3" using refresh_waiters_smooth [OF smoothD(5) [OF assms(2)]] by metis
  then show ?thesis using smooth_trans [OF assms(1,2)] assms(3) by simp
qed

section \<open>Authority\<close>

lemma held_grown:
  "held_by_live t hs \<Longrightarrow> (\<And>q h. view hs' (q, h) \<noteq> None \<Longrightarrow> view hs (q, h) \<noteq> None \<or> live t q) \<Longrightarrow> held_by_live t hs'"
  unfolding held_by_live_def by blast

lemma connect_held:
  assumes inv: "broker_inv b" and h: "held_by_live t (handles b)" and lv: "live t p" "live t q" and c: "broker_connect b p q = (r, b')"
  shows "held_by_live t (handles b')"
  using inv c
proof (cases rule: broker_connect_cases)
  case (refused e u)
  then show ?thesis using h by (simp add: held_by_live_def)
next
  case (connected slot h1 h2 t1 t2)
  note tinv = broker_invD(1) [OF inv]
  have "view t2 = (view (handles b))((p, h1) \<mapsto> (\<lparr>ep_channel = next_channel b, ep_side = 0\<rparr>, ipc_all),
      (q, h2) \<mapsto> (\<lparr>ep_channel = next_channel b, ep_side = 1\<rparr>, ipc_all))"
    using grant_view [OF tinv connected(5)] grant_view [OF grant_inv [OF tinv connected(5)] connected(6)] by simp
  then show ?thesis using connected(7) lv by (intro held_grown [OF h]) (auto split: if_splits)
qed

lemma transfer_held:
  assumes inv: "broker_inv b" and h: "held_by_live t (handles b)" and lv: "live t q" and c: "broker_transfer b p n q rights = (r, b')"
  shows "held_by_live t (handles b')"
proof -
  obtain r0 u where tr: "transfer (handles b) p n q rights = (r0, u)" by fastforce
  then have b': "handles b' = u" using c by (auto simp: broker_transfer_def)
  show ?thesis
  proof (cases "\<exists>m. r0 = Ok m")
    case True
    then obtain m where "transfer (handles b) p n q rights = (Ok m, u)" using tr by blast
    from transfer_view [OF broker_invD(1) [OF inv] this] show ?thesis
      using b' lv by (intro held_grown [OF h]) (auto split: if_splits)
  next
    case False
    then show ?thesis using transfer_error [OF broker_invD(1) [OF inv] tr] b' h by auto
  qed
qed

lemma grant_service:
  assumes ok: "service_ok t v" and lv: "live t p" and c: "block_grant (sv_broker v) p g (dev_sectors (sv_geometry v)) = (r, b)"
  shows "service_ok t (v\<lparr>sv_broker := b\<rparr>)" and "r \<noteq> Panic"
proof -
  note S = service_okD [OF ok] and I = block_grant_inv [OF service_okD(1) [OF ok] c]
  obtain r0 u where gr: "grant (grants (sv_broker v)) p g (gr_rights g) = (r0, u)" by fastforce
  have "b = sv_broker v \<or> b = (sv_broker v)\<lparr>grants := u\<rparr>"
    using c gr by (cases "grant_validate g (dev_sectors (sv_geometry v))") (auto simp: block_grant_def)
  then have act: "block_active b = block_active (sv_broker v)" and g: "grants b = grants (sv_broker v) \<or> grants b = u"
    by (auto simp: block_active_def)
  have "held_by_live t u"
  proof (cases "\<exists>m. r0 = Ok m")
    case True
    then obtain m where m: "grant (grants (sv_broker v)) p g (gr_rights g) = (Ok m, u)" using gr by blast
    show ?thesis using grant_view [OF block_invD(1) [OF S(1)] m] lv by (intro held_grown [OF S(2)]) (auto split: if_splits)
  next
    case False
    then show ?thesis using grant_error [OF gr] S(2) by auto
  qed
  then have "held_by_live t (grants b)" using g S(2) by auto
  then show "service_ok t (v\<lparr>sv_broker := b\<rparr>)" "r \<noteq> Panic" using I act S(3) by (simp_all add: service_ok_def)
qed

lemma mgr_connect_smooth:
  assumes ok: "kernel_ok B k"
  shows "settled (\<lambda>r k'. smooth x B k k') (mgr_connect a b k)"
proof -
  note K = kernel_okD [OF ok]
  have step: "r \<noteq> Panic \<and> smooth x B k (k\<lparr>ks_broker := br\<rparr>)"
    if "mgr_live k a = Ok i" "mgr_live k b = Ok j" "broker_connect (ks_broker k) a b = (r, br)" for i j r br
  proof -
    have lv: "live (ks_table k) a" "live (ks_table k) b" using mgr_live_Ok [OF ok that(1)] mgr_live_Ok [OF ok that(2)] by blast+
    note C = broker_connect_inv [OF K(4) that(3)]
    have "smooth x B k (k\<lparr>ks_broker := br\<rparr>)"
      by (rule brokers_changed [OF ok _ connect_held [OF K(4,5) lv that(3)] K(6)]) (use C in simp_all)
    then show ?thesis using C by blast
  qed
  show ?thesis unfolding mgr_connect_def
    by (intro settle) (use smooth_refl [OF ok, of x] in \<open>auto dest: step simp: mgr_live_not_Panic\<close>)
qed

lemma mgr_transfer_smooth:
  assumes ok: "kernel_ok B k"
  shows "settled (\<lambda>r k'. smooth x B k k') (mgr_transfer rd a h b rights k)"
proof -
  note K = kernel_okD [OF ok]
  have step: "r \<noteq> Panic \<and> smooth x B k (k\<lparr>ks_broker := br\<rparr>)"
    if "mgr_live k b = Ok j" "broker_transfer (ks_broker k) a h b rights = (r, br)" for j r br
  proof -
    have lv: "live (ks_table k) b" using mgr_live_Ok [OF ok that(1)] by blast
    note C = broker_transfer_inv [OF K(4) that(2)]
    have "smooth x B k (k\<lparr>ks_broker := br\<rparr>)"
      by (rule brokers_changed [OF ok _ transfer_held [OF K(4,5) lv that(2)] K(6)]) (use C in simp_all)
    then show ?thesis using C by blast
  qed
  show ?thesis unfolding mgr_transfer_def Let_def
    by (intro settle) (use smooth_refl [OF ok, of x] in \<open>auto dest: step refresh_chain [OF ok] simp: mgr_live_not_Panic\<close>)
qed

lemma mgr_grant_smooth:
  assumes ok: "kernel_ok B k"
  shows "settled (\<lambda>r k'. smooth x B k k') (mgr_grant_block pid g k)"
proof -
  note K = kernel_okD [OF ok]
  have step: "r \<noteq> Panic \<and> smooth x B k (k\<lparr>ks_block := (ks_block k)\<lparr>sv_broker := b\<rparr>\<rparr>)"
    if "mgr_live k pid = Ok i" "service_geometry (ks_block k) = Ok geo" "block_grant (sv_broker (ks_block k)) pid g (dev_sectors geo) = (r, b)"
    for i geo r b
  proof -
    have lv: "live (ks_table k) pid" using mgr_live_Ok [OF ok that(1)] by blast
    have "geo = sv_geometry (ks_block k)" using that(2) by (simp add: service_geometry_def split: if_splits)
    note G = grant_service [OF K(6) lv that(3) [unfolded this]]
    have "smooth x B k (k\<lparr>ks_block := (ks_block k)\<lparr>sv_broker := b\<rparr>\<rparr>)"
      by (rule brokers_changed [OF ok K(4,5) G(1)]) simp_all
    then show ?thesis using G(2) by blast
  qed
  show ?thesis unfolding mgr_grant_block_def
    by (intro settle) (use smooth_refl [OF ok, of x] in \<open>auto dest: step simp: mgr_live_not_Panic service_geometry_not_Panic\<close>)
qed

section \<open>Launching\<close>

lemma hold_newborn:
  assumes ok: "kernel_ok B k" and nb: "newborn pid k"
  obtains i where "life_hold (ks_table k) pid = (Ok (), set_state (ks_table k) i Dormant)"
    "smooth x B k (k\<lparr>ks_table := set_state (ks_table k) i Dormant\<rparr>)" "i < capacity"
    "pt_slots (set_state (ks_table k) i Dormant) ! i = Some \<lparr>pr_pid = pid, pr_state = Dormant\<rparr>"
proof -
  note K = kernel_okD [OF ok]
  obtain i s where i: "i < capacity" "pt_slots (ks_table k) ! i = Some \<lparr>pr_pid = pid, pr_state = Ready\<rparr>" "ks_processes k ! i = Some s"
    "proc_ok \<lparr>pr_pid = pid, pr_state = Dormant\<rparr> s" using nb unfolding newborn_def by blast
  have "life_hold (ks_table k) pid = (Ok (), set_state (ks_table k) i Dormant)"
    using slot_of_pid(1) [OF K(1) i(1,2)] i(2) by (simp add: life_hold_def)
  moreover have "(ks_processes k)[i := Some s] = ks_processes k" using i(3) by (metis list_update_id)
  then have "smooth x B k (k\<lparr>ks_table := set_state (ks_table k) i Dormant\<rparr>)"
    by (intro slot_changed(2) [OF ok i(1-3), of s Dormant]) (use i(4) in \<open>simp_all add: is_exited_def\<close>)
  ultimately show ?thesis using that i(1,2) K(8) by (simp add: set_state_slots)
qed

lemma register_child_smooth:
  assumes ok: "kernel_ok B k" and i: "i < capacity" "pt_slots (ks_table k) ! i = Some r" "pr_state r \<noteq> Running"
  shows "settled (\<lambda>res k'. res = Ok () \<and> smooth x B k k') (register_child (pr_pid r) parent program k)"
proof -
  obtain s where s: "ks_processes k ! i = Some s" "proc_ok r s" using slot_process [OF ok i(1,2)] by blast
  let ?s = "s\<lparr>ps_parent := parent, ps_program := program\<rparr>"
  have same: "set_state (ks_table k) i (pr_state r) = ks_table k" by (rule set_state_same [OF i(2)])
  have "smooth x B k (set_process i (Some ?s) k)"
    by (rule slot_changed(2) [OF ok i(1,2) s(1), of ?s "pr_state r"]) (use s(2) i(3) same in \<open>simp_all add: set_process_def proc_ok_def\<close>)
  then show ?thesis
    using slot_of_pid(1) [OF kernel_okD(1) [OF ok] i(1,2)] s(1) by (simp add: register_child_def settled_def)
qed

lemma manifest_parse_not_Panic: "manifest_parse bs \<noteq> Panic"
  by (auto simp: manifest_parse_def and_then_Panic_iff)

lemma app_launch_smooth:
  assumes ok: "kernel_ok B k"
  shows "settled (\<lambda>r k'. smooth x B k k' \<and> (\<forall>pid. r = Ok pid \<longrightarrow> newborn pid k')) (app_launch ar mf name elf avail k)"
proof -
  have made: "r \<noteq> Panic \<and> smooth x B k k' \<and> (\<forall>pid. r = Ok pid \<longrightarrow> newborn pid k')" if "mgr_create elf [0, 0, 0] k = (r, k')" for r k'
    using settledD [OF mgr_create_smooth [OF ok] that] by blast
  show ?thesis unfolding app_launch_def
    by (intro settle) (use smooth_refl [OF ok, of x] in \<open>auto dest: made simp: manifest_parse_not_Panic elf_parse_not_Panic\<close>)
qed

text \<open>Holding and registering the child that was just created.\<close>

lemma hold_register:
  assumes ok: "kernel_ok B k0" and k: "smooth x B k0 k" and nb: "newborn pid k"
    and h: "life_hold (ks_table k) pid = (r, t)" and g: "register_child pid parent program (k\<lparr>ks_table := t\<rparr>) = (r', k')"
  shows "r = Ok ()" and "r' = Ok ()" and "smooth x B k0 k'"
proof -
  obtain i where i: "life_hold (ks_table k) pid = (Ok (), set_state (ks_table k) i Dormant)"
    "smooth x B k (k\<lparr>ks_table := set_state (ks_table k) i Dormant\<rparr>)" "i < capacity"
    "pt_slots (set_state (ks_table k) i Dormant) ! i = Some \<lparr>pr_pid = pid, pr_state = Dormant\<rparr>"
    using hold_newborn [OF smoothD(5) [OF k] nb] by metis
  then show "r = Ok ()" using h by simp
  have "settled (\<lambda>res k'. res = Ok () \<and> smooth x B (k\<lparr>ks_table := t\<rparr>) k') (register_child pid parent program (k\<lparr>ks_table := t\<rparr>))"
    using register_child_smooth [OF smoothD(5) [OF i(2)] i(3), of "\<lparr>pr_pid = pid, pr_state = Dormant\<rparr>"] i(1,4) h by simp
  then have R: "r' = Ok ()" "smooth x B (k\<lparr>ks_table := t\<rparr>) k'" using settledD [OF _ g] by blast+
  then show "r' = Ok ()" by simp
  have "smooth x B k (k\<lparr>ks_table := t\<rparr>)" using i(1,2) h by simp
  then show "smooth x B k0 k'" using smooth_trans [OF ok smooth_trans [OF ok k] R(2)] by blast
qed

lemma app_launch_dormant_smooth:
  assumes ok: "kernel_ok B k"
  shows "settled (\<lambda>r k'. smooth x B k k') (app_launch_dormant ar rd mf name elf avail parent program k)"
proof -
  obtain r1 k1 where l: "app_launch ar mf name elf avail k = (r1, k1)" "r1 \<noteq> Panic" "smooth x B k k1"
    "\<And>pid. r1 = Ok pid \<Longrightarrow> newborn pid k1" using settledE [OF app_launch_smooth [OF ok, of x ar mf name elf avail]] by metis
  show ?thesis
  proof (cases r1)
    case (Ok pid)
    obtain r2 t where h: "life_hold (ks_table k1) pid = (r2, t)" by fastforce
    obtain r3 k3 where g: "register_child pid parent program (k1\<lparr>ks_table := t\<rparr>) = (r3 :: (launch_error, unit) outcome, k3)" by fastforce
    note H = hold_register [OF ok l(3) l(4) [OF Ok] h g]
    then show ?thesis using l(1) Ok h g by (simp add: app_launch_dormant_def settled_def Let_def)
  qed (use l in \<open>simp_all add: app_launch_dormant_def settled_def\<close>)
qed

lemma catalog_launch_smooth:
  assumes ok: "kernel_ok B k"
  shows "settled (\<lambda>r k'. smooth x B k k' \<and> (\<forall>pid. r = Ok pid \<longrightarrow> newborn pid k')) (catalog_launch ar program k)"
proof -
  have made: "r \<noteq> Panic \<and> smooth x B k k' \<and> (\<forall>pid. r = Ok pid \<longrightarrow> newborn pid k')" if "app_launch ar mf name elf avail k = (r, k')" for mf name elf avail r k'
    using settledD [OF app_launch_smooth [OF ok] that] by blast
  show ?thesis unfolding catalog_launch_def by (intro settle) (use smooth_refl [OF ok, of x] in \<open>auto dest: made\<close>)
qed

end
