(* ===== verification/Staging_Safety.thy ===== *)
theory Staging_Safety
  imports Launcher_Safety
begin

text \<open>
  The staged image of the supervisor: at most one kernel buffer, allocated when staging begins, filled in order, and
  released exactly once, whether the image is launched, refused or abandoned.
\<close>

section \<open>Changes outside the address spaces\<close>

lemma memory_outside:
  assumes ok: "kernel_ok B k" and q: "phys_ok q"
    and kept: "\<And>f. f \<in> alloc_set (ks_memory k) \<Longrightarrow> f \<notin> B \<Longrightarrow> f \<in> alloc_set q \<and> ph_words q f = ph_words (ks_memory k) f"
    and B': "B' \<subseteq> alloc_set q" "B' \<inter> alloc_set (ks_memory k) \<subseteq> B" and al: "alloc_set q - B' = alloc_set (ks_memory k) - B"
    and k': "ks_memory k' = q" "ks_table k' = ks_table k" "ks_processes k' = ks_processes k" "ks_broker k' = ks_broker k"
      "ks_block k' = ks_block k" "ks_root k' = ks_root k" "ks_dma k' = ks_dma k" "ks_supervisor k' = ks_supervisor k"
  shows "step_ok x B k B' k'" and "calm k k'"
proof -
  note K = kernel_okD [OF ok] and M = mem_okD [OF kernel_okD(3) [OF ok]] and S = spaces_invD [OF mem_okD(1) [OF kernel_okD(3) [OF ok]]]
  let ?T = "tenants (ks_processes k)"
  have own: "f \<in> alloc_set (ks_memory k) \<and> f \<notin> B" if "f = ks_root k \<or> (\<exists>r\<in>roots ?T. f \<in> ran (tree (ks_memory k) r))" for f
    using that S(2) M(8) M(11) space_ran_alloc [OF S(3)] by blast
  then have fk: "f \<in> alloc_set q \<and> ph_words q f = ph_words (ks_memory k) f"
    if "f = ks_root k \<or> (\<exists>r\<in>roots ?T. f \<in> ran (tree (ks_memory k) r))" for f using that kept by blast
  have D: "ks_dma k \<subseteq> alloc_set q" "B' \<inter> ks_dma k = {}" using kept M(7,10) B'(2) by blast+
  have r: "ks_root k \<notin> B'" using own [of "ks_root k"] B'(2) by blast
  have away: "ran (tree (ks_memory k) r) \<inter> (B' \<union> ks_dma k) = {}" if "r \<in> roots ?T" for r using own M(11) [OF that] B'(2) that by blast
  note G = mem_kept [OF K(3) q fk B'(1) D(1) r M(9) D(2) away]
  have mem: "mem_ok q (ks_root k) ?T B' (ks_dma k)" by (rule G(1))
  have view: "same_view (ks_memory k) r q" if "r \<in> roots ?T" for r using G(2) [OF _ _ that] by blast
  have ok': "kernel_ok B' k'" unfolding kernel_ok_def k' using K mem by blast
  have "alloc_set q - B' - ks_dma k = alloc_set (ks_memory k) - B - ks_dma k" using al by blast
  then have "unowned B' k' = unowned B k" unfolding unowned_def k' by (rule leftover_kept [rotated]) (use view in blast)
  moreover have "others_kept x k k'" unfolding others_kept_def k' using view process_memory(7) [OF ok] by auto
  ultimately show "step_ok x B k B' k'" unfolding step_ok_def using ok' k' by simp
  show "calm k k'" unfolding calm_def k' by simp
qed

section \<open>Operations that may change the stage\<close>

definition shift :: "pid \<Rightarrow> kstate \<Rightarrow> kstate \<Rightarrow> bool" where
  "shift x k k' \<longleftrightarrow> step_ok x (stage_frames (ks_stage k)) k (stage_frames (ks_stage k')) k' \<and> calm k k' \<and> stage_ok (ks_stage k')"

lemma kernel_invD:
  assumes "kernel_inv k"
  shows "kernel_ok (stage_frames (ks_stage k)) k" and "stage_ok (ks_stage k)"
  using assms unfolding kernel_inv_def by blast+

lemma shiftD:
  assumes "shift x k k'"
  shows "kernel_inv k'" and "calm k k'" and "step_ok x (stage_frames (ks_stage k)) k (stage_frames (ks_stage k')) k'"
  using assms step_okD(1) unfolding shift_def kernel_inv_def by blast+

lemma shift_refl: "kernel_inv k \<Longrightarrow> shift x k k"
  unfolding shift_def using kernel_invD step_ok_refl by simp

lemma shift_trans: "kernel_inv k \<Longrightarrow> shift x k k' \<Longrightarrow> shift x k' k'' \<Longrightarrow> shift x k k''"
  unfolding shift_def using step_ok_trans [OF kernel_invD(1)] calm_trans by blast

lemma smooth_shift: "kernel_inv k \<Longrightarrow> smooth x (stage_frames (ks_stage k)) k k' \<Longrightarrow> shift x k k'"
  unfolding shift_def smooth_def using kernel_invD(2) by simp

lemma settled_shift:
  "kernel_inv k \<Longrightarrow> settled (\<lambda>r k'. smooth x (stage_frames (ks_stage k)) k k') m \<Longrightarrow> settled (\<lambda>r k'. shift x k k') m"
  by (erule settled_mono) (rule smooth_shift)

text \<open>The buffer of a stage is released.\<close>

lemma release_stage_ok:
  assumes ok: "kernel_ok (buffer_frames (st_buffer st)) k"
  obtains q where "release_kernel_buffer (st_buffer st) (ks_memory k) = (Ok (), q)"
    "step_ok x (buffer_frames (st_buffer st)) k {} (k\<lparr>ks_memory := q\<rparr>)" "calm k (k\<lparr>ks_memory := q\<rparr>)"
proof -
  note M = mem_okD [OF kernel_okD(3) [OF ok]]
  have p: "phys_ok (ks_memory k)" by (rule spaces_invD(1) [OF M(1)])
  obtain q where q: "release_kernel_buffer (st_buffer st) (ks_memory k) = (Ok (), q)" "phys_ok q"
    "alloc_set q = alloc_set (ks_memory k) - buffer_frames (st_buffer st)"
    "\<And>f. f \<notin> buffer_frames (st_buffer st) \<Longrightarrow> ph_words q f = ph_words (ks_memory k) f"
    using release_buffer_value [OF p M(6)] by metis
  have "step_ok x (buffer_frames (st_buffer st)) k {} (k\<lparr>ks_memory := q\<rparr>)" "calm k (k\<lparr>ks_memory := q\<rparr>)"
    by (rule memory_outside [OF ok q(2), where B' = "{}"]; use q(3,4) in simp)+
  then show ?thesis using that q(1) by blast
qed

text \<open>The invariant does not look at the session or the stage record itself.\<close>

lemma kernel_ok_fields:
  "kernel_ok B (k\<lparr>ks_stage := s\<rparr>) = kernel_ok B k" "kernel_ok B (k\<lparr>ks_console := c\<rparr>) = kernel_ok B k"
  "kernel_ok B (k\<lparr>ks_shutdown := b\<rparr>) = kernel_ok B k" "kernel_ok B (k\<lparr>ks_generation := g\<rparr>) = kernel_ok B k"
  "unowned B (k\<lparr>ks_stage := s\<rparr>) = unowned B k" "unowned B (k\<lparr>ks_console := c\<rparr>) = unowned B k"
  "unowned B (k\<lparr>ks_shutdown := b\<rparr>) = unowned B k" "unowned B (k\<lparr>ks_generation := g\<rparr>) = unowned B k"
  by (simp_all add: kernel_ok_def unowned_def)

lemma step_ok_fields:
  "step_ok x B (k\<lparr>ks_stage := s\<rparr>) B' k' = step_ok x B k B' k'" "calm (k\<lparr>ks_stage := s\<rparr>) k' = calm k k'"
  "step_ok x B k B' (k'\<lparr>ks_stage := s\<rparr>) = step_ok x B k B' k'" "calm k (k'\<lparr>ks_stage := s\<rparr>) = calm k k'"
  "step_ok x B k B' (k'\<lparr>ks_shutdown := b\<rparr>) = step_ok x B k B' k'" "calm k (k'\<lparr>ks_shutdown := b\<rparr>) = calm k k'"
  "step_ok x B k B' (k'\<lparr>ks_console := c\<rparr>) = step_ok x B k B' k'" "calm k (k'\<lparr>ks_console := c\<rparr>) = calm k k'"
  "step_ok x B k B' (k'\<lparr>ks_generation := g\<rparr>) = step_ok x B k B' k'" "calm k (k'\<lparr>ks_generation := g\<rparr>) = calm k k'"
  by (simp_all add: step_ok_def calm_def others_kept_def kernel_ok_fields)

lemma clear_stage_shift:
  assumes inv: "kernel_inv k"
  shows "settled (\<lambda>r k'. r = Ok () \<and> shift x k k' \<and> ks_stage k' = None) (clear_image_stage k)"
proof (cases "ks_stage k")
  case None
  then show ?thesis using shift_refl [OF inv] by (simp add: clear_image_stage_def settled_def)
next
  case (Some st)
  have ok: "kernel_ok (buffer_frames (st_buffer st)) (k\<lparr>ks_stage := None\<rparr>)"
    using kernel_invD(1) [OF inv] Some by (simp add: kernel_ok_fields stage_frames_def)
  obtain q where q: "release_kernel_buffer (st_buffer st) (ks_memory k) = (Ok (), q)"
    "step_ok x (buffer_frames (st_buffer st)) (k\<lparr>ks_stage := None\<rparr>) {} (k\<lparr>ks_stage := None, ks_memory := q\<rparr>)"
    "calm (k\<lparr>ks_stage := None\<rparr>) (k\<lparr>ks_stage := None, ks_memory := q\<rparr>)" using release_stage_ok [OF ok, of x] by auto
  have "shift x k (k\<lparr>ks_stage := None, ks_memory := q\<rparr>)"
    using q(2,3) Some by (simp add: shift_def step_ok_fields stage_frames_def stage_ok_def)
  then show ?thesis using q(1) Some by (simp add: clear_image_stage_def release_stage_def settled_def)
qed

lemma clear_chain:
  assumes "kernel_inv k" and "shift x k k1" and "clear_image_stage k1 = (r, k2)"
  shows "r = Ok () \<and> shift x k k2 \<and> ks_stage k2 = None"
  using settledD [OF clear_stage_shift [OF shiftD(1) [OF assms(2)], of x] assms(3)] shift_trans [OF assms(1,2)] by blast

lemma clear_then_shift:
  assumes "kernel_inv k"
  shows "settled (\<lambda>r k'. shift x k k') (clear_then e k)"
  unfolding clear_then_def by (intro settle) (auto dest: clear_chain [OF assms shift_refl [OF assms, of x]])

section \<open>The staging calls\<close>

lemma copy_from_process_not_Panic: "kernel_ok B k \<Longrightarrow> copy_from_process k pid a n \<noteq> Panic"
proof -
  assume ok: "kernel_ok B k"
  have "copy_from_user (ks_root k) (ks_memory k) (ps_space s) (unat a) n \<noteq> Panic" if s: "mgr_process k pid = Ok s" for s
  proof -
    obtain i where "i < capacity" "ks_processes k ! i = Some s" using mgr_process_Ok [OF ok s] by blast
    then show ?thesis using from_user_not_Panic [OF process_memory(1) [OF ok]] by blast
  qed
  then show ?thesis using mgr_process_not_Panic [OF ok] by (auto simp: copy_from_process_def split: outcome.split)
qed

lemma copy_from_process_length:
  assumes ok: "kernel_ok B k" and c: "copy_from_process k pid a n = Ok (Some bs)"
  shows "length bs = n"
proof -
  obtain s where s: "mgr_process k pid = Ok s" "copy_from_user (ks_root k) (ks_memory k) (ps_space s) (unat a) n = Ok bs"
    using c by (auto simp: copy_from_process_def split: outcome.splits)
  obtain i where i: "i < capacity" "ks_processes k ! i = Some s" using mgr_process_Ok [OF ok s(1)] by blast
  then show ?thesis using from_user_length [OF process_memory(1) [OF ok i] s(2)] by blast
qed

lemma copy_from_process_Err: "copy_from_process k pid a n \<noteq> Err e"
  by (auto simp: copy_from_process_def split: outcome.split)

lemma stage_begin_shift:
  assumes inv: "kernel_inv k"
  shows "settled (\<lambda>r k'. shift x k k') (stage_begin caller w k)"
proof -
  note ok = kernel_invD(1) [OF inv]
  have made: "r \<noteq> Panic \<and> (\<forall>e. r = Err e \<longrightarrow> shift x k (k\<lparr>ks_memory := q\<rparr>)) \<and>
      (\<forall>b. r = Ok b \<longrightarrow> shift x k (k\<lparr>ks_memory := q, ks_generation := g, ks_stage := Some \<lparr>st_owner = caller, st_generation = g,
         st_length = unat (w ! 1), st_received = 0, st_available = w ! 3, st_manifest = mf, st_buffer = b\<rparr>\<rparr>))"
    if none: "ks_stage k = None" and len: "unat (w ! 1) \<le> 512 * 1024" and run: "allocate_kernel_buffer (unat (w ! 1)) (ks_memory k) = (r, q)" for r q g mf
  proof -
    have ok: "kernel_ok {} k" using ok none by (simp add: stage_frames_def)
    have p: "phys_ok (ks_memory k)" by (rule spaces_invD(1) [OF mem_okD(1) [OF kernel_okD(3) [OF ok]]])
    from p run show ?thesis
    proof (cases rule: allocate_buffer_cases)
      case (refused e)
      then show ?thesis using shift_refl [OF inv] by simp
    next
      case (made b)
      let ?st = "\<lparr>st_owner = caller, st_generation = g, st_length = unat (w ! 1), st_received = 0, st_available = w ! 3,
        st_manifest = mf, st_buffer = b\<rparr>"
      let ?k = "k\<lparr>ks_memory := q, ks_generation := g, ks_stage := Some ?st\<rparr>"
      have "step_ok x {} k (buffer_frames b) ?k" "calm k ?k"
        by (rule memory_outside [OF ok made(4), where B' = "buffer_frames b"]; use made(5-7) in auto)+
      then have "shift x k ?k" using none made(2,3) len by (simp add: shift_def stage_frames_def stage_ok_def)
      then show ?thesis using made(1) by simp
    qed
  qed
  show ?thesis unfolding stage_begin_def Let_def
    by (intro settle) (use shift_refl [OF inv, of x] in
      \<open>auto dest: made simp: copy_from_process_not_Panic [OF ok] copy_from_process_Err manifest_parse_not_Panic\<close>)
qed

lemma stage_written:
  assumes inv: "kernel_inv k" and st: "ks_stage k = Some st" and c: "copy_from_process k pid a n = Ok (Some chunk)" and n: "0 < n"
    and e: "(case checked_add64 (st_received st) n of None \<Rightarrow> True | Some e \<Rightarrow> e > st_length st) = False"
    and run: "buffer_write (st_buffer st) (st_received st) chunk (ks_memory k) = (r, q)"
  shows "r = Ok ()" and "shift x k (k\<lparr>ks_memory := q, ks_stage := Some (st\<lparr>st_received := st_received st + n\<rparr>)\<rparr>)"
proof -
  let ?B = "buffer_frames (st_buffer st)"
  have ok: "kernel_ok ?B k" using kernel_invD(1) [OF inv] st by (simp add: stage_frames_def)
  have so: "kb_length (st_buffer st) = st_length st" "st_length st \<le> 512 * 1024"
    "kb_pages (st_buffer st) = div_ceil (st_length st) page_size" using kernel_invD(2) [OF inv] st by (simp_all add: stage_ok_def)
  have len: "length chunk = n" by (rule copy_from_process_length [OF ok c])
  have fits: "st_received st + length chunk \<le> kb_length (st_buffer st)"
    using e so(1) len by (auto simp: checked_add64_def split: if_splits)
  have pages: "kb_pages (st_buffer st) = div_ceil (kb_length (st_buffer st)) page_size" and small: "kb_length (st_buffer st) < u64_limit"
    and full: "chunk \<noteq> []" using so len n by (auto simp: u64_limit_def)
  obtain u where u: "buffer_write (st_buffer st) (st_received st) chunk (ks_memory k) = (Ok (), u)" "ph_frames u = ph_frames (ks_memory k)"
    "\<And>f. f \<notin> ?B \<Longrightarrow> ph_words u f = ph_words (ks_memory k) f"
    using buffer_write_value [OF pages small full fits] by metis
  then show "r = Ok ()" using run by simp
  have q: "q = u" using u(1) run by simp
  have al: "alloc_set u = alloc_set (ks_memory k)" "phys_ok u"
    using u(2) spaces_invD(1) [OF mem_okD(1) [OF kernel_okD(3) [OF ok]]] by (simp_all add: alloc_set_def phys_ok_def)
  let ?k = "k\<lparr>ks_memory := q, ks_stage := Some (st\<lparr>st_received := st_received st + n\<rparr>)\<rparr>"
  have "step_ok x ?B k ?B ?k" "calm k ?k"
    by (rule memory_outside [OF ok al(2), where B' = ?B]; use u(3) al(1) q mem_okD(6) [OF kernel_okD(3) [OF ok]] in auto)+
  then show "shift x k ?k" using st so fits len by (simp add: shift_def stage_frames_def stage_ok_def)
qed

lemma stage_copy_shift:
  assumes inv: "kernel_inv k"
  shows "settled (\<lambda>r k'. shift x k k') (stage_copy caller w k)"
proof -
  note ok = kernel_invD(1) [OF inv]
  note written = stage_written [OF inv]
  note clear = clear_then_shift [OF inv, of x]
  show ?thesis unfolding stage_copy_def Let_def
    by (intro settle clear) (use shift_refl [OF inv, of x] in
      \<open>auto dest: written simp: copy_from_process_not_Panic [OF ok] copy_from_process_Err\<close>)
qed

text \<open>The commit takes the stage first and releases its buffer last.\<close>

lemma commit_release:
  assumes inv: "kernel_inv k" and st: "ks_stage k = Some st"
    and sm: "smooth x (buffer_frames (st_buffer st)) (k\<lparr>ks_stage := None\<rparr>) k2" and run: "release_stage st k2 = (r, k3)"
  shows "r = Ok () \<and> shift x k k3"
proof -
  let ?B = "buffer_frames (st_buffer st)" and ?k = "k\<lparr>ks_stage := None\<rparr>"
  have ok: "kernel_ok ?B ?k" using kernel_invD(1) [OF inv] st by (simp add: kernel_ok_fields stage_frames_def)
  obtain q where q: "release_kernel_buffer (st_buffer st) (ks_memory k2) = (Ok (), q)" "step_ok x ?B k2 {} (k2\<lparr>ks_memory := q\<rparr>)"
    "calm k2 (k2\<lparr>ks_memory := q\<rparr>)" using release_stage_ok [OF smoothD(5) [OF sm]] by metis
  have k3: "r = Ok ()" "k3 = k2\<lparr>ks_memory := q\<rparr>" using run q(1) by (simp_all add: release_stage_def)
  have "step_ok x ?B ?k {} k3" "calm ?k k3"
    using step_ok_trans [OF ok smoothD(1) [OF sm] q(2)] calm_trans [OF smoothD(2) [OF sm] q(3)] k3(2) by simp_all
  moreover have "ks_stage k3 = None" using smoothD(3) [OF sm] k3(2) by simp
  ultimately show ?thesis using st k3(1) by (simp add: shift_def step_ok_fields stage_frames_def stage_ok_def)
qed

lemma stage_launch_smooth:
  assumes ok: "kernel_ok B k"
  shows "settled (\<lambda>r k'. smooth x B k k') (stage_launch ar rd caller st k)"
proof -
  have launched: "r \<noteq> Panic \<and> smooth x B k k'" if "app_launch_dormant ar rd mf name elf avail parent program k = (r, k')" for mf name elf avail parent program r k'
    using settledD [OF app_launch_dormant_smooth [OF ok] that] by blast
  show ?thesis unfolding stage_launch_def
    by (intro settle) (use smooth_refl [OF ok, of x] in \<open>auto dest: launched simp: manifest_parse_not_Panic\<close>)
qed

lemma stage_commit_shift:
  assumes inv: "kernel_inv k"
  shows "settled (\<lambda>r k'. shift x k k') (stage_commit ar rd caller generation k)"
proof -
  have ok: "kernel_ok (buffer_frames (st_buffer st)) (k\<lparr>ks_stage := None\<rparr>)" if "ks_stage k = Some st" for st
    using kernel_invD(1) [OF inv] that by (simp add: kernel_ok_fields stage_frames_def)
  have idle: "r = Ok () \<and> shift x k k'" if "ks_stage k = Some st" "release_stage st (k\<lparr>ks_stage := None\<rparr>) = (r, k')"
    for st and r :: "('z, unit) outcome" and k'
    using commit_release [OF inv that(1) smooth_refl [OF ok [OF that(1)]] that(2)] by blast
  have launched: "r \<noteq> Panic \<and> smooth x (buffer_frames (st_buffer st)) (k\<lparr>ks_stage := None\<rparr>) k'"
    if "ks_stage k = Some st" "stage_launch ar rd c st (k\<lparr>ks_stage := None\<rparr>) = (r, k')" for c st r k'
    using settledD [OF stage_launch_smooth [OF ok [OF that(1)]] that(2)] by blast
  have ended: "r' = Ok () \<and> shift x k k3"
    if "ks_stage k = Some st" "stage_launch ar rd c st (k\<lparr>ks_stage := None\<rparr>) = (r, k2)" "release_stage st k2 = (r', k3)"
    for c st r k2 and r' :: "('z, unit) outcome" and k3
    using commit_release [OF inv that(1) _ that(3)] launched [OF that(1,2)] by blast
  show ?thesis unfolding stage_commit_def Let_def
    by (intro settle) (use shift_refl [OF inv, of x] in \<open>auto dest: launched idle ended\<close>)
qed

lemma stage_abort_shift:
  assumes inv: "kernel_inv k"
  shows "settled (\<lambda>r k'. shift x k k') (stage_abort caller generation k)"
  unfolding stage_abort_def
  by (intro settle) (use shift_refl [OF inv, of x] in \<open>auto dest: clear_chain [OF inv]\<close>)

lemma staging_shift:
  assumes inv: "kernel_inv k"
  shows "settled (\<lambda>r k'. shift x k k') (staging_operation ar rd caller w k)"
  unfolding staging_operation_def
  by (intro settle stage_begin_shift [OF inv] stage_copy_shift [OF inv] stage_commit_shift [OF inv] stage_abort_shift [OF inv])
    (use shift_refl [OF inv, of x] in simp_all)

end
