(* ===== verification/Control_Safety.thy ===== *)
theory Control_Safety
  imports Staging_Safety
begin

text \<open>
  The control calls of the supervisor (\<open>native/control.rs\<close>): whatever words it sends, every operation keeps the
  invariant, leaves the running process as it is, and does not panic.
\<close>

section \<open>Single operations\<close>

definition runs_only :: "pid \<Rightarrow> kstate \<Rightarrow> bool" where
  "runs_only x k \<longleftrightarrow> (\<forall>i r. i < capacity \<longrightarrow> pt_slots (ks_table k) ! i = Some r \<longrightarrow> pr_state r = Running \<longrightarrow> pr_pid r = x)"

lemma runs_only_idle: "runs_only x k \<Longrightarrow> pid \<noteq> x \<Longrightarrow> idle_pid pid k"
  unfolding runs_only_def idle_pid_def by blast

lemma mgr_owned_Ok: "mgr_owned k n = Ok p \<Longrightarrow> p = n \<and> (\<exists>s. mgr_process k n = Ok s)"
  by (auto simp: mgr_owned_def and_then_Ok_iff split: if_splits)

lemma mgr_owned_not_Panic: "kernel_ok B k \<Longrightarrow> mgr_owned k n \<noteq> Panic"
  using mgr_process_not_Panic by (auto simp: mgr_owned_def and_then_Panic_iff)

lemma try_u8_not_Panic: "try_u8 v \<noteq> Panic"
  by (simp add: try_u8_def)

lemma mgr_state_not_Panic: "mgr_state k pid \<noteq> Panic"
  by (simp add: mgr_state_def life_state_not_Panic)

lemma control_spawn_smooth:
  assumes ok: "kernel_ok B k"
  shows "settled (\<lambda>r k'. smooth x B k k') (control_spawn ar program k)"
proof (cases "program \<in> {1, 2, 3, 4}")
  case False
  then show ?thesis using smooth_refl [OF ok] by (simp add: control_spawn_def settled_def)
next
  case True
  obtain r1 k1 where l: "catalog_launch ar program k = (r1, k1)" "r1 \<noteq> Panic" "smooth x B k k1"
    "\<And>pid. r1 = Ok pid \<Longrightarrow> newborn pid k1" using settledE [OF catalog_launch_smooth [OF ok, of x ar program]] by metis
  show ?thesis
  proof (cases r1)
    case (Ok pid)
    obtain r2 t where h: "life_hold (ks_table k1) pid = (r2, t)" by fastforce
    obtain r3 k3 where g: "register_child pid (ks_supervisor k1) program (k1\<lparr>ks_table := t\<rparr>) = (r3 :: (rt_error, unit) outcome, k3)"
      by fastforce
    note H = hold_register [OF ok l(3) l(4) [OF Ok] h g]
    then show ?thesis using l(1) Ok h g True by (simp add: control_spawn_def settled_def Let_def)
  qed (use l True in \<open>simp_all add: control_spawn_def settled_def\<close>)
qed

lemma control_start_smooth:
  assumes ok: "kernel_ok B k"
  shows "settled (\<lambda>r k'. smooth x B k k') (control_start w k)"
proof (cases "mgr_owned k (w ! 1)")
  case Panic
  then show ?thesis using mgr_owned_not_Panic [OF ok] by simp
next
  case (Err e)
  then show ?thesis using smooth_refl [OF ok] by (simp add: control_start_def settled_def)
next
  case (Ok p)
  then obtain s where p: "p = w ! 1" "mgr_process k (w ! 1) = Ok s" using mgr_owned_Ok by blast
  obtain i r where i: "i < capacity" "pt_slots (ks_table k) ! i = Some r" "pr_pid r = w ! 1" "ks_processes k ! i = Some s" "proc_ok r s"
    using mgr_process_Ok [OF ok p(2)] by blast
  note P = slot_of_pid [OF kernel_okD(1) [OF ok] i(1,2), unfolded i(3)]
  show ?thesis
  proof (cases "pr_state r = Dormant")
    case False
    then show ?thesis using Ok p(1) P(2) smooth_refl [OF ok] by (simp add: control_start_def mgr_state_def settled_def)
  next
    case True
    let ?s = "s\<lparr>ps_frame := frame_set_arguments [w ! 2, w ! 3, w ! 4] (ps_frame s)\<rparr>"
    let ?k = "k\<lparr>ks_processes := (ks_processes k)[i := Some ?s], ks_table := set_state (ks_table k) i Ready\<rparr>"
    have boot: "mgr_bootstrap (w ! 1) [w ! 2, w ! 3, w ! 4] k = (Ok (), k\<lparr>ks_processes := (ks_processes k)[i := Some ?s]\<rparr>)"
      using P True i(4,5) by (simp add: mgr_bootstrap_def mgr_live_def is_exited_def set_process_def proc_ok_def)
    have start: "life_start (ks_table k) (w ! 1) = (Ok (), set_state (ks_table k) i Ready)" using P(1) i(2) True by (simp add: life_start_def)
    have "smooth x B k ?k"
      by (rule slot_changed(2) [OF ok i(1,2,4), of ?s Ready])
        (use i(5) True in \<open>simp_all add: proc_ok_def is_exited_def frame_set_arguments_def frame_valid_user_def\<close>)
    then show ?thesis using Ok p(1) P(2) True boot start by (simp add: control_start_def mgr_state_def settled_def)
  qed
qed

lemma control_end_smooth:
  assumes ok: "kernel_ok B k" and run: "runs_only (ks_supervisor k) k"
  shows "settled (\<lambda>r k'. smooth x B k k') (control_end rd killing n k)"
proof -
  have killed: "r \<noteq> Panic \<and> smooth x B k k'" if "p \<noteq> ks_supervisor k" "mgr_kill rd p k = (r, k')" for p r k'
  proof -
    note F = settledD [OF mgr_finish_ok [OF ok, of x p rd ExitKilled] that(2) [unfolded mgr_kill_def]]
    have "idle_pid p k" by (rule runs_only_idle [OF run that(1)])
    moreover have "idle_pid p k'" using F calculation by (cases r) auto
    ultimately have "calm k k'" using F calm_but_idle by blast
    then show ?thesis using F by (simp add: smooth_alt)
  qed
  have reaped: "r \<noteq> Panic \<and> smooth x B k k'" if "mgr_wait p k = (r, k')" for p r k'
    using settledD [OF mgr_wait_smooth [OF ok] that] by blast
  show ?thesis unfolding control_end_def
    by (intro settle) (use smooth_refl [OF ok, of x] in \<open>auto dest: killed reaped simp: mgr_owned_not_Panic [OF ok]\<close>)
qed

lemma control_move_smooth:
  assumes ok: "kernel_ok B k"
  shows "settled (\<lambda>r k'. smooth x B k k') (control_move rd w k)"
proof -
  have moved: "r \<noteq> Panic \<and> smooth x B k k'" if "mgr_transfer rd a h b rights k = (r, k')" for a h b rights r k'
    using settledD [OF mgr_transfer_smooth [OF ok] that] by blast
  show ?thesis unfolding control_move_def
    by (intro settle) (use smooth_refl [OF ok, of x] in \<open>auto dest: moved simp: mgr_owned_not_Panic [OF ok] try_u8_not_Panic\<close>)
qed

lemma control_close_smooth:
  assumes ok: "kernel_ok B k"
  shows "settled (\<lambda>r k'. smooth x B k k') (control_close rd w k)"
proof -
  note K = kernel_okD [OF ok]
  have closed: "r \<noteq> Panic \<and> smooth x B k (k\<lparr>ks_broker := b\<rparr>)" if "broker_close (ks_broker k) p h = (r, b)" for p h r b
  proof -
    note C = close_kept [OF K(4) that]
    have "smooth x B k (k\<lparr>ks_broker := b\<rparr>)"
      by (rule brokers_changed [OF ok _ held_kept [OF K(5), of p] K(6)]) (use C(1) in \<open>simp_all add: ipc_kept_def\<close>)
    then show ?thesis using C(2) by blast
  qed
  show ?thesis unfolding control_close_def Let_def
    by (intro settle) (use smooth_refl [OF ok, of x] in \<open>auto dest: closed refresh_chain [OF ok] simp: mgr_owned_not_Panic [OF ok]\<close>)
qed

lemma control_console_smooth:
  assumes ok: "kernel_ok B k"
  shows "settled (\<lambda>r k'. smooth x B k k') (control_console rd n k)"
proof -
  have "smooth x B k (k\<lparr>ks_console := c\<rparr>)" for c
    by (rule brokers_changed [OF ok kernel_okD(4-6) [OF ok]]) simp_all
  note fresh = refresh_chain [OF ok this]
  show ?thesis unfolding control_console_def
    by (intro settle)
      (use smooth_refl [OF ok, of x] in \<open>auto dest: fresh simp: mgr_owned_not_Panic [OF ok] mgr_live_not_Panic and_then_Panic_iff split: if_splits\<close>)
qed

lemma control_grant_smooth:
  assumes ok: "kernel_ok B k"
  shows "settled (\<lambda>r k'. smooth x B k k') (control_grant w k)"
proof -
  have granted: "r \<noteq> Panic \<and> smooth x B k k'" if "mgr_grant_block p g k = (r, k')" for p g r k'
    using settledD [OF mgr_grant_smooth [OF ok] that] by blast
  show ?thesis unfolding control_grant_def
    by (intro settle) (use smooth_refl [OF ok, of x] in \<open>auto dest: granted simp: mgr_owned_not_Panic [OF ok] try_u8_not_Panic\<close>)
qed

lemma control_connect_smooth:
  assumes ok: "kernel_ok B k"
  shows "settled (\<lambda>r k'. smooth x B k k') (control_connect w k)"
proof -
  have connected: "r \<noteq> Panic \<and> smooth x B k k'" if "mgr_connect a b k = (r, k')" for a b r k'
    using settledD [OF mgr_connect_smooth [OF ok] that] by blast
  show ?thesis unfolding control_connect_def
    by (intro settle) (use smooth_refl [OF ok, of x] in \<open>auto dest: connected simp: mgr_owned_not_Panic [OF ok]\<close>)
qed

lemma control_hold_smooth:
  assumes ok: "kernel_ok B k"
  shows "settled (\<lambda>r k'. smooth x B k k') (control_hold w k)"
proof -
  have "smooth x B k (k\<lparr>ks_block := (ks_block k)\<lparr>sv_observation := obs\<rparr>\<rparr>)" for obs
    by (rule brokers_changed [OF ok kernel_okD(4,5) [OF ok], of "(ks_block k)\<lparr>sv_observation := obs\<rparr>"])
      (use kernel_okD(6) [OF ok] in \<open>simp_all add: service_ok_def\<close>)
  then show ?thesis unfolding control_hold_def
    by (intro settle) (use smooth_refl [OF ok, of x] in \<open>auto simp: mgr_owned_not_Panic [OF ok] mgr_live_not_Panic and_then_Panic_iff\<close>)
qed

lemma control_process_not_Panic: "kernel_ok B k \<Longrightarrow> control_process n k \<noteq> Panic"
  using mgr_process_not_Panic mgr_state_not_Panic
  by (auto simp: control_process_def and_then_Panic_iff Let_def split: option.split)

section \<open>The dispatcher of the control calls\<close>

lemma validate_control_not_Panic: "validate_control w \<noteq> Panic"
  by (auto simp: validate_control_def split: option.split)

lemma control_operation_shift:
  assumes inv: "kernel_inv k" and run: "runs_only (ks_supervisor k) k"
  shows "settled (\<lambda>r k'. shift x k k') (control_operation ar now rd w k)"
proof -
  note ok = kernel_invD(1) [OF inv] and sh = settled_shift [OF inv]
  note ops = control_spawn_smooth [OF ok, THEN sh] control_start_smooth [OF ok, THEN sh] control_connect_smooth [OF ok, THEN sh]
    control_grant_smooth [OF ok, THEN sh] control_move_smooth [OF ok, THEN sh] control_close_smooth [OF ok, THEN sh]
    control_console_smooth [OF ok, THEN sh] control_end_smooth [OF ok run, THEN sh] control_hold_smooth [OF ok, THEN sh]
    staging_shift [OF inv]
  have stop: "shift x k (k'\<lparr>ks_shutdown := True\<rparr>)" if "shift x k k'" for k'
    using that by (simp add: shift_def step_ok_fields)
  show ?thesis unfolding control_operation_def
    by (intro settle ops) (use shift_refl [OF inv, of x] in
      \<open>auto dest: clear_chain [OF inv] intro: stop simp: validate_control_not_Panic control_process_not_Panic [OF ok] service_geometry_not_Panic\<close>)
qed

end
