(* ===== verification/Call_Safety.thy ===== *)
theory Call_Safety
  imports Control_Safety
begin

text \<open>
  What the running process can do to the kernel with one trap: its own memory and record change, the brokers change
  within its authority, and a control call of the supervisor is one of the operations above. Nothing else changes.
\<close>

section \<open>Steps of the running process\<close>

lemma own_step:
  assumes ok: "kernel_ok B k" and i: "i < capacity" "pt_slots (ks_table k) ! i = Some r" "ks_processes k ! i = Some s"
    and s': "ps_space s' = ps_space s" "heap_inv (ps_heap s')" "heap_match q (as_root (ps_space s)) (ps_heap s')" "proc_ok r s'"
    and step: "local_step (ks_memory k) (as_root (ps_space s)) q"
    and b: "broker_inv b" "held_by_live (ks_table k) (handles b)" and v: "service_ok (ks_table k) v"
    and k': "ks_table k' = ks_table k" "ks_processes k' = (ks_processes k)[i := Some s']" "ks_memory k' = q" "ks_broker k' = b" "ks_block k' = v"
    and rest: "ks_root k' = ks_root k" "ks_dma k' = ks_dma k" "ks_supervisor k' = ks_supervisor k" "ks_stage k' = ks_stage k"
  shows "step_ok (pr_pid r) B k B k'" and "stage_kept B k k'"
proof -
  note K = kernel_okD [OF ok]
  let ?T = "tenants (ks_processes k)"
  have ti: "i < length ?T" "?T ! i = Some (ps_space s, ps_heap s)" using slot_tenant [of i "ks_processes k" s] K(7) i(1,3) by simp_all
  note L = mem_local [OF K(3) ti, simplified, OF step s'(2,3)]
  have T: "tenants (ks_processes k') = ?T[i := Some (ps_space s, ps_heap s')]" unfolding k'(2) tenants_update using s'(1) by simp
  have "list_all2 (rel_option proc_ok) ((pt_slots (ks_table k))[i := Some r]) ((ks_processes k)[i := Some s'])"
    using K(2) s'(4) by (intro list_all2_update_cong) simp_all
  moreover have "(pt_slots (ks_table k))[i := Some r] = pt_slots (ks_table k)" using i(2) by (metis list_update_id)
  ultimately have "slots_match (ks_table k') (ks_processes k')" unfolding k'(1,2) by simp
  then have ok': "kernel_ok B k'" unfolding kernel_ok_def T rest k'(3-5) using K(1) L(1) b v k'(1) by simp
  have "others_kept (pr_pid r) k k'"
    unfolding others_kept_def
  proof (intro allI impI)
    fix j r1 r2 s1 s2
    assume j: "j < capacity" "pt_slots (ks_table k) ! j = Some r1" "pr_pid r1 \<noteq> pr_pid r" "ks_processes k ! j = Some s1" "ks_processes k' ! j = Some s2"
    then have ne: "j \<noteq> i" using i(2) by auto
    then have "s2 = s1" using j(1,4,5) K(7) unfolding k'(2) by simp
    moreover have "as_root (ps_space s1) \<noteq> as_root (ps_space s)" using root_unique [OF ok j(1) i(1) j(4) i(3)] ne by blast
    ultimately show "ps_space s2 = ps_space s1 \<and> same_view (ks_memory k) (as_root (ps_space s1)) (ks_memory k')"
      using L(2) [OF process_memory(7) [OF ok j(1,4)]] k'(3) by simp
  qed
  then show "step_ok (pr_pid r) B k B k'" unfolding step_ok_def unowned_def T k'(3) using ok' rest L(3) k'(1) by simp
  show "stage_kept B k k'" unfolding stage_kept_def using L(4) rest(4) k'(3) by simp
qed

text \<open>The process in \<open>slot\<close> is \<open>pid\<close> and it is running.\<close>

definition running_at :: "nat \<Rightarrow> pid \<Rightarrow> kstate \<Rightarrow> bool" where
  "running_at slot pid k \<longleftrightarrow> slot < capacity \<and> pt_slots (ks_table k) ! slot = Some \<lparr>pr_pid = pid, pr_state = Running\<rparr>"

lemma running_only:
  assumes "kernel_ok B k" and "running_at slot pid k"
  shows "runs_only pid k"
  unfolding runs_only_def
proof (intro allI impI)
  note K = kernel_okD [OF assms(1)]
  fix i r
  assume i: "i < capacity" "pt_slots (ks_table k) ! i = Some r" "pr_state r = Running"
  have "r \<in> set (flatten (pt_slots (ks_table k)))" "\<lparr>pr_pid = pid, pr_state = Running\<rparr> \<in> set (flatten (pt_slots (ks_table k)))"
    using i assms(2) K(8) unfolding running_at_def in_flatten_iff by auto
  then show "pr_pid r = pid" using life_invD(6) [OF K(1)] i(3) by fastforce
qed

lemma calm_running: "calm k k' \<Longrightarrow> running_at slot pid k \<Longrightarrow> running_at slot pid k' \<and> ks_processes k' ! slot = ks_processes k ! slot"
  unfolding running_at_def using calmD by fastforce

text \<open>One step of the turn of \<open>pid\<close>: it keeps running in its slot.\<close>

definition turn_ok :: "nat \<Rightarrow> pid \<Rightarrow> kstate \<Rightarrow> kstate \<Rightarrow> bool" where
  "turn_ok slot pid k k' \<longleftrightarrow> step_ok pid (stage_frames (ks_stage k)) k (stage_frames (ks_stage k')) k' \<and> stage_ok (ks_stage k') \<and>
     running_at slot pid k'"

lemma turn_okD:
  assumes "turn_ok slot pid k k'"
  shows "kernel_inv k'" and "running_at slot pid k'" and "step_ok pid (stage_frames (ks_stage k)) k (stage_frames (ks_stage k')) k'"
  using assms step_okD(1) unfolding turn_ok_def kernel_inv_def by blast+

lemma turn_ok_refl: "kernel_inv k \<Longrightarrow> running_at slot pid k \<Longrightarrow> turn_ok slot pid k k"
  unfolding turn_ok_def using kernel_invD step_ok_refl by blast

lemma turn_ok_trans: "kernel_inv k \<Longrightarrow> turn_ok slot pid k k' \<Longrightarrow> turn_ok slot pid k' k'' \<Longrightarrow> turn_ok slot pid k k''"
  unfolding turn_ok_def using step_ok_trans [OF kernel_invD(1)] by blast

lemma shift_turn: "shift pid k k' \<Longrightarrow> running_at slot pid k \<Longrightarrow> turn_ok slot pid k k'"
  unfolding turn_ok_def shift_def using calm_running by blast

text \<open>A step on the record and memory of the running process.\<close>

lemma own_turn:
  assumes inv: "kernel_inv k" and run: "running_at slot pid k" and s: "ks_processes k ! slot = Some s"
    and s': "ps_space s' = ps_space s" "heap_inv (ps_heap s')" "heap_match q (as_root (ps_space s)) (ps_heap s')"
      "length (fm_registers (ps_frame s')) = 15" "ps_pending s' = None"
    and step: "local_step (ks_memory k) (as_root (ps_space s)) q"
    and b: "broker_inv b" "held_by_live (ks_table k) (handles b)" and v: "service_ok (ks_table k) v"
    and k': "ks_table k' = ks_table k" "ks_processes k' = (ks_processes k)[slot := Some s']" "ks_memory k' = q" "ks_broker k' = b" "ks_block k' = v"
    and rest: "ks_root k' = ks_root k" "ks_dma k' = ks_dma k" "ks_supervisor k' = ks_supervisor k" "ks_stage k' = ks_stage k"
  shows "turn_ok slot pid k k'"
proof -
  let ?r = "\<lparr>pr_pid = pid, pr_state = Running\<rparr>"
  have r: "slot < capacity" "pt_slots (ks_table k) ! slot = Some ?r" using run by (simp_all add: running_at_def)
  have "proc_ok ?r s'" using s'(4,5) by (simp add: proc_ok_def)
  note O = own_step [OF kernel_invD(1) [OF inv] r s s'(1-3) this step b v k' rest, simplified]
  show ?thesis unfolding turn_ok_def running_at_def rest(4) k'(1) using O(1) kernel_invD(2) [OF inv] r by simp
qed

lemma running_process:
  assumes inv: "kernel_inv k" and run: "running_at slot pid k"
  obtains s where "ks_processes k ! slot = Some s" "length (fm_registers (ps_frame s)) = 15" "ps_pending s = None"
    "mgr_process k pid = Ok s"
proof -
  let ?r = "\<lparr>pr_pid = pid, pr_state = Running\<rparr>"
  have r: "slot < capacity" "pt_slots (ks_table k) ! slot = Some ?r" using run by (simp_all add: running_at_def)
  obtain s where s: "ks_processes k ! slot = Some s" "proc_ok ?r s" using slot_process [OF kernel_invD(1) [OF inv] r] by blast
  then show ?thesis using that mgr_process_at [OF kernel_invD(1) [OF inv] r s(1)] by (simp add: proc_ok_def)
qed

section \<open>The control call\<close>

text \<open>Bytes written to pages of the running process.\<close>

lemma own_memory:
  assumes inv: "kernel_inv k" and run: "running_at slot pid k" and s: "ks_processes k ! slot = Some s"
    and w: "own_write (ks_memory k) (as_root (ps_space s)) q"
  shows "turn_ok slot pid k (k\<lparr>ks_memory := q\<rparr>)"
proof -
  note K = kernel_okD [OF kernel_invD(1) [OF inv]]
  have slot: "slot < capacity" using run by (simp add: running_at_def)
  note M = process_memory [OF kernel_invD(1) [OF inv] slot s]
  have rec: "length (fm_registers (ps_frame s)) = 15" "ps_pending s = None" using running_process [OF inv run] s by (metis option.inject)+
  have "heap_match q (as_root (ps_space s)) (ps_heap s)" using own_write_match [OF w] M(6) by simp
  moreover have "ks_processes k = (ks_processes k)[slot := Some s]" using s by (metis list_update_id)
  ultimately show ?thesis
    by (intro own_turn [OF inv run s refl M(5) _ rec _ K(4,5,6)]) (use w in \<open>simp_all add: own_write_def\<close>)
qed

lemma control_reply_turn:
  assumes inv: "kernel_inv k" and run: "running_at slot pid k"
  shows "settled (\<lambda>r k'. turn_ok slot pid k k') (control_reply pid address out k)"
proof -
  obtain s where s: "ks_processes k ! slot = Some s" "mgr_process k pid = Ok s" using running_process [OF inv run] by metis
  have slot: "slot < capacity" using run by (simp add: running_at_def)
  note M = process_memory [OF kernel_invD(1) [OF inv] slot s(1)]
  have written: "r \<noteq> Panic \<and> turn_ok slot pid k (k\<lparr>ks_memory := q\<rparr>)" if "copy_to_user (ks_root k) (ps_space s) a data (ks_memory k) = (r, q)" for a data r q
    using to_user_own [OF M(1,2) that] own_memory [OF inv run s(1)] by blast
  show ?thesis unfolding control_reply_def using s(2)
    by (intro settle) (auto dest: written)
qed

lemma control_request_Ok: "control_request pid k = Ok w \<Longrightarrow> pid = ks_supervisor k"
  by (simp add: control_request_def split: if_splits)

lemma control_request_not_Panic:
  assumes ok: "kernel_ok B k"
  shows "control_request pid k \<noteq> Panic"
proof -
  have quiet: "validate_buffer (ks_root k) (ks_memory k) (ps_space s) a n w \<noteq> Panic"
    "copy_from_user (ks_root k) (ks_memory k) (ps_space s) a n \<noteq> Panic" if s: "mgr_process k pid = Ok s" for s a n w
  proof -
    obtain i where i: "i < capacity" "ks_processes k ! i = Some s" using mgr_process_Ok [OF ok s] by blast
    then show "validate_buffer (ks_root k) (ks_memory k) (ps_space s) a n w \<noteq> Panic" "copy_from_user (ks_root k) (ks_memory k) (ps_space s) a n \<noteq> Panic"
      using validate_not_Panic from_user_not_Panic process_memory(1) [OF ok i] by blast+
  qed
  then show ?thesis
    using mgr_process_not_Panic [OF ok] by (auto simp: control_request_def and_then_Panic_iff Let_def words_decode_def)
qed

lemma mgr_control_turn:
  assumes inv: "kernel_inv k" and run: "running_at slot pid k"
  shows "settled (\<lambda>r k'. (\<exists>v. r = Ok (Return v)) \<and> turn_ok slot pid k k') (mgr_control ar now rd pid address k)"
proof (cases "control_request pid k")
  case Panic
  then show ?thesis using control_request_not_Panic [OF kernel_invD(1) [OF inv]] by simp
next
  case (Err e)
  then show ?thesis using turn_ok_refl [OF inv run] by (simp add: mgr_control_def settled_def)
next
  case (Ok w)
  let ?m = "case control_operation ar now rd w k of (r, k) \<Rightarrow> or_return r k (\<lambda>out. control_reply pid address out k)"
  have only: "runs_only (ks_supervisor k) k" using running_only [OF kernel_invD(1) [OF inv] run] control_request_Ok [OF Ok] by simp
  have "settled (\<lambda>r k'. turn_ok slot pid k k') ?m"
  proof (rule settled_call [OF control_operation_shift [OF inv only, of pid]])
    fix r1 :: "(rt_error, u64 list) outcome" and k1
    assume k1: "r1 \<noteq> Panic" "shift pid k k1"
    note t1 = shift_turn [OF k1(2) run]
    show "settled (\<lambda>r k'. turn_ok slot pid k k') (or_return r1 k1 (\<lambda>out. control_reply pid address out k1))"
    proof (rule settled_return [OF k1(1)])
      show "turn_ok slot pid k k1" by (rule t1)
      show "settled (\<lambda>r k'. turn_ok slot pid k k') (control_reply pid address out k1)" for out
        using control_reply_turn [OF turn_okD(1,2) [OF t1]] by (rule settled_mono) (rule turn_ok_trans [OF inv t1])
    qed
  qed
  then obtain r k1 where m: "?m = (r, k1)" "r \<noteq> Panic" "turn_ok slot pid k k1" by (rule settledE)
  have clear: "r' = Ok () \<and> turn_ok slot pid k k2" if "clear_image_stage k1 = (r', k2)" for k2 and r' :: "(process_error, unit) outcome"
  proof -
    note C = clear_chain [OF turn_okD(1) [OF m(3)] shift_refl [OF turn_okD(1) [OF m(3)], of pid] that]
    then have "turn_ok slot pid k1 k2" using shift_turn [OF _ turn_okD(2) [OF m(3)]] by blast
    then show ?thesis using C turn_ok_trans [OF inv m(3)] by blast
  qed
  show ?thesis
  proof (cases r)
    case Panic
    then show ?thesis using m(2) by simp
  next
    case (Err e)
    obtain r' k2 where c: "clear_image_stage k1 = (r' :: (process_error, unit) outcome, k2)" by fastforce
    show ?thesis using m(1,3) Err Ok c clear [OF c] by (auto simp: mgr_control_def settled_def)
  next
    case out: (Ok v)
    then show ?thesis using m(1,3) Ok by (simp add: mgr_control_def settled_def)
  qed
qed

section \<open>The other calls\<close>

lemma readiness_settles:
  assumes "broker_inv b"
  shows "\<exists>v. wait_readiness b owner hs deadline now = Ok v"
proof -
  have "wait_scan b owner hs ready \<noteq> Err e" for hs ready e
    by (induction hs arbitrary: ready) (auto split: outcome.split)
  then show ?thesis using wait_scan_not_Panic [OF assms]
    by (cases "wait_scan b owner hs False") (auto simp: wait_readiness_def)
qed

lemma native_dispatch_kept:
  assumes br: "broker_inv b" and sp: "space_inv p (as_root (ps_space s))" "tight p (as_root (ps_space s))"
    and run: "native_dispatch active rd num s b owner console p = (r, q)"
  shows "(\<exists>a. r = Ok a) \<and> own_write p (as_root (ps_space s)) q"
proof -
  note keep = own_write_refl [OF sp]
  have wait: "\<exists>a. wait_dispatch active rd s b owner p = Ok a"
  proof -
    have "\<exists>a. and_then (wait_readiness b owner hs d now) (\<lambda>v. Ok (f v)) = Ok a" for hs d now and f :: "u64 option \<Rightarrow> action"
      using readiness_settles [OF br, of owner hs d now] by auto
    then show ?thesis
      using from_user_not_Panic [OF sp(1)] by (cases "copy_from_user active p (ps_space s) (unat (frame_arguments (ps_frame s) ! 0))
        (unat (frame_arguments (ps_frame s) ! 1) * 8)") (simp_all add: wait_dispatch_def Let_def)
  qed
  have "settled (\<lambda>r q. own_write p (as_root (ps_space s)) q) (console_call active rd num s owner console p)"
    unfolding console_call_def Let_def
    by (intro settle) (use keep in \<open>auto dest: to_user_own [OF sp] simp: from_user_not_Panic [OF sp(1)] validate_not_Panic [OF sp(1)]\<close>)
  then obtain r1 q1 where c: "console_call active rd num s owner console p = (r1, q1)" "r1 \<noteq> Panic" "own_write p (as_root (ps_space s)) q1"
    by (rule settledE)
  then have "\<exists>a. console_dispatch active rd num s owner console p = (Ok a, q1)" by (cases r1) (simp_all add: console_dispatch_def)
  then show ?thesis using run wait keep c(3) by (cases "num = 19") (auto simp: native_dispatch_def split: if_splits)
qed

text \<open>A system call of the running process, by what it keeps.\<close>

lemma syscall_turn:
  assumes inv: "kernel_inv k" and run: "running_at slot pid k" and s: "ks_processes k ! slot = Some s"
  shows "settled (\<lambda>r c. (\<exists>a. r = Ok a) \<and> turn_ok slot pid k (set_process slot (Some (cs_process c))
      (k\<lparr>ks_broker := cs_broker c, ks_block := cs_service c, ks_memory := cs_memory c\<rparr>)))
    (syscall_dispatch (ks_root k) pid \<lparr>cs_process = s, cs_broker = ks_broker k, cs_service = ks_block k, cs_memory = ks_memory k\<rparr>)"
proof -
  note K = kernel_okD [OF kernel_invD(1) [OF inv]]
  have slot: "slot < capacity" using run by (simp add: running_at_def)
  note M = process_memory [OF kernel_invD(1) [OF inv] slot s]
  have rec: "length (fm_registers (ps_frame s)) = 15" "ps_pending s = None" using running_process [OF inv run] s by (metis option.inject)+
  let ?c = "\<lparr>cs_process = s, cs_broker = ks_broker k, cs_service = ks_block k, cs_memory = ks_memory k\<rparr>"
  have kept: "turn_ok slot pid k (set_process slot (Some (cs_process c)) (k\<lparr>ks_broker := cs_broker c, ks_block := cs_service c, ks_memory := cs_memory c\<rparr>))"
    if c: "call_kept pid ?c c" for c
  proof -
    have C: "same_control s (cs_process c)" "ipc_kept pid (ks_broker k) (cs_broker c)" "service_kept pid (ks_block k) (cs_service c)"
      "local_step (ks_memory k) (as_root (ps_space s)) (cs_memory c)" "heap_inv (ps_heap (cs_process c))"
      "heap_match (cs_memory c) (as_root (ps_space s)) (ps_heap (cs_process c))" using c by (simp_all add: call_kept_def)
    have b: "broker_inv (cs_broker c)" "held_by_live (ks_table k) (handles (cs_broker c))"
      using C(2) held_kept [OF K(5)] by (auto simp: ipc_kept_def)
    have v: "service_ok (ks_table k) (cs_service c)" by (rule service_kept_ok [OF K(6) C(3)])
    show ?thesis
      by (rule own_turn [OF inv run s _ C(5,6) _ _ C(4) b v]) (use C(1) rec in \<open>simp_all add: same_control_def set_process_def\<close>)
  qed
  have "settled (\<lambda>r c. (\<exists>a. r = Ok a) \<and> call_kept pid ?c c) (syscall_dispatch (ks_root k) pid ?c)"
    by (rule syscall_kept) (use K(4) service_okD(1) [OF K(6)] M in simp_all)
  then show ?thesis by (rule settled_mono) (use kept in blast)
qed

lemma trap_action_turn:
  assumes inv: "kernel_inv k" and run: "running_at slot pid k" and s: "ks_processes k ! slot = Some s"
  shows "settled (\<lambda>r k'. (\<exists>a. r = Ok a) \<and> turn_ok slot pid k k') (trap_action ar e slot pid address s k)"
proof -
  note K = kernel_okD [OF kernel_invD(1) [OF inv]]
  have slot: "slot < capacity" using run by (simp add: running_at_def)
  note M = process_memory [OF kernel_invD(1) [OF inv] slot s]
  have rec: "length (fm_registers (ps_frame s)) = 15" "ps_pending s = None" using running_process [OF inv run] s by (metis option.inject)+
  have here: "turn_ok slot pid k k" by (rule turn_ok_refl [OF inv run])
  have tick: "turn_ok slot pid k (set_process slot (Some (s\<lparr>ps_preemptions := n\<rparr>)) k)" for n
    by (rule own_turn [OF inv run s _ _ _ _ _ _ K(4,5,6), where q = "ks_memory k"])
      (use M rec local_step_refl [OF M(1,2)] in \<open>simp_all add: set_process_def\<close>)
  have control: "(\<exists>v. r = Ok (Return v)) \<and> turn_ok slot pid k k'" if "mgr_control ar now rd pid a k = (r, k')" for now rd a r k'
    using settledD [OF mgr_control_turn [OF inv run] that] by blast
  have native: "(\<exists>a. r = Ok a) \<and> turn_ok slot pid k (k\<lparr>ks_memory := q\<rparr>)"
    if "native_dispatch (ks_root k) rd num s (ks_broker k) pid (ks_console k) (ks_memory k) = (r, q)" for rd num r q
    using native_dispatch_kept [OF K(4) M(1,2) that] own_memory [OF inv run s] by blast
  have call: "(\<exists>a. r = Ok a) \<and> turn_ok slot pid k (set_process slot (Some (cs_process c))
      (k\<lparr>ks_broker := cs_broker c, ks_block := cs_service c, ks_memory := cs_memory c\<rparr>))"
    if "syscall_dispatch (ks_root k) pid \<lparr>cs_process = s, cs_broker = ks_broker k, cs_service = ks_block k, cs_memory = ks_memory k\<rparr> = (r, c)" for r c
    using settledD [OF syscall_turn [OF inv run s] that] by blast
  show ?thesis unfolding trap_action_def Let_def
    by (intro settle) (use here tick in \<open>auto dest: control native call simp: sum_action_def and_then_Panic_iff\<close>)
qed

end
