(* ===== verification/Service_Safety.thy ===== *)
theory Service_Safety
  imports Call_Safety
begin

text \<open>
  The tick of the block service: whatever the device answers, the service finishes only the active request, keeps its
  invariant and does not panic; the driver touches no memory but its own.
\<close>

section \<open>Requests\<close>

lemma finish_idle:
  assumes inv: "block_inv cap b" and len: "length data = sector_bytes" and a: "block_active b = Some n" and st: "st \<noteq> StCancelled"
    and f: "block_finish b n st data = (res, b')"
  shows "res = Ok ()" and "block_inv cap b'" and "grants b' = grants b" and "block_active b' = None"
proof -
  show "res = Ok ()" "block_inv cap b'" using block_finish_inv [OF inv len a st f] by simp_all
  obtain r where r: "r \<in> set (flatten (records b))" "req_phase r = Active" "rec_id r = n"
    using a by (auto simp: block_active_def find_Some_iff in_set_conv_nth)
  then obtain i where i: "i < length (records b)" "records b ! i = Some r" by (auto simp: in_flatten_iff)
  let ?v = "if rec_abandoned r then None else Some (finished r st data)"
  have b': "b' = b\<lparr>records := (records b)[i := ?v]\<rparr>" using block_finish_eq [OF inv i r(2), of st data] r(3) f by simp
  then show "grants b' = grants b" by simp
  have "req_phase y \<noteq> Active" if y: "y \<in> set (flatten (records b'))" for y
  proof
    assume act: "req_phase y = Active"
    have "y \<in> set (flatten ((records b)[i := ?v]))" using y b' by simp
    then have "?v = Some y \<or> (\<exists>j<length (records b). j \<noteq> i \<and> records b ! j = Some y)" by (simp only: in_flatten_update [OF i(1)])
    moreover have "?v \<noteq> Some y" using act by auto
    ultimately obtain j where j: "j < length (records b)" "j \<noteq> i" "records b ! j = Some y" by blast
    then have "y \<in> set (flatten (records b))" unfolding in_flatten_iff by blast
    then have "y = r" using block_invD(9) [OF inv _ r(1) act r(2)] by blast
    then show False using slot_keys_distinctD [OF block_invD(5) [OF inv] j(1) i(1) j(3) i(2)] j(2) by simp
  qed
  then show "block_active b' = None" unfolding active_none by blast
qed

lemma start_active:
  assumes inv: "block_inv cap b" and s: "block_start b = (x, b')"
  shows "block_inv cap b'" and "grants b' = grants b" and "x = None \<Longrightarrow> b' = b" and "x = Some q \<Longrightarrow> block_active b' = Some (pn_id q)"
proof -
  show inv': "block_inv cap b'" by (rule block_start_inv [OF inv s])
  show "grants b' = grants b" "x = None \<Longrightarrow> b' = b" using s by (cases rule: block_start_cases, simp_all)+
  assume x: "x = Some q"
  from s show "block_active b' = Some (pn_id q)"
  proof (cases rule: block_start_cases)
    case (started i r)
    have "r\<lparr>req_phase := Active\<rparr> \<in> set (flatten (records b'))" using started(2,7) by (auto simp: in_flatten_iff)
    then have "block_active b' = Some (rec_id r)" using block_active_iff [OF inv'] by (fastforce simp: rec_id_def)
    then show ?thesis using started(6) x by simp
  qed (use x in simp)
qed

section \<open>The tick\<close>

definition answers_ok :: "device_answers \<Rightarrow> bool" where
  "answers_ok a \<longleftrightarrow> (case da_poll a of None \<Rightarrow> True | Some (r, data) \<Rightarrow> length data = sector_bytes)"

lemma service_set:
  assumes "service_ok t v" and "block_inv (dev_sectors (sv_geometry v)) b" "grants b = grants (sv_broker v)"
    and "sv_broker v' = b" "sv_geometry v' = sv_geometry v" "block_active b \<noteq> None \<Longrightarrow> sv_device v'"
  shows "service_ok t v'"
  using assms by (simp add: service_ok_def)

lemma recover_ok:
  assumes "service_ok t v" and "sv_device v" and "block_active (sv_broker v) = None" and "service_recover a v = (r, v')"
  shows "r = Ok () \<and> service_ok t v'"
  using assms by (auto simp: service_recover_def service_ok_def)

lemma poll_status_reported: "poll_status r \<noteq> StCancelled"
  by (simp add: poll_status_def split: option.split)

lemma service_poll_ok:
  assumes ok: "service_ok t v" and a: "answers_ok a"
  shows "settled (\<lambda>r v'. (\<exists>b. r = Ok b) \<and> service_ok t v') (service_poll a v)"
proof (cases "block_active (sv_broker v)")
  case None
  then show ?thesis using ok by (auto simp: service_poll_def settled_def)
next
  case (Some n)
  note S = service_okD [OF ok]
  have dev: "sv_device v" using S(3) Some by simp
  obtain w obs where h: "hold_withheld (sv_observation v) (unat n) (unat (da_now a)) = (w, obs)" by fastforce
  let ?v = "v\<lparr>sv_observation := obs\<rparr>"
  have v: "service_ok t ?v" using ok by (simp add: service_ok_def)
  show ?thesis
  proof (cases "w \<or> da_poll a = None")
    case True
    then show ?thesis using Some h v dev by (auto simp: service_poll_def settled_def Let_def)
  next
    case False
    then obtain res data where p: "da_poll a = Some (res, data)" by auto
    have len: "length data = sector_bytes" using a p by (simp add: answers_ok_def)
    obtain r b where f: "block_finish (sv_broker v) n (poll_status res) data = (r, b)" by fastforce
    note F = finish_idle [OF S(1) len Some poll_status_reported f]
    have vb: "service_ok t (?v\<lparr>sv_broker := b\<rparr>)" by (rule service_set [OF ok F(2,3)]) (simp_all add: F(4))
    have rec: "r' = Ok () \<and> service_ok t v'" if "service_recover (da_recover a) (?v\<lparr>sv_broker := b\<rparr>) = (r', v')" for r' v'
      by (rule recover_ok [OF vb _ _ that]) (use dev F(4) in simp_all)
    obtain r' v' where rv: "service_recover (da_recover a) (?v\<lparr>sv_broker := b\<rparr>) = (r', v')" by fastforce
    show ?thesis using Some h False p f F(1) dev vb rec [OF rv] rv by (auto simp: service_poll_def settled_def Let_def)
  qed
qed

lemma service_start_ok:
  assumes ok: "service_ok t v"
  shows "settled (\<lambda>r v'. r = Ok () \<and> service_ok t v') (service_start a v)"
proof -
  note S = service_okD [OF ok]
  obtain x b where s: "block_start (sv_broker v) = (x, b)" by fastforce
  note A = start_active [OF S(1) s]
  show ?thesis
  proof (cases x)
    case None
    then show ?thesis using s A(3) ok by (simp add: service_start_def settled_def)
  next
    case (Some q)
    obtain r u where f: "block_finish b (pn_id q) StUnavailable (replicate sector_bytes 0) = (r, u)" by fastforce
    note F = finish_idle [OF A(1) _ A(4) [OF Some] _ f, simplified]
    have vu: "service_ok t (v\<lparr>sv_reject_next := c, sv_hold_next := d, sv_broker := u\<rparr>)" "service_ok t (v\<lparr>sv_broker := u\<rparr>)" for c d
      by (rule service_set [OF ok F(2)]; use F(3,4) A(2) in simp)+
    have vb: "service_ok t (v\<lparr>sv_reject_next := c, sv_hold_next := d, sv_broker := b, sv_observation := obs\<rparr>)" if "sv_device v" for c d obs
      by (rule service_set [OF ok A(1,2)]) (use that in simp_all)
    have rec: "settled (\<lambda>r v'. r = Ok () \<and> service_ok t v') (service_recover y (v\<lparr>sv_reject_next := c, sv_hold_next := d, sv_broker := u\<rparr>))"
      if "sv_device v" for y c d
      using recover_ok [OF vu(1), of d c y] that F(4) by (auto simp: settled_def prod_eq_iff)
    show ?thesis unfolding service_start_def s Some Let_def f fst_conv snd_conv prod.case option.case
      by (intro settle) (use vu vb F(1) rec in auto)
  qed
qed

lemma service_tick_ok:
  assumes "service_ok t v" and "answers_ok a"
  shows "settled (\<lambda>r v'. r = Ok () \<and> service_ok t v') (service_tick a v)"
proof -
  obtain b v1 where p: "service_poll a v = (Ok b, v1)" "service_ok t v1" using settledE [OF service_poll_ok [OF assms]] by metis
  show ?thesis using p service_start_ok [OF p(2), of a] by (simp add: service_tick_def settled_def)
qed

text \<open>A step that belongs to no process.\<close>

lemma kernel_tick_ok:
  assumes inv: "kernel_inv k" and d: "driver_ok (en_driver e)" and a: "answers_ok (en_device e)"
  shows "settled (\<lambda>r k'. r = Ok () \<and> shift x k k') (kernel_tick e k)"
proof -
  let ?B = "stage_frames (ks_stage k)"
  note ok = kernel_invD(1) [OF inv]
  note K = kernel_okD [OF ok]
  obtain D q where dq: "en_driver e (ks_dma k) (ks_memory k) = (D, q)" by fastforce
  note M = mem_driver [OF K(3) d dq]
  obtain v where v: "service_tick (en_device e) (ks_block k) = (Ok (), v)" "service_ok (ks_table k) v"
    using settledE [OF service_tick_ok [OF K(6) a]] by metis
  let ?k = "k\<lparr>ks_block := v, ks_memory := q, ks_dma := D\<rparr>"
  have ok': "kernel_ok ?B ?k" unfolding kernel_ok_def using K M(1) v(2) by simp
  have "others_kept x k ?k" unfolding others_kept_def using M(2) process_memory(7) [OF ok] by auto
  then have "step_ok x ?B k ?B ?k" unfolding step_ok_def unowned_def using ok' M(3) by simp
  then have "shift x k ?k" using kernel_invD(2) [OF inv] by (simp add: shift_def calm_def)
  then show ?thesis using dq v(1) by (simp add: kernel_tick_def settled_def)
qed

end
