(* ===== verification/Frame_Pool.thy ===== *)
theory Frame_Pool
  imports Native_Runtime
begin

text \<open>
  The frames under management. The bitmap of managed frames is fixed when the allocator is made, and no operation of the
  kernel changes it: every operation on memory only marks frames as allocated or free. The rules follow the shape of
  the models as those for settled outcomes do, without the claim that nothing panics.
\<close>

section \<open>Rules\<close>

named_theorems ends

named_theorems pooled

definition ends_in :: "('s \<Rightarrow> bool) \<Rightarrow> 'r \<times> 's \<Rightarrow> bool" where
  "ends_in Q x \<longleftrightarrow> Q (snd x)"

lemma ends_inD: "ends_in Q x \<Longrightarrow> x = (r, s) \<Longrightarrow> Q s"
  by (simp add: ends_in_def)

lemma ends_pair [ends]: "Q s \<Longrightarrow> ends_in Q (r, s)"
  by (simp add: ends_in_def)

lemma ends_return [ends]: "Q s \<Longrightarrow> (\<And>a. m = Ok a \<Longrightarrow> ends_in Q (f a)) \<Longrightarrow> ends_in Q (or_return m s f)"
  by (cases m) (simp_all add: ends_in_def)

lemma ends_if [ends]: "(b \<Longrightarrow> ends_in Q x) \<Longrightarrow> (\<not> b \<Longrightarrow> ends_in Q y) \<Longrightarrow> ends_in Q (if b then x else y)"
  by simp

lemma ends_case [ends]: "(\<And>r s. m = (r, s) \<Longrightarrow> ends_in Q (f r s)) \<Longrightarrow> ends_in Q (case m of (r, s) \<Rightarrow> f r s)"
  by (cases m) simp

lemma ends_option [ends]:
  "(m = None \<Longrightarrow> ends_in Q x) \<Longrightarrow> (\<And>a. m = Some a \<Longrightarrow> ends_in Q (f a)) \<Longrightarrow> ends_in Q (case m of None \<Rightarrow> x | Some a \<Rightarrow> f a)"
  by (cases m) simp_all

lemma ends_outcome [ends]:
  "(\<And>a. m = Ok a \<Longrightarrow> ends_in Q (f a)) \<Longrightarrow> (\<And>e. m = Err e \<Longrightarrow> ends_in Q (g e)) \<Longrightarrow> (m = Panic \<Longrightarrow> ends_in Q x) \<Longrightarrow>
   ends_in Q (case m of Ok a \<Rightarrow> f a | Err e \<Rightarrow> g e | Panic \<Rightarrow> x)"
  by (cases m) simp_all

lemma ends_sum [ends]:
  "(\<And>a. m = Inl a \<Longrightarrow> ends_in Q (f a)) \<Longrightarrow> (\<And>b. m = Inr b \<Longrightarrow> ends_in Q (g b)) \<Longrightarrow> ends_in Q (case m of Inl a \<Rightarrow> f a | Inr b \<Rightarrow> g b)"
  by (cases m) simp_all

lemma ends_action [ends]:
  "ends_in Q x \<Longrightarrow> (\<And>v. ends_in Q (f v)) \<Longrightarrow> (\<And>c. ends_in Q (g c)) \<Longrightarrow> (\<And>w. ends_in Q (h w)) \<Longrightarrow>
   ends_in Q (case a of Resume \<Rightarrow> x | Return v \<Rightarrow> f v | Exit c \<Rightarrow> g c | Block w \<Rightarrow> h w)"
  by (cases a) simp_all

lemma ends_call: "(\<And>r s. x = (r, s) \<Longrightarrow> Q s) \<Longrightarrow> ends_in Q x"
  by (cases x) (simp add: ends_in_def)

section \<open>Page tables\<close>

definition pool :: "physical \<Rightarrow> bitmap" where
  "pool p = fr_managed (ph_frames p)"

lemma pool_words [simp]: "pool (p\<lparr>ph_words := w\<rparr>) = pool p" "pool (p\<lparr>ph_frames := f\<rparr>) = fr_managed f"
  by (simp_all add: pool_def)

abbreviation pool_kept :: "physical \<Rightarrow> physical \<Rightarrow> bool" where
  "pool_kept p q \<equiv> pool q = pool p"

lemma frames_allocate_pool: "frames_allocate f = (r, f') \<Longrightarrow> fr_managed f' = fr_managed f"
  by (auto simp: frames_allocate_def Let_def split: if_splits option.splits outcome.splits)

lemma frames_release_pool: "frames_release f a = (r, f') \<Longrightarrow> fr_managed f' = fr_managed f"
  by (cases "frames_locate f a") (auto simp: frames_release_def split: if_splits)

lemma allocate_zeroed_pool [THEN ends_inD, pooled]: "ends_in (pool_kept p) (ph_allocate_zeroed p)"
  unfolding ph_allocate_zeroed_def Let_def by (intro ends) (auto dest: frames_allocate_pool simp: pool_def)

lemma release_pool [THEN ends_inD, pooled]: "ends_in (pool_kept p) (ph_release p frame)"
  unfolding ph_release_def by (intro ends) (auto dest: frames_release_pool simp: pool_def)

lemma write_pool [THEN ends_inD, pooled]: "ends_in (pool_kept p) (ph_write p table i v)"
  unfolding ph_write_def by (intro ends) simp_all

lemma copy_upper_pool [THEN ends_inD, pooled]: "ends_in (pool_kept p) (copy_upper root src xs p)"
proof (induction xs arbitrary: p)
  case (Cons i xs)
  show ?case unfolding copy_upper.simps by (intro ends ends_call) (auto dest!: pooled Cons.IH [THEN ends_inD])
qed (simp add: ends_in_def)


lemma as_child_pool [THEN ends_inD, pooled]: "ends_in (pool_kept p) (as_child s p)"
  unfolding as_child_def by (intro ends) (auto dest!: pooled simp del: copy_upper.simps upt_Suc)

lemma map_walk_pool [THEN ends_inD, pooled]: "ends_in (\<lambda>x. pool_kept p (snd x)) (map_walk a levels table created p)"
proof (induction levels arbitrary: table created p)
  case (Cons l levels)
  show ?case unfolding map_walk.simps Let_def by (intro ends ends_call) (auto dest!: pooled Cons.IH [THEN ends_inD])
qed (simp add: ends_in_def)

lemma map_rollback_pool [THEN ends_inD, pooled]: "ends_in (pool_kept p) (map_rollback cs p)"
proof (induction cs arbitrary: p)
  case (Cons c cs)
  show ?case unfolding map_rollback.simps by (intro ends ends_call) (auto dest!: pooled Cons.IH [THEN ends_inD])
qed (simp add: ends_in_def)

lemma map_zeroed_pool [THEN ends_inD, pooled]: "ends_in (pool_kept p) (as_map_zeroed s page pm p)"
  unfolding as_map_zeroed_def Let_def by (intro ends) (auto dest!: pooled simp del: map_walk.simps split: outcome.splits)

lemma free_empty_pool [THEN ends_inD, pooled]: "ends_in (pool_kept p) (free_empty cs p)"
proof (induction cs arbitrary: p)
  case (Cons c cs)
  show ?case unfolding free_empty.simps by (intro ends ends_call) (auto dest!: pooled Cons.IH [THEN ends_inD])
qed (simp add: ends_in_def)

lemma unmap_pool [THEN ends_inD, pooled]: "ends_in (pool_kept p) (as_unmap s page p)"
  unfolding as_unmap_def Let_def by (intro ends ends_call) (auto dest!: pooled)

lemma release_slots_pool [THEN ends_inD, pooled]: "ends_in (pool_kept p) (release_slots table level xs p)"
proof (induction level arbitrary: table xs p)
  case 0
  show ?case by (cases xs) (simp_all add: ends_in_def)
next
  case (Suc l)
  have deep: "ends_in (pool_kept p) (if \<not> entry_present e then (Ok (), p) else if l = 0 then ph_release p (entry_frame e)
      else if l < 3 \<and> entry_huge e then (Err MemCorruptTable, p)
      else (case release_slots (entry_frame e) l [0..<512] p of (r, p) \<Rightarrow> or_return r p (\<lambda>_. ph_release p (entry_frame e))))" for e p
    by (intro ends ends_call) (auto dest!: pooled Suc.IH [THEN ends_inD])
  show ?case
  proof (induction xs arbitrary: p)
    case (Cons i xs)
    show ?case unfolding release_slots.simps by (intro ends ends_call) (auto dest!: deep [THEN ends_inD] Cons.IH [THEN ends_inD])
  qed (simp add: ends_in_def)
qed

lemma destroy_pool [THEN ends_inD, pooled]: "ends_in (\<lambda>x. pool_kept p (snd x)) (as_destroy active s p)"
  unfolding as_destroy_def by (intro ends) (auto dest!: pooled simp del: release_slots.simps upt_Suc)

section \<open>User memory\<close>

lemma unmap_pages_pool [THEN ends_inD, pooled]: "ends_in (pool_kept p) (unmap_pages s base xs p)"
proof (induction xs arbitrary: p)
  case (Cons i xs)
  show ?case unfolding unmap_pages.simps by (intro ends ends_call) (auto dest!: pooled Cons.IH [THEN ends_inD])
qed (simp add: ends_in_def)

lemma unmap_user_pool [THEN ends_inD, pooled]: "ends_in (pool_kept p) (unmap_user_pages active s base pages p)"
  unfolding unmap_user_pages_def by (intro ends ends_call) (auto dest!: pooled)

lemma map_pages_pool [THEN ends_inD, pooled]: "ends_in (\<lambda>x. pool_kept p (snd x)) (map_pages s base pm n mapped p)"
proof (induction n arbitrary: mapped p)
  case (Suc n)
  show ?case unfolding map_pages.simps by (intro ends ends_call) (auto dest!: pooled Suc.IH [THEN ends_inD])
qed (simp add: ends_in_def)

lemma map_user_pool [THEN ends_inD, pooled]: "ends_in (pool_kept p) (map_user_pages active s base pages writable p)"
  unfolding map_user_pages_def Let_def by (intro ends ends_call) (auto dest!: pooled)

lemma initialize_pool [THEN ends_inD, pooled]: "ends_in (pool_kept p) (initialize_bytes p frame off data)"
  unfolding initialize_bytes_def by (intro ends) simp_all

lemma copy_out_pool [THEN ends_inD, pooled]: "ends_in (pool_kept p) (copy_out s address data p)"
proof (induction data arbitrary: address p rule: length_induct)
  case (1 data)
  show ?case
  proof (cases "data = []")
    case False
    have next_part: "copy_out s a (drop (min (page_size - off) (length data)) data) q = (r, u) \<Longrightarrow> off < page_size \<Longrightarrow> pool_kept q u" for a off q r u
      using 1 [rule_format, THEN ends_inD, of "drop (min (page_size - off) (length data)) data" a q r u] False by simp
    show ?thesis unfolding copy_out.simps [of s address data p] Let_def using False
      by (intro ends ends_call) (auto dest!: pooled next_part)
  qed (simp add: ends_in_def copy_out.simps)
qed

lemma to_user_pool [THEN ends_inD, pooled]: "ends_in (pool_kept p) (copy_to_user active s address data p)"
  unfolding copy_to_user_def by (intro ends ends_call) (auto dest!: pooled)

section \<open>Kernel buffers and images\<close>

lemma release_all_pool [THEN ends_inD, pooled]: "ends_in (pool_kept p) (release_all fs p)"
proof (induction fs arbitrary: p)
  case (Cons f fs)
  show ?case unfolding release_all.simps by (intro ends ends_call) (auto dest!: pooled Cons.IH [THEN ends_inD])
qed (simp add: ends_in_def)

lemma zero_frames_pool [simp]: "pool (zero_frames fs p) = pool p"
  by (simp add: zero_frames_def pool_def)

lemma run_store_pool [simp]: "pool (run_store a off bs p) = pool p"
  by (induction bs arbitrary: off p) (simp_all add: Let_def)

lemma contiguous_pool: "allocate_contiguous_bounded f n limit = (r, f') \<Longrightarrow> fr_managed f' = fr_managed f"
  by (auto simp: allocate_contiguous_bounded_def Let_def split: if_splits option.splits)

lemma allocate_buffer_pool [THEN ends_inD, pooled]: "ends_in (pool_kept p) (allocate_kernel_buffer n p)"
  unfolding allocate_kernel_buffer_def Let_def by (intro ends) (auto dest!: contiguous_pool simp: pool_def)

lemma release_buffer_pool [THEN ends_inD, pooled]: "ends_in (pool_kept p) (release_kernel_buffer b p)"
  unfolding release_kernel_buffer_def Let_def by (intro ends ends_call) (auto dest!: pooled)

lemma buffer_write_pool [THEN ends_inD, pooled]: "ends_in (pool_kept p) (buffer_write b off bs p)"
  unfolding buffer_write_def by (intro ends) simp_all

lemma load_page_pool [THEN ends_inD, pooled]: "ends_in (pool_kept p) (load_page active s a pm off data p)"
  unfolding load_page_def by (intro ends ends_call) (auto dest!: pooled)

lemma load_segment_pool [THEN ends_inD, pooled]: "ends_in (pool_kept p) (load_segment active sp img s pages p)"
proof (induction pages arbitrary: p)
  case (Cons f fs)
  show ?case unfolding load_segment.simps by (intro ends ends_call) (auto dest!: pooled Cons.IH [THEN ends_inD])
qed (simp add: ends_in_def)

lemma load_segments_pool [THEN ends_inD, pooled]: "ends_in (pool_kept p) (load_segments active sp img segs p)"
proof (induction segs arbitrary: p)
  case (Cons f fs)
  show ?case unfolding load_segments.simps by (intro ends ends_call) (auto dest!: pooled Cons.IH [THEN ends_inD])
qed (simp add: ends_in_def)

lemma load_stack_pool [THEN ends_inD, pooled]: "ends_in (pool_kept p) (load_stack active sp pages p)"
proof (induction pages arbitrary: p)
  case (Cons f fs)
  show ?case unfolding load_stack.simps by (intro ends ends_call) (auto dest!: pooled Cons.IH [THEN ends_inD])
qed (simp add: ends_in_def)

lemma load_image_pool [THEN ends_inD, pooled]: "ends_in (pool_kept p) (load_image active sp img p)"
  unfolding load_image_def by (intro ends ends_call) (auto dest!: pooled)

lemma loader_pool [THEN ends_inD, pooled]: "ends_in (pool_kept p) (loader_load k bs p)"
  unfolding loader_load_def create_user_def destroy_user_def by (intro ends ends_call) (auto dest!: pooled)

section \<open>Calls\<close>

lemma heap_map_pool [THEN ends_inD, pooled]: "ends_in (\<lambda>x. pool_kept p (snd x)) (heap_map active a n flags (s, p))"
  unfolding heap_map_def split by (intro ends ends_call) (auto dest!: pooled)

lemma heap_unmap_pool [THEN ends_inD, pooled]: "ends_in (\<lambda>x. pool_kept p (snd x)) (heap_unmap active a n flags (s, p))"
  unfolding heap_unmap_def split by (intro ends ends_call) (auto dest!: pooled)

lemma heap_dispatch_pool [THEN ends_inD, pooled]: "ends_in (\<lambda>x. pool_kept p (snd x)) (heap_dispatch active num (s, p))"
  unfolding heap_dispatch_def split Let_def by (intro ends ends_call) (auto dest!: pooled split: if_splits)

lemma ipc_transact_pool [THEN ends_inD, pooled]: "ends_in (\<lambda>x. pool_kept p (snd x)) (ipc_transact active num s owner (b, p))"
  unfolding ipc_transact_def split Let_def by (intro ends ends_call) (auto dest!: pooled)

lemma ipc_dispatch_pool [THEN ends_inD, pooled]: "ends_in (\<lambda>x. pool_kept p (snd x)) (ipc_dispatch active num s owner (b, p))"
  unfolding ipc_dispatch_def Let_def by (intro ends ends_call) (auto dest!: pooled)

lemma block_transact_pool [THEN ends_inD, pooled]: "ends_in (\<lambda>x. pool_kept p (snd x)) (block_transact active num s owner (v, p))"
  unfolding block_transact_def split Let_def by (intro ends ends_call) (auto dest!: pooled)

lemma block_dispatch_pool [THEN ends_inD, pooled]: "ends_in (\<lambda>x. pool_kept p (snd x)) (block_dispatch active num s owner (v, p))"
  unfolding block_dispatch_def Let_def by (intro ends ends_call) (auto dest!: pooled)

lemma syscall_pool [THEN ends_inD, pooled]: "ends_in (\<lambda>x. pool_kept (cs_memory c) (cs_memory x)) (syscall_dispatch active owner c)"
  unfolding syscall_dispatch_def Let_def by (intro ends ends_call) (auto dest!: pooled)

lemma console_call_pool [THEN ends_inD, pooled]: "ends_in (pool_kept p) (console_call active rd num s owner console p)"
  unfolding console_call_def Let_def by (intro ends ends_call) (auto dest!: pooled)

lemma native_pool [THEN ends_inD, pooled]: "ends_in (pool_kept p) (native_dispatch active rd num s b owner console p)"
  unfolding native_dispatch_def console_dispatch_def by (intro ends ends_call) (auto dest!: pooled)

section \<open>The manager\<close>

abbreviation kpool_kept :: "kstate \<Rightarrow> kstate \<Rightarrow> bool" where
  "kpool_kept k k' \<equiv> pool (ks_memory k') = pool (ks_memory k)"

lemma set_process_memory [simp]: "ks_memory (set_process slot s k) = ks_memory k"
  by (simp add: set_process_def)

lemma refresh_slot_pool [THEN ends_inD, pooled]: "ends_in (kpool_kept k) (refresh_slot rd slot k)"
  unfolding refresh_slot_def Let_def by (intro ends ends_call) auto

lemma refresh_slots_pool [THEN ends_inD, pooled]: "ends_in (kpool_kept k) (refresh_slots rd slots k)"
proof (induction slots arbitrary: k)
  case (Cons i xs)
  show ?case unfolding refresh_slots.simps by (intro ends ends_call) (auto dest!: pooled Cons.IH [THEN ends_inD])
qed (simp add: ends_in_def)

lemma refresh_pool [THEN ends_inD, pooled]: "ends_in (kpool_kept k) (refresh_waiters rd k)"
  unfolding refresh_waiters_def by (intro ends_call) (auto dest!: pooled simp del: refresh_slots.simps upt_Suc)

lemma create_pool [THEN ends_inD, pooled]: "ends_in (kpool_kept k) (mgr_create bs args k)"
  unfolding mgr_create_def Let_def by (intro ends ends_call) (auto dest!: pooled)

lemma finish_pool [THEN ends_inD, pooled]: "ends_in (kpool_kept k) (mgr_finish rd pid x k)"
  unfolding mgr_finish_def Let_def by (intro ends ends_call) (auto dest!: pooled)

lemma kill_pool [THEN ends_inD, pooled]: "ends_in (kpool_kept k) (mgr_kill rd pid k)"
  unfolding mgr_kill_def by (intro ends_call) (auto dest!: pooled)

lemma wait_pool [THEN ends_inD, pooled]: "ends_in (kpool_kept k) (mgr_wait pid k)"
  unfolding mgr_wait_def destroy_user_def Let_def by (intro ends ends_call) (auto dest!: pooled)

lemma transfer_pool [THEN ends_inD, pooled]: "ends_in (kpool_kept k) (mgr_transfer rd owner h target rights k)"
  unfolding mgr_transfer_def Let_def by (intro ends ends_call) (auto dest!: pooled)

lemma launcher_pool [THEN ends_inD, pooled]:
  "ends_in (kpool_kept k) (mgr_connect a b k)" "ends_in (kpool_kept k) (mgr_bootstrap pid args k)"
  "ends_in (kpool_kept k) (mgr_grant_block pid g k)"
  unfolding mgr_connect_def mgr_bootstrap_def mgr_grant_block_def by (intro ends; simp)+

lemma register_pool [THEN ends_inD, pooled]: "ends_in (kpool_kept k) (register_child pid parent program k)"
  unfolding register_child_def by (intro ends; simp)

lemma launch_pool [THEN ends_inD, pooled]: "ends_in (kpool_kept k) (app_launch ar mf name elf avail k)"
  unfolding app_launch_def by (intro ends ends_call) (auto dest!: pooled)

lemma launch_dormant_pool [THEN ends_inD, pooled]:
  "ends_in (kpool_kept k) (app_launch_dormant ar rd mf name elf avail parent program k)"
  unfolding app_launch_dormant_def Let_def by (intro ends ends_call) (auto dest!: pooled)

lemma catalog_pool [THEN ends_inD, pooled]: "ends_in (kpool_kept k) (catalog_launch ar program k)"
  unfolding catalog_launch_def by (intro ends ends_call) (auto dest!: pooled)

lemma release_stage_pool [THEN ends_inD, pooled]: "ends_in (kpool_kept k) (release_stage st k)"
  unfolding release_stage_def by (intro ends ends_call) (auto dest!: pooled)

lemma clear_stage_pool [THEN ends_inD, pooled]: "ends_in (kpool_kept k) (clear_image_stage k)"
  unfolding clear_image_stage_def by (intro ends ends_call) (auto dest!: pooled)

lemma clear_then_pool [THEN ends_inD, pooled]: "ends_in (kpool_kept k) (clear_then e k)"
  unfolding clear_then_def by (intro ends ends_call) (auto dest!: pooled)

lemma stage_begin_pool [THEN ends_inD, pooled]: "ends_in (kpool_kept k) (stage_begin caller w k)"
  unfolding stage_begin_def Let_def by (intro ends ends_call) (auto dest!: pooled)

lemma stage_copy_pool [THEN ends_inD, pooled]: "ends_in (kpool_kept k) (stage_copy caller w k)"
  unfolding stage_copy_def Let_def by (intro ends ends_call) (auto dest!: pooled)

lemma stage_launch_pool [THEN ends_inD, pooled]: "ends_in (kpool_kept k) (stage_launch ar rd caller st k)"
  unfolding stage_launch_def by (intro ends ends_call) (auto dest!: pooled)

lemma stage_commit_pool [THEN ends_inD, pooled]: "ends_in (kpool_kept k) (stage_commit ar rd caller generation k)"
  unfolding stage_commit_def Let_def by (intro ends ends_call) (auto dest!: pooled)

lemma stage_abort_pool [THEN ends_inD, pooled]: "ends_in (kpool_kept k) (stage_abort caller generation k)"
  unfolding stage_abort_def by (intro ends ends_call) (auto dest!: pooled)

lemma staging_pool [THEN ends_inD, pooled]: "ends_in (kpool_kept k) (staging_operation ar rd caller w k)"
  unfolding staging_operation_def by (intro ends ends_call) (auto dest!: pooled)

lemma control_spawn_pool [THEN ends_inD, pooled]: "ends_in (kpool_kept k) (control_spawn ar program k)"
  unfolding control_spawn_def Let_def by (intro ends ends_call) (auto dest!: pooled)

lemma control_start_pool [THEN ends_inD, pooled]: "ends_in (kpool_kept k) (control_start w k)"
  unfolding control_start_def by (intro ends ends_call) (auto dest!: pooled)

lemma control_end_pool [THEN ends_inD, pooled]: "ends_in (kpool_kept k) (control_end rd killing n k)"
  unfolding control_end_def by (intro ends ends_call) (auto dest!: pooled)

lemma control_parts_pool [THEN ends_inD, pooled]:
  "ends_in (kpool_kept k) (control_move rd w k)" "ends_in (kpool_kept k) (control_close rd w k)"
  "ends_in (kpool_kept k) (control_console rd n k)" "ends_in (kpool_kept k) (control_grant w k)"
  "ends_in (kpool_kept k) (control_connect w k)" "ends_in (kpool_kept k) (control_hold w k)"
  unfolding control_move_def control_close_def control_console_def control_grant_def control_connect_def control_hold_def Let_def
  by (intro ends ends_call; auto dest!: pooled)+

lemma control_operation_pool [THEN ends_inD, pooled]: "ends_in (kpool_kept k) (control_operation ar now rd w k)"
  unfolding control_operation_def by (intro ends ends_call) (auto dest!: pooled)

lemma control_reply_pool [THEN ends_inD, pooled]: "ends_in (kpool_kept k) (control_reply pid address out k)"
  unfolding control_reply_def by (intro ends ends_call) (auto dest!: pooled)

lemma control_call_pool [THEN ends_inD, pooled]:
  "ends_in (kpool_kept k) (case control_operation ar now rd w k of (r, k) \<Rightarrow> or_return r k (\<lambda>out. control_reply pid address out k))"
  by (intro ends ends_call) (auto dest!: pooled)

lemma mgr_control_pool [THEN ends_inD, pooled]: "ends_in (kpool_kept k) (mgr_control ar now rd pid address k)"
  unfolding mgr_control_def by (intro ends) (auto dest!: pooled)

section \<open>The step\<close>

lemma trap_pool [THEN ends_inD, pooled]: "ends_in (kpool_kept k) (trap_action ar e slot pid address s k)"
  unfolding trap_action_def Let_def by (intro ends) (auto dest!: pooled)

lemma step_exit_pool [THEN ends_inD, pooled]: "ends_in (kpool_kept k) (step_exit rd pid x k)"
  unfolding step_exit_def by (intro ends ends_call) (auto dest!: pooled split: if_splits)

lemma step_continue_pool [THEN ends_inD, pooled]: "ends_in (kpool_kept k) (step_continue e slot pid k)"
proof -
  have "ends_in (kpool_kept k) (or_return (map_err PeProcess (life_state (ks_table k) pid)) k (\<lambda>st. if st = Running then
      (case life_suspend (ks_table k) pid of (r, t) \<Rightarrow> (map_err PeProcess r, k\<lparr>ks_table := t\<rparr>)) else (Ok (), k)))"
    by (intro ends) simp_all
  from this [THEN ends_inD] show ?thesis
    unfolding step_continue_def by (intro ends ends_call) (auto dest!: pooled split: if_splits)
qed

lemma step_action_pool [THEN ends_inD, pooled]: "ends_in (kpool_kept k) (step_action e slot pid x k)"
  unfolding step_action_def Let_def by (intro ends ends_call) (auto dest!: pooled)

end
