(* ===== verification/Kernel_Safety.thy ===== *)
theory Kernel_Safety
  imports Service_Safety Frame_Pool
begin

text \<open>
  The scheduling step of the kernel as a whole. From a state that satisfies the invariant, with no process running, one
  step with any program, any device answers and any readings ends in such a state again, without a panic and without
  an error.
\<close>

section \<open>The end of a turn\<close>

definition idle :: "kstate \<Rightarrow> bool" where
  "idle k \<longleftrightarrow> (\<forall>i r. i < capacity \<longrightarrow> pt_slots (ks_table k) ! i = Some r \<longrightarrow> pr_state r \<noteq> Running)"

definition turn_over :: "pid \<Rightarrow> kstate \<Rightarrow> kstate \<Rightarrow> bool" where
  "turn_over pid k k' \<longleftrightarrow> step_ok pid (stage_frames (ks_stage k)) k (stage_frames (ks_stage k')) k' \<and> stage_ok (ks_stage k') \<and> idle k'"

lemma turn_overD:
  assumes "turn_over pid k k'"
  shows "kernel_inv k'" and "idle k'" and "step_ok pid (stage_frames (ks_stage k)) k (stage_frames (ks_stage k')) k'"
  using assms step_okD(1) unfolding turn_over_def kernel_inv_def by blast+

lemma turn_then_over: "kernel_inv k \<Longrightarrow> turn_ok slot pid k k' \<Longrightarrow> turn_over pid k' k'' \<Longrightarrow> turn_over pid k k''"
  unfolding turn_over_def turn_ok_def using step_ok_trans [OF kernel_invD(1)] by blast

lemma shift_then_over: "kernel_inv k \<Longrightarrow> shift pid k k' \<Longrightarrow> turn_over pid k' k'' \<Longrightarrow> turn_over pid k k''"
  unfolding turn_over_def shift_def using step_ok_trans [OF kernel_invD(1)] by blast

lemma over_refresh:
  assumes inv: "kernel_inv k" and o: "turn_over pid k k1" and r: "refresh_waiters rd k1 = (r, k2)"
  shows "r = Ok () \<and> turn_over pid k k2"
proof -
  note ok1 = kernel_invD [OF turn_overD(1) [OF o]]
  have R: "r = Ok ()" "smooth pid (stage_frames (ks_stage k1)) k1 k2"
    using refresh_chain [OF ok1(1) smooth_refl [OF ok1(1)] r] by blast+
  have "idle k2" using turn_overD(2) [OF o] smoothD(2) [OF R(2)] unfolding idle_def calm_def by blast
  then have "turn_over pid k1 k2" using R(2) smoothD(1,3) [OF R(2)] ok1(2) by (simp add: turn_over_def)
  moreover have "step_ok pid (stage_frames (ks_stage k)) k (stage_frames (ks_stage k2)) k2"
    using step_ok_trans [OF kernel_invD(1) [OF inv] turn_overD(3) [OF o] turn_overD(3) [OF calculation]] .
  ultimately show ?thesis using R(1) by (simp add: turn_over_def)
qed

text \<open>The running process stops without exiting.\<close>

lemma stopped_over:
  assumes inv: "kernel_inv k" and run: "running_at slot pid k" and s: "ks_processes k ! slot = Some s"
    and s': "ps_space s' = ps_space s" "ps_heap s' = ps_heap s" "proc_ok \<lparr>pr_pid = pid, pr_state = st\<rparr> s'"
    and st: "st \<noteq> Running" "\<not> is_exited st"
    and k': "k' = k\<lparr>ks_table := set_state (ks_table k) slot st, ks_processes := (ks_processes k)[slot := Some s']\<rparr>"
  shows "turn_over pid k k'"
proof -
  note ok = kernel_invD(1) [OF inv]
  note K = kernel_okD [OF ok]
  let ?r = "\<lparr>pr_pid = pid, pr_state = Running\<rparr>"
  have r: "slot < capacity" "pt_slots (ks_table k) ! slot = Some ?r" using run by (simp_all add: running_at_def)
  have "step_ok pid (stage_frames (ks_stage k)) k (stage_frames (ks_stage k)) k'"
    by (rule slot_changed(1) [OF ok r s s'(1,2)]) (use s'(3) st in \<open>simp_all add: k'\<close>)
  moreover have "idle k'"
    unfolding idle_def
  proof (intro allI impI)
    fix i q
    assume i: "i < capacity" "pt_slots (ks_table k') ! i = Some q"
    show "pr_state q \<noteq> Running"
    proof (cases "i = slot")
      case True
      then show ?thesis using i r K(8) st(1) by (auto simp: k' set_state_slots)
    next
      case False
      then have q: "pt_slots (ks_table k) ! i = Some q" using i(2) r(2) by (simp add: k' set_state_slots)
      show ?thesis
      proof
        assume "pr_state q = Running"
        then have "pr_pid q = pid" using running_only [OF ok run] i(1) q unfolding runs_only_def by blast
        then show False using pid_unique [OF K(1) i(1) r(1) q r(2)] False by simp
      qed
    qed
  qed
  ultimately show ?thesis using kernel_invD(2) [OF inv] by (simp add: turn_over_def k')
qed

lemma idle_after:
  assumes "runs_only pid k" and "calm_but pid k k'" and "idle_pid pid k'"
  shows "idle k'"
  using assms unfolding idle_def runs_only_def calm_but_def idle_pid_def by metis

lemma step_exit_over:
  assumes inv: "kernel_inv k" and run: "running_at slot pid k"
  shows "settled (\<lambda>r k'. r = Ok () \<and> turn_over pid k k') (step_exit rd pid x k)"
proof -
  have "\<exists>k1. (if pid = ks_supervisor k then clear_image_stage k else (Ok (), k)) = (Ok () :: (process_error, unit) outcome, k1) \<and> shift pid k k1"
  proof (cases "pid = ks_supervisor k")
    case True
    obtain r :: "(process_error, unit) outcome" and k1 where "clear_image_stage k = (r, k1)" "r = Ok () \<and> shift pid k k1 \<and> ks_stage k1 = None"
      by (rule settledE [OF clear_stage_shift [OF inv, of pid]])
    then show ?thesis using True by auto
  next
    case False
    then show ?thesis using shift_refl [OF inv, of pid] by simp
  qed
  then obtain k1 where c: "(if pid = ks_supervisor k then clear_image_stage k else (Ok (), k)) = (Ok () :: (process_error, unit) outcome, k1)"
    "shift pid k k1" by blast
  note t1 = shift_turn [OF c(2) run]
  note inv1 = turn_okD(1) [OF t1] and run1 = turn_okD(2) [OF t1]
  note ok1 = kernel_invD(1) [OF inv1]
  obtain r k2 where f: "mgr_finish rd pid x k1 = (r, k2)" "r \<noteq> Panic"
    "step_ok pid (stage_frames (ks_stage k1)) k1 (stage_frames (ks_stage k1)) k2" "calm_but pid k1 k2" "stage_kept (stage_frames (ks_stage k1)) k1 k2"
    "r = Ok () \<longrightarrow> idle_pid pid k2" "(\<exists>e. r = Err e) \<longrightarrow> k2 = k1 \<and> \<not> live (ks_table k1) pid"
    using settledE [OF mgr_finish_ok [OF ok1, of pid pid rd x]] by metis
  have "live (ks_table k1) pid"
    using live_slot [OF kernel_okD(1) [OF ok1], of slot "\<lparr>pr_pid = pid, pr_state = Running\<rparr>"] run1 by (simp add: running_at_def is_exited_def)
  then have r: "r = Ok ()" using f(2,7) by (cases r) auto
  have "idle k2" by (rule idle_after [OF running_only [OF ok1 run1] f(4)]) (use f(6) r in blast)
  then have "turn_over pid k1 k2" using f(3,5) kernel_invD(2) [OF inv1] by (simp add: turn_over_def stage_kept_def)
  then have "turn_over pid k k2" by (rule turn_then_over [OF inv t1])
  then show ?thesis using c(1) f(1) r by (simp add: step_exit_def settled_def)
qed

text \<open>The exit of a process that was about to block is the exit of the running process.\<close>

definition parked :: "nat \<Rightarrow> wait_on \<Rightarrow> process \<Rightarrow> kstate \<Rightarrow> kstate" where
  "parked slot w s k = set_process slot (Some (s\<lparr>ps_pending := Some w\<rparr>)) (k\<lparr>ks_table := set_state (ks_table k) slot Blocked\<rparr>)"

lemma parked_fields [simp]:
  "ks_table (parked slot w s k) = set_state (ks_table k) slot Blocked"
  "ks_processes (parked slot w s k) = (ks_processes k)[slot := Some (s\<lparr>ps_pending := Some w\<rparr>)]"
  "ks_supervisor (parked slot w s k) = ks_supervisor k" "ks_stage (parked slot w s k) = ks_stage k"
  "ks_memory (parked slot w s k) = ks_memory k" "ks_root (parked slot w s k) = ks_root k"
  by (simp_all add: parked_def set_process_def)

lemma clear_parked:
  fixes r :: "('e, unit) outcome"
  assumes "clear_image_stage k = (r, k1)"
  shows "clear_image_stage (parked slot w s k) = (r, parked slot w s k1)" and "ks_table k1 = ks_table k" and "ks_processes k1 = ks_processes k"
  using assms
  by (auto simp: clear_image_stage_def release_stage_def parked_def set_process_def or_return_def split: option.splits prod.splits outcome.splits)

lemma set_state_twice: "set_state (set_state t i a) i b = set_state t i b"
  by (cases "i < length (pt_slots t)"; cases "pt_slots t ! i") (simp_all add: set_state_def list_update_beyond)

lemma finish_parked:
  assumes t: "life_inv (ks_table k)" and run: "running_at slot pid k" and s: "ks_processes k ! slot = Some s" "length (ks_processes k) = capacity"
  shows "mgr_finish rd pid x (parked slot w s k) = mgr_finish rd pid x k"
proof -
  let ?r = "\<lparr>pr_pid = pid, pr_state = Running\<rparr>"
  have r: "slot < capacity" "pt_slots (ks_table k) ! slot = Some ?r" using run by (simp_all add: running_at_def)
  have i: "slot < length (pt_slots (ks_table k))" using r(1) life_invD(1) [OF t] by simp
  have slots: "life_slot (ks_table k) pid = Ok slot" using slot_of_pid(1) [OF t r] by simp
  have keep: "life_slot (set_state (ks_table k) slot st) pid = Ok slot" if "st \<noteq> Running" for st
    using slot_of_pid(1) [OF set_state_inv [OF t i r(2)] r(1), of st "?r\<lparr>pr_state := st\<rparr>"] that r(2) i by (simp add: set_state_slots)
  have "life_finish (set_state (ks_table k) slot Blocked) pid x = (Ok (), set_state (ks_table k) slot (Exited x))"
    using keep r i by (simp add: life_finish_def set_state_slots set_state_twice is_exited_def)
  moreover have "life_finish (ks_table k) pid x = (Ok (), set_state (ks_table k) slot (Exited x))"
    using slots r by (simp add: life_finish_def is_exited_def)
  ultimately show ?thesis using keep r(1) s
    by (cases k; cases s) (simp add: mgr_finish_def Let_def parked_def set_process_def split: option.split outcome.split prod.split)
qed

lemma exit_parked:
  assumes inv: "kernel_inv k" and run: "running_at slot pid k" and s: "ks_processes k ! slot = Some s"
  shows "step_exit rd pid x (parked slot w s k) = step_exit rd pid x k"
proof (cases "pid = ks_supervisor k")
  case True
  obtain r :: "(process_error, unit) outcome" and k1 where r: "clear_image_stage k = (r, k1)" "r = Ok () \<and> shift pid k k1 \<and> ks_stage k1 = None"
    by (rule settledE [OF clear_stage_shift [OF inv, of pid]])
  then have c: "clear_image_stage k = (Ok () :: (process_error, unit) outcome, k1)" by simp
  note C = clear_parked [OF c]
  note K = kernel_okD [OF kernel_invD(1) [OF inv]]
  have "mgr_finish rd pid x (parked slot w s k1) = mgr_finish rd pid x k1"
    by (rule finish_parked) (use C(2,3) K(1,7) run s in \<open>simp_all add: running_at_def\<close>)
  then show ?thesis using True c C(1) by (simp add: step_exit_def)
next
  case False
  then show ?thesis using finish_parked [OF kernel_okD(1) [OF kernel_invD(1) [OF inv]] run s kernel_okD(7) [OF kernel_invD(1) [OF inv]]]
    by (simp add: step_exit_def)
qed

section \<open>The actions of a trap\<close>

lemma step_continue_over:
  assumes inv: "kernel_inv k" and run: "running_at slot pid k"
  shows "settled (\<lambda>r k'. r = Ok () \<and> turn_over pid k k') (step_continue e slot pid k)"
proof -
  obtain s where s: "ks_processes k ! slot = Some s" "length (fm_registers (ps_frame s)) = 15" "ps_pending s = None"
    using running_process [OF inv run] by metis
  show ?thesis
  proof (cases "frame_valid_user (ps_frame s)")
    case True
    let ?r = "\<lparr>pr_pid = pid, pr_state = Running\<rparr>"
    let ?k = "k\<lparr>ks_table := set_state (ks_table k) slot Ready\<rparr>"
    have r: "slot < capacity" "pt_slots (ks_table k) ! slot = Some ?r" using run by (simp_all add: running_at_def)
    note P = slot_of_pid [OF kernel_okD(1) [OF kernel_invD(1) [OF inv]] r, simplified]
    have "ks_processes k = (ks_processes k)[slot := Some s]" using s(1) by (metis list_update_id)
    then have over: "turn_over pid k ?k"
      by (intro stopped_over [OF inv run s(1) refl refl, of Ready]) (use True s in \<open>simp_all add: proc_ok_def is_exited_def\<close>)
    obtain r' k2 where f: "refresh_waiters (en_after e) ?k = (r', k2)" by fastforce
    have "life_suspend (ks_table k) pid = (Ok (), set_state (ks_table k) slot Ready)" using P r by (simp add: life_suspend_def)
    then show ?thesis using True s(1) P f over_refresh [OF inv over f] by (simp add: step_continue_def settled_def)
  next
    case False
    obtain r1 k1 where x: "step_exit (en_during e) pid (ExitFault 13 0 0) k = (r1, k1)" "r1 = Ok () \<and> turn_over pid k k1"
      by (rule settledE [OF step_exit_over [OF inv run]])
    obtain r' k2 where f: "refresh_waiters (en_after e) k1 = (r', k2)" by fastforce
    show ?thesis using False s(1) x f over_refresh [OF inv conjunct2 [OF x(2)] f] by (simp add: step_continue_def settled_def)
  qed
qed

lemma parked_continue:
  assumes inv: "kernel_inv k" and run: "running_at slot pid k" and s: "ks_processes k ! slot = Some s"
  shows "settled (\<lambda>r k'. r = Ok () \<and> turn_over pid k k') (step_continue e slot pid (parked slot w s k))"
proof -
  note K = kernel_okD [OF kernel_invD(1) [OF inv]]
  let ?r = "\<lparr>pr_pid = pid, pr_state = Running\<rparr>"
  have r: "slot < capacity" "pt_slots (ks_table k) ! slot = Some ?r" using run by (simp_all add: running_at_def)
  have s': "ks_processes (parked slot w s k) ! slot = Some (s\<lparr>ps_pending := Some w\<rparr>)" using r(1) K(7) by simp
  have len: "length (fm_registers (ps_frame s)) = 15" using running_process [OF inv run] s by (metis option.inject)
  show ?thesis
  proof (cases "frame_valid_user (ps_frame s)")
    case True
    have over: "turn_over pid k (parked slot w s k)"
      by (rule stopped_over [OF inv run s, of "s\<lparr>ps_pending := Some w\<rparr>" Blocked])
        (use True len in \<open>simp_all add: proc_ok_def is_exited_def parked_def set_process_def\<close>)
    have "pt_slots (set_state (ks_table k) slot Blocked) ! slot = Some (?r\<lparr>pr_state := Blocked\<rparr>)" using r K(8) by (simp add: set_state_slots)
    then have st: "life_state (set_state (ks_table k) slot Blocked) pid = Ok Blocked"
      using slot_of_pid(2) [OF kernel_okD(1) [OF kernel_invD(1) [OF turn_overD(1) [OF over]]] r(1), of "?r\<lparr>pr_state := Blocked\<rparr>"] by simp
    obtain r' k2 where f: "refresh_waiters (en_after e) (parked slot w s k) = (r', k2)" by fastforce
    show ?thesis using True s' st f over_refresh [OF inv over f] by (simp add: step_continue_def settled_def)
  next
    case False
    obtain r1 k1 where x: "step_exit (en_during e) pid (ExitFault 13 0 0) k = (r1, k1)" "r1 = Ok () \<and> turn_over pid k k1"
      by (rule settledE [OF step_exit_over [OF inv run]])
    obtain r' k2 where f: "refresh_waiters (en_after e) k1 = (r', k2)" by fastforce
    show ?thesis using False s' x f over_refresh [OF inv conjunct2 [OF x(2)] f] exit_parked [OF inv run s] by (simp add: step_continue_def settled_def)
  qed
qed

lemma step_action_over:
  assumes inv: "kernel_inv k" and run: "running_at slot pid k"
  shows "settled (\<lambda>r k'. r = Ok () \<and> turn_over pid k k') (step_action e slot pid x k)"
proof (cases x)
  case (Inl f)
  then show ?thesis using step_exit_over [OF inv run] by (simp add: step_action_def)
next
  case a: (Inr a)
  note K = kernel_okD [OF kernel_invD(1) [OF inv]]
  obtain s where s: "ks_processes k ! slot = Some s" "length (fm_registers (ps_frame s)) = 15" "ps_pending s = None"
    using running_process [OF inv run] by metis
  let ?r = "\<lparr>pr_pid = pid, pr_state = Running\<rparr>"
  have r: "slot < capacity" "pt_slots (ks_table k) ! slot = Some ?r" using run by (simp_all add: running_at_def)
  note M = process_memory [OF kernel_invD(1) [OF inv] r(1) s(1)]
  show ?thesis
  proof (cases a)
    case (Exit c)
    then show ?thesis using a s(1) step_exit_over [OF inv run] by (simp add: step_action_def)
  next
    case (Return v)
    let ?k = "set_process slot (Some (s\<lparr>ps_frame := frame_result v (ps_frame s)\<rparr>)) k"
    have t: "turn_ok slot pid k ?k"
      by (rule own_turn [OF inv run s(1) _ _ _ _ _ _ K(4,5,6), where q = "ks_memory k"])
        (use M s local_step_refl [OF M(1,2)] in \<open>simp_all add: set_process_def frame_result_def\<close>)
    have "settled (\<lambda>r k'. r = Ok () \<and> turn_over pid k k') (step_continue e slot pid ?k)"
      using step_continue_over [OF turn_okD(1,2) [OF t]] by (rule settled_mono) (use turn_then_over [OF inv t] in blast)
    then show ?thesis using a Return s(1) by (simp add: step_action_def)
  next
    case (Block w)
    have "life_block (ks_table k) pid = (Ok (), set_state (ks_table k) slot Blocked)"
      using slot_of_pid(1) [OF K(1) r] r by (simp add: life_block_def)
    then show ?thesis using a Block s(1) parked_continue [OF inv run s(1)] by (simp add: step_action_def parked_def Let_def)
  next
    case Resume
    then show ?thesis using a s(1) step_continue_over [OF inv run] by (simp add: step_action_def)
  qed
qed

text \<open>A turn: the program runs, its trap is served, and the process stops.\<close>

lemma run_process_over:
  assumes inv: "kernel_inv k" and run: "running_at slot pid k" and s: "ks_processes k ! slot = Some s" "frame_valid_user (ps_frame s)"
    and u: "user_ok (en_user e)"
  shows "settled (\<lambda>r k'. r = Ok () \<and> turn_over pid k k' \<and> kpool_kept k k') (run_process ar e slot pid k)"
proof -
  note K = kernel_okD [OF kernel_invD(1) [OF inv]]
  have r: "slot < capacity" using run by (simp add: running_at_def)
  note M = process_memory [OF kernel_invD(1) [OF inv] r s(1)]
  have idle: "ps_pending s = None" using running_process [OF inv run] s(1) by (metis option.inject)
  obtain f address q where g: "en_user e (as_root (ps_space s)) (frame_sanitize (ps_frame s)) (ks_memory k) = (f, address, q)"
    by (cases "en_user e (as_root (ps_space s)) (frame_sanitize (ps_frame s)) (ks_memory k)") auto
  note U = user_local [OF u M(1,2) g]
  let ?s = "s\<lparr>ps_frame := f\<rparr>"
  let ?k = "set_process slot (Some ?s) (k\<lparr>ks_memory := q\<rparr>)"
  have "heap_match q (as_root (ps_space s)) (ps_heap s)" using M(6) U(2) by (simp add: heap_match_def)
  then have t: "turn_ok slot pid k ?k"
    by (intro own_turn [OF inv run s(1) _ _ _ _ _ U(1) K(4,5,6), of ?s]) (use U(3) idle M(5) in \<open>simp_all add: set_process_def\<close>)
  have s': "ks_processes ?k ! slot = Some ?s" using r K(7) by (simp add: set_process_def)
  obtain x k2 where a: "trap_action ar e slot pid address ?s ?k = (Ok x, k2)" "turn_ok slot pid ?k k2"
    using settledE [OF trap_action_turn [OF turn_okD(1,2) [OF t] s']] by metis
  note t2 = turn_ok_trans [OF inv t a(2)]
  obtain r3 k3 where b: "step_action e slot pid x k2 = (r3, k3)" "r3 = Ok () \<and> turn_over pid k2 k3"
    by (rule settledE [OF step_action_over [OF turn_okD(1,2) [OF t2]]])
  have "pool q = pool (ks_memory k)" using U(4) by (simp add: pool_def)
  then have "kpool_kept k k3" using trap_pool [OF a(1)] step_action_pool [OF b(1)] by simp
  then show ?thesis using s g a(1) b turn_then_over [OF inv t2] by (simp add: run_process_def Let_def settled_def)
qed

section \<open>The step\<close>

lemma scheduled:
  assumes inv: "kernel_inv k" and i: "i < capacity" "pt_slots (ks_table k) ! i = Some r" "pr_state r = Ready"
    and none: "\<forall>r\<in>set (flatten (pt_slots (ks_table k))). pr_state r \<noteq> Running"
    and k': "k' = k\<lparr>ks_table := (set_state (ks_table k) i Running)\<lparr>pt_cursor := i\<rparr>\<rparr>"
  shows "turn_ok i (pr_pid r) k k'"
proof -
  note K = kernel_okD [OF kernel_invD(1) [OF inv]]
  let ?t = "set_state (ks_table k) i Running"
  let ?r = "r\<lparr>pr_state := Running\<rparr>"
  obtain s where s: "ks_processes k ! i = Some s" "proc_ok r s" using slot_process [OF kernel_invD(1) [OF inv] i(1,2)] by blast
  have n: "i < length (pt_slots (ks_table k))" using i(1) K(8) by simp
  have life: "life_inv (?t\<lparr>pt_cursor := i\<rparr>)" using set_state_inv [OF K(1) n i(2)] none i(1) by (simp add: life_inv_def)
  have "list_all2 (rel_option proc_ok) ((pt_slots (ks_table k))[i := Some ?r]) ((ks_processes k)[i := Some s])"
    using K(2) s(2) i(3) by (intro list_all2_update_cong) (simp_all add: proc_ok_def)
  moreover have "(ks_processes k)[i := Some s] = ks_processes k" using s(1) by (metis list_update_id)
  ultimately have match: "slots_match (?t\<lparr>pt_cursor := i\<rparr>) (ks_processes k)" using i(2) by (simp add: set_state_slots)
  have live: "live (?t\<lparr>pt_cursor := i\<rparr>) q \<longleftrightarrow> live (ks_table k) q" for q
    using live_set_state [OF K(1) i(1,2), of Running q] live_slot [OF K(1) i(1,2)] i(3) by (simp add: live_def is_exited_def)
  have gr: "held_by_live (?t\<lparr>pt_cursor := i\<rparr>) (handles (ks_broker k))" "service_ok (?t\<lparr>pt_cursor := i\<rparr>) (ks_block k)"
    using K(5,6) live by (simp_all add: held_by_live_def service_ok_def)
  have "pids_step (ks_table k) (?t\<lparr>pt_cursor := i\<rparr>)" using pids_set_state [OF i(2) K(8), of Running] by (simp add: pids_step_def)
  moreover have "others_kept (pr_pid r) k k'" by (rule others_same_memory) (simp_all add: k')
  ultimately have "step_ok (pr_pid r) (stage_frames (ks_stage k)) k (stage_frames (ks_stage k)) k'"
    using life match gr K(3,4) by (simp add: step_ok_def kernel_ok_def unowned_def k')
  moreover have "running_at i (pr_pid r) k'" using i n by (simp add: running_at_def k' set_state_slots)
  ultimately show ?thesis using kernel_invD(2) [OF inv] by (simp add: turn_ok_def k')
qed

lemma tick_pool:
  assumes inv: "kernel_inv k" and d: "driver_ok (en_driver e)" and t: "kernel_tick e k = (r, k')"
  shows "kpool_kept k k'"
proof -
  obtain D q where dq: "en_driver e (ks_dma k) (ks_memory k) = (D, q)" by fastforce
  show ?thesis
    using mem_driver(5) [OF kernel_okD(3) [OF kernel_invD(1) [OF inv]] d dq] t dq
    by (auto simp: kernel_tick_def pool_def split: prod.splits)
qed

text \<open>One step of the kernel: what it means for the process that was given the turn, or for none.\<close>

definition kernel_step_ok :: "pid option \<Rightarrow> kstate \<Rightarrow> kstate \<Rightarrow> bool" where
  "kernel_step_ok c k k' \<longleftrightarrow> kernel_inv k' \<and> idle k' \<and> kpool_kept k k' \<and>
     (\<forall>x. c = None \<or> c = Some x \<longrightarrow> step_ok x (stage_frames (ks_stage k)) k (stage_frames (ks_stage k')) k')"

lemma kernel_step_settles:
  assumes inv: "kernel_inv k" and idle: "idle k"
    and env: "user_ok (en_user e)" "driver_ok (en_driver e)" "answers_ok (en_device e)"
  shows "settled (\<lambda>r k'. \<exists>c. r = Ok c \<and> kernel_step_ok c k k') (kernel_step ar e k)"
proof -
  obtain r1 k1 where t: "kernel_tick e k = (r1, k1)" by fastforce
  have T: "r1 = Ok ()" "shift x k k1" for x using settledD [OF kernel_tick_ok [OF inv env(2,3), of x] t] by blast+
  note inv1 = shiftD(1) [OF T(2)]
  obtain r2 k2 where f: "refresh_waiters (en_before e) k1 = (r2, k2)" by fastforce
  have pool2: "kpool_kept k k2" using tick_pool [OF inv env(2) t] refresh_pool [OF f] by simp
  have F: "r2 = Ok ()" "smooth x (stage_frames (ks_stage k1)) k1 k2" for x
    using refresh_chain [OF kernel_invD(1) [OF inv1] smooth_refl [OF kernel_invD(1) [OF inv1]] f] by blast+
  have S: "shift x k k2" for x by (rule shift_trans [OF inv T(2) smooth_shift [OF inv1 F(2)]])
  note inv2 = shiftD(1) [OF S]
  have idle2: "idle k2" using idle S unfolding idle_def shift_def calm_def by metis
  note K = kernel_okD [OF kernel_invD(1) [OF inv2]]
  obtain r3 t3 where l: "life_schedule (ks_table k2) = (r3, t3)" by fastforce
  show ?thesis
    using K(1) l
  proof (cases rule: life_schedule_cases)
    case busy
    then obtain q j where "pr_state q = Running" "j < length (pt_slots (ks_table k2))" "pt_slots (ks_table k2) ! j = Some q"
      by (auto simp: in_flatten_iff)
    then show ?thesis using idle2 K(8) unfolding idle_def by simp
  next
    case none: idle
    have "kernel_step ar e k = (Ok None, k2)" using t T(1) f F(1) l none(1,2) by (simp add: kernel_step_def)
    then show ?thesis using inv2 idle2 shiftD(3) [OF S] pool2 by (simp add: settled_def kernel_step_ok_def)
  next
    case (dispatched i r)
    let ?k = "k2\<lparr>ks_table := t3\<rparr>"
    have sch: "turn_ok i (pr_pid r) k2 ?k" by (rule scheduled [OF inv2 dispatched(1-3,6)]) (simp add: dispatched(5))
    obtain s where s: "ks_processes k2 ! i = Some s" "proc_ok r s" using slot_process [OF kernel_invD(1) [OF inv2] dispatched(1,2)] by blast
    have s': "ks_processes ?k ! i = Some s" "frame_valid_user (ps_frame s)" using s dispatched(3) by (simp_all add: proc_ok_def is_exited_def)
    obtain r4 k4 where g: "run_process ar e i (pr_pid r) ?k = (r4, k4)" "r4 = Ok () \<and> turn_over (pr_pid r) ?k k4 \<and> kpool_kept ?k k4"
      by (rule settledE [OF run_process_over [OF turn_okD(1,2) [OF sch] s' env(1)]])
    have over: "turn_over (pr_pid r) k k4"
      by (rule shift_then_over [OF inv S turn_then_over [OF inv2 sch conjunct1 [OF conjunct2 [OF g(2)]]]])
    have "kernel_step ar e k = (Ok (Some (pr_pid r)), k4)"
      using t T(1) f F(1) l dispatched(4) g by (simp add: kernel_step_def Let_def)
    then show ?thesis using turn_overD [OF over] g(2) pool2 by (simp add: settled_def kernel_step_ok_def)
  qed
qed

end
