(* ===== verification/Native_Session.thy ===== *)
theory Native_Session
  imports Native_Runtime
begin

text \<open>
  The session of the kernel (\<open>kernel/src/process/runtime/native/mod.rs\<close>, \<open>run\<close>): boot, the scheduling loop, and the
  teardown that checks that every frame came back. A panic of the code is the outcome \<open>Panic\<close>, the loop without a
  shutdown request the result \<open>None\<close> when the given steps are used up.
\<close>

record session_world =
  sw_open :: "(device_error, device_geometry) outcome"
  sw_open_driver :: "nat set \<Rightarrow> physical \<Rightarrow> nat set \<times> physical"
  sw_steps :: "surroundings list"
  sw_stops :: "nat \<Rightarrow> nat \<Rightarrow> reading"
  sw_ticks :: "nat \<Rightarrow> surroundings"
  sw_close :: "(device_error, unit) outcome"
  sw_close_driver :: "nat set \<Rightarrow> physical \<Rightarrow> nat set \<times> physical"

section \<open>Boot\<close>

definition native_boot :: "artefacts \<Rightarrow> session_world \<Rightarrow> u64 \<Rightarrow> nat \<Rightarrow> physical \<Rightarrow> (process_error, pid) outcome \<times> kstate" where
  "native_boot ar w startup root p =
     (let k = kernel_new root p in
      case sw_open_driver w (ks_dma k) (ks_memory k) of (d, p) \<Rightarrow>
      case service_open (sw_open w) (ks_block k) of (r, v) \<Rightarrow>
      let k = k\<lparr>ks_block := v, ks_memory := p, ks_dma := d\<rparr> in
      or_return (must r) k (\<lambda>_.
      case catalog_launch ar 0 k of (r, k) \<Rightarrow> or_return (must r) k (\<lambda>pid.
      case mgr_bootstrap pid [startup, 0, 0] (k\<lparr>ks_supervisor := pid\<rparr>) of (r, k) \<Rightarrow>
      or_return r k (\<lambda>_. (Ok pid, k)))))"

section \<open>The loop\<close>

text \<open>\<open>matches!(manager.state(pid), Ok(State::Exited(_)))\<close>.\<close>

definition has_exited :: "pid \<Rightarrow> kstate \<Rightarrow> bool" where
  "has_exited pid k = (case mgr_state k pid of Ok st \<Rightarrow> is_exited st | _ \<Rightarrow> False)"

fun native_loop :: "artefacts \<Rightarrow> pid \<Rightarrow> surroundings list \<Rightarrow> kstate \<Rightarrow> (process_error, unit) outcome option \<times> kstate" where
  "native_loop ar pid es k =
     (if ks_shutdown k then (Some (Ok ()), k)
      else if has_exited pid k
      then (case clear_image_stage k of (r :: (process_error, unit) outcome, k) \<Rightarrow> (Some Panic, k))
      else case es of
        [] \<Rightarrow> (None, k)
      | e # es \<Rightarrow> (case kernel_step ar e k of (r, k) \<Rightarrow> (case r of Ok _ \<Rightarrow> native_loop ar pid es k | _ \<Rightarrow> (Some Panic, k))))"

declare native_loop.simps [simp del]

section \<open>Teardown\<close>

definition teardown_slot :: "(nat \<Rightarrow> reading) \<Rightarrow> nat \<Rightarrow> kstate \<Rightarrow> (process_error, unit) outcome \<times> kstate" where
  "teardown_slot rd slot k =
     (case life_pid_at (ks_table k) slot of
        None \<Rightarrow> (Ok (), k)
      | Some pid \<Rightarrow>
          (case (if has_exited pid k then (Ok (), k)
                 else case mgr_kill rd pid k of (r, k) \<Rightarrow> (must r, k)) of (r, k) \<Rightarrow>
           or_return r k (\<lambda>_. case mgr_wait pid k of (r, k) \<Rightarrow> or_return (must r) k (\<lambda>_. (Ok (), k)))))"

primrec teardown_slots :: "(nat \<Rightarrow> nat \<Rightarrow> reading) \<Rightarrow> nat list \<Rightarrow> kstate \<Rightarrow> (process_error, unit) outcome \<times> kstate" where
  "teardown_slots rd [] k = (Ok (), k)"
| "teardown_slots rd (slot # slots) k =
     (case teardown_slot (rd slot) slot k of (r, k) \<Rightarrow> or_return r k (\<lambda>_. teardown_slots rd slots k))"

definition native_stop :: "session_world \<Rightarrow> kstate \<Rightarrow> (process_error, unit) outcome \<times> kstate" where
  "native_stop w k =
     (case clear_image_stage k of (r, k) \<Rightarrow> or_return r k (\<lambda>_. teardown_slots (sw_stops w) [0..<capacity] k))"

text \<open>The device gets a thousand ticks to finish the last request.\<close>

primrec native_drain :: "surroundings list \<Rightarrow> kstate \<Rightarrow> (process_error, unit) outcome \<times> kstate" where
  "native_drain [] k = (Ok (), k)"
| "native_drain (e # es) k =
     (case kernel_tick e k of (r, k) \<Rightarrow> or_return r k (\<lambda>_.
      if block_counts (sv_broker (ks_block k)) = (0, 0) then (Ok (), k) else native_drain es k))"

definition service_shutdown :: "(device_error, unit) outcome \<Rightarrow> block_service \<Rightarrow> (device_error, unit) outcome \<times> block_service" where
  "service_shutdown answer v =
     (if block_counts (sv_broker v) \<noteq> (0, 0) then (Err DevBusy, v)
      else if sv_device v then or_return answer (v\<lparr>sv_device := False\<rparr>) (\<lambda>_. (Ok (), v\<lparr>sv_device := False\<rparr>))
      else (Ok (), v))"

definition native_close :: "session_world \<Rightarrow> nat \<Rightarrow> kstate \<Rightarrow> (process_error, unit) outcome \<times> kstate" where
  "native_close w before k =
     (case (if block_counts (sv_broker (ks_block k)) = (0, 0) \<and> sv_device (ks_block k)
            then sw_close_driver w (ks_dma k) (ks_memory k) else (ks_dma k, ks_memory k)) of (d, p) \<Rightarrow>
      case service_shutdown (sw_close w) (ks_block k) of (r, v) \<Rightarrow>
      let k = k\<lparr>ks_block := v, ks_memory := p, ks_dma := d\<rparr> in
      or_return (must r) k (\<lambda>_.
      if broker_counts (ks_broker k) \<noteq> (0, 0) \<or> \<not> list_all (\<lambda>s. s = None) (ks_processes k) \<or> free_frames (ks_memory k) \<noteq> before
      then (Panic, k) else (Ok (), k)))"

definition native_teardown :: "session_world \<Rightarrow> nat \<Rightarrow> kstate \<Rightarrow> (process_error, unit) outcome \<times> kstate" where
  "native_teardown w before k =
     (case native_stop w k of (r, k) \<Rightarrow> or_return r k (\<lambda>_.
      case native_drain (map (sw_ticks w) [0..<1000]) k of (r, k) \<Rightarrow> or_return r k (\<lambda>_. native_close w before k)))"

definition native_run :: "artefacts \<Rightarrow> session_world \<Rightarrow> u64 \<Rightarrow> nat \<Rightarrow> physical \<Rightarrow> (process_error, unit) outcome option \<times> kstate" where
  "native_run ar w startup root p =
     (case native_boot ar w startup root p of (r, k) \<Rightarrow>
      case r of
        Ok pid \<Rightarrow>
          (case native_loop ar pid (sw_steps w) k of (r, k) \<Rightarrow>
           case r of
             None \<Rightarrow> (None, k)
           | Some x \<Rightarrow> (case or_return x k (\<lambda>_. native_teardown w (free_frames p) k) of (r, k) \<Rightarrow> (Some r, k)))
      | Err e \<Rightarrow> (Some (Err e), k)
      | Panic \<Rightarrow> (Some Panic, k))"

end
