(* ===== verification/Session_Safety.thy ===== *)
theory Session_Safety
  imports Kernel_Safety Native_Session
begin

text \<open>
  Booting the kernel and running it. \<open>native_boot\<close> establishes the invariant of \<open>Kernel_Invariant\<close>, every scheduling
  step keeps it, so it holds after any number of steps with any programs, device answers and readings.
\<close>

section \<open>Boot\<close>

lemma tenants_empty [simp]: "tenants (replicate n None) = replicate n None"
  by (simp add: tenants_def)

lemma roots_empty [simp]: "roots (replicate n None) = {}"
  by (simp add: roots_def)

lemma roots_tenants: "roots (tenants ps) = {as_root (ps_space s) | s. Some s \<in> set ps}"
proof -
  have "set (flatten (tenants ps)) = {(ps_space s, ps_heap s) | s. Some s \<in> set ps}"
    by (induction ps) (auto simp: tenants_def split: option.splits)
  then show ?thesis unfolding roots_def by (auto simp: image_iff) blast
qed

lemma empty_memory:
  assumes "spaces_inv p root {}"
  shows "mem_ok p root (replicate n None) {} {}" and "leftover p (replicate n None) {} {} = alloc_set p"
  using assms spaces_invD(2) [OF assms] by (auto simp: mem_ok_def leftover_def residue_def slot_keys_distinct_def)

lemma opened_ok:
  assumes p: "spaces_inv p root {}" and d: "driver_ok (sw_open_driver w)"
    and dq: "sw_open_driver w {} p = (D, q)" and v: "service_open (sw_open w) (ks_block (kernel_new root p)) = (r, v)"
    and k: "k = (kernel_new root p)\<lparr>ks_block := v, ks_memory := q, ks_dma := D\<rparr>"
  shows "kernel_inv k" and "idle k" and "unowned {} k = alloc_set p" and "pool (ks_memory k) = pool p"
proof -
  note E = empty_memory [OF p, of capacity]
  note M = mem_driver [OF E(1) d dq]
  have new: "sv_broker v = block_new"
    using v by (cases "sw_open w") (auto simp: service_open_def kernel_new_def split: if_splits)
  have "view (grants block_new) x = None" "block_active block_new = None" for x
    by (simp_all add: block_new_def block_active_def)
  then have "service_ok life_new v" using new by (simp add: service_ok_def held_by_live_def)
  moreover have "held_by_live life_new (handles broker_new)" by (simp add: held_by_live_def broker_new_def)
  moreover have "slots_match life_new (replicate capacity None)" by (simp add: life_new_def list_all2_conv_all_nth)
  ultimately show "kernel_inv k"
    using M(1) life_new_inv by (simp add: kernel_inv_def kernel_ok_def k kernel_new_def stage_frames_def stage_ok_def)
  show "idle k" by (simp add: idle_def k kernel_new_def life_new_def)
  show "unowned {} k = alloc_set p" using M(3) E(2) by (simp add: unowned_def k kernel_new_def)
  show "pool (ks_memory k) = pool p" using M(5) by (simp add: k pool_def)
qed


lemma return_Ok_iff: "or_return m s f = (Ok b, s') \<longleftrightarrow> (\<exists>a. m = Ok a \<and> f a = (Ok b, s'))"
  by (cases m) simp_all

lemma supervisor_fields [simp]:
  "kernel_ok B (k\<lparr>ks_supervisor := q\<rparr>) = kernel_ok B k" "unowned B (k\<lparr>ks_supervisor := q\<rparr>) = unowned B k"
  "idle (k\<lparr>ks_supervisor := q\<rparr>) = idle k"
  by (simp_all add: kernel_ok_def unowned_def idle_def)

lemma calm_all_idle: "calm k k' \<Longrightarrow> idle k \<Longrightarrow> idle k'"
  unfolding idle_def calm_def by blast

lemma native_boot_ok:
  assumes p: "spaces_inv p root {}" and d: "driver_ok (sw_open_driver w)" and b: "native_boot ar w startup root p = (Ok pid, k)"
  shows "kernel_inv k" and "idle k" and "unowned (stage_frames (ks_stage k)) k = alloc_set p" and "pool (ks_memory k) = pool p"
proof -
  obtain D q where dq: "sw_open_driver w {} p = (D, q)" by fastforce
  obtain r v where v: "service_open (sw_open w) (ks_block (kernel_new root p)) = (r, v)" by fastforce
  define k0 where "k0 = (kernel_new root p)\<lparr>ks_block := v, ks_memory := q, ks_dma := D\<rparr>"
  note O = opened_ok [OF p d dq v k0_def]
  have stage0: "stage_frames (ks_stage k0) = {}" by (simp add: k0_def kernel_new_def stage_frames_def)
  note ok0 = kernel_invD(1) [OF O(1), unfolded stage0]
  obtain r1 k1 where l: "catalog_launch ar 0 k0 = (r1, k1)" by fastforce
  have L: "smooth x {} k0 k1" "\<And>pid. r1 = Ok pid \<Longrightarrow> newborn pid k1" for x
    using settledD [OF catalog_launch_smooth [OF ok0, of x] l] by blast+
  let ?k1 = "k1\<lparr>ks_supervisor := pid\<rparr>"
  have new: "ks_dma (kernel_new root p) = {}" "ks_memory (kernel_new root p) = p" by (simp_all add: kernel_new_def)
  have "or_return (must r) k0 (\<lambda>_. or_return (must r1) k1 (\<lambda>a. case mgr_bootstrap a [startup, 0, 0] (k1\<lparr>ks_supervisor := a\<rparr>) of
      (r, k) \<Rightarrow> or_return r k (\<lambda>_. (Ok a, k)))) = (Ok pid, k)"
    using b unfolding native_boot_def Let_def new dq v prod.case k0_def [symmetric] l .
  then obtain a where a: "must r1 = (Ok a :: (process_error, pid) outcome)" "(case mgr_bootstrap a [startup, 0, 0] (k1\<lparr>ks_supervisor := a\<rparr>) of
      (r, k) \<Rightarrow> or_return r k (\<lambda>_. (Ok a, k))) = (Ok pid, k)" unfolding return_Ok_iff by blast
  obtain x1 x2 where x: "mgr_bootstrap a [startup, 0, 0] (k1\<lparr>ks_supervisor := a\<rparr>) = (x1, x2)" by fastforce
  have "x1 = Ok ()" "a = pid" "x2 = k" using a(2) x by (cases x1, simp_all)+
  then have r: "r1 = Ok pid" and boot: "mgr_bootstrap pid [startup, 0, 0] ?k1 = (Ok (), k)"
    using a(1) x by (cases r1, simp_all)+
  have ok1: "kernel_ok {} ?k1" "idle ?k1" "ks_stage ?k1 = None" "unowned {} ?k1 = alloc_set p" "pool (ks_memory ?k1) = pool p"
    using step_okD(4) [OF smoothD(1) [OF L(1)]] O(2-4) smoothD(3,5) [OF L(1)] calm_all_idle [OF smoothD(2) [OF L(1)]] catalog_pool [OF l] stage0
    by (simp_all add: k0_def kernel_new_def)
  obtain i s where i: "i < capacity" "pt_slots (ks_table ?k1) ! i = Some \<lparr>pr_pid = pid, pr_state = Ready\<rparr>" "ks_processes ?k1 ! i = Some s"
      "proc_ok \<lparr>pr_pid = pid, pr_state = Dormant\<rparr> s" using L(2) [OF r] by (auto simp: newborn_def)
  note P = slot_of_pid [OF kernel_okD(1) [OF ok1(1)] i(1,2), simplified]
  let ?s = "s\<lparr>ps_frame := frame_set_arguments [startup, 0, 0] (ps_frame s)\<rparr>"
  have k: "k = set_process i (Some ?s) ?k1"
    using boot P i by (simp add: mgr_bootstrap_def mgr_live_def is_exited_def proc_ok_def)
  have same: "set_state (ks_table k1) i Ready = ks_table k1" using set_state_same i(2) by fastforce
  have S: "smooth x {} ?k1 k" for x
    by (rule slot_changed(2) [OF ok1(1) i(1-3), of ?s Ready])
      (use i(2,4) in \<open>simp_all add: k set_process_def same proc_ok_def is_exited_def frame_set_arguments_def frame_valid_user_def\<close>)
  have stage: "ks_stage k = None" using smoothD(3) [OF S] ok1(3) by simp
  then show "kernel_inv k" using smoothD(5) [OF S] by (simp add: kernel_inv_def stage_frames_def stage_ok_def)
  show "idle k" by (rule calm_all_idle [OF smoothD(2) [OF S] ok1(2)])
  show "unowned (stage_frames (ks_stage k)) k = alloc_set p"
    using step_okD(4) [OF smoothD(1) [OF S]] ok1(4) stage by (simp add: stage_frames_def)
  show "pool (ks_memory k) = pool p" using ok1(5) by (simp add: k set_process_def)
qed

section \<open>Running\<close>

text \<open>Steps in a row, each with its own surroundings; there is no result after a step that fails.\<close>

primrec kernel_run :: "artefacts \<Rightarrow> surroundings list \<Rightarrow> kstate \<Rightarrow> kstate option" where
  "kernel_run ar [] k = Some k"
| "kernel_run ar (e # es) k = (case kernel_step ar e k of (Ok _, k) \<Rightarrow> kernel_run ar es k | _ \<Rightarrow> None)"

definition surroundings_ok :: "surroundings \<Rightarrow> bool" where
  "surroundings_ok e \<longleftrightarrow> user_ok (en_user e) \<and> driver_ok (en_driver e) \<and> answers_ok (en_device e)"

lemma step_taken:
  assumes "kernel_inv k" and "idle k" and "surroundings_ok e"
  obtains c k' where "kernel_step ar e k = (Ok c, k')" "kernel_step_ok c k k'"
proof -
  have e: "user_ok (en_user e)" "driver_ok (en_driver e)" "answers_ok (en_device e)" using assms(3) by (simp_all add: surroundings_ok_def)
  obtain r k' where "kernel_step ar e k = (r, k')" "\<exists>c. r = Ok c \<and> kernel_step_ok c k k'"
    by (rule settledE [OF kernel_step_settles [OF assms(1,2) e]])
  then show ?thesis using that by blast
qed

lemma step_kept:
  assumes "kernel_step_ok c k k'"
  shows "unowned (stage_frames (ks_stage k')) k' = unowned (stage_frames (ks_stage k)) k" and "pool (ks_memory k') = pool (ks_memory k)"
    and "kernel_inv k'" and "idle k'"
proof -
  obtain x where "step_ok x (stage_frames (ks_stage k)) k (stage_frames (ks_stage k')) k'"
    using assms unfolding kernel_step_ok_def by (cases c) blast+
  then show "unowned (stage_frames (ks_stage k')) k' = unowned (stage_frames (ks_stage k)) k" by (rule step_okD(4))
qed (use assms in \<open>auto simp: kernel_step_ok_def\<close>)

lemma run_taken:
  assumes "kernel_inv k" and "idle k" and "list_all surroundings_ok es"
  shows "\<exists>k'. kernel_run ar es k = Some k' \<and> kernel_inv k' \<and> idle k' \<and>
    unowned (stage_frames (ks_stage k')) k' = unowned (stage_frames (ks_stage k)) k \<and> pool (ks_memory k') = pool (ks_memory k)"
  using assms
proof (induction es arbitrary: k)
  case (Cons e es)
  have e: "surroundings_ok e" using Cons.prems(3) by simp
  obtain c k1 where s: "kernel_step ar e k = (Ok c, k1)" "kernel_step_ok c k k1" by (rule step_taken [OF Cons.prems(1,2) e])
  then show ?case using Cons.IH [of k1] step_kept [OF s(2)] Cons.prems(3) by simp
qed simp


text \<open>The loop is these steps until a shutdown is requested or the supervisor exits.\<close>

lemma loop_ends:
  assumes "kernel_inv k" and "idle k" and "list_all surroundings_ok es"
  shows "\<exists>n\<le>length es. \<exists>k'. kernel_run ar (take n es) k = Some k' \<and>
    (case fst (native_loop ar pid es k) of
       None \<Rightarrow> n = length es \<and> \<not> ks_shutdown k' \<and> \<not> has_exited pid k'
     | Some r \<Rightarrow> if ks_shutdown k' then r = Ok () else has_exited pid k' \<and> r = Panic)"
  using assms
proof (induction es arbitrary: k)
  case Nil
  then show ?case by (simp add: native_loop.simps [of ar pid "[]"] split: prod.splits)
next
  case (Cons e es)
  show ?case
  proof (cases "ks_shutdown k \<or> has_exited pid k")
    case True
    then show ?thesis by (intro exI [of _ 0]) (auto simp: native_loop.simps [of ar pid "e # es"] split: prod.splits)
  next
    case False
    have e: "surroundings_ok e" using Cons.prems(3) by simp
    obtain c k1 where s: "kernel_step ar e k = (Ok c, k1)" "kernel_step_ok c k k1" by (rule step_taken [OF Cons.prems(1,2) e])
    have l: "native_loop ar pid (e # es) k = native_loop ar pid es k1"
      using False s(1) by (simp add: native_loop.simps [of ar pid "e # es"])
    have "list_all surroundings_ok es" using Cons.prems(3) by simp
    from Cons.IH [OF step_kept(3,4) [OF s(2)] this] obtain n k' where n: "n \<le> length es" "kernel_run ar (take n es) k1 = Some k'"
      "case fst (native_loop ar pid es k1) of
         None \<Rightarrow> n = length es \<and> \<not> ks_shutdown k' \<and> \<not> has_exited pid k'
       | Some r \<Rightarrow> if ks_shutdown k' then r = Ok () else has_exited pid k' \<and> r = Panic" by blast
    show ?thesis
      by (rule exI [of _ "Suc n"]) (use n s(1) in \<open>simp add: l split: option.splits\<close>)
  qed
qed

lemma spared:
  assumes "kernel_step_ok c k k'" and "i < capacity" and "pt_slots (ks_table k) ! i = Some r" "pt_slots (ks_table k') ! i = Some r'"
    and "pr_pid r' = pr_pid r" and "c \<noteq> Some (pr_pid r)" and "ks_processes k ! i = Some s" "ks_processes k' ! i = Some s'"
  shows "ps_space s' = ps_space s \<and> same_view (ks_memory k) (as_root (ps_space s)) (ks_memory k')"
proof -
  obtain x where x: "c = None \<or> c = Some x" "x \<noteq> pr_pid r" using assms(6) that [of "pr_pid r + 1"] by (cases c) auto
  then have "others_kept x k k'" using assms(1) step_okD(6) unfolding kernel_step_ok_def by blast
  from others_keptD [OF this assms(2-5) _ assms(7,8)] x(2) show ?thesis by simp
qed

section \<open>A machine that boots\<close>

text \<open>The manifest of a supervisor whose executable is the one-page image \<open>demo_elf\<close>, and surroundings in which nothing happens.\<close>

definition demo_manifest :: bytes where
  "demo_manifest = app_magic @ [2, 0, 128, 0, 0, 0, 1, 0, 1, 0, 0, 0, 0, 0, 0, 0] @ replicate 8 0 @
     (97 # replicate 31 0) @ (map of_char ''supervisor.elf'' @ replicate 18 0) @ replicate 32 0"

definition demo_artefacts :: artefacts where
  "demo_artefacts = \<lparr>ar_sha256 = (\<lambda>_. replicate 32 0), ar_catalog = (\<lambda>_. (demo_manifest, demo_elf))\<rparr>"

definition demo_reading :: reading where
  "demo_reading = \<lparr>rd_ticks = 0, rd_ready = False, rd_serial = False, rd_written = False, rd_input = []\<rparr>"

definition demo_surroundings :: surroundings where
  "demo_surroundings = \<lparr>en_before = (\<lambda>_. demo_reading), en_during = (\<lambda>_. demo_reading), en_after = (\<lambda>_. demo_reading),
     en_call = demo_reading,
     en_device = \<lparr>da_poll = None, da_start = None, da_recover = (True, None), da_recover_again = (True, None), da_now = 0, da_later = 0\<rparr>,
     en_driver = Pair, en_user = (\<lambda>r f p. (f\<lparr>fm_registers := replicate 15 0, fm_vector := 32\<rparr>, 0, p))\<rparr>"

definition demo_world :: session_world where
  "demo_world = \<lparr>sw_open = Ok \<lparr>dev_sectors = 64, dev_read_only = False\<rparr>, sw_open_driver = Pair, sw_steps = [],
     sw_stops = (\<lambda>_ _. demo_reading), sw_ticks = (\<lambda>_. demo_surroundings), sw_close = Ok (), sw_close_driver = Pair\<rparr>"

lemma demo_calm: "driver_ok (sw_open_driver demo_world)" "surroundings_ok demo_surroundings"
  by (simp_all add: demo_world_def demo_surroundings_def surroundings_ok_def driver_ok_def user_ok_def answers_ok_def)

lemma demo_manifest_fields:
  "length demo_manifest = 128" "take 8 demo_manifest = app_magic" "u16_at demo_manifest 8 = 2" "u16_at demo_manifest 10 = 128"
  "u32_at demo_manifest 12 = 0x10000" "u16_at demo_manifest 16 = 1" "u64_at demo_manifest 24 = 0"
  "field_at demo_manifest 32 32 = 97 # replicate 31 0" "field_at demo_manifest 64 32 = map of_char ''supervisor.elf'' @ replicate 18 0"
  "field_at demo_manifest 96 32 = replicate 32 0"
proof -
  show "length demo_manifest = 128" "take 8 demo_manifest = app_magic" by (simp_all add: demo_manifest_def app_magic_def)
  show "u16_at demo_manifest 8 = 2" by code_simp
  show "u16_at demo_manifest 10 = 128" by code_simp
  show "u32_at demo_manifest 12 = 0x10000" by code_simp
  show "u16_at demo_manifest 16 = 1" by code_simp
  show "u64_at demo_manifest 24 = 0" by code_simp
qed (simp_all add: demo_manifest_def app_magic_def field_at_def)

lemma demo_names:
  "manifest_name (97 # replicate 31 0) = Some [97]"
  "manifest_name (map of_char ''supervisor.elf'' @ replicate 18 0) = Some (map of_char ''supervisor.elf'')"
  "ends_with_elf (map of_char ''supervisor.elf'')"
proof -
  show "manifest_name (97 # replicate 31 0) = Some [97]" by code_simp
  show "manifest_name (map of_char ''supervisor.elf'' @ replicate 18 0) = Some (map of_char ''supervisor.elf'')" by code_simp
  show "ends_with_elf (map of_char ''supervisor.elf'')" unfolding ends_with_elf_def by simp
qed

lemma demo_admitted:
  obtains m where "manifest_parse demo_manifest = Ok m" "mf_executable m = map of_char ''supervisor.elf''" "mf_sha256 m = replicate 32 0"
    "manifest_admitted m app_known"
proof
  show "manifest_parse demo_manifest = Ok \<lparr>mf_identity = [97], mf_executable = map of_char ''supervisor.elf'',
      mf_version = [u16_at demo_manifest 18, u16_at demo_manifest 20, u16_at demo_manifest 22], mf_requests = 0, mf_sha256 = replicate 32 0\<rparr>"
    unfolding manifest_parse_def demo_manifest_fields demo_names option.case by (simp add: demo_names ends_with_elf_def proc_version_def)
qed (simp_all add: manifest_admitted_def)

lemma demo_boots: "\<exists>pid k. native_boot demo_artefacts demo_world 7 4096 roomy_physical = (Ok pid, k)"
proof -
  define v where "v = \<lparr>sv_broker = block_new, sv_observation = hold_default, sv_device = True,
    sv_geometry = \<lparr>dev_sectors = 64, dev_read_only = False\<rparr>, sv_hold_next = False, sv_reject_next = False\<rparr>"
  define k where "k = (kernel_new 4096 roomy_physical)\<lparr>ks_block := v, ks_memory := roomy_physical, ks_dma := {}\<rparr>"
  let ?t = "life_new\<lparr>pt_next := 2, pt_slots := (pt_slots life_new)[0 := Some \<lparr>pr_pid = 1, pr_state = Ready\<rparr>]\<rparr>"
  have opened: "service_open (sw_open demo_world) (ks_block (kernel_new 4096 roomy_physical)) = (Ok (), v)"
    by (simp add: service_open_def demo_world_def kernel_new_def v_def block_counts_def block_new_def table_count_def new_table_def)
  have slots: "pt_slots life_new = None # replicate 15 None" by (simp add: life_new_def replicate_Suc [symmetric] del: replicate_Suc)
  have create: "life_create life_new = (Ok (0, 1), ?t)"
    by (simp add: life_create_def slots checked_add_def) (simp add: life_new_def)
  obtain m where m: "manifest_parse demo_manifest = Ok m" "mf_executable m = map of_char ''supervisor.elf''"
    "mf_sha256 m = replicate 32 0" "manifest_admitted m app_known" by (rule demo_admitted)
  obtain ld q where ld: "loader_load (kernel_space k) demo_elf (ks_memory k) = (Ok ld, q)"
  proof -
    obtain res q where run: "loader_load (kernel_space k) demo_elf (ks_memory k) = (res, q)" by fastforce
    have "spaces_inv (ks_memory k) (ks_root k) {}" using roomy_spaces by (simp add: k_def kernel_new_def)
    from this run show ?thesis
    proof (cases rule: loader_load_cases)
      case (exhausted img)
      have "start_page demo_segment = 0x400000" "end_page demo_segment = 0x401000"
        by (simp_all add: start_page_def end_page_def demo_segment_def)
      then show ?thesis using exhausted(1,3) demo_elf_parse roomy_spaces(2)
        by (auto simp: frames_needed_def page_count_def stack_pages_def k_def kernel_new_def)
    qed (use demo_elf_parse that run in auto)
  qed
  have len: "length demo_elf \<le> max_bytes" by (simp add: demo_elf_def max_bytes_def)
  have launch: "catalog_launch demo_artefacts 0 k = (Ok 1, set_process 0 (Some
      \<lparr>ps_parent = 0, ps_program = 0, ps_space = ld_space ld, ps_heap = heap_new, ps_frame = frame_user (of_nat (ld_entry ld)) (of_nat stack_top) [0, 0, 0],
       ps_preemptions = 0, ps_reports = 0, ps_last_report = 0, ps_pending = None, ps_calls = 0\<rparr>) (k\<lparr>ks_table := ?t, ks_memory := q\<rparr>))"
    using create m ld len
    by (simp add: catalog_launch_def catalog_name_def demo_artefacts_def app_launch_def demo_elf_parse mgr_create_def k_def kernel_new_def)
  have table: "life_state ?t 1 = Ok Ready" "life_slot ?t 1 = Ok 0"
    by (simp_all add: life_state_def life_slot_def slots has_pid_def)
  have new: "sw_open_driver demo_world (ks_dma (kernel_new 4096 roomy_physical)) (ks_memory (kernel_new 4096 roomy_physical)) = ({}, roomy_physical)"
    "length (ks_processes k) = capacity" by (simp_all add: demo_world_def kernel_new_def k_def)
  show ?thesis
    unfolding native_boot_def Let_def new opened prod.case k_def [symmetric] launch using table new(2)
    by (simp add: mgr_bootstrap_def mgr_live_def is_exited_def set_process_def frame_user_def frame_set_arguments_def)
qed

section \<open>The property\<close>

text \<open>C38 A running kernel. Once the kernel has booted, it takes any number of scheduling steps, with whatever programs
  running in its processes and whatever the devices and the clock answer, and no assertion or \<open>expect\<close> of the loop, of the
  system calls, of the process manager, of the brokers, the loader or the page tables fails. After each step the
  process table, the address spaces, both brokers and the image being staged are well formed and no process is
  left running; the loop ends only when a shutdown is requested or, with a panic, when the supervisor has exited. A process other than the one that had the turn keeps its address space, every mapping and every byte
  of it. Every allocated frame that was not allocated before the boot belongs to a process, to the image being staged
  or to the driver, so no frame leaks; and the set of frames the allocator manages is the same.

  The programs are functions that run on the registers and the memory of a space: they may change only pages that
  are mapped writable for the user in it, and not the allocator. The driver may allocate and release frames, and change only frames of its own; a block read
  from the device has the size of a sector.\<close>

theorem kernel_session_safe:
  assumes "spaces_inv p root {}" and "driver_ok (sw_open_driver w)" and "native_boot ar w startup root p = (Ok pid, k0)"
    and "list_all surroundings_ok es" and "surroundings_ok e"
  shows "(\<exists>k c k'. kernel_run ar es k0 = Some k \<and> kernel_step ar e k = (Ok c, k') \<and> kernel_inv k' \<and> idle k' \<and>
    (\<forall>i<capacity. \<forall>r r' s s'. pt_slots (ks_table k) ! i = Some r \<and> pt_slots (ks_table k') ! i = Some r' \<and> pr_pid r' = pr_pid r \<and>
       ks_processes k ! i = Some s \<and> ks_processes k' ! i = Some s' \<and> c \<noteq> Some (pr_pid r) \<longrightarrow>
       ps_space s' = ps_space s \<and> same_view (ks_memory k) (as_root (ps_space s)) (ks_memory k')) \<and>
    residue (ks_memory k') {as_root (ps_space s) | s. Some s \<in> set (ks_processes k')} - stage_frames (ks_stage k') - ks_dma k' = alloc_set p \<and>
    pool (ks_memory k') = pool p) \<and>
    (\<exists>n\<le>length es. \<exists>k. kernel_run ar (take n es) k0 = Some k \<and>
    (case fst (native_loop ar pid es k0) of
       None \<Rightarrow> n = length es \<and> \<not> ks_shutdown k \<and> \<not> has_exited pid k
     | Some r \<Rightarrow> if ks_shutdown k then r = Ok () else has_exited pid k \<and> r = Panic))"
proof (rule conjI [OF _ loop_ends [OF native_boot_ok(1,2) [OF assms(1-3)] assms(4)]])
  note B = native_boot_ok [OF assms(1-3)]
  obtain k where k: "kernel_run ar es k0 = Some k" "kernel_inv k" "idle k" "unowned (stage_frames (ks_stage k)) k = alloc_set p"
    "pool (ks_memory k) = pool p" using run_taken [OF B(1,2) assms(4), of ar] B(3,4) by auto
  obtain c k' where s: "kernel_step ar e k = (Ok c, k')" "kernel_step_ok c k k'" by (rule step_taken [OF k(2,3) assms(5)])
  have "residue (ks_memory k') {as_root (ps_space s) | s. Some s \<in> set (ks_processes k')} - stage_frames (ks_stage k') - ks_dma k' = alloc_set p"
    using step_kept(1) [OF s(2)] k(4) by (simp add: unowned_def leftover_def roots_tenants)
  moreover have "\<forall>i<capacity. \<forall>r r' s s'. pt_slots (ks_table k) ! i = Some r \<and> pt_slots (ks_table k') ! i = Some r' \<and> pr_pid r' = pr_pid r \<and>
       ks_processes k ! i = Some s \<and> ks_processes k' ! i = Some s' \<and> c \<noteq> Some (pr_pid r) \<longrightarrow>
       ps_space s' = ps_space s \<and> same_view (ks_memory k) (as_root (ps_space s)) (ks_memory k')"
    by (intro allI impI, elim conjE) (rule spared [OF s(2)])
  moreover have "pool (ks_memory k') = pool p" using step_kept(2) [OF s(2)] k(5) by simp
  ultimately show "\<exists>k c k'. kernel_run ar es k0 = Some k \<and> kernel_step ar e k = (Ok c, k') \<and> kernel_inv k' \<and> idle k' \<and>
    (\<forall>i<capacity. \<forall>r r' s s'. pt_slots (ks_table k) ! i = Some r \<and> pt_slots (ks_table k') ! i = Some r' \<and> pr_pid r' = pr_pid r \<and>
       ks_processes k ! i = Some s \<and> ks_processes k' ! i = Some s' \<and> c \<noteq> Some (pr_pid r) \<longrightarrow>
       ps_space s' = ps_space s \<and> same_view (ks_memory k) (as_root (ps_space s)) (ks_memory k')) \<and>
    residue (ks_memory k') {as_root (ps_space s) | s. Some s \<in> set (ks_processes k')} - stage_frames (ks_stage k') - ks_dma k' = alloc_set p \<and>
    pool (ks_memory k') = pool p" using k(1) s(1) step_kept(3,4) [OF s(2)] by blast
qed

theorem kernel_session_safe_witness:
  "\<exists>pid k0 c k'. native_boot demo_artefacts demo_world 7 4096 roomy_physical = (Ok pid, k0) \<and>
     kernel_step demo_artefacts demo_surroundings k0 = (Ok c, k') \<and> kernel_inv k' \<and> pool (ks_memory k') = pool roomy_physical"
proof -
  obtain pid k0 where b: "native_boot demo_artefacts demo_world 7 4096 roomy_physical = (Ok pid, k0)" using demo_boots by blast
  have "list_all surroundings_ok []" by simp
  from kernel_session_safe [OF roomy_spaces(1) demo_calm(1) b this demo_calm(2)] b show ?thesis by auto
qed

end
