(* ===== verification/Region.thy ===== *)
theory Region
  imports Bytes
begin

unbundle bit_operations_syntax

text \<open>
  \<open>crates/sdk/src/memory/region.rs\<close>: the bounds-checked view of the contiguous bytes an allocator
  manages. A \<open>mem_region\<close> is the address of the first byte and the bytes themselves, so the
  length of the region is the length of the list: \<open>grow\<close> appends the bytes the owner hands over
  and \<open>shrink\<close> drops the bytes after the new end. A \<open>usize\<close> is a \<open>nat\<close>; \<open>uadd\<close> and \<open>usub\<close> are
  the operators \<open>+\<close> and \<open>-\<close> on it, and an overflow, which a build with overflow checks turns into
  a panic and a build without them wraps, is the outcome \<open>Panic\<close>. A header is three words in
  little-endian order, as \<open>repr(C)\<close> lays it out on the supported target.
\<close>

section \<open>Definitions\<close>

subsection \<open>Machine-word arithmetic\<close>

definition uadd :: "nat \<Rightarrow> nat \<Rightarrow> ('e, nat) outcome" where
  "uadd a b = expect (checked_add64 a b)"

definition usub :: "nat \<Rightarrow> nat \<Rightarrow> ('e, nat) outcome" where
  "usub a b = (if b \<le> a then Ok (a - b) else Panic)"

definition checked_next_multiple_of :: "nat \<Rightarrow> nat \<Rightarrow> nat option" where
  "checked_next_multiple_of x m =
     (if m = 0 then None
      else if x mod m = 0 then Some x
      else checked_add64 x (m - x mod m))"

definition is_power_of_two :: "nat \<Rightarrow> bool" where
  "is_power_of_two n = list_ex (\<lambda>k. n = 2 ^ k) [0..<64]"

subsection \<open>Headers and regions\<close>

definition header_align :: nat where "header_align = 8"
definition header_bytes :: nat where "header_bytes = 24"

record header =
  hd_size :: nat
  hd_prev :: nat
  hd_state :: nat

record mem_region =
  rg_base :: nat
  rg_bytes :: bytes

definition usize_le :: "nat \<Rightarrow> bytes" where
  "usize_le n = to_le 8 (of_nat n :: u64)"

definition usize_at :: "bytes \<Rightarrow> nat \<Rightarrow> nat" where
  "usize_at m p = unat (u64_at m p)"

definition header_read :: "bytes \<Rightarrow> nat \<Rightarrow> header" where
  "header_read m p = \<lparr>hd_size = usize_at m p, hd_prev = usize_at m (p + 8), hd_state = usize_at m (p + 16)\<rparr>"

definition header_write :: "header \<Rightarrow> bytes" where
  "header_write h = usize_le (hd_size h) @ usize_le (hd_prev h) @ usize_le (hd_state h)"

definition rg_len :: "mem_region \<Rightarrow> nat" where
  "rg_len r = length (rg_bytes r)"

definition rg_new :: "nat \<Rightarrow> bytes \<Rightarrow> ('e, mem_region option) outcome" where
  "rg_new start bs =
     and_then (expect (checked_next_multiple_of start header_align)) (\<lambda>next.
     let padding = next - start in
     if length bs < padding then Ok None
     else let len = (length bs - padding) div header_align * header_align in
       if len = 0 then Ok None
       else Ok (Some \<lparr>rg_base = start + padding, rg_bytes = take len (drop padding bs)\<rparr>))"

definition rg_from_raw :: "nat \<Rightarrow> bytes \<Rightarrow> mem_region option" where
  "rg_from_raw base bs =
     (if base mod header_align \<noteq> 0 then None
      else let len = length bs div header_align * header_align in
        if len = 0 then None else Some \<lparr>rg_base = base, rg_bytes = take len bs\<rparr>)"

definition rg_holds :: "mem_region \<Rightarrow> nat \<Rightarrow> nat \<Rightarrow> bool" where
  "rg_holds r p n = (case checked_add64 p n of None \<Rightarrow> False | Some e \<Rightarrow> e \<le> rg_len r)"

definition rg_header :: "mem_region \<Rightarrow> nat \<Rightarrow> header option" where
  "rg_header r p =
     (if p mod header_align \<noteq> 0 \<or> \<not> rg_holds r p header_bytes then None else Some (header_read (rg_bytes r) p))"

definition rg_set_header :: "mem_region \<Rightarrow> nat \<Rightarrow> header \<Rightarrow> bool \<times> mem_region" where
  "rg_set_header r p h =
     (if p mod header_align \<noteq> 0 \<or> \<not> rg_holds r p header_bytes then (False, r)
      else (True, r\<lparr>rg_bytes := put (rg_bytes r) p (header_write h)\<rparr>))"

definition rg_pointer :: "mem_region \<Rightarrow> nat \<Rightarrow> nat option" where
  "rg_pointer r p = (if p > rg_len r then None else Some (rg_base r + p))"

definition rg_slice :: "mem_region \<Rightarrow> nat \<Rightarrow> nat \<Rightarrow> bytes option" where
  "rg_slice r p n = (if rg_holds r p n then Some (field_at (rg_bytes r) p n) else None)"

text \<open>
  \<open>bytes_mut\<close> lends the slice; \<open>vs\<close> are the bytes the borrower writes at its start before it gives
  the slice back, never more than the slice holds.
\<close>

definition rg_slice_mut :: "mem_region \<Rightarrow> nat \<Rightarrow> nat \<Rightarrow> bytes \<Rightarrow> mem_region option" where
  "rg_slice_mut r p n vs =
     (if rg_holds r p n then Some (r\<lparr>rg_bytes := put (rg_bytes r) p (take n vs)\<rparr>) else None)"

text \<open>\<open>new\<close> are the \<open>extra\<close> bytes found directly after the region.\<close>

definition rg_grow :: "mem_region \<Rightarrow> bytes \<Rightarrow> mem_region" where
  "rg_grow r new = r\<lparr>rg_bytes := rg_bytes r @ new\<rparr>"

definition rg_shrink :: "mem_region \<Rightarrow> nat \<Rightarrow> bool \<times> mem_region" where
  "rg_shrink r n = (if n > rg_len r then (False, r) else (True, r\<lparr>rg_bytes := take n (rg_bytes r)\<rparr>))"

section \<open>Arithmetic that stays in range\<close>

lemma uadd_Ok [simp]: "a + b < u64_limit \<Longrightarrow> uadd a b = Ok (a + b)"
  by (simp add: uadd_def checked_add64_def)

lemma uadd_iff: "uadd a b = Ok c \<longleftrightarrow> c = a + b \<and> a + b < u64_limit"
  by (auto simp: uadd_def)

lemma uadd_Panic [simp]: "u64_limit \<le> a + b \<Longrightarrow> uadd a b = Panic"
  by (simp add: uadd_def)

lemma usub_Ok [simp]: "b \<le> a \<Longrightarrow> usub a b = Ok (a - b)"
  by (simp add: usub_def)

lemma next_multiple_Some:
  assumes "checked_next_multiple_of x m = Some y"
  shows "x \<le> y" and "y < x + m" and "y mod m = 0"
proof -
  have m: "0 < m" using assms by (auto simp: checked_next_multiple_of_def split: if_splits)
  have split: "x = x div m * m + x mod m" by simp
  have y: "y = (if x mod m = 0 then x else x + (m - x mod m))"
    using assms m by (auto simp: checked_next_multiple_of_def split: if_splits)
  show "x \<le> y" and "y < x + m" using y m mod_less_divisor [OF m, of x] by (simp_all split: if_splits)
  have "x + (m - x mod m) = x div m * m + m"
    using split mod_less_divisor [OF m, of x] by linarith
  then have "(x + (m - x mod m)) mod m = 0" by simp
  then show "y mod m = 0" using y by auto
qed

lemma next_multiple_ex:
  assumes "0 < m" and "x + m < u64_limit"
  shows "\<exists>y. checked_next_multiple_of x m = Some y"
  using assms by (auto simp: checked_next_multiple_of_def checked_add64_def)

text \<open>A power of two up to a page is either below the header alignment or a multiple of it.\<close>

lemma power_of_two_cases:
  assumes "is_power_of_two n"
  shows "n \<in> {1, 2, 4} \<or> 8 dvd n"
proof -
  obtain k where "n = 2 ^ k" using assms by (auto simp: is_power_of_two_def list_ex_iff)
  then show ?thesis
  proof (cases "k < 3")
    case True
    then have "k = 0 \<or> k = 1 \<or> k = 2" by linarith
    then show ?thesis using \<open>n = 2 ^ k\<close> by auto
  next
    case False
    then have "(2::nat) ^ 3 dvd 2 ^ k" by (intro le_imp_power_dvd) simp
    then show ?thesis using \<open>n = 2 ^ k\<close> by simp
  qed
qed

lemma power_of_two_pos: "is_power_of_two n \<Longrightarrow> 0 < n"
  by (auto simp: is_power_of_two_def list_ex_iff)

lemma multiple_of_small_power: "n \<in> {1, 2, 4} \<Longrightarrow> 8 dvd (x :: nat) \<Longrightarrow> x mod n = 0"
  by (auto simp: dvd_def)

section \<open>Reading back a header\<close>

lemma length_usize_le [simp]: "length (usize_le n) = 8"
  by (simp add: usize_le_def)

lemma length_header_write [simp]: "length (header_write h) = 24"
  by (simp add: header_write_def)

definition header_fits :: "header \<Rightarrow> bool" where
  "header_fits h \<longleftrightarrow> hd_size h < u64_limit \<and> hd_prev h < u64_limit \<and> hd_state h < u64_limit"

lemma unat_usize: "n < u64_limit \<Longrightarrow> unat (of_nat n :: u64) = n"
  by (simp add: u64_limit_def unat_of_nat)

lemma field_at_field_at: "a + n \<le> k \<Longrightarrow> field_at (field_at m p k) a n = field_at m (p + a) n"
  by (simp add: field_at_def drop_take min_def add.commute)

lemma header_read_field: "header_read m p = header_read (field_at m p 24) 0"
  by (simp add: header_read_def usize_at_def u64_at_def field_at_field_at)

lemma header_read_cong: "field_at m p 24 = field_at m' p' 24 \<Longrightarrow> header_read m p = header_read m' p'"
  by (metis header_read_field)

lemma header_read_write: "header_fits h \<Longrightarrow> header_read (header_write h) 0 = h"
  by (cases h) (simp add: header_fits_def header_read_def header_write_def usize_at_def u64_at_def
      usize_le_def field_at_def unat_usize)

lemma header_put [simp]:
  "p + 24 \<le> length m \<Longrightarrow> header_fits h \<Longrightarrow> header_read (put m p (header_write h)) p = h"
  by (subst header_read_field) (simp add: header_read_write)

lemma header_put_before [simp]:
  "q + 24 \<le> p \<Longrightarrow> p \<le> length m \<Longrightarrow> header_read (put m p v) q = header_read m q"
  by (rule header_read_cong) simp

lemma header_put_after [simp]:
  "p + length v \<le> q \<Longrightarrow> p + length v \<le> length m \<Longrightarrow> header_read (put m p v) q = header_read m q"
  by (rule header_read_cong) simp

lemma header_append [simp]: "p + 24 \<le> length m \<Longrightarrow> header_read (m @ e) p = header_read m p"
  by (rule header_read_cong) (simp add: field_at_def)

lemma header_take [simp]: "p + 24 \<le> n \<Longrightarrow> header_read (take n m) p = header_read m p"
  by (rule header_read_cong) (simp add: field_at_def drop_take min_def)

lemma header_read_fits: "header_fits (header_read m p)"
proof -
  have *: "unat (w :: u64) < u64_limit" for w using unsigned_less [of w, where 'a = nat] by (simp add: u64_limit_def)
  show ?thesis by (simp add: header_fits_def header_read_def usize_at_def *)
qed

section \<open>The accessors inside the region\<close>

lemma rg_holds_iff: "rg_holds r p n \<longleftrightarrow> p + n < u64_limit \<and> p + n \<le> rg_len r"
  by (auto simp: rg_holds_def split: option.splits)

lemma rg_set_header_Some:
  "8 dvd p \<Longrightarrow> p + 24 \<le> rg_len r \<Longrightarrow> rg_len r < u64_limit \<Longrightarrow>
   rg_set_header r p h = (True, r\<lparr>rg_bytes := put (rg_bytes r) p (header_write h)\<rparr>)"
  by (simp add: rg_set_header_def rg_holds_iff header_align_def header_bytes_def)

lemma rg_header_Some:
  "8 dvd p \<Longrightarrow> p + 24 \<le> rg_len r \<Longrightarrow> rg_len r < u64_limit \<Longrightarrow>
   rg_header r p = Some (header_read (rg_bytes r) p)"
  by (simp add: rg_header_def rg_holds_iff header_align_def header_bytes_def)

end
