(* ===== verification/Allocator.thy ===== *)
theory Allocator
  imports Region
begin

unbundle bit_operations_syntax

text \<open>
  \<open>crates/sdk/src/memory/allocator.rs\<close>: the bounded first-fit allocator. The blocks tile the region
  and are linked by the sizes in their headers; every loop of the source walks them with \<open>step\<close>,
  and each is a recursive function here whose argument is the offset it has reached. \<open>al_place\<close>
  is the second half of \<open>alloc\<close>, after the search. An operation returns the outcome and the
  allocator as it is left, also when the outcome is an error.
\<close>

section \<open>Definitions\<close>

datatype alloc_error = AlRequest | AlEmpty | AlExhausted | AlUnowned | AlDoubleFree | AlRegion

record block =
  bk_address :: nat
  bk_size :: nat
  bk_generation :: nat

record alloc_stats =
  st_capacity :: nat
  st_used :: nat
  st_free :: nat
  st_largest_free :: nat
  st_peak_used :: nat
  st_blocks :: nat

record allocator =
  al_region :: mem_region
  al_used :: nat
  al_live :: nat
  al_peak :: nat
  al_generation :: nat

definition st_FREE :: nat where "st_FREE = 0"
definition st_USED :: nat where "st_USED = 1"
definition st_STATE :: nat where "st_STATE = 1"
definition max_align :: nat where "max_align = 4096"

definition block_state :: "header \<Rightarrow> nat" where
  "block_state h = hd_state h AND st_STATE"

definition block_generation :: "header \<Rightarrow> nat" where
  "block_generation h = drop_bit 1 (hd_state h)"

definition block_tag :: "nat \<Rightarrow> nat \<Rightarrow> nat" where
  "block_tag g s = take_bit 64 (push_bit 1 g) OR s"

definition al_len :: "allocator \<Rightarrow> nat" where
  "al_len a = rg_len (al_region a)"

definition al_initialise :: "mem_region \<Rightarrow> (alloc_error, allocator) outcome" where
  "al_initialise r =
     (if rg_len r < header_bytes then Err AlRegion
      else case rg_set_header r 0 \<lparr>hd_size = rg_len r, hd_prev = 0, hd_state = block_tag 0 st_FREE\<rparr> of
        (ok, r) \<Rightarrow>
          if \<not> ok then Err AlRegion
          else Ok \<lparr>al_region = r, al_used = 0, al_live = 0, al_peak = 0, al_generation = 1\<rparr>)"

definition al_new :: "nat \<Rightarrow> bytes \<Rightarrow> (alloc_error, allocator) outcome" where
  "al_new start bs = and_then (rg_new start bs) (\<lambda>r. and_then (ok_or AlRegion r) al_initialise)"

definition al_from_raw :: "nat \<Rightarrow> bytes \<Rightarrow> (alloc_error, allocator) outcome" where
  "al_from_raw base bs = and_then (ok_or AlRegion (rg_from_raw base bs)) al_initialise"

definition al_free_bytes :: "allocator \<Rightarrow> (alloc_error, nat) outcome" where
  "al_free_bytes a = usub (al_len a) (al_used a)"

definition al_read :: "allocator \<Rightarrow> nat \<Rightarrow> (alloc_error, header) outcome" where
  "al_read a p = ok_or AlRegion (rg_header (al_region a) p)"

definition al_write :: "allocator \<Rightarrow> nat \<Rightarrow> header \<Rightarrow> (alloc_error, unit) outcome \<times> allocator" where
  "al_write a p h =
     (case rg_set_header (al_region a) p h of
        (ok, r) \<Rightarrow> (if ok then Ok () else Err AlRegion, a\<lparr>al_region := r\<rparr>))"

definition al_step :: "allocator \<Rightarrow> nat \<Rightarrow> (alloc_error, (nat \<times> header) option) outcome" where
  "al_step a p =
     and_then (uadd p header_bytes) (\<lambda>e.
     if e > al_len a then Ok None
     else case rg_header (al_region a) p of
       None \<Rightarrow> Ok None
     | Some h \<Rightarrow>
         if hd_size h < header_bytes then Ok None
         else and_then (uadd p (hd_size h)) (\<lambda>next.
           if next > al_len a then Ok None else Ok (Some (next, h))))"

lemma al_step_progress: "al_step a p = Ok (Some (next, h)) \<Longrightarrow> p < next \<and> next \<le> al_len a"
  by (auto simp: al_step_def and_then_Ok_iff uadd_iff header_bytes_def split: if_splits option.splits)

function largest_loop :: "allocator \<Rightarrow> nat \<Rightarrow> nat \<Rightarrow> (alloc_error, nat) outcome" where
  "largest_loop a p largest =
     (case al_step a p of
        Ok (Some (next, h)) \<Rightarrow>
          largest_loop a next (if block_state h = st_FREE \<and> hd_size h > largest then hd_size h else largest)
      | Ok None \<Rightarrow> Ok largest
      | Err e \<Rightarrow> Err e
      | Panic \<Rightarrow> Panic)"
  by pat_completeness auto
termination by (relation "measure (\<lambda>(a, p, _). al_len a - p)") (auto dest: al_step_progress)

definition al_largest_free :: "allocator \<Rightarrow> (alloc_error, nat) outcome" where
  "al_largest_free a = largest_loop a 0 0"

definition al_stats :: "allocator \<Rightarrow> (alloc_error, alloc_stats) outcome" where
  "al_stats a =
     and_then (al_free_bytes a) (\<lambda>free.
     and_then (al_largest_free a) (\<lambda>largest.
     Ok \<lparr>st_capacity = al_len a, st_used = al_used a, st_free = free, st_largest_free = largest,
         st_peak_used = al_peak a, st_blocks = al_live a\<rparr>))"

text \<open>
  The loop of \<open>leading_gap\<close>. An alignment of \<open>0\<close>, on which it would not end, never reaches it: the
  rounding before it has refused it.
\<close>

function gap_loop :: "nat \<Rightarrow> nat \<Rightarrow> nat option" where
  "gap_loop gap align =
     (if gap \<noteq> 0 \<and> gap < header_bytes \<and> align \<noteq> 0
      then (case checked_add64 gap align of None \<Rightarrow> None | Some g \<Rightarrow> gap_loop g align)
      else Some gap)"
  by pat_completeness auto
termination by (relation "measure (\<lambda>(gap, _). header_bytes - gap)") auto

definition leading_gap :: "nat \<Rightarrow> nat \<Rightarrow> nat option" where
  "leading_gap start align =
     (case checked_add64 start header_bytes of
        None \<Rightarrow> None
      | Some p \<Rightarrow> (case checked_next_multiple_of p align of
          None \<Rightarrow> None
        | Some payload \<Rightarrow> gap_loop (payload - header_bytes - start) align))"

text \<open>What \<open>alloc\<close> asks of one block of its walk: the gap before the payload when the block will do.\<close>

definition block_fits :: "allocator \<Rightarrow> nat \<Rightarrow> nat \<Rightarrow> nat \<Rightarrow> header \<Rightarrow> (alloc_error, nat option) outcome" where
  "block_fits a need align p h =
     (if block_state h \<noteq> st_FREE then Ok None
      else and_then (uadd (rg_base (al_region a)) p) (\<lambda>start.
        case leading_gap start align of
          None \<Rightarrow> Ok None
        | Some gap \<Rightarrow>
            and_then (uadd gap header_bytes) (\<lambda>g.
            and_then (uadd g need) (\<lambda>total.
            Ok (if total \<le> hd_size h then Some gap else None)))))"

function find_loop :: "allocator \<Rightarrow> nat \<Rightarrow> nat \<Rightarrow> nat \<Rightarrow> (alloc_error, (nat \<times> header \<times> nat) option) outcome" where
  "find_loop a need align p =
     (case al_step a p of
        Ok (Some (next, h)) \<Rightarrow>
          (case block_fits a need align p h of
             Ok (Some gap) \<Rightarrow> Ok (Some (p, h, gap))
           | Ok None \<Rightarrow> find_loop a need align next
           | Err e \<Rightarrow> Err e
           | Panic \<Rightarrow> Panic)
      | Ok None \<Rightarrow> Ok None
      | Err e \<Rightarrow> Err e
      | Panic \<Rightarrow> Panic)"
  by pat_completeness auto
termination by (relation "measure (\<lambda>(a, _, _, p). al_len a - p)") (auto dest: al_step_progress)

function last_loop :: "allocator \<Rightarrow> nat \<Rightarrow> (nat \<times> header) option \<Rightarrow> (alloc_error, (nat \<times> header) option) outcome" where
  "last_loop a p found =
     (case al_step a p of
        Ok (Some (next, h)) \<Rightarrow> last_loop a next (Some (p, h))
      | Ok None \<Rightarrow> Ok found
      | Err e \<Rightarrow> Err e
      | Panic \<Rightarrow> Panic)"
  by pat_completeness auto
termination by (relation "measure (\<lambda>(a, p, _). al_len a - p)") (auto dest: al_step_progress)

definition al_last :: "allocator \<Rightarrow> (alloc_error, (nat \<times> header) option) outcome" where
  "al_last a = last_loop a 0 None"

definition al_relink :: "allocator \<Rightarrow> nat \<Rightarrow> nat \<Rightarrow> (alloc_error, unit) outcome \<times> allocator" where
  "al_relink a p n =
     or_return (uadd p header_bytes) a (\<lambda>e.
     if e > al_len a then (Ok (), a)
     else or_return (al_read a p) a (\<lambda>h. al_write a p (h\<lparr>hd_prev := n\<rparr>)))"

definition next_generation :: "nat \<Rightarrow> nat" where
  "next_generation g = (let n = take_bit 63 ((g + 1) mod u64_limit) in if n = 0 then 1 else n)"

definition al_place ::
  "allocator \<Rightarrow> nat \<Rightarrow> nat \<Rightarrow> nat \<Rightarrow> header \<Rightarrow> nat \<Rightarrow> (alloc_error, block) outcome \<times> allocator" where
  "al_place a sz need p h gap =
     or_return (uadd p (hd_size h)) a (\<lambda>end_at.
     case (if gap > 0
           then al_write a p \<lparr>hd_size = gap, hd_prev = hd_prev h, hd_state = block_tag 0 st_FREE\<rparr>
           else (Ok (), a)) of (r, a) \<Rightarrow> or_return r a (\<lambda>_.
     or_return (uadd p gap) a (\<lambda>start.
     or_return (usub (hd_size h) gap) a (\<lambda>room.
     let prev = (if gap > 0 then gap else hd_prev h) in
     or_return (uadd header_bytes need) a (\<lambda>want.
     or_return (uadd want header_bytes) a (\<lambda>limit.
     case (if room \<ge> limit
           then or_return (uadd start want) a (\<lambda>q.
                  al_write a q \<lparr>hd_size = room - want, hd_prev = want, hd_state = block_tag 0 st_FREE\<rparr>)
           else (Ok (), a)) of (r, a) \<Rightarrow> or_return r a (\<lambda>_.
     let last_size = (if room \<ge> limit then room - want else room);
         taken = (if room \<ge> limit then want else room);
         generation = al_generation a in
     case al_write a start \<lparr>hd_size = taken, hd_prev = prev, hd_state = block_tag generation st_USED\<rparr> of
       (r, a) \<Rightarrow> or_return r a (\<lambda>_.
     case al_relink a end_at last_size of (r, a) \<Rightarrow> or_return r a (\<lambda>_.
     or_return (uadd (al_used a) taken) a (\<lambda>used.
     or_return (uadd (al_live a) 1) a (\<lambda>live.
     let a = a\<lparr>al_used := used, al_live := live, al_generation := next_generation generation,
               al_peak := (if used > al_peak a then used else al_peak a)\<rparr> in
     or_return (uadd start header_bytes) a (\<lambda>payload.
     or_return (ok_or AlRegion (rg_pointer (al_region a) payload)) a (\<lambda>ptr.
     (Ok \<lparr>bk_address = ptr, bk_size = sz, bk_generation = generation\<rparr>, a))))))))))))))"

definition al_alloc :: "allocator \<Rightarrow> nat \<Rightarrow> nat \<Rightarrow> (alloc_error, block) outcome \<times> allocator" where
  "al_alloc a sz align =
     (if sz = 0 \<or> \<not> is_power_of_two align \<or> align > max_align then (Err AlRequest, a)
      else case checked_next_multiple_of sz header_align of
        None \<Rightarrow> (Err AlRequest, a)
      | Some need \<Rightarrow>
          or_return (find_loop a need align 0) a (\<lambda>found.
          or_return (al_free_bytes a) a (\<lambda>free.
          case found of
            None \<Rightarrow> (Err (if free = 0 then AlEmpty else AlExhausted), a)
          | Some (p, h, gap) \<Rightarrow> al_place a sz need p h gap)))"

function start_loop :: "allocator \<Rightarrow> block \<Rightarrow> nat \<Rightarrow> nat \<Rightarrow> (alloc_error, nat) outcome" where
  "start_loop a b target p =
     (case al_step a p of
        Ok (Some (next, h)) \<Rightarrow>
          if target < next
          then if block_state h = st_FREE then Err AlDoubleFree
               else and_then (uadd p header_bytes) (\<lambda>payload.
                 if target = payload \<and> bk_size b \<le> hd_size h - header_bytes \<and> bk_generation b = block_generation h
                 then Ok p else Err AlUnowned)
          else start_loop a b target next
      | Ok None \<Rightarrow> Err AlUnowned
      | Err e \<Rightarrow> Err e
      | Panic \<Rightarrow> Panic)"
  by pat_completeness auto
termination by (relation "measure (\<lambda>(a, _, _, p). al_len a - p)") (auto dest: al_step_progress)

definition al_start_of :: "allocator \<Rightarrow> block \<Rightarrow> (alloc_error, nat) outcome" where
  "al_start_of a b =
     (let base = rg_base (al_region a) in
      if bk_address b < base \<or> bk_address b - base \<ge> al_len a then Err AlUnowned
      else start_loop a b (bk_address b - base) 0)"

definition al_coalesce :: "allocator \<Rightarrow> nat \<Rightarrow> (alloc_error, unit) outcome \<times> allocator" where
  "al_coalesce a p =
     or_return (al_read a p) a (\<lambda>h.
     or_return (uadd p (hd_size h)) a (\<lambda>next.
     or_return (uadd next header_bytes) a (\<lambda>e.
     or_return (if e \<le> al_len a then and_then (al_read a next) (\<lambda>f. Ok (Some f)) else Ok None) a (\<lambda>following.
     let merge = (case following of Some f \<Rightarrow> block_state f = st_FREE | None \<Rightarrow> False) in
     or_return (case following of Some f \<Rightarrow> if merge then uadd (hd_size h) (hd_size f) else Ok (hd_size h)
                | None \<Rightarrow> Ok (hd_size h)) a (\<lambda>size1.
     let h = h\<lparr>hd_size := size1\<rparr> in
     case (if merge then al_write a p h else (Ok (), a)) of (r, a) \<Rightarrow> or_return r a (\<lambda>_.
     if hd_prev h \<noteq> 0
     then or_return (usub p (hd_prev h)) a (\<lambda>previous.
          or_return (al_read a previous) a (\<lambda>merged.
          if block_state merged = st_FREE
          then or_return (uadd (hd_size merged) (hd_size h)) a (\<lambda>size2.
               case al_write a previous (merged\<lparr>hd_size := size2\<rparr>) of (r, a) \<Rightarrow> or_return r a (\<lambda>_.
               or_return (uadd previous size2) a (\<lambda>q. al_relink a q size2)))
          else or_return (uadd p (hd_size h)) a (\<lambda>q. al_relink a q (hd_size h))))
     else or_return (uadd p (hd_size h)) a (\<lambda>q. al_relink a q (hd_size h))))))))"

definition al_free :: "allocator \<Rightarrow> block \<Rightarrow> (alloc_error, unit) outcome \<times> allocator" where
  "al_free a b =
     or_return (al_start_of a b) a (\<lambda>p.
     or_return (al_read a p) a (\<lambda>h.
     let h = h\<lparr>hd_state := block_tag 0 st_FREE\<rparr> in
     case al_write a p h of (r, a) \<Rightarrow> or_return r a (\<lambda>_.
     or_return (usub (al_used a) (hd_size h)) a (\<lambda>used.
     or_return (usub (al_live a) 1) a (\<lambda>live.
     al_coalesce (a\<lparr>al_used := used, al_live := live\<rparr>) p)))))"

definition al_bytes :: "allocator \<Rightarrow> block \<Rightarrow> (alloc_error, bytes) outcome" where
  "al_bytes a b =
     and_then (al_start_of a b) (\<lambda>p.
     and_then (uadd p header_bytes) (\<lambda>q. ok_or AlRegion (rg_slice (al_region a) q (bk_size b))))"

text \<open>\<open>vs\<close> are the bytes the borrower of \<open>bytes_mut\<close> writes.\<close>

definition al_bytes_mut :: "allocator \<Rightarrow> block \<Rightarrow> bytes \<Rightarrow> (alloc_error, unit) outcome \<times> allocator" where
  "al_bytes_mut a b vs =
     or_return (al_start_of a b) a (\<lambda>p.
     or_return (uadd p header_bytes) a (\<lambda>q.
     or_return (ok_or AlRegion (rg_slice_mut (al_region a) q (bk_size b) vs)) a (\<lambda>r.
     (Ok (), a\<lparr>al_region := r\<rparr>))))"

text \<open>\<open>new\<close> are the \<open>extra\<close> bytes the owner has found directly after the region.\<close>

definition al_extend :: "allocator \<Rightarrow> bytes \<Rightarrow> (alloc_error, unit) outcome \<times> allocator" where
  "al_extend a new =
     (let extra = length new in
      if extra < header_bytes \<or> extra mod header_align \<noteq> 0 then (Err AlRegion, a)
      else or_return (ok_or AlRegion (checked_add64 (al_len a) extra)) a (\<lambda>grown.
        or_return (al_last a) a (\<lambda>l.
        or_return (case l of
            Some (p, h) \<Rightarrow>
              if block_state h = st_FREE
              then and_then (ok_or AlRegion (checked_add64 (hd_size h) extra)) (\<lambda>s. Ok (p, h\<lparr>hd_size := s\<rparr>))
              else Ok (al_len a, \<lparr>hd_size = extra, hd_prev = hd_size h, hd_state = block_tag 0 st_FREE\<rparr>)
          | None \<Rightarrow> Ok (al_len a, \<lparr>hd_size = extra, hd_prev = 0, hd_state = block_tag 0 st_FREE\<rparr>)) a (\<lambda>(p, h).
        if p mod header_align \<noteq> 0 \<or> (case checked_add64 p header_bytes of None \<Rightarrow> True | Some e \<Rightarrow> e > grown)
        then (Err AlRegion, a)
        else al_write (a\<lparr>al_region := rg_grow (al_region a) new\<rparr>) p h))))"

definition al_truncation_target :: "allocator \<Rightarrow> nat \<Rightarrow> (alloc_error, nat) outcome" where
  "al_truncation_target a granularity =
     (let len = al_len a in
      if \<not> is_power_of_two granularity then Ok len
      else and_then (al_last a) (\<lambda>l. case l of
        None \<Rightarrow> Ok len
      | Some (p, h) \<Rightarrow>
          if block_state h \<noteq> st_FREE then Ok len
          else if p mod granularity = 0 then Ok (if p \<ge> len then len else p)
          else and_then (uadd p header_bytes) (\<lambda>q.
            case checked_next_multiple_of q granularity of
              None \<Rightarrow> Ok len
            | Some target \<Rightarrow> Ok (if target \<ge> len then len else target))))"

definition al_truncate :: "allocator \<Rightarrow> nat \<Rightarrow> (alloc_error, unit) outcome \<times> allocator" where
  "al_truncate a len =
     (if len mod header_align \<noteq> 0 then (Err AlRegion, a)
      else if len = al_len a then (Ok (), a)
      else or_return (al_last a) a (\<lambda>l.
        or_return (ok_or AlRegion l) a (\<lambda>(p, h).
        if len > al_len a \<or> block_state h \<noteq> st_FREE \<or> len < p then (Err AlRegion, a)
        else let remainder = len - p in
          if remainder \<noteq> 0 \<and> remainder < header_bytes then (Err AlRegion, a)
          else case (if remainder \<noteq> 0 then al_write a p (h\<lparr>hd_size := remainder\<rparr>) else (Ok (), a)) of
            (r, a) \<Rightarrow> or_return r a (\<lambda>_.
            case rg_shrink (al_region a) len of
              (ok, r) \<Rightarrow> if \<not> ok then (Err AlRegion, a) else (Ok (), a\<lparr>al_region := r\<rparr>)))))"

declare largest_loop.simps [simp del] gap_loop.simps [simp del] find_loop.simps [simp del]
  last_loop.simps [simp del] start_loop.simps [simp del]

end
