(* ===== verification/Allocator_Blocks.thy ===== *)
theory Allocator_Blocks
  imports Allocator
begin

unbundle bit_operations_syntax

text \<open>
  What the bytes of a region mean: the list of its blocks. \<open>segs m p prev bs\<close> says that the headers
  of the blocks \<open>bs\<close> stand one after the other in \<open>m\<close> from offset \<open>p\<close>, each with the size of the
  block before it; a block is its total size and the generation that occupies it, \<open>0\<close> when it is
  free. \<open>tiled\<close> is the invariant of the allocator over such a list. The lemmas of this theory move
  a list of blocks over the writes of the allocator, and give the value of each of its walks.
\<close>

section \<open>Definitions\<close>

type_synonym blk = "nat \<times> nat"

definition blk_word :: "nat \<Rightarrow> nat" where
  "blk_word g = (if g = 0 then 0 else 2 * g + 1)"

abbreviation blk_header :: "blk \<Rightarrow> nat \<Rightarrow> header" where
  "blk_header b prev \<equiv> \<lparr>hd_size = fst b, hd_prev = prev, hd_state = blk_word (snd b)\<rparr>"

definition blk_ok :: "blk \<Rightarrow> bool" where
  "blk_ok b \<longleftrightarrow> 24 \<le> fst b \<and> 8 dvd fst b \<and> snd b < 2 ^ 63 \<and> (snd b \<noteq> 0 \<longrightarrow> 32 \<le> fst b)"

primrec span :: "blk list \<Rightarrow> nat" where
  "span [] = 0"
| "span (b # bs) = fst b + span bs"

primrec segs :: "bytes \<Rightarrow> nat \<Rightarrow> nat \<Rightarrow> blk list \<Rightarrow> bool" where
  "segs m p prev [] = True"
| "segs m p prev (b # bs) =
     (header_read m p = blk_header b prev \<and> blk_ok b \<and> p + fst b \<le> length m \<and> segs m (p + fst b) (fst b) bs)"

definition tail_size :: "nat \<Rightarrow> blk list \<Rightarrow> nat" where
  "tail_size prev bs = (if bs = [] then prev else fst (last bs))"

primrec placed :: "nat \<Rightarrow> blk list \<Rightarrow> (nat \<times> blk) list" where
  "placed p [] = []"
| "placed p (b # bs) = (p, b) # placed (p + fst b) bs"

abbreviation is_live :: "blk \<Rightarrow> bool" where
  "is_live b \<equiv> snd b \<noteq> 0"

definition merged :: "blk list \<Rightarrow> bool" where
  "merged bs \<longleftrightarrow> successively (\<lambda>x y. is_live x \<or> is_live y) bs"

definition region_ok :: "mem_region \<Rightarrow> bool" where
  "region_ok r \<longleftrightarrow> 8 dvd rg_base r \<and> rg_base r + rg_len r < u64_limit \<and> rg_len r < 2 ^ 63"

abbreviation al_mem :: "allocator \<Rightarrow> bytes" where
  "al_mem a \<equiv> rg_bytes (al_region a)"

definition tiled :: "allocator \<Rightarrow> blk list \<Rightarrow> bool" where
  "tiled a bs \<longleftrightarrow>
     region_ok (al_region a) \<and> segs (al_mem a) 0 0 bs \<and> span bs = al_len a \<and> merged bs \<and>
     al_used a = span (filter is_live bs) \<and> al_live a = length (filter is_live bs) \<and>
     al_used a \<le> al_peak a \<and> 0 < al_generation a \<and> al_generation a < 2 ^ 63"

text \<open>What \<open>start_of\<close> answers for the offset \<open>t\<close> when the block \<open>b\<close> at \<open>q\<close> covers it.\<close>

definition start_verdict :: "block \<Rightarrow> nat \<Rightarrow> nat \<Rightarrow> blk \<Rightarrow> (alloc_error, nat) outcome" where
  "start_verdict h t q b =
     (if \<not> is_live b then Err AlDoubleFree
      else if t = q + 24 \<and> bk_size h \<le> fst b - 24 \<and> bk_generation h = snd b then Ok q
      else Err AlUnowned)"

section \<open>Header words\<close>

lemma tag_free [simp]: "block_tag 0 st_FREE = blk_word 0"
  by (simp add: block_tag_def st_FREE_def blk_word_def)

lemma tag_zero [simp]: "block_tag 0 0 = 0"
  by (simp add: block_tag_def)

lemma tag_used:
  assumes "0 < g" and "g < 2 ^ 63"
  shows "block_tag g st_USED = blk_word g"
proof -
  have "take_bit 64 (push_bit 1 g) = 2 * g"
    using assms(2) by (simp add: push_bit_eq_mult take_bit_nat_eq_self mult.commute)
  then show ?thesis using assms(1) by (simp add: block_tag_def st_USED_def blk_word_def or_Suc_0_eq)
qed

lemma word_state [simp]: "block_state (blk_header b prev) = (if is_live b then 1 else 0)"
  by (simp add: block_state_def st_STATE_def blk_word_def and_one_eq mod_Suc)

lemma word_generation [simp]: "block_generation (blk_header b prev) = snd b"
  by (simp add: block_generation_def blk_word_def drop_bit_Suc)

lemma word_state_record [simp]:
  "block_state \<lparr>hd_size = n, hd_prev = q, hd_state = blk_word g\<rparr> = (if g \<noteq> 0 then 1 else 0)"
  using word_state [of "(n, g)" q] by simp

lemma blk_word_0 [simp]: "blk_word 0 = 0" "blk_word g = 0 \<longleftrightarrow> g = 0"
  by (simp_all add: blk_word_def)

lemma word_state_free [simp]: "block_state \<lparr>hd_size = n, hd_prev = q, hd_state = 0\<rparr> = 0"
  using word_state_record [of n q 0] by simp

lemma blk_word_fits: "g < 2 ^ 63 \<Longrightarrow> blk_word g < u64_limit"
  by (simp add: blk_word_def u64_limit_def)

section \<open>Lists of blocks\<close>

lemma span_append [simp]: "span (xs @ ys) = span xs + span ys"
  by (induction xs) auto

lemma span_filter_le: "span (filter P bs) \<le> span bs"
  by (induction bs) auto

lemma tail_size_simps [simp]:
  "tail_size prev [] = prev" "tail_size prev (xs @ [b]) = fst b"
  by (simp_all add: tail_size_def)

lemma tail_size_Cons [simp]: "tail_size prev (b # bs) = tail_size (fst b) bs"
  by (simp add: tail_size_def)

lemma tail_size_append: "tail_size prev (xs @ ys) = tail_size (tail_size prev xs) ys"
  by (induction xs arbitrary: prev) auto

lemma segs_append [simp]:
  "segs m p prev (xs @ ys) \<longleftrightarrow> segs m p prev xs \<and> segs m (p + span xs) (tail_size prev xs) ys"
  by (induction xs arbitrary: p prev) (auto simp: add.assoc)

lemma placed_append [simp]: "placed p (xs @ ys) = placed p xs @ placed (p + span xs) ys"
  by (induction xs arbitrary: p) (auto simp: add.assoc)

lemma segs_ok: "segs m p prev bs \<Longrightarrow> b \<in> set bs \<Longrightarrow> blk_ok b"
  by (induction bs arbitrary: p prev) auto

lemma segs_aligned: "segs m p prev bs \<Longrightarrow> 8 dvd span bs"
  by (induction bs arbitrary: p prev) (auto simp: blk_ok_def)

lemma segs_end: "segs m p prev bs \<Longrightarrow> p \<le> length m \<Longrightarrow> p + span bs \<le> length m"
proof (induction bs arbitrary: p prev)
  case (Cons b bs)
  then show ?case using Cons.IH [of "p + fst b" "fst b"] by (simp add: add.assoc)
qed simp

lemma segs_nonempty: "segs m p prev bs \<Longrightarrow> bs \<noteq> [] \<Longrightarrow> 24 \<le> span bs"
  by (cases bs) (auto simp: blk_ok_def)

lemma placed_bounds: "(q, b) \<in> set (placed p bs) \<Longrightarrow> p \<le> q \<and> q + fst b \<le> p + span bs"
  by (induction bs arbitrary: p) fastforce+

lemma placed_in: "(q, b) \<in> set (placed p bs) \<Longrightarrow> b \<in> set bs"
  by (induction bs arbitrary: p) auto

lemma placed_split:
  "(q, b) \<in> set (placed p bs) \<Longrightarrow> \<exists>xs ys. bs = xs @ b # ys \<and> q = p + span xs"
proof (induction bs arbitrary: p)
  case (Cons c bs)
  show ?case
  proof (cases "(q, b) = (p, c)")
    case True
    then show ?thesis by (intro exI [of _ "[]"] exI [of _ bs]) simp
  next
    case False
    then have "(q, b) \<in> set (placed (p + fst c) bs)" using Cons.prems by auto
    then obtain xs ys where "bs = xs @ b # ys" "q = p + fst c + span xs" using Cons.IH by blast
    then show ?thesis by (intro exI [of _ "c # xs"] exI [of _ ys]) simp
  qed
qed simp

lemma placed_mid: "(p + span xs, b) \<in> set (placed p (xs @ b # ys))"
  by simp

section \<open>Writes that leave a list of blocks alone\<close>

lemma segs_put_before [simp]:
  "q + length v \<le> p \<Longrightarrow> q + length v \<le> length m \<Longrightarrow> segs (put m q v) p prev bs = segs m p prev bs"
  by (induction bs arbitrary: p prev) simp_all

lemma segs_put_after [simp]:
  "p + span bs \<le> q \<Longrightarrow> q + length v \<le> length m \<Longrightarrow> segs (put m q v) p prev bs = segs m p prev bs"
  by (induction bs arbitrary: p prev) (auto simp: add.assoc blk_ok_def)

lemma segs_payload:
  assumes "p + span xs + 24 \<le> q" and "q + length v \<le> p + span xs + fst b" and "p + span xs + fst b \<le> length m"
  shows "segs (put m q v) p prev (xs @ b # ys) = segs m p prev (xs @ b # ys)"
  using assms by simp

lemma segs_append_bytes [simp]:
  "p + span bs \<le> length m \<Longrightarrow> segs (m @ e) p prev bs = segs m p prev bs"
  by (induction bs arbitrary: p prev) (auto simp: add.assoc blk_ok_def)

lemma segs_take [simp]:
  "p + span bs \<le> n \<Longrightarrow> n \<le> length m \<Longrightarrow> segs (take n m) p prev bs = segs m p prev bs"
  by (induction bs arbitrary: p prev) (auto simp: add.assoc blk_ok_def)

definition relinked :: "bytes \<Rightarrow> nat \<Rightarrow> nat \<Rightarrow> bytes" where
  "relinked m q n = (if q + 24 > length m then m else put m q (header_write ((header_read m q)\<lparr>hd_prev := n\<rparr>)))"

lemma length_relinked [simp]: "length (relinked m q n) = length m"
  by (simp add: relinked_def)

lemma header_relinked_before [simp]: "p + 24 \<le> q \<Longrightarrow> header_read (relinked m q n) p = header_read m p"
  by (simp add: relinked_def)

lemma segs_relinked_before [simp]: "p + span bs \<le> q \<Longrightarrow> segs (relinked m q n) p prev bs = segs m p prev bs"
  by (simp add: relinked_def)

lemma field_relinked_before: "p + k \<le> q \<Longrightarrow> field_at (relinked m q n) p k = field_at m p k"
  by (simp add: relinked_def)

lemma field_relinked_after: "q + 24 \<le> p \<Longrightarrow> field_at (relinked m q n) p k = field_at m p k"
  by (simp add: relinked_def)

lemma segs_relinked:
  assumes "segs m q prev bs" and "q + span bs = length m" and "n < u64_limit"
  shows "segs (relinked m q n) q n bs"
proof (cases bs)
  case (Cons b ys)
  have b: "header_read m q = blk_header b prev" "blk_ok b" "q + fst b \<le> length m" "segs m (q + fst b) (fst b) ys"
    using assms(1) Cons by auto
  have len: "24 \<le> fst b" using b(2) by (simp add: blk_ok_def)
  have fits: "header_fits (blk_header b n)"
    using assms(3) header_read_fits [of m q] b(1) by (simp add: header_fits_def)
  have "relinked m q n = put m q (header_write (blk_header b n))" using len b by (simp add: relinked_def)
  then show ?thesis using Cons b len fits by simp
qed simp

section \<open>Walking the blocks\<close>

lemma region_limits: "region_ok r \<Longrightarrow> rg_len r + 24 < u64_limit" "region_ok r \<Longrightarrow> rg_len r < u64_limit"
  by (simp_all add: region_ok_def u64_limit_def)

lemma al_step_block:
  assumes "region_ok (al_region a)" and "segs (al_mem a) p prev (b # bs)" and "8 dvd p"
  shows "al_step a p = Ok (Some (p + fst b, blk_header b prev))"
proof -
  have b: "header_read (al_mem a) p = blk_header b prev" "24 \<le> fst b" "p + fst b \<le> al_len a"
    using assms(2) by (auto simp: al_len_def rg_len_def blk_ok_def)
  have "al_len a < u64_limit" using region_limits(2) [OF assms(1)] by (simp add: al_len_def)
  then show ?thesis
    using b assms(3) rg_header_Some [of p "al_region a"]
    by (simp add: al_step_def header_bytes_def al_len_def [symmetric])
qed

lemma al_step_end:
  assumes "region_ok (al_region a)"
  shows "al_step a (al_len a) = Ok None"
  using region_limits(1) [OF assms] by (simp add: al_step_def header_bytes_def al_len_def)

lemma walk_dvd: "8 dvd (p :: nat) \<Longrightarrow> blk_ok b \<Longrightarrow> 8 dvd (p + fst b)"
  by (simp add: blk_ok_def)

lemma last_loop_blocks:
  assumes "region_ok (al_region a)" and "segs (al_mem a) p prev bs" and "8 dvd p" and "p + span bs = al_len a"
  shows "last_loop a p found =
    Ok (if bs = [] then found
        else Some (p + span (butlast bs), blk_header (last bs) (tail_size prev (butlast bs))))"
  using assms(2-)
proof (induction bs arbitrary: p prev found)
  case Nil
  then show ?case by (subst last_loop.simps) (simp add: al_step_end assms(1))
next
  case (Cons b bs)
  have "last_loop a p found = last_loop a (p + fst b) (Some (p, blk_header b prev))"
    by (subst last_loop.simps) (simp add: al_step_block [OF assms(1) Cons.prems(1,2)])
  also have "\<dots> = Ok (Some (p + span (butlast (b # bs)), blk_header (last (b # bs)) (tail_size prev (butlast (b # bs)))))"
    using Cons.prems walk_dvd [of p b] by (subst Cons.IH) (auto simp: add.assoc)
  finally show ?case by simp
qed

lemma largest_loop_blocks:
  assumes "region_ok (al_region a)" and "segs (al_mem a) p prev bs" and "8 dvd p" and "p + span bs = al_len a"
  shows "largest_loop a p k = Ok (fold max (map fst (filter (\<lambda>b. \<not> is_live b) bs)) k)"
  using assms(2-)
proof (induction bs arbitrary: p prev k)
  case Nil
  then show ?case by (subst largest_loop.simps) (simp add: al_step_end assms(1))
next
  case (Cons b bs)
  have "largest_loop a p k = largest_loop a (p + fst b) (if \<not> is_live b then max (fst b) k else k)"
    by (subst largest_loop.simps) (auto simp: al_step_block [OF assms(1) Cons.prems(1,2)] st_FREE_def max_def)
  also have "\<dots> = Ok (fold max (map fst (filter (\<lambda>b. \<not> is_live b) (b # bs))) k)"
    using Cons.prems walk_dvd [of p b] by (subst Cons.IH) (auto simp: add.assoc)
  finally show ?case .
qed

lemma start_loop_blocks:
  assumes "region_ok (al_region a)" and "segs (al_mem a) p prev bs" and "8 dvd p" and "p + span bs = al_len a"
    and "p \<le> t" and "t < al_len a"
  shows "\<exists>q b. (q, b) \<in> set (placed p bs) \<and> q \<le> t \<and> t < q + fst b \<and>
    start_loop a h t p = start_verdict h t q b"
  using assms(2-)
proof (induction bs arbitrary: p prev)
  case (Cons b bs)
  have ok: "blk_ok b" using Cons.prems by simp
  note step = al_step_block [OF assms(1) Cons.prems(1,2)]
  show ?case
  proof (cases "t < p + fst b")
    case True
    have "p + 24 < u64_limit" using Cons.prems(4,5) region_limits(1) [OF assms(1)] by (simp add: al_len_def)
    then have "start_loop a h t p = start_verdict h t p b"
      using True by (subst start_loop.simps) (simp add: step st_FREE_def header_bytes_def start_verdict_def)
    then show ?thesis using True Cons.prems(4) by (intro exI [of _ p] exI [of _ b]) simp
  next
    case False
    have "start_loop a h t p = start_loop a h t (p + fst b)"
      using False by (subst start_loop.simps) (simp add: step)
    moreover have "\<exists>q c. (q, c) \<in> set (placed (p + fst b) bs) \<and> q \<le> t \<and> t < q + fst c \<and>
      start_loop a h t (p + fst b) = start_verdict h t q c"
      using Cons.prems walk_dvd [OF Cons.prems(2) ok] False
      by (intro Cons.IH) (auto simp: add.assoc)
    ultimately show ?thesis by auto
  qed
qed simp

lemma placed_overlap:
  assumes "(q, b) \<in> set (placed p bs)" and "(r, c) \<in> set (placed p bs)"
    and "q \<le> t" and "t < q + fst b" and "r \<le> t" and "t < r + fst c"
  shows "q = r \<and> b = c"
  using assms
proof (induction bs arbitrary: p)
  case (Cons d bs)
  then show ?case
    using placed_bounds [of q b "p + fst d" bs] placed_bounds [of r c "p + fst d" bs]
      Cons.IH [of "p + fst d"] by auto
qed simp

end
