(* ===== verification/Allocator_Ops.thy ===== *)
theory Allocator_Ops
  imports Allocator_Blocks
begin

unbundle bit_operations_syntax

text \<open>
  What the operations of the allocator do to the list of blocks. \<open>set_mem a m\<close> is the allocator with
  the bytes \<open>m\<close> in its region; each operation that succeeds is shown to write one such \<open>m\<close>, and
  \<open>keeps\<close> says that every block another handle names stays where it is with the bytes it has.
\<close>

section \<open>Definitions\<close>

definition set_mem :: "allocator \<Rightarrow> bytes \<Rightarrow> allocator" where
  "set_mem a m = a\<lparr>al_region := (al_region a)\<lparr>rg_bytes := m\<rparr>\<rparr>"

definition live_at :: "blk list \<Rightarrow> nat \<Rightarrow> nat \<Rightarrow> nat \<Rightarrow> bool" where
  "live_at bs q n g \<longleftrightarrow> (q, n, g) \<in> set (placed 0 bs) \<and> g \<noteq> 0"

text \<open>Every live block of \<open>bs\<close>, the one at \<open>x\<close> apart, is a live block of \<open>bs'\<close> with the same payload.\<close>

definition keeps :: "nat option \<Rightarrow> bytes \<Rightarrow> blk list \<Rightarrow> bytes \<Rightarrow> blk list \<Rightarrow> bool" where
  "keeps x m bs m' bs' \<longleftrightarrow>
     (\<forall>q n g. live_at bs q n g \<longrightarrow> Some q \<noteq> x \<longrightarrow>
        live_at bs' q n g \<and> field_at m' (q + 24) (n - 24) = field_at m (q + 24) (n - 24))"

definition pad_blocks :: "nat \<Rightarrow> blk list" where
  "pad_blocks n = (if n > 0 then [(n, 0)] else [])"

section \<open>The allocator with other bytes\<close>

lemma set_mem_simps [simp]:
  "al_mem (set_mem a m) = m" "rg_base (al_region (set_mem a m)) = rg_base (al_region a)"
  "al_used (set_mem a m) = al_used a" "al_live (set_mem a m) = al_live a" "al_peak (set_mem a m) = al_peak a"
  "al_generation (set_mem a m) = al_generation a" "al_len (set_mem a m) = length m"
  "set_mem (set_mem a m) m' = set_mem a m'" "rg_len (al_region (set_mem a m)) = length m"
  by (simp_all add: set_mem_def al_len_def rg_len_def)

lemma set_mem_id [simp]: "set_mem a (al_mem a) = a"
  by (simp add: set_mem_def)

lemma length_al_mem [simp]: "length (al_mem a) = al_len a"
  by (simp add: al_len_def rg_len_def)

lemma region_ok_set_mem [simp]:
  "length m = al_len a \<Longrightarrow> region_ok (al_region (set_mem a m)) = region_ok (al_region a)"
  by (simp add: region_ok_def set_mem_def al_len_def rg_len_def del: length_al_mem)

lemma al_limits: "region_ok (al_region a) \<Longrightarrow> al_len a + 24 < u64_limit"
  using region_limits(1) by (simp add: al_len_def)

lemma al_write_ok:
  "region_ok (al_region a) \<Longrightarrow> 8 dvd p \<Longrightarrow> p + 24 \<le> al_len a \<Longrightarrow>
   al_write a p h = (Ok (), set_mem a (put (al_mem a) p (header_write h)))"
  using al_limits [of a] by (simp add: al_write_def rg_set_header_Some al_len_def set_mem_def)

lemma al_read_ok:
  "region_ok (al_region a) \<Longrightarrow> 8 dvd p \<Longrightarrow> p + 24 \<le> al_len a \<Longrightarrow>
   al_read a p = Ok (header_read (al_mem a) p)"
  using al_limits [of a] by (simp add: al_read_def rg_header_Some al_len_def)

lemma al_relink_ok:
  assumes "region_ok (al_region a)" and "8 dvd p" and "p \<le> al_len a"
  shows "al_relink a p n = (Ok (), set_mem a (relinked (al_mem a) p n))"
  using al_limits [OF assms(1)] assms
  by (simp add: al_relink_def header_bytes_def relinked_def al_read_ok al_write_ok)

section \<open>Counting\<close>

lemma tiledD:
  assumes "tiled a bs"
  shows "region_ok (al_region a)" "segs (al_mem a) 0 0 bs" "span bs = al_len a" "merged bs"
    "al_used a = span (filter is_live bs)" "al_live a = length (filter is_live bs)" "al_used a \<le> al_peak a"
    "0 < al_generation a" "al_generation a < 2 ^ 63" "al_used a \<le> al_len a"
  using assms span_filter_le [of is_live bs] by (auto simp: tiled_def)

lemma length_le_span: "segs m p prev bs \<Longrightarrow> length bs \<le> span bs"
  by (induction bs arbitrary: p prev) (fastforce simp: blk_ok_def)+

lemma tiled_live_le: "tiled a bs \<Longrightarrow> al_live a \<le> al_len a"
  using length_filter_le [of is_live bs] length_le_span [of "al_mem a" 0 0 bs] tiledD [of a bs] by linarith

section \<open>Handles\<close>

lemma live_at_ok:
  assumes "segs m 0 0 bs" and "live_at bs q n g" and "span bs = length m"
  shows "32 \<le> n" "q + n \<le> length m" "g < 2 ^ 63" "0 < g"
proof -
  have "(n, g) \<in> set bs" using assms(2) placed_in by (auto simp: live_at_def)
  then have "blk_ok (n, g)" by (rule segs_ok [OF assms(1)])
  then show "32 \<le> n" "g < 2 ^ 63" "0 < g" using assms(2) by (auto simp: blk_ok_def live_at_def)
  show "q + n \<le> length m" using assms(2,3) placed_bounds [of q "(n, g)" 0 bs] by (auto simp: live_at_def)
qed

lemma start_of_iff:
  assumes "tiled a bs"
  shows "al_start_of a h = Ok q \<longleftrightarrow>
    (\<exists>n. live_at bs q n (bk_generation h) \<and> bk_address h = rg_base (al_region a) + q + 24 \<and> bk_size h \<le> n - 24)"
    (is "_ \<longleftrightarrow> ?R")
proof -
  note a = tiledD [OF assms]
  define t where "t = bk_address h - rg_base (al_region a)"
  show ?thesis
  proof (cases "bk_address h < rg_base (al_region a) \<or> t \<ge> al_len a")
    case True
    have "\<not> ?R"
    proof
      assume ?R
      then obtain n where n: "live_at bs q n (bk_generation h)" "bk_address h = rg_base (al_region a) + q + 24" by blast
      have "q + n \<le> al_len a" "32 \<le> n" using live_at_ok [OF a(2) n(1)] a(3) by simp_all
      then show False using True n(2) unfolding t_def by auto
    qed
    then show ?thesis using True by (simp add: al_start_of_def t_def)
  next
    case False
    then have run: "al_start_of a h = start_loop a h t 0" by (simp add: al_start_of_def t_def)
    obtain r b where b: "(r, b) \<in> set (placed 0 bs)" "r \<le> t" "t < r + fst b" "start_loop a h t 0 = start_verdict h t r b"
      using start_loop_blocks [OF a(1,2), of t h] a(3) False by auto
    show ?thesis
    proof
      assume "al_start_of a h = Ok q"
      then have "start_verdict h t r b = Ok q" using run b(4) by simp
      then have v: "is_live b" "r = q" "t = q + 24" "bk_size h \<le> fst b - 24" "bk_generation h = snd b"
        by (auto simp: start_verdict_def split: if_splits)
      then have "live_at bs q (fst b) (bk_generation h)" using b(1) by (simp add: live_at_def)
      moreover have "bk_address h = rg_base (al_region a) + q + 24" using v(3) False unfolding t_def by linarith
      ultimately show ?R using v(4) by blast
    next
      assume ?R
      then obtain n where n: "live_at bs q n (bk_generation h)" "bk_address h = rg_base (al_region a) + q + 24"
        "bk_size h \<le> n - 24" by blast
      have t: "t = q + 24" using n(2) by (simp add: t_def)
      have "r = q \<and> b = (n, bk_generation h)"
        using placed_overlap [OF b(1), of q "(n, bk_generation h)" t] n(1) b(2,3) t live_at_ok [OF a(2) n(1)] a(3)
        by (simp add: live_at_def)
      then show "al_start_of a h = Ok q" using run b(4) n t by (simp add: start_verdict_def live_at_def)
    qed
  qed
qed

lemma start_of_cases:
  assumes "tiled a bs"
  shows "(\<exists>q. al_start_of a h = Ok q) \<or> al_start_of a h = Err AlDoubleFree \<or> al_start_of a h = Err AlUnowned"
proof (cases "bk_address h < rg_base (al_region a) \<or> bk_address h - rg_base (al_region a) \<ge> al_len a")
  case True
  then show ?thesis by (simp add: al_start_of_def)
next
  case False
  then obtain r b where "start_loop a h (bk_address h - rg_base (al_region a)) 0 =
      start_verdict h (bk_address h - rg_base (al_region a)) r b"
    using start_loop_blocks [OF tiledD(1,2) [OF assms], of "bk_address h - rg_base (al_region a)" h]
      tiledD(3) [OF assms] by auto
  then show ?thesis using False by (simp add: al_start_of_def start_verdict_def)
qed

lemma al_bytes_iff:
  assumes "tiled a bs"
  shows "al_bytes a h = Ok v \<longleftrightarrow>
    (\<exists>q n. live_at bs q n (bk_generation h) \<and> bk_address h = rg_base (al_region a) + q + 24 \<and> bk_size h \<le> n - 24 \<and>
       v = field_at (al_mem a) (q + 24) (bk_size h))"
proof -
  note a = tiledD [OF assms]
  have slice: "and_then (uadd q header_bytes) (\<lambda>p. ok_or AlRegion (rg_slice (al_region a) p (bk_size h))) =
      Ok (field_at (al_mem a) (q + 24) (bk_size h))"
    if "live_at bs q n g" and "bk_size h \<le> n - 24" for q n g
  proof -
    have "q + 24 + bk_size h \<le> al_len a" using live_at_ok [OF a(2) that(1)] that(2) a(3) by simp
    then show ?thesis using al_limits [OF a(1)] by (simp add: rg_slice_def rg_holds_iff header_bytes_def al_len_def)
  qed
  show ?thesis
  proof
    assume "al_bytes a h = Ok v"
    then obtain q where q: "al_start_of a h = Ok q"
      and v: "and_then (uadd q header_bytes) (\<lambda>p. ok_or AlRegion (rg_slice (al_region a) p (bk_size h))) = Ok v"
      by (auto simp: al_bytes_def and_then_Ok_iff)
    from q obtain n where n: "live_at bs q n (bk_generation h)" "bk_address h = rg_base (al_region a) + q + 24"
      "bk_size h \<le> n - 24" unfolding start_of_iff [OF assms] by blast
    show "\<exists>q n. live_at bs q n (bk_generation h) \<and> bk_address h = rg_base (al_region a) + q + 24 \<and>
        bk_size h \<le> n - 24 \<and> v = field_at (al_mem a) (q + 24) (bk_size h)"
      using n v slice [OF n(1,3)] by (intro exI [of _ q] exI [of _ n]) simp
  next
    assume "\<exists>q n. live_at bs q n (bk_generation h) \<and> bk_address h = rg_base (al_region a) + q + 24 \<and>
        bk_size h \<le> n - 24 \<and> v = field_at (al_mem a) (q + 24) (bk_size h)"
    then obtain q n where n: "live_at bs q n (bk_generation h)" "bk_address h = rg_base (al_region a) + q + 24"
      "bk_size h \<le> n - 24" "v = field_at (al_mem a) (q + 24) (bk_size h)" by blast
    have "al_start_of a h = Ok q" unfolding start_of_iff [OF assms] using n by blast
    then show "al_bytes a h = Ok v" using slice [OF n(1,3)] n(4) by (simp add: al_bytes_def)
  qed
qed

text \<open>A step that keeps the blocks keeps what every handle reads.\<close>

lemma field_at_prefix: "k \<le> n \<Longrightarrow> field_at m p n = field_at m' p n \<Longrightarrow> field_at m p k = field_at m' p k"
  by (metis field_at_def min.absorb1 take_take)

lemma keeps_bytes:
  assumes "tiled a bs" and "tiled a' bs'" and "keeps x (al_mem a) bs (al_mem a') bs'"
    and "rg_base (al_region a') = rg_base (al_region a)"
    and "al_bytes a h = Ok v" and "\<And>q. x = Some q \<Longrightarrow> bk_address h \<noteq> rg_base (al_region a) + q + 24"
  shows "al_bytes a' h = Ok v"
proof -
  obtain q n where q: "live_at bs q n (bk_generation h)" "bk_address h = rg_base (al_region a) + q + 24"
    "bk_size h \<le> n - 24" "v = field_at (al_mem a) (q + 24) (bk_size h)"
    using assms(5) unfolding al_bytes_iff [OF assms(1)] by blast
  have "Some q \<noteq> x" using assms(6) q(2) by blast
  then have k: "live_at bs' q n (bk_generation h)"
    "field_at (al_mem a') (q + 24) (n - 24) = field_at (al_mem a) (q + 24) (n - 24)"
    using assms(3) q(1) unfolding keeps_def by blast+
  then have "v = field_at (al_mem a') (q + 24) (bk_size h)"
    using field_at_prefix [OF q(3), of "al_mem a'" "q + 24" "al_mem a"] q(4) by simp
  then show ?thesis using k(1) q(2,3) assms(4) unfolding al_bytes_iff [OF assms(2)] by auto
qed

section \<open>Replacing a run of blocks\<close>

lemma splice_keeps:
  assumes segs: "segs m 0 0 (xs @ mid @ ys)" and same: "span mid' = span mid"
    and front: "\<And>q k. q + k \<le> span xs \<Longrightarrow> field_at m' q k = field_at m q k"
    and rest: "\<And>q k. span xs + span mid + 24 \<le> q \<Longrightarrow> field_at m' q k = field_at m q k"
    and gone: "\<And>q b. (q, b) \<in> set (placed (span xs) mid) \<Longrightarrow> is_live b \<Longrightarrow> x = Some q"
  shows "keeps x m (xs @ mid @ ys) m' (xs @ mid' @ ys)"
  unfolding keeps_def
proof (intro allI impI)
  fix q n g
  assume live: "live_at (xs @ mid @ ys) q n g" and other: "Some q \<noteq> x"
  have n: "24 \<le> n"
    using live segs_ok [OF segs, of "(n, g)"] placed_in [of q "(n, g)" 0 "xs @ mid @ ys"]
    by (simp add: live_at_def blk_ok_def)
  consider "(q, n, g) \<in> set (placed 0 xs)" | "(q, n, g) \<in> set (placed (span xs) mid)"
    | "(q, n, g) \<in> set (placed (span xs + span mid) ys)"
    using live by (auto simp: live_at_def)
  then show "live_at (xs @ mid' @ ys) q n g \<and> field_at m' (q + 24) (n - 24) = field_at m (q + 24) (n - 24)"
  proof cases
    case 1
    then show ?thesis using live n placed_bounds [OF 1] front [of "q + 24" "n - 24"] by (simp add: live_at_def)
  next
    case 2
    then show ?thesis using gone [OF 2] live other by (simp add: live_at_def)
  next
    case 3
    then show ?thesis using live placed_bounds [OF 3] rest [of "q + 24" "n - 24"] same by (simp add: live_at_def)
  qed
qed

section \<open>Placing a block\<close>

definition place_blocks :: "nat \<Rightarrow> nat \<Rightarrow> nat \<Rightarrow> nat \<Rightarrow> blk list" where
  "place_blocks n gap need g =
     pad_blocks gap @
     (if n - gap \<ge> need + 48 then [(24 + need, g), (n - gap - (24 + need), 0)] else [(n - gap, g)])"

definition place_taken :: "nat \<Rightarrow> nat \<Rightarrow> nat \<Rightarrow> nat" where
  "place_taken n gap need = (if n - gap \<ge> need + 48 then 24 + need else n - gap)"

definition place_mem :: "bytes \<Rightarrow> nat \<Rightarrow> nat \<Rightarrow> nat \<Rightarrow> nat \<Rightarrow> nat \<Rightarrow> nat \<Rightarrow> bytes" where
  "place_mem m p n prev gap need g =
     (let m = (if gap > 0 then put m p (header_write (blk_header (gap, 0) prev)) else m);
          m = (if n - gap \<ge> need + 48
               then put m (p + gap + (24 + need)) (header_write (blk_header (n - gap - (24 + need), 0) (24 + need)))
               else m);
          m = put m (p + gap) (header_write (blk_header (place_taken n gap need, g) (if gap > 0 then gap else prev)))
      in relinked m (p + n) (if n - gap \<ge> need + 48 then n - gap - (24 + need) else n - gap))"

lemma place_span: "gap + 24 + need \<le> n \<Longrightarrow> span (place_blocks n gap need g) = n"
  by (simp add: place_blocks_def pad_blocks_def)

lemma place_fits:
  "n < u64_limit \<Longrightarrow> prev < u64_limit \<Longrightarrow> g < 2 ^ 63 \<Longrightarrow> header_fits \<lparr>hd_size = n, hd_prev = prev, hd_state = blk_word g\<rparr>"
  by (simp add: header_fits_def blk_word_fits)

lemma free_fits: "n < u64_limit \<Longrightarrow> prev < u64_limit \<Longrightarrow> header_fits \<lparr>hd_size = n, hd_prev = prev, hd_state = 0\<rparr>"
  by (simp add: header_fits_def u64_limit_def)

lemma length_place_mem [simp]:
  "gap + 24 + need \<le> n \<Longrightarrow> p + n \<le> length m \<Longrightarrow> length (place_mem m p n prev gap need g) = length m"
  by (simp add: place_mem_def Let_def)

lemma place_mem_front:
  "gap + 24 + need \<le> n \<Longrightarrow> p + n \<le> length m \<Longrightarrow> q + k \<le> p \<Longrightarrow>
   field_at (place_mem m p n prev gap need g) q k = field_at m q k"
  by (simp add: place_mem_def Let_def field_relinked_before)

lemma place_mem_back:
  "gap + 24 + need \<le> n \<Longrightarrow> p + n \<le> length m \<Longrightarrow> gap = 0 \<or> 24 \<le> gap \<Longrightarrow> p + n + 24 \<le> q \<Longrightarrow>
   field_at (place_mem m p n prev gap need g) q k = field_at m q k"
  by (auto simp: place_mem_def Let_def field_relinked_after)

lemma segs_place:
  assumes "segs m 0 0 (xs @ (n, 0) # ys)" and "span (xs @ (n, 0) # ys) = length m" and "length m < 2 ^ 63"
    and gap: "gap = 0 \<or> 24 \<le> gap" "8 dvd gap" and need: "8 dvd need" "0 < need" "gap + 24 + need \<le> n"
    and g: "0 < g" "g < 2 ^ 63"
  shows "segs (place_mem m (span xs) n (tail_size 0 xs) gap need g) 0 0 (xs @ place_blocks n gap need g @ ys)"
proof -
  let ?p = "span xs" and ?prev = "tail_size 0 xs"
  let ?m' = "place_mem m ?p n ?prev gap need g"
  define last where "last = (if n - gap \<ge> need + 48 then n - gap - (24 + need) else n - gap)"
  have m: "segs m 0 0 xs" "header_read m ?p = blk_header (n, 0) ?prev" "8 dvd n" "segs m (?p + n) n ys"
    and len: "?p + n + span ys = length m" "?p + n \<le> length m"
    using assms(1,2) by (auto simp: blk_ok_def)
  have small: "length m < u64_limit" using assms(3) by (simp add: u64_limit_def)
  have prev: "?prev < u64_limit" using header_read_fits [of m ?p] m(2) by (simp add: header_fits_def)
  have front: "segs ?m' 0 0 xs" using m(1) len gap need by (auto simp: place_mem_def Let_def)
  have "segs ?m' (?p + n) last ys"
    unfolding place_mem_def Let_def last_def
    by (rule segs_relinked [where prev = n]) (use m(4) len gap need small in auto)
  moreover have "segs ?m' ?p ?prev (place_blocks n gap need g)"
    using len gap need m(3) g small prev
    by (auto simp: place_mem_def Let_def place_blocks_def pad_blocks_def place_taken_def blk_ok_def place_fits free_fits)
  moreover have "tail_size ?prev (place_blocks n gap need g) = last"
    by (simp add: place_blocks_def last_def pad_blocks_def tail_size_append)
  ultimately show ?thesis using front place_span [OF need(3)] by simp
qed

end
