(* ===== verification/Allocator_Alloc.thy ===== *)
theory Allocator_Alloc
  imports Allocator_Ops
begin

unbundle bit_operations_syntax

text \<open>
  Allocation: the gap before an aligned payload, the first-fit search over the blocks, and the
  allocator that \<open>alloc\<close> leaves.
\<close>

section \<open>The leading gap\<close>

lemma gap_loop_Some:
  assumes "gap_loop gap align = Some g"
  shows "gap \<le> g \<and> (g - gap) mod align = 0 \<and> (align \<noteq> 0 \<longrightarrow> g = 0 \<or> 24 \<le> g) \<and> (gap = 0 \<longrightarrow> g = 0) \<and>
    (g = gap \<or> g < align + 24)"
  using assms
proof (induction gap align rule: gap_loop.induct)
  case (1 gap align)
  show ?case
  proof (cases "gap \<noteq> 0 \<and> gap < header_bytes \<and> align \<noteq> 0")
    case True
    then have more: "gap + align < u64_limit" "gap_loop (gap + align) align = Some g"
      using "1.prems" gap_loop.simps [of gap align] by (auto split: option.splits)
    then have ih: "gap + align \<le> g" "(g - (gap + align)) mod align = 0" "g = 0 \<or> 24 \<le> g" "g = gap + align \<or> g < align + 24"
      using "1.IH" [OF True, of "gap + align"] True by auto
    have "g - gap = g - (gap + align) + align" using ih(1) by simp
    then have "(g - gap) mod align = 0" using ih(2) by simp
    then show ?thesis using ih True by (auto simp: header_bytes_def)
  next
    case False
    then have "g = gap" using "1.prems" gap_loop.simps [of gap align] by (auto split: if_splits)
    then show ?thesis using False by (auto simp: header_bytes_def)
  qed
qed

lemma leading_gap_Some:
  assumes "leading_gap start align = Some g" and "is_power_of_two align" and "align \<le> 4096" and "8 dvd start"
  shows "(start + g + 24) mod align = 0" and "8 dvd g" and "g = 0 \<or> 24 \<le> g" and "g < 4120"
proof -
  obtain payload where p: "checked_next_multiple_of (start + 24) align = Some payload"
    and g: "gap_loop (payload - 24 - start) align = Some g"
    using assms(1) by (auto simp: leading_gap_def header_bytes_def split: option.splits)
  note up = next_multiple_Some [OF p]
  note loop = gap_loop_Some [OF g]
  have pos: "0 < align" by (rule power_of_two_pos [OF assms(2)])
  have total: "start + g + 24 = payload + (g - (payload - 24 - start))" using up(1) conjunct1 [OF loop] by linarith
  show "(start + g + 24) mod align = 0" unfolding total
    using dvd_add [of align payload "g - (payload - 24 - start)"] up(3) loop by (simp only: dvd_eq_mod_eq_0)
  show "g = 0 \<or> 24 \<le> g" using loop pos by simp
  show "g < 4120" using loop up pos assms(3) by linarith
  have "8 dvd (start + 24 :: nat)" using assms(4) by simp
  then have zero: "payload = start + 24" if "align \<in> {1, 2, 4}"
    using p multiple_of_small_power [OF that, of "start + 24"] pos
    by (simp add: checked_next_multiple_of_def split: if_splits)
  show "8 dvd g"
  proof (cases "align \<in> {1, 2, 4}")
    case True
    then show ?thesis using zero loop by simp
  next
    case False
    then have "8 dvd align" using power_of_two_cases [OF assms(2)] by simp
    moreover have "align dvd start + g + 24" using \<open>(start + g + 24) mod align = 0\<close> by auto
    ultimately have "8 dvd start + g + 24" by (rule dvd_trans)
    then have "8 dvd g + (start + 24)" by (simp add: add_ac)
    then show ?thesis using \<open>8 dvd start + 24\<close> dvd_add_left_iff by blast
  qed
qed

text \<open>The gap is the least legal one: nothing is put before the payload, or a whole block.\<close>

lemma gap_loop_least:
  assumes "gap \<le> g0" and "align dvd g0 - gap" and "gap = 0 \<or> 24 \<le> g0" and "g0 < u64_limit"
  shows "\<exists>g\<le>g0. gap_loop gap align = Some g"
  using assms
proof (induction gap align rule: gap_loop.induct)
  case (1 gap align)
  show ?case
  proof (cases "gap \<noteq> 0 \<and> gap < header_bytes \<and> align \<noteq> 0")
    case True
    then have less: "gap < g0" "24 \<le> g0" using "1.prems"(3) by (auto simp: header_bytes_def)
    then have step: "gap + align \<le> g0" using dvd_imp_le [OF "1.prems"(2)] by simp
    then have add: "checked_add64 gap align = Some (gap + align)" using "1.prems"(4) by simp
    have "g0 - (gap + align) = g0 - gap - align" by simp
    then have "align dvd g0 - (gap + align)" using "1.prems"(2) step by (simp only: dvd_diff_nat dvd_refl)
    then show ?thesis
      using "1.IH" [OF True add step] less step "1.prems"(4) True gap_loop.simps [of gap align] by (simp add: checked_add64_def)
  next
    case False
    then show ?thesis using "1.prems"(1) gap_loop.simps [of gap align] by auto
  qed
qed

lemma leading_gap_least:
  assumes align: "0 < align" and ok: "(start + g0 + 24) mod align = 0" "g0 = 0 \<or> 24 \<le> g0" "start + g0 + 24 < u64_limit"
  shows "\<exists>g\<le>g0. leading_gap start align = Some g"
proof -
  let ?p = "start + 24"
  have dvd: "align dvd ?p + g0" using ok(1) by (simp add: add_ac mod_eq_0_iff_dvd)
  obtain payload where p: "checked_next_multiple_of ?p align = Some payload" "payload \<le> ?p + g0"
  proof (cases "?p mod align = 0")
    case True
    then show ?thesis using that [of ?p] align by (simp add: checked_next_multiple_of_def)
  next
    case False
    let ?r = "align - ?p mod align"
    have "(?p mod align + g0) mod align = 0" using dvd by (metis dvd_imp_mod_0 mod_add_left_eq)
    then have "?r \<le> g0" using False mod_less_divisor [OF align, of ?p]
      by (metis add_cancel_right_right add_gr_0 dvd_imp_le le_diff_conv mod_0_imp_dvd add.commute neq0_conv)
    then show ?thesis using that [of "?p + ?r"] False align ok(3) by (simp add: checked_next_multiple_of_def)
  qed
  note up = next_multiple_Some [OF p(1)]
  have "align dvd payload" using up(3) by auto
  then have "align dvd ?p + g0 - payload" using dvd by (rule dvd_diff_nat [rotated])
  moreover have "?p + g0 - payload = g0 - (payload - 24 - start)" using up(1) p(2) by simp
  ultimately have "\<exists>g\<le>g0. gap_loop (payload - 24 - start) align = Some g"
    using ok up(1) p(2) by (intro gap_loop_least) (auto simp: u64_limit_def)
  then show ?thesis using p(1) ok(3) by (simp add: leading_gap_def header_bytes_def checked_add64_def)
qed

section \<open>The first-fit search\<close>

text \<open>Whether a block at offset \<open>p\<close> can take the request, and with which gap.\<close>

definition takes :: "nat \<Rightarrow> nat \<Rightarrow> nat \<Rightarrow> nat \<Rightarrow> blk \<Rightarrow> nat option" where
  "takes base need align p b =
     (if is_live b then None
      else case leading_gap (base + p) align of
        None \<Rightarrow> None
      | Some gap \<Rightarrow> if gap + 24 + need \<le> fst b then Some gap else None)"

lemma block_fits_takes:
  assumes "rg_base (al_region a) + p < u64_limit" and "8 dvd rg_base (al_region a) + p"
    and "is_power_of_two align" and "align \<le> 4096" and "need < 2 ^ 63 + 8"
  shows "block_fits a need align p (blk_header b prev) = Ok (takes (rg_base (al_region a)) need align p b)"
proof (cases "leading_gap (rg_base (al_region a) + p) align")
  case (Some gap)
  then have "gap < 4120" using leading_gap_Some(4) assms by blast
  then show ?thesis using Some assms(1,5) by (simp add: block_fits_def takes_def st_FREE_def header_bytes_def u64_limit_def)
qed (use assms(1) in \<open>simp add: block_fits_def takes_def st_FREE_def\<close>)

lemma find_loop_blocks:
  assumes ok: "region_ok (al_region a)" and align: "is_power_of_two align" "align \<le> 4096" and need: "need < 2 ^ 63 + 8"
    and "segs (al_mem a) p prev bs" and "8 dvd p" and "p + span bs = al_len a"
  shows "(find_loop a need align p = Ok None \<and>
        (\<forall>(q, b) \<in> set (placed p bs). takes (rg_base (al_region a)) need align q b = None)) \<or>
    (\<exists>xs b ys gap. bs = xs @ b # ys \<and> find_loop a need align p =
        Ok (Some (p + span xs, blk_header b (tail_size prev xs), gap)) \<and>
        takes (rg_base (al_region a)) need align (p + span xs) b = Some gap \<and>
        (\<forall>(q, c) \<in> set (placed p xs). takes (rg_base (al_region a)) need align q c = None))"
  using assms(5-)
proof (induction bs arbitrary: p prev)
  case Nil
  then show ?case by (subst (1) find_loop.simps) (simp add: al_step_end ok)
next
  case (Cons b bs)
  note step = al_step_block [OF ok Cons.prems(1,2)]
  have base: "8 dvd rg_base (al_region a)" "rg_base (al_region a) + al_len a < u64_limit"
    using ok by (simp_all add: region_ok_def al_len_def)
  have fits: "block_fits a need align p (blk_header b prev) = Ok (takes (rg_base (al_region a)) need align p b)"
    by (rule block_fits_takes) (use base Cons.prems align need in auto)
  show ?case
  proof (cases "takes (rg_base (al_region a)) need align p b")
    case None
    have go: "find_loop a need align p = find_loop a need align (p + fst b)"
      by (subst find_loop.simps) (simp add: step fits None)
    have ih: "segs (al_mem a) (p + fst b) (fst b) bs" "8 dvd p + fst b" "p + fst b + span bs = al_len a"
      using Cons.prems by (auto simp: blk_ok_def)
    from Cons.IH [OF ih] show ?thesis
    proof (elim disjE exE conjE)
      assume "find_loop a need align (p + fst b) = Ok None"
        "\<forall>(q, b) \<in> set (placed (p + fst b) bs). takes (rg_base (al_region a)) need align q b = None"
      then show ?thesis using None go by simp
    next
      fix xs c ys gap
      assume *: "bs = xs @ c # ys"
        "find_loop a need align (p + fst b) = Ok (Some (p + fst b + span xs, blk_header c (tail_size (fst b) xs), gap))"
        "takes (rg_base (al_region a)) need align (p + fst b + span xs) c = Some gap"
        "\<forall>(q, c) \<in> set (placed (p + fst b) xs). takes (rg_base (al_region a)) need align q c = None"
      then show ?thesis using None go
        by (intro disjI2 exI [of _ "b # xs"] exI [of _ c] exI [of _ ys] exI [of _ gap]) (simp add: add.assoc)
    qed
  next
    case (Some gap)
    have "find_loop a need align p = Ok (Some (p, blk_header b prev, gap))"
      by (subst find_loop.simps) (simp add: step fits Some)
    then show ?thesis using Some
      by (intro disjI2 exI [of _ "[]"] exI [of _ b] exI [of _ bs] exI [of _ gap]) simp
  qed
qed

section \<open>The allocator after a placement\<close>

definition counted :: "allocator \<Rightarrow> nat \<Rightarrow> allocator" where
  "counted a n =
     a\<lparr>al_used := al_used a + n, al_live := al_live a + 1, al_generation := next_generation (al_generation a),
       al_peak := max (al_used a + n) (al_peak a)\<rparr>"

lemma counted_simps [simp]:
  "al_region (counted a n) = al_region a" "al_used (counted a n) = al_used a + n"
  "al_live (counted a n) = al_live a + 1" "al_generation (counted a n) = next_generation (al_generation a)"
  "al_peak (counted a n) = max (al_used a + n) (al_peak a)" "al_len (counted a n) = al_len a"
  by (simp_all add: counted_def al_len_def)

lemma next_generation_range: "0 < next_generation g" "next_generation g < 2 ^ 63"
  using take_bit_nat_less_exp [of 63 "(g + 1) mod u64_limit"]
  by (simp_all add: next_generation_def Let_def)

lemma al_place_value:
  assumes "tiled a (xs @ (n, 0) # ys)"
    and gap: "gap = 0 \<or> 24 \<le> gap" "8 dvd gap" and need: "8 dvd need" "0 < need" "gap + 24 + need \<le> n"
  shows "al_place a sz need (span xs) (blk_header (n, 0) (tail_size 0 xs)) gap =
    (Ok \<lparr>bk_address = rg_base (al_region a) + (span xs + gap + 24), bk_size = sz, bk_generation = al_generation a\<rparr>,
     counted (set_mem a (place_mem (al_mem a) (span xs) n (tail_size 0 xs) gap need (al_generation a)))
       (place_taken n gap need))"
proof -
  note a = tiledD [OF assms(1)]
  have xs: "8 dvd span xs" "8 dvd n" using a(2) segs_aligned [of "al_mem a" 0 0 xs] by (auto simp: blk_ok_def)
  have len: "span xs + n \<le> al_len a" using a(3) by simp
  have lim: "al_len a + 24 < u64_limit" by (rule al_limits [OF a(1)])
  have used: "al_used a + n \<le> al_len a"
    using a(3,5) span_filter_le [of is_live xs] span_filter_le [of is_live ys] by simp
  have live: "al_live a + 1 < u64_limit" using tiled_live_le [OF assms(1)] lim by simp
  have max: "(if b < c then c else b) = max c b" for b c :: nat by simp
  have split: "24 + need + 24 \<le> k \<longleftrightarrow> need + 48 \<le> k" for k by linarith
  note defs = al_place_def header_bytes_def al_write_ok al_relink_ok tag_used [OF a(8,9)] place_mem_def
    place_taken_def Let_def counted_def max rg_pointer_def split
  note facts = xs len lim used live need a(1)
  show ?thesis
  proof (cases "gap = 0")
    case True
    then show ?thesis using facts by (cases "need + 48 \<le> n") (simp_all add: defs)
  next
    case False
    then have "24 \<le> gap" using gap by simp
    then show ?thesis using facts gap(2) False by (cases "need + 48 \<le> n - gap") (simp_all add: defs)
  qed
qed

lemma place_live:
  assumes "0 < g"
  shows "span (filter is_live (place_blocks n gap need g)) = place_taken n gap need"
    and "length (filter is_live (place_blocks n gap need g)) = 1"
  using assms by (simp_all add: place_blocks_def pad_blocks_def place_taken_def)

lemma merged_place:
  assumes "merged (xs @ (n, 0) # ys)" and "0 < g"
  shows "merged (xs @ place_blocks n gap need g @ ys)"
  using assms
  by (auto simp: merged_def successively_append_iff successively_Cons place_blocks_def pad_blocks_def)

lemma tiled_place:
  assumes "tiled a (xs @ (n, 0) # ys)"
    and gap: "gap = 0 \<or> 24 \<le> gap" "8 dvd gap" and need: "8 dvd need" "0 < need" "gap + 24 + need \<le> n"
  defines "m \<equiv> place_mem (al_mem a) (span xs) n (tail_size 0 xs) gap need (al_generation a)"
  shows "tiled (counted (set_mem a m) (place_taken n gap need)) (xs @ place_blocks n gap need (al_generation a) @ ys)"
proof -
  note a = tiledD [OF assms(1)]
  have len: "length m = al_len a" using a(3) need unfolding m_def by (simp del: length_al_mem add: length_al_mem)
  have "segs m 0 0 (xs @ place_blocks n gap need (al_generation a) @ ys)"
    unfolding m_def using a gap need by (intro segs_place) (auto simp: region_ok_def al_len_def)
  moreover have "span (xs @ place_blocks n gap need (al_generation a) @ ys) = al_len a"
    using a(3) place_span [OF need(3)] by simp
  ultimately show ?thesis
    using a len merged_place [OF a(4,8)] place_live [OF a(8)] next_generation_range [of "al_generation a"]
    by (simp add: tiled_def)
qed

lemma place_keeps:
  assumes "tiled a (xs @ (n, 0) # ys)" and "gap = 0 \<or> 24 \<le> gap" and "gap + 24 + need \<le> n"
  shows "keeps None (al_mem a) (xs @ (n, 0) # ys)
    (place_mem (al_mem a) (span xs) n (tail_size 0 xs) gap need g) (xs @ place_blocks n gap need g @ ys)"
proof -
  have "keeps None (al_mem a) (xs @ [(n, 0)] @ ys)
    (place_mem (al_mem a) (span xs) n (tail_size 0 xs) gap need g) (xs @ place_blocks n gap need g @ ys)"
    using tiledD(2,3) [OF assms(1)] assms(2,3)
    by (intro splice_keeps) (auto simp: place_span place_mem_front place_mem_back)
  then show ?thesis by simp
qed

text \<open>The block a placement creates, where it stands and how much it holds.\<close>

lemma place_new:
  assumes "0 < g" and "gap + 24 + need \<le> n"
  shows "live_at (xs @ place_blocks n gap need g @ ys) (span xs + gap) (place_taken n gap need) g"
    and "need \<le> place_taken n gap need - 24"
  using assms by (auto simp: live_at_def place_blocks_def pad_blocks_def place_taken_def)

section \<open>Allocation\<close>

lemma request_rounded:
  assumes "checked_next_multiple_of sz header_align = Some need" and "sz \<noteq> 0" and "sz < 2 ^ 63"
  shows "8 dvd need" "sz \<le> need" "0 < need" "need < 2 ^ 63 + 8"
  using next_multiple_Some [OF assms(1)] assms(2,3) by (auto simp: header_align_def)

lemma takes_Some:
  assumes "takes base need align p b = Some gap" and "is_power_of_two align" and "align \<le> 4096" and "8 dvd base + p"
  shows "snd b = 0" "gap = 0 \<or> 24 \<le> gap" "8 dvd gap" "gap + 24 + need \<le> fst b" "(base + p + gap + 24) mod align = 0"
proof -
  obtain g where g: "leading_gap (base + p) align = Some g" "\<not> is_live b" "g + 24 + need \<le> fst b" "g = gap"
    using assms(1) by (auto simp: takes_def split: if_splits option.splits)
  then show "snd b = 0" "gap = 0 \<or> 24 \<le> gap" "8 dvd gap" "gap + 24 + need \<le> fst b" "(base + p + gap + 24) mod align = 0"
    using leading_gap_Some [OF g(1) assms(2-4)] by auto
qed

text \<open>A free block that the search passes over cannot hold the request, whatever gap is left before the payload.\<close>

lemma takes_None:
  assumes none: "takes base need align p b = None" and free: "\<not> is_live b" and align: "is_power_of_two align" "align \<le> 4096"
    and dvd: "8 dvd base + p" "8 dvd fst b" and need: "8 dvd need" "need < sz + 8" and bound: "base + p + fst b < u64_limit"
    and gap: "gap = 0 \<or> 24 \<le> gap" "(base + p + gap + 24) mod align = 0"
  shows "fst b < gap + 24 + sz"
proof (rule ccontr)
  assume "\<not> fst b < gap + 24 + sz"
  then have fits: "gap + 24 + sz \<le> fst b" by simp
  then obtain g where g: "g \<le> gap" "leading_gap (base + p) align = Some g"
    using leading_gap_least [OF power_of_two_pos [OF align(1)] gap(2,1)] bound by auto
  have "8 dvd g" by (rule leading_gap_Some(2) [OF g(2) align dvd(1)])
  then have "g + 24 + need \<le> fst b" using fits g(1) need dvd(2) by presburger
  then show False using none free g(2) by (simp add: takes_def)
qed

lemma alloc_refused:
  assumes "tiled a bs" and "sz = 0 \<or> \<not> is_power_of_two align \<or> align > 4096"
  shows "al_alloc a sz align = (Err AlRequest, a)"
  using assms(2) by (auto simp: al_alloc_def max_align_def)

lemma alloc_cases:
  assumes "tiled a bs" and sz: "sz \<noteq> 0" "sz < 2 ^ 63" and align: "is_power_of_two align" "align \<le> 4096"
  obtains (none) need where "checked_next_multiple_of sz header_align = Some need"
      "al_alloc a sz align = (Err (if al_used a = al_len a then AlEmpty else AlExhausted), a)"
      "\<forall>(q, b) \<in> set (placed 0 bs). takes (rg_base (al_region a)) need align q b = None"
  | (some) xs n ys gap need where "checked_next_multiple_of sz header_align = Some need" "bs = xs @ (n, 0) # ys"
      "gap = 0 \<or> 24 \<le> gap" "8 dvd gap" "gap + 24 + need \<le> n"
      "(rg_base (al_region a) + span xs + gap + 24) mod align = 0"
      "\<forall>(q, b) \<in> set (placed 0 xs). takes (rg_base (al_region a)) need align q b = None"
      "al_alloc a sz align = al_place a sz need (span xs) (blk_header (n, 0) (tail_size 0 xs)) gap"
proof -
  note a = tiledD [OF assms(1)]
  obtain need where need: "checked_next_multiple_of sz header_align = Some need"
    using next_multiple_ex [of header_align sz] sz(2) by (auto simp: header_align_def u64_limit_def)
  have small: "need < 2 ^ 63 + 8" by (rule request_rounded(4) [OF need sz])
  have free: "al_free_bytes a = Ok (al_len a - al_used a)" using a(10) by (simp add: al_free_bytes_def)
  have run: "al_alloc a sz align = or_return (find_loop a need align 0) a (\<lambda>found. case found of
      None \<Rightarrow> (Err (if al_used a = al_len a then AlEmpty else AlExhausted), a)
    | Some (p, h, gap) \<Rightarrow> al_place a sz need p h gap)"
    using sz align a(10) by (auto simp: al_alloc_def max_align_def need free intro!: arg_cong [where f = "or_return _ _"] ext)
  from find_loop_blocks [OF a(1) align small a(2)] a(3)
  consider "find_loop a need align 0 = Ok None"
      "\<forall>(q, b) \<in> set (placed 0 bs). takes (rg_base (al_region a)) need align q b = None"
    | xs b ys gap where "bs = xs @ b # ys"
      "find_loop a need align 0 = Ok (Some (span xs, blk_header b (tail_size 0 xs), gap))"
      "takes (rg_base (al_region a)) need align (span xs) b = Some gap"
      "\<forall>(q, b) \<in> set (placed 0 xs). takes (rg_base (al_region a)) need align q b = None"
    by auto
  then show ?thesis
  proof cases
    case 1
    then show ?thesis using none need run by simp
  next
    case (2 xs b ys gap)
    have "8 dvd rg_base (al_region a) + span xs"
      using a(1,2) 2(1) segs_aligned [of "al_mem a" 0 0 xs] by (simp add: region_ok_def)
    note t = takes_Some [OF 2(3) align this]
    then have "b = (fst b, 0)" by (simp add: prod_eq_iff)
    then show ?thesis using some [of need xs "fst b" ys gap] need 2 t run by simp
  qed
qed

end
