(* ===== verification/Allocator_Free.thy ===== *)
theory Allocator_Free
  imports Allocator_Alloc
begin

unbundle bit_operations_syntax

text \<open>
  Release: a freed block is merged with the free block after it and the free block before it, so
  that no two free blocks are ever neighbours.
\<close>

section \<open>Merging with the next block\<close>

text \<open>The blocks after a freed one, split into the free block that is merged (size \<open>0\<close>: none) and the rest.\<close>

definition absorb_next :: "blk list \<Rightarrow> nat \<times> blk list" where
  "absorb_next ys = (case ys of [] \<Rightarrow> (0, []) | y # zs \<Rightarrow> if is_live y then (0, ys) else (fst y, zs))"

definition absorb_prev :: "blk list \<Rightarrow> nat \<times> blk list" where
  "absorb_prev xs = (if xs = [] \<or> is_live (last xs) then (0, xs) else (fst (last xs), butlast xs))"

definition merge_blocks :: "blk list \<Rightarrow> nat \<Rightarrow> blk list \<Rightarrow> blk list" where
  "merge_blocks xs n ys =
     snd (absorb_prev xs) @ (fst (absorb_prev xs) + n + fst (absorb_next ys), 0) # snd (absorb_next ys)"

definition merge_next_mem :: "bytes \<Rightarrow> nat \<Rightarrow> nat \<Rightarrow> nat \<Rightarrow> blk list \<Rightarrow> bytes" where
  "merge_next_mem m p n prev ys =
     (if fst (absorb_next ys) = 0 then m else put m p (header_write (blk_header (n + fst (absorb_next ys), 0) prev)))"

definition merge_mem :: "bytes \<Rightarrow> blk list \<Rightarrow> nat \<Rightarrow> blk list \<Rightarrow> bytes" where
  "merge_mem m xs n ys =
     (let m = merge_next_mem m (span xs) n (tail_size 0 xs) ys;
          size = n + fst (absorb_next ys);
          x = fst (absorb_prev xs);
          m = (if x = 0 then m
               else put m (span xs - x) (header_write (blk_header (x + size, 0) (tail_size 0 (butlast xs)))))
      in relinked m (span xs + size) (x + size))"

lemma absorb_next_cases:
  assumes "segs m p prev ys"
  obtains (stay) "fst (absorb_next ys) = 0" "snd (absorb_next ys) = ys" "ys = [] \<or> is_live (hd ys)"
  | (take) k zs where "ys = (k, 0) # zs" "fst (absorb_next ys) = k" "snd (absorb_next ys) = zs" "24 \<le> k" "8 dvd k"
      "header_read m p = blk_header (k, 0) prev" "segs m (p + k) k zs" "p + k \<le> length m"
proof (cases ys)
  case (Cons y zs)
  show ?thesis
  proof (cases "is_live y")
    case True
    then show ?thesis using stay Cons by (simp add: absorb_next_def)
  next
    case False
    then have "y = (fst y, 0)" by (simp add: prod_eq_iff)
    then show ?thesis using take [of "fst y" zs] Cons assms False by (simp add: absorb_next_def blk_ok_def)
  qed
qed (use stay in \<open>simp add: absorb_next_def\<close>)

lemma absorb_prev_cases:
  assumes "segs m 0 0 xs"
  obtains (stay) "fst (absorb_prev xs) = 0" "snd (absorb_prev xs) = xs" "xs = [] \<or> is_live (last xs)"
  | (take) k zs where "xs = zs @ [(k, 0)]" "fst (absorb_prev xs) = k" "snd (absorb_prev xs) = zs" "24 \<le> k" "8 dvd k"
      "segs m 0 0 zs" "header_read m (span zs) = blk_header (k, 0) (tail_size 0 zs)"
proof (cases xs rule: rev_cases)
  case (snoc zs y)
  show ?thesis
  proof (cases "is_live y")
    case True
    then show ?thesis using stay snoc by (simp add: absorb_prev_def)
  next
    case False
    then have "y = (fst y, 0)" by (simp add: prod_eq_iff)
    then show ?thesis using take [of zs "fst y"] snoc assms False by (simp add: absorb_prev_def blk_ok_def)
  qed
qed (use stay in \<open>simp add: absorb_prev_def\<close>)

lemma merge_span:
  assumes "segs m 0 0 xs" and "segs m p prev ys"
  shows "span (snd (absorb_prev xs)) + fst (absorb_prev xs) = span xs"
    and "fst (absorb_next ys) + span (snd (absorb_next ys)) = span ys"
  by (rule absorb_prev_cases [OF assms(1)]; simp) (rule absorb_next_cases [OF assms(2)]; simp)

text \<open>The region after the first half of \<open>coalesce\<close>: one header for the block and its next neighbour.\<close>

lemma merge_next:
  assumes "segs m 0 0 (xs @ (n, 0) # ys)" and "span (xs @ (n, 0) # ys) = length m" and "length m < 2 ^ 63"
  defines "s \<equiv> n + fst (absorb_next ys)" and "m' \<equiv> merge_next_mem m (span xs) n (tail_size 0 xs) ys"
  shows "length m' = length m" "segs m' 0 0 xs" "header_read m' (span xs) = blk_header (s, 0) (tail_size 0 xs)"
    "\<exists>q. segs m' (span xs + s) q (snd (absorb_next ys))" "span xs + s + span (snd (absorb_next ys)) = length m"
    "24 \<le> s" "8 dvd s" "8 dvd span xs"
proof -
  have m: "segs m 0 0 xs" "header_read m (span xs) = blk_header (n, 0) (tail_size 0 xs)" "24 \<le> n" "8 dvd n"
    "segs m (span xs + n) n ys" "span xs + n + span ys = length m"
    using assms(1,2) by (auto simp: blk_ok_def)
  have small: "length m < u64_limit" using assms(3) by (simp add: u64_limit_def)
  have prev: "tail_size 0 xs < u64_limit" using header_read_fits [of m "span xs"] m(2) by (simp add: header_fits_def)
  show "8 dvd span xs" by (rule segs_aligned [OF m(1)])
  have "length m' = length m \<and> segs m' 0 0 xs \<and> header_read m' (span xs) = blk_header (s, 0) (tail_size 0 xs) \<and>
    (\<exists>q. segs m' (span xs + s) q (snd (absorb_next ys))) \<and> span xs + s + span (snd (absorb_next ys)) = length m \<and>
    24 \<le> s \<and> 8 dvd s"
  proof (rule absorb_next_cases [OF m(5)])
    assume "fst (absorb_next ys) = 0" "snd (absorb_next ys) = ys"
    then show ?thesis using m unfolding s_def m'_def merge_next_mem_def by auto
  next
    fix k zs
    assume k: "ys = (k, 0) # zs" "fst (absorb_next ys) = k" "snd (absorb_next ys) = zs" "24 \<le> k" "8 dvd k"
      "segs m (span xs + n + k) k zs"
    have "header_fits \<lparr>hd_size = n + k, hd_prev = tail_size 0 xs, hd_state = 0\<rparr>"
      using m(6) k small prev by (intro free_fits) auto
    then have "segs m' 0 0 xs" "header_read m' (span xs) = blk_header (s, 0) (tail_size 0 xs)"
      "segs m' (span xs + s) k zs" "length m' = length m"
      using m k unfolding s_def m'_def merge_next_mem_def by (simp_all add: add.assoc)
    then show ?thesis using m(3,4,6) k by (auto simp: s_def)
  qed
  then show "length m' = length m" "segs m' 0 0 xs" "header_read m' (span xs) = blk_header (s, 0) (tail_size 0 xs)"
    "\<exists>q. segs m' (span xs + s) q (snd (absorb_next ys))" "span xs + s + span (snd (absorb_next ys)) = length m"
    "24 \<le> s" "8 dvd s" by blast+
qed

section \<open>Merging with the previous block\<close>

lemma relink_done:
  assumes "segs m 0 0 xs" and "header_read m (span xs) = blk_header (s, 0) (tail_size 0 xs)"
    and "segs m (span xs + s) q ys" and "span xs + s + span ys = length m" and "24 \<le> s" and "8 dvd s"
    and "length m < u64_limit"
  shows "segs (relinked m (span xs + s) s) 0 0 (xs @ (s, 0) # ys)"
proof -
  have "segs (relinked m (span xs + s) s) (span xs + s) s ys"
    using assms by (intro segs_relinked [OF assms(3)]) auto
  then show ?thesis using assms by (simp add: blk_ok_def)
qed

lemma segs_merge:
  assumes "segs m 0 0 (xs @ (n, 0) # ys)" and "span (xs @ (n, 0) # ys) = length m" and "length m < 2 ^ 63"
  shows "segs (merge_mem m xs n ys) 0 0 (merge_blocks xs n ys)" and "length (merge_mem m xs n ys) = length m"
proof -
  let ?m = "merge_next_mem m (span xs) n (tail_size 0 xs) ys" and ?s = "n + fst (absorb_next ys)"
  note step = merge_next [OF assms]
  obtain q where q: "segs ?m (span xs + ?s) q (snd (absorb_next ys))" using step(4) by blast
  have small: "length m < u64_limit" using assms(3) by (simp add: u64_limit_def)
  have "segs (merge_mem m xs n ys) 0 0 (merge_blocks xs n ys) \<and> length (merge_mem m xs n ys) = length m"
  proof (rule absorb_prev_cases [OF step(2)])
    assume stay: "fst (absorb_prev xs) = 0" "snd (absorb_prev xs) = xs"
    have "segs (relinked ?m (span xs + ?s) ?s) 0 0 (xs @ (?s, 0) # snd (absorb_next ys))"
      using step q small by (intro relink_done) auto
    then show ?thesis using stay step(1) by (simp add: merge_mem_def merge_blocks_def Let_def)
  next
    fix k zs
    assume k: "xs = zs @ [(k, 0)]" "fst (absorb_prev xs) = k" "snd (absorb_prev xs) = zs" "24 \<le> k" "8 dvd k"
      "segs ?m 0 0 zs" "header_read ?m (span zs) = blk_header (k, 0) (tail_size 0 zs)"
    let ?m' = "put ?m (span zs) (header_write (blk_header (k + ?s, 0) (tail_size 0 zs)))"
    have len: "span zs + k + ?s + span (snd (absorb_next ys)) = length m" using step(5) k(1) by simp
    have "tail_size 0 zs < u64_limit" using header_read_fits [of ?m "span zs"] k(7) by (simp add: header_fits_def)
    then have "header_fits \<lparr>hd_size = k + ?s, hd_prev = tail_size 0 zs, hd_state = 0\<rparr>"
      using len small by (intro free_fits) auto
    then have "segs ?m' 0 0 zs" "header_read ?m' (span zs) = blk_header (k + ?s, 0) (tail_size 0 zs)"
      "segs ?m' (span zs + (k + ?s)) q (snd (absorb_next ys))"
      using k len step(1) q by (simp_all add: add.assoc)
    then have "segs (relinked ?m' (span zs + (k + ?s)) (k + ?s)) 0 0 (zs @ (k + ?s, 0) # snd (absorb_next ys))"
      using len k step small by (intro relink_done) auto
    moreover have "span xs - k = span zs" "span xs + ?s = span zs + (k + ?s)" using k(1) by simp_all
    ultimately show ?thesis using k len step(1) by (simp add: merge_mem_def merge_blocks_def Let_def add.assoc)
  qed
  then show "segs (merge_mem m xs n ys) 0 0 (merge_blocks xs n ys)" and "length (merge_mem m xs n ys) = length m" by auto
qed

lemma al_coalesce_value:
  assumes ok: "region_ok (al_region a)" and segs: "segs (al_mem a) 0 0 (xs @ (n, 0) # ys)"
    and len: "span (xs @ (n, 0) # ys) = al_len a"
  shows "al_coalesce a (span xs) = (Ok (), set_mem a (merge_mem (al_mem a) xs n ys))"
proof -
  let ?p = "span xs" and ?prev = "tail_size 0 xs" and ?s = "n + fst (absorb_next ys)"
  let ?m = "merge_next_mem (al_mem a) ?p n ?prev ys"
  have small: "al_len a < 2 ^ 63" using ok by (simp add: region_ok_def al_len_def)
  have lim: "al_len a + 24 < u64_limit" by (rule al_limits [OF ok])
  note step = merge_next [OF segs, unfolded length_al_mem, OF len small]
  have m: "header_read (al_mem a) ?p = blk_header (n, 0) ?prev" "24 \<le> n" "8 dvd n" "segs (al_mem a) (?p + n) n ys"
    "?p + n + span ys = al_len a" "?p + n \<le> al_len a"
    using segs len by (auto simp: blk_ok_def)
  have dvd: "8 dvd ?p + n" using step(8) m(3) by simp
  have read: "al_read a ?p = Ok (blk_header (n, 0) ?prev)" using al_read_ok [OF ok step(8)] m by simp
  have add: "uadd ?p n = Ok (?p + n)" "uadd (?p + n) header_bytes = Ok (?p + n + 24)"
    using lim m(6) by (simp_all add: header_bytes_def)
  text \<open>What follows is the second half of the routine, entered with the header of the merged block.\<close>
  define tail where "tail b = (if ?prev \<noteq> 0
     then or_return (usub ?p ?prev) b (\<lambda>previous.
          or_return (al_read b previous) b (\<lambda>merged.
          if block_state merged = st_FREE
          then or_return (uadd (hd_size merged) ?s) b (\<lambda>size2.
               case al_write b previous (merged\<lparr>hd_size := size2\<rparr>) of (r, b) \<Rightarrow> or_return r b (\<lambda>_.
               or_return (uadd previous size2) b (\<lambda>q. al_relink b q size2)))
          else or_return (uadd ?p ?s) b (\<lambda>q. al_relink b q ?s)))
     else or_return (uadd ?p ?s) b (\<lambda>q. al_relink b q ?s))" for b
  have "al_coalesce a ?p = tail (set_mem a ?m)"
  proof (rule absorb_next_cases [OF m(4)])
    assume stay: "fst (absorb_next ys) = 0" "ys = [] \<or> is_live (hd ys)"
    show ?thesis
    proof (cases ys)
      case Nil
      then have "al_len a < ?p + n + 24" using m(5) by simp
      then show ?thesis using stay(1) by (simp add: al_coalesce_def read add tail_def merge_next_mem_def Let_def cong: if_cong)
    next
      case (Cons y zs)
      then have y: "header_read (al_mem a) (?p + n) = blk_header y n" "?p + n + 24 \<le> al_len a" "is_live y"
        using m(4,5) stay(2) by (auto simp: blk_ok_def)
      then have "al_read a (?p + n) = Ok (blk_header y n)" using al_read_ok [OF ok dvd] by simp
      then show ?thesis using stay(1) y(2,3)
        by (simp add: al_coalesce_def read add tail_def merge_next_mem_def st_FREE_def Let_def cong: if_cong)
    qed
  next
    fix k zs
    assume k: "ys = (k, 0) # zs" "fst (absorb_next ys) = k" "24 \<le> k" "8 dvd k"
      "header_read (al_mem a) (?p + n) = blk_header (k, 0) n"
    have "?p + n + 24 \<le> al_len a" using k(1,3) m(5) by simp
    then have "al_read a (?p + n) = Ok (blk_header (k, 0) n)" using al_read_ok [OF ok dvd] k(5) by simp
    moreover have "n + k < u64_limit" using lim m(5) k(1) by simp
    moreover have "al_write a ?p (blk_header (n + k, 0) ?prev) = (Ok (), set_mem a ?m)"
      using al_write_ok [OF ok step(8)] m k by (simp add: merge_next_mem_def)
    ultimately show ?thesis using k(2,3) \<open>?p + n + 24 \<le> al_len a\<close>
      by (simp add: al_coalesce_def read add tail_def st_FREE_def Let_def cong: if_cong)
  qed
  also have "tail (set_mem a ?m) = (Ok (), set_mem a (merge_mem (al_mem a) xs n ys))"
  proof (rule absorb_prev_cases [OF step(2)])
    assume stay: "fst (absorb_prev xs) = 0" "xs = [] \<or> is_live (last xs)"
    have relink: "or_return (uadd ?p ?s) (set_mem a ?m) (\<lambda>q. al_relink (set_mem a ?m) q ?s) =
        (Ok (), set_mem a (merge_mem (al_mem a) xs n ys))"
      using stay(1) step lim ok by (simp add: al_relink_ok merge_mem_def Let_def)
    show ?thesis
    proof (cases xs rule: rev_cases)
      case Nil
      then show ?thesis using relink by (simp add: tail_def)
    next
      case (snoc zs y)
      have y: "header_read ?m (span zs) = blk_header y (tail_size 0 zs)" "24 \<le> fst y" "is_live y" "8 dvd span zs"
        using step(2) stay(2) snoc segs_aligned [of ?m 0 0 zs] by (auto simp: blk_ok_def)
      have "al_read (set_mem a ?m) (span zs) = Ok (blk_header y (tail_size 0 zs))"
        using al_read_ok [of "set_mem a ?m" "span zs"] ok y step(1,5) snoc by simp
      then show ?thesis using relink snoc y by (simp add: tail_def st_FREE_def)
    qed
  next
    fix k zs
    assume k: "xs = zs @ [(k, 0)]" "fst (absorb_prev xs) = k" "24 \<le> k" "8 dvd k" "segs ?m 0 0 zs"
      "header_read ?m (span zs) = blk_header (k, 0) (tail_size 0 zs)"
    have zs: "8 dvd span zs" by (rule segs_aligned [OF k(5)])
    have len': "span zs + k + ?s \<le> al_len a" using step(5) k(1) by simp
    have "al_read (set_mem a ?m) (span zs) = Ok (blk_header (k, 0) (tail_size 0 zs))"
      using al_read_ok [of "set_mem a ?m" "span zs"] ok zs k step(1) len' by simp
    moreover have "al_write (set_mem a ?m) (span zs) (blk_header (k + ?s, 0) (tail_size 0 zs)) =
        (Ok (), set_mem a (put ?m (span zs) (header_write (blk_header (k + ?s, 0) (tail_size 0 zs)))))"
      using al_write_ok [of "set_mem a ?m" "span zs"] ok zs k step(1) len' by simp
    ultimately show ?thesis
      using k zs len' lim ok step(1,7)
      by (simp add: tail_def st_FREE_def al_relink_ok merge_mem_def Let_def add.assoc)
  qed
  finally show ?thesis .
qed

section \<open>Release\<close>

lemma absorb_split:
  assumes "segs m 0 0 xs" and "segs m p prev ys"
  shows "xs = snd (absorb_prev xs) @ pad_blocks (fst (absorb_prev xs))"
    and "ys = pad_blocks (fst (absorb_next ys)) @ snd (absorb_next ys)"
  by (rule absorb_prev_cases [OF assms(1)]; simp add: pad_blocks_def)
    (rule absorb_next_cases [OF assms(2)]; simp add: pad_blocks_def)

lemma merge_mem_fields:
  assumes "segs m 0 0 (xs @ (n, 0) # ys)" and "span (xs @ (n, 0) # ys) = length m"
  shows "q + k \<le> span (snd (absorb_prev xs)) \<Longrightarrow> field_at (merge_mem m xs n ys) q k = field_at m q k"
    and "span xs + n + fst (absorb_next ys) + 24 \<le> q \<Longrightarrow> field_at (merge_mem m xs n ys) q k = field_at m q k"
proof -
  have s: "segs m 0 0 xs" "segs m (span xs + n) n ys" "24 \<le> n" using assms(1) by (auto simp: blk_ok_def)
  note spans = merge_span [OF s(1,2)]
  have len: "span xs + n + fst (absorb_next ys) \<le> length m" using assms(2) spans(2) by simp
  have sub: "span xs - fst (absorb_prev xs) = span (snd (absorb_prev xs))" using spans(1) by simp
  show "field_at (merge_mem m xs n ys) q k = field_at m q k" if "q + k \<le> span (snd (absorb_prev xs))"
    using that len s(3) spans(1)
    by (simp add: merge_mem_def merge_next_mem_def Let_def field_relinked_before sub)
  show "field_at (merge_mem m xs n ys) q k = field_at m q k" if "span xs + n + fst (absorb_next ys) + 24 \<le> q"
    using that len s(3) spans(1)
    by (simp add: merge_mem_def merge_next_mem_def Let_def field_relinked_after sub)
qed

lemma merged_merge:
  assumes "segs m 0 0 xs" and "segs m p prev ys" and "merged (xs @ (n, g) # ys)"
  shows "merged (merge_blocks xs n ys)"
proof (rule absorb_prev_cases [OF assms(1)]; rule absorb_next_cases [OF assms(2)])
qed (use assms(3) in \<open>auto simp: merge_blocks_def merged_def successively_append_iff successively_Cons\<close>)

lemma merge_live:
  assumes "segs m 0 0 xs" and "segs m p prev ys"
  shows "filter is_live (merge_blocks xs n ys) = filter is_live xs @ filter is_live ys"
  by (rule absorb_prev_cases [OF assms(1)]; rule absorb_next_cases [OF assms(2)]) (auto simp: merge_blocks_def)

definition released :: "allocator \<Rightarrow> nat \<Rightarrow> allocator" where
  "released a n = a\<lparr>al_used := al_used a - n, al_live := al_live a - 1\<rparr>"

lemma released_simps [simp]:
  "al_region (released a n) = al_region a" "al_used (released a n) = al_used a - n"
  "al_live (released a n) = al_live a - 1" "al_generation (released a n) = al_generation a"
  "al_peak (released a n) = al_peak a" "al_len (released a n) = al_len a"
  by (simp_all add: released_def al_len_def)

definition free_mem :: "bytes \<Rightarrow> blk list \<Rightarrow> nat \<Rightarrow> blk list \<Rightarrow> bytes" where
  "free_mem m xs n ys = merge_mem (put m (span xs) (header_write (blk_header (n, 0) (tail_size 0 xs)))) xs n ys"

lemma free_prepared:
  assumes "segs m 0 0 (xs @ (n, g) # ys)" and "span (xs @ (n, g) # ys) = length m" and "length m < 2 ^ 63"
  defines "m1 \<equiv> put m (span xs) (header_write (blk_header (n, 0) (tail_size 0 xs)))"
  shows "segs m1 0 0 (xs @ (n, 0) # ys)" and "length m1 = length m" and "span (xs @ (n, 0) # ys) = length m"
proof -
  have m: "header_read m (span xs) = blk_header (n, g) (tail_size 0 xs)" "blk_ok (n, g)" "span xs + n \<le> length m"
    using assms(1) by auto
  have "header_fits \<lparr>hd_size = n, hd_prev = tail_size 0 xs, hd_state = 0\<rparr>"
    using header_read_fits [of m "span xs"] m(1) by (simp add: header_fits_def)
  then show "segs m1 0 0 (xs @ (n, 0) # ys)" and "length m1 = length m" and "span (xs @ (n, 0) # ys) = length m"
    using assms(1,2) m(2,3) unfolding m1_def by (auto simp: blk_ok_def)
qed

lemma al_free_value:
  assumes "tiled a (xs @ (n, g) # ys)" and "al_start_of a h = Ok (span xs)" and "g \<noteq> 0"
  shows "al_free a h = (Ok (), set_mem (released a n) (free_mem (al_mem a) xs n ys))"
proof -
  note a = tiledD [OF assms(1)]
  have small: "al_len a < 2 ^ 63" using a(1) by (simp add: region_ok_def al_len_def)
  note prep = free_prepared [OF a(2), unfolded length_al_mem, OF a(3) small]
  have m: "header_read (al_mem a) (span xs) = blk_header (n, g) (tail_size 0 xs)" "24 \<le> n" "span xs + n \<le> al_len a"
    "8 dvd span xs" using a(2) segs_aligned [of "al_mem a" 0 0 xs] by (auto simp: blk_ok_def)
  have counts: "n \<le> al_used a" "1 \<le> al_live a" using a(5,6) assms(3) by simp_all
  let ?m1 = "put (al_mem a) (span xs) (header_write (blk_header (n, 0) (tail_size 0 xs)))"
  have "al_free a h = al_coalesce (released (set_mem a ?m1) n) (span xs)"
    using assms(2) m counts a(1) by (simp add: al_free_def al_read_ok al_write_ok released_def)
  also have "released (set_mem a ?m1) n = set_mem (released a n) ?m1"
    by (simp add: released_def set_mem_def)
  also have "al_coalesce (set_mem (released a n) ?m1) (span xs) =
      (Ok (), set_mem (released a n) (free_mem (al_mem a) xs n ys))"
    unfolding free_mem_def
    using al_coalesce_value [of "set_mem (released a n) ?m1" xs n ys] prep a(1) by simp
  finally show ?thesis .
qed

lemma tiled_free:
  assumes "tiled a (xs @ (n, g) # ys)" and "g \<noteq> 0"
  shows "tiled (set_mem (released a n) (free_mem (al_mem a) xs n ys)) (merge_blocks xs n ys)"
    and "keeps (Some (span xs)) (al_mem a) (xs @ (n, g) # ys) (free_mem (al_mem a) xs n ys) (merge_blocks xs n ys)"
proof -
  note a = tiledD [OF assms(1)]
  have small: "al_len a < 2 ^ 63" using a(1) by (simp add: region_ok_def al_len_def)
  let ?m1 = "put (al_mem a) (span xs) (header_write (blk_header (n, 0) (tail_size 0 xs)))"
  note prep = free_prepared [OF a(2), unfolded length_al_mem, OF a(3) small]
  have sub: "segs (al_mem a) 0 0 xs" "segs (al_mem a) (span xs + n) n ys" using a(2) by auto
  have segs: "segs (free_mem (al_mem a) xs n ys) 0 0 (merge_blocks xs n ys)"
    and len: "length (free_mem (al_mem a) xs n ys) = al_len a"
    using segs_merge [OF prep(1)] prep(2,3) small by (simp_all add: free_mem_def)
  note spans = merge_span [OF sub]
  have span: "span (merge_blocks xs n ys) = al_len a" using spans a(3) by (simp add: merge_blocks_def)
  show "tiled (set_mem (released a n) (free_mem (al_mem a) xs n ys)) (merge_blocks xs n ys)"
    using segs len span a merged_merge [OF sub a(4)] merge_live [OF sub, of n] assms(2)
    by (simp add: tiled_def)
  let ?X = "snd (absorb_prev xs)" and ?x = "fst (absorb_prev xs)" and ?Y = "snd (absorb_next ys)" and ?y = "fst (absorb_next ys)"
  have eq: "?X @ (pad_blocks ?x @ (n, g) # pad_blocks ?y) @ ?Y = xs @ (n, g) # ys"
    using absorb_split [OF sub] by (metis append.assoc append_Cons)
  have pads: "span (pad_blocks k) = k" for k by (simp add: pad_blocks_def)
  have n: "24 \<le> n" "span xs + n \<le> al_len a" using a(2) by (auto simp: blk_ok_def)
  note fields = merge_mem_fields [OF prep(1), unfolded prep(2), OF prep(3)]
  have "keeps (Some (span xs)) (al_mem a) (?X @ (pad_blocks ?x @ (n, g) # pad_blocks ?y) @ ?Y)
      (free_mem (al_mem a) xs n ys) (?X @ [(?x + n + ?y, 0)] @ ?Y)"
  proof (rule splice_keeps)
    show "segs (al_mem a) 0 0 (?X @ (pad_blocks ?x @ (n, g) # pad_blocks ?y) @ ?Y)" unfolding eq by (rule a(2))
    show "span [(?x + n + ?y, 0)] = span (pad_blocks ?x @ (n, g) # pad_blocks ?y)" by (simp add: pads)
    show "field_at (free_mem (al_mem a) xs n ys) q k = field_at (al_mem a) q k" if "q + k \<le> span ?X" for q k
      using fields(1) [OF that] that spans(1) n by (simp add: free_mem_def)
    show "field_at (free_mem (al_mem a) xs n ys) q k = field_at (al_mem a) q k"
      if "span ?X + span (pad_blocks ?x @ (n, g) # pad_blocks ?y) + 24 \<le> q" for q k
    proof -
      have "span xs + n + ?y + 24 \<le> q" using that spans(1) by (simp add: pads)
      then show ?thesis using fields(2) [of q k] n by (simp add: free_mem_def)
    qed
    show "Some (span xs) = Some q"
      if "(q, b) \<in> set (placed (span ?X) (pad_blocks ?x @ (n, g) # pad_blocks ?y))" and "is_live b" for q b
      using that spans(1) by (auto simp: pads) (auto simp: pad_blocks_def split: if_splits)
  qed
  then show "keeps (Some (span xs)) (al_mem a) (xs @ (n, g) # ys) (free_mem (al_mem a) xs n ys) (merge_blocks xs n ys)"
    unfolding eq by (simp add: merge_blocks_def)
qed

end
