(* ===== verification/Allocator_Resize.thy ===== *)
theory Allocator_Resize
  imports Allocator_Free
begin

unbundle bit_operations_syntax

text \<open>
  The remaining operations: the first block of a new region, the bytes a client writes into a block,
  and the two ends of a region that grows and shrinks.
\<close>

section \<open>A new region\<close>

lemma initialise_tiled:
  assumes "region_ok r" and "24 \<le> rg_len r" and "8 dvd rg_len r"
  shows "\<exists>a. al_initialise r = Ok a \<and> tiled a [(rg_len r, 0)] \<and> rg_base (al_region a) = rg_base r \<and>
    al_len a = rg_len r \<and> al_generation a = 1 \<and> al_used a = 0"
proof -
  let ?h = "\<lparr>hd_size = rg_len r, hd_prev = 0, hd_state = blk_word 0\<rparr>"
  let ?r = "r\<lparr>rg_bytes := put (rg_bytes r) 0 (header_write ?h)\<rparr>"
  let ?a = "\<lparr>al_region = ?r, al_used = 0, al_live = 0, al_peak = 0, al_generation = 1\<rparr>"
  have lim: "rg_len r < u64_limit" using region_limits(2) [OF assms(1)] .
  have "al_initialise r = Ok ?a"
    using assms lim by (simp add: al_initialise_def header_bytes_def rg_set_header_Some)
  moreover have len: "rg_len ?r = rg_len r" using assms(2) by (simp add: rg_len_def)
  moreover have "tiled ?a [(rg_len r, 0)]"
    using assms lim len by (simp add: tiled_def region_ok_def al_len_def blk_ok_def merged_def rg_len_def free_fits)
  ultimately show ?thesis by (intro exI [of _ ?a]) (simp add: al_len_def)
qed

lemma from_raw_tiled:
  assumes "8 dvd base" and "base + length bs < u64_limit" and "length bs < 2 ^ 63" and "24 \<le> length bs"
  shows "\<exists>a. al_from_raw base bs = Ok a \<and> tiled a [(length bs div 8 * 8, 0)] \<and> rg_base (al_region a) = base \<and>
    al_generation a = 1 \<and> al_used a = 0"
proof -
  let ?n = "length bs div 8 * 8"
  let ?r = "\<lparr>rg_base = base, rg_bytes = take ?n bs\<rparr>"
  have n: "24 \<le> ?n" "?n \<le> length bs" "8 dvd ?n" using div_le_mono [OF assms(4), of 8] by simp_all
  then have raw: "rg_from_raw base bs = Some ?r" "rg_len ?r = ?n"
    using assms(1) by (auto simp: rg_from_raw_def header_align_def rg_len_def)
  then have "region_ok ?r" using assms n by (auto simp: region_ok_def)
  from initialise_tiled [OF this] n raw show ?thesis by (auto simp: al_from_raw_def)
qed

section \<open>Bytes of a block\<close>

lemma write_value:
  assumes "tiled a bs" and "al_start_of a h = Ok q"
  shows "al_bytes_mut a h vs = (Ok (), set_mem a (put (al_mem a) (q + 24) (take (bk_size h) vs)))"
proof -
  note a = tiledD [OF assms(1)]
  obtain n where n: "live_at bs q n (bk_generation h)" "bk_size h \<le> n - 24"
    using assms(2) unfolding start_of_iff [OF assms(1)] by blast
  have "q + 24 + bk_size h \<le> al_len a" using live_at_ok [OF a(2) n(1)] n(2) a(3) by simp
  then show ?thesis using assms(2) al_limits [OF a(1)]
    by (simp add: al_bytes_mut_def header_bytes_def rg_slice_mut_def rg_holds_iff al_len_def set_mem_def)
qed

lemma write_tiled:
  assumes "tiled a bs" and "live_at bs q n g" and "length vs \<le> n - 24"
  shows "tiled (set_mem a (put (al_mem a) (q + 24) vs)) bs"
    and "keeps (Some q) (al_mem a) bs (put (al_mem a) (q + 24) vs) bs"
proof -
  note a = tiledD [OF assms(1)]
  obtain xs ys where bs: "bs = xs @ (n, g) # ys" "q = span xs"
    using assms(2) placed_split [of q "(n, g)" 0 bs] by (auto simp: live_at_def)
  have n: "32 \<le> n" "q + n \<le> al_len a" using live_at_ok [OF a(2) assms(2)] a(3) by simp_all
  have "segs (put (al_mem a) (q + 24) vs) 0 0 bs"
    using a(2) n assms(3) bs segs_payload [of 0 xs "q + 24" vs "(n, g)" "al_mem a" 0 ys] by simp
  then show "tiled (set_mem a (put (al_mem a) (q + 24) vs)) bs" using a n assms(3) by (simp add: tiled_def)
  have "keeps (Some q) (al_mem a) (xs @ [(n, g)] @ ys) (put (al_mem a) (q + 24) vs) (xs @ [(n, g)] @ ys)"
    using a(2) bs n assms(3) by (intro splice_keeps) auto
  then show "keeps (Some q) (al_mem a) bs (put (al_mem a) (q + 24) vs) bs" using bs by simp
qed

section \<open>The last block\<close>

lemma al_last_value:
  assumes "tiled a bs"
  shows "al_last a = Ok (if bs = [] then None
    else Some (span (butlast bs), blk_header (last bs) (tail_size 0 (butlast bs))))"
  using last_loop_blocks [OF tiledD(1,2) [OF assms]] tiledD(3) [OF assms] by (simp add: al_last_def)

lemma last_free: "bs \<noteq> [] \<Longrightarrow> \<not> is_live (last bs) \<Longrightarrow> bs = butlast bs @ [(fst (last bs), 0)]"
  by (cases bs rule: rev_cases) (auto simp: prod_eq_iff)

text \<open>The blocks of a region that has grown by \<open>extra\<close> bytes.\<close>

definition extend_blocks :: "blk list \<Rightarrow> nat \<Rightarrow> blk list" where
  "extend_blocks bs extra =
     (if bs = [] \<or> is_live (last bs) then bs @ [(extra, 0)]
      else butlast bs @ [(fst (last bs) + extra, 0)])"

lemma extend_value:
  assumes "tiled a bs" and "24 \<le> length e" and "8 dvd length e" and "region_ok (rg_grow (al_region a) e)"
  shows "\<exists>m. al_extend a e = (Ok (), set_mem a m) \<and> tiled (set_mem a m) (extend_blocks bs (length e)) \<and>
    keeps None (al_mem a) bs m (extend_blocks bs (length e))"
proof -
  note a = tiledD [OF assms(1)]
  have lim: "al_len a + length e < u64_limit" "al_len a + length e < 2 ^ 63" "al_len a + 24 < u64_limit"
    using assms(4) al_limits [OF a(1)] by (auto simp: region_ok_def rg_grow_def rg_len_def al_len_def simp del: length_al_mem)
  have grown: "a\<lparr>al_region := rg_grow (al_region a) e\<rparr> = set_mem a (al_mem a @ e)"
    by (simp add: rg_grow_def set_mem_def)
  have ok: "region_ok (al_region (set_mem a (al_mem a @ e)))" using assms(4) by (simp add: rg_grow_def set_mem_def)
  have dvd: "8 dvd al_len a" using segs_aligned [OF a(2)] a(3) by simp
  show ?thesis
  proof (cases "bs = [] \<or> is_live (last bs)")
    case True
    let ?h = "\<lparr>hd_size = length e, hd_prev = tail_size 0 bs, hd_state = blk_word 0\<rparr>"
    let ?m = "put (al_mem a @ e) (al_len a) (header_write ?h)"
    have "al_extend a e = al_write (set_mem a (al_mem a @ e)) (al_len a) ?h"
      using True assms(2,3) lim dvd al_last_value [OF assms(1)]
      by (auto simp: al_extend_def header_bytes_def header_align_def grown checked_add64_def st_FREE_def tail_size_def)
    also have "\<dots> = (Ok (), set_mem a ?m)" using al_write_ok [OF ok dvd] assms(2) by simp
    finally have run: "al_extend a e = (Ok (), set_mem a ?m)" .
    have last: "bs \<noteq> [] \<Longrightarrow> fst (last bs) \<le> al_len a"
      using a(3) append_butlast_last_id [of bs] by (metis le_add2 span.simps(1,2) span_append add.right_neutral)
    then have fits: "header_fits ?h" using lim by (intro place_fits) (auto simp: tail_size_def)
    have blocks: "extend_blocks bs (length e) = bs @ [(length e, 0)]" using True by (simp add: extend_blocks_def)
    have "segs ?m 0 0 (bs @ [(length e, 0)])"
      using a(2,3) assms(2,3) fits by (simp add: blk_ok_def)
    moreover have "merged (bs @ [(length e, 0)])" using a(4) True by (auto simp: merged_def successively_append_iff)
    moreover have "region_ok (al_region (set_mem a ?m))" using ok assms(2) by (simp add: region_ok_def)
    ultimately have tiled: "tiled (set_mem a ?m) (extend_blocks bs (length e))"
      using a assms(2) unfolding blocks by (simp add: tiled_def)
    have "keeps None (al_mem a) bs ?m (bs @ [(length e, 0)])"
      unfolding keeps_def
    proof (intro allI impI)
      fix q n g assume live: "live_at bs q n g"
      have "q + n \<le> al_len a" "32 \<le> n" using live_at_ok [OF a(2) live] a(3) by simp_all
      then show "live_at (bs @ [(length e, 0)]) q n g \<and> field_at ?m (q + 24) (n - 24) = field_at (al_mem a) (q + 24) (n - 24)"
        using live by (simp add: live_at_def) (simp add: field_at_def)
    qed
    then show ?thesis using run tiled blocks by auto
  next
    case False
    define xs n where "xs = butlast bs" and "n = fst (last bs)"
    have bs: "bs = xs @ [(n, 0)]" unfolding xs_def n_def using False by (intro last_free) auto
    let ?h = "\<lparr>hd_size = n + length e, hd_prev = tail_size 0 xs, hd_state = blk_word 0\<rparr>"
    let ?m = "put (al_mem a @ e) (span xs) (header_write ?h)"
    have m: "header_read (al_mem a) (span xs) = blk_header (n, 0) (tail_size 0 xs)" "24 \<le> n" "8 dvd n" "segs (al_mem a) 0 0 xs"
      "span xs + n = al_len a" using a(2,3) unfolding bs by (auto simp: blk_ok_def)
    have xs: "8 dvd span xs" by (rule segs_aligned [OF m(4)])
    have fits: "header_fits ?h"
      using m(5) lim header_read_fits [of "al_mem a" "span xs"] m(1) by (intro place_fits) (auto simp: header_fits_def)
    have "al_extend a e = al_write (set_mem a (al_mem a @ e)) (span xs) ?h"
      using assms(2,3) lim m xs al_last_value [OF assms(1)]
      by (simp add: bs al_extend_def header_bytes_def header_align_def grown checked_add64_def st_FREE_def)
    also have "\<dots> = (Ok (), set_mem a ?m)" using al_write_ok [OF ok xs] m by simp
    finally have run: "al_extend a e = (Ok (), set_mem a ?m)" .
    have blocks: "extend_blocks bs (length e) = xs @ [(n + length e, 0)]" unfolding bs by (simp add: extend_blocks_def)
    have "segs ?m 0 0 (xs @ [(n + length e, 0)])" using m assms(3) fits by (simp add: blk_ok_def)
    moreover have "merged (xs @ [(n + length e, 0)])"
      using a(4) unfolding bs by (auto simp: merged_def successively_append_iff)
    moreover have "region_ok (al_region (set_mem a ?m))" using ok m by (simp add: region_ok_def)
    ultimately have tiled: "tiled (set_mem a ?m) (extend_blocks bs (length e))"
      using a m unfolding blocks by (simp add: tiled_def bs)
    have "keeps None (al_mem a) bs ?m (xs @ [(n + length e, 0)])"
      unfolding keeps_def
    proof (intro allI impI)
      fix q k g assume live: "live_at bs q k g"
      then have q: "(q, k, g) \<in> set (placed 0 xs)" by (auto simp: live_at_def bs)
      have "q + k \<le> span xs" "32 \<le> k" using placed_bounds [OF q] live_at_ok [OF a(2) live] a(3) by simp_all
      then show "live_at (xs @ [(n + length e, 0)]) q k g \<and> field_at ?m (q + 24) (k - 24) = field_at (al_mem a) (q + 24) (k - 24)"
        using live q m(5) by (simp add: live_at_def) (simp add: field_at_def)
    qed
    then show ?thesis using run tiled blocks by auto
  qed
qed

lemma extend_refused:
  assumes "length e < 24 \<or> \<not> 8 dvd length e"
  shows "al_extend a e = (Err AlRegion, a)"
  using assms by (auto simp: al_extend_def header_bytes_def header_align_def Let_def mod_eq_0_iff_dvd)

section \<open>Shrinking\<close>

text \<open>The blocks of a region cut to \<open>len\<close> bytes inside its last, free block.\<close>

definition truncate_blocks :: "blk list \<Rightarrow> nat \<Rightarrow> blk list" where
  "truncate_blocks bs len = butlast bs @ pad_blocks (len - span (butlast bs))"

definition cuttable :: "allocator \<Rightarrow> blk list \<Rightarrow> nat \<Rightarrow> bool" where
  "cuttable a bs len \<longleftrightarrow> 8 dvd len \<and> (len = al_len a \<or>
     (bs \<noteq> [] \<and> \<not> is_live (last bs) \<and> len < al_len a \<and>
      (len = span (butlast bs) \<or> span (butlast bs) + 24 \<le> len)))"

lemma shrink_value:
  "len \<le> al_len b \<Longrightarrow>
   (case rg_shrink (al_region b) len of
      (ok, r) \<Rightarrow> if \<not> ok then (Err AlRegion, b) else (Ok (), b\<lparr>al_region := r\<rparr>)) =
   (Ok (), set_mem b (take len (al_mem b)))"
  by (simp add: rg_shrink_def al_len_def set_mem_def)

lemma truncate_value:
  assumes "tiled a bs" and "cuttable a bs len" and "len \<noteq> al_len a"
  shows "\<exists>m. al_truncate a len = (Ok (), set_mem a m) \<and> length m = len \<and> tiled (set_mem a m) (truncate_blocks bs len) \<and>
    keeps None (al_mem a) bs m (truncate_blocks bs len)"
proof -
  note a = tiledD [OF assms(1)]
  define xs n where "xs = butlast bs" and "n = fst (last bs)"
  have cut: "8 dvd len" "bs \<noteq> []" "\<not> is_live (last bs)" "len < al_len a" "len = span xs \<or> span xs + 24 \<le> len"
    using assms(2,3) by (auto simp: cuttable_def xs_def)
  have bs: "bs = xs @ [(n, 0)]" unfolding xs_def n_def using cut(2,3) by (rule last_free)
  have m: "header_read (al_mem a) (span xs) = blk_header (n, 0) (tail_size 0 xs)" "24 \<le> n" "segs (al_mem a) 0 0 xs"
    "span xs + n = al_len a" using a(2,3) unfolding bs by (auto simp: blk_ok_def)
  have xs: "8 dvd span xs" by (rule segs_aligned [OF m(3)])
  let ?h = "\<lparr>hd_size = len - span xs, hd_prev = tail_size 0 xs, hd_state = 0\<rparr>"
  let ?w = "if len = span xs then al_mem a else put (al_mem a) (span xs) (header_write ?h)"
  have w: "length ?w = al_len a" using m by simp
  have "al_write a (span xs) ?h = (Ok (), set_mem a (put (al_mem a) (span xs) (header_write ?h)))"
    using al_write_ok [OF a(1) xs] m by simp
  then have run: "al_truncate a len = (Ok (), set_mem a (take len ?w))"
    using cut m al_last_value [OF assms(1)]
    by (auto simp: bs al_truncate_def header_align_def header_bytes_def st_FREE_def Let_def shrink_value)
  have fits: "len \<noteq> span xs \<Longrightarrow> header_fits ?h"
    using m(4) cut(4) al_limits [OF a(1)] header_read_fits [of "al_mem a" "span xs"] m(1)
    by (intro free_fits) (auto simp: header_fits_def)
  have blocks: "truncate_blocks bs len = xs @ pad_blocks (len - span xs)" by (simp add: truncate_blocks_def xs_def)
  have pad: "span (pad_blocks (len - span xs)) = len - span xs" by (simp add: pad_blocks_def)
  have "segs (take len ?w) 0 0 (xs @ pad_blocks (len - span xs))"
    using m cut fits xs w by (auto simp: pad_blocks_def blk_ok_def intro: dvd_diff_nat)
  moreover have "merged (xs @ pad_blocks (len - span xs))"
    using a(4) unfolding bs by (auto simp: merged_def successively_append_iff pad_blocks_def)
  moreover have "region_ok (al_region (set_mem a (take len ?w)))"
    using a(1) w cut(4) by (auto simp: region_ok_def al_len_def [symmetric])
  ultimately have tiled: "tiled (set_mem a (take len ?w)) (truncate_blocks bs len)"
    unfolding blocks using a w cut pad by (auto simp: tiled_def bs pad_blocks_def)
  have "keeps None (al_mem a) bs (take len ?w) (truncate_blocks bs len)"
    unfolding keeps_def blocks
  proof (intro allI impI)
    fix q k g assume live: "live_at bs q k g"
    then have q: "(q, k, g) \<in> set (placed 0 xs)" by (auto simp: live_at_def bs)
    have k: "q + k \<le> span xs" "32 \<le> k" using placed_bounds [OF q] live_at_ok [OF a(2) live] a(3) by simp_all
    have "field_at (take len ?w) (q + 24) (k - 24) = field_at ?w (q + 24) (k - 24)"
      using k cut(5) by (auto simp: field_at_def drop_take min_def)
    then show "live_at (xs @ pad_blocks (len - span xs)) q k g \<and>
        field_at (take len ?w) (q + 24) (k - 24) = field_at (al_mem a) (q + 24) (k - 24)"
      using live q k m(4) by (simp add: live_at_def)
  qed
  then show ?thesis using run tiled w cut(4) by (intro exI [of _ "take len ?w"]) (simp add: min_def)
qed

lemma truncate_refused:
  assumes "tiled a bs" and "\<not> cuttable a bs len"
  shows "al_truncate a len = (Err AlRegion, a)"
  using assms(2) al_last_value [OF assms(1)]
  by (auto simp: al_truncate_def cuttable_def header_align_def header_bytes_def st_FREE_def mod_eq_0_iff_dvd Let_def)

lemma truncate_same: "al_len a mod 8 = 0 \<Longrightarrow> al_truncate a (al_len a) = (Ok (), a)"
  by (simp add: al_truncate_def header_align_def)

lemma truncation_target_value:
  assumes "tiled a bs"
  shows "\<exists>t. al_truncation_target a gran = Ok t \<and> cuttable a bs t \<and> t \<le> al_len a \<and> (t < al_len a \<longrightarrow> gran dvd t)"
proof -
  note a = tiledD [OF assms]
  have dvd: "8 dvd al_len a" using segs_aligned [OF a(2)] a(3) by simp
  have whole: "cuttable a bs (al_len a)" using dvd by (simp add: cuttable_def)
  show ?thesis
  proof (cases "is_power_of_two gran \<and> bs \<noteq> [] \<and> \<not> is_live (last bs)")
    case False
    then have "al_truncation_target a gran = Ok (al_len a)"
      using al_last_value [OF assms] by (auto simp: al_truncation_target_def st_FREE_def Let_def)
    then show ?thesis using whole by auto
  next
    case True
    let ?p = "span (butlast bs)"
    have split: "butlast bs @ [last bs] = bs" using True by simp
    have segs: "segs (al_mem a) 0 0 (butlast bs @ [last bs])" unfolding split by (rule a(2))
    have p: "8 dvd ?p" "?p + fst (last bs) = al_len a" "24 \<le> fst (last bs)"
      using segs segs_aligned [of "al_mem a" 0 0 "butlast bs"] arg_cong [OF split, of span] a(3) by (auto simp: blk_ok_def)
    have add: "?p + 24 < u64_limit" using p al_limits [OF a(1)] by simp
    have run: "al_truncation_target a gran = (if ?p mod gran = 0 then Ok ?p
        else case checked_next_multiple_of (?p + 24) gran of None \<Rightarrow> Ok (al_len a)
          | Some t \<Rightarrow> Ok (if al_len a \<le> t then al_len a else t))"
      using True al_last_value [OF assms] add p by (simp add: al_truncation_target_def st_FREE_def header_bytes_def Let_def split: option.splits)
    show ?thesis
    proof (cases "?p mod gran = 0")
      case at: True
      have "cuttable a bs ?p" using True p by (simp add: cuttable_def)
      moreover have "gran dvd ?p" using at by (simp add: mod_eq_0_iff_dvd)
      ultimately show ?thesis using run at p(2) by auto
    next
      case False
      show ?thesis
      proof (cases "\<exists>t. checked_next_multiple_of (?p + 24) gran = Some t \<and> t < al_len a")
        case near: True
        then obtain t where t: "checked_next_multiple_of (?p + 24) gran = Some t" "t < al_len a" by blast
        note up = next_multiple_Some [OF t(1)]
        have "gran \<notin> {1, 2, 4}" using False multiple_of_small_power [OF _ p(1), of gran] by fastforce
        then have "8 dvd gran" using power_of_two_cases [of gran] True by simp
        moreover have "gran dvd t" using up(3) by (simp add: mod_eq_0_iff_dvd)
        ultimately have "8 dvd t" by (rule dvd_trans)
        then have "cuttable a bs t" using True t up(1) by (simp add: cuttable_def)
        then show ?thesis using run False t \<open>gran dvd t\<close> by auto
      next
        case far: False
        then have "al_truncation_target a gran = Ok (al_len a)" using run False by (auto split: option.splits)
        then show ?thesis using whole by auto
      qed
    qed
  qed
qed

section \<open>Accounting\<close>

lemma largest_free_value:
  assumes "tiled a bs"
  shows "al_largest_free a = Ok (Max (insert 0 (fst ` {b \<in> set bs. \<not> is_live b})))"
proof -
  have "fold max xs 0 = Max (insert 0 (set xs))" for xs :: "nat list"
    by (metis Max.set_eq_fold list.simps(15))
  then show ?thesis
    using largest_loop_blocks [OF tiledD(1,2) [OF assms], of 0] tiledD(3) [OF assms]
    by (simp add: al_largest_free_def image_Collect)
qed

end
