(* ===== verification/Allocator_System.thy ===== *)
theory Allocator_System
  imports Allocator_Resize
begin

unbundle bit_operations_syntax

text \<open>
  Sequences of operations on one allocator, and what its clients may rely on. The locale
  \<open>block_heap\<close> states the contract of a heap of blocks named by handles: an operation that is not
  directed at a handle leaves what the handle reads. The allocator is an interpretation, and the
  properties follow for every sequence of operations.
\<close>

section \<open>Definitions\<close>

text \<open>The blocks of the region, as the walk of the allocator finds them.\<close>

function walk_blocks :: "allocator \<Rightarrow> nat \<Rightarrow> blk list" where
  "walk_blocks a p =
     (case al_step a p of
        Ok (Some (next, h)) \<Rightarrow> (hd_size h, block_generation h) # walk_blocks a next
      | _ \<Rightarrow> [])"
  by pat_completeness auto
termination by (relation "measure (\<lambda>(a, p). al_len a - p)") (auto dest: al_step_progress)

declare walk_blocks.simps [simp del]

definition al_blocks :: "allocator \<Rightarrow> blk list" where
  "al_blocks a = walk_blocks a 0"

definition al_ok :: "allocator \<Rightarrow> bool" where
  "al_ok a \<longleftrightarrow> tiled a (al_blocks a)"

datatype al_op =
    OpAlloc nat nat
  | OpFree block
  | OpWrite block bytes
  | OpExtend bytes
  | OpTruncate nat

definition unit_result :: "('e, unit) outcome \<times> 's \<Rightarrow> ('e, block option) outcome \<times> 's" where
  "unit_result r = (and_then (fst r) (\<lambda>_. Ok None), snd r)"

primrec al_op_run :: "al_op \<Rightarrow> allocator \<Rightarrow> (alloc_error, block option) outcome \<times> allocator" where
  "al_op_run (OpAlloc sz align) a = (and_then (fst (al_alloc a sz align)) (\<lambda>b. Ok (Some b)), snd (al_alloc a sz align))"
| "al_op_run (OpFree b) a = unit_result (al_free a b)"
| "al_op_run (OpWrite b vs) a = unit_result (al_bytes_mut a b vs)"
| "al_op_run (OpExtend e) a = unit_result (al_extend a e)"
| "al_op_run (OpTruncate n) a = unit_result (al_truncate a n)"

text \<open>
  What the owner owes: a request within \<open>isize::MAX\<close>, and for an extension bytes that make one
  region with the old ones.
\<close>

primrec al_allowed :: "allocator \<Rightarrow> al_op \<Rightarrow> bool" where
  "al_allowed a (OpAlloc sz align) \<longleftrightarrow> sz < 2 ^ 63"
| "al_allowed a (OpFree b) \<longleftrightarrow> True"
| "al_allowed a (OpWrite b vs) \<longleftrightarrow> True"
| "al_allowed a (OpExtend e) \<longleftrightarrow> region_ok (rg_grow (al_region a) e)"
| "al_allowed a (OpTruncate n) \<longleftrightarrow> True"

primrec al_directed :: "al_op \<Rightarrow> block \<Rightarrow> bool" where
  "al_directed (OpAlloc sz align) h \<longleftrightarrow> False"
| "al_directed (OpFree b) h \<longleftrightarrow> bk_address b = bk_address h"
| "al_directed (OpWrite b vs) h \<longleftrightarrow> bk_address b = bk_address h"
| "al_directed (OpExtend e) h \<longleftrightarrow> False"
| "al_directed (OpTruncate n) h \<longleftrightarrow> False"

text \<open>Runs of any system of operations: the state after them, their outcomes, whether each was allowed.\<close>

primrec exec_ops :: "('op \<Rightarrow> 's \<Rightarrow> 'r \<times> 's) \<Rightarrow> 'op list \<Rightarrow> 's \<Rightarrow> 's" where
  "exec_ops run [] s = s"
| "exec_ops run (x # xs) s = exec_ops run xs (snd (run x s))"

primrec exec_results :: "('op \<Rightarrow> 's \<Rightarrow> 'r \<times> 's) \<Rightarrow> 'op list \<Rightarrow> 's \<Rightarrow> 'r list" where
  "exec_results run [] s = []"
| "exec_results run (x # xs) s = fst (run x s) # exec_results run xs (snd (run x s))"

primrec legal_ops :: "('op \<Rightarrow> 's \<Rightarrow> 'r \<times> 's) \<Rightarrow> ('s \<Rightarrow> 'op \<Rightarrow> bool) \<Rightarrow> 'op list \<Rightarrow> 's \<Rightarrow> bool" where
  "legal_ops run allowed [] s \<longleftrightarrow> True"
| "legal_ops run allowed (x # xs) s \<longleftrightarrow> allowed s x \<and> legal_ops run allowed xs (snd (run x s))"

section \<open>The blocks of a region are determined by its bytes\<close>

lemma walk_blocks_segs:
  assumes "region_ok (al_region a)" and "segs (al_mem a) p prev bs" and "8 dvd p" and "p + span bs = al_len a"
  shows "walk_blocks a p = bs"
  using assms(2-)
proof (induction bs arbitrary: p prev)
  case Nil
  then show ?case by (subst walk_blocks.simps) (simp add: al_step_end assms(1))
next
  case (Cons b bs)
  have "walk_blocks a p = b # walk_blocks a (p + fst b)"
    by (subst walk_blocks.simps) (simp add: al_step_block [OF assms(1) Cons.prems(1,2)])
  also have "walk_blocks a (p + fst b) = bs"
    using Cons.prems walk_dvd [of p b] by (intro Cons.IH) (auto simp: add.assoc)
  finally show ?case .
qed

lemma tiled_blocks: "tiled a bs \<Longrightarrow> al_blocks a = bs"
  using walk_blocks_segs [OF tiledD(1,2)] tiledD(3) by (simp add: al_blocks_def)

lemma al_ok_iff: "al_ok a \<longleftrightarrow> (\<exists>bs. tiled a bs)"
  using tiled_blocks by (auto simp: al_ok_def)

lemma tiled_al_ok: "tiled a bs \<Longrightarrow> al_ok a"
  by (auto simp: al_ok_iff)

section \<open>One operation\<close>

text \<open>Every live block after a step was live before it, or carries the generation the step issued.\<close>

definition only_new :: "nat \<Rightarrow> blk list \<Rightarrow> blk list \<Rightarrow> bool" where
  "only_new g bs bs' \<longleftrightarrow> (\<forall>q n k. live_at bs' q n k \<longrightarrow> live_at bs q n k \<or> k = g)"

text \<open>The result of one step: no panic, blocks again, and the other handles' bytes kept.\<close>

definition step_result :: "allocator \<Rightarrow> blk list \<Rightarrow> nat option \<Rightarrow> ('e, 'r) outcome \<times> allocator \<Rightarrow> bool" where
  "step_result a bs x r \<longleftrightarrow>
     fst r \<noteq> Panic \<and> rg_base (al_region (snd r)) = rg_base (al_region a) \<and>
     (\<exists>bs'. tiled (snd r) bs' \<and> keeps x (al_mem a) bs (al_mem (snd r)) bs' \<and> only_new (al_generation a) bs bs') \<and>
     al_generation (snd r) \<in> {al_generation a, next_generation (al_generation a)} \<and>
     ((\<exists>q n. live_at (al_blocks (snd r)) q n (al_generation a) \<and> \<not> live_at bs q n (al_generation a)) \<longrightarrow>
        al_generation (snd r) = next_generation (al_generation a))"

lemma keeps_refl [simp]: "keeps x m bs m bs"
  by (simp add: keeps_def)

lemma only_new_refl [simp]: "only_new g bs bs"
  by (simp add: only_new_def)

lemma step_unchanged: "tiled a bs \<Longrightarrow> r \<noteq> Panic \<Longrightarrow> step_result a bs x (r, a)"
  using tiled_blocks [of a bs] by (auto simp: step_result_def intro!: exI [of _ bs])

lemma step_changed:
  assumes "r \<noteq> Panic" and "rg_base (al_region a') = rg_base (al_region a)" and "tiled a' bs'"
    and "keeps x (al_mem a) bs (al_mem a') bs'" and "\<And>q n k. live_at bs' q n k \<Longrightarrow> live_at bs q n k"
    and "al_generation a' = al_generation a"
  shows "step_result a bs x (r, a')"
  using assms tiled_blocks [OF assms(3)] by (auto simp: step_result_def only_new_def)

lemma alloc_step:
  assumes "tiled a bs" and "sz < 2 ^ 63"
  shows "step_result a bs None (al_alloc a sz align)"
proof (cases "sz = 0 \<or> \<not> is_power_of_two align \<or> align > 4096")
  case True
  then show ?thesis by (simp add: alloc_refused [OF assms(1) True] step_unchanged [OF assms(1)])
next
  case False
  then have req: "sz \<noteq> 0" "is_power_of_two align" "align \<le> 4096" by auto
  from assms(1) req(1) assms(2) req(2,3) show ?thesis
  proof (cases rule: alloc_cases)
    case (none need)
    then show ?thesis by (simp add: step_unchanged [OF assms(1)])
  next
    case (some xs n ys gap need)
    note need = request_rounded [OF some(1) req(1) assms(2)]
    have tiled: "tiled a (xs @ (n, 0) # ys)" using assms(1) some(2) by simp
    let ?g = "al_generation a"
    let ?a = "counted (set_mem a (place_mem (al_mem a) (span xs) n (tail_size 0 xs) gap need ?g)) (place_taken n gap need)"
    let ?bs = "xs @ place_blocks n gap need ?g @ ys"
    have t: "tiled ?a ?bs" using tiled_place [OF tiled some(3,4) need(1,3) some(5)] .
    have k: "keeps None (al_mem a) bs (al_mem ?a) ?bs" using place_keeps [OF tiled some(3,5)] some(2) by simp
    have new: "only_new ?g bs ?bs"
      using place_span [OF some(5), of ?g]
      by (auto simp: only_new_def live_at_def some(2) place_blocks_def pad_blocks_def split: if_splits)
    have run: "al_alloc a sz align = (Ok \<lparr>bk_address = rg_base (al_region a) + (span xs + gap + 24), bk_size = sz,
        bk_generation = ?g\<rparr>, ?a)"
      using some(8) al_place_value [OF tiled some(3,4) need(1,3) some(5)] by simp
    show ?thesis unfolding run step_result_def using t k new by auto
  qed
qed

lemma start_split:
  assumes "tiled a bs" and "al_start_of a b = Ok q"
  obtains xs n ys where "bs = xs @ (n, bk_generation b) # ys" "q = span xs" "bk_generation b \<noteq> 0"
    "live_at bs q n (bk_generation b)" "bk_address b = rg_base (al_region a) + q + 24" "bk_size b \<le> n - 24"
proof -
  obtain n where n: "live_at bs q n (bk_generation b)" "bk_address b = rg_base (al_region a) + q + 24" "bk_size b \<le> n - 24"
    using assms(2) unfolding start_of_iff [OF assms(1)] by blast
  then obtain xs ys where "bs = xs @ (n, bk_generation b) # ys" "q = span xs"
    using placed_split [of q "(n, bk_generation b)" 0 bs] by (auto simp: live_at_def)
  then show ?thesis using that n by (auto simp: live_at_def)
qed

lemma start_refused:
  assumes "tiled a bs" and "\<And>q. al_start_of a b \<noteq> Ok q"
  obtains e where "al_start_of a b = Err e"
  using start_of_cases [OF assms(1), of b] assms(2) by blast

lemma merge_only:
  assumes "segs m 0 0 (xs @ (n, g) # ys)" and "live_at (merge_blocks xs n ys) q k j"
  shows "live_at (xs @ (n, g) # ys) q k j"
proof -
  have s: "segs m 0 0 xs" "segs m (span xs + n) n ys" using assms(1) by auto
  have "(q, k, j) \<in> set (placed 0 (merge_blocks xs n ys)) \<longrightarrow> j \<noteq> 0 \<longrightarrow> (q, k, j) \<in> set (placed 0 (xs @ (n, g) # ys))"
    by (rule absorb_prev_cases [OF s(1)]; rule absorb_next_cases [OF s(2)]) (simp_all add: merge_blocks_def add.assoc)
  then show ?thesis using assms(2) by (simp add: live_at_def)
qed

lemma free_step:
  assumes "tiled a bs"
  shows "\<exists>x. step_result a bs x (al_free a b) \<and> (\<forall>q. x = Some q \<longrightarrow> bk_address b = rg_base (al_region a) + q + 24)"
proof (cases "\<exists>q. al_start_of a b = Ok q")
  case True
  then obtain q where q: "al_start_of a b = Ok q" by blast
  obtain xs n ys where s: "bs = xs @ (n, bk_generation b) # ys" "q = span xs" "bk_generation b \<noteq> 0"
    "bk_address b = rg_base (al_region a) + q + 24" using start_split [OF assms q] by blast
  have t: "tiled a (xs @ (n, bk_generation b) # ys)" using assms s(1) by simp
  have run: "al_free a b = (Ok (), set_mem (released a n) (free_mem (al_mem a) xs n ys))"
    using al_free_value [OF t _ s(3)] q s(2) by simp
  have "step_result a bs (Some q) (al_free a b)"
    unfolding run using tiled_free [OF t s(3)] s(1,2) merge_only [OF tiledD(2) [OF t]]
    by (intro step_changed [where bs' = "merge_blocks xs n ys"]) auto
  then show ?thesis using s(4) by blast
next
  case False
  then obtain e where "al_start_of a b = Err e" using start_refused [OF assms, of b] by blast
  then show ?thesis by (intro exI [of _ None]) (simp add: al_free_def step_unchanged [OF assms])
qed

lemma write_step:
  assumes "tiled a bs"
  shows "\<exists>x. step_result a bs x (al_bytes_mut a b vs) \<and> (\<forall>q. x = Some q \<longrightarrow> bk_address b = rg_base (al_region a) + q + 24)"
proof (cases "\<exists>q. al_start_of a b = Ok q")
  case True
  then obtain q where q: "al_start_of a b = Ok q" by blast
  obtain n where n: "live_at bs q n (bk_generation b)" "bk_address b = rg_base (al_region a) + q + 24" "bk_size b \<le> n - 24"
    using start_split [OF assms q] by blast
  have vs: "length (take (bk_size b) vs) \<le> n - 24" using n(3) by simp
  have "step_result a bs (Some q) (al_bytes_mut a b vs)"
    unfolding write_value [OF assms q] using write_tiled [OF assms n(1) vs] by (intro step_changed) auto
  then show ?thesis using n(2) by blast
next
  case False
  then obtain e where "al_start_of a b = Err e" using start_refused [OF assms, of b] by blast
  then show ?thesis by (intro exI [of _ None]) (simp add: al_bytes_mut_def step_unchanged [OF assms])
qed

lemma extend_step:
  assumes "tiled a bs" and "region_ok (rg_grow (al_region a) e)"
  shows "step_result a bs None (al_extend a e)"
proof (cases "24 \<le> length e \<and> 8 dvd length e")
  case True
  then obtain m where m: "al_extend a e = (Ok (), set_mem a m)" "tiled (set_mem a m) (extend_blocks bs (length e))"
    "keeps None (al_mem a) bs m (extend_blocks bs (length e))"
    using extend_value [OF assms(1) _ _ assms(2)] by blast
  have "live_at bs q n k" if "live_at (extend_blocks bs (length e)) q n k" for q n k
    using that last_free [of bs] by (cases bs rule: rev_cases) (auto simp: live_at_def extend_blocks_def split: if_splits)
  then show ?thesis unfolding m(1) using m(2,3)
    by (intro step_changed [where bs' = "extend_blocks bs (length e)"]) auto
next
  case False
  then have "al_extend a e = (Err AlRegion, a)" by (intro extend_refused) auto
  then show ?thesis by (simp add: step_unchanged [OF assms(1)])
qed

lemma truncate_step:
  assumes "tiled a bs"
  shows "step_result a bs None (al_truncate a len)"
proof (cases "cuttable a bs len \<and> len \<noteq> al_len a")
  case True
  then obtain m where m: "al_truncate a len = (Ok (), set_mem a m)" "tiled (set_mem a m) (truncate_blocks bs len)"
    "keeps None (al_mem a) bs m (truncate_blocks bs len)"
    using truncate_value [OF assms] by blast
  have "live_at bs q n k" if "live_at (truncate_blocks bs len) q n k" for q n k
    using that by (cases bs rule: rev_cases) (auto simp: live_at_def truncate_blocks_def pad_blocks_def split: if_splits)
  then show ?thesis unfolding m(1) using m(2,3)
    by (intro step_changed [where bs' = "truncate_blocks bs len"]) auto
next
  case False
  then have "al_truncate a len = (Err AlRegion, a) \<or> al_truncate a len = (Ok (), a)"
    using truncate_refused [OF assms] truncate_same [of a] by (auto simp: cuttable_def mod_eq_0_iff_dvd)
  then show ?thesis by (auto simp: step_unchanged [OF assms])
qed

lemma step_unit: "step_result a bs x r \<Longrightarrow> step_result a bs x (unit_result r)"
  by (cases "fst r") (auto simp: step_result_def unit_result_def)

lemma op_step:
  assumes "tiled a bs" and "al_allowed a op"
  shows "\<exists>x. step_result a bs x (al_op_run op a) \<and>
    (\<forall>q h. x = Some q \<longrightarrow> bk_address h = rg_base (al_region a) + q + 24 \<longrightarrow> al_directed op h)"
proof (cases op)
  case (OpAlloc sz align)
  have "step_result a bs None (al_op_run op a)"
    using alloc_step [OF assms(1), of sz align] assms(2) OpAlloc
    by (cases "fst (al_alloc a sz align)") (simp_all add: step_result_def)
  then show ?thesis by blast
next
  case (OpFree b)
  then show ?thesis using free_step [OF assms(1), of b] step_unit [of a bs _ "al_free a b"] by fastforce
next
  case (OpWrite b vs)
  then show ?thesis using write_step [OF assms(1), of b vs] step_unit [of a bs _ "al_bytes_mut a b vs"] by fastforce
next
  case (OpExtend e)
  then show ?thesis using extend_step [OF assms(1), of e] step_unit [of a bs None "al_extend a e"] assms(2) by auto
next
  case (OpTruncate n)
  then show ?thesis using truncate_step [OF assms(1), of n] step_unit [of a bs None "al_truncate a n"] by auto
qed

lemma free_gone:
  assumes "segs m 0 0 (xs @ (n, g) # ys)" and "live_at (merge_blocks xs n ys) q k j"
  shows "q \<noteq> span xs"
proof -
  have s: "segs m 0 0 xs" "segs m (span xs + n) n ys" "24 \<le> n" using assms(1) by (auto simp: blk_ok_def)
  have "live_at (xs @ (n, g) # ys) q k j" by (rule merge_only [OF assms])
  then have "(k, j) \<in> set (xs @ (n, g) # ys)" unfolding live_at_def using placed_in by blast
  then have "blk_ok (k, j)" by (rule segs_ok [OF assms(1)])
  then have "24 \<le> k" by (simp add: blk_ok_def)
  moreover have "(q, k, j) \<in> set (placed 0 (snd (absorb_prev xs))) \<or>
      (q, k, j) \<in> set (placed (span xs + n + fst (absorb_next ys)) (snd (absorb_next ys)))"
    using assms(2) merge_span(1) [OF s(1,2)] by (auto simp: live_at_def merge_blocks_def add_ac)
  ultimately show ?thesis
    using s(3) merge_span(1) [OF s(1,2)] placed_bounds [of q "(k, j)" 0 "snd (absorb_prev xs)"]
      placed_bounds [of q "(k, j)" "span xs + n + fst (absorb_next ys)" "snd (absorb_next ys)"] by auto
qed

section \<open>The contract of a heap of blocks\<close>

locale block_heap =
  fixes good :: "'s \<Rightarrow> bool"
    and read :: "'s \<Rightarrow> 'h \<Rightarrow> ('e, bytes) outcome"
    and run :: "'op \<Rightarrow> 's \<Rightarrow> ('e, 'r) outcome \<times> 's"
    and allowed :: "'s \<Rightarrow> 'op \<Rightarrow> bool"
    and directed :: "'op \<Rightarrow> 'h \<Rightarrow> bool"
  assumes good_run: "good s \<Longrightarrow> allowed s x \<Longrightarrow> good (snd (run x s))"
    and run_safe: "good s \<Longrightarrow> allowed s x \<Longrightarrow> fst (run x s) \<noteq> Panic"
    and read_kept: "good s \<Longrightarrow> allowed s x \<Longrightarrow> \<not> directed x h \<Longrightarrow> read s h = Ok v \<Longrightarrow> read (snd (run x s)) h = Ok v"
begin

lemma exec_good: "good s \<Longrightarrow> legal_ops run allowed xs s \<Longrightarrow> good (exec_ops run xs s)"
  by (induction xs arbitrary: s) (auto intro: good_run)

lemma exec_safe: "good s \<Longrightarrow> legal_ops run allowed xs s \<Longrightarrow> Panic \<notin> set (exec_results run xs s)"
proof (induction xs arbitrary: s)
  case (Cons x xs)
  then show ?case using run_safe [of s x] good_run [of s x] Cons.IH [of "snd (run x s)"] by auto
qed simp

lemma exec_read:
  "good s \<Longrightarrow> legal_ops run allowed xs s \<Longrightarrow> \<forall>x\<in>set xs. \<not> directed x h \<Longrightarrow> read s h = Ok v \<Longrightarrow>
   read (exec_ops run xs s) h = Ok v"
  by (induction xs arbitrary: s) (auto intro: good_run read_kept)

end

text \<open>Handles that are never issued twice: a dead one stays dead until the counter is used up.\<close>

locale fresh_heap = block_heap +
  fixes age :: "'a \<Rightarrow> nat" and ticket :: "'b \<Rightarrow> nat" and limit :: nat
  assumes age_step: "good s \<Longrightarrow> allowed s x \<Longrightarrow> age s + 1 < limit \<Longrightarrow> age s \<le> age (snd (run x s)) \<and> age (snd (run x s)) \<le> age s + 1"
    and dead_step: "good s \<Longrightarrow> allowed s x \<Longrightarrow> ticket h < age s \<Longrightarrow> \<not> is_ok (read s h) \<Longrightarrow>
      \<not> is_ok (read (snd (run x s)) h)"
begin

lemma exec_age:
  "good s \<Longrightarrow> legal_ops run allowed xs s \<Longrightarrow> age s + length xs < limit \<Longrightarrow>
   age s \<le> age (exec_ops run xs s) \<and> age (exec_ops run xs s) \<le> age s + length xs"
proof (induction xs arbitrary: s)
  case (Cons x xs)
  then show ?case using age_step [of s x] good_run [of s x] Cons.IH [of "snd (run x s)"] by fastforce
qed simp

lemma exec_dead:
  "good s \<Longrightarrow> legal_ops run allowed xs s \<Longrightarrow> age s + length xs < limit \<Longrightarrow> ticket h < age s \<Longrightarrow> \<not> is_ok (read s h) \<Longrightarrow>
   \<not> is_ok (read (exec_ops run xs s) h)"
proof (induction xs arbitrary: s)
  case (Cons x xs)
  then have "age s \<le> age (snd (run x s)) \<and> age (snd (run x s)) \<le> age s + 1" using age_step [of s x] by simp
  then show ?case using Cons.prems good_run [of s x] dead_step [of s x h] Cons.IH [of "snd (run x s)"] by auto
qed simp

end

section \<open>The allocator keeps the contract\<close>

lemma op_kept:
  assumes "al_ok a" and "al_allowed a x" and "\<not> al_directed x h" and "al_bytes a h = Ok v"
  shows "al_bytes (snd (al_op_run x a)) h = Ok v"
proof -
  obtain bs where bs: "tiled a bs" using assms(1) by (auto simp: al_ok_iff)
  from op_step [OF bs assms(2)] obtain y where y: "step_result a bs y (al_op_run x a)"
    "\<And>q h. y = Some q \<Longrightarrow> bk_address h = rg_base (al_region a) + q + 24 \<Longrightarrow> al_directed x h" by blast
  from y(1) obtain bs' where bs': "tiled (snd (al_op_run x a)) bs'"
    "keeps y (al_mem a) bs (al_mem (snd (al_op_run x a))) bs'"
    "rg_base (al_region (snd (al_op_run x a))) = rg_base (al_region a)"
    unfolding step_result_def by blast
  show ?thesis using keeps_bytes [OF bs bs'(1,2,3) assms(4)] y(2) [of _ h] assms(3) by blast
qed

lemma op_dead:
  assumes "al_ok a" and "al_allowed a x" and "bk_generation h < al_generation a" and "\<not> is_ok (al_bytes a h)"
  shows "\<not> is_ok (al_bytes (snd (al_op_run x a)) h)"
proof
  assume "is_ok (al_bytes (snd (al_op_run x a)) h)"
  then obtain v where v: "al_bytes (snd (al_op_run x a)) h = Ok v" by (auto simp: is_ok_iff)
  obtain bs where bs: "tiled a bs" using assms(1) by (auto simp: al_ok_iff)
  from op_step [OF bs assms(2)] obtain bs' where bs': "tiled (snd (al_op_run x a)) bs'"
    "only_new (al_generation a) bs bs'" "rg_base (al_region (snd (al_op_run x a))) = rg_base (al_region a)"
    unfolding step_result_def by blast
  obtain q n where q: "live_at bs' q n (bk_generation h)" "bk_address h = rg_base (al_region a) + q + 24"
    "bk_size h \<le> n - 24" using v unfolding al_bytes_iff [OF bs'(1)] bs'(3) by blast
  have "live_at bs q n (bk_generation h)" using bs'(2) q(1) assms(3) unfolding only_new_def by fastforce
  then have "\<exists>v. al_bytes a h = Ok v" unfolding al_bytes_iff [OF bs] using q(2,3) by blast
  then show False using assms(4) by (auto simp: is_ok_iff)
qed

lemma next_generation_Suc: "g + 1 < 2 ^ 63 \<Longrightarrow> next_generation g = g + 1"
  by (simp add: next_generation_def Let_def u64_limit_def take_bit_nat_eq_self)

interpretation alloc: fresh_heap al_ok al_bytes al_op_run al_allowed al_directed al_generation bk_generation "2 ^ 63"
proof
  fix s x h v
  assume s: "al_ok s" "al_allowed s x"
  then obtain bs where bs: "tiled s bs" by (auto simp: al_ok_iff)
  from op_step [OF bs s(2)] obtain y where y: "step_result s bs y (al_op_run x s)" by blast
  then show "al_ok (snd (al_op_run x s))" and "fst (al_op_run x s) \<noteq> Panic"
    by (auto simp: step_result_def al_ok_iff)
  show "al_generation s \<le> al_generation (snd (al_op_run x s)) \<and> al_generation (snd (al_op_run x s)) \<le> al_generation s + 1"
    if "al_generation s + 1 < 2 ^ 63"
    using y next_generation_Suc [OF that] by (auto simp: step_result_def)
  show "al_bytes (snd (al_op_run x s)) h = Ok v" if "\<not> al_directed x h" and "al_bytes s h = Ok v"
    using op_kept [OF s that] .
  show "\<not> is_ok (al_bytes (snd (al_op_run x s)) h)" if "bk_generation h < al_generation s" and "\<not> is_ok (al_bytes s h)"
    using op_dead [OF s that] .
qed

end
