(* ===== verification/Allocator_Safety.thy ===== *)
theory Allocator_Safety
  imports Allocator_System
begin

unbundle bit_operations_syntax

text \<open>
  The properties of the SDK allocator: what a region looks like after any sequence of operations,
  what an allocation gives and when it is refused, that a client's bytes stay what it wrote, that a
  released handle stays dead, and that the length \<open>truncation_target\<close> proposes is always accepted.
\<close>

section \<open>Shared lemmas\<close>

lemma stats_value:
  assumes "tiled a bs"
  shows "al_stats a = Ok \<lparr>st_capacity = al_len a, st_used = al_used a, st_free = al_len a - al_used a,
    st_largest_free = Max (insert 0 (fst ` {b \<in> set bs. \<not> is_live b})), st_peak_used = al_peak a, st_blocks = al_live a\<rparr>"
  using largest_free_value [OF assms] tiledD(10) [OF assms] by (simp add: al_stats_def al_free_bytes_def)

lemma alloc_fresh:
  assumes "tiled a bs" and "sz < 2 ^ 63" and "al_alloc a sz align = (Ok h, a')"
  shows "bk_generation h = al_generation a" and "al_generation a' = next_generation (al_generation a)"
    and "is_ok (al_bytes a' h)"
proof -
  have req: "sz \<noteq> 0" "is_power_of_two align" "align \<le> 4096"
    using assms(3) by (auto simp: al_alloc_def max_align_def split: if_splits)
  have "bk_generation h = al_generation a \<and> al_generation a' = next_generation (al_generation a) \<and> is_ok (al_bytes a' h)"
    using assms(1) req(1) assms(2) req(2,3)
  proof (cases rule: alloc_cases)
    case (none need)
    then show ?thesis using assms(3) by simp
  next
    case (some xs n ys gap need)
    note need = request_rounded [OF some(1) req(1) assms(2)]
    have tiled: "tiled a (xs @ (n, 0) # ys)" using assms(1) some(2) by simp
    have run: "h = \<lparr>bk_address = rg_base (al_region a) + (span xs + gap + 24), bk_size = sz, bk_generation = al_generation a\<rparr>"
      "a' = counted (set_mem a (place_mem (al_mem a) (span xs) n (tail_size 0 xs) gap need (al_generation a))) (place_taken n gap need)"
      using some(8) al_place_value [OF tiled some(3,4) need(1,3) some(5), of sz] assms(3) by simp_all
    have t: "tiled a' (xs @ place_blocks n gap need (al_generation a) @ ys)"
      unfolding run(2) by (rule tiled_place [OF tiled some(3,4) need(1,3) some(5)])
    note new = place_new(1) [OF tiledD(8) [OF tiled] some(5), of xs ys] place_new(2) [OF tiledD(8) [OF tiled] some(5)] need(2)
    have "\<exists>v. al_bytes a' h = Ok v"
      unfolding al_bytes_iff [OF t]
      using new by (intro exI [of _ "field_at (al_mem a') (span xs + gap + 24) sz"] exI [of _ "span xs + gap"]
          exI [of _ "place_taken n gap need"]) (simp add: run add.assoc)
    then show ?thesis by (simp add: is_ok_iff run)
  qed
  then show "bk_generation h = al_generation a" and "al_generation a' = next_generation (al_generation a)"
    and "is_ok (al_bytes a' h)" by auto
qed

lemma bytes_refused:
  assumes "al_ok a" and "\<not> is_ok (al_bytes a h)"
  shows "al_bytes a h \<in> {Err AlUnowned, Err AlDoubleFree} \<and> al_free a h \<in> {(Err AlUnowned, a), (Err AlDoubleFree, a)}"
proof -
  obtain bs where bs: "tiled a bs" using assms(1) by (auto simp: al_ok_iff)
  have "al_start_of a h \<noteq> Ok q" for q
  proof
    assume "al_start_of a h = Ok q"
    then have "\<exists>v. al_bytes a h = Ok v" unfolding al_bytes_iff [OF bs] start_of_iff [OF bs] by blast
    then show False using assms(2) by (auto simp: is_ok_iff)
  qed
  then have "al_start_of a h = Err AlDoubleFree \<or> al_start_of a h = Err AlUnowned" using start_of_cases [OF bs] by blast
  then show ?thesis by (auto simp: al_bytes_def al_free_def)
qed

lemma free_kills:
  assumes "al_ok a" and "al_free a h = (Ok (), a')"
  shows "al_ok a'" and "al_generation a' = al_generation a" and "\<not> is_ok (al_bytes a' h)"
proof -
  obtain bs where bs: "tiled a bs" using assms(1) by (auto simp: al_ok_iff)
  have "\<exists>q. al_start_of a h = Ok q"
    using assms(2) start_of_cases [OF bs, of h] by (auto simp: al_free_def)
  then obtain q where q: "al_start_of a h = Ok q" by blast
  obtain xs n ys where s: "bs = xs @ (n, bk_generation h) # ys" "q = span xs" "bk_generation h \<noteq> 0"
    "bk_address h = rg_base (al_region a) + q + 24" using start_split [OF bs q] by blast
  have t: "tiled a (xs @ (n, bk_generation h) # ys)" using bs s(1) by simp
  have a': "a' = set_mem (released a n) (free_mem (al_mem a) xs n ys)"
    using al_free_value [OF t _ s(3)] q s(2) assms(2) by simp
  have t': "tiled a' (merge_blocks xs n ys)" unfolding a' by (rule tiled_free(1) [OF t s(3)])
  then show "al_ok a'" by (rule tiled_al_ok)
  show "al_generation a' = al_generation a" by (simp add: a')
  show "\<not> is_ok (al_bytes a' h)"
  proof
    assume "is_ok (al_bytes a' h)"
    then obtain v where "al_bytes a' h = Ok v" by (auto simp: is_ok_iff)
    then obtain r k where r: "live_at (merge_blocks xs n ys) r k (bk_generation h)" "bk_address h = rg_base (al_region a') + r + 24"
      unfolding al_bytes_iff [OF t'] by blast
    have "r = span xs" using r(2) s(2,4) by (simp add: a')
    then show False using free_gone [OF tiledD(2) [OF t] r(1)] by simp
  qed
qed

text \<open>A small region for the examples: 256 zeroed bytes at a page address.\<close>

definition demo_region :: mem_region where
  "demo_region = \<lparr>rg_base = 4096, rg_bytes = replicate 256 0\<rparr>"

definition demo_allocator :: allocator where
  "demo_allocator =
     \<lparr>al_region = demo_region\<lparr>rg_bytes := put (replicate 256 0) 0 (header_write \<lparr>hd_size = 256, hd_prev = 0, hd_state = 0\<rparr>)\<rparr>,
      al_used = 0, al_live = 0, al_peak = 0, al_generation = 1\<rparr>"

lemma demo_initial: "al_from_raw 4096 (replicate 256 0) = Ok demo_allocator"
  by (simp add: al_from_raw_def rg_from_raw_def header_align_def al_initialise_def rg_len_def header_bytes_def
      rg_set_header_def rg_holds_iff u64_limit_def demo_allocator_def demo_region_def)

lemma demo_tiled: "tiled demo_allocator [(256, 0)]"
  using from_raw_tiled [of 4096 "replicate 256 0"] demo_initial by (auto simp: u64_limit_def)

lemma demo_ok: "al_ok demo_allocator"
  by (rule tiled_al_ok [OF demo_tiled])

definition demo_block :: block where
  "demo_block = \<lparr>bk_address = 4144, bk_size = 16, bk_generation = 1\<rparr>"

definition demo_after :: allocator where
  "demo_after = snd (al_alloc demo_allocator 16 16)"

lemma demo_alloc: "al_alloc demo_allocator 16 16 = (Ok demo_block, demo_after)"
proof -
  note d = tiledD [OF demo_tiled]
  have base: "rg_base (al_region demo_allocator) = 4096" "al_used demo_allocator = 0" "al_len demo_allocator = 256"
    "al_generation demo_allocator = 1"
    by (simp_all add: demo_allocator_def demo_region_def al_len_def rg_len_def)
  have step: "al_step demo_allocator 0 = Ok (Some (256, blk_header (256, 0) 0))"
    using al_step_block [OF d(1,2)] by simp
  have two: "is_power_of_two 16" by (simp add: is_power_of_two_def list_ex_iff) (rule bexI [of _ 4], simp_all)
  have gap: "leading_gap 4096 16 = Some 24"
    by (simp add: leading_gap_def header_bytes_def checked_add64_def checked_next_multiple_of_def u64_limit_def gap_loop.simps)
  have find: "find_loop demo_allocator 16 16 0 = Ok (Some (0, blk_header (256, 0) 0, 24))"
    by (subst find_loop.simps) (simp add: step block_fits_def base gap header_bytes_def st_FREE_def u64_limit_def)
  have "al_alloc demo_allocator 16 16 = al_place demo_allocator 16 16 0 (blk_header (256, 0) 0) 24"
    by (simp add: al_alloc_def max_align_def two checked_next_multiple_of_def header_align_def find al_free_bytes_def base)
  also have "fst \<dots> = Ok demo_block"
    using al_place_value [of demo_allocator "[]" 256 "[]" 24 16 16] demo_tiled by (simp add: base demo_block_def)
  finally show ?thesis unfolding demo_after_def by (metis prod.collapse)
qed

lemma demo_after_ok: "al_ok demo_after" "is_ok (al_bytes demo_after demo_block)" "al_generation demo_after = 2"
proof -
  have "al_ok (snd (al_op_run (OpAlloc 16 16) demo_allocator))" by (rule alloc.good_run [OF demo_ok]) simp
  then show "al_ok demo_after" by (simp add: demo_after_def)
  show "is_ok (al_bytes demo_after demo_block)" using alloc_fresh(3) [OF demo_tiled _ demo_alloc] by simp
  show "al_generation demo_after = 2" using alloc_fresh(2) [OF demo_tiled _ demo_alloc]
    by (simp add: next_generation_Suc demo_allocator_def)
qed

section \<open>Properties\<close>

text \<open>C21 A region built over owned memory stays a sound allocator. Whatever sequence of allocations,
  releases, payload writes, extensions and truncations follows, as long as every request is for fewer than
  \<open>2 ^ 63\<close> bytes (Rust's own bound on the size of an object; the last property below shows that it is needed) and
  every extension brings memory that keeps the region inside the address space (\<open>al_allowed\<close>), no operation
  panics or overflows; the
  blocks found by walking the headers tile the region exactly, no two free blocks are neighbours, and
  the reported statistics are the truth: used and free bytes add up to the capacity, the used bytes and
  the number of live blocks are those of the tiling, and the largest free run is the largest free block.\<close>

theorem allocator_stays_sound:
  assumes "8 dvd base" and "base + length m < u64_limit" and "length m < 2 ^ 63" and "24 \<le> length m"
    and "al_from_raw base m = Ok a" and "legal_ops al_op_run al_allowed xs a"
  defines "a' \<equiv> exec_ops al_op_run xs a"
  shows "Panic \<notin> set (exec_results al_op_run xs a) \<and>
    span (al_blocks a') = al_len a' \<and> segs (al_mem a') 0 0 (al_blocks a') \<and>
    successively (\<lambda>x y. is_live x \<or> is_live y) (al_blocks a') \<and>
    (\<exists>s. al_stats a' = Ok s \<and> st_used s + st_free s = st_capacity s \<and> st_used s \<le> st_peak_used s \<and>
      st_used s = span (filter is_live (al_blocks a')) \<and> st_blocks s = length (filter is_live (al_blocks a')) \<and>
      st_largest_free s = Max (insert 0 (fst ` {b \<in> set (al_blocks a'). \<not> is_live b})))"
proof -
  have "al_ok a" using from_raw_tiled [OF assms(1-4)] assms(5) tiled_al_ok by auto
  then have ok: "al_ok a'" and safe: "Panic \<notin> set (exec_results al_op_run xs a)"
    using alloc.exec_good alloc.exec_safe assms(6) unfolding a'_def by blast+
  have t: "tiled a' (al_blocks a')" using ok by (simp add: al_ok_def)
  show ?thesis using safe tiledD [OF t] stats_value [OF t] by (simp add: merged_def)
qed

theorem allocator_stays_sound_witness:
  "Panic \<notin> set (exec_results al_op_run [OpAlloc 16 16, OpFree demo_block] demo_allocator)"
  using allocator_stays_sound [of 4096 "replicate 256 0" demo_allocator "[OpAlloc 16 16, OpFree demo_block]"] demo_initial
  by (simp add: u64_limit_def)

text \<open>C22 First fit. A request of \<open>0 < sz < 2 ^ 63\<close> bytes (Rust's own bound on the size of an object) with a power of
  two up to a page as alignment is answered by a block whose address has that alignment, that lies inside
  the region, holds the requested bytes and overlaps no block another handle names; every other handle
  still reads what it read before, and no free block below could have held the request. Or it is refused,
  the allocator is unchanged, and no free block of the region can hold it: whatever gap is left in front,
  none or enough for a block of its own, so that the payload behind the header is aligned, the block is too
  small. The refusal is \<open>Empty\<close> exactly when no byte is free and \<open>Exhausted\<close> otherwise.\<close>

theorem alloc_first_fit:
  assumes "al_ok a" and "sz \<noteq> 0" and "sz < 2 ^ 63" and "is_power_of_two align" and "align \<le> 4096"
  shows "(\<exists>h a'. al_alloc a sz align = (Ok h, a') \<and> bk_address h mod align = 0 \<and> bk_size h = sz \<and>
        rg_base (al_region a) \<le> bk_address h \<and> bk_address h + sz \<le> rg_base (al_region a) + al_len a \<and>
        (\<exists>v. al_bytes a' h = Ok v \<and> length v = sz) \<and>
        (\<forall>h' v. al_bytes a h' = Ok v \<longrightarrow> al_bytes a' h' = Ok v \<and>
           (bk_address h' + bk_size h' \<le> bk_address h \<or> bk_address h + sz \<le> bk_address h')) \<and>
        (\<forall>(q, b) \<in> set (placed 0 (al_blocks a)). \<not> is_live b \<longrightarrow> rg_base (al_region a) + q + fst b \<le> bk_address h \<longrightarrow>
           (\<forall>gap. (gap = 0 \<or> 24 \<le> gap) \<longrightarrow> (rg_base (al_region a) + q + gap + 24) mod align = 0 \<longrightarrow> fst b < gap + 24 + sz))) \<or>
    (al_alloc a sz align = (Err (if al_used a = al_len a then AlEmpty else AlExhausted), a) \<and>
     (\<forall>(q, b) \<in> set (placed 0 (al_blocks a)). \<not> is_live b \<longrightarrow>
        (\<forall>gap. (gap = 0 \<or> 24 \<le> gap) \<longrightarrow> (rg_base (al_region a) + q + gap + 24) mod align = 0 \<longrightarrow> fst b < gap + 24 + sz)))"
proof -
  have t: "tiled a (al_blocks a)" using assms(1) by (simp add: al_ok_def)
  have small: "fst b < gap + 24 + sz"
    if h: "takes (rg_base (al_region a)) need align q b = None" "checked_next_multiple_of sz header_align = Some need"
      "(q, b) \<in> set (placed 0 (al_blocks a))" "\<not> is_live b"
      "gap = 0 \<or> 24 \<le> gap" "(rg_base (al_region a) + q + gap + 24) mod align = 0" for need q b gap
  proof -
    obtain xs ys where q: "q = span xs" "al_blocks a = xs @ b # ys" using placed_split [OF h(3)] by auto
    have dvd: "8 dvd rg_base (al_region a) + q" "8 dvd fst b"
      using tiledD(1,2) [OF t] segs_aligned [of "al_mem a" 0 0 xs] by (auto simp: q blk_ok_def region_ok_def)
    have "q + fst b \<le> al_len a" using tiledD(3) [OF t] by (simp add: q)
    then have bound: "rg_base (al_region a) + q + fst b < u64_limit" using tiledD(1) [OF t] by (simp add: region_ok_def al_len_def)
    have need: "8 dvd need" "need < sz + 8"
      using request_rounded(1) [OF h(2) assms(2,3)] next_multiple_Some(2) [OF h(2)] by (simp_all add: header_align_def)
    show ?thesis by (rule takes_None [OF h(1,4) assms(4,5) dvd need bound h(5,6)])
  qed
  from t assms(2-) show ?thesis
  proof (cases rule: alloc_cases)
    case (none need)
    have refuse: "fst b < gap + 24 + sz"
      if b: "(q, b) \<in> set (placed 0 (al_blocks a))" "\<not> is_live b" "gap = 0 \<or> 24 \<le> gap"
        "(rg_base (al_region a) + q + gap + 24) mod align = 0" for q b gap
      using small [OF _ none(1) b] none(3) b(1) by auto
    have all: "case x of (q, b) \<Rightarrow> \<not> is_live b \<longrightarrow> (\<forall>gap. (gap = 0 \<or> 24 \<le> gap) \<longrightarrow>
        (rg_base (al_region a) + q + gap + 24) mod align = 0 \<longrightarrow> fst b < gap + 24 + sz)" if x: "x \<in> set (placed 0 (al_blocks a))" for x
    proof -
      obtain q b where e: "x = (q, b)" by (cases x)
      show ?thesis unfolding e prod.case by (intro impI allI) (rule refuse [OF x [unfolded e]])
    qed
    show ?thesis by (intro disjI2 conjI none(2) ballI all)
  next
    case (some xs n ys gap need)
    note need = request_rounded [OF some(1) assms(2,3)]
    have tiled: "tiled a (xs @ (n, 0) # ys)" using t some(2) by simp
    let ?g = "al_generation a" and ?p = "span xs + gap + 24"
    let ?h = "\<lparr>bk_address = rg_base (al_region a) + ?p, bk_size = sz, bk_generation = ?g\<rparr>"
    let ?a = "counted (set_mem a (place_mem (al_mem a) (span xs) n (tail_size 0 xs) gap need ?g)) (place_taken n gap need)"
    have run: "al_alloc a sz align = (Ok ?h, ?a)"
      using some(8) al_place_value [OF tiled some(3,4) need(1,3) some(5)] by simp
    have t': "tiled ?a (xs @ place_blocks n gap need ?g @ ys)" using tiled_place [OF tiled some(3,4) need(1,3) some(5)] .
    have len: "span xs + n \<le> al_len a" using tiledD(3) [OF tiled] by simp
    obtain v where v: "al_bytes ?a ?h = Ok v" using alloc_fresh(3) [OF t assms(3) run] by (auto simp: is_ok_iff)
    have lenv: "length v = sz"
      using v some(5) need(2) len unfolding al_bytes_iff [OF t'] by auto
    have others: "al_bytes ?a h' = Ok w \<and>
        (bk_address h' + bk_size h' \<le> bk_address ?h \<or> bk_address ?h + sz \<le> bk_address h')" if w: "al_bytes a h' = Ok w" for h' w
    proof
      show "al_bytes ?a h' = Ok w"
        using alloc.read_kept [OF assms(1), of "OpAlloc sz align" h' w] w run assms(3) by simp
      obtain q k where q: "live_at (xs @ (n, 0) # ys) q k (bk_generation h')" "bk_address h' = rg_base (al_region a) + q + 24"
        "bk_size h' \<le> k - 24" using w unfolding al_bytes_iff [OF tiled] by blast
      have "32 \<le> k" using live_at_ok [OF tiledD(2) [OF tiled] q(1)] tiledD(3) [OF tiled] by simp
      moreover have "q + k \<le> span xs \<or> span xs + n \<le> q"
        using q(1) placed_bounds [of q "(k, bk_generation h')" 0 xs] placed_bounds [of q "(k, bk_generation h')" "span xs + n" ys]
        by (auto simp: live_at_def)
      ultimately show "bk_address h' + bk_size h' \<le> bk_address ?h \<or> bk_address ?h + sz \<le> bk_address h'"
        using q(2,3) some(5) need(2) by auto
    qed
    have aligned: "bk_address ?h mod align = 0" using some(6) by (simp add: add.assoc)
    have below: "fst b < g + 24 + sz" if b: "(q, b) \<in> set (placed 0 (al_blocks a))" "\<not> is_live b"
        "rg_base (al_region a) + q + fst b \<le> bk_address ?h" "g = 0 \<or> 24 \<le> g" "(rg_base (al_region a) + q + g + 24) mod align = 0" for q b g
    proof -
      have "(q, b) \<in> set (placed 0 xs) \<or> q = span xs \<and> fst b = n \<or> span xs + n \<le> q"
        using b(1) placed_bounds [of q b "span xs + n" ys] by (auto simp: some(2) placed_append)
      then have "(q, b) \<in> set (placed 0 xs)" using b(3) some(5) need(3) by auto
      then show ?thesis using small [OF _ some(1) b(1,2,4,5)] some(7) by auto
    qed
    have first: "case x of (q, b) \<Rightarrow> \<not> is_live b \<longrightarrow> rg_base (al_region a) + q + fst b \<le> bk_address ?h \<longrightarrow> (\<forall>gap. (gap = 0 \<or> 24 \<le> gap) \<longrightarrow>
        (rg_base (al_region a) + q + gap + 24) mod align = 0 \<longrightarrow> fst b < gap + 24 + sz)" if x: "x \<in> set (placed 0 (al_blocks a))" for x
    proof -
      obtain q b where e: "x = (q, b)" by (cases x)
      show ?thesis unfolding e prod.case by (intro impI allI) (rule below [OF x [unfolded e]])
    qed
    have inside: "rg_base (al_region a) \<le> bk_address ?h" "bk_address ?h + sz \<le> rg_base (al_region a) + al_len a"
      using some(5) need(2) len by simp_all
    show ?thesis
      by (intro disjI1 exI [of _ ?h] exI [of _ ?a] conjI run aligned inside allI impI others ballI first exI [of _ v] v lenv) simp_all
  qed
qed

lemma demo_request: "is_power_of_two 16"
  by (simp add: is_power_of_two_def list_ex_iff) (rule bexI [of _ 4], simp_all)

theorem alloc_first_fit_witness:
  "al_ok demo_allocator \<and> is_power_of_two 16 \<and>
   (\<exists>h a'. al_alloc demo_allocator 16 16 = (Ok h, a') \<and> bk_address h mod 16 = 0 \<and> (\<exists>v. al_bytes a' h = Ok v \<and> length v = 16))"
  using alloc_first_fit [OF demo_ok, of 16 16] demo_ok demo_request by (auto simp: demo_alloc)

text \<open>C23 What a client writes through a handle is what it reads back, after any sequence of operations that
  are not directed at that block: other allocations, releases, writes, extensions and truncations, where every
  request is for fewer than \<open>2 ^ 63\<close> bytes and every extension keeps the region inside the address space
  (\<open>al_allowed\<close>).\<close>

theorem written_bytes_persist:
  assumes "al_ok a" and "is_ok (al_bytes a h)" and "length vs = bk_size h"
    and "al_bytes_mut a h vs = (r, a')" and "legal_ops al_op_run al_allowed xs a'" and "\<forall>x\<in>set xs. \<not> al_directed x h"
  shows "r = Ok () \<and> al_bytes (exec_ops al_op_run xs a') h = Ok vs"
proof -
  obtain bs where bs: "tiled a bs" using assms(1) by (auto simp: al_ok_iff)
  obtain v where v: "al_bytes a h = Ok v" using assms(2) by (auto simp: is_ok_iff)
  then obtain q where q: "al_start_of a h = Ok q"
    by (auto simp: al_bytes_def and_then_Ok_iff)
  obtain n where n: "live_at bs q n (bk_generation h)" "bk_address h = rg_base (al_region a) + q + 24" "bk_size h \<le> n - 24"
    using start_split [OF bs q] by blast
  have a': "r = Ok ()" "a' = set_mem a (put (al_mem a) (q + 24) vs)"
    using write_value [OF bs q, of vs] assms(3,4) by simp_all
  have t: "tiled a' bs" unfolding a'(2) using write_tiled(1) [OF bs n(1), of vs] n(3) assms(3) by simp
  have "q + n \<le> al_len a" "32 \<le> n" using live_at_ok [OF tiledD(2) [OF bs] n(1)] tiledD(3) [OF bs] by simp_all
  then have "vs = field_at (al_mem a') (q + 24) (bk_size h)" using n(3) assms(3) by (simp add: a')
  then have "al_bytes a' h = Ok vs" unfolding al_bytes_iff [OF t] using n by (auto simp: a')
  then show ?thesis using alloc.exec_read [OF tiled_al_ok [OF t] assms(5,6)] a'(1) by simp
qed

theorem written_bytes_persist_witness:
  "al_bytes (exec_ops al_op_run [OpAlloc 8 8] (snd (al_bytes_mut demo_after demo_block (replicate 16 7)))) demo_block =
   Ok (replicate 16 7)"
  using written_bytes_persist [OF demo_after_ok(1,2), of "replicate 16 7" "fst (al_bytes_mut demo_after demo_block (replicate 16 7))"
      "snd (al_bytes_mut demo_after demo_block (replicate 16 7))" "[OpAlloc 8 8]"]
  by (simp add: demo_block_def)

text \<open>C24 A released handle stays dead. Take a handle an allocation issued, let any operations run, release
  it, and let any operations run again, among them allocations that hand out the same address: as long
  as every request is for fewer than \<open>2 ^ 63\<close> bytes and the generation counter has stayed below \<open>2 ^ 63\<close>, reading through the handle and
  releasing it again are both refused, as \<open>Unowned\<close> or \<open>DoubleFree\<close>, and the second release changes nothing.\<close>

theorem released_handle_stays_dead:
  assumes "al_ok a" and "sz < 2 ^ 63" and "al_alloc a sz align = (Ok h, a1)"
    and "legal_ops al_op_run al_allowed xs a1" and "al_free (exec_ops al_op_run xs a1) h = (Ok (), a2)"
    and "legal_ops al_op_run al_allowed ys a2" and "al_generation a + 1 + length xs + length ys < 2 ^ 63"
  defines "a3 \<equiv> exec_ops al_op_run ys a2"
  shows "al_bytes a3 h \<in> {Err AlUnowned, Err AlDoubleFree} \<and>
    al_free a3 h \<in> {(Err AlUnowned, a3), (Err AlDoubleFree, a3)}"
proof -
  have t: "tiled a (al_blocks a)" using assms(1) by (simp add: al_ok_def)
  note issued = alloc_fresh [OF t assms(2,3)]
  have "snd (al_op_run (OpAlloc sz align) a) = a1" using assms(3) by simp
  then have ok1: "al_ok a1" using alloc.good_run [OF assms(1), of "OpAlloc sz align"] assms(2) by simp
  have g1: "al_generation a1 = al_generation a + 1" using issued(2) next_generation_Suc assms(7) by simp
  have ok: "al_ok (exec_ops al_op_run xs a1)" by (rule alloc.exec_good [OF ok1 assms(4)])
  have g: "al_generation a + 1 \<le> al_generation (exec_ops al_op_run xs a1)"
    "al_generation (exec_ops al_op_run xs a1) \<le> al_generation a + 1 + length xs"
    using alloc.exec_age [OF ok1 assms(4)] g1 assms(7) by simp_all
  note killed = free_kills [OF ok assms(5)]
  have "\<not> is_ok (al_bytes a3 h)" unfolding a3_def
    by (rule alloc.exec_dead [OF killed(1) assms(6)]) (use killed g issued(1) assms(7) in simp_all)
  moreover have "al_ok a3" unfolding a3_def by (rule alloc.exec_good [OF killed(1) assms(6)])
  ultimately show ?thesis using bytes_refused by blast
qed

lemma demo_free: "al_free demo_after demo_block = (Ok (), snd (al_free demo_after demo_block))"
proof -
  obtain bs where bs: "tiled demo_after bs" using demo_after_ok(1) by (auto simp: al_ok_iff)
  obtain q where q: "al_start_of demo_after demo_block = Ok q"
    using demo_after_ok(2) by (auto simp: is_ok_iff al_bytes_def and_then_Ok_iff)
  obtain xs n ys where s: "bs = xs @ (n, bk_generation demo_block) # ys" "q = span xs" "bk_generation demo_block \<noteq> 0"
    using start_split [OF bs q] by blast
  show ?thesis using al_free_value [of demo_after xs n "bk_generation demo_block" ys demo_block] bs q s by simp
qed

theorem released_handle_stays_dead_witness:
  "al_bytes (exec_ops al_op_run [OpAlloc 16 16] (snd (al_free demo_after demo_block))) demo_block
     \<in> {Err AlUnowned, Err AlDoubleFree}"
  using released_handle_stays_dead [OF demo_ok _ demo_alloc, of "[]" "snd (al_free demo_after demo_block)" "[OpAlloc 16 16]"]
    demo_free by (simp add: demo_allocator_def)

text \<open>C25 The length \<open>truncation_target\<close> proposes is a length \<open>truncate\<close> accepts, for every granularity: the region
  then has exactly that length, a multiple of the granularity when anything was given up, and every live
  handle reads what it read before.\<close>

theorem truncation_target_accepted:
  assumes "al_ok a"
  shows "\<exists>t a'. al_truncation_target a gran = Ok t \<and> al_truncate a t = (Ok (), a') \<and> al_len a' = t \<and> t \<le> al_len a \<and>
    (t < al_len a \<longrightarrow> gran dvd t) \<and> (\<forall>h v. al_bytes a h = Ok v \<longrightarrow> al_bytes a' h = Ok v)"
proof -
  have t: "tiled a (al_blocks a)" using assms by (simp add: al_ok_def)
  obtain k where k: "al_truncation_target a gran = Ok k" "cuttable a (al_blocks a) k" "k \<le> al_len a"
    "k < al_len a \<longrightarrow> gran dvd k" using truncation_target_value [OF t] by blast
  have kept: "al_bytes (snd (al_truncate a k)) h = Ok v" if "al_bytes a h = Ok v" for h v
    using alloc.read_kept [OF assms, of "OpTruncate k" h v] that by (simp add: unit_result_def)
  show ?thesis
  proof (cases "k = al_len a")
    case True
    then have "al_truncate a k = (Ok (), a)" using k(2) truncate_same [of a] by (auto simp: cuttable_def)
    then show ?thesis using k True by auto
  next
    case False
    obtain m where "al_truncate a k = (Ok (), set_mem a m)" "length m = k" using truncate_value [OF t k(2) False] by blast
    then show ?thesis using k kept by (intro exI [of _ k] exI [of _ "set_mem a m"]) auto
  qed
qed

theorem truncation_target_accepted_witness:
  "\<exists>t a'. al_truncation_target demo_after 64 = Ok t \<and> al_truncate demo_after t = (Ok (), a') \<and> al_len a' = t"
  using truncation_target_accepted [OF demo_after_ok(1), of 64] by blast

text \<open>C40 A request near the top of the address range overflows the unchecked sum of gap, header and payload
  in \<open>alloc\<close>: with any free block in the region, a request of \<open>usize::MAX - 15\<close> bytes is not refused as
  \<open>Request\<close> or \<open>Exhausted\<close> but panics in a build with overflow checks (and wraps, so that the block is taken
  to fit, in a build without them).\<close>

theorem huge_request_overflows:
  assumes "al_ok a" and "\<not> is_live b" and "b \<in> set (al_blocks a)"
  shows "fst (al_alloc a (u64_limit - 16) 8) = Panic"
proof -
  have t: "tiled a (al_blocks a)" using assms(1) by (simp add: al_ok_def)
  note a = tiledD [OF t]
  let ?need = "u64_limit - 16"
  have base: "8 dvd rg_base (al_region a)" "rg_base (al_region a) + al_len a < u64_limit"
    using a(1) by (simp_all add: region_ok_def al_len_def)
  have gap: "leading_gap p 8 = Some 0" if "8 dvd p" "p + 24 < u64_limit" for p
    using that by (simp add: leading_gap_def header_bytes_def checked_add64_def checked_next_multiple_of_def gap_loop.simps)
  have "find_loop a ?need 8 p = Panic"
    if "segs (al_mem a) p prev bs" "8 dvd p" "p + span bs = al_len a" "b \<in> set bs" for p prev bs
    using that
  proof (induction bs arbitrary: p prev)
    case (Cons c bs)
    note step = al_step_block [OF a(1) Cons.prems(1,2)]
    have c: "24 \<le> fst c" "p + fst c \<le> al_len a" "8 dvd p + fst c"
      using Cons.prems by (auto simp: blk_ok_def)
    show ?case
    proof (cases "is_live c")
      case True
      then have "find_loop a ?need 8 p = find_loop a ?need 8 (p + fst c)"
        by (subst find_loop.simps) (simp add: step block_fits_def st_FREE_def)
      moreover have "b \<in> set bs" using True assms(2) Cons.prems(4) by auto
      ultimately show ?thesis using Cons.IH [of "p + fst c" "fst c"] Cons.prems(1,3) c(3) by simp
    next
      case False
      have "leading_gap (rg_base (al_region a) + p) 8 = Some 0" by (rule gap) (use base c Cons.prems(2) in auto)
      then have "block_fits a ?need 8 p (blk_header c prev) = Panic"
        using False base(2) c by (simp add: block_fits_def st_FREE_def header_bytes_def u64_limit_def)
      then show ?thesis by (subst find_loop.simps) (simp add: step)
    qed
  qed simp
  then have find: "find_loop a ?need 8 0 = Panic" using a(2,3) assms(3) by simp
  have two: "is_power_of_two 8" by (simp add: is_power_of_two_def list_ex_iff) (rule bexI [of _ 3], simp_all)
  have need: "checked_next_multiple_of ?need header_align = Some ?need"
    by (simp add: checked_next_multiple_of_def header_align_def u64_limit_def)
  show ?thesis using find two need by (simp add: al_alloc_def max_align_def u64_limit_def)
qed

theorem huge_request_overflows_witness: "fst (al_alloc demo_allocator (u64_limit - 16) 8) = Panic"
  using huge_request_overflows [OF demo_ok, of "(256, 0)"] tiled_blocks [OF demo_tiled] by simp

end
