(* ===== verification/Fs_Base.thy ===== *)
theory Fs_Base
  imports Bytes
begin

unbundle bit_operations_syntax

text \<open>
  What the file system crate (\<open>crates/fs\<close>) shares: its error type, the limits of the mounted format, the
  CRC-32 of \<open>checksum.rs\<close>, the sector numbers of \<open>storage.rs\<close> and the \<open>Disk\<close> trait. The crate is generic
  over the disk, so a disk is a record of three functions on an arbitrary disk state \<open>'d\<close>, and every
  operation that does I/O takes one as its first argument; \<open>io_then\<close> is the \<open>?\<close> of a function that holds
  \<open>&mut disk\<close>.
\<close>

section \<open>Errors and limits\<close>

datatype fs_error =
    FsIo | FsUncertain | FsInvalid | FsCorrupt | FsNotFound | FsExists | FsNotDirectory | FsIsDirectory
  | FsNotEmpty | FsFull | FsSize | FsVersion | FsReadOnly | FsEmpty | FsExhausted | FsUnsupported
  | FsLineage | FsExpiredEpoch | FsOutcomeUnknown | FsIdempotencyConflict | FsBusy | FsCancelled

abbreviation (input) objects :: nat where "objects \<equiv> 32"

abbreviation (input) max_file :: nat where "max_file \<equiv> 1024"

abbreviation (input) volume_sectors :: nat where "volume_sectors \<equiv> 174"

abbreviation (input) recovery_sectors :: nat where "recovery_sectors \<equiv> 7"

section \<open>Checksum\<close>

definition crc_bit :: "u32 \<Rightarrow> u32" where
  "crc_bit v = drop_bit 1 v XOR (0xedb88320 AND (0 - (v AND 1)))"

definition crc_byte :: "u32 \<Rightarrow> u8 \<Rightarrow> u32" where
  "crc_byte v b = (crc_bit ^^ 8) (v XOR ucast b)"

definition crc_update :: "u32 \<Rightarrow> bytes \<Rightarrow> u32" where
  "crc_update v bs = foldl crc_byte v bs"

definition crc :: "bytes \<Rightarrow> u32" where
  "crc bs = NOT (crc_update (NOT 0) bs)"

text \<open>The running form: updating with \<open>a\<close> and then \<open>b\<close> is the checksum of the concatenation.\<close>

lemma crc_append: "crc (a @ b) = NOT (crc_update (crc_update (NOT 0) a) b)"
  by (simp add: crc_def crc_update_def)

text \<open>The check value of CRC-32, which the crate's own test states as well.\<close>

lemma crc_check_value: "crc [49, 50, 51, 52, 53, 54, 55, 56, 57] = 0xcbf43926"
proof -
  have ones: "(NOT 0 :: u32) = 0xffffffff" by simp
  have eight: "(f ^^ 8) x = f (f (f (f (f (f (f (f x)))))))" for f :: "u32 \<Rightarrow> u32" and x
    by (simp add: eval_nat_numeral)
  have bit: "crc_bit (numeral n) = drop_bit 1 (numeral n) XOR (0xedb88320 AND (0 - (numeral n AND 1)))" for n
    by (simp only: crc_bit_def)
  have neg: "crc_bit (- numeral n) = drop_bit 1 (- numeral n) XOR (0xedb88320 AND (0 - (- numeral n AND 1)))" for n
    by (simp only: crc_bit_def)
  show ?thesis
    by (simp add: crc_def crc_update_def crc_byte_def ones eight bit neg)
qed

section \<open>Disks\<close>

record 'd disk =
  disk_read :: "nat \<Rightarrow> 'd \<Rightarrow> (fs_error, bytes) outcome \<times> 'd"
  disk_write :: "nat \<Rightarrow> bytes \<Rightarrow> 'd \<Rightarrow> (fs_error, unit) outcome \<times> 'd"
  disk_flush :: "'d \<Rightarrow> (fs_error, unit) outcome \<times> 'd"

definition io_then ::
  "('e, 'a) outcome \<times> 'd \<Rightarrow> ('a \<Rightarrow> 'd \<Rightarrow> ('e, 'b) outcome \<times> 'd) \<Rightarrow> ('e, 'b) outcome \<times> 'd" where
  "io_then m f = (case m of (Ok x, d) \<Rightarrow> f x d | (Err e, d) \<Rightarrow> (Err e, d) | (Panic, d) \<Rightarrow> (Panic, d))"

definition header_sector :: "u8 \<Rightarrow> nat" where
  "header_sector bank = 8 + unat bank * 5"

definition data_sector :: "nat \<Rightarrow> u8 \<Rightarrow> nat" where
  "data_sector slot bank = 32 + slot * 4 + unat bank * 2"

text \<open>The loops \<open>for (i, chunk) in bytes.as_chunks_mut::<512>().0.iter_mut().enumerate()\<close> read \<open>n\<close>
  consecutive sectors, stopping at the first error.\<close>

fun read_sectors :: "'d disk \<Rightarrow> nat \<Rightarrow> nat \<Rightarrow> 'd \<Rightarrow> (fs_error, bytes) outcome \<times> 'd" where
  "read_sectors D s 0 d = (Ok [], d)"
| "read_sectors D s (Suc n) d =
     io_then (disk_read D s d) (\<lambda>b d. io_then (read_sectors D (s + 1) n d) (\<lambda>bs d. (Ok (b @ bs), d)))"

definition read_data :: "'d disk \<Rightarrow> nat \<Rightarrow> u8 \<Rightarrow> 'd \<Rightarrow> (fs_error, bytes) outcome \<times> 'd" where
  "read_data D slot bank d = read_sectors D (data_sector slot bank) 2 d"

section \<open>The provisioning record\<close>

abbreviation (input) zero_sector :: bytes where "zero_sector \<equiv> replicate 512 0"

definition volume_magic :: bytes where
  "volume_magic = [0x52, 0x55, 0x53, 0x54, 0x56, 0x4f, 0x4c, 0x31]"

definition lineage_of :: "bytes \<Rightarrow> (fs_error, bytes option) outcome" where
  "lineage_of b =
     (if b = zero_sector then Ok None
      else let expected = u32_at b 24; b = put b 24 (replicate 4 0) in
        if take 8 b \<noteq> volume_magic \<or> field_at b 8 16 = replicate 16 0 \<or> any_nonzero (drop 28 b) \<or>
           expected \<noteq> crc b
        then Err FsCorrupt else Ok (Some (field_at b 8 16)))"

definition lineage :: "'d disk \<Rightarrow> 'd \<Rightarrow> (fs_error, bytes option) outcome \<times> 'd" where
  "lineage D d = io_then (disk_read D 1 d) (\<lambda>b d. (lineage_of b, d))"

section \<open>Sequencing\<close>

lemma io_then_simps [simp]:
  "io_then (Ok x, d) f = f x d" "io_then (Err e, d) f = (Err e, d)" "io_then (Panic, d) f = (Panic, d)"
  by (simp_all add: io_then_def)

lemma io_then_Ok_iff: "io_then m f = (Ok y, d') \<longleftrightarrow> (\<exists>x d. m = (Ok x, d) \<and> f x d = (Ok y, d'))"
  by (auto simp: io_then_def split: prod.splits outcome.splits)

text \<open>The sector ranges of the format do not overlap: two metadata banks, 32 file slots of two banks with
  two sectors each, and two recovery banks of seven sectors, all inside the volume.\<close>

lemma sector_ranges:
  assumes "bank \<le> 1" and "slot < objects"
  shows "8 \<le> header_sector bank" and "header_sector bank + 4 < 18"
    and "32 \<le> data_sector slot bank" and "data_sector slot bank + 1 < 160"
    and "160 + unat bank * 7 + 6 < volume_sectors"
proof -
  have "unat bank \<le> 1" using assms(1) by (simp add: word_le_nat_alt)
  then show "8 \<le> header_sector bank" "header_sector bank + 4 < 18" "32 \<le> data_sector slot bank"
    "data_sector slot bank + 1 < 160" "160 + unat bank * 7 + 6 < volume_sectors"
    using assms(2) by (auto simp: header_sector_def data_sector_def)
qed

end
