(* ===== verification/Namespace.thy ===== *)
theory Namespace
  imports Fs_Base
begin

text \<open>
  Objects of the mounted format, \<open>crates/fs/src/namespace.rs\<close>: the 64-byte node record with its codec and
  the rule for names. The decoder is canonical: \<open>node_ok\<close> is exactly what it accepts, and interpretation
  \<open>node_codec\<close> gives the equivalence.
\<close>

section \<open>Nodes\<close>

datatype kind = KEmpty | KFile | KDirectory

record node =
  nd_id :: u32
  nd_parent :: u32
  nd_version :: u64
  nd_length :: u16
  nd_kind :: kind
  nd_space :: u8
  nd_bank :: u8
  nd_checksum :: u32
  nd_name :: bytes
  nd_name_length :: u8

primrec kind_tag :: "kind \<Rightarrow> u8" where
  "kind_tag KEmpty = 0"
| "kind_tag KFile = 1"
| "kind_tag KDirectory = 2"

definition empty_node :: node where
  "empty_node = \<lparr>nd_id = 0, nd_parent = 0, nd_version = 0, nd_length = 0, nd_kind = KEmpty, nd_space = 0,
     nd_bank = 0, nd_checksum = 0, nd_name = replicate 32 0, nd_name_length = 0\<rparr>"

definition is_ascii_alphanumeric :: "u8 \<Rightarrow> bool" where
  "is_ascii_alphanumeric b \<longleftrightarrow> 48 \<le> b \<and> b \<le> 57 \<or> 65 \<le> b \<and> b \<le> 90 \<or> 97 \<le> b \<and> b \<le> 122"

definition valid_name :: "bytes \<Rightarrow> (fs_error, unit) outcome" where
  "valid_name nm =
     (if nm = [] \<or> length nm > 31 \<or> nm = [46] \<or> nm = [46, 46] \<or>
         list_ex (\<lambda>b. \<not> is_ascii_alphanumeric b \<and> b \<notin> set [46, 95, 45]) nm
      then Err FsInvalid else Ok ())"

definition node_new :: "u32 \<Rightarrow> u32 \<Rightarrow> u8 \<Rightarrow> kind \<Rightarrow> bytes \<Rightarrow> u64 \<Rightarrow> (fs_error, node) outcome" where
  "node_new i parent space k nm version =
     and_then (valid_name nm) (\<lambda>_.
       Ok (empty_node\<lparr>nd_id := i, nd_parent := parent, nd_space := space, nd_kind := k, nd_version := version,
         nd_name := put (nd_name empty_node) 0 nm, nd_name_length := of_nat (length nm)\<rparr>))"

definition node_name :: "node \<Rightarrow> bytes" where
  "node_name n = take (unat (nd_name_length n)) (nd_name n)"

definition node_encode :: "node \<Rightarrow> bytes" where
  "node_encode n =
     (let b = (replicate 64 0)[0 := kind_tag (nd_kind n), 1 := nd_space n, 2 := nd_bank n, 3 := nd_name_length n];
          b = put b 4 (to_le 4 (nd_parent n)); b = put b 8 (to_le 4 (nd_id n));
          b = put b 12 (to_le 2 (nd_length n)); b = put b 16 (to_le 8 (nd_version n));
          b = put b 24 (to_le 4 (nd_checksum n))
      in put b 32 (nd_name n))"

definition node_decode :: "bytes \<Rightarrow> (fs_error, node) outcome" where
  "node_decode b =
     (if length b \<noteq> 64 then Err FsCorrupt
      else if b = replicate 64 0 then Ok empty_node
      else if b ! 0 \<noteq> 1 \<and> b ! 0 \<noteq> 2 then Err FsCorrupt
      else let k = (if b ! 0 = 1 then KFile else KDirectory); len = u16_at b 12 in
        if \<not> (1 \<le> b ! 1 \<and> b ! 1 \<le> 4) \<or> b ! 2 > 1 \<or> \<not> (1 \<le> b ! 3 \<and> b ! 3 \<le> 31) \<or> unat len > max_file \<or>
           field_at b 14 2 \<noteq> replicate 2 0 \<or> field_at b 28 4 \<noteq> replicate 4 0 \<or>
           any_nonzero (drop (32 + unat (b ! 3)) b)
        then Err FsCorrupt
        else and_then (map_err (\<lambda>_. FsCorrupt)
            (node_new (u32_at b 8) (u32_at b 4) (b ! 1) k (field_at b 32 (unat (b ! 3))) (u64_at b 16)))
          (\<lambda>n. let n = n\<lparr>nd_length := len, nd_bank := b ! 2, nd_checksum := u32_at b 24\<rparr> in
            if nd_id n = 0 \<or> nd_version n = 0 \<or>
               k = KDirectory \<and> (nd_length n \<noteq> 0 \<or> nd_checksum n \<noteq> 0 \<or> nd_bank n \<noteq> 0)
            then Err FsCorrupt else Ok n))"

section \<open>Well-formed nodes\<close>

definition node_ok :: "node \<Rightarrow> bool" where
  "node_ok n \<longleftrightarrow>
     (if nd_kind n = KEmpty then n = empty_node
      else nd_id n \<noteq> 0 \<and> nd_version n \<noteq> 0 \<and> 1 \<le> nd_space n \<and> nd_space n \<le> 4 \<and> nd_bank n \<le> 1 \<and>
        unat (nd_length n) \<le> max_file \<and>
        (nd_kind n = KDirectory \<longrightarrow> nd_length n = 0 \<and> nd_checksum n = 0 \<and> nd_bank n = 0) \<and>
        valid_name (node_name n) = Ok () \<and> nd_name_length n \<le> 31 \<and>
        nd_name n = put (replicate 32 0) 0 (node_name n))"

lemma valid_nameD: "valid_name nm = Ok () \<Longrightarrow> 1 \<le> length nm \<and> length nm \<le> 31"
  by (cases nm) (auto simp: valid_name_def split: if_splits)

lemma valid_name_not_Panic [simp]: "valid_name nm \<noteq> Panic"
  by (simp add: valid_name_def)

lemma unat_of_nat8: "n < 256 \<Longrightarrow> unat (of_nat n :: u8) = n"
  by (simp add: unsigned_of_nat take_bit_nat_eq_self)

lemma node_new_Ok:
  assumes "node_new i parent space k nm version = Ok n"
  shows "nd_id n = i" "nd_parent n = parent" "nd_space n = space" "nd_kind n = k" "nd_version n = version"
    "node_name n = nm" "valid_name nm = Ok ()" "nd_length n = 0" "nd_bank n = 0" "nd_checksum n = 0"
    "nd_name n = put (replicate 32 0) 0 nm" "nd_name_length n = of_nat (length nm)"
proof -
  have v: "valid_name nm = Ok ()" and n: "n = empty_node\<lparr>nd_id := i, nd_parent := parent, nd_space := space, nd_kind := k,
      nd_version := version, nd_name := put (nd_name empty_node) 0 nm, nd_name_length := of_nat (length nm)\<rparr>"
    using assms by (auto simp: node_new_def and_then_Ok_iff)
  then show "nd_id n = i" "nd_parent n = parent" "nd_space n = space" "nd_kind n = k" "nd_version n = version"
    "valid_name nm = Ok ()" "nd_length n = 0" "nd_bank n = 0" "nd_checksum n = 0"
    "nd_name n = put (replicate 32 0) 0 nm" "nd_name_length n = of_nat (length nm)"
    by (simp_all add: empty_node_def)
  show "node_name n = nm" using valid_nameD [OF v] by (simp add: n node_name_def unat_of_nat8 put_def)
qed

lemma node_new_not_Panic [simp]: "node_new i parent space k nm version \<noteq> Panic"
  by (simp add: node_new_def and_then_Panic_iff)

lemma node_new_ok:
  assumes "node_new i parent space k nm version = Ok n" and "i \<noteq> 0" and "version \<noteq> 0" and "k \<noteq> KEmpty"
    and "1 \<le> space" and "space \<le> 4"
  shows "node_ok n"
proof -
  note n = node_new_Ok [OF assms(1)]
  have "nd_name_length n \<le> 31"
    using n(12) valid_nameD [OF n(7)] by (simp add: word_le_nat_alt unat_of_nat8)
  then show ?thesis using assms n by (simp add: node_ok_def)
qed

section \<open>The record round trip\<close>

lemma node_encode_fields:
  assumes "length (nd_name n) = 32"
  shows "length (node_encode n) = 64" "node_encode n ! 0 = kind_tag (nd_kind n)" "node_encode n ! 1 = nd_space n"
    "node_encode n ! 2 = nd_bank n" "node_encode n ! 3 = nd_name_length n"
    "field_at (node_encode n) 4 4 = to_le 4 (nd_parent n)" "field_at (node_encode n) 8 4 = to_le 4 (nd_id n)"
    "field_at (node_encode n) 12 2 = to_le 2 (nd_length n)" "field_at (node_encode n) 14 2 = replicate 2 0"
    "field_at (node_encode n) 16 8 = to_le 8 (nd_version n)" "field_at (node_encode n) 24 4 = to_le 4 (nd_checksum n)"
    "field_at (node_encode n) 28 4 = replicate 4 0" "field_at (node_encode n) 32 32 = nd_name n"
  using assms
  by (simp_all add: node_encode_def Let_def nth_list_update slice_list_update)

lemma padded_name:
  assumes "length b = 64" and "k \<le> 32" and "\<not> any_nonzero (drop (32 + k) b)"
  shows "put (replicate 32 0) 0 (field_at b 32 k) = field_at b 32 32"
proof -
  have "drop (32 + k) b = replicate (32 - k) 0" using assms(1,3) not_any_nonzero [of "drop (32 + k) b"] by simp
  moreover have "drop 32 b = take k (drop 32 b) @ drop (32 + k) b"
    by (metis add.commute append_take_drop_id drop_drop)
  ultimately show ?thesis using assms(1,2) by (simp add: put_def field_at_def)
qed

lemma node_decode_Ok:
  assumes "node_decode b = Ok n" and "b \<noteq> replicate 64 0"
  shows "length b = 64" "b ! 0 = kind_tag (nd_kind n)" "b ! 1 = nd_space n" "b ! 2 = nd_bank n"
    "b ! 3 = nd_name_length n" "u32_at b 4 = nd_parent n" "u32_at b 8 = nd_id n" "u16_at b 12 = nd_length n"
    "field_at b 14 2 = replicate 2 0" "u64_at b 16 = nd_version n" "u32_at b 24 = nd_checksum n"
    "field_at b 28 4 = replicate 4 0" "field_at b 32 32 = nd_name n" "node_ok n"
proof -
  let ?k = "if b ! 0 = 1 then KFile else KDirectory" and ?len = "unat (b ! 3)"
  have len: "length b = 64" and tag: "b ! 0 = 1 \<or> b ! 0 = 2"
    and g: "1 \<le> b ! 1" "b ! 1 \<le> 4" "\<not> b ! 2 > 1" "1 \<le> b ! 3" "b ! 3 \<le> 31" "unat (u16_at b 12) \<le> max_file"
      "field_at b 14 2 = replicate 2 0" "field_at b 28 4 = replicate 4 0" "\<not> any_nonzero (drop (32 + ?len) b)"
    using assms by (auto simp: node_decode_def Let_def split: if_splits)
  obtain m where m: "node_new (u32_at b 8) (u32_at b 4) (b ! 1) ?k (field_at b 32 ?len) (u64_at b 16) = Ok m"
    "n = m\<lparr>nd_length := u16_at b 12, nd_bank := b ! 2, nd_checksum := u32_at b 24\<rparr>"
    "nd_id n \<noteq> 0" "nd_version n \<noteq> 0" "?k = KDirectory \<Longrightarrow> nd_length n = 0 \<and> nd_checksum n = 0 \<and> nd_bank n = 0"
    using assms len tag g by (auto simp: node_decode_def Let_def and_then_Ok_iff split: if_splits)
  note mm = node_new_Ok [OF m(1)]
  have l31: "?len \<le> 31" using g(5) by (simp add: word_le_nat_alt)
  have name: "nd_name n = field_at b 32 32"
    using padded_name [OF len _ g(9)] l31 mm(11) m(2) by simp
  have nlen: "nd_name_length n = b ! 3" using mm(12) m(2) len l31 by simp
  have kn: "nd_kind n = ?k" using m(2) mm(4) by simp
  show "length b = 64" "b ! 1 = nd_space n" "b ! 2 = nd_bank n" "u32_at b 4 = nd_parent n" "u32_at b 8 = nd_id n"
    "u16_at b 12 = nd_length n" "u64_at b 16 = nd_version n" "u32_at b 24 = nd_checksum n"
    "b ! 3 = nd_name_length n" "field_at b 32 32 = nd_name n" "field_at b 14 2 = replicate 2 0"
    "field_at b 28 4 = replicate 4 0"
    using len m(2) mm g(7,8) name nlen by simp_all
  show "b ! 0 = kind_tag (nd_kind n)" using kn tag by auto
  have nn: "node_name n = field_at b 32 ?len"
    unfolding node_name_def name nlen using l31 by (simp add: field_at_def)
  have "nd_name n = put (replicate 32 0) 0 (node_name n)" unfolding nn using mm(11) m(2) by simp
  then show "node_ok n"
    using m(3-5) mm(3,7) m(2) kn g(1-3,5,6) nlen nn by (auto simp: node_ok_def)
qed

definition node_layout :: "nat list" where
  "node_layout = [4, 4, 4, 2, 2, 8, 4, 4, 32]"

lemma node_encode_eqI:
  assumes "length (nd_name n) = 32" and "length b = 64" and "b ! 0 = kind_tag (nd_kind n)" and "b ! 1 = nd_space n"
    and "b ! 2 = nd_bank n" and "b ! 3 = nd_name_length n" and "u32_at b 4 = nd_parent n" and "u32_at b 8 = nd_id n"
    and "u16_at b 12 = nd_length n" and "field_at b 14 2 = replicate 2 0" and "u64_at b 16 = nd_version n"
    and "u32_at b 24 = nd_checksum n" and "field_at b 28 4 = replicate 4 0" and "field_at b 32 32 = nd_name n"
  shows "node_encode n = b"
proof -
  note f = node_encode_fields [OF assms(1)]
  have "field_at (node_encode n) 0 4 = field_at b 0 4"
    using f(1-5) assms(2-6) by (simp add: field_at_four)
  then have "layout 0 node_layout (node_encode n) = layout 0 node_layout b"
    using assms(2,7-14) f(1,6-13) by (simp add: node_layout_def field_of_read del: field_of_read(2) [of 0])
  then have "take 64 (node_encode n) = b"
    by (rule eq_by_fields [rotated 2]) (simp_all add: node_layout_def assms(2))
  then show ?thesis by (simp add: f(1))
qed

lemma empty_node_simps [simp]: "nd_kind empty_node = KEmpty" "length (nd_name empty_node) = 32"
  "node_encode empty_node = replicate 64 0" "node_decode (replicate 64 0) = Ok empty_node" "node_ok empty_node"
proof -
  show "node_encode empty_node = replicate 64 0"
    by (rule node_encode_eqI) (simp_all add: empty_node_def field_reads)
qed (simp_all add: empty_node_def node_decode_def node_ok_def)

lemma node_ok_name_length: "node_ok n \<Longrightarrow> length (nd_name n) = 32"
proof (cases "nd_kind n = KEmpty")
  case False
  assume "node_ok n"
  then have n: "nd_name n = put (replicate 32 0) 0 (node_name n)" and v: "valid_name (node_name n) = Ok ()"
    using False by (auto simp: node_ok_def)
  show ?thesis using valid_nameD [OF v] by (subst n) simp
qed (simp add: node_ok_def)

interpretation node_codec: canonical_codec node_encode node_decode node_ok
proof (unfold_locales, goal_cases)
  case (1 n)
  show ?case
  proof (cases "nd_kind n = KEmpty")
    case True
    then show ?thesis using 1 by (simp add: node_ok_def)
  next
    case False
    note f = node_encode_fields [OF node_ok_name_length [OF 1]]
    have v: "valid_name (node_name n) = Ok ()" and padded: "nd_name n = put (replicate 32 0) 0 (node_name n)"
      and g: "nd_id n \<noteq> 0" "nd_version n \<noteq> 0" "1 \<le> nd_space n" "nd_space n \<le> 4" "nd_bank n \<le> 1"
        "unat (nd_length n) \<le> max_file" "nd_name_length n \<le> 31"
        "nd_kind n = KDirectory \<longrightarrow> nd_length n = 0 \<and> nd_checksum n = 0 \<and> nd_bank n = 0"
      using 1 False by (auto simp: node_ok_def)
    let ?k = "unat (nd_name_length n)" and ?b = "node_encode n"
    have k: "?k \<le> 31" using g(7) by (simp add: word_le_nat_alt)
    have nn: "node_name n = field_at ?b 32 ?k" using k by (simp add: node_name_def field_at_def flip: f(13))
    have len: "length (node_name n) = ?k" using k node_ok_name_length [OF 1] by (simp add: node_name_def)
    then have k1: "1 \<le> nd_name_length n" using valid_nameD [OF v] by (simp add: word_le_nat_alt)
    have "drop (32 + ?k) ?b = drop ?k (field_at ?b 32 32)" using f(1) by (simp add: field_at_def add.commute)
    also have "\<dots> = drop ?k (put (replicate 32 0) 0 (node_name n))" using f(13) padded by simp
    also have "\<dots> = replicate (32 - ?k) 0" using len k by (simp add: put_def)
    finally have rest: "\<not> any_nonzero (drop (32 + ?k) ?b)" by simp
    have ne: "?b \<noteq> replicate 64 0" using f(2) False by (cases "nd_kind n") auto
    have tag: "kind_tag (nd_kind n) = 1 \<or> kind_tag (nd_kind n) = 2"
      "(if kind_tag (nd_kind n) = 1 then KFile else KDirectory) = nd_kind n" using False by (cases "nd_kind n"; simp)+
    have new: "node_new (nd_id n) (nd_parent n) (nd_space n) (nd_kind n) (node_name n) (nd_version n) =
        Ok (n\<lparr>nd_length := 0, nd_bank := 0, nd_checksum := 0\<rparr>)"
      using v padded len by (cases n) (simp add: node_new_def empty_node_def)
    have same: "n\<lparr>nd_length := nd_length n, nd_bank := nd_bank n, nd_checksum := nd_checksum n\<rparr> = n" by (cases n) simp
    have bank: "\<not> nd_bank n > 1" using g(5) by simp
    have reads: "u32_at ?b 8 = nd_id n" "u32_at ?b 4 = nd_parent n" "u64_at ?b 16 = nd_version n"
      "u16_at ?b 12 = nd_length n" "u32_at ?b 24 = nd_checksum n" using f by (simp_all add: field_reads)
    show ?thesis
      using tag(1) g(8) unfolding node_decode_def Let_def f(1-5,9,12) reads nn [symmetric] tag(2) new
      by (simp add: ne g(1-4,6,7) k1 rest bank same not_less)
  qed
next
  case (2 b n)
  then show ?case using node_decode_Ok(14) by (cases "b = replicate 64 0") auto
next
  case (3 b n)
  then show ?case
    using node_encode_eqI node_decode_Ok [OF 3] node_ok_name_length
    by (cases "b = replicate 64 0") auto
qed

section \<open>Properties\<close>

text \<open>The node decoder is exact: a 64-byte record decodes to a node precisely when the node is well
  formed (the empty node, or a live one with valid name, space, bank, version and size) and the record is
  its encoding, reserved bytes and name padding included.\<close>

theorem node_decode_exact: "node_decode b = Ok n \<longleftrightarrow> node_ok n \<and> b = node_encode n"
  by (rule node_codec.decode_iff)

end
