(* ===== verification/Recovery.thy ===== *)
theory Recovery
  imports Fs_Base
begin

text \<open>
  Durable replacement evidence, \<open>crates/fs/src/recovery\<close> and the record half of
  \<open>crates/fs/src/admission\<close>: receipts, retained records, stored admissions and the 3584-byte block that
  holds two of them, with its encoder and decoder. \<open>recovery_ok\<close> is the set of values the decoder accepts
  for a given sequence, next identity and format version; the locale interpretation \<open>recovery_codec\<close> is the
  round trip that publication relies on.
\<close>

section \<open>Receipts and admissions\<close>

abbreviation (input) retained_slots :: nat where "retained_slots \<equiv> 2"

record retry =
  rt_lineage :: bytes
  rt_epoch :: u64
  rt_key :: u64

record receipt =
  rc_retry :: retry
  rc_id :: u32
  rc_previous :: u64
  rc_committed :: u64
  rc_length :: u16

datatype admission_state = AdAdmitted | AdCancelled | AdCommitted

datatype prevention_reason = PrUnknown | PrRequested | PrVersionConflict | PrAuthorityLost

record stored =
  so_number :: u64
  so_state :: admission_state
  so_terminal :: u64
  so_prevention :: "prevention_reason option"

record retained =
  rr_subject :: u64
  rr_receipt :: receipt
  rr_namespace :: "(u32 \<times> u64) option"
  rr_bytes :: bytes
  rr_admission :: "stored option"

record recovery =
  rv_lineage :: bytes
  rv_epoch :: u64
  rv_scoped :: bool
  rv_admissions :: bool
  rv_reasons :: bool
  rv_records :: "retained slots"

definition recovery_new :: "bytes \<Rightarrow> (fs_error, recovery) outcome" where
  "recovery_new l =
     (if l = replicate 16 0 then Err FsInvalid
      else Ok \<lparr>rv_lineage = l, rv_epoch = 1, rv_scoped = False, rv_admissions = False, rv_reasons = False,
              rv_records = replicate retained_slots None\<rparr>)"

definition recovery_find :: "recovery \<Rightarrow> u64 \<Rightarrow> retry \<Rightarrow> (fs_error, retained option) outcome" where
  "recovery_find v subject rt =
     (if subject = 0 \<or> rt_key rt = 0 \<or> rt_epoch rt = 0 then Err FsInvalid
      else if rt_lineage rt \<noteq> rv_lineage v then Err FsLineage
      else case find (\<lambda>r. rr_namespace r = None \<and> rr_subject r = subject \<and> rc_retry (rr_receipt r) = rt)
                 (flatten (rv_records v)) of
        Some r \<Rightarrow> Ok (Some r)
      | None \<Rightarrow> if rt_epoch rt \<noteq> rv_epoch v then Err FsExpiredEpoch else Ok None)"

section \<open>Admission codec\<close>

primrec state_tag :: "admission_state \<Rightarrow> u8" where
  "state_tag AdAdmitted = 1"
| "state_tag AdCancelled = 2"
| "state_tag AdCommitted = 3"

primrec reason_tag :: "prevention_reason \<Rightarrow> u8" where
  "reason_tag PrUnknown = 0"
| "reason_tag PrRequested = 1"
| "reason_tag PrVersionConflict = 2"
| "reason_tag PrAuthorityLost = 3"

definition stored_encode :: "stored \<Rightarrow> bytes \<Rightarrow> bytes" where
  "stored_encode a p =
     (let p = put p 64 (to_le 8 (so_number a)); p = put p 72 (to_le 8 (so_terminal a)) in
      p[80 := state_tag (so_state a), 81 := (case so_prevention a of None \<Rightarrow> 0 | Some r \<Rightarrow> reason_tag r)])"

definition state_parse :: "u8 \<Rightarrow> admission_state option" where
  "state_parse b =
     (if b = 1 then Some AdAdmitted else if b = 2 then Some AdCancelled else if b = 3 then Some AdCommitted else None)"

definition reason_parse :: "u8 \<Rightarrow> prevention_reason option" where
  "reason_parse b =
     (if b = 0 then Some PrUnknown else if b = 1 then Some PrRequested else if b = 2 then Some PrVersionConflict
      else if b = 3 then Some PrAuthorityLost else None)"

definition terminal_bad :: "admission_state \<Rightarrow> u64 \<Rightarrow> u64 \<Rightarrow> u64 \<Rightarrow> u64 \<Rightarrow> bool" where
  "terminal_bad st terminal number sequence committed =
     (case st of
        AdAdmitted \<Rightarrow> terminal \<noteq> 0 \<or> committed \<noteq> 0
      | AdCancelled \<Rightarrow> terminal \<le> number \<or> terminal > sequence \<or> committed \<noteq> 0
      | AdCommitted \<Rightarrow> terminal \<le> number \<or> terminal > sequence \<or> committed \<noteq> terminal)"

definition stored_decode ::
  "bytes \<Rightarrow> u8 \<Rightarrow> receipt \<Rightarrow> (u32 \<times> u64) option \<Rightarrow> u64 \<Rightarrow> (fs_error, stored option) outcome" where
  "stored_decode p version receipt ns sequence =
     (if \<not> any_nonzero (field_at p 64 448) then Ok None
      else if version < 4 \<or> version = 4 \<and> p ! 81 \<noteq> 0 \<or> any_nonzero (field_at p 82 430) then Err FsCorrupt
      else let number = u64_at p 64; terminal = u64_at p 72 in
        and_then (ok_or FsCorrupt (state_parse (p ! 80))) (\<lambda>st.
        and_then (if st = AdCancelled then and_then (ok_or FsCorrupt (reason_parse (p ! 81))) (\<lambda>r. Ok (Some r))
                  else if p ! 81 = 0 then Ok None else Err FsCorrupt) (\<lambda>prevention.
        if number = 0 \<or> number > sequence \<or> rc_previous receipt \<ge> number \<or>
           (case ns of None \<Rightarrow> True | Some (_, i) \<Rightarrow> i = 0 \<or> i > number)
        then Err FsCorrupt
        else if terminal_bad st terminal number sequence (rc_committed receipt) then Err FsCorrupt
        else Ok (Some \<lparr>so_number = number, so_state = st, so_terminal = terminal, so_prevention = prevention\<rparr>))))"

section \<open>Block codec\<close>

definition recovery_magic :: "bool \<Rightarrow> bool \<Rightarrow> bool \<Rightarrow> bytes" where
  "recovery_magic reasons admissions scoped =
     [0x52, 0x55, 0x53, 0x54, 0x52, 0x45, 0x43,
      if reasons then 0x34 else if admissions then 0x33 else if scoped then 0x32 else 0x31]"

definition retained_encode :: "retained \<Rightarrow> bytes \<Rightarrow> bytes" where
  "retained_encode r p =
     (let c = rr_receipt r;
          p = put p 0 (to_le 8 (rr_subject r)); p = put p 8 (to_le 8 (rt_epoch (rc_retry c)));
          p = put p 16 (to_le 8 (rt_key (rc_retry c))); p = put p 24 (to_le 4 (rc_id c));
          p = put p 28 (to_le 2 (rc_length c)); p = put p 32 (to_le 8 (rc_previous c));
          p = put p 40 (to_le 8 (rc_committed c));
          p = (case rr_namespace r of None \<Rightarrow> p
               | Some (workspace, i) \<Rightarrow> put (put p 48 (to_le 4 workspace)) 56 (to_le 8 i));
          p = (case rr_admission r of None \<Rightarrow> p | Some a \<Rightarrow> stored_encode a p)
      in put p 512 (rr_bytes r))"

definition slot_at :: "nat \<Rightarrow> nat" where
  "slot_at slot = 512 + slot * 1536"

definition recovery_encode :: "recovery \<Rightarrow> bytes" where
  "recovery_encode v =
     (let b = replicate 3584 0; b = put b 0 (recovery_magic (rv_reasons v) (rv_admissions v) (rv_scoped v));
          b = put b 8 (rv_lineage v); b = put b 24 (to_le 8 (rv_epoch v))
      in foldl (\<lambda>b slot. case rv_records v ! slot of None \<Rightarrow> b
           | Some r \<Rightarrow> put b (slot_at slot) (retained_encode r (field_at b (slot_at slot) 1536)))
         b [0..<length (rv_records v)])"

definition marks :: "receipt \<Rightarrow> stored option \<Rightarrow> u64 list" where
  "marks c a = [rc_committed c, case a of None \<Rightarrow> 0 | Some a \<Rightarrow> so_number a,
     case a of None \<Rightarrow> 0 | Some a \<Rightarrow> so_terminal a]"

definition clashes :: "retained \<Rightarrow> retained \<Rightarrow> bool" where
  "clashes q r \<longleftrightarrow>
     list_ex (\<lambda>n. n \<noteq> 0 \<and> n \<in> set (marks (rr_receipt r) (rr_admission r))) (marks (rr_receipt q) (rr_admission q)) \<or>
     rr_subject r = rr_subject q \<and> map_option fst (rr_namespace r) = map_option fst (rr_namespace q) \<and>
     rc_retry (rr_receipt r) = rc_retry (rr_receipt q)"

definition retained_bad :: "recovery \<Rightarrow> retained \<Rightarrow> bytes \<Rightarrow> u64 \<Rightarrow> u32 \<Rightarrow> bool" where
  "retained_bad v q p sequence nxt \<longleftrightarrow>
     (let c = rr_receipt q in
      rr_subject q = 0 \<or> rt_epoch (rc_retry c) \<noteq> rv_epoch v \<or> rt_key (rc_retry c) = 0 \<or> rc_id c \<le> 4 \<or> rc_id c \<ge> nxt \<or>
      rc_previous c = 0 \<or> rr_admission q = None \<and> rc_previous c \<ge> rc_committed c \<or> rc_committed c > sequence \<or>
      unat (rc_length c) > max_file \<or> field_at p 30 2 \<noteq> replicate 2 0 \<or> any_nonzero (field_at p 52 4) \<or>
      (case rr_namespace q of None \<Rightarrow> False
       | Some (w, i) \<Rightarrow> \<not> rv_scoped v \<or> w = 0 \<or> w \<ge> nxt \<or> w = rc_id c \<or> i = 0 \<or>
           i > (case rr_admission q of None \<Rightarrow> rc_committed c | Some a \<Rightarrow> so_number a)) \<or>
      any_nonzero (drop (512 + unat (rc_length c)) p) \<or>
      list_ex (clashes q) (flatten (rv_records v)))"

definition slot_decode :: "recovery \<Rightarrow> bytes \<Rightarrow> u64 \<Rightarrow> u32 \<Rightarrow> u8 \<Rightarrow> (fs_error, retained option) outcome" where
  "slot_decode v p sequence nxt version =
     (if \<not> any_nonzero p then Ok None
      else
        let workspace = u32_at p 48; i = u64_at p 56;
            ns = (if workspace = 0 \<and> i = 0 then None else Some (workspace, i));
            c = \<lparr>rc_retry = \<lparr>rt_lineage = rv_lineage v, rt_epoch = u64_at p 8, rt_key = u64_at p 16\<rparr>,
                 rc_id = u32_at p 24, rc_previous = u64_at p 32, rc_committed = u64_at p 40, rc_length = u16_at p 28\<rparr>
        in and_then (stored_decode p version c ns sequence) (\<lambda>admission.
          let q = \<lparr>rr_subject = u64_at p 0, rr_receipt = c, rr_namespace = ns, rr_bytes = drop 512 p, rr_admission = admission\<rparr>
          in if retained_bad v q p sequence nxt then Err FsCorrupt else Ok (Some q)))"

primrec slots_decode :: "bytes \<Rightarrow> u64 \<Rightarrow> u32 \<Rightarrow> u8 \<Rightarrow> recovery \<Rightarrow> nat list \<Rightarrow> (fs_error, recovery) outcome" where
  "slots_decode b sequence nxt version v [] = Ok v"
| "slots_decode b sequence nxt version v (slot # slots) =
     and_then (slot_decode v (field_at b (slot_at slot) 1536) sequence nxt version) (\<lambda>r.
       slots_decode b sequence nxt version
         (case r of None \<Rightarrow> v | Some q \<Rightarrow> v\<lparr>rv_records := (rv_records v)[slot := Some q]\<rparr>) slots)"

definition recovery_decode :: "bytes \<Rightarrow> u64 \<Rightarrow> u32 \<Rightarrow> u8 \<Rightarrow> (fs_error, recovery) outcome" where
  "recovery_decode b sequence nxt version =
     (let scoped = (version \<ge> 3); admissions = (version \<ge> 4); reasons = (version = 5) in
      if field_at b 0 8 \<noteq> recovery_magic reasons admissions scoped \<or> any_nonzero (field_at b 32 480) then Err FsCorrupt
      else and_then (map_err (\<lambda>_. FsCorrupt) (recovery_new (field_at b 8 16))) (\<lambda>v.
        let v = v\<lparr>rv_scoped := scoped, rv_admissions := admissions, rv_reasons := reasons, rv_epoch := u64_at b 24\<rparr> in
        if rv_epoch v = 0 \<or> rv_epoch v > sequence then Err FsCorrupt
        else slots_decode b sequence nxt version v [0..<length (rv_records v)]))"

section \<open>What the decoder accepts\<close>

definition reason_byte :: "stored \<Rightarrow> u8" where
  "reason_byte a = (case so_prevention a of None \<Rightarrow> 0 | Some r \<Rightarrow> reason_tag r)"

definition admission_ok :: "u64 \<Rightarrow> u8 \<Rightarrow> receipt \<Rightarrow> (u32 \<times> u64) option \<Rightarrow> stored \<Rightarrow> bool" where
  "admission_ok sequence version c ns a \<longleftrightarrow>
     4 \<le> version \<and> (version = 4 \<longrightarrow> reason_byte a = 0) \<and> (so_state a = AdCancelled \<longleftrightarrow> so_prevention a \<noteq> None) \<and>
     so_number a \<noteq> 0 \<and> so_number a \<le> sequence \<and> rc_previous c < so_number a \<and>
     (\<exists>w i. ns = Some (w, i) \<and> i \<noteq> 0 \<and> i \<le> so_number a) \<and>
     \<not> terminal_bad (so_state a) (so_terminal a) (so_number a) sequence (rc_committed c)"

definition retained_ok :: "recovery \<Rightarrow> u64 \<Rightarrow> u32 \<Rightarrow> u8 \<Rightarrow> retained \<Rightarrow> bool" where
  "retained_ok v sequence nxt version q \<longleftrightarrow>
     (let c = rr_receipt q in
      rr_subject q \<noteq> 0 \<and> rt_lineage (rc_retry c) = rv_lineage v \<and> rt_epoch (rc_retry c) = rv_epoch v \<and>
      rt_key (rc_retry c) \<noteq> 0 \<and> 4 < rc_id c \<and> rc_id c < nxt \<and> rc_previous c \<noteq> 0 \<and>
      (rr_admission q = None \<longrightarrow> rc_previous c < rc_committed c) \<and> rc_committed c \<le> sequence \<and>
      unat (rc_length c) \<le> max_file \<and> length (rr_bytes q) = max_file \<and>
      \<not> any_nonzero (drop (unat (rc_length c)) (rr_bytes q)) \<and>
      (\<forall>w i. rr_namespace q = Some (w, i) \<longrightarrow> rv_scoped v \<and> w \<noteq> 0 \<and> w < nxt \<and> w \<noteq> rc_id c \<and> i \<noteq> 0 \<and>
         i \<le> (case rr_admission q of None \<Rightarrow> rc_committed c | Some a \<Rightarrow> so_number a)) \<and>
      (\<forall>a. rr_admission q = Some a \<longrightarrow> admission_ok sequence version c (rr_namespace q) a))"

definition recovery_ok :: "u64 \<Rightarrow> u32 \<Rightarrow> u8 \<Rightarrow> recovery \<Rightarrow> bool" where
  "recovery_ok sequence nxt version v \<longleftrightarrow>
     length (rv_lineage v) = 16 \<and> rv_lineage v \<noteq> replicate 16 0 \<and> rv_epoch v \<noteq> 0 \<and> rv_epoch v \<le> sequence \<and>
     rv_scoped v = (version \<ge> 3) \<and> rv_admissions v = (version \<ge> 4) \<and> rv_reasons v = (version = 5) \<and>
     length (rv_records v) = retained_slots \<and>
     (\<forall>q\<in>set (flatten (rv_records v)). retained_ok v sequence nxt version q) \<and>
     (\<forall>q r. rv_records v ! 0 = Some r \<longrightarrow> rv_records v ! 1 = Some q \<longrightarrow> \<not> clashes q r)"

section \<open>Round trip\<close>

lemma state_parse_tag [simp]: "state_parse (state_tag st) = Some st"
  by (cases st) (simp_all add: state_parse_def)

lemma reason_parse_tag [simp]: "reason_parse (reason_tag r) = Some r"
  by (cases r) (simp_all add: reason_parse_def)

lemma stored_encode_fields:
  assumes "length p = 1536"
  shows "length (stored_encode a p) = 1536" "field_at (stored_encode a p) 64 8 = to_le 8 (so_number a)"
    "field_at (stored_encode a p) 72 8 = to_le 8 (so_terminal a)" "stored_encode a p ! 80 = state_tag (so_state a)"
    "stored_encode a p ! 81 = reason_byte a" "field_at (stored_encode a p) 82 430 = field_at p 82 430"
    "i + n \<le> 64 \<Longrightarrow> field_at (stored_encode a p) i n = field_at p i n"
  using assms by (simp_all add: stored_encode_def reason_byte_def Let_def)

lemma retained_encode_fields:
  assumes "length (rr_bytes q) = max_file"
  shows "length (retained_encode q (replicate 1536 0)) = 1536"
    "u64_at (retained_encode q (replicate 1536 0)) 0 = rr_subject q"
    "u64_at (retained_encode q (replicate 1536 0)) 8 = rt_epoch (rc_retry (rr_receipt q))"
    "u64_at (retained_encode q (replicate 1536 0)) 16 = rt_key (rc_retry (rr_receipt q))"
    "u32_at (retained_encode q (replicate 1536 0)) 24 = rc_id (rr_receipt q)"
    "u16_at (retained_encode q (replicate 1536 0)) 28 = rc_length (rr_receipt q)"
    "field_at (retained_encode q (replicate 1536 0)) 30 2 = replicate 2 0"
    "u64_at (retained_encode q (replicate 1536 0)) 32 = rc_previous (rr_receipt q)"
    "u64_at (retained_encode q (replicate 1536 0)) 40 = rc_committed (rr_receipt q)"
    "u32_at (retained_encode q (replicate 1536 0)) 48 = (case rr_namespace q of None \<Rightarrow> 0 | Some (w, i) \<Rightarrow> w)"
    "field_at (retained_encode q (replicate 1536 0)) 52 4 = replicate 4 0"
    "u64_at (retained_encode q (replicate 1536 0)) 56 = (case rr_namespace q of None \<Rightarrow> 0 | Some (w, i) \<Rightarrow> i)"
    "drop 512 (retained_encode q (replicate 1536 0)) = rr_bytes q"
  using assms
  by (simp_all add: retained_encode_def Let_def field_reads stored_encode_fields drop_as_slice split: option.splits prod.splits)

lemma retained_encode_admission:
  assumes "length (rr_bytes q) = max_file"
  shows "rr_admission q = None \<Longrightarrow> field_at (retained_encode q (replicate 1536 0)) 64 448 = replicate 448 0"
    "rr_admission q = Some a \<Longrightarrow> u64_at (retained_encode q (replicate 1536 0)) 64 = so_number a"
    "rr_admission q = Some a \<Longrightarrow> u64_at (retained_encode q (replicate 1536 0)) 72 = so_terminal a"
    "rr_admission q = Some a \<Longrightarrow> retained_encode q (replicate 1536 0) ! 80 = state_tag (so_state a)"
    "rr_admission q = Some a \<Longrightarrow> retained_encode q (replicate 1536 0) ! 81 = reason_byte a"
    "rr_admission q = Some a \<Longrightarrow> field_at (retained_encode q (replicate 1536 0)) 82 430 = replicate 430 0"
  using assms
  by (simp_all add: retained_encode_def Let_def field_reads stored_encode_fields split: option.splits prod.splits)

lemma stored_decode_encode:
  assumes "length (rr_bytes q) = max_file"
    and "\<And>a. rr_admission q = Some a \<Longrightarrow> admission_ok sequence version c (rr_namespace q) a"
  shows "stored_decode (retained_encode q (replicate 1536 0)) version c (rr_namespace q) sequence = Ok (rr_admission q)"
proof (cases "rr_admission q")
  case None
  then show ?thesis using retained_encode_admission(1) [OF assms(1)] by (simp add: stored_decode_def)
next
  case (Some a)
  let ?p = "retained_encode q (replicate 1536 0)"
  note ok = assms(2) [OF Some, unfolded admission_ok_def] and f = retained_encode_admission(2-6) [OF assms(1) Some]
  have "any_nonzero (field_at ?p 64 448)"
  proof (rule ccontr)
    assume "\<not> any_nonzero (field_at ?p 64 448)"
    then have "field_at ?p 64 8 = replicate 8 0"
      by (rule zeros_within) (simp_all add: retained_encode_fields(1) [OF assms(1)])
    then show False using f(1) ok by (simp add: u64_at_def)
  qed
  moreover have "(if so_state a = AdCancelled then and_then (ok_or FsCorrupt (reason_parse (reason_byte a))) (\<lambda>r. Ok (Some r))
      else if reason_byte a = 0 then Ok None else Err FsCorrupt) = Ok (so_prevention a)"
    using ok by (cases "so_prevention a") (auto simp: reason_byte_def)
  moreover obtain w i where "rr_namespace q = Some (w, i)" "i \<noteq> 0" "i \<le> so_number a" using ok by blast
  moreover have "\<not> version < 4" "\<not> sequence < so_number a" "\<not> so_number a \<le> rc_previous c" using ok by auto
  ultimately show ?thesis
    using ok unfolding stored_decode_def Let_def f Some by (simp add: not_less)
qed

lemma slot_decode_encode:
  assumes "retained_ok v sequence nxt version q" and "rv_lineage w = rv_lineage v" and "rv_epoch w = rv_epoch v"
    and "rv_scoped w = rv_scoped v" and "\<And>r. r \<in> set (flatten (rv_records w)) \<Longrightarrow> \<not> clashes q r"
  shows "slot_decode w (retained_encode q (replicate 1536 0)) sequence nxt version = Ok (Some q)"
proof -
  let ?p = "retained_encode q (replicate 1536 0)" and ?c = "rr_receipt q"
  note ok = assms(1) [unfolded retained_ok_def Let_def]
  then have len: "length (rr_bytes q) = max_file" by blast
  note f = retained_encode_fields [OF len]
  have nz: "any_nonzero ?p"
  proof (rule ccontr)
    assume "\<not> any_nonzero ?p"
    then have "\<not> any_nonzero (field_at ?p 0 1536)" using f(1) by simp
    then have "field_at ?p 0 8 = replicate 8 0" by (rule zeros_within) (simp_all add: f(1))
    then show False using f(2) ok by (simp add: u64_at_def)
  qed
  have ns: "(if u32_at ?p 48 = 0 \<and> u64_at ?p 56 = 0 then None else Some (u32_at ?p 48, u64_at ?p 56)) = rr_namespace q"
    using f(10,12) ok by (cases "rr_namespace q") auto
  have c: "\<lparr>rc_retry = \<lparr>rt_lineage = rv_lineage w, rt_epoch = u64_at ?p 8, rt_key = u64_at ?p 16\<rparr>, rc_id = u32_at ?p 24,
      rc_previous = u64_at ?p 32, rc_committed = u64_at ?p 40, rc_length = u16_at ?p 28\<rparr> = ?c"
  proof -
    have l: "rv_lineage w = rt_lineage (rc_retry ?c)" using ok assms(2) by simp
    show ?thesis unfolding f(3-6,8,9) l by simp
  qed
  have q: "\<lparr>rr_subject = u64_at ?p 0, rr_receipt = ?c, rr_namespace = rr_namespace q, rr_bytes = drop 512 ?p,
      rr_admission = rr_admission q\<rparr> = q"
    unfolding f(2,13) by simp
  have tail: "drop (512 + unat (rc_length ?c)) ?p = drop (unat (rc_length ?c)) (rr_bytes q)"
    using f(13) by (metis add.commute drop_drop)
  have "\<not> retained_bad w q ?p sequence nxt"
    using ok assms(3-5) f(7,11) unfolding retained_bad_def Let_def tail
    by (auto simp: list_ex_iff not_less not_le split: option.splits)
  then show ?thesis
    using nz stored_decode_encode [OF len, of sequence version ?c] ok
    unfolding slot_decode_def Let_def ns c by (simp add: q)
qed

lemma recovery_encode_parts:
  assumes "length (rv_lineage v) = 16" and "rv_records v = [x, y]" and "\<And>q. q \<in> set (flatten [x, y]) \<Longrightarrow> length (rr_bytes q) = max_file"
  shows "length (recovery_encode v) = 3584"
    "field_at (recovery_encode v) 0 8 = recovery_magic (rv_reasons v) (rv_admissions v) (rv_scoped v)"
    "field_at (recovery_encode v) 8 16 = rv_lineage v" "u64_at (recovery_encode v) 24 = rv_epoch v"
    "field_at (recovery_encode v) 32 480 = replicate 480 0"
    "field_at (recovery_encode v) 512 1536 = (case x of None \<Rightarrow> replicate 1536 0 | Some q \<Rightarrow> retained_encode q (replicate 1536 0))"
    "field_at (recovery_encode v) 2048 1536 = (case y of None \<Rightarrow> replicate 1536 0 | Some q \<Rightarrow> retained_encode q (replicate 1536 0))"
proof -
  have magic: "length (recovery_magic a b c) = 8" for a b c by (simp add: recovery_magic_def)
  have len: "length (retained_encode q (replicate 1536 0)) = 1536" if "q \<in> set (flatten [x, y])" for q
    using retained_encode_fields(1) [OF assms(3) [OF that]] .
  show "length (recovery_encode v) = 3584"
    "field_at (recovery_encode v) 0 8 = recovery_magic (rv_reasons v) (rv_admissions v) (rv_scoped v)"
    "field_at (recovery_encode v) 8 16 = rv_lineage v" "u64_at (recovery_encode v) 24 = rv_epoch v"
    "field_at (recovery_encode v) 32 480 = replicate 480 0"
    "field_at (recovery_encode v) 512 1536 = (case x of None \<Rightarrow> replicate 1536 0 | Some q \<Rightarrow> retained_encode q (replicate 1536 0))"
    "field_at (recovery_encode v) 2048 1536 = (case y of None \<Rightarrow> replicate 1536 0 | Some q \<Rightarrow> retained_encode q (replicate 1536 0))"
    using assms(1) len
    by (cases x; cases y; simp add: recovery_encode_def assms(2) Let_def slot_at_def magic field_reads)+
qed

lemma recovery_decode_encode:
  assumes "recovery_ok sequence nxt version v"
  shows "recovery_decode (recovery_encode v) sequence nxt version = Ok v" and "length (recovery_encode v) = 3584"
proof -
  note ok = assms [unfolded recovery_ok_def]
  obtain x y where xy: "rv_records v = [x, y]"
    using ok by (auto simp: length_Suc_conv numeral_2_eq_2)
  have bytes: "length (rr_bytes q) = max_file" if "q \<in> set (flatten [x, y])" for q
    using ok that unfolding xy by (auto simp: retained_ok_def Let_def)
  note f = recovery_encode_parts [OF _ xy bytes]
  let ?w = "\<lparr>rv_lineage = rv_lineage v, rv_epoch = rv_epoch v, rv_scoped = rv_scoped v, rv_admissions = rv_admissions v,
    rv_reasons = rv_reasons v, rv_records = [None, None]\<rparr>"
  have one: "slot_decode w (case z of None \<Rightarrow> replicate 1536 0 | Some q \<Rightarrow> retained_encode q (replicate 1536 0)) sequence nxt version = Ok z"
    if "z = None \<or> z \<in> {x, y}" "rv_lineage w = rv_lineage v" "rv_epoch w = rv_epoch v" "rv_scoped w = rv_scoped v"
      "\<And>q r. z = Some q \<Longrightarrow> r \<in> set (flatten (rv_records w)) \<Longrightarrow> \<not> clashes q r" for z w
  proof (cases z)
    case None
    then show ?thesis by (simp add: slot_decode_def)
  next
    case (Some q)
    then have "q \<in> set (flatten (rv_records v))" using that(1) xy by (auto split: option.splits)
    then have "retained_ok v sequence nxt version q" using ok by blast
    then show ?thesis using slot_decode_encode that(2-5) Some by auto
  qed
  have first: "slot_decode ?w (field_at (recovery_encode v) 512 1536) sequence nxt version = Ok x"
    using f(6) ok one [of x ?w] by simp
  let ?w' = "?w\<lparr>rv_records := [x, None]\<rparr>"
  have "\<not> clashes q r" if "y = Some q" "r \<in> set (flatten (rv_records ?w'))" for q r
    using ok that xy by (auto split: option.splits)
  then have second: "slot_decode ?w' (field_at (recovery_encode v) 2048 1536) sequence nxt version = Ok y"
    using f(7) ok one [of y ?w'] by simp
  have v: "?w\<lparr>rv_records := [x, y]\<rparr> = v" using xy by simp
  have "slots_decode (recovery_encode v) sequence nxt version ?w [0, Suc 0] = Ok v"
    using first second v xy by (cases x; cases y) (simp_all add: slot_at_def)
  moreover have "[0..<2] = [0, Suc 0]" by (simp add: numeral_2_eq_2)
  ultimately show "recovery_decode (recovery_encode v) sequence nxt version = Ok v" "length (recovery_encode v) = 3584"
    using ok f by (simp_all add: recovery_decode_def Let_def recovery_new_def numeral_2_eq_2 not_less del: slots_decode.simps upt_Suc)
qed

text \<open>Publication relies on the round trip, at the sequence and version it publishes with.\<close>

interpretation recovery_codec: codec recovery_encode "\<lambda>b. recovery_decode b sequence nxt version"
    "recovery_ok sequence nxt version" for sequence nxt version
  by unfold_locales (rule recovery_decode_encode)

section \<open>Every block is accepted or reported corrupt\<close>

lemma stored_decode_error: "stored_decode p version c ns sequence \<noteq> Panic"
  "stored_decode p version c ns sequence = Err e \<Longrightarrow> e = FsCorrupt"
  unfolding stored_decode_def Let_def by (auto simp: outcome_iffs split: if_splits)

lemma stored_decode_accepted:
  assumes "stored_decode p version c ns sequence = Ok (Some a)"
  shows "admission_ok sequence version c ns a"
proof -
  have tag: "reason_parse b = Some r \<Longrightarrow> reason_tag r = b" for b r by (auto simp: reason_parse_def split: if_splits)
  obtain st pr where g: "\<not> version < 4" "version = 4 \<longrightarrow> p ! 81 = 0"
      "(if st = AdCancelled then and_then (ok_or FsCorrupt (reason_parse (p ! 81))) (\<lambda>r. Ok (Some r))
        else if p ! 81 = 0 then Ok None else Err FsCorrupt) = Ok pr"
      "u64_at p 64 \<noteq> 0" "\<not> u64_at p 64 > sequence" "\<not> rc_previous c \<ge> u64_at p 64"
      "\<not> (case ns of None \<Rightarrow> True | Some (_, i) \<Rightarrow> i = 0 \<or> i > u64_at p 64)"
      "\<not> terminal_bad st (u64_at p 72) (u64_at p 64) sequence (rc_committed c)"
      and a: "a = \<lparr>so_number = u64_at p 64, so_state = st, so_terminal = u64_at p 72, so_prevention = pr\<rparr>"
    using assms unfolding stored_decode_def Let_def by (auto simp: and_then_Ok_iff split: if_splits)
  have "reason_byte a = p ! 81" "st = AdCancelled \<longleftrightarrow> pr \<noteq> None"
    using g(3) tag unfolding a by (auto simp: reason_byte_def and_then_Ok_iff split: if_splits)
  moreover have "\<exists>w i. ns = Some (w, i) \<and> i \<noteq> 0 \<and> i \<le> u64_at p 64"
    using g(7) by (cases ns) (auto simp: not_less)
  ultimately show ?thesis using g(1,2,4-6,8) unfolding admission_ok_def a by (auto simp: not_less not_le)
qed

lemma slot_decode_error: "slot_decode v p sequence nxt version \<noteq> Panic"
  "slot_decode v p sequence nxt version = Err e \<Longrightarrow> e = FsCorrupt"
  using stored_decode_error unfolding slot_decode_def Let_def by (auto simp: outcome_iffs split: if_splits)

lemma slot_decode_accepted:
  assumes "slot_decode v p sequence nxt version = Ok (Some q)" and "length p = 1536"
  shows "retained_ok v sequence nxt version q" and "r \<in> set (flatten (rv_records v)) \<Longrightarrow> \<not> clashes q r"
proof -
  let ?ns = "if u32_at p 48 = 0 \<and> u64_at p 56 = 0 then None else Some (u32_at p 48, u64_at p 56)"
  let ?c = "\<lparr>rc_retry = \<lparr>rt_lineage = rv_lineage v, rt_epoch = u64_at p 8, rt_key = u64_at p 16\<rparr>,
    rc_id = u32_at p 24, rc_previous = u64_at p 32, rc_committed = u64_at p 40, rc_length = u16_at p 28\<rparr>"
  obtain a where d: "stored_decode p version ?c ?ns sequence = Ok a" "\<not> retained_bad v q p sequence nxt"
    and q: "q = \<lparr>rr_subject = u64_at p 0, rr_receipt = ?c, rr_namespace = ?ns, rr_bytes = drop 512 p, rr_admission = a\<rparr>"
    using assms(1) unfolding slot_decode_def Let_def by (auto simp: and_then_Ok_iff simp del: if_split split: if_split_asm)
  have ad: "\<And>b. a = Some b \<Longrightarrow> admission_ok sequence version ?c ?ns b" using stored_decode_accepted d(1) by blast
  have sel: "rr_receipt q = ?c" "rr_namespace q = ?ns" "rr_admission q = a" "length (rr_bytes q) = max_file"
    "drop n (rr_bytes q) = drop (512 + n) p" for n using assms(2) by (simp_all add: q add.commute)
  note nb = d(2) [unfolded retained_bad_def Let_def]
  show "retained_ok v sequence nxt version q"
    unfolding retained_ok_def Let_def sel(5)
    using nb sel(4) ad by (auto simp: sel(1-3) not_less not_le split: option.splits if_splits)
  show "\<not> clashes q r" if "r \<in> set (flatten (rv_records v))" using nb that by (auto simp: list_ex_iff)
qed

lemma slots_decode_error: "slots_decode b sequence nxt version v ss \<noteq> Panic"
  "slots_decode b sequence nxt version v ss = Err e \<Longrightarrow> e = FsCorrupt"
  using slot_decode_error by (induction ss arbitrary: v) (auto simp: outcome_iffs)

lemma recovery_decode_error: "recovery_decode b sequence nxt version \<noteq> Panic"
  "recovery_decode b sequence nxt version = Err e \<Longrightarrow> e = FsCorrupt"
  using slots_decode_error unfolding recovery_decode_def Let_def recovery_new_def
  by (auto simp: outcome_iffs split: if_splits)

lemma retained_ok_cong:
  "rv_lineage w = rv_lineage v \<Longrightarrow> rv_epoch w = rv_epoch v \<Longrightarrow> rv_scoped w = rv_scoped v \<Longrightarrow>
   retained_ok w sequence nxt version q = retained_ok v sequence nxt version q"
  by (simp add: retained_ok_def)

lemma recovery_decode_accepted:
  assumes "recovery_decode b sequence nxt version = Ok v" and "length b = 3584"
  shows "recovery_ok sequence nxt version v"
proof -
  let ?w = "\<lparr>rv_lineage = field_at b 8 16, rv_epoch = u64_at b 24, rv_scoped = version \<ge> 3, rv_admissions = version \<ge> 4,
    rv_reasons = version = 5, rv_records = [None, None]\<rparr>"
  let ?p = "field_at b 512 1536" and ?p' = "field_at b 2048 1536"
  let ?set = "\<lambda>x y. ?w\<lparr>rv_records := [x, y]\<rparr>"
  have two: "[0..<2] = [0, Suc 0]" "replicate 2 (None :: retained option) = [None, None]" by (simp_all add: numeral_2_eq_2)
  have g: "field_at b 8 16 \<noteq> replicate 16 0" "u64_at b 24 \<noteq> 0" "\<not> u64_at b 24 > sequence"
    and s: "slots_decode b sequence nxt version ?w [0, Suc 0] = Ok v"
    using assms(1) unfolding recovery_decode_def Let_def recovery_new_def
    by (auto simp: and_then_Ok_iff two simp del: slots_decode.simps split: if_splits)
  have step: "(case r of None \<Rightarrow> ?w | Some q \<Rightarrow> ?w\<lparr>rv_records := (rv_records ?w)[0 := Some q]\<rparr>) = ?set r None" for r
    by (cases r) simp_all
  have step': "(case r of None \<Rightarrow> ?set x None | Some q \<Rightarrow> (?set x None)\<lparr>rv_records := (rv_records (?set x None))[Suc 0 := Some q]\<rparr>) = ?set x r" for r x
    by (cases r) simp_all
  obtain x where x: "slot_decode ?w ?p sequence nxt version = Ok x"
    and s': "slots_decode b sequence nxt version (?set x None) [Suc 0] = Ok v"
    using s unfolding slots_decode.simps(2) [of _ _ _ _ _ 0] and_then_Ok_iff step by (auto simp: slot_at_def simp del: slots_decode.simps)
  obtain y where y: "slot_decode (?set x None) ?p' sequence nxt version = Ok y" and v: "v = ?set x y"
    using s' unfolding slots_decode.simps and_then_Ok_iff step' by (auto simp: slot_at_def)
  have len: "length ?p = 1536" "length ?p' = 1536" using assms(2) by simp_all
  have "retained_ok v sequence nxt version q" if "q \<in> set (flatten (rv_records v))" for q
  proof -
    have "x = Some q \<or> y = Some q" using that v by (auto split: option.splits)
    then show ?thesis
    proof
      assume "x = Some q"
      then show ?thesis using slot_decode_accepted(1) [OF x [unfolded \<open>x = Some q\<close>] len(1)]
        by (subst retained_ok_cong [of _ ?w]) (simp_all add: v)
    next
      assume "y = Some q"
      then show ?thesis using slot_decode_accepted(1) [OF y [unfolded \<open>y = Some q\<close>] len(2)]
        by (subst retained_ok_cong [of _ "?set x None"]) (simp_all add: v)
    qed
  qed
  moreover have "\<not> clashes q r" if "x = Some r" "y = Some q" for q r
    using slot_decode_accepted(2) [OF y [unfolded that(2)] len(2), of r] that(1) by simp
  ultimately show ?thesis using g assms(2) v by (auto simp: recovery_ok_def not_less)
qed

section \<open>Later sequences and identities\<close>

lemma admission_ok_mono: "admission_ok s version c ns a \<Longrightarrow> s \<le> t \<Longrightarrow> admission_ok t version c ns a"
  by (auto simp: admission_ok_def terminal_bad_def split: admission_state.splits)

lemma retained_ok_mono:
  "retained_ok v s n version q \<Longrightarrow> s \<le> t \<Longrightarrow> n \<le> n' \<Longrightarrow> retained_ok v t n' version q"
  by (auto simp: retained_ok_def Let_def admission_ok_mono intro: less_le_trans)

lemma recovery_ok_mono:
  assumes "recovery_ok s n version v" and "s \<le> t" and "n \<le> n'"
  shows "recovery_ok t n' version v"
proof -
  have "\<forall>q\<in>set (flatten (rv_records v)). retained_ok v t n' version q"
    using assms retained_ok_mono unfolding recovery_ok_def by blast
  then show ?thesis using assms by (auto simp: recovery_ok_def)
qed

end
