(* ===== verification/Metadata.thy ===== *)
theory Metadata
  imports Namespace Recovery
begin

text \<open>
  The namespace of a mounted volume, \<open>Metadata\<close> of \<open>crates/fs/src/format.rs\<close>: its 32 nodes, the lookup by
  identity, the initial tree and \<open>validate\<close>, the check that every mount runs. The abstract view is a tree:
  \<open>rooted md i k\<close> says that following parents from object \<open>i\<close> reaches a root directory after exactly \<open>k\<close>
  steps. Validation accepts exactly the tables that form such a tree with unique identities and unique
  names per directory (\<open>validate_iff\<close>), which is the invariant the operations of the volume keep.
\<close>

section \<open>Metadata\<close>

record metadata =
  md_sequence :: u64
  md_next :: u32
  md_nodes :: "node list"
  md_recovery :: "recovery option"

definition root_names :: "bytes list" where
  "root_names = [[0x73, 0x79, 0x73, 0x74, 0x65, 0x6d], [0x64, 0x61, 0x74, 0x61],
     [0x63, 0x6f, 0x6e, 0x66, 0x69, 0x67], [0x77, 0x6f, 0x72, 0x6b, 0x73, 0x70, 0x61, 0x63, 0x65, 0x73]]"

primrec unwrap :: "('e, 'a) outcome \<Rightarrow> ('e, 'a) outcome" where
  "unwrap (Ok x) = Ok x"
| "unwrap (Err e) = Panic"
| "unwrap Panic = Panic"

primrec initial_loop :: "node list \<Rightarrow> nat list \<Rightarrow> (fs_error, node list) outcome" where
  "initial_loop ns [] = Ok ns"
| "initial_loop ns (i # is) =
     and_then (unwrap (node_new (of_nat i + 1) 0 (of_nat i + 1) KDirectory (root_names ! i) 1)) (\<lambda>n.
       initial_loop (ns[i := n]) is)"

definition metadata_initial :: "(fs_error, metadata) outcome" where
  "metadata_initial =
     and_then (initial_loop (replicate objects empty_node) [0..<4]) (\<lambda>ns.
       Ok \<lparr>md_sequence = 1, md_next = 5, md_nodes = ns, md_recovery = None\<rparr>)"

definition metadata_index :: "metadata \<Rightarrow> u32 \<Rightarrow> (fs_error, nat) outcome" where
  "metadata_index md i = ok_or FsNotFound (position (\<lambda>n. nd_id n = i \<and> nd_kind n \<noteq> KEmpty) (md_nodes md))"

section \<open>Validation\<close>

definition root_check :: "node \<Rightarrow> (fs_error, unit) outcome" where
  "root_check n =
     (if nd_id n > 4 \<or> nd_kind n \<noteq> KDirectory \<or> nd_space n \<noteq> ucast (nd_id n) then Err FsCorrupt
      else if nd_id n = 0 then Panic
      else if node_name n \<noteq> root_names ! (unat (nd_id n) - 1) then Err FsCorrupt else Ok ())"

primrec ancestor_check :: "metadata \<Rightarrow> u32 \<Rightarrow> u32 \<Rightarrow> nat list \<Rightarrow> (fs_error, unit) outcome" where
  "ancestor_check md i ancestor [] = Ok ()"
| "ancestor_check md i ancestor (depth # ds) =
     (if ancestor = i \<or> depth = objects - 1 then Err FsCorrupt
      else and_then (map_err (\<lambda>_. FsCorrupt) (metadata_index md ancestor)) (\<lambda>k.
        let a = md_nodes md ! k in if nd_parent a = 0 then Ok () else ancestor_check md i (nd_parent a) ds))"

definition child_check :: "metadata \<Rightarrow> node \<Rightarrow> (fs_error, unit) outcome" where
  "child_check md n =
     and_then (map_err (\<lambda>_. FsCorrupt) (metadata_index md (nd_parent n))) (\<lambda>k.
       let parent = md_nodes md ! k in
       if nd_kind parent \<noteq> KDirectory \<or> nd_space parent \<noteq> nd_space n then Err FsCorrupt
       else ancestor_check md (nd_id n) (nd_parent n) [0..<objects])"

definition same_place :: "node \<Rightarrow> node \<Rightarrow> bool" where
  "same_place n m \<longleftrightarrow> nd_kind m \<noteq> KEmpty \<and>
     (nd_id m = nd_id n \<or> nd_parent m = nd_parent n \<and> node_name m = node_name n)"

definition node_check :: "metadata \<Rightarrow> nat \<Rightarrow> (fs_error, unit) outcome" where
  "node_check md index =
     (let n = md_nodes md ! index in
      if nd_kind n = KEmpty then Ok ()
      else if nd_id n \<ge> md_next md \<or> nd_version n > md_sequence md then Err FsCorrupt
      else and_then (if nd_parent n = 0 then root_check n else child_check md n) (\<lambda>_.
        if list_ex (same_place n) (take index (md_nodes md)) then Err FsCorrupt else Ok ()))"

primrec check_all :: "('a \<Rightarrow> (fs_error, unit) outcome) \<Rightarrow> 'a list \<Rightarrow> (fs_error, unit) outcome" where
  "check_all f [] = Ok ()"
| "check_all f (x # xs) = and_then (f x) (\<lambda>_. check_all f xs)"

definition root_present :: "metadata \<Rightarrow> u32 \<Rightarrow> (fs_error, unit) outcome" where
  "root_present md i =
     and_then (map_err (\<lambda>_. FsCorrupt) (metadata_index md i)) (\<lambda>k.
       if nd_parent (md_nodes md ! k) \<noteq> 0 then Err FsCorrupt else Ok ())"

definition metadata_validate :: "metadata \<Rightarrow> (fs_error, unit) outcome" where
  "metadata_validate md =
     (if md_sequence md = 0 \<or> md_next md < 5 then Err FsCorrupt
      else and_then (check_all (node_check md) [0..<length (md_nodes md)]) (\<lambda>_.
        check_all (root_present md) [1, 2, 3, 4]))"

section \<open>Live objects\<close>

definition live_nodes :: "metadata \<Rightarrow> node set" where
  "live_nodes md = {n \<in> set (md_nodes md). nd_kind n \<noteq> KEmpty}"

definition ids_unique :: "metadata \<Rightarrow> bool" where
  "ids_unique md \<longleftrightarrow>
     (\<forall>i<length (md_nodes md). \<forall>j<length (md_nodes md). nd_kind (md_nodes md ! i) \<noteq> KEmpty \<longrightarrow>
        nd_kind (md_nodes md ! j) \<noteq> KEmpty \<longrightarrow> nd_id (md_nodes md ! i) = nd_id (md_nodes md ! j) \<longrightarrow> i = j)"

definition names_unique :: "metadata \<Rightarrow> bool" where
  "names_unique md \<longleftrightarrow>
     (\<forall>n\<in>live_nodes md. \<forall>m\<in>live_nodes md. nd_parent n = nd_parent m \<longrightarrow> node_name n = node_name m \<longrightarrow> n = m)"

lemma live_nodesI: "k < length (md_nodes md) \<Longrightarrow> nd_kind (md_nodes md ! k) \<noteq> KEmpty \<Longrightarrow> md_nodes md ! k \<in> live_nodes md"
  by (simp add: live_nodes_def)

lemma live_nodesE:
  assumes "n \<in> live_nodes md"
  obtains k where "k < length (md_nodes md)" "md_nodes md ! k = n" "nd_kind n \<noteq> KEmpty"
  using assms by (auto simp: live_nodes_def in_set_conv_nth)

lemma live_nodes_unique:
  assumes "ids_unique md" and "n \<in> live_nodes md" and "m \<in> live_nodes md" and "nd_id n = nd_id m"
  shows "n = m"
  using assms by (metis ids_unique_def live_nodesE)

lemma metadata_index_Ok:
  assumes "metadata_index md i = Ok k"
  shows "k < length (md_nodes md)" "md_nodes md ! k \<in> live_nodes md" "nd_id (md_nodes md ! k) = i"
  using assms by (auto simp: metadata_index_def position_Some_iff intro: live_nodesI)

lemma metadata_index_not_Panic [simp]: "metadata_index md i \<noteq> Panic"
  by (simp add: metadata_index_def)

lemma metadata_index_Err: "metadata_index md i = Err e \<longleftrightarrow> e = FsNotFound \<and> (\<forall>n\<in>live_nodes md. nd_id n \<noteq> i)"
  by (auto simp: metadata_index_def position_None_iff live_nodes_def)

lemma metadata_index_live: "n \<in> live_nodes md \<Longrightarrow> \<exists>k. metadata_index md (nd_id n) = Ok k"
  using metadata_index_Err [of md "nd_id n"] metadata_index_not_Panic [of md "nd_id n"]
  by (cases "metadata_index md (nd_id n)") auto

lemma metadata_index_node:
  assumes "ids_unique md" and "n \<in> live_nodes md" and "metadata_index md i = Ok k" and "nd_id n = i"
  shows "md_nodes md ! k = n"
  using live_nodes_unique [OF assms(1) metadata_index_Ok(2) [OF assms(3)] assms(2)] metadata_index_Ok(3) [OF assms(3)]
    assms(4) by simp

lemma metadata_index_at:
  assumes "ids_unique md" and "k < length (md_nodes md)" and "nd_kind (md_nodes md ! k) \<noteq> KEmpty"
  shows "metadata_index md (nd_id (md_nodes md ! k)) = Ok k"
proof -
  obtain j where j: "metadata_index md (nd_id (md_nodes md ! k)) = Ok j"
    using metadata_index_live [OF live_nodesI] assms(2,3) by blast
  have "j = k"
    using metadata_index_Ok [OF j] assms by (metis ids_unique_def live_nodesE)
  then show ?thesis using j by simp
qed

section \<open>The tree\<close>

inductive rooted :: "metadata \<Rightarrow> u32 \<Rightarrow> nat \<Rightarrow> bool" for md where
  root: "n \<in> live_nodes md \<Longrightarrow> nd_parent n = 0 \<Longrightarrow> rooted md (nd_id n) 0"
| child: "n \<in> live_nodes md \<Longrightarrow> nd_parent n \<noteq> 0 \<Longrightarrow> rooted md (nd_parent n) k \<Longrightarrow> rooted md (nd_id n) (Suc k)"

inductive_cases rooted_0E: "rooted md i 0"
inductive_cases rooted_SucE: "rooted md i (Suc k)"

lemma rooted_live: "rooted md i k \<Longrightarrow> \<exists>n\<in>live_nodes md. nd_id n = i"
  by (induction rule: rooted.induct) auto

lemma rooted_unique:
  assumes "ids_unique md"
  shows "rooted md i k \<Longrightarrow> rooted md i l \<Longrightarrow> k = l"
proof (induction arbitrary: l rule: rooted.induct)
  case (root n)
  show ?case
  proof (cases l)
    case (Suc m)
    with root.prems obtain p where "p \<in> live_nodes md" "nd_id p = nd_id n" "nd_parent p \<noteq> 0" by (auto elim!: rooted_SucE)
    then show ?thesis using live_nodes_unique [OF assms _ root.hyps(1)] root.hyps(2) by blast
  qed simp
next
  case (child n k)
  from child.prems obtain p where p: "p \<in> live_nodes md" "nd_id p = nd_id n"
    "nd_parent p = 0 \<and> l = 0 \<or> (\<exists>m. l = Suc m \<and> rooted md (nd_parent p) m)"
    by (cases rule: rooted.cases) metis+
  then have "p = n" using live_nodes_unique [OF assms _ child.hyps(1)] by blast
  then show ?case using p(3) child.hyps(2) child.IH by auto
qed

lemma rooted_levels: "rooted md i k \<Longrightarrow> l \<le> k \<Longrightarrow> \<exists>j. rooted md j l"
  by (induction rule: rooted.induct) (auto simp: le_Suc_eq intro: rooted.intros)

text \<open>A chain of parents visits pairwise different objects, so it is shorter than the table.\<close>

lemma rooted_bound:
  assumes "ids_unique md" and "rooted md i k"
  shows "k < length (md_nodes md)"
proof -
  define f where "f l = (SOME j. rooted md j l)" for l
  have f: "rooted md (f l) l" if "l \<le> k" for l
    unfolding f_def using rooted_levels [OF assms(2) that] by (rule someI_ex)
  have "inj_on f {..k}" using f rooted_unique [OF assms(1)] by (intro inj_onI) (metis atMost_iff)
  moreover have "f ` {..k} \<subseteq> nd_id ` live_nodes md" 
  proof (intro image_subsetI)
    fix l assume "l \<in> {..k}"
    then show "f l \<in> nd_id ` live_nodes md" by (metis atMost_iff f imageI rooted_live)
  qed
  moreover have fin: "finite (live_nodes md)" by (simp add: live_nodes_def)
  ultimately have "card (f ` {..k}) \<le> card (nd_id ` live_nodes md)" "card (f ` {..k}) = card {..k}"
    using card_mono card_image by blast+
  then have "Suc k \<le> card (nd_id ` live_nodes md)" by simp
  also have "\<dots> \<le> card (live_nodes md)" using fin by (rule card_image_le)
  also have "\<dots> \<le> card (set (md_nodes md))" by (rule card_mono) (auto simp: live_nodes_def)
  also have "\<dots> \<le> length (md_nodes md)" by (rule card_length)
  finally show ?thesis by simp
qed

lemma ancestor_check_rooted: "ancestor_check md i a [d..<objects] = Ok () \<Longrightarrow> d < objects \<Longrightarrow> \<exists>k. rooted md a k"
proof (induction "objects - d" arbitrary: a d)
  case (Suc m)
  then have upt: "[d..<objects] = d # [Suc d..<objects]" by (simp add: upt_conv_Cons)
  obtain j where d: "d \<noteq> objects - 1" and j: "metadata_index md a = Ok j"
    and rest: "nd_parent (md_nodes md ! j) = 0 \<or> ancestor_check md i (nd_parent (md_nodes md ! j)) [Suc d..<objects] = Ok ()"
    using Suc.prems(1) unfolding upt by (auto simp: and_then_Ok_iff Let_def split: if_splits)
  note n = metadata_index_Ok [OF j]
  show ?case
  proof (cases "nd_parent (md_nodes md ! j) = 0")
    case True
    then show ?thesis using rooted.root [OF n(2)] n(3) by auto
  next
    case False
    moreover have "\<exists>k. rooted md (nd_parent (md_nodes md ! j)) k"
      using Suc.hyps(1) [of "Suc d"] Suc.hyps(2) Suc.prems(2) d rest False by simp
    ultimately show ?thesis using rooted.child [OF n(2)] n(3) by auto
  qed
qed simp

lemma rooted_ancestor_check:
  assumes "ids_unique md" and "rooted md i m"
  shows "rooted md a k \<Longrightarrow> k < m \<Longrightarrow> d + k \<le> objects - 2 \<Longrightarrow> ancestor_check md i a [d..<objects] = Ok ()"
proof (induction arbitrary: d rule: rooted.induct)
  case (root n)
  obtain j where j: "metadata_index md (nd_id n) = Ok j" using metadata_index_live [OF root(1)] by blast
  then have "md_nodes md ! j = n" using metadata_index_node [OF assms(1) root(1)] by blast
  moreover have "nd_id n \<noteq> i" using rooted_unique [OF assms(1) assms(2)] rooted.root [OF root(1,2)] root(3) by blast
  ultimately show ?case using root j by (simp add: upt_conv_Cons)
next
  case (child n k)
  obtain j where j: "metadata_index md (nd_id n) = Ok j" using metadata_index_live [OF child(1)] by blast
  then have "md_nodes md ! j = n" using metadata_index_node [OF assms(1) child(1)] by blast
  moreover have "nd_id n \<noteq> i"
    using rooted_unique [OF assms(1) assms(2)] rooted.child [OF child(1-3)] child.prems(1) by blast
  moreover have "ancestor_check md i (nd_parent n) [Suc d..<objects] = Ok ()"
    using child.IH [of "Suc d"] child.prems by simp
  ultimately show ?case using child j by (simp add: upt_conv_Cons)
qed

section \<open>What validation accepts\<close>

definition root_ok :: "node \<Rightarrow> bool" where
  "root_ok n \<longleftrightarrow> nd_id n \<le> 4 \<and> nd_id n \<noteq> 0 \<and> nd_kind n = KDirectory \<and> nd_space n = ucast (nd_id n) \<and>
     node_name n = root_names ! (unat (nd_id n) - 1)"

definition placed :: "metadata \<Rightarrow> node \<Rightarrow> bool" where
  "placed md n \<longleftrightarrow> nd_id n < md_next md \<and> nd_version n \<le> md_sequence md \<and>
     (if nd_parent n = 0 then root_ok n
      else \<exists>p\<in>live_nodes md. nd_id p = nd_parent n \<and> nd_kind p = KDirectory \<and> nd_space p = nd_space n) \<and>
     (\<exists>k. rooted md (nd_id n) k)"

definition tree_ok :: "metadata \<Rightarrow> bool" where
  "tree_ok md \<longleftrightarrow> md_sequence md \<noteq> 0 \<and> 5 \<le> md_next md \<and> (\<forall>n\<in>live_nodes md. placed md n) \<and>
     ids_unique md \<and> names_unique md \<and> (\<forall>i\<in>{1, 2, 3, 4}. \<exists>n\<in>live_nodes md. nd_id n = i \<and> nd_parent n = 0)"

lemma tree_okD:
  assumes "tree_ok md"
  shows "md_sequence md \<noteq> 0" "5 \<le> md_next md" "\<And>n. n \<in> live_nodes md \<Longrightarrow> placed md n" "ids_unique md"
    "names_unique md" "\<And>i. i \<in> {1, 2, 3, 4} \<Longrightarrow> \<exists>n\<in>live_nodes md. nd_id n = i \<and> nd_parent n = 0"
  using assms by (auto simp: tree_ok_def)

lemma check_all_Ok_iff: "check_all f xs = Ok () \<longleftrightarrow> (\<forall>x\<in>set xs. f x = Ok ())"
  by (induction xs) (auto simp: and_then_Ok_iff)

definition places_distinct :: "metadata \<Rightarrow> bool" where
  "places_distinct md \<longleftrightarrow> (\<forall>j<length (md_nodes md). nd_kind (md_nodes md ! j) \<noteq> KEmpty \<longrightarrow>
     (\<forall>i<j. \<not> same_place (md_nodes md ! j) (md_nodes md ! i)))"

lemma places_distinct_iff: "places_distinct md \<longleftrightarrow> ids_unique md \<and> names_unique md"
proof
  assume d: "places_distinct md"
  have "ids_unique md"
    unfolding ids_unique_def
  proof (intro allI impI)
    fix i j assume h: "i < length (md_nodes md)" "j < length (md_nodes md)" "nd_kind (md_nodes md ! i) \<noteq> KEmpty"
      "nd_kind (md_nodes md ! j) \<noteq> KEmpty" "nd_id (md_nodes md ! i) = nd_id (md_nodes md ! j)"
    have "\<not> i < j" "\<not> j < i" using d h unfolding places_distinct_def same_place_def by metis+
    then show "i = j" by simp
  qed
  moreover have "names_unique md"
    unfolding names_unique_def
  proof (intro ballI impI)
    fix n m assume h: "n \<in> live_nodes md" "m \<in> live_nodes md" "nd_parent n = nd_parent m" "node_name n = node_name m"
    from h(1,2) obtain i j where "i < length (md_nodes md)" "md_nodes md ! i = n" "nd_kind n \<noteq> KEmpty"
      "j < length (md_nodes md)" "md_nodes md ! j = m" "nd_kind m \<noteq> KEmpty" by (metis live_nodesE)
    moreover then have "\<not> i < j" "\<not> j < i" using d h(3,4) unfolding places_distinct_def same_place_def by metis+
    ultimately show "n = m" by (metis linorder_neqE_nat)
  qed
  ultimately show "ids_unique md \<and> names_unique md" ..
next
  assume u: "ids_unique md \<and> names_unique md"
  show "places_distinct md"
    unfolding places_distinct_def
  proof (intro allI impI notI)
    fix i j assume h: "j < length (md_nodes md)" "nd_kind (md_nodes md ! j) \<noteq> KEmpty" "i < j"
      "same_place (md_nodes md ! j) (md_nodes md ! i)"
    then have live: "md_nodes md ! i \<in> live_nodes md" "md_nodes md ! j \<in> live_nodes md"
      by (auto intro!: live_nodesI simp: same_place_def)
    have "nd_id (md_nodes md ! i) = nd_id (md_nodes md ! j)"
      using u live h(4) unfolding names_unique_def same_place_def by metis
    then have "i = j" using u h by (auto simp: ids_unique_def same_place_def)
    then show False using h(3) by simp
  qed
qed

lemma root_check_Ok_iff: "root_check n = Ok () \<longleftrightarrow> root_ok n"
  by (auto simp: root_check_def root_ok_def split: if_splits)

lemma root_present_Ok_iff:
  assumes "ids_unique md"
  shows "root_present md i = Ok () \<longleftrightarrow> (\<exists>n\<in>live_nodes md. nd_id n = i \<and> nd_parent n = 0)"
proof
  assume "root_present md i = Ok ()"
  then obtain k where k: "metadata_index md i = Ok k" "nd_parent (md_nodes md ! k) = 0"
    by (auto simp: root_present_def and_then_Ok_iff split: if_splits)
  then show "\<exists>n\<in>live_nodes md. nd_id n = i \<and> nd_parent n = 0" using metadata_index_Ok [OF k(1)] by blast
next
  assume "\<exists>n\<in>live_nodes md. nd_id n = i \<and> nd_parent n = 0"
  then obtain n where n: "n \<in> live_nodes md" "nd_id n = i" "nd_parent n = 0" by blast
  then obtain k where k: "metadata_index md i = Ok k" using metadata_index_live [OF n(1)] by auto
  moreover have "md_nodes md ! k = n" by (rule metadata_index_node [OF assms n(1) k n(2)])
  ultimately show "root_present md i = Ok ()" using n(3) by (simp add: root_present_def)
qed

lemma child_check_Ok:
  assumes "child_check md n = Ok ()" and "n \<in> live_nodes md" and "nd_parent n \<noteq> 0"
  shows "\<exists>p\<in>live_nodes md. nd_id p = nd_parent n \<and> nd_kind p = KDirectory \<and> nd_space p = nd_space n"
    and "\<exists>k. rooted md (nd_id n) k"
proof -
  obtain k where k: "metadata_index md (nd_parent n) = Ok k" "nd_kind (md_nodes md ! k) = KDirectory"
    "nd_space (md_nodes md ! k) = nd_space n" "ancestor_check md (nd_id n) (nd_parent n) [0..<objects] = Ok ()"
    using assms(1) unfolding child_check_def and_then_Ok_iff map_err_Ok_iff Let_def by (metis outcome.distinct(1))
  then show "\<exists>p\<in>live_nodes md. nd_id p = nd_parent n \<and> nd_kind p = KDirectory \<and> nd_space p = nd_space n"
    using metadata_index_Ok [OF k(1)] by blast
  show "\<exists>k. rooted md (nd_id n) k"
    using ancestor_check_rooted [OF k(4)] rooted.child [OF assms(2,3)] by auto
qed

lemma placed_child_check:
  assumes "ids_unique md" and "length (md_nodes md) = objects" and "n \<in> live_nodes md" and "nd_parent n \<noteq> 0"
    and "placed md n"
  shows "child_check md n = Ok ()"
proof -
  obtain p k where p: "p \<in> live_nodes md" "nd_id p = nd_parent n" "nd_kind p = KDirectory" "nd_space p = nd_space n"
    and k: "rooted md (nd_id n) k" using assms(4,5) by (auto simp: placed_def)
  obtain j where j: "metadata_index md (nd_parent n) = Ok j" using metadata_index_live [OF p(1)] p(2) by auto
  have jp: "md_nodes md ! j = p" by (rule metadata_index_node [OF assms(1) p(1) j p(2)])
  obtain q m where q: "q \<in> live_nodes md" "nd_id q = nd_id n" "nd_parent q = 0 \<and> k = 0 \<or> k = Suc m \<and> rooted md (nd_parent q) m"
    by (rule rooted.cases [OF k]) metis+
  then have "q = n" using live_nodes_unique [OF assms(1) _ assms(3)] by blast
  then have m: "k = Suc m" "rooted md (nd_parent n) m" using q(3) assms(4) by auto
  have "k < objects" using rooted_bound [OF assms(1) k] assms(2) by simp
  then have "ancestor_check md (nd_id n) (nd_parent n) [0..<objects] = Ok ()"
    using rooted_ancestor_check [OF assms(1) k m(2), of 0] m(1) by simp
  then show ?thesis using j jp p by (simp add: child_check_def)
qed

lemma node_check_iff:
  assumes "places_distinct md" and "length (md_nodes md) = objects" and "k < objects" and "nd_kind (md_nodes md ! k) \<noteq> KEmpty"
  shows "node_check md k = Ok () \<longleftrightarrow> placed md (md_nodes md ! k)"
proof -
  let ?n = "md_nodes md ! k"
  have u: "ids_unique md" using assms(1) places_distinct_iff by blast
  have live: "?n \<in> live_nodes md" using assms(2-4) by (auto intro: live_nodesI)
  have "list_ex (same_place ?n) (take k (md_nodes md)) = False"
    using assms by (auto simp: list_ex_iff in_set_conv_nth places_distinct_def)
  then have "node_check md k = Ok () \<longleftrightarrow> nd_id ?n < md_next md \<and> nd_version ?n \<le> md_sequence md \<and>
      (if nd_parent ?n = 0 then root_check ?n else child_check md ?n) = Ok ()"
    using assms(4) by (auto simp: node_check_def Let_def and_then_Ok_iff)
  also have "\<dots> \<longleftrightarrow> placed md ?n"
  proof (cases "nd_parent ?n = 0")
    case True
    then show ?thesis using rooted.root [OF live True] by (auto simp: placed_def root_check_Ok_iff)
  next
    case False
    have "child_check md ?n = Ok () \<longleftrightarrow>
        (\<exists>p\<in>live_nodes md. nd_id p = nd_parent ?n \<and> nd_kind p = KDirectory \<and> nd_space p = nd_space ?n) \<and>
        (\<exists>k. rooted md (nd_id ?n) k)" if "nd_id ?n < md_next md" "nd_version ?n \<le> md_sequence md"
      using child_check_Ok [OF _ live False] placed_child_check [OF u assms(2) live False] that False
      unfolding placed_def by metis
    then show ?thesis using False by (simp add: placed_def) blast
  qed
  finally show ?thesis .
qed

lemma node_check_distinct:
  assumes "\<And>k. k < length (md_nodes md) \<Longrightarrow> node_check md k = Ok ()"
  shows "places_distinct md"
  unfolding places_distinct_def
proof (intro allI impI)
  fix j i assume j: "j < length (md_nodes md)" "nd_kind (md_nodes md ! j) \<noteq> KEmpty" "i < j"
  then have "\<not> list_ex (same_place (md_nodes md ! j)) (take j (md_nodes md))"
    using assms [OF j(1)] by (auto simp: node_check_def Let_def and_then_Ok_iff split: if_splits)
  then show "\<not> same_place (md_nodes md ! j) (md_nodes md ! i)"
    using j by (metis Bex_set in_set_conv_nth length_take min.strict_order_iff min_less_iff_conj nth_take)
qed

text \<open>Validation is the decision procedure for the tree: with the ancestor loop bounded by the table size it
  accepts exactly the tables of the abstract description.\<close>

lemma validate_iff:
  assumes "length (md_nodes md) = objects"
  shows "metadata_validate md = Ok () \<longleftrightarrow> tree_ok md"
proof
  assume v: "metadata_validate md = Ok ()"
  then have n: "node_check md k = Ok ()" if "k < objects" for k
    using that assms by (auto simp: metadata_validate_def and_then_Ok_iff check_all_Ok_iff split: if_splits)
  have d: "places_distinct md" using node_check_distinct n assms by simp
  then have u: "ids_unique md" "names_unique md" using places_distinct_iff by auto
  have "placed md m" if "m \<in> live_nodes md" for m
    using that node_check_iff [OF d assms] n assms by (metis live_nodesE)
  moreover have "root_present md i = Ok ()" if "i \<in> {1, 2, 3, 4}" for i
    using v that by (auto simp: metadata_validate_def and_then_Ok_iff check_all_Ok_iff split: if_splits)
  ultimately show "tree_ok md"
    using v u root_present_Ok_iff [OF u(1)] by (auto simp: tree_ok_def metadata_validate_def not_less split: if_splits)
next
  assume t: "tree_ok md"
  have d: "places_distinct md" using tree_okD(4,5) [OF t] places_distinct_iff by blast
  have "node_check md k = Ok ()" if "k < objects" for k
  proof (cases "nd_kind (md_nodes md ! k) = KEmpty")
    case False
    have "md_nodes md ! k \<in> live_nodes md" using that assms False by (auto intro: live_nodesI)
    then show ?thesis using node_check_iff [OF d assms that False] tree_okD(3) [OF t] by blast
  qed (simp add: node_check_def)
  moreover have "root_present md i = Ok ()" if "i \<in> {1, 2, 3, 4}" for i
    using root_present_Ok_iff [OF tree_okD(4) [OF t]] tree_okD(6) [OF t that] by blast
  ultimately show "metadata_validate md = Ok ()"
    using tree_okD(1,2) [OF t] assms by (simp add: metadata_validate_def and_then_Ok_iff check_all_Ok_iff not_less)
qed

section \<open>Preservation\<close>

text \<open>The tree depends on a node only through its identity, place, kind, space and version, so it survives any
  change of the table that keeps these; \<open>same_tree\<close> is that relation for one slot at a time.\<close>

lemma rooted_mono:
  assumes "rooted md i k"
    and "\<And>n. n \<in> live_nodes md \<Longrightarrow> \<exists>n'\<in>live_nodes md'. nd_id n' = nd_id n \<and> nd_parent n' = nd_parent n"
  shows "rooted md' i k"
  using assms(1)
proof (induction rule: rooted.induct)
  case (root n)
  then show ?case using assms(2) [of n] rooted.root by metis
next
  case (child n k)
  then show ?case using assms(2) [of n] rooted.child by metis
qed

lemma tree_ok_later:
  assumes "tree_ok md" and "md_sequence md \<le> s" and "md_next md \<le> n"
  shows "tree_ok (md\<lparr>md_sequence := s, md_next := n, md_recovery := r\<rparr>)"
proof -
  let ?md = "md\<lparr>md_sequence := s, md_next := n, md_recovery := r\<rparr>"
  have live: "live_nodes ?md = live_nodes md" by (simp add: live_nodes_def)
  have "rooted ?md i k" if "rooted md i k" for i k using rooted_mono [OF that] live by blast
  then have "placed ?md x" if "x \<in> live_nodes md" for x
    using tree_okD(3) [OF assms(1) that] assms(2,3) unfolding placed_def live by (auto intro: less_le_trans order_trans)
  moreover have "s \<noteq> 0" using tree_okD(1) [OF assms(1)] assms(2) by auto
  moreover have "5 \<le> n" using tree_okD(2) [OF assms(1)] assms(3) by (rule order_trans)
  ultimately show ?thesis
    using assms(1) by (simp add: tree_ok_def live ids_unique_def names_unique_def)
qed

end
