(* ===== verification/Format.thy ===== *)
theory Format
  imports Metadata
begin

text \<open>
  The metadata of a volume on disk: \<open>Metadata::read\<close> of \<open>crates/fs/src/format.rs\<close> and the single
  flush-ordered publication path of \<open>crates/fs/src/format/publication.rs\<close>, with its commands from
  \<open>crates/fs/src/publication/command.rs\<close>. A bank is a header sector, four sectors of nodes and seven sectors
  of recovery records; publication writes records and nodes, flushes, writes the header and flushes again.
\<close>

section \<open>Reading a bank\<close>

definition fs_magic :: bytes where
  "fs_magic = [0x52, 0x55, 0x53, 0x54, 0x46, 0x53, 0x31, 0]"

definition metadata_bytes :: "metadata \<Rightarrow> bytes" where
  "metadata_bytes md = concat (map node_encode (md_nodes md))"

primrec nodes_decode :: "bytes \<Rightarrow> nat list \<Rightarrow> (fs_error, node list) outcome" where
  "nodes_decode bs [] = Ok []"
| "nodes_decode bs (i # is) =
     and_then (node_decode (field_at bs (64 * i) 64)) (\<lambda>n. and_then (nodes_decode bs is) (\<lambda>ns. Ok (n # ns)))"

definition recovery_sector :: "u8 \<Rightarrow> nat" where
  "recovery_sector bank = 160 + unat bank * 7"

definition header_bad :: "bytes \<Rightarrow> bool" where
  "header_bad b \<longleftrightarrow> take 8 b \<noteq> fs_magic \<or> \<not> (1 \<le> b ! 8 \<and> b ! 8 \<le> 5) \<or> field_at b 9 3 \<noteq> [0, 0, 2] \<or>
     any_nonzero (drop 36 b) \<or> b ! 8 = 1 \<and> field_at b 32 4 \<noteq> replicate 4 0"

definition read_recovery ::
  "'d disk \<Rightarrow> u8 \<Rightarrow> bytes \<Rightarrow> metadata \<Rightarrow> 'd \<Rightarrow> (fs_error, metadata) outcome \<times> 'd" where
  "read_recovery D bank b md d =
     (if b ! 8 \<ge> 2
      then io_then (read_sectors D (recovery_sector bank) recovery_sectors d) (\<lambda>records d.
        if crc records \<noteq> u32_at b 32 then (Err FsCorrupt, d)
        else (and_then (recovery_decode records (md_sequence md) (md_next md) (b ! 8)) (\<lambda>r.
          Ok (md\<lparr>md_recovery := Some r\<rparr>)), d))
      else (Ok md, d))"

definition metadata_read :: "'d disk \<Rightarrow> u8 \<Rightarrow> 'd \<Rightarrow> (fs_error, metadata) outcome \<times> 'd" where
  "metadata_read D bank d =
     io_then (disk_read D (header_sector bank) d) (\<lambda>b d.
       if b = zero_sector then (Err FsEmpty, d)
       else if header_bad b then (Err FsCorrupt, d)
       else let checksum = u32_at b 28; b = put b 28 (replicate 4 0) in
         if checksum \<noteq> crc b then (Err FsCorrupt, d)
         else io_then (read_sectors D (header_sector bank + 1) 4 d) (\<lambda>bs d.
           if crc bs \<noteq> u32_at b 24 then (Err FsCorrupt, d)
           else io_then (nodes_decode bs [0..<objects], d) (\<lambda>ns d.
             io_then (read_recovery D bank b
                 \<lparr>md_sequence = u64_at b 12, md_next = u32_at b 20, md_nodes = ns, md_recovery = None\<rparr> d) (\<lambda>md d.
               (and_then (metadata_validate md) (\<lambda>_. Ok md), d)))))"

section \<open>Writing a bank\<close>

datatype command = CWrite nat bytes | CFlush

primrec command_execute :: "command \<Rightarrow> 'd disk \<Rightarrow> 'd \<Rightarrow> (fs_error, unit) outcome \<times> 'd" where
  "command_execute (CWrite s b) D d = disk_write D s b d"
| "command_execute CFlush D d = disk_flush D d"

definition header_version :: "metadata \<Rightarrow> u16" where
  "header_version md =
     (case md_recovery md of None \<Rightarrow> 1
      | Some r \<Rightarrow> if rv_reasons r then 5 else if rv_admissions r then 4 else if rv_scoped r then 3 else 2)"

definition publication_header :: "metadata \<Rightarrow> bytes" where
  "publication_header md =
     (let b = put zero_sector 0 fs_magic; b = put b 8 (to_le 2 (header_version md));
          b = put b 10 (to_le 2 (512 :: u16)); b = put b 12 (to_le 8 (md_sequence md));
          b = put b 20 (to_le 4 (md_next md)); b = put b 24 (to_le 4 (crc (metadata_bytes md)));
          b = put b 32 (to_le 4 (case md_recovery md of None \<Rightarrow> 0 | Some r \<Rightarrow> crc (recovery_encode r)))
      in put b 28 (to_le 4 (crc b)))"

definition write_steps :: "metadata \<Rightarrow> nat" where
  "write_steps md = (if md_recovery md \<noteq> None then 14 else 7)"

definition metadata_command :: "metadata \<Rightarrow> u8 \<Rightarrow> nat \<Rightarrow> (fs_error, command) outcome" where
  "metadata_command md bank step =
     (let records = (if md_recovery md \<noteq> None then 7 else 0) in
      if step < records
      then and_then (expect (md_recovery md)) (\<lambda>r.
        Ok (CWrite (recovery_sector bank + step) (field_at (recovery_encode r) (512 * step) 512)))
      else let k = step - records in
        if k \<le> 3 then Ok (CWrite (header_sector bank + 1 + k) (field_at (metadata_bytes md) (512 * k) 512))
        else if k = 4 \<or> k = 6 then Ok CFlush
        else if k = 5 then Ok (CWrite (header_sector bank) (publication_header md))
        else Err FsInvalid)"

definition write_step :: "'d disk \<Rightarrow> metadata \<Rightarrow> u8 \<Rightarrow> nat \<Rightarrow> 'd \<Rightarrow> (fs_error, unit) outcome \<times> 'd" where
  "write_step D md bank step d = io_then (metadata_command md bank step, d) (\<lambda>c d. command_execute c D d)"

primrec write_loop :: "'d disk \<Rightarrow> metadata \<Rightarrow> u8 \<Rightarrow> nat list \<Rightarrow> 'd \<Rightarrow> (fs_error, unit) outcome \<times> 'd" where
  "write_loop D md bank [] d = (Ok (), d)"
| "write_loop D md bank (s # ss) d = io_then (write_step D md bank s d) (\<lambda>_ d. write_loop D md bank ss d)"

definition metadata_write :: "'d disk \<Rightarrow> metadata \<Rightarrow> u8 \<Rightarrow> 'd \<Rightarrow> (fs_error, unit) outcome \<times> 'd" where
  "metadata_write D md bank d = write_loop D md bank [0..<write_steps md] d"

section \<open>A well-formed volume\<close>

definition metadata_ok :: "metadata \<Rightarrow> bool" where
  "metadata_ok md \<longleftrightarrow> length (md_nodes md) = objects \<and> (\<forall>n\<in>set (md_nodes md). node_ok n) \<and> tree_ok md \<and>
     (\<forall>r. md_recovery md = Some r \<longrightarrow> recovery_ok (md_sequence md) (md_next md) (ucast (header_version md)) r)"

lemma metadata_okD:
  assumes "metadata_ok md"
  shows "length (md_nodes md) = objects" "\<And>n. n \<in> set (md_nodes md) \<Longrightarrow> node_ok n" "tree_ok md"
    "\<And>r. md_recovery md = Some r \<Longrightarrow> recovery_ok (md_sequence md) (md_next md) (ucast (header_version md)) r"
  using assms by (auto simp: metadata_ok_def)

lemma length_node_encode: "node_ok n \<Longrightarrow> length (node_encode n) = 64"
  using node_encode_fields(1) node_ok_name_length by blast

lemma length_concat_chunks: "(\<And>x. x \<in> set xs \<Longrightarrow> length (f x) = k) \<Longrightarrow> length (concat (map f xs)) = k * length xs"
  by (induction xs) auto

lemma field_at_concat:
  assumes "\<And>x. x \<in> set xs \<Longrightarrow> length (f x) = k" and "i < length xs"
  shows "field_at (concat (map f xs)) (k * i) k = f (xs ! i)"
  using assms
proof (induction xs arbitrary: i)
  case (Cons x xs)
  then show ?case by (cases i) (auto simp: field_at_def)
qed simp

lemma length_metadata_bytes: "metadata_ok md \<Longrightarrow> length (metadata_bytes md) = 2048"
  using length_concat_chunks [of "md_nodes md" node_encode 64] metadata_okD(1,2) length_node_encode
  by (simp add: metadata_bytes_def)

lemma nodes_decode_map:
  assumes "\<And>i. i \<in> set is \<Longrightarrow> node_decode (field_at bs (64 * i) 64) = Ok (f i)"
  shows "nodes_decode bs is = Ok (map f is)"
  using assms by (induction "is") auto

lemma nodes_decode_bytes:
  assumes "metadata_ok md"
  shows "nodes_decode (metadata_bytes md) [0..<objects] = Ok (md_nodes md)"
proof -
  note ok = metadata_okD [OF assms]
  have "node_decode (field_at (metadata_bytes md) (64 * i) 64) = Ok (md_nodes md ! i)" if "i \<in> set [0..<objects]" for i
    using field_at_concat [of "md_nodes md" node_encode 64 i] that ok node_codec.decode_encode length_node_encode
    by (simp add: metadata_bytes_def)
  then have "nodes_decode (metadata_bytes md) [0..<objects] = Ok (map ((!) (md_nodes md)) [0..<objects])"
    by (rule nodes_decode_map)
  then show ?thesis using ok(1) map_nth [of "md_nodes md"] by (simp del: upt_Suc)
qed

section \<open>Every bank is accepted, empty or corrupt\<close>

text \<open>What a bank holds is a function of the sectors: a disk whose reads always succeed and return the
  sectors of an image.\<close>

definition image_disk :: "(nat \<Rightarrow> bytes) disk" where
  "image_disk = \<lparr>disk_read = (\<lambda>s m. (Ok (m s), m)), disk_write = (\<lambda>s b m. (Ok (), m(s := b))), disk_flush = (\<lambda>m. (Ok (), m))\<rparr>"

definition bank_content :: "(nat \<Rightarrow> bytes) \<Rightarrow> u8 \<Rightarrow> (fs_error, metadata) outcome" where
  "bank_content m bank = fst (metadata_read image_disk bank m)"

lemma read_sectors_image: "read_sectors image_disk s n m = (Ok (concat (map m [s..<s + n])), m)"
proof (induction n arbitrary: s)
  case (Suc n)
  have "[s..<s + Suc n] = s # [Suc s..<s + Suc n]" by (simp add: upt_conv_Cons)
  then show ?case using Suc [of "Suc s"] by (simp add: image_disk_def del: upt_Suc)
qed simp

lemma nodes_decode_error: "nodes_decode bs is \<noteq> Panic" "nodes_decode bs is = Err e \<Longrightarrow> e = FsCorrupt"
proof -
  have n: "node_decode b \<noteq> Panic \<and> (\<forall>e. node_decode b = Err e \<longrightarrow> e = FsCorrupt)" for b
    unfolding node_decode_def Let_def by (auto simp: outcome_iffs node_new_def valid_name_def split: if_splits)
  show "nodes_decode bs is \<noteq> Panic" "nodes_decode bs is = Err e \<Longrightarrow> e = FsCorrupt"
    using n by (induction "is") (auto simp: outcome_iffs)
qed

lemma nodes_decode_accepted:
  "nodes_decode bs is = Ok ns \<Longrightarrow> length ns = length is \<and> (\<forall>n\<in>set ns. node_ok n)"
  by (induction "is" arbitrary: ns) (auto simp: and_then_Ok_iff node_codec.decode_valid)

lemma root_check_error: "nd_id n \<noteq> 0 \<Longrightarrow> root_check n \<noteq> Panic" "root_check n = Err e \<Longrightarrow> e = FsCorrupt"
  by (auto simp: root_check_def split: if_splits)

lemma index_map_err: "map_err (\<lambda>_. FsCorrupt) (metadata_index md i) = Err e \<Longrightarrow> e = FsCorrupt"
  by (cases "metadata_index md i") auto

lemma ancestor_check_error: "ancestor_check md i a ds \<noteq> Panic" "ancestor_check md i a ds = Err e \<Longrightarrow> e = FsCorrupt"
  by (induction ds arbitrary: a) (auto simp: outcome_iffs Let_def split: if_splits dest: index_map_err)

lemma node_check_error:
  assumes "nd_kind (md_nodes md ! k) \<noteq> KEmpty \<Longrightarrow> nd_id (md_nodes md ! k) \<noteq> 0"
  shows "node_check md k \<noteq> Panic" "node_check md k = Err e \<Longrightarrow> e = FsCorrupt"
  using assms unfolding node_check_def child_check_def Let_def
  by (auto simp: outcome_iffs root_check_error ancestor_check_error split: if_splits
      dest: index_map_err root_check_error(2) ancestor_check_error(2))

lemma check_all_error:
  assumes "\<And>x. x \<in> set xs \<Longrightarrow> f x \<noteq> Panic \<and> (\<forall>e. f x = Err e \<longrightarrow> e = FsCorrupt)"
  shows "check_all f xs \<noteq> Panic" "check_all f xs = Err e \<Longrightarrow> e = FsCorrupt"
  using assms by (induction xs) (auto simp: outcome_iffs)

lemma metadata_validate_error:
  assumes "\<And>n. n \<in> set (md_nodes md) \<Longrightarrow> node_ok n"
  shows "metadata_validate md \<noteq> Panic" "metadata_validate md = Err e \<Longrightarrow> e = FsCorrupt"
proof -
  have id: "nd_kind (md_nodes md ! k) \<noteq> KEmpty \<Longrightarrow> nd_id (md_nodes md ! k) \<noteq> 0" if "k < length (md_nodes md)" for k
    using assms [OF nth_mem [OF that]] by (simp add: node_ok_def)
  have n: "node_check md k \<noteq> Panic \<and> (\<forall>e. node_check md k = Err e \<longrightarrow> e = FsCorrupt)" if "k \<in> set [0..<length (md_nodes md)]" for k
    using node_check_error [OF id] that by simp
  have r: "root_present md i \<noteq> Panic \<and> (\<forall>e. root_present md i = Err e \<longrightarrow> e = FsCorrupt)" for i
    by (auto simp: root_present_def outcome_iffs split: if_splits dest: index_map_err)
  show "metadata_validate md \<noteq> Panic" "metadata_validate md = Err e \<Longrightarrow> e = FsCorrupt"
    using check_all_error [of "[0..<length (md_nodes md)]" "node_check md", OF n]
      check_all_error [of "[1, 2, 3, 4]" "root_present md", OF r]
    unfolding metadata_validate_def by (auto simp: outcome_iffs simp del: check_all.simps split: if_splits)
qed

definition bank_records :: "(nat \<Rightarrow> bytes) \<Rightarrow> u8 \<Rightarrow> bytes" where
  "bank_records m bank = concat (map m [recovery_sector bank..<recovery_sector bank + recovery_sectors])"

definition bank_nodes :: "(nat \<Rightarrow> bytes) \<Rightarrow> u8 \<Rightarrow> bytes" where
  "bank_nodes m bank = concat (map m [header_sector bank + 1..<header_sector bank + 1 + 4])"

definition bank_base :: "bytes \<Rightarrow> node list \<Rightarrow> metadata" where
  "bank_base b ns = \<lparr>md_sequence = u64_at b 12, md_next = u32_at b 20, md_nodes = ns, md_recovery = None\<rparr>"

lemma bank_content_eq:
  "bank_content m bank =
     (let h = m (header_sector bank); b = put h 28 (replicate 4 0) in
      if h = zero_sector then Err FsEmpty
      else if header_bad h \<or> u32_at h 28 \<noteq> crc b \<or> crc (bank_nodes m bank) \<noteq> u32_at b 24 then Err FsCorrupt
      else and_then (nodes_decode (bank_nodes m bank) [0..<objects]) (\<lambda>ns.
        and_then (if b ! 8 \<ge> 2
          then if crc (bank_records m bank) \<noteq> u32_at b 32 then Err FsCorrupt
               else and_then (recovery_decode (bank_records m bank) (u64_at b 12) (u32_at b 20) (b ! 8))
                 (\<lambda>r. Ok ((bank_base b ns)\<lparr>md_recovery := Some r\<rparr>))
          else Ok (bank_base b ns)) (\<lambda>md. and_then (metadata_validate md) (\<lambda>_. Ok md))))"
proof -
  have rd: "disk_read image_disk s m = (Ok (m s), m)" for s by (simp add: image_disk_def)
  have io: "io_then (x, m) f = (and_then x g, m)" if "\<And>y. x = Ok y \<Longrightarrow> f y m = (g y, m)" for x f g
    using that by (cases x) auto
  show ?thesis
    unfolding bank_content_def metadata_read_def rd io_then_simps read_sectors_image Let_def read_recovery_def
      bank_nodes_def [symmetric] bank_records_def [symmetric] bank_base_def
    by (cases "nodes_decode (bank_nodes m bank) [0..<objects]";
        cases "recovery_decode (bank_records m bank) (u64_at (put (m (header_sector bank)) 28 (replicate 4 0)) 12)
          (u32_at (put (m (header_sector bank)) 28 (replicate 4 0)) 20) (put (m (header_sector bank)) 28 (replicate 4 0) ! 8)")
      (simp_all del: upt_Suc)
qed

lemma header_version_of:
  assumes "recovery_ok s n v r" and "2 \<le> v" and "v \<le> 5" and "md_recovery md = Some r"
  shows "ucast (header_version md) = v"
proof -
  have "v \<in> {2, 3, 4, 5}" using assms(2,3) by (auto simp: word_le_nat_alt word_unat_eq_iff)
  then show ?thesis using assms(1,4) by (auto simp: header_version_def recovery_ok_def)
qed

lemma bank_content_cases:
  assumes "\<And>s. length (m s) = 512"
  shows "(\<exists>md. bank_content m bank = Ok md \<and> metadata_ok md \<and> md_sequence md = u64_at (m (header_sector bank)) 12) \<or>
    bank_content m bank = Err FsEmpty \<or> bank_content m bank = Err FsCorrupt"
proof -
  let ?h = "m (header_sector bank)"
  let ?b = "put ?h 28 (replicate 4 0)"
  have b: "u64_at ?b 12 = u64_at ?h 12" "?b ! 8 = ?h ! 8" using assms by (simp_all add: u64_at_def)
  have recs: "length (bank_records m bank) = 3584"
    using length_concat_chunks [of "[recovery_sector bank..<recovery_sector bank + recovery_sectors]" m 512] assms
    by (simp add: bank_records_def)
  consider "bank_content m bank = Err FsEmpty \<or> bank_content m bank = Err FsCorrupt"
    | ns where "nodes_decode (bank_nodes m bank) [0..<objects] = Ok ns" "\<not> header_bad ?h"
      "bank_content m bank = and_then (if ?b ! 8 \<ge> 2
          then if crc (bank_records m bank) \<noteq> u32_at ?b 32 then Err FsCorrupt
               else and_then (recovery_decode (bank_records m bank) (u64_at ?b 12) (u32_at ?b 20) (?b ! 8))
                 (\<lambda>r. Ok ((bank_base ?b ns)\<lparr>md_recovery := Some r\<rparr>))
          else Ok (bank_base ?b ns)) (\<lambda>md. and_then (metadata_validate md) (\<lambda>_. Ok md))"
  proof (cases "?h = zero_sector \<or> header_bad ?h \<or> u32_at ?h 28 \<noteq> crc ?b \<or> crc (bank_nodes m bank) \<noteq> u32_at ?b 24")
    case True
    then have "bank_content m bank = Err FsEmpty \<or> bank_content m bank = Err FsCorrupt"
      unfolding bank_content_eq Let_def by auto
    then show thesis by (rule that(1))
  next
    case False
    note eq = bank_content_eq [of m bank, unfolded Let_def]
    show thesis
    proof (cases "nodes_decode (bank_nodes m bank) [0..<objects]")
      case (Ok ns)
      show thesis by (rule that(2) [OF Ok]) (use False in \<open>simp_all add: eq Ok\<close>)
    next
      case (Err e)
      then show thesis using that(1) False nodes_decode_error(2) [OF Err] by (simp add: eq)
    next
      case Panic
      then show thesis using nodes_decode_error(1) by blast
    qed
  qed
  then show ?thesis
  proof cases
    case 2
    have ns: "length ns = objects" "\<And>n. n \<in> set ns \<Longrightarrow> node_ok n" using nodes_decode_accepted [OF 2(1)] by auto
    have hv: "1 \<le> ?h ! 8" "?h ! 8 \<le> 5" using 2(2) by (auto simp: header_bad_def)
    have fin: "(\<exists>md. and_then (metadata_validate x) (\<lambda>_. Ok x) = Ok md \<and> metadata_ok md \<and> md_sequence md = u64_at ?h 12) \<or>
        and_then (metadata_validate x) (\<lambda>_. Ok x) = Err FsCorrupt"
      if x: "md_nodes x = ns" "md_sequence x = u64_at ?h 12"
        "\<And>r. md_recovery x = Some r \<Longrightarrow> recovery_ok (md_sequence x) (md_next x) (ucast (header_version x)) r" for x
    proof (cases "metadata_validate x")
      case (Ok u)
      then have "tree_ok x" using validate_iff [of x] x(1) ns(1) by simp
      then have "metadata_ok x" unfolding metadata_ok_def using x ns by auto
      then show ?thesis using Ok x(2) by simp
    next
      case (Err e)
      then show ?thesis using metadata_validate_error(2) [of x e] x(1) ns(2) by auto
    next
      case Panic
      then show ?thesis using metadata_validate_error(1) [of x] x(1) ns(2) by auto
    qed
    have fin: "(\<exists>md. and_then (metadata_validate x) (\<lambda>_. Ok x) = Ok md \<and> metadata_ok md \<and> md_sequence md = u64_at ?h 12) \<or>
        and_then (metadata_validate x) (\<lambda>_. Ok x) = Err FsEmpty \<or> and_then (metadata_validate x) (\<lambda>_. Ok x) = Err FsCorrupt"
      if "md_nodes x = ns" "md_sequence x = u64_at ?h 12"
        "\<And>r. md_recovery x = Some r \<Longrightarrow> recovery_ok (md_sequence x) (md_next x) (ucast (header_version x)) r" for x
      using fin [OF that] by blast
    show ?thesis
    proof (cases "?b ! 8 \<ge> 2")
      case False
      then show ?thesis using 2(3) fin [of "bank_base ?b ns"] b by (simp add: bank_base_def)
    next
      case True
      show ?thesis
      proof (cases "recovery_decode (bank_records m bank) (u64_at ?b 12) (u32_at ?b 20) (?b ! 8)")
        case (Ok r)
        let ?x = "(bank_base ?b ns)\<lparr>md_recovery := Some r\<rparr>"
        have ok: "recovery_ok (u64_at ?b 12) (u32_at ?b 20) (?b ! 8) r" by (rule recovery_decode_accepted [OF Ok recs])
        have "ucast (header_version ?x) = ?b ! 8" by (rule header_version_of [OF ok True]) (use b hv in simp_all)
        then have "recovery_ok (md_sequence ?x) (md_next ?x) (ucast (header_version ?x)) r'" if "md_recovery ?x = Some r'" for r'
          using ok that by (simp add: bank_base_def)
        then show ?thesis using 2(3) True Ok fin [of ?x] b by (simp add: bank_base_def)
      next
        case (Err e)
        then show ?thesis using 2(3) True recovery_decode_error(2) [OF Err] by simp
      next
        case Panic
        then show ?thesis using recovery_decode_error(1) by blast
      qed
    qed
  qed blast
qed

lemma bank_content_empty: "bank_content m bank = Err FsEmpty \<longleftrightarrow> m (header_sector bank) = zero_sector"
proof
  let ?h = "m (header_sector bank)"
  let ?b = "put ?h 28 (replicate 4 0)"
  define rec where "rec ns = (if ?b ! 8 \<ge> 2
          then if crc (bank_records m bank) \<noteq> u32_at ?b 32 then Err FsCorrupt
               else and_then (recovery_decode (bank_records m bank) (u64_at ?b 12) (u32_at ?b 20) (?b ! 8))
                 (\<lambda>r. Ok ((bank_base ?b ns)\<lparr>md_recovery := Some r\<rparr>))
          else Ok (bank_base ?b ns))" for ns
  assume e: "bank_content m bank = Err FsEmpty"
  show "?h = zero_sector"
  proof (rule ccontr)
    assume nz: "?h \<noteq> zero_sector"
    have "header_bad ?h \<or> u32_at ?h 28 \<noteq> crc ?b \<or> crc (bank_nodes m bank) \<noteq> u32_at ?b 24 \<Longrightarrow> bank_content m bank = Err FsCorrupt"
      unfolding bank_content_eq Let_def using nz by simp
    then have eq: "bank_content m bank = and_then (nodes_decode (bank_nodes m bank) [0..<objects]) (\<lambda>ns.
        and_then (rec ns) (\<lambda>md. and_then (metadata_validate md) (\<lambda>_. Ok md)))"
      using e nz unfolding bank_content_eq Let_def rec_def by (simp del: upt_Suc split: if_splits)
    then obtain ns where ns: "nodes_decode (bank_nodes m bank) [0..<objects] = Ok ns"
      "and_then (rec ns) (\<lambda>md. and_then (metadata_validate md) (\<lambda>_. Ok md)) = Err FsEmpty"
    proof (cases "nodes_decode (bank_nodes m bank) [0..<objects]")
      case (Ok ns)
      show ?thesis by (rule that [OF Ok]) (use e eq Ok in simp)
    next
      case (Err x)
      then show ?thesis using e eq nodes_decode_error(2) [OF Err] by simp
    next
      case Panic
      then show ?thesis using e eq by simp
    qed
    have "rec ns \<noteq> Err FsEmpty" by (auto simp: rec_def and_then_Err_iff dest: recovery_decode_error(2))
    then obtain md where md: "rec ns = Ok md" "metadata_validate md = Err FsEmpty"
      using ns(2) unfolding and_then_Err_iff by auto
    then have "md_nodes md = ns" by (auto simp: rec_def and_then_Ok_iff bank_base_def split: if_splits)
    then show False using metadata_validate_error(2) [of md FsEmpty] md(2) nodes_decode_accepted [OF ns(1)] by auto
  qed
qed (simp add: bank_content_eq Let_def)

section \<open>A written bank reads back\<close>

definition header_body :: "metadata \<Rightarrow> bytes" where
  "header_body md =
     (let b = put zero_sector 0 fs_magic; b = put b 8 (to_le 2 (header_version md));
          b = put b 10 (to_le 2 (512 :: u16)); b = put b 12 (to_le 8 (md_sequence md));
          b = put b 20 (to_le 4 (md_next md)); b = put b 24 (to_le 4 (crc (metadata_bytes md)))
      in put b 32 (to_le 4 (case md_recovery md of None \<Rightarrow> 0 | Some r \<Rightarrow> crc (recovery_encode r))))"

lemma publication_header_eq: "publication_header md = put (header_body md) 28 (to_le 4 (crc (header_body md)))"
  by (simp add: publication_header_def header_body_def Let_def)

lemma header_version_values: "header_version md \<in> {1, 2, 3, 4, 5}"
  by (auto simp: header_version_def split: option.splits)

lemma header_body_fields:
  "length (header_body md) = 512" "field_at (header_body md) 0 8 = fs_magic"
  "field_at (header_body md) 8 2 = to_le 2 (header_version md)" "field_at (header_body md) 10 2 = to_le 2 (512 :: u16)"
  "field_at (header_body md) 12 8 = to_le 8 (md_sequence md)" "field_at (header_body md) 20 4 = to_le 4 (md_next md)"
  "field_at (header_body md) 24 4 = to_le 4 (crc (metadata_bytes md))" "field_at (header_body md) 28 4 = replicate 4 0"
  "field_at (header_body md) 32 4 = to_le 4 (case md_recovery md of None \<Rightarrow> 0 | Some r \<Rightarrow> crc (recovery_encode r))"
  "field_at (header_body md) 36 476 = replicate 476 0"
proof -
  have "length fs_magic = 8" by (simp add: fs_magic_def)
  then show "length (header_body md) = 512" "field_at (header_body md) 0 8 = fs_magic"
    "field_at (header_body md) 8 2 = to_le 2 (header_version md)" "field_at (header_body md) 10 2 = to_le 2 (512 :: u16)"
    "field_at (header_body md) 12 8 = to_le 8 (md_sequence md)" "field_at (header_body md) 20 4 = to_le 4 (md_next md)"
    "field_at (header_body md) 24 4 = to_le 4 (crc (metadata_bytes md))" "field_at (header_body md) 28 4 = replicate 4 0"
    "field_at (header_body md) 32 4 = to_le 4 (case md_recovery md of None \<Rightarrow> 0 | Some r \<Rightarrow> crc (recovery_encode r))"
    "field_at (header_body md) 36 476 = replicate 476 0"
    by (simp_all add: header_body_def Let_def)
qed

lemma field_at_split: "field_at bs p (a + b) = field_at bs p a @ field_at bs (p + a) b"
  by (simp add: field_at_def take_add add.commute)

lemma nth_of_field: "p + 2 \<le> length bs \<Longrightarrow> field_at bs p 2 = [x, y] \<Longrightarrow> bs ! p = x"
  using nth_drop [of p bs 0] nth_take [of 0 2 "drop p bs"] by (simp add: field_at_def)

lemma header_bytes_8: "header_body md ! 8 = ucast (header_version md)" "field_at (header_body md) 9 3 = [0, 0, 2]"
proof -
  have two: "[0..<2] = [0, 1 :: nat]" by (simp add: numeral_2_eq_2)
  have v: "to_le 2 (header_version md) = [ucast (header_version md), 0]"
    using header_version_values [of md] by (auto simp: to_le_def two)
  then show "header_body md ! 8 = ucast (header_version md)"
    using header_body_fields(1,3) [of md] nth_of_field [of 8 "header_body md"] by simp
  have "field_at (header_body md) 8 4 = [ucast (header_version md), 0, 0, 2]"
    using field_at_split [of "header_body md" 8 2 2] header_body_fields(3,4) [of md] v
    by (simp add: to_le_def two)
  moreover have "field_at (header_body md) 9 3 = drop 1 (field_at (header_body md) 8 4)"
    by (simp add: field_at_def drop_take)
  ultimately show "field_at (header_body md) 9 3 = [0, 0, 2]" by simp
qed

lemma publication_header_fields:
  "length (publication_header md) = 512" "\<not> header_bad (publication_header md)"
  "put (publication_header md) 28 (replicate 4 0) = header_body md"
  "u32_at (publication_header md) 28 = crc (header_body md)" "u64_at (publication_header md) 12 = md_sequence md"
  "publication_header md \<noteq> zero_sector"
proof -
  note b = header_body_fields [of md] and b8 = header_bytes_8 [of md]
  let ?h = "publication_header md"
  show len: "length ?h = 512" using b by (simp add: publication_header_eq)
  show "put ?h 28 (replicate 4 0) = header_body md"
    using b put_same [OF b(8)] by (simp add: publication_header_eq)
  show "u32_at ?h 28 = crc (header_body md)" "u64_at ?h 12 = md_sequence md"
    using b by (simp_all add: publication_header_eq field_reads)
  have magic: "take 8 ?h = fs_magic" using b by (simp add: publication_header_eq take_as_slice)
  then show "?h \<noteq> zero_sector" by (auto simp: fs_magic_def replicate_numeral)
  have "drop 36 ?h = replicate 476 0" using b len by (simp add: drop_as_slice) (simp add: publication_header_eq)
  moreover have "field_at ?h 32 4 = replicate 4 0" if "header_version md = 1"
    using that b(9) by (auto simp: publication_header_eq b(1) header_version_def to_le_0 split: option.splits if_splits)
  moreover have "?h ! 8 = ucast (header_version md)" "field_at ?h 9 3 = [0, 0, 2]"
    using b b8 by (simp_all add: publication_header_eq)
  ultimately show "\<not> header_bad ?h"
    using magic header_version_values [of md] by (auto simp: header_bad_def)
qed

definition bank_holds :: "(nat \<Rightarrow> bytes) \<Rightarrow> u8 \<Rightarrow> metadata \<Rightarrow> bool" where
  "bank_holds m bank md \<longleftrightarrow> m (header_sector bank) = publication_header md \<and> bank_nodes m bank = metadata_bytes md \<and>
     (\<forall>r. md_recovery md = Some r \<longrightarrow> bank_records m bank = recovery_encode r)"

lemma bank_holds_content:
  assumes "metadata_ok md" and "bank_holds m bank md"
  shows "bank_content m bank = Ok md"
proof -
  note ok = metadata_okD [OF assms(1)] and h = publication_header_fields [of md] and b = header_body_fields [of md]
  have m: "m (header_sector bank) = publication_header md" "bank_nodes m bank = metadata_bytes md"
    "\<And>r. md_recovery md = Some r \<Longrightarrow> bank_records m bank = recovery_encode r"
    using assms(2) by (auto simp: bank_holds_def)
  have reads: "u32_at (header_body md) 24 = crc (metadata_bytes md)" "u64_at (header_body md) 12 = md_sequence md"
    "u32_at (header_body md) 20 = md_next md"
    "u32_at (header_body md) 32 = (case md_recovery md of None \<Rightarrow> 0 | Some r \<Rightarrow> crc (recovery_encode r))"
    using b by (simp_all add: field_reads)
  have valid: "metadata_validate md = Ok ()" using validate_iff ok(1,3) by blast
  show ?thesis
  proof (cases "md_recovery md")
    case None
    then have "header_version md = 1" by (simp add: header_version_def)
    then have "\<not> header_body md ! 8 \<ge> 2" using header_bytes_8(1) [of md] by (simp add: word_le_nat_alt)
    moreover have "bank_base (header_body md) (md_nodes md) = md" using None reads by (simp add: bank_base_def)
    ultimately show ?thesis
      unfolding bank_content_eq Let_def m(1,2) h(3) reads nodes_decode_bytes [OF assms(1)] using h valid by simp
  next
    case (Some r)
    then have "header_version md \<in> {2, 3, 4, 5}" by (auto simp: header_version_def)
    then have "header_body md ! 8 \<ge> 2" using header_bytes_8(1) [of md] by auto
    moreover have "(bank_base (header_body md) (md_nodes md))\<lparr>md_recovery := Some r\<rparr> = md"
      using Some reads by (simp add: bank_base_def)
    moreover have "recovery_decode (recovery_encode r) (md_sequence md) (md_next md) (header_body md ! 8) = Ok r"
      using recovery_decode_encode(1) [OF ok(4) [OF Some]] header_bytes_8(1) [of md] by simp
    ultimately show ?thesis
      unfolding bank_content_eq Let_def m(1,2) m(3) [OF Some] h(3) reads nodes_decode_bytes [OF assms(1)]
      using h valid Some by simp
  qed
qed

section \<open>Later sequences\<close>

lemma metadata_ok_later:
  assumes "metadata_ok md" and "md_sequence md \<le> s"
  shows "metadata_ok (md\<lparr>md_sequence := s\<rparr>)"
proof -
  note ok = metadata_okD [OF assms(1)]
  have "tree_ok (md\<lparr>md_sequence := s\<rparr>)"
    using tree_ok_later [OF ok(3) assms(2), of "md_next md" "md_recovery md"] by simp
  moreover have "header_version (md\<lparr>md_sequence := s\<rparr>) = header_version md" by (simp add: header_version_def)
  ultimately show ?thesis
    using ok recovery_ok_mono [OF _ assms(2)] by (auto simp: metadata_ok_def)
qed

section \<open>The initial tree\<close>

definition root_node :: "nat \<Rightarrow> node" where
  "root_node i = empty_node\<lparr>nd_id := of_nat i + 1, nd_space := of_nat i + 1, nd_kind := KDirectory, nd_version := 1,
     nd_name := put (replicate 32 0) 0 (root_names ! i), nd_name_length := of_nat (length (root_names ! i))\<rparr>"

lemma root_node_new:
  assumes "i < 4"
  shows "node_new (of_nat i + 1) 0 (of_nat i + 1) KDirectory (root_names ! i) 1 = Ok (root_node i)"
proof -
  have "i \<in> {0, 1, 2, 3}" using assms by auto
  then have "valid_name (root_names ! i) = Ok ()"
    by (auto simp: root_names_def valid_name_def is_ascii_alphanumeric_def)
  then show ?thesis by (simp add: node_new_def root_node_def empty_node_def)
qed

definition initial_metadata :: metadata where
  "initial_metadata = \<lparr>md_sequence = 1, md_next = 5,
     md_nodes = map root_node [0..<4] @ replicate 28 empty_node, md_recovery = None\<rparr>"

lemma metadata_initial_eq: "metadata_initial = Ok initial_metadata"
proof -
  have nodes: "(replicate 32 empty_node)[0 := a, 1 := b, 2 := c, 3 := d] = [a, b, c, d] @ replicate 28 empty_node" for a b c d
    by (simp add: replicate_numeral)
  have four: "[0..<4] = [0, 1, 2, 3 :: nat]" by (simp add: eval_nat_numeral)
  have new: "node_new 1 0 1 KDirectory (root_names ! 0) 1 = Ok (root_node 0)"
    "node_new 2 0 2 KDirectory (root_names ! 1) 1 = Ok (root_node 1)"
    "node_new 3 0 3 KDirectory (root_names ! 2) 1 = Ok (root_node 2)"
    "node_new 4 0 4 KDirectory (root_names ! 3) 1 = Ok (root_node 3)"
    using root_node_new [of 0] root_node_new [of 1] root_node_new [of 2] root_node_new [of 3] by simp_all
  show ?thesis
    using new nodes [of "root_node 0" "root_node 1" "root_node 2" "root_node 3"]
    by (simp add: metadata_initial_def four initial_metadata_def)
qed

lemma root_node_fields:
  assumes "i < 4"
  shows "nd_id (root_node i) = of_nat i + 1" "nd_parent (root_node i) = 0" "nd_kind (root_node i) = KDirectory"
    "nd_version (root_node i) = 1" "node_name (root_node i) = root_names ! i" "node_ok (root_node i)" "root_ok (root_node i)"
    "nd_id (root_node i) < 5"
proof -
  note f = node_new_Ok [OF root_node_new [OF assms]]
  show "nd_id (root_node i) = of_nat i + 1" "nd_parent (root_node i) = 0" "nd_kind (root_node i) = KDirectory"
    "nd_version (root_node i) = 1" "node_name (root_node i) = root_names ! i" by (rule f)+
  have c: "i \<in> {0, 1, 2, 3}" using assms by auto
  show "node_ok (root_node i)" by (rule node_new_ok [OF root_node_new [OF assms]]) (use c in auto)
  show "root_ok (root_node i)" "nd_id (root_node i) < 5" using c f by (auto simp: root_ok_def)
qed

lemma live_initial: "live_nodes initial_metadata = root_node ` {..<4}"
proof -
  have "set (md_nodes initial_metadata) = root_node ` {..<4} \<union> {empty_node}"
    by (simp add: initial_metadata_def atLeast0LessThan)
  moreover have "nd_kind (root_node i) \<noteq> KEmpty" if "i < 4" for i using root_node_fields(3) [OF that] by simp
  ultimately show ?thesis by (auto simp: live_nodes_def)
qed

lemma root_node_id_inj: "i < 4 \<Longrightarrow> j < 4 \<Longrightarrow> nd_id (root_node i) = nd_id (root_node j) \<Longrightarrow> i = j"
proof -
  assume "i < 4" "j < 4" and e: "nd_id (root_node i) = nd_id (root_node j)"
  then have "i \<in> {0, 1, 2, 3}" "j \<in> {0, 1, 2, 3}" by auto
  then show ?thesis using e root_node_fields(1) [OF \<open>i < 4\<close>] root_node_fields(1) [OF \<open>j < 4\<close>] by auto
qed

lemma initial_metadata_ok: "metadata_ok initial_metadata"
proof -
  let ?md = initial_metadata
  have at: "?md = \<lparr>md_sequence = 1, md_next = 5, md_nodes = map root_node [0..<4] @ replicate 28 empty_node, md_recovery = None\<rparr>"
    by (rule initial_metadata_def)
  have len: "length (md_nodes ?md) = objects" by (simp add: at)
  have nodes: "n = empty_node \<or> (\<exists>i<4. n = root_node i)" if "n \<in> set (md_nodes ?md)" for n
    using that by (auto simp: at)
  have nth: "md_nodes ?md ! k = root_node k \<and> k < 4" if "k < objects" "nd_kind (md_nodes ?md ! k) \<noteq> KEmpty" for k
    using that by (auto simp: at nth_append split: if_splits)
  have "placed ?md n" if live: "n \<in> live_nodes ?md" for n
  proof -
    obtain i where i: "i < 4" "n = root_node i" using live by (auto simp: live_initial)
    note f = root_node_fields [OF i(1)]
    have "rooted ?md (nd_id n) 0" by (rule rooted.root [OF live]) (simp add: i f)
    then show ?thesis using f by (auto simp: placed_def at i)
  qed
  moreover have "ids_unique ?md"
    unfolding ids_unique_def
  proof (intro allI impI)
    fix i j assume h: "i < length (md_nodes ?md)" "j < length (md_nodes ?md)" "nd_kind (md_nodes ?md ! i) \<noteq> KEmpty"
      "nd_kind (md_nodes ?md ! j) \<noteq> KEmpty" "nd_id (md_nodes ?md ! i) = nd_id (md_nodes ?md ! j)"
    then show "i = j" using nth [of i] nth [of j] len root_node_id_inj by auto
  qed
  moreover have "names_unique ?md"
    unfolding names_unique_def live_initial
  proof (intro ballI impI)
    fix n m assume "n \<in> root_node ` {..<4}" "m \<in> root_node ` {..<4}" and e: "node_name n = node_name m"
    then obtain i j where ij: "i < 4" "n = root_node i" "j < 4" "m = root_node j" by auto
    then have "i \<in> {0, 1, 2, 3}" "j \<in> {0, 1, 2, 3}" by auto
    moreover have "root_names ! i = root_names ! j" using e ij root_node_fields(5) by simp
    ultimately have "i = j" by (auto simp: root_names_def)
    then show "n = m" using ij by simp
  qed
  moreover have "\<exists>n\<in>live_nodes ?md. nd_id n = i \<and> nd_parent n = 0" if "i \<in> {1, 2, 3, 4}" for i
  proof -
    have "\<exists>k<4. i = of_nat k + 1" using that by (auto intro: exI [of _ 0] exI [of _ 1] exI [of _ 2] exI [of _ 3])
    then obtain k where "k < 4" "i = of_nat k + 1" by blast
    then show ?thesis using root_node_fields(1,2) [of k] by (auto simp: live_initial intro!: bexI [of _ "root_node k"])
  qed
  ultimately have "tree_ok ?md" by (auto simp: tree_ok_def at)
  moreover have "node_ok n" if "n \<in> set (md_nodes ?md)" for n using nodes [OF that] root_node_fields(6) by auto
  moreover have "md_recovery ?md = None" by (simp add: at)
  ultimately show ?thesis using len by (simp add: metadata_ok_def)
qed

end
