(* ===== verification/Volume.thy ===== *)
theory Volume
  imports Format
begin

text \<open>
  The mounted volume, \<open>crates/fs/src/volume.rs\<close>, \<open>references.rs\<close>, \<open>read.rs\<close> and the directory operations of
  \<open>mutations.rs\<close>: mount, initialisation, queries, version-pinned reads, creation and removal. A method with
  \<open>&mut self\<close> takes and returns the volume; one with a disk takes and returns the disk state as well. The
  flag \<open>vl_poisoned\<close> is the fence: it is raised before the first write of a commit and lowered only after its
  last flush succeeded.
\<close>

section \<open>Volumes\<close>

record volume =
  vl_metadata :: metadata
  vl_bank :: u8
  vl_poisoned :: bool

type_synonym ('d, 'a) on_volume = "(fs_error, 'a) outcome \<times> volume \<times> 'd"

definition volume_ready :: "volume \<Rightarrow> (fs_error, unit) outcome" where
  "volume_ready v = (if vl_poisoned v then Err FsUncertain else Ok ())"

definition volume_sequence :: "volume \<Rightarrow> u64" where
  "volume_sequence v = md_sequence (vl_metadata v)"

definition volume_stat :: "volume \<Rightarrow> u32 \<Rightarrow> (fs_error, node) outcome" where
  "volume_stat v i =
     and_then (volume_ready v) (\<lambda>_. and_then (metadata_index (vl_metadata v) i) (\<lambda>k. Ok (md_nodes (vl_metadata v) ! k)))"

definition directory_check :: "volume \<Rightarrow> u32 \<Rightarrow> (fs_error, unit) outcome" where
  "directory_check v parent =
     (if parent = 0 then Ok ()
      else and_then (volume_stat v parent) (\<lambda>n. if nd_kind n \<noteq> KDirectory then Err FsNotDirectory else Ok ()))"

definition volume_lookup :: "volume \<Rightarrow> u32 \<Rightarrow> bytes \<Rightarrow> (fs_error, node) outcome" where
  "volume_lookup v parent nm =
     and_then (volume_ready v) (\<lambda>_. and_then (valid_name nm) (\<lambda>_. and_then (directory_check v parent) (\<lambda>_.
       ok_or FsNotFound (find (\<lambda>n. nd_kind n \<noteq> KEmpty \<and> nd_parent n = parent \<and> node_name n = nm)
         (md_nodes (vl_metadata v))))))"

definition volume_list :: "volume \<Rightarrow> u32 \<Rightarrow> nat \<Rightarrow> (fs_error, (nat \<times> node) option) outcome" where
  "volume_list v parent cursor =
     and_then (volume_ready v) (\<lambda>_.
       if cursor > objects then Err FsInvalid
       else and_then (directory_check v parent) (\<lambda>_.
         Ok (map_option (\<lambda>i. (i + 1, md_nodes (vl_metadata v) ! i))
           (find (\<lambda>i. nd_kind (md_nodes (vl_metadata v) ! i) \<noteq> KEmpty \<and> nd_parent (md_nodes (vl_metadata v) ! i) = parent)
             [cursor..<length (md_nodes (vl_metadata v))]))))"

primrec within_loop :: "volume \<Rightarrow> u32 \<Rightarrow> u32 \<Rightarrow> nat \<Rightarrow> bool" where
  "within_loop v scope current 0 = False"
| "within_loop v scope current (Suc n) =
     (case volume_stat v current of
        Ok m \<Rightarrow> if current = scope then True else if nd_parent m = 0 then False else within_loop v scope (nd_parent m) n
      | _ \<Rightarrow> False)"

definition volume_within :: "volume \<Rightarrow> u32 \<Rightarrow> u32 \<Rightarrow> bool" where
  "volume_within v i scope = (if scope = 0 then is_ok (volume_stat v i) else within_loop v scope i objects)"

definition volume_writable :: "volume \<Rightarrow> u32 \<Rightarrow> (fs_error, node) outcome" where
  "volume_writable v i = and_then (volume_stat v i) (\<lambda>n. if nd_space n = 1 then Err FsReadOnly else Ok n)"

definition volume_resolve :: "volume \<Rightarrow> u32 \<Rightarrow> u32 \<Rightarrow> (fs_error, node) outcome" where
  "volume_resolve v workspace i =
     and_then (volume_stat v workspace) (\<lambda>d.
       if nd_kind d \<noteq> KDirectory then Err FsNotDirectory
       else and_then (volume_stat v i) (\<lambda>n. if \<not> volume_within v i workspace then Err FsNotFound else Ok n))"

section \<open>Commit\<close>

definition volume_commit :: "'d disk \<Rightarrow> volume \<Rightarrow> metadata \<Rightarrow> 'd \<Rightarrow> ('d, unit) on_volume" where
  "volume_commit D v nxt d =
     (case checked_add (md_sequence (vl_metadata v)) 1 of
        None \<Rightarrow> (Err FsExhausted, v, d)
      | Some s \<Rightarrow>
          let nxt = nxt\<lparr>md_sequence := s\<rparr>; v = v\<lparr>vl_poisoned := True\<rparr> in
          (case metadata_write D nxt (1 - vl_bank v) d of
             (Ok _, d) \<Rightarrow> (Ok (), \<lparr>vl_metadata = nxt, vl_bank = 1 - vl_bank v, vl_poisoned = False\<rparr>, d)
           | (Err _, d) \<Rightarrow> (Err FsUncertain, v, d)
           | (Panic, d) \<Rightarrow> (Panic, v, d)))"

definition enable_recovery_check :: "bytes \<Rightarrow> nat \<Rightarrow> bytes \<Rightarrow> bool" where
  "enable_recovery_check expected sector b =
     list_ex (\<lambda>(x, y). x \<noteq> 0 \<and> x \<noteq> y) (zip b (field_at expected (((sector - 160) mod 7) * 512) 512))"

primrec scratch_loop :: "'d disk \<Rightarrow> bytes \<Rightarrow> nat list \<Rightarrow> 'd \<Rightarrow> (fs_error, unit) outcome \<times> 'd" where
  "scratch_loop D expected [] d = (Ok (), d)"
| "scratch_loop D expected (s # ss) d =
     io_then (disk_read D s d) (\<lambda>b d. if enable_recovery_check expected s b then (Err FsCorrupt, d) else scratch_loop D expected ss d)"

definition enable_recovery :: "'d disk \<Rightarrow> volume \<Rightarrow> bytes \<Rightarrow> 'd \<Rightarrow> ('d, unit) on_volume" where
  "enable_recovery D v lin d =
     (case volume_ready v of Err e \<Rightarrow> (Err e, v, d) | Panic \<Rightarrow> (Panic, v, d) | Ok _ \<Rightarrow>
       (case md_recovery (vl_metadata v) of
          Some r \<Rightarrow> (if rv_lineage r = lin then Ok () else Err FsLineage, v, d)
        | None \<Rightarrow>
            (case recovery_new lin of Err e \<Rightarrow> (Err e, v, d) | Panic \<Rightarrow> (Panic, v, d) | Ok initial \<Rightarrow>
              (case scratch_loop D (recovery_encode initial) [160..<volume_sectors] d of
                 (Ok _, d) \<Rightarrow> volume_commit D v ((vl_metadata v)\<lparr>md_recovery := Some initial\<rparr>) d
               | (Err e, d) \<Rightarrow> (Err e, v, d) | (Panic, d) \<Rightarrow> (Panic, v, d)))))"

section \<open>Mount\<close>

definition select_generation ::
  "(fs_error, metadata) outcome \<Rightarrow> (fs_error, metadata) outcome \<Rightarrow> (fs_error, metadata \<times> u8) outcome" where
  "select_generation a b =
     (case (a, b) of
        (Ok x, Ok y) \<Rightarrow>
          if md_sequence x = md_sequence y
          then (if metadata_bytes x \<noteq> metadata_bytes y \<or> md_next x \<noteq> md_next y \<or>
                   map_option recovery_encode (md_recovery x) \<noteq> map_option recovery_encode (md_recovery y)
                then Err FsCorrupt else Ok (x, 0))
          else if md_sequence x > md_sequence y then Ok (x, 0) else Ok (y, 1)
      | (Panic, _) \<Rightarrow> Panic
      | (_, Panic) \<Rightarrow> Panic
      | (Ok x, Err _) \<Rightarrow> Ok (x, 0)
      | (Err _, Ok y) \<Rightarrow> Ok (y, 1)
      | (Err FsEmpty, Err FsEmpty) \<Rightarrow> Err FsEmpty
      | (Err _, Err _) \<Rightarrow> Err FsCorrupt)"

definition read_failed :: "(fs_error, metadata) outcome \<Rightarrow> fs_error option" where
  "read_failed r = (case r of Err e \<Rightarrow> if e = FsEmpty \<or> e = FsCorrupt then None else Some e | _ \<Rightarrow> None)"

definition mount_metadata :: "'d disk \<Rightarrow> 'd \<Rightarrow> (fs_error, metadata \<times> u8) outcome \<times> 'd" where
  "mount_metadata D d =
     (case metadata_read D 0 d of (Panic, d) \<Rightarrow> (Panic, d) | (a, d) \<Rightarrow>
     (case metadata_read D 1 d of (Panic, d) \<Rightarrow> (Panic, d) | (b, d) \<Rightarrow>
       (case read_failed a of Some e \<Rightarrow> (Err e, d) | None \<Rightarrow>
       (case read_failed b of Some e \<Rightarrow> (Err e, d) | None \<Rightarrow> (select_generation a b, d)))))"

definition volume_mount :: "'d disk \<Rightarrow> 'd \<Rightarrow> (fs_error, volume) outcome \<times> 'd" where
  "volume_mount D d =
     io_then (mount_metadata D d) (\<lambda>(md, bank) d.
       let v = \<lparr>vl_metadata = md, vl_bank = bank, vl_poisoned = False\<rparr> in
       io_then (lineage D d) (\<lambda>l d.
         case l of None \<Rightarrow> (Ok v, d)
         | Some lin \<Rightarrow> (case enable_recovery D v lin d of (res, v, d) \<Rightarrow> (and_then res (\<lambda>_. Ok v), d))))"

primrec blank_loop :: "'d disk \<Rightarrow> bool \<Rightarrow> nat list \<Rightarrow> 'd \<Rightarrow> (fs_error, unit) outcome \<times> 'd" where
  "blank_loop D skip [] d = (Ok (), d)"
| "blank_loop D skip (s # ss) d =
     (if s = 1 \<and> skip then blank_loop D skip ss d
      else io_then (disk_read D s d) (\<lambda>b d. if b \<noteq> zero_sector then (Err FsCorrupt, d) else blank_loop D skip ss d))"

definition volume_initialize :: "'d disk \<Rightarrow> 'd \<Rightarrow> (fs_error, volume) outcome \<times> 'd" where
  "volume_initialize D d =
     io_then (lineage D d) (\<lambda>l d.
     io_then (blank_loop D (l \<noteq> None) [0..<volume_sectors] d) (\<lambda>_ d.
     io_then (metadata_initial, d) (\<lambda>md d.
     io_then (case l of None \<Rightarrow> Ok None | Some lin \<Rightarrow> and_then (recovery_new lin) (\<lambda>r. Ok (Some r)), d) (\<lambda>rec d.
       let md = md\<lparr>md_recovery := rec\<rparr> in
       (case metadata_write D md 0 d of
          (Ok _, d) \<Rightarrow> (Ok \<lparr>vl_metadata = md, vl_bank = 0, vl_poisoned = False\<rparr>, d)
        | (Err _, d) \<Rightarrow> (Err FsUncertain, d)
        | (Panic, d) \<Rightarrow> (Panic, d))))))"

section \<open>Reads\<close>

definition read_versioned ::
  "'d disk \<Rightarrow> volume \<Rightarrow> u32 \<Rightarrow> u64 option \<Rightarrow> nat \<Rightarrow> bytes \<Rightarrow> 'd \<Rightarrow> ((fs_error, node \<times> nat) outcome \<times> bytes) \<times> 'd" where
  "read_versioned D v i expected offset output d =
     (case volume_stat v i of Err e \<Rightarrow> ((Err e, output), d) | Panic \<Rightarrow> ((Panic, output), d) | Ok n \<Rightarrow>
       if (case expected of None \<Rightarrow> False | Some version \<Rightarrow> version \<noteq> nd_version n) then ((Err FsVersion, output), d)
       else if nd_kind n \<noteq> KFile then ((Err FsIsDirectory, output), d)
       else if offset > unat (nd_length n) then ((Err FsSize, output), d)
       else if nd_length n = 0 then ((Ok (n, 0), output), d)
       else
         (case metadata_index (vl_metadata v) i of Err e \<Rightarrow> ((Err e, output), d) | Panic \<Rightarrow> ((Panic, output), d) | Ok slot \<Rightarrow>
           (case read_data D slot (nd_bank n) d of
              (Err e, d) \<Rightarrow> ((Err e, output), d)
            | (Panic, d) \<Rightarrow> ((Panic, output), d)
            | (Ok bs, d) \<Rightarrow>
                if crc (take (unat (nd_length n)) bs) \<noteq> nd_checksum n then ((Err FsCorrupt, output), d)
                else let count = min (length output) (unat (nd_length n) - offset) in
                  ((Ok (n, count), put output 0 (field_at bs offset count)), d))))"

definition volume_read ::
  "'d disk \<Rightarrow> volume \<Rightarrow> u32 \<Rightarrow> nat \<Rightarrow> bytes \<Rightarrow> 'd \<Rightarrow> ((fs_error, nat) outcome \<times> bytes) \<times> 'd" where
  "volume_read D v i offset output d =
     (case read_versioned D v i None offset output d of ((r, out), d) \<Rightarrow> ((and_then r (\<lambda>(n, count). Ok count), out), d))"

section \<open>Creation and removal\<close>

definition create_plan :: "volume \<Rightarrow> u32 \<Rightarrow> bytes \<Rightarrow> kind \<Rightarrow> (fs_error, node \<times> metadata) outcome" where
  "create_plan v parent nm k =
     and_then (valid_name nm) (\<lambda>_.
     if k = KEmpty then Err FsInvalid
     else and_then (volume_writable v parent) (\<lambda>directory.
     if nd_kind directory \<noteq> KDirectory then Err FsNotDirectory
     else and_then (case volume_lookup v parent nm of
         Ok _ \<Rightarrow> Err FsExists | Err e \<Rightarrow> if e = FsNotFound then Ok () else Err e | Panic \<Rightarrow> Panic) (\<lambda>_.
     and_then (ok_or FsFull (position (\<lambda>n. nd_kind n = KEmpty) (md_nodes (vl_metadata v)))) (\<lambda>slot.
     let md = vl_metadata v; i = md_next md in
     and_then (ok_or FsExhausted (checked_add (md_next md) 1)) (\<lambda>nxt.
     and_then (ok_or FsExhausted (checked_add (md_sequence md) 1)) (\<lambda>version.
     and_then (node_new i parent (nd_space directory) k nm version) (\<lambda>n.
     Ok (n, md\<lparr>md_next := nxt, md_nodes := (md_nodes md)[slot := n]\<rparr>))))))))"

definition volume_create :: "'d disk \<Rightarrow> volume \<Rightarrow> u32 \<Rightarrow> bytes \<Rightarrow> kind \<Rightarrow> 'd \<Rightarrow> ('d, node) on_volume" where
  "volume_create D v parent nm k d =
     (case create_plan v parent nm k of
        Err e \<Rightarrow> (Err e, v, d)
      | Panic \<Rightarrow> (Panic, v, d)
      | Ok (n, nxt) \<Rightarrow> (case volume_commit D v nxt d of (res, v, d) \<Rightarrow> (and_then res (\<lambda>_. Ok n), v, d)))"

definition remove_plan :: "volume \<Rightarrow> u32 \<Rightarrow> (fs_error, metadata) outcome" where
  "remove_plan v i =
     and_then (volume_writable v i) (\<lambda>n.
     if nd_parent n = 0 then Err FsReadOnly
     else if list_ex (\<lambda>m. nd_kind m \<noteq> KEmpty \<and> nd_parent m = i) (md_nodes (vl_metadata v)) then Err FsNotEmpty
     else and_then (metadata_index (vl_metadata v) i) (\<lambda>slot.
       Ok ((vl_metadata v)\<lparr>md_nodes := (md_nodes (vl_metadata v))[slot := empty_node]\<rparr>)))"

definition volume_remove :: "'d disk \<Rightarrow> volume \<Rightarrow> u32 \<Rightarrow> 'd \<Rightarrow> ('d, unit) on_volume" where
  "volume_remove D v i d =
     (case remove_plan v i of Err e \<Rightarrow> (Err e, v, d) | Panic \<Rightarrow> (Panic, v, d) | Ok nxt \<Rightarrow> volume_commit D v nxt d)"

end
