(* ===== verification/Publication.thy ===== *)
theory Publication
  imports Volume
begin

text \<open>
  Replacement of file contents, \<open>crates/fs/src/publication/writer.rs\<close> and \<open>prepare_recorded\<close> of
  \<open>crates/fs/src/mutations.rs\<close>. A \<open>Publication\<close> borrows the volume and the disk until it settles, so it is a
  record that holds both; \<open>pub_drop\<close> is its \<open>Drop\<close> and gives them back. One call of \<open>drive\<close> performs one
  command of the sequence: two data sectors and a flush, then the metadata commands of \<open>Format\<close>. \<open>run\<close> drives
  synchronously until the publication is committed; it is a \<open>partial_function\<close>, and \<open>pub_run_returns\<close> shows
  that it always returns.
\<close>

section \<open>Publications\<close>

datatype publication_phase = PhPreparing | PhReadyToPublish | PhSettling | PhCommitted | PhCancelled | PhUncertain

datatype publication_cancel = PcCancelled | PcTooLate | PcDraining

datatype 'a poll = PollReady 'a | PollPending

record ('d, 't) publication =
  pb_volume :: volume
  pb_disk :: 'd
  pb_next :: "metadata option"
  pb_data :: bytes
  pb_first_sector :: nat
  pb_data_steps :: nat
  pb_step :: nat
  pb_phase :: publication_phase
  pb_result :: 't
  pb_pending :: bool
  pb_stopping :: bool

record 'd poll_disk =
  poll_write :: "nat \<Rightarrow> bytes \<Rightarrow> 'd \<Rightarrow> (fs_error, unit) outcome poll \<times> 'd"
  poll_flush :: "'d \<Rightarrow> (fs_error, unit) outcome poll \<times> 'd"

primrec command_poll :: "command \<Rightarrow> 'd poll_disk \<Rightarrow> 'd \<Rightarrow> (fs_error, unit) outcome poll \<times> 'd" where
  "command_poll (CWrite s b) P d = poll_write P s b d"
| "command_poll CFlush P d = poll_flush P d"

definition publication_new ::
  "volume \<Rightarrow> 'd \<Rightarrow> metadata \<Rightarrow> nat \<Rightarrow> bytes \<Rightarrow> 't \<Rightarrow> ('d, 't) publication" where
  "publication_new v d nxt first bs result =
     \<lparr>pb_volume = v\<lparr>vl_poisoned := True\<rparr>, pb_disk = d, pb_next = Some nxt, pb_data = put (replicate max_file 0) 0 bs,
      pb_first_sector = first, pb_data_steps = 3, pb_step = 0, pb_phase = PhPreparing, pb_result = result,
      pb_pending = False, pb_stopping = False\<rparr>"

definition publication_metadata ::
  "volume \<Rightarrow> 'd \<Rightarrow> metadata \<Rightarrow> 't \<Rightarrow> (fs_error, ('d, 't) publication) outcome" where
  "publication_metadata v d nxt result =
     and_then (ok_or FsExhausted (checked_add (volume_sequence v) 1)) (\<lambda>s.
       Ok ((publication_new v d (nxt\<lparr>md_sequence := s\<rparr>) 0 [] result)\<lparr>pb_data_steps := 0\<rparr>))"

definition publication_replayed :: "volume \<Rightarrow> 'd \<Rightarrow> 't \<Rightarrow> ('d, 't) publication" where
  "publication_replayed v d result =
     \<lparr>pb_volume = v, pb_disk = d, pb_next = None, pb_data = replicate max_file 0, pb_first_sector = 0,
      pb_data_steps = 0, pb_step = 0, pb_phase = PhCommitted, pb_result = result, pb_pending = False, pb_stopping = False\<rparr>"

definition publication_result :: "('d, 't) publication \<Rightarrow> 't option" where
  "publication_result p = (if pb_phase p = PhCommitted then Some (pb_result p) else None)"

definition pub_command :: "('d, 't) publication \<Rightarrow> metadata \<Rightarrow> (fs_error, command) outcome" where
  "pub_command p nxt =
     (if pb_step p \<ge> pb_data_steps p
      then unwrap (metadata_command nxt (1 - vl_bank (pb_volume p)) (pb_step p - pb_data_steps p))
      else if pb_step p \<le> 1
      then Ok (CWrite (pb_first_sector p + pb_step p) (field_at (pb_data p) (512 * pb_step p) 512))
      else if pb_step p = 2 then Ok CFlush else Panic)"

definition pub_settled :: "('d, 't) publication \<Rightarrow> metadata \<Rightarrow> nat \<Rightarrow> ('d, 't) publication" where
  "pub_settled p nxt all_steps =
     (let p = p\<lparr>pb_pending := False, pb_step := pb_step p + 1\<rparr>;
          p = (if pb_step p = all_steps
               then p\<lparr>pb_volume := \<lparr>vl_metadata = nxt, vl_bank = 1 - vl_bank (pb_volume p), vl_poisoned = False\<rparr>,
                      pb_next := None, pb_phase := PhCommitted\<rparr>
               else if pb_step p = all_steps - 1 then p\<lparr>pb_phase := PhSettling\<rparr>
               else if pb_step p = all_steps - 2 then p\<lparr>pb_phase := PhReadyToPublish\<rparr>
               else p\<lparr>pb_phase := PhPreparing\<rparr>)
      in if pb_stopping p
         then p\<lparr>pb_phase := PhCancelled, pb_volume := (pb_volume p)\<lparr>vl_poisoned := False\<rparr>\<rparr> else p)"

definition pub_drive ::
  "(command \<Rightarrow> 'd \<Rightarrow> (fs_error, unit) outcome poll \<times> 'd) \<Rightarrow> ('d, 't) publication \<Rightarrow>
     (fs_error, publication_phase) outcome poll \<times> ('d, 't) publication" where
  "pub_drive execute p =
     (if pb_phase p = PhCommitted \<or> pb_phase p = PhCancelled then (PollReady (Ok (pb_phase p)), p)
      else if pb_phase p = PhUncertain then (PollReady (Err FsUncertain), p)
      else
        (case pb_next p of None \<Rightarrow> (PollReady Panic, p) | Some nxt \<Rightarrow>
          let all_steps = pb_data_steps p + write_steps nxt;
              before = (if pb_step p \<ge> all_steps - 2 then PhSettling else pb_phase p)
          in (case pub_command p nxt of Err e \<Rightarrow> (PollReady (Err e), p) | Panic \<Rightarrow> (PollReady Panic, p) | Ok c \<Rightarrow>
            let p = p\<lparr>pb_phase := PhUncertain, pb_pending := True\<rparr> in
            (case execute c (pb_disk p) of
               (PollPending, d) \<Rightarrow> (PollPending, p\<lparr>pb_disk := d, pb_phase := before\<rparr>)
             | (PollReady (Err e), d) \<Rightarrow> (PollReady (Err FsUncertain), p\<lparr>pb_disk := d\<rparr>)
             | (PollReady Panic, d) \<Rightarrow> (PollReady Panic, p\<lparr>pb_disk := d\<rparr>)
             | (PollReady (Ok _), d) \<Rightarrow>
                 (let p = pub_settled (p\<lparr>pb_disk := d\<rparr>) nxt all_steps in (PollReady (Ok (pb_phase p)), p))))))"

definition pub_cancel ::
  "('d, 't) publication \<Rightarrow> (fs_error, publication_cancel) outcome \<times> ('d, 't) publication" where
  "pub_cancel p =
     (if pb_phase p \<in> {PhPreparing, PhReadyToPublish, PhCancelled}
      then if pb_pending p then (Ok PcDraining, p\<lparr>pb_stopping := True\<rparr>)
           else (Ok PcCancelled, p\<lparr>pb_phase := PhCancelled, pb_volume := (pb_volume p)\<lparr>vl_poisoned := False\<rparr>\<rparr>)
      else if pb_phase p = PhUncertain then (Err FsUncertain, p)
      else (Ok PcTooLate, p))"

definition pub_advance ::
  "'d disk \<Rightarrow> ('d, 't) publication \<Rightarrow> (fs_error, publication_phase) outcome \<times> ('d, 't) publication" where
  "pub_advance D p =
     (if pb_pending p then (Err FsUncertain, p)
      else (case pub_drive (\<lambda>c d. case command_execute c D d of (r, d) \<Rightarrow> (PollReady r, d)) p of
        (PollReady r, p) \<Rightarrow> (r, p)
      | (PollPending, p) \<Rightarrow> (Panic, p)))"

definition pub_poll_advance ::
  "'d poll_disk \<Rightarrow> ('d, 't) publication \<Rightarrow> (fs_error, publication_phase) outcome poll \<times> ('d, 't) publication" where
  "pub_poll_advance P p = pub_drive (\<lambda>c d. command_poll c P d) p"

partial_function (option) pub_run ::
  "'d disk \<Rightarrow> ('d, 't) publication \<Rightarrow> ((fs_error, 't) outcome \<times> ('d, 't) publication) option" where
  "pub_run D p =
     (if pb_phase p = PhCommitted then Some (Ok (pb_result p), p)
      else if pb_phase p = PhCancelled then Some (Err FsInvalid, p)
      else (case pub_advance D p of
          (Ok _, p) \<Rightarrow> pub_run D p
        | (Err e, p) \<Rightarrow> Some (Err e, p)
        | (Panic, p) \<Rightarrow> Some (Panic, p)))"

definition pub_drop :: "('d, 't) publication \<Rightarrow> volume \<times> 'd" where
  "pub_drop p =
     (if \<not> pb_pending p \<and> (pb_phase p = PhPreparing \<or> pb_phase p = PhReadyToPublish)
      then ((pb_volume p)\<lparr>vl_poisoned := False\<rparr>, pb_disk p) else (pb_volume p, pb_disk p))"

definition run_to_volume ::
  "'d disk \<Rightarrow> volume \<Rightarrow> 'd \<Rightarrow> (fs_error, ('d, 't) publication) outcome \<Rightarrow> (('d, 't) on_volume) option" where
  "run_to_volume D v d prepared =
     (case prepared of
        Err e \<Rightarrow> Some (Err e, v, d)
      | Panic \<Rightarrow> Some (Panic, v, d)
      | Ok p \<Rightarrow> (case pub_run D p of None \<Rightarrow> None | Some (r, p) \<Rightarrow> (case pub_drop p of (v, d) \<Rightarrow> Some (r, v, d))))"

section \<open>Replacement\<close>

definition prepare_recorded ::
  "volume \<Rightarrow> 'd \<Rightarrow> u32 \<Rightarrow> u64 \<Rightarrow> bytes \<Rightarrow> metadata \<Rightarrow> (node \<Rightarrow> 't) \<Rightarrow> (fs_error, ('d, 't) publication) outcome" where
  "prepare_recorded v d i version bs nxt output =
     and_then (volume_writable v i) (\<lambda>n.
     if nd_kind n \<noteq> KFile then Err FsIsDirectory
     else if nd_version n \<noteq> version then Err FsVersion
     else if length bs > max_file then Err FsSize
     else and_then (metadata_index (vl_metadata v) i) (\<lambda>slot.
       and_then (ok_or FsExhausted (checked_add (md_sequence (vl_metadata v)) 1)) (\<lambda>s.
         let changed = (md_nodes nxt ! slot)\<lparr>nd_bank := 1 - nd_bank n, nd_length := of_nat (length bs),
               nd_checksum := crc bs, nd_version := s\<rparr>;
             nxt = nxt\<lparr>md_nodes := (md_nodes nxt)[slot := changed], md_sequence := s\<rparr>
         in Ok (publication_new v d nxt (data_sector slot (nd_bank changed)) bs (output changed)))))"

definition prepare_replace ::
  "volume \<Rightarrow> 'd \<Rightarrow> u32 \<Rightarrow> u64 \<Rightarrow> bytes \<Rightarrow> (fs_error, ('d, node) publication) outcome" where
  "prepare_replace v d i version bs = prepare_recorded v d i version bs (vl_metadata v) (\<lambda>n. n)"

definition volume_replace :: "'d disk \<Rightarrow> volume \<Rightarrow> u32 \<Rightarrow> u64 \<Rightarrow> bytes \<Rightarrow> 'd \<Rightarrow> (('d, node) on_volume) option" where
  "volume_replace D v i version bs d = run_to_volume D v d (prepare_replace v d i version bs)"

definition replace_recorded ::
  "'d disk \<Rightarrow> volume \<Rightarrow> u32 \<Rightarrow> u64 \<Rightarrow> bytes \<Rightarrow> metadata \<Rightarrow> 'd \<Rightarrow> (('d, node) on_volume) option" where
  "replace_recorded D v i version bs nxt d = run_to_volume D v d (prepare_recorded v d i version bs nxt (\<lambda>n. n))"

end
