(* ===== verification/Mutations.thy ===== *)
theory Mutations
  imports Volume
begin

text \<open>
  Every mutation of the volume plans a complete next generation and then publishes it. This theory shows that
  the plans of \<open>crates/fs/src/mutations.rs\<close> keep the volume well formed (\<open>metadata_ok\<close>), and that ancestry, the
  basis of workspace confinement, is what \<open>within\<close> computes.
\<close>

section \<open>Changing one slot of the table\<close>

definition with_node :: "metadata \<Rightarrow> nat \<Rightarrow> node \<Rightarrow> metadata" where
  "with_node md slot n = md\<lparr>md_nodes := (md_nodes md)[slot := n]\<rparr>"

lemma with_node_simps [simp]:
  "md_sequence (with_node md slot n) = md_sequence md" "md_next (with_node md slot n) = md_next md"
  "md_recovery (with_node md slot n) = md_recovery md" "md_nodes (with_node md slot n) = (md_nodes md)[slot := n]"
  by (simp_all add: with_node_def)

lemma live_with_node:
  assumes "ids_unique md" and "slot < length (md_nodes md)"
  shows "live_nodes (with_node md slot n) =
    (live_nodes md - {md_nodes md ! slot}) \<union> (if nd_kind n = KEmpty then {} else {n})" (is "?l = ?r")
proof (rule set_eqI)
  fix x
  have "x \<in> ?l \<longleftrightarrow> nd_kind x \<noteq> KEmpty \<and> (\<exists>k<length (md_nodes md). x = (if k = slot then n else md_nodes md ! k))"
    using assms(2) by (auto simp: live_nodes_def in_set_conv_nth nth_list_update)
  also have "\<dots> \<longleftrightarrow> nd_kind x \<noteq> KEmpty \<and> (x = n \<or> (\<exists>k<length (md_nodes md). k \<noteq> slot \<and> x = md_nodes md ! k))"
    using assms(2) by auto
  also have "\<dots> \<longleftrightarrow> nd_kind x \<noteq> KEmpty \<and> (x = n \<or> x \<in> live_nodes md - {md_nodes md ! slot})"
  proof -
    have "k = slot" if "nd_kind x \<noteq> KEmpty" "k < length (md_nodes md)" "md_nodes md ! k = x" "x = md_nodes md ! slot" for k
      using assms that unfolding ids_unique_def by metis
    then show ?thesis by (auto simp: live_nodes_def in_set_conv_nth)
  qed
  finally show "x \<in> ?l \<longleftrightarrow> x \<in> ?r" by (auto simp: live_nodes_def)
qed

lemma ids_unique_with_node:
  assumes "ids_unique md" and "slot < length (md_nodes md)"
    and "\<And>x. x \<in> live_nodes md - {md_nodes md ! slot} \<Longrightarrow> nd_kind n \<noteq> KEmpty \<Longrightarrow> nd_id x \<noteq> nd_id n"
  shows "ids_unique (with_node md slot n)"
proof -
  have other: "nd_id (md_nodes md ! k) \<noteq> nd_id n"
    if "k < length (md_nodes md)" "k \<noteq> slot" "nd_kind (md_nodes md ! k) \<noteq> KEmpty" "nd_kind n \<noteq> KEmpty" for k
  proof -
    have "md_nodes md ! k \<noteq> md_nodes md ! slot" using assms(1,2) that unfolding ids_unique_def by metis
    then show ?thesis using assms(3) live_nodesI [OF that(1,3)] that(4) by blast
  qed
  show ?thesis
    unfolding ids_unique_def
  proof (intro allI impI)
    fix i j assume h: "i < length (md_nodes (with_node md slot n))" "j < length (md_nodes (with_node md slot n))"
      "nd_kind (md_nodes (with_node md slot n) ! i) \<noteq> KEmpty" "nd_kind (md_nodes (with_node md slot n) ! j) \<noteq> KEmpty"
      "nd_id (md_nodes (with_node md slot n) ! i) = nd_id (md_nodes (with_node md slot n) ! j)"
    show "i = j"
      using h other [of i] other [of j] assms(1,2) unfolding ids_unique_def
      by (cases "i = slot"; cases "j = slot") (auto simp: nth_list_update)
  qed
qed

text \<open>The change of one file keeps the tree when identity, place, kind, space and name stay.\<close>

definition same_shape :: "node \<Rightarrow> node \<Rightarrow> bool" where
  "same_shape n n' \<longleftrightarrow> nd_id n' = nd_id n \<and> nd_parent n' = nd_parent n \<and> nd_kind n' = nd_kind n \<and>
     nd_space n' = nd_space n \<and> node_name n' = node_name n"

lemma tree_ok_same_shape:
  assumes t: "tree_ok md" and slot: "slot < length (md_nodes md)" and live: "nd_kind (md_nodes md ! slot) \<noteq> KEmpty"
    and shape: "same_shape (md_nodes md ! slot) n" and version: "nd_version n \<le> md_sequence md"
  shows "tree_ok (with_node md slot n)"
proof -
  let ?o = "md_nodes md ! slot" and ?md = "with_node md slot n"
  note ok = tree_okD [OF t]
  have o: "?o \<in> live_nodes md" using live_nodesI [OF slot live] .
  have n: "nd_kind n \<noteq> KEmpty" using live shape by (simp add: same_shape_def)
  have set: "live_nodes ?md = live_nodes md - {?o} \<union> {n}" using live_with_node [OF ok(4) slot, of n] n by simp
  define f where "f x = (if x = ?o then n else x)" for x
  have f: "same_shape x (f x)" for x using shape by (simp add: f_def same_shape_def)
  have img: "live_nodes ?md = f ` live_nodes md" unfolding set using o by (auto simp: f_def)
  have ids: "ids_unique ?md"
  proof (rule ids_unique_with_node [OF ok(4) slot])
    fix x assume "x \<in> live_nodes md - {?o}"
    then show "nd_id x \<noteq> nd_id n" using live_nodes_unique [OF ok(4) _ o, of x] shape by (auto simp: same_shape_def)
  qed
  have r: "rooted ?md i k" if "rooted md i k" for i k
    by (rule rooted_mono [OF that]) (use f in \<open>auto simp: img same_shape_def\<close>)
  have "placed ?md (f x)" if x: "x \<in> live_nodes md" for x
  proof -
    have p: "placed md x" by (rule ok(3) [OF x])
    have "nd_version (f x) \<le> md_sequence md" using p version by (simp add: f_def placed_def)
    moreover have "root_ok (f x) = root_ok x" using f [of x] by (simp add: root_ok_def same_shape_def)
    moreover have "\<exists>q\<in>live_nodes ?md. nd_id q = nd_parent (f x) \<and> nd_kind q = KDirectory \<and> nd_space q = nd_space (f x)"
      if child: "nd_parent x \<noteq> 0"
    proof -
      obtain q where q: "q \<in> live_nodes md" "nd_id q = nd_parent x" "nd_kind q = KDirectory" "nd_space q = nd_space x"
        using p child by (auto simp: placed_def)
      then have "f q \<in> live_nodes ?md" by (simp add: img)
      then show ?thesis using q f [of q] f [of x] by (auto simp: same_shape_def)
    qed
    moreover have "\<exists>k. rooted ?md (nd_id (f x)) k" using p r f [of x] by (auto simp: placed_def same_shape_def)
    ultimately show ?thesis using p f [of x] by (auto simp: placed_def same_shape_def)
  qed
  moreover have "names_unique ?md"
    unfolding names_unique_def img ball_simps
  proof (intro ballI impI)
    fix x y assume h: "x \<in> live_nodes md" "y \<in> live_nodes md" "nd_parent (f x) = nd_parent (f y)" "node_name (f x) = node_name (f y)"
    then have "x = y" using ok(5) f [of x] f [of y] by (simp add: names_unique_def same_shape_def)
    then show "f x = f y" by simp
  qed
  moreover have "\<exists>m\<in>live_nodes ?md. nd_id m = i \<and> nd_parent m = 0" if root: "i \<in> {1, 2, 3, 4}" for i
  proof -
    obtain m where "m \<in> live_nodes md" "nd_id m = i" "nd_parent m = 0" using ok(6) [OF root] by blast
    then show ?thesis using f [of m] by (intro bexI [of _ "f m"]) (simp_all add: img same_shape_def)
  qed
  ultimately show ?thesis using ok(1,2) ids img by (auto simp: tree_ok_def)
qed

section \<open>Queries\<close>

lemma volume_ready_Ok [simp]: "volume_ready v = Ok () \<longleftrightarrow> \<not> vl_poisoned v"
  by (simp add: volume_ready_def)

lemma volume_stat_Ok:
  "volume_stat v i = Ok n \<longleftrightarrow>
     \<not> vl_poisoned v \<and> (\<exists>k. metadata_index (vl_metadata v) i = Ok k \<and> n = md_nodes (vl_metadata v) ! k)"
  by (auto simp: volume_stat_def and_then_Ok_iff volume_ready_def)

lemma volume_stat_live:
  assumes "volume_stat v i = Ok n"
  shows "n \<in> live_nodes (vl_metadata v)" and "nd_id n = i"
  using assms metadata_index_Ok unfolding volume_stat_Ok by blast+

lemma stat_of_live:
  assumes "ids_unique (vl_metadata v)" and "\<not> vl_poisoned v" and "n \<in> live_nodes (vl_metadata v)"
  shows "volume_stat v (nd_id n) = Ok n"
proof -
  obtain k where k: "metadata_index (vl_metadata v) (nd_id n) = Ok k" using metadata_index_live [OF assms(3)] by blast
  then show ?thesis using metadata_index_node [OF assms(1,3) k] assms(2) by (auto simp: volume_stat_Ok)
qed

lemma volume_writable_Ok:
  "volume_writable v i = Ok n \<longleftrightarrow> volume_stat v i = Ok n \<and> nd_space n \<noteq> 1"
  by (auto simp: volume_writable_def and_then_Ok_iff)

lemma lookup_not_found:
  assumes "volume_lookup v parent nm = Err FsNotFound" and "volume_stat v parent = Ok p" and "nd_kind p = KDirectory"
    and "valid_name nm = Ok ()" and "x \<in> live_nodes (vl_metadata v)" and "nd_parent x = parent"
  shows "node_name x \<noteq> nm"
proof -
  have "\<not> vl_poisoned v" using assms(2) by (simp add: volume_stat_Ok)
  then have "find (\<lambda>n. nd_kind n \<noteq> KEmpty \<and> nd_parent n = parent \<and> node_name n = nm) (md_nodes (vl_metadata v)) = None"
    using assms(1-4) by (simp add: volume_lookup_def directory_check_def volume_ready_def split: if_splits)
  then show ?thesis using assms(5,6) by (auto simp: find_None_iff live_nodes_def)
qed

section \<open>Creation\<close>

lemma create_plan_Ok:
  assumes "create_plan v parent nm k = Ok (n, nxt)"
  obtains slot directory where
    "volume_writable v parent = Ok directory" "nd_kind directory = KDirectory" "k \<noteq> KEmpty" "valid_name nm = Ok ()"
    "volume_lookup v parent nm = Err FsNotFound"
    "position (\<lambda>n. nd_kind n = KEmpty) (md_nodes (vl_metadata v)) = Some slot"
    "checked_add (md_next (vl_metadata v)) 1 = Some (md_next nxt)"
    "node_new (md_next (vl_metadata v)) parent (nd_space directory) k nm (nd_version n) = Ok n"
    "checked_add (md_sequence (vl_metadata v)) 1 = Some (nd_version n)"
    "nxt = with_node ((vl_metadata v)\<lparr>md_next := md_next nxt\<rparr>) slot n"
proof -
  obtain slot directory nx ver where h:
    "volume_writable v parent = Ok directory" "nd_kind directory = KDirectory" "k \<noteq> KEmpty" "valid_name nm = Ok ()"
    "volume_lookup v parent nm = Err FsNotFound"
    "position (\<lambda>n. nd_kind n = KEmpty) (md_nodes (vl_metadata v)) = Some slot"
    "checked_add (md_next (vl_metadata v)) 1 = Some nx" "checked_add (md_sequence (vl_metadata v)) 1 = Some ver"
    "node_new (md_next (vl_metadata v)) parent (nd_space directory) k nm ver = Ok n"
    "nxt = (vl_metadata v)\<lparr>md_next := nx, md_nodes := (md_nodes (vl_metadata v))[slot := n]\<rparr>"
    using assms unfolding create_plan_def Let_def and_then_Ok_iff
    by (auto simp: and_then_Ok_iff split: if_splits outcome.splits)
  have "nd_version n = ver" using node_new_Ok(5) [OF h(9)] .
  then show ?thesis using that [of directory slot] h by (simp add: with_node_def)
qed

lemma tree_ok_added:
  assumes t: "tree_ok md" and slot: "slot < length (md_nodes md)" "nd_kind (md_nodes md ! slot) = KEmpty"
    and n: "nd_kind n \<noteq> KEmpty" "nd_id n < md_next md" "nd_version n \<le> md_sequence md"
    and fresh: "\<And>x. x \<in> live_nodes md \<Longrightarrow> nd_id x \<noteq> nd_id n"
    and name: "\<And>x. x \<in> live_nodes md \<Longrightarrow> nd_parent x = nd_parent n \<Longrightarrow> node_name x \<noteq> node_name n"
    and p: "p \<in> live_nodes md" "nd_id p = nd_parent n" "nd_kind p = KDirectory" "nd_space p = nd_space n" "nd_parent n \<noteq> 0"
  shows "tree_ok (with_node md slot n)"
proof -
  let ?md = "with_node md slot n"
  note ok = tree_okD [OF t]
  have "md_nodes md ! slot \<notin> live_nodes md" using slot by (simp add: live_nodes_def)
  then have live: "live_nodes ?md = insert n (live_nodes md)" using live_with_node [OF ok(4) slot(1), of n] n(1) by simp
  have r: "rooted ?md i k" if "rooted md i k" for i k by (rule rooted_mono [OF that]) (auto simp: live)
  obtain k where "rooted md (nd_id p) k" using ok(3) [OF p(1)] by (auto simp: placed_def)
  then have "rooted ?md (nd_id n) (Suc k)" using rooted.child [of n ?md k] r p(2,5) live by simp
  then have "placed ?md n" using n p unfolding placed_def live with_node_simps by auto
  moreover have "placed ?md x" if "x \<in> live_nodes md" for x
    using ok(3) [OF that] r unfolding placed_def live with_node_simps by auto
  moreover have "ids_unique ?md" using ids_unique_with_node [OF ok(4) slot(1)] fresh by blast
  moreover have "names_unique ?md"
    unfolding names_unique_def live
  proof (intro ballI impI)
    fix x y assume "x \<in> insert n (live_nodes md)" "y \<in> insert n (live_nodes md)" "nd_parent x = nd_parent y" "node_name x = node_name y"
    then show "x = y" using ok(5) name [of x] name [of y] unfolding names_unique_def by auto
  qed
  ultimately show ?thesis using ok(1,2,6) unfolding tree_ok_def live with_node_simps by auto
qed

lemma create_plan_ok:
  assumes ok: "metadata_ok (vl_metadata v)" and plan: "create_plan v parent nm k = Ok (n, nxt)"
    and s: "checked_add (md_sequence (vl_metadata v)) 1 = Some s"
  shows "metadata_ok (nxt\<lparr>md_sequence := s\<rparr>)"
proof -
  let ?m = "vl_metadata v"
  obtain slot directory where h:
    "volume_writable v parent = Ok directory" "nd_kind directory = KDirectory" "k \<noteq> KEmpty" "valid_name nm = Ok ()"
    "volume_lookup v parent nm = Err FsNotFound"
    "position (\<lambda>n. nd_kind n = KEmpty) (md_nodes ?m) = Some slot"
    "checked_add (md_next ?m) 1 = Some (md_next nxt)"
    "node_new (md_next ?m) parent (nd_space directory) k nm (nd_version n) = Ok n"
    "checked_add (md_sequence ?m) 1 = Some (nd_version n)"
    "nxt = with_node (?m\<lparr>md_next := md_next nxt\<rparr>) slot n"
    using plan by (rule create_plan_Ok)
  let ?b = "?m\<lparr>md_sequence := s, md_next := md_next nxt\<rparr>"
  note m = metadata_okD [OF ok] and n = node_new_Ok [OF h(8)]
  have sv: "s = nd_version n" using h(9) s by simp
  have le: "md_sequence ?m \<le> s" "md_next ?m < md_next nxt"
    using checked_add_Some_unat [OF s] checked_add_Some_unat [OF h(7)] by (simp_all add: word_le_nat_alt word_less_nat_alt)
  have stat: "volume_stat v parent = Ok directory" using h(1) by (simp add: volume_writable_Ok)
  note d = volume_stat_live [OF stat]
  have dn: "node_ok directory" using m(2) d(1) by (simp add: live_nodes_def)
  have slot: "slot < length (md_nodes ?m)" "nd_kind (md_nodes ?m ! slot) = KEmpty" using h(6) by (auto simp: position_Some_iff)
  have live: "live_nodes ?b = live_nodes ?m" by (simp add: live_nodes_def)
  have eq: "nxt\<lparr>md_sequence := s\<rparr> = with_node ?b slot n"
    by (subst h(10)) (simp add: with_node_def)
  have t: "tree_ok ?b" using tree_ok_later [OF m(3) le(1), of "md_next nxt" "md_recovery ?m"] le(2) by simp
  have "tree_ok (with_node ?b slot n)"
  proof (rule tree_ok_added [OF t, where p = directory])
    show "nd_id x \<noteq> nd_id n" if "x \<in> live_nodes ?b" for x
      using tree_okD(3) [OF m(3), of x] that n(1) live by (auto simp: placed_def)
    show "node_name x \<noteq> node_name n" if "x \<in> live_nodes ?b" "nd_parent x = nd_parent n" for x
      using lookup_not_found [OF h(5) stat h(2,4), of x] that n live by simp
    show "nd_parent n \<noteq> 0" using dn h(2) d(2) n(2) by (simp add: node_ok_def)
  qed (use slot h(2,3) n d live le sv in simp_all)
  moreover have "node_ok n"
  proof (rule node_new_ok [OF h(8)])
    show "md_next ?m \<noteq> 0" using tree_okD(2) [OF m(3)] by auto
    show "nd_version n \<noteq> 0" using le(1) sv tree_okD(1) [OF m(3)] by auto
  qed (use dn h(2,3) in \<open>simp_all add: node_ok_def\<close>)
  moreover have "header_version (with_node ?b slot n) = header_version ?m" by (simp add: header_version_def with_node_def)
  ultimately show ?thesis
    unfolding eq metadata_ok_def using m(1,2) recovery_ok_mono [OF m(4) le(1) less_imp_le [OF le(2)]]
    by (auto dest!: set_update_subset_insert [THEN subsetD])
qed

section \<open>Removal\<close>

lemma tree_ok_removed:
  assumes t: "tree_ok md" and slot: "slot < length (md_nodes md)" "nd_kind (md_nodes md ! slot) \<noteq> KEmpty"
    and inner: "nd_parent (md_nodes md ! slot) \<noteq> 0"
    and leaf: "\<And>x. x \<in> live_nodes md \<Longrightarrow> nd_parent x \<noteq> nd_id (md_nodes md ! slot)"
  shows "tree_ok (with_node md slot empty_node)"
proof -
  let ?md = "with_node md slot empty_node" and ?o = "md_nodes md ! slot"
  note ok = tree_okD [OF t]
  have live: "live_nodes ?md = live_nodes md - {?o}" using live_with_node [OF ok(4) slot(1), of empty_node] by (simp add: empty_node_def)
  have other: "x \<in> live_nodes ?md" if "x \<in> live_nodes md" "nd_id x \<noteq> nd_id ?o" for x using that live by auto
  have r: "rooted ?md i k" if "rooted md i k" "i \<noteq> nd_id ?o" for i k
    using that
  proof (induction rule: rooted.induct)
    case (root n)
    then show ?case using other rooted.root by blast
  next
    case (child n k)
    then show ?case using other leaf rooted.child by blast
  qed
  have "placed ?md x" if x: "x \<in> live_nodes ?md" for x
  proof -
    have xm: "x \<in> live_nodes md" "nd_id x \<noteq> nd_id ?o"
      using x live live_nodes_unique [OF ok(4) _ live_nodesI [OF slot]] by auto
    have "\<exists>p\<in>live_nodes ?md. nd_id p = nd_parent x \<and> nd_kind p = KDirectory \<and> nd_space p = nd_space x"
      if "\<exists>p\<in>live_nodes md. nd_id p = nd_parent x \<and> nd_kind p = KDirectory \<and> nd_space p = nd_space x"
      using that leaf [OF xm(1)] other by metis
    then show ?thesis using ok(3) [OF xm(1)] r [OF _ xm(2)] by (auto simp: placed_def)
  qed
  moreover have "ids_unique ?md" using ids_unique_with_node [OF ok(4) slot(1), of empty_node] by (simp add: empty_node_def)
  moreover have "names_unique ?md" using ok(5) by (auto simp: names_unique_def live)
  moreover have "\<exists>n\<in>live_nodes ?md. nd_id n = i \<and> nd_parent n = 0" if root: "i \<in> {1, 2, 3, 4}" for i
    using ok(6) [OF root] inner live by auto
  ultimately show ?thesis using ok(1,2) by (auto simp: tree_ok_def)
qed

lemma remove_plan_Ok:
  assumes "remove_plan v i = Ok nxt"
  obtains slot where "metadata_index (vl_metadata v) i = Ok slot" "\<not> vl_poisoned v"
    "nd_parent (md_nodes (vl_metadata v) ! slot) \<noteq> 0" "\<And>x. x \<in> live_nodes (vl_metadata v) \<Longrightarrow> nd_parent x \<noteq> i"
    "nd_space (md_nodes (vl_metadata v) ! slot) \<noteq> 1" "nxt = with_node (vl_metadata v) slot empty_node"
proof -
  obtain n where n: "volume_stat v i = Ok n" "nd_space n \<noteq> 1" "nd_parent n \<noteq> 0"
    "\<not> list_ex (\<lambda>m. nd_kind m \<noteq> KEmpty \<and> nd_parent m = i) (md_nodes (vl_metadata v))"
    "and_then (metadata_index (vl_metadata v) i) (\<lambda>slot.
       Ok ((vl_metadata v)\<lparr>md_nodes := (md_nodes (vl_metadata v))[slot := empty_node]\<rparr>)) = Ok nxt"
    using assms unfolding remove_plan_def and_then_Ok_iff [of "volume_writable v i"] volume_writable_Ok by (auto split: if_splits)
  then obtain slot where "metadata_index (vl_metadata v) i = Ok slot" "nxt = with_node (vl_metadata v) slot empty_node"
    by (auto simp: and_then_Ok_iff with_node_def)
  then show ?thesis using that [of slot] n by (auto simp: volume_stat_Ok list_ex_iff live_nodes_def)
qed

lemma remove_plan_ok:
  assumes ok: "metadata_ok (vl_metadata v)" and plan: "remove_plan v i = Ok nxt" and s: "md_sequence (vl_metadata v) \<le> s"
  shows "metadata_ok (nxt\<lparr>md_sequence := s\<rparr>)"
proof -
  let ?m = "vl_metadata v"
  note m = metadata_okD [OF ok]
  obtain slot where h: "metadata_index ?m i = Ok slot" "nd_parent (md_nodes ?m ! slot) \<noteq> 0"
    "\<And>x. x \<in> live_nodes ?m \<Longrightarrow> nd_parent x \<noteq> i" "nxt = with_node ?m slot empty_node"
    using plan by (rule remove_plan_Ok) blast
  note slot = metadata_index_Ok [OF h(1)]
  have "tree_ok (with_node ?m slot empty_node)"
    by (rule tree_ok_removed [OF m(3) slot(1)]) (use slot h in \<open>auto simp: live_nodes_def\<close>)
  moreover have "header_version (with_node ?m slot empty_node) = header_version ?m" by (simp add: header_version_def)
  moreover have "node_ok empty_node" by (simp add: node_ok_def empty_node_def)
  ultimately have "metadata_ok nxt"
    unfolding h(4) metadata_ok_def using m(1,2,4) by (auto dest!: set_update_subset_insert [THEN subsetD])
  then show ?thesis using metadata_ok_later [of nxt s] s h(4) by simp
qed

section \<open>Replacement\<close>

definition replaced_node :: "node \<Rightarrow> bytes \<Rightarrow> u64 \<Rightarrow> node" where
  "replaced_node n bs s = n\<lparr>nd_bank := 1 - nd_bank n, nd_length := of_nat (length bs), nd_checksum := crc bs, nd_version := s\<rparr>"

lemma replaced_node_simps [simp]:
  "nd_bank (replaced_node n bs s) = 1 - nd_bank n" "nd_checksum (replaced_node n bs s) = crc bs"
  "nd_version (replaced_node n bs s) = s" "nd_kind (replaced_node n bs s) = nd_kind n" "nd_id (replaced_node n bs s) = nd_id n"
  by (simp_all add: replaced_node_def)

lemma replaced_node_length: "length bs \<le> max_file \<Longrightarrow> unat (nd_length (replaced_node n bs s)) = length bs"
  by (simp add: replaced_node_def unsigned_of_nat take_bit_nat_eq_self)

lemma two_banks: "bank \<le> 1 \<Longrightarrow> bank = 0 \<or> bank = (1 :: u8)"
  by (auto simp: word_le_nat_alt word_unat_eq_iff)

lemma other_bank: "bank \<le> 1 \<Longrightarrow> 1 - bank \<le> (1 :: u8) \<and> 1 - (1 - bank) = bank \<and> 1 - bank \<noteq> bank"
  using two_banks [of bank] by auto

lemma replaced_node_ok:
  assumes "node_ok n" and "nd_kind n = KFile" and "length bs \<le> max_file" and "s \<noteq> 0"
  shows "node_ok (replaced_node n bs s)"
  using assms other_bank [of "nd_bank n"] replaced_node_length [OF assms(3), of n s]
  by (simp add: node_ok_def replaced_node_def node_name_def)

lemma metadata_ok_replaced:
  assumes ok: "metadata_ok md" and slot: "slot < length (md_nodes md)" and isfile: "nd_kind (md_nodes md ! slot) = KFile"
    and bs: "length bs \<le> max_file"
  shows "metadata_ok (with_node md slot (replaced_node (md_nodes md ! slot) bs (md_sequence md)))"
proof -
  note m = metadata_okD [OF ok]
  let ?n = "replaced_node (md_nodes md ! slot) bs (md_sequence md)"
  have "tree_ok (with_node md slot ?n)"
    by (rule tree_ok_same_shape [OF m(3) slot]) (use isfile in \<open>simp_all add: same_shape_def replaced_node_def node_name_def\<close>)
  moreover have "node_ok ?n" using replaced_node_ok [OF _ isfile bs] m(2) slot tree_okD(1) [OF m(3)] by simp
  moreover have "header_version (with_node md slot ?n) = header_version md" by (simp add: header_version_def)
  ultimately show ?thesis
    unfolding metadata_ok_def using m(1,2,4) by (auto dest!: set_update_subset_insert [THEN subsetD])
qed

section \<open>Ancestry\<close>

text \<open>\<open>under md i scope\<close>: object \<open>scope\<close> is \<open>i\<close> itself or one of its ancestors.\<close>

inductive under :: "metadata \<Rightarrow> u32 \<Rightarrow> u32 \<Rightarrow> bool" for md where
  self: "n \<in> live_nodes md \<Longrightarrow> under md (nd_id n) (nd_id n)"
| above: "n \<in> live_nodes md \<Longrightarrow> nd_parent n \<noteq> 0 \<Longrightarrow> under md (nd_parent n) scope \<Longrightarrow> under md (nd_id n) scope"

lemma under_live: "under md i scope \<Longrightarrow> \<exists>n\<in>live_nodes md. nd_id n = i"
  by (induction rule: under.induct) auto

lemma within_loop_under:
  assumes "ids_unique (vl_metadata v)" and "\<not> vl_poisoned v"
  shows "rooted (vl_metadata v) i k \<Longrightarrow> k < fuel \<Longrightarrow> within_loop v scope i fuel \<longleftrightarrow> under (vl_metadata v) i scope"
proof (induction arbitrary: fuel rule: rooted.induct)
  case (root n)
  then obtain f where f: "fuel = Suc f" by (cases fuel) auto
  have "under (vl_metadata v) (nd_id n) scope \<longleftrightarrow> nd_id n = scope"
  proof
    assume "under (vl_metadata v) (nd_id n) scope"
    then show "nd_id n = scope"
    proof (cases rule: under.cases)
      case (above x)
      then show ?thesis using live_nodes_unique [OF assms(1) above(2) root(1)] root(2) by simp
    qed simp
  qed (use under.self root in blast)
  then show ?case using stat_of_live [OF assms root(1)] root(2) f by simp
next
  case (child n k)
  then obtain f where f: "fuel = Suc f" "k < f" by (cases fuel) auto
  have "under (vl_metadata v) (nd_id n) scope \<longleftrightarrow> nd_id n = scope \<or> under (vl_metadata v) (nd_parent n) scope"
  proof
    assume "under (vl_metadata v) (nd_id n) scope"
    then show "nd_id n = scope \<or> under (vl_metadata v) (nd_parent n) scope"
    proof (cases rule: under.cases)
      case (above x)
      then have "x = n" using live_nodes_unique [OF assms(1) above(2) child(1)] by simp
      then show ?thesis using above by simp
    qed simp
  qed (use under.self [OF child(1)] under.above [OF child(1,2)] in blast)
  then show ?case using stat_of_live [OF assms child(1)] child(2) child.IH [OF f(2)] f(1) by simp
qed

section \<open>Properties\<close>

text \<open>C7 Workspace confinement is ancestry: on every mounted volume \<open>within\<close> answers true exactly when the object
  exists and the scope is zero (the whole volume) or the object itself or one of its ancestors. The loop is cut
  off after as many steps as the table has slots, which never changes the answer; a fenced volume contains
  nothing.\<close>

theorem within_is_ancestry:
  assumes "metadata_ok (vl_metadata v)"
  shows "volume_within v i scope \<longleftrightarrow> \<not> vl_poisoned v \<and>
    (if scope = 0 then \<exists>n\<in>live_nodes (vl_metadata v). nd_id n = i else under (vl_metadata v) i scope)"
proof (cases "vl_poisoned v")
  case True
  then have "volume_stat v j = Err FsUncertain" for j by (simp add: volume_stat_def volume_ready_def)
  then have "within_loop v scope i k = False" for k by (cases k) simp_all
  then show ?thesis using True \<open>volume_stat v i = Err FsUncertain\<close> by (simp add: volume_within_def)
next
  case False
  note t = metadata_okD(3) [OF assms]
  note u = tree_okD(4) [OF t]
  have stat: "is_ok (volume_stat v i) \<longleftrightarrow> (\<exists>n\<in>live_nodes (vl_metadata v). nd_id n = i)"
    using volume_stat_live stat_of_live [OF u False] by (auto simp: is_ok_iff) blast+
  have "within_loop v scope i objects \<longleftrightarrow> under (vl_metadata v) i scope"
  proof (cases "\<exists>n\<in>live_nodes (vl_metadata v). nd_id n = i")
    case True
    then obtain k where k: "rooted (vl_metadata v) i k" using tree_okD(3) [OF t] by (auto simp: placed_def)
    then have "k < objects" using rooted_bound [OF u] metadata_okD(1) [OF assms] by fastforce
    then show ?thesis by (rule within_loop_under [OF u False k])
  next
    case none: False
    have "within_loop v scope i (Suc k) = False" for k
      using stat none by (cases "volume_stat v i") (auto simp: is_ok_iff)
    then show ?thesis using none under_live [of "vl_metadata v" i scope] by (metis numeral_nat(2) numeral_eq_Suc)
  qed
  then show ?thesis using False stat by (simp add: volume_within_def)
qed

theorem within_is_ancestry_witness:
  "volume_within \<lparr>vl_metadata = initial_metadata, vl_bank = 0, vl_poisoned = False\<rparr> 2 2"
proof -
  have live: "root_node 1 \<in> live_nodes initial_metadata" by (simp add: live_initial)
  have "under initial_metadata 2 2" using under.self [OF live] root_node_fields(1) [of 1] by simp
  then show ?thesis
    using within_is_ancestry [of "\<lparr>vl_metadata = initial_metadata, vl_bank = 0, vl_poisoned = False\<rparr>" 2 2] initial_metadata_ok by simp
qed

end
