(* ===== verification/Durability.thy ===== *)
theory Durability
  imports Publication Mutations
begin

text \<open>
  What survives a crash. Locale \<open>durable_disk\<close> is the contract of the \<open>Disk\<close> trait: reads see the live
  sectors, a write changes only its sector, a successful flush makes every live sector durable, and an error is
  not a rollback: a failed write may leave its sector torn, a prefix of the new bytes before the rest of the old
  ones. A crash leaves each sector as it was durable, as it was live, or torn between the two. Inside the locale the publication
  order is shown to be crash-atomic: at every moment, mounting selects the old or the new generation, provided
  the checksum of the header tells a torn header from a whole one (\<open>tear_detected\<close>). Every operation is also run on
  \<open>cut_disk\<close>, a disk that stops after any given number of commands, so that the claims are about the commands the
  operation itself issues. The contract is interpreted on the tearing disk of the crate's own failure tests
  (\<open>MemoryDisk\<close> of \<open>crates/fs/tests/support/mod.rs\<close>).
\<close>

section \<open>Command sequences\<close>

primrec run_commands :: "'d disk \<Rightarrow> command list \<Rightarrow> 'd \<Rightarrow> (fs_error, unit) outcome \<times> 'd" where
  "run_commands D [] d = (Ok (), d)"
| "run_commands D (c # cs) d = io_then (command_execute c D d) (\<lambda>_ d. run_commands D cs d)"

text \<open>The states in which a crash can interrupt a sequence: after some successful commands, and after a
  command that failed, behind which nothing more is issued.\<close>

inductive during :: "'d disk \<Rightarrow> command list \<Rightarrow> 'd \<Rightarrow> 'd \<Rightarrow> bool" for D where
  now: "during D cs d d"
| failed: "command_execute c D d = (r, d') \<Longrightarrow> during D (c # cs) d d'"
| later: "command_execute c D d = (Ok (), d1) \<Longrightarrow> during D cs d1 d' \<Longrightarrow> during D (c # cs) d d'"

inductive_simps during_Cons_iff: "during D (c # cs) d d'"

lemma during_append:
  "during D (xs @ ys) d d' \<Longrightarrow> during D xs d d' \<or> (\<exists>d1. run_commands D xs d = (Ok (), d1) \<and> during D ys d1 d')"
proof (induction xs arbitrary: d)
  case (Cons c xs)
  then consider "d' = d" | r where "command_execute c D d = (r, d')"
    | d1 where "command_execute c D d = (Ok (), d1)" "during D (xs @ ys) d1 d'"
    by (auto simp: during_Cons_iff)
  then show ?case
  proof cases
    case 3
    then show ?thesis using Cons.IH [OF 3(2)] by (auto intro: during.later)
  qed (auto intro: during.now during.failed)
qed simp

lemma run_commands_append:
  "run_commands D (xs @ ys) d = (Ok (), d') \<longleftrightarrow> (\<exists>d1. run_commands D xs d = (Ok (), d1) \<and> run_commands D ys d1 = (Ok (), d'))"
  by (induction xs arbitrary: d) (auto simp: io_then_Ok_iff)

lemma run_commands_during: "run_commands D cs d = (r, d') \<Longrightarrow> during D cs d d'"
proof (induction cs arbitrary: d)
  case (Cons c cs)
  obtain r1 d1 where c: "command_execute c D d = (r1, d1)" by fastforce
  then show ?case using Cons by (cases r1) (auto intro: during.intros)
qed (auto intro: during.now)

section \<open>Generations\<close>

text \<open>A header that reading its bank refuses before any other sector is looked at.\<close>

definition header_rejected :: "bytes \<Rightarrow> bool" where
  "header_rejected h \<longleftrightarrow> h = zero_sector \<or> header_bad h \<or> u32_at h 28 \<noteq> crc (put h 28 (replicate 4 0))"

definition old_header :: "bytes \<Rightarrow> u64 \<Rightarrow> bool" where
  "old_header h s \<longleftrightarrow> header_rejected h \<or> u64_at h 12 < s"

definition bank_sectors :: "u8 \<Rightarrow> nat set" where
  "bank_sectors bank = {header_sector bank..<header_sector bank + 5} \<union> {recovery_sector bank..<recovery_sector bank + 7}"

definition full_sectors :: "(nat \<Rightarrow> bytes) \<Rightarrow> bool" where
  "full_sectors m \<longleftrightarrow> (\<forall>s. length (m s) = 512)"

lemma old_header_content:
  assumes "full_sectors m" and "old_header (m (header_sector bank)) s" and "bank_content m bank = Ok md"
  shows "md_sequence md < s"
proof -
  have "md_sequence md = u64_at (m (header_sector bank)) 12"
    using bank_content_cases [of m bank] assms(1,3) by (auto simp: full_sectors_def)
  moreover have "\<not> (m (header_sector bank) = zero_sector \<or> header_bad (m (header_sector bank)) \<or>
      u32_at (m (header_sector bank)) 28 \<noteq> crc (put (m (header_sector bank)) 28 (replicate 4 0)))"
  proof
    assume "m (header_sector bank) = zero_sector \<or> header_bad (m (header_sector bank)) \<or>
      u32_at (m (header_sector bank)) 28 \<noteq> crc (put (m (header_sector bank)) 28 (replicate 4 0))"
    then have "bank_content m bank = Err FsEmpty \<or> bank_content m bank = Err FsCorrupt"
      unfolding bank_content_eq Let_def by auto
    then show False using assms(3) by auto
  qed
  ultimately show ?thesis using assms(2) by (auto simp: old_header_def header_rejected_def)
qed

lemma published_header_old: "md_sequence md < s \<Longrightarrow> old_header (publication_header md) s"
  using publication_header_fields [of md] by (simp add: old_header_def)

text \<open>What an interrupted write may leave, and the property of the header checksum that recovery rests on: a header
  torn between the old and the new one is refused. A checksum of 32 bits cannot promise this for all contents.\<close>

definition torn :: "bytes \<Rightarrow> bytes \<Rightarrow> bytes \<Rightarrow> bool" where
  "torn old new h \<longleftrightarrow> h = new \<or> (\<exists>n\<le>length new. h = take n new @ drop n old)"

definition tear_detected :: "bytes \<Rightarrow> bytes \<Rightarrow> bool" where
  "tear_detected old new \<longleftrightarrow> (\<forall>h. torn old new h \<longrightarrow> h = old \<or> h = new \<or> header_rejected h)"

lemma torn_none [simp]: "torn old new old"
  unfolding torn_def by (rule disjI2, rule exI [of _ 0]) simp

lemma torn_all [simp]: "torn old new new"
  by (simp add: torn_def)

lemma torn_same [simp]: "torn x x = (\<lambda>h. h = x)"
  by (rule ext) (auto simp: torn_def)

lemma torn_again:
  assumes "torn old new x" and "torn old x h"
  shows "torn old new h"
proof -
  have "torn old new (take n (take k new @ drop k old) @ drop n old)" if "k \<le> length new" for n k
  proof (cases "n \<le> k")
    case True
    then show ?thesis unfolding torn_def using that by (intro disjI2 exI [of _ n]) (simp add: min_def)
  next
    case False
    then have "take n (take k new @ drop k old) @ drop n old = take k new @ drop k old"
      using that append_take_drop_id [of "n - k" "drop k old"] by simp
    then show ?thesis unfolding torn_def using that by (intro disjI2 exI [of _ k]) simp
  qed
  then have half: "torn old new h" if "x = take k new @ drop k old" "h = take n x @ drop n old" "k \<le> length new" for k n
    using that by blast
  consider "x = new" | "h = x" | k n where "x = take k new @ drop k old" "h = take n x @ drop n old" "k \<le> length new"
    using assms unfolding torn_def [of _ _ x] torn_def [of _ x h] by blast
  then show ?thesis using assms half by cases simp_all
qed

lemma bank_holds_cong:
  assumes "\<And>s. s \<in> bank_sectors bank \<Longrightarrow> m s = m' s"
  shows "bank_holds m bank md = bank_holds m' bank md"
proof -
  have "m (header_sector bank) = m' (header_sector bank)" using assms by (simp add: bank_sectors_def)
  moreover have "bank_nodes m bank = bank_nodes m' bank"
    unfolding bank_nodes_def by (rule arg_cong [where f = concat]) (use assms in \<open>auto simp: bank_sectors_def\<close>)
  moreover have "bank_records m bank = bank_records m' bank"
    unfolding bank_records_def by (rule arg_cong [where f = concat]) (use assms in \<open>auto simp: bank_sectors_def\<close>)
  ultimately show ?thesis by (simp add: bank_holds_def)
qed

lemma banks_disjoint: "bank \<le> 1 \<Longrightarrow> bank_sectors bank \<inter> bank_sectors (1 - bank) = {}"
  using two_banks [of bank] by (auto simp: bank_sectors_def header_sector_def recovery_sector_def)

lemma mount_image:
  assumes "full_sectors m"
  shows "mount_metadata image_disk m = (select_generation (bank_content m 0) (bank_content m 1), m)"
proof -
  have state: "metadata_read image_disk bank m = (bank_content m bank, m)" for bank
  proof -
    have rd: "disk_read image_disk s m = (Ok (m s), m)" for s by (simp add: image_disk_def)
    have io: "snd (io_then (x, m) f) = m" if "\<And>y. snd (f y m) = m" for x :: "(fs_error, 'a) outcome" and f :: "'a \<Rightarrow> _ \<Rightarrow> (fs_error, 'b) outcome \<times> _"
      using that by (cases x) auto
    have rec: "snd (read_recovery image_disk bank b md m) = m" for b md
      by (simp add: read_recovery_def read_sectors_image)
    have "snd (metadata_read image_disk bank m) = m"
      unfolding metadata_read_def rd io_then_simps Let_def read_sectors_image
      by (auto intro!: io simp: read_recovery_def read_sectors_image split: outcome.splits)
    then show ?thesis by (simp add: bank_content_def prod_eq_iff)
  qed
  have ok: "bank_content m bank \<noteq> Panic" "read_failed (bank_content m bank) = None" for bank
    using bank_content_cases [of m bank] assms by (auto simp: full_sectors_def read_failed_def)
  show ?thesis
    unfolding mount_metadata_def state using ok [of 0] ok [of 1]
    by (cases "bank_content m 0"; cases "bank_content m 1") (simp_all add: state)
qed

lemma mount_selects:
  assumes "full_sectors m" and "bank \<le> 1" and "bank_content m bank = Ok md"
    and "\<And>md'. bank_content m (1 - bank) = Ok md' \<Longrightarrow> md_sequence md' < md_sequence md"
  shows "fst (mount_metadata image_disk m) = Ok (md, bank)"
proof -
  have "bank_content m (1 - bank) \<noteq> Panic"
    using bank_content_cases [of m "1 - bank"] assms(1) by (auto simp: full_sectors_def)
  then show ?thesis
    using two_banks [OF assms(2)] assms(3,4)
    by (cases "bank_content m (1 - bank)") (auto simp: mount_image [OF assms(1)] select_generation_def split: fs_error.splits)
qed

section \<open>The contract\<close>

definition sector_values :: "('d \<Rightarrow> nat \<Rightarrow> bytes) \<Rightarrow> ('d \<Rightarrow> nat \<Rightarrow> bytes) \<Rightarrow> 'd \<Rightarrow> nat \<Rightarrow> bytes set" where
  "sector_values live durable d s = Collect (torn (durable d s) (live d s))"

definition crash_image :: "('d \<Rightarrow> nat \<Rightarrow> bytes) \<Rightarrow> ('d \<Rightarrow> nat \<Rightarrow> bytes) \<Rightarrow> 'd \<Rightarrow> (nat \<Rightarrow> bytes) \<Rightarrow> bool" where
  "crash_image live durable d m \<longleftrightarrow> (\<forall>s. m s \<in> sector_values live durable d s)"

primrec writes :: "command \<Rightarrow> nat \<Rightarrow> bool" where
  "writes (CWrite s b) t \<longleftrightarrow> t = s"
| "writes CFlush t \<longleftrightarrow> False"


definition generation_safe :: "('d \<Rightarrow> nat \<Rightarrow> bytes) \<Rightarrow> ('d \<Rightarrow> nat \<Rightarrow> bytes) \<Rightarrow> 'd \<Rightarrow> volume \<Rightarrow> bool" where
  "generation_safe live durable d v \<longleftrightarrow>
     metadata_ok (vl_metadata v) \<and> vl_bank v \<le> 1 \<and>
     (\<forall>m. crash_image live durable d m \<longrightarrow> bank_holds m (vl_bank v) (vl_metadata v)) \<and>
     (\<forall>h\<in>sector_values live durable d (header_sector (1 - vl_bank v)). old_header h (md_sequence (vl_metadata v)))"

text \<open>A publication: commands that prepare the other bank without touching the current one or its own header,
  then the flush, the header and the final flush.\<close>

definition publishes :: "command list \<Rightarrow> volume \<Rightarrow> metadata \<Rightarrow> bool" where
  "publishes pre v nxt \<longleftrightarrow>
     (\<forall>c\<in>set pre. \<forall>s. writes c s \<longrightarrow> s \<notin> bank_sectors (vl_bank v) \<and> s \<noteq> header_sector (1 - vl_bank v)) \<and>
     (\<forall>m. (\<forall>s b. CWrite s b \<in> set pre \<longrightarrow> m s = b) \<longrightarrow> m (header_sector (1 - vl_bank v)) = publication_header nxt \<longrightarrow>
        bank_holds m (1 - vl_bank v) nxt) \<and>
     (\<forall>s b b'. CWrite s b \<in> set pre \<longrightarrow> CWrite s b' \<in> set pre \<longrightarrow> b = b') \<and>
     metadata_ok nxt \<and> md_sequence (vl_metadata v) < md_sequence nxt"

lemma publishes_header: "publishes pre v nxt \<Longrightarrow> CWrite s b \<in> set pre \<Longrightarrow> s \<noteq> header_sector (1 - vl_bank v)"
  unfolding publishes_def using writes.simps(1) by blast

definition publication_commands :: "command list \<Rightarrow> volume \<Rightarrow> metadata \<Rightarrow> command list" where
  "publication_commands pre v nxt =
     pre @ [CFlush, CWrite (header_sector (1 - vl_bank v)) (publication_header nxt), CFlush]"

locale durable_disk =
  fixes D :: "'d disk" and live :: "'d \<Rightarrow> nat \<Rightarrow> bytes" and durable :: "'d \<Rightarrow> nat \<Rightarrow> bytes"
  assumes read_live: "disk_read D s d = (Ok b, d') \<Longrightarrow> b = live d s"
    and read_keeps: "disk_read D s d = (q, d') \<Longrightarrow> live d' = live d \<and> durable d' = durable d"
    and write_live: "disk_write D s b d = (Ok (), d') \<Longrightarrow> live d' s = b"
    and write_torn: "disk_write D s b d = (r, d') \<Longrightarrow> torn (live d s) b (live d' s)"
    and write_other: "disk_write D s b d = (r, d') \<Longrightarrow> t \<noteq> s \<Longrightarrow> live d' t = live d t"
    and write_durable: "disk_write D s b d = (r, d') \<Longrightarrow> durable d' t = durable d t \<or> durable d' t = live d' t"
    and flush_live: "disk_flush D d = (r, d') \<Longrightarrow> live d' = live d"
    and flush_durable: "disk_flush D d = (r, d') \<Longrightarrow> durable d' t = durable d t \<or> durable d' t = live d t"
    and flush_ok: "disk_flush D d = (Ok (), d') \<Longrightarrow> durable d' = live d"
    and answers: "fst (disk_read D s d) \<noteq> Panic" "fst (disk_write D s b d) \<noteq> Panic" "fst (disk_flush D d) \<noteq> Panic"
begin

abbreviation holds_at :: "'d \<Rightarrow> nat \<Rightarrow> bytes set" where
  "holds_at \<equiv> sector_values live durable"

lemma command_keeps:
  assumes "command_execute c D d = (r, d')" and "\<not> writes c t"
  shows "holds_at d' t \<subseteq> holds_at d t" and "live d' t = live d t"
proof -
  have "(durable d' t = durable d t \<or> durable d' t = live d t) \<and> live d' t = live d t"
  proof (cases c)
    case (CWrite s b)
    then have w: "disk_write D s b d = (r, d')" "t \<noteq> s" using assms by auto
    then show ?thesis using write_other [OF w] write_durable [OF w(1), of t] by auto
  next
    case CFlush
    then have w: "disk_flush D d = (r, d')" using assms(1) by simp
    show ?thesis using flush_live [OF w] flush_durable [OF w, of t] by auto
  qed
  then show "holds_at d' t \<subseteq> holds_at d t" "live d' t = live d t" by (auto simp: sector_values_def)
qed

lemma during_keeps:
  assumes "during D cs d d'" and "\<And>c. c \<in> set cs \<Longrightarrow> \<not> writes c t"
  shows "holds_at d' t \<subseteq> holds_at d t"
  using assms
proof (induction rule: during.induct)
  case (failed c d r d' cs)
  then show ?case using command_keeps(1) [of c d r d' t] by simp
next
  case (later c d d1 cs d')
  then have "holds_at d1 t \<subseteq> holds_at d t" using command_keeps(1) [of c d "Ok ()" d1 t] by simp
  then show ?case using later by auto
qed simp

lemma run_keeps:
  assumes "run_commands D cs d = (Ok (), d')" and "\<And>c. c \<in> set cs \<Longrightarrow> \<not> writes c t"
  shows "holds_at d' t \<subseteq> holds_at d t" and "live d' t = live d t"
proof -
  have "holds_at d' t \<subseteq> holds_at d t \<and> live d' t = live d t"
    using assms
  proof (induction cs arbitrary: d)
    case (Cons c cs)
    then obtain d1 where "command_execute c D d = (Ok (), d1)" "run_commands D cs d1 = (Ok (), d')"
      by (auto simp: io_then_Ok_iff)
    then show ?case using Cons.IH [of d1] Cons.prems(2) command_keeps [of c d "Ok ()" d1 t] by auto
  qed simp
  then show "holds_at d' t \<subseteq> holds_at d t" "live d' t = live d t" by auto
qed

text \<open>After the last write to a sector its new content is live, and nothing later takes it back.\<close>

lemma run_writes_live:
  assumes "run_commands D cs d = (Ok (), d')" and "CWrite s b \<in> set cs" and "\<And>b'. CWrite s b' \<in> set cs \<Longrightarrow> b' = b"
  shows "live d' s = b"
  using assms
proof (induction cs arbitrary: d)
  case (Cons c cs)
  from Cons.prems(1) obtain d1 where d1: "command_execute c D d = (Ok (), d1)" "run_commands D cs d1 = (Ok (), d')"
    by (auto simp: io_then_Ok_iff)
  show ?case
  proof (cases "CWrite s b \<in> set cs")
    case True
    then show ?thesis by (rule Cons.IH [OF d1(2)]) (simp add: Cons.prems(3))
  next
    case False
    then have c: "c = CWrite s b" using Cons.prems(2) by simp
    have "\<not> writes x s" if x: "x \<in> set cs" for x
    proof
      assume "writes x s"
      then obtain b' where "x = CWrite s b'" by (cases x) auto
      then show False using x False Cons.prems(3) [of b'] by auto
    qed
    then have "live d' s = live d1 s" using run_keeps(2) [OF d1(2)] by blast
    then show ?thesis using write_live [of s b d d1] d1(1) c by simp
  qed
qed simp

lemma bank_kept:
  assumes "generation_safe live durable d v" and "crash_image live durable d' m"
    and "\<And>s. s \<in> bank_sectors (vl_bank v) \<Longrightarrow> holds_at d' s \<subseteq> holds_at d s"
  shows "bank_content m (vl_bank v) = Ok (vl_metadata v)" and "bank_holds m (vl_bank v) (vl_metadata v)"
proof -
  define m' where "m' s = (if s \<in> bank_sectors (vl_bank v) then m s else live d s)" for s
  have "m' s \<in> holds_at d s" for s
  proof (cases "s \<in> bank_sectors (vl_bank v)")
    case True
    then show ?thesis using assms(3) [OF True] assms(2) by (auto simp: m'_def crash_image_def)
  qed (simp add: m'_def sector_values_def)
  then have "bank_holds m' (vl_bank v) (vl_metadata v)"
    using assms(1) by (auto simp: generation_safe_def crash_image_def)
  then show "bank_holds m (vl_bank v) (vl_metadata v)"
    using bank_holds_cong [of "vl_bank v" m' m] by (simp add: m'_def)
  then show "bank_content m (vl_bank v) = Ok (vl_metadata v)"
    using assms(1) bank_holds_content by (simp add: generation_safe_def)
qed

text \<open>The current generation is what mounting selects, as long as the other header is old.\<close>

lemma safe_selects:
  assumes "generation_safe live durable d v" and "crash_image live durable d' m" and "full_sectors m"
    and "\<And>s. s \<in> bank_sectors (vl_bank v) \<Longrightarrow> holds_at d' s \<subseteq> holds_at d s"
    and "old_header (m (header_sector (1 - vl_bank v))) (md_sequence (vl_metadata v))"
  shows "fst (mount_metadata image_disk m) = Ok (vl_metadata v, vl_bank v)"
proof (rule mount_selects [OF assms(3)])
  show "vl_bank v \<le> 1" using assms(1) by (simp add: generation_safe_def)
  show "bank_content m (vl_bank v) = Ok (vl_metadata v)" by (rule bank_kept(1) [OF assms(1,2,4)])
qed (rule old_header_content [OF assms(3,5)])

lemma selects_old:
  assumes "generation_safe live durable d v" and "\<And>c s. c \<in> set cs \<Longrightarrow> writes c s \<Longrightarrow> s \<notin> bank_sectors (vl_bank v)"
    and "\<And>c. c \<in> set cs \<Longrightarrow> \<not> writes c (header_sector (1 - vl_bank v))"
    and "during D cs d d'" and "crash_image live durable d' m" and "full_sectors m"
  shows "fst (mount_metadata image_disk m) = Ok (vl_metadata v, vl_bank v)"
proof (rule safe_selects [OF assms(1,5,6)])
  fix s assume "s \<in> bank_sectors (vl_bank v)"
  then show "holds_at d' s \<subseteq> holds_at d s" using during_keeps [OF assms(4)] assms(2) by blast
next
  have "m (header_sector (1 - vl_bank v)) \<in> holds_at d (header_sector (1 - vl_bank v))"
    using assms(5) during_keeps [OF assms(4) assms(3)] by (auto simp: crash_image_def)
  then show "old_header (m (header_sector (1 - vl_bank v))) (md_sequence (vl_metadata v))"
    using assms(1) by (auto simp: generation_safe_def)
qed

text \<open>Once the prepared sectors are durable, only the header decides.\<close>

lemma prepared_durable:
  assumes pub: "publishes pre v nxt" and run: "run_commands D (pre @ [CFlush]) d = (Ok (), d2)"
    and dur: "during D [CWrite (header_sector (1 - vl_bank v)) (publication_header nxt), CFlush] d2 d'"
    and m: "crash_image live durable d' m" and w: "CWrite s b \<in> set pre"
  shows "m s = b"
proof -
  obtain d1 where d1: "run_commands D pre d = (Ok (), d1)" "disk_flush D d1 = (Ok (), d2)"
    using run by (auto simp: run_commands_append io_then_Ok_iff)
  have ne: "s \<noteq> header_sector (1 - vl_bank v)" by (rule publishes_header [OF pub w])
  have same: "b' = b" if "CWrite s b' \<in> set pre" for b'
    using pub that w unfolding publishes_def by blast
  have "live d1 s = b" using run_writes_live [OF d1(1) w same] .
  moreover have "holds_at d2 s = {live d1 s}"
    using flush_ok [OF d1(2)] flush_live [OF d1(2)] by (simp add: sector_values_def)
  moreover have "holds_at d' s \<subseteq> holds_at d2 s" by (rule during_keeps [OF dur]) (use ne in auto)
  ultimately show ?thesis using m by (auto simp: crash_image_def)
qed

lemma selects_after_flush:
  assumes safe: "generation_safe live durable d v" and pub: "publishes pre v nxt"
    and run: "run_commands D (pre @ [CFlush]) d = (Ok (), d2)"
    and dur: "during D [CWrite (header_sector (1 - vl_bank v)) (publication_header nxt), CFlush] d2 d'"
    and m: "crash_image live durable d' m" "full_sectors m"
    and tear: "tear_detected (live d (header_sector (1 - vl_bank v))) (publication_header nxt)"
  shows "fst (mount_metadata image_disk m) = Ok (vl_metadata v, vl_bank v) \<and> m (header_sector (1 - vl_bank v)) \<noteq> publication_header nxt \<or>
    fst (mount_metadata image_disk m) = Ok (nxt, 1 - vl_bank v) \<and> bank_holds m (1 - vl_bank v) nxt"
proof -
  let ?hdr = "header_sector (1 - vl_bank v)" and ?new = "publication_header nxt"
  have pre: "\<And>c s. c \<in> set pre \<Longrightarrow> writes c s \<Longrightarrow> s \<notin> bank_sectors (vl_bank v) \<and> s \<noteq> ?hdr"
    using pub by (auto simp: publishes_def)
  have bank: "vl_bank v \<le> 1" using safe by (simp add: generation_safe_def)
  have hdr: "?hdr \<notin> bank_sectors (vl_bank v)"
    using banks_disjoint [OF bank] by (auto simp: bank_sectors_def)
  have keep: "holds_at d2 s \<subseteq> holds_at d s" if "s \<in> bank_sectors (vl_bank v) \<or> s = ?hdr" for s
    using run_keeps [OF run, of s] pre that by fastforce
  have later: "holds_at d' s \<subseteq> holds_at d2 s" if "s \<noteq> ?hdr" for s
    by (rule during_keeps [OF dur]) (use that in auto)
  have same: "live d2 ?hdr = live d ?hdr" using run_keeps(2) [OF run, of ?hdr] pre by fastforce
  obtain d1 where "disk_flush D d1 = (Ok (), d2)" using run by (auto simp: run_commands_append io_then_Ok_iff)
  then have flushed: "durable d2 ?hdr = live d2 ?hdr" using flush_ok flush_live by metis
  have left: "holds_at d3 ?hdr \<subseteq> insert ?new (holds_at d2 ?hdr) \<union> Collect header_rejected"
    if "disk_write D ?hdr ?new d2 = (r, d3)" for r d3
  proof
    fix h assume "h \<in> holds_at d3 ?hdr"
    then have "torn (live d2 ?hdr) ?new h"
      using write_durable [OF that, of ?hdr] flushed torn_again [OF write_torn [OF that], of h] write_torn [OF that]
      by (auto simp: sector_values_def)
    then show "h \<in> insert ?new (holds_at d2 ?hdr) \<union> Collect header_rejected"
      using tear same by (auto simp: tear_detected_def sector_values_def)
  qed
  have head: "holds_at d' ?hdr \<subseteq> insert ?new (holds_at d2 ?hdr) \<union> Collect header_rejected"
  proof -
    consider "d' = d2" | r where "disk_write D ?hdr ?new d2 = (r, d')"
      | d3 where "disk_write D ?hdr ?new d2 = (Ok (), d3)" "during D [CFlush] d3 d'"
      using dur by (auto simp: during_Cons_iff)
    then show ?thesis
    proof cases
      case (2 r)
      then show ?thesis by (rule left)
    next
      case 3
      have "holds_at d' ?hdr \<subseteq> holds_at d3 ?hdr" using during_keeps [OF 3(2)] by simp
      then show ?thesis using left [OF 3(1)] by (rule subset_trans)
    qed auto
  qed
  show ?thesis
  proof (cases "m ?hdr = ?new")
    case True
    have "m s = b" if w: "CWrite s b \<in> set pre" for s b by (rule prepared_durable [OF pub run dur m(1) w])
    then have "bank_holds m (1 - vl_bank v) nxt" using pub True by (auto simp: publishes_def)
    moreover have "bank_content m (1 - vl_bank v) = Ok nxt"
      using bank_holds_content [OF _ calculation] pub by (simp add: publishes_def)
    moreover have "bank_content m (vl_bank v) = Ok (vl_metadata v)"
    proof (rule bank_kept(1) [OF safe m(1)])
      fix s assume "s \<in> bank_sectors (vl_bank v)"
      then show "holds_at d' s \<subseteq> holds_at d s" using keep [of s] later [of s] hdr by auto
    qed
    then have "md_sequence md' < md_sequence nxt" if "bank_content m (vl_bank v) = Ok md'" for md'
      using that pub by (simp add: publishes_def)
    ultimately show ?thesis
      using mount_selects [OF m(2), of "1 - vl_bank v" nxt] other_bank [OF bank] by simp
  next
    case False
    have "m ?hdr \<in> holds_at d2 ?hdr \<or> header_rejected (m ?hdr)" using m(1) head False by (auto simp: crash_image_def)
    then have "old_header (m ?hdr) (md_sequence (vl_metadata v))"
      using keep [of ?hdr] safe by (auto simp: generation_safe_def old_header_def)
    moreover have "holds_at d' s \<subseteq> holds_at d s" if "s \<in> bank_sectors (vl_bank v)" for s
      using keep [of s] later [of s] hdr that by auto
    ultimately show ?thesis using False safe_selects [OF safe m] by blast
  qed
qed

lemma publish_atomic:
  assumes safe: "generation_safe live durable d v" and pub: "publishes pre v nxt"
    and dur: "during D (publication_commands pre v nxt) d d'" and m: "crash_image live durable d' m" "full_sectors m"
    and tear: "tear_detected (live d (header_sector (1 - vl_bank v))) (publication_header nxt)"
  shows "fst (mount_metadata image_disk m) = Ok (vl_metadata v, vl_bank v) \<or>
    fst (mount_metadata image_disk m) = Ok (nxt, 1 - vl_bank v) \<and> (\<forall>s b. CWrite s b \<in> set pre \<longrightarrow> m s = b)"
proof -
  let ?tail = "[CWrite (header_sector (1 - vl_bank v)) (publication_header nxt), CFlush]"
  have "during D ((pre @ [CFlush]) @ ?tail) d d'" using dur by (simp add: publication_commands_def)
  from during_append [OF this] show ?thesis
  proof
    assume early: "during D (pre @ [CFlush]) d d'"
    have "fst (mount_metadata image_disk m) = Ok (vl_metadata v, vl_bank v)"
      by (rule selects_old [OF safe _ _ early m]) (use pub in \<open>auto simp: publishes_def\<close>)
    then show ?thesis by simp
  next
    assume "\<exists>d2. run_commands D (pre @ [CFlush]) d = (Ok (), d2) \<and> during D ?tail d2 d'"
    then obtain d2 where run: "run_commands D (pre @ [CFlush]) d = (Ok (), d2)" and tail: "during D ?tail d2 d'" by blast
    show ?thesis using selects_after_flush [OF safe pub run tail m tear] prepared_durable [OF pub run tail m(1)] by blast
  qed
qed

lemma publish_durable:
  assumes safe: "generation_safe live durable d v" and pub: "publishes pre v nxt"
    and run: "run_commands D (publication_commands pre v nxt) d = (Ok (), d')"
  shows "generation_safe live durable d' \<lparr>vl_metadata = nxt, vl_bank = 1 - vl_bank v, vl_poisoned = False\<rparr>"
proof -
  let ?hdr = "header_sector (1 - vl_bank v)" and ?new = "publication_header nxt"
  have bank: "vl_bank v \<le> 1" using safe by (simp add: generation_safe_def)
  note ob = other_bank [OF bank]
  obtain d2 d3 where d2: "run_commands D (pre @ [CFlush]) d = (Ok (), d2)"
    and d3: "disk_write D ?hdr ?new d2 = (Ok (), d3)" "disk_flush D d3 = (Ok (), d')"
    using run run_commands_append [of D "pre @ [CFlush]" "[CWrite ?hdr ?new, CFlush]" d d']
    by (auto simp: publication_commands_def io_then_Ok_iff)
  have settled: "holds_at d' s = {live d3 s}" for s
    using flush_ok [OF d3(2)] flush_live [OF d3(2)] by (simp add: sector_values_def)
  have tail: "during D [CWrite ?hdr ?new, CFlush] d2 d'"
    using d3 by (auto simp: during_Cons_iff intro: during.intros)
  have all: "during D (publication_commands pre v nxt) d d'"
    by (rule run_commands_during [OF run])
  have kept: "holds_at d' s \<subseteq> holds_at d s" if "s \<in> bank_sectors (vl_bank v)" for s
  proof (rule during_keeps [OF all])
    fix c assume "c \<in> set (publication_commands pre v nxt)"
    moreover have "s \<noteq> ?hdr" using that banks_disjoint [OF bank] by (auto simp: bank_sectors_def)
    ultimately show "\<not> writes c s" using pub that by (auto simp: publication_commands_def publishes_def)
  qed
  have live: "m = live d3" if "crash_image live durable d' m" for m
    using that settled by (auto simp: crash_image_def)
  have "bank_holds (live d3) (vl_bank v) (vl_metadata v)"
    using bank_kept(2) [OF safe _ kept] settled by (simp add: crash_image_def)
  moreover have "bank_holds (live d3) (1 - vl_bank v) nxt"
  proof -
    have "live d3 s = b" if "CWrite s b \<in> set pre" for s b
    proof -
      have ne: "s \<noteq> ?hdr" using pub that by (auto simp: publishes_def)
      have same: "b' = b" if "CWrite s b' \<in> set (pre @ [CFlush])" for b'
        using pub that \<open>CWrite s b \<in> set pre\<close> unfolding publishes_def by auto
      have "live d2 s = b" using run_writes_live [OF d2 _ same] that by simp
      then show ?thesis using write_other [OF d3(1) ne] by simp
    qed
    then show ?thesis using pub write_live [OF d3(1)] by (auto simp: publishes_def)
  qed
  ultimately show ?thesis
    using pub live settled ob published_header_old [of "vl_metadata v" "md_sequence nxt"]
    by (auto simp: generation_safe_def publishes_def bank_holds_def)
qed

end

section \<open>The metadata commands\<close>

definition prepare_commands :: "metadata \<Rightarrow> u8 \<Rightarrow> command list" where
  "prepare_commands md bank =
     (case md_recovery md of None \<Rightarrow> []
      | Some r \<Rightarrow> map (\<lambda>i. CWrite (recovery_sector bank + i) (field_at (recovery_encode r) (512 * i) 512)) [0..<7]) @
     map (\<lambda>i. CWrite (header_sector bank + 1 + i) (field_at (metadata_bytes md) (512 * i) 512)) [0..<4]"

definition metadata_commands :: "metadata \<Rightarrow> u8 \<Rightarrow> command list" where
  "metadata_commands md bank =
     prepare_commands md bank @ [CFlush, CWrite (header_sector bank) (publication_header md), CFlush]"

lemma upt_small: "[0..<4] = [0, 1, 2, 3]" "[0..<7] = [0, 1, 2, 3, 4, 5, 6]"
  "[0..<14] = [0, 1, 2, 3, 4, 5, 6, 7, 8, 9, 10, 11, 12, 13]"
  by (simp_all add: eval_nat_numeral)

lemma metadata_command_steps:
  "map (metadata_command md bank) [0..<write_steps md] = map Ok (metadata_commands md bank)"
  by (cases "md_recovery md")
    (simp_all add: write_steps_def metadata_commands_def prepare_commands_def metadata_command_def upt_small Let_def)

lemma write_loop_commands:
  "map (metadata_command md bank) ss = map Ok cs \<Longrightarrow> write_loop D md bank ss d = run_commands D cs d"
proof (induction ss arbitrary: cs d)
  case (Cons s ss)
  then obtain c cs' where "cs = c # cs'" "metadata_command md bank s = Ok c" "map (metadata_command md bank) ss = map Ok cs'"
    by (cases cs) auto
  then show ?case using Cons.IH by (simp add: write_step_def)
qed simp

lemma metadata_write_commands: "metadata_write D md bank d = run_commands D (metadata_commands md bank) d"
  unfolding metadata_write_def by (rule write_loop_commands [OF metadata_command_steps])

lemma concat_chunks: "concat (map (\<lambda>i. field_at xs (k * i) k) [0..<n]) = take (k * n) xs"
  by (induction n) (auto simp: field_at_def take_add [symmetric] add.commute)

lemma CWrite_prepare:
  "CWrite s b \<in> set (prepare_commands md bank) \<longleftrightarrow>
     (\<exists>i<4. s = header_sector bank + 1 + i \<and> b = field_at (metadata_bytes md) (512 * i) 512) \<or>
     (\<exists>r i. md_recovery md = Some r \<and> i < 7 \<and> s = recovery_sector bank + i \<and> b = field_at (recovery_encode r) (512 * i) 512)"
  by (cases "md_recovery md") (auto simp: prepare_commands_def)

lemma prepare_holds:
  assumes "metadata_ok md" and "\<And>s b. CWrite s b \<in> set (prepare_commands md bank) \<Longrightarrow> m s = b"
    and "m (header_sector bank) = publication_header md"
  shows "bank_holds m bank md"
proof -
  have shift: "map m [a..<a + n] = map (\<lambda>i. m (a + i)) [0..<n]" for a n
    by (rule nth_equalityI) auto
  have "bank_nodes m bank = concat (map (\<lambda>i. field_at (metadata_bytes md) (512 * i) 512) [0..<4])"
    unfolding bank_nodes_def shift by (rule arg_cong [where f = concat]) (auto intro!: assms(2) simp: CWrite_prepare)
  then have "bank_nodes m bank = metadata_bytes md"
    using concat_chunks [of "metadata_bytes md" 512 4] length_metadata_bytes [OF assms(1)] by simp
  moreover have "bank_records m bank = recovery_encode r" if r: "md_recovery md = Some r" for r
  proof -
    have "bank_records m bank = concat (map (\<lambda>i. field_at (recovery_encode r) (512 * i) 512) [0..<7])"
      unfolding bank_records_def shift by (rule arg_cong [where f = concat]) (auto intro!: assms(2) simp: CWrite_prepare r)
    then show ?thesis
      using concat_chunks [of "recovery_encode r" 512 7] recovery_decode_encode(2) [OF metadata_okD(4) [OF assms(1) r]] by simp
  qed
  ultimately show ?thesis using assms(3) by (simp add: bank_holds_def)
qed

lemma prepare_publishes:
  assumes "metadata_ok nxt" and "md_sequence (vl_metadata v) < md_sequence nxt" and "vl_bank v \<le> 1"
  shows "publishes (prepare_commands nxt (1 - vl_bank v)) v nxt"
    and "metadata_commands nxt (1 - vl_bank v) = publication_commands (prepare_commands nxt (1 - vl_bank v)) v nxt"
proof -
  let ?b = "1 - vl_bank v"
  have in_bank: "s \<in> bank_sectors ?b \<and> s \<noteq> header_sector ?b" if c: "c \<in> set (prepare_commands nxt ?b)" "writes c s" for c s
  proof -
    obtain b where "c = CWrite s b" using c(2) by (cases c) auto
    then show ?thesis
      using c(1) by (auto simp: CWrite_prepare bank_sectors_def header_sector_def recovery_sector_def)
  qed
  have "b = b'" if "CWrite s b \<in> set (prepare_commands nxt ?b)" "CWrite s b' \<in> set (prepare_commands nxt ?b)" for s b b'
    using that two_banks [of ?b] other_bank [OF assms(3)]
    by (auto simp: CWrite_prepare header_sector_def recovery_sector_def)
  then show "publishes (prepare_commands nxt ?b) v nxt"
    unfolding publishes_def
    using in_bank banks_disjoint [OF assms(3)] prepare_holds [OF assms(1)] assms(1,2) by blast
qed (simp add: metadata_commands_def publication_commands_def)

context durable_disk
begin

lemma run_not_Panic: "fst (run_commands D cs d) \<noteq> Panic"
proof (induction cs arbitrary: d)
  case (Cons c cs)
  obtain r d1 where c: "command_execute c D d = (r, d1)" by fastforce
  then have "r \<noteq> Panic" using answers(2,3) by (cases c) (metis command_execute.simps fst_conv)+
  then show ?case using c Cons.IH [of d1] by (cases r) simp_all
qed simp

lemma safe_mounts:
  assumes "generation_safe live durable d v" and m: "crash_image live durable d m" "full_sectors m"
  shows "fst (mount_metadata image_disk m) = Ok (vl_metadata v, vl_bank v)"
proof (rule safe_selects [OF assms(1) m subset_refl])
  show "old_header (m (header_sector (1 - vl_bank v))) (md_sequence (vl_metadata v))"
    using assms(1) m(1) by (auto simp: generation_safe_def crash_image_def)
qed

lemma commit_publishes:
  assumes safe: "generation_safe live durable d v" and s: "checked_add (md_sequence (vl_metadata v)) 1 = Some s"
    and ok: "metadata_ok (nxt\<lparr>md_sequence := s\<rparr>)"
  obtains pre where "publishes pre v (nxt\<lparr>md_sequence := s\<rparr>)"
    "metadata_write D (nxt\<lparr>md_sequence := s\<rparr>) (1 - vl_bank v) = run_commands D (publication_commands pre v (nxt\<lparr>md_sequence := s\<rparr>))"
proof -
  have "md_sequence (vl_metadata v) < md_sequence (nxt\<lparr>md_sequence := s\<rparr>)" using checked_add_1_less [OF s] by simp
  note pub = prepare_publishes [OF ok this]
  have "vl_bank v \<le> 1" using safe by (simp add: generation_safe_def)
  then show ?thesis using that [OF pub(1)] pub(2) metadata_write_commands [of D "nxt\<lparr>md_sequence := s\<rparr>" "1 - vl_bank v"] by (simp add: ext)
qed

lemma commit_images:
  assumes safe: "generation_safe live durable d v" and s: "checked_add (md_sequence (vl_metadata v)) 1 = Some s"
    and ok: "metadata_ok (nxt\<lparr>md_sequence := s\<rparr>)"
    and tear: "tear_detected (live d (header_sector (1 - vl_bank v))) (publication_header (nxt\<lparr>md_sequence := s\<rparr>))"
    and c: "volume_commit D v nxt d = (r, v', d')" and m: "crash_image live durable d' m" "full_sectors m"
  shows "fst (mount_metadata image_disk m) \<in> {Ok (vl_metadata v, vl_bank v), Ok (nxt\<lparr>md_sequence := s\<rparr>, 1 - vl_bank v)}"
proof -
  obtain pre where pub: "publishes pre v (nxt\<lparr>md_sequence := s\<rparr>)"
    "metadata_write D (nxt\<lparr>md_sequence := s\<rparr>) (1 - vl_bank v) = run_commands D (publication_commands pre v (nxt\<lparr>md_sequence := s\<rparr>))"
    by (rule commit_publishes [OF safe s ok])
  obtain r1 where "run_commands D (publication_commands pre v (nxt\<lparr>md_sequence := s\<rparr>)) d = (r1, d')"
    using c s pub(2) by (auto simp: volume_commit_def Let_def split: prod.splits outcome.splits)
  then show ?thesis using publish_atomic [OF safe pub(1) run_commands_during m tear] by blast
qed

lemma commit_returns:
  assumes safe: "generation_safe live durable d v" and s: "checked_add (md_sequence (vl_metadata v)) 1 = Some s"
    and ok: "metadata_ok (nxt\<lparr>md_sequence := s\<rparr>)" and c: "volume_commit D v nxt d = (res, v', d')"
  shows "res \<noteq> Panic"
    and "res = Ok () \<Longrightarrow> v' = \<lparr>vl_metadata = nxt\<lparr>md_sequence := s\<rparr>, vl_bank = 1 - vl_bank v, vl_poisoned = False\<rparr> \<and>
      generation_safe live durable d' v'"
    and "res \<noteq> Ok () \<Longrightarrow> vl_poisoned v'"
proof -
  obtain pre where pub: "publishes pre v (nxt\<lparr>md_sequence := s\<rparr>)"
    "metadata_write D (nxt\<lparr>md_sequence := s\<rparr>) (1 - vl_bank v) = run_commands D (publication_commands pre v (nxt\<lparr>md_sequence := s\<rparr>))"
    by (rule commit_publishes [OF safe s ok])
  obtain r1 d1 where run: "run_commands D (publication_commands pre v (nxt\<lparr>md_sequence := s\<rparr>)) d = (r1, d1)" by fastforce
  then have r1: "r1 \<noteq> Panic" using run_not_Panic [of "publication_commands pre v (nxt\<lparr>md_sequence := s\<rparr>)" d] by simp
  show "res \<noteq> Panic" "res \<noteq> Ok () \<Longrightarrow> vl_poisoned v'"
    using c s pub(2) run r1 by (cases r1; auto simp: volume_commit_def Let_def)+
  show "v' = \<lparr>vl_metadata = nxt\<lparr>md_sequence := s\<rparr>, vl_bank = 1 - vl_bank v, vl_poisoned = False\<rparr> \<and> generation_safe live durable d' v'" if "res = Ok ()"
    using publish_durable [OF safe pub(1), of d'] c s pub(2) run r1 that by (cases r1) (auto simp: volume_commit_def Let_def)
qed

end

section \<open>Interrupted disks\<close>

text \<open>Power fails after \<open>k\<close> writes and flushes: what comes later never reaches the disk.\<close>

definition cut_disk :: "'d disk \<Rightarrow> ('d \<times> nat) disk" where
  "cut_disk D =
     \<lparr>disk_read = (\<lambda>s (d, k). case disk_read D s d of (r, d) \<Rightarrow> (r, d, k)),
      disk_write = (\<lambda>s b (d, k). case k of 0 \<Rightarrow> (Err FsIo, d, 0) | Suc k \<Rightarrow> (case disk_write D s b d of (r, d) \<Rightarrow> (r, d, k))),
      disk_flush = (\<lambda>(d, k). case k of 0 \<Rightarrow> (Err FsIo, d, 0) | Suc k \<Rightarrow> (case disk_flush D d of (r, d) \<Rightarrow> (r, d, k)))\<rparr>"

lemma cut_simps:
  "disk_read (cut_disk D) s x = (q, y) \<longleftrightarrow> disk_read D s (fst x) = (q, fst y) \<and> snd y = snd x"
  "disk_write (cut_disk D) s b x = (r, y) \<longleftrightarrow> (if snd x = 0 then r = Err FsIo \<and> y = x
     else disk_write D s b (fst x) = (r, fst y) \<and> Suc (snd y) = snd x)"
  "disk_flush (cut_disk D) x = (r, y) \<longleftrightarrow> (if snd x = 0 then r = Err FsIo \<and> y = x
     else disk_flush D (fst x) = (r, fst y) \<and> Suc (snd y) = snd x)"
  by (cases x; cases y; auto simp: cut_disk_def split: prod.splits nat.splits)+

lemma cut_keeps_contract:
  assumes "durable_disk D live durable"
  shows "durable_disk (cut_disk D) (live \<circ> fst) (durable \<circ> fst)"
proof -
  note keep = durable_disk.read_live [OF assms] durable_disk.read_keeps [OF assms] durable_disk.write_live [OF assms]
    durable_disk.write_torn [OF assms] durable_disk.write_other [OF assms] durable_disk.write_durable [OF assms]
    durable_disk.flush_live [OF assms] durable_disk.flush_durable [OF assms] durable_disk.flush_ok [OF assms]
  have quiet: "fst (disk_read (cut_disk D) s x) \<noteq> Panic" "fst (disk_write (cut_disk D) s b x) \<noteq> Panic"
      "fst (disk_flush (cut_disk D) x) \<noteq> Panic" for s b x
  proof -
    obtain r1 y1 r2 y2 r3 y3 where e: "disk_read (cut_disk D) s x = (r1, y1)" "disk_write (cut_disk D) s b x = (r2, y2)"
      "disk_flush (cut_disk D) x = (r3, y3)" by (metis prod.exhaust)
    show "fst (disk_read (cut_disk D) s x) \<noteq> Panic"
      unfolding e fst_conv using durable_disk.answers(1) [OF assms, of s "fst x"] e(1) [unfolded cut_simps] by simp
    show "fst (disk_write (cut_disk D) s b x) \<noteq> Panic"
      unfolding e fst_conv using durable_disk.answers(2) [OF assms, of s b "fst x"] e(2) [unfolded cut_simps] by (cases "snd x = 0") simp_all
    show "fst (disk_flush (cut_disk D) x) \<noteq> Panic"
      unfolding e fst_conv using durable_disk.answers(3) [OF assms, of "fst x"] e(3) [unfolded cut_simps] by (cases "snd x = 0") simp_all
  qed
  show ?thesis
  proof (unfold_locales, goal_cases)
    case (1 s x b y)
    then show ?case using keep(1) [of s "fst x" b "fst y"] by (simp add: cut_simps)
  next
    case (2 s x q y)
    then show ?case using keep(2) [of s "fst x" q "fst y"] by (simp add: cut_simps)
  next
    case (3 s b x y)
    then show ?case using keep(3) [of s b "fst x" "fst y"] by (simp add: cut_simps split: if_splits)
  next
    case (4 s b x r y)
    then show ?case using keep(4) [of s b "fst x" r "fst y"] by (simp add: cut_simps split: if_splits)
  next
    case (5 s b x r y t)
    then show ?case using keep(5) [of s b "fst x" r "fst y" t] by (simp add: cut_simps split: if_splits)
  next
    case (6 s b x r y t)
    then show ?case using keep(6) [of s b "fst x" r "fst y" t] by (simp add: cut_simps split: if_splits)
  next
    case (7 x r y)
    then show ?case using keep(7) [of "fst x" r "fst y"] by (simp add: cut_simps split: if_splits)
  next
    case (8 x r y t)
    then show ?case using keep(8) [of "fst x" r "fst y" t] by (simp add: cut_simps split: if_splits)
  next
    case (9 x y)
    then show ?case using keep(9) [of "fst x" "fst y"] by (simp add: cut_simps split: if_splits)
  qed (rule quiet)+
qed

lemma cut_images [simp]:
  "crash_image (live \<circ> fst) (durable \<circ> fst) x m = crash_image live durable (fst x) m"
  "sector_values (live \<circ> fst) (durable \<circ> fst) x = sector_values live durable (fst x)"
  "generation_safe (live \<circ> fst) (durable \<circ> fst) x v = generation_safe live durable (fst x) v"
proof -
  show v: "sector_values (live \<circ> fst) (durable \<circ> fst) x = sector_values live durable (fst x)"
    by (rule ext) (simp add: sector_values_def)
  show "crash_image (live \<circ> fst) (durable \<circ> fst) x m = crash_image live durable (fst x) m" for m
    by (simp only: crash_image_def v)
  then show "generation_safe (live \<circ> fst) (durable \<circ> fst) x v = generation_safe live durable (fst x) v"
    by (simp only: generation_safe_def v)
qed

section \<open>The failing test disk\<close>

text \<open>\<open>MemoryDisk\<close> of \<open>crates/fs/tests/support/mod.rs\<close>: the write or flush with a chosen number fails, a failed write
  stores the first \<open>tear\<close> bytes, a flush copies the live sectors.\<close>

record memory_state =
  mk_live :: "nat \<Rightarrow> bytes"
  mk_durable :: "nat \<Rightarrow> bytes"
  mk_operations :: nat
  mk_fail :: "nat option"
  mk_tear :: nat

definition memory_step :: "memory_state \<Rightarrow> bool \<times> memory_state" where
  "memory_step d = (mk_fail d = Some (mk_operations d), d\<lparr>mk_operations := mk_operations d + 1\<rparr>)"

definition memory_disk :: "memory_state disk" where
  "memory_disk =
     \<lparr>disk_read = (\<lambda>s d. (Ok (mk_live d s), d)),
      disk_write = (\<lambda>s b d. let (fail, d) = memory_step d in
        if fail then (Err FsIo, d\<lparr>mk_live := (mk_live d)(s := take (min (mk_tear d) (length b)) b @ drop (min (mk_tear d) (length b)) (mk_live d s))\<rparr>)
        else (Ok (), d\<lparr>mk_live := (mk_live d)(s := b)\<rparr>)),
      disk_flush = (\<lambda>d. let (fail, d) = memory_step d in
        if fail then (Err FsIo, d) else (Ok (), d\<lparr>mk_durable := mk_live d\<rparr>))\<rparr>"

interpretation memory: durable_disk memory_disk mk_live mk_durable
proof
  show "torn (mk_live d s) b (mk_live d' s)" if "disk_write memory_disk s b d = (r, d')" for s b d r d'
  proof -
    have "torn old b (take (min n (length b)) b @ drop (min n (length b)) old)" for n old
      unfolding torn_def by (intro disjI2 exI [of _ "min n (length b)"]) simp
    then show ?thesis using that by (auto simp: memory_disk_def memory_step_def Let_def split: if_splits)
  qed
qed (auto simp: memory_disk_def memory_step_def Let_def split: if_splits)

text \<open>A disk on which a given generation is settled in bank 0 and the other header was never written, for the witnesses.\<close>

definition unwritten_header :: bytes where
  "unwritten_header = replicate 511 0 @ [255]"

definition settled_image :: "metadata \<Rightarrow> nat \<Rightarrow> bytes" where
  "settled_image md s =
     (if s = header_sector 0 then publication_header md
      else if header_sector 0 < s \<and> s \<le> header_sector 0 + 4
      then field_at (metadata_bytes md) (512 * (s - header_sector 0 - 1)) 512
      else if s = header_sector 1 then unwritten_header
      else if recovery_sector 0 \<le> s \<and> s < recovery_sector 0 + 7
      then (case md_recovery md of None \<Rightarrow> zero_sector
            | Some r \<Rightarrow> field_at (recovery_encode r) (512 * (s - recovery_sector 0)) 512)
      else zero_sector)"

definition settled_disk :: "metadata \<Rightarrow> memory_state" where
  "settled_disk md = \<lparr>mk_live = settled_image md, mk_durable = settled_image md, mk_operations = 0, mk_fail = None, mk_tear = 0\<rparr>"

definition settled_volume :: "metadata \<Rightarrow> volume" where
  "settled_volume md = \<lparr>vl_metadata = md, vl_bank = 0, vl_poisoned = False\<rparr>"

lemma settled_live [simp]: "mk_live (settled_disk md) = settled_image md" "mk_durable (settled_disk md) = settled_image md"
  by (simp_all add: settled_disk_def)

lemma unwritten_rejected: "length new = 512 \<Longrightarrow> tear_detected unwritten_header new" "header_rejected unwritten_header"
proof -
  have bad: "header_rejected (take n b @ drop n unwritten_header)" if "n < 512" "length b = 512" for n b
  proof -
    have "(take n b @ drop n unwritten_header) ! 511 = 255" using that by (simp add: unwritten_header_def nth_append)
    moreover have "length (take n b @ drop n unwritten_header) = 512" using that by (simp add: unwritten_header_def)
    ultimately have "drop 36 (take n b @ drop n unwritten_header) ! 475 = 255" "475 < length (drop 36 (take n b @ drop n unwritten_header))"
      by (simp_all del: drop_append)
    then have "any_nonzero (drop 36 (take n b @ drop n unwritten_header))"
      unfolding any_nonzero_def list_ex_iff by (intro bexI [where x = 255]) (simp, metis nth_mem)
    then have "header_bad (take n b @ drop n unwritten_header)"
      by (simp add: header_bad_def del: drop_append)
    then show ?thesis by (simp add: header_rejected_def)
  qed
  show "header_rejected unwritten_header" using bad [of 0 unwritten_header] by (simp add: unwritten_header_def)
  assume new: "length new = 512"
  have "torn unwritten_header new h \<Longrightarrow> h = new \<or> header_rejected h" for h
  proof (unfold torn_def, elim disjE exE conjE)
    fix n assume "n \<le> length new" "h = take n new @ drop n unwritten_header"
    then show ?thesis using bad [OF _ new, of n] new by (cases "n = 512") (auto simp: unwritten_header_def)
  qed simp
  then show "tear_detected unwritten_header new" by (auto simp: tear_detected_def)
qed

lemma settled_tears: "length new = 512 \<Longrightarrow> tear_detected (mk_live (settled_disk md) (header_sector (1 - vl_bank (settled_volume md')))) new"
  using unwritten_rejected(1) by (simp add: settled_volume_def settled_image_def header_sector_def recovery_sector_def)

lemma settled_safe:
  assumes ok: "metadata_ok md"
  shows "generation_safe mk_live mk_durable (settled_disk md) (settled_volume md)"
proof -
  have "bank_holds (settled_image md) 0 md"
  proof (rule prepare_holds [OF ok])
    fix s b assume "CWrite s b \<in> set (prepare_commands md 0)"
    then show "settled_image md s = b"
      by (auto simp: CWrite_prepare settled_image_def header_sector_def recovery_sector_def)
  qed (simp add: settled_image_def)
  moreover have "settled_image md (header_sector 1) = unwritten_header"
    by (simp add: settled_image_def header_sector_def recovery_sector_def)
  moreover have "m = settled_image md" if "crash_image mk_live mk_durable (settled_disk md) m" for m
    using that by (auto simp: crash_image_def sector_values_def settled_live)
  ultimately show ?thesis
    using ok unwritten_rejected(2) by (auto simp: generation_safe_def settled_volume_def sector_values_def old_header_def)
qed

lemma settled_full:
  assumes ok: "metadata_ok md"
  shows "full_sectors (settled_image md)"
proof -
  have "length (recovery_encode r) = 3584" if "md_recovery md = Some r" for r
    using recovery_decode_encode(2) [OF metadata_okD(4) [OF ok that]] .
  then show ?thesis
    using publication_header_fields(1) [of md] length_metadata_bytes [OF ok]
    by (auto simp: full_sectors_def settled_image_def header_sector_def recovery_sector_def field_at_def unwritten_header_def split: option.splits)
qed

lemma memory_never_fails:
  "mk_fail d = None \<Longrightarrow> \<exists>d'. run_commands memory_disk cs d = (Ok (), d')"
proof (induction cs arbitrary: d)
  case (Cons c cs)
  then show ?case by (cases c) (auto simp: memory_disk_def memory_step_def Let_def)
qed simp

section \<open>Properties\<close>

text \<open>C4 Committing metadata is crash-atomic and durable. On any disk that keeps the contract of the trait, failed
  writes torn, from a volume whose generation survives every crash, and as long as the header checksum tells a torn
  header from a whole one: wherever the power fails among the commands that \<open>commit\<close> issues, or one of them fails, the
  metadata that mounting selects is exactly the old or exactly the new one. The commit itself returns without a panic;
  on success every later crash image mounts as the new metadata and the volume is again safe, otherwise it is fenced.\<close>

theorem commit_crash_atomic:
  assumes disk: "durable_disk D live durable" and safe: "generation_safe live durable d v"
    and s: "checked_add (md_sequence (vl_metadata v)) 1 = Some s" and ok: "metadata_ok (nxt\<lparr>md_sequence := s\<rparr>)"
    and tear: "tear_detected (live d (header_sector (1 - vl_bank v))) (publication_header (nxt\<lparr>md_sequence := s\<rparr>))"
  shows "(\<forall>k r w d1 k1 m. volume_commit (cut_disk D) v nxt (d, k) = (r, w, d1, k1) \<longrightarrow>
      crash_image live durable d1 m \<longrightarrow> full_sectors m \<longrightarrow>
      fst (mount_metadata image_disk m) \<in> {Ok (vl_metadata v, vl_bank v), Ok (nxt\<lparr>md_sequence := s\<rparr>, 1 - vl_bank v)}) \<and>
    (\<exists>res v' d'. volume_commit D v nxt d = (res, v', d') \<and> res \<noteq> Panic \<and>
      (res = Ok () \<longrightarrow> v' = \<lparr>vl_metadata = nxt\<lparr>md_sequence := s\<rparr>, vl_bank = 1 - vl_bank v, vl_poisoned = False\<rparr> \<and>
        generation_safe live durable d' v' \<and> (\<forall>m. crash_image live durable d' m \<longrightarrow> full_sectors m \<longrightarrow>
          fst (mount_metadata image_disk m) = Ok (nxt\<lparr>md_sequence := s\<rparr>, 1 - vl_bank v))) \<and>
      (res \<noteq> Ok () \<longrightarrow> vl_poisoned v' \<and> volume_ready v' = Err FsUncertain))"
proof
  have images: "fst (mount_metadata image_disk m) \<in> {Ok (vl_metadata v, vl_bank v), Ok (nxt\<lparr>md_sequence := s\<rparr>, 1 - vl_bank v)}"
    if "volume_commit (cut_disk D) v nxt (d, k) = (r, w, d1, k1)" "crash_image live durable d1 m" "full_sectors m" for k r w d1 k1 m
    using durable_disk.commit_images [OF cut_keeps_contract [OF disk], of "(d, k)" v s nxt r w "(d1, k1)" m] safe s ok tear that by simp
  then show "\<forall>k r w d1 k1 m. volume_commit (cut_disk D) v nxt (d, k) = (r, w, d1, k1) \<longrightarrow> crash_image live durable d1 m \<longrightarrow>
      full_sectors m \<longrightarrow> fst (mount_metadata image_disk m) \<in> {Ok (vl_metadata v, vl_bank v), Ok (nxt\<lparr>md_sequence := s\<rparr>, 1 - vl_bank v)}"
    by blast
  obtain res v' d' where c: "volume_commit D v nxt d = (res, v', d')" by (metis prod_cases3)
  note R = durable_disk.commit_returns [OF disk safe s ok c]
  have "fst (mount_metadata image_disk m) = Ok (nxt\<lparr>md_sequence := s\<rparr>, 1 - vl_bank v)"
    if "res = Ok ()" "crash_image live durable d' m" "full_sectors m" for m
    using durable_disk.safe_mounts [OF disk conjunct2 [OF R(2) [OF that(1)]] that(2,3)] R(2) [OF that(1)] by simp
  then show "\<exists>res v' d'. volume_commit D v nxt d = (res, v', d') \<and> res \<noteq> Panic \<and>
      (res = Ok () \<longrightarrow> v' = \<lparr>vl_metadata = nxt\<lparr>md_sequence := s\<rparr>, vl_bank = 1 - vl_bank v, vl_poisoned = False\<rparr> \<and>
        generation_safe live durable d' v' \<and> (\<forall>m. crash_image live durable d' m \<longrightarrow> full_sectors m \<longrightarrow>
          fst (mount_metadata image_disk m) = Ok (nxt\<lparr>md_sequence := s\<rparr>, 1 - vl_bank v))) \<and>
      (res \<noteq> Ok () \<longrightarrow> vl_poisoned v' \<and> volume_ready v' = Err FsUncertain)"
    using c R by (intro exI [of _ res] exI [of _ v'] exI [of _ d'], cases "res = Ok ()") (simp_all add: volume_ready_def)
qed

theorem commit_crash_atomic_witness:
  "\<exists>v' d'. volume_commit memory_disk (settled_volume initial_metadata) initial_metadata (settled_disk initial_metadata) = (Ok (), v', d') \<and>
     generation_safe mk_live mk_durable d' v' \<and> md_sequence (vl_metadata v') = 2"
proof -
  let ?v = "settled_volume initial_metadata" and ?d = "settled_disk initial_metadata" and ?n = "initial_metadata\<lparr>md_sequence := 2\<rparr>"
  have add: "checked_add (md_sequence (vl_metadata ?v)) 1 = Some 2"
    by (simp add: settled_volume_def initial_metadata_def checked_add_def)
  have ok: "metadata_ok ?n"
    by (rule metadata_ok_later [OF initial_metadata_ok]) (simp add: initial_metadata_def)
  have tear: "tear_detected (mk_live ?d (header_sector (1 - vl_bank ?v))) (publication_header ?n)"
    using settled_tears [OF publication_header_fields(1)] .
  have "\<exists>v' d'. volume_commit memory_disk ?v initial_metadata ?d = (Ok (), v', d')"
    using memory_never_fails [of ?d "metadata_commands ?n (1 - vl_bank ?v)"] add
    by (auto simp: volume_commit_def Let_def metadata_write_commands settled_disk_def)
  then show ?thesis
    using commit_crash_atomic [OF memory.durable_disk_axioms settled_safe [OF initial_metadata_ok] add ok tear] by auto
qed

end
