(* ===== verification/Tracked.thy ===== *)
theory Tracked
  imports Publication
begin

text \<open>
  Durable operation identity on top of replacement: receipts and epochs (\<open>crates/fs/src/recovery/operations.rs\<close>),
  workspace-scoped operations (\<open>recovery/scoped.rs\<close>) and admissions (\<open>crates/fs/src/admission\<close>). Every
  operation first looks for a retained record with the same retry identity: a replay answers from the record
  without I/O, a different request under the same identity is a conflict, and only a new identity writes.
\<close>

section \<open>Receipts and epochs\<close>

definition with_volume :: "volume \<Rightarrow> 'd \<Rightarrow> (fs_error, 'a) outcome \<Rightarrow> ('a \<Rightarrow> ('d, 'b) on_volume) \<Rightarrow> ('d, 'b) on_volume" where
  "with_volume v d m f = (case m of Ok x \<Rightarrow> f x | Err e \<Rightarrow> (Err e, v, d) | Panic \<Rightarrow> (Panic, v, d))"

definition current_recovery :: "volume \<Rightarrow> (fs_error, recovery) outcome" where
  "current_recovery v = and_then (volume_ready v) (\<lambda>_. ok_or FsUnsupported (md_recovery (vl_metadata v)))"

definition recovery_info :: "volume \<Rightarrow> (fs_error, bytes \<times> u64) outcome" where
  "recovery_info v = and_then (current_recovery v) (\<lambda>r. Ok (rv_lineage r, rv_epoch r))"

definition volume_receipt :: "volume \<Rightarrow> u64 \<Rightarrow> retry \<Rightarrow> (fs_error, receipt) outcome" where
  "volume_receipt v subject rt =
     and_then (current_recovery v) (\<lambda>r. and_then (recovery_find r subject rt) (\<lambda>found.
       ok_or FsOutcomeUnknown (map_option rr_receipt found)))"

definition put_record :: "metadata \<Rightarrow> nat \<Rightarrow> retained \<Rightarrow> (fs_error, metadata) outcome" where
  "put_record md slot q =
     and_then (expect (md_recovery md)) (\<lambda>r.
       Ok (md\<lparr>md_recovery := Some (r\<lparr>rv_records := (rv_records r)[slot := Some q]\<rparr>)\<rparr>))"

definition free_record :: "recovery \<Rightarrow> (fs_error, nat) outcome" where
  "free_record r = ok_or FsFull (position (\<lambda>q. q = None) (rv_records r))"

definition replace_tracked ::
  "'d disk \<Rightarrow> volume \<Rightarrow> u64 \<Rightarrow> retry \<Rightarrow> u32 \<Rightarrow> u64 \<Rightarrow> bytes \<Rightarrow> 'd \<Rightarrow> (('d, receipt) on_volume) option" where
  "replace_tracked D v subject rt i version bs d =
     (let stop = (\<lambda>m. Some (with_volume v d m (\<lambda>c. (Ok c, v, d)))) in
      (case volume_ready v of Err e \<Rightarrow> stop (Err e) | Panic \<Rightarrow> stop Panic | Ok _ \<Rightarrow>
       if length bs > max_file then stop (Err FsSize)
       else (case ok_or FsUnsupported (md_recovery (vl_metadata v)) of Err e \<Rightarrow> stop (Err e) | Panic \<Rightarrow> stop Panic | Ok r \<Rightarrow>
         (case recovery_find r subject rt of
            Err e \<Rightarrow> stop (Err e)
          | Panic \<Rightarrow> stop Panic
          | Ok (Some q) \<Rightarrow>
              if rc_id (rr_receipt q) \<noteq> i \<or> rc_previous (rr_receipt q) \<noteq> version \<or>
                 unat (rc_length (rr_receipt q)) \<noteq> length bs \<or> take (length bs) (rr_bytes q) \<noteq> bs
              then stop (Err FsIdempotencyConflict) else stop (Ok (rr_receipt q))
          | Ok None \<Rightarrow>
              (case and_then (free_record r) (\<lambda>slot.
                  and_then (ok_or FsExhausted (checked_add (md_sequence (vl_metadata v)) 1)) (\<lambda>s.
                    let c = \<lparr>rc_retry = rt, rc_id = i, rc_previous = version, rc_committed = s, rc_length = of_nat (length bs)\<rparr>;
                        q = \<lparr>rr_subject = subject, rr_receipt = c, rr_namespace = None,
                              rr_bytes = put (replicate max_file 0) 0 bs, rr_admission = None\<rparr>
                    in and_then (put_record (vl_metadata v) slot q) (\<lambda>nxt. Ok (c, nxt)))) of
                 Err e \<Rightarrow> stop (Err e)
               | Panic \<Rightarrow> stop Panic
               | Ok (c, nxt) \<Rightarrow>
                   map_option (\<lambda>(res, v, d). (and_then res (\<lambda>_. Ok c), v, d)) (replace_recorded D v i version bs nxt d))))))"

definition advance_epoch :: "'d disk \<Rightarrow> volume \<Rightarrow> 'd \<Rightarrow> ('d, u64) on_volume" where
  "advance_epoch D v d =
     with_volume v d (current_recovery v) (\<lambda>r.
     if list_ex (\<lambda>q. case rr_admission q of None \<Rightarrow> False | Some a \<Rightarrow> so_state a = AdAdmitted) (flatten (rv_records r)) then (Err FsBusy, v, d)
     else with_volume v d (ok_or FsExhausted (checked_add (rv_epoch r) 1)) (\<lambda>epoch.
       case volume_commit D v ((vl_metadata v)\<lparr>md_recovery :=
           Some (r\<lparr>rv_epoch := epoch, rv_records := map (\<lambda>_. None) (rv_records r)\<rparr>)\<rparr>) d of
         (res, v, d) \<Rightarrow> (and_then res (\<lambda>_. Ok epoch), v, d)))"

section \<open>Format upgrades\<close>

text \<open>The three one-way upgrades share one shape: publish the new flag if it is not set, then make sure the
  other bank does not hold an older format.\<close>

definition finish_other_bank :: "'d disk \<Rightarrow> (recovery \<Rightarrow> bool) \<Rightarrow> volume \<Rightarrow> 'd \<Rightarrow> ('d, unit) on_volume" where
  "finish_other_bank D flag v d =
     (case metadata_read D (1 - vl_bank v) d of
        (Ok other, d) \<Rightarrow>
          if (case md_recovery other of None \<Rightarrow> False | Some r \<Rightarrow> flag r) then (Ok (), v, d)
          else volume_commit D v (vl_metadata v) d
      | (Err e, d) \<Rightarrow>
          if e = FsCorrupt \<or> e = FsEmpty then volume_commit D v (vl_metadata v) d
          else (Err FsUncertain, v\<lparr>vl_poisoned := True\<rparr>, d)
      | (Panic, d) \<Rightarrow> (Panic, v, d))"

definition upgrade_flag ::
  "'d disk \<Rightarrow> (recovery \<Rightarrow> bool) \<Rightarrow> (recovery \<Rightarrow> recovery) \<Rightarrow> recovery \<Rightarrow> volume \<Rightarrow> 'd \<Rightarrow> ('d, unit) on_volume" where
  "upgrade_flag D flag set_flag r v d =
     (if flag r then finish_other_bank D flag v d
      else (case volume_commit D v ((vl_metadata v)\<lparr>md_recovery := Some (set_flag r)\<rparr>) d of
          (Ok _, v, d) \<Rightarrow> finish_other_bank D flag v d
        | (Err e, v, d) \<Rightarrow> (Err e, v, d)
        | (Panic, v, d) \<Rightarrow> (Panic, v, d)))"

definition enable_operations :: "'d disk \<Rightarrow> volume \<Rightarrow> 'd \<Rightarrow> ('d, unit) on_volume" where
  "enable_operations D v d =
     with_volume v d (current_recovery v) (\<lambda>r. upgrade_flag D rv_scoped (\<lambda>r. r\<lparr>rv_scoped := True\<rparr>) r v d)"

definition enable_admissions :: "'d disk \<Rightarrow> volume \<Rightarrow> 'd \<Rightarrow> ('d, unit) on_volume" where
  "enable_admissions D v d =
     with_volume v d (and_then (current_recovery v) (\<lambda>r. if rv_scoped r then Ok r else Err FsUnsupported))
       (\<lambda>r. upgrade_flag D rv_admissions (\<lambda>r. r\<lparr>rv_admissions := True\<rparr>) r v d)"

definition operations_enabled :: "volume \<Rightarrow> (fs_error, bool) outcome" where
  "operations_enabled v =
     and_then (volume_ready v) (\<lambda>_. Ok (case md_recovery (vl_metadata v) of None \<Rightarrow> False | Some r \<Rightarrow> rv_scoped r))"

definition volume_admissions :: "volume \<Rightarrow> (fs_error, recovery) outcome" where
  "volume_admissions v = and_then (current_recovery v) (\<lambda>r. if rv_admissions r then Ok r else Err FsUnsupported)"

definition prevention_reasons_enabled :: "volume \<Rightarrow> (fs_error, bool) outcome" where
  "prevention_reasons_enabled v = and_then (volume_admissions v) (\<lambda>r. Ok (rv_reasons r))"

definition enable_prevention_reasons :: "'d disk \<Rightarrow> volume \<Rightarrow> 'd \<Rightarrow> ('d, unit) on_volume" where
  "enable_prevention_reasons D v d =
     with_volume v d (volume_admissions v) (\<lambda>r. upgrade_flag D rv_reasons (\<lambda>r. r\<lparr>rv_reasons := True\<rparr>) r v d)"

section \<open>Scoped operations\<close>

record replacement =
  rp_workspace :: u32
  rp_retry :: retry
  rp_id :: u32
  rp_version :: u64

record operation_view =
  op_workspace :: u32
  op_instance :: u64
  op_receipt :: receipt
  op_bytes :: bytes

definition retained_operation :: "retained \<Rightarrow> (fs_error, operation_view) outcome" where
  "retained_operation q =
     and_then (ok_or FsOutcomeUnknown (rr_namespace q)) (\<lambda>(w, i).
     and_then (case rr_admission q of None \<Rightarrow> Ok ()
         | Some a \<Rightarrow> (case so_state a of AdAdmitted \<Rightarrow> Err FsBusy | AdCancelled \<Rightarrow> Err FsCancelled | AdCommitted \<Rightarrow> Ok ())) (\<lambda>_.
       Ok \<lparr>op_workspace = w, op_instance = i, op_receipt = rr_receipt q,
           op_bytes = take (unat (rc_length (rr_receipt q))) (rr_bytes q)\<rparr>))"

definition scoped_recovery :: "volume \<Rightarrow> (fs_error, recovery) outcome" where
  "scoped_recovery v = and_then (current_recovery v) (\<lambda>r. if rv_scoped r then Ok r else Err FsUnsupported)"

definition in_workspace :: "u32 \<Rightarrow> retained \<Rightarrow> bool" where
  "in_workspace w q = (case rr_namespace q of None \<Rightarrow> False | Some (x, _) \<Rightarrow> x = w)"

definition find_retry :: "recovery \<Rightarrow> u64 \<Rightarrow> u32 \<Rightarrow> retry \<Rightarrow> retained option" where
  "find_retry r subject workspace rt =
     find (\<lambda>q. in_workspace workspace q \<and> rr_subject q = subject \<and> rc_retry (rr_receipt q) = rt) (flatten (rv_records r))"

definition operation_by_retry :: "volume \<Rightarrow> u64 \<Rightarrow> u32 \<Rightarrow> retry \<Rightarrow> (fs_error, operation_view) outcome" where
  "operation_by_retry v subject workspace rt =
     and_then (scoped_recovery v) (\<lambda>r.
     if subject = 0 \<or> workspace = 0 \<or> rt_epoch rt = 0 \<or> rt_key rt = 0 then Err FsInvalid
     else if rt_lineage rt \<noteq> rv_lineage r then Err FsLineage
     else (case find_retry r subject workspace rt of
         Some q \<Rightarrow> retained_operation q
       | None \<Rightarrow> if rt_epoch rt \<noteq> rv_epoch r then Err FsExpiredEpoch else Err FsOutcomeUnknown))"

definition operation_by_id :: "volume \<Rightarrow> u64 \<Rightarrow> bytes \<Rightarrow> u64 \<Rightarrow> (fs_error, operation_view) outcome" where
  "operation_by_id v subject lin committed =
     and_then (scoped_recovery v) (\<lambda>r.
     if subject = 0 \<or> committed = 0 then Err FsInvalid
     else if lin \<noteq> rv_lineage r then Err FsLineage
     else and_then (ok_or FsOutcomeUnknown
         (find (\<lambda>q. rr_subject q = subject \<and> rc_committed (rr_receipt q) = committed) (flatten (rv_records r))))
       retained_operation)"

definition prepare_scoped ::
  "volume \<Rightarrow> 'd \<Rightarrow> u64 \<Rightarrow> u64 \<Rightarrow> replacement \<Rightarrow> bytes \<Rightarrow> (fs_error, ('d, receipt) publication) outcome" where
  "prepare_scoped v d subject inst request bs =
     and_then (volume_ready v) (\<lambda>_.
     if length bs > max_file then Err FsSize
     else (case operation_by_retry v subject (rp_workspace request) (rp_retry request) of
         Ok old \<Rightarrow>
           if rc_id (op_receipt old) \<noteq> rp_id request \<or> rc_previous (op_receipt old) \<noteq> rp_version request \<or> op_bytes old \<noteq> bs
           then Err FsIdempotencyConflict else Ok (publication_replayed v d (op_receipt old))
       | Panic \<Rightarrow> Panic
       | Err e \<Rightarrow>
           if e \<noteq> FsOutcomeUnknown then Err e
           else and_then (volume_resolve v (rp_workspace request) (rp_id request)) (\<lambda>_.
             and_then (expect (md_recovery (vl_metadata v))) (\<lambda>r.
             and_then (free_record r) (\<lambda>slot.
             and_then (ok_or FsExhausted (checked_add (md_sequence (vl_metadata v)) 1)) (\<lambda>s.
             let i = (if inst = 0 then s else inst) in
             if i > s then Err FsInvalid
             else let c = \<lparr>rc_retry = rp_retry request, rc_id = rp_id request, rc_previous = rp_version request,
                         rc_committed = s, rc_length = of_nat (length bs)\<rparr>;
                      q = \<lparr>rr_subject = subject, rr_receipt = c, rr_namespace = Some (rp_workspace request, i),
                           rr_bytes = put (replicate max_file 0) 0 bs, rr_admission = None\<rparr>
                  in and_then (put_record (vl_metadata v) slot q) (\<lambda>nxt.
                     prepare_recorded v d (rp_id request) (rp_version request) bs nxt (\<lambda>_. c))))))))"

definition replace_scoped ::
  "'d disk \<Rightarrow> volume \<Rightarrow> u64 \<Rightarrow> u64 \<Rightarrow> replacement \<Rightarrow> bytes \<Rightarrow> 'd \<Rightarrow> (('d, receipt) on_volume) option" where
  "replace_scoped D v subject inst request bs d = run_to_volume D v d (prepare_scoped v d subject inst request bs)"

section \<open>Admissions\<close>

record admission_id =
  ai_lineage :: bytes
  ai_number :: u64

record admission_status =
  as_id :: admission_id
  as_state :: admission_state
  as_terminal :: u64
  as_prevention :: "prevention_reason option"

record admission =
  am_status :: admission_status
  am_request :: replacement
  am_instance :: u64
  am_receipt :: "receipt option"
  am_bytes :: bytes

definition admission_view :: "retained \<Rightarrow> (fs_error, admission) outcome" where
  "admission_view q =
     and_then (ok_or FsUnsupported (rr_admission q)) (\<lambda>a.
     and_then (ok_or FsCorrupt (rr_namespace q)) (\<lambda>(w, i).
       let c = rr_receipt q in
       Ok \<lparr>am_status = \<lparr>as_id = \<lparr>ai_lineage = rt_lineage (rc_retry c), ai_number = so_number a\<rparr>, as_state = so_state a,
              as_terminal = so_terminal a, as_prevention = so_prevention a\<rparr>,
           am_request = \<lparr>rp_workspace = w, rp_retry = rc_retry c, rp_id = rc_id c, rp_version = rc_previous c\<rparr>,
           am_instance = i, am_receipt = (if so_state a = AdCommitted then Some c else None),
           am_bytes = take (unat (rc_length c)) (rr_bytes q)\<rparr>))"

definition retained_admission :: "volume \<Rightarrow> nat \<Rightarrow> (fs_error, (u64 \<times> admission) option) outcome" where
  "retained_admission v slot =
     and_then (volume_admissions v) (\<lambda>r.
     if slot \<ge> length (rv_records r) then Err FsInvalid
     else (case rv_records r ! slot of
         None \<Rightarrow> Ok None
       | Some q \<Rightarrow> if rr_admission q = None then Ok None
                   else and_then (admission_view q) (\<lambda>a. Ok (Some (rr_subject q, a)))))"

definition admission_slot :: "volume \<Rightarrow> u64 \<Rightarrow> admission_id \<Rightarrow> (fs_error, nat) outcome" where
  "admission_slot v subject i =
     and_then (volume_admissions v) (\<lambda>r.
     if subject = 0 \<or> ai_number i = 0 then Err FsInvalid
     else if ai_lineage i \<noteq> rv_lineage r then Err FsLineage
     else ok_or FsOutcomeUnknown (position (\<lambda>x. case x of None \<Rightarrow> False
       | Some q \<Rightarrow> rr_subject q = subject \<and> (case rr_admission q of None \<Rightarrow> False | Some a \<Rightarrow> so_number a = ai_number i))
         (rv_records r)))"

definition admission_record :: "volume \<Rightarrow> nat \<Rightarrow> (fs_error, retained) outcome" where
  "admission_record v slot = and_then (volume_admissions v) (\<lambda>r. expect (rv_records r ! slot))"

definition admission_by_id :: "volume \<Rightarrow> u64 \<Rightarrow> admission_id \<Rightarrow> (fs_error, admission) outcome" where
  "admission_by_id v subject i =
     and_then (admission_slot v subject i) (\<lambda>slot. and_then (admission_record v slot) admission_view)"

definition admission_by_retry :: "volume \<Rightarrow> u64 \<Rightarrow> u32 \<Rightarrow> retry \<Rightarrow> (fs_error, admission) outcome" where
  "admission_by_retry v subject workspace rt =
     and_then (volume_admissions v) (\<lambda>r.
     if subject = 0 \<or> workspace = 0 \<or> rt_key rt = 0 \<or> rt_epoch rt = 0 then Err FsInvalid
     else if rt_lineage rt \<noteq> rv_lineage r then Err FsLineage
     else (case find_retry r subject workspace rt of
         Some q \<Rightarrow> admission_view q
       | None \<Rightarrow> if rt_epoch rt \<noteq> rv_epoch r then Err FsExpiredEpoch else Err FsOutcomeUnknown))"

definition prepare_admission ::
  "volume \<Rightarrow> 'd \<Rightarrow> u64 \<Rightarrow> u64 \<Rightarrow> replacement \<Rightarrow> bytes \<Rightarrow> (fs_error, ('d, admission_status) publication) outcome" where
  "prepare_admission v d subject inst request bs =
     (if length bs > max_file then Err FsSize
      else (case admission_by_retry v subject (rp_workspace request) (rp_retry request) of
         Ok old \<Rightarrow>
           if rp_id (am_request old) \<noteq> rp_id request \<or> rp_version (am_request old) \<noteq> rp_version request \<or> am_bytes old \<noteq> bs
           then Err FsIdempotencyConflict else Ok (publication_replayed v d (am_status old))
       | Panic \<Rightarrow> Panic
       | Err e \<Rightarrow>
           if e \<noteq> FsOutcomeUnknown then Err e
           else and_then (volume_resolve v (rp_workspace request) (rp_id request)) (\<lambda>_.
             and_then (volume_writable v (rp_id request)) (\<lambda>n.
             if nd_kind n \<noteq> KFile then Err FsIsDirectory
             else if nd_version n \<noteq> rp_version request then Err FsVersion
             else and_then (volume_admissions v) (\<lambda>r.
             and_then (free_record r) (\<lambda>slot.
             and_then (ok_or FsExhausted (checked_add (volume_sequence v) 1)) (\<lambda>number.
             let i = (if inst = 0 then number else inst) in
             if i > number then Err FsInvalid
             else let q = \<lparr>rr_subject = subject,
                       rr_receipt = \<lparr>rc_retry = rp_retry request, rc_id = rp_id request, rc_previous = rp_version request,
                         rc_committed = 0, rc_length = of_nat (length bs)\<rparr>,
                       rr_namespace = Some (rp_workspace request, i), rr_bytes = put (replicate max_file 0) 0 bs,
                       rr_admission = Some \<lparr>so_number = number, so_state = AdAdmitted, so_terminal = 0, so_prevention = None\<rparr>\<rparr>
                  in and_then (admission_view q) (\<lambda>view.
                     and_then (put_record (vl_metadata v) slot q) (\<lambda>nxt.
                       publication_metadata v d nxt (am_status view))))))))))"

definition admit_replace ::
  "'d disk \<Rightarrow> volume \<Rightarrow> u64 \<Rightarrow> u64 \<Rightarrow> replacement \<Rightarrow> bytes \<Rightarrow> 'd \<Rightarrow> (('d, admission_status) on_volume) option" where
  "admit_replace D v subject inst request bs d = run_to_volume D v d (prepare_admission v d subject inst request bs)"

definition prepare_cancelled ::
  "volume \<Rightarrow> 'd \<Rightarrow> u64 \<Rightarrow> admission_id \<Rightarrow> prevention_reason \<Rightarrow> (fs_error, ('d, admission_status) publication) outcome" where
  "prepare_cancelled v d subject i reason =
     and_then (admission_slot v subject i) (\<lambda>slot.
     and_then (admission_by_id v subject i) (\<lambda>view.
       let old = am_status view in
       if as_state old \<noteq> AdAdmitted then Ok (publication_replayed v d old)
       else and_then (ok_or FsExhausted (checked_add (volume_sequence v) 1)) (\<lambda>terminal.
         and_then (expect (md_recovery (vl_metadata v))) (\<lambda>r.
         and_then (expect (rv_records r ! slot)) (\<lambda>q.
         and_then (expect (rr_admission q)) (\<lambda>a.
         and_then (put_record (vl_metadata v) slot (q\<lparr>rr_admission :=
             Some (a\<lparr>so_state := AdCancelled, so_terminal := terminal, so_prevention := Some reason\<rparr>)\<rparr>)) (\<lambda>nxt.
           publication_metadata v d nxt
             (old\<lparr>as_state := AdCancelled, as_terminal := terminal, as_prevention := Some reason\<rparr>))))))))"

definition prepare_cancellation ::
  "volume \<Rightarrow> 'd \<Rightarrow> u64 \<Rightarrow> admission_id \<Rightarrow> (fs_error, ('d, admission_status) publication) outcome" where
  "prepare_cancellation v d subject i =
     and_then (prevention_reasons_enabled v) (\<lambda>enabled.
       prepare_cancelled v d subject i (if enabled then PrRequested else PrUnknown))"

definition prepare_prevention ::
  "volume \<Rightarrow> 'd \<Rightarrow> u64 \<Rightarrow> admission_id \<Rightarrow> prevention_reason \<Rightarrow> (fs_error, ('d, admission_status) publication) outcome" where
  "prepare_prevention v d subject i reason =
     and_then (prevention_reasons_enabled v) (\<lambda>enabled.
       if \<not> enabled then Err FsUnsupported else prepare_cancelled v d subject i reason)"

definition cancel_admission ::
  "'d disk \<Rightarrow> volume \<Rightarrow> u64 \<Rightarrow> admission_id \<Rightarrow> 'd \<Rightarrow> (('d, admission_status) on_volume) option" where
  "cancel_admission D v subject i d = run_to_volume D v d (prepare_cancellation v d subject i)"

definition prepare_admitted ::
  "volume \<Rightarrow> 'd \<Rightarrow> u64 \<Rightarrow> admission_id \<Rightarrow> (fs_error, ('d, receipt) publication) outcome" where
  "prepare_admitted v d subject i =
     and_then (admission_slot v subject i) (\<lambda>slot.
     and_then (admission_record v slot) (\<lambda>q.
     and_then (admission_view q) (\<lambda>view.
       (case as_state (am_status view) of
          AdCancelled \<Rightarrow> Err FsCancelled
        | AdCommitted \<Rightarrow> Ok (publication_replayed v d (rr_receipt q))
        | AdAdmitted \<Rightarrow>
            and_then (volume_resolve v (rp_workspace (am_request view)) (rc_id (rr_receipt q))) (\<lambda>_.
            and_then (ok_or FsExhausted (checked_add (volume_sequence v) 1)) (\<lambda>s.
            and_then (expect (rr_admission q)) (\<lambda>a.
              let c = (rr_receipt q)\<lparr>rc_committed := s\<rparr>;
                  q = q\<lparr>rr_receipt := c, rr_admission := Some (a\<lparr>so_state := AdCommitted, so_terminal := s\<rparr>)\<rparr>
              in and_then (put_record (vl_metadata v) slot q) (\<lambda>nxt.
                 prepare_recorded v d (rc_id c) (rc_previous c) (am_bytes view) nxt (\<lambda>_. c)))))))))"

end
