(* ===== verification/Records.thy ===== *)
theory Records
  imports Tracked Mutations
begin

text \<open>
  The retained records under the operations of \<open>Tracked\<close>: every record an operation adds or advances, and
  every format upgrade, keeps the recovery area well formed, so the next mount accepts it. A new record is
  marked with the next sequence number, which no retained record carries yet.
\<close>

section \<open>Clashes\<close>

lemma clashes_sym: "clashes q r \<Longrightarrow> clashes r q"
  by (auto simp: clashes_def list_ex_iff)

definition marks_below :: "retained \<Rightarrow> u64 \<Rightarrow> bool" where
  "marks_below q s \<longleftrightarrow> (\<forall>n\<in>set (marks (rr_receipt q) (rr_admission q)). n \<le> s)"

lemma retained_ok_marks:
  assumes "retained_ok v sequence nxt version q"
  shows "marks_below q sequence"
proof -
  have "rc_committed (rr_receipt q) \<le> sequence" using assms by (auto simp: retained_ok_def Let_def)
  moreover have "so_number a \<le> sequence \<and> so_terminal a \<le> sequence" if "rr_admission q = Some a" for a
    using assms that by (cases "so_state a") (auto simp: retained_ok_def Let_def admission_ok_def terminal_bad_def)
  ultimately show ?thesis by (auto simp: marks_below_def marks_def split: option.splits)
qed

lemma fresh_no_clash:
  assumes "marks_below r sequence" and "\<And>n. n \<in> set (marks (rr_receipt q) (rr_admission q)) \<Longrightarrow> n = 0 \<or> sequence < n \<or> n \<notin> set (marks (rr_receipt r) (rr_admission r))"
    and "rr_subject r = rr_subject q \<Longrightarrow> map_option fst (rr_namespace r) = map_option fst (rr_namespace q) \<Longrightarrow>
      rc_retry (rr_receipt r) \<noteq> rc_retry (rr_receipt q)"
  shows "\<not> clashes q r"
proof
  assume "clashes q r"
  then obtain n where "n \<in> set (marks (rr_receipt q) (rr_admission q))" "n \<noteq> 0" "n \<in> set (marks (rr_receipt r) (rr_admission r))"
    using assms(3) by (auto simp: clashes_def list_ex_iff)
  then show False using assms(1) assms(2) [of n] by (auto simp: marks_below_def)
qed

lemma records_two: "length xs = 2 \<Longrightarrow> \<exists>a b. xs = [a, b]"
  by (cases xs; cases "tl xs") auto

lemma recovery_ok_put:
  assumes ok: "recovery_ok sequence nxt version v" and le: "sequence \<le> s" and slot: "slot < retained_slots"
    and q: "retained_ok v s nxt version q"
    and nc: "\<And>j r. j < retained_slots \<Longrightarrow> j \<noteq> slot \<Longrightarrow> rv_records v ! j = Some r \<Longrightarrow> \<not> clashes q r"
  shows "recovery_ok s nxt version (v\<lparr>rv_records := (rv_records v)[slot := Some q]\<rparr>)"
proof -
  let ?v = "v\<lparr>rv_records := (rv_records v)[slot := Some q]\<rparr>"
  have o: "recovery_ok s nxt version v" by (rule recovery_ok_mono [OF ok le order_refl])
  have same: "retained_ok ?v s nxt version r = retained_ok v s nxt version r" for r by (simp add: retained_ok_def)
  obtain a b where ab: "rv_records v = [a, b]" using records_two [of "rv_records v"] o by (auto simp: recovery_ok_def)
  have "slot = 0 \<or> slot = 1" using slot by auto
  then show ?thesis
  proof
    assume 0: "slot = 0"
    have "\<not> clashes r q" if "b = Some r" for r using nc [of 1 r] that ab 0 clashes_sym by auto
    then show ?thesis using o q ab 0 unfolding recovery_ok_def same by (auto split: option.splits)
  next
    assume 1: "slot = 1"
    have "\<not> clashes q r" if "a = Some r" for r using nc [of 0 r] that ab 1 by auto
    then show ?thesis using o q ab 1 unfolding recovery_ok_def same by (auto split: option.splits)
  qed
qed

section \<open>Metadata with other records\<close>

lemma metadata_ok_recovery:
  assumes "metadata_ok md" and "md_sequence md \<le> s"
    and "recovery_ok s (md_next md) (ucast (header_version (md\<lparr>md_recovery := Some r\<rparr>))) r"
  shows "metadata_ok (md\<lparr>md_recovery := Some r, md_sequence := s\<rparr>)"
proof -
  note ok = metadata_okD [OF assms(1)]
  have "md\<lparr>md_recovery := Some r, md_sequence := s\<rparr> = md\<lparr>md_sequence := s, md_next := md_next md, md_recovery := Some r\<rparr>" by simp
  then have "tree_ok (md\<lparr>md_recovery := Some r, md_sequence := s\<rparr>)"
    using tree_ok_later [OF ok(3) assms(2) order_refl, of "Some r"] by metis
  moreover have "header_version (md\<lparr>md_recovery := Some r, md_sequence := s\<rparr>) = header_version (md\<lparr>md_recovery := Some r\<rparr>)"
    by (simp add: header_version_def)
  ultimately show ?thesis using ok(1,2) assms(3) by (simp add: metadata_ok_def)
qed

lemma put_record_ok:
  assumes ok: "metadata_ok md" and r: "md_recovery md = Some r" and put: "put_record md slot q = Ok nxt"
    and le: "md_sequence md \<le> s" and slot: "slot < retained_slots"
    and q: "retained_ok r s (md_next md) (ucast (header_version md)) q"
    and nc: "\<And>j x. j < retained_slots \<Longrightarrow> j \<noteq> slot \<Longrightarrow> rv_records r ! j = Some x \<Longrightarrow> \<not> clashes q x"
  shows "metadata_ok (nxt\<lparr>md_sequence := s\<rparr>)" and "md_nodes nxt = md_nodes md"
proof -
  let ?r = "r\<lparr>rv_records := (rv_records r)[slot := Some q]\<rparr>"
  have n: "nxt = md\<lparr>md_recovery := Some ?r\<rparr>" using put r by (simp add: put_record_def)
  have "header_version (md\<lparr>md_recovery := Some ?r\<rparr>) = header_version md" using r by (simp add: header_version_def)
  then show "metadata_ok (nxt\<lparr>md_sequence := s\<rparr>)"
    unfolding n using recovery_ok_put [OF metadata_okD(4) [OF ok r] le slot q nc] by (intro metadata_ok_recovery [OF ok le]) simp
  show "md_nodes nxt = md_nodes md" by (simp add: n)
qed

section \<open>New records\<close>

lemma live_file:
  assumes "metadata_ok md" and "n \<in> live_nodes md" and "nd_kind n = KFile"
  shows "4 < nd_id n" "nd_id n < md_next md" "nd_version n \<noteq> 0" "nd_version n \<le> md_sequence md"
proof -
  note t = tree_okD [OF metadata_okD(3) [OF assms(1)]]
  have p: "placed md n" by (rule t(3) [OF assms(2)])
  then show "nd_id n < md_next md" "nd_version n \<le> md_sequence md" by (auto simp: placed_def)
  have "node_ok n" using metadata_okD(2) [OF assms(1)] assms(2) by (auto simp: live_nodes_def)
  then show "nd_version n \<noteq> 0" using assms(3) by (simp add: node_ok_def)
  have "nd_id n \<noteq> i" if i: "i \<in> {1, 2, 3, 4}" for i
  proof
    assume e: "nd_id n = i"
    obtain x where x: "x \<in> live_nodes md" "nd_id x = i" "nd_parent x = 0" using t(6) [OF i] by blast
    then have "x = n" using live_nodes_unique [OF t(4) _ assms(2)] e by simp
    then have "root_ok n" using p x(3) by (simp add: placed_def)
    then show False using assms(3) by (simp add: root_ok_def)
  qed
  then have "nd_id n \<notin> {0, 1, 2, 3, 4}" using \<open>node_ok n\<close> assms(3) by (auto simp: node_ok_def)
  then show "4 < nd_id n" by (intro not_le_imp_less) (auto simp: word_le_nat_alt word_unat_eq_iff)
qed

lemma zeros_after: "length bs \<le> k \<Longrightarrow> \<not> any_nonzero (drop (length bs) (put (replicate k 0) 0 bs))"
  by (simp add: put_def any_nonzero_def list_ex_iff)

definition file_record :: "metadata \<Rightarrow> recovery \<Rightarrow> node \<Rightarrow> bytes \<Rightarrow> retained \<Rightarrow> bool" where
  "file_record md r n bs q \<longleftrightarrow>
     n \<in> live_nodes md \<and> nd_kind n = KFile \<and> rc_id (rr_receipt q) = nd_id n \<and> rc_previous (rr_receipt q) = nd_version n \<and>
     length bs \<le> max_file \<and> rc_length (rr_receipt q) = of_nat (length bs) \<and> rr_bytes q = put (replicate max_file 0) 0 bs \<and>
     rr_subject q \<noteq> 0 \<and> rt_lineage (rc_retry (rr_receipt q)) = rv_lineage r \<and> rt_epoch (rc_retry (rr_receipt q)) = rv_epoch r \<and>
     rt_key (rc_retry (rr_receipt q)) \<noteq> 0"

lemma new_record_ok:
  assumes ok: "metadata_ok md" and less: "md_sequence md < s" and q: "file_record md r n bs q"
    and state: "rr_admission q = None \<and> rc_committed (rr_receipt q) = s \<or>
      rv_admissions r \<and> version \<ge> 4 \<and> rc_committed (rr_receipt q) = 0 \<and> (\<exists>w i. rr_namespace q = Some (w, i)) \<and>
      rr_admission q = Some \<lparr>so_number = s, so_state = AdAdmitted, so_terminal = 0, so_prevention = None\<rparr>"
    and ns: "\<And>w i. rr_namespace q = Some (w, i) \<Longrightarrow> rv_scoped r \<and> w \<noteq> 0 \<and> w < md_next md \<and> w \<noteq> nd_id n \<and> i \<noteq> 0 \<and> i \<le> s"
  shows "retained_ok r s (md_next md) version q"
proof -
  have f: "4 < nd_id n" "nd_id n < md_next md" "nd_version n \<noteq> 0" "nd_version n \<le> md_sequence md"
    using live_file [OF ok] q by (auto simp: file_record_def)
  have len: "unat (rc_length (rr_receipt q)) = length bs" "length bs \<le> max_file"
    using q by (auto simp: file_record_def unsigned_of_nat take_bit_nat_eq_self)
  have less': "nd_version n < s" using f(4) less by simp
  have nz: "s \<noteq> 0" using less by auto
  have adm: "admission_ok s version (rr_receipt q) (rr_namespace q) a" if "rr_admission q = Some a" for a
    using state that less' nz ns q by (auto simp: admission_ok_def terminal_bad_def reason_byte_def file_record_def)
  show ?thesis
    using q f len less' state ns adm zeros_after [OF len(2)] unfolding retained_ok_def Let_def file_record_def by auto
qed

lemma new_record_no_clash:
  assumes ok: "recovery_ok sequence nxt version r" and less: "sequence < s"
    and x: "j < retained_slots" "rv_records r ! j = Some x"
    and marks: "set (marks (rr_receipt q) (rr_admission q)) \<subseteq> {0, s}"
    and id: "\<And>y. y \<in> set (flatten (rv_records r)) \<Longrightarrow> rr_subject y = rr_subject q \<Longrightarrow>
      map_option fst (rr_namespace y) = map_option fst (rr_namespace q) \<Longrightarrow> rc_retry (rr_receipt y) \<noteq> rc_retry (rr_receipt q)"
  shows "\<not> clashes q x"
proof (rule fresh_no_clash)
  have "x \<in> set (flatten (rv_records r))"
    using x ok nth_mem [of j "rv_records r"] by (auto simp: recovery_ok_def in_flatten_iff)
  then show "marks_below x sequence"
    using ok retained_ok_marks by (auto simp: recovery_ok_def)
  show "rc_retry (rr_receipt x) \<noteq> rc_retry (rr_receipt q)"
    if "rr_subject x = rr_subject q" "map_option fst (rr_namespace x) = map_option fst (rr_namespace q)"
    using id [OF \<open>x \<in> set (flatten (rv_records r))\<close> that] .
qed (use marks less in auto)

lemma new_record_put:
  assumes ok: "metadata_ok md" and r: "md_recovery md = Some r" and less: "md_sequence md < s" and q: "file_record md r n bs q"
    and state: "rr_admission q = None \<and> rc_committed (rr_receipt q) = s \<or>
      rv_admissions r \<and> rc_committed (rr_receipt q) = 0 \<and> (\<exists>w i. rr_namespace q = Some (w, i)) \<and>
      rr_admission q = Some \<lparr>so_number = s, so_state = AdAdmitted, so_terminal = 0, so_prevention = None\<rparr>"
    and ns: "\<And>w i. rr_namespace q = Some (w, i) \<Longrightarrow> rv_scoped r \<and> w \<noteq> 0 \<and> w < md_next md \<and> w \<noteq> nd_id n \<and> i \<noteq> 0 \<and> i \<le> s"
    and id: "\<And>y. y \<in> set (flatten (rv_records r)) \<Longrightarrow> rr_subject y = rr_subject q \<Longrightarrow>
      map_option fst (rr_namespace y) = map_option fst (rr_namespace q) \<Longrightarrow> rc_retry (rr_receipt y) \<noteq> rc_retry (rr_receipt q)"
    and free: "free_record r = Ok slot" and put: "put_record md slot q = Ok nxt"
  shows "metadata_ok (nxt\<lparr>md_sequence := s\<rparr>)" and "md_nodes nxt = md_nodes md"
proof -
  note rok = metadata_okD(4) [OF ok r]
  have ver: "rv_admissions r \<Longrightarrow> ucast (header_version md) \<ge> (4 :: u8)" using rok by (simp add: recovery_ok_def)
  have slot: "slot < retained_slots" using free rok by (auto simp: free_record_def position_Some_iff recovery_ok_def)
  have "set (marks (rr_receipt q) (rr_admission q)) \<subseteq> {0, s}" using state by (auto simp: marks_def)
  then have nc: "\<not> clashes q x" if "j < retained_slots" "j \<noteq> slot" "rv_records r ! j = Some x" for j x
    using new_record_no_clash [OF rok less that(1,3) _ id] by blast
  have qok: "retained_ok r s (md_next md) (ucast (header_version md)) q"
    by (rule new_record_ok [OF ok less q _ ns]) (use state ver in blast)+
  show "metadata_ok (nxt\<lparr>md_sequence := s\<rparr>)" "md_nodes nxt = md_nodes md"
    by (rule put_record_ok [OF ok r put less_imp_le [OF less] slot qok], rule nc, assumption+)+
qed

section \<open>Epochs and upgrades\<close>

lemma header_version_flags:
  assumes "metadata_ok md" and "md_recovery md = Some r"
  shows "rv_admissions r \<Longrightarrow> rv_scoped r" and "rv_reasons r \<Longrightarrow> rv_admissions r"
    and "ucast (header_version md) = (if rv_reasons r then 5 else if rv_admissions r then 4 else if rv_scoped r then 3 else 2 :: u8)"
proof -
  note ok = metadata_okD(4) [OF assms]
  show "rv_admissions r \<Longrightarrow> rv_scoped r"
    using ok order.trans [of 3 4 "ucast (header_version md) :: u8"] by (simp add: recovery_ok_def)
  show "rv_reasons r \<Longrightarrow> rv_admissions r" using ok by (simp add: recovery_ok_def)
  show "ucast (header_version md) = (if rv_reasons r then 5 else if rv_admissions r then 4 else if rv_scoped r then 3 else 2 :: u8)"
    using assms(2) by (simp add: header_version_def)
qed

text \<open>A record stays acceptable in a newer format.\<close>

lemma retained_ok_upgrade:
  assumes "retained_ok r sequence nxt version q" and "rv_lineage r' = rv_lineage r" and "rv_epoch r' = rv_epoch r"
    and "rv_scoped r \<longrightarrow> rv_scoped r'" and "version \<le> version'" and "version' = 4 \<longrightarrow> version \<noteq> 5"
    and "version < 4 \<or> version' = 5"
  shows "retained_ok r' sequence nxt version' q"
proof -
  have adm: "admission_ok sequence version' c ns a" if a: "admission_ok sequence version c ns a" for c ns a
  proof -
    have "4 \<le> version" using a by (simp add: admission_ok_def)
    then have "version' = 5" using assms(7) by auto
    then show ?thesis using a by (auto simp: admission_ok_def)
  qed
  show ?thesis using assms(1-4) adm unfolding retained_ok_def Let_def by auto
qed

lemma recovery_ok_upgrade:
  assumes ok: "recovery_ok sequence nxt version r" and new: "rv_scoped r' = (version' \<ge> 3)" "rv_admissions r' = (version' \<ge> 4)"
      "rv_reasons r' = (version' = 5)" "rv_lineage r' = rv_lineage r" "rv_epoch r' = rv_epoch r" "rv_records r' = rv_records r"
    and "version \<le> version'" and "version' = 4 \<longrightarrow> version \<noteq> 5" and "version < 4 \<or> version' = 5"
    and "rv_scoped r \<longrightarrow> rv_scoped r'"
  shows "recovery_ok sequence nxt version' r'"
proof -
  have "retained_ok r' sequence nxt version' q" if "q \<in> set (flatten (rv_records r))" for q
    by (rule retained_ok_upgrade [OF _ new(4,5) assms(11,8,9,10)]) (use ok that in \<open>simp add: recovery_ok_def\<close>)
  then show ?thesis using ok new by (simp add: recovery_ok_def)
qed

lemma upgrade_ok:
  assumes ok: "metadata_ok md" and r: "md_recovery md = Some r" and le: "md_sequence md \<le> s"
    and step: "\<not> rv_scoped r \<and> r' = r\<lparr>rv_scoped := True\<rparr> \<or> rv_scoped r \<and> \<not> rv_admissions r \<and> r' = r\<lparr>rv_admissions := True\<rparr> \<or>
      rv_admissions r \<and> \<not> rv_reasons r \<and> r' = r\<lparr>rv_reasons := True\<rparr>"
  shows "metadata_ok (md\<lparr>md_recovery := Some r', md_sequence := s\<rparr>)"
proof (rule metadata_ok_recovery [OF ok le])
  note f = header_version_flags [OF ok r]
  have m: "recovery_ok s (md_next md) (ucast (header_version md)) r" by (rule recovery_ok_mono [OF metadata_okD(4) [OF ok r] le order_refl])
  from step show "recovery_ok s (md_next md) (ucast (header_version (md\<lparr>md_recovery := Some r'\<rparr>))) r'"
  proof (elim disjE conjE)
    assume "\<not> rv_scoped r" "r' = r\<lparr>rv_scoped := True\<rparr>"
    moreover then have "\<not> rv_admissions r" "\<not> rv_reasons r" using f by auto
    ultimately show ?thesis using m f(3) by (intro recovery_ok_upgrade [OF m]) (simp_all add: header_version_def)
  next
    assume "rv_scoped r" "\<not> rv_admissions r" "r' = r\<lparr>rv_admissions := True\<rparr>"
    moreover then have "\<not> rv_reasons r" using f by auto
    ultimately show ?thesis using m f(3) by (intro recovery_ok_upgrade [OF m]) (simp_all add: header_version_def)
  next
    assume "rv_admissions r" "\<not> rv_reasons r" "r' = r\<lparr>rv_reasons := True\<rparr>"
    moreover then have "rv_scoped r" using f by auto
    ultimately show ?thesis using m f(3) by (intro recovery_ok_upgrade [OF m]) (simp_all add: header_version_def)
  qed
qed

lemma epoch_ok:
  assumes ok: "metadata_ok md" and r: "md_recovery md = Some r" and s: "checked_add (md_sequence md) 1 = Some s"
    and e: "checked_add (rv_epoch r) 1 = Some epoch"
  shows "metadata_ok (md\<lparr>md_recovery := Some (r\<lparr>rv_epoch := epoch, rv_records := map (\<lambda>_. None) (rv_records r)\<rparr>), md_sequence := s\<rparr>)"
proof (rule metadata_ok_recovery [OF ok])
  show "md_sequence md \<le> s" using checked_add_Some_unat [OF s] by (simp add: word_le_nat_alt)
  let ?r = "r\<lparr>rv_epoch := epoch, rv_records := map (\<lambda>_. None) (rv_records r)\<rparr>"
  note m = metadata_okD(4) [OF ok r]
  have "header_version (md\<lparr>md_recovery := Some ?r\<rparr>) = header_version md" using r by (simp add: header_version_def)
  moreover have "flatten (map (\<lambda>_. None) (rv_records r)) = ([] :: retained list)" "map (\<lambda>_. None) (rv_records r) ! 0 = None"
    using m by (simp_all add: recovery_ok_def map_replicate_const)
  moreover have "epoch \<noteq> 0 \<and> epoch \<le> s"
    using checked_add_Some_unat [OF s] checked_add_Some_unat [OF e] m by (auto simp: recovery_ok_def word_le_nat_alt)
  ultimately show "recovery_ok s (md_next md) (ucast (header_version (md\<lparr>md_recovery := Some ?r\<rparr>))) ?r"
    using m by (simp add: recovery_ok_def)
qed

lemma enabled_ok:
  assumes ok: "metadata_ok md" and new: "recovery_new lin = Ok r" and lin: "length lin = 16" and le: "md_sequence md \<le> s"
  shows "metadata_ok (md\<lparr>md_recovery := Some r, md_sequence := s\<rparr>)"
proof (rule metadata_ok_recovery [OF ok le])
  have r: "r = \<lparr>rv_lineage = lin, rv_epoch = 1, rv_scoped = False, rv_admissions = False, rv_reasons = False,
              rv_records = replicate retained_slots None\<rparr>" "lin \<noteq> replicate 16 0"
    using new by (auto simp: recovery_new_def split: if_splits)
  have "s \<noteq> 0" using tree_okD(1) [OF metadata_okD(3) [OF ok]] le by auto
  then have "1 \<le> s" by (simp add: word_le_nat_alt unat_gt_0 Suc_le_eq)
  then show "recovery_ok s (md_next md) (ucast (header_version (md\<lparr>md_recovery := Some r\<rparr>))) r"
    using lin r by (simp add: recovery_ok_def header_version_def)
qed

end
