(* ===== verification/Mounting.thy ===== *)
theory Mounting
  imports Durability Records
begin

text \<open>
  Mounting as a whole, \<open>Volume::mount\<close> of \<open>crates/fs/src/volume.rs\<close>: the selection of a generation, the provisioning
  sector (\<open>provision.rs\<close>) and, on a provisioned volume without recovery records, their first publication. The disk
  here is any image of full sectors, whoever wrote it.
\<close>

section \<open>Selection\<close>

interpretation image: durable_disk image_disk "\<lambda>m. m" "\<lambda>m. m"
  by unfold_locales (auto simp: image_disk_def)

lemma content_cases:
  assumes "full_sectors m"
  obtains (ok) md where "bank_content m bank = Ok md" "metadata_ok md"
  | (empty) "bank_content m bank = Err FsEmpty" | (corrupt) "bank_content m bank = Err FsCorrupt"
  using bank_content_cases [of m bank] assms by (auto simp: full_sectors_def)

lemma two_generations:
  "select_generation (Ok x) (Ok y) = Err FsCorrupt \<or>
   select_generation (Ok x) (Ok y) = Ok (x, 0) \<and> md_sequence y \<le> md_sequence x \<or>
   select_generation (Ok x) (Ok y) = Ok (y, 1) \<and> md_sequence x \<le> md_sequence y"
  by (cases "md_sequence x" "md_sequence y" rule: linorder_cases) (auto simp: select_generation_def less_imp_le)

lemma select_cases:
  assumes a: "(\<exists>x. a = Ok x) \<or> a = Err FsEmpty \<or> a = Err FsCorrupt" and b: "(\<exists>y. b = Ok y) \<or> b = Err FsEmpty \<or> b = Err FsCorrupt"
  shows "select_generation a b = Err FsEmpty \<and> a = Err FsEmpty \<and> b = Err FsEmpty \<or>
    select_generation a b = Err FsCorrupt \<and> \<not> (a = Err FsEmpty \<and> b = Err FsEmpty) \<or>
    (\<exists>x. a = Ok x \<and> select_generation a b = Ok (x, 0) \<and> (\<forall>y. b = Ok y \<longrightarrow> md_sequence y \<le> md_sequence x)) \<or>
    (\<exists>y. b = Ok y \<and> select_generation a b = Ok (y, 1) \<and> (\<forall>x. a = Ok x \<longrightarrow> md_sequence x \<le> md_sequence y))"
proof (cases "\<exists>x y. a = Ok x \<and> b = Ok y")
  case True
  then obtain x y where "a = Ok x" "b = Ok y" by blast
  then show ?thesis using two_generations [of x y] by simp
next
  case False
  then show ?thesis using a b by (auto simp: select_generation_def)
qed

text \<open>The selected generation is a readable one, and no bank holds a newer one.\<close>

lemma selection:
  assumes full: "full_sectors m"
  obtains (selected) md bank where "mount_metadata image_disk m = (Ok (md, bank), m)" "bank \<le> 1" "metadata_ok md"
      "bank_content m bank = Ok md" "\<And>md'. bank_content m (1 - bank) = Ok md' \<Longrightarrow> md_sequence md' \<le> md_sequence md"
  | (empty) "mount_metadata image_disk m = (Err FsEmpty, m)" "m (header_sector 0) = zero_sector" "m (header_sector 1) = zero_sector"
  | (corrupt) "mount_metadata image_disk m = (Err FsCorrupt, m)"
      "\<not> (m (header_sector 0) = zero_sector \<and> m (header_sector 1) = zero_sector)"
proof -
  have ok: "bank_content m bank = Ok md \<Longrightarrow> metadata_ok md" for bank md
    by (rule content_cases [OF full, of bank]) auto
  have known: "(\<exists>x. bank_content m bank = Ok x) \<or> bank_content m bank = Err FsEmpty \<or> bank_content m bank = Err FsCorrupt" for bank
    by (rule content_cases [OF full, of bank]) auto
  note mount = mount_image [OF full] and blank = bank_content_empty [of m, symmetric]
  from select_cases [OF known [of 0] known [of 1]] show thesis
  proof (elim disjE exE conjE)
    assume h: "select_generation (bank_content m 0) (bank_content m 1) = Err FsEmpty" "bank_content m 0 = Err FsEmpty" "bank_content m 1 = Err FsEmpty"
    show thesis by (rule that(2)) (use mount h blank in simp_all)
  next
    assume h: "select_generation (bank_content m 0) (bank_content m 1) = Err FsCorrupt" "\<not> (bank_content m 0 = Err FsEmpty \<and> bank_content m 1 = Err FsEmpty)"
    show thesis by (rule that(3)) (use mount h blank in simp_all)
  next
    fix x assume "bank_content m 0 = Ok x" "select_generation (bank_content m 0) (bank_content m 1) = Ok (x, 0)"
      "\<forall>y. bank_content m 1 = Ok y \<longrightarrow> md_sequence y \<le> md_sequence x"
    then show thesis using that(1) [of x 0] mount ok [of 0 x] by simp
  next
    fix y assume "bank_content m 1 = Ok y" "select_generation (bank_content m 0) (bank_content m 1) = Ok (y, 1)"
      "\<forall>x. bank_content m 0 = Ok x \<longrightarrow> md_sequence x \<le> md_sequence y"
    then show thesis using that(1) [of y 1] mount ok [of 1 y] by simp
  qed
qed

section \<open>Enabling recovery\<close>

lemma checked_add_last: "checked_add (a :: u64) 1 = None \<Longrightarrow> a = - 1"
proof -
  assume "checked_add a 1 = None"
  moreover have "unat a < 2 ^ 64" using unsigned_less [of a] by simp
  ultimately have "unat a + 1 = 2 ^ 64" by (simp add: checked_add_def split: if_splits)
  then have "unat (a + 1) = 0" by (simp add: unat_word_ariths)
  then show "a = - 1" by (simp add: eq_neg_iff_add_eq_0 unat_eq_0)
qed

lemma scratch_loop_image:
  "scratch_loop image_disk expected ss m =
     (if \<exists>s\<in>set ss. enable_recovery_check expected s (m s) then Err FsCorrupt else Ok (), m)"
  by (induction ss) (auto simp: image_disk_def)

lemma run_commands_image: "\<exists>m'. run_commands image_disk cs m = (Ok (), m')"
proof (induction cs arbitrary: m)
  case (Cons c cs)
  then show ?case by (cases c) (simp_all add: image_disk_def)
qed simp

lemma write_image:
  assumes ok: "metadata_ok md" and bank: "bank \<le> 1"
  obtains m' where "metadata_write image_disk md bank m = (Ok (), m')" "bank_holds m' bank md"
    "\<And>s. s \<notin> bank_sectors bank \<Longrightarrow> m' s = m s"
proof -
  obtain m' where run: "run_commands image_disk (metadata_commands md bank) m = (Ok (), m')" using run_commands_image by blast
  have unique: "b' = b" if "CWrite s b \<in> set (metadata_commands md bank)" "CWrite s b' \<in> set (metadata_commands md bank)" for s b b'
    using that two_banks [OF bank] by (auto simp: metadata_commands_def CWrite_prepare header_sector_def recovery_sector_def)
  have wr: "m' s = b" if "CWrite s b \<in> set (metadata_commands md bank)" for s b
    by (rule image.run_writes_live [OF run that unique [OF that]])
  have "bank_holds m' bank md"
    by (rule prepare_holds [OF ok]) (auto intro!: wr simp: metadata_commands_def)
  moreover have "m' s = m s" if "s \<notin> bank_sectors bank" for s
  proof (rule image.run_keeps(2) [OF run])
    fix c assume c: "c \<in> set (metadata_commands md bank)"
    have "s \<in> bank_sectors bank" if "CWrite s b \<in> set (metadata_commands md bank)" for b
      using that by (auto simp: metadata_commands_def CWrite_prepare bank_sectors_def)
    then show "\<not> writes c s" using c that by (cases c) auto
  qed
  ultimately show ?thesis using that run metadata_write_commands [of image_disk md bank m] by simp
qed

lemma lineage_cases:
  assumes "length b = 512"
  shows "b = zero_sector \<and> lineage_of b = Ok None \<or> lineage_of b = Err FsCorrupt \<or>
    (\<exists>lin. lineage_of b = Ok (Some lin) \<and> lin \<noteq> replicate 16 0 \<and> length lin = 16)"
proof -
  have "length (field_at (put b 24 (replicate 4 0)) 8 16) = 16" using assms by (simp add: field_at_def put_def)
  then show ?thesis unfolding lineage_of_def Let_def by auto
qed

section \<open>Properties\<close>

text \<open>C6 \<open>Volume::mount\<close> of any disk image whatever, written by this code or not, returns without a panic. Either it
  reports Empty (exactly for two blank headers), Corrupt, Lineage (only when the image is provisioned for another
  lineage than the one its records carry) or Exhausted (only at the last sequence number), and has written nothing. Or it returns a well-formed, unfenced
  volume of the newest readable generation: as it is on the disk, with nothing written, when the image is not
  provisioned or its records carry the provisioned lineage; otherwise with fresh recovery records of that lineage
  published as the next generation in the other bank, which holds it, and with no other sector changed.\<close>

theorem mount_total:
  assumes "full_sectors m"
  shows "(\<exists>e. volume_mount image_disk m = (Err e, m) \<and> e \<in> {FsEmpty, FsCorrupt, FsLineage, FsExhausted} \<and>
      (e = FsEmpty \<longleftrightarrow> m (header_sector 0) = zero_sector \<and> m (header_sector 1) = zero_sector) \<and>
      (e = FsLineage \<longrightarrow> (\<exists>lin bank md r. lineage_of (m 1) = Ok (Some lin) \<and> bank_content m bank = Ok md \<and>
         md_recovery md = Some r \<and> rv_lineage r \<noteq> lin)) \<and>
      (e = FsExhausted \<longrightarrow> (\<exists>bank md. bank_content m bank = Ok md \<and> md_sequence md = - 1))) \<or>
    (\<exists>md bank. metadata_ok md \<and> bank \<le> 1 \<and> bank_content m bank = Ok md \<and>
      (\<forall>md'. bank_content m (1 - bank) = Ok md' \<longrightarrow> md_sequence md' \<le> md_sequence md) \<and>
      ((m 1 = zero_sector \<or> (\<exists>r. md_recovery md = Some r \<and> lineage_of (m 1) = Ok (Some (rv_lineage r)))) \<and>
         volume_mount image_disk m = (Ok \<lparr>vl_metadata = md, vl_bank = bank, vl_poisoned = False\<rparr>, m) \<or>
       (\<exists>lin r s n m'. md_recovery md = None \<and> lineage_of (m 1) = Ok (Some lin) \<and> recovery_new lin = Ok r \<and>
         unat s = unat (md_sequence md) + 1 \<and> n = md\<lparr>md_recovery := Some r, md_sequence := s\<rparr> \<and> metadata_ok n \<and>
         volume_mount image_disk m = (Ok \<lparr>vl_metadata = n, vl_bank = 1 - bank, vl_poisoned = False\<rparr>, m') \<and>
         bank_holds m' (1 - bank) n \<and> (\<forall>t. t \<notin> bank_sectors (1 - bank) \<longrightarrow> m' t = m t))))"
  (is "?refused \<or> ?mounted")
proof (rule selection [OF assms])
  assume "mount_metadata image_disk m = (Err FsEmpty, m)" "m (header_sector 0) = zero_sector" "m (header_sector 1) = zero_sector"
  then show ?thesis by (simp add: volume_mount_def)
next
  assume "mount_metadata image_disk m = (Err FsCorrupt, m)"
    "\<not> (m (header_sector 0) = zero_sector \<and> m (header_sector 1) = zero_sector)"
  then show ?thesis by (simp add: volume_mount_def)
next
  fix md bank
  let ?v = "\<lparr>vl_metadata = md, vl_bank = bank, vl_poisoned = False\<rparr>"
  assume sel: "mount_metadata image_disk m = (Ok (md, bank), m)" "bank \<le> 1" "metadata_ok md" "bank_content m bank = Ok md"
    and newest: "\<And>md'. bank_content m (1 - bank) = Ok md' \<Longrightarrow> md_sequence md' \<le> md_sequence md"
  have blank: "\<not> (m (header_sector 0) = zero_sector \<and> m (header_sector 1) = zero_sector)"
    using two_banks [OF sel(2)] sel(4) bank_content_empty [of m bank] by auto
  have rd: "lineage image_disk m = (lineage_of (m 1), m)" by (simp add: lineage_def image_disk_def)
  consider (none) "m 1 = zero_sector" "lineage_of (m 1) = Ok None" | (bad) "lineage_of (m 1) = Err FsCorrupt"
    | (some) lin where "lineage_of (m 1) = Ok (Some lin)" "lin \<noteq> replicate 16 0" "length lin = 16"
    using lineage_cases [of "m 1"] assms by (auto simp: full_sectors_def)
  then show ?thesis
  proof cases
    case none
    then show ?thesis using sel newest rd by (auto simp: volume_mount_def)
  next
    case bad
    then show ?thesis using sel blank rd by (simp add: volume_mount_def)
  next
    case (some lin)
    show ?thesis
    proof (cases "md_recovery md")
      case (Some r)
      then have "volume_mount image_disk m = (if rv_lineage r = lin then Ok ?v else Err FsLineage, m)"
        using sel(1) rd some(1) by (simp add: volume_mount_def enable_recovery_def volume_ready_def)
      then show ?thesis using Some some(1) sel newest blank by (cases "rv_lineage r = lin") auto
    next
      case None
      obtain r where r: "recovery_new lin = Ok r" using some(2) by (simp add: recovery_new_def)
      define ss where "ss = [160..<volume_sectors]"
      define dirty where "dirty \<longleftrightarrow> (\<exists>s\<in>set ss. enable_recovery_check (recovery_encode r) s (m s))"
      have enable: "enable_recovery image_disk ?v lin m =
        (if dirty then (Err FsCorrupt, ?v, m) else volume_commit image_disk ?v (md\<lparr>md_recovery := Some r\<rparr>) m)"
        using None r unfolding enable_recovery_def ss_def [symmetric] scratch_loop_image
        by (simp add: volume_ready_def dirty_def)
      have mount: "volume_mount image_disk m = (case enable_recovery image_disk ?v lin m of (res, v, d) \<Rightarrow> (and_then res (\<lambda>_. Ok v), d))"
        using sel(1) rd some(1) by (simp add: volume_mount_def)
      consider (dirty) dirty | (full) "\<not> dirty" "checked_add (md_sequence md) 1 = None"
        | (more) s where "\<not> dirty" "checked_add (md_sequence md) 1 = Some s" by fastforce
      then show ?thesis
      proof cases
        case dirty
        then show ?thesis using blank mount enable by (simp)
      next
        case full
        have "md_sequence md = - 1" by (rule checked_add_last [OF full(2)])
        then show ?thesis using full blank mount enable sel(4) by (simp add: volume_commit_def) blast
      next
        case (more s)
        let ?n = "md\<lparr>md_recovery := Some r, md_sequence := s\<rparr>"
        have s: "unat s = unat (md_sequence md) + 1" using checked_add_Some_unat [OF more(2)] by simp
        have n: "metadata_ok ?n" by (rule enabled_ok [OF sel(3) r some(3)]) (simp add: word_le_nat_alt s)
        obtain m' where w: "metadata_write image_disk ?n (1 - bank) m = (Ok (), m')" "bank_holds m' (1 - bank) ?n"
          "\<And>t. t \<notin> bank_sectors (1 - bank) \<Longrightarrow> m' t = m t"
          using write_image [OF n, of "1 - bank" m] other_bank [OF sel(2)] by auto
        have "volume_mount image_disk m = (Ok \<lparr>vl_metadata = ?n, vl_bank = 1 - bank, vl_poisoned = False\<rparr>, m')"
          using more mount enable w(1) by (simp add: volume_commit_def Let_def)
        then have ?mounted using None some(1) r s n w(2,3) sel newest
          by (intro exI [of _ md] exI [of _ bank] conjI disjI2 exI [of _ lin] exI [of _ r] exI [of _ s] exI [of _ ?n] exI [of _ m']) auto
        then show ?thesis ..
      qed
    qed
  qed
qed

theorem mount_total_witness:
  "volume_mount image_disk (\<lambda>s. zero_sector) = (Err FsEmpty, \<lambda>s. zero_sector) \<and>
   volume_mount image_disk (settled_image initial_metadata) = (Ok (settled_volume initial_metadata), settled_image initial_metadata)"
proof
  have z: "full_sectors (\<lambda>s. zero_sector)" by (simp add: full_sectors_def)
  have "bank_content (\<lambda>s. zero_sector) b = Err FsEmpty" for b by (simp add: bank_content_empty)
  then show "volume_mount image_disk (\<lambda>s. zero_sector) = (Err FsEmpty, \<lambda>s. zero_sector)" using mount_total [OF z] by auto
next
  let ?m = "settled_image initial_metadata"
  note full = settled_full [OF initial_metadata_ok]
  have zero: "?m 1 = zero_sector" by (simp add: settled_image_def header_sector_def recovery_sector_def)
  have sel: "fst (mount_metadata image_disk ?m) = Ok (initial_metadata, 0)"
    using memory.safe_mounts [OF settled_safe [OF initial_metadata_ok], of ?m] full
    by (simp add: crash_image_def sector_values_def settled_volume_def)
  have "lineage image_disk ?m = (Ok None, ?m)" using zero by (simp add: lineage_def lineage_of_def image_disk_def)
  moreover have "mount_metadata image_disk ?m = (Ok (initial_metadata, 0), ?m)" using sel mount_image [OF full] by simp
  ultimately show "volume_mount image_disk ?m = (Ok (settled_volume initial_metadata), ?m)"
    by (simp add: volume_mount_def settled_volume_def)
qed

end
