(* ===== verification/Example_Volume.thy ===== *)
theory Example_Volume
  imports Durability
begin

text \<open>
  A small concrete volume for the witnesses: the initial tree with one empty file \<open>a\<close>, object 5 in the data
  space, as \<open>create\<close> makes it, settled on the memory disk of \<open>Durability\<close>.
\<close>

definition example_node :: node where
  "example_node = empty_node\<lparr>nd_id := 5, nd_parent := 2, nd_space := 2, nd_kind := KFile, nd_version := 2,
     nd_name := put (replicate 32 0) 0 [97], nd_name_length := 1\<rparr>"

definition example_metadata :: metadata where
  "example_metadata = (with_node initial_metadata 4 example_node)\<lparr>md_next := 6, md_sequence := 2\<rparr>"

lemma initial_nodes:
  "md_nodes initial_metadata = root_node 0 # root_node 1 # root_node 2 # root_node 3 # replicate 28 empty_node"
  by (simp add: initial_metadata_def upt_small)

lemma node_kinds: "nd_kind empty_node = KEmpty" "nd_kind (root_node i) = KDirectory" "nd_id empty_node = 0"
  "nd_id (root_node i) = of_nat i + 1" "nd_space (root_node i) = of_nat i + 1" "nd_parent (root_node i) = 0"
  by (simp_all add: root_node_def empty_node_def)

lemma example_created:
  "create_plan (settled_volume initial_metadata) 2 [97] KFile =
     Ok (example_node, (with_node initial_metadata 4 example_node)\<lparr>md_next := 6\<rparr>)"
proof -
  let ?v = "settled_volume initial_metadata"
  have m: "vl_metadata ?v = initial_metadata" "\<not> vl_poisoned ?v" by (simp_all add: settled_volume_def)
  have name: "valid_name [97] = Ok ()" by (simp add: valid_name_def is_ascii_alphanumeric_def)
  have stat: "volume_stat ?v 2 = Ok (root_node 1)"
    by (simp add: volume_stat_Ok m metadata_index_def initial_nodes node_kinds)
  have free: "position (\<lambda>n. nd_kind n = KEmpty) (md_nodes initial_metadata) = Some 4"
    by (simp add: initial_nodes node_kinds replicate_numeral)
  have "find (\<lambda>n. nd_kind n \<noteq> KEmpty \<and> nd_parent n = 2 \<and> node_name n = [97]) (md_nodes initial_metadata) = None"
    by (auto simp: initial_nodes node_kinds find_None_iff)
  then have "volume_lookup ?v 2 [97] = Err FsNotFound"
    by (simp add: volume_lookup_def volume_ready_def m name directory_check_def stat node_kinds)
  moreover have "node_new 5 2 2 KFile [97] 2 = Ok example_node"
    by (simp add: node_new_def name example_node_def empty_node_def)
  moreover have "volume_writable ?v 2 = Ok (root_node 1)" by (simp add: volume_writable_Ok stat node_kinds)
  moreover have "md_sequence initial_metadata = 1" "md_next initial_metadata = 5" by (simp_all add: initial_metadata_def)
  ultimately show ?thesis
    by (simp add: create_plan_def name m free node_kinds checked_add_def with_node_def)
qed

lemma example_metadata_ok: "metadata_ok example_metadata"
proof -
  have "metadata_ok (((with_node initial_metadata 4 example_node)\<lparr>md_next := 6\<rparr>)\<lparr>md_sequence := 2\<rparr>)"
    by (rule create_plan_ok [OF _ example_created])
      (simp_all add: settled_volume_def initial_metadata_ok, simp add: initial_metadata_def checked_add_def)
  then show ?thesis by (simp add: example_metadata_def)
qed

lemma example_nodes: "md_nodes example_metadata ! 4 = example_node" "metadata_index example_metadata 5 = Ok 4"
proof -
  have l: "md_nodes example_metadata =
      root_node 0 # root_node 1 # root_node 2 # root_node 3 # example_node # replicate 27 empty_node"
    by (simp add: example_metadata_def initial_nodes replicate_numeral)
  show "md_nodes example_metadata ! 4 = example_node" "metadata_index example_metadata 5 = Ok 4"
    unfolding metadata_index_def l by (simp_all add: node_kinds example_node_def)
qed

lemma example_stat: "volume_stat (settled_volume example_metadata) 5 = Ok example_node"
  using example_nodes by (simp add: volume_stat_Ok settled_volume_def)

end
