(* ===== verification/Replacement.thy ===== *)
theory Replacement
  imports Durability Example_Volume
begin

text \<open>
  What publications do. Driving a publication to its end is the flush-ordered command sequence of its data and
  metadata (\<open>pub_run_commands\<close>), so a replacement is a crash-atomic publication in the sense of
  \<open>Durability\<close>, contents included. The polled form is a state machine whose every interleaving of polls and
  cancellations is covered by the invariant below.
\<close>

section \<open>The commands of a publication\<close>

definition data_commands :: "nat \<Rightarrow> bytes \<Rightarrow> command list" where
  "data_commands first bs = [CWrite first (field_at bs 0 512), CWrite (first + 1) (field_at bs 512 512), CFlush]"

definition pub_commands :: "('d, 't) publication \<Rightarrow> metadata \<Rightarrow> command list" where
  "pub_commands p nxt =
     (if pb_data_steps p = 0 then [] else data_commands (pb_first_sector p) (pb_data p)) @
     metadata_commands nxt (1 - vl_bank (pb_volume p))"

definition pub_steps_ok :: "('d, 't) publication \<Rightarrow> bool" where
  "pub_steps_ok p \<longleftrightarrow> pb_data_steps p = 0 \<or> pb_data_steps p = 3"

lemma length_metadata_commands: "length (metadata_commands md bank) = write_steps md"
  using arg_cong [OF metadata_command_steps, of length md bank] by simp

lemma metadata_command_nth:
  assumes "k < write_steps md"
  shows "metadata_command md bank k = Ok (metadata_commands md bank ! k)"
proof -
  have "map (metadata_command md bank) [0..<write_steps md] ! k = map Ok (metadata_commands md bank) ! k"
    by (simp only: metadata_command_steps)
  then show ?thesis using assms by (simp add: length_metadata_commands)
qed

lemma length_pub_commands: "pub_steps_ok p \<Longrightarrow> length (pub_commands p nxt) = pb_data_steps p + write_steps nxt"
  by (auto simp: pub_commands_def data_commands_def pub_steps_ok_def length_metadata_commands)

lemma pub_command_nth:
  assumes "pub_steps_ok p" and "pb_step p < length (pub_commands p nxt)"
  shows "pub_command p nxt = Ok (pub_commands p nxt ! pb_step p)"
proof (cases "pb_step p < pb_data_steps p")
  case True
  then have "pb_step p \<in> {0, 1, 2}" "pb_data_steps p = 3" using assms(1) by (auto simp: pub_steps_ok_def)
  then show ?thesis by (auto simp: pub_command_def pub_commands_def data_commands_def)
next
  case False
  then have "pb_step p - pb_data_steps p < write_steps nxt" using assms length_pub_commands by fastforce
  then have "metadata_command nxt (1 - vl_bank (pb_volume p)) (pb_step p - pb_data_steps p) =
      Ok (metadata_commands nxt (1 - vl_bank (pb_volume p)) ! (pb_step p - pb_data_steps p))"
    by (rule metadata_command_nth)
  moreover have "pub_commands p nxt ! pb_step p = metadata_commands nxt (1 - vl_bank (pb_volume p)) ! (pb_step p - pb_data_steps p)"
    using False assms(1) by (auto simp: pub_commands_def pub_steps_ok_def data_commands_def nth_append numeral_3_eq_3)
  ultimately show ?thesis using False by (simp add: pub_command_def)
qed

section \<open>Running a publication\<close>

text \<open>A publication between two commands, and what is left of the volume when the commands end.\<close>

definition pub_active :: "('d, 't) publication \<Rightarrow> metadata \<Rightarrow> bool" where
  "pub_active p nxt \<longleftrightarrow> pub_steps_ok p \<and> pb_next p = Some nxt \<and> pb_step p < length (pub_commands p nxt) \<and>
     pb_phase p \<in> {PhPreparing, PhReadyToPublish, PhSettling} \<and> \<not> pb_pending p \<and> \<not> pb_stopping p \<and> vl_poisoned (pb_volume p)"

fun publish_outcome :: "'t \<Rightarrow> volume \<Rightarrow> metadata \<Rightarrow> (fs_error, unit) outcome \<times> 'd \<Rightarrow> ('d, 't) on_volume" where
  "publish_outcome t v nxt (Ok _, d) = (Ok t, \<lparr>vl_metadata = nxt, vl_bank = 1 - vl_bank v, vl_poisoned = False\<rparr>, d)"
| "publish_outcome t v nxt (Err _, d) = (Err FsUncertain, v\<lparr>vl_poisoned := True\<rparr>, d)"
| "publish_outcome t v nxt (Panic, d) = (Panic, v\<lparr>vl_poisoned := True\<rparr>, d)"

lemma pub_advance_active:
  assumes "pub_active p nxt"
  shows "pub_advance D p =
     (case command_execute (pub_commands p nxt ! pb_step p) D (pb_disk p) of
        (Ok _, d) \<Rightarrow> (let q = pub_settled (p\<lparr>pb_phase := PhUncertain, pb_pending := True, pb_disk := d\<rparr>) nxt
                          (length (pub_commands p nxt)) in (Ok (pb_phase q), q))
      | (Err e, d) \<Rightarrow> (Err FsUncertain, p\<lparr>pb_phase := PhUncertain, pb_pending := True, pb_disk := d\<rparr>)
      | (Panic, d) \<Rightarrow> (Panic, p\<lparr>pb_phase := PhUncertain, pb_pending := True, pb_disk := d\<rparr>))"
  using assms pub_command_nth [of p nxt] length_pub_commands [of p nxt]
  by (auto simp: pub_advance_def pub_drive_def pub_active_def Let_def split: prod.splits outcome.splits)

lemma pub_settled_step:
  assumes "pub_active p nxt" and "q = pub_settled (p\<lparr>pb_phase := PhUncertain, pb_pending := True, pb_disk := d\<rparr>) nxt
    (length (pub_commands p nxt))"
  shows "pb_disk q = d" and "pb_result q = pb_result p"
    and "Suc (pb_step p) = length (pub_commands p nxt) \<Longrightarrow> pb_phase q = PhCommitted \<and> \<not> pb_pending q \<and>
       pb_volume q = \<lparr>vl_metadata = nxt, vl_bank = 1 - vl_bank (pb_volume p), vl_poisoned = False\<rparr>"
    and "Suc (pb_step p) < length (pub_commands p nxt) \<Longrightarrow> pub_active q nxt \<and> pb_step q = Suc (pb_step p) \<and>
       pb_volume q = pb_volume p \<and> pub_commands q nxt = pub_commands p nxt"
proof -
  have "\<not> pb_stopping p" using assms(1) by (simp add: pub_active_def)
  then show "pb_disk q = d" "pb_result q = pb_result p" by (simp_all add: assms(2) pub_settled_def Let_def)
  show "pb_phase q = PhCommitted \<and> \<not> pb_pending q \<and>
      pb_volume q = \<lparr>vl_metadata = nxt, vl_bank = 1 - vl_bank (pb_volume p), vl_poisoned = False\<rparr>"
    if "Suc (pb_step p) = length (pub_commands p nxt)"
    using that \<open>\<not> pb_stopping p\<close> by (simp add: assms(2) pub_settled_def Let_def)
  assume "Suc (pb_step p) < length (pub_commands p nxt)"
  then have q: "pb_phase q \<in> {PhPreparing, PhReadyToPublish, PhSettling}" "\<not> pb_pending q" "\<not> pb_stopping q"
    "pb_step q = Suc (pb_step p)" "pb_volume q = pb_volume p" "pb_next q = pb_next p" "pb_data_steps q = pb_data_steps p"
    "pb_data q = pb_data p" "pb_first_sector q = pb_first_sector p"
    using \<open>\<not> pb_stopping p\<close> by (simp_all add: assms(2) pub_settled_def Let_def)
  moreover have "pub_commands q nxt = pub_commands p nxt" by (simp add: pub_commands_def q)
  ultimately show "pub_active q nxt \<and> pb_step q = Suc (pb_step p) \<and>
      pb_volume q = pb_volume p \<and> pub_commands q nxt = pub_commands p nxt"
    using assms(1) \<open>Suc (pb_step p) < length (pub_commands p nxt)\<close> unfolding pub_active_def pub_steps_ok_def by simp
qed

lemma pub_run_commands:
  assumes "pub_active p nxt" and "cs = drop (pb_step p) (pub_commands p nxt)"
  shows "\<exists>q. pub_run D p = Some (fst (publish_outcome (pb_result p) (pb_volume p) nxt (run_commands D cs (pb_disk p))), q) \<and>
    pub_drop q = snd (publish_outcome (pb_result p) (pb_volume p) nxt (run_commands D cs (pb_disk p)))"
  using assms
proof (induction cs arbitrary: p)
  case Nil
  then show ?case by (simp add: pub_active_def)
next
  case (Cons c cs)
  let ?cs = "pub_commands p nxt"
  have less: "pb_step p < length ?cs" and ph: "pb_phase p \<noteq> PhCommitted" "pb_phase p \<noteq> PhCancelled"
    and fence: "(pb_volume p)\<lparr>vl_poisoned := True\<rparr> = pb_volume p"
    using Cons.prems(1) by (auto simp: pub_active_def)
  have c: "c = ?cs ! pb_step p" "cs = drop (Suc (pb_step p)) ?cs"
    using Cons.prems(2) less by (metis Cons_nth_drop_Suc list.inject)+
  obtain r d where ex: "command_execute c D (pb_disk p) = (r, d)" by fastforce
  let ?q = "pub_settled (p\<lparr>pb_phase := PhUncertain, pb_pending := True, pb_disk := d\<rparr>) nxt (length ?cs)"
  note adv = pub_advance_active [OF Cons.prems(1), of D, folded c(1), unfolded ex]
  note step = pub_settled_step [OF Cons.prems(1) refl, of d]
  have unfold: "pub_run D p = (case pub_advance D p of (Ok _, p) \<Rightarrow> pub_run D p | (Err e, p) \<Rightarrow> Some (Err e, p) | (Panic, p) \<Rightarrow> Some (Panic, p))"
    using ph by (subst pub_run.simps) simp
  show ?case
  proof (cases r)
    case (Ok u)
    have run: "pub_run D p = pub_run D ?q" using adv Ok by (simp add: unfold Let_def)
    have cmds: "run_commands D (c # cs) (pb_disk p) = run_commands D cs d" using ex Ok by simp
    show ?thesis
    proof (cases "Suc (pb_step p) < length ?cs")
      case True
      then show ?thesis using Cons.IH [of ?q] step c(2) run cmds by metis
    next
      case False
      then have "cs = []" and last: "Suc (pb_step p) = length ?cs" using c(2) less by auto
      then show ?thesis
        using step(1,2) step(3) [OF last] by (simp add: run cmds pub_run.simps [of D ?q] pub_drop_def ex Ok)
    qed
  next
    case (Err e)
    then show ?thesis using adv ex fence by (simp add: unfold pub_drop_def)
  next
    case Panic
    then show ?thesis using adv ex fence by (simp add: unfold pub_drop_def)
  qed
qed

section \<open>A prepared replacement\<close>

lemma run_new_publication:
  fixes D :: "'d disk"
  assumes "write_steps nxt \<noteq> 0" and "\<not> vl_poisoned v"
  shows "run_to_volume D v d (Ok (publication_new v d nxt first bs t)) =
    Some (publish_outcome t v nxt (run_commands D
      (data_commands first (put (replicate max_file 0) 0 bs) @ metadata_commands nxt (1 - vl_bank v)) d))"
proof -
  let ?p = "publication_new v d nxt first bs t"
  have cs: "pub_commands ?p nxt = data_commands first (put (replicate max_file 0) 0 bs) @ metadata_commands nxt (1 - vl_bank v)"
    by (simp add: pub_commands_def publication_new_def)
  have act: "pub_active ?p nxt"
    unfolding pub_active_def cs by (simp add: publication_new_def pub_steps_ok_def data_commands_def)
  have out: "publish_outcome t (v\<lparr>vl_poisoned := True\<rparr>) nxt r = publish_outcome t v nxt r" for r :: "(fs_error, unit) outcome \<times> 'd"
    by (cases "(t, v, nxt, r)" rule: publish_outcome.cases) auto
  have st: "pb_step ?p = 0" "pb_disk ?p = d" "pb_result ?p = t" "pb_volume ?p = v\<lparr>vl_poisoned := True\<rparr>"
    by (simp_all add: publication_new_def)
  from pub_run_commands [OF act refl, of D] show ?thesis
    unfolding st out drop_0 cs by (auto simp: run_to_volume_def split: prod.splits)
qed

lemma prepare_recorded_Ok:
  assumes "prepare_recorded v d i version bs nxt output = Ok p"
  obtains slot s where "metadata_index (vl_metadata v) i = Ok slot" "\<not> vl_poisoned v"
    "nd_kind (md_nodes (vl_metadata v) ! slot) = KFile" "nd_space (md_nodes (vl_metadata v) ! slot) \<noteq> 1"
    "nd_version (md_nodes (vl_metadata v) ! slot) = version"
    "length bs \<le> max_file" "checked_add (md_sequence (vl_metadata v)) 1 = Some s"
    "md_nodes nxt = md_nodes (vl_metadata v) \<Longrightarrow>
       p = publication_new v d (with_node (nxt\<lparr>md_sequence := s\<rparr>) slot (replaced_node (md_nodes (vl_metadata v) ! slot) bs s))
         (data_sector slot (1 - nd_bank (md_nodes (vl_metadata v) ! slot))) bs
         (output (replaced_node (md_nodes (vl_metadata v) ! slot) bs s))"
proof -
  obtain n where n: "volume_stat v i = Ok n" "nd_space n \<noteq> 1" "nd_kind n = KFile" "nd_version n = version" "length bs \<le> max_file"
    "and_then (metadata_index (vl_metadata v) i) (\<lambda>slot.
       and_then (ok_or FsExhausted (checked_add (md_sequence (vl_metadata v)) 1)) (\<lambda>s.
         let changed = (md_nodes nxt ! slot)\<lparr>nd_bank := 1 - nd_bank n, nd_length := of_nat (length bs),
               nd_checksum := crc bs, nd_version := s\<rparr>;
             nxt = nxt\<lparr>md_nodes := (md_nodes nxt)[slot := changed], md_sequence := s\<rparr>
         in Ok (publication_new v d nxt (data_sector slot (nd_bank changed)) bs (output changed)))) = Ok p"
    using assms unfolding prepare_recorded_def and_then_Ok_iff [of "volume_writable v i"] volume_writable_Ok
    by (auto split: if_splits)
  obtain slot where slot: "metadata_index (vl_metadata v) i = Ok slot" "n = md_nodes (vl_metadata v) ! slot" "\<not> vl_poisoned v"
    using n(1) by (auto simp: volume_stat_Ok)
  obtain s where s: "checked_add (md_sequence (vl_metadata v)) 1 = Some s"
    using n(6) slot(1) by (auto simp: and_then_Ok_iff)
  have "p = publication_new v d (with_node (nxt\<lparr>md_sequence := s\<rparr>) slot (replaced_node n bs s))
      (data_sector slot (1 - nd_bank n)) bs (output (replaced_node n bs s))" if "md_nodes nxt = md_nodes (vl_metadata v)"
  proof -
    have swap: "nxt\<lparr>md_nodes := ns, md_sequence := s\<rparr> = nxt\<lparr>md_sequence := s, md_nodes := ns\<rparr>" for ns by simp
    show ?thesis using n(6) slot s that by (simp add: Let_def replaced_node_def with_node_def swap)
  qed
  then show ?thesis using that [of slot s] n slot s by simp
qed

section \<open>Contents\<close>

text \<open>The contents of a file as \<open>read\<close> returns them when the disk holds a given image.\<close>

definition file_contents :: "volume \<Rightarrow> (nat \<Rightarrow> bytes) \<Rightarrow> u32 \<Rightarrow> (fs_error, bytes) outcome" where
  "file_contents v m i =
     and_then (volume_stat v i) (\<lambda>n.
       case fst (read_versioned image_disk v i None 0 (replicate (unat (nd_length n)) 0) m) of
         (r, out) \<Rightarrow> and_then r (\<lambda>(_, count). Ok (take count out)))"

definition contents_settled :: "('d \<Rightarrow> nat \<Rightarrow> bytes) \<Rightarrow> ('d \<Rightarrow> nat \<Rightarrow> bytes) \<Rightarrow> 'd \<Rightarrow> metadata \<Rightarrow> bool" where
  "contents_settled live durable d md \<longleftrightarrow>
     (\<forall>slot<objects. \<forall>k<2. nd_kind (md_nodes md ! slot) = KFile \<longrightarrow>
        durable d (data_sector slot (nd_bank (md_nodes md ! slot)) + k) = live d (data_sector slot (nd_bank (md_nodes md ! slot)) + k))"

lemma file_contents_eq:
  assumes "volume_stat v i = Ok n" and "metadata_index (vl_metadata v) i = Ok slot" and "nd_kind n = KFile"
  shows "file_contents v m i =
    (if nd_length n = 0 then Ok []
     else let bs = m (data_sector slot (nd_bank n)) @ m (data_sector slot (nd_bank n) + 1) in
       if crc (take (unat (nd_length n)) bs) \<noteq> nd_checksum n then Err FsCorrupt
       else Ok (take (unat (nd_length n)) (put (replicate (unat (nd_length n)) 0) 0 (take (unat (nd_length n)) bs))))"
proof -
  let ?a = "data_sector slot (nd_bank n)"
  have "[?a..<?a + 2] = [?a, ?a + 1]" by (simp add: eval_nat_numeral upt_conv_Cons)
  then show ?thesis
    using assms by (simp add: file_contents_def read_versioned_def read_data_def read_sectors_image field_at_def Let_def)
qed

lemma file_contents_cong:
  assumes "\<And>slot k. metadata_index (vl_metadata v) j = Ok slot \<Longrightarrow> nd_kind (md_nodes (vl_metadata v) ! slot) = KFile \<Longrightarrow> k < 2 \<Longrightarrow>
      m (data_sector slot (nd_bank (md_nodes (vl_metadata v) ! slot)) + k) = m' (data_sector slot (nd_bank (md_nodes (vl_metadata v) ! slot)) + k)"
  shows "file_contents v m j = file_contents v m' j"
proof (cases "\<exists>n. volume_stat v j = Ok n \<and> nd_kind n = KFile")
  case True
  then obtain n slot where n: "volume_stat v j = Ok n" "nd_kind n = KFile" "metadata_index (vl_metadata v) j = Ok slot"
    "n = md_nodes (vl_metadata v) ! slot" by (auto simp: volume_stat_Ok)
  show ?thesis
    using assms [OF n(3), of 0] assms [OF n(3), of 1] n(2,4) by (simp add: file_contents_eq [OF n(1,3,2)])
next
  case False
  then show ?thesis by (cases "volume_stat v j") (auto simp: file_contents_def read_versioned_def)
qed

lemma file_contents_volume_cong:
  assumes "vl_poisoned w = vl_poisoned v" and "metadata_index (vl_metadata w) j = metadata_index (vl_metadata v) j"
    and "\<And>k. metadata_index (vl_metadata v) j = Ok k \<Longrightarrow> md_nodes (vl_metadata w) ! k = md_nodes (vl_metadata v) ! k"
  shows "file_contents w m j = file_contents v m j"
proof (cases "metadata_index (vl_metadata v) j")
  case (Ok k)
  then show ?thesis
    using assms by (simp add: file_contents_def read_versioned_def volume_stat_def volume_ready_def)
next
  case (Err e)
  then show ?thesis using assms by (simp add: file_contents_def volume_stat_def volume_ready_def)
qed simp

lemma position_same:
  assumes "P x = P (xs ! slot)" and "slot < length xs"
  shows "position P (xs[slot := x]) = position P xs"
  using assms by (induction xs arbitrary: slot) (auto split: nat.splits)

lemma metadata_index_replaced:
  assumes "slot < length (md_nodes md)" and "nd_id n = nd_id (md_nodes md ! slot)" and "nd_kind n = nd_kind (md_nodes md ! slot)"
  shows "metadata_index (with_node md slot n) j = metadata_index md j"
  using assms position_same [of "\<lambda>n. nd_id n = j \<and> nd_kind n \<noteq> KEmpty" n "md_nodes md" slot] by (simp add: metadata_index_def)

lemma data_sector_inj:
  assumes "data_sector s b + k = data_sector s' b' + k'" and "b \<le> 1" and "b' \<le> 1" and "k < 2" and "k' < 2"
  shows "s = s' \<and> b = b' \<and> k = k'"
proof -
  have "unat b \<le> 1" "unat b' \<le> 1" using assms(2,3) by (simp_all add: word_le_nat_alt)
  moreover have e: "4 * s + 2 * unat b + k = 4 * s' + 2 * unat b' + k'" using assms(1) by (simp add: data_sector_def)
  ultimately have "\<not> s < s'" "\<not> s' < s" using assms(4,5) by linarith+
  then have s: "s = s'" by simp
  then have "\<not> unat b < unat b'" "\<not> unat b' < unat b" using e assms(4,5) by linarith+
  then have "s = s' \<and> unat b = unat b' \<and> k = k'" using e s by simp
  then show ?thesis by (simp add: word_unat_eq_iff)
qed

lemma data_not_bank:
  assumes "slot < objects" and "b \<le> 1" and "k < 2" and "bank \<le> 1"
  shows "data_sector slot b + k \<notin> bank_sectors bank"
  using sector_ranges(3,4) [OF assms(2,1)] sector_ranges(2) [OF assms(4,1)] assms(3)
  by (auto simp: bank_sectors_def recovery_sector_def)

lemma replaced_contents:
  assumes "length bs \<le> max_file" and "volume_stat w i = Ok n" and "metadata_index (vl_metadata w) i = Ok slot" and "nd_kind n = KFile"
    and "unat (nd_length n) = length bs" and "nd_checksum n = crc bs"
    and "m (data_sector slot (nd_bank n)) = field_at (put (replicate max_file 0) 0 bs) 0 512"
    and "m (data_sector slot (nd_bank n) + 1) = field_at (put (replicate max_file 0) 0 bs) 512 512"
  shows "file_contents w m i = Ok bs"
proof -
  let ?d = "put (replicate max_file 0) 0 bs"
  have len: "length ?d = 1024" using assms(1) by simp
  have "field_at ?d 0 512 @ field_at ?d 512 512 = take 1024 ?d"
    by (simp add: field_at_def take_add [symmetric])
  then have "m (data_sector slot (nd_bank n)) @ m (data_sector slot (nd_bank n) + 1) = ?d" using assms(7,8) len by simp
  moreover have "take (length bs) ?d = bs" by (simp add: put_def)
  moreover have "nd_length n = 0 \<Longrightarrow> bs = []" using assms(5) by simp
  ultimately show ?thesis
    using assms(5,6) by (auto simp: file_contents_eq [OF assms(2-4)] put_def)
qed

section \<open>Replacement is a publication\<close>

lemma publishes_prefix:
  assumes "publishes pre v nxt"
    and "\<And>c s. c \<in> set ds \<Longrightarrow> writes c s \<Longrightarrow> s \<notin> bank_sectors (vl_bank v) \<and> s \<noteq> header_sector (1 - vl_bank v) \<and>
      (\<forall>b. CWrite s b \<notin> set pre)"
    and "\<And>s b b'. CWrite s b \<in> set ds \<Longrightarrow> CWrite s b' \<in> set ds \<Longrightarrow> b = b'"
  shows "publishes (ds @ pre) v nxt"
proof -
  have "b = b'" if "CWrite s b \<in> set (ds @ pre)" "CWrite s b' \<in> set (ds @ pre)" for s b b'
    using that assms(1,3) assms(2) [of "CWrite s b" s] assms(2) [of "CWrite s b'" s] unfolding publishes_def by auto
  then show ?thesis using assms(1,2) unfolding publishes_def set_append by blast
qed

lemma replacement_publishes:
  assumes "metadata_ok nxt" and "md_sequence (vl_metadata v) < md_sequence nxt" and "vl_bank v \<le> 1"
    and "slot < objects" and "b \<le> 1"
  shows "publishes (data_commands (data_sector slot b) bs @ prepare_commands nxt (1 - vl_bank v)) v nxt"
proof (rule publishes_prefix [OF prepare_publishes(1) [OF assms(1-3)]])
  note ob = other_bank [OF assms(3)]
  fix c s assume c: "c \<in> set (data_commands (data_sector slot b) bs)" "writes c s"
  then have "s = data_sector slot b + 0 \<or> s = data_sector slot b + 1" by (auto simp: data_commands_def)
  then obtain k where k: "s = data_sector slot b + k" "k < 2" by (metis One_nat_def one_less_numeral_iff semiring_norm(76) zero_less_numeral)
  have not: "s \<notin> bank_sectors bank" if "bank \<le> 1" for bank using data_not_bank [OF assms(4,5) k(2) that] k(1) by simp
  have "s \<in> bank_sectors (1 - vl_bank v)" if w: "CWrite s x \<in> set (prepare_commands nxt (1 - vl_bank v))" for x
    using w by (auto simp: CWrite_prepare bank_sectors_def)
  moreover have "header_sector (1 - vl_bank v) \<in> bank_sectors (1 - vl_bank v)" by (simp add: bank_sectors_def)
  ultimately show "s \<notin> bank_sectors (vl_bank v) \<and> s \<noteq> header_sector (1 - vl_bank v) \<and>
      (\<forall>b. CWrite s b \<notin> set (prepare_commands nxt (1 - vl_bank v)))"
    using not [OF assms(3)] not [of "1 - vl_bank v"] ob by blast
qed (auto simp: data_commands_def)

text \<open>The next generation and the commands of a replacement, for any change of the recovery records that comes
  with it.\<close>

definition replaced_metadata :: "volume \<Rightarrow> metadata \<Rightarrow> nat \<Rightarrow> bytes \<Rightarrow> u64 \<Rightarrow> metadata" where
  "replaced_metadata v nxt slot bs s =
     with_node (nxt\<lparr>md_sequence := s\<rparr>) slot (replaced_node (md_nodes (vl_metadata v) ! slot) bs s)"

definition replacement_commands :: "volume \<Rightarrow> metadata \<Rightarrow> nat \<Rightarrow> bytes \<Rightarrow> command list" where
  "replacement_commands v nxt slot bs =
     data_commands (data_sector slot (1 - nd_bank (md_nodes (vl_metadata v) ! slot))) (put (replicate max_file 0) 0 bs) @
     metadata_commands nxt (1 - vl_bank v)"

definition published :: "volume \<Rightarrow> metadata \<Rightarrow> volume" where
  "published v nxt = \<lparr>vl_metadata = nxt, vl_bank = 1 - vl_bank v, vl_poisoned = False\<rparr>"

text \<open>A replacement that is about to start: the file, its new bytes and the other changes of the generation.\<close>

definition replaceable :: "volume \<Rightarrow> metadata \<Rightarrow> u32 \<Rightarrow> nat \<Rightarrow> bytes \<Rightarrow> u64 \<Rightarrow> bool" where
  "replaceable v nxt i slot bs s \<longleftrightarrow>
     metadata_ok (vl_metadata v) \<and> \<not> vl_poisoned v \<and> metadata_index (vl_metadata v) i = Ok slot \<and>
     nd_kind (md_nodes (vl_metadata v) ! slot) = KFile \<and> length bs \<le> max_file \<and>
     md_sequence (vl_metadata v) < s \<and> md_nodes nxt = md_nodes (vl_metadata v) \<and> metadata_ok (nxt\<lparr>md_sequence := s\<rparr>)"

lemma replaceableD:
  assumes "replaceable v nxt i slot bs s"
  shows "slot < objects" "nd_bank (md_nodes (vl_metadata v) ! slot) \<le> 1" "nd_id (md_nodes (vl_metadata v) ! slot) = i"
    "metadata_ok (replaced_metadata v nxt slot bs s)" "md_sequence (replaced_metadata v nxt slot bs s) = s"
    "metadata_index (replaced_metadata v nxt slot bs s) j = metadata_index (vl_metadata v) j"
    "md_nodes (replaced_metadata v nxt slot bs s) =
       (md_nodes (vl_metadata v))[slot := replaced_node (md_nodes (vl_metadata v) ! slot) bs s]"
proof -
  let ?m = "vl_metadata v" and ?b = "nxt\<lparr>md_sequence := s\<rparr>"
  have h: "metadata_ok ?m" "metadata_index ?m i = Ok slot" "nd_kind (md_nodes ?m ! slot) = KFile" "length bs \<le> max_file"
    "md_nodes nxt = md_nodes ?m" "metadata_ok ?b" using assms by (auto simp: replaceable_def)
  note m = metadata_okD [OF h(1)] and ix = metadata_index_Ok [OF h(2)]
  show slot: "slot < objects" and "nd_id (md_nodes ?m ! slot) = i" using ix m(1) by auto
  have "node_ok (md_nodes ?m ! slot)" using m(2) ix(1) by simp
  then show "nd_bank (md_nodes ?m ! slot) \<le> 1" using h(3) by (simp add: node_ok_def)
  show "metadata_ok (replaced_metadata v nxt slot bs s)"
    using metadata_ok_replaced [OF h(6), of slot bs] h(3-5) ix(1) by (simp add: replaced_metadata_def)
  have "metadata_index (with_node ?b slot (replaced_node (md_nodes ?m ! slot) bs s)) j = metadata_index ?b j"
    by (rule metadata_index_replaced) (use h(5) ix(1) in simp_all)
  then show "metadata_index (replaced_metadata v nxt slot bs s) j = metadata_index ?m j"
    using h(5) by (simp add: replaced_metadata_def metadata_index_def)
qed (use assms in \<open>simp_all add: replaced_metadata_def replaceable_def\<close>)

lemma replacement_publication:
  assumes "replaceable v nxt i slot bs s" and "vl_bank v \<le> 1" and "n = replaced_metadata v nxt slot bs s"
    and "pre = data_commands (data_sector slot (1 - nd_bank (md_nodes (vl_metadata v) ! slot))) (put (replicate max_file 0) 0 bs) @
      prepare_commands n (1 - vl_bank v)"
  shows "publishes pre v n" and "replacement_commands v n slot bs = publication_commands pre v n"
proof -
  note r = replaceableD [OF assms(1)]
  have less: "md_sequence (vl_metadata v) < md_sequence n" using assms(1,3) r(5) by (simp add: replaceable_def)
  show "publishes pre v n"
    using replacement_publishes [OF _ less assms(2) r(1), of "1 - nd_bank (md_nodes (vl_metadata v) ! slot)"] r(4)
      other_bank [OF r(2)] assms(3,4) by simp
qed (simp add: assms replacement_commands_def publication_commands_def metadata_commands_def)

lemma replacement_writes:
  assumes "replaceable v nxt i slot bs s" and "vl_bank v \<le> 1" and "c \<in> set (replacement_commands v n slot bs)"
    and "k < 2" and "slot' < objects" and "nd_kind (md_nodes (vl_metadata v) ! slot') = KFile"
  shows "\<not> writes c (data_sector slot' (nd_bank (md_nodes (vl_metadata v) ! slot')) + k)"
proof
  let ?b = "nd_bank (md_nodes (vl_metadata v) ! slot')" and ?n = "nd_bank (md_nodes (vl_metadata v) ! slot)"
  assume w: "writes c (data_sector slot' ?b + k)"
  note r = replaceableD [OF assms(1)] and ob = other_bank [OF assms(2)]
  have ok: "metadata_ok (vl_metadata v)" using assms(1) by (simp add: replaceable_def)
  then have "node_ok (md_nodes (vl_metadata v) ! slot')" using metadata_okD(1,2) [OF ok] assms(5) by simp
  then have b: "?b \<le> 1" using assms(6) by (simp add: node_ok_def)
  from w obtain x where x: "c = CWrite (data_sector slot' ?b + k) x" by (cases c) auto
  have "data_sector slot' ?b + k \<notin> bank_sectors (1 - vl_bank v)" by (rule data_not_bank [OF assms(5) b assms(4)]) (use ob in simp)
  then have "c \<in> set (data_commands (data_sector slot (1 - ?n)) (put (replicate max_file 0) 0 bs))"
    using assms(3) x by (auto simp: replacement_commands_def metadata_commands_def CWrite_prepare bank_sectors_def)
  then obtain k' where k': "data_sector slot' ?b + k = data_sector slot (1 - ?n) + k'" "k' < 2"
    using x by (auto simp: data_commands_def)
  have "slot' = slot \<and> ?b = 1 - ?n \<and> k = k'"
    by (rule data_sector_inj [OF k'(1) b _ assms(4) k'(2)]) (use other_bank [OF r(2)] in simp)
  then show False using other_bank [OF r(2)] by auto
qed

lemma replaced_node_contents:
  assumes r: "replaceable v nxt i slot bs s"
    and "\<And>x b. CWrite x b \<in> set (data_commands (data_sector slot (1 - nd_bank (md_nodes (vl_metadata v) ! slot)))
      (put (replicate max_file 0) 0 bs)) \<Longrightarrow> m x = b"
  shows "file_contents (published v (replaced_metadata v nxt slot bs s)) m i = Ok bs"
proof -
  let ?n = "md_nodes (vl_metadata v) ! slot" and ?w = "published v (replaced_metadata v nxt slot bs s)"
  note d = replaceableD [OF r]
  have h: "metadata_index (vl_metadata v) i = Ok slot" "nd_kind ?n = KFile" "length bs \<le> max_file" "metadata_ok (vl_metadata v)"
    using r by (auto simp: replaceable_def)
  have ix: "metadata_index (vl_metadata ?w) i = Ok slot" using d(6) h(1) by (simp add: published_def)
  have st: "volume_stat ?w i = Ok (replaced_node ?n bs s)"
    using ix d(1,7) metadata_okD(1) [OF h(4)] by (auto simp: volume_stat_Ok published_def)
  show ?thesis
    by (rule replaced_contents [OF h(3) st ix])
      (use h replaced_node_length [OF h(3)] assms(2) in \<open>simp_all add: data_commands_def\<close>)
qed

lemma other_contents:
  assumes r: "replaceable v nxt i slot bs s" and "j \<noteq> i"
  shows "file_contents (published v (replaced_metadata v nxt slot bs s)) m j = file_contents v m j"
proof (rule file_contents_volume_cong)
  note d = replaceableD [OF r]
  show "metadata_index (vl_metadata (published v (replaced_metadata v nxt slot bs s))) j = metadata_index (vl_metadata v) j"
    using d(6) by (simp add: published_def)
  fix k assume "metadata_index (vl_metadata v) j = Ok k"
  then have "k \<noteq> slot" using assms(2) d(3) metadata_index_Ok(3) by blast
  then show "md_nodes (vl_metadata (published v (replaced_metadata v nxt slot bs s))) ! k = md_nodes (vl_metadata v) ! k"
    using d(7) by (simp add: published_def)
qed (use r in \<open>simp add: published_def replaceable_def\<close>)

context durable_disk
begin

lemma run_flushed:
  assumes "run_commands D (cs @ [CFlush]) d = (Ok (), d')"
  shows "durable d' = live d'"
  using assms flush_ok flush_live by (fastforce simp: run_commands_append io_then_Ok_iff)

lemma old_contents_kept:
  assumes r: "replaceable v nxt i slot bs s" and b: "vl_bank v \<le> 1" and set: "contents_settled live durable d (vl_metadata v)"
    and dur: "during D (replacement_commands v n slot bs) d d1" and m: "crash_image live durable d1 m"
  shows "file_contents v m j = file_contents v (live d) j"
proof (rule file_contents_cong)
  fix slot' k assume h: "metadata_index (vl_metadata v) j = Ok slot'" "nd_kind (md_nodes (vl_metadata v) ! slot') = KFile" "k < (2 :: nat)"
  let ?s = "data_sector slot' (nd_bank (md_nodes (vl_metadata v) ! slot')) + k"
  have slot': "slot' < objects"
    using metadata_index_Ok(1) [OF h(1)] metadata_okD(1) [of "vl_metadata v"] r by (simp add: replaceable_def)
  have "holds_at d1 ?s \<subseteq> holds_at d ?s"
    by (rule during_keeps [OF dur]) (rule replacement_writes [OF r b _ h(3) slot' h(2)])
  moreover have "holds_at d ?s = {live d ?s}" using set slot' h(2,3) by (auto simp: contents_settled_def sector_values_def)
  ultimately show "m ?s = live d ?s" using m by (auto simp: crash_image_def)
qed

lemma replacement_atomic:
  assumes r: "replaceable v nxt i slot bs s" and safe: "generation_safe live durable d v"
    and set: "contents_settled live durable d (vl_metadata v)" and n: "n = replaced_metadata v nxt slot bs s"
    and tear: "tear_detected (live d (header_sector (1 - vl_bank v))) (publication_header n)"
    and dur: "during D (replacement_commands v n slot bs) d d1" and m: "crash_image live durable d1 m" "full_sectors m"
  shows "fst (mount_metadata image_disk m) = Ok (vl_metadata v, vl_bank v) \<and>
      (\<forall>j. file_contents v m j = file_contents v (live d) j) \<or>
    fst (mount_metadata image_disk m) = Ok (n, 1 - vl_bank v) \<and> file_contents (published v n) m i = Ok bs \<and>
      (\<forall>j. j \<noteq> i \<longrightarrow> file_contents (published v n) m j = file_contents v (live d) j)"
proof -
  have b: "vl_bank v \<le> 1" using safe by (simp add: generation_safe_def)
  note pub = replacement_publication [OF r b n refl]
  note old = old_contents_kept [OF r b set dur m(1)]
  from publish_atomic [OF safe pub(1) dur [unfolded pub(2)] m tear] show ?thesis
  proof
    assume a: "fst (mount_metadata image_disk m) = Ok (n, 1 - vl_bank v) \<and>
      (\<forall>s b. CWrite s b \<in> set (data_commands (data_sector slot (1 - nd_bank (md_nodes (vl_metadata v) ! slot)))
        (put (replicate max_file 0) 0 bs) @ prepare_commands n (1 - vl_bank v)) \<longrightarrow> m s = b)"
    then have "file_contents (published v n) m i = Ok bs" unfolding n by (intro replaced_node_contents [OF r]) auto
    moreover have "file_contents (published v n) m j = file_contents v (live d) j" if "j \<noteq> i" for j
      using other_contents [OF r that] old n by simp
    ultimately show ?thesis using a by blast
  qed (use old in blast)
qed

lemma replacement_durable:
  assumes r: "replaceable v nxt i slot bs s" and safe: "generation_safe live durable d v" and n: "n = replaced_metadata v nxt slot bs s"
    and run: "run_commands D (replacement_commands v n slot bs) d = (Ok (), d')"
  shows "generation_safe live durable d' (published v n)" and "contents_settled live durable d' n"
proof -
  have b: "vl_bank v \<le> 1" using safe by (simp add: generation_safe_def)
  note pub = replacement_publication [OF r b n refl]
  show "generation_safe live durable d' (published v n)"
    using publish_durable [OF safe pub(1)] run pub(2) by (simp add: published_def)
  have "durable d' = live d'"
    by (rule run_flushed [where cs = "butlast (replacement_commands v n slot bs)" and d = d])
      (use run in \<open>simp add: replacement_commands_def metadata_commands_def butlast_append\<close>)
  then show "contents_settled live durable d' n" by (simp add: contents_settled_def)
qed

lemma replacement_contents:
  assumes r: "replaceable v nxt i slot bs s" and safe: "generation_safe live durable d v"
    and set: "contents_settled live durable d (vl_metadata v)" and n: "n = replaced_metadata v nxt slot bs s"
    and run: "run_commands D (replacement_commands v n slot bs) d = (Ok (), d')"
  shows "file_contents (published v n) (live d') i = Ok bs"
    and "j \<noteq> i \<Longrightarrow> file_contents (published v n) (live d') j = file_contents v (live d) j"
proof -
  let ?dc = "data_commands (data_sector slot (1 - nd_bank (md_nodes (vl_metadata v) ! slot))) (put (replicate max_file 0) 0 bs)"
  have b: "vl_bank v \<le> 1" using safe by (simp add: generation_safe_def)
  note pub = replacement_publication [OF r b n refl]
  have "live d' x = c" if w: "CWrite x c \<in> set ?dc" for x c
  proof (rule run_writes_live [OF run])
    show "CWrite x c \<in> set (replacement_commands v n slot bs)" using w by (simp add: replacement_commands_def)
    fix c' assume c': "CWrite x c' \<in> set (replacement_commands v n slot bs)"
    have "x \<noteq> header_sector (1 - vl_bank v)" by (rule publishes_header [OF pub(1), of x c]) (use w in simp)
    then have "CWrite x c' \<in> set (?dc @ prepare_commands n (1 - vl_bank v))" "CWrite x c \<in> set (?dc @ prepare_commands n (1 - vl_bank v))"
      using c' w unfolding pub(2) publication_commands_def by auto
    then show "c' = c" using pub(1) unfolding publishes_def by blast
  qed
  then show "file_contents (published v n) (live d') i = Ok bs" unfolding n by (rule replaced_node_contents [OF r])
  show "file_contents (published v n) (live d') j = file_contents v (live d) j" if "j \<noteq> i"
    using other_contents [OF r that] old_contents_kept [OF r b set run_commands_during [OF run]] n
    by (simp add: crash_image_def sector_values_def)
qed

text \<open>What running the commands leaves, as the outcome of the operation that ran them.\<close>

lemma outcome_images:
  assumes r: "replaceable v nxt i slot bs s" and safe: "generation_safe live durable d v"
    and set: "contents_settled live durable d (vl_metadata v)" and n: "n = replaced_metadata v nxt slot bs s"
    and tear: "tear_detected (live d (header_sector (1 - vl_bank v))) (publication_header n)"
    and x: "publish_outcome t v n (run_commands D (replacement_commands v n slot bs) d) = (res, w, d1)"
    and m: "crash_image live durable d1 m" "full_sectors m"
  shows "fst (mount_metadata image_disk m) = Ok (vl_metadata v, vl_bank v) \<and>
      (\<forall>j. file_contents v m j = file_contents v (live d) j) \<or>
    fst (mount_metadata image_disk m) = Ok (n, 1 - vl_bank v) \<and> file_contents (published v n) m i = Ok bs \<and>
      (\<forall>j. j \<noteq> i \<longrightarrow> file_contents (published v n) m j = file_contents v (live d) j)"
proof -
  obtain r1 where "run_commands D (replacement_commands v n slot bs) d = (r1, d1)"
    using x by (cases "run_commands D (replacement_commands v n slot bs) d"; cases "fst (run_commands D (replacement_commands v n slot bs) d)") auto
  then show ?thesis using replacement_atomic [OF r safe set n tear run_commands_during m] by blast
qed

lemma outcome_returns:
  assumes r: "replaceable v nxt i slot bs s" and safe: "generation_safe live durable d v"
    and set: "contents_settled live durable d (vl_metadata v)" and n: "n = replaced_metadata v nxt slot bs s"
    and x: "publish_outcome t v n (run_commands D (replacement_commands v n slot bs) d) = (res, w, d')"
  shows "res = Ok t \<and> w = published v n \<and> generation_safe live durable d' w \<and> contents_settled live durable d' n \<and>
      file_contents w (live d') i = Ok bs \<and> (\<forall>j. j \<noteq> i \<longrightarrow> file_contents w (live d') j = file_contents v (live d) j) \<or>
    res = Err FsUncertain \<and> vl_poisoned w"
proof (cases "run_commands D (replacement_commands v n slot bs) d")
  case (Pair r1 d1)
  have np: "r1 \<noteq> Panic" using run_not_Panic [of "replacement_commands v n slot bs" d] Pair by simp
  show ?thesis
  proof (cases r1)
    case (Ok u)
    then have run: "run_commands D (replacement_commands v n slot bs) d = (Ok (), d1)" using Pair by simp
    show ?thesis using x run replacement_durable [OF r safe n run] replacement_contents [OF r safe set n run] by (simp add: published_def)
  qed (use x Pair np in auto)
qed

end

lemma prepared_replaceable:
  assumes "metadata_ok (vl_metadata v)" and "prepare_recorded v d i version bs nxt output = Ok p"
    and "md_nodes nxt = md_nodes (vl_metadata v)"
    and "\<And>s. checked_add (md_sequence (vl_metadata v)) 1 = Some s \<Longrightarrow> metadata_ok (nxt\<lparr>md_sequence := s\<rparr>)"
  obtains slot s where "replaceable v nxt i slot bs s" "checked_add (md_sequence (vl_metadata v)) 1 = Some s"
    "pb_next p = Some (replaced_metadata v nxt slot bs s)"
    "pub_commands p (replaced_metadata v nxt slot bs s) = replacement_commands v (replaced_metadata v nxt slot bs s) slot bs"
    "run_to_volume D v d (Ok p) = Some (publish_outcome (output (replaced_node (md_nodes (vl_metadata v) ! slot) bs s)) v
       (replaced_metadata v nxt slot bs s) (run_commands D (replacement_commands v (replaced_metadata v nxt slot bs s) slot bs) d))"
proof -
  obtain slot s where h: "metadata_index (vl_metadata v) i = Ok slot" "\<not> vl_poisoned v"
    "nd_kind (md_nodes (vl_metadata v) ! slot) = KFile" "length bs \<le> max_file" "checked_add (md_sequence (vl_metadata v)) 1 = Some s"
    "p = publication_new v d (replaced_metadata v nxt slot bs s)
         (data_sector slot (1 - nd_bank (md_nodes (vl_metadata v) ! slot))) bs
         (output (replaced_node (md_nodes (vl_metadata v) ! slot) bs s))"
    using assms(2) by (rule prepare_recorded_Ok) (use assms(3) in \<open>simp add: replaced_metadata_def\<close>)
  have less: "md_sequence (vl_metadata v) < s" using checked_add_1_less [OF h(5)] by simp
  have "replaceable v nxt i slot bs s" using assms h less by (simp add: replaceable_def)
  moreover have "pub_commands p (replaced_metadata v nxt slot bs s) = replacement_commands v (replaced_metadata v nxt slot bs s) slot bs"
    by (simp add: h(6) pub_commands_def publication_new_def replacement_commands_def)
  moreover have "run_to_volume D v d (Ok p) = Some (publish_outcome (output (replaced_node (md_nodes (vl_metadata v) ! slot) bs s)) v
       (replaced_metadata v nxt slot bs s) (run_commands D (replacement_commands v (replaced_metadata v nxt slot bs s) slot bs) d))"
    unfolding h(6) replacement_commands_def by (rule run_new_publication [OF _ h(2)]) (simp add: write_steps_def)
  moreover have "pb_next p = Some (replaced_metadata v nxt slot bs s)" by (simp add: h(6) publication_new_def)
  ultimately show ?thesis using that h(5) by blast
qed

text \<open>Whether a replacement is accepted, and its next generation, do not depend on the disk.\<close>

lemma prepare_recorded_any:
  assumes "prepare_recorded v d i version bs nxt output = Ok p"
  shows "\<exists>p'. prepare_recorded v d' i version bs nxt output = Ok p' \<and> pb_next p' = pb_next p"
  using assms
  by (cases "volume_writable v i"; cases "metadata_index (vl_metadata v) i"; cases "checked_add (md_sequence (vl_metadata v)) 1")
    (auto simp: prepare_recorded_def Let_def publication_new_def split: if_splits)

section \<open>Properties\<close>

text \<open>C2 Replacing a file is atomic, isolated and durable, contents included, on every disk that keeps the contract of
  the trait, failed writes torn. Let the request be accepted, its next generation be \<open>n\<close>, and let the checksum tell a
  header torn between the old one and that of \<open>n\<close> from both. Then the replacement returns, without a panic. Wherever
  the power fails among the commands that it issues, or one of them fails, what is left is either the old volume with
  every file unchanged, or the new one, in which the file reads exactly as the new bytes and every other file is
  unchanged. On success the new generation survives every later crash and the file reads as the new bytes; otherwise
  the volume is fenced.\<close>

theorem replace_crash_atomic:
  assumes disk: "durable_disk D live durable" and safe: "generation_safe live durable d v"
    and set: "contents_settled live durable d (vl_metadata v)" and prep: "prepare_replace v d i version bs = Ok p"
    and n: "pb_next p = Some n" and tear: "tear_detected (live d (header_sector (1 - vl_bank v))) (publication_header n)"
  shows "(\<forall>k. \<exists>res w d1 k1. volume_replace (cut_disk D) v i version bs (d, k) = Some (res, w, d1, k1) \<and> res \<noteq> Panic \<and>
      (\<forall>m. crash_image live durable d1 m \<longrightarrow> full_sectors m \<longrightarrow>
        fst (mount_metadata image_disk m) = Ok (vl_metadata v, vl_bank v) \<and>
          (\<forall>j. file_contents v m j = file_contents v (live d) j) \<or>
        fst (mount_metadata image_disk m) = Ok (n, 1 - vl_bank v) \<and> file_contents (published v n) m i = Ok bs \<and>
          (\<forall>j. j \<noteq> i \<longrightarrow> file_contents (published v n) m j = file_contents v (live d) j))) \<and>
    (\<exists>res w d'. volume_replace D v i version bs d = Some (res, w, d') \<and>
      ((\<exists>node. res = Ok node) \<and> w = published v n \<and> generation_safe live durable d' w \<and> contents_settled live durable d' n \<and>
         file_contents w (live d') i = Ok bs \<and> (\<forall>j. j \<noteq> i \<longrightarrow> file_contents w (live d') j = file_contents v (live d) j) \<or>
       res = Err FsUncertain \<and> vl_poisoned w))"
proof (intro conjI allI)
  have ok: "metadata_ok (vl_metadata v)" using safe by (simp add: generation_safe_def)
  have later: "metadata_ok ((vl_metadata v)\<lparr>md_sequence := s\<rparr>)" if "checked_add (md_sequence (vl_metadata v)) 1 = Some s" for s
    by (rule metadata_ok_later [OF ok]) (use checked_add_Some_unat [OF that] in \<open>simp add: word_le_nat_alt\<close>)
  let ?N = "\<lambda>slot s. replaced_metadata v (vl_metadata v) slot bs s"
  show "\<exists>res w d1 k1. volume_replace (cut_disk D) v i version bs (d, k) = Some (res, w, d1, k1) \<and> res \<noteq> Panic \<and>
      (\<forall>m. crash_image live durable d1 m \<longrightarrow> full_sectors m \<longrightarrow>
        fst (mount_metadata image_disk m) = Ok (vl_metadata v, vl_bank v) \<and>
          (\<forall>j. file_contents v m j = file_contents v (live d) j) \<or>
        fst (mount_metadata image_disk m) = Ok (n, 1 - vl_bank v) \<and> file_contents (published v n) m i = Ok bs \<and>
          (\<forall>j. j \<noteq> i \<longrightarrow> file_contents (published v n) m j = file_contents v (live d) j))" for k
  proof -
    note cut = cut_keeps_contract [OF disk]
    obtain p' where p': "prepare_replace v (d, k) i version bs = Ok p'" "pb_next p' = Some n"
      using prepare_recorded_any [OF prep [unfolded prepare_replace_def], of "(d, k)"] n by (auto simp: prepare_replace_def)
    obtain slot s where r: "replaceable v (vl_metadata v) i slot bs s" and N: "pb_next p' = Some (?N slot s)"
      and run: "run_to_volume (cut_disk D) v (d, k) (Ok p') = Some (publish_outcome (replaced_node (md_nodes (vl_metadata v) ! slot) bs s) v
         (?N slot s) (run_commands (cut_disk D) (replacement_commands v (?N slot s) slot bs) (d, k)))"
      by (rule prepared_replaceable [OF ok p'(1) [unfolded prepare_replace_def] refl later]) blast
    have nn: "n = ?N slot s" using N p'(2) by simp
    obtain res w d1 k1 where x: "publish_outcome (replaced_node (md_nodes (vl_metadata v) ! slot) bs s) v n
        (run_commands (cut_disk D) (replacement_commands v n slot bs) (d, k)) = (res, w, d1, k1)" by (metis prod_cases4)
    note images = durable_disk.outcome_images [OF cut r _ _ nn _ x] and returns = durable_disk.outcome_returns [OF cut r _ _ nn x]
    show ?thesis
      using run p'(1) x images returns safe set tear nn by (auto simp: volume_replace_def contents_settled_def)
  qed
  obtain slot s where r: "replaceable v (vl_metadata v) i slot bs s" and N: "pb_next p = Some (?N slot s)"
    and run: "run_to_volume D v d (Ok p) = Some (publish_outcome (replaced_node (md_nodes (vl_metadata v) ! slot) bs s) v
       (?N slot s) (run_commands D (replacement_commands v (?N slot s) slot bs) d))"
    by (rule prepared_replaceable [OF ok prep [unfolded prepare_replace_def] refl later]) blast
  have nn: "n = ?N slot s" using N n by simp
  obtain res w d' where x: "publish_outcome (replaced_node (md_nodes (vl_metadata v) ! slot) bs s) v n
      (run_commands D (replacement_commands v n slot bs) d) = (res, w, d')" by (metis prod_cases3)
  show "\<exists>res w d'. volume_replace D v i version bs d = Some (res, w, d') \<and>
      ((\<exists>node. res = Ok node) \<and> w = published v n \<and> generation_safe live durable d' w \<and> contents_settled live durable d' n \<and>
         file_contents w (live d') i = Ok bs \<and> (\<forall>j. j \<noteq> i \<longrightarrow> file_contents w (live d') j = file_contents v (live d) j) \<or>
       res = Err FsUncertain \<and> vl_poisoned w)"
    using run prep x durable_disk.outcome_returns [OF disk r safe set nn x] nn by (auto simp: volume_replace_def)
qed

lemma example_prepared: "\<exists>p. prepare_replace (settled_volume example_metadata) d 5 2 [1, 2, 3] = Ok p \<and> (\<exists>n. pb_next p = Some n)"
proof -
  have "checked_add (md_sequence example_metadata) 1 = Some 3" by (simp add: example_metadata_def checked_add_def)
  moreover have "volume_writable (settled_volume example_metadata) 5 = Ok example_node"
    using example_stat by (simp add: volume_writable_Ok example_node_def)
  ultimately show ?thesis
    using example_nodes by (simp add: prepare_replace_def prepare_recorded_def settled_volume_def example_node_def publication_new_def Let_def)
qed

text \<open>The witness is a disk whose fourth command fails with 100 bytes of the sector written.\<close>

theorem replace_crash_atomic_witness:
  "\<exists>res w d'. volume_replace memory_disk (settled_volume example_metadata) 5 2 [1, 2, 3]
       ((settled_disk example_metadata)\<lparr>mk_fail := Some 3, mk_tear := 100\<rparr>) = Some (res, w, d') \<and>
     (file_contents w (mk_live d') 5 = Ok [1, 2, 3] \<or> res = Err FsUncertain \<and> vl_poisoned w)"
proof -
  let ?v = "settled_volume example_metadata" and ?d = "(settled_disk example_metadata)\<lparr>mk_fail := Some 3, mk_tear := 100\<rparr>"
  have same: "mk_live ?d = mk_live (settled_disk example_metadata)" "mk_durable ?d = mk_durable (settled_disk example_metadata)" by simp_all
  have safe: "generation_safe mk_live mk_durable ?d ?v"
    using settled_safe [OF example_metadata_ok] by (simp add: generation_safe_def crash_image_def sector_values_def)
  have set: "contents_settled mk_live mk_durable ?d (vl_metadata ?v)" by (simp add: contents_settled_def)
  obtain p n where p: "prepare_replace ?v ?d 5 2 [1, 2, 3] = Ok p" "pb_next p = Some n" using example_prepared [of ?d] by blast
  have "tear_detected (mk_live ?d (header_sector (1 - vl_bank ?v))) (publication_header n)"
    using settled_tears [OF publication_header_fields(1)] by simp
  from replace_crash_atomic [OF memory.durable_disk_axioms safe set p this] show ?thesis by blast
qed

end
