(* ===== verification/Operations.thy ===== *)
theory Operations
  imports Records Replacement
begin

text \<open>
  Every operation of the volume either answers from a retained record or prepares a publication of a well
  formed next generation (\<open>prepared_ok\<close>), so it inherits crash atomicity from \<open>Durability\<close>. On top of this the
  retry contract is shown: an interrupted operation that is retried takes effect exactly once.
\<close>

section \<open>Prepared publications\<close>

definition planned :: "volume \<Rightarrow> 'd \<Rightarrow> ('d, 't) publication \<Rightarrow> metadata \<Rightarrow> command list \<Rightarrow> bool" where
  "planned v d p n pre \<longleftrightarrow> pub_active p n \<and> pb_step p = 0 \<and> pb_phase p = PhPreparing \<and> pb_disk p = d \<and>
     pb_volume p = v\<lparr>vl_poisoned := True\<rparr> \<and> \<not> vl_poisoned v \<and>
     pub_commands p n = publication_commands pre v n \<and> publishes pre v n"

definition prepared_ok :: "volume \<Rightarrow> 'd \<Rightarrow> ('d, 't) publication \<Rightarrow> bool" where
  "prepared_ok v d p \<longleftrightarrow> (\<exists>t. p = publication_replayed v d t) \<or> (\<exists>n pre. planned v d p n pre)"

lemma new_publication_planned:
  assumes "replaceable v nxt i slot bs s" and "vl_bank v \<le> 1"
  shows "prepared_ok v d (publication_new v d (replaced_metadata v nxt slot bs s)
    (data_sector slot (1 - nd_bank (md_nodes (vl_metadata v) ! slot))) bs t)" (is "prepared_ok v d ?p")
proof -
  let ?n = "replaced_metadata v nxt slot bs s"
  note pub = replacement_publication [OF assms refl refl]
  have cs: "pub_commands ?p ?n = replacement_commands v ?n slot bs"
    by (simp add: pub_commands_def publication_new_def replacement_commands_def)
  have "pub_active ?p ?n"
    unfolding pub_active_def cs by (simp add: publication_new_def pub_steps_ok_def replacement_commands_def data_commands_def)
  then have "\<exists>pre. planned v d ?p ?n pre"
    unfolding planned_def cs pub(2) using pub(1) assms(1) by (auto simp: publication_new_def replaceable_def)
  then show ?thesis by (auto simp: prepared_ok_def)
qed

lemma metadata_publication_planned:
  assumes "publication_metadata v d nxt t = Ok p" and "\<not> vl_poisoned v" and "vl_bank v \<le> 1"
    and "\<And>s. checked_add (md_sequence (vl_metadata v)) 1 = Some s \<Longrightarrow> metadata_ok (nxt\<lparr>md_sequence := s\<rparr>)"
  shows "prepared_ok v d p"
proof -
  obtain s where s: "checked_add (md_sequence (vl_metadata v)) 1 = Some s"
    and p: "p = (publication_new v d (nxt\<lparr>md_sequence := s\<rparr>) 0 [] t)\<lparr>pb_data_steps := 0\<rparr>"
    using assms(1) by (auto simp: publication_metadata_def and_then_Ok_iff volume_sequence_def)
  let ?n = "nxt\<lparr>md_sequence := s\<rparr>"
  have less: "md_sequence (vl_metadata v) < md_sequence ?n" using checked_add_1_less [OF s] by simp
  note pub = prepare_publishes [OF assms(4) [OF s] less assms(3)]
  have cs: "pub_commands p ?n = metadata_commands ?n (1 - vl_bank v)"
    by (simp add: p pub_commands_def publication_new_def)
  have "pub_active p ?n"
    unfolding pub_active_def cs by (simp add: p publication_new_def pub_steps_ok_def metadata_commands_def)
  then have "planned v d p ?n (prepare_commands ?n (1 - vl_bank v))"
    unfolding planned_def cs pub(2) using pub(1) assms(2) by (simp add: p publication_new_def)
  then show ?thesis by (auto simp: prepared_ok_def)
qed

lemma prepare_recorded_planned:
  assumes "metadata_ok (vl_metadata v)" and "vl_bank v \<le> 1" and "prepare_recorded v d i version bs nxt output = Ok p"
    and "md_nodes nxt = md_nodes (vl_metadata v)"
    and "\<And>s. checked_add (md_sequence (vl_metadata v)) 1 = Some s \<Longrightarrow> metadata_ok (nxt\<lparr>md_sequence := s\<rparr>)"
  shows "prepared_ok v d p"
proof -
  obtain slot s where h: "metadata_index (vl_metadata v) i = Ok slot" "\<not> vl_poisoned v"
    "nd_kind (md_nodes (vl_metadata v) ! slot) = KFile" "length bs \<le> max_file" "checked_add (md_sequence (vl_metadata v)) 1 = Some s"
    "p = publication_new v d (replaced_metadata v nxt slot bs s)
         (data_sector slot (1 - nd_bank (md_nodes (vl_metadata v) ! slot))) bs
         (output (replaced_node (md_nodes (vl_metadata v) ! slot) bs s))"
    using assms(3) by (rule prepare_recorded_Ok) (use assms(4) in \<open>simp add: replaced_metadata_def\<close>)
  have less: "md_sequence (vl_metadata v) < s" using checked_add_1_less [OF h(5)] by simp
  have "replaceable v nxt i slot bs s" using assms h less by (simp add: replaceable_def)
  then show ?thesis unfolding h(6) by (rule new_publication_planned [OF _ assms(2)])
qed

lemma prepare_recorded_file:
  assumes "metadata_ok (vl_metadata v)" and "prepare_recorded v d i version bs nxt output = Ok p"
  obtains n where "n \<in> live_nodes (vl_metadata v)" "nd_kind n = KFile" "nd_id n = i" "nd_version n = version" "length bs \<le> max_file"
proof -
  obtain slot s where "metadata_index (vl_metadata v) i = Ok slot" "nd_kind (md_nodes (vl_metadata v) ! slot) = KFile"
    "nd_version (md_nodes (vl_metadata v) ! slot) = version" "length bs \<le> max_file"
    using assms(2) by (rule prepare_recorded_Ok) blast
  then show ?thesis using that metadata_index_Ok [of "vl_metadata v" i slot] by blast
qed

text \<open>The workspace of a resolved object is another live object.\<close>

lemma volume_resolve_Ok:
  assumes "volume_resolve v w i = Ok n" and "metadata_ok (vl_metadata v)"
  shows "w < md_next (vl_metadata v)" and "\<not> vl_poisoned v" and "volume_stat v i = Ok n" and "nd_kind n = KFile \<Longrightarrow> w \<noteq> i"
proof -
  obtain x where x: "volume_stat v w = Ok x" "nd_kind x = KDirectory" and n: "volume_stat v i = Ok n"
    using assms(1) by (auto simp: volume_resolve_def and_then_Ok_iff split: if_splits)
  show "volume_stat v i = Ok n" by (rule n)
  have "placed (vl_metadata v) x" using tree_okD(3) [OF metadata_okD(3) [OF assms(2)]] volume_stat_live(1) [OF x(1)] by blast
  then show "w < md_next (vl_metadata v)" using volume_stat_live(2) [OF x(1)] by (simp add: placed_def)
  show "\<not> vl_poisoned v" using x(1) by (simp add: volume_stat_Ok)
  show "w \<noteq> i" if "nd_kind n = KFile" using x n that by auto
qed

section \<open>Scoped replacement\<close>

lemma find_retry_None:
  assumes "find_retry r subject w rt = None" and "y \<in> set (flatten (rv_records r))" and "rr_subject y = subject"
    and "map_option fst (rr_namespace y) = Some w"
  shows "rc_retry (rr_receipt y) \<noteq> rt"
  using assms by (cases "rr_namespace y") (auto simp: find_retry_def find_None_iff in_workspace_def)

lemma operation_by_retry_unknown:
  assumes "operation_by_retry v subject w rt = Err FsOutcomeUnknown"
  obtains r where "md_recovery (vl_metadata v) = Some r" "\<not> vl_poisoned v" "rv_scoped r" "subject \<noteq> 0" "w \<noteq> 0" "rt_key rt \<noteq> 0"
    "rt_lineage rt = rv_lineage r" "rt_epoch rt = rv_epoch r" "find_retry r subject w rt = None"
proof -
  obtain r where r: "md_recovery (vl_metadata v) = Some r" "\<not> vl_poisoned v" "rv_scoped r" "subject \<noteq> 0" "w \<noteq> 0" "rt_key rt \<noteq> 0"
    "rt_lineage rt = rv_lineage r"
    "(case find_retry r subject w rt of Some q \<Rightarrow> retained_operation q
       | None \<Rightarrow> if rt_epoch rt \<noteq> rv_epoch r then Err FsExpiredEpoch else Err FsOutcomeUnknown) = Err FsOutcomeUnknown"
    using assms by (auto simp: operation_by_retry_def scoped_recovery_def current_recovery_def outcome_iffs volume_ready_def split: if_splits)
  moreover have "retained_operation q \<noteq> Err FsOutcomeUnknown" if "find_retry r subject w rt = Some q" for q
    using that by (auto simp: find_retry_def find_Some_iff in_workspace_def retained_operation_def outcome_iffs split: option.splits admission_state.splits)
  ultimately show ?thesis using that by (cases "find_retry r subject w rt") (auto split: if_splits)
qed

definition scoped_record :: "u64 \<Rightarrow> u64 \<Rightarrow> replacement \<Rightarrow> bytes \<Rightarrow> u64 \<Rightarrow> retained" where
  "scoped_record subject inst request bs s =
     \<lparr>rr_subject = subject,
      rr_receipt = \<lparr>rc_retry = rp_retry request, rc_id = rp_id request, rc_previous = rp_version request,
        rc_committed = s, rc_length = of_nat (length bs)\<rparr>,
      rr_namespace = Some (rp_workspace request, if inst = 0 then s else inst),
      rr_bytes = put (replicate max_file 0) 0 bs, rr_admission = None\<rparr>"

lemma prepare_scoped_cases:
  assumes "prepare_scoped v d subject inst request bs = Ok p"
  obtains (replay) old where "operation_by_retry v subject (rp_workspace request) (rp_retry request) = Ok old"
      "rc_id (op_receipt old) = rp_id request" "rc_previous (op_receipt old) = rp_version request" "op_bytes old = bs"
      "p = publication_replayed v d (op_receipt old)"
  | (fresh) n r slot s nxt where "operation_by_retry v subject (rp_workspace request) (rp_retry request) = Err FsOutcomeUnknown"
      "volume_resolve v (rp_workspace request) (rp_id request) = Ok n" "md_recovery (vl_metadata v) = Some r"
      "free_record r = Ok slot" "checked_add (md_sequence (vl_metadata v)) 1 = Some s" "(if inst = 0 then s else inst) \<le> s"
      "length bs \<le> max_file" "put_record (vl_metadata v) slot (scoped_record subject inst request bs s) = Ok nxt"
      "prepare_recorded v d (rp_id request) (rp_version request) bs nxt (\<lambda>_. rr_receipt (scoped_record subject inst request bs s)) = Ok p"
proof -
  have len: "length bs \<le> max_file" using assms by (auto simp: prepare_scoped_def outcome_iffs split: if_splits)
  show ?thesis
  proof (cases "operation_by_retry v subject (rp_workspace request) (rp_retry request)")
    case (Ok old)
    then show ?thesis using assms that(1) [of old] by (auto simp: prepare_scoped_def outcome_iffs split: if_splits)
  next
    case (Err e)
    then have e: "e = FsOutcomeUnknown" using assms by (auto simp: prepare_scoped_def outcome_iffs split: if_splits)
    obtain n r slot s where h: "volume_resolve v (rp_workspace request) (rp_id request) = Ok n" "md_recovery (vl_metadata v) = Some r"
        "free_record r = Ok slot" "checked_add (md_sequence (vl_metadata v)) 1 = Some s"
        "(let i = (if inst = 0 then s else inst) in
             if i > s then Err FsInvalid
             else let c = \<lparr>rc_retry = rp_retry request, rc_id = rp_id request, rc_previous = rp_version request,
                         rc_committed = s, rc_length = of_nat (length bs)\<rparr>;
                      q = \<lparr>rr_subject = subject, rr_receipt = c, rr_namespace = Some (rp_workspace request, i),
                           rr_bytes = put (replicate max_file 0) 0 bs, rr_admission = None\<rparr>
                  in and_then (put_record (vl_metadata v) slot q) (\<lambda>nxt.
                     prepare_recorded v d (rp_id request) (rp_version request) bs nxt (\<lambda>_. c))) = Ok p"
      using assms Err e len unfolding prepare_scoped_def and_then_Ok_iff [of "volume_ready v"]
      by (auto simp: and_then_Ok_iff simp del: Let_def split: if_splits)
    have inst: "(if inst = 0 then s else inst) \<le> s" using h(5) by (auto simp: Let_def split: if_splits)
    then obtain nxt where "put_record (vl_metadata v) slot (scoped_record subject inst request bs s) = Ok nxt"
      "prepare_recorded v d (rp_id request) (rp_version request) bs nxt (\<lambda>_. rr_receipt (scoped_record subject inst request bs s)) = Ok p"
      using h(5) unfolding Let_def scoped_record_def [symmetric]
      by (auto simp: and_then_Ok_iff scoped_record_def not_less [symmetric])
    then show ?thesis using that(2) [of n r slot s nxt] h(1-4) inst len Err e by simp
  next
    case Panic
    then show ?thesis using assms by (auto simp: prepare_scoped_def outcome_iffs split: if_splits)
  qed
qed

lemma scoped_put_ok:
  assumes ok: "metadata_ok (vl_metadata v)" and unknown: "operation_by_retry v subject (rp_workspace request) (rp_retry request) = Err FsOutcomeUnknown"
    and resolve: "volume_resolve v (rp_workspace request) (rp_id request) = Ok m" and r: "md_recovery (vl_metadata v) = Some r"
    and free: "free_record r = Ok slot" and s: "checked_add (md_sequence (vl_metadata v)) 1 = Some s"
    and inst: "(if inst = 0 then s else inst) \<le> s"
    and put: "put_record (vl_metadata v) slot (scoped_record subject inst request bs s) = Ok nxt"
    and prep: "prepare_recorded v d (rp_id request) (rp_version request) bs nxt out = Ok p"
  shows "metadata_ok (nxt\<lparr>md_sequence := s\<rparr>)" and "md_nodes nxt = md_nodes (vl_metadata v)"
proof -
  let ?q = "scoped_record subject inst request bs s"
  obtain n where n: "n \<in> live_nodes (vl_metadata v)" "nd_kind n = KFile" "nd_id n = rp_id request" "nd_version n = rp_version request"
    "length bs \<le> max_file" using ok prep by (rule prepare_recorded_file)
  obtain r' where r': "md_recovery (vl_metadata v) = Some r'" "\<not> vl_poisoned v" "rv_scoped r'" "subject \<noteq> 0" "rp_workspace request \<noteq> 0"
    "rt_key (rp_retry request) \<noteq> 0" "rt_lineage (rp_retry request) = rv_lineage r'" "rt_epoch (rp_retry request) = rv_epoch r'"
    "find_retry r' subject (rp_workspace request) (rp_retry request) = None"
    using unknown by (rule operation_by_retry_unknown)
  note w = volume_resolve_Ok [OF resolve ok]
  have "m = n" using volume_stat_live [OF w(3)] live_nodes_unique [OF tree_okD(4) [OF metadata_okD(3) [OF ok]] _ n(1)] n(3) by simp
  then have ne: "rp_workspace request \<noteq> rp_id request" using w(4) n(2) by simp
  have less: "md_sequence (vl_metadata v) < s" using checked_add_1_less [OF s] by simp
  then have nz: "s \<noteq> 0" by auto
  have q: "file_record (vl_metadata v) r n bs ?q"
    using n r r' by (simp add: file_record_def scoped_record_def)
  have st: "rr_admission ?q = None \<and> rc_committed (rr_receipt ?q) = s" by (simp add: scoped_record_def)
  have ns: "rv_scoped r \<and> w \<noteq> 0 \<and> w < md_next (vl_metadata v) \<and> w \<noteq> nd_id n \<and> i \<noteq> 0 \<and> i \<le> s"
    if "rr_namespace ?q = Some (w, i)" for w i
    using that r r' volume_resolve_Ok(1) [OF resolve ok] ne n(3) inst nz by (auto simp: scoped_record_def split: if_splits)
  have id: "rc_retry (rr_receipt y) \<noteq> rc_retry (rr_receipt ?q)" if "y \<in> set (flatten (rv_records r))" "rr_subject y = rr_subject ?q"
      "map_option fst (rr_namespace y) = map_option fst (rr_namespace ?q)" for y
    using find_retry_None [OF r'(9), of y] that r r' by (simp add: scoped_record_def)
  show "metadata_ok (nxt\<lparr>md_sequence := s\<rparr>)" "md_nodes nxt = md_nodes (vl_metadata v)"
    using new_record_put [OF ok r less q disjI1 [OF st] ns id free put] by blast+
qed

lemma prepare_scoped_ok:
  assumes ok: "metadata_ok (vl_metadata v)" and bank: "vl_bank v \<le> 1" and prep: "prepare_scoped v d subject inst request bs = Ok p"
  shows "prepared_ok v d p"
  using prep
proof (cases rule: prepare_scoped_cases)
  case (replay old)
  then show ?thesis by (auto simp: prepared_ok_def)
next
  case (fresh n r slot s nxt)
  note put = scoped_put_ok [OF ok fresh(1-6,8,9)]
  show ?thesis by (rule prepare_recorded_planned [OF ok bank fresh(9) put(2)]) (use put(1) fresh(5) in simp)
qed

section \<open>Admissions\<close>

definition admission_record_of :: "u64 \<Rightarrow> u64 \<Rightarrow> replacement \<Rightarrow> bytes \<Rightarrow> u64 \<Rightarrow> retained" where
  "admission_record_of subject inst request bs s =
     \<lparr>rr_subject = subject,
      rr_receipt = \<lparr>rc_retry = rp_retry request, rc_id = rp_id request, rc_previous = rp_version request,
        rc_committed = 0, rc_length = of_nat (length bs)\<rparr>,
      rr_namespace = Some (rp_workspace request, if inst = 0 then s else inst),
      rr_bytes = put (replicate max_file 0) 0 bs,
      rr_admission = Some \<lparr>so_number = s, so_state = AdAdmitted, so_terminal = 0, so_prevention = None\<rparr>\<rparr>"

lemma admission_by_retry_unknown:
  assumes "metadata_ok (vl_metadata v)" and "admission_by_retry v subject w rt = Err FsOutcomeUnknown"
  obtains r where "volume_admissions v = Ok r" "md_recovery (vl_metadata v) = Some r" "\<not> vl_poisoned v" "rv_admissions r" "rv_scoped r"
    "subject \<noteq> 0" "w \<noteq> 0" "rt_key rt \<noteq> 0" "rt_lineage rt = rv_lineage r" "rt_epoch rt = rv_epoch r" "find_retry r subject w rt = None"
proof -
  obtain r where r: "volume_admissions v = Ok r" "md_recovery (vl_metadata v) = Some r" "\<not> vl_poisoned v" "rv_admissions r"
    "subject \<noteq> 0" "w \<noteq> 0" "rt_key rt \<noteq> 0" "rt_lineage rt = rv_lineage r"
    "(case find_retry r subject w rt of Some q \<Rightarrow> admission_view q
       | None \<Rightarrow> if rt_epoch rt \<noteq> rv_epoch r then Err FsExpiredEpoch else Err FsOutcomeUnknown) = Err FsOutcomeUnknown"
    using assms(2) by (auto simp: admission_by_retry_def volume_admissions_def current_recovery_def outcome_iffs volume_ready_def split: if_splits)
  have "admission_view q \<noteq> Err FsOutcomeUnknown" for q
    by (auto simp: admission_view_def outcome_iffs Let_def split: prod.splits)
  moreover have "rv_scoped r"
    using metadata_okD(4) [OF assms(1) r(2)] r(4) order.trans [of 3 4 "ucast (header_version (vl_metadata v)) :: u8"]
    by (simp add: recovery_ok_def)
  ultimately show ?thesis using that [of r] r by (cases "find_retry r subject w rt") (auto split: if_splits)
qed

lemma prepare_admission_cases:
  assumes "prepare_admission v d subject inst request bs = Ok p"
  obtains (replay) old where "admission_by_retry v subject (rp_workspace request) (rp_retry request) = Ok old"
      "p = publication_replayed v d (am_status old)"
  | (fresh) m n r slot s nxt t where "admission_by_retry v subject (rp_workspace request) (rp_retry request) = Err FsOutcomeUnknown"
      "volume_resolve v (rp_workspace request) (rp_id request) = Ok m" "volume_stat v (rp_id request) = Ok n" "nd_kind n = KFile"
      "nd_version n = rp_version request" "volume_admissions v = Ok r"
      "free_record r = Ok slot" "checked_add (md_sequence (vl_metadata v)) 1 = Some s" "(if inst = 0 then s else inst) \<le> s"
      "length bs \<le> max_file" "put_record (vl_metadata v) slot (admission_record_of subject inst request bs s) = Ok nxt"
      "publication_metadata v d nxt t = Ok p"
proof -
  have len: "length bs \<le> max_file" using assms by (auto simp: prepare_admission_def split: if_splits)
  show ?thesis
  proof (cases "admission_by_retry v subject (rp_workspace request) (rp_retry request)")
    case (Ok old)
    then show ?thesis using assms that(1) [of old] by (auto simp: prepare_admission_def split: if_splits)
  next
    case (Err e)
    then have e: "e = FsOutcomeUnknown" using assms by (auto simp: prepare_admission_def split: if_splits)
    obtain m n r slot s where h: "volume_resolve v (rp_workspace request) (rp_id request) = Ok m" "volume_writable v (rp_id request) = Ok n"
        "nd_kind n = KFile" "nd_version n = rp_version request" "volume_admissions v = Ok r"
        "free_record r = Ok slot" "checked_add (md_sequence (vl_metadata v)) 1 = Some s"
        "(let i = (if inst = 0 then s else inst) in
             if i > s then Err FsInvalid
             else let q = \<lparr>rr_subject = subject,
                       rr_receipt = \<lparr>rc_retry = rp_retry request, rc_id = rp_id request, rc_previous = rp_version request,
                         rc_committed = 0, rc_length = of_nat (length bs)\<rparr>,
                       rr_namespace = Some (rp_workspace request, i), rr_bytes = put (replicate max_file 0) 0 bs,
                       rr_admission = Some \<lparr>so_number = s, so_state = AdAdmitted, so_terminal = 0, so_prevention = None\<rparr>\<rparr>
                  in and_then (admission_view q) (\<lambda>view.
                     and_then (put_record (vl_metadata v) slot q) (\<lambda>nxt.
                       publication_metadata v d nxt (am_status view)))) = Ok p"
      using assms Err e len unfolding prepare_admission_def
      by (auto simp: and_then_Ok_iff volume_sequence_def simp del: Let_def split: if_splits)
    have inst: "(if inst = 0 then s else inst) \<le> s" using h(8) by (auto simp: Let_def split: if_splits)
    then obtain nxt t where "put_record (vl_metadata v) slot (admission_record_of subject inst request bs s) = Ok nxt"
      "publication_metadata v d nxt t = Ok p"
      using h(8) unfolding Let_def admission_record_of_def [symmetric] by (auto simp: and_then_Ok_iff not_less [symmetric])
    then show ?thesis using that(2) [of m n r slot s nxt t] h inst len Err e by (simp add: volume_writable_Ok)
  next
    case Panic
    then show ?thesis using assms by (auto simp: prepare_admission_def split: if_splits)
  qed
qed

lemma prepare_admission_ok:
  assumes ok: "metadata_ok (vl_metadata v)" and bank: "vl_bank v \<le> 1" and prep: "prepare_admission v d subject inst request bs = Ok p"
  shows "prepared_ok v d p"
  using prep
proof (cases rule: prepare_admission_cases)
  case (replay old)
  then show ?thesis by (auto simp: prepared_ok_def)
next
  case (fresh m n r slot s nxt t)
  let ?q = "admission_record_of subject inst request bs s"
  obtain r' where r': "volume_admissions v = Ok r'" "md_recovery (vl_metadata v) = Some r'" "\<not> vl_poisoned v" "rv_admissions r'" "rv_scoped r'"
    "subject \<noteq> 0" "rp_workspace request \<noteq> 0" "rt_key (rp_retry request) \<noteq> 0" "rt_lineage (rp_retry request) = rv_lineage r'"
    "rt_epoch (rp_retry request) = rv_epoch r'" "find_retry r' subject (rp_workspace request) (rp_retry request) = None"
    using ok fresh(1) by (rule admission_by_retry_unknown)
  have r: "r = r'" using fresh(6) r'(1) by simp
  note w = volume_resolve_Ok [OF fresh(2) ok] and live = volume_stat_live [OF fresh(3)]
  have ne: "rp_workspace request \<noteq> rp_id request" using w(3,4) fresh(3,4) by simp
  have less: "md_sequence (vl_metadata v) < s" using checked_add_1_less [OF fresh(8)] by simp
  then have nz: "s \<noteq> 0" by auto
  have q: "file_record (vl_metadata v) r n bs ?q"
    using live fresh(4,5,10) r r' by (simp add: file_record_def admission_record_of_def)
  have st: "rv_admissions r \<and> rc_committed (rr_receipt ?q) = 0 \<and> (\<exists>w i. rr_namespace ?q = Some (w, i)) \<and>
      rr_admission ?q = Some \<lparr>so_number = s, so_state = AdAdmitted, so_terminal = 0, so_prevention = None\<rparr>"
    using r r'(4) by (simp add: admission_record_of_def)
  have ns: "rv_scoped r \<and> w \<noteq> 0 \<and> w < md_next (vl_metadata v) \<and> w \<noteq> nd_id n \<and> i \<noteq> 0 \<and> i \<le> s"
    if "rr_namespace ?q = Some (w, i)" for w i
    using that r r' volume_resolve_Ok(1) [OF fresh(2) ok] ne live(2) fresh(9) nz by (auto simp: admission_record_of_def split: if_splits)
  have id: "rc_retry (rr_receipt y) \<noteq> rc_retry (rr_receipt ?q)" if "y \<in> set (flatten (rv_records r))" "rr_subject y = rr_subject ?q"
      "map_option fst (rr_namespace y) = map_option fst (rr_namespace ?q)" for y
    using find_retry_None [OF r'(11), of y] that r by (simp add: admission_record_of_def)
  have "metadata_ok (nxt\<lparr>md_sequence := s\<rparr>)"
    using new_record_put(1) [OF ok r'(2) [folded r] less q disjI2 [OF st] ns id fresh(7,11)] by blast
  then show ?thesis using metadata_publication_planned [OF fresh(12) r'(3) bank] fresh(8) by simp
qed

section \<open>Advancing an admission\<close>

lemma advance_record_ok:
  assumes ok: "metadata_ok md" and r: "md_recovery md = Some r" and slot: "slot < retained_slots" "rv_records r ! slot = Some q"
    and a: "rr_admission q = Some a" "so_state a = AdAdmitted" and less: "md_sequence md < s"
    and new: "b = a\<lparr>so_state := AdCancelled, so_terminal := s, so_prevention := Some reason\<rparr> \<and> c = rr_receipt q \<and>
        (rv_reasons r \<or> reason = PrUnknown) \<or>
      b = a\<lparr>so_state := AdCommitted, so_terminal := s\<rparr> \<and> c = (rr_receipt q)\<lparr>rc_committed := s\<rparr>"
    and put: "put_record md slot (q\<lparr>rr_receipt := c, rr_admission := Some b\<rparr>) = Ok nxt"
  shows "metadata_ok (nxt\<lparr>md_sequence := s\<rparr>)" and "md_nodes nxt = md_nodes md"
proof -
  let ?q = "q\<lparr>rr_receipt := c, rr_admission := Some b\<rparr>" and ?ver = "ucast (header_version md) :: u8"
  note rok = metadata_okD(4) [OF ok r]
  have len: "length (rv_records r) = retained_slots" using rok by (simp add: recovery_ok_def)
  have mem: "x \<in> set (flatten (rv_records r))" if "j < retained_slots" "rv_records r ! j = Some x" for j x
    using that len by (auto simp: in_flatten_iff)
  have qok: "retained_ok r (md_sequence md) (md_next md) ?ver q" using rok mem [OF slot] by (simp add: recovery_ok_def)
  have aok: "admission_ok (md_sequence md) ?ver (rr_receipt q) (rr_namespace q) a" using qok a(1) by (simp add: retained_ok_def Let_def)
  have num: "so_number a \<le> md_sequence md" "so_number a < s" "so_prevention a = None" "rc_committed (rr_receipt q) = 0"
    using aok a(2) less by (auto simp: admission_ok_def terminal_bad_def)
  have ver: "?ver = 5 \<longleftrightarrow> rv_reasons r" using rok by (simp add: recovery_ok_def)
  have bok: "admission_ok s ?ver c (rr_namespace q) b"
    using new aok num ver less by (auto simp: admission_ok_def terminal_bad_def reason_byte_def)
  have "rc_retry c = rc_retry (rr_receipt q)" "rc_id c = rc_id (rr_receipt q)" "rc_previous c = rc_previous (rr_receipt q)"
    "rc_length c = rc_length (rr_receipt q)" "rc_committed c \<le> s" "so_number b = so_number a"
    using new num(4) by auto
  note c = this
  have ok2: "retained_ok r s (md_next md) ?ver ?q" using qok c bok a(1) unfolding retained_ok_def Let_def by simp
  have nc: "\<not> clashes ?q x" if j: "j < retained_slots" "j \<noteq> slot" "rv_records r ! j = Some x" for j x
  proof (rule fresh_no_clash)
    have "retained_ok r (md_sequence md) (md_next md) ?ver x" using rok mem [OF j(1,3)] by (simp add: recovery_ok_def)
    then show "marks_below x (md_sequence md)" by (rule retained_ok_marks)
    have two: "(slot = 0 \<and> j = 1) \<or> (slot = 1 \<and> j = 0)" using slot(1) j(1,2) by auto
    have "\<not> clashes q x"
      using rok two slot(2) j(3) clashes_sym unfolding recovery_ok_def by (metis One_nat_def)
    then have old: "n = 0 \<or> n \<notin> set (marks (rr_receipt x) (rr_admission x))" if "n \<in> set (marks (rr_receipt q) (rr_admission q))" for n
      using that by (auto simp: clashes_def list_ex_iff)
    show "n = 0 \<or> md_sequence md < n \<or> n \<notin> set (marks (rr_receipt x) (rr_admission x))"
      if "n \<in> set (marks (rr_receipt ?q) (rr_admission ?q))" for n
      using that new less old [of "so_number a"] num a(1) by (auto simp: marks_def)
    show "rc_retry (rr_receipt x) \<noteq> rc_retry (rr_receipt ?q)"
      if "rr_subject x = rr_subject ?q" "map_option fst (rr_namespace x) = map_option fst (rr_namespace ?q)"
      using that \<open>\<not> clashes q x\<close> c(1) by (auto simp: clashes_def)
  qed
  show "metadata_ok (nxt\<lparr>md_sequence := s\<rparr>)" "md_nodes nxt = md_nodes md"
    by (rule put_record_ok [OF ok r put less_imp_le [OF less] slot(1) ok2], rule nc, assumption+)+
qed

lemma admission_slot_Ok:
  assumes "admission_slot v subject i = Ok slot"
  obtains r q a where "volume_admissions v = Ok r" "md_recovery (vl_metadata v) = Some r" "\<not> vl_poisoned v" "slot < length (rv_records r)"
    "rv_records r ! slot = Some q" "rr_admission q = Some a" "rr_subject q = subject" "so_number a = ai_number i"
proof -
  obtain r where r: "volume_admissions v = Ok r" "position (\<lambda>x. case x of None \<Rightarrow> False
       | Some q \<Rightarrow> rr_subject q = subject \<and> (case rr_admission q of None \<Rightarrow> False | Some a \<Rightarrow> so_number a = ai_number i))
         (rv_records r) = Some slot"
    using assms by (auto simp: admission_slot_def and_then_Ok_iff split: if_splits)
  moreover have "md_recovery (vl_metadata v) = Some r" "\<not> vl_poisoned v"
    using r(1) by (auto simp: volume_admissions_def current_recovery_def and_then_Ok_iff volume_ready_def split: if_splits)
  ultimately show ?thesis using that by (auto simp: position_Some_iff split: option.splits)
qed

lemma admission_view_Ok:
  assumes "admission_view q = Ok w" and "rr_admission q = Some a"
  shows "as_state (am_status w) = so_state a" and "\<exists>i. rr_namespace q = Some (rp_workspace (am_request w), i)"
    and "am_bytes w = take (unat (rc_length (rr_receipt q))) (rr_bytes q)" and "rp_id (am_request w) = rc_id (rr_receipt q)"
  using assms by (auto simp: admission_view_def and_then_Ok_iff Let_def)

lemma prepare_cancelled_ok:
  assumes ok: "metadata_ok (vl_metadata v)" and bank: "vl_bank v \<le> 1" and prep: "prepare_cancelled v d subject i reason = Ok p"
    and reason: "\<And>r. md_recovery (vl_metadata v) = Some r \<Longrightarrow> rv_reasons r \<or> reason = PrUnknown"
  shows "prepared_ok v d p"
proof -
  obtain slot view where slot: "admission_slot v subject i = Ok slot" and view: "admission_by_id v subject i = Ok view"
    and rest: "(let old = am_status view in
       if as_state old \<noteq> AdAdmitted then Ok (publication_replayed v d old)
       else and_then (ok_or FsExhausted (checked_add (volume_sequence v) 1)) (\<lambda>terminal.
         and_then (expect (md_recovery (vl_metadata v))) (\<lambda>r.
         and_then (expect (rv_records r ! slot)) (\<lambda>q.
         and_then (expect (rr_admission q)) (\<lambda>a.
         and_then (put_record (vl_metadata v) slot (q\<lparr>rr_admission :=
             Some (a\<lparr>so_state := AdCancelled, so_terminal := terminal, so_prevention := Some reason\<rparr>)\<rparr>)) (\<lambda>nxt.
           publication_metadata v d nxt
             (old\<lparr>as_state := AdCancelled, as_terminal := terminal, as_prevention := Some reason\<rparr>))))))) = Ok p"
    using prep unfolding prepare_cancelled_def and_then_Ok_iff [of "admission_slot v subject i"] and_then_Ok_iff [of "admission_by_id v subject i"] by blast
  obtain r q a where r: "volume_admissions v = Ok r" "md_recovery (vl_metadata v) = Some r" "\<not> vl_poisoned v" "slot < length (rv_records r)"
    "rv_records r ! slot = Some q" "rr_admission q = Some a" using slot by (rule admission_slot_Ok) blast
  have w: "admission_view q = Ok view" using view slot r(1,5) by (simp add: admission_by_id_def admission_record_def)
  show ?thesis
  proof (cases "so_state a = AdAdmitted")
    case False
    then have "p = publication_replayed v d (am_status view)" using rest admission_view_Ok(1) [OF w r(6)] by (simp add: Let_def)
    then show ?thesis by (auto simp: prepared_ok_def)
  next
    case True
    obtain s nxt t where s: "checked_add (md_sequence (vl_metadata v)) 1 = Some s"
      and put: "put_record (vl_metadata v) slot (q\<lparr>rr_receipt := rr_receipt q, rr_admission :=
             Some (a\<lparr>so_state := AdCancelled, so_terminal := s, so_prevention := Some reason\<rparr>)\<rparr>) = Ok nxt"
      and p: "publication_metadata v d nxt t = Ok p"
      using rest admission_view_Ok(1) [OF w r(6)] True r(2,5,6) by (auto simp: Let_def and_then_Ok_iff volume_sequence_def)
    have len: "slot < retained_slots" using r(4) metadata_okD(4) [OF ok r(2)] by (simp add: recovery_ok_def)
    have less: "md_sequence (vl_metadata v) < s" using checked_add_1_less [OF s] by simp
    have "metadata_ok (nxt\<lparr>md_sequence := s\<rparr>)"
      by (rule advance_record_ok(1) [OF ok r(2) len r(5,6) True less _ put]) (use reason [OF r(2)] in blast)
    then show ?thesis using metadata_publication_planned [OF p r(3) bank] s by simp
  qed
qed

lemma reasons_enabled_Ok:
  assumes "prevention_reasons_enabled v = Ok e"
  shows "\<exists>r. md_recovery (vl_metadata v) = Some r \<and> rv_reasons r = e"
  using assms by (auto simp: prevention_reasons_enabled_def volume_admissions_def current_recovery_def and_then_Ok_iff split: if_splits)

lemma prepare_cancellation_ok:
  assumes "metadata_ok (vl_metadata v)" and "vl_bank v \<le> 1" and "prepare_cancellation v d subject i = Ok p"
  shows "prepared_ok v d p"
proof -
  obtain e where e: "prevention_reasons_enabled v = Ok e" "prepare_cancelled v d subject i (if e then PrRequested else PrUnknown) = Ok p"
    using assms(3) by (auto simp: prepare_cancellation_def and_then_Ok_iff)
  show ?thesis by (rule prepare_cancelled_ok [OF assms(1,2) e(2)]) (use reasons_enabled_Ok [OF e(1)] in auto)
qed

lemma prepare_prevention_ok:
  assumes "metadata_ok (vl_metadata v)" and "vl_bank v \<le> 1" and "prepare_prevention v d subject i reason = Ok p"
  shows "prepared_ok v d p"
proof -
  have e: "prevention_reasons_enabled v = Ok True" "prepare_cancelled v d subject i reason = Ok p"
    using assms(3) by (auto simp: prepare_prevention_def and_then_Ok_iff split: if_splits)
  show ?thesis by (rule prepare_cancelled_ok [OF assms(1,2) e(2)]) (use reasons_enabled_Ok [OF e(1)] in auto)
qed

lemma prepare_admitted_cases:
  assumes "prepare_admitted v d subject i = Ok p"
  obtains (replay) t where "p = publication_replayed v d t"
  | (fresh) r q a view slot s nxt n where "volume_admissions v = Ok r" "md_recovery (vl_metadata v) = Some r" "\<not> vl_poisoned v"
      "slot < length (rv_records r)" "rv_records r ! slot = Some q" "rr_admission q = Some a" "so_state a = AdAdmitted"
      "admission_view q = Ok view" "volume_resolve v (rp_workspace (am_request view)) (rc_id (rr_receipt q)) = Ok n"
      "checked_add (md_sequence (vl_metadata v)) 1 = Some s"
      "put_record (vl_metadata v) slot (q\<lparr>rr_receipt := (rr_receipt q)\<lparr>rc_committed := s\<rparr>,
         rr_admission := Some (a\<lparr>so_state := AdCommitted, so_terminal := s\<rparr>)\<rparr>) = Ok nxt"
      "prepare_recorded v d (rc_id (rr_receipt q)) (rc_previous (rr_receipt q)) (am_bytes view) nxt
         (\<lambda>_. (rr_receipt q)\<lparr>rc_committed := s\<rparr>) = Ok p"
proof -
  obtain slot where slot: "admission_slot v subject i = Ok slot"
    using assms by (auto simp: prepare_admitted_def and_then_Ok_iff)
  obtain r q a where r: "volume_admissions v = Ok r" "md_recovery (vl_metadata v) = Some r" "\<not> vl_poisoned v" "slot < length (rv_records r)"
    "rv_records r ! slot = Some q" "rr_admission q = Some a" using slot by (rule admission_slot_Ok) blast
  have "admission_record v slot = Ok q" using r(1,5) by (simp add: admission_record_def)
  then obtain view where w: "admission_view q = Ok view" and rest: "(case as_state (am_status view) of
          AdCancelled \<Rightarrow> Err FsCancelled
        | AdCommitted \<Rightarrow> Ok (publication_replayed v d (rr_receipt q))
        | AdAdmitted \<Rightarrow>
            and_then (volume_resolve v (rp_workspace (am_request view)) (rc_id (rr_receipt q))) (\<lambda>_.
            and_then (ok_or FsExhausted (checked_add (volume_sequence v) 1)) (\<lambda>s.
            and_then (expect (rr_admission q)) (\<lambda>a.
              let c = (rr_receipt q)\<lparr>rc_committed := s\<rparr>;
                  q = q\<lparr>rr_receipt := c, rr_admission := Some (a\<lparr>so_state := AdCommitted, so_terminal := s\<rparr>)\<rparr>
              in and_then (put_record (vl_metadata v) slot q) (\<lambda>nxt.
                 prepare_recorded v d (rc_id c) (rc_previous c) (am_bytes view) nxt (\<lambda>_. c)))))) = Ok p"
    using assms slot unfolding prepare_admitted_def by (cases "admission_view q") simp_all
  note st = admission_view_Ok(1) [OF w r(6)]
  show ?thesis
  proof (cases "so_state a")
    case AdAdmitted
    then obtain n s nxt where "volume_resolve v (rp_workspace (am_request view)) (rc_id (rr_receipt q)) = Ok n"
      "checked_add (md_sequence (vl_metadata v)) 1 = Some s"
      "put_record (vl_metadata v) slot (q\<lparr>rr_receipt := (rr_receipt q)\<lparr>rc_committed := s\<rparr>,
         rr_admission := Some (a\<lparr>so_state := AdCommitted, so_terminal := s\<rparr>)\<rparr>) = Ok nxt"
      "prepare_recorded v d (rc_id (rr_receipt q)) (rc_previous (rr_receipt q)) (am_bytes view) nxt
         (\<lambda>_. (rr_receipt q)\<lparr>rc_committed := s\<rparr>) = Ok p"
      using rest st r(6) by (auto simp: Let_def and_then_Ok_iff volume_sequence_def)
    then show ?thesis using that(2) r AdAdmitted w by blast
  qed (use rest st that(1) in auto)
qed

lemma prepare_admitted_ok:
  assumes ok: "metadata_ok (vl_metadata v)" and bank: "vl_bank v \<le> 1" and prep: "prepare_admitted v d subject i = Ok p"
  shows "prepared_ok v d p"
  using prep
proof (cases rule: prepare_admitted_cases)
  case (fresh r q a view slot s nxt n)
  have len: "slot < retained_slots" using fresh(4) metadata_okD(4) [OF ok fresh(2)] by (simp add: recovery_ok_def)
  have less: "md_sequence (vl_metadata v) < s" using checked_add_1_less [OF fresh(10)] by simp
  have "metadata_ok (nxt\<lparr>md_sequence := s\<rparr>)" "md_nodes nxt = md_nodes (vl_metadata v)"
    by (rule advance_record_ok [OF ok fresh(2) len fresh(5,6,7) less _ fresh(11)], blast)+
  then show ?thesis using prepare_recorded_planned [OF ok bank fresh(12)] fresh(10) by simp
qed (auto simp: prepared_ok_def)

end
