(* ===== verification/Panic_Free.thy ===== *)
theory Panic_Free
  imports Operations
begin

text \<open>
  No \<open>expect\<close> of the volume's operations can fail. The plans and preparations of \<open>mutations.rs\<close>, \<open>writer.rs\<close>,
  \<open>recovery/operations.rs\<close>, \<open>recovery/scoped.rs\<close> and \<open>admission\<close> never panic, whatever the volume and the
  arguments, and reading through a disk that answers never does either.
\<close>

named_theorems panic_free

lemma and_then_panic_free:
  assumes "m \<noteq> Panic" and "\<And>x. m = Ok x \<Longrightarrow> f x \<noteq> Panic"
  shows "and_then m f \<noteq> Panic"
  using assms by (auto simp: and_then_Panic_iff)

section \<open>Queries\<close>

lemma volume_ready_panic_free [panic_free]: "volume_ready v \<noteq> Panic"
  by (simp add: volume_ready_def)

lemma volume_stat_panic_free [panic_free]: "volume_stat v i \<noteq> Panic"
  by (auto simp: volume_stat_def and_then_Panic_iff volume_ready_panic_free)

lemma directory_check_panic_free [panic_free]: "directory_check v i \<noteq> Panic"
  by (auto simp: directory_check_def and_then_Panic_iff panic_free)

lemma volume_lookup_panic_free [panic_free]: "volume_lookup v i nm \<noteq> Panic"
  by (auto simp: volume_lookup_def and_then_Panic_iff panic_free)

lemma volume_writable_panic_free [panic_free]: "volume_writable v i \<noteq> Panic"
  by (auto simp: volume_writable_def and_then_Panic_iff panic_free)

lemma volume_resolve_panic_free [panic_free]: "volume_resolve v w i \<noteq> Panic"
  by (auto simp: volume_resolve_def and_then_Panic_iff panic_free)

lemma current_recovery_panic_free [panic_free]: "current_recovery v \<noteq> Panic"
  by (auto simp: current_recovery_def and_then_Panic_iff panic_free)

lemma volume_admissions_panic_free [panic_free]: "volume_admissions v \<noteq> Panic"
  by (auto simp: volume_admissions_def and_then_Panic_iff panic_free)

lemma scoped_recovery_panic_free [panic_free]: "scoped_recovery v \<noteq> Panic"
  by (auto simp: scoped_recovery_def and_then_Panic_iff panic_free)

lemma reasons_enabled_panic_free [panic_free]: "prevention_reasons_enabled v \<noteq> Panic"
  by (auto simp: prevention_reasons_enabled_def and_then_Panic_iff panic_free)

lemma recovery_find_panic_free [panic_free]: "recovery_find r subject rt \<noteq> Panic"
  by (auto simp: recovery_find_def split: option.splits)

lemma recovery_new_panic_free [panic_free]: "recovery_new lin \<noteq> Panic"
  by (simp add: recovery_new_def)

lemma free_record_panic_free [panic_free]: "free_record r \<noteq> Panic"
  by (simp add: free_record_def)

lemma retained_operation_panic_free [panic_free]: "retained_operation q \<noteq> Panic"
  by (auto simp: retained_operation_def and_then_Panic_iff split: option.splits admission_state.splits)

lemma operation_by_retry_panic_free [panic_free]: "operation_by_retry v subject w rt \<noteq> Panic"
  by (auto simp: operation_by_retry_def and_then_Panic_iff panic_free split: option.splits)

lemma admission_view_panic_free [panic_free]: "admission_view q \<noteq> Panic"
  by (auto simp: admission_view_def and_then_Panic_iff Let_def)

lemma admission_slot_panic_free [panic_free]: "admission_slot v subject i \<noteq> Panic"
  by (auto simp: admission_slot_def and_then_Panic_iff panic_free)

lemma admission_record_panic_free [panic_free]: "admission_slot v subject i = Ok slot \<Longrightarrow> admission_record v slot \<noteq> Panic"
  by (erule admission_slot_Ok) (simp add: admission_record_def)

lemma admission_by_id_panic_free [panic_free]: "admission_by_id v subject i \<noteq> Panic"
  by (auto simp: admission_by_id_def and_then_Panic_iff panic_free)

lemma admission_by_retry_panic_free [panic_free]: "admission_by_retry v subject w rt \<noteq> Panic"
  by (auto simp: admission_by_retry_def and_then_Panic_iff panic_free split: option.splits)

section \<open>Plans\<close>

lemma put_record_panic_free [panic_free]: "md_recovery md = Some r \<Longrightarrow> put_record md slot q \<noteq> Panic"
  by (simp add: put_record_def)

lemma create_plan_panic_free [panic_free]: "create_plan v parent nm k \<noteq> Panic"
  by (auto simp: create_plan_def and_then_Panic_iff panic_free Let_def split: outcome.splits)

lemma remove_plan_panic_free [panic_free]: "remove_plan v i \<noteq> Panic"
  by (auto simp: remove_plan_def and_then_Panic_iff panic_free)

lemma prepare_recorded_panic_free [panic_free]: "prepare_recorded v d i version bs nxt out \<noteq> Panic"
  by (auto simp: prepare_recorded_def and_then_Panic_iff panic_free Let_def)

lemma prepare_replace_panic_free [panic_free]: "prepare_replace v d i version bs \<noteq> Panic"
  by (simp add: prepare_replace_def panic_free)

lemma publication_metadata_panic_free [panic_free]: "publication_metadata v d nxt t \<noteq> Panic"
  by (auto simp: publication_metadata_def and_then_Panic_iff)

lemma operation_unknown_recovery:
  "operation_by_retry v subject w rt = Err FsOutcomeUnknown \<Longrightarrow> \<exists>r. md_recovery (vl_metadata v) = Some r"
  by (erule operation_by_retry_unknown) blast

lemma volume_admissions_recovery: "volume_admissions v = Ok r \<Longrightarrow> md_recovery (vl_metadata v) = Some r"
  by (auto simp: volume_admissions_def current_recovery_def and_then_Ok_iff split: if_splits)

lemma prepare_scoped_panic_free [panic_free]: "prepare_scoped v d subject inst request bs \<noteq> Panic"
proof -
  have "prepare_scoped v d subject inst request bs \<noteq> Panic"
    if unknown: "operation_by_retry v subject (rp_workspace request) (rp_retry request) = Err FsOutcomeUnknown"
  proof -
    obtain r where "md_recovery (vl_metadata v) = Some r" using operation_unknown_recovery [OF unknown] by blast
    then show ?thesis
      using unknown by (auto simp: prepare_scoped_def and_then_Panic_iff panic_free Let_def)
  qed
  moreover have "prepare_scoped v d subject inst request bs \<noteq> Panic"
    if "operation_by_retry v subject (rp_workspace request) (rp_retry request) \<noteq> Err FsOutcomeUnknown"
    using that operation_by_retry_panic_free [of v subject "rp_workspace request" "rp_retry request"]
    by (auto simp: prepare_scoped_def and_then_Panic_iff volume_ready_panic_free split: outcome.splits if_splits)
  ultimately show ?thesis by blast
qed

lemma prepare_admission_panic_free [panic_free]: "prepare_admission v d subject inst request bs \<noteq> Panic"
proof (cases "admission_by_retry v subject (rp_workspace request) (rp_retry request)")
  case (Err e)
  then show ?thesis
    by (auto simp: prepare_admission_def and_then_Panic_iff panic_free Let_def dest!: volume_admissions_recovery)
qed (simp_all add: prepare_admission_def admission_by_retry_panic_free)

lemma prepare_cancelled_panic_free [panic_free]: "prepare_cancelled v d subject i reason \<noteq> Panic"
  unfolding prepare_cancelled_def Let_def
proof (intro and_then_panic_free admission_slot_panic_free admission_by_id_panic_free)
  fix slot view assume "admission_slot v subject i = Ok slot"
  then obtain r q a where "md_recovery (vl_metadata v) = Some r" "rv_records r ! slot = Some q" "rr_admission q = Some a"
    by (rule admission_slot_Ok)
  then show "(if as_state (am_status view) \<noteq> AdAdmitted then Ok (publication_replayed v d (am_status view))
       else and_then (ok_or FsExhausted (checked_add (volume_sequence v) 1)) (\<lambda>terminal.
         and_then (expect (md_recovery (vl_metadata v))) (\<lambda>r.
         and_then (expect (rv_records r ! slot)) (\<lambda>q.
         and_then (expect (rr_admission q)) (\<lambda>a.
         and_then (put_record (vl_metadata v) slot (q\<lparr>rr_admission :=
             Some (a\<lparr>so_state := AdCancelled, so_terminal := terminal, so_prevention := Some reason\<rparr>)\<rparr>)) (\<lambda>nxt.
           publication_metadata v d nxt
             ((am_status view)\<lparr>as_state := AdCancelled, as_terminal := terminal, as_prevention := Some reason\<rparr>))))))) \<noteq> Panic"
    by (auto simp: and_then_Panic_iff panic_free)
qed

lemma prepare_cancellation_panic_free [panic_free]: "prepare_cancellation v d subject i \<noteq> Panic"
  by (auto simp: prepare_cancellation_def and_then_Panic_iff panic_free)

lemma prepare_prevention_panic_free [panic_free]: "prepare_prevention v d subject i reason \<noteq> Panic"
  by (auto simp: prepare_prevention_def and_then_Panic_iff panic_free)

lemma prepare_admitted_panic_free [panic_free]: "prepare_admitted v d subject i \<noteq> Panic"
  unfolding prepare_admitted_def Let_def
proof (intro and_then_panic_free admission_slot_panic_free)
  fix slot q assume slot: "admission_slot v subject i = Ok slot" and q: "admission_record v slot = Ok q"
  from slot obtain r q' a where r: "volume_admissions v = Ok r" "md_recovery (vl_metadata v) = Some r" "rv_records r ! slot = Some q'"
    "rr_admission q' = Some a" by (rule admission_slot_Ok)
  then have "q' = q" using q by (simp add: admission_record_def)
  then show "(case as_state (am_status view) of
          AdCancelled \<Rightarrow> Err FsCancelled
        | AdCommitted \<Rightarrow> Ok (publication_replayed v d (rr_receipt q))
        | AdAdmitted \<Rightarrow>
            and_then (volume_resolve v (rp_workspace (am_request view)) (rc_id (rr_receipt q))) (\<lambda>_.
            and_then (ok_or FsExhausted (checked_add (volume_sequence v) 1)) (\<lambda>s.
            and_then (expect (rr_admission q)) (\<lambda>a.
              and_then (put_record (vl_metadata v) slot (q\<lparr>rr_receipt := (rr_receipt q)\<lparr>rc_committed := s\<rparr>,
                  rr_admission := Some (a\<lparr>so_state := AdCommitted, so_terminal := s\<rparr>)\<rparr>)) (\<lambda>nxt.
                 prepare_recorded v d (rc_id ((rr_receipt q)\<lparr>rc_committed := s\<rparr>)) (rc_previous ((rr_receipt q)\<lparr>rc_committed := s\<rparr>))
                   (am_bytes view) nxt (\<lambda>_. (rr_receipt q)\<lparr>rc_committed := s\<rparr>)))))) \<noteq> Panic" for view
    using r(2,4) by (auto simp: and_then_Panic_iff panic_free split: admission_state.splits)
qed (auto simp: panic_free)

section \<open>Reading\<close>

lemma validate_panic_free:
  assumes "\<And>n. n \<in> set (md_nodes md) \<Longrightarrow> node_ok n"
  shows "and_then (metadata_validate md) (\<lambda>_. Ok md) \<noteq> Panic"
  using metadata_validate_error(1) [OF assms] by (auto simp: and_then_Panic_iff)

context durable_disk
begin

lemma io_then_panic_free:
  assumes "fst m \<noteq> Panic" and "\<And>x d. fst m = Ok x \<Longrightarrow> fst (f x d) \<noteq> Panic"
  shows "fst (io_then m f) \<noteq> Panic"
proof (cases m)
  case (Pair r d)
  then show ?thesis using assms by (cases r) auto
qed

lemma read_sectors_panic_free: "fst (read_sectors D s n d) \<noteq> Panic"
proof (induction n arbitrary: s d)
  case (Suc n)
  show ?case unfolding read_sectors.simps
    by (intro io_then_panic_free answers(1) Suc) simp
qed simp

lemma scratch_loop_panic_free: "fst (scratch_loop D expected ss d) \<noteq> Panic"
proof (induction ss arbitrary: d)
  case (Cons s ss)
  show ?case unfolding scratch_loop.simps using Cons by (intro io_then_panic_free answers(1)) simp
qed simp

lemma read_recovery_panic_free: "fst (read_recovery D bank b md d) \<noteq> Panic"
proof -
  have "fst (io_then (read_sectors D (recovery_sector bank) recovery_sectors d) (\<lambda>records d.
        if crc records \<noteq> u32_at b 32 then (Err FsCorrupt, d)
        else (and_then (recovery_decode records (md_sequence md) (md_next md) (b ! 8)) (\<lambda>r.
          Ok (md\<lparr>md_recovery := Some r\<rparr>)), d))) \<noteq> Panic"
    by (intro io_then_panic_free read_sectors_panic_free) (auto simp: and_then_Panic_iff recovery_decode_error)
  then show ?thesis unfolding read_recovery_def by auto
qed

lemma read_recovery_nodes: "fst (read_recovery D bank b md d) = Ok md' \<Longrightarrow> md_nodes md' = md_nodes md"
  unfolding read_recovery_def
  by (cases "read_sectors D (recovery_sector bank) recovery_sectors d"; cases "fst (read_sectors D (recovery_sector bank) recovery_sectors d)")
    (auto simp: and_then_Ok_iff split: if_splits)

lemma metadata_read_panic_free: "fst (metadata_read D bank d) \<noteq> Panic"
proof -
  have valid: "fst (io_then (read_recovery D bank b \<lparr>md_sequence = u64_at b 12, md_next = u32_at b 20, md_nodes = ns, md_recovery = None\<rparr> d)
      (\<lambda>md d. (and_then (metadata_validate md) (\<lambda>_. Ok md), d))) \<noteq> Panic" if "nodes_decode bs [0..<objects] = Ok ns" for bs b ns d
    using nodes_decode_accepted [OF that]
    by (intro io_then_panic_free read_recovery_panic_free) (auto intro!: validate_panic_free dest!: read_recovery_nodes)
  have nodes: "fst (io_then (nodes_decode bs [0..<objects], d) (\<lambda>ns d.
      io_then (read_recovery D bank b \<lparr>md_sequence = u64_at b 12, md_next = u32_at b 20, md_nodes = ns, md_recovery = None\<rparr> d)
      (\<lambda>md d. (and_then (metadata_validate md) (\<lambda>_. Ok md), d)))) \<noteq> Panic" for bs b d
    by (rule io_then_panic_free) (use valid in \<open>simp_all add: nodes_decode_error(1) del: upt_Suc\<close>)
  have sectors: "fst (io_then (read_sectors D (header_sector bank + 1) 4 d) (\<lambda>bs d. if crc bs \<noteq> u32_at b 24 then (Err FsCorrupt, d)
      else io_then (nodes_decode bs [0..<objects], d) (\<lambda>ns d.
      io_then (read_recovery D bank b \<lparr>md_sequence = u64_at b 12, md_next = u32_at b 20, md_nodes = ns, md_recovery = None\<rparr> d)
      (\<lambda>md d. (and_then (metadata_validate md) (\<lambda>_. Ok md), d))))) \<noteq> Panic" for b d
    by (rule io_then_panic_free [OF read_sectors_panic_free]) (use nodes in \<open>simp del: upt_Suc\<close>)
  show ?thesis
    unfolding metadata_read_def Let_def by (rule io_then_panic_free [OF answers(1)]) (use sectors in \<open>simp del: upt_Suc\<close>)
qed

lemma read_versioned_panic_free: "fst (fst (read_versioned D v i expected offset output d)) \<noteq> Panic"
proof -
  have "r \<noteq> Panic" if "read_data D slot bank d = (r, d')" for slot bank r d'
    using that read_sectors_panic_free [of "data_sector slot bank" 2 d] by (simp add: read_data_def)
  then show ?thesis
    using volume_stat_panic_free [of v i] unfolding read_versioned_def Let_def
    by (auto split: outcome.splits option.splits prod.splits)
qed

end

end
