(* ===== verification/Volume_System.thy ===== *)
theory Volume_System
  imports Panic_Free
begin

text \<open>
  The volume as a whole: all operations of a mounted volume on one disk, in any order. A state is safe when
  the mounted generation survives every crash and the contents of its files are settled. From a safe state
  every operation returns, and it leaves the volume safe again or fenced; a fenced volume refuses everything.
\<close>

section \<open>Operations\<close>

datatype volume_op =
    OpCreate u32 bytes kind
  | OpRemove u32
  | OpReplace u32 u64 bytes
  | OpTracked u64 retry u32 u64 bytes
  | OpScoped u64 u64 replacement bytes
  | OpAdmit u64 u64 replacement bytes
  | OpCancel u64 admission_id
  | OpPrevent u64 admission_id prevention_reason
  | OpExecute u64 admission_id
  | OpEpoch
  | OpEnableRecovery bytes
  | OpEnableOperations
  | OpEnableAdmissions
  | OpEnableReasons
  | OpRead u32 "u64 option" nat bytes

definition forget :: "('d, 'a) on_volume \<Rightarrow> ('d, unit) on_volume" where
  "forget x = (case x of (r, v, d) \<Rightarrow> (and_then r (\<lambda>_. Ok ()), v, d))"

fun op_run :: "'d disk \<Rightarrow> volume_op \<Rightarrow> volume \<Rightarrow> 'd \<Rightarrow> ('d, unit) on_volume option" where
  "op_run D (OpCreate parent nm k) v d = Some (forget (volume_create D v parent nm k d))"
| "op_run D (OpRemove i) v d = Some (volume_remove D v i d)"
| "op_run D (OpReplace i version bs) v d = map_option forget (volume_replace D v i version bs d)"
| "op_run D (OpTracked subject rt i version bs) v d = map_option forget (replace_tracked D v subject rt i version bs d)"
| "op_run D (OpScoped subject inst request bs) v d = map_option forget (replace_scoped D v subject inst request bs d)"
| "op_run D (OpAdmit subject inst request bs) v d = map_option forget (admit_replace D v subject inst request bs d)"
| "op_run D (OpCancel subject i) v d = map_option forget (cancel_admission D v subject i d)"
| "op_run D (OpPrevent subject i reason) v d = map_option forget (run_to_volume D v d (prepare_prevention v d subject i reason))"
| "op_run D (OpExecute subject i) v d = map_option forget (run_to_volume D v d (prepare_admitted v d subject i))"
| "op_run D OpEpoch v d = Some (forget (advance_epoch D v d))"
| "op_run D (OpEnableRecovery lin) v d = Some (enable_recovery D v lin d)"
| "op_run D OpEnableOperations v d = Some (enable_operations D v d)"
| "op_run D OpEnableAdmissions v d = Some (enable_admissions D v d)"
| "op_run D OpEnableReasons v d = Some (enable_prevention_reasons D v d)"
| "op_run D (OpRead i expected offset output) v d =
     (case read_versioned D v i expected offset output d of ((r, _), d) \<Rightarrow> Some (and_then r (\<lambda>_. Ok ()), v, d))"

section \<open>Safe states\<close>

definition volume_safe :: "('d \<Rightarrow> nat \<Rightarrow> bytes) \<Rightarrow> ('d \<Rightarrow> nat \<Rightarrow> bytes) \<Rightarrow> 'd \<Rightarrow> volume \<Rightarrow> bool" where
  "volume_safe live durable d v \<longleftrightarrow>
     \<not> vl_poisoned v \<and> generation_safe live durable d v \<and> contents_settled live durable d (vl_metadata v)"

lemma volume_safeD:
  assumes "volume_safe live durable d v"
  shows "\<not> vl_poisoned v" "generation_safe live durable d v" "metadata_ok (vl_metadata v)" "vl_bank v \<le> 1"
  using assms by (auto simp: volume_safe_def generation_safe_def)

text \<open>What an operation may leave behind: success in a safe state, a refusal that changed no sector, or the
  fence after a failed command.\<close>

definition settles :: "('d \<Rightarrow> nat \<Rightarrow> bytes) \<Rightarrow> ('d \<Rightarrow> nat \<Rightarrow> bytes) \<Rightarrow> volume \<Rightarrow> 'd \<Rightarrow> ('d, 'a) on_volume \<Rightarrow> bool" where
  "settles live durable v d x \<longleftrightarrow>
     (case x of (r, v', d') \<Rightarrow> r \<noteq> Panic \<and> (
        is_ok r \<and> volume_safe live durable d' v' \<or>
        \<not> is_ok r \<and> v' = v \<and> live d' = live d \<and> durable d' = durable d \<or>
        \<not> is_ok r \<and> vl_poisoned v'))"

definition rests :: "('d \<Rightarrow> nat \<Rightarrow> bytes) \<Rightarrow> ('d \<Rightarrow> nat \<Rightarrow> bytes) \<Rightarrow> ('d, 'a) on_volume \<Rightarrow> bool" where
  "rests live durable x \<longleftrightarrow> (case x of (r, v', d') \<Rightarrow>
     r \<noteq> Panic \<and> (volume_safe live durable d' v' \<or> \<not> is_ok r \<and> vl_poisoned v'))"

lemma forget_settles: "settles live durable v d (forget x) = settles live durable v d x"
  by (auto simp: settles_def forget_def is_ok_iff and_then_Ok_iff and_then_Panic_iff split: prod.splits)

lemma refused_settles: "settles live durable v d (Err e, v, d)"
  by (simp add: settles_def)

lemma kept_settles: "volume_safe live durable d v \<Longrightarrow> settles live durable v d (Ok t, v, d)"
  by (simp add: settles_def)

lemma volume_safe_cong:
  assumes "volume_safe live durable d v" and "live d' = live d" and "durable d' = durable d"
  shows "volume_safe live durable d' v"
  using assms by (simp add: volume_safe_def generation_safe_def contents_settled_def crash_image_def sector_values_def)

lemma settles_cong:
  assumes "settles live durable v d1 x" and "live d1 = live d" and "durable d1 = durable d"
  shows "settles live durable v d x"
  using assms by (auto simp: settles_def split: prod.splits)

lemma settles_rests:
  assumes "volume_safe live durable d v" and "settles live durable v d x"
  shows "rests live durable x"
  using assms volume_safe_cong [OF assms(1)] by (auto simp: settles_def rests_def split: prod.splits)

lemma commit_outcome:
  "volume_commit D v nxt d =
     (case checked_add (md_sequence (vl_metadata v)) 1 of
        None \<Rightarrow> (Err FsExhausted, v, d)
      | Some s \<Rightarrow> publish_outcome () v (nxt\<lparr>md_sequence := s\<rparr>)
          (run_commands D (metadata_commands (nxt\<lparr>md_sequence := s\<rparr>) (1 - vl_bank v)) d))"
  by (auto simp: volume_commit_def Let_def metadata_write_commands split: option.splits prod.splits outcome.splits)

context durable_disk
begin

lemma publish_settles:
  assumes safe: "volume_safe live durable d v" and pub: "publishes pre v n"
  shows "settles live durable v d (publish_outcome t v n (run_commands D (publication_commands pre v n) d))"
proof -
  obtain r d' where run: "run_commands D (publication_commands pre v n) d = (r, d')" by fastforce
  show ?thesis
  proof (cases r)
    case (Ok u)
    have "generation_safe live durable d' \<lparr>vl_metadata = n, vl_bank = 1 - vl_bank v, vl_poisoned = False\<rparr>"
      by (rule publish_durable [OF volume_safeD(2) [OF safe] pub]) (use run Ok in simp)
    moreover have "durable d' = live d'"
      by (rule run_flushed [where cs = "butlast (publication_commands pre v n)" and d = d])
        (use run Ok in \<open>simp add: publication_commands_def butlast_append\<close>)
    ultimately show ?thesis using run Ok by (simp add: settles_def volume_safe_def contents_settled_def)
  next
    case Panic
    then show ?thesis using run run_not_Panic [of "publication_commands pre v n" d] by simp
  qed (use run in \<open>simp add: settles_def\<close>)
qed

lemma commit_settles:
  assumes safe: "volume_safe live durable d v"
    and ok: "\<And>s. checked_add (md_sequence (vl_metadata v)) 1 = Some s \<Longrightarrow> metadata_ok (nxt\<lparr>md_sequence := s\<rparr>)"
  shows "settles live durable v d (volume_commit D v nxt d)"
proof (cases "checked_add (md_sequence (vl_metadata v)) 1")
  case (Some s)
  have less: "md_sequence (vl_metadata v) < md_sequence (nxt\<lparr>md_sequence := s\<rparr>)"
    using checked_add_1_less [OF Some] by simp
  note pub = prepare_publishes [OF ok [OF Some] less volume_safeD(4) [OF safe]]
  show ?thesis using publish_settles [OF safe pub(1), of "()"] pub(2) by (simp add: commit_outcome Some)
qed (simp add: commit_outcome refused_settles)

lemma prepared_settles:
  assumes safe: "volume_safe live durable d v"
    and prep: "\<And>p. prepared = Ok p \<Longrightarrow> prepared_ok v d p" and quiet: "prepared \<noteq> Panic"
  shows "\<exists>x. run_to_volume D v d prepared = Some x \<and> settles live durable v d x"
proof (cases prepared)
  case (Ok p)
  consider t where "p = publication_replayed v d t" | n pre where "planned v d p n pre"
    using prep [OF Ok] by (auto simp: prepared_ok_def)
  then show ?thesis
  proof cases
    case 1
    then show ?thesis
      using Ok safe kept_settles
      by (simp add: run_to_volume_def publication_replayed_def pub_run.simps pub_drop_def)
  next
    case 2
    then have a: "pub_active p n" "pb_step p = 0" "pb_disk p = d" "pb_volume p = v\<lparr>vl_poisoned := True\<rparr>"
      "pub_commands p n = publication_commands pre v n" "publishes pre v n" by (auto simp: planned_def)
    have out: "publish_outcome t (v\<lparr>vl_poisoned := True\<rparr>) n r = publish_outcome t v n r" for t :: 'b and r :: "(fs_error, unit) outcome \<times> 'd"
      by (cases "(t, v, n, r)" rule: publish_outcome.cases) auto
    from pub_run_commands [OF a(1) refl, of D] have "run_to_volume D v d (Ok p) =
        Some (publish_outcome (pb_result p) v n (run_commands D (publication_commands pre v n) d))"
      unfolding a(2-5) out drop_0 by (auto simp: run_to_volume_def split: prod.splits)
    then show ?thesis using publish_settles [OF safe a(6)] Ok by simp
  qed
qed (use quiet in \<open>auto simp: run_to_volume_def settles_def\<close>)

section \<open>Reads\<close>

definition kept :: "'d \<Rightarrow> 'a \<times> 'd \<Rightarrow> bool" where
  "kept d x \<longleftrightarrow> live (snd x) = live d \<and> durable (snd x) = durable d"

lemma kept_pair: "live d1 = live d \<Longrightarrow> durable d1 = durable d \<Longrightarrow> kept d (x, d1)"
  by (simp add: kept_def)

lemma kept_io_then:
  assumes "kept d m" and "\<And>x d1. live d1 = live d \<Longrightarrow> durable d1 = durable d \<Longrightarrow> kept d (f x d1)"
  shows "kept d (io_then m f)"
proof (cases m)
  case (Pair r d1)
  then show ?thesis using assms by (cases r) (auto simp: kept_def)
qed

lemma kept_read:
  assumes "live d1 = live d" and "durable d1 = durable d"
  shows "kept d (disk_read D s d1)"
proof (cases "disk_read D s d1")
  case (Pair r d2)
  then show ?thesis using read_keeps [OF Pair] assms by (simp add: kept_def)
qed

lemma kept_read_sectors: "live d1 = live d \<Longrightarrow> durable d1 = durable d \<Longrightarrow> kept d (read_sectors D s n d1)"
proof (induction n arbitrary: s d1)
  case (Suc n)
  show ?case
    unfolding read_sectors.simps
    by (rule kept_io_then [OF kept_read [OF Suc.prems]]) (auto intro!: kept_io_then kept_pair Suc.IH)
qed (simp add: kept_pair)

lemma kept_metadata_read: "kept d (metadata_read D bank d)"
proof -
  have rec: "kept d (read_recovery D bank b md d1)" if "live d1 = live d" "durable d1 = durable d" for b md d1
    unfolding read_recovery_def using that
    by (auto intro!: kept_io_then kept_read_sectors kept_pair)
  show ?thesis
    unfolding metadata_read_def Let_def
    by (auto intro!: kept_io_then kept_read kept_read_sectors rec kept_pair)
qed

lemma kept_scratch: "live d1 = live d \<Longrightarrow> durable d1 = durable d \<Longrightarrow> kept d (scratch_loop D expected ss d1)"
proof (induction ss arbitrary: d1)
  case (Cons s ss)
  show ?case
    unfolding scratch_loop.simps
    by (rule kept_io_then [OF kept_read [OF Cons.prems]]) (auto intro!: Cons.IH kept_pair)
qed (simp add: kept_pair)

lemma kept_read_versioned: "kept d (read_versioned D v i expected offset output d)"
proof -
  have "kept d (read_data D slot bank d)" for slot bank unfolding read_data_def by (rule kept_read_sectors) simp_all
  then have "live d' = live d \<and> durable d' = durable d" if "read_data D slot bank d = (r, d')" for slot bank r d'
    using that by (metis kept_def snd_conv)
  then show ?thesis
    unfolding read_versioned_def Let_def
    by (auto simp: kept_def split: outcome.splits option.splits if_splits prod.splits)
qed

section \<open>Each operation\<close>

lemma create_settles:
  assumes safe: "volume_safe live durable d v"
  shows "settles live durable v d (volume_create D v parent nm k d)"
proof (cases "create_plan v parent nm k")
  case (Ok x)
  obtain n nxt where x: "x = (n, nxt)" by fastforce
  have "settles live durable v d (volume_commit D v nxt d)"
    by (rule commit_settles [OF safe]) (rule create_plan_ok [OF volume_safeD(3) [OF safe] Ok [unfolded x]])
  then show ?thesis
    using Ok x by (auto simp: volume_create_def settles_def is_ok_iff and_then_Ok_iff and_then_Panic_iff split: prod.splits)
qed (simp_all add: volume_create_def settles_def create_plan_panic_free)

lemma remove_settles:
  assumes safe: "volume_safe live durable d v"
  shows "settles live durable v d (volume_remove D v i d)"
proof (cases "remove_plan v i")
  case (Ok nxt)
  have "settles live durable v d (volume_commit D v nxt d)"
  proof (rule commit_settles [OF safe])
    fix s assume "checked_add (md_sequence (vl_metadata v)) 1 = Some s"
    then have "md_sequence (vl_metadata v) \<le> s" using checked_add_1_less less_imp_le by blast
    then show "metadata_ok (nxt\<lparr>md_sequence := s\<rparr>)" by (rule remove_plan_ok [OF volume_safeD(3) [OF safe] Ok])
  qed
  then show ?thesis using Ok by (simp add: volume_remove_def)
qed (simp_all add: volume_remove_def settles_def remove_plan_panic_free)

lemma replace_settles:
  assumes safe: "volume_safe live durable d v"
  shows "\<exists>x. volume_replace D v i version bs d = Some x \<and> settles live durable v d x"
  unfolding volume_replace_def
proof (rule prepared_settles [OF safe])
  fix p assume p: "prepare_replace v d i version bs = Ok p"
  show "prepared_ok v d p"
  proof (rule prepare_recorded_planned [OF volume_safeD(3,4) [OF safe] p [unfolded prepare_replace_def] refl])
    fix s assume "checked_add (md_sequence (vl_metadata v)) 1 = Some s"
    then have "md_sequence (vl_metadata v) \<le> s" using checked_add_1_less less_imp_le by blast
    then show "metadata_ok ((vl_metadata v)\<lparr>md_sequence := s\<rparr>)" by (rule metadata_ok_later [OF volume_safeD(3) [OF safe]])
  qed
qed (rule panic_free)

lemma recorded_settles:
  assumes safe: "volume_safe live durable d v" and "md_recovery (vl_metadata v) = Some r" and "\<not> vl_poisoned v"
    and find: "recovery_find r subject rt = Ok None" and free: "free_record r = Ok slot"
    and s: "checked_add (md_sequence (vl_metadata v)) 1 = Some s"
    and q: "q = \<lparr>rr_subject = subject, rr_receipt = \<lparr>rc_retry = rt, rc_id = i, rc_previous = version, rc_committed = s,
        rc_length = of_nat (length bs)\<rparr>, rr_namespace = None, rr_bytes = put (replicate max_file 0) 0 bs, rr_admission = None\<rparr>"
    and put: "put_record (vl_metadata v) slot q = Ok nxt"
  shows "\<exists>x. replace_recorded D v i version bs nxt d = Some x \<and> settles live durable v d x"
  unfolding replace_recorded_def
proof (rule prepared_settles [OF safe])
  fix p assume p: "prepare_recorded v d i version bs nxt (\<lambda>n. n) = Ok p"
  note ok = volume_safeD(3,4) [OF safe]
  obtain n where n: "n \<in> live_nodes (vl_metadata v)" "nd_kind n = KFile" "nd_id n = i" "nd_version n = version" "length bs \<le> max_file"
    using ok(1) p by (rule prepare_recorded_file)
  have f: "subject \<noteq> 0" "rt_key rt \<noteq> 0" "rt_lineage rt = rv_lineage r" "rt_epoch rt = rv_epoch r"
      "\<And>y. y \<in> set (flatten (rv_records r)) \<Longrightarrow> rr_namespace y = None \<Longrightarrow> rr_subject y = subject \<Longrightarrow> rc_retry (rr_receipt y) \<noteq> rt"
    using find by (auto simp: recovery_find_def find_None_iff split: if_splits option.splits)
  have less: "md_sequence (vl_metadata v) < s" using checked_add_1_less [OF s] by simp
  have rec: "file_record (vl_metadata v) r n bs q" using n f q by (simp add: file_record_def)
  have "rr_admission q = None \<and> rc_committed (rr_receipt q) = s" by (simp add: q)
  note state = disjI1 [OF this]
  have nq: "rr_namespace q = None" "rr_subject q = subject" "rc_retry (rr_receipt q) = rt" by (simp_all add: q)
  have ns: "rv_scoped r \<and> w \<noteq> 0 \<and> w < md_next (vl_metadata v) \<and> w \<noteq> nd_id n \<and> j \<noteq> 0 \<and> j \<le> s" if "rr_namespace q = Some (w, j)" for w j
    using that nq by simp
  have id: "rc_retry (rr_receipt y) \<noteq> rc_retry (rr_receipt q)"
    if "y \<in> set (flatten (rv_records r))" "rr_subject y = rr_subject q" "map_option fst (rr_namespace y) = map_option fst (rr_namespace q)" for y
    using f(5) [OF that(1)] that nq by simp
  have "metadata_ok (nxt\<lparr>md_sequence := s\<rparr>)" "md_nodes nxt = md_nodes (vl_metadata v)"
    using new_record_put [OF ok(1) assms(2) less rec state ns id free put] by blast+
  then show "prepared_ok v d p" using prepare_recorded_planned [OF ok p] s by simp
qed (rule panic_free)

lemma tracked_settles:
  assumes safe: "volume_safe live durable d v"
  shows "\<exists>x. replace_tracked D v subject rt i version bs d = Some x \<and> settles live durable v d x"
proof (cases "length bs \<le> max_file \<and> (\<exists>r slot s. md_recovery (vl_metadata v) = Some r \<and> recovery_find r subject rt = Ok None \<and>
    free_record r = Ok slot \<and> checked_add (md_sequence (vl_metadata v)) 1 = Some s)")
  case True
  then obtain r slot s where h: "md_recovery (vl_metadata v) = Some r" "recovery_find r subject rt = Ok None"
    "free_record r = Ok slot" "checked_add (md_sequence (vl_metadata v)) 1 = Some s" "length bs \<le> max_file" by blast
  let ?c = "\<lparr>rc_retry = rt, rc_id = i, rc_previous = version, rc_committed = s, rc_length = of_nat (length bs)\<rparr>"
  let ?q = "\<lparr>rr_subject = subject, rr_receipt = ?c, rr_namespace = None, rr_bytes = put (replicate max_file 0) 0 bs, rr_admission = None\<rparr>"
  obtain nxt where put: "put_record (vl_metadata v) slot ?q = Ok nxt" using h(1) by (simp add: put_record_def)
  obtain x where x: "replace_recorded D v i version bs nxt d = Some x" "settles live durable v d x"
    using recorded_settles [OF safe h(1) volume_safeD(1) [OF safe] h(2-4) refl put] by blast
  have "replace_tracked D v subject rt i version bs d =
      map_option (\<lambda>(res, v, d). (and_then res (\<lambda>_. Ok ?c), v, d)) (replace_recorded D v i version bs nxt d)"
    unfolding replace_tracked_def using h put volume_safeD(1) [OF safe] by (simp add: volume_ready_def Let_def)
  then show ?thesis using x by (auto simp: settles_def is_ok_iff and_then_Ok_iff and_then_Panic_iff split: prod.splits)
next
  case False
  have "\<exists>m. replace_tracked D v subject rt i version bs d = Some (m, v, d) \<and> m \<noteq> Panic"
    using False unfolding replace_tracked_def Let_def
    by (auto simp: with_volume_def volume_ready_def outcome_iffs not_le panic_free split: outcome.splits option.splits)
  then show ?thesis using safe by (auto simp: settles_def)
qed

lemma current_recovery_Ok: "current_recovery v = Ok r \<longleftrightarrow> \<not> vl_poisoned v \<and> md_recovery (vl_metadata v) = Some r"
  by (auto simp: current_recovery_def and_then_Ok_iff volume_ready_def)

lemma with_volume_settles:
  assumes "volume_safe live durable d v" and "m \<noteq> Panic" and "\<And>x. m = Ok x \<Longrightarrow> settles live durable v d (f x)"
  shows "settles live durable v d (with_volume v d m f)"
  using assms by (cases m) (auto simp: with_volume_def settles_def)

lemma epoch_settles:
  assumes safe: "volume_safe live durable d v"
  shows "settles live durable v d (advance_epoch D v d)"
  unfolding advance_epoch_def
proof (rule with_volume_settles [OF safe current_recovery_panic_free])
  fix r assume "current_recovery v = Ok r"
  then have r: "md_recovery (vl_metadata v) = Some r" by (simp add: current_recovery_Ok)
  have "settles live durable v d (with_volume v d (ok_or FsExhausted (checked_add (rv_epoch r) 1)) (\<lambda>epoch.
       case volume_commit D v ((vl_metadata v)\<lparr>md_recovery :=
           Some (r\<lparr>rv_epoch := epoch, rv_records := map (\<lambda>_. None) (rv_records r)\<rparr>)\<rparr>) d of
         (res, v, d) \<Rightarrow> (and_then res (\<lambda>_. Ok epoch), v, d)))"
  proof (rule with_volume_settles [OF safe ok_or_not_Panic])
    fix epoch assume e: "ok_or FsExhausted (checked_add (rv_epoch r) 1) = Ok epoch"
    let ?n = "(vl_metadata v)\<lparr>md_recovery := Some (r\<lparr>rv_epoch := epoch, rv_records := map (\<lambda>_. None) (rv_records r)\<rparr>)\<rparr>"
    have "settles live durable v d (volume_commit D v ?n d)"
      by (rule commit_settles [OF safe]) (rule epoch_ok [OF volume_safeD(3) [OF safe] r], assumption, use e in simp)
    then show "settles live durable v d (case volume_commit D v ?n d of (res, v, d) \<Rightarrow> (and_then res (\<lambda>_. Ok epoch), v, d))"
      by (auto simp: settles_def is_ok_iff and_then_Ok_iff and_then_Panic_iff split: prod.splits)
  qed
  then show "settles live durable v d (if list_ex (\<lambda>q. case rr_admission q of None \<Rightarrow> False | Some a \<Rightarrow> so_state a = AdAdmitted)
      (flatten (rv_records r)) then (Err FsBusy, v, d) else with_volume v d (ok_or FsExhausted (checked_add (rv_epoch r) 1)) (\<lambda>epoch.
       case volume_commit D v ((vl_metadata v)\<lparr>md_recovery :=
           Some (r\<lparr>rv_epoch := epoch, rv_records := map (\<lambda>_. None) (rv_records r)\<rparr>)\<rparr>) d of
         (res, v, d) \<Rightarrow> (and_then res (\<lambda>_. Ok epoch), v, d)))"
    by (simp add: refused_settles)
qed

lemma enable_recovery_settles:
  assumes safe: "volume_safe live durable d v" and lin: "length lin = 16"
  shows "settles live durable v d (enable_recovery D v lin d)"
proof (cases "md_recovery (vl_metadata v)")
  case None
  note np = volume_safeD(1) [OF safe] and ok = volume_safeD(3) [OF safe]
  show ?thesis
  proof (cases "recovery_new lin")
    case (Ok initial)
    obtain r d1 where scr: "scratch_loop D (recovery_encode initial) [160..<volume_sectors] d = (r, d1)" by fastforce
    have keep: "live d1 = live d" "durable d1 = durable d"
      using kept_scratch [of d d "recovery_encode initial" "[160..<volume_sectors]"] scr by (simp_all add: kept_def)
    note safe1 = volume_safe_cong [OF safe keep]
    have "settles live durable v d1 (volume_commit D v ((vl_metadata v)\<lparr>md_recovery := Some initial\<rparr>) d1)"
    proof (rule commit_settles [OF safe1])
      fix s assume "checked_add (md_sequence (vl_metadata v)) 1 = Some s"
      then have "md_sequence (vl_metadata v) \<le> s" using checked_add_1_less less_imp_le by blast
      then show "metadata_ok ((vl_metadata v)\<lparr>md_recovery := Some initial, md_sequence := s\<rparr>)" by (rule enabled_ok [OF ok Ok lin])
    qed
    then have "settles live durable v d (volume_commit D v ((vl_metadata v)\<lparr>md_recovery := Some initial\<rparr>) d1)"
      by (rule settles_cong [OF _ keep])
    then show ?thesis
      using None np Ok scr keep scratch_loop_panic_free [of "recovery_encode initial" "[160..<volume_sectors]" d]
      by (cases r) (simp_all add: enable_recovery_def volume_ready_def settles_def del: upt_Suc)
  qed (use None np in \<open>simp_all add: enable_recovery_def volume_ready_def settles_def recovery_new_panic_free\<close>)
qed (use volume_safeD(1) [OF safe] safe in \<open>auto simp: enable_recovery_def volume_ready_def settles_def\<close>)

lemma finish_rests:
  assumes safe: "volume_safe live durable d v"
  shows "rests live durable (finish_other_bank D flag v d)"
proof -
  obtain r d1 where rd: "metadata_read D (1 - vl_bank v) d = (r, d1)" by fastforce
  have keep: "live d1 = live d" "durable d1 = durable d" using kept_metadata_read [of d "1 - vl_bank v"] rd by (simp_all add: kept_def)
  note safe1 = volume_safe_cong [OF safe keep]
  have "settles live durable v d1 (volume_commit D v (vl_metadata v) d1)"
  proof (rule commit_settles [OF safe1])
    fix s assume "checked_add (md_sequence (vl_metadata v)) 1 = Some s"
    then have "md_sequence (vl_metadata v) \<le> s" using checked_add_1_less less_imp_le by blast
    then show "metadata_ok ((vl_metadata v)\<lparr>md_sequence := s\<rparr>)" by (rule metadata_ok_later [OF volume_safeD(3) [OF safe]])
  qed
  then have c: "rests live durable (volume_commit D v (vl_metadata v) d1)" by (rule settles_rests [OF safe1])
  have "rests live durable (Ok (), v, d1)" "rests live durable (Err FsUncertain :: (fs_error, unit) outcome, v\<lparr>vl_poisoned := True\<rparr>, d1)"
    using safe1 by (simp_all add: rests_def)
  then show ?thesis
    using c rd metadata_read_panic_free [of "1 - vl_bank v" d] by (cases r) (simp_all add: finish_other_bank_def)
qed

lemma upgrade_rests:
  assumes safe: "volume_safe live durable d v" and r: "md_recovery (vl_metadata v) = Some r"
    and step: "\<not> flag r \<Longrightarrow> \<not> rv_scoped r \<and> set_flag r = r\<lparr>rv_scoped := True\<rparr> \<or>
      rv_scoped r \<and> \<not> rv_admissions r \<and> set_flag r = r\<lparr>rv_admissions := True\<rparr> \<or>
      rv_admissions r \<and> \<not> rv_reasons r \<and> set_flag r = r\<lparr>rv_reasons := True\<rparr>"
  shows "rests live durable (upgrade_flag D flag set_flag r v d)"
proof (cases "flag r")
  case True
  then show ?thesis using finish_rests [OF safe] by (simp add: upgrade_flag_def)
next
  case False
  obtain res v1 d1 where c: "volume_commit D v ((vl_metadata v)\<lparr>md_recovery := Some (set_flag r)\<rparr>) d = (res, v1, d1)" by (metis prod_cases3)
  have "settles live durable v d (volume_commit D v ((vl_metadata v)\<lparr>md_recovery := Some (set_flag r)\<rparr>) d)"
  proof (rule commit_settles [OF safe])
    fix s assume "checked_add (md_sequence (vl_metadata v)) 1 = Some s"
    then have "md_sequence (vl_metadata v) \<le> s" using checked_add_1_less less_imp_le by blast
    then show "metadata_ok ((vl_metadata v)\<lparr>md_recovery := Some (set_flag r), md_sequence := s\<rparr>)"
      by (rule upgrade_ok [OF volume_safeD(3) [OF safe] r _ step [OF False]])
  qed
  note set = this [unfolded c]
  show ?thesis
  proof (cases res)
    case (Ok u)
    then have "volume_safe live durable d1 v1" using set by (simp add: settles_def)
    then show ?thesis using finish_rests c Ok False by (simp add: upgrade_flag_def)
  next
    case (Err e)
    then show ?thesis using settles_rests [OF safe set] c False by (simp add: upgrade_flag_def rests_def)
  next
    case Panic
    then show ?thesis using settles_rests [OF safe set] c False by (simp add: upgrade_flag_def rests_def)
  qed
qed

lemma with_volume_rests:
  assumes "volume_safe live durable d v" and "m \<noteq> Panic" and "\<And>x. m = Ok x \<Longrightarrow> rests live durable (f x)"
  shows "rests live durable (with_volume v d m f)"
  using assms by (cases m) (auto simp: with_volume_def rests_def)

lemma enables_rest:
  assumes safe: "volume_safe live durable d v"
  shows "rests live durable (enable_operations D v d)" and "rests live durable (enable_admissions D v d)"
    and "rests live durable (enable_prevention_reasons D v d)"
proof -
  show "rests live durable (enable_operations D v d)"
    unfolding enable_operations_def
    by (rule with_volume_rests [OF safe current_recovery_panic_free]) (rule upgrade_rests [OF safe], auto simp: current_recovery_Ok)
  show "rests live durable (enable_admissions D v d)"
    unfolding enable_admissions_def
    by (rule with_volume_rests [OF safe], simp add: and_then_Panic_iff current_recovery_panic_free)
      (rule upgrade_rests [OF safe], auto simp: current_recovery_Ok and_then_Ok_iff split: if_splits)
  show "rests live durable (enable_prevention_reasons D v d)"
    unfolding enable_prevention_reasons_def
    by (rule with_volume_rests [OF safe volume_admissions_panic_free])
      (rule upgrade_rests [OF safe], auto simp: volume_admissions_def current_recovery_Ok and_then_Ok_iff split: if_splits)
qed

lemma forget_rests:
  assumes safe: "volume_safe live durable d v" and "\<exists>x. y = Some x \<and> settles live durable v d x"
  shows "\<exists>x. map_option forget y = Some x \<and> rests live durable x"
proof -
  obtain x where x: "y = Some x" "settles live durable v d x" using assms(2) by blast
  then have "rests live durable (forget x)" by (intro settles_rests [OF safe]) (simp add: forget_settles)
  then show ?thesis using x(1) by simp
qed

lemma op_rests:
  assumes safe: "volume_safe live durable d v" and valid: "\<And>lin. op = OpEnableRecovery lin \<Longrightarrow> length lin = 16"
  shows "\<exists>x. op_run D op v d = Some x \<and> rests live durable x"
proof -
  note ok = volume_safeD(3,4) [OF safe]
  note one = forget_rests [OF safe]
  show ?thesis
  proof (cases op)
    case (OpCreate parent nm k)
    then show ?thesis using settles_rests [OF safe] create_settles [OF safe] forget_settles by (metis op_run.simps(1))
  next
    case (OpRemove i)
    then show ?thesis using settles_rests [OF safe remove_settles [OF safe]] by simp
  next
    case (OpReplace i version bs)
    then show ?thesis using one [OF replace_settles [OF safe]] by simp
  next
    case (OpTracked subject rt i version bs)
    then show ?thesis using one [OF tracked_settles [OF safe]] by simp
  next
    case (OpScoped subject inst request bs)
    then show ?thesis
      using one [OF prepared_settles [OF safe prepare_scoped_ok [OF ok] prepare_scoped_panic_free]] by (simp add: replace_scoped_def)
  next
    case (OpAdmit subject inst request bs)
    then show ?thesis
      using one [OF prepared_settles [OF safe prepare_admission_ok [OF ok] prepare_admission_panic_free]] by (simp add: admit_replace_def)
  next
    case (OpCancel subject i)
    then show ?thesis
      using one [OF prepared_settles [OF safe prepare_cancellation_ok [OF ok] prepare_cancellation_panic_free]] by (simp add: cancel_admission_def)
  next
    case (OpPrevent subject i reason)
    then show ?thesis using one [OF prepared_settles [OF safe prepare_prevention_ok [OF ok] prepare_prevention_panic_free]] by simp
  next
    case (OpExecute subject i)
    then show ?thesis using one [OF prepared_settles [OF safe prepare_admitted_ok [OF ok] prepare_admitted_panic_free]] by simp
  next
    case OpEpoch
    then show ?thesis using settles_rests [OF safe] epoch_settles [OF safe] forget_settles by (metis op_run.simps(10))
  next
    case (OpEnableRecovery lin)
    then show ?thesis using settles_rests [OF safe enable_recovery_settles [OF safe valid]] by simp
  next
    case OpEnableOperations
    then show ?thesis using enables_rest(1) [OF safe] by simp
  next
    case OpEnableAdmissions
    then show ?thesis using enables_rest(2) [OF safe] by simp
  next
    case OpEnableReasons
    then show ?thesis using enables_rest(3) [OF safe] by simp
  next
    case (OpRead i expected offset out)
    obtain r d1 where rd: "read_versioned D v i expected offset out d = (r, d1)" by fastforce
    have "live d1 = live d" "durable d1 = durable d" using kept_read_versioned [of d v i expected offset out] rd by (simp_all add: kept_def)
    then have "volume_safe live durable d1 v" by (rule volume_safe_cong [OF safe])
    then show ?thesis
      using OpRead rd read_versioned_panic_free [of v i expected offset out d] by (cases r) (simp add: rests_def and_then_Panic_iff)
  qed
qed

end

lemma settled_volume_safe:
  assumes "metadata_ok md"
  shows "volume_safe mk_live mk_durable (settled_disk md) (settled_volume md)"
  using settled_safe [OF assms] by (simp add: volume_safe_def settled_volume_def contents_settled_def settled_live)

section \<open>The fence\<close>

lemma fenced_refuses:
  assumes "vl_poisoned v"
  shows "\<exists>e. op_run D op v d = Some (Err e, v, d)"
proof -
  have s: "volume_stat v i = Err FsUncertain" "volume_writable v i = Err FsUncertain" "current_recovery v = Err FsUncertain"
    "volume_ready v = Err FsUncertain" "volume_admissions v = Err FsUncertain" for i
    using assms by (simp_all add: volume_stat_def volume_ready_def volume_writable_def current_recovery_def volume_admissions_def)
  show ?thesis
  proof (cases op)
    case (OpCreate parent nm k)
    have "\<exists>e. create_plan v parent nm k = Err e"
      using s valid_name_not_Panic [of nm] by (cases "valid_name nm") (simp_all add: create_plan_def)
    then show ?thesis using OpCreate by (auto simp: volume_create_def forget_def)
  next
    case (OpAdmit subject inst request bs)
    then show ?thesis
      using s by (auto simp: forget_def admit_replace_def run_to_volume_def prepare_admission_def admission_by_retry_def)
  next
    case (OpScoped subject inst request bs)
    then show ?thesis using s by (simp add: forget_def replace_scoped_def run_to_volume_def prepare_scoped_def)
  next
    case (OpTracked subject rt i version bs)
    then show ?thesis using s by (simp add: forget_def replace_tracked_def with_volume_def)
  next
    case (OpEnableAdmissions)
    then show ?thesis using s by (simp add: enable_admissions_def with_volume_def)
  qed (simp_all add: s forget_def volume_remove_def remove_plan_def volume_replace_def run_to_volume_def prepare_replace_def
      prepare_recorded_def cancel_admission_def prepare_cancellation_def prevention_reasons_enabled_def prepare_prevention_def
      prepare_admitted_def admission_slot_def advance_epoch_def with_volume_def enable_recovery_def enable_operations_def
      enable_prevention_reasons_def read_versioned_def)
qed

section \<open>Properties\<close>

text \<open>A sequence of operations has a result only when every operation returns: there is none after a panic.\<close>

primrec run_ops :: "'d disk \<Rightarrow> volume_op list \<Rightarrow> volume \<Rightarrow> 'd \<Rightarrow> (volume \<times> 'd) option" where
  "run_ops D [] v d = Some (v, d)"
| "run_ops D (op # ops) v d = (case op_run D op v d of None \<Rightarrow> None
     | Some (r, v, d) \<Rightarrow> if r = Panic then None else run_ops D ops v d)"

lemma run_ops_fenced: "vl_poisoned v \<Longrightarrow> run_ops D ops v d = Some (v, d)"
proof (induction ops)
  case (Cons op ops)
  then show ?case using fenced_refuses [OF Cons.prems, of D op d] by auto
qed simp

text \<open>C1 No sequence of operations, whatever their arguments and whichever commands the disk fails, a failed write
  leaving its sector torn, brings the volume into an inconsistent state. Starting from a volume whose generation
  survives every crash, every sequence of creations, removals, replacements, tracked and scoped operations, admissions
  with their cancellation and execution, epoch changes, format upgrades and reads runs to its end: no operation
  diverges and none panics. The volume is then either safe again, so that in every crash image, sectors torn included,
  mounting selects exactly its metadata, or fenced, and then every further operation is refused without touching
  volume or disk.\<close>

theorem volume_stays_safe:
  assumes "durable_disk D live durable" and "volume_safe live durable d v"
    and "\<And>lin. OpEnableRecovery lin \<in> set ops \<Longrightarrow> length lin = 16"
  shows "\<exists>v' d'. run_ops D ops v d = Some (v', d') \<and>
    (volume_safe live durable d' v' \<and>
       (\<forall>m. crash_image live durable d' m \<longrightarrow> full_sectors m \<longrightarrow>
          fst (mount_metadata image_disk m) = Ok (vl_metadata v', vl_bank v')) \<or>
     vl_poisoned v' \<and> (\<forall>op. \<exists>e. op_run D op v' d' = Some (Err e, v', d')))"
proof -
  have "\<exists>v' d'. run_ops D ops v d = Some (v', d') \<and> (volume_safe live durable d' v' \<or> vl_poisoned v')"
    using assms(2,3)
  proof (induction ops arbitrary: v d)
    case (Cons op ops)
    obtain r v1 d1 where x: "op_run D op v d = Some (r, v1, d1)" "rests live durable (r, v1, d1)"
      using durable_disk.op_rests [OF assms(1) Cons.prems(1), of op] Cons.prems(2) by (metis list.set_intros(1) prod_cases3)
    show ?case
    proof (cases "vl_poisoned v1")
      case True
      then show ?thesis using x run_ops_fenced [OF True, of D ops d1] by (simp add: rests_def)
    next
      case False
      then have "volume_safe live durable d1 v1" using x(2) by (simp add: rests_def)
      then show ?thesis using Cons.IH Cons.prems(2) x by (simp add: rests_def)
    qed
  qed simp
  then obtain v' d' where h: "run_ops D ops v d = Some (v', d')" "volume_safe live durable d' v' \<or> vl_poisoned v'" by blast
  have "fst (mount_metadata image_disk m) = Ok (vl_metadata v', vl_bank v')"
    if "volume_safe live durable d' v'" "crash_image live durable d' m" "full_sectors m" for m
    using durable_disk.safe_mounts [OF assms(1) volume_safeD(2) [OF that(1)] that(2,3)] .
  then have "volume_safe live durable d' v' \<and>
       (\<forall>m. crash_image live durable d' m \<longrightarrow> full_sectors m \<longrightarrow>
          fst (mount_metadata image_disk m) = Ok (vl_metadata v', vl_bank v')) \<or>
     vl_poisoned v' \<and> (\<forall>op. \<exists>e. op_run D op v' d' = Some (Err e, v', d'))"
    using h(2) fenced_refuses [of v' D _ d'] by auto
  then show ?thesis using h(1) by auto
qed

theorem volume_stays_safe_witness:
  "\<exists>v' d'. run_ops memory_disk [OpRemove 5, OpCreate 2 [98] KFile, OpEnableRecovery (replicate 16 7)]
       (settled_volume example_metadata) (settled_disk example_metadata) = Some (v', d') \<and>
     (volume_safe mk_live mk_durable d' v' \<or> vl_poisoned v')"
proof -
  have "volume_safe mk_live mk_durable (settled_disk example_metadata) (settled_volume example_metadata)"
    by (rule settled_volume_safe [OF example_metadata_ok])
  from volume_stays_safe [OF memory.durable_disk_axioms this, of "[OpRemove 5, OpCreate 2 [98] KFile, OpEnableRecovery (replicate 16 7)]"]
  show ?thesis by auto
qed

end
