(* ===== verification/Exactly_Once.thy ===== *)
theory Exactly_Once
  imports Volume_System
begin

text \<open>
  The retry contract of scoped operations. The record of an operation is published by the same header as its
  effect, so after any interruption a client that repeats its request either performs it for the first time or
  is answered from the record.
\<close>

section \<open>Finding the record again\<close>

lemma find_flatten_update:
  assumes "find P (flatten xs) = None" and "slot < length xs" and "P q"
  shows "find P (flatten (xs[slot := Some q])) = Some q"
proof -
  have xs: "xs = take slot xs @ xs ! slot # drop (Suc slot) xs" by (rule id_take_nth_drop [OF assms(2)])
  have "set (flatten (take slot xs)) \<subseteq> set (flatten xs)" by (auto simp: set_flatten dest: in_set_takeD)
  then have "find P (flatten (take slot xs)) = None" using assms(1) by (auto simp: find_None_iff)
  moreover have "find P (ys @ zs) = find P zs" if "find P ys = None" for ys zs using that by (induction ys) (auto split: if_splits)
  ultimately show ?thesis using assms(2,3) by (simp add: upd_conv_take_nth_drop)
qed

lemma replayed_run: "run_to_volume D v d (Ok (publication_replayed v d t)) = Some (Ok t, v, d)"
  by (simp add: run_to_volume_def publication_replayed_def pub_run.simps pub_drop_def)

lemma scoped_found:
  assumes unknown: "operation_by_retry v subject (rp_workspace request) (rp_retry request) = Err FsOutcomeUnknown"
    and r: "md_recovery (vl_metadata v) = Some r" and slot: "slot < length (rv_records r)" and len: "length bs \<le> max_file"
    and q: "q = scoped_record subject inst request bs s"
    and w: "md_recovery (vl_metadata w) = Some (r\<lparr>rv_records := (rv_records r)[slot := Some q]\<rparr>)" "\<not> vl_poisoned w"
  shows "operation_by_retry w subject (rp_workspace request) (rp_retry request) =
      Ok \<lparr>op_workspace = rp_workspace request, op_instance = (if inst = 0 then s else inst), op_receipt = rr_receipt q, op_bytes = bs\<rparr>"
    and "prepare_scoped w d subject inst' request bs = Ok (publication_replayed w d (rr_receipt q))"
proof -
  obtain r' where r': "md_recovery (vl_metadata v) = Some r'" "\<not> vl_poisoned v" "rv_scoped r'" "subject \<noteq> 0" "rp_workspace request \<noteq> 0"
    "rt_key (rp_retry request) \<noteq> 0" "rt_lineage (rp_retry request) = rv_lineage r'" "rt_epoch (rp_retry request) = rv_epoch r'"
    "find_retry r' subject (rp_workspace request) (rp_retry request) = None"
    using unknown by (rule operation_by_retry_unknown)
  have same: "r' = r" using r r'(1) by simp
  have ep: "rt_epoch (rp_retry request) \<noteq> 0"
    using unknown r same r'(2-5) by (auto simp: operation_by_retry_def scoped_recovery_def current_recovery_def volume_ready_def)
  have rs: "rv_records (r\<lparr>rv_records := (rv_records r)[slot := Some q]\<rparr>) = (rv_records r)[slot := Some q]" by simp
  have f: "find_retry (r\<lparr>rv_records := (rv_records r)[slot := Some q]\<rparr>) subject (rp_workspace request) (rp_retry request) = Some q"
    unfolding find_retry_def rs
    by (rule find_flatten_update [OF _ slot])
      (use r'(9) same in \<open>simp_all add: find_retry_def q scoped_record_def in_workspace_def\<close>)
  have len': "unat (of_nat (length bs) :: u16) = length bs" using len by (simp add: unsigned_of_nat take_bit_nat_eq_self)
  have "retained_operation q = Ok \<lparr>op_workspace = rp_workspace request, op_instance = (if inst = 0 then s else inst),
      op_receipt = rr_receipt q, op_bytes = bs\<rparr>"
    using len' by (simp add: retained_operation_def q scoped_record_def put_def)
  then show op: "operation_by_retry w subject (rp_workspace request) (rp_retry request) =
      Ok \<lparr>op_workspace = rp_workspace request, op_instance = (if inst = 0 then s else inst), op_receipt = rr_receipt q, op_bytes = bs\<rparr>"
    using f w r' same ep
    by (simp add: operation_by_retry_def scoped_recovery_def current_recovery_def volume_ready_def)
  show "prepare_scoped w d subject inst' request bs = Ok (publication_replayed w d (rr_receipt q))"
    using op w(2) len by (simp add: prepare_scoped_def volume_ready_def q scoped_record_def)
qed

section \<open>A request for the first time\<close>

lemma prepare_scoped_any:
  assumes prep: "prepare_scoped v d subject inst request bs = Ok p"
    and unknown: "operation_by_retry v subject (rp_workspace request) (rp_retry request) = Err FsOutcomeUnknown"
  shows "\<exists>p'. prepare_scoped v d' subject inst request bs = Ok p' \<and> pb_next p' = pb_next p"
  using prep
proof (cases rule: prepare_scoped_cases)
  case (fresh k r slot s nxt)
  have np: "\<not> vl_poisoned v" using unknown by (rule operation_by_retry_unknown)
  have "prepare_scoped v d' subject inst request bs =
      prepare_recorded v d' (rp_id request) (rp_version request) bs nxt (\<lambda>_. rr_receipt (scoped_record subject inst request bs s))"
    using np fresh(1-8) unfolding prepare_scoped_def scoped_record_def
    by (cases "inst = 0") (auto simp: volume_ready_def Let_def dest: leD)
  then show ?thesis using prepare_recorded_any [OF fresh(9), of d'] by simp
qed (use unknown in simp)

text \<open>A scoped request whose retry identity is unknown runs the commands of one replacement, and the generation they
  publish carries its record.\<close>

lemma scoped_runs:
  assumes ok: "metadata_ok (vl_metadata v)" and prep: "prepare_scoped v d subject inst request bs = Ok p"
    and unknown: "operation_by_retry v subject (rp_workspace request) (rp_retry request) = Err FsOutcomeUnknown"
    and n: "pb_next p = Some n" and s: "checked_add (md_sequence (vl_metadata v)) 1 = Some s"
  obtains r slot nxt at where "md_recovery (vl_metadata v) = Some r" "slot < length (rv_records r)" "length bs \<le> max_file"
    "replaceable v nxt (rp_id request) at bs s" "n = replaced_metadata v nxt at bs s"
    "md_recovery (vl_metadata (published v n)) = Some (r\<lparr>rv_records := (rv_records r)[slot := Some (scoped_record subject inst request bs s)]\<rparr>)"
    "replace_scoped D v subject inst request bs d = Some (publish_outcome (rr_receipt (scoped_record subject inst request bs s)) v n
       (run_commands D (replacement_commands v n at bs) d))"
  using prep
proof (cases rule: prepare_scoped_cases)
  case (fresh k r slot s1 nxt)
  note put = scoped_put_ok [OF ok fresh(1-6,8,9)]
  have s1: "s1 = s" using fresh(5) s by simp
  have later: "metadata_ok (nxt\<lparr>md_sequence := x\<rparr>)" if "checked_add (md_sequence (vl_metadata v)) 1 = Some x" for x
    using that fresh(5) put(1) by simp
  obtain at s2 where a: "replaceable v nxt (rp_id request) at bs s2" "checked_add (md_sequence (vl_metadata v)) 1 = Some s2"
    "pb_next p = Some (replaced_metadata v nxt at bs s2)"
    "run_to_volume D v d (Ok p) = Some (publish_outcome (rr_receipt (scoped_record subject inst request bs s1)) v
       (replaced_metadata v nxt at bs s2) (run_commands D (replacement_commands v (replaced_metadata v nxt at bs s2) at bs) d))"
    by (rule prepared_replaceable [OF ok fresh(9) put(2) later]) blast+
  have s2: "s2 = s" and nn: "n = replaced_metadata v nxt at bs s" using a(2,3) s n by simp_all
  have "slot < length (rv_records r)" using fresh(4) by (auto simp: free_record_def position_Some_iff)
  moreover have "md_recovery (vl_metadata (published v n)) =
      Some (r\<lparr>rv_records := (rv_records r)[slot := Some (scoped_record subject inst request bs s)]\<rparr>)"
    using fresh(3,8) s1 by (auto simp: nn published_def replaced_metadata_def put_record_def)
  ultimately show ?thesis using that [of r slot nxt at] fresh(3,7) a prep s1 s2 nn by (simp add: replace_scoped_def)
qed (use unknown in simp)

text \<open>What a client finds when it looks again: its request is unknown and nothing has changed, or it is retained
  with its effect, and repeating it answers from the record.\<close>

definition once :: "'e itself \<Rightarrow> (u32 \<Rightarrow> (fs_error, bytes) outcome) \<Rightarrow> u64 \<Rightarrow> replacement \<Rightarrow> bytes \<Rightarrow> receipt \<Rightarrow> (nat \<Rightarrow> bytes) \<Rightarrow> volume \<Rightarrow> bool" where
  "once T before subject request bs c m w \<longleftrightarrow> \<not> vl_poisoned w \<and>
     (operation_by_retry w subject (rp_workspace request) (rp_retry request) = Err FsOutcomeUnknown \<and>
        (\<forall>j. file_contents w m j = before j) \<or>
      (\<exists>q. operation_by_retry w subject (rp_workspace request) (rp_retry request) = Ok q \<and> op_receipt q = c \<and> op_bytes q = bs) \<and>
        file_contents w m (rp_id request) = Ok bs \<and> (\<forall>j. j \<noteq> rp_id request \<longrightarrow> file_contents w m j = before j) \<and>
        (\<forall>E (e :: 'e) i. replace_scoped E w subject i request bs e = Some (Ok c, w, e)))"

context durable_disk
begin

lemma scoped_once:
  assumes safe: "volume_safe live durable d v" and prep: "prepare_scoped v d subject inst request bs = Ok p"
    and unknown: "operation_by_retry v subject (rp_workspace request) (rp_retry request) = Err FsOutcomeUnknown"
    and n: "pb_next p = Some n" and s: "checked_add (md_sequence (vl_metadata v)) 1 = Some s"
    and tear: "tear_detected (live d (header_sector (1 - vl_bank v))) (publication_header n)"
    and c: "c = rr_receipt (scoped_record subject inst request bs s)"
  shows "\<exists>res w d'. replace_scoped D v subject inst request bs d = Some (res, w, d') \<and>
    (res = Ok c \<and> volume_safe live durable d' w \<and> once T (\<lambda>j. file_contents v (live d) j) subject request bs c (live d') w \<and>
       file_contents w (live d') (rp_id request) = Ok bs \<or> res = Err FsUncertain \<and> vl_poisoned w) \<and>
    (\<forall>m. crash_image live durable d' m \<longrightarrow> full_sectors m \<longrightarrow> (\<exists>x. fst (mount_metadata image_disk m) = Ok (vl_metadata x, vl_bank x) \<and>
       once T (\<lambda>j. file_contents v (live d) j) subject request bs c m x))"
proof -
  note ok = volume_safeD(3) [OF safe] and gen = volume_safeD(2) [OF safe] and np = volume_safeD(1) [OF safe]
  have set: "contents_settled live durable d (vl_metadata v)" using safe by (simp add: volume_safe_def)
  obtain r slot nxt at where r: "md_recovery (vl_metadata v) = Some r" "slot < length (rv_records r)" "length bs \<le> max_file"
    and rp: "replaceable v nxt (rp_id request) at bs s" "n = replaced_metadata v nxt at bs s"
    and rec: "md_recovery (vl_metadata (published v n)) = Some (r\<lparr>rv_records := (rv_records r)[slot := Some (scoped_record subject inst request bs s)]\<rparr>)"
    and run: "replace_scoped D v subject inst request bs d = Some (publish_outcome c v n (run_commands D (replacement_commands v n at bs) d))"
    using scoped_runs [OF ok prep unknown n s, of D] unfolding c by metis
  have np': "\<not> vl_poisoned (published v n)" by (simp add: published_def)
  note found = scoped_found [OF unknown r refl rec np']
  have new: "once T (\<lambda>j. file_contents v (live d) j) subject request bs c m (published v n)"
    if "file_contents (published v n) m (rp_id request) = Ok bs"
      "\<And>j. j \<noteq> rp_id request \<Longrightarrow> file_contents (published v n) m j = file_contents v (live d) j" for m
    using that np' found(1) by (simp add: once_def replace_scoped_def found(2) replayed_run c)
  obtain res w d' where x: "publish_outcome c v n (run_commands D (replacement_commands v n at bs) d) = (res, w, d')" by (metis prod_cases3)
  have returns: "res = Ok c \<and> volume_safe live durable d' w \<and> once T (\<lambda>j. file_contents v (live d) j) subject request bs c (live d') w \<and>
       file_contents w (live d') (rp_id request) = Ok bs \<or> res = Err FsUncertain \<and> vl_poisoned w"
    using outcome_returns [OF rp(1) gen set rp(2) x] new [of "live d'"] np' by (auto simp: volume_safe_def published_def)
  have images: "\<exists>x. fst (mount_metadata image_disk m) = Ok (vl_metadata x, vl_bank x) \<and>
       once T (\<lambda>j. file_contents v (live d) j) subject request bs c m x" if m: "crash_image live durable d' m" "full_sectors m" for m
    using outcome_images [OF rp(1) gen set rp(2) tear x m]
  proof
    assume "fst (mount_metadata image_disk m) = Ok (vl_metadata v, vl_bank v) \<and> (\<forall>j. file_contents v m j = file_contents v (live d) j)"
    then show ?thesis using unknown np by (intro exI [of _ v]) (simp add: once_def)
  next
    assume h: "fst (mount_metadata image_disk m) = Ok (n, 1 - vl_bank v) \<and> file_contents (published v n) m (rp_id request) = Ok bs \<and>
      (\<forall>j. j \<noteq> rp_id request \<longrightarrow> file_contents (published v n) m j = file_contents v (live d) j)"
    then show ?thesis using new [of m] by (intro exI [of _ "published v n"]) (simp add: published_def)
  qed
  show ?thesis using run [unfolded x] returns images by blast
qed

end

section \<open>Properties\<close>

text \<open>C3 A scoped replacement takes effect exactly once, whatever interrupts it. Let a client start an operation
  under a retry identity that is not retained yet, on any disk that keeps the contract of the trait, failed writes
  torn, and let the checksum tell a header torn between the old and the next one from both. The operation returns
  without a panic. If it succeeds, its receipt is \<open>c\<close>, the volume is safe and the file reads as the requested
  bytes. Wherever the power fails among the commands it issues, or one of them fails, mounting what is left selects a
  volume on which either the identity is still unknown and every file reads as before, so the client may repeat the
  request; or the operation is retained with receipt \<open>c\<close>, the file reads as the requested bytes, every other file is
  unchanged, and repeating the request, on whatever disk and from whatever service instance, returns \<open>c\<close> and
  changes neither volume nor disk.\<close>

theorem scoped_exactly_once:
  assumes disk: "durable_disk D live durable" and safe: "volume_safe live durable d v"
    and prep: "prepare_scoped v d subject inst request bs = Ok p"
    and unknown: "operation_by_retry v subject (rp_workspace request) (rp_retry request) = Err FsOutcomeUnknown"
    and n: "pb_next p = Some n" and tear: "tear_detected (live d (header_sector (1 - vl_bank v))) (publication_header n)"
  shows "\<exists>c. (\<exists>res w d'. replace_scoped D v subject inst request bs d = Some (res, w, d') \<and>
      (res = Ok c \<and> volume_safe live durable d' w \<and> file_contents w (live d') (rp_id request) = Ok bs \<or>
       res = Err FsUncertain \<and> vl_poisoned w)) \<and>
    (\<forall>k. \<exists>res w d1 k1. replace_scoped (cut_disk D) v subject inst request bs (d, k) = Some (res, w, d1, k1) \<and> res \<noteq> Panic \<and>
      (\<forall>m. crash_image live durable d1 m \<longrightarrow> full_sectors m \<longrightarrow>
        (\<exists>w. fst (mount_metadata image_disk m) = Ok (vl_metadata w, vl_bank w) \<and> \<not> vl_poisoned w \<and>
          (operation_by_retry w subject (rp_workspace request) (rp_retry request) = Err FsOutcomeUnknown \<and>
             (\<forall>j. file_contents w m j = file_contents v (live d) j) \<or>
           (\<exists>q. operation_by_retry w subject (rp_workspace request) (rp_retry request) = Ok q \<and> op_receipt q = c \<and> op_bytes q = bs) \<and>
             file_contents w m (rp_id request) = Ok bs \<and>
             (\<forall>j. j \<noteq> rp_id request \<longrightarrow> file_contents w m j = file_contents v (live d) j) \<and>
             (\<forall>E (e :: 'e) i. replace_scoped E w subject i request bs e = Some (Ok c, w, e))))))"
proof -
  obtain s where s: "checked_add (md_sequence (vl_metadata v)) 1 = Some s"
    using prep unknown by (cases rule: prepare_scoped_cases) auto
  define c where "c = rr_receipt (scoped_record subject inst request bs s)"
  have "\<exists>res w d'. replace_scoped D v subject inst request bs d = Some (res, w, d') \<and>
      (res = Ok c \<and> volume_safe live durable d' w \<and> file_contents w (live d') (rp_id request) = Ok bs \<or>
       res = Err FsUncertain \<and> vl_poisoned w)"
    using durable_disk.scoped_once [OF disk safe prep unknown n s tear c_def, of "TYPE('e)"] by blast
  moreover have "\<exists>res w d1 k1. replace_scoped (cut_disk D) v subject inst request bs (d, k) = Some (res, w, d1, k1) \<and> res \<noteq> Panic \<and>
      (\<forall>m. crash_image live durable d1 m \<longrightarrow> full_sectors m \<longrightarrow>
        (\<exists>x. fst (mount_metadata image_disk m) = Ok (vl_metadata x, vl_bank x) \<and>
          once TYPE('e) (\<lambda>j. file_contents v (live d) j) subject request bs c m x))" for k
  proof -
    obtain p' where p': "prepare_scoped v (d, k) subject inst request bs = Ok p'" "pb_next p' = Some n"
      using prepare_scoped_any [OF prep unknown, of "(d, k)"] n by auto
    have safe': "volume_safe (live \<circ> fst) (durable \<circ> fst) (d, k) v"
      using safe by (simp add: volume_safe_def contents_settled_def)
    have tear': "tear_detected ((live \<circ> fst) (d, k) (header_sector (1 - vl_bank v))) (publication_header n)" using tear by simp
    obtain res w x where h: "replace_scoped (cut_disk D) v subject inst request bs (d, k) = Some (res, w, x)"
      "res = Ok c \<and> volume_safe (live \<circ> fst) (durable \<circ> fst) x w \<and>
         once TYPE('e) (\<lambda>j. file_contents v ((live \<circ> fst) (d, k)) j) subject request bs c ((live \<circ> fst) x) w \<and>
         file_contents w ((live \<circ> fst) x) (rp_id request) = Ok bs \<or> res = Err FsUncertain \<and> vl_poisoned w"
      "\<forall>m. crash_image (live \<circ> fst) (durable \<circ> fst) x m \<longrightarrow> full_sectors m \<longrightarrow> (\<exists>y. fst (mount_metadata image_disk m) = Ok (vl_metadata y, vl_bank y) \<and>
         once TYPE('e) (\<lambda>j. file_contents v ((live \<circ> fst) (d, k)) j) subject request bs c m y)"
      using durable_disk.scoped_once [OF cut_keeps_contract [OF disk] safe' p'(1) unknown p'(2) s tear' c_def, of "TYPE('e)"] by blast
    have "res \<noteq> Panic" using h(2) by auto
    moreover obtain d1 k1 where "x = (d1, k1)" by fastforce
    ultimately show ?thesis using h(1,3) by (simp only: cut_images comp_apply fst_conv) blast
  qed
  ultimately show ?thesis unfolding once_def by (intro exI [of _ c] conjI allI) assumption+
qed

definition example_recovery :: recovery where
  "example_recovery = \<lparr>rv_lineage = replicate 16 7, rv_epoch = 1, rv_scoped = True, rv_admissions = False, rv_reasons = False,
     rv_records = [None, None]\<rparr>"

definition example_scoped :: metadata where
  "example_scoped = example_metadata\<lparr>md_recovery := Some example_recovery\<rparr>"

definition example_request :: replacement where
  "example_request = \<lparr>rp_workspace = 2, rp_retry = \<lparr>rt_lineage = replicate 16 7, rt_epoch = 1, rt_key = 9\<rparr>, rp_id = 5, rp_version = 2\<rparr>"

lemma example_scoped_ok: "metadata_ok example_scoped"
proof -
  have "metadata_ok (example_metadata\<lparr>md_recovery := Some example_recovery, md_sequence := md_sequence example_metadata\<rparr>)"
    by (rule metadata_ok_recovery [OF example_metadata_ok])
      (simp_all add: example_recovery_def recovery_ok_def header_version_def example_metadata_def replicate_numeral)
  moreover have "example_metadata\<lparr>md_recovery := Some example_recovery, md_sequence := md_sequence example_metadata\<rparr> = example_scoped"
    by (simp add: example_scoped_def)
  ultimately show ?thesis by simp
qed

lemma example_scoped_prepared:
  "operation_by_retry (settled_volume example_scoped) 1 (rp_workspace example_request) (rp_retry example_request) = Err FsOutcomeUnknown"
  "\<exists>p. prepare_scoped (settled_volume example_scoped) d 1 0 example_request [1, 2, 3] = Ok p"
proof -
  let ?v = "settled_volume example_scoped"
  have v: "vl_metadata ?v = example_scoped" "\<not> vl_poisoned ?v" "md_recovery example_scoped = Some example_recovery"
    by (simp_all add: settled_volume_def example_scoped_def)
  show unknown: "operation_by_retry ?v 1 (rp_workspace example_request) (rp_retry example_request) = Err FsOutcomeUnknown"
    using v by (simp add: operation_by_retry_def scoped_recovery_def current_recovery_def volume_ready_def example_recovery_def
      example_request_def find_retry_def)
  have nodes: "md_nodes example_scoped = md_nodes example_metadata" by (simp add: example_scoped_def)
  have s5: "volume_stat ?v 5 = Ok example_node" and i5: "metadata_index example_scoped 5 = Ok 4"
    using example_nodes nodes v by (simp_all add: volume_stat_Ok metadata_index_def)
  have l: "md_nodes example_metadata ! 1 = root_node 1" "metadata_index example_metadata 2 = Ok 1"
    by (simp_all add: example_metadata_def initial_nodes metadata_index_def node_kinds replicate_numeral example_node_def)
  then have s2: "volume_stat ?v 2 = Ok (root_node 1)" using nodes v by (simp add: volume_stat_Ok metadata_index_def)
  have "objects = Suc (Suc 30)" by simp
  then have "volume_within ?v 5 2" unfolding volume_within_def by (simp only: within_loop.simps s5 s2) (simp add: s5 s2 example_node_def)
  then have res: "volume_resolve ?v 2 5 = Ok example_node" by (simp add: volume_resolve_def s2 s5 node_kinds)
  have seq: "md_sequence example_scoped = 2" by (simp add: example_scoped_def example_metadata_def)
  have w: "volume_writable ?v 5 = Ok example_node" by (simp add: volume_writable_Ok s5, simp add: example_node_def)
  have n: "nd_kind example_node = KFile" "nd_version example_node = 2" by (simp_all add: example_node_def)
  have add: "checked_add (md_sequence example_scoped) 1 = Some 3" by (simp add: seq checked_add_def)
  have rec: "\<exists>p. prepare_recorded ?v d 5 2 [1, 2, 3] nxt out = Ok p" for nxt and out :: "node \<Rightarrow> receipt"
    by (simp add: prepare_recorded_def w n v(1) i5 add Let_def)
  have free: "free_record example_recovery = Ok 0" by (simp add: free_record_def example_recovery_def)
  have req: "rp_workspace example_request = 2" "rp_id example_request = 5" "rp_version example_request = 2" by (simp_all add: example_request_def)
  show "\<exists>p. prepare_scoped ?v d 1 0 example_request [1, 2, 3] = Ok p"
    using unknown unfolding prepare_scoped_def volume_ready_def req by (simp add: res v free add put_record_def rec Let_def)
qed

lemma example_scoped_next:
  assumes "prepare_scoped (settled_volume example_scoped) d 1 0 example_request [1, 2, 3] = Ok p"
  shows "\<exists>n. pb_next p = Some n"
  using assms example_scoped_prepared(1)
  by (cases rule: prepare_scoped_cases) (auto simp: prepare_recorded_def and_then_Ok_iff Let_def publication_new_def split: if_splits)

theorem scoped_exactly_once_witness:
  "\<exists>res w d' c. replace_scoped memory_disk (settled_volume example_scoped) 1 0 example_request [1, 2, 3] (settled_disk example_scoped) =
       Some (res, w, d') \<and> (res = Ok c \<and> file_contents w (mk_live d') 5 = Ok [1, 2, 3] \<or> res = Err FsUncertain)"
proof -
  let ?v = "settled_volume example_scoped" and ?d = "settled_disk example_scoped"
  have safe: "volume_safe mk_live mk_durable ?d ?v" by (rule settled_volume_safe [OF example_scoped_ok])
  obtain p where p: "prepare_scoped ?v ?d 1 0 example_request [1, 2, 3] = Ok p"
    by (rule exE [OF example_scoped_prepared(2) [of ?d]])
  obtain n where n: "pb_next p = Some n" using example_scoped_next [OF p] by blast
  have tear: "tear_detected (mk_live ?d (header_sector (1 - vl_bank ?v))) (publication_header n)"
    using settled_tears [OF publication_header_fields(1)] .
  have "rp_id example_request = 5" by (simp add: example_request_def)
  then show ?thesis
    using scoped_exactly_once [where 'e = unit, OF memory.durable_disk_axioms safe p example_scoped_prepared(1) n tear] by auto
qed

end
