(* ===== verification/Publication_Machine.thy ===== *)
theory Publication_Machine
  imports Operations
begin

text \<open>
  The polled publication as a state machine: its owner polls it and may ask for cancellation at any moment,
  the disk answers every poll as it likes. \<open>pub_trace P p0 p cs\<close> says that \<open>p\<close> is reached from \<open>p0\<close> and that
  the disk was polled for the commands \<open>cs\<close> on the way.
\<close>

section \<open>Traces\<close>

definition submits :: "('d, 't) publication \<Rightarrow> command list" where
  "submits p =
     (if pb_phase p \<in> {PhPreparing, PhReadyToPublish, PhSettling}
      then (case pb_next p of None \<Rightarrow> [] | Some n \<Rightarrow> (case pub_command p n of Ok c \<Rightarrow> [c] | _ \<Rightarrow> [])) else [])"

inductive pub_trace :: "'d poll_disk \<Rightarrow> ('d, 't) publication \<Rightarrow> ('d, 't) publication \<Rightarrow> command list \<Rightarrow> bool" for P p0 where
  start: "pub_trace P p0 p0 []"
| poll: "pub_trace P p0 p cs \<Longrightarrow> pub_poll_advance P p = (r, q) \<Longrightarrow> pub_trace P p0 q (cs @ submits p)"
| cancel: "pub_trace P p0 p cs \<Longrightarrow> pub_cancel p = (r, q) \<Longrightarrow> pub_trace P p0 q cs"

section \<open>The invariant\<close>

definition pub_inv :: "volume \<Rightarrow> metadata \<Rightarrow> command list \<Rightarrow> ('d, 't) publication \<Rightarrow> command list \<Rightarrow> bool" where
  "pub_inv v n all p cs \<longleftrightarrow>
     (if pb_phase p = PhCommitted then pb_volume p = published v n \<and> set cs = set all
      else pub_steps_ok p \<and> pb_next p = Some n \<and> pub_commands p n = all \<and> 2 < length all \<and> vl_bank (pb_volume p) = vl_bank v \<and>
        set cs \<subseteq> set (take (pb_step p + (if pb_pending p then 1 else 0)) all) \<and> set (take (pb_step p) all) \<subseteq> set cs \<and>
        pb_volume p = v\<lparr>vl_poisoned := pb_phase p \<noteq> PhCancelled\<rparr> \<and>
        (case pb_phase p of
           PhPreparing \<Rightarrow> pb_step p < length all - 2 \<and> (pb_stopping p \<longrightarrow> pb_pending p)
         | PhReadyToPublish \<Rightarrow> pb_step p = length all - 2 \<and> \<not> pb_pending p \<and> \<not> pb_stopping p
         | PhSettling \<Rightarrow> pb_step p < length all \<and> length all - 2 \<le> pb_step p \<and> \<not> pb_stopping p
         | PhCancelled \<Rightarrow> pb_step p \<le> length all - 2 \<and> \<not> pb_pending p
         | _ \<Rightarrow> True))"

lemma take_more: "set (take k xs) \<subseteq> set (take (Suc k) xs)"
  by (rule set_take_subset_set_take) simp

lemma take_one: "k < length xs \<Longrightarrow> set (take (Suc k) xs) = insert (xs ! k) (set (take k xs))"
  by (simp add: take_Suc_conv_app_nth)

lemma active_submits:
  assumes "pub_inv v n all p cs" and "pb_phase p \<in> {PhPreparing, PhReadyToPublish, PhSettling}"
  shows "pb_step p < length all" and "submits p = [all ! pb_step p]" and "pub_command p n = Ok (all ! pb_step p)"
proof -
  show less: "pb_step p < length all" using assms by (auto simp: pub_inv_def split: publication_phase.splits)
  have "pub_steps_ok p" "pub_commands p n = all" "pb_next p = Some n" using assms by (auto simp: pub_inv_def)
  then show "pub_command p n = Ok (all ! pb_step p)" using pub_command_nth [of p n] less by simp
  then show "submits p = [all ! pb_step p]" using assms(2) \<open>pb_next p = Some n\<close> by (simp add: submits_def)
qed

lemma poll_pending_inv:
  assumes inv: "pub_inv v n all p cs" and ph: "pb_phase p \<in> {PhPreparing, PhReadyToPublish, PhSettling}"
    and q: "q = p\<lparr>pb_phase := (if pb_step p \<ge> length all - 2 then PhSettling else pb_phase p), pb_pending := True, pb_disk := d\<rparr>"
  shows "pub_inv v n all q (cs @ submits p)"
proof -
  note a = active_submits [OF inv ph]
  have c: "pub_commands q n = pub_commands p n" by (simp add: q pub_commands_def)
  have sets: "set (cs @ submits p) \<subseteq> set (take (pb_step p + 1) all)" "set (take (pb_step p) all) \<subseteq> set (cs @ submits p)"
    using inv ph a(1,2) take_one [OF a(1)] by (auto simp: pub_inv_def split: if_splits)
  then show ?thesis using inv ph a(1) c unfolding pub_inv_def q
    by (auto simp: pub_steps_ok_def split: if_splits publication_phase.splits)
qed

lemma poll_failed_inv:
  assumes inv: "pub_inv v n all p cs" and ph: "pb_phase p \<in> {PhPreparing, PhReadyToPublish, PhSettling}"
    and q: "q = p\<lparr>pb_phase := PhUncertain, pb_pending := True, pb_disk := d\<rparr>"
  shows "pub_inv v n all q (cs @ submits p)"
proof -
  note a = active_submits [OF inv ph]
  have c: "pub_commands q n = pub_commands p n" by (simp add: q pub_commands_def)
  have sets: "set (cs @ submits p) \<subseteq> set (take (pb_step p + 1) all)" "set (take (pb_step p) all) \<subseteq> set (cs @ submits p)"
    using inv ph a(1,2) take_one [OF a(1)] by (auto simp: pub_inv_def split: if_splits)
  then show ?thesis using inv ph c unfolding pub_inv_def q by (auto simp: pub_steps_ok_def split: if_splits)
qed

lemma poll_settled_inv:
  assumes inv: "pub_inv v n all p cs" and ph: "pb_phase p \<in> {PhPreparing, PhReadyToPublish, PhSettling}" and np: "\<not> vl_poisoned v"
    and q: "q = pub_settled (p\<lparr>pb_phase := PhUncertain, pb_pending := True, pb_disk := d\<rparr>) n (length all)"
  shows "pub_inv v n all q (cs @ submits p)"
proof -
  note a = active_submits [OF inv ph]
  have i: "pub_steps_ok p" "pb_next p = Some n" "pub_commands p n = all" "2 < length all" "pb_volume p = v\<lparr>vl_poisoned := True\<rparr>"
    using inv ph by (auto simp: pub_inv_def)
  have stop: "pb_stopping p \<Longrightarrow> pb_step p < length all - 2" using inv ph by (auto simp: pub_inv_def)
  have sets: "set (cs @ submits p) = set (take (Suc (pb_step p)) all)"
    using inv ph a(1,2) take_one [OF a(1)] by (auto simp: pub_inv_def split: if_splits)
  show ?thesis
  proof (cases "Suc (pb_step p) = length all")
    case True
    then have q': "pb_phase q = PhCommitted" "pb_volume q = published v n"
      using stop i(5) by (auto simp: q pub_settled_def Let_def published_def)
    then show ?thesis using sets True by (simp add: pub_inv_def)
  next
    case False
    then have less: "Suc (pb_step p) < length all" using a(1) by simp
    have f: "pb_step q = Suc (pb_step p)" "\<not> pb_pending q" "pb_next q = Some n" "pb_data_steps q = pb_data_steps p"
        "pb_data q = pb_data p" "pb_first_sector q = pb_first_sector p" "pb_stopping q = pb_stopping p"
      using False i(2) by (simp_all add: q pub_settled_def Let_def)
    have vol: "pb_volume q = v\<lparr>vl_poisoned := \<not> pb_stopping p\<rparr>"
      using False i(5) by (simp add: q pub_settled_def Let_def)
    have phase: "pb_phase q = (if pb_stopping p then PhCancelled else if Suc (pb_step p) = length all - 1 then PhSettling
        else if Suc (pb_step p) = length all - 2 then PhReadyToPublish else PhPreparing)"
      using False by (simp add: q pub_settled_def Let_def)
    have "pub_commands q n = pub_commands p n" by (simp add: pub_commands_def f vol i(5))
    then have c: "pub_commands q n = all" using i(3) by simp
    have "pub_steps_ok q" using i(1) f by (simp add: pub_steps_ok_def)
    then show ?thesis
      unfolding pub_inv_def using f c vol sets less stop i(4) np
      by (cases "pb_stopping p") (auto simp: phase split: if_splits)
  qed
qed

lemma poll_inv:
  assumes inv: "pub_inv v n all p cs" and np: "\<not> vl_poisoned v" and step: "pub_poll_advance P p = (r, q)"
  shows "pub_inv v n all q (cs @ submits p)"
proof (cases "pb_phase p \<in> {PhPreparing, PhReadyToPublish, PhSettling}")
  case False
  then have "q = p" "submits p = []" using step by (cases "pb_phase p"; simp add: pub_poll_advance_def pub_drive_def submits_def)+
  then show ?thesis using inv by simp
next
  case True
  note a = active_submits [OF inv True]
  have n: "pb_next p = Some n" "pb_data_steps p + write_steps n = length all"
    using inv True length_pub_commands [of p n] by (auto simp: pub_inv_def)
  obtain x d where x: "command_poll (all ! pb_step p) P (pb_disk p) = (x, d)" by fastforce
  have drive: "pub_poll_advance P p = (let p1 = p\<lparr>pb_phase := PhUncertain, pb_pending := True\<rparr> in
      case (x, d) of
        (PollPending, d) \<Rightarrow> (PollPending, p1\<lparr>pb_disk := d, pb_phase := (if pb_step p \<ge> length all - 2 then PhSettling else pb_phase p)\<rparr>)
      | (PollReady (Err e), d) \<Rightarrow> (PollReady (Err FsUncertain), p1\<lparr>pb_disk := d\<rparr>)
      | (PollReady Panic, d) \<Rightarrow> (PollReady Panic, p1\<lparr>pb_disk := d\<rparr>)
      | (PollReady (Ok _), d) \<Rightarrow> (let p = pub_settled (p1\<lparr>pb_disk := d\<rparr>) n (length all) in (PollReady (Ok (pb_phase p)), p)))"
    using True x n a(3) by (auto simp: pub_poll_advance_def pub_drive_def Let_def)
  show ?thesis
  proof (cases x)
    case PollPending
    then have "q = p\<lparr>pb_phase := (if pb_step p \<ge> length all - 2 then PhSettling else pb_phase p), pb_pending := True, pb_disk := d\<rparr>"
      using drive step by (simp add: Let_def)
    then show ?thesis by (rule poll_pending_inv [OF inv True])
  next
    case (PollReady y)
    show ?thesis
    proof (cases y)
      case (Ok u)
      then have "q = pub_settled (p\<lparr>pb_phase := PhUncertain, pb_pending := True, pb_disk := d\<rparr>) n (length all)"
        using drive step PollReady by (simp add: Let_def)
      then show ?thesis by (rule poll_settled_inv [OF inv True np])
    next
      case (Err e)
      then have "q = p\<lparr>pb_phase := PhUncertain, pb_pending := True, pb_disk := d\<rparr>" using drive step PollReady by (simp add: Let_def)
      then show ?thesis by (rule poll_failed_inv [OF inv True])
    next
      case Panic
      then have "q = p\<lparr>pb_phase := PhUncertain, pb_pending := True, pb_disk := d\<rparr>" using drive step PollReady by (simp add: Let_def)
      then show ?thesis by (rule poll_failed_inv [OF inv True])
    qed
  qed
qed

lemma cancel_inv:
  assumes inv: "pub_inv v n all p cs" and np: "\<not> vl_poisoned v" and step: "pub_cancel p = (r, q)"
  shows "pub_inv v n all q cs"
proof -
  consider "q = p" | "q = p\<lparr>pb_stopping := True\<rparr>" "pb_pending p" "pb_phase p \<in> {PhPreparing, PhReadyToPublish, PhCancelled}"
    | "q = p\<lparr>pb_phase := PhCancelled, pb_volume := (pb_volume p)\<lparr>vl_poisoned := False\<rparr>\<rparr>" "\<not> pb_pending p"
      "pb_phase p \<in> {PhPreparing, PhReadyToPublish, PhCancelled}"
    using step by (auto simp: pub_cancel_def split: if_splits)
  then show ?thesis
  proof cases
    case 2
    have "pub_commands q n = pub_commands p n" by (simp add: 2(1) pub_commands_def)
    then show ?thesis using inv 2 by (auto simp: pub_inv_def pub_steps_ok_def)
  next
    case 3
    have "pub_commands q n = pub_commands p n" by (simp add: 3(1) pub_commands_def)
    then show ?thesis using inv 3 np by (auto simp: pub_inv_def pub_steps_ok_def)
  qed (use inv in simp)
qed

lemma trace_inv:
  assumes "planned v d p0 n pre" and "pub_trace P p0 p cs"
  shows "pub_inv v n (publication_commands pre v n) p cs"
  using assms(2)
proof (induction rule: pub_trace.induct)
  case start
  have len: "2 < length (pub_commands p0 n)"
    using assms(1) length_pub_commands [of p0 n] by (auto simp: planned_def pub_active_def write_steps_def)
  then show ?case using assms(1) by (auto simp: pub_inv_def planned_def pub_active_def)
next
  case (poll p cs r q)
  then show ?case using poll_inv [OF poll.IH _ poll.hyps(2)] assms(1) by (simp add: planned_def)
next
  case (cancel p cs r q)
  then show ?case using cancel_inv [OF cancel.IH _ cancel.hyps(2)] assms(1) by (simp add: planned_def)
qed

section \<open>Properties\<close>

text \<open>C5 Cancellation is never a rollback and never a lie. Take a prepared publication and poll it and ask for its
  cancellation in any order, with any answers of the disk. If it reports Cancelled, the header was never
  submitted and the volume is exactly the old one, in service again; if it reports Committed, every command was
  submitted and the volume is exactly the new one; in every other phase the volume is fenced. Once the header
  has been submitted the publication can only be settling, committed or uncertain, and dropping it at any time
  leaves the old volume in service only when the header was not submitted.\<close>

theorem publication_cancel_safe:
  assumes "planned v d p0 n pre" and "pub_trace P p0 p cs"
  shows "(pb_phase p = PhCancelled \<longrightarrow> pb_volume p = v) \<and>
    (pb_phase p = PhCommitted \<longrightarrow> pb_volume p = published v n \<and> set cs = set (pub_commands p0 n)) \<and>
    (pb_phase p \<notin> {PhCancelled, PhCommitted} \<longrightarrow> pb_volume p = v\<lparr>vl_poisoned := True\<rparr>) \<and>
    (CWrite (header_sector (1 - vl_bank v)) (publication_header n) \<in> set cs \<longrightarrow>
       pb_phase p \<in> {PhSettling, PhCommitted, PhUncertain} \<and> fst (pub_drop p) \<noteq> v)"
proof -
  let ?all = "publication_commands pre v n" and ?h = "CWrite (header_sector (1 - vl_bank v)) (publication_header n)"
  have np: "\<not> vl_poisoned v" and all: "pub_commands p0 n = ?all" and pub: "publishes pre v n"
    using assms(1) by (auto simp: planned_def)
  note inv = trace_inv [OF assms]
  have vol: "pb_phase p = PhCommitted \<Longrightarrow> pb_volume p = published v n \<and> set cs = set ?all"
    "pb_phase p \<noteq> PhCommitted \<Longrightarrow> pb_volume p = v\<lparr>vl_poisoned := pb_phase p \<noteq> PhCancelled\<rparr>"
    using inv by (auto simp: pub_inv_def)
  have late: "?h \<notin> set (take k ?all)" if "k \<le> length ?all - 2" for k
  proof -
    have len: "length ?all - 2 = Suc (length pre)" by (simp add: publication_commands_def)
    have "set (take k ?all) \<subseteq> set (take (Suc (length pre)) ?all)" using that len by (simp add: set_take_subset_set_take)
    also have "take (Suc (length pre)) ?all = pre @ [CFlush]" by (simp add: publication_commands_def)
    finally show ?thesis using publishes_header [OF pub] by auto
  qed
  have head: "pb_phase p \<in> {PhSettling, PhCommitted, PhUncertain}" if "?h \<in> set cs"
  proof (rule ccontr)
    assume ph: "pb_phase p \<notin> {PhSettling, PhCommitted, PhUncertain}"
    then have "set cs \<subseteq> set (take (pb_step p + (if pb_pending p then 1 else 0)) ?all)"
      "pb_step p + (if pb_pending p then 1 else 0) \<le> length ?all - 2"
      using inv by (auto simp: pub_inv_def split: publication_phase.splits)
    then show False using late that by blast
  qed
  have bank: "published v n \<noteq> v"
  proof
    assume "published v n = v"
    then have "vl_metadata (published v n) = vl_metadata v" by simp
    then show False using pub by (auto simp: published_def publishes_def)
  qed
  have "fst (pub_drop p) \<noteq> v" if "?h \<in> set cs"
  proof -
    have "v\<lparr>vl_poisoned := True\<rparr> \<noteq> v" using np by (metis volume.select_convs(3) volume.surjective volume.update_convs(3))
    then show ?thesis using head [OF that] vol bank by (auto simp: pub_drop_def)
  qed
  then show ?thesis using vol head np all by auto
qed

theorem publication_cancel_safe_witness:
  "\<exists>p. prepare_replace (settled_volume example_metadata) (settled_disk example_metadata) 5 2 [1, 2, 3] = Ok p \<and>
     pb_phase (snd (pub_cancel p)) = PhCancelled \<and> pb_volume (snd (pub_cancel p)) = settled_volume example_metadata"
proof -
  let ?v = "settled_volume example_metadata" and ?d = "settled_disk example_metadata"
  obtain p where p: "prepare_replace ?v ?d 5 2 [1, 2, 3] = Ok p" using example_prepared [of ?d] by blast
  have ok: "metadata_ok (vl_metadata ?v)" "vl_bank ?v \<le> 1" using example_metadata_ok by (simp_all add: settled_volume_def)
  have later: "metadata_ok ((vl_metadata ?v)\<lparr>md_sequence := s\<rparr>)" if "checked_add (md_sequence (vl_metadata ?v)) 1 = Some s" for s
    by (rule metadata_ok_later [OF ok(1)]) (use checked_add_1_less [OF that] in simp)
  have "prepared_ok ?v ?d p" by (rule prepare_recorded_planned [OF ok p [unfolded prepare_replace_def] refl later])
  moreover have ph: "pb_phase p = PhPreparing" "\<not> pb_pending p"
    using p by (auto simp: prepare_replace_def elim!: prepare_recorded_Ok simp: publication_new_def)
  ultimately obtain n pre where plan: "planned ?v ?d p n pre"
    by (auto simp: prepared_ok_def publication_replayed_def)
  have c: "pub_cancel p = (fst (pub_cancel p), snd (pub_cancel p))" by simp
  have phase: "pb_phase (snd (pub_cancel p)) = PhCancelled" using ph by (simp add: pub_cancel_def)
  then show ?thesis
    using publication_cancel_safe [OF plan pub_trace.cancel [OF pub_trace.start c]] p by auto
qed

end
