(* ===== verification/Extent.thy ===== *)
theory Extent
  imports Fs_Base Bitmap
begin

unbundle bit_operations_syntax

text \<open>
  Payload extents and free-space accounting, \<open>crates/fs/src/extent.rs\<close>: a run of payload sectors, the
  bounded list of runs of one file, and the free-space map with first-fit allocation and release. Sector
  numbers and counts are 64-bit words because callers choose them: \<open>Extent::end\<close> adds two of them, and the
  sum wraps in a build without overflow checks (the release profile of the workspace).
\<close>

section \<open>Runs\<close>

abbreviation (input) data_sectors :: nat where "data_sectors \<equiv> 131072"

abbreviation (input) map_words :: nat where "map_words \<equiv> 2048"

abbreviation (input) extents_per_file :: nat where "extents_per_file \<equiv> 8"

abbreviation (input) file_sectors_max :: nat where "file_sectors_max \<equiv> 512"

record extent =
  ext_start :: u64
  ext_sectors :: u64

definition extent_end :: "extent \<Rightarrow> u64" where
  "extent_end r = ext_start r + ext_sectors r"

record extents =
  es_runs :: "extent slots"
  es_used :: nat
  es_sectors :: u64

definition extents_new :: extents where
  "extents_new = \<lparr>es_runs = replicate extents_per_file None, es_used = 0, es_sectors = 0\<rparr>"

definition extents_push :: "extents \<Rightarrow> extent \<Rightarrow> (fs_error, unit) outcome \<times> extents" where
  "extents_push x run =
     (if ext_sectors run = 0 then (Err FsInvalid, x)
      else if es_used x = extents_per_file then (Err FsFull, x)
      else or_return (ok_or FsSize (checked_add (es_sectors x) (ext_sectors run))) x (\<lambda>total.
        if unat total > file_sectors_max then (Err FsSize, x)
        else (Ok (), x\<lparr>es_runs := (es_runs x)[es_used x := Some run], es_used := es_used x + 1,
                       es_sectors := total\<rparr>)))"

definition extents_runs :: "extents \<Rightarrow> extent list" where
  "extents_runs x = flatten (take (es_used x) (es_runs x))"

definition extents_bytes :: "extents \<Rightarrow> u64" where
  "extents_bytes x = es_sectors x * 512"

definition offset_of :: "extents \<Rightarrow> nat \<Rightarrow> u64 option" where
  "offset_of x index =
     (if index \<ge> es_used x then None
      else Some (foldl (\<lambda>b run. b + ext_sectors run * 512) 0 (flatten (take index (es_runs x)))))"

section \<open>The free-space map\<close>

record free_space =
  sp_words :: bitmap
  sp_free :: u64

definition count_zeros :: "u64 \<Rightarrow> nat" where
  "count_zeros w = length (filter (\<lambda>i. \<not> bit w i) [0..<64])"

definition space_new :: "bitmap \<Rightarrow> (fs_error, free_space) outcome" where
  "space_new ws =
     (if length ws \<noteq> map_words then Err FsSize
      else Ok \<lparr>sp_words = ws, sp_free = of_nat (sum_list (map count_zeros ws))\<rparr>)"

definition space_fill :: "free_space \<Rightarrow> free_space" where
  "space_fill s = s\<lparr>sp_words := map (\<lambda>_. NOT 0) (sp_words s), sp_free := 0\<rparr>"

definition space_allocate :: "free_space \<Rightarrow> u64 \<Rightarrow> (fs_error, extent) outcome \<times> free_space" where
  "space_allocate s n =
     (if n = 0 \<or> unat n > file_sectors_max then (Err FsSize, s)
      else if n > sp_free s then (Err FsFull, s)
      else case find_run (\<lambda>i. \<not> bit_get (sp_words s) i) (unat n) [0..<data_sectors] 0 of
        None \<Rightarrow> (Err FsFull, s)
      | Some start \<Rightarrow>
          (Ok \<lparr>ext_start = of_nat start, ext_sectors = n\<rparr>,
           s\<lparr>sp_words := bit_set_range (sp_words s) start (start + unat n), sp_free := sp_free s - n\<rparr>))"

definition space_release :: "free_space \<Rightarrow> extent \<Rightarrow> (fs_error, unit) outcome \<times> free_space" where
  "space_release s run =
     (if ext_sectors run = 0 \<or> unat (extent_end run) > data_sectors then (Err FsInvalid, s)
      else if \<exists>i\<in>set [unat (ext_start run)..<unat (extent_end run)]. \<not> bit_get (sp_words s) i
      then (Err FsInvalid, s)
      else (Ok (),
        s\<lparr>sp_words := bit_clear_range (sp_words s) (unat (ext_start run)) (unat (extent_end run)),
          sp_free := sp_free s + ext_sectors run\<rparr>))"

section \<open>A file's runs\<close>

definition run_total :: "extent list \<Rightarrow> nat" where
  "run_total rs = sum_list (map (\<lambda>r. unat (ext_sectors r)) rs)"

definition extents_ok :: "extents \<Rightarrow> bool" where
  "extents_ok x \<longleftrightarrow> length (es_runs x) = extents_per_file \<and> es_used x \<le> extents_per_file \<and>
     (\<forall>i<extents_per_file. es_runs x ! i \<noteq> None \<longleftrightarrow> i < es_used x) \<and>
     unat (es_sectors x) = run_total (extents_runs x) \<and> unat (es_sectors x) \<le> file_sectors_max"

lemma extents_new_ok [simp]: "extents_ok extents_new" "extents_runs extents_new = []"
  by (simp_all add: extents_ok_def extents_new_def extents_runs_def run_total_def)

lemma run_total_append [simp]: "run_total (xs @ ys) = run_total xs + run_total ys"
  by (simp add: run_total_def)

lemma run_total_Cons [simp]: "run_total (x # xs) = unat (ext_sectors x) + run_total xs"
  by (simp add: run_total_def)

lemma run_total_Nil [simp]: "run_total [] = 0"
  by (simp add: run_total_def)

lemma extents_push_Ok:
  assumes "extents_ok x" and "extents_push x run = (Ok (), x')"
  shows "extents_ok x'" and "extents_runs x' = extents_runs x @ [run]"
proof -
  obtain total where t: "checked_add (es_sectors x) (ext_sectors run) = Some total" "unat total \<le> file_sectors_max"
    and used: "es_used x < extents_per_file"
    and x': "x' = x\<lparr>es_runs := (es_runs x)[es_used x := Some run], es_used := es_used x + 1, es_sectors := total\<rparr>"
    using assms
    by (cases "checked_add (es_sectors x) (ext_sectors run)")
      (auto simp: extents_push_def extents_ok_def split: if_splits)
  have "take (es_used x + 1) ((es_runs x)[es_used x := Some run]) = take (es_used x) (es_runs x) @ [Some run]"
    using used assms(1) by (simp add: extents_ok_def take_Suc_conv_app_nth)
  then show r: "extents_runs x' = extents_runs x @ [run]" by (simp add: extents_runs_def x')
  have "unat total = run_total (extents_runs x) + unat (ext_sectors run)"
    using checked_add_Some_unat [OF t(1)] assms(1) by (simp add: extents_ok_def)
  then show "extents_ok x'"
    using assms(1) used t(2) unfolding extents_ok_def r by (auto simp: x' nth_list_update)
qed

lemma extents_push_refused: "fst (extents_push x run) \<noteq> Ok () \<Longrightarrow> snd (extents_push x run) = x"
  by (cases "checked_add (es_sectors x) (ext_sectors run)") (auto simp: extents_push_def)

lemma unat_foldl_offsets:
  "unat b + run_total rs * 512 < 2 ^ 64 \<Longrightarrow>
   unat (foldl (\<lambda>b run. b + ext_sectors run * 512) b rs) = unat b + run_total rs * 512"
proof (induction rs arbitrary: b)
  case (Cons r rs)
  have small: "unat (ext_sectors r * 512) = unat (ext_sectors r) * 512"
    using Cons.prems by (simp add: unat_word_ariths algebra_simps)
  then have "unat (b + ext_sectors r * 512) = unat b + unat (ext_sectors r) * 512"
    using Cons.prems by (simp add: unat_word_ariths algebra_simps)
  with Cons.IH [of "b + ext_sectors r * 512"] Cons.prems show ?case by (simp add: algebra_simps)
qed simp

lemma flatten_take_used:
  assumes "extents_ok x" and "i \<le> es_used x"
  shows "flatten (take i (es_runs x)) = take i (extents_runs x)"
proof -
  have some: "es_runs x ! j \<noteq> None" if "j < es_used x" for j using assms(1) that by (auto simp: extents_ok_def)
  have whole: "flatten (take k (es_runs x)) = map (\<lambda>j. the (es_runs x ! j)) [0..<k]" if "k \<le> es_used x" for k
    using that
  proof (induction k)
    case (Suc k)
    then have "k < length (es_runs x)" using assms(1) by (simp add: extents_ok_def)
    then show ?case using Suc some [of k] by (auto simp: take_Suc_conv_app_nth)
  qed simp
  show ?thesis using assms(2) whole [of i] whole [of "es_used x"] by (simp add: extents_runs_def take_map)
qed

lemma length_flatten_full: "None \<notin> set xs \<Longrightarrow> length (flatten xs) = length xs"
  by (induction xs) (auto simp: eq_commute [of None] split: option.splits)

lemma length_extents_runs: "extents_ok x \<Longrightarrow> length (extents_runs x) = es_used x"
proof -
  assume x: "extents_ok x"
  have "None \<notin> set (take (es_used x) (es_runs x))"
    using x by (auto simp: extents_ok_def in_set_conv_nth)
  from length_flatten_full [OF this] show ?thesis using x by (simp add: extents_runs_def extents_ok_def)
qed

lemma run_total_take_le: "run_total (take i rs) \<le> run_total rs"
  using run_total_append [of "take i rs" "drop i rs"] by simp

text \<open>The byte offset of a run is the length of the runs before it; nothing wraps below the file limit.\<close>

lemma offset_of_exact:
  assumes "extents_ok x"
  shows "offset_of x i = Some b \<longleftrightarrow>
    i < length (extents_runs x) \<and> b = of_nat (run_total (take i (extents_runs x)) * 512)"
proof (cases "i < es_used x")
  case True
  have "run_total (take i (extents_runs x)) \<le> file_sectors_max"
    using run_total_take_le [of i "extents_runs x"] assms by (simp add: extents_ok_def)
  then have small: "unat (0 :: u64) + run_total (take i (extents_runs x)) * 512 < 2 ^ 64" by simp
  have "foldl (\<lambda>b run. b + ext_sectors run * 512) 0 (take i (extents_runs x)) =
      of_nat (run_total (take i (extents_runs x)) * 512)"
    using arg_cong [OF unat_foldl_offsets [OF small], of "of_nat :: nat \<Rightarrow> u64"] by simp
  then show ?thesis
    using True flatten_take_used [OF assms, of i] length_extents_runs [OF assms] by (auto simp: offset_of_def)
qed (simp add: offset_of_def length_extents_runs [OF assms])

section \<open>Free-space accounting\<close>

definition space_ok :: "free_space \<Rightarrow> bool" where
  "space_ok s \<longleftrightarrow> length (sp_words s) = map_words \<and> unat (sp_free s) = data_sectors - card (marked (sp_words s))"

lemma marked_append:
  "marked (ws @ [w]) = marked ws \<union> (\<lambda>i. 64 * length ws + i) ` {i. i < 64 \<and> bit w i}"
proof (rule set_eqI)
  fix k
  show "k \<in> marked (ws @ [w]) \<longleftrightarrow> k \<in> marked ws \<union> (\<lambda>i. 64 * length ws + i) ` {i. i < 64 \<and> bit w i}"
  proof (cases "k < 64 * length ws")
    case True
    then have "k div 64 < length ws" by (simp add: div_less_iff_less_mult mult.commute)
    then show ?thesis using True by (auto simp: marked_def nth_append)
  next
    case False
    then obtain i where k: "k = 64 * length ws + i" by (metis le_Suc_ex linorder_not_less)
    then show ?thesis by (cases "i < 64") (auto simp: marked_def nth_append)
  qed
qed

lemma marked_below: "marked ws \<subseteq> {..<64 * length ws}"
  by (auto simp: marked_def)

lemma count_zeros_card: "count_zeros w = 64 - card {i. i < 64 \<and> bit w i}"
proof -
  have "count_zeros w = card {i. i < 64 \<and> \<not> bit w i}"
    by (simp add: count_zeros_def distinct_length_filter Int_def conj_commute)
  also have "{i. i < 64 \<and> \<not> bit w i} = {..<64} - {i. i < 64 \<and> bit w i}" by auto
  also have "card \<dots> = 64 - card {i. i < 64 \<and> bit w i}" by (subst card_Diff_subset) auto
  finally show ?thesis .
qed

lemma sum_count_zeros: "sum_list (map count_zeros ws) = 64 * length ws - card (marked ws)"
proof (induction ws rule: rev_induct)
  case Nil
  then show ?case by simp
next
  case (snoc w ws)
  have c: "card (marked ws) \<le> 64 * length ws"
    using card_mono [OF _ marked_below [of ws]] by simp
  have d: "card {i. i < 64 \<and> bit w i} \<le> 64"
    using card_mono [of "{..<64}" "{i. i < 64 \<and> bit w i}"] by auto
  have "card (marked (ws @ [w])) = card (marked ws) + card {i. i < 64 \<and> bit w i}"
    unfolding marked_append
    by (subst card_Un_disjoint) (auto simp: card_image inj_on_def marked_def)
  then show ?case using snoc c d by (simp add: count_zeros_card)
qed

lemma unat_of_nat64: "n < 2 ^ 64 \<Longrightarrow> unat (of_nat n :: u64) = n"
  by (simp add: unsigned_of_nat take_bit_nat_eq_self)

lemma space_new_ok: "space_new ws = Ok s \<Longrightarrow> space_ok s \<and> sp_words s = ws"
proof -
  assume new: "space_new ws = Ok s"
  then have len: "length ws = map_words" by (simp add: space_new_def split: if_splits)
  have "unat (of_nat (data_sectors - card (marked ws)) :: u64) = data_sectors - card (marked ws)"
    by (rule unat_of_nat64) simp
  then show ?thesis using new len by (auto simp only: space_new_def space_ok_def sum_count_zeros) auto
qed

lemma space_ok_bound: "space_ok s \<Longrightarrow> card (marked (sp_words s)) \<le> data_sectors"
  using card_mono [OF _ marked_below [of "sp_words s"]] by (simp add: space_ok_def)

lemma run_free_marked:
  "length ws = map_words \<Longrightarrow> a + n \<le> data_sectors \<Longrightarrow>
   run_free (\<lambda>i. \<not> bit_get ws i) a n \<longleftrightarrow> {a..<a + n} \<inter> marked ws = {}"
  by (auto simp: run_free_def in_marked_iff)

lemma card_run_free:
  assumes "space_ok s" and "a + n \<le> data_sectors" and "{a..<a + n} \<inter> marked (sp_words s) = {}"
  shows "n \<le> unat (sp_free s)"
proof -
  have "card ({a..<a + n} \<union> marked (sp_words s)) = n + card (marked (sp_words s))"
    using assms(3) by (subst card_Un_disjoint) auto
  moreover have "{a..<a + n} \<union> marked (sp_words s) \<subseteq> {..<data_sectors}"
    using assms(1,2) marked_below [of "sp_words s"] by (auto simp: space_ok_def)
  ultimately have "n + card (marked (sp_words s)) \<le> data_sectors"
    by (metis card_lessThan card_mono finite_lessThan)
  then show ?thesis using assms(1) by (simp add: space_ok_def)
qed

lemma space_allocate_taken:
  assumes "space_ok s" and "unat n \<le> unat (sp_free s)" and "a + unat n \<le> data_sectors"
    and "{a..<a + unat n} \<inter> marked (sp_words s) = {}"
    and "s' = s\<lparr>sp_words := bit_set_range (sp_words s) a (a + unat n), sp_free := sp_free s - n\<rparr>"
  shows "marked (sp_words s') = marked (sp_words s) \<union> {a..<a + unat n}" and "space_ok s'"
proof -
  show m: "marked (sp_words s') = marked (sp_words s) \<union> {a..<a + unat n}"
    using assms(1,3,5) by (simp add: marked_set_range space_ok_def)
  have "card (marked (sp_words s')) = card (marked (sp_words s)) + unat n"
    unfolding m using assms(4) by (subst card_Un_disjoint) auto
  moreover have "unat (sp_free s - n) = unat (sp_free s) - unat n"
    using assms(2) by (simp add: unat_sub word_le_nat_alt)
  ultimately show "space_ok s'" using assms(1,5) by (simp add: space_ok_def)
qed

lemma space_release_given:
  assumes "space_ok s" and "a + n \<le> data_sectors" and "{a..<a + n} \<subseteq> marked (sp_words s)" and "n = unat m"
    and "s' = s\<lparr>sp_words := bit_clear_range (sp_words s) a (a + n), sp_free := sp_free s + m\<rparr>"
  shows "marked (sp_words s') = marked (sp_words s) - {a..<a + n}" and "space_ok s'"
proof -
  show m: "marked (sp_words s') = marked (sp_words s) - {a..<a + n}"
    using assms(1,2,5) by (simp add: marked_clear_range space_ok_def)
  have n: "n \<le> card (marked (sp_words s))" using card_mono [OF finite_marked assms(3)] by simp
  have "card (marked (sp_words s')) = card (marked (sp_words s)) - n"
    unfolding m using assms(3) by (subst card_Diff_subset) auto
  moreover have "unat (sp_free s + m) = unat (sp_free s) + n"
    using n assms(1,4) space_ok_bound [OF assms(1)] by (simp add: space_ok_def unat_word_ariths)
  ultimately show "space_ok s'" using assms(1,5) n space_ok_bound [OF assms(1)] by (simp add: space_ok_def)
qed

text \<open>
  The sum in \<open>Extent::end\<close> is not checked. A run whose end wraps around to a small number passes the
  bounds test, both loops over its sectors are empty, and the free counter grows although no bit changed.
\<close>

theorem release_wrapped_run_corrupts_count:
  assumes "2 ^ 64 \<le> unat (ext_start r) + unat (ext_sectors r)" and "unat (extent_end r) \<le> data_sectors"
    and "space_ok s"
  shows "space_release s r = (Ok (), s\<lparr>sp_free := sp_free s + ext_sectors r\<rparr>)" and
    "\<not> space_ok (s\<lparr>sp_free := sp_free s + ext_sectors r\<rparr>)"
proof -
  have nz: "ext_sectors r \<noteq> 0"
  proof
    assume "ext_sectors r = 0"
    then show False using assms(1) unsigned_less [of "ext_start r", where 'a = nat] by simp
  qed
  have e: "unat (extent_end r) = unat (ext_start r) + unat (ext_sectors r) - 2 ^ 64"
    using assms(1) unsigned_less [of "ext_start r", where 'a = nat] unsigned_less [of "ext_sectors r", where 'a = nat]
    by (simp add: extent_end_def unat_word_ariths le_mod_geq)
  then have "unat (extent_end r) < unat (ext_start r)"
    using assms(1) unsigned_less [of "ext_sectors r", where 'a = nat] by simp
  then show "space_release s r = (Ok (), s\<lparr>sp_free := sp_free s + ext_sectors r\<rparr>)"
    using nz assms(2) by (simp add: space_release_def bit_clear_range_def)
  show "\<not> space_ok (s\<lparr>sp_free := sp_free s + ext_sectors r\<rparr>)"
  proof
    assume "space_ok (s\<lparr>sp_free := sp_free s + ext_sectors r\<rparr>)"
    then have "unat (sp_free s + ext_sectors r) = unat (sp_free s)" using assms(3) by (simp add: space_ok_def)
    then show False using nz by (metis add_cancel_right_right unat_eq_zero word_unat_eq_iff)
  qed
qed

theorem release_wrapped_run_example:
  assumes "space_ok s"
  shows "space_release s \<lparr>ext_start = 0xffffffffffffffff, ext_sectors = 2\<rparr> = (Ok (), s\<lparr>sp_free := sp_free s + 2\<rparr>)"
  using release_wrapped_run_corrupts_count(1) [of "\<lparr>ext_start = 0xffffffffffffffff, ext_sectors = 2\<rparr>", OF _ _ assms]
  by (simp add: extent_end_def)

section \<open>Properties\<close>

text \<open>First-fit allocation is complete and exact: a run of a permitted length is granted exactly when
  some run of that many free sectors exists, it is the lowest one, only its sectors become used and the
  free counter stays equal to the number of free sectors; every refusal changes nothing.\<close>

theorem extent_allocate_lowest:
  assumes "space_ok s" and "space_allocate s n = (res, s')"
  shows "if n = 0 \<or> unat n > file_sectors_max then res = Err FsSize \<and> s' = s
    else if \<exists>b. b + unat n \<le> data_sectors \<and> {b..<b + unat n} \<inter> marked (sp_words s) = {}
    then \<exists>a. res = Ok \<lparr>ext_start = of_nat a, ext_sectors = n\<rparr> \<and> a + unat n \<le> data_sectors \<and>
      {a..<a + unat n} \<inter> marked (sp_words s) = {} \<and> (\<forall>b<a. {b..<b + unat n} \<inter> marked (sp_words s) \<noteq> {}) \<and>
      marked (sp_words s') = marked (sp_words s) \<union> {a..<a + unat n} \<and> space_ok s'
    else res = Err FsFull \<and> s' = s"
proof (cases "n = 0 \<or> unat n > file_sectors_max")
  case False
  let ?free = "\<lambda>i. \<not> bit_get (sp_words s) i"
  have pos: "0 < unat n" using False by (simp add: word_unat_eq_iff)
  have len: "length (sp_words s) = map_words" using assms(1) by (simp add: space_ok_def)
  show ?thesis
  proof (cases "find_run ?free (unat n) [0..<data_sectors] 0")
    case None
    have "\<not> (\<exists>b. b + unat n \<le> data_sectors \<and> {b..<b + unat n} \<inter> marked (sp_words s) = {})"
      using find_run_None [OF pos None] run_free_marked [OF len] by blast
    then show ?thesis using assms(2) False None by (auto simp: space_allocate_def split: if_splits)
  next
    case (Some a)
    note fr = find_run_Some [OF pos Some]
    then have a: "a + unat n \<le> data_sectors" "{a..<a + unat n} \<inter> marked (sp_words s) = {}"
      using run_free_marked [OF len] by auto
    have low: "{b..<b + unat n} \<inter> marked (sp_words s) \<noteq> {}" if "b < a" for b
      using fr that a(1) run_free_marked [OF len, of b "unat n"] by auto
    have "\<not> n > sp_free s" using card_run_free [OF assms(1) a] by (simp add: word_less_nat_alt)
    then have r: "res = Ok \<lparr>ext_start = of_nat a, ext_sectors = n\<rparr>"
      "s' = s\<lparr>sp_words := bit_set_range (sp_words s) a (a + unat n), sp_free := sp_free s - n\<rparr>"
      using assms(2) False Some by (auto simp: space_allocate_def)
    have "marked (sp_words s') = marked (sp_words s) \<union> {a..<a + unat n}" "space_ok s'"
      using space_allocate_taken [OF assms(1) card_run_free [OF assms(1) a] a r(2)] by auto
    then show ?thesis using False a low r(1) by auto
  qed
qed (use assms(2) in \<open>auto simp: space_allocate_def\<close>)

theorem extent_allocate_lowest_witness:
  "\<exists>s res s'. space_ok s \<and> space_allocate s 3 = (res, s') \<and> res = Ok \<lparr>ext_start = 0, ext_sectors = 3\<rparr>"
proof -
  obtain s where new: "space_new (replicate map_words 0) = Ok s" by (simp add: space_new_def)
  then have s: "space_ok s" "marked (sp_words s) = {}" using space_new_ok [OF new] by auto
  obtain res s' where r: "space_allocate s 3 = (res, s')" by fastforce
  have "\<exists>b. b + unat (3 :: u64) \<le> data_sectors \<and> {b..<b + unat (3 :: u64)} \<inter> marked (sp_words s) = {}"
    using s(2) by (intro exI [of _ 0]) simp
  then obtain a where a: "res = Ok \<lparr>ext_start = of_nat a, ext_sectors = 3\<rparr>"
    "\<forall>b<a. {b..<b + unat (3 :: u64)} \<inter> marked (sp_words s) \<noteq> {}"
    using extent_allocate_lowest [OF s(1) r] by (auto split: if_splits)
  then have "a = 0" using s(2) by auto
  then show ?thesis using s(1) r a(1) by auto
qed

text \<open>C39 What \<open>release\<close> does with any run, in every consistent free map. When the end of the run does not wrap
  around, it succeeds exactly when every sector of the nonempty run is in use, frees just those sectors and keeps
  the counter exact, and a second release of the run is refused; anything else is \<open>Invalid\<close> and changes nothing. A
  run whose end wraps around is refused in the same way, unless the wrapped end lies on the device: then the
  unchecked sum lets it pass, the bits stay as they are and the free counter alone grows.\<close>

theorem extent_release_exact:
  assumes "space_ok s" and "space_release s r = (res, s')"
  shows "if 2 ^ 64 \<le> unat (ext_start r) + unat (ext_sectors r)
    then if unat (extent_end r) \<le> data_sectors then res = Ok () \<and> s' = s\<lparr>sp_free := sp_free s + ext_sectors r\<rparr>
         else res = Err FsInvalid \<and> s' = s
    else if ext_sectors r \<noteq> 0 \<and> {unat (ext_start r)..<unat (ext_start r) + unat (ext_sectors r)} \<subseteq> marked (sp_words s)
    then res = Ok () \<and> space_ok s' \<and> fst (space_release s' r) = Err FsInvalid \<and>
      marked (sp_words s') = marked (sp_words s) - {unat (ext_start r)..<unat (ext_start r) + unat (ext_sectors r)}
    else res = Err FsInvalid \<and> s' = s"
proof (cases "2 ^ 64 \<le> unat (ext_start r) + unat (ext_sectors r)")
  case True
  then show ?thesis
    using assms(2) release_wrapped_run_corrupts_count(1) [OF True _ assms(1)] by (auto simp: space_release_def not_le)
next
  case False
  let ?a = "unat (ext_start r)" and ?n = "unat (ext_sectors r)"
  have e: "unat (extent_end r) = ?a + ?n" using False by (simp add: extent_end_def unat_word_ariths)
  have len: "64 * length (sp_words t) = data_sectors" if "space_ok t" for t using that by (simp add: space_ok_def)
  have test: "(\<exists>i\<in>set [?a..<?a + ?n]. \<not> bit_get (sp_words t) i) \<longleftrightarrow> \<not> {?a..<?a + ?n} \<subseteq> marked (sp_words t)"
    if "?a + ?n \<le> data_sectors" "space_ok t" for t
    using that len [OF that(2)] by (auto simp: in_marked_iff)
  have "if ext_sectors r \<noteq> 0 \<and> {?a..<?a + ?n} \<subseteq> marked (sp_words s)
    then res = Ok () \<and> space_ok s' \<and> fst (space_release s' r) = Err FsInvalid \<and>
      marked (sp_words s') = marked (sp_words s) - {?a..<?a + ?n}
    else res = Err FsInvalid \<and> s' = s"
  proof (cases "ext_sectors r \<noteq> 0 \<and> {?a..<?a + ?n} \<subseteq> marked (sp_words s)")
    case True
    then have n: "0 < ?n" by (simp add: unat_gt_0)
    then have "?a + ?n - 1 \<in> marked (sp_words s)" using True by (auto simp: subset_iff)
    then have b: "?a + ?n \<le> data_sectors" using marked_below [of "sp_words s"] len [OF assms(1)] by auto
    then have r: "res = Ok ()" "s' = s\<lparr>sp_words := bit_clear_range (sp_words s) ?a (?a + ?n), sp_free := sp_free s + ext_sectors r\<rparr>"
      using assms(2) True test [OF b assms(1)] by (auto simp: space_release_def e)
    note g = space_release_given [OF assms(1) b conjunct2 [OF True] refl r(2)]
    have "?a \<in> {?a..<?a + ?n}" "?a \<notin> marked (sp_words s')" using g(1) n by auto
    then have "\<not> {?a..<?a + ?n} \<subseteq> marked (sp_words s')" by blast
    then have "fst (space_release s' r) = Err FsInvalid" using test [OF b g(2)] by (simp add: space_release_def e)
    then show ?thesis using True r(1) g by simp
  next
    case False
    then show ?thesis using assms(2) test [OF _ assms(1)] by (auto simp: space_release_def e split: if_splits)
  qed
  then show ?thesis using False by simp
qed

theorem extent_release_exact_witness:
  "\<exists>s r s'. space_ok s \<and> ext_sectors r = 2 \<and> space_release s r = (Ok (), s') \<and> space_ok s' \<and>
     marked (sp_words s') = marked (sp_words s) - {7..<9} \<and> fst (space_release s' r) = Err FsInvalid"
proof -
  obtain s where new: "space_new (replicate map_words (- 1)) = Ok s" by (simp add: space_new_def)
  then have s: "space_ok s" "sp_words s = replicate map_words (- 1)" using space_new_ok [OF new] by auto
  let ?r = "\<lparr>ext_start = 7, ext_sectors = 2\<rparr>"
  have run: "{7..<9} \<subseteq> marked (sp_words s)" by (auto simp: s(2) in_marked_iff bit_get_def)
  obtain res s' where r: "space_release s ?r = (res, s')" by fastforce
  show ?thesis using extent_release_exact [OF s(1) r] run s(1) r by (intro exI [of _ s] exI [of _ ?r] exI [of _ s']) simp
qed

end
