(* ===== verification/Kernel_Time.thy ===== *)
theory Kernel_Time
  imports Prelude
begin

text \<open>
  Deadlines and wait sets of \<open>kernel/src/time\<close>. A deadline is an absolute tick; a wait set is an
  array of optional deadlines. The theorems say that \<open>complete\<close> fires exactly the due slots, once, and
  that the conversion of ticks to nanoseconds is the exact floor, saturated.
\<close>

section \<open>Deadlines\<close>

datatype deadline = Deadline u64

datatype overflow = Overflow

primrec deadline_ticks :: "deadline \<Rightarrow> u64" where
  "deadline_ticks (Deadline t) = t"

definition deadline_after :: "u64 \<Rightarrow> u64 \<Rightarrow> (overflow, deadline) outcome" where
  "deadline_after now ticks = ok_or Overflow (map_option Deadline (checked_add now ticks))"

definition deadline_reached :: "deadline \<Rightarrow> u64 \<Rightarrow> bool" where
  "deadline_reached d now \<longleftrightarrow> now \<ge> deadline_ticks d"

definition ticks_to_nanos :: "u64 \<Rightarrow> u16 \<Rightarrow> u32 \<Rightarrow> u64 option" where
  "ticks_to_nanos ticks divisor hz =
     (if hz = 0 \<or> divisor = 0 then None
      else let nanos = unat ticks * unat divisor * 1000000000 div unat hz
           in Some (of_nat (min nanos (u64_limit - 1))))"

section \<open>Wait sets\<close>

datatype wait_error = InvalidSlot | Occupied

record wait_set =
  wait_slots :: "deadline slots"

definition waits_new :: "nat \<Rightarrow> wait_set" where
  "waits_new n = \<lparr>wait_slots = replicate n None\<rparr>"

definition waits_register :: "wait_set \<Rightarrow> nat \<Rightarrow> deadline \<Rightarrow> (wait_error, unit) outcome \<times> wait_set" where
  "waits_register w slot d =
     (if slot \<ge> length (wait_slots w) then (Err InvalidSlot, w)
      else if wait_slots w ! slot \<noteq> None then (Err Occupied, w)
      else (Ok (), w\<lparr>wait_slots := (wait_slots w)[slot := Some d]\<rparr>))"

definition waits_cancel :: "wait_set \<Rightarrow> nat \<Rightarrow> (wait_error, bool) outcome \<times> wait_set" where
  "waits_cancel w slot =
     (if slot \<ge> length (wait_slots w) then (Err InvalidSlot, w)
      else (Ok (wait_slots w ! slot \<noteq> None), w\<lparr>wait_slots := (wait_slots w)[slot := None]\<rparr>))"

definition next_deadline :: "wait_set \<Rightarrow> deadline option" where
  "next_deadline w = min_by_key deadline_ticks (flatten (wait_slots w))"

definition slot_due :: "deadline option \<Rightarrow> u64 \<Rightarrow> bool" where
  "slot_due s now = (case s of None \<Rightarrow> False | Some d \<Rightarrow> deadline_reached d now)"

text \<open>\<open>core::array::from_fn\<close> calls the closure once per index, in order.\<close>

fun complete_from :: "nat \<Rightarrow> nat \<Rightarrow> u64 \<Rightarrow> deadline slots \<Rightarrow> bool list \<times> deadline slots" where
  "complete_from i 0 now slots = ([], slots)"
| "complete_from i (Suc n) now slots =
     (if slot_due (slots ! i) now
      then (case complete_from (Suc i) n now (slots[i := None]) of (fired, s) \<Rightarrow> (True # fired, s))
      else (case complete_from (Suc i) n now slots of (fired, s) \<Rightarrow> (False # fired, s)))"

definition waits_complete :: "wait_set \<Rightarrow> u64 \<Rightarrow> bool list \<times> wait_set" where
  "waits_complete w now =
     (case complete_from 0 (length (wait_slots w)) now (wait_slots w) of
        (fired, s) \<Rightarrow> (fired, w\<lparr>wait_slots := s\<rparr>))"

section \<open>Lemmas\<close>

lemma complete_from_eq:
  "complete_from (length done_slots) (length rest) now (done_slots @ rest) =
     (map (\<lambda>s. slot_due s now) rest, done_slots @ map (\<lambda>s. if slot_due s now then None else s) rest)"
proof (induction rest arbitrary: done_slots)
  case (Cons s rest)
  let ?s = "if slot_due s now then None else s"
  have "complete_from (Suc (length done_slots)) (length rest) now (done_slots @ ?s # rest) =
     (map (\<lambda>s. slot_due s now) rest, done_slots @ ?s # map (\<lambda>s. if slot_due s now then None else s) rest)"
    using Cons.IH [of "done_slots @ [?s]"] by simp
  then show ?case by (cases "slot_due s now") simp_all
qed simp

lemma waits_complete_eq:
  "waits_complete w now =
     (map (\<lambda>s. slot_due s now) (wait_slots w),
      w\<lparr>wait_slots := map (\<lambda>s. if slot_due s now then None else s) (wait_slots w)\<rparr>)"
  using complete_from_eq [of "[]" "wait_slots w" now] by (simp add: waits_complete_def)

lemma next_deadline_Some:
  assumes "next_deadline w = Some d"
  shows "Some d \<in> set (wait_slots w)" and "Some e \<in> set (wait_slots w) \<Longrightarrow> deadline_ticks d \<le> deadline_ticks e"
  using min_by_key_Some [OF assms [unfolded next_deadline_def]] by (auto simp: set_flatten)

section \<open>Properties\<close>

text \<open>\<open>complete\<close> reports exactly the slots whose deadline is due and clears exactly those, equal
  deadlines included; afterwards the earliest remaining deadline is still in the future, so completing
  again at the same time reports nothing.\<close>

theorem complete_fires_due_once:
  assumes "waits_complete w now = (fired, w')"
  shows "length fired = length (wait_slots w) \<and>
    (\<forall>i<length (wait_slots w).
       fired ! i = (\<exists>d. wait_slots w ! i = Some d \<and> deadline_ticks d \<le> now) \<and>
       wait_slots w' ! i = (if fired ! i then None else wait_slots w ! i)) \<and>
    (\<forall>d. next_deadline w' = Some d \<longrightarrow> now < deadline_ticks d) \<and>
    fst (waits_complete w' now) = replicate (length (wait_slots w)) False"
proof -
  have due: "slot_due s now \<longleftrightarrow> (\<exists>d. s = Some d \<and> deadline_ticks d \<le> now)" for s
    by (cases s) (auto simp: slot_due_def deadline_reached_def)
  have fired: "fired = map (\<lambda>s. slot_due s now) (wait_slots w)"
    and slots: "wait_slots w' = map (\<lambda>s. if slot_due s now then None else s) (wait_slots w)"
    using assms by (auto simp: waits_complete_eq)
  have late: "\<not> slot_due s now" if "s \<in> set (wait_slots w')" for s
    using that by (auto simp: slots slot_due_def)
  have "now < deadline_ticks d" if "next_deadline w' = Some d" for d
    using late [OF next_deadline_Some(1) [OF that]] by (simp add: slot_due_def deadline_reached_def)
  moreover have "fst (waits_complete w' now) = replicate (length (wait_slots w)) False"
  proof (rule nth_equalityI)
    fix i assume "i < length (fst (waits_complete w' now))"
    then show "fst (waits_complete w' now) ! i = replicate (length (wait_slots w)) False ! i"
      by (auto simp: waits_complete_eq slots slot_due_def)
  qed (simp add: waits_complete_eq slots)
  ultimately show ?thesis by (simp add: fired slots due)
qed

theorem complete_fires_due_once_witness:
  "\<exists>fired w'. waits_complete \<lparr>wait_slots = [Some (Deadline 5), None, Some (Deadline 9), Some (Deadline 5)]\<rparr> 5 = (fired, w') \<and>
     fired = [True, False, False, True] \<and> fst (waits_complete w' 5) = replicate 4 False"
proof -
  let ?w = "\<lparr>wait_slots = [Some (Deadline 5), None, Some (Deadline 9), Some (Deadline 5)]\<rparr>"
  have "fst (waits_complete ?w 5) = [True, False, False, True]"
    by (simp add: waits_complete_eq slot_due_def deadline_reached_def)
  moreover have eq: "waits_complete ?w 5 = (fst (waits_complete ?w 5), snd (waits_complete ?w 5))" by simp
  moreover have "length (wait_slots ?w) = 4" by simp
  ultimately show ?thesis using complete_fires_due_once [OF eq] by metis
qed

text \<open>The conversion of ticks to nanoseconds has no rounding drift: unless it saturates at the
  largest 64-bit value, the result \<open>n\<close> is the exact floor of \<open>ticks * divisor * 10^9 / input_hz\<close>.\<close>

theorem ticks_to_nanos_floor:
  assumes "ticks_to_nanos t d hz = Some n" and "unat n < u64_limit - 1"
  shows "unat n * unat hz \<le> unat t * unat d * 1000000000 \<and>
    unat t * unat d * 1000000000 < (unat n + 1) * unat hz"
proof -
  let ?x = "unat t * unat d * 1000000000"
  have hz: "0 < unat hz" using assms(1) by (auto simp: ticks_to_nanos_def word_unat_eq_iff split: if_splits)
  have n: "n = of_nat (min (?x div unat hz) (u64_limit - 1))"
    using assms(1) by (auto simp: ticks_to_nanos_def Let_def split: if_splits)
  have "min (?x div unat hz) (u64_limit - 1) < 2 ^ 64" by (simp add: u64_limit_def min_less_iff_disj)
  then have "unat n = min (?x div unat hz) (u64_limit - 1)"
    by (simp add: n unsigned_of_nat take_bit_nat_eq_self)
  then have "unat n = ?x div unat hz" using assms(2) by (simp add: min_def split: if_splits)
  moreover have "?x div unat hz * unat hz \<le> ?x" "?x < (?x div unat hz + 1) * unat hz"
    using hz dividend_less_div_times [OF hz, of ?x] by (simp_all add: div_times_less_eq_dividend)
  ultimately show ?thesis by simp
qed

theorem ticks_to_nanos_floor_witness:
  "ticks_to_nanos 3 11932 1193182 = Some 30000452 \<and> unat (30000452 :: u64) * 1193182 \<le> 3 * 11932 * 1000000000"
proof -
  have t: "ticks_to_nanos 3 11932 1193182 = Some 30000452"
    by (simp add: ticks_to_nanos_def u64_limit_def)
  show ?thesis using ticks_to_nanos_floor [OF t] t by (simp add: u64_limit_def)
qed

end
