(* ===== verification/Spec2Isabelle.thy ===== *)
theory Spec2Isabelle
  imports Session_Safety Allocator_Safety Mounting Exactly_Once Publication_Machine Extent Ipc Block_Device Block_Queue Kernel_Time Boot Frames Heap_Window Elf Lifecycle
begin

text \<open>
  Rustic OS is a small operating system in Rust: a portable kernel library (\<open>src/kernel/src\<close>), the
  record formats between kernel and processes (\<open>src/crates/abi\<close>), a crash-safe volume library
  (\<open>src/crates/fs\<close>), a user-space SDK (\<open>src/crates/sdk\<close>) and services and applications above them.
  This development models the parts that carry the guarantees of the system and proves them.

  \<^bold>\<open>How the code is modelled.\<close> Every theory translates one group of source files; a struct is a
  \<open>record\<close>, an enum a \<open>datatype\<close>, a method one definition that takes the object and returns its result with
  the new object. \<open>Prelude\<close> fixes the vocabulary: the \<open>outcome\<close> of a fallible function is \<open>Ok\<close>, \<open>Err\<close>, or
  \<open>Panic\<close> for a failed \<open>unwrap\<close>, \<open>expect\<close>, \<open>assert!\<close> or arithmetic overflow, so that ``never panics'' is
  a statement of the theorems; \<open>or_return\<close> is Rust's \<open>?\<close> in a method with \<open>&mut self\<close>. Bytes, masks
  and tokens are machine words; lengths, offsets and addresses are natural numbers with the
  checked additions of the source written out (\<open>checked_add64\<close>).

  \<^bold>\<open>The kernel.\<close>
  \<^item> \<open>Handles\<close> (\<open>kernel/src/handles.rs\<close>): the capability table, \<open>grant\<close>, \<open>resolve\<close>, \<open>transfer\<close>,
    \<open>remove\<close>. A removed token never resolves again, transfers attenuate, quotas hold.
  \<^item> \<open>Ipc_Message\<close>, \<open>Ipc\<close> (\<open>abi/src/ipc.rs\<close>, \<open>kernel/src/ipc\<close>): the message record and the broker of
    channels with bounded inboxes over a handle table. A send refines appending to the inbox of the
    peer, a receive removing its head; open sides are named by exactly one handle; nothing panics.
  \<^item> \<open>Block_Abi\<close>, \<open>Block_Queue\<close>, \<open>Block_Device\<close> (\<open>abi/src/block\<close>, \<open>kernel/src/block\<close>): the block request
    records, the broker with one active request, confinement to granted sectors, the deadlines and the
    queue layout of the device.
  \<^item> \<open>Kernel_Time\<close>, \<open>Boot\<close> (\<open>kernel/src/time\<close>, \<open>kernel/src/boot\<close>): clock arithmetic, timer slots, the
    validation of the memory map.
  \<^item> \<open>Bitmap\<close>, \<open>Frames\<close> (\<open>kernel/src/memory\<close>): the frame allocator on two bitmaps. \<open>Heap_Window\<close>,
    \<open>Elf\<close>, \<open>Lifecycle\<close> (\<open>kernel/src/process\<close>): heap accounting, the ELF parser, the process table.
  \<^item> \<open>Paging\<close>, \<open>User_Memory\<close> (\<open>kernel/src/arch/x86_64/memory\<close>): page tables as words of physical frames,
    \<open>map_zeroed\<close>, \<open>unmap\<close>, \<open>child\<close>, \<open>destroy\<close>, the pages the kernel maps for a process and the bytes it
    copies. \<open>Page_Tree\<close> reads the words as a tree of frames (\<open>tree\<close>, \<open>space_inv\<close>); \<open>Page_Ops\<close>, \<open>Page_Map\<close>,
    \<open>Page_Space\<close>, \<open>Page_Unmap\<close> and \<open>Page_Destroy\<close> say what each operation does to it; \<open>User_Pages\<close>,
    \<open>User_Copy\<close> and \<open>Space_System\<close> lift this to runs of pages, bytes and many spaces; \<open>Space_Safety\<close>
    states isolation, all-or-nothing mapping and exact copies.

  \<^bold>\<open>The running kernel\<close> (\<open>kernel/src/process/runtime\<close>, the native configuration).
  \<^item> \<open>Loader\<close> (\<open>loader.rs\<close>) builds an address space from an ELF image; a loaded process sees exactly its image.
    \<open>Runtime_Abi\<close> has the manifest, the control words and the register frame, \<open>Kernel_Buffer\<close> the kernel's own
    buffers, \<open>Process_Calls\<close> the record of a process and its calls (\<open>syscall\<close>), \<open>Process_Manager\<close> the manager as one
    record \<open>kstate\<close> of process table, records, brokers, block service, staged image and physical memory, with
    creation, exit, collection, waiters and the launcher operations, \<open>Native_Runtime\<close> staging, console, control calls and the
    scheduling step \<open>kernel_step\<close>, \<open>Native_Session\<close> boot, loop and teardown of \<open>native/mod.rs\<close>.
  \<^item> \<open>Outcome_Logic\<close> has the rules for operations that return a result and a state. \<open>Kernel_Memory\<close> says who owns
    which frame, \<open>Kernel_Invariant\<close> is the invariant \<open>kernel_inv\<close> and the relation of an operation that works for one
    process; \<open>Process_Heap\<close>, \<open>Broker_Calls\<close>, \<open>Manager_Safety\<close>, \<open>Process_Birth\<close>, \<open>Launcher_Safety\<close>,
    \<open>Staging_Safety\<close>, \<open>Control_Safety\<close>, \<open>Call_Safety\<close>, \<open>Service_Safety\<close> and \<open>Frame_Pool\<close> show it for the
    operations in the order of the code, \<open>Kernel_Safety\<close> for the scheduling step, \<open>Session_Safety\<close> for every state after
    boot: no panic, no leak, no change of the memory of a process that did not have the turn.
  \<^item> Programs, the driver and the device are arguments. \<open>user_ok\<close>: a program in user mode changes only pages mapped
    writable for it (the paging unit) and leaves fifteen registers; \<open>driver_ok\<close>: the driver keeps the frame
    allocator sound and changes only frames it owns; \<open>answers_ok\<close>: a block from the device is a sector long. What a
    program computes and what a device answers are otherwise arbitrary.

  \<^bold>\<open>The volume\<close> (\<open>crates/fs\<close>, format 5). \<open>Fs_Base\<close> has the disk as an argument, the three functions of the trait
  \<open>Disk\<close>. \<open>Extent\<close>, \<open>Namespace\<close>, \<open>Format\<close>, \<open>Metadata\<close> and \<open>Recovery\<close> are the on-disk structures and their codecs,
  \<open>Volume\<close>, \<open>Mutations\<close>, \<open>Tracked\<close>, \<open>Records\<close> and \<open>Operations\<close> the operations of a mounted volume, \<open>Publication\<close> the state
  machine that writes a new generation.
  \<^item> \<open>Durability\<close> states what the code relies on as the locale \<open>durable_disk\<close>: a read returns what was last written,
    a successful flush makes everything written durable, a failed command answers and is no rollback, and a failed write
    leaves its sector torn: a prefix of the new bytes over the old ones. A crash leaves each sector as it was last
    made durable, as it was last written, or torn between the two. The in-memory disk of the crate's tests
    (\<open>tests/support/mod.rs\<close>, \<open>MemoryDisk\<close>), which fails after a number of commands and tears the sector, is an
    interpretation; so is an image that never fails (\<open>Mounting\<close>). Crashes in the middle of an operation are runs of the
    operation itself on \<open>cut_disk\<close>, which executes the first commands it is given and fails the rest without effect. Recovery
    tells an old header from a new one by a checksum of 32 bits; \<open>tear_detected\<close> is the hypothesis that the header at
    hand, when torn, is refused or equal to one of the two.
  \<^item> \<open>Durability\<close>, \<open>Replacement\<close>, \<open>Volume_System\<close>, \<open>Exactly_Once\<close> and \<open>Publication_Machine\<close> hold what makes the
    volume correct: at every crash point mounting gives exactly the old or exactly the new contents, a failed command
    fences the volume, replacement under a retry token happens exactly once, cancellation is safe. \<open>Panic_Free\<close> shows
    that no \<open>expect\<close> of the operations can fail, \<open>Mounting\<close> what \<open>Volume::mount\<close> does on any image. \<open>Example_Volume\<close> is
    the concrete volume of the witnesses.

  \<^bold>\<open>The SDK allocator\<close> (\<open>sdk/src/memory/region.rs\<close>, \<open>allocator.rs\<close>): \<open>Region\<close> and \<open>Allocator\<close> are the code,
  \<open>Allocator_Blocks\<close> the list of blocks its headers stand for, \<open>Allocator_Ops\<close>, \<open>Allocator_Alloc\<close>,
  \<open>Allocator_Free\<close> and \<open>Allocator_Resize\<close> the effect of each operation on that list, \<open>Allocator_System\<close> the
  locale \<open>block_heap\<close> with its interpretation on the code, \<open>Allocator_Safety\<close> the properties.

  \<^bold>\<open>Loops and bounds.\<close> Loops over fixed arrays are structural. The walks over blocks of a heap
  region, over chunks of a user buffer and over parents in the name space are functions with a termination proof (the
  length of the region, of the buffer, and the depth bound 32 of the source). The publication loop is
  a \<open>partial_function (option)\<close> and is proved to return. The scheduling loop runs as long as surroundings are given for its
  steps, any number of them. Four frames per page are enough
  for \<open>map_user_pages\<close> because a path has three tables.

  \<^bold>\<open>Not modelled.\<close> Formats 6 and 7 of the volume repeat the structure of format 5 with other
  layouts; the file service, the tasks crates and the applications are clients of the modelled
  interfaces. Device drivers, interrupt entry, serial diagnostics, the boot protocol and the bootstrap of the kernel's own
  tables run on hardware state that has no meaning outside the machine. The processor's translation
  caches have no state here. SHA-256 is a dependency outside the repository.
\<close>

end
